(* ===== verification/Prelude.thy ===== *)
theory Prelude
  imports Main "HOL-Library.Word"
begin

text \<open>
  Shared vocabulary of the development: C integer types as words, kernel error codes as a
  datatype, results that carry an error, and the generic lemmas on words, lists and
  options that the component theories share.

  Conventions used by every theory.  A C function that returns \<open>0\<close> or a negative errno
  returns \<open>errno + 'a\<close>: \<open>Inl e\<close> is the return value \<open>-e\<close> and \<open>Inr x\<close> is success with
  its results.  A function that changes state even when it fails returns a pair of the new
  state and such a value.  The outcome of a kernel allocation is an argument of the
  definition that makes it.  \<open>BUG_ON\<close> is a branch of its own, the value \<open>None\<close> of an
  option type, so that a theorem can state that it is not reached.  Locking calls that only
  bracket a critical section are left out: every operation is one atomic step.
\<close>

unbundle bit_operations_syntax

type_synonym u8 = "8 word"
type_synonym u16 = "16 word"
type_synonym u32 = "32 word"
type_synonym u64 = "64 word"

datatype errno = EPERM | EINVAL | ENOMEM | EBUSY | EFAULT | ERESTART | ERESTARTSYS | EAGAIN
  | ESRCH | ENOSPC | EEXIST | ENOSYS | ENODEV | EDEADLK | ENOENT

type_synonym 'a res = "errno + 'a"

definition PAGE_SIZE :: nat where "PAGE_SIZE = 4096"

named_theorems word_nat \<comment> \<open>rules that move word arithmetic to \<open>nat\<close>\<close>

section \<open>Words as naturals\<close>

lemma unat_add_nowrap [word_nat]:
  fixes a b :: "'a::len word"
  assumes "unat a + unat b < 2 ^ LENGTH('a)"
  shows "unat (a + b) = unat a + unat b"
  using assms by (simp add: unat_word_ariths)

lemma unat_sub_le [word_nat]:
  fixes a b :: "'a::len word"
  assumes "unat b \<le> unat a"
  shows "unat (a - b) = unat a - unat b"
  using assms by (simp add: unat_sub word_le_nat_alt)

lemma unat_le_iff [word_nat]: "(a :: 'a::len word) \<le> b \<longleftrightarrow> unat a \<le> unat b"
  by (rule word_le_nat_alt)

lemma unat_less_iff [word_nat]: "(a :: 'a::len word) < b \<longleftrightarrow> unat a < unat b"
  by (rule word_less_nat_alt)

lemma unat_lt64 [simp]: "unat (a :: u64) < 18446744073709551616"
  using unsigned_less [of a] by simp

lemma unat_lt32 [simp]: "unat (a :: u32) < 4294967296"
  using unsigned_less [of a] by simp

lemma unat_of_nat_lt: "x < 2 ^ LENGTH('a) \<Longrightarrow> unat (of_nat x :: 'a::len word) = x"
  by (simp add: unat_of_nat)

lemma unat_ucast_up64 [simp]: "unat (ucast (a :: u32) :: u64) = unat a"
  by (simp add: unsigned_ucast_eq take_bit_eq_mod less_trans [OF unat_lt32])

lemma unat_ucast_down32: "unat (ucast (a :: u64) :: u32) = unat a mod 4294967296"
  by (simp add: unsigned_ucast_eq take_bit_eq_mod)

lemma unat_minus_one64: "unat (- 1 :: u64) = 18446744073709551615"
  by (simp add: unsigned_minus_1_eq_mask mask_eq_exp_minus_1)

section \<open>Lists\<close>

lemma set_map_filter: "set (List.map_filter f xs) = {y. \<exists>x \<in> set xs. f x = Some y}"
  by (induction xs) (auto split: option.splits)

lemma distinct_map_inj_on: "distinct (map f xs) \<Longrightarrow> x \<in> set xs \<Longrightarrow> y \<in> set xs \<Longrightarrow> f x = f y \<Longrightarrow> x = y"
  by (induction xs) (auto simp: image_iff)

lemma distinct_singleton: "distinct xs \<Longrightarrow> set xs = {x} \<Longrightarrow> xs = [x]"
  by (cases xs; cases "tl xs") auto

lemma sum_list_map_list_update:
  fixes f :: "'a \<Rightarrow> nat"
  assumes "i < length xs"
  shows "sum_list (map f (xs[i := x])) + f (xs ! i) = sum_list (map f xs) + f x"
  using assms by (induction xs arbitrary: i) (auto split: nat.split)

end
