(* ===== verification/Prog.thy ===== *)
theory Prog
  imports Prelude
begin

text \<open>
  Programs that pass a state along, return an error or a result, and may hit a BUG.  The
  operations of the command verifier and of the resources are written with these combinators;
  the locale \<open>step_relation\<close> is about any reflexive and transitive relation between the states
  before and after an operation: when the parts of an operation stay within the relation, so
  does the operation.
\<close>

type_synonym ('s, 'a) prog = "'s \<Rightarrow> ('s \<times> 'a res) option"

definition ok :: "'a \<Rightarrow> ('s, 'a) prog" where "ok x s = Some (s, Inr x)"

definition fail :: "errno \<Rightarrow> ('s, 'a) prog" where "fail e s = Some (s, Inl e)"

definition crash :: "('s, 'a) prog" where "crash s = None"

definition gets :: "('s \<Rightarrow> ('s, 'a) prog) \<Rightarrow> ('s, 'a) prog" where "gets k s = k s s"

definition modify :: "('s \<Rightarrow> 's) \<Rightarrow> ('s, unit) prog" where "modify f s = Some (f s, Inr ())"

text \<open>\<open>ret = f(...); if (ret != 0) return ret; ...\<close>\<close>

definition chain :: "('s, 'a) prog \<Rightarrow> ('a \<Rightarrow> ('s, 'b) prog) \<Rightarrow> ('s, 'b) prog" where
  "chain m k s = (case m s of
      None \<Rightarrow> None
    | Some (s', Inl e) \<Rightarrow> Some (s', Inl e)
    | Some (s', Inr x) \<Rightarrow> k x s')"

definition andthen :: "('s, unit) prog \<Rightarrow> ('s, 'b) prog \<Rightarrow> ('s, 'b) prog" where
  "andthen m k = chain m (\<lambda>_. k)"

text \<open>Something that is done on the way out whatever the result is, and something that is done on
  an error path.\<close>

definition cleanup :: "('s \<Rightarrow> 's) \<Rightarrow> ('s, 'a) prog \<Rightarrow> ('s, 'a) prog" where
  "cleanup f m s = (case m s of None \<Rightarrow> None | Some (s', r) \<Rightarrow> Some (f s', r))"

definition on_error :: "(errno \<Rightarrow> ('s, 'a) prog) \<Rightarrow> ('s, 'a) prog \<Rightarrow> ('s, 'a) prog" where
  "on_error h m s = (case m s of
      None \<Rightarrow> None
    | Some (s', Inl e) \<Rightarrow> h e s'
    | Some (s', Inr x) \<Rightarrow> Some (s', Inr x))"

definition outcome :: "'a res \<Rightarrow> ('s, 'a) prog" where
  "outcome r s = Some (s, r)"

fun for_each :: "('c \<Rightarrow> ('s, unit) prog) \<Rightarrow> 'c list \<Rightarrow> ('s, unit) prog" where
  "for_each f [] = ok ()"
| "for_each f (a # as) = andthen (f a) (for_each f as)"

section \<open>Relations between the states before and after\<close>

definition keeps :: "('s \<Rightarrow> 's \<Rightarrow> bool) \<Rightarrow> ('s, 'a) prog \<Rightarrow> 's \<Rightarrow> bool" where
  "keeps R m s \<longleftrightarrow> (\<forall>s' r. m s = Some (s', r) \<longrightarrow> R s s')"

lemma keepsD: "keeps R m s \<Longrightarrow> m s = Some (s', r) \<Longrightarrow> R s s'"
  by (simp add: keeps_def)

named_theorems exec_simps \<comment> \<open>running the combinators\<close>

lemma run_simps [exec_simps]:
  "ok x s = Some (s, Inr x)" "fail e s = Some (s, Inl e)" "crash s = None" "gets k s = k s s"
  "modify f s = Some (f s, Inr ())" "outcome r s = Some (s, r)"
  by (simp_all add: ok_def fail_def crash_def gets_def modify_def outcome_def)

lemma chain_Some [exec_simps]:
  "chain m k s = Some (s', Inr y) \<longleftrightarrow> (\<exists>s1 x. m s = Some (s1, Inr x) \<and> k x s1 = Some (s', Inr y))"
  by (auto simp: chain_def split: option.splits sum.splits prod.splits)

lemma chain_cases:
  assumes "chain m k s = Some (s', r)"
  obtains (err) e where "m s = Some (s', Inl e)" "r = Inl e"
  | (run) s1 x where "m s = Some (s1, Inr x)" "k x s1 = Some (s', r)"
  using assms by (auto simp: chain_def split: option.splits sum.splits prod.splits)

lemma andthen_Some [exec_simps]:
  "andthen m k s = Some (s', Inr y) \<longleftrightarrow> (\<exists>s1. m s = Some (s1, Inr ()) \<and> k s1 = Some (s', Inr y))"
  by (simp add: andthen_def chain_Some)

lemma cleanup_Some [exec_simps]:
  "cleanup f m s = Some (s', r) \<longleftrightarrow> (\<exists>s1. m s = Some (s1, r) \<and> s' = f s1)"
  by (auto simp: cleanup_def split: option.splits prod.splits)

lemma on_error_Some:
  "on_error h m s = Some (s', Inr y) \<longleftrightarrow>
     m s = Some (s', Inr y) \<or> (\<exists>s1 e. m s = Some (s1, Inl e) \<and> h e s1 = Some (s', Inr y))"
  by (auto simp: on_error_def split: option.splits sum.splits prod.splits)

locale step_relation =
  fixes R :: "'s \<Rightarrow> 's \<Rightarrow> bool"
  assumes refl [simp]: "R s s"
    and trans: "R s s1 \<Longrightarrow> R s1 s2 \<Longrightarrow> R s s2"
begin

lemma k_ok: "keeps R (ok x) s"
  by (simp add: keeps_def run_simps)

lemma k_fail: "keeps R (fail e) s"
  by (simp add: keeps_def run_simps)

lemma k_crash: "keeps R crash s"
  by (simp add: keeps_def run_simps)

lemma k_outcome: "keeps R (outcome r) s"
  by (simp add: keeps_def run_simps)

lemma k_gets: "keeps R (k s) s \<Longrightarrow> keeps R (gets k) s"
  by (simp add: keeps_def run_simps)

lemma k_modify: "R s (f s) \<Longrightarrow> keeps R (modify f) s"
  by (simp add: keeps_def run_simps)

lemma k_chain:
  assumes "keeps R m s" "\<And>s1 x. m s = Some (s1, Inr x) \<Longrightarrow> keeps R (k x) s1"
  shows "keeps R (chain m k) s"
  unfolding keeps_def
proof (intro allI impI)
  fix s' r assume "chain m k s = Some (s', r)"
  then show "R s s'"
    by (cases rule: chain_cases) (use assms in \<open>auto simp: keeps_def intro: trans\<close>)
qed

lemma k_andthen:
  assumes "keeps R m s" "\<And>s1. m s = Some (s1, Inr ()) \<Longrightarrow> keeps R k s1"
  shows "keeps R (andthen m k) s"
  unfolding andthen_def by (rule k_chain) (use assms in auto)

lemma k_cleanup:
  assumes "keeps R m s" "\<And>s1 r. m s = Some (s1, r) \<Longrightarrow> R s1 (f s1)"
  shows "keeps R (cleanup f m) s"
  using assms unfolding keeps_def cleanup_Some by (blast intro: trans)

lemma k_on_error:
  assumes "keeps R m s" "\<And>s1 e. m s = Some (s1, Inl e) \<Longrightarrow> keeps R (h e) s1"
  shows "keeps R (on_error h m) s"
  using assms unfolding keeps_def on_error_def
  by (auto split: option.splits sum.splits prod.splits intro: trans)

lemma k_if: "(b \<Longrightarrow> keeps R m s) \<Longrightarrow> (\<not> b \<Longrightarrow> keeps R n s) \<Longrightarrow> keeps R (if b then m else n) s"
  by simp

lemma k_option:
  "(x = None \<Longrightarrow> keeps R m s) \<Longrightarrow> (\<And>y. x = Some y \<Longrightarrow> keeps R (k y) s) \<Longrightarrow>
   keeps R (case x of None \<Rightarrow> m | Some y \<Rightarrow> k y) s"
  by (cases x) auto

lemma k_let: "keeps R (k x) s \<Longrightarrow> keeps R (let y = x in k y) s"
  by simp

lemma k_for_each: "(\<And>a s. a \<in> set as \<Longrightarrow> keeps R (f a) s) \<Longrightarrow> keeps R (for_each f as) s"
proof (induction as arbitrary: s)
  case Nil
  then show ?case by (simp add: k_ok)
next
  case (Cons a as)
  show ?case unfolding for_each.simps by (rule k_andthen) (use Cons in auto)
qed

lemmas k_rules = k_ok k_fail k_crash k_outcome k_gets k_chain k_andthen k_on_error k_if k_option k_let

end

section \<open>Programs that always return\<close>

text \<open>The program does not hit a BUG, and the state and result it returns satisfy \<open>Q\<close>.\<close>

definition returns :: "('s, 'a) prog \<Rightarrow> 's \<Rightarrow> ('s \<Rightarrow> 'a res \<Rightarrow> bool) \<Rightarrow> bool" where
  "returns m s Q \<longleftrightarrow> (case m s of None \<Rightarrow> False | Some (s', x) \<Rightarrow> Q s' x)"

named_theorems returns_simps \<comment> \<open>what a program returns, by its outermost combinator\<close>

lemma returns_iff: "returns m s Q \<longleftrightarrow> (\<exists>s' x. m s = Some (s', x) \<and> Q s' x)"
  by (auto simp: returns_def split: option.splits)

lemma returnsD: "returns m s Q \<Longrightarrow> m s = Some (s', x) \<Longrightarrow> Q s' x"
  by (simp add: returns_def)

lemma returnsE: "returns m s Q \<Longrightarrow> (\<And>s' x. m s = Some (s', x) \<Longrightarrow> Q s' x \<Longrightarrow> P) \<Longrightarrow> P"
  by (auto simp: returns_iff)

lemma returns_mono: "returns m s P \<Longrightarrow> (\<And>s' x. m s = Some (s', x) \<Longrightarrow> P s' x \<Longrightarrow> Q s' x) \<Longrightarrow> returns m s Q"
  by (auto simp: returns_iff)

lemma returns_conj: "returns m s P \<Longrightarrow> keeps R m s \<Longrightarrow> returns m s (\<lambda>s' x. P s' x \<and> R s s')"
  by (auto simp: returns_iff keeps_def)

lemma returns_basic [returns_simps]:
  "returns (ok x) s Q = Q s (Inr x)" "returns (fail e) s Q = Q s (Inl e)" "returns crash s Q = False"
  "returns (gets k) s Q = returns (k s) s Q" "returns (outcome r) s Q = Q s r"
  by (simp_all add: returns_def run_simps)

lemma returns_modify [returns_simps]: "returns (modify f) s Q = Q (f s) (Inr ())"
  by (simp add: returns_def run_simps)

lemma returns_chain [returns_simps]:
  "returns (chain m k) s Q = returns m s (\<lambda>s1 x. case x of Inl e \<Rightarrow> Q s1 (Inl e) | Inr y \<Rightarrow> returns (k y) s1 Q)"
  by (simp add: returns_def chain_def split: option.split sum.split prod.split)

lemma returns_andthen [returns_simps]:
  "returns (andthen m k) s Q = returns m s (\<lambda>s1 x. case x of Inl e \<Rightarrow> Q s1 (Inl e) | Inr y \<Rightarrow> returns k s1 Q)"
  by (simp add: andthen_def returns_chain)

lemma returns_cleanup [returns_simps]: "returns (cleanup f m) s Q = returns m s (\<lambda>s1 x. Q (f s1) x)"
  by (simp add: returns_def cleanup_def split: option.split prod.split)

lemma returns_on_error [returns_simps]:
  "returns (on_error h m) s Q = returns m s (\<lambda>s1 x. case x of Inl e \<Rightarrow> returns (h e) s1 Q | Inr y \<Rightarrow> Q s1 (Inr y))"
  by (simp add: returns_def on_error_def split: option.split sum.split prod.split)

lemma returns_if [returns_simps]:
  "returns (if b then m else n) s Q = (if b then returns m s Q else returns n s Q)"
  by simp

end
