(* ===== verification/Ctx_Binding.thy ===== *)
theory Ctx_Binding
  imports Prelude
begin

text \<open>
  The tracking of what is bound to a context, \<open>src/vmwgfx_context.c\<close>: which surfaces and
  shaders the device has bound to the render targets, texture units and shader stages of each
  context, so that bindings can be scrubbed from the device before a resource goes away and
  bound again when it is back.

  A tracker has one storage place per render target, texture unit and shader stage; a place is
  named by its kind and index.  Trackers are named by \<open>cbs_ref\<close>: the persistent one of a
  context, and the temporary ones a batch builds.  Each resource has the list of the places it
  is bound to.  The scrub functions reserve room in the FIFO: \<open>room n\<close> says whether the n-th
  reservation succeeds, and \<open>sent\<close> is the list of commands committed so far.
\<close>

section \<open>State\<close>

datatype vmw_ctx_binding_type = vmw_ctx_binding_shader | vmw_ctx_binding_rt | vmw_ctx_binding_tex

definition SVGA3D_RT_MAX :: nat where "SVGA3D_RT_MAX = 10"
definition SVGA3D_NUM_TEXTURE_UNITS :: nat where "SVGA3D_NUM_TEXTURE_UNITS = 32"
definition SVGA3D_SHADERTYPE_MAX :: nat where "SVGA3D_SHADERTYPE_MAX = 3"
definition SVGA3D_INVALID_ID :: u32 where "SVGA3D_INVALID_ID = - 1"
definition SVGA3D_TS_BIND_TEXTURE :: u32 where "SVGA3D_TS_BIND_TEXTURE = 1"

record vmw_ctx_bindinfo =
  bi_ctx :: "nat option" \<comment> \<open>\<open>None\<close>: the place is not in use\<close>
  bi_res :: "nat option"
  bi_bt :: vmw_ctx_binding_type
  bi_scrubbed :: bool
  bi_i1 :: u32

type_synonym slot = "vmw_ctx_binding_type \<times> nat"

datatype cbs_ref = Staged nat | Context nat

record vmw_ctx_binding_state =
  cb_list :: "slot list"
  cb_at :: "slot \<Rightarrow> vmw_ctx_bindinfo"

text \<open>What is sent to the device: the commands the driver makes itself, about the objects of the device
  and about what is bound to a context, and the batches of clients, query barriers and fences.\<close>

datatype object_kind = Context_object | Surface_object | Shader_object

datatype object_cmd =
    CmdDefine object_kind u32 "u32 list" \<comment> \<open>with the other fields of the body\<close>
  | CmdDestroy object_kind u32
  | CmdBind object_kind u32 u32 "u32 list" \<comment> \<open>to a memory object\<close>
  | CmdUpdate object_kind u32
  | CmdReadback object_kind u32
  | CmdInvalidate object_kind u32
  | CmdSurfaceDma u32 u32 u32 bool

datatype scrub_cmd =
    CmdSetShader u32 u32 u32
  | CmdSetRenderTarget u32 u32 u32
  | CmdSetTextureState u32 u32 u32 u32
  | CmdObject object_cmd
  | CmdBatch "8 word list"
  | CmdDummyQuery "u32 list"
  | CmdFence u32

record bindings =
  cbs :: "cbs_ref \<Rightarrow> vmw_ctx_binding_state"
  binding_head :: "nat \<Rightarrow> (cbs_ref \<times> slot) list"
  hw_id :: "nat \<Rightarrow> u32" \<comment> \<open>\<open>res->id\<close>\<close>
  sent :: "scrub_cmd list"
  room :: "nat \<Rightarrow> bool"
  tries :: nat

definition bi_slot :: "vmw_ctx_bindinfo \<Rightarrow> slot" where
  "bi_slot bi = (bi_bt bi, unat (bi_i1 bi))"

definition slot_limit :: "vmw_ctx_binding_type \<Rightarrow> nat" where
  "slot_limit bt = (case bt of
       vmw_ctx_binding_rt \<Rightarrow> SVGA3D_RT_MAX
     | vmw_ctx_binding_tex \<Rightarrow> SVGA3D_NUM_TEXTURE_UNITS
     | vmw_ctx_binding_shader \<Rightarrow> SVGA3D_SHADERTYPE_MAX)"

definition info :: "bindings \<Rightarrow> cbs_ref \<Rightarrow> slot \<Rightarrow> vmw_ctx_bindinfo" where
  "info w c s = cb_at (cbs w c) s"

definition upd_info :: "cbs_ref \<Rightarrow> slot \<Rightarrow> (vmw_ctx_bindinfo \<Rightarrow> vmw_ctx_bindinfo) \<Rightarrow> bindings \<Rightarrow> bindings" where
  "upd_info c s f w = w\<lparr>cbs := (cbs w)(c := (cbs w c)\<lparr>cb_at := (cb_at (cbs w c))(s := f (cb_at (cbs w c) s))\<rparr>)\<rparr>"

definition upd_list :: "cbs_ref \<Rightarrow> (slot list \<Rightarrow> slot list) \<Rightarrow> bindings \<Rightarrow> bindings" where
  "upd_list c f w = w\<lparr>cbs := (cbs w)(c := (cbs w c)\<lparr>cb_list := f (cb_list (cbs w c))\<rparr>)\<rparr>"

section \<open>Scrub functions\<close>

definition ctx_hw_id :: "bindings \<Rightarrow> vmw_ctx_bindinfo \<Rightarrow> u32" where
  "ctx_hw_id w bi = hw_id w (the (bi_ctx bi))"

definition bind_target :: "bindings \<Rightarrow> vmw_ctx_bindinfo \<Rightarrow> bool \<Rightarrow> u32" where
  "bind_target w bi rebind = (if rebind then hw_id w (the (bi_res bi)) else SVGA3D_INVALID_ID)"

text \<open>Reserving, filling in and committing one command.\<close>

definition submit :: "scrub_cmd \<Rightarrow> bindings \<Rightarrow> bindings \<times> unit res" where
  "submit c w = (let w1 = w\<lparr>tries := Suc (tries w)\<rparr> in
     if room w (tries w) then (w1\<lparr>sent := sent w @ [c]\<rparr>, Inr ()) else (w1, Inl ENOMEM))"

definition vmw_context_scrub_shader :: "vmw_ctx_bindinfo \<Rightarrow> bool \<Rightarrow> bindings \<Rightarrow> bindings \<times> unit res" where
  "vmw_context_scrub_shader bi rebind w =
     submit (CmdSetShader (ctx_hw_id w bi) (bi_i1 bi) (bind_target w bi rebind)) w"

definition vmw_context_scrub_render_target :: "vmw_ctx_bindinfo \<Rightarrow> bool \<Rightarrow> bindings \<Rightarrow> bindings \<times> unit res" where
  "vmw_context_scrub_render_target bi rebind w =
     submit (CmdSetRenderTarget (ctx_hw_id w bi) (bi_i1 bi) (bind_target w bi rebind)) w"

definition vmw_context_scrub_texture :: "vmw_ctx_bindinfo \<Rightarrow> bool \<Rightarrow> bindings \<Rightarrow> bindings \<times> unit res" where
  "vmw_context_scrub_texture bi rebind w =
     submit (CmdSetTextureState (ctx_hw_id w bi) (bi_i1 bi) SVGA3D_TS_BIND_TEXTURE (bind_target w bi rebind)) w"

definition vmw_scrub_funcs :: "vmw_ctx_binding_type \<Rightarrow> vmw_ctx_bindinfo \<Rightarrow> bool \<Rightarrow> bindings \<Rightarrow> bindings \<times> unit res" where
  "vmw_scrub_funcs bt = (case bt of
       vmw_ctx_binding_shader \<Rightarrow> vmw_context_scrub_shader
     | vmw_ctx_binding_rt \<Rightarrow> vmw_context_scrub_render_target
     | vmw_ctx_binding_tex \<Rightarrow> vmw_context_scrub_texture)"

section \<open>Tracking\<close>

definition vmw_context_binding_drop :: "cbs_ref \<Rightarrow> slot \<Rightarrow> bindings \<Rightarrow> bindings" where
  "vmw_context_binding_drop c s w =
     upd_info c s (\<lambda>bi. bi\<lparr>bi_ctx := None\<rparr>)
       ((upd_list c (remove1 s) w)\<lparr>binding_head := (\<lambda>r. remove1 (c, s) (binding_head w r))\<rparr>)"

definition drop_used :: "cbs_ref \<Rightarrow> slot \<Rightarrow> bindings \<Rightarrow> bindings" where
  "drop_used c s w = (if bi_ctx (info w c s) \<noteq> None then vmw_context_binding_drop c s w else w)"

definition vmw_context_binding_add :: "cbs_ref \<Rightarrow> vmw_ctx_bindinfo \<Rightarrow> bindings \<Rightarrow> bindings \<times> unit res" where
  "vmw_context_binding_add c bi w =
     (if unat (bi_i1 bi) \<ge> slot_limit (bi_bt bi) then (w, Inl EINVAL)
      else (let s = bi_slot bi; w1 = drop_used c s w in
        (upd_list c (\<lambda>l. l @ [s]) (upd_info c s (\<lambda>_. bi\<lparr>bi_scrubbed := False\<rparr>) w1), Inr ())))"

definition vmw_context_binding_transfer :: "cbs_ref \<Rightarrow> vmw_ctx_bindinfo \<Rightarrow> bindings \<Rightarrow> bindings" where
  "vmw_context_binding_transfer c bi w =
     (let s = bi_slot bi; w1 = drop_used c s w in
      case bi_res bi of
        None \<Rightarrow> w1
      | Some r \<Rightarrow> (upd_list c (\<lambda>l. l @ [s]) (upd_info c s (\<lambda>_. bi) w1))
            \<lparr>binding_head := (binding_head w1)(r := binding_head w1 r @ [(c, s)])\<rparr>)"

definition scrub_place :: "cbs_ref \<times> slot \<Rightarrow> bindings \<Rightarrow> bindings" where
  "scrub_place p w = (let (c, s) = p; bi = info w c s in
     if \<not> bi_scrubbed bi
     then upd_info c s (\<lambda>bi. bi\<lparr>bi_scrubbed := True\<rparr>) (fst (vmw_scrub_funcs (bi_bt bi) bi False w))
     else w)"

definition vmw_context_binding_kill :: "cbs_ref \<times> slot \<Rightarrow> bindings \<Rightarrow> bindings" where
  "vmw_context_binding_kill p w = vmw_context_binding_drop (fst p) (snd p) (scrub_place p w)"

definition vmw_context_binding_state_kill :: "cbs_ref \<Rightarrow> bindings \<Rightarrow> bindings" where
  "vmw_context_binding_state_kill c w =
     fold vmw_context_binding_kill (map (Pair c) (cb_list (cbs w c))) w"

definition vmw_context_binding_state_scrub :: "cbs_ref \<Rightarrow> bindings \<Rightarrow> bindings" where
  "vmw_context_binding_state_scrub c w = fold scrub_place (map (Pair c) (cb_list (cbs w c))) w"

definition vmw_context_binding_res_list_kill :: "nat \<Rightarrow> bindings \<Rightarrow> bindings" where
  "vmw_context_binding_res_list_kill r w = fold vmw_context_binding_kill (binding_head w r) w"

definition vmw_context_binding_res_list_scrub :: "nat \<Rightarrow> bindings \<Rightarrow> bindings" where
  "vmw_context_binding_res_list_scrub r w = fold scrub_place (binding_head w r) w"

definition vmw_context_binding_state_transfer :: "nat \<Rightarrow> cbs_ref \<Rightarrow> bindings \<Rightarrow> bindings" where
  "vmw_context_binding_state_transfer ctx from w =
     fold (\<lambda>s w. vmw_context_binding_transfer (Context ctx) (info w from s) w) (cb_list (cbs w from)) w"

text \<open>A binding without a resource, or whose resource has no id, is passed over with a
  warning.\<close>

fun rebind_loop :: "cbs_ref \<Rightarrow> slot list \<Rightarrow> bindings \<Rightarrow> bindings \<times> unit res" where
  "rebind_loop c [] w = (w, Inr ())"
| "rebind_loop c (s # ss) w =
     (let bi = info w c s in
      if \<not> bi_scrubbed bi then rebind_loop c ss w
      else if bi_res bi = None \<or> hw_id w (the (bi_res bi)) = SVGA3D_INVALID_ID then rebind_loop c ss w
      else case vmw_scrub_funcs (bi_bt bi) bi True w of
             (w1, Inl e) \<Rightarrow> (w1, Inl e)
           | (w1, Inr _) \<Rightarrow> rebind_loop c ss (upd_info c s (\<lambda>bi. bi\<lparr>bi_scrubbed := False\<rparr>) w1))"

definition vmw_context_rebind_all :: "nat \<Rightarrow> bindings \<Rightarrow> bindings \<times> unit res" where
  "vmw_context_rebind_all ctx w = rebind_loop (Context ctx) (cb_list (cbs w (Context ctx))) w"

definition vmw_context_binding_list :: "nat \<Rightarrow> bindings \<Rightarrow> slot list" where
  "vmw_context_binding_list ctx w = cb_list (cbs w (Context ctx))"

section \<open>Invariant\<close>

text \<open>What a tracker says: the binding at a place, when the place is in use.\<close>

definition bound :: "bindings \<Rightarrow> cbs_ref \<times> slot \<Rightarrow> vmw_ctx_bindinfo option" where
  "bound w p = (let bi = info w (fst p) (snd p) in if bi_ctx bi = None then None else Some bi)"

definition persistent :: "cbs_ref \<Rightarrow> bool" where
  "persistent c = (case c of Context _ \<Rightarrow> True | Staged _ \<Rightarrow> False)"

text \<open>The places the trackers of contexts have resource \<open>r\<close> bound to.\<close>

definition bound_to :: "bindings \<Rightarrow> nat \<Rightarrow> (cbs_ref \<times> slot) set" where
  "bound_to w r = {p. persistent (fst p) \<and> (\<exists>bi. bound w p = Some bi \<and> bi_res bi = Some r)}"

text \<open>The list of a tracker enumerates its places in use, a place holds a binding of its own
  kind and index, what a context tracks is bound to that context and names a resource, and the
  list of a resource enumerates the places it is bound to.\<close>

definition bind_inv :: "bindings \<Rightarrow> bool" where
  "bind_inv w \<longleftrightarrow>
     (\<forall>c. distinct (cb_list (cbs w c)) \<and> set (cb_list (cbs w c)) = {s. bound w (c, s) \<noteq> None}) \<and>
     (\<forall>c s bi. bound w (c, s) = Some bi \<longrightarrow> bi_slot bi = s \<and> snd s < slot_limit (fst s)) \<and>
     (\<forall>x s bi. bound w (Context x, s) = Some bi \<longrightarrow> bi_ctx bi = Some x \<and> bi_res bi \<noteq> None) \<and>
     (\<forall>r. distinct (binding_head w r) \<and> set (binding_head w r) = bound_to w r)"

lemma bind_invD:
  assumes "bind_inv w"
  shows "distinct (cb_list (cbs w c))" "set (cb_list (cbs w c)) = {s. bound w (c, s) \<noteq> None}"
    "bound w (c, s) = Some bi \<Longrightarrow> bi_slot bi = s" "bound w (c, s) = Some bi \<Longrightarrow> snd s < slot_limit (fst s)"
    "bound w (Context x, s) = Some bi \<Longrightarrow> bi_ctx bi = Some x"
    "bound w (Context x, s) = Some bi \<Longrightarrow> bi_res bi \<noteq> None"
    "distinct (binding_head w r)" "set (binding_head w r) = bound_to w r"
  using assms unfolding bind_inv_def by blast+

lemma bind_invI:
  assumes "\<And>c. distinct (cb_list (cbs w c))" "\<And>c. set (cb_list (cbs w c)) = {s. bound w (c, s) \<noteq> None}"
    "\<And>c s bi. bound w (c, s) = Some bi \<Longrightarrow> bi_slot bi = s \<and> snd s < slot_limit (fst s)"
    "\<And>x s bi. bound w (Context x, s) = Some bi \<Longrightarrow> bi_ctx bi = Some x \<and> bi_res bi \<noteq> None"
    "\<And>r. distinct (binding_head w r)" "\<And>r. set (binding_head w r) = bound_to w r"
  shows "bind_inv w"
  unfolding bind_inv_def using assms by blast

named_theorems bind_simps \<comment> \<open>what each operation does to the parts of the state\<close>

lemma upd_info_parts [bind_simps]:
  "cb_list (cbs (upd_info c s f w) d) = cb_list (cbs w d)" "binding_head (upd_info c s f w) = binding_head w"
  "hw_id (upd_info c s f w) = hw_id w" "sent (upd_info c s f w) = sent w" "room (upd_info c s f w) = room w"
  "tries (upd_info c s f w) = tries w"
  "info (upd_info c s f w) d t = (if (d, t) = (c, s) then f (info w c s) else info w d t)"
  by (simp_all add: upd_info_def info_def)

lemma upd_list_parts [bind_simps]:
  "cb_list (cbs (upd_list c g w) d) = (if d = c then g (cb_list (cbs w c)) else cb_list (cbs w d))"
  "binding_head (upd_list c g w) = binding_head w" "hw_id (upd_list c g w) = hw_id w"
  "sent (upd_list c g w) = sent w" "room (upd_list c g w) = room w" "tries (upd_list c g w) = tries w"
  "info (upd_list c g w) d t = info w d t"
  by (simp_all add: upd_list_def info_def)

lemma info_head [bind_simps]: "info (w\<lparr>binding_head := h\<rparr>) d t = info w d t"
  by (simp add: info_def)

lemma drop_parts [bind_simps]:
  "cb_list (cbs (vmw_context_binding_drop c s w) d) =
     (if d = c then remove1 s (cb_list (cbs w c)) else cb_list (cbs w d))"
  "binding_head (vmw_context_binding_drop c s w) r = remove1 (c, s) (binding_head w r)"
  "bound (vmw_context_binding_drop c s w) = (bound w)((c, s) := None)"
  "hw_id (vmw_context_binding_drop c s w) = hw_id w" "sent (vmw_context_binding_drop c s w) = sent w"
  "room (vmw_context_binding_drop c s w) = room w" "tries (vmw_context_binding_drop c s w) = tries w"
  by (auto simp: vmw_context_binding_drop_def bind_simps bound_def Let_def intro!: ext)

lemma submit_parts [bind_simps]:
  "cbs (fst (submit x w)) = cbs w" "binding_head (fst (submit x w)) = binding_head w"
  "hw_id (fst (submit x w)) = hw_id w" "room (fst (submit x w)) = room w" "tries (fst (submit x w)) = Suc (tries w)"
  "sent (fst (submit x w)) = (if room w (tries w) then sent w @ [x] else sent w)"
  "snd (submit x w) = (if room w (tries w) then Inr () else Inl ENOMEM)"
  "info (fst (submit x w)) d t = info w d t"
  by (simp_all add: submit_def info_def Let_def)

text \<open>The command a scrub function sends.\<close>

definition scrub_command :: "bindings \<Rightarrow> vmw_ctx_bindinfo \<Rightarrow> bool \<Rightarrow> scrub_cmd" where
  "scrub_command w bi rebind = (let cid = ctx_hw_id w bi; t = bind_target w bi rebind in
     case bi_bt bi of
       vmw_ctx_binding_shader \<Rightarrow> CmdSetShader cid (bi_i1 bi) t
     | vmw_ctx_binding_rt \<Rightarrow> CmdSetRenderTarget cid (bi_i1 bi) t
     | vmw_ctx_binding_tex \<Rightarrow> CmdSetTextureState cid (bi_i1 bi) SVGA3D_TS_BIND_TEXTURE t)"

lemma scrub_funcs_submit: "vmw_scrub_funcs (bi_bt bi) bi rebind w = submit (scrub_command w bi rebind) w"
  by (simp add: vmw_scrub_funcs_def scrub_command_def vmw_context_scrub_shader_def Let_def
      vmw_context_scrub_render_target_def vmw_context_scrub_texture_def split: vmw_ctx_binding_type.split)

definition mark_scrubbed :: "bool \<Rightarrow> vmw_ctx_bindinfo option \<Rightarrow> vmw_ctx_bindinfo option" where
  "mark_scrubbed b = map_option (\<lambda>bi. bi\<lparr>bi_scrubbed := b\<rparr>)"

lemma mark_scrubbed_simps [simp]:
  "mark_scrubbed b None = None" "mark_scrubbed b (Some bi) = Some (bi\<lparr>bi_scrubbed := b\<rparr>)"
  by (simp_all add: mark_scrubbed_def)

lemma scrub_parts [bind_simps]:
  "cb_list (cbs (scrub_place p w) d) = cb_list (cbs w d)" "binding_head (scrub_place p w) = binding_head w"
  "hw_id (scrub_place p w) = hw_id w" "room (scrub_place p w) = room w"
  by (cases p; simp add: scrub_place_def scrub_funcs_submit bind_simps Let_def)+

lemma scrub_bound [bind_simps]: "bound (scrub_place p w) = (bound w)(p := mark_scrubbed True (bound w p))"
proof
  fix q
  have "bi\<lparr>bi_scrubbed := True\<rparr> = bi" if "bi_scrubbed bi" for bi :: vmw_ctx_bindinfo using that by simp
  then show "bound (scrub_place p w) q = ((bound w)(p := mark_scrubbed True (bound w p))) q"
    by (cases p; cases q) (auto simp: scrub_place_def scrub_funcs_submit bind_simps Let_def bound_def)
qed

lemma kill_parts [bind_simps]:
  "cb_list (cbs (vmw_context_binding_kill p w) d) =
     (if d = fst p then remove1 (snd p) (cb_list (cbs w d)) else cb_list (cbs w d))"
  "binding_head (vmw_context_binding_kill p w) r = remove1 p (binding_head w r)"
  "bound (vmw_context_binding_kill p w) = (bound w)(p := None)"
  "hw_id (vmw_context_binding_kill p w) = hw_id w" "room (vmw_context_binding_kill p w) = room w"
  by (simp_all add: vmw_context_binding_kill_def bind_simps)

section \<open>The operations keep the invariant\<close>

text \<open>A place leaves its tracker and the list of its resource.\<close>

lemma release_inv:
  assumes inv: "bind_inv w" and b: "bound w p \<noteq> None"
    and lst: "\<And>d. cb_list (cbs w' d) = (if d = fst p then remove1 (snd p) (cb_list (cbs w d)) else cb_list (cbs w d))"
    and hd: "\<And>r. binding_head w' r = remove1 p (binding_head w r)"
    and bnd: "bound w' = (bound w)(p := None)"
  shows "bind_inv w'"
proof (rule bind_invI)
  fix c
  note D = bind_invD [OF inv]
  show "distinct (cb_list (cbs w' c))" using D(1) by (simp add: lst)
  show "set (cb_list (cbs w' c)) = {s. bound w' (c, s) \<noteq> None}"
    using D(1) [of c] D(2) [of c] by (cases p) (auto simp: lst bnd)
next
  fix c s bi assume "bound w' (c, s) = Some bi"
  then show "bi_slot bi = s \<and> snd s < slot_limit (fst s)"
    using bind_invD(3,4) [OF inv] by (auto simp: bnd split: if_splits)
next
  fix x s bi assume "bound w' (Context x, s) = Some bi"
  then show "bi_ctx bi = Some x \<and> bi_res bi \<noteq> None"
    using bind_invD(5,6) [OF inv] by (auto simp: bnd split: if_splits)
next
  fix r
  show "distinct (binding_head w' r)" using bind_invD(7) [OF inv] by (simp add: hd)
  show "set (binding_head w' r) = bound_to w' r"
    using bind_invD(7,8) [OF inv, of r] by (auto simp: hd bound_to_def bnd split: if_splits)
qed

lemma drop_inv: "bind_inv w \<Longrightarrow> bound w (c, s) \<noteq> None \<Longrightarrow> bind_inv (vmw_context_binding_drop c s w)"
  by (erule release_inv) (auto simp: bind_simps)

lemma kill_inv: "bind_inv w \<Longrightarrow> bound w p \<noteq> None \<Longrightarrow> bind_inv (vmw_context_binding_kill p w)"
  by (erule release_inv) (auto simp: bind_simps)

lemma bi_slot_scrubbed [simp]: "bi_slot (bi\<lparr>bi_scrubbed := b\<rparr>) = bi_slot bi"
  by (simp add: bi_slot_def)

lemma mark_inv:
  assumes inv: "bind_inv w" and lst: "\<And>d. cb_list (cbs w' d) = cb_list (cbs w d)"
    and hd: "binding_head w' = binding_head w"
    and bnd: "bound w' = (bound w)(p := mark_scrubbed b (bound w p))"
  shows "bind_inv w'"
proof (rule bind_invI)
  fix c
  show "distinct (cb_list (cbs w' c))" using bind_invD(1) [OF inv] by (simp add: lst)
  show "set (cb_list (cbs w' c)) = {s. bound w' (c, s) \<noteq> None}"
    using bind_invD(2) [OF inv, of c] by (auto simp: lst bnd mark_scrubbed_def)
next
  fix c s bi assume "bound w' (c, s) = Some bi"
  then show "bi_slot bi = s \<and> snd s < slot_limit (fst s)"
    using bind_invD(3,4) [OF inv, of c s] by (auto simp: bnd mark_scrubbed_def split: if_splits)
next
  fix x s bi assume "bound w' (Context x, s) = Some bi"
  then show "bi_ctx bi = Some x \<and> bi_res bi \<noteq> None"
    using bind_invD(5,6) [OF inv, of x s] by (auto simp: bnd mark_scrubbed_def split: if_splits)
next
  fix r
  show "distinct (binding_head w' r)" using bind_invD(7) [OF inv] by (simp add: hd)
  show "set (binding_head w' r) = bound_to w' r"
    unfolding hd bind_invD(8) [OF inv] by (auto simp: bound_to_def bnd mark_scrubbed_def)
qed

lemma scrub_inv: "bind_inv w \<Longrightarrow> bind_inv (scrub_place p w)"
  by (erule mark_inv) (auto simp: bind_simps)

lemma drop_used_inv:
  assumes "bind_inv w"
  shows "bind_inv (drop_used c s w)" "bound (drop_used c s w) = (bound w)((c, s) := None)"
    "s \<notin> set (cb_list (cbs (drop_used c s w) c))" "(c, s) \<notin> set (binding_head (drop_used c s w) r)"
    "hw_id (drop_used c s w) = hw_id w" "sent (drop_used c s w) = sent w" "tries (drop_used c s w) = tries w"
    "room (drop_used c s w) = room w"
proof -
  show i: "bind_inv (drop_used c s w)"
    using assms drop_inv [OF assms, of c s] by (auto simp: drop_used_def bound_def Let_def)
  show b: "bound (drop_used c s w) = (bound w)((c, s) := None)"
    by (cases "bi_ctx (info w c s) = None") (simp_all add: drop_used_def bind_simps bound_def Let_def fun_upd_idem)
  show "s \<notin> set (cb_list (cbs (drop_used c s w) c))" using bind_invD(2) [OF i] b by simp
  show "(c, s) \<notin> set (binding_head (drop_used c s w) r)"
    using bind_invD(8) [OF i, of r] b by (auto simp: bound_to_def)
qed (simp_all add: drop_used_def bind_simps)

text \<open>A place that is not in use takes a binding.\<close>

lemma occupy_inv:
  assumes inv: "bind_inv w" and free: "bound w (c, s) = None"
    and bi: "bi_slot bi = s" "snd s < slot_limit (fst s)" "bi_ctx bi \<noteq> None"
    and own: "\<And>x. c = Context x \<Longrightarrow> bi_ctx bi = Some x \<and> bi_res bi \<noteq> None"
    and lst: "\<And>d. cb_list (cbs w' d) = (if d = c then cb_list (cbs w c) @ [s] else cb_list (cbs w d))"
    and hd: "\<And>r. binding_head w' r =
      (if persistent c \<and> bi_res bi = Some r then binding_head w r @ [(c, s)] else binding_head w r)"
    and bnd: "bound w' = (bound w)((c, s) \<mapsto> bi)"
  shows "bind_inv w'"
proof (rule bind_invI)
  fix d
  have "s \<notin> set (cb_list (cbs w c))" using bind_invD(2) [OF inv] free by simp
  then show "distinct (cb_list (cbs w' d))" using bind_invD(1) [OF inv] by (simp add: lst)
  show "set (cb_list (cbs w' d)) = {t. bound w' (d, t) \<noteq> None}"
    using bind_invD(2) [OF inv, of d] by (auto simp: lst bnd)
next
  fix d t bj assume "bound w' (d, t) = Some bj"
  then show "bi_slot bj = t \<and> snd t < slot_limit (fst t)"
    using bind_invD(3,4) [OF inv] bi by (auto simp: bnd split: if_splits)
next
  fix x t bj assume "bound w' (Context x, t) = Some bj"
  then show "bi_ctx bj = Some x \<and> bi_res bj \<noteq> None"
    using bind_invD(5,6) [OF inv] own by (auto simp: bnd split: if_splits)
next
  fix r
  have "(c, s) \<notin> set (binding_head w r)" using bind_invD(8) [OF inv, of r] free by (auto simp: bound_to_def)
  then show "distinct (binding_head w' r)" using bind_invD(7) [OF inv] by (simp add: hd)
  show "set (binding_head w' r) = bound_to w' r"
    using bind_invD(8) [OF inv, of r] free by (auto simp: hd bound_to_def bnd split: if_splits)
qed

lemma add_spec:
  assumes inv: "bind_inv w" and c: "bi_ctx bi \<noteq> None" "c = Staged n"
  shows "vmw_context_binding_add c bi w = (w, Inl EINVAL) \<and> unat (bi_i1 bi) \<ge> slot_limit (bi_bt bi) \<or>
    (\<exists>w'. vmw_context_binding_add c bi w = (w', Inr ()) \<and> unat (bi_i1 bi) < slot_limit (bi_bt bi) \<and>
      bind_inv w' \<and> bound w' = (bound w)((c, bi_slot bi) \<mapsto> bi\<lparr>bi_scrubbed := False\<rparr>) \<and> sent w' = sent w)"
proof (cases "unat (bi_i1 bi) \<ge> slot_limit (bi_bt bi)")
  case True
  then show ?thesis by (simp add: vmw_context_binding_add_def)
next
  case False
  let ?s = "bi_slot bi" and ?b = "bi\<lparr>bi_scrubbed := False\<rparr>"
  define w1 where "w1 = drop_used c ?s w"
  note d = drop_used_inv [OF inv, where c = c and s = ?s, folded w1_def]
  define w' where "w' = upd_list c (\<lambda>l. l @ [?s]) (upd_info c ?s (\<lambda>_. ?b) w1)"
  have run: "vmw_context_binding_add c bi w = (w', Inr ())"
    using False by (simp add: vmw_context_binding_add_def w'_def w1_def Let_def)
  have bnd1: "bound w' = (bound w1)((c, ?s) \<mapsto> ?b)"
    by (rule ext) (use c in \<open>auto simp: bound_def Let_def w'_def bind_simps\<close>)
  have "bind_inv w'"
    by (rule occupy_inv [OF d(1) _ _ _ _ _ _ _ bnd1])
      (use False c in \<open>auto simp: d(2) w'_def bind_simps persistent_def bi_slot_def\<close>)
  moreover have "bound w' = (bound w)((c, ?s) \<mapsto> ?b)" by (simp add: bnd1 d(2))
  moreover have "sent w' = sent w" by (simp add: w'_def bind_simps d)
  ultimately show ?thesis using run False by auto
qed

lemma transfer_spec:
  assumes inv: "bind_inv w" and b: "bi_ctx bi = Some x" "unat (bi_i1 bi) < slot_limit (bi_bt bi)"
  defines "w' \<equiv> vmw_context_binding_transfer (Context x) bi w"
  shows "bind_inv w' \<and> sent w' = sent w \<and>
    bound w' = (bound w)((Context x, bi_slot bi) := (if bi_res bi = None then None else Some bi))"
proof -
  let ?c = "Context x" and ?s = "bi_slot bi"
  define w1 where "w1 = drop_used ?c ?s w"
  note d = drop_used_inv [OF inv, where c = ?c and s = ?s, folded w1_def]
  show ?thesis
  proof (cases "bi_res bi")
    case None
    then have "w' = w1" by (simp add: w'_def vmw_context_binding_transfer_def w1_def Let_def)
    with d None show ?thesis by simp
  next
    case (Some r)
    have w': "w' = (upd_list ?c (\<lambda>l. l @ [?s]) (upd_info ?c ?s (\<lambda>_. bi) w1))
            \<lparr>binding_head := (binding_head w1)(r := binding_head w1 r @ [(?c, ?s)])\<rparr>"
      by (simp add: w'_def vmw_context_binding_transfer_def w1_def Let_def Some)
    have bnd1: "bound w' = (bound w1)((?c, ?s) \<mapsto> bi)"
      by (rule ext) (auto simp: bound_def Let_def w' bind_simps b(1))
    have "bind_inv w'"
      by (rule occupy_inv [OF d(1) _ _ _ _ _ _ _ bnd1])
        (use b Some in \<open>auto simp: d(2) w' bind_simps persistent_def bi_slot_def\<close>)
    then show ?thesis using Some by (simp add: bnd1 d(2)) (simp add: w' bind_simps d)
  qed
qed

section \<open>What the device has bound\<close>

text \<open>A binding point of the device: the kind, the id of the context and the index.  The
  device starts out with \<open>d\<close> and carries out the commands the driver made.  What a batch binds is what
  its temporary tracker says, and is not read from its bytes here.\<close>

type_synonym bind_point = "vmw_ctx_binding_type \<times> u32 \<times> u32"

fun dev_step :: "scrub_cmd \<Rightarrow> (bind_point \<Rightarrow> u32) \<Rightarrow> bind_point \<Rightarrow> u32" where
  "dev_step (CmdSetShader cid t shid) d = d((vmw_ctx_binding_shader, cid, t) := shid)"
| "dev_step (CmdSetRenderTarget cid t sid) d = d((vmw_ctx_binding_rt, cid, t) := sid)"
| "dev_step (CmdSetTextureState cid st nm v) d =
     (if nm = SVGA3D_TS_BIND_TEXTURE then d((vmw_ctx_binding_tex, cid, st) := v) else d)"
| "dev_step (CmdObject c) d =
     (case c of CmdDestroy Context_object cid \<Rightarrow> (\<lambda>(bt, x, t). if x = cid then SVGA3D_INVALID_ID else d (bt, x, t))
      | _ \<Rightarrow> d)"
| "dev_step (CmdBatch bs) d = d"
| "dev_step (CmdDummyQuery ws) d = d"
| "dev_step (CmdFence q) d = d"

definition dev :: "(bind_point \<Rightarrow> u32) \<Rightarrow> bindings \<Rightarrow> bind_point \<Rightarrow> u32" where
  "dev d w = fold dev_step (sent w) d"

definition point :: "bindings \<Rightarrow> vmw_ctx_bindinfo \<Rightarrow> bind_point" where
  "point w bi = (bi_bt bi, ctx_hw_id w bi, bi_i1 bi)"

text \<open>The trackers of the contexts and the device agree: a scrubbed binding is off the
  device and any other is on it.\<close>

definition dev_agrees :: "(bind_point \<Rightarrow> u32) \<Rightarrow> bindings \<Rightarrow> bool" where
  "dev_agrees d w \<longleftrightarrow> (\<forall>x s bi. bound w (Context x, s) = Some bi \<longrightarrow>
     dev d w (point w bi) = (if bi_scrubbed bi then SVGA3D_INVALID_ID else hw_id w (the (bi_res bi))))"

definition always_room :: "bindings \<Rightarrow> bool" where
  "always_room w \<longleftrightarrow> (\<forall>n. room w n)"

text \<open>Contexts that have bindings have ids of their own.\<close>

definition distinct_ids :: "bindings \<Rightarrow> bool" where
  "distinct_ids w \<longleftrightarrow> (\<forall>x y s t. bound w (Context x, s) \<noteq> None \<longrightarrow> bound w (Context y, t) \<noteq> None \<longrightarrow>
     hw_id w x = hw_id w y \<longrightarrow> x = y)"

lemma distinct_idsD: "distinct_ids w \<Longrightarrow> bound w (Context x, s) = Some bi \<Longrightarrow>
    bound w (Context y, t) = Some bj \<Longrightarrow> hw_id w x = hw_id w y \<Longrightarrow> x = y"
  unfolding distinct_ids_def by blast

lemma distinct_ids_mono:
  assumes "distinct_ids w" "hw_id w' = hw_id w" "\<And>p. bound w' p \<noteq> None \<Longrightarrow> bound w p \<noteq> None"
  shows "distinct_ids w'"
  unfolding distinct_ids_def
proof (intro allI impI)
  fix x y s t
  assume "bound w' (Context x, s) \<noteq> None" "bound w' (Context y, t) \<noteq> None" "hw_id w' x = hw_id w' y"
  then show "x = y"
    using assms(1) assms(3) [of "(Context x, s)"] assms(3) [of "(Context y, t)"] assms(2)
    unfolding distinct_ids_def by metis
qed

lemma dev_agreesD: "dev_agrees d w \<Longrightarrow> bound w (Context x, s) = Some bi \<Longrightarrow>
    dev d w (point w bi) = (if bi_scrubbed bi then SVGA3D_INVALID_ID else hw_id w (the (bi_res bi)))"
  unfolding dev_agrees_def by blast

lemma dev_step_command:
  "dev_step (scrub_command w bi rb) d = d(point w bi := bind_target w bi rb)"
  by (simp add: scrub_command_def point_def Let_def split: vmw_ctx_binding_type.split)

lemma point_inj:
  assumes "bind_inv w" "distinct_ids w" "bound w (Context x, s) = Some bi" "bound w (Context y, t) = Some bj"
    "point w bi = point w bj"
  shows "x = y \<and> s = t"
proof -
  note D = bind_invD [OF assms(1)]
  have "hw_id w x = hw_id w y" using assms(5) D(5) [OF assms(3)] D(5) [OF assms(4)]
    by (simp add: point_def ctx_hw_id_def)
  then have "x = y" by (rule distinct_idsD [OF assms(2-4)])
  moreover have "bi_slot bi = bi_slot bj" using assms(5) by (simp add: point_def bi_slot_def)
  ultimately show ?thesis using D(3) [OF assms(3)] D(3) [OF assms(4)] by simp
qed

lemma point_scrubbed [simp]: "point w (bi\<lparr>bi_scrubbed := b\<rparr>) = point w bi"
  by (simp add: point_def ctx_hw_id_def)

lemma point_hw_id: "hw_id w' = hw_id w \<Longrightarrow> point w' = point w"
  by (rule ext) (simp add: point_def ctx_hw_id_def)

lemma bound_info: "bound w (c, s) = Some bi \<Longrightarrow> info w c s = bi"
  by (auto simp: bound_def Let_def split: if_splits)

text \<open>Sending the command for a binding and setting its flag accordingly.\<close>

lemma flag_agrees:
  assumes inv: "bind_inv w" and ids: "distinct_ids w" and ag: "dev_agrees d w"
    and b: "bound w (Context x, s) = Some bi"
    and w': "hw_id w' = hw_id w" "sent w' = sent w @ [scrub_command w bi (\<not> f)]"
      "bound w' = (bound w)((Context x, s) \<mapsto> bi\<lparr>bi_scrubbed := f\<rparr>)"
  shows "dev_agrees d w'" "dev d w' = (dev d w)(point w bi := bind_target w bi (\<not> f))"
proof -
  show dv: "dev d w' = (dev d w)(point w bi := bind_target w bi (\<not> f))"
    by (simp add: dev_def w'(2) dev_step_command)
  show "dev_agrees d w'" unfolding dev_agrees_def
  proof (intro allI impI)
    fix y t bj assume bj: "bound w' (Context y, t) = Some bj"
    show "dev d w' (point w' bj) = (if bi_scrubbed bj then SVGA3D_INVALID_ID else hw_id w' (the (bi_res bj)))"
    proof (cases "(y, t) = (x, s)")
      case True
      with bj have "bj = bi\<lparr>bi_scrubbed := f\<rparr>" by (simp add: w'(3))
      then show ?thesis by (simp add: dv point_hw_id [OF w'(1)] bind_target_def w'(1))
    next
      case False
      then have o: "bound w (Context y, t) = Some bj" using bj by (auto simp: w'(3))
      then have "point w bj \<noteq> point w bi" using point_inj [OF inv ids o b] False by auto
      with dev_agreesD [OF ag o] show ?thesis by (simp add: dv point_hw_id [OF w'(1)] w'(1))
    qed
  qed
qed

lemma scrub_agrees:
  assumes inv: "bind_inv w" and ids: "distinct_ids w" and ag: "dev_agrees d w" and rm: "always_room w"
    and b: "bound w (Context x, s) = Some bi"
  shows "dev_agrees d (scrub_place (Context x, s) w) \<and>
    dev d (scrub_place (Context x, s) w) = (dev d w)(point w bi := SVGA3D_INVALID_ID)"
proof (cases "bi_scrubbed bi")
  case True
  then have "scrub_place (Context x, s) w = w"
    using bound_info [OF b] by (simp add: scrub_place_def)
  moreover have "dev d w (point w bi) = SVGA3D_INVALID_ID" using dev_agreesD [OF ag b] True by simp
  ultimately show ?thesis using ag by (simp add: fun_upd_idem)
next
  case False
  let ?w = "scrub_place (Context x, s) w"
  have "sent ?w = sent w @ [scrub_command w bi (\<not> True)]"
    using rm False bound_info [OF b]
    by (simp add: scrub_place_def scrub_funcs_submit bind_simps always_room_def)
  moreover have "bound ?w = (bound w)((Context x, s) \<mapsto> bi\<lparr>bi_scrubbed := True\<rparr>)"
    using b by (simp add: bind_simps)
  ultimately show ?thesis
    using flag_agrees [OF inv ids ag b, of ?w True] by (simp add: bind_simps bind_target_def)
qed

lemma kill_agrees:
  assumes inv: "bind_inv w" and ids: "distinct_ids w" and ag: "dev_agrees d w" and rm: "always_room w"
    and b: "bound w (Context x, s) = Some bi"
  shows "dev_agrees d (vmw_context_binding_kill (Context x, s) w) \<and>
    dev d (vmw_context_binding_kill (Context x, s) w) = (dev d w)(point w bi := SVGA3D_INVALID_ID) \<and>
    distinct_ids (vmw_context_binding_kill (Context x, s) w) \<and>
    always_room (vmw_context_binding_kill (Context x, s) w)"
proof -
  let ?w = "vmw_context_binding_kill (Context x, s) w" and ?v = "scrub_place (Context x, s) w"
  have same: "sent ?w = sent ?v" "hw_id ?w = hw_id ?v"
    by (simp_all add: vmw_context_binding_kill_def bind_simps)
  note pt = point_hw_id [OF same(2)]
  have sub: "bound ?w p = Some bj \<Longrightarrow> bound ?v p = Some bj" for p bj
    by (auto simp: bind_simps split: if_splits)
  have v: "dev_agrees d ?v" using scrub_agrees [OF assms] by blast
  have "dev_agrees d ?w"
    unfolding dev_agrees_def dev_def same pt by (intro allI impI) (rule dev_agreesD [OF v sub, unfolded dev_def])
  moreover have "dev d ?w = dev d ?v" by (simp add: dev_def same)
  moreover have "distinct_ids ?w"
    by (rule distinct_ids_mono [OF ids]) (auto simp: bind_simps split: if_splits)
  moreover have "always_room ?w" using rm by (simp add: always_room_def bind_simps)
  ultimately show ?thesis using scrub_agrees [OF assms] by simp
qed

section \<open>Going through a list\<close>

definition points :: "bindings \<Rightarrow> (cbs_ref \<times> slot) set \<Rightarrow> bind_point set" where
  "points w A = (\<lambda>p. point w (the (bound w p))) ` {p \<in> A. bound w p \<noteq> None}"

lemma kill_loop:
  "bind_inv w \<Longrightarrow> distinct ps \<Longrightarrow> \<forall>p \<in> set ps. bound w p \<noteq> None \<Longrightarrow>
   bind_inv (fold vmw_context_binding_kill ps w) \<and>
   bound (fold vmw_context_binding_kill ps w) = (\<lambda>p. if p \<in> set ps then None else bound w p)"
proof (induction ps arbitrary: w)
  case Nil
  then show ?case by simp
next
  case (Cons p ps)
  let ?w = "vmw_context_binding_kill p w"
  have b: "bound ?w = (bound w)(p := None)" by (simp add: bind_simps)
  have "bind_inv ?w" using kill_inv Cons.prems by simp
  moreover have "\<forall>q \<in> set ps. bound ?w q \<noteq> None" using Cons.prems unfolding b by auto
  ultimately have "bind_inv (fold vmw_context_binding_kill ps ?w) \<and>
     bound (fold vmw_context_binding_kill ps ?w) = (\<lambda>q. if q \<in> set ps then None else bound ?w q)"
    using Cons by simp
  then show ?case unfolding b by (auto simp: fun_upd_def)
qed

lemma points_kill:
  assumes "bound w p = Some bi" "p \<notin> A"
  shows "points (vmw_context_binding_kill p w) A = points w A"
proof -
  have "bound (vmw_context_binding_kill p w) q = bound w q" if "q \<in> A" for q
    using that assms(2) by (auto simp: bind_simps)
  moreover have "point (vmw_context_binding_kill p w) = point w" by (rule point_hw_id) (simp add: bind_simps)
  ultimately show ?thesis unfolding points_def by (intro image_cong) auto
qed

lemma kill_loop_dev:
  "bind_inv w \<Longrightarrow> distinct ps \<Longrightarrow> \<forall>p \<in> set ps. bound w p \<noteq> None \<and> persistent (fst p) \<Longrightarrow>
   distinct_ids w \<Longrightarrow> dev_agrees d w \<Longrightarrow> always_room w \<Longrightarrow>
   dev_agrees d (fold vmw_context_binding_kill ps w) \<and>
   dev d (fold vmw_context_binding_kill ps w) =
     (\<lambda>q. if q \<in> points w (set ps) then SVGA3D_INVALID_ID else dev d w q)"
proof (induction ps arbitrary: w)
  case Nil
  then show ?case by (simp add: points_def)
next
  case (Cons p ps)
  let ?w = "vmw_context_binding_kill p w"
  obtain x s where p: "p = (Context x, s)"
    using Cons.prems(3) by (cases p; cases "fst p") (auto simp: persistent_def)
  obtain bi where bi: "bound w p = Some bi" using Cons.prems(3) by auto
  have b: "bound ?w = (bound w)(p := None)" by (simp add: bind_simps)
  note k = kill_agrees [OF Cons.prems(1,4,5,6) bi [unfolded p], folded p]
  have "bind_inv ?w" using kill_inv [OF Cons.prems(1)] bi by simp
  moreover have "\<forall>q \<in> set ps. bound ?w q \<noteq> None \<and> persistent (fst q)" using Cons.prems unfolding b by auto
  ultimately have IH: "dev_agrees d (fold vmw_context_binding_kill ps ?w) \<and>
     dev d (fold vmw_context_binding_kill ps ?w) =
       (\<lambda>q. if q \<in> points ?w (set ps) then SVGA3D_INVALID_ID else dev d ?w q)"
    using Cons.IH k Cons.prems(2) by simp
  have "points ?w (set ps) = points w (set ps)" using points_kill [OF bi] Cons.prems(2) by simp
  moreover have "points w (set (p # ps)) = insert (point w bi) (points w (set ps))"
  proof -
    have "{q \<in> set (p # ps). bound w q \<noteq> None} = insert p {q \<in> set ps. bound w q \<noteq> None}" using bi by auto
    then show ?thesis using bi by (simp add: points_def)
  qed
  ultimately show ?case using IH k by (auto simp: fun_upd_def)
qed

lemma transfer_loop:
  "bind_inv w \<Longrightarrow> distinct ss \<Longrightarrow>
   \<forall>s \<in> set ss. \<exists>bi. bound w (Staged n, s) = Some bi \<and> bi_ctx bi = Some x \<Longrightarrow>
   w' = fold (\<lambda>s w. vmw_context_binding_transfer (Context x) (info w (Staged n) s) w) ss w \<Longrightarrow>
   bind_inv w' \<and> sent w' = sent w \<and>
   bound w' = (\<lambda>p. if fst p = Context x \<and> snd p \<in> set ss
      then (let bi = the (bound w (Staged n, snd p)) in if bi_res bi = None then None else Some bi)
      else bound w p)"
proof (induction ss arbitrary: w)
  case Nil
  then show ?case by simp
next
  case (Cons s ss)
  obtain bi where bi: "bound w (Staged n, s) = Some bi" "bi_ctx bi = Some x" using Cons.prems(3) by auto
  note D = bind_invD [OF Cons.prems(1)]
  have s: "bi_slot bi = s" "unat (bi_i1 bi) < slot_limit (bi_bt bi)"
    using D(3,4) [OF bi(1)] by (auto simp: bi_slot_def)
  let ?w = "vmw_context_binding_transfer (Context x) bi w"
  note t = transfer_spec [OF Cons.prems(1) bi(2) s(2), unfolded s(1)]
  have st: "bound ?w (Staged n, u) = bound w (Staged n, u)" for u using t by simp
  have run: "w' = fold (\<lambda>s w. vmw_context_binding_transfer (Context x) (info w (Staged n) s) w) ss ?w"
    using Cons.prems(4) by (simp add: bound_info [OF bi(1)])
  have "bind_inv w' \<and> sent w' = sent ?w \<and>
     bound w' = (\<lambda>p. if fst p = Context x \<and> snd p \<in> set ss
      then (let bi = the (bound ?w (Staged n, snd p)) in if bi_res bi = None then None else Some bi)
      else bound ?w p)"
    by (rule Cons.IH [OF _ _ _ run]) (use t Cons.prems in \<open>auto simp: st\<close>)
  moreover have "s \<notin> set ss" using Cons.prems(2) by simp
  ultimately show ?case using t bi(1) by (auto simp: fun_eq_iff Let_def)
qed

section \<open>Correctness\<close>

text \<open>C23: Committing what a batch bound.  When every binding staged in a temporary tracker is for
  the context, \<open>vmw_context_binding_state_transfer\<close> makes the context track exactly the staged
  binding at every place the batch touched, nothing where the batch unbound the place, and what it
  tracked before everywhere else; no other tracker changes, no command is sent, and the lists
  of contexts and of resources still say the same as the places.\<close>

theorem vmw_context_binding_state_transfer_commits:
  assumes "bind_inv w" "\<And>s bi. bound w (Staged n, s) = Some bi \<Longrightarrow> bi_ctx bi = Some x"
    "w' = vmw_context_binding_state_transfer x (Staged n) w"
  shows "bind_inv w' \<and> sent w' = sent w \<and>
    (\<forall>c s. bound w' (c, s) =
       (if c \<noteq> Context x then bound w (c, s)
        else case bound w (Staged n, s) of
               None \<Rightarrow> bound w (c, s)
             | Some bi \<Rightarrow> if bi_res bi = None then None else Some bi))"
proof -
  note D = bind_invD [OF assms(1)]
  let ?ss = "cb_list (cbs w (Staged n))"
  have on: "\<forall>s \<in> set ?ss. \<exists>bi. bound w (Staged n, s) = Some bi \<and> bi_ctx bi = Some x"
    using D(2) assms(2) by auto
  have "bind_inv w' \<and> sent w' = sent w \<and>
     bound w' = (\<lambda>p. if fst p = Context x \<and> snd p \<in> set ?ss
      then (let bi = the (bound w (Staged n, snd p)) in if bi_res bi = None then None else Some bi)
      else bound w p)"
    by (rule transfer_loop [OF assms(1) D(1) on]) (simp add: assms(3) vmw_context_binding_state_transfer_def)
  then show ?thesis by (auto simp: D(2) Let_def split: option.split)
qed

text \<open>C24: Before a resource is destroyed, \<open>vmw_context_binding_res_list_kill\<close> removes all its
  bindings and nothing else: no context tracks it any more, its list is empty, every other
  binding is tracked as before, and when the FIFO has room the device has no binding left at the
  points where the resource was bound and the same bindings as before at every other point.\<close>

theorem vmw_context_binding_res_list_kill_unbinds:
  assumes "bind_inv w" "w' = vmw_context_binding_res_list_kill r w"
  shows "bind_inv w' \<and> binding_head w' r = [] \<and>
    (\<forall>p. bound w' p = (if p \<in> bound_to w r then None else bound w p)) \<and>
    (distinct_ids w \<and> dev_agrees d w \<and> always_room w \<longrightarrow>
       dev_agrees d w' \<and>
       (\<forall>q. dev d w' q = (if q \<in> points w (bound_to w r) then SVGA3D_INVALID_ID else dev d w q)))"
proof -
  note D = bind_invD [OF assms(1)]
  have in_use: "\<forall>p \<in> set (binding_head w r). bound w p \<noteq> None \<and> persistent (fst p)"
    using D(8) by (auto simp: bound_to_def)
  have w': "w' = fold vmw_context_binding_kill (binding_head w r) w"
    by (simp add: assms(2) vmw_context_binding_res_list_kill_def)
  have k: "bind_inv w'" "bound w' = (\<lambda>p. if p \<in> bound_to w r then None else bound w p)"
    using kill_loop [OF assms(1) D(7), of r] in_use by (auto simp: w' D(8))
  have "bound_to w' r = {}" by (auto simp: bound_to_def k(2))
  then have "binding_head w' r = []" using bind_invD(8) [OF k(1), of r] by simp
  with k kill_loop_dev [OF assms(1) D(7) in_use, of d] show ?thesis by (simp add: w' D(8))
qed

text \<open>A binding that can be made again: its resource has an id.\<close>

definition can_rebind :: "bindings \<Rightarrow> vmw_ctx_bindinfo \<Rightarrow> bool" where
  "can_rebind w bi \<longleftrightarrow> hw_id w (the (bi_res bi)) \<noteq> SVGA3D_INVALID_ID"

definition rebound :: "bindings \<Rightarrow> vmw_ctx_bindinfo option \<Rightarrow> vmw_ctx_bindinfo option" where
  "rebound w = map_option (\<lambda>bi. if can_rebind w bi then bi\<lparr>bi_scrubbed := False\<rparr> else bi)"

lemma rebound_unscrubbed: "\<not> bi_scrubbed bi \<Longrightarrow> rebound w (Some bi) = Some bi"
  by (simp add: rebound_def)

lemma rebound_on:
  assumes "rebound w y = Some bi" "can_rebind w bi"
  shows "\<not> bi_scrubbed bi"
proof -
  obtain b where "bi = (if can_rebind w b then b\<lparr>bi_scrubbed := False\<rparr> else b)"
    using assms(1) by (auto simp: rebound_def)
  with assms(2) show ?thesis by (cases "can_rebind w b") simp_all
qed

lemma rebind_one:
  assumes inv: "bind_inv w" and ids: "distinct_ids w" and ag: "dev_agrees d w" and rm: "always_room w"
    and b: "bound w (Context x, s) = Some bi" and ok: "can_rebind w bi"
  defines "w' \<equiv> upd_info (Context x) s (\<lambda>bi. bi\<lparr>bi_scrubbed := False\<rparr>) (fst (submit (scrub_command w bi True) w))"
  shows "bind_inv w'" "distinct_ids w'" "dev_agrees d w'" "always_room w'" "hw_id w' = hw_id w"
    "bound w' = (bound w)((Context x, s) \<mapsto> bi\<lparr>bi_scrubbed := False\<rparr>)"
proof -
  show bnd: "bound w' = (bound w)((Context x, s) \<mapsto> bi\<lparr>bi_scrubbed := False\<rparr>)"
    using b bound_info [OF b] by (intro ext) (auto simp: w'_def bound_def bind_simps Let_def split: if_splits)
  show hw: "hw_id w' = hw_id w" by (simp add: w'_def bind_simps)
  show "bind_inv w'"
    by (rule mark_inv [OF inv, where b = False and p = "(Context x, s)"])
      (simp_all add: bnd b, simp_all add: w'_def bind_simps)
  show "distinct_ids w'" by (rule distinct_ids_mono [OF ids hw]) (use b in \<open>auto simp: bnd split: if_splits\<close>)
  show "dev_agrees d w'"
    by (rule flag_agrees(1) [OF inv ids ag b hw _ bnd])
      (use rm in \<open>simp add: w'_def bind_simps always_room_def\<close>)
  show "always_room w'" using rm by (simp add: w'_def always_room_def bind_simps)
qed

lemma rebind_loop_ok:
  "bind_inv w \<Longrightarrow> distinct_ids w \<Longrightarrow> dev_agrees d w \<Longrightarrow> always_room w \<Longrightarrow> distinct ss \<Longrightarrow>
   \<forall>s \<in> set ss. bound w (Context x, s) \<noteq> None \<Longrightarrow>
   \<exists>w'. rebind_loop (Context x) ss w = (w', Inr ()) \<and> bind_inv w' \<and> dev_agrees d w' \<and> hw_id w' = hw_id w \<and>
     bound w' = (\<lambda>p. if fst p = Context x \<and> snd p \<in> set ss then rebound w (bound w p) else bound w p)"
proof (induction ss arbitrary: w)
  case Nil
  then show ?case by simp
next
  case (Cons s ss)
  obtain bi where b: "bound w (Context x, s) = Some bi" using Cons.prems(6) by auto
  have info: "info w (Context x) s = bi" by (rule bound_info [OF b])
  have res: "bi_res bi \<noteq> None" using bind_invD(6) [OF Cons.prems(1) b] .
  show ?case
  proof (cases "bi_scrubbed bi \<and> can_rebind w bi")
    case False
    then have "rebind_loop (Context x) (s # ss) w = rebind_loop (Context x) ss w"
      using res by (auto simp: Let_def info can_rebind_def)
    moreover have "rebound w (bound w (Context x, s)) = bound w (Context x, s)"
      using False by (auto simp: b rebound_def)
    moreover have "\<forall>t \<in> set ss. bound w (Context x, t) \<noteq> None" "distinct ss" using Cons.prems(5,6) by auto
    ultimately show ?thesis using Cons.IH [OF Cons.prems(1-4)] by (auto simp: fun_eq_iff)
  next
    case True
    define w1 where "w1 = upd_info (Context x) s (\<lambda>bi. bi\<lparr>bi_scrubbed := False\<rparr>) (fst (submit (scrub_command w bi True) w))"
    note r = rebind_one [OF Cons.prems(1-4) b, folded w1_def]
    have ok: "can_rebind w bi" using True by simp
    have "snd (submit (scrub_command w bi True) w) = Inr ()"
      using Cons.prems(4) by (simp add: bind_simps always_room_def)
    then have run: "rebind_loop (Context x) (s # ss) w = rebind_loop (Context x) ss w1"
      using True res by (auto simp: Let_def info can_rebind_def scrub_funcs_submit w1_def split: prod.splits)
    have in_use: "\<forall>t \<in> set ss. bound w1 (Context x, t) \<noteq> None" "distinct ss"
      using Cons.prems(5,6) unfolding r(6) [OF ok] by auto
    have same: "rebound w1 = rebound w" using r(5) [OF ok] by (simp add: rebound_def can_rebind_def)
    obtain w' where w': "rebind_loop (Context x) ss w1 = (w', Inr ())" "bind_inv w'" "dev_agrees d w'"
      "hw_id w' = hw_id w"
      "bound w' = (\<lambda>p. if fst p = Context x \<and> snd p \<in> set ss then rebound w (bound w1 p) else bound w1 p)"
      using Cons.IH [OF r(1-4) [OF ok] in_use(2,1)] unfolding same r(5) [OF ok] by blast
    have "bound w' = (\<lambda>p. if fst p = Context x \<and> snd p \<in> set (s # ss) then rebound w (bound w p) else bound w p)"
      using Cons.prems(5) b ok unfolding w'(5) r(6) [OF ok] by (auto simp: fun_eq_iff rebound_def)
    then show ?thesis using run w' by auto
  qed
qed

text \<open>C25: Bringing a context back.  With room in the FIFO \<open>vmw_context_rebind_all\<close> succeeds, and
  afterwards every binding the context tracks whose resource has an id is on the device: the
  device's binding point holds the id of the tracked resource.  Nothing else that is tracked
  changes, and the trackers and the device still agree.\<close>

theorem vmw_context_rebind_all_restores:
  assumes "bind_inv w" "distinct_ids w" "dev_agrees d w" "always_room w"
  shows "\<exists>w'. vmw_context_rebind_all x w = (w', Inr ()) \<and> bind_inv w' \<and> dev_agrees d w' \<and> hw_id w' = hw_id w \<and>
    (\<forall>p. bound w' p = (if fst p = Context x then rebound w (bound w p) else bound w p)) \<and>
    (\<forall>s bi. bound w' (Context x, s) = Some bi \<and> can_rebind w bi \<longrightarrow>
       dev d w' (point w' bi) = hw_id w (the (bi_res bi)))"
proof -
  note D = bind_invD [OF assms(1)]
  let ?ss = "cb_list (cbs w (Context x))"
  have "\<forall>s \<in> set ?ss. bound w (Context x, s) \<noteq> None" using D(2) by auto
  from rebind_loop_ok [OF assms D(1) this] obtain w' where
    w': "vmw_context_rebind_all x w = (w', Inr ())" "bind_inv w'" "dev_agrees d w'" "hw_id w' = hw_id w"
    and b: "bound w' = (\<lambda>p. if fst p = Context x \<and> snd p \<in> set ?ss then rebound w (bound w p) else bound w p)"
    by (auto simp: vmw_context_rebind_all_def)
  have bnd: "\<forall>p. bound w' p = (if fst p = Context x then rebound w (bound w p) else bound w p)"
    unfolding b D(2) by (auto simp: rebound_def)
  moreover have "dev d w' (point w' bi) = hw_id w (the (bi_res bi))"
    if "bound w' (Context x, s) = Some bi" "can_rebind w bi" for s bi
  proof -
    have "rebound w (bound w (Context x, s)) = Some bi" using that(1) bnd by simp
    then have "\<not> bi_scrubbed bi" using that(2) by (rule rebound_on)
    with dev_agreesD [OF w'(3) that(1)] w'(4) show ?thesis by simp
  qed
  ultimately show ?thesis using w'(1-4) by blast
qed

section \<open>An example\<close>

text \<open>One context, resource 1 with id 7, whose tracker is empty; the device has nothing bound.\<close>

definition idle :: bindings where
  "idle = \<lparr>cbs = (\<lambda>_. \<lparr>cb_list = [], cb_at = (\<lambda>s. \<lparr>bi_ctx = None, bi_res = None, bi_bt = fst s,
       bi_scrubbed = False, bi_i1 = 0\<rparr>)\<rparr>), binding_head = (\<lambda>_. []),
     hw_id = (\<lambda>r. of_nat r + 6), sent = [], room = (\<lambda>_. True), tries = 0\<rparr>"

lemma idle_inv: "bind_inv idle" "bound idle p = None"
proof -
  show b: "bound idle p = None" for p by (simp add: bound_def info_def idle_def Let_def)
  show "bind_inv idle"
    unfolding bind_inv_def by (simp add: b bound_to_def) (simp add: idle_def)
qed

definition texture_binding :: vmw_ctx_bindinfo where
  "texture_binding = \<lparr>bi_ctx = Some 1, bi_res = Some 2, bi_bt = vmw_ctx_binding_tex, bi_scrubbed = False, bi_i1 = 4\<rparr>"

definition batched :: bindings where
  "batched = fst (vmw_context_binding_add (Staged 0) texture_binding idle)"

lemma batched_inv: "bind_inv batched"
    "bound batched = [(Staged 0, (vmw_ctx_binding_tex, 4)) \<mapsto> texture_binding]"
proof -
  have b: "bi_slot texture_binding = (vmw_ctx_binding_tex, 4)" "texture_binding\<lparr>bi_scrubbed := False\<rparr> = texture_binding"
    by (simp_all add: bi_slot_def texture_binding_def)
  have lim: "unat (bi_i1 texture_binding) < slot_limit (bi_bt texture_binding)" "bi_ctx texture_binding \<noteq> None"
    by (simp_all add: texture_binding_def slot_limit_def SVGA3D_NUM_TEXTURE_UNITS_def)
  have "bind_inv batched \<and>
    bound batched = (bound idle)((Staged 0, bi_slot texture_binding) \<mapsto> texture_binding\<lparr>bi_scrubbed := False\<rparr>)"
    using add_spec [OF idle_inv(1) lim(2) refl, of 0] lim(1) by (auto simp: batched_def)
  then show "bind_inv batched" "bound batched = [(Staged 0, (vmw_ctx_binding_tex, 4)) \<mapsto> texture_binding]"
    by (auto simp: b idle_inv(2) fun_eq_iff)
qed

definition bound_tex :: bindings where
  "bound_tex = vmw_context_binding_state_transfer 1 (Staged 0) batched"

theorem vmw_context_binding_state_transfer_commits_witness:
  "bound bound_tex (Context 1, (vmw_ctx_binding_tex, 4)) = Some texture_binding"
proof -
  have "bound batched (Staged 0, s) = Some bi \<Longrightarrow> bi_ctx bi = Some 1" for s bi
    by (auto simp: batched_inv(2) texture_binding_def split: if_splits)
  from vmw_context_binding_state_transfer_commits [OF batched_inv(1) this bound_tex_def]
  show ?thesis by (simp add: batched_inv(2)) (simp add: texture_binding_def)
qed

lemma transfer_frame:
  "room (vmw_context_binding_transfer c bi w) = room w" "hw_id (vmw_context_binding_transfer c bi w) = hw_id w"
  "sent (vmw_context_binding_transfer c bi w) = sent w"
  by (simp_all add: vmw_context_binding_transfer_def drop_used_def bind_simps Let_def split: option.split)

lemma add_frame:
  "room (fst (vmw_context_binding_add c bi w)) = room w" "hw_id (fst (vmw_context_binding_add c bi w)) = hw_id w"
  "sent (fst (vmw_context_binding_add c bi w)) = sent w"
  by (simp_all add: vmw_context_binding_add_def drop_used_def bind_simps Let_def)

lemma bound_tex_inv: "bind_inv bound_tex" "sent bound_tex = []" "room bound_tex = room idle" "hw_id bound_tex = hw_id idle"
    "bound bound_tex = [(Staged 0, (vmw_ctx_binding_tex, 4)) \<mapsto> texture_binding,
                        (Context 1, (vmw_ctx_binding_tex, 4)) \<mapsto> texture_binding]"
proof -
  have s: "bi_slot texture_binding = (vmw_ctx_binding_tex, 4)" by (simp add: bi_slot_def texture_binding_def)
  have l: "cb_list (cbs batched (Staged 0)) = [(vmw_ctx_binding_tex, 4)]"
    by (rule distinct_singleton) (simp_all add: bind_invD(1,2) [OF batched_inv(1)] batched_inv(2))
  have i: "info batched (Staged 0) (vmw_ctx_binding_tex, 4) = texture_binding"
    by (rule bound_info) (simp add: batched_inv(2))
  have t: "bound_tex = vmw_context_binding_transfer (Context 1) texture_binding batched"
    by (simp add: bound_tex_def vmw_context_binding_state_transfer_def l i)
  have lim: "bi_ctx texture_binding = Some 1" "unat (bi_i1 texture_binding) < slot_limit (bi_bt texture_binding)"
    by (simp_all add: texture_binding_def slot_limit_def SVGA3D_NUM_TEXTURE_UNITS_def)
  have r: "bi_res texture_binding \<noteq> None" by (simp add: texture_binding_def)
  note spec = transfer_spec [OF batched_inv(1) lim, folded t, unfolded s]
  show "bind_inv bound_tex" using spec by simp
  show "bound bound_tex = [(Staged 0, (vmw_ctx_binding_tex, 4)) \<mapsto> texture_binding,
                        (Context 1, (vmw_ctx_binding_tex, 4)) \<mapsto> texture_binding]"
    using spec r by (simp add: batched_inv(2))
  show "room bound_tex = room idle" "hw_id bound_tex = hw_id idle"
    by (simp_all only: t transfer_frame batched_def add_frame)
  show "sent bound_tex = []" by (simp only: t transfer_frame batched_def add_frame) (simp add: idle_def)
qed

definition device_8 :: "bind_point \<Rightarrow> u32" where
  "device_8 q = (if q = (vmw_ctx_binding_tex, 7, 4) then 8 else SVGA3D_INVALID_ID)"

lemma bound_tex_agrees: "distinct_ids bound_tex" "dev_agrees device_8 bound_tex" "always_room bound_tex"
proof -
  note b = bound_tex_inv(5)
  have only: "bound bound_tex (Context x, s) = Some bi \<Longrightarrow> x = 1 \<and> s = (vmw_ctx_binding_tex, 4) \<and> bi = texture_binding"
    for x s bi by (auto simp: b split: if_splits)
  show "distinct_ids bound_tex" unfolding distinct_ids_def using only by blast
  have p: "point bound_tex texture_binding = (vmw_ctx_binding_tex, 7, 4)" "hw_id bound_tex 2 = 8"
    by (simp_all add: point_def ctx_hw_id_def bound_tex_inv(4) texture_binding_def idle_def)
  have d: "dev device_8 bound_tex = device_8" by (simp add: dev_def bound_tex_inv(2))
  show "dev_agrees device_8 bound_tex" unfolding dev_agrees_def
  proof (intro allI impI)
    fix x s bi assume "bound bound_tex (Context x, s) = Some bi"
    then have bi: "bi = texture_binding" using only by blast
    show "dev device_8 bound_tex (point bound_tex bi) =
        (if bi_scrubbed bi then SVGA3D_INVALID_ID else hw_id bound_tex (the (bi_res bi)))"
      unfolding bi d p(1) by (simp add: texture_binding_def p(2) [simplified] device_8_def)
  qed
  show "always_room bound_tex" by (simp add: always_room_def bound_tex_inv(3) idle_def)
qed

theorem vmw_context_binding_res_list_kill_unbinds_witness:
  "binding_head (vmw_context_binding_res_list_kill 2 bound_tex) 2 = [] \<and>
   dev device_8 (vmw_context_binding_res_list_kill 2 bound_tex) (vmw_ctx_binding_tex, 7, 4) = SVGA3D_INVALID_ID"
proof -
  have "(vmw_ctx_binding_tex, 7, 4) \<in> points bound_tex (bound_to bound_tex 2)"
    unfolding points_def
    by (rule image_eqI [of _ _ "(Context 1, (vmw_ctx_binding_tex, 4))"])
      (simp_all add: bound_to_def persistent_def bound_tex_inv(5), simp_all add: point_def ctx_hw_id_def
        bound_tex_inv(4) texture_binding_def idle_def)
  with vmw_context_binding_res_list_kill_unbinds [OF bound_tex_inv(1) refl, of 2 device_8] bound_tex_agrees
  show ?thesis by simp
qed

definition scrubbed_tex :: bindings where
  "scrubbed_tex = scrub_place (Context 1, (vmw_ctx_binding_tex, 4)) bound_tex"

theorem vmw_context_rebind_all_restores_witness:
  "dev device_8 scrubbed_tex (vmw_ctx_binding_tex, 7, 4) = SVGA3D_INVALID_ID \<and>
   (\<exists>w'. vmw_context_rebind_all 1 scrubbed_tex = (w', Inr ()) \<and>
      dev device_8 w' (vmw_ctx_binding_tex, 7, 4) = 8)"
proof -
  have b: "bound bound_tex (Context 1, (vmw_ctx_binding_tex, 4)) = Some texture_binding"
    by (simp add: bound_tex_inv(5))
  note ag = scrub_agrees [OF bound_tex_inv(1) bound_tex_agrees b, folded scrubbed_tex_def]
  have hw: "hw_id scrubbed_tex = hw_id bound_tex" by (simp add: scrubbed_tex_def bind_simps)
  have ids: "distinct_ids scrubbed_tex"
    by (rule distinct_ids_mono [OF bound_tex_agrees(1) hw]) (auto simp: scrubbed_tex_def bind_simps mark_scrubbed_def split: if_splits)
  have room: "always_room scrubbed_tex"
    using bound_tex_agrees(3) by (simp add: scrubbed_tex_def bind_simps always_room_def)
  have inv: "bind_inv scrubbed_tex" unfolding scrubbed_tex_def by (rule scrub_inv [OF bound_tex_inv(1)])
  let ?b = "texture_binding\<lparr>bi_scrubbed := False\<rparr>"
  have p: "point v texture_binding = (vmw_ctx_binding_tex, 7, 4)" if "hw_id v = hw_id bound_tex" for v
    by (simp add: point_def ctx_hw_id_def that bound_tex_inv(4) texture_binding_def idle_def)
  have id: "hw_id scrubbed_tex (the (bi_res ?b)) = 8"
    by (simp add: hw bound_tex_inv(4) texture_binding_def idle_def)
  have cr: "can_rebind scrubbed_tex bi" if "bi_res bi = bi_res texture_binding" for bi
    using id that by (simp add: can_rebind_def SVGA3D_INVALID_ID_def)
  obtain w' where w': "vmw_context_rebind_all 1 scrubbed_tex = (w', Inr ())" "hw_id w' = hw_id scrubbed_tex"
    "\<forall>p. bound w' p = (if fst p = Context 1 then rebound scrubbed_tex (bound scrubbed_tex p) else bound scrubbed_tex p)"
    "\<forall>s bi. bound w' (Context 1, s) = Some bi \<and> can_rebind scrubbed_tex bi \<longrightarrow>
       dev device_8 w' (point w' bi) = hw_id scrubbed_tex (the (bi_res bi))"
    using vmw_context_rebind_all_restores [OF inv ids _ room, of device_8 1] ag by blast
  have "bound scrubbed_tex (Context 1, (vmw_ctx_binding_tex, 4)) = Some (texture_binding\<lparr>bi_scrubbed := True\<rparr>)"
    using b by (simp add: scrubbed_tex_def bind_simps)
  then have "bound w' (Context 1, (vmw_ctx_binding_tex, 4)) = Some ?b"
    using w'(3) cr by (simp add: rebound_def)
  then have "dev device_8 w' (point w' ?b) = hw_id scrubbed_tex (the (bi_res ?b))"
    by (intro w'(4) [rule_format] conjI cr) simp_all
  then have "dev device_8 w' (point w' ?b) = 8" unfolding id .
  moreover have "point w' ?b = (vmw_ctx_binding_tex, 7, 4)"
    using p [of w'] hw w'(2) by simp
  moreover have "dev device_8 scrubbed_tex (vmw_ctx_binding_tex, 7, 4) = SVGA3D_INVALID_ID"
    using ag p [OF refl] by simp
  ultimately show ?thesis using w'(1) by auto
qed

end
