(* ===== verification/Resource.thy ===== *)
theory Resource
  imports Prog Ctx_Binding
begin

text \<open>
  Device resources, \<open>src/vmwgfx_resource.c\<close>, with the functions that create, bind, unbind and
  destroy contexts, surfaces and shaders on the device (\<open>src/vmwgfx_context.c\<close>,
  \<open>src/vmwgfx_surface.c\<close>, \<open>src/vmwgfx_shader.c\<close>): ids, backup buffers, the list of resources
  that may be evicted, and eviction when the device has no room for another resource.

  Resources and buffers are named by numbers.  The device ids, the commands that were sent and
  the room in the FIFO are those of \<open>bindings\<close>; the id \<open>-1\<close> is the word of that value.
  \<open>oc n\<close> is the outcome of the n-th call to the memory allocators and to TTM.  The value
  \<open>None\<close> of an operation is a BUG or the use of a null pointer.  Locks are left out.
\<close>

section \<open>State\<close>

datatype vmw_res_type = vmw_res_context | vmw_res_surface | vmw_res_stream | vmw_res_shader

instantiation vmw_res_type :: linorder
begin

definition res_index :: "vmw_res_type \<Rightarrow> nat" where
  "res_index t = (case t of vmw_res_context \<Rightarrow> 0 | vmw_res_surface \<Rightarrow> 1 | vmw_res_stream \<Rightarrow> 2 | vmw_res_shader \<Rightarrow> 3)"

definition less_eq_vmw_res_type :: "vmw_res_type \<Rightarrow> vmw_res_type \<Rightarrow> bool" where
  "a \<le> b \<longleftrightarrow> res_index a \<le> res_index b"

definition less_vmw_res_type :: "vmw_res_type \<Rightarrow> vmw_res_type \<Rightarrow> bool" where
  "a < b \<longleftrightarrow> res_index a < res_index b"

instance
proof
  fix x y :: vmw_res_type
  show "x \<le> y \<Longrightarrow> y \<le> x \<Longrightarrow> x = y"
    by (simp add: less_eq_vmw_res_type_def res_index_def split: vmw_res_type.splits)
qed (auto simp: less_eq_vmw_res_type_def less_vmw_res_type_def)

end

text \<open>The tables of functions a resource may have.\<close>

datatype vmw_func_id = Legacy_context | Gb_context | Legacy_surface | Gb_surface | Gb_shader | Stream_func

datatype mem_type = TTM_PL_SYSTEM | TTM_PL_VRAM | VMW_PL_GMR | VMW_PL_MOB

record buffer_object =
  buf_num_pages :: u64
  buf_mem_type :: mem_type
  buf_offset :: u64
  buf_start :: u64
  buf_reserved :: bool
  buf_pinned :: bool
  buf_res_list :: "nat list" \<comment> \<open>the resources bound to the buffer\<close>

record vmw_resource =
  rs_func :: vmw_func_id
  rs_avail :: bool
  rs_free :: vmw_res_type \<comment> \<open>whose \<open>res_free\<close> the resource has\<close>
  rs_doomed :: bool \<comment> \<open>its last reference is gone\<close>
  rs_hw_destroy :: bool \<comment> \<open>\<open>hw_destroy\<close> is set: the resource is activated\<close>
  rs_backup_size :: u64
  rs_res_dirty :: bool
  rs_backup_dirty :: bool
  rs_backup :: "nat option"
  rs_backup_offset :: u64
  rs_pin_count :: nat
  rs_mob_head :: "nat option" \<comment> \<open>the buffer on whose list it is\<close>
  rs_body :: "u32 list" \<comment> \<open>what a surface or shader is created with\<close>
  rs_images :: "u32 list" \<comment> \<open>for a legacy surface, where its images are in a backup buffer\<close>

record res_dev =
  rsrc :: "nat \<Rightarrow> vmw_resource"
  bos :: "nat \<Rightarrow> buffer_object"
  bo_refs :: "nat \<Rightarrow> int"
  next_bo :: nat
  fenced :: "nat list" \<comment> \<open>buffers fenced outside of command submission\<close>
  bnd :: bindings
  res_ids :: "vmw_res_type \<Rightarrow> nat list"
  res_lru :: "vmw_res_type \<Rightarrow> nat list"
  num_3d_resources :: int
  request_ok :: bool
  used_memory_size :: u32
  memory_size :: u32
  query_cid :: u32
  query_cid_valid :: bool
  oc :: "nat \<Rightarrow> unit res"
  calls :: nat

definition upd_res :: "nat \<Rightarrow> (vmw_resource \<Rightarrow> vmw_resource) \<Rightarrow> res_dev \<Rightarrow> res_dev" where
  "upd_res r f s = s\<lparr>rsrc := (rsrc s)(r := f (rsrc s r))\<rparr>"

definition upd_bo :: "nat \<Rightarrow> (buffer_object \<Rightarrow> buffer_object) \<Rightarrow> res_dev \<Rightarrow> res_dev" where
  "upd_bo b f s = s\<lparr>bos := (bos s)(b := f (bos s b))\<rparr>"

definition bo_ref :: "nat \<Rightarrow> int \<Rightarrow> res_dev \<Rightarrow> res_dev" where
  "bo_ref b d s = s\<lparr>bo_refs := (bo_refs s)(b := bo_refs s b + d)\<rparr>"

definition res_id :: "res_dev \<Rightarrow> nat \<Rightarrow> u32" where
  "res_id s r = hw_id (bnd s) r"

definition set_id :: "nat \<Rightarrow> u32 \<Rightarrow> res_dev \<Rightarrow> res_dev" where
  "set_id r i s = s\<lparr>bnd := (bnd s)\<lparr>hw_id := (hw_id (bnd s))(r := i)\<rparr>\<rparr>"

definition func_type :: "vmw_func_id \<Rightarrow> vmw_res_type" where
  "func_type f = (case f of
       Legacy_context \<Rightarrow> vmw_res_context | Gb_context \<Rightarrow> vmw_res_context
     | Legacy_surface \<Rightarrow> vmw_res_surface | Gb_surface \<Rightarrow> vmw_res_surface
     | Gb_shader \<Rightarrow> vmw_res_shader | Stream_func \<Rightarrow> vmw_res_stream)"

abbreviation rs_type :: "res_dev \<Rightarrow> nat \<Rightarrow> vmw_res_type" where
  "rs_type s r \<equiv> func_type (rs_func (rsrc s r))"

definition upd_lru :: "vmw_res_type \<Rightarrow> (nat list \<Rightarrow> nat list) \<Rightarrow> res_dev \<Rightarrow> res_dev" where
  "upd_lru t f s = s\<lparr>res_lru := (res_lru s)(t := f (res_lru s t))\<rparr>"

type_synonym 'a rp = "(res_dev, 'a) prog"

text \<open>The outcome of the next call to an allocator or to TTM.\<close>

definition ask :: "unit rp" where
  "ask s = Some (s\<lparr>calls := Suc (calls s)\<rparr>, oc s (calls s))"

text \<open>Reserving room, filling in the commands and committing them.\<close>

definition send :: "object_cmd list \<Rightarrow> unit rp" where
  "send cs s = (let w = bnd s; w1 = w\<lparr>tries := Suc (tries w)\<rparr> in
     if room w (tries w) then Some (s\<lparr>bnd := w1\<lparr>sent := sent w @ map CmdObject cs\<rparr>\<rparr>, Inr ())
     else Some (s\<lparr>bnd := w1\<rparr>, Inl ENOMEM))"

definition ignore_error :: "unit rp \<Rightarrow> unit rp" where
  "ignore_error m = on_error (\<lambda>_. ok ()) m"

definition undo :: "(res_dev \<Rightarrow> res_dev) \<Rightarrow> unit rp \<Rightarrow> unit rp" where
  "undo f m = on_error (\<lambda>e. andthen (modify f) (fail e)) m"

definition bug_on :: "(res_dev \<Rightarrow> bool) \<Rightarrow> unit rp" where
  "bug_on P = gets (\<lambda>s. if P s then crash else ok ())"

section \<open>Ids\<close>

text \<open>The lowest id from 1 that is not in use.\<close>

definition lowest_free :: "nat list \<Rightarrow> nat" where
  "lowest_free used = hd (filter (\<lambda>i. i \<notin> set used) [1..<length used + 2])"

definition vmw_resource_release_id :: "nat \<Rightarrow> res_dev \<Rightarrow> res_dev" where
  "vmw_resource_release_id r s =
     (if res_id s r \<noteq> - 1
      then set_id r (- 1) (s\<lparr>res_ids := (res_ids s)(rs_type s r := removeAll (unat (res_id s r)) (res_ids s (rs_type s r)))\<rparr>)
      else s)"

definition vmw_resource_alloc_id :: "nat \<Rightarrow> unit rp" where
  "vmw_resource_alloc_id r =
     andthen (bug_on (\<lambda>s. res_id s r \<noteq> - 1))
       (andthen ask (modify (\<lambda>s. let i = lowest_free (res_ids s (rs_type s r)) in
          set_id r (of_nat i) (s\<lparr>res_ids := (res_ids s)(rs_type s r := i # res_ids s (rs_type s r))\<rparr>))))"

definition vmw_resource_init :: "nat \<Rightarrow> bool \<Rightarrow> vmw_res_type \<Rightarrow> vmw_func_id \<Rightarrow> unit rp" where
  "vmw_resource_init r delay_id free f =
     andthen (modify (\<lambda>s. set_id r (- 1) (upd_res r (\<lambda>v. v\<lparr>rs_func := f, rs_avail := False, rs_free := free, rs_doomed := False,
         rs_hw_destroy := False, rs_res_dirty := False, rs_backup_dirty := False, rs_backup := None,
         rs_backup_offset := 0, rs_mob_head := None\<rparr>) s)))
       (if delay_id then ok () else vmw_resource_alloc_id r)"

definition vmw_resource_activate :: "nat \<Rightarrow> res_dev \<Rightarrow> res_dev" where
  "vmw_resource_activate r = upd_res r (\<lambda>v. v\<lparr>rs_avail := True, rs_hw_destroy := True\<rparr>)"

section \<open>On the device\<close>

text \<open>The first and the last of the 3D resources request and release the device; when the request
  fails the resource is not counted.\<close>

definition vmw_3d_resource_inc :: "res_dev \<Rightarrow> res_dev" where
  "vmw_3d_resource_inc s =
     (if num_3d_resources s = 0 \<and> \<not> request_ok s then s
      else s\<lparr>num_3d_resources := num_3d_resources s + 1\<rparr>)"

definition vmw_3d_resource_dec :: "res_dev \<Rightarrow> res_dev" where
  "vmw_3d_resource_dec s = s\<lparr>num_3d_resources := num_3d_resources s - 1\<rparr>"

definition VMWGFX_NUM_GB_CONTEXT :: u32 where "VMWGFX_NUM_GB_CONTEXT = 256"
definition VMWGFX_NUM_GB_SHADER :: u32 where "VMWGFX_NUM_GB_SHADER = 20000"
definition VMWGFX_NUM_GB_SURFACE :: u32 where "VMWGFX_NUM_GB_SURFACE = 32768"
definition SVGA3D_MAX_SURFACE_IDS :: u32 where "SVGA3D_MAX_SURFACE_IDS = 32768"
definition SVGA3D_MAX_CONTEXT_IDS :: u32 where "SVGA3D_MAX_CONTEXT_IDS = 256"

text \<open>A new id, which must be below the number of ids the device has, and the definition of the
  object under it.\<close>

definition define_object :: "object_kind \<Rightarrow> u32 \<Rightarrow> nat \<Rightarrow> unit rp" where
  "define_object k limit r =
     andthen (vmw_resource_alloc_id r)
       (undo (vmw_resource_release_id r)
         (gets (\<lambda>s. if limit \<le> res_id s r then fail EBUSY
            else send [CmdDefine k (res_id s r) (rs_body (rsrc s r))])))"

definition fence_bo :: "nat \<Rightarrow> unit rp" where
  "fence_bo b = modify (\<lambda>s. s\<lparr>fenced := fenced s @ [b]\<rparr>)"

definition vmw_gb_surface_create :: "nat \<Rightarrow> unit rp" where
  "vmw_gb_surface_create r = gets (\<lambda>s. if res_id s r \<noteq> - 1 then ok ()
     else andthen (modify vmw_3d_resource_inc)
       (undo vmw_3d_resource_dec (define_object Surface_object VMWGFX_NUM_GB_SURFACE r)))"

definition vmw_gb_context_create :: "nat \<Rightarrow> unit rp" where
  "vmw_gb_context_create r = gets (\<lambda>s. if res_id s r \<noteq> - 1 then ok ()
     else andthen (define_object Context_object VMWGFX_NUM_GB_CONTEXT r) (modify vmw_3d_resource_inc))"

definition vmw_gb_shader_create :: "nat \<Rightarrow> unit rp" where
  "vmw_gb_shader_create r = gets (\<lambda>s. if res_id s r \<noteq> - 1 then ok ()
     else andthen (define_object Shader_object VMWGFX_NUM_GB_SHADER r) (modify vmw_3d_resource_inc))"

definition vmw_legacy_srf_create :: "nat \<Rightarrow> unit rp" where
  "vmw_legacy_srf_create r = gets (\<lambda>s. if res_id s r \<noteq> - 1 then ok ()
     else if ucast (memory_size s) \<le> ucast (used_memory_size s) + rs_backup_size (rsrc s r) then fail EBUSY
     else andthen (define_object Surface_object SVGA3D_MAX_SURFACE_IDS r)
       (modify (\<lambda>s. s\<lparr>used_memory_size := used_memory_size s + ucast (rs_backup_size (rsrc s r))\<rparr>)))"

definition not_in_mob :: "nat \<Rightarrow> unit rp" where
  "not_in_mob b = bug_on (\<lambda>s. buf_mem_type (bos s b) \<noteq> VMW_PL_MOB)"

definition mob_id :: "res_dev \<Rightarrow> nat \<Rightarrow> u32" where
  "mob_id s b = ucast (buf_start (bos s b))"

definition clean_backup :: "nat \<Rightarrow> unit rp" where
  "clean_backup r = modify (upd_res r (\<lambda>v. v\<lparr>rs_backup_dirty := False\<rparr>))"

definition vmw_gb_surface_bind :: "nat \<Rightarrow> nat \<Rightarrow> unit rp" where
  "vmw_gb_surface_bind r b = andthen (not_in_mob b)
     (gets (\<lambda>s. let i = res_id s r; dirty = rs_backup_dirty (rsrc s r) in
        andthen (send (CmdBind Surface_object i (mob_id s b) [] # (if dirty then [CmdUpdate Surface_object i] else [])))
          (clean_backup r)))"

definition vmw_gb_context_bind :: "nat \<Rightarrow> nat \<Rightarrow> unit rp" where
  "vmw_gb_context_bind r b = andthen (not_in_mob b)
     (gets (\<lambda>s. andthen (send [CmdBind Context_object (res_id s r) (mob_id s b) [if rs_backup_dirty (rsrc s r) then 1 else 0]])
       (clean_backup r)))"

definition vmw_gb_shader_bind :: "nat \<Rightarrow> nat \<Rightarrow> unit rp" where
  "vmw_gb_shader_bind r b = andthen (not_in_mob b)
     (gets (\<lambda>s. andthen (send [CmdBind Shader_object (res_id s r) (mob_id s b) [ucast (rs_backup_offset (rsrc s r))]])
       (clean_backup r)))"

definition vmw_gb_surface_unbind :: "nat \<Rightarrow> bool \<Rightarrow> nat \<Rightarrow> unit rp" where
  "vmw_gb_surface_unbind r readback b = andthen (not_in_mob b)
     (gets (\<lambda>s. let i = res_id s r in
        andthen (send [if readback then CmdReadback Surface_object i else CmdInvalidate Surface_object i,
                       CmdBind Surface_object i SVGA3D_INVALID_ID []])
          (fence_bo b)))"

definition vmw_gb_context_unbind :: "nat \<Rightarrow> bool \<Rightarrow> nat \<Rightarrow> unit rp" where
  "vmw_gb_context_unbind r readback b = andthen (not_in_mob b)
     (andthen (modify (\<lambda>s. s\<lparr>bnd := vmw_context_binding_state_scrub (Context r) (bnd s)\<rparr>))
       (gets (\<lambda>s. let i = res_id s r in
          andthen (send ((if readback then [CmdReadback Context_object i] else []) @ [CmdBind Context_object i SVGA3D_INVALID_ID [0]]))
            (fence_bo b))))"

definition vmw_gb_shader_unbind :: "nat \<Rightarrow> bool \<Rightarrow> nat \<Rightarrow> unit rp" where
  "vmw_gb_shader_unbind r readback b =
     andthen (bug_on (\<lambda>s. case rs_backup (rsrc s r) of None \<Rightarrow> True | Some c \<Rightarrow> buf_mem_type (bos s c) \<noteq> VMW_PL_MOB))
       (gets (\<lambda>s. andthen (send [CmdBind Shader_object (res_id s r) SVGA3D_INVALID_ID [0]]) (fence_bo b)))"

text \<open>A legacy surface is read from and written to its backup image by image.\<close>

definition guest_ptr :: "res_dev \<Rightarrow> nat \<Rightarrow> u32 \<times> u32" where
  "guest_ptr s b = (if buf_mem_type (bos s b) = TTM_PL_VRAM then (- 2, ucast (buf_offset (bos s b)))
                    else (ucast (buf_start (bos s b)), 0))"

definition vmw_legacy_srf_dma :: "nat \<Rightarrow> nat \<Rightarrow> bool \<Rightarrow> unit rp" where
  "vmw_legacy_srf_dma r b bind = gets (\<lambda>s. case guest_ptr s b of (gmr, off) \<Rightarrow>
     andthen (send (map (\<lambda>o'. CmdSurfaceDma (res_id s r) gmr (off + o') bind) (rs_images (rsrc s r)))) (fence_bo b))"

definition vmw_legacy_srf_bind :: "nat \<Rightarrow> nat \<Rightarrow> unit rp" where
  "vmw_legacy_srf_bind r b = gets (\<lambda>s. if \<not> rs_backup_dirty (rsrc s r) then ok () else vmw_legacy_srf_dma r b True)"

definition vmw_legacy_srf_unbind :: "nat \<Rightarrow> bool \<Rightarrow> nat \<Rightarrow> unit rp" where
  "vmw_legacy_srf_unbind r readback b = (if readback then vmw_legacy_srf_dma r b False else ok ())"

definition scrub_resource :: "nat \<Rightarrow> unit rp" where
  "scrub_resource r = modify (\<lambda>s. s\<lparr>bnd := vmw_context_binding_res_list_scrub r (bnd s)\<rparr>)"

definition destroy_object :: "object_kind \<Rightarrow> nat \<Rightarrow> unit rp" where
  "destroy_object k r = gets (\<lambda>s. send [CmdDestroy k (res_id s r)])"

definition vmw_gb_surface_destroy :: "nat \<Rightarrow> unit rp" where
  "vmw_gb_surface_destroy r = gets (\<lambda>s. if res_id s r = - 1 then ok ()
     else andthen (scrub_resource r)
       (andthen (destroy_object Surface_object r)
         (modify (\<lambda>s. vmw_3d_resource_dec (vmw_resource_release_id r s)))))"

definition vmw_gb_shader_destroy :: "nat \<Rightarrow> unit rp" where
  "vmw_gb_shader_destroy r = gets (\<lambda>s. if res_id s r = - 1 then ok ()
     else andthen (scrub_resource r)
       (andthen (destroy_object Shader_object r)
         (modify (\<lambda>s. vmw_3d_resource_dec (vmw_resource_release_id r s)))))"

definition end_query :: "nat \<Rightarrow> res_dev \<Rightarrow> res_dev" where
  "end_query r s = (if query_cid s = res_id s r then s\<lparr>query_cid_valid := False\<rparr> else s)"

definition vmw_gb_context_destroy :: "nat \<Rightarrow> unit rp" where
  "vmw_gb_context_destroy r = gets (\<lambda>s. if res_id s r = - 1 then ok ()
     else andthen (destroy_object Context_object r)
       (modify (\<lambda>s. vmw_3d_resource_dec (vmw_resource_release_id r (end_query r s)))))"

definition vmw_legacy_srf_destroy :: "nat \<Rightarrow> unit rp" where
  "vmw_legacy_srf_destroy r = gets (\<lambda>s. if res_id s r = - 1 then ok ()
     else andthen (destroy_object Surface_object r)
       (modify (\<lambda>s. vmw_resource_release_id r
          (s\<lparr>used_memory_size := used_memory_size s - ucast (rs_backup_size (rsrc s r))\<rparr>))))"

text \<open>The tables of functions; a function that is missing is \<open>None\<close>, or a null pointer where it is
  called without a test.\<close>

record vmw_res_func =
  f_needs_backup :: bool
  f_may_evict :: bool
  f_in_mob :: bool \<comment> \<open>the placement of backup buffers is that of memory objects\<close>
  f_create :: "nat \<Rightarrow> unit rp"
  f_destroy :: "nat \<Rightarrow> unit rp"
  f_bind :: "(nat \<Rightarrow> nat \<Rightarrow> unit rp) option"
  f_unbind :: "(nat \<Rightarrow> bool \<Rightarrow> nat \<Rightarrow> unit rp) option"

definition no_functions :: vmw_res_func where
  "no_functions = \<lparr>f_needs_backup = False, f_may_evict = False, f_in_mob = False,
     f_create = (\<lambda>_. crash), f_destroy = (\<lambda>_. crash), f_bind = None, f_unbind = None\<rparr>"

definition vmw_gb_context_func :: vmw_res_func where
  "vmw_gb_context_func = \<lparr>f_needs_backup = True, f_may_evict = True, f_in_mob = True, f_create = vmw_gb_context_create,
     f_destroy = vmw_gb_context_destroy, f_bind = Some vmw_gb_context_bind, f_unbind = Some vmw_gb_context_unbind\<rparr>"

definition vmw_gb_surface_func :: vmw_res_func where
  "vmw_gb_surface_func = \<lparr>f_needs_backup = True, f_may_evict = True, f_in_mob = True, f_create = vmw_gb_surface_create,
     f_destroy = vmw_gb_surface_destroy, f_bind = Some vmw_gb_surface_bind, f_unbind = Some vmw_gb_surface_unbind\<rparr>"

definition vmw_gb_shader_func :: vmw_res_func where
  "vmw_gb_shader_func = \<lparr>f_needs_backup = True, f_may_evict = True, f_in_mob = True, f_create = vmw_gb_shader_create,
     f_destroy = vmw_gb_shader_destroy, f_bind = Some vmw_gb_shader_bind, f_unbind = Some vmw_gb_shader_unbind\<rparr>"

definition vmw_legacy_surface_func :: vmw_res_func where
  "vmw_legacy_surface_func = \<lparr>f_needs_backup = False, f_may_evict = True, f_in_mob = False, f_create = vmw_legacy_srf_create,
     f_destroy = vmw_legacy_srf_destroy, f_bind = Some vmw_legacy_srf_bind, f_unbind = Some vmw_legacy_srf_unbind\<rparr>"

definition res_func :: "vmw_func_id \<Rightarrow> vmw_res_func" where
  "res_func f = (case f of
       Legacy_context \<Rightarrow> no_functions | Gb_context \<Rightarrow> vmw_gb_context_func
     | Legacy_surface \<Rightarrow> vmw_legacy_surface_func | Gb_surface \<Rightarrow> vmw_gb_surface_func
     | Gb_shader \<Rightarrow> vmw_gb_shader_func | Stream_func \<Rightarrow> no_functions)"

section \<open>Backup buffers\<close>

text \<open>A call to TTM that moves a buffer to the placement of the resource's backup buffers.\<close>

definition placed :: "vmw_res_func \<Rightarrow> nat \<Rightarrow> res_dev \<Rightarrow> res_dev" where
  "placed f b = upd_bo b (\<lambda>v. v\<lparr>buf_mem_type := if f_in_mob f then VMW_PL_MOB
       else if buf_mem_type v \<in> {TTM_PL_VRAM, VMW_PL_GMR} then buf_mem_type v else VMW_PL_GMR\<rparr>)"

definition bo_validate :: "vmw_res_func \<Rightarrow> nat \<Rightarrow> unit rp" where
  "bo_validate f b = andthen ask (modify (placed f b))"

definition new_backup :: "nat \<Rightarrow> res_dev \<Rightarrow> res_dev" where
  "new_backup r s = (let b = next_bo s; f = res_func (rs_func (rsrc s r)) in
     upd_res r (\<lambda>v. v\<lparr>rs_backup := Some b\<rparr>)
       (s\<lparr>next_bo := Suc b, bo_refs := (bo_refs s)(b := 1),
          bos := (bos s)(b := \<lparr>buf_num_pages = (rs_backup_size (rsrc s r) + 4095) div 4096,
            buf_mem_type = (if f_in_mob f then VMW_PL_MOB else VMW_PL_GMR), buf_offset = 0, buf_start = of_nat b,
            buf_reserved = False, buf_pinned = False, buf_res_list = []\<rparr>)\<rparr>))"

definition vmw_resource_buf_alloc :: "nat \<Rightarrow> unit rp" where
  "vmw_resource_buf_alloc r = gets (\<lambda>s. case rs_backup (rsrc s r) of
       Some b \<Rightarrow> bug_on (\<lambda>s. buf_num_pages (bos s b) * of_nat PAGE_SIZE < (rs_backup_size (rsrc s r) + 4095) AND NOT 4095)
     | None \<Rightarrow> andthen ask (andthen ask (modify (new_backup r))))"

definition del_mob_head :: "nat \<Rightarrow> res_dev \<Rightarrow> res_dev" where
  "del_mob_head r s = (case rs_mob_head (rsrc s r) of
       None \<Rightarrow> s
     | Some b \<Rightarrow> upd_res r (\<lambda>v. v\<lparr>rs_mob_head := None\<rparr>)
         (upd_bo b (\<lambda>v. v\<lparr>buf_res_list := removeAll r (buf_res_list v)\<rparr>) s))"

definition add_mob_head :: "nat \<Rightarrow> nat \<Rightarrow> res_dev \<Rightarrow> res_dev" where
  "add_mob_head r b s = upd_res r (\<lambda>v. v\<lparr>rs_mob_head := Some b\<rparr>)
     (upd_bo b (\<lambda>v. v\<lparr>buf_res_list := buf_res_list v @ [r]\<rparr>) s)"

definition drop_backup_buf :: "nat \<Rightarrow> res_dev \<Rightarrow> res_dev" where
  "drop_backup_buf r s = (case rs_backup (rsrc s r) of
       None \<Rightarrow> s
     | Some b \<Rightarrow> upd_res r (\<lambda>v. v\<lparr>rs_backup := None\<rparr>) (bo_ref b (- 1) s))"

section \<open>Validating and evicting\<close>

definition link_backup :: "nat \<Rightarrow> unit rp" where
  "link_backup r = gets (\<lambda>s. case rs_backup (rsrc s r) of None \<Rightarrow> crash | Some b \<Rightarrow> modify (add_mob_head r b))"

definition bind_backup :: "nat \<Rightarrow> nat option \<Rightarrow> unit rp" where
  "bind_backup r val_bo = gets (\<lambda>s. let f = res_func (rs_func (rsrc s r)) in
     case (f_bind f, val_bo) of
       (Some bind, Some b) \<Rightarrow>
         if f_needs_backup f \<longrightarrow> rs_mob_head (rsrc s r) = None
         then andthen (on_error (\<lambda>e. andthen (ignore_error (f_destroy f r)) (fail e)) (bind r b))
                (if f_needs_backup f then link_backup r else ok ())
         else ok ()
     | _ \<Rightarrow> ok ())"

definition vmw_resource_do_validate :: "nat \<Rightarrow> nat option \<Rightarrow> unit rp" where
  "vmw_resource_do_validate r val_bo =
     andthen (gets (\<lambda>s. if res_id s r = - 1 then f_create (res_func (rs_func (rsrc s r))) r else ok ()))
       (andthen (bind_backup r val_bo) (modify (upd_res r (\<lambda>v. v\<lparr>rs_res_dirty := True\<rparr>))))"

definition reserved_bug :: "nat \<Rightarrow> unit rp" where
  "reserved_bug b = bug_on (\<lambda>s. \<not> buf_reserved (bos s b))"

definition switch_backup :: "nat \<Rightarrow> nat \<Rightarrow> unit rp" where
  "switch_backup r b = gets (\<lambda>s. if rs_backup (rsrc s r) = Some b then ok ()
     else andthen (case rs_backup (rsrc s r) of
                     None \<Rightarrow> ok ()
                   | Some c \<Rightarrow> andthen (reserved_bug c) (modify (\<lambda>s. drop_backup_buf r (del_mob_head r s))))
       (andthen (modify (\<lambda>s. upd_res r (\<lambda>v. v\<lparr>rs_backup := Some b\<rparr>) (bo_ref b 1 s)))
         (andthen (reserved_bug b) (modify (add_mob_head r b)))))"

definition vmw_resource_unreserve :: "nat \<Rightarrow> nat option \<Rightarrow> u64 \<Rightarrow> unit rp" where
  "vmw_resource_unreserve r new off = gets (\<lambda>s.
     if r \<in> set (res_lru s (rs_type s r)) then ok ()
     else andthen (case new of
                     None \<Rightarrow> ok ()
                   | Some b \<Rightarrow> andthen (switch_backup r b) (modify (upd_res r (\<lambda>v. v\<lparr>rs_backup_offset := off\<rparr>))))
       (gets (\<lambda>s. if \<not> f_may_evict (res_func (rs_func (rsrc s r))) \<or> res_id s r = - 1 \<or> rs_pin_count (rsrc s r) \<noteq> 0 then ok ()
          else modify (upd_lru (rs_type s r) (\<lambda>l. l @ [r])))))"

definition backoff_buffer :: "nat \<Rightarrow> res_dev \<Rightarrow> res_dev" where
  "backoff_buffer b s = bo_ref b (- 1) (upd_bo b (\<lambda>v. v\<lparr>buf_reserved := False\<rparr>) s)"

definition check_backup :: "nat \<Rightarrow> nat \<Rightarrow> nat rp" where
  "check_backup r b = gets (\<lambda>s. let f = res_func (rs_func (rsrc s r)) in
     if f_needs_backup f \<and> rs_mob_head (rsrc s r) = None then ok b
     else andthen (undo (\<lambda>s'. (if rs_backup_dirty (rsrc s r) then drop_backup_buf r else id) (backoff_buffer b s'))
                    (bo_validate f b))
            (ok b))"

definition vmw_resource_check_buffer :: "nat \<Rightarrow> nat rp" where
  "vmw_resource_check_buffer r =
     andthen (gets (\<lambda>s. if rs_backup (rsrc s r) = None then vmw_resource_buf_alloc r else ok ()))
       (gets (\<lambda>s. case rs_backup (rsrc s r) of
           None \<Rightarrow> crash
         | Some b \<Rightarrow> andthen (modify (bo_ref b 1))
             (andthen (undo (bo_ref b (- 1)) (andthen ask (modify (upd_bo b (\<lambda>v. v\<lparr>buf_reserved := True\<rparr>)))))
               (check_backup r b))))"

definition vmw_resource_reserve :: "nat \<Rightarrow> bool \<Rightarrow> unit rp" where
  "vmw_resource_reserve r no_backup =
     andthen (modify (\<lambda>s. upd_lru (rs_type s r) (removeAll r) s))
       (gets (\<lambda>s. if f_needs_backup (res_func (rs_func (rsrc s r))) \<and> rs_backup (rsrc s r) = None \<and> \<not> no_backup
          then vmw_resource_buf_alloc r else ok ()))"

definition unbind_backup :: "nat \<Rightarrow> nat \<Rightarrow> unit rp" where
  "unbind_backup r b = gets (\<lambda>s. let f = res_func (rs_func (rsrc s r)) in
     case f_unbind f of
       None \<Rightarrow> ok ()
     | Some unbind \<Rightarrow>
         if \<not> f_needs_backup f \<or> rs_mob_head (rsrc s r) \<noteq> None
         then andthen (unbind r (rs_res_dirty (rsrc s r)) b) (modify (del_mob_head r)) else ok ())"

definition always :: "(res_dev \<Rightarrow> res_dev) \<Rightarrow> unit rp \<Rightarrow> unit rp" where
  "always f m = cleanup f m"

definition vmw_resource_do_evict :: "nat \<Rightarrow> unit rp" where
  "vmw_resource_do_evict r =
     andthen (bug_on (\<lambda>s. \<not> f_may_evict (res_func (rs_func (rsrc s r)))))
       (chain (vmw_resource_check_buffer r)
         (\<lambda>b. always (backoff_buffer b)
            (andthen (unbind_backup r b)
              (gets (\<lambda>s. always (upd_res r (\<lambda>v. v\<lparr>rs_backup_dirty := True, rs_res_dirty := False\<rparr>))
                 (f_destroy (res_func (rs_func (rsrc s r))) r))))))"

section \<open>What an operation on one resource leaves alone\<close>

definition only :: "nat \<Rightarrow> res_dev \<Rightarrow> res_dev \<Rightarrow> bool" where
  "only r s s' \<longleftrightarrow> res_lru s' = res_lru s \<and>
     rs_func (rsrc s' r) = rs_func (rsrc s r) \<and> rs_pin_count (rsrc s' r) = rs_pin_count (rsrc s r) \<and>
     (\<forall>r'. r' \<noteq> r \<longrightarrow> res_id s' r' = res_id s r' \<and> rsrc s' r' = rsrc s r')"

interpretation only: step_relation "only r" for r
  by unfold_locales (auto simp: only_def)

lemmas res_updates = upd_res_def upd_bo_def bo_ref_def set_id_def res_id_def

lemma scrub_fold_ids: "hw_id (fold scrub_place ps w) = hw_id w"
  by (induction ps arbitrary: w) (simp_all add: scrub_parts)

lemma scrub_ids [simp]:
  "hw_id (vmw_context_binding_res_list_scrub r w) = hw_id w" "hw_id (vmw_context_binding_state_scrub c w) = hw_id w"
  by (simp_all add: vmw_context_binding_res_list_scrub_def vmw_context_binding_state_scrub_def scrub_fold_ids)

lemma only_ask: "keeps (only r) ask s"
  by (simp add: keeps_def ask_def only_def res_id_def)

lemma only_send: "keeps (only r) (send cs) s"
  by (simp add: keeps_def send_def only_def res_id_def Let_def)

lemma only_bug_on: "keeps (only r) (bug_on P) s"
  by (simp add: keeps_def bug_on_def run_simps)

lemma only_modify: "only r s (f s) \<Longrightarrow> keeps (only r) (modify f) s"
  by (rule only.k_modify)

lemma only_undo: "keeps (only r) m s \<Longrightarrow> (\<And>s1. only r s1 (f s1)) \<Longrightarrow> keeps (only r) (undo f m) s"
  unfolding undo_def by (intro only.k_on_error only.k_andthen only.k_modify only.k_fail)

lemma only_release: "only r s (vmw_resource_release_id r s)"
  by (simp add: only_def vmw_resource_release_id_def res_updates)

lemma only_3d: "only r s (vmw_3d_resource_inc s)" "only r s (vmw_3d_resource_dec s)"
  by (simp_all add: only_def vmw_3d_resource_inc_def vmw_3d_resource_dec_def res_id_def)

lemma only_alloc: "keeps (only r) (vmw_resource_alloc_id r) s"
  unfolding vmw_resource_alloc_id_def
  by (intro only.k_andthen only_bug_on only_ask only_modify) (simp add: only_def res_updates Let_def)

lemma only_define: "keeps (only r) (define_object k l r) s"
  unfolding define_object_def by (intro only.k_rules only_alloc only_undo only_release only_send)

lemma only_fence: "keeps (only r) (fence_bo b) s"
  unfolding fence_bo_def by (rule only_modify) (simp add: only_def res_id_def)

lemma only_clean: "keeps (only r) (clean_backup r) s"
  unfolding clean_backup_def by (rule only_modify) (simp add: only_def res_updates)

lemma only_scrub: "keeps (only r) (scrub_resource r) s"
  unfolding scrub_resource_def by (rule only_modify) (simp add: only_def res_id_def)

lemma only_destroy: "keeps (only r) (destroy_object k r) s"
  unfolding destroy_object_def by (intro only.k_gets only_send)

lemmas only_parts = only_ask only_send only_bug_on only_undo only_3d only_define only_fence only_clean only_scrub only_destroy

text \<open>The functions of a table.\<close>

lemma only_create: "keeps (only r) (f_create (res_func f) r) s"
proof -
  have "only r s (s\<lparr>used_memory_size := u\<rparr>)" for s u by (simp add: only_def res_id_def)
  then show ?thesis
    by (cases f; simp add: res_func_def no_functions_def vmw_gb_context_func_def vmw_gb_surface_func_def vmw_gb_shader_func_def
        vmw_legacy_surface_func_def vmw_gb_surface_create_def vmw_gb_context_create_def vmw_gb_shader_create_def
        vmw_legacy_srf_create_def; intro only.k_rules only_parts only_modify)
qed

lemma only_destroy_fun: "keeps (only r) (f_destroy (res_func f) r) s"
proof -
  have 1: "only r s (vmw_3d_resource_dec (vmw_resource_release_id r s))" for s
    by (rule only.trans [OF only_release only_3d(2)])
  have 2: "only r s (vmw_3d_resource_dec (vmw_resource_release_id r (end_query r s)))" for s
    by (rule only.trans [OF _ 1]) (simp add: only_def end_query_def res_id_def)
  have 3: "only r s (vmw_resource_release_id r (s\<lparr>used_memory_size := u\<rparr>))" for s u
    by (rule only.trans [OF _ only_release]) (simp add: only_def res_id_def)
  show ?thesis
    by (cases f; simp add: res_func_def no_functions_def vmw_gb_context_func_def vmw_gb_surface_func_def vmw_gb_shader_func_def
        vmw_legacy_surface_func_def vmw_gb_surface_destroy_def vmw_gb_context_destroy_def vmw_gb_shader_destroy_def
        vmw_legacy_srf_destroy_def; intro only.k_rules only_parts only_modify 1 2 3)
qed

lemma only_bind: "f_bind (res_func f) = Some g \<Longrightarrow> keeps (only r) (g r b) s"
  by (cases f; auto simp: res_func_def no_functions_def vmw_gb_context_func_def vmw_gb_surface_func_def vmw_gb_shader_func_def
      vmw_legacy_surface_func_def vmw_gb_surface_bind_def vmw_gb_context_bind_def vmw_gb_shader_bind_def not_in_mob_def
      vmw_legacy_srf_bind_def vmw_legacy_srf_dma_def Let_def split: prod.split intro!: only.k_rules only_parts only_modify)

lemma only_unbind: "f_unbind (res_func f) = Some g \<Longrightarrow> keeps (only r) (g r rb b) s"
  by (cases f; auto simp: res_func_def no_functions_def vmw_gb_context_func_def vmw_gb_surface_func_def vmw_gb_shader_func_def
      vmw_legacy_surface_func_def vmw_gb_surface_unbind_def vmw_gb_context_unbind_def vmw_gb_shader_unbind_def not_in_mob_def
      vmw_legacy_srf_unbind_def vmw_legacy_srf_dma_def Let_def only_def res_id_def split: prod.split
      intro!: only.k_rules only_parts only_modify)

lemma only_del_mob: "only r s (del_mob_head r s)"
  by (simp add: only_def del_mob_head_def res_updates split: option.split)

lemma only_drop_backup: "only r s (drop_backup_buf r s)"
  by (simp add: only_def drop_backup_buf_def res_updates split: option.split)

lemma only_buffer: "only r s (upd_bo b f s)" "only r s (bo_ref b d s)" "only r s (backoff_buffer b s)"
  by (simp_all add: only_def backoff_buffer_def res_updates)

lemma only_do_validate: "keeps (only r) (vmw_resource_do_validate r b) s"
proof -
  have add: "only r s (add_mob_head r c s)" for s c by (simp add: only_def add_mob_head_def res_updates)
  have dirty: "only r s (upd_res r (\<lambda>v. v\<lparr>rs_res_dirty := True\<rparr>) s)" for s by (simp add: only_def res_updates)
  have "keeps (only r) (bind_backup r b) s" for s
  proof (cases "f_bind (res_func (rs_func (rsrc s r)))"; cases b)
    fix g c assume "f_bind (res_func (rs_func (rsrc s r))) = Some g" "b = Some c"
    then show ?thesis
      unfolding bind_backup_def link_backup_def ignore_error_def Let_def
      by (intro only.k_gets, simp only: prod.case option.case)
        (intro only.k_if only.k_andthen only.k_on_error only.k_gets only.k_option only.k_ok only.k_fail only.k_crash
          only_modify add only_destroy_fun only_bind; assumption)
  qed (simp_all add: bind_backup_def only.k_gets only.k_ok Let_def)
  then show ?thesis
    unfolding vmw_resource_do_validate_def by (intro only.k_rules only_modify only_create dirty)
qed

lemma only_buf_alloc: "keeps (only r) (vmw_resource_buf_alloc r) s"
  unfolding vmw_resource_buf_alloc_def
  by (intro only.k_rules only_parts only_modify) (simp add: only_def new_backup_def res_updates Let_def)

lemma only_check_buffer: "keeps (only r) (vmw_resource_check_buffer r) s"
proof -
  have drop: "only r s1 ((if c then drop_backup_buf r else id) (backoff_buffer b s1))" for s1 b c
    by (cases c) (simp_all add: only_buffer only.trans [OF only_buffer(3) only_drop_backup])
  have val: "keeps (only r) (bo_validate f b) s1" for f b s1
    unfolding bo_validate_def placed_def by (intro only.k_rules only_ask only_modify only_buffer)
  have "keeps (only r) (check_backup r b) s1" for b s1
    unfolding check_backup_def Let_def
    by (intro only.k_gets only.k_if only.k_andthen only.k_ok only_undo val drop)
  then show ?thesis
    unfolding vmw_resource_check_buffer_def
    by (intro only.k_rules only_undo only_ask only_modify only_buffer only_buf_alloc)
qed

lemma only_do_evict: "keeps (only r) (vmw_resource_do_evict r) s"
proof -
  have dirty: "only r s (upd_res r (\<lambda>v. v\<lparr>rs_backup_dirty := True, rs_res_dirty := False\<rparr>) s)" for s
    by (simp add: only_def res_updates)
  have "keeps (only r) (unbind_backup r b) s" for b s
    unfolding unbind_backup_def Let_def
    by (intro only.k_rules only_modify only_del_mob only_unbind; assumption)
  then show ?thesis
    unfolding vmw_resource_do_evict_def always_def
    by (intro only.k_rules only.k_cleanup only_bug_on only_check_buffer only_buffer only_destroy_fun dirty)
qed

lemmas only_steps = keepsD [OF only_do_validate] keepsD [OF only_do_evict]

section \<open>The loop that makes room on the device\<close>

definition VMW_RES_EVICT_ERR_COUNT :: nat where "VMW_RES_EVICT_ERR_COUNT = 10"

text \<open>The first resource of the list is taken off it and evicted; when that fails it goes to the end
  of the list.\<close>

function validate_loop :: "vmw_res_type \<Rightarrow> nat \<Rightarrow> nat option \<Rightarrow> nat \<Rightarrow> unit rp" where
  "validate_loop t r b err s =
     (case vmw_resource_do_validate r b s of
        None \<Rightarrow> None
      | Some (s1, x) \<Rightarrow>
          if x \<noteq> Inl EBUSY then Some (s1, x)
          else (case res_lru s1 t of
              [] \<Rightarrow> Some (s1, Inl EBUSY)
            | e # es \<Rightarrow>
                (case vmw_resource_do_evict e (upd_lru t (\<lambda>_. es) s1) of
                   None \<Rightarrow> None
                 | Some (s2, Inr _) \<Rightarrow> validate_loop t r b err s2
                 | Some (s2, Inl er) \<Rightarrow>
                     let s3 = upd_lru t (\<lambda>l. l @ [e]) s2 in
                     if er = ERESTARTSYS \<or> VMW_RES_EVICT_ERR_COUNT < Suc err then Some (s3, Inl er)
                     else validate_loop t r b (Suc err) s3)))"
  by pat_completeness auto

termination validate_loop
proof (relation "measures [\<lambda>(t, r, b, err, s). Suc VMW_RES_EVICT_ERR_COUNT - err, \<lambda>(t, r, b, err, s). length (res_lru s t)]",
    goal_cases)
  case (2 t r b err s z s1 x e es w s2 y er s3)
  then have "err < VMW_RES_EVICT_ERR_COUNT" by auto
  then show ?case by (simp add: Suc_diff_le)
next
  case (3 t r b err s z s1 x e es w s2 y u)
  have "res_lru s1 t = res_lru s t" using only_steps(1) 3(1,2) by (auto simp: only_def)
  moreover have "res_lru s2 = res_lru (upd_lru t (\<lambda>_. es) s1)" using only_steps(2) 3(5,6) by (auto simp: only_def)
  moreover have "res_lru (upd_lru t (\<lambda>_. es) s1) t = es" by (simp add: upd_lru_def)
  moreover have "res_lru s1 t = e # es" using 3(4) by simp
  ultimately have "length (res_lru s2 t) < length (res_lru s t)" by (metis length_Cons lessI)
  then show ?case by simp
qed simp

declare validate_loop.simps [simp del]

definition vmw_resource_validate :: "nat \<Rightarrow> unit rp" where
  "vmw_resource_validate r = gets (\<lambda>s. let f = res_func (rs_func (rsrc s r)) in
     if \<not> f_may_evict f then ok ()
     else andthen (validate_loop (rs_type s r) r (rs_backup (rsrc s r)) 0)
       (modify (\<lambda>s. if \<not> f_needs_backup f then drop_backup_buf r (del_mob_head r s) else s)))"

text \<open>Emptying the list of a type; the function returns nothing.\<close>

function vmw_resource_evict_type :: "vmw_res_type \<Rightarrow> nat \<Rightarrow> res_dev \<Rightarrow> res_dev option" where
  "vmw_resource_evict_type t err s =
     (case res_lru s t of
        [] \<Rightarrow> Some s
      | e # es \<Rightarrow>
          (case vmw_resource_do_evict e (upd_lru t (\<lambda>_. es) s) of
             None \<Rightarrow> None
           | Some (s1, Inr _) \<Rightarrow> vmw_resource_evict_type t err s1
           | Some (s1, Inl er) \<Rightarrow>
               let s2 = upd_lru t (\<lambda>l. l @ [e]) s1 in
               if VMW_RES_EVICT_ERR_COUNT < Suc err then Some s2 else vmw_resource_evict_type t (Suc err) s2))"
  by pat_completeness auto

termination vmw_resource_evict_type
proof (relation "measures [\<lambda>(t, err, s). Suc VMW_RES_EVICT_ERR_COUNT - err, \<lambda>(t, err, s). length (res_lru s t)]",
    goal_cases)
  case (3 t err s e es z s1 y u)
  have "res_lru s1 = res_lru (upd_lru t (\<lambda>_. es) s)" using only_steps(2) 3(2,3) by (auto simp: only_def)
  moreover have "res_lru (upd_lru t (\<lambda>_. es) s) t = es" by (simp add: upd_lru_def)
  moreover have "res_lru s t = e # es" using 3(1) by simp
  ultimately have "length (res_lru s1 t) < length (res_lru s t)" by (metis length_Cons lessI)
  then show ?case by simp
qed (auto simp: Suc_diff_le)

declare vmw_resource_evict_type.simps [simp del]

fun evict_types :: "vmw_res_type list \<Rightarrow> res_dev \<Rightarrow> res_dev option" where
  "evict_types [] s = Some s"
| "evict_types (t # ts) s = (case vmw_resource_evict_type t 0 s of None \<Rightarrow> None | Some s1 \<Rightarrow> evict_types ts s1)"

definition vmw_resource_evict_all :: "res_dev \<Rightarrow> res_dev option" where
  "vmw_resource_evict_all s = evict_types [vmw_res_context, vmw_res_surface, vmw_res_stream, vmw_res_shader] s"

section \<open>Moving, pinning and releasing\<close>

definition moved_out :: "nat \<Rightarrow> nat \<Rightarrow> unit rp" where
  "moved_out b r = gets (\<lambda>s. case f_unbind (res_func (rs_func (rsrc s r))) of
       None \<Rightarrow> ok ()
     | Some unbind \<Rightarrow> andthen (ignore_error (unbind r True b))
         (modify (\<lambda>s. del_mob_head r (upd_res r (\<lambda>v. v\<lparr>rs_backup_dirty := True, rs_res_dirty := False\<rparr>) s))))"

text \<open>\<open>to\<close> is where the buffer is going; buffers that are not DMA buffers are not passed here.\<close>

definition vmw_resource_move_notify :: "nat \<Rightarrow> mem_type option \<Rightarrow> unit rp" where
  "vmw_resource_move_notify b to = (case to of
       None \<Rightarrow> ok ()
     | Some m \<Rightarrow> if m \<noteq> VMW_PL_MOB then gets (\<lambda>s. for_each (moved_out b) (buf_res_list (bos s b))) else ok ())"

text \<open>Pinning a buffer where it is: \<open>ttm_bo_validate\<close> must succeed, \<open>vmw_bo_pin\<close> says.\<close>

definition vmw_bo_pin :: "nat \<Rightarrow> bool \<Rightarrow> unit rp" where
  "vmw_bo_pin b pin = andthen (bug_on (\<lambda>s. \<not> buf_reserved (bos s b)))
     (andthen (on_error (\<lambda>_. crash) ask) (modify (upd_bo b (\<lambda>v. v\<lparr>buf_pinned := pin\<rparr>))))"

definition with_reserved :: "nat \<Rightarrow> unit rp \<Rightarrow> unit rp" where
  "with_reserved b m = andthen (modify (upd_bo b (\<lambda>v. v\<lparr>buf_reserved := True\<rparr>)))
     (cleanup (upd_bo b (\<lambda>v. v\<lparr>buf_reserved := False\<rparr>)) m)"

definition first_pin :: "nat \<Rightarrow> unit rp" where
  "first_pin r = gets (\<lambda>s. case rs_backup (rsrc s r) of
       None \<Rightarrow> vmw_resource_validate r
     | Some b \<Rightarrow> with_reserved b
         (andthen (bo_validate (res_func (rs_func (rsrc s r))) b)
           (andthen (vmw_bo_pin b True) (vmw_resource_validate r))))"

definition then_unreserve :: "nat \<Rightarrow> unit rp \<Rightarrow> unit rp" where
  "then_unreserve r m = andthen (on_error (\<lambda>e. andthen (vmw_resource_unreserve r None 0) (fail e)) m)
     (vmw_resource_unreserve r None 0)"

definition vmw_resource_pin :: "nat \<Rightarrow> unit rp" where
  "vmw_resource_pin r =
     andthen (vmw_resource_reserve r False)
       (then_unreserve r
         (andthen (gets (\<lambda>s. if rs_pin_count (rsrc s r) = 0 then first_pin r else ok ()))
           (modify (upd_res r (\<lambda>v. v\<lparr>rs_pin_count := Suc (rs_pin_count v)\<rparr>)))))"

text \<open>The count is unsigned; releasing a resource that is not pinned is only warned about.\<close>

definition last_unpin :: "nat \<Rightarrow> unit rp" where
  "last_unpin r = gets (\<lambda>s. case rs_backup (rsrc s r) of
       Some b \<Rightarrow> if rs_pin_count (rsrc s r) = 0 then with_reserved b (vmw_bo_pin b False) else ok ()
     | None \<Rightarrow> ok ())"

definition vmw_resource_unpin :: "nat \<Rightarrow> unit rp" where
  "vmw_resource_unpin r =
     andthen (ignore_error (vmw_resource_reserve r True))
       (andthen (modify (upd_res r (\<lambda>v. v\<lparr>rs_pin_count := (if rs_pin_count v = 0 then 18446744073709551615 else rs_pin_count v - 1)\<rparr>)))
         (andthen (last_unpin r) (vmw_resource_unreserve r None 0)))"

text \<open>What \<open>hw_destroy\<close> does for a surface and a shader; the destruction of a context is in the
  theory of the submission of commands, because it flushes queries.\<close>

definition vmw_hw_surface_destroy :: "nat \<Rightarrow> unit rp" where
  "vmw_hw_surface_destroy r = gets (\<lambda>s. if rs_func (rsrc s r) = Gb_surface then ignore_error (vmw_gb_surface_destroy r)
     else if res_id s r \<noteq> - 1
     then andthen (ignore_error (andthen (destroy_object Surface_object r)
            (modify (\<lambda>s. vmw_3d_resource_dec (s\<lparr>used_memory_size := used_memory_size s - ucast (rs_backup_size (rsrc s r))\<rparr>))))) (ok ())
     else modify vmw_3d_resource_dec)"

definition vmw_hw_shader_destroy :: "nat \<Rightarrow> unit rp" where
  "vmw_hw_shader_destroy r = ignore_error (vmw_gb_shader_destroy r)"

text \<open>The last reference is gone: \<open>hw\<close> is the \<open>hw_destroy\<close> function.\<close>

definition release_backup :: "nat \<Rightarrow> unit rp" where
  "release_backup r = gets (\<lambda>s. case rs_backup (rsrc s r) of
       None \<Rightarrow> ok ()
     | Some b \<Rightarrow> andthen
         (with_reserved b
           (andthen (case f_unbind (res_func (rs_func (rsrc s r))) of
                       Some unbind \<Rightarrow> if rs_mob_head (rsrc s r) \<noteq> None then ignore_error (unbind r False b) else ok ()
                     | None \<Rightarrow> ok ())
             (modify (\<lambda>s. del_mob_head r (upd_res r (\<lambda>v. v\<lparr>rs_backup_dirty := False\<rparr>) s)))))
         (modify (drop_backup_buf r)))"

definition vmw_resource_release :: "(nat \<Rightarrow> unit rp) \<Rightarrow> nat \<Rightarrow> unit rp" where
  "vmw_resource_release hw r =
     andthen (modify (\<lambda>s. upd_lru (rs_type s r) (removeAll r) (upd_res r (\<lambda>v. v\<lparr>rs_avail := False\<rparr>) s)))
       (andthen (release_backup r)
         (andthen (gets (\<lambda>s. if rs_hw_destroy (rsrc s r)
               then andthen (hw r) (modify (\<lambda>s. s\<lparr>bnd := vmw_context_binding_res_list_kill r (bnd s)\<rparr>)) else ok ()))
           (modify (vmw_resource_release_id r))))"

section \<open>What the steps return\<close>

lemma returns_ask [returns_simps]: "returns ask s Q = Q (s\<lparr>calls := Suc (calls s)\<rparr>) (oc s (calls s))"
  by (simp add: returns_def ask_def)

definition tried :: "res_dev \<Rightarrow> res_dev" where
  "tried s = s\<lparr>bnd := (bnd s)\<lparr>tries := Suc (tries (bnd s))\<rparr>\<rparr>"

definition issued :: "object_cmd list \<Rightarrow> res_dev \<Rightarrow> res_dev" where
  "issued cs s = s\<lparr>bnd := (bnd s)\<lparr>tries := Suc (tries (bnd s)), sent := sent (bnd s) @ map CmdObject cs\<rparr>\<rparr>"

lemma returns_send [returns_simps]:
  "returns (send cs) s Q = (if room (bnd s) (tries (bnd s)) then Q (issued cs s) (Inr ()) else Q (tried s) (Inl ENOMEM))"
  by (simp add: returns_def send_def Let_def tried_def issued_def)

lemma returns_bug_on [returns_simps]: "returns (bug_on P) s Q \<longleftrightarrow> \<not> P s \<and> Q s (Inr ())"
  by (simp add: bug_on_def returns_basic returns_modify)

lemma returns_undo [returns_simps]:
  "returns (undo f m) s Q = returns m s (\<lambda>s1 x. case x of Inl e \<Rightarrow> Q (f s1) (Inl e) | Inr y \<Rightarrow> Q s1 (Inr y))"
  unfolding undo_def returns_on_error returns_andthen returns_basic returns_modify
  by (rule arg_cong [where f = "returns m s"]) (auto simp: fun_eq_iff split: sum.split)

lemma returns_ignore [returns_simps]: "returns (ignore_error m) s Q = returns m s (\<lambda>s1 x. Q s1 (Inr ()))"
  unfolding ignore_error_def returns_on_error returns_basic returns_modify
  by (rule arg_cong [where f = "returns m s"]) (auto simp: fun_eq_iff split: sum.split)

end
