(* ===== verification/Cmd_Buffer.thy ===== *)
theory Cmd_Buffer
  imports Prelude
begin

text \<open>
  The memory of a command batch as the verifier sees it: bytes, because the sizes of the
  commands in a batch are not checked to be multiples of four and a command may start at any
  byte.  A position is a byte offset from the start of the batch; offsets past the end of the
  batch stand for whatever lies behind it.  The device is little endian, and so are
  \<open>le32_to_cpu\<close> and the in-memory format of an \<open>uint32_t\<close> on the machines the driver runs on.
\<close>

type_synonym cmd_mem = "nat \<Rightarrow> u8"

definition rd32 :: "cmd_mem \<Rightarrow> nat \<Rightarrow> u32" where
  "rd32 m a = ucast (m a) OR push_bit 8 (ucast (m (a + 1))) OR
              push_bit 16 (ucast (m (a + 2))) OR push_bit 24 (ucast (m (a + 3)))"

definition wr32 :: "nat \<Rightarrow> u32 \<Rightarrow> cmd_mem \<Rightarrow> cmd_mem" where
  "wr32 a v m = m(a := ucast v, a + 1 := ucast (drop_bit 8 v), a + 2 := ucast (drop_bit 16 v),
                  a + 3 := ucast (drop_bit 24 v))"

lemma rd32_wr32_same [simp]: "rd32 (wr32 a v m) a = v"
proof (rule bit_word_eqI)
  fix n assume "n < LENGTH(32)"
  then have "n < 32" by simp
  then show "bit (rd32 (wr32 a v m) a) n = bit v n"
    by (cases "n < 8"; cases "n < 16"; cases "n < 24") (auto simp: rd32_def wr32_def bit_simps not_less)
qed

lemma rd32_wr32_other: "b + 4 \<le> a \<or> a + 4 \<le> b \<Longrightarrow> rd32 (wr32 a v m) b = rd32 m b"
  by (auto simp: rd32_def wr32_def)

lemma wr32_outside: "b < a \<or> a + 4 \<le> b \<Longrightarrow> wr32 a v m b = m b"
  by (auto simp: wr32_def)

lemma rd32_cong: "(\<And>i. a \<le> i \<Longrightarrow> i < a + 4 \<Longrightarrow> m i = m' i) \<Longrightarrow> rd32 m a = rd32 m' a"
  by (simp add: rd32_def)

text \<open>Writing a list of words, as a \<open>memcpy\<close> of a structure does.\<close>

fun wr_words :: "nat \<Rightarrow> u32 list \<Rightarrow> cmd_mem \<Rightarrow> cmd_mem" where
  "wr_words a [] m = m"
| "wr_words a (v # vs) m = wr_words (a + 4) vs (wr32 a v m)"

lemma wr_words_other: "b + 4 \<le> a \<or> a + 4 * length vs \<le> b \<Longrightarrow> rd32 (wr_words a vs m) b = rd32 m b"
proof (induction vs arbitrary: a m)
  case (Cons v vs)
  then show ?case using Cons.IH [of "a + 4" "wr32 a v m"] by (auto simp: rd32_wr32_other)
qed simp

lemma wr_words_outside: "b < a \<or> a + 4 * length vs \<le> b \<Longrightarrow> wr_words a vs m b = m b"
proof (induction vs arbitrary: a m)
  case (Cons v vs)
  then show ?case using Cons.IH [of "a + 4" "wr32 a v m"] by (auto simp: wr32_outside)
qed simp

lemma rd_wr_words: "i < length vs \<Longrightarrow> rd32 (wr_words a vs m) (a + 4 * i) = vs ! i"
proof (induction vs arbitrary: a m i)
  case (Cons v vs)
  then show ?case
  proof (cases i)
    case 0
    then show ?thesis by (simp add: wr_words_other)
  next
    case (Suc j)
    then show ?thesis using Cons.IH [of j "a + 4" "wr32 a v m"] Cons.prems by (simp add: algebra_simps)
  qed
qed simp

text \<open>A batch given as words, for examples.\<close>

definition of_words :: "u32 list \<Rightarrow> cmd_mem" where
  "of_words ws = wr_words 0 ws (\<lambda>_. 0)"

lemma rd_of_words: "i < length ws \<Longrightarrow> rd32 (of_words ws) (4 * i) = ws ! i"
  using rd_wr_words [of i ws 0] by (simp add: of_words_def)

end
