(* ===== verification/Drm_Hashtab.thy ===== *)
theory Drm_Hashtab
  imports Prelude
begin

text \<open>
  The open hash table of \<open>drm_hashtab.c\<close>.  A table is an array of buckets; a bucket is a
  list of items sorted by key.  An item is its key and the address of the structure it is
  embedded in, which is what \<open>drm_hash_entry\<close> recovers.  \<open>hash_long\<close> is a kernel function
  and is the argument \<open>hash\<close> of every operation; the code relies on it only to return an
  index below the table size (\<open>hash_ok\<close>).

  The theory ends with the interface \<open>item_table\<close>: what a client of the table may rely on,
  proved here for the code's model.
\<close>

record drm_hash_item =
  key :: u64
  addr :: nat

type_synonym bucket = "drm_hash_item list"

record drm_open_hash =
  ht_size :: nat
  ht_order :: nat
  fill :: u32
  table :: "bucket list option"
  use_vmalloc :: bool

text \<open>\<open>drm_ht_create\<close>: the arguments \<open>kc\<close> and \<open>vm\<close> say whether the two allocations
  succeed.  A hash list head is a pointer of 8 bytes.  The size \<open>1 << order\<close> is computed in
  32 bits; an order of 32 or more is undefined in C, and no lemma speaks of one.\<close>

definition drm_ht_create :: "nat \<Rightarrow> bool \<Rightarrow> bool \<Rightarrow> drm_open_hash res" where
  "drm_ht_create order kc vm =
     (let size = unat (push_bit order (1 :: u32));
          big = size * 8 > PAGE_SIZE;
          kc_done = \<not> big \<and> kc
      in if \<not> kc_done \<and> \<not> vm then Inl ENOMEM
         else Inr \<lparr>ht_size = size, ht_order = order, fill = 0,
                   table = Some (replicate size []), use_vmalloc = \<not> kc_done\<rparr>)"

lemma table_size: "order < 32 \<Longrightarrow> unat (2 ^ order :: u32) = 2 ^ order"
proof -
  assume "order < 32"
  then have "(2 :: nat) ^ order < 2 ^ 32" by (intro power_strict_increasing) simp_all
  then have "unat (of_nat (2 ^ order) :: u32) = 2 ^ order" by (intro unat_of_nat_lt) simp
  then show ?thesis by simp
qed

section \<open>Buckets\<close>

text \<open>The scan of \<open>drm_ht_find_key\<close>: it stops at the first larger key.\<close>

fun bucket_find :: "u64 \<Rightarrow> bucket \<Rightarrow> drm_hash_item option" where
  "bucket_find k [] = None"
| "bucket_find k (e # es) =
     (if key e = k then Some e
      else if key e > k then None
      else bucket_find k es)"

text \<open>The scan of \<open>drm_ht_insert_item\<close>: the item goes after the last smaller key, and the
  scan fails on an equal one.\<close>

fun bucket_insert :: "drm_hash_item \<Rightarrow> bucket \<Rightarrow> bucket option" where
  "bucket_insert it [] = Some [it]"
| "bucket_insert it (e # es) =
     (if key e = key it then None
      else if key e > key it then Some (it # e # es)
      else map_option ((#) e) (bucket_insert it es))"

fun bucket_sorted :: "bucket \<Rightarrow> bool" where
  "bucket_sorted [] = True"
| "bucket_sorted (e # es) = ((\<forall>f \<in> set es. key e < key f) \<and> bucket_sorted es)"

section \<open>Operations\<close>

definition buckets :: "drm_open_hash \<Rightarrow> bucket list" where
  "buckets ht = (case table ht of None \<Rightarrow> [] | Some bs \<Rightarrow> bs)"

definition drm_ht_find_key :: "(u64 \<Rightarrow> nat \<Rightarrow> nat) \<Rightarrow> drm_open_hash \<Rightarrow> u64 \<Rightarrow> drm_hash_item option" where
  "drm_ht_find_key hash ht k = bucket_find k (buckets ht ! hash k (ht_order ht))"

definition drm_ht_insert_item ::
    "(u64 \<Rightarrow> nat \<Rightarrow> nat) \<Rightarrow> drm_open_hash \<Rightarrow> drm_hash_item \<Rightarrow> drm_open_hash res" where
  "drm_ht_insert_item hash ht it =
     (let h = hash (key it) (ht_order ht)
      in case bucket_insert it (buckets ht ! h) of
           None \<Rightarrow> Inl EINVAL
         | Some b \<Rightarrow> Inr (ht\<lparr>table := Some ((buckets ht)[h := b]), fill := fill ht + 1\<rparr>))"

definition drm_ht_find_item ::
    "(u64 \<Rightarrow> nat \<Rightarrow> nat) \<Rightarrow> drm_open_hash \<Rightarrow> u64 \<Rightarrow> drm_hash_item res" where
  "drm_ht_find_item hash ht k =
     (case drm_ht_find_key hash ht k of None \<Rightarrow> Inl EINVAL | Some it \<Rightarrow> Inr it)"

text \<open>\<open>hlist_del_init_rcu\<close> unlinks the node from the list it is on, whichever it is; a node
  that is on no list is left alone, and \<open>fill\<close> is decremented all the same.\<close>

definition hlist_del :: "nat \<Rightarrow> drm_open_hash \<Rightarrow> drm_open_hash" where
  "hlist_del a ht = ht\<lparr>table := map_option (map (filter (\<lambda>e. addr e \<noteq> a))) (table ht)\<rparr>"

definition drm_ht_remove_item :: "drm_open_hash \<Rightarrow> nat \<Rightarrow> drm_open_hash" where
  "drm_ht_remove_item ht a = (hlist_del a ht)\<lparr>fill := fill ht - 1\<rparr>"

definition drm_ht_remove_key ::
    "(u64 \<Rightarrow> nat \<Rightarrow> nat) \<Rightarrow> drm_open_hash \<Rightarrow> u64 \<Rightarrow> drm_open_hash res" where
  "drm_ht_remove_key hash ht k =
     (case drm_ht_find_key hash ht k of
        None \<Rightarrow> Inl EINVAL
      | Some it \<Rightarrow> Inr (drm_ht_remove_item ht (addr it)))"

definition drm_ht_remove :: "drm_open_hash \<Rightarrow> drm_open_hash" where
  "drm_ht_remove ht = ht\<lparr>table := None\<rparr>"

text \<open>\<open>drm_ht_just_insert_please\<close>: the loop tries the \<open>2 ^ bits\<close> keys in cyclic order
  from the hash of the seed, and gives up when it is back at the first.  The fuel is the
  number of keys; \<open>drm_ht_just_insert_please_spec\<close> shows that it is enough.  The mask
  \<open>(1 << bits) - 1\<close> is computed in an \<open>int\<close> and then extended to \<open>unsigned long\<close>;
  \<open>key_mask_eq\<close>: for fewer than 32 bits it is the mask of that many bits.\<close>

fun just_insert_loop ::
    "(u64 \<Rightarrow> nat \<Rightarrow> nat) \<Rightarrow> nat \<Rightarrow> drm_open_hash \<Rightarrow> nat \<Rightarrow> u64 \<Rightarrow> u64 \<Rightarrow> nat \<Rightarrow> u64 \<Rightarrow> u64
      \<Rightarrow> (drm_open_hash \<times> u64) res option" where
  "just_insert_loop hash 0 ht a first unshifted shift offs msk = None"
| "just_insert_loop hash (Suc n) ht a first unshifted shift offs msk =
     (let k = push_bit shift unshifted + offs
      in case drm_ht_insert_item hash ht \<lparr>key = k, addr = a\<rparr> of
           Inr ht' \<Rightarrow> Some (Inr (ht', k))
         | Inl e \<Rightarrow>
             (let unshifted' = (unshifted + 1) AND msk
              in if unshifted' \<noteq> first
                 then just_insert_loop hash n ht a first unshifted' shift offs msk
                 else Some (Inl EINVAL)))"

definition key_mask :: "nat \<Rightarrow> u64" where
  "key_mask bits = scast (push_bit bits (1 :: u32) - 1)"

definition drm_ht_just_insert_please ::
    "(u64 \<Rightarrow> nat \<Rightarrow> nat) \<Rightarrow> drm_open_hash \<Rightarrow> nat \<Rightarrow> u64 \<Rightarrow> nat \<Rightarrow> nat \<Rightarrow> u64
      \<Rightarrow> (drm_open_hash \<times> u64) res option" where
  "drm_ht_just_insert_please hash ht a seed bits shift offs =
     (let msk = key_mask bits; first = of_nat (hash seed bits)
      in just_insert_loop hash (2 ^ bits) ht a first first shift offs msk)"


section \<open>Invariant and abstraction\<close>

definition hash_ok :: "(u64 \<Rightarrow> nat \<Rightarrow> nat) \<Rightarrow> bool" where
  "hash_ok hash \<longleftrightarrow> (\<forall>k n. hash k n < 2 ^ n)"

definition ht_items :: "drm_open_hash \<Rightarrow> drm_hash_item set" where
  "ht_items ht = set (concat (buckets ht))"

definition ht_inv :: "(u64 \<Rightarrow> nat \<Rightarrow> nat) \<Rightarrow> drm_open_hash \<Rightarrow> bool" where
  "ht_inv hash ht \<longleftrightarrow>
     table ht \<noteq> None \<and> length (buckets ht) = 2 ^ ht_order ht \<and>
     (\<forall>b \<in> set (buckets ht). bucket_sorted b) \<and>
     (\<forall>i < length (buckets ht). \<forall>e \<in> set (buckets ht ! i). hash (key e) (ht_order ht) = i) \<and>
     distinct (map addr (concat (buckets ht))) \<and>
     fill ht = of_nat (length (concat (buckets ht)))"

text \<open>The table as a map from keys to the structures they name.\<close>

definition ht_map :: "(u64 \<Rightarrow> nat \<Rightarrow> nat) \<Rightarrow> drm_open_hash \<Rightarrow> u64 \<Rightarrow> nat option" where
  "ht_map hash ht k = map_option addr (drm_ht_find_key hash ht k)"

definition ht_addrs :: "drm_open_hash \<Rightarrow> nat set" where
  "ht_addrs ht = addr ` ht_items ht"

lemma bucket_find_key: "bucket_find k b = Some e \<Longrightarrow> e \<in> set b \<and> key e = k"
  by (induction b) (auto split: if_splits)

lemma bucket_find_iff: "bucket_sorted b \<Longrightarrow> bucket_find k b = Some e \<longleftrightarrow> e \<in> set b \<and> key e = k"
  by (induction b) auto

lemma bucket_find_None: "bucket_sorted b \<Longrightarrow> bucket_find k b = None \<longleftrightarrow> k \<notin> key ` set b"
  by (induction b) (auto simp: image_iff)

lemma bucket_insert_None: "bucket_sorted b \<Longrightarrow> bucket_insert it b = None \<longleftrightarrow> key it \<in> key ` set b"
  by (induction b) (auto simp: image_iff)

lemma bucket_insert_perm:
  "bucket_insert it b = Some b' \<Longrightarrow> \<exists>xs ys. b = xs @ ys \<and> b' = xs @ it # ys"
proof (induction b arbitrary: b')
  case Nil
  then show ?case by simp
next
  case (Cons e es)
  show ?case
  proof (cases "key e > key it \<or> key e = key it")
    case True
    with Cons.prems have "b' = [] @ it # e # es" by (auto split: if_splits)
    then show ?thesis by blast
  next
    case False
    with Cons.prems obtain c where c: "bucket_insert it es = Some c" "b' = e # c"
      by (auto split: if_splits)
    from Cons.IH [OF c(1)] obtain xs ys where "es = xs @ ys" "c = xs @ it # ys" by blast
    with c(2) have "e # es = (e # xs) @ ys \<and> b' = (e # xs) @ it # ys" by simp
    then show ?thesis by blast
  qed
qed

lemma bucket_insert_set: "bucket_insert it b = Some b' \<Longrightarrow> set b' = insert it (set b)"
  by (drule bucket_insert_perm) auto

lemma bucket_insert_sorted:
  "bucket_sorted b \<Longrightarrow> bucket_insert it b = Some b' \<Longrightarrow> bucket_sorted b'"
proof (induction b arbitrary: b')
  case Nil
  then show ?case by auto
next
  case (Cons e es)
  show ?case
  proof (cases "key e > key it \<or> key e = key it")
    case True
    with Cons.prems show ?thesis by (auto split: if_splits) (meson order.strict_trans)
  next
    case False
    with Cons.prems(2) obtain c where c: "bucket_insert it es = Some c" "b' = e # c"
      by (auto split: if_splits)
    from Cons.prems(1) c(1) have "bucket_sorted c" by (auto intro: Cons.IH)
    with c False Cons.prems(1) show ?thesis
      by (auto simp: bucket_insert_set [OF c(1)])
  qed
qed

lemma bucket_sorted_filter: "bucket_sorted b \<Longrightarrow> bucket_sorted (filter P b)"
  by (induction b) auto

lemma concat_update:
  assumes "h < length bs"
  shows "\<exists>xs ys. concat bs = xs @ bs ! h @ ys \<and> (\<forall>b. concat (bs[h := b]) = xs @ b @ ys)"
proof -
  have "concat bs = concat (take h bs) @ bs ! h @ concat (drop (Suc h) bs)"
    using assms by (metis concat.simps(2) concat_append id_take_nth_drop)
  moreover have "\<forall>b. concat (bs[h := b]) = concat (take h bs) @ b @ concat (drop (Suc h) bs)"
    using assms by (simp add: upd_conv_take_nth_drop)
  ultimately show ?thesis by blast
qed

lemma hash_index:
  "hash_ok hash \<Longrightarrow> ht_inv hash ht \<Longrightarrow> hash k (ht_order ht) < length (buckets ht)"
  by (simp add: hash_ok_def ht_inv_def)

lemma ht_inv_bucket:
  "hash_ok hash \<Longrightarrow> ht_inv hash ht \<Longrightarrow> bucket_sorted (buckets ht ! hash k (ht_order ht))"
  using hash_index [of hash ht k] by (auto simp: ht_inv_def)

text \<open>An item of the table is in the bucket its key hashes to.\<close>

lemma ht_items_bucket:
  assumes "hash_ok hash" "ht_inv hash ht"
  shows "e \<in> ht_items ht \<and> key e = k \<longleftrightarrow> e \<in> set (buckets ht ! hash k (ht_order ht)) \<and> key e = k"
proof
  assume "e \<in> ht_items ht \<and> key e = k"
  then obtain i where "i < length (buckets ht)" "e \<in> set (buckets ht ! i)" "key e = k"
    by (auto simp: ht_items_def in_set_conv_nth) (metis nth_mem)
  with assms(2) show "e \<in> set (buckets ht ! hash k (ht_order ht)) \<and> key e = k"
    by (auto simp: ht_inv_def)
next
  assume "e \<in> set (buckets ht ! hash k (ht_order ht)) \<and> key e = k"
  with hash_index [OF assms, of k] show "e \<in> ht_items ht \<and> key e = k"
    by (auto simp: ht_items_def)
qed

lemma find_key_iff:
  assumes "hash_ok hash" "ht_inv hash ht"
  shows "drm_ht_find_key hash ht k = Some e \<longleftrightarrow> e \<in> ht_items ht \<and> key e = k"
  using bucket_find_iff [OF ht_inv_bucket [OF assms]] ht_items_bucket [OF assms]
  by (simp add: drm_ht_find_key_def)

lemma find_key_None:
  assumes "hash_ok hash" "ht_inv hash ht"
  shows "drm_ht_find_key hash ht k = None \<longleftrightarrow> k \<notin> key ` ht_items ht"
  using find_key_iff [OF assms] by (metis image_iff option.exhaust option.distinct(1))


section \<open>What the operations do\<close>

lemma create_inv:
  "drm_ht_create order kc vm = Inr ht \<Longrightarrow> order < 32 \<Longrightarrow> ht_inv hash ht \<and> ht_items ht = {}"
  by (auto simp: table_size drm_ht_create_def ht_inv_def buckets_def ht_items_def Let_def
           split: if_splits)

lemma ht_map_empty: "ht_items ht = {} \<Longrightarrow> hash_ok hash \<Longrightarrow> ht_inv hash ht \<Longrightarrow> ht_map hash ht k = None"
  by (simp add: ht_map_def find_key_None)

lemma insert_ok:
  assumes ok: "hash_ok hash" and inv: "ht_inv hash ht" and new: "addr it \<notin> ht_addrs ht"
    and ins: "drm_ht_insert_item hash ht it = Inr ht'"
  shows "ht_inv hash ht'" "ht_items ht' = insert it (ht_items ht)" "key it \<notin> key ` ht_items ht"
proof -
  let ?h = "hash (key it) (ht_order ht)"
  from ins obtain b where b: "bucket_insert it (buckets ht ! ?h) = Some b"
    and ht': "ht' = ht\<lparr>table := Some ((buckets ht)[?h := b]), fill := fill ht + 1\<rparr>"
    by (auto simp: drm_ht_insert_item_def Let_def split: option.splits)
  have h: "?h < length (buckets ht)" by (rule hash_index [OF ok inv])
  have bks: "buckets ht' = (buckets ht)[?h := b]" by (simp add: ht' buckets_def)
  have ord: "ht_order ht' = ht_order ht" by (simp add: ht')
  obtain xs ys where old: "concat (buckets ht) = xs @ buckets ht ! ?h @ ys"
    and upd: "\<forall>c. concat ((buckets ht)[?h := c]) = xs @ c @ ys"
    using concat_update [OF h] by blast
  obtain us vs where us: "buckets ht ! ?h = us @ vs" "b = us @ it # vs"
    using bucket_insert_perm [OF b] by blast
  show items: "ht_items ht' = insert it (ht_items ht)"
    by (auto simp: ht_items_def bks old upd us simp del: set_concat)
  have addrs: "distinct (map addr (concat (buckets ht')))"
    using inv new by (auto simp: ht_inv_def ht_addrs_def ht_items_def bks old upd us
                           simp del: set_concat)
  have "length (concat (buckets ht')) = Suc (length (concat (buckets ht)))"
    by (simp add: bks old upd us del: length_concat)
  moreover have "fill ht' = fill ht + 1" by (simp add: ht')
  ultimately have len: "fill ht' = of_nat (length (concat (buckets ht')))"
    using inv by (simp add: ht_inv_def)
  have srt: "\<forall>c \<in> set (buckets ht'). bucket_sorted c"
    using inv bucket_insert_sorted [OF ht_inv_bucket [OF ok inv] b]
    by (auto simp: bks ht_inv_def dest: set_update_subset_insert [THEN subsetD])
  have place: "\<forall>i < length (buckets ht'). \<forall>e \<in> set (buckets ht' ! i). hash (key e) (ht_order ht') = i"
    using inv h bucket_insert_set [OF b]
    by (auto simp: bks ord ht_inv_def nth_list_update)
  show "ht_inv hash ht'"
    using inv addrs len srt place by (simp add: ht_inv_def bks) (simp add: ht')
  show "key it \<notin> key ` ht_items ht"
    using b bucket_insert_None [OF ht_inv_bucket [OF ok inv], of it "key it"]
      ht_items_bucket [OF ok inv] by (metis image_iff option.distinct(1))
qed

lemma insert_error:
  assumes "hash_ok hash" "ht_inv hash ht"
  shows "drm_ht_insert_item hash ht it = Inl e \<longleftrightarrow> e = EINVAL \<and> key it \<in> key ` ht_items ht"
proof -
  let ?b = "buckets ht ! hash (key it) (ht_order ht)"
  have "bucket_insert it ?b = None \<longleftrightarrow> key it \<in> key ` ht_items ht"
    using bucket_insert_None [OF ht_inv_bucket [OF assms], of it "key it"]
      ht_items_bucket [OF assms, of _ "key it"] by (auto simp: image_iff) metis+
  then show ?thesis
    by (auto simp: drm_ht_insert_item_def Let_def split: option.splits)
qed

lemma hlist_del_buckets: "buckets (hlist_del a ht) = map (filter (\<lambda>e. addr e \<noteq> a)) (buckets ht)"
  by (simp add: hlist_del_def buckets_def split: option.splits)

lemma remove_buckets:
  "buckets (drm_ht_remove_item ht a) = map (filter (\<lambda>e. addr e \<noteq> a)) (buckets ht)"
  using hlist_del_buckets [of a ht] by (simp add: drm_ht_remove_item_def buckets_def)

lemma concat_map_filter: "concat (map (filter P) xss) = filter P (concat xss)"
  by (induction xss) auto

lemma length_filter_addr:
  "distinct (map addr xs) \<Longrightarrow> a \<in> addr ` set xs \<Longrightarrow>
     Suc (length (filter (\<lambda>e. addr e \<noteq> a) xs)) = length xs"
proof (induction xs)
  case (Cons x xs)
  then show ?case
  proof (cases "addr x = a")
    case True
    with Cons.prems have "filter (\<lambda>e. addr e \<noteq> a) xs = xs" by (force simp: filter_id_conv image_iff)
    with True show ?thesis by simp
  qed auto
qed simp

lemma remove_ok:
  assumes inv: "ht_inv hash ht" and a: "a \<in> ht_addrs ht"
  shows "ht_inv hash (drm_ht_remove_item ht a)"
    and "ht_items (drm_ht_remove_item ht a) = {e \<in> ht_items ht. addr e \<noteq> a}"
proof -
  let ?f = "filter (\<lambda>e. addr e \<noteq> a)"
  show "ht_items (drm_ht_remove_item ht a) = {e \<in> ht_items ht. addr e \<noteq> a}"
    by (auto simp: ht_items_def remove_buckets)
  have dist: "distinct (map addr (concat (buckets ht)))" using inv by (simp add: ht_inv_def)
  have mem: "a \<in> addr ` set (concat (buckets ht))" using a by (simp add: ht_addrs_def ht_items_def)
  have "Suc (length (?f (concat (buckets ht)))) = length (concat (buckets ht))"
    by (rule length_filter_addr [OF dist mem])
  then have "(of_nat (length (concat (buckets ht))) :: u32) = 1 + of_nat (length (?f (concat (buckets ht))))"
    by (metis of_nat_Suc)
  then have fil: "fill (drm_ht_remove_item ht a) = of_nat (length (concat (map ?f (buckets ht))))"
    using inv by (simp add: drm_ht_remove_item_def hlist_del_def ht_inv_def concat_map_filter
                            del: length_concat)
  have order: "ht_order (drm_ht_remove_item ht a) = ht_order ht"
    and tab: "table (drm_ht_remove_item ht a) = None \<longleftrightarrow> table ht = None"
    by (simp_all add: drm_ht_remove_item_def hlist_del_def)
  have "distinct (map addr (concat (map ?f (buckets ht))))"
    using dist by (simp add: concat_map_filter distinct_map_filter)
  then show "ht_inv hash (drm_ht_remove_item ht a)"
    using inv fil unfolding ht_inv_def remove_buckets order tab
    by (auto simp: bucket_sorted_filter simp del: length_concat)
qed

lemma items_key_inj:
  assumes "hash_ok hash" "ht_inv hash ht" "e \<in> ht_items ht" "f \<in> ht_items ht" "key e = key f"
  shows "e = f"
  using assms find_key_iff [OF assms(1,2), of "key e"] by (metis option.inject)

lemma items_addr_inj:
  assumes "ht_inv hash ht" "e \<in> ht_items ht" "f \<in> ht_items ht" "addr e = addr f"
  shows "e = f"
  using assms by (auto simp: ht_inv_def ht_items_def intro: distinct_map_inj_on simp del: set_concat)


lemma insert_map:
  assumes "hash_ok hash" "ht_inv hash ht" "addr it \<notin> ht_addrs ht"
    and "drm_ht_insert_item hash ht it = Inr ht'"
  shows "ht_map hash ht' = (ht_map hash ht)(key it \<mapsto> addr it)"
proof
  fix k
  note ok = insert_ok [OF assms]
  have other: "drm_ht_find_key hash ht' k = drm_ht_find_key hash ht k" if "k \<noteq> key it"
  proof (rule option.expand)
    show "(drm_ht_find_key hash ht' k = None) = (drm_ht_find_key hash ht k = None)"
      using that ok(2) by (simp add: find_key_None [OF assms(1) ok(1)] find_key_None [OF assms(1,2)])
    assume "drm_ht_find_key hash ht' k \<noteq> None"
    then obtain e where e: "drm_ht_find_key hash ht' k = Some e" by auto
    then have "drm_ht_find_key hash ht k = Some e"
      using that ok(2) by (auto simp: find_key_iff [OF assms(1) ok(1)] find_key_iff [OF assms(1,2)])
    with e show "the (drm_ht_find_key hash ht' k) = the (drm_ht_find_key hash ht k)" by simp
  qed
  have same: "drm_ht_find_key hash ht' (key it) = Some it"
    by (simp add: find_key_iff [OF assms(1) ok(1)] ok(2))
  show "ht_map hash ht' k = ((ht_map hash ht)(key it \<mapsto> addr it)) k"
    using other same by (simp add: ht_map_def)
qed

lemma item_eta: "\<lparr>key = key e, addr = addr e\<rparr> = e"
  by simp

lemma map_Some_iff:
  assumes "hash_ok hash" "ht_inv hash ht"
  shows "ht_map hash ht k = Some a \<longleftrightarrow> \<lparr>key = k, addr = a\<rparr> \<in> ht_items ht"
proof -
  have "(\<exists>e. e \<in> ht_items ht \<and> key e = k \<and> addr e = a) \<longleftrightarrow> \<lparr>key = k, addr = a\<rparr> \<in> ht_items ht"
    using item_eta by (metis drm_hash_item.select_convs(1,2))
  then show ?thesis
    by (auto simp: ht_map_def find_key_iff [OF assms])
qed

lemma map_inj:
  "hash_ok hash \<Longrightarrow> ht_inv hash ht \<Longrightarrow> ht_map hash ht k = Some a \<Longrightarrow> ht_map hash ht l = Some a \<Longrightarrow> k = l"
  using items_addr_inj [of hash ht "\<lparr>key = k, addr = a\<rparr>" "\<lparr>key = l, addr = a\<rparr>"]
  by (simp add: map_Some_iff)

lemma remove_map:
  assumes "hash_ok hash" "ht_inv hash ht" "ht_map hash ht k = Some a"
  shows "ht_map hash (drm_ht_remove_item ht a) = (ht_map hash ht)(k := None)"
proof
  fix l
  have mem: "\<lparr>key = k, addr = a\<rparr> \<in> ht_items ht" using assms by (simp add: map_Some_iff)
  then have "a \<in> ht_addrs ht" by (force simp: ht_addrs_def)
  note ok = remove_ok [OF assms(2) this]
  have iff: "ht_map hash (drm_ht_remove_item ht a) l = Some b \<longleftrightarrow>
      ((ht_map hash ht)(k := None)) l = Some b" for b
  proof (cases "l = k")
    case True
    with assms(3) map_Some_iff [OF assms(1,2), of k b] show ?thesis
      by (auto simp: map_Some_iff [OF assms(1) ok(1)] ok(2))
  next
    case False
    with map_inj [OF assms(1,2,3)] show ?thesis
      by (auto simp: map_Some_iff [OF assms(1) ok(1)] map_Some_iff [OF assms(1,2)] ok(2))
  qed
  then show "ht_map hash (drm_ht_remove_item ht a) l = ((ht_map hash ht)(k := None)) l"
    by (metis option.exhaust)
qed

lemma addrs_eq_ran: "hash_ok hash \<Longrightarrow> ht_inv hash ht \<Longrightarrow> ht_addrs ht = ran (ht_map hash ht)"
  unfolding ran_def ht_addrs_def image_def map_Some_iff
  using item_eta by (metis (no_types, lifting) drm_hash_item.select_convs(2))


section \<open>The search for an unused key\<close>

lemma mask_step:
  assumes "b < 64" "x < 2 ^ b"
  shows "((of_nat x :: u64) + 1) AND (2 ^ b - 1) = of_nat ((x + 1) mod 2 ^ b)"
proof -
  have "((of_nat x :: u64) + 1) AND (2 ^ b - 1) = take_bit b (of_nat (x + 1))"
    by (simp add: take_bit_eq_mask mask_eq_exp_minus_1 add.commute)
  also have "\<dots> = of_nat ((x + 1) mod 2 ^ b)"
    by (metis take_bit_of_nat take_bit_eq_mod)
  finally show ?thesis .
qed

lemma of_nat64_inj:
  assumes "b < 64" "x < 2 ^ b" "y < 2 ^ b"
  shows "(of_nat x :: u64) = of_nat y \<longleftrightarrow> x = y"
proof -
  have "(2::nat) ^ b < 2 ^ 64" by (rule power_strict_increasing [OF assms(1)]) simp
  with assms(2,3) have "x < 2 ^ LENGTH(64)" "y < 2 ^ LENGTH(64)" by simp_all
  then show ?thesis by (metis unat_of_nat_lt)
qed

definition please_key :: "nat \<Rightarrow> u64 \<Rightarrow> nat \<Rightarrow> u64" where
  "please_key shift offs u = push_bit shift (of_nat u) + offs"

lemma just_insert_loop_inv:
  assumes ok: "hash_ok hash" and inv: "ht_inv hash ht" and b: "b < 64" and f: "f < 2 ^ b"
    and a: "a \<notin> ht_addrs ht"
  shows "n + i = 2 ^ b \<Longrightarrow> 0 < n \<Longrightarrow>
     (\<forall>j < i. ht_map hash ht (please_key shift offs ((f + j) mod 2 ^ b)) \<noteq> None) \<Longrightarrow>
     (case just_insert_loop hash n ht a (of_nat f) (of_nat ((f + i) mod 2 ^ b)) shift offs (2 ^ b - 1) of
        None \<Rightarrow> False
      | Some (Inr (ht', k)) \<Rightarrow>
          ht_inv hash ht' \<and> ht_map hash ht k = None \<and> ht_map hash ht' = (ht_map hash ht)(k \<mapsto> a) \<and>
          (\<exists>u < 2 ^ b. k = please_key shift offs u)
      | Some (Inl e) \<Rightarrow>
          e = EINVAL \<and> (\<forall>u < 2 ^ b. ht_map hash ht (please_key shift offs u) \<noteq> None))"
proof (induction n arbitrary: i)
  case 0
  then show ?case by simp
next
  case (Suc n)
  let ?x = "(f + i) mod 2 ^ b"
  let ?it = "\<lparr>key = please_key shift offs ?x, addr = a\<rparr>"
  have next_x: "(of_nat ?x + 1) AND (2 ^ b - 1) = (of_nat ((f + Suc i) mod 2 ^ b) :: u64)"
    using mask_step [OF b, of ?x] by (simp add: mod_Suc_eq)
  have key_def: "push_bit shift (of_nat ?x) + offs = please_key shift offs ?x"
    by (simp add: please_key_def)
  show ?case
  proof (cases "drm_ht_insert_item hash ht ?it")
    case (Inr ht')
    have "addr ?it \<notin> ht_addrs ht" using a by simp
    note ins = insert_ok [OF ok inv this Inr] insert_map [OF ok inv this Inr]
    have "ht_map hash ht (key ?it) = None"
      using ins(3) by (simp add: ht_map_def find_key_None [OF ok inv])
    moreover have "?x < 2 ^ b" by simp
    ultimately have "ht_inv hash ht' \<and> ht_map hash ht (please_key shift offs ?x) = None \<and>
        ht_map hash ht' = (ht_map hash ht)(please_key shift offs ?x \<mapsto> a) \<and>
        (\<exists>u < 2 ^ b. please_key shift offs ?x = please_key shift offs u)"
      using ins(1,4) by (auto intro!: exI [of _ ?x])
    then show ?thesis
      by (simp add: key_def Inr Let_def)
  next
    case (Inl e)
    then have "key ?it \<in> key ` ht_items ht" by (simp only: insert_error [OF ok inv])
    then have taken: "ht_map hash ht (please_key shift offs ?x) \<noteq> None"
      by (simp add: ht_map_def find_key_None [OF ok inv])
    with Suc.prems(3) have taken': "\<forall>j < Suc i. ht_map hash ht (please_key shift offs ((f + j) mod 2 ^ b)) \<noteq> None"
      by (auto simp: less_Suc_eq)
    show ?thesis
    proof (cases "n = 0")
      case True
      with Suc.prems(1) have i: "Suc i = 2 ^ b" by simp
      then have wrap: "(f + Suc i) mod 2 ^ b = f" using f by simp
      have "\<forall>u < 2 ^ b. ht_map hash ht (please_key shift offs u) \<noteq> None"
      proof (intro allI impI)
        fix u :: nat assume u: "u < 2 ^ b"
        let ?j = "(u + 2 ^ b - f) mod 2 ^ b"
        have "(f + ?j) mod 2 ^ b = (f + (u + 2 ^ b - f)) mod 2 ^ b" by (simp add: mod_add_right_eq)
        also have "\<dots> = u" using u f by simp
        finally have "(f + ?j) mod 2 ^ b = u" .
        moreover have "?j < Suc i" using i by simp
        ultimately show "ht_map hash ht (please_key shift offs u) \<noteq> None" using taken' by metis
      qed
      then show ?thesis
        by (simp add: key_def Inl Let_def next_x wrap del: of_nat_add add_Suc_right)
    next
      case False
      then have lt: "Suc i < 2 ^ b" using Suc.prems(1) by simp
      have "(f + Suc i) mod 2 ^ b \<noteq> f"
        using f lt by (cases "f + Suc i < 2 ^ b") (simp_all add: le_mod_geq)
      then have "(of_nat ((f + Suc i) mod 2 ^ b) :: u64) \<noteq> of_nat f"
        using of_nat64_inj [OF b _ f] by simp
      then show ?thesis
        using Suc.IH [of "Suc i"] Suc.prems(1) False taken'
        by (simp add: key_def Inl Let_def next_x del: of_nat_add add_Suc_right)
    qed
  qed
qed


section \<open>The interface the clients of the table use\<close>

locale item_table =
  fixes inv :: "'t \<Rightarrow> bool"
    and amap :: "'t \<Rightarrow> u64 \<Rightarrow> nat option"
    and find_item :: "'t \<Rightarrow> u64 \<Rightarrow> drm_hash_item res"
    and insert_item :: "'t \<Rightarrow> drm_hash_item \<Rightarrow> 't res"
    and remove_item :: "'t \<Rightarrow> nat \<Rightarrow> 't"
  assumes find_law: "inv t \<Longrightarrow>
      find_item t k = (case amap t k of None \<Rightarrow> Inl EINVAL | Some a \<Rightarrow> Inr \<lparr>key = k, addr = a\<rparr>)"
    and insert_law: "inv t \<Longrightarrow> amap t (key it) = None \<Longrightarrow> addr it \<notin> ran (amap t) \<Longrightarrow>
      \<exists>t'. insert_item t it = Inr t' \<and> inv t' \<and> amap t' = (amap t)(key it \<mapsto> addr it)"
    and insert_dup: "inv t \<Longrightarrow> amap t (key it) \<noteq> None \<Longrightarrow> insert_item t it = Inl EINVAL"
    and remove_law: "inv t \<Longrightarrow> amap t k = Some a \<Longrightarrow>
      inv (remove_item t a) \<and> amap (remove_item t a) = (amap t)(k := None)"
    and amap_inj: "inv t \<Longrightarrow> amap t k = Some a \<Longrightarrow> amap t l = Some a \<Longrightarrow> k = l"
begin

lemma find_eq: "inv t \<Longrightarrow> find_item t k = Inr it \<longleftrightarrow> key it = k \<and> amap t k = Some (addr it)"
  by (auto simp: find_law split: option.splits)

lemma insert_cases:
  assumes "inv t" "addr it \<notin> ran (amap t)" "insert_item t it = Inr t'"
  shows "inv t' \<and> amap t (key it) = None \<and> amap t' = (amap t)(key it \<mapsto> addr it)"
proof -
  have "amap t (key it) = None" using assms insert_dup [OF assms(1)] by (metis sum.distinct(1))
  with insert_law [OF assms(1) this assms(2)] assms(3) show ?thesis by auto
qed

lemma insert_remove:
  assumes "inv t" "addr it \<notin> ran (amap t)" "insert_item t it = Inr t'"
  shows "inv (remove_item t' (addr it)) \<and> amap (remove_item t' (addr it)) = amap t"
  using insert_cases [OF assms] remove_law [of t' "key it" "addr it"] by (auto simp: fun_upd_idem)

text \<open>Taking an item out and putting the same item back always succeeds and restores the
  table, which is what undoing a removal needs.\<close>

lemma remove_insert:
  assumes "inv t" "amap t k = Some a"
  shows "\<exists>t'. insert_item (remove_item t a) \<lparr>key = k, addr = a\<rparr> = Inr t' \<and> inv t' \<and> amap t' = amap t"
proof -
  note rem = remove_law [OF assms]
  have "a \<notin> ran (amap (remove_item t a))"
    using rem amap_inj [OF assms(1)] assms(2) by (auto simp: ran_def split: if_splits)
  with rem insert_law [of "remove_item t a" "\<lparr>key = k, addr = a\<rparr>"] assms(2)
  show ?thesis by (auto simp: fun_upd_idem)
qed

lemma remove_all:
  assumes "inv t" "\<forall>a \<in> set as. \<exists>k. amap t k = Some a" "distinct as"
  shows "inv (foldl remove_item t as) \<and>
    (\<forall>k. amap (foldl remove_item t as) k =
       (if \<exists>a \<in> set as. amap t k = Some a then None else amap t k))"
  using assms
proof (induction as arbitrary: t)
  case Nil
  then show ?case by simp
next
  case (Cons a as)
  from Cons.prems(2) obtain k0 where k0: "amap t k0 = Some a" by auto
  note rem = remove_law [OF Cons.prems(1) k0]
  have keep: "(amap (remove_item t a) k = Some b) = (amap t k = Some b)" if "b \<noteq> a" for k b
    using that k0 rem amap_inj [OF Cons.prems(1)] by auto
  have "\<forall>b \<in> set as. \<exists>k. amap (remove_item t a) k = Some b"
    using Cons.prems keep by (metis distinct.simps(2) list.set_intros(2))
  with Cons.IH [of "remove_item t a"] rem Cons.prems
  have IH: "inv (foldl remove_item (remove_item t a) as)"
    "\<forall>k. amap (foldl remove_item (remove_item t a) as) k =
       (if \<exists>b \<in> set as. amap (remove_item t a) k = Some b then None else amap (remove_item t a) k)"
    by auto
  show ?case
    using IH rem k0 amap_inj [OF Cons.prems(1)] Cons.prems(3) by auto
qed

end

definition drm_ht_ok :: "(u64 \<Rightarrow> nat \<Rightarrow> nat) \<Rightarrow> drm_open_hash \<Rightarrow> bool" where
  "drm_ht_ok hash ht \<longleftrightarrow> hash_ok hash \<and> ht_inv hash ht"

interpretation drm_ht: item_table "drm_ht_ok hash" "ht_map hash" "drm_ht_find_item hash"
  "drm_ht_insert_item hash" drm_ht_remove_item for hash
proof
  fix t k
  assume t: "drm_ht_ok hash t"
  then have ok: "hash_ok hash" "ht_inv hash t" by (simp_all add: drm_ht_ok_def)
  show "drm_ht_find_item hash t k =
      (case ht_map hash t k of None \<Rightarrow> Inl EINVAL | Some a \<Rightarrow> Inr \<lparr>key = k, addr = a\<rparr>)"
  proof (cases "drm_ht_find_key hash t k")
    case None
    then show ?thesis by (simp add: drm_ht_find_item_def ht_map_def)
  next
    case (Some e)
    then have "key e = k" by (simp add: find_key_iff [OF ok])
    then have "e = \<lparr>key = k, addr = addr e\<rparr>" by simp
    with Some show ?thesis by (simp add: drm_ht_find_item_def ht_map_def)
  qed
next
  fix t and it :: drm_hash_item
  assume t: "drm_ht_ok hash t" and new: "ht_map hash t (key it) = None"
    and a: "addr it \<notin> ran (ht_map hash t)"
  then have ok: "hash_ok hash" "ht_inv hash t" by (simp_all add: drm_ht_ok_def)
  have "addr it \<notin> ht_addrs t" using a by (simp add: addrs_eq_ran [OF ok])
  moreover from new have "key it \<notin> key ` ht_items t" by (simp add: ht_map_def find_key_None [OF ok])
  then obtain t' where "drm_ht_insert_item hash t it = Inr t'"
    using insert_error [OF ok, of it] by (metis sum.exhaust)
  ultimately show "\<exists>t'. drm_ht_insert_item hash t it = Inr t' \<and> drm_ht_ok hash t' \<and>
      ht_map hash t' = (ht_map hash t)(key it \<mapsto> addr it)"
    using insert_ok [OF ok] insert_map [OF ok] ok by (auto simp: drm_ht_ok_def)
next
  fix t and it :: drm_hash_item
  assume "drm_ht_ok hash t" "ht_map hash t (key it) \<noteq> None"
  then show "drm_ht_insert_item hash t it = Inl EINVAL"
    by (simp add: drm_ht_ok_def insert_error ht_map_def find_key_None)
next
  fix t k a
  assume t: "drm_ht_ok hash t" and k: "ht_map hash t k = Some a"
  then have ok: "hash_ok hash" "ht_inv hash t" by (simp_all add: drm_ht_ok_def)
  have "a \<in> ht_addrs t" using k by (auto simp: addrs_eq_ran [OF ok] ran_def)
  then show "drm_ht_ok hash (drm_ht_remove_item t a) \<and>
      ht_map hash (drm_ht_remove_item t a) = (ht_map hash t)(k := None)"
    using remove_ok [OF ok(2)] remove_map [OF ok k] ok by (simp add: drm_ht_ok_def)
next
  fix t k l a
  assume "drm_ht_ok hash t" "ht_map hash t k = Some a" "ht_map hash t l = Some a"
  then show "k = l" by (auto simp: drm_ht_ok_def intro: map_inj)
qed


section \<open>Properties\<close>

text \<open>C4: inserting an item either fails with \<open>-EINVAL\<close> because its key is present, or
  keeps the table well formed, makes exactly that key find the item, and changes no other
  lookup.\<close>

theorem drm_ht_insert_find:
  assumes "hash_ok hash" "ht_inv hash ht" "addr it \<notin> ht_addrs ht"
  shows "case drm_ht_insert_item hash ht it of
      Inl e \<Rightarrow> e = EINVAL \<and> drm_ht_find_item hash ht (key it) \<noteq> Inl EINVAL
    | Inr ht' \<Rightarrow> ht_inv hash ht' \<and> drm_ht_find_item hash ht (key it) = Inl EINVAL \<and>
        (\<forall>k. drm_ht_find_item hash ht' k = (if k = key it then Inr it else drm_ht_find_item hash ht k))"
proof (cases "drm_ht_insert_item hash ht it")
  case (Inl e)
  then have "e = EINVAL" "key it \<in> key ` ht_items ht"
    using insert_error [OF assms(1,2)] by blast+
  then show ?thesis
    using find_key_None [OF assms(1,2), of "key it"]
    by (simp add: Inl drm_ht_find_item_def split: option.splits)
next
  case (Inr ht')
  have ok: "drm_ht_ok hash ht" and "addr it \<notin> ran (ht_map hash ht)"
    using assms by (simp_all add: drm_ht_ok_def addrs_eq_ran)
  note new = drm_ht.insert_cases [OF this Inr]
  then show ?thesis
    using Inr by (auto simp: drm_ht.find_law [OF ok] drm_ht.find_law drm_ht_ok_def)
qed

definition mod_hash :: "u64 \<Rightarrow> nat \<Rightarrow> nat" where
  "mod_hash k n = unat k mod 2 ^ n"

lemma mod_hash_ok: "hash_ok mod_hash"
  by (simp add: hash_ok_def mod_hash_def)

definition small_table :: drm_open_hash where
  "small_table = \<lparr>ht_size = 2, ht_order = 1, fill = 2,
     table = Some [[\<lparr>key = 4, addr = 40\<rparr>], [\<lparr>key = 7, addr = 70\<rparr>]], use_vmalloc = False\<rparr>"

lemma small_table_inv: "ht_inv mod_hash small_table"
  by (simp add: ht_inv_def small_table_def buckets_def mod_hash_def less_Suc_eq)

theorem drm_ht_insert_find_witness:
  "drm_ht_insert_item mod_hash small_table \<lparr>key = 4, addr = 90\<rparr> = Inl EINVAL \<and>
   (\<exists>ht'. drm_ht_insert_item mod_hash small_table \<lparr>key = 6, addr = 60\<rparr> = Inr ht' \<and>
      drm_ht_find_item mod_hash ht' 6 = Inr \<lparr>key = 6, addr = 60\<rparr> \<and>
      drm_ht_find_item mod_hash ht' 7 = Inr \<lparr>key = 7, addr = 70\<rparr>)"
proof -
  have fresh: "addr \<lparr>key = 6, addr = 60\<rparr> \<notin> ht_addrs small_table"
    by (simp add: ht_addrs_def ht_items_def small_table_def buckets_def)
  have ins: "\<exists>ht'. drm_ht_insert_item mod_hash small_table \<lparr>key = 6, addr = 60\<rparr> = Inr ht'"
    and dup: "drm_ht_insert_item mod_hash small_table \<lparr>key = 4, addr = 90\<rparr> = Inl EINVAL"
    and seven: "drm_ht_find_item mod_hash small_table 7 = Inr \<lparr>key = 7, addr = 70\<rparr>"
    by (simp_all add: drm_ht_insert_item_def drm_ht_find_item_def drm_ht_find_key_def
                      small_table_def buckets_def mod_hash_def)
  from drm_ht_insert_find [OF mod_hash_ok small_table_inv fresh] ins dup seven
  show ?thesis by auto
qed

lemma key_mask_eq:
  assumes "bits < 32"
  shows "key_mask bits = 2 ^ bits - 1"
proof -
  have "push_bit bits (1 :: u32) - 1 = mask bits" by (simp add: mask_eq_exp_minus_1)
  moreover have "(scast (mask bits :: u32) :: u64) = mask bits"
    using assms by (intro bit_word_eqI) (auto simp: bit_signed_iff bit_mask_iff min_def)
  ultimately show ?thesis by (simp add: key_mask_def mask_eq_exp_minus_1)
qed

text \<open>C5: for fewer than 32 key bits, the width of the \<open>int\<close> in which the code computes its
  mask (the driver asks for 31), the search of \<open>drm_ht_just_insert_please\<close> always ends.  It
  inserts the item under a key of the requested form that was unused, or reports \<open>-EINVAL\<close>,
  and then every one of the \<open>2 ^ bits\<close> keys of that form is in use.\<close>

theorem drm_ht_just_insert_please_spec:
  assumes "hash_ok hash" "ht_inv hash ht" "bits < 32" "a \<notin> ht_addrs ht"
  shows "case drm_ht_just_insert_please hash ht a seed bits shift offs of
      None \<Rightarrow> False
    | Some (Inr (ht', k)) \<Rightarrow>
        ht_inv hash ht' \<and> ht_map hash ht k = None \<and> ht_map hash ht' = (ht_map hash ht)(k \<mapsto> a) \<and>
        (\<exists>u < 2 ^ bits. k = please_key shift offs u)
    | Some (Inl e) \<Rightarrow>
        e = EINVAL \<and> (\<forall>u < 2 ^ bits. ht_map hash ht (please_key shift offs u) \<noteq> None)"
proof -
  have f: "hash seed bits < 2 ^ bits" using assms(1) by (simp add: hash_ok_def)
  have "bits < 64" "2 ^ bits + 0 = (2 ^ bits :: nat)" "0 < (2 ^ bits :: nat)" using assms(3) by simp_all
  from just_insert_loop_inv [OF assms(1,2) this(1) f assms(4) this(2,3), of shift offs] f show ?thesis
    by (simp add: drm_ht_just_insert_please_def key_mask_eq [OF assms(3)] Let_def del: of_nat_add)
qed

theorem drm_ht_just_insert_please_spec_witness:
  "\<exists>ht' k. drm_ht_just_insert_please mod_hash small_table 9 4 1 0 6 = Some (Inr (ht', k)) \<and>
     ht_map mod_hash ht' k = Some 9"
proof -
  have "9 \<notin> ht_addrs small_table"
    by (simp add: ht_addrs_def ht_items_def small_table_def buckets_def)
  note spec = drm_ht_just_insert_please_spec [OF mod_hash_ok small_table_inv _ this, where bits = 1 and seed = 4 and shift = 0 and offs = 6]
  have "ht_map mod_hash small_table (please_key 0 6 0) = None"
    by (simp add: please_key_def ht_map_def drm_ht_find_key_def small_table_def buckets_def mod_hash_def)
  with spec show ?thesis by (auto split: option.splits sum.splits)
qed

text \<open>C6: removing the key that was just inserted succeeds and gives back a table with the
  same lookups as before the insertion.\<close>

theorem drm_ht_insert_remove_key:
  assumes "hash_ok hash" "ht_inv hash ht" "addr it \<notin> ht_addrs ht"
    and "drm_ht_insert_item hash ht it = Inr ht'"
  shows "\<exists>ht''. drm_ht_remove_key hash ht' (key it) = Inr ht'' \<and> ht_inv hash ht'' \<and>
    fill ht'' = fill ht \<and> (\<forall>k. drm_ht_find_item hash ht'' k = drm_ht_find_item hash ht k)"
proof -
  have ok: "drm_ht_ok hash ht" and a: "addr it \<notin> ran (ht_map hash ht)"
    using assms by (simp_all add: drm_ht_ok_def addrs_eq_ran)
  note undo = drm_ht.insert_remove [OF ok a assms(4)]
  have "drm_ht_find_key hash ht' (key it) = Some it"
    using insert_ok [OF assms] by (simp add: find_key_iff [OF assms(1)])
  moreover have "fill (drm_ht_remove_item ht' (addr it)) = fill ht"
    using assms(4) by (auto simp: drm_ht_remove_item_def drm_ht_insert_item_def hlist_del_def Let_def
                            split: option.splits)
  ultimately show ?thesis
    using undo by (simp add: drm_ht_remove_key_def drm_ht.find_law ok) (simp add: drm_ht_ok_def)
qed

theorem drm_ht_insert_remove_key_witness:
  "\<exists>ht'. drm_ht_insert_item mod_hash small_table \<lparr>key = 6, addr = 60\<rparr> = Inr ht' \<and>
     (\<exists>ht''. drm_ht_remove_key mod_hash ht' 6 = Inr ht'' \<and> fill ht'' = 2)"
proof -
  have fresh: "addr \<lparr>key = 6, addr = 60\<rparr> \<notin> ht_addrs small_table"
    by (simp add: ht_addrs_def ht_items_def small_table_def buckets_def)
  obtain ht' where ins: "drm_ht_insert_item mod_hash small_table \<lparr>key = 6, addr = 60\<rparr> = Inr ht'"
    by (simp add: drm_ht_insert_item_def small_table_def buckets_def mod_hash_def)
  moreover have "fill small_table = 2" by (simp add: small_table_def)
  ultimately show ?thesis
    using drm_ht_insert_remove_key [OF mod_hash_ok small_table_inv fresh ins] by auto
qed

end
