(* ===== verification/Cmdbuf_Res.thy ===== *)
theory Cmdbuf_Res
  imports Drm_Hashtab
begin

text \<open>
  Resources managed by the command stream, \<open>src/vmwgfx_cmdbuf_res.c\<close>: commands that create or
  destroy a resource are staged in the hash table while a batch is checked, and committed
  or reverted with the batch.  It is a client of the hash table.  Entries and resources are
  named by addresses; \<open>res_refs\<close> counts the references to each resource.
\<close>

section \<open>State\<close>

datatype vmw_cmdbuf_res_state = VMW_CMDBUF_RES_COMMITED | VMW_CMDBUF_RES_ADD | VMW_CMDBUF_RES_DEL

record vmw_cmdbuf_res =
  cres_res :: nat
  cres_key :: u64
  cres_state :: vmw_cmdbuf_res_state

record vmw_cmdbuf_res_manager =
  resources :: drm_open_hash
  cres_heap :: "nat \<Rightarrow> vmw_cmdbuf_res"
  cres_list :: "nat list"
  staged :: "nat list" \<comment> \<open>the caller's staging list\<close>
  res_refs :: "nat \<Rightarrow> int"

definition VMW_CMDBUF_RES_MAN_HT_ORDER :: nat where "VMW_CMDBUF_RES_MAN_HT_ORDER = 12"

definition cres_hash_key :: "u32 \<Rightarrow> u32 \<Rightarrow> u64" where
  "cres_hash_key res_type user_key = ucast (user_key OR push_bit 24 res_type)"

definition upd_cres :: "nat \<Rightarrow> (vmw_cmdbuf_res \<Rightarrow> vmw_cmdbuf_res) \<Rightarrow> vmw_cmdbuf_res_manager \<Rightarrow> vmw_cmdbuf_res_manager" where
  "upd_cres a f m = m\<lparr>cres_heap := (cres_heap m)(a := f (cres_heap m a))\<rparr>"

definition upd_refs :: "nat \<Rightarrow> int \<Rightarrow> vmw_cmdbuf_res_manager \<Rightarrow> vmw_cmdbuf_res_manager" where
  "upd_refs r d m = m\<lparr>res_refs := (res_refs m)(r := res_refs m r + d)\<rparr>"

section \<open>Operations\<close>

definition vmw_cmdbuf_res_lookup ::
  "(u64 \<Rightarrow> nat \<Rightarrow> nat) \<Rightarrow> vmw_cmdbuf_res_manager \<Rightarrow> u32 \<Rightarrow> u32 \<Rightarrow> vmw_cmdbuf_res_manager \<times> nat res"
where
  "vmw_cmdbuf_res_lookup hash m res_type user_key =
     (case drm_ht_find_item hash (resources m) (cres_hash_key res_type user_key) of
        Inl e \<Rightarrow> (m, Inl e)
      | Inr it \<Rightarrow> (let r = cres_res (cres_heap m (addr it)) in (upd_refs r 1 m, Inr r)))"

definition vmw_cmdbuf_res_free :: "nat \<Rightarrow> vmw_cmdbuf_res_manager \<Rightarrow> vmw_cmdbuf_res_manager" where
  "vmw_cmdbuf_res_free a m =
     upd_refs (cres_res (cres_heap m a)) (- 1)
       (m\<lparr>cres_list := remove1 a (cres_list m), staged := remove1 a (staged m),
          resources := drm_ht_remove_item (resources m) a\<rparr>)"

definition commit_entry :: "nat \<Rightarrow> vmw_cmdbuf_res_manager \<Rightarrow> vmw_cmdbuf_res_manager option" where
  "commit_entry a m =
     (let m1 = m\<lparr>staged := remove1 a (staged m)\<rparr> in
      case cres_state (cres_heap m a) of
        VMW_CMDBUF_RES_ADD \<Rightarrow>
          Some ((upd_cres a (\<lambda>x. x\<lparr>cres_state := VMW_CMDBUF_RES_COMMITED\<rparr>) m1)\<lparr>cres_list := cres_list m1 @ [a]\<rparr>)
      | VMW_CMDBUF_RES_DEL \<Rightarrow> Some (upd_refs (cres_res (cres_heap m a)) (- 1) m1)
      | VMW_CMDBUF_RES_COMMITED \<Rightarrow> None)"

fun each_entry ::
  "(nat \<Rightarrow> vmw_cmdbuf_res_manager \<Rightarrow> vmw_cmdbuf_res_manager option) \<Rightarrow> nat list \<Rightarrow> vmw_cmdbuf_res_manager \<Rightarrow> vmw_cmdbuf_res_manager option"
where
  "each_entry f [] m = Some m"
| "each_entry f (a # as) m = (case f a m of None \<Rightarrow> None | Some m' \<Rightarrow> each_entry f as m')"

definition vmw_cmdbuf_res_commit :: "vmw_cmdbuf_res_manager \<Rightarrow> vmw_cmdbuf_res_manager option" where
  "vmw_cmdbuf_res_commit m = each_entry commit_entry (staged m) m"

text \<open>The result of putting a removed entry back into the hash table is not looked at.\<close>

definition revert_entry :: "(u64 \<Rightarrow> nat \<Rightarrow> nat) \<Rightarrow> nat \<Rightarrow> vmw_cmdbuf_res_manager \<Rightarrow> vmw_cmdbuf_res_manager option" where
  "revert_entry hash a m =
     (case cres_state (cres_heap m a) of
        VMW_CMDBUF_RES_ADD \<Rightarrow> Some (vmw_cmdbuf_res_free a m)
      | VMW_CMDBUF_RES_DEL \<Rightarrow>
          (let ht = (case drm_ht_insert_item hash (resources m) \<lparr>key = cres_key (cres_heap m a), addr = a\<rparr> of
                       Inl _ \<Rightarrow> resources m | Inr ht \<Rightarrow> ht)
           in Some ((upd_cres a (\<lambda>x. x\<lparr>cres_state := VMW_CMDBUF_RES_COMMITED\<rparr>) m)
                \<lparr>resources := ht, staged := remove1 a (staged m), cres_list := cres_list m @ [a]\<rparr>))
      | VMW_CMDBUF_RES_COMMITED \<Rightarrow> None)"

definition vmw_cmdbuf_res_revert :: "(u64 \<Rightarrow> nat \<Rightarrow> nat) \<Rightarrow> vmw_cmdbuf_res_manager \<Rightarrow> vmw_cmdbuf_res_manager option" where
  "vmw_cmdbuf_res_revert hash m = each_entry (revert_entry hash) (staged m) m"

text \<open>\<open>k\<close> is the memory for the new entry.  When the key is taken the entry is not freed.\<close>

definition vmw_cmdbuf_res_add ::
  "(u64 \<Rightarrow> nat \<Rightarrow> nat) \<Rightarrow> vmw_cmdbuf_res_manager \<Rightarrow> u32 \<Rightarrow> u32 \<Rightarrow> nat \<Rightarrow> nat option \<Rightarrow> vmw_cmdbuf_res_manager \<times> unit res"
where
  "vmw_cmdbuf_res_add hash m res_type user_key r k =
     (case k of
        None \<Rightarrow> (m, Inl ENOMEM)
      | Some a \<Rightarrow>
          (let hk = cres_hash_key res_type user_key in
           case drm_ht_insert_item hash (resources m) \<lparr>key = hk, addr = a\<rparr> of
             Inl e \<Rightarrow> (m, Inl e)
           | Inr ht \<Rightarrow>
               (upd_refs r 1
                  ((upd_cres a (\<lambda>_. \<lparr>cres_res = r, cres_key = hk, cres_state = VMW_CMDBUF_RES_ADD\<rparr>) m)
                     \<lparr>resources := ht, staged := staged m @ [a]\<rparr>), Inr ())))"

definition vmw_cmdbuf_res_remove ::
  "(u64 \<Rightarrow> nat \<Rightarrow> nat) \<Rightarrow> vmw_cmdbuf_res_manager \<Rightarrow> u32 \<Rightarrow> u32 \<Rightarrow> (vmw_cmdbuf_res_manager \<times> unit res) option"
where
  "vmw_cmdbuf_res_remove hash m res_type user_key =
     (case drm_ht_find_item hash (resources m) (cres_hash_key res_type user_key) of
        Inl _ \<Rightarrow> Some (m, Inl EINVAL)
      | Inr it \<Rightarrow>
          (let a = addr it in
           case cres_state (cres_heap m a) of
             VMW_CMDBUF_RES_ADD \<Rightarrow> Some (vmw_cmdbuf_res_free a m, Inr ())
           | VMW_CMDBUF_RES_COMMITED \<Rightarrow>
               Some ((upd_cres a (\<lambda>x. x\<lparr>cres_state := VMW_CMDBUF_RES_DEL\<rparr>) m)
                       \<lparr>resources := drm_ht_remove_item (resources m) a, cres_list := remove1 a (cres_list m),
                        staged := staged m @ [a]\<rparr>, Inr ())
           | VMW_CMDBUF_RES_DEL \<Rightarrow> None))"

definition vmw_cmdbuf_res_man_create :: "bool \<Rightarrow> bool \<Rightarrow> bool \<Rightarrow> (nat \<Rightarrow> vmw_cmdbuf_res) \<Rightarrow> (nat \<Rightarrow> int) \<Rightarrow> vmw_cmdbuf_res_manager res" where
  "vmw_cmdbuf_res_man_create man_ok kmalloc_ok vmalloc_ok heap refs =
     (if \<not> man_ok then Inl ENOMEM
      else case drm_ht_create VMW_CMDBUF_RES_MAN_HT_ORDER kmalloc_ok vmalloc_ok of
        Inl e \<Rightarrow> Inl e
      | Inr ht \<Rightarrow> Inr \<lparr>resources = ht, cres_heap = heap, cres_list = [], staged = [], res_refs = refs\<rparr>)"

definition vmw_cmdbuf_res_man_destroy :: "vmw_cmdbuf_res_manager \<Rightarrow> vmw_cmdbuf_res_manager" where
  "vmw_cmdbuf_res_man_destroy m = foldl (\<lambda>m a. vmw_cmdbuf_res_free a m) m (cres_list m)"

section \<open>Invariant\<close>

text \<open>What the table shows: the committed entries and those staged for addition.  What it
  showed when the batch began: the committed entries and those staged for removal.\<close>

definition cres_live :: "vmw_cmdbuf_res_manager \<Rightarrow> nat set" where
  "cres_live m = set (cres_list m) \<union> {a \<in> set (staged m). cres_state (cres_heap m a) = VMW_CMDBUF_RES_ADD}"

definition cres_base :: "vmw_cmdbuf_res_manager \<Rightarrow> nat set" where
  "cres_base m = set (cres_list m) \<union> {a \<in> set (staged m). cres_state (cres_heap m a) = VMW_CMDBUF_RES_DEL}"

definition cres_inv :: "(u64 \<Rightarrow> nat \<Rightarrow> nat) \<Rightarrow> vmw_cmdbuf_res_manager \<Rightarrow> bool" where
  "cres_inv hash m \<longleftrightarrow>
     drm_ht_ok hash (resources m) \<and> distinct (cres_list m @ staged m) \<and>
     (\<forall>a \<in> set (cres_list m). cres_state (cres_heap m a) = VMW_CMDBUF_RES_COMMITED) \<and>
     (\<forall>a \<in> set (staged m). cres_state (cres_heap m a) \<noteq> VMW_CMDBUF_RES_COMMITED) \<and>
     inj_on (\<lambda>a. cres_key (cres_heap m a)) (cres_base m) \<and>
     (\<forall>k a. ht_map hash (resources m) k = Some a \<longleftrightarrow> a \<in> cres_live m \<and> cres_key (cres_heap m a) = k)"

text \<open>Every entry holds one reference to its resource; \<open>cres_spare\<close> counts the references that
  are held by somebody else.\<close>

definition cres_entries :: "vmw_cmdbuf_res_manager \<Rightarrow> nat set" where
  "cres_entries m = set (cres_list m) \<union> set (staged m)"

definition cres_spare :: "vmw_cmdbuf_res_manager \<Rightarrow> nat \<Rightarrow> int" where
  "cres_spare m r = res_refs m r - int (card {a \<in> cres_entries m. cres_res (cres_heap m a) = r})"

text \<open>What the resource id shows to the command stream.\<close>

definition cres_view :: "(u64 \<Rightarrow> nat \<Rightarrow> nat) \<Rightarrow> vmw_cmdbuf_res_manager \<Rightarrow> u64 \<Rightarrow> nat option" where
  "cres_view hash m k = map_option (\<lambda>a. cres_res (cres_heap m a)) (ht_map hash (resources m) k)"

definition base_kept :: "vmw_cmdbuf_res_manager \<Rightarrow> vmw_cmdbuf_res_manager \<Rightarrow> bool" where
  "base_kept m m' \<longleftrightarrow> cres_base m' = cres_base m \<and>
     (\<forall>a \<in> cres_base m. cres_key (cres_heap m' a) = cres_key (cres_heap m a) \<and>
                        cres_res (cres_heap m' a) = cres_res (cres_heap m a))"

named_theorems cres_defs \<comment> \<open>record updates of the manager\<close>

declare upd_cres_def [cres_defs] upd_refs_def [cres_defs] cres_live_def [cres_defs]
  cres_base_def [cres_defs] cres_entries_def [cres_defs]

lemma cres_invD:
  assumes "cres_inv hash m"
  shows "drm_ht_ok hash (resources m)" "distinct (cres_list m)" "distinct (staged m)"
    "set (cres_list m) \<inter> set (staged m) = {}"
    "\<And>a. a \<in> set (cres_list m) \<Longrightarrow> cres_state (cres_heap m a) = VMW_CMDBUF_RES_COMMITED"
    "\<And>a. a \<in> set (staged m) \<Longrightarrow> cres_state (cres_heap m a) \<noteq> VMW_CMDBUF_RES_COMMITED"
    "inj_on (\<lambda>a. cres_key (cres_heap m a)) (cres_base m)"
    "\<And>k a. ht_map hash (resources m) k = Some a \<longleftrightarrow> a \<in> cres_live m \<and> cres_key (cres_heap m a) = k"
  using assms by (auto simp: cres_inv_def)

lemma cres_invI:
  assumes "drm_ht_ok hash (resources m)" "distinct (cres_list m)" "distinct (staged m)"
    "set (cres_list m) \<inter> set (staged m) = {}"
    "\<And>a. a \<in> set (cres_list m) \<Longrightarrow> cres_state (cres_heap m a) = VMW_CMDBUF_RES_COMMITED"
    "\<And>a. a \<in> set (staged m) \<Longrightarrow> cres_state (cres_heap m a) \<noteq> VMW_CMDBUF_RES_COMMITED"
    "inj_on (\<lambda>a. cres_key (cres_heap m a)) (cres_base m)"
    "\<And>k a. ht_map hash (resources m) k = Some a \<longleftrightarrow> a \<in> cres_live m \<and> cres_key (cres_heap m a) = k"
  shows "cres_inv hash m"
  unfolding cres_inv_def distinct_append using assms by blast

text \<open>A map that shows exactly the members of a set under their keys, when a member leaves or
  joins the set.\<close>

lemma shows_minus:
  assumes "\<And>k a. M k = Some a \<longleftrightarrow> a \<in> L \<and> f a = k" "M (f a) = Some a"
  shows "(M(f a := None)) k = Some b \<longleftrightarrow> b \<in> L - {a} \<and> f b = k"
  using assms(2) assms(1) [of k b] assms(1) [of "f a" b] by auto

lemma shows_plus:
  assumes "\<And>k a. M k = Some a \<longleftrightarrow> a \<in> L \<and> f a = k" "M (f a) = None"
  shows "(M(f a \<mapsto> a)) k = Some b \<longleftrightarrow> b \<in> insert a L \<and> f b = k"
  using assms(2) assms(1) [of k b] assms(1) [of "f a" b] by auto

lemma base_kept_refl [simp]: "base_kept m m"
  by (simp add: base_kept_def)

lemma base_kept_trans: "base_kept m m' \<Longrightarrow> base_kept m' m'' \<Longrightarrow> base_kept m m''"
  by (auto simp: base_kept_def)

lemma card_filter_insert:
  assumes "finite A" "a \<notin> A"
  shows "card {x \<in> insert a A. P x} = card {x \<in> A. P x} + (if P a then 1 else 0)"
proof -
  have "{x \<in> insert a A. P x} = (if P a then insert a {x \<in> A. P x} else {x \<in> A. P x})" by auto
  with assms show ?thesis by simp
qed

lemma spare_insert:
  assumes "a \<notin> cres_entries m" "cres_entries m' = insert a (cres_entries m)"
    "\<And>b. b \<in> cres_entries m \<Longrightarrow> cres_res (cres_heap m' b) = cres_res (cres_heap m b)"
    "res_refs m' = (res_refs m)(cres_res (cres_heap m' a) := res_refs m (cres_res (cres_heap m' a)) + 1)"
  shows "cres_spare m' = cres_spare m"
proof
  fix r
  have "{b \<in> cres_entries m. cres_res (cres_heap m' b) = r} = {b \<in> cres_entries m. cres_res (cres_heap m b) = r}"
    using assms(3) by auto
  moreover have "finite (cres_entries m)" by (simp add: cres_entries_def)
  ultimately show "cres_spare m' r = cres_spare m r"
    using assms(1,4) card_filter_insert [of "cres_entries m" a "\<lambda>b. cres_res (cres_heap m' b) = r"]
    by (simp add: cres_spare_def assms(2))
qed

lemma spare_remove:
  assumes "a \<notin> cres_entries m'" "cres_entries m = insert a (cres_entries m')"
    "\<And>b. cres_res (cres_heap m' b) = cres_res (cres_heap m b)"
    "res_refs m' = (res_refs m)(cres_res (cres_heap m a) := res_refs m (cres_res (cres_heap m a)) - 1)"
  shows "cres_spare m' = cres_spare m"
proof -
  have "cres_spare m = cres_spare m'"
    by (rule spare_insert [OF assms(1,2)]) (simp_all add: assms(3,4))
  then show ?thesis by simp
qed

lemma spare_same:
  assumes "cres_entries m' = cres_entries m" "\<And>b. cres_res (cres_heap m' b) = cres_res (cres_heap m b)"
    "res_refs m' = res_refs m"
  shows "cres_spare m' = cres_spare m"
  by (rule ext) (simp add: cres_spare_def assms)

section \<open>The effect of each operation\<close>

lemma free_staged:
  assumes inv: "cres_inv hash m" and a: "a \<in> set (staged m)" "cres_state (cres_heap m a) = VMW_CMDBUF_RES_ADD"
  shows "cres_inv hash (vmw_cmdbuf_res_free a m) \<and> base_kept m (vmw_cmdbuf_res_free a m) \<and>
    cres_spare (vmw_cmdbuf_res_free a m) = cres_spare m \<and>
    cres_view hash (vmw_cmdbuf_res_free a m) = (cres_view hash m)(cres_key (cres_heap m a) := None)"
proof -
  note D = cres_invD [OF inv]
  let ?m = "vmw_cmdbuf_res_free a m"
  have off: "a \<notin> set (cres_list m)" using D(4) a(1) by auto
  have flds: "cres_list ?m = cres_list m" "staged ?m = remove1 a (staged m)" "cres_heap ?m = cres_heap m"
    "resources ?m = drm_ht_remove_item (resources m) a"
    "res_refs ?m = (res_refs m)(cres_res (cres_heap m a) := res_refs m (cres_res (cres_heap m a)) - 1)"
    using off by (simp_all add: vmw_cmdbuf_res_free_def upd_refs_def remove1_idem)
  have st: "set (staged ?m) = set (staged m) - {a}" "distinct (staged ?m)"
    using D(3) by (simp_all add: flds)
  have at: "ht_map hash (resources m) (cres_key (cres_heap m a)) = Some a"
    using D(8) a by (simp add: cres_live_def)
  note rem = drm_ht.remove_law [OF D(1) at]
  have base: "cres_base ?m = cres_base m" unfolding cres_base_def st(1) flds(1,3) using a(2) by auto
  have live: "cres_live ?m = cres_live m - {a}" unfolding cres_live_def st(1) flds(1,3) using off by auto
  have map: "\<And>k b. ht_map hash (resources ?m) k = Some b \<longleftrightarrow> b \<in> cres_live ?m \<and> cres_key (cres_heap ?m b) = k"
    using shows_minus [OF D(8) at] rem by (simp add: flds live)
  have "cres_inv hash ?m"
  proof (rule cres_invI)
    show "drm_ht_ok hash (resources ?m)" using rem by (simp add: flds)
    show "distinct (cres_list ?m)" using D(2) by (simp add: flds)
    show "distinct (staged ?m)" by (rule st(2))
    show "set (cres_list ?m) \<inter> set (staged ?m) = {}" using D(4) unfolding st(1) flds(1) by blast
    show "inj_on (\<lambda>a. cres_key (cres_heap ?m a)) (cres_base ?m)" unfolding base flds(3) by (rule D(7))
  next
    fix b assume "b \<in> set (cres_list ?m)"
    then show "cres_state (cres_heap ?m b) = VMW_CMDBUF_RES_COMMITED" unfolding flds(1,3) by (rule D(5))
  next
    fix b assume "b \<in> set (staged ?m)"
    then show "cres_state (cres_heap ?m b) \<noteq> VMW_CMDBUF_RES_COMMITED"
      unfolding st(1) flds(3) by (intro D(6)) simp
  qed (rule map)
  moreover have "base_kept m ?m" by (simp add: base_kept_def base flds)
  moreover have "cres_spare ?m = cres_spare m"
  proof (rule spare_remove [of a])
    show "a \<notin> cres_entries ?m" unfolding cres_entries_def st(1) flds(1) using off by simp
    show "cres_entries m = insert a (cres_entries ?m)" unfolding cres_entries_def st(1) flds(1) using a(1) by auto
  qed (simp_all add: flds)
  moreover have "cres_view hash ?m = (cres_view hash m)(cres_key (cres_heap m a) := None)"
    using rem by (auto simp: cres_view_def flds)
  ultimately show ?thesis by blast
qed

lemma add_ok:
  assumes inv: "cres_inv hash m" and fresh: "a \<notin> cres_entries m"
    and none: "ht_map hash (resources m) (cres_hash_key t u) = None"
  shows "\<exists>m'. vmw_cmdbuf_res_add hash m t u r (Some a) = (m', Inr ()) \<and> cres_inv hash m' \<and>
    base_kept m m' \<and> cres_spare m' = cres_spare m \<and>
    cres_view hash m' = (cres_view hash m)(cres_hash_key t u \<mapsto> r) \<and> staged m' = staged m @ [a] \<and>
    cres_state (cres_heap m' a) = VMW_CMDBUF_RES_ADD"
proof -
  note D = cres_invD [OF inv]
  let ?hk = "cres_hash_key t u"
  have off: "a \<notin> set (cres_list m)" "a \<notin> set (staged m)" using fresh by (auto simp: cres_entries_def)
  then have nl: "a \<notin> cres_live m" "a \<notin> cres_base m" by (auto simp: cres_live_def cres_base_def)
  have nr: "a \<notin> ran (ht_map hash (resources m))" unfolding ran_def using D(8) nl(1) by simp
  obtain ht where ht: "drm_ht_insert_item hash (resources m) \<lparr>key = ?hk, addr = a\<rparr> = Inr ht"
      "drm_ht_ok hash ht" "ht_map hash ht = (ht_map hash (resources m))(?hk \<mapsto> a)"
    using drm_ht.insert_law [OF D(1), of "\<lparr>key = ?hk, addr = a\<rparr>"] none nr by auto
  define m' where "m' = upd_refs r 1
     ((upd_cres a (\<lambda>_. \<lparr>cres_res = r, cres_key = ?hk, cres_state = VMW_CMDBUF_RES_ADD\<rparr>) m)
        \<lparr>resources := ht, staged := staged m @ [a]\<rparr>)"
  have run: "vmw_cmdbuf_res_add hash m t u r (Some a) = (m', Inr ())"
    by (simp add: vmw_cmdbuf_res_add_def ht(1) m'_def)
  have flds: "cres_list m' = cres_list m" "staged m' = staged m @ [a]" "resources m' = ht"
    "cres_heap m' = (cres_heap m)(a := \<lparr>cres_res = r, cres_key = ?hk, cres_state = VMW_CMDBUF_RES_ADD\<rparr>)"
    "res_refs m' = (res_refs m)(r := res_refs m r + 1)"
    by (simp_all add: m'_def upd_refs_def upd_cres_def)
  have old: "cres_heap m' b = cres_heap m b" if "b \<noteq> a" for b using that by (simp add: flds)
  have base: "cres_base m' = cres_base m"
    unfolding cres_base_def flds(1,2,4) using off by (auto split: if_splits)
  have live: "cres_live m' = insert a (cres_live m)"
    unfolding cres_live_def flds(1,2,4) using off by (auto split: if_splits)
  have mp: "ht_map hash (resources m') k = Some b \<longleftrightarrow> b \<in> cres_live m' \<and> cres_key (cres_heap m' b) = k" for k b
    using D(8) [of k b] D(8) [of ?hk b] none nl by (cases "b = a") (auto simp: flds live ht(3))
  have "cres_inv hash m'"
  proof (rule cres_invI)
    show "drm_ht_ok hash (resources m')" using ht by (simp add: flds)
    show "distinct (cres_list m')" using D(2) by (simp add: flds)
    show "distinct (staged m')" using D(3) off by (simp add: flds)
    show "set (cres_list m') \<inter> set (staged m') = {}" using D(4) off by (simp add: flds)
    show "inj_on (\<lambda>b. cres_key (cres_heap m' b)) (cres_base m')"
      using D(7) nl(2) unfolding base inj_on_def by (metis old)
  next
    fix b assume "b \<in> set (cres_list m')"
    then show "cres_state (cres_heap m' b) = VMW_CMDBUF_RES_COMMITED"
      using D(5) [of b] off by (auto simp: flds)
  next
    fix b assume "b \<in> set (staged m')"
    then show "cres_state (cres_heap m' b) \<noteq> VMW_CMDBUF_RES_COMMITED"
      using D(6) [of b] by (auto simp: flds)
  qed (rule mp)
  moreover have "base_kept m m'" using nl(2) by (auto simp: base_kept_def base flds)
  moreover have "cres_spare m' = cres_spare m"
    by (rule spare_insert [OF fresh]) (use fresh in \<open>auto simp: cres_entries_def flds\<close>)
  moreover have "cres_view hash m' = (cres_view hash m)(?hk \<mapsto> r)"
  proof
    fix k
    have "ht_map hash (resources m) k \<noteq> Some a" using D(8) nl(1) by simp
    then show "cres_view hash m' k = ((cres_view hash m)(?hk \<mapsto> r)) k"
      by (cases "ht_map hash (resources m) k") (auto simp: cres_view_def flds ht(3))
  qed
  ultimately show ?thesis using run by (intro exI [of _ m']) (simp add: flds)
qed

lemma add_dup:
  assumes "cres_inv hash m" "ht_map hash (resources m) (cres_hash_key t u) \<noteq> None"
  shows "vmw_cmdbuf_res_add hash m t u r (Some a) = (m, Inl EINVAL)"
  using drm_ht.insert_dup [OF cres_invD(1) [OF assms(1)], of "\<lparr>key = cres_hash_key t u, addr = a\<rparr>"] assms(2)
  by (simp add: vmw_cmdbuf_res_add_def)

text \<open>Staging a committed entry for removal.\<close>

definition stage_removal :: "nat \<Rightarrow> vmw_cmdbuf_res_manager \<Rightarrow> vmw_cmdbuf_res_manager" where
  "stage_removal a m = (upd_cres a (\<lambda>x. x\<lparr>cres_state := VMW_CMDBUF_RES_DEL\<rparr>) m)
     \<lparr>resources := drm_ht_remove_item (resources m) a, cres_list := remove1 a (cres_list m),
      staged := staged m @ [a]\<rparr>"

lemma stage_removal_ok:
  assumes inv: "cres_inv hash m" and a: "a \<in> set (cres_list m)"
  shows "cres_inv hash (stage_removal a m) \<and> base_kept m (stage_removal a m) \<and>
    cres_spare (stage_removal a m) = cres_spare m \<and>
    cres_view hash (stage_removal a m) = (cres_view hash m)(cres_key (cres_heap m a) := None)"
proof -
  note D = cres_invD [OF inv]
  define m' where "m' = stage_removal a m"
  have off: "a \<notin> set (staged m)" using D(4) a by auto
  have flds: "staged m' = staged m @ [a]" "resources m' = drm_ht_remove_item (resources m) a"
    "cres_heap m' = (cres_heap m)(a := (cres_heap m a)\<lparr>cres_state := VMW_CMDBUF_RES_DEL\<rparr>)"
    "res_refs m' = res_refs m"
    by (simp_all add: m'_def stage_removal_def upd_cres_def)
  have ls: "set (cres_list m') = set (cres_list m) - {a}" "distinct (cres_list m')"
    using D(2) by (simp_all add: m'_def stage_removal_def upd_cres_def)
  have same: "cres_key (cres_heap m' b) = cres_key (cres_heap m b)"
    "cres_res (cres_heap m' b) = cres_res (cres_heap m b)" for b by (simp_all add: flds)
  have at: "ht_map hash (resources m) (cres_key (cres_heap m a)) = Some a"
    using D(8) a by (simp add: cres_live_def)
  note rem = drm_ht.remove_law [OF D(1) at]
  have base: "cres_base m' = cres_base m"
    unfolding cres_base_def ls(1) flds(1,3) using a off by auto
  have live: "cres_live m' = cres_live m - {a}"
    unfolding cres_live_def ls(1) flds(1,3) using a off by auto
  have mp: "ht_map hash (resources m') k = Some b \<longleftrightarrow> b \<in> cres_live m' \<and> cres_key (cres_heap m' b) = k" for k b
    using shows_minus [OF D(8) at] rem by (simp add: flds(2) live same)
  have "cres_inv hash m'"
  proof (rule cres_invI)
    show "drm_ht_ok hash (resources m')" using rem by (simp add: flds)
    show "distinct (cres_list m')" by (rule ls(2))
    show "distinct (staged m')" using D(3) off by (simp add: flds)
    show "set (cres_list m') \<inter> set (staged m') = {}" using D(4) unfolding ls(1) flds(1) by auto
    show "inj_on (\<lambda>b. cres_key (cres_heap m' b)) (cres_base m')" unfolding base same by (rule D(7))
  next
    fix b assume "b \<in> set (cres_list m')"
    then show "cres_state (cres_heap m' b) = VMW_CMDBUF_RES_COMMITED"
      unfolding ls(1) using D(5) [of b] by (auto simp: flds)
  next
    fix b assume "b \<in> set (staged m')"
    then show "cres_state (cres_heap m' b) \<noteq> VMW_CMDBUF_RES_COMMITED"
      using D(6) [of b] by (auto simp: flds)
  qed (rule mp)
  moreover have "base_kept m m'" by (simp add: base_kept_def base same)
  moreover have "cres_entries m' = cres_entries m"
    unfolding cres_entries_def ls(1) flds(1) using a by auto
  then have "cres_spare m' = cres_spare m" by (rule spare_same) (simp_all add: flds)
  moreover have "cres_view hash m' = (cres_view hash m)(cres_key (cres_heap m a) := None)"
    unfolding cres_view_def same flds(2) using rem by auto
  ultimately show ?thesis unfolding m'_def by blast
qed

section \<open>Committing and reverting\<close>

text \<open>While a batch is committed an entry staged for removal and its replacement may both be
  on the way, so that the keys of the base are distinct only at the end.\<close>

definition cres_core :: "(u64 \<Rightarrow> nat \<Rightarrow> nat) \<Rightarrow> vmw_cmdbuf_res_manager \<Rightarrow> bool" where
  "cres_core hash m \<longleftrightarrow>
     drm_ht_ok hash (resources m) \<and> distinct (cres_list m @ staged m) \<and>
     (\<forall>a \<in> set (cres_list m). cres_state (cres_heap m a) = VMW_CMDBUF_RES_COMMITED) \<and>
     (\<forall>a \<in> set (staged m). cres_state (cres_heap m a) \<noteq> VMW_CMDBUF_RES_COMMITED) \<and>
     (\<forall>k a. ht_map hash (resources m) k = Some a \<longleftrightarrow> a \<in> cres_live m \<and> cres_key (cres_heap m a) = k)"

lemma cres_inv_core: "cres_inv hash m \<longleftrightarrow> cres_core hash m \<and> inj_on (\<lambda>a. cres_key (cres_heap m a)) (cres_base m)"
  by (auto simp: cres_inv_def cres_core_def)

lemma core_live_inj: "cres_core hash m \<Longrightarrow> inj_on (\<lambda>a. cres_key (cres_heap m a)) (cres_live m)"
  unfolding cres_core_def inj_on_def by (metis option.inject)

lemma commit_entry_ok:
  assumes core: "cres_core hash m" and st: "staged m = a # as"
  shows "\<exists>m'. commit_entry a m = Some m' \<and> cres_core hash m' \<and> staged m' = as \<and>
    resources m' = resources m \<and> cres_live m' = cres_live m \<and> cres_spare m' = cres_spare m \<and>
    (\<forall>b. cres_res (cres_heap m' b) = cres_res (cres_heap m b))"
proof (cases "cres_state (cres_heap m a)")
  case VMW_CMDBUF_RES_COMMITED
  with core st show ?thesis by (simp add: cres_core_def)
next
  case VMW_CMDBUF_RES_ADD
  define m' where "m' = (upd_cres a (\<lambda>x. x\<lparr>cres_state := VMW_CMDBUF_RES_COMMITED\<rparr>)
    (m\<lparr>staged := as\<rparr>))\<lparr>cres_list := cres_list m @ [a]\<rparr>"
  have run: "commit_entry a m = Some m'"
    using VMW_CMDBUF_RES_ADD by (simp add: commit_entry_def st m'_def upd_cres_def)
  have flds: "cres_list m' = cres_list m @ [a]" "staged m' = as" "resources m' = resources m"
    "cres_heap m' = (cres_heap m)(a := (cres_heap m a)\<lparr>cres_state := VMW_CMDBUF_RES_COMMITED\<rparr>)"
    "res_refs m' = res_refs m" by (simp_all add: m'_def upd_cres_def)
  have a: "a \<notin> set as" "a \<notin> set (cres_list m)" using core st by (auto simp: cres_core_def)
  have live: "cres_live m' = cres_live m"
    unfolding cres_live_def flds(1,2,4) st using a VMW_CMDBUF_RES_ADD by auto
  have ents: "cres_entries m' = cres_entries m" unfolding cres_entries_def flds(1,2) st by auto
  have same: "cres_key (cres_heap m' b) = cres_key (cres_heap m b)"
    "cres_res (cres_heap m' b) = cres_res (cres_heap m b)" for b by (simp_all add: flds)
  have "cres_core hash m'"
    using core a unfolding cres_core_def live same flds(3) by (auto simp: flds(1,2,4) st)
  moreover have "cres_spare m' = cres_spare m" by (rule spare_same [OF ents]) (simp_all add: flds)
  ultimately show ?thesis using run live by (intro exI [of _ m']) (simp add: flds same)
next
  case VMW_CMDBUF_RES_DEL
  define m' where "m' = upd_refs (cres_res (cres_heap m a)) (- 1) (m\<lparr>staged := as\<rparr>)"
  have run: "commit_entry a m = Some m'"
    using VMW_CMDBUF_RES_DEL by (simp add: commit_entry_def st m'_def)
  have flds: "cres_list m' = cres_list m" "staged m' = as" "resources m' = resources m"
    "cres_heap m' = cres_heap m"
    "res_refs m' = (res_refs m)(cres_res (cres_heap m a) := res_refs m (cres_res (cres_heap m a)) - 1)"
    by (simp_all add: m'_def upd_refs_def)
  have a: "a \<notin> set as" "a \<notin> set (cres_list m)" using core st by (auto simp: cres_core_def)
  have live: "cres_live m' = cres_live m"
    unfolding cres_live_def flds(1,2,4) st using a VMW_CMDBUF_RES_DEL by auto
  have "cres_core hash m'"
    using core unfolding cres_core_def live flds(1-4) by (auto simp: st)
  moreover have "cres_spare m' = cres_spare m"
    by (rule spare_remove [of a]) (use a in \<open>auto simp: cres_entries_def flds st\<close>)
  ultimately show ?thesis using run live by (intro exI [of _ m']) (simp add: flds)
qed

lemma commit_loop:
  "cres_core hash m \<Longrightarrow> staged m = as \<Longrightarrow>
   \<exists>m'. each_entry commit_entry as m = Some m' \<and> cres_core hash m' \<and> staged m' = [] \<and>
     resources m' = resources m \<and> cres_spare m' = cres_spare m \<and>
     (\<forall>b. cres_res (cres_heap m' b) = cres_res (cres_heap m b))"
proof (induction as arbitrary: m)
  case Nil
  then show ?case by simp
next
  case (Cons a as)
  obtain m1 where m1: "commit_entry a m = Some m1" "cres_core hash m1" "staged m1 = as"
    "resources m1 = resources m" "cres_spare m1 = cres_spare m"
    "\<forall>b. cres_res (cres_heap m1 b) = cres_res (cres_heap m b)"
    using commit_entry_ok [OF Cons.prems] by blast
  show ?case using Cons.IH [OF m1(2,3)] m1 by auto
qed

lemma settled_inv: "cres_core hash m \<Longrightarrow> staged m = [] \<Longrightarrow> cres_inv hash m"
  using core_live_inj [of hash m] by (simp add: cres_inv_core cres_live_def cres_base_def)

lemma revert_removal:
  assumes inv: "cres_inv hash m" and st: "staged m = a # as"
    and del: "cres_state (cres_heap m a) = VMW_CMDBUF_RES_DEL"
    and free: "ht_map hash (resources m) (cres_key (cres_heap m a)) = None"
  shows "\<exists>m'. revert_entry hash a m = Some m' \<and> cres_inv hash m' \<and> staged m' = as \<and>
    base_kept m m' \<and> cres_spare m' = cres_spare m \<and> cres_live m' = insert a (cres_live m) \<and>
    (\<forall>b. cres_key (cres_heap m' b) = cres_key (cres_heap m b))"
proof -
  note D = cres_invD [OF inv]
  have off: "a \<notin> set as" "a \<notin> set (cres_list m)" using D(3,4) st by auto
  then have nl: "a \<notin> cres_live m" using st del by (auto simp: cres_live_def)
  have nr: "a \<notin> ran (ht_map hash (resources m))" unfolding ran_def using D(8) nl by simp
  obtain ht where ht: "drm_ht_insert_item hash (resources m) \<lparr>key = cres_key (cres_heap m a), addr = a\<rparr> = Inr ht"
      "drm_ht_ok hash ht" "ht_map hash ht = (ht_map hash (resources m))(cres_key (cres_heap m a) \<mapsto> a)"
    using drm_ht.insert_law [OF D(1), of "\<lparr>key = cres_key (cres_heap m a), addr = a\<rparr>"] free nr by auto
  define m' where "m' = (upd_cres a (\<lambda>x. x\<lparr>cres_state := VMW_CMDBUF_RES_COMMITED\<rparr>) m)
     \<lparr>resources := ht, staged := as, cres_list := cres_list m @ [a]\<rparr>"
  have run: "revert_entry hash a m = Some m'" by (simp add: revert_entry_def del ht(1) st m'_def)
  have flds: "cres_list m' = cres_list m @ [a]" "staged m' = as" "resources m' = ht"
    "cres_heap m' = (cres_heap m)(a := (cres_heap m a)\<lparr>cres_state := VMW_CMDBUF_RES_COMMITED\<rparr>)"
    "res_refs m' = res_refs m" by (simp_all add: m'_def upd_cres_def)
  have same: "cres_key (cres_heap m' b) = cres_key (cres_heap m b)"
    "cres_res (cres_heap m' b) = cres_res (cres_heap m b)" for b by (simp_all add: flds)
  have base: "cres_base m' = cres_base m"
    unfolding cres_base_def flds(1,2,4) st using off del by auto
  have live: "cres_live m' = insert a (cres_live m)"
    unfolding cres_live_def flds(1,2,4) st using off del by auto
  have ents: "cres_entries m' = cres_entries m" unfolding cres_entries_def flds(1,2) st by auto
  have mp: "ht_map hash (resources m') k = Some b \<longleftrightarrow> b \<in> cres_live m' \<and> cres_key (cres_heap m' b) = k" for k b
    using shows_plus [OF D(8) free] by (simp add: flds(3) live same ht(3))
  have "cres_inv hash m'"
  proof (rule cres_invI)
    show "drm_ht_ok hash (resources m')" using ht by (simp add: flds)
    show "distinct (cres_list m')" using D(2) off by (simp add: flds)
    show "distinct (staged m')" using D(3) st by (simp add: flds)
    show "set (cres_list m') \<inter> set (staged m') = {}" using D(4) off st by (auto simp: flds)
    show "inj_on (\<lambda>b. cres_key (cres_heap m' b)) (cres_base m')" unfolding base same by (rule D(7))
  next
    fix b assume "b \<in> set (cres_list m')"
    then show "cres_state (cres_heap m' b) = VMW_CMDBUF_RES_COMMITED"
      using D(5) [of b] by (auto simp: flds)
  next
    fix b assume "b \<in> set (staged m')"
    then show "cres_state (cres_heap m' b) \<noteq> VMW_CMDBUF_RES_COMMITED"
      using D(6) [of b] off st by (auto simp: flds)
  qed (rule mp)
  moreover have "base_kept m m'" by (simp add: base_kept_def base same)
  moreover have "cres_spare m' = cres_spare m" by (rule spare_same [OF ents]) (simp_all add: flds)
  ultimately show ?thesis using run live by (intro exI [of _ m']) (simp add: flds same)
qed

lemma revert_loop:
  "cres_inv hash m \<Longrightarrow> staged m = as \<Longrightarrow> distinct (map (\<lambda>a. cres_key (cres_heap m a)) as) \<Longrightarrow>
   \<exists>m'. each_entry (revert_entry hash) as m = Some m' \<and> cres_inv hash m' \<and> staged m' = [] \<and>
     base_kept m m' \<and> cres_spare m' = cres_spare m"
proof (induction as arbitrary: m)
  case Nil
  then show ?case by simp
next
  case (Cons a as)
  note D = cres_invD [OF Cons.prems(1)] and st = Cons.prems(2)
  have "\<exists>m1. revert_entry hash a m = Some m1 \<and> cres_inv hash m1 \<and> staged m1 = as \<and>
     base_kept m m1 \<and> cres_spare m1 = cres_spare m \<and>
     (\<forall>b. cres_key (cres_heap m1 b) = cres_key (cres_heap m b))"
  proof (cases "cres_state (cres_heap m a)")
    case VMW_CMDBUF_RES_COMMITED
    with D(6) [of a] st show ?thesis by simp
  next
    case VMW_CMDBUF_RES_ADD
    then have "revert_entry hash a m = Some (vmw_cmdbuf_res_free a m)" by (simp add: revert_entry_def)
    moreover have "staged (vmw_cmdbuf_res_free a m) = as" "cres_heap (vmw_cmdbuf_res_free a m) = cres_heap m"
      by (simp_all add: vmw_cmdbuf_res_free_def upd_refs_def st)
    ultimately show ?thesis using free_staged [OF Cons.prems(1) _ VMW_CMDBUF_RES_ADD] st by simp
  next
    case VMW_CMDBUF_RES_DEL
    have "ht_map hash (resources m) (cres_key (cres_heap m a)) = None"
    proof (rule ccontr)
      assume "ht_map hash (resources m) (cres_key (cres_heap m a)) \<noteq> None"
      then obtain b where b: "b \<in> cres_live m" "cres_key (cres_heap m b) = cres_key (cres_heap m a)"
        using D(8) by blast
      then consider "b \<in> set (cres_list m)" | "b \<in> set as" | "b = a" "cres_state (cres_heap m b) = VMW_CMDBUF_RES_ADD"
        using st by (auto simp: cres_live_def)
      then show False
      proof cases
        case 1
        then have "b \<in> cres_base m" "a \<in> cres_base m" "a \<noteq> b"
          using st VMW_CMDBUF_RES_DEL D(4) by (auto simp: cres_base_def)
        with b(2) D(7) show False unfolding inj_on_def by metis
      next
        case 2
        with b(2) Cons.prems(3) show False by (auto simp: image_iff)
      next
        case 3
        with VMW_CMDBUF_RES_DEL show False by simp
      qed
    qed
    from revert_removal [OF Cons.prems(1) st VMW_CMDBUF_RES_DEL this] show ?thesis by blast
  qed
  then obtain m1 where m1: "revert_entry hash a m = Some m1" "cres_inv hash m1" "staged m1 = as"
    "base_kept m m1" "cres_spare m1 = cres_spare m"
    "\<forall>b. cres_key (cres_heap m1 b) = cres_key (cres_heap m b)" by blast
  then have "distinct (map (\<lambda>a. cres_key (cres_heap m1 a)) as)" using Cons.prems(3) by simp
  from Cons.IH [OF m1(2,3) this] m1 show ?case by (auto intro: base_kept_trans)
qed

lemma settled_view:
  assumes "cres_inv hash m" "staged m = []"
  shows "cres_view hash m k = Some r \<longleftrightarrow>
    (\<exists>a \<in> cres_base m. cres_key (cres_heap m a) = k \<and> cres_res (cres_heap m a) = r)"
  using cres_invD(8) [OF assms(1)] assms(2)
  by (auto simp: cres_view_def cres_live_def cres_base_def)

lemma option_eqI: "(\<And>r. x = Some r \<longleftrightarrow> y = Some r) \<Longrightarrow> x = y"
  by (cases x; cases y) auto

lemma kept_view:
  assumes "cres_inv hash m" "staged m = []" "cres_inv hash m'" "staged m' = []" "base_kept m m'"
  shows "cres_view hash m' = cres_view hash m"
proof
  fix k
  have "cres_view hash m' k = Some r \<longleftrightarrow> cres_view hash m k = Some r" for r
    using assms(5) unfolding settled_view [OF assms(1,2)] settled_view [OF assms(3,4)]
    by (auto simp: base_kept_def)
  then show "cres_view hash m' k = cres_view hash m k"
    by (rule option_eqI)
qed

section \<open>A batch\<close>

text \<open>What a batch does to the manager while its commands are checked: it stages additions,
  whose entries are fresh memory when there is memory, and removals.\<close>

inductive cres_step :: "(u64 \<Rightarrow> nat \<Rightarrow> nat) \<Rightarrow> vmw_cmdbuf_res_manager \<Rightarrow> vmw_cmdbuf_res_manager \<Rightarrow> bool"
  for hash where
  step_add: "vmw_cmdbuf_res_add hash m t u r k = (m', x) \<Longrightarrow> (\<forall>a. k = Some a \<longrightarrow> a \<notin> cres_entries m) \<Longrightarrow>
    cres_step hash m m'"
| step_remove: "vmw_cmdbuf_res_remove hash m t u = Some (m', x) \<Longrightarrow> cres_step hash m m'"

lemma view_live:
  "cres_inv hash m \<Longrightarrow> cres_view hash m k = None \<longleftrightarrow> ht_map hash (resources m) k = None"
  by (simp add: cres_view_def)

lemma stage_remove_ok:
  assumes inv: "cres_inv hash m"
  shows "\<exists>m' x. vmw_cmdbuf_res_remove hash m t u = Some (m', x) \<and> cres_inv hash m' \<and> base_kept m m' \<and>
    cres_spare m' = cres_spare m \<and> cres_view hash m' = (cres_view hash m)(cres_hash_key t u := None) \<and>
    x = (if cres_view hash m (cres_hash_key t u) = None then Inl EINVAL else Inr ())"
proof -
  note D = cres_invD [OF inv]
  let ?k = "cres_hash_key t u"
  show ?thesis
  proof (cases "ht_map hash (resources m) ?k")
    case None
    then have "vmw_cmdbuf_res_remove hash m t u = Some (m, Inl EINVAL)" "cres_view hash m ?k = None"
      by (simp_all add: vmw_cmdbuf_res_remove_def drm_ht.find_law [OF D(1)] cres_view_def)
    then show ?thesis using inv by (auto simp: fun_upd_idem)
  next
    case (Some a)
    then have a: "a \<in> cres_live m" "cres_key (cres_heap m a) = ?k" using D(8) by auto
    have shown: "cres_view hash m ?k \<noteq> None" using Some by (simp add: cres_view_def)
    show ?thesis
    proof (cases "a \<in> set (cres_list m)")
      case True
      then have "vmw_cmdbuf_res_remove hash m t u = Some (stage_removal a m, Inr ())"
        using Some D(5) by (simp add: vmw_cmdbuf_res_remove_def drm_ht.find_law [OF D(1)] stage_removal_def)
      with stage_removal_ok [OF inv True] a(2) shown show ?thesis by simp
    next
      case False
      then have s: "a \<in> set (staged m)" "cres_state (cres_heap m a) = VMW_CMDBUF_RES_ADD"
        using a(1) by (auto simp: cres_live_def)
      then have "vmw_cmdbuf_res_remove hash m t u = Some (vmw_cmdbuf_res_free a m, Inr ())"
        using Some by (simp add: vmw_cmdbuf_res_remove_def drm_ht.find_law [OF D(1)])
      with free_staged [OF inv s] a(2) shown show ?thesis by simp
    qed
  qed
qed

lemma cres_step_keeps:
  assumes "cres_step hash m m'" "cres_inv hash m"
  shows "cres_inv hash m' \<and> base_kept m m' \<and> cres_spare m' = cres_spare m"
  using assms(1)
proof (cases rule: cres_step.cases)
  case (step_add t u r k x)
  show ?thesis
  proof (cases k)
    case None
    with step_add assms(2) show ?thesis by (simp add: vmw_cmdbuf_res_add_def)
  next
    case (Some a)
    show ?thesis
    proof (cases "ht_map hash (resources m) (cres_hash_key t u)")
      case None
      from add_ok [OF assms(2) _ None, of a r] step_add Some show ?thesis by auto
    next
      case (Some b)
      with add_dup [OF assms(2), of t u r a] \<open>k = Some a\<close> step_add assms(2) show ?thesis by simp
    qed
  qed
next
  case (step_remove t u x)
  with stage_remove_ok [OF assms(2), of t u] show ?thesis by auto
qed

lemma cres_batch_keeps:
  assumes "(cres_step hash)\<^sup>*\<^sup>* m m'" "cres_inv hash m"
  shows "cres_inv hash m' \<and> base_kept m m' \<and> cres_spare m' = cres_spare m"
  using assms
proof induction
  case base
  then show ?case by simp
next
  case (step m1 m2)
  then show ?case using cres_step_keeps [OF step.hyps(2)] by (auto intro: base_kept_trans)
qed

lemma commit_ok:
  assumes "cres_inv hash m"
  shows "\<exists>m'. vmw_cmdbuf_res_commit m = Some m' \<and> cres_inv hash m' \<and> staged m' = [] \<and>
    cres_view hash m' = cres_view hash m \<and> cres_spare m' = cres_spare m"
proof -
  have "cres_core hash m" using assms by (simp add: cres_inv_core)
  from commit_loop [OF this refl] obtain m' where m': "each_entry commit_entry (staged m) m = Some m'"
    "cres_core hash m'" "staged m' = []" "resources m' = resources m" "cres_spare m' = cres_spare m"
    "\<forall>b. cres_res (cres_heap m' b) = cres_res (cres_heap m b)" by blast
  have "cres_view hash m' = cres_view hash m"
    by (rule ext) (simp add: cres_view_def m'(4,6))
  with m' settled_inv [OF m'(2,3)] show ?thesis by (simp add: vmw_cmdbuf_res_commit_def)
qed

lemma new_manager:
  assumes "hash_ok hash" "vmw_cmdbuf_res_man_create mok kok vok heap refs = Inr m"
  shows "cres_inv hash m \<and> staged m = [] \<and> cres_view hash m = Map.empty \<and> cres_spare m = refs"
proof -
  obtain ht where ht: "drm_ht_create VMW_CMDBUF_RES_MAN_HT_ORDER kok vok = Inr ht"
    and m: "m = \<lparr>resources = ht, cres_heap = heap, cres_list = [], staged = [], res_refs = refs\<rparr>"
    using assms(2) by (auto simp: vmw_cmdbuf_res_man_create_def split: if_splits sum.splits)
  have "VMW_CMDBUF_RES_MAN_HT_ORDER < 32" by (simp add: VMW_CMDBUF_RES_MAN_HT_ORDER_def)
  note c = create_inv [OF ht this, of hash]
  have e: "ht_map hash ht k = None" for k using ht_map_empty c assms(1) by blast
  have "cres_inv hash m" unfolding cres_inv_def
    using c assms(1) by (simp add: m e drm_ht_ok_def cres_live_def cres_base_def)
  then show ?thesis by (auto simp: m cres_view_def e cres_spare_def cres_entries_def)
qed

section \<open>Correctness\<close>

text \<open>C20: Staging acts on what the table shows as a map update.  An addition under a free key
  makes the resource visible at once, one under a key in use changes nothing and fails with
  EINVAL; a removal makes the key invisible at once and fails with EINVAL when it is unknown,
  and never meets an entry in an impossible state.  References to resources stay balanced.\<close>

theorem vmw_cmdbuf_res_stage_spec:
  assumes "cres_inv hash m" "a \<notin> cres_entries m"
  shows "(\<exists>m1. vmw_cmdbuf_res_add hash m t u r (Some a) =
            (m1, if cres_view hash m (cres_hash_key t u) = None then Inr () else Inl EINVAL) \<and>
          cres_inv hash m1 \<and> cres_spare m1 = cres_spare m \<and>
          cres_view hash m1 = (if cres_view hash m (cres_hash_key t u) = None
            then (cres_view hash m)(cres_hash_key t u \<mapsto> r) else cres_view hash m)) \<and>
         (\<exists>m2. vmw_cmdbuf_res_remove hash m t u =
            Some (m2, if cres_view hash m (cres_hash_key t u) = None then Inl EINVAL else Inr ()) \<and>
          cres_inv hash m2 \<and> cres_spare m2 = cres_spare m \<and>
          cres_view hash m2 = (cres_view hash m)(cres_hash_key t u := None))"
proof (rule conjI)
  show "\<exists>m1. vmw_cmdbuf_res_add hash m t u r (Some a) =
            (m1, if cres_view hash m (cres_hash_key t u) = None then Inr () else Inl EINVAL) \<and>
          cres_inv hash m1 \<and> cres_spare m1 = cres_spare m \<and>
          cres_view hash m1 = (if cres_view hash m (cres_hash_key t u) = None
            then (cres_view hash m)(cres_hash_key t u \<mapsto> r) else cres_view hash m)"
  proof (cases "ht_map hash (resources m) (cres_hash_key t u)")
    case None
    then show ?thesis using add_ok [OF assms None, of r] by (auto simp: view_live [OF assms(1)])
  next
    case (Some b)
    then show ?thesis using add_dup [OF assms(1), of t u r a] assms(1) by (simp add: view_live [OF assms(1)])
  qed
qed (use stage_remove_ok [OF assms(1), of t u] in blast)

definition new_man :: vmw_cmdbuf_res_manager where
  "new_man = \<lparr>resources = \<lparr>ht_size = 2, ht_order = 1, fill = 0, table = Some [[], []], use_vmalloc = False\<rparr>,
     cres_heap = (\<lambda>_. \<lparr>cres_res = 0, cres_key = 0, cres_state = VMW_CMDBUF_RES_COMMITED\<rparr>),
     cres_list = [], staged = [], res_refs = (\<lambda>_. 1)\<rparr>"

lemma new_man_inv: "cres_inv mod_hash new_man" "staged new_man = []"
proof -
  have "ht_inv mod_hash (resources new_man)" "ht_items (resources new_man) = {}"
    by (simp_all add: ht_inv_def new_man_def buckets_def ht_items_def less_Suc_eq)
  then have "ht_map mod_hash (resources new_man) k = None" for k using ht_map_empty mod_hash_ok by blast
  with \<open>ht_inv mod_hash (resources new_man)\<close> show "cres_inv mod_hash new_man" unfolding cres_inv_def
    by (simp add: drm_ht_ok_def mod_hash_ok) (simp add: new_man_def cres_live_def cres_base_def)
qed (simp add: new_man_def)

theorem vmw_cmdbuf_res_stage_spec_witness:
  "snd (vmw_cmdbuf_res_add mod_hash new_man 0 5 10 (Some 3)) = Inr () \<and>
   vmw_cmdbuf_res_remove mod_hash new_man 0 5 \<noteq> None"
proof -
  have "3 \<notin> cres_entries new_man" by (simp add: cres_entries_def new_man_def)
  from vmw_cmdbuf_res_stage_spec [OF new_man_inv(1) this, of 0 5 10]
  obtain m1 m2 x where
    "vmw_cmdbuf_res_add mod_hash new_man 0 5 10 (Some 3) =
       (m1, if cres_view mod_hash new_man (cres_hash_key 0 5) = None then Inr () else Inl EINVAL)"
    "vmw_cmdbuf_res_remove mod_hash new_man 0 5 = Some (m2, x)"
    by blast
  moreover have "cres_view mod_hash new_man (cres_hash_key 0 5) = None" by code_simp
  ultimately show ?thesis by simp
qed

text \<open>C21: Committing a batch.  After any sequence of staged additions and removals
  \<open>vmw_cmdbuf_res_commit\<close> reaches the end of the list without a BUG, leaves nothing staged,
  and the table goes on showing what the batch made it show; every entry still holds exactly
  one reference.\<close>

theorem vmw_cmdbuf_res_commit_keeps_view:
  assumes "cres_inv hash m" "(cres_step hash)\<^sup>*\<^sup>* m m'"
  shows "\<exists>m''. vmw_cmdbuf_res_commit m' = Some m'' \<and> cres_inv hash m'' \<and> staged m'' = [] \<and>
    cres_view hash m'' = cres_view hash m' \<and> cres_spare m'' = cres_spare m"
  using commit_ok [of hash m'] cres_batch_keeps [OF assms(2,1)] by auto

definition one_man :: vmw_cmdbuf_res_manager where
  "one_man = fst (vmw_cmdbuf_res_add mod_hash new_man 0 5 10 (Some 3))"

lemma one_man_step: "cres_step mod_hash new_man one_man"
  by (rule step_add [of _ _ 0 5 10 "Some 3" _ "snd (vmw_cmdbuf_res_add mod_hash new_man 0 5 10 (Some 3))"])
    (simp_all add: one_man_def cres_entries_def new_man_def)

theorem vmw_cmdbuf_res_commit_keeps_view_witness:
  "\<exists>m. vmw_cmdbuf_res_commit one_man = Some m \<and> cres_view mod_hash m (cres_hash_key 0 5) = Some 10"
proof -
  have "cres_view mod_hash one_man (cres_hash_key 0 5) = Some 10" by code_simp
  with vmw_cmdbuf_res_commit_keeps_view [OF new_man_inv(1) r_into_rtranclp, of one_man, OF one_man_step]
  show ?thesis by auto
qed

text \<open>C22: Reverting a batch.  When no staged key occurs twice,
  \<open>vmw_cmdbuf_res_revert\<close> after any sequence of staged additions and removals makes the table
  show again what it showed when the batch began, with nothing staged and every reference
  balanced.\<close>

theorem vmw_cmdbuf_res_revert_restores:
  assumes "cres_inv hash m" "staged m = []" "(cres_step hash)\<^sup>*\<^sup>* m m'"
    and "distinct (map (\<lambda>a. cres_key (cres_heap m' a)) (staged m'))"
  shows "\<exists>m''. vmw_cmdbuf_res_revert hash m' = Some m'' \<and> cres_inv hash m'' \<and> staged m'' = [] \<and>
    cres_view hash m'' = cres_view hash m \<and> cres_spare m'' = cres_spare m"
proof -
  note b = cres_batch_keeps [OF assms(3,1)]
  obtain m'' where m'': "each_entry (revert_entry hash) (staged m') m' = Some m''" "cres_inv hash m''"
    "staged m'' = []" "base_kept m' m''" "cres_spare m'' = cres_spare m'"
    using revert_loop [OF _ refl assms(4)] b by blast
  have "cres_view hash m'' = cres_view hash m"
    using b m''(4) by (intro kept_view [OF assms(1,2) m''(2,3)]) (blast intro: base_kept_trans)
  with b m'' show ?thesis by (simp add: vmw_cmdbuf_res_revert_def)
qed

definition two_man :: vmw_cmdbuf_res_manager where
  "two_man = the (vmw_cmdbuf_res_commit one_man)"

definition del_man :: vmw_cmdbuf_res_manager where
  "del_man = fst (the (vmw_cmdbuf_res_remove mod_hash two_man 0 5))"

lemma two_man_inv: "cres_inv mod_hash two_man" "staged two_man = []"
  using commit_ok [of mod_hash one_man] cres_step_keeps [OF one_man_step new_man_inv(1)]
  by (auto simp: two_man_def)

lemma del_man_step: "cres_step mod_hash two_man del_man"
  using stage_remove_ok [OF two_man_inv(1), of 0 5] by (auto simp: del_man_def intro: step_remove)

theorem vmw_cmdbuf_res_revert_restores_witness:
  "\<exists>m. vmw_cmdbuf_res_revert mod_hash del_man = Some m \<and> cres_view mod_hash m (cres_hash_key 0 5) = Some 10"
proof -
  have "distinct (map (\<lambda>a. cres_key (cres_heap del_man a)) (staged del_man))"
    "cres_view mod_hash two_man (cres_hash_key 0 5) = Some 10" by code_simp+
  with vmw_cmdbuf_res_revert_restores [OF two_man_inv r_into_rtranclp, of del_man, OF del_man_step]
  show ?thesis by auto
qed

text \<open>The condition on the staged keys is needed.  When a batch removes a committed resource
  and adds another under the same key, the revert goes through the list in the order of
  staging: the old entry cannot be put back because the new one still has the key, the error
  is not looked at, and after the new entry is freed the old resource is on the list of
  committed entries but not found.\<close>

definition replaced_man :: vmw_cmdbuf_res_manager where
  "replaced_man = fst (vmw_cmdbuf_res_add mod_hash del_man 0 5 20 (Some 4))"

lemma revert_loses_replaced:
  "cres_view mod_hash two_man (cres_hash_key 0 5) = Some 10 \<and>
   (case vmw_cmdbuf_res_revert mod_hash replaced_man of
      None \<Rightarrow> False
    | Some m \<Rightarrow> cres_view mod_hash m (cres_hash_key 0 5) = None \<and> cres_list m = [3])"
  by code_simp

end
