(* ===== verification/Device.thy ===== *)
theory Device
  imports Prelude
begin

text \<open>
  What the driver sees of the SVGA device: the FIFO memory, whose first words are shared
  registers (\<open>src/svga_reg.h\<close>), the I/O registers it writes, and the interrupt mask with
  its counts of waiters (\<open>src/vmwgfx_irq.c\<close>).  FIFO memory is addressed by word, as the code
  does through its \<open>__le32\<close> pointer.  Values the device puts in a register are arguments.
\<close>

section \<open>Registers and capabilities\<close>

definition SVGA_FIFO_MIN :: nat where "SVGA_FIFO_MIN = 0"
definition SVGA_FIFO_MAX :: nat where "SVGA_FIFO_MAX = 1"
definition SVGA_FIFO_NEXT_CMD :: nat where "SVGA_FIFO_NEXT_CMD = 2"
definition SVGA_FIFO_STOP :: nat where "SVGA_FIFO_STOP = 3"
definition SVGA_FIFO_CAPABILITIES :: nat where "SVGA_FIFO_CAPABILITIES = 4"
definition SVGA_FIFO_FENCE :: nat where "SVGA_FIFO_FENCE = 6"
definition SVGA_FIFO_3D_HWVERSION :: nat where "SVGA_FIFO_3D_HWVERSION = 7"
definition SVGA_FIFO_RESERVED :: nat where "SVGA_FIFO_RESERVED = 14"
definition SVGA_FIFO_3D_HWVERSION_REVISED :: nat where "SVGA_FIFO_3D_HWVERSION_REVISED = 17"
definition SVGA_FIFO_FENCE_GOAL :: nat where "SVGA_FIFO_FENCE_GOAL = 289"
definition SVGA_FIFO_BUSY :: nat where "SVGA_FIFO_BUSY = 290"

lemmas fifo_regs = SVGA_FIFO_MIN_def SVGA_FIFO_MAX_def SVGA_FIFO_NEXT_CMD_def SVGA_FIFO_STOP_def
  SVGA_FIFO_CAPABILITIES_def SVGA_FIFO_FENCE_def SVGA_FIFO_3D_HWVERSION_def SVGA_FIFO_RESERVED_def
  SVGA_FIFO_3D_HWVERSION_REVISED_def SVGA_FIFO_FENCE_GOAL_def SVGA_FIFO_BUSY_def

definition SVGA_REG_ENABLE :: u32 where "SVGA_REG_ENABLE = 1"
definition SVGA_REG_CONFIG_DONE :: u32 where "SVGA_REG_CONFIG_DONE = 20"
definition SVGA_REG_SYNC :: u32 where "SVGA_REG_SYNC = 21"
definition SVGA_REG_BUSY :: u32 where "SVGA_REG_BUSY = 22"
definition SVGA_REG_MEM_REGS :: u32 where "SVGA_REG_MEM_REGS = 30"
definition SVGA_REG_IRQMASK :: u32 where "SVGA_REG_IRQMASK = 33"
definition SVGA_REG_TRACES :: u32 where "SVGA_REG_TRACES = 45"
definition SVGA_REG_DEV_CAP :: u32 where "SVGA_REG_DEV_CAP = 52"

definition SVGA_SYNC_GENERIC :: u32 where "SVGA_SYNC_GENERIC = 1"
definition SVGA_SYNC_FIFOFULL :: u32 where "SVGA_SYNC_FIFOFULL = 2"

definition SVGA_IRQFLAG_ANY_FENCE :: u32 where "SVGA_IRQFLAG_ANY_FENCE = 0x1"
definition SVGA_IRQFLAG_FIFO_PROGRESS :: u32 where "SVGA_IRQFLAG_FIFO_PROGRESS = 0x2"
definition SVGA_IRQFLAG_FENCE_GOAL :: u32 where "SVGA_IRQFLAG_FENCE_GOAL = 0x4"

definition SVGA_CAP_3D :: u32 where "SVGA_CAP_3D = 0x00004000"
definition SVGA_CAP_EXTENDED_FIFO :: u32 where "SVGA_CAP_EXTENDED_FIFO = 0x00008000"
definition SVGA_CAP_IRQMASK :: u32 where "SVGA_CAP_IRQMASK = 0x00040000"
definition SVGA_CAP_GBOBJECTS :: u32 where "SVGA_CAP_GBOBJECTS = 0x08000000"

definition SVGA_FIFO_CAP_FENCE :: u32 where "SVGA_FIFO_CAP_FENCE = push_bit 0 1"
definition SVGA_FIFO_CAP_PITCHLOCK :: u32 where "SVGA_FIFO_CAP_PITCHLOCK = push_bit 2 1"
definition SVGA_FIFO_CAP_RESERVE :: u32 where "SVGA_FIFO_CAP_RESERVE = push_bit 6 1"
definition SVGA_FIFO_CAP_3D_HWVERSION_REVISED :: u32 where
  "SVGA_FIFO_CAP_3D_HWVERSION_REVISED = push_bit 8 1"

section \<open>The device as the driver drives it\<close>

text \<open>\<open>reg_writes\<close> is the log of \<open>vmw_write\<close>, the latest first; \<open>irq_acks\<close> that of the writes
  to the interrupt status port.\<close>

record vmw_hw =
  fifo_mem :: "nat \<Rightarrow> u32"
  hw_caps :: u32
  reg_writes :: "(u32 \<times> u32) list"
  irq_acks :: "u32 list"
  irq_mask :: u32
  fence_queue_waiters :: int
  goal_queue_waiters :: int
  fifo_queue_waiters :: int

definition ioread32 :: "vmw_hw \<Rightarrow> nat \<Rightarrow> u32" where
  "ioread32 hw i = fifo_mem hw i"

definition iowrite32 :: "u32 \<Rightarrow> nat \<Rightarrow> vmw_hw \<Rightarrow> vmw_hw" where
  "iowrite32 v i hw = hw\<lparr>fifo_mem := (fifo_mem hw)(i := v)\<rparr>"

definition vmw_write :: "u32 \<Rightarrow> u32 \<Rightarrow> vmw_hw \<Rightarrow> vmw_hw" where
  "vmw_write reg v hw = hw\<lparr>reg_writes := (reg, v) # reg_writes hw\<rparr>"

definition irq_ack :: "u32 \<Rightarrow> vmw_hw \<Rightarrow> vmw_hw" where
  "irq_ack v hw = hw\<lparr>irq_acks := v # irq_acks hw\<rparr>"

definition vmw_fifo_ping_host :: "u32 \<Rightarrow> vmw_hw \<Rightarrow> vmw_hw" where
  "vmw_fifo_ping_host reason hw =
     (if ioread32 hw SVGA_FIFO_BUSY = 0
      then vmw_write SVGA_REG_SYNC reason (iowrite32 1 SVGA_FIFO_BUSY hw) else hw)"

section \<open>Interrupts for waiters\<close>

definition irq_enable :: "u32 \<Rightarrow> vmw_hw \<Rightarrow> vmw_hw" where
  "irq_enable flag hw =
     (let m = irq_mask hw OR flag in vmw_write SVGA_REG_IRQMASK m (irq_ack flag hw\<lparr>irq_mask := m\<rparr>))"

definition irq_disable :: "u32 \<Rightarrow> vmw_hw \<Rightarrow> vmw_hw" where
  "irq_disable flag hw =
     (let m = irq_mask hw AND NOT flag in vmw_write SVGA_REG_IRQMASK m (hw\<lparr>irq_mask := m\<rparr>))"

definition vmw_seqno_waiter_add :: "vmw_hw \<Rightarrow> vmw_hw" where
  "vmw_seqno_waiter_add hw =
     (let n = fence_queue_waiters hw; hw' = hw\<lparr>fence_queue_waiters := n + 1\<rparr>
      in if n = 0 then irq_enable SVGA_IRQFLAG_ANY_FENCE hw' else hw')"

definition vmw_seqno_waiter_remove :: "vmw_hw \<Rightarrow> vmw_hw" where
  "vmw_seqno_waiter_remove hw =
     (let n = fence_queue_waiters hw - 1; hw' = hw\<lparr>fence_queue_waiters := n\<rparr>
      in if n = 0 then irq_disable SVGA_IRQFLAG_ANY_FENCE hw' else hw')"

definition vmw_goal_waiter_add :: "vmw_hw \<Rightarrow> vmw_hw" where
  "vmw_goal_waiter_add hw =
     (let n = goal_queue_waiters hw; hw' = hw\<lparr>goal_queue_waiters := n + 1\<rparr>
      in if n = 0 then irq_enable SVGA_IRQFLAG_FENCE_GOAL hw' else hw')"

definition vmw_goal_waiter_remove :: "vmw_hw \<Rightarrow> vmw_hw" where
  "vmw_goal_waiter_remove hw =
     (let n = goal_queue_waiters hw - 1; hw' = hw\<lparr>goal_queue_waiters := n\<rparr>
      in if n = 0 then irq_disable SVGA_IRQFLAG_FENCE_GOAL hw' else hw')"

text \<open>The interrupt of a kind is unmasked exactly while somebody waits for it.\<close>

definition irq_inv :: "vmw_hw \<Rightarrow> bool" where
  "irq_inv hw \<longleftrightarrow>
     0 \<le> fence_queue_waiters hw \<and> 0 \<le> goal_queue_waiters hw \<and> 0 \<le> fifo_queue_waiters hw \<and>
     (bit (irq_mask hw) 0 \<longleftrightarrow> 0 < fence_queue_waiters hw) \<and>
     (bit (irq_mask hw) 1 \<longleftrightarrow> 0 < fifo_queue_waiters hw) \<and>
     (bit (irq_mask hw) 2 \<longleftrightarrow> 0 < goal_queue_waiters hw)"

lemma bits_124 [simp]:
  "bit (1 :: u32) n \<longleftrightarrow> n = 0" "bit (2 :: u32) n \<longleftrightarrow> n = 1" "bit (4 :: u32) n \<longleftrightarrow> n = 2"
  using bit_push_bit_iff [of 1 "1 :: u32" n] bit_push_bit_iff [of 2 "1 :: u32" n]
  by (auto simp: bit_1_iff)

lemmas irq_defs = irq_inv_def irq_enable_def irq_disable_def vmw_write_def irq_ack_def
  SVGA_IRQFLAG_ANY_FENCE_def SVGA_IRQFLAG_FIFO_PROGRESS_def SVGA_IRQFLAG_FENCE_GOAL_def
  bit_or_iff bit_and_iff bit_not_iff

lemma waiter_add_inv:
  "irq_inv hw \<Longrightarrow> irq_inv (vmw_seqno_waiter_add hw)" "irq_inv hw \<Longrightarrow> irq_inv (vmw_goal_waiter_add hw)"
  by (auto simp: vmw_seqno_waiter_add_def vmw_goal_waiter_add_def Let_def irq_defs)

lemma waiter_remove_inv:
  "irq_inv hw \<Longrightarrow> 0 < fence_queue_waiters hw \<Longrightarrow> irq_inv (vmw_seqno_waiter_remove hw)"
  "irq_inv hw \<Longrightarrow> 0 < goal_queue_waiters hw \<Longrightarrow> irq_inv (vmw_goal_waiter_remove hw)"
  by (auto simp: vmw_seqno_waiter_remove_def vmw_goal_waiter_remove_def Let_def irq_defs)

lemma mem_simps [simp]:
  "fifo_mem (vmw_write r v hw) = fifo_mem hw" "fifo_mem (irq_ack v hw) = fifo_mem hw"
  "fifo_mem (iowrite32 v i hw) = (fifo_mem hw)(i := v)"
  "fifo_mem (vmw_seqno_waiter_add hw) = fifo_mem hw" "fifo_mem (vmw_seqno_waiter_remove hw) = fifo_mem hw"
  "fifo_mem (vmw_goal_waiter_add hw) = fifo_mem hw" "fifo_mem (vmw_goal_waiter_remove hw) = fifo_mem hw"
  by (simp_all add: vmw_write_def irq_ack_def iowrite32_def vmw_seqno_waiter_add_def Let_def
      vmw_seqno_waiter_remove_def vmw_goal_waiter_add_def vmw_goal_waiter_remove_def
      irq_enable_def irq_disable_def)

lemma ping_mem: "i \<noteq> SVGA_FIFO_BUSY \<Longrightarrow> fifo_mem (vmw_fifo_ping_host r hw) i = fifo_mem hw i"
  by (simp add: vmw_fifo_ping_host_def)

end
