(* ===== verification/Fifo.thy ===== *)
theory Fifo
  imports Device
begin

text \<open>
  The command FIFO of \<open>src/vmwgfx_fifo.c\<close>: a ring of words between \<open>SVGA_FIFO_MIN\<close> and
  \<open>SVGA_FIFO_MAX\<close> in FIFO memory, filled by the driver at \<open>SVGA_FIFO_NEXT_CMD\<close> and emptied by
  the device at \<open>SVGA_FIFO_STOP\<close>.  A client reserves room, writes its commands through the
  pointer it gets, which is the ring itself or a bounce buffer, and commits.  The registers
  hold byte offsets; memory is addressed by word.  What the device and the clock do while
  the driver waits is an argument.
\<close>

section \<open>State\<close>

type_synonym buf = "nat \<Rightarrow> u32"

record vmw_fifo_state =
  reserved_size :: u64
  dynamic_buffer :: "buf option"
  static_buffer :: "buf option"
  static_buffer_size :: u64
  using_bounce_buffer :: bool
  fifo_caps :: u32
  fifo_locked :: bool \<comment> \<open>\<open>fifo_mutex\<close> is held\<close>

record fifo_sys =
  hw :: vmw_hw
  fifo :: vmw_fifo_state

datatype fifo_ptr = Fifo_in_place nat | Fifo_static | Fifo_dynamic

text \<open>A call returns, runs into a \<open>BUG_ON\<close>, or is still waiting when the arguments that
  describe its environment are used up.\<close>

datatype 'a run = Returns 'a | Bugs | Waits

definition VMWGFX_FIFO_STATIC_SIZE :: u64 where
  "VMWGFX_FIFO_STATIC_SIZE = 1024 * 1024"

section \<open>Waiting for space\<close>

definition vmw_fifo_is_full :: "vmw_hw \<Rightarrow> u32 \<Rightarrow> bool" where
  "vmw_fifo_is_full h bytes =
     (let fmax = ioread32 h SVGA_FIFO_MAX; next_cmd = ioread32 h SVGA_FIFO_NEXT_CMD;
          fmin = ioread32 h SVGA_FIFO_MIN; stop = ioread32 h SVGA_FIFO_STOP
      in (fmax - next_cmd) + (stop - fmin) \<le> bytes)"

definition device_stop :: "u32 \<Rightarrow> vmw_hw \<Rightarrow> vmw_hw" where
  "device_stop stop h = iowrite32 stop SVGA_FIFO_STOP h"

definition time_after_eq :: "u64 \<Rightarrow> u64 \<Rightarrow> bool" where
  "time_after_eq a b \<longleftrightarrow> 0 \<le> sint (a - b)"

record fifo_poll =
  poll_stop :: u32
  poll_jiffies :: u64
  poll_signal :: bool

fun vmw_fifo_wait_noirq :: "vmw_hw \<Rightarrow> u32 \<Rightarrow> bool \<Rightarrow> u64 \<Rightarrow> fifo_poll list \<Rightarrow> (vmw_hw \<times> unit res) run" where
  "vmw_fifo_wait_noirq h bytes interruptible end_jiffies [] = Waits"
| "vmw_fifo_wait_noirq h bytes interruptible end_jiffies (p # ps) =
     (let h1 = device_stop (poll_stop p) h in
      if \<not> vmw_fifo_is_full h1 bytes then Returns (h1, Inr ())
      else if time_after_eq (poll_jiffies p) end_jiffies then Returns (h1, Inl EBUSY)
      else if interruptible \<and> poll_signal p then Returns (h1, Inl ERESTARTSYS)
      else vmw_fifo_wait_noirq h1 bytes interruptible end_jiffies ps)"

text \<open>What a wait meets: the clock at its start and the polls without interrupts, and the
  value \<open>wait_event_timeout\<close> returns with them.\<close>

record fifo_wait_env =
  wait_jiffies :: u64
  wait_polls :: "fifo_poll list"
  wait_long :: int

definition vmw_fifo_wait :: "vmw_hw \<Rightarrow> u32 \<Rightarrow> bool \<Rightarrow> u64 \<Rightarrow> fifo_wait_env \<Rightarrow> (vmw_hw \<times> unit res) run" where
  "vmw_fifo_wait h bytes interruptible timeout env =
     (if \<not> vmw_fifo_is_full h bytes then Returns (h, Inr ())
      else
        (let h1 = vmw_fifo_ping_host SVGA_SYNC_FIFOFULL h in
         if hw_caps h1 AND SVGA_CAP_IRQMASK = 0
         then vmw_fifo_wait_noirq h1 bytes interruptible (wait_jiffies env + timeout) (wait_polls env)
         else
           (let n = fifo_queue_waiters h1 + 1;
                h2 = h1\<lparr>fifo_queue_waiters := n\<rparr>;
                h3 = (if 0 < n then irq_enable SVGA_IRQFLAG_FIFO_PROGRESS h2 else h2);
                ret = (if wait_long env = 0 then Inl EBUSY
                       else if 0 < wait_long env then Inr () else Inl ERESTARTSYS);
                m = fifo_queue_waiters h3 - 1;
                h4 = h3\<lparr>fifo_queue_waiters := m\<rparr>;
                h5 = (if m = 0 then irq_disable SVGA_IRQFLAG_FIFO_PROGRESS h4 else h4)
            in Returns (h5, ret))))"

section \<open>Reserving\<close>

record fifo_round =
  round_stop :: u32
  round_env :: fifo_wait_env

definition fifo_fail :: "fifo_sys \<Rightarrow> fifo_sys \<times> fifo_ptr option" where
  "fifo_fail s = (s\<lparr>fifo := (fifo s)\<lparr>reserved_size := 0, fifo_locked := False\<rparr>\<rparr>, None)"

text \<open>\<open>dyn\<close> is what \<open>vmalloc\<close> returns for the dynamic buffer.  When it fails the code returns
  \<open>NULL\<close> from inside the loop, with the mutex held.\<close>

definition fifo_bounce :: "fifo_sys \<Rightarrow> u32 \<Rightarrow> buf option \<Rightarrow> fifo_sys \<times> fifo_ptr option" where
  "fifo_bounce s bytes dyn =
     (let f = (fifo s)\<lparr>using_bounce_buffer := True\<rparr> in
      if ucast bytes < static_buffer_size f then (s\<lparr>fifo := f\<rparr>, Some Fifo_static)
      else (s\<lparr>fifo := f\<lparr>dynamic_buffer := dyn\<rparr>\<rparr>, map_option (\<lambda>_. Fifo_dynamic) dyn))"

definition HZ3 :: "u64 \<Rightarrow> u64" where "HZ3 hz = 3 * hz"

fun reserve_loop ::
  "u64 \<Rightarrow> fifo_sys \<Rightarrow> u32 \<Rightarrow> u32 \<Rightarrow> u32 \<Rightarrow> u32 \<Rightarrow> buf option \<Rightarrow> fifo_round list
    \<Rightarrow> (fifo_sys \<times> fifo_ptr option) run"
where
  "reserve_loop hz s bytes fmax fmin next_cmd dyn [] = Waits"
| "reserve_loop hz s bytes fmax fmin next_cmd dyn (r # rs) =
     (let stop = round_stop r;
          h = device_stop stop (hw s);
          s1 = s\<lparr>hw := h\<rparr>;
          reserveable = fifo_caps (fifo s) AND SVGA_FIFO_CAP_RESERVE \<noteq> 0;
          in_place =
            (if stop \<le> next_cmd
             then next_cmd + bytes < fmax \<or> next_cmd + bytes = fmax \<and> fmin < stop
             else next_cmd + bytes < stop)
      in if in_place then
           (if reserveable \<or> bytes \<le> 4 then
              (let h2 = (if reserveable then iowrite32 bytes SVGA_FIFO_RESERVED h else h)
               in Returns (s1\<lparr>hw := h2, fifo := (fifo s)\<lparr>using_bounce_buffer := False\<rparr>\<rparr>,
                           Some (Fifo_in_place (unat (next_cmd div 4)))))
            else Returns (fifo_bounce s1 bytes dyn))
         else if stop \<le> next_cmd \<and> \<not> vmw_fifo_is_full h bytes then Returns (fifo_bounce s1 bytes dyn)
         else
           (case vmw_fifo_wait h bytes False (HZ3 hz) (round_env r) of
              Returns (h2, Inr _) \<Rightarrow> reserve_loop hz (s1\<lparr>hw := h2\<rparr>) bytes fmax fmin next_cmd dyn rs
            | Returns (h2, Inl _) \<Rightarrow> Returns (fifo_fail (s1\<lparr>hw := h2\<rparr>))
            | Bugs \<Rightarrow> Bugs
            | Waits \<Rightarrow> Waits))"

definition vmw_fifo_reserve ::
  "u64 \<Rightarrow> fifo_sys \<Rightarrow> u32 \<Rightarrow> buf option \<Rightarrow> fifo_round list \<Rightarrow> (fifo_sys \<times> fifo_ptr option) run"
where
  "vmw_fifo_reserve hz s bytes dyn rs =
     (if fifo_locked (fifo s) then Waits
      else
        (let s1 = s\<lparr>fifo := (fifo s)\<lparr>fifo_locked := True\<rparr>\<rparr>;
             fmax = ioread32 (hw s) SVGA_FIFO_MAX; fmin = ioread32 (hw s) SVGA_FIFO_MIN;
             next_cmd = ioread32 (hw s) SVGA_FIFO_NEXT_CMD
         in if fmax - fmin \<le> bytes then Returns (fifo_fail s1)
            else if reserved_size (fifo s1) \<noteq> 0 \<or> dynamic_buffer (fifo s1) \<noteq> None then Bugs
            else reserve_loop hz (s1\<lparr>fifo := (fifo s1)\<lparr>reserved_size := ucast bytes\<rparr>\<rparr>) bytes fmax fmin next_cmd dyn rs))"

text \<open>The client's writes through the pointer.\<close>

definition put_words :: "nat \<Rightarrow> u32 list \<Rightarrow> (nat \<Rightarrow> u32) \<Rightarrow> nat \<Rightarrow> u32" where
  "put_words at ws m = (\<lambda>i. if at \<le> i \<and> i < at + length ws then ws ! (i - at) else m i)"

definition fifo_write :: "fifo_ptr \<Rightarrow> u32 list \<Rightarrow> fifo_sys \<Rightarrow> fifo_sys" where
  "fifo_write p ws s =
     (case p of
        Fifo_in_place i \<Rightarrow> s\<lparr>hw := (hw s)\<lparr>fifo_mem := put_words i ws (fifo_mem (hw s))\<rparr>\<rparr>
      | Fifo_static \<Rightarrow> s\<lparr>fifo := (fifo s)\<lparr>static_buffer := map_option (put_words 0 ws) (static_buffer (fifo s))\<rparr>\<rparr>
      | Fifo_dynamic \<Rightarrow> s\<lparr>fifo := (fifo s)\<lparr>dynamic_buffer := map_option (put_words 0 ws) (dynamic_buffer (fifo s))\<rparr>\<rparr>)"

section \<open>Committing\<close>

text \<open>\<open>n\<close> bytes; a last partial word keeps its upper bytes.\<close>

definition memcpy_toio :: "nat \<Rightarrow> buf \<Rightarrow> nat \<Rightarrow> (nat \<Rightarrow> u32) \<Rightarrow> nat \<Rightarrow> u32" where
  "memcpy_toio dst src n m =
     (\<lambda>i. if dst \<le> i \<and> i < dst + n div 4 then src (i - dst)
          else if i = dst + n div 4 \<and> n mod 4 \<noteq> 0
          then (src (n div 4) AND mask (8 * (n mod 4))) OR (m i AND NOT (mask (8 * (n mod 4))))
          else m i)"

definition bounce_buffer :: "vmw_fifo_state \<Rightarrow> buf" where
  "bounce_buffer f =
     (case dynamic_buffer f of Some b \<Rightarrow> b | None \<Rightarrow> (case static_buffer f of Some b \<Rightarrow> b | None \<Rightarrow> (\<lambda>_. 0)))"

definition vmw_fifo_res_copy :: "buf \<Rightarrow> u32 \<Rightarrow> u32 \<Rightarrow> u32 \<Rightarrow> u32 \<Rightarrow> vmw_hw \<Rightarrow> vmw_hw" where
  "vmw_fifo_res_copy buffer next_cmd fmax fmin bytes h =
     (let chunk_size = (if bytes < fmax - next_cmd then bytes else fmax - next_cmd);
          h1 = iowrite32 bytes SVGA_FIFO_RESERVED h;
          h2 = h1\<lparr>fifo_mem := memcpy_toio (unat (next_cmd div 4)) buffer (unat chunk_size) (fifo_mem h1)\<rparr>;
          rest = bytes - chunk_size
      in if rest \<noteq> 0
         then h2\<lparr>fifo_mem := memcpy_toio (unat (fmin div 4)) (\<lambda>i. buffer (i + unat (chunk_size div 4)))
                               (unat rest) (fifo_mem h2)\<rparr>
         else h2)"

text \<open>The loop counts \<open>bytes\<close> down by four and ends at zero only.\<close>

partial_function (option) vmw_fifo_slow_copy ::
  "(nat \<Rightarrow> u32) \<Rightarrow> nat \<Rightarrow> u32 \<Rightarrow> u32 \<Rightarrow> u32 \<Rightarrow> u32 \<Rightarrow> vmw_hw \<Rightarrow> vmw_hw option"
where
  "vmw_fifo_slow_copy buffer pos next_cmd fmax fmin bytes h =
     (if bytes = 0 then Some h
      else
        (let h1 = iowrite32 (buffer pos) (unat (next_cmd div 4)) h;
             n1 = next_cmd + 4;
             n2 = (if n1 = fmax then fmin else n1)
         in vmw_fifo_slow_copy buffer (pos + 1) n2 fmax fmin (bytes - 4) (iowrite32 n2 SVGA_FIFO_NEXT_CMD h1)))"

definition vmw_fifo_commit :: "fifo_sys \<Rightarrow> u32 \<Rightarrow> fifo_sys option" where
  "vmw_fifo_commit s bytes =
     (let f = fifo s; h = hw s;
          next_cmd = ioread32 h SVGA_FIFO_NEXT_CMD; fmax = ioread32 h SVGA_FIFO_MAX;
          fmin = ioread32 h SVGA_FIFO_MIN;
          reserveable = fifo_caps f AND SVGA_FIFO_CAP_RESERVE \<noteq> 0
      in if bytes AND 3 \<noteq> 0 \<or> reserved_size f < ucast bytes then None
         else
           (case (if using_bounce_buffer f then
                    if reserveable then Some (vmw_fifo_res_copy (bounce_buffer f) next_cmd fmax fmin bytes h)
                    else vmw_fifo_slow_copy (bounce_buffer f) 0 next_cmd fmax fmin bytes h
                  else Some h) of
              None \<Rightarrow> None
            | Some h1 \<Rightarrow>
                (let f1 = f\<lparr>reserved_size := 0,
                            dynamic_buffer := (if using_bounce_buffer f then None else dynamic_buffer f)\<rparr>;
                     n1 = next_cmd + bytes;
                     n2 = (if fmax \<le> n1 then n1 - (fmax - fmin) else n1);
                     h2 = (if using_bounce_buffer f \<or> reserveable then iowrite32 n2 SVGA_FIFO_NEXT_CMD h1 else h1);
                     h3 = (if reserveable then iowrite32 0 SVGA_FIFO_RESERVED h2 else h2)
                 in Some (s\<lparr>hw := vmw_fifo_ping_host SVGA_SYNC_GENERIC h3, fifo := f1\<lparr>fifo_locked := False\<rparr>\<rparr>))))"

section \<open>The ring as a queue of words\<close>

definition ring_pos :: "nat \<Rightarrow> nat \<Rightarrow> nat \<Rightarrow> nat" where
  "ring_pos lo hi x = (if x < hi then x else x - (hi - lo))"

definition ring_len :: "nat \<Rightarrow> nat \<Rightarrow> nat \<Rightarrow> nat \<Rightarrow> nat" where
  "ring_len lo hi st n = (if st \<le> n then n - st else n + (hi - lo) - st)"

definition ring_data :: "(nat \<Rightarrow> u32) \<Rightarrow> nat \<Rightarrow> nat \<Rightarrow> nat \<Rightarrow> nat \<Rightarrow> u32 list" where
  "ring_data m lo hi st n = map (\<lambda>k. m (ring_pos lo hi (st + k))) [0..<ring_len lo hi st n]"

definition written :: "(nat \<Rightarrow> u32) \<Rightarrow> (nat \<Rightarrow> u32) \<Rightarrow> nat \<Rightarrow> nat \<Rightarrow> nat \<Rightarrow> u32 list \<Rightarrow> bool" where
  "written m' m lo hi n ws \<longleftrightarrow>
     (\<forall>k < length ws. m' (ring_pos lo hi (n + k)) = ws ! k) \<and>
     (\<forall>i. lo \<le> i \<longrightarrow> i < hi \<longrightarrow> (\<forall>k < length ws. i \<noteq> ring_pos lo hi (n + k)) \<longrightarrow> m' i = m i)"

lemma ring_pos_range: "lo \<le> n \<Longrightarrow> n < hi \<Longrightarrow> k \<le> hi - lo \<Longrightarrow> lo \<le> ring_pos lo hi (n + k) \<and> ring_pos lo hi (n + k) < hi"
  by (auto simp: ring_pos_def)

lemma ring_pos_inj:
  "lo \<le> n \<Longrightarrow> n < hi \<Longrightarrow> k < hi - lo \<Longrightarrow> j < hi - lo \<Longrightarrow> ring_pos lo hi (n + k) = ring_pos lo hi (n + j) \<Longrightarrow> k = j"
  by (auto simp: ring_pos_def split: if_splits)

lemma ring_pos_add:
  "lo \<le> n \<Longrightarrow> n < hi \<Longrightarrow> k + j < hi - lo \<Longrightarrow> ring_pos lo hi (ring_pos lo hi (n + k) + j) = ring_pos lo hi (n + (k + j))"
  by (auto simp: ring_pos_def split: if_splits)

lemma ring_next:
  assumes "lo \<le> n" "n < hi" "lo \<le> st" "st < hi"
  shows "ring_pos lo hi (st + ring_len lo hi st n) = n" "ring_len lo hi st n < hi - lo"
  using assms by (auto simp: ring_pos_def ring_len_def)

lemma ring_len_advance:
  assumes "lo \<le> n" "n < hi" "lo \<le> st" "st < hi" "ring_len lo hi st n + l < hi - lo"
  shows "ring_len lo hi st (ring_pos lo hi (n + l)) = ring_len lo hi st n + l"
  using assms by (auto simp: ring_pos_def ring_len_def split: if_splits)

lemma ring_append:
  assumes r: "lo \<le> n" "n < hi" "lo \<le> st" "st < hi"
    and room: "ring_len lo hi st n + length ws < hi - lo" and w: "written m' m lo hi n ws"
  shows "ring_data m' lo hi st (ring_pos lo hi (n + length ws)) = ring_data m lo hi st n @ ws"
proof (rule nth_equalityI)
  show "length (ring_data m' lo hi st (ring_pos lo hi (n + length ws))) = length (ring_data m lo hi st n @ ws)"
    using ring_len_advance [OF r room] by (simp add: ring_data_def)
next
  fix i
  let ?l = "ring_len lo hi st n"
  assume "i < length (ring_data m' lo hi st (ring_pos lo hi (n + length ws)))"
  then have i: "i < ?l + length ws" using ring_len_advance [OF r room] by (simp add: ring_data_def)
  have at: "ring_pos lo hi (n + k) = ring_pos lo hi (st + (?l + k))" if "?l + k < hi - lo" for k
    using ring_pos_add [OF r(3,4) that] ring_next(1) [OF r] by simp
  have lhs: "ring_data m' lo hi st (ring_pos lo hi (n + length ws)) ! i = m' (ring_pos lo hi (st + i))"
    using i ring_len_advance [OF r room] by (simp add: ring_data_def)
  show "ring_data m' lo hi st (ring_pos lo hi (n + length ws)) ! i = (ring_data m lo hi st n @ ws) ! i"
  proof (cases "i < ?l")
    case True
    have "ring_pos lo hi (st + i) \<noteq> ring_pos lo hi (n + k)" if "k < length ws" for k
      using True that room at [of k] ring_pos_inj [OF r(3,4), of i "?l + k"] by auto
    moreover have "lo \<le> ring_pos lo hi (st + i)" "ring_pos lo hi (st + i) < hi"
      using ring_pos_range [OF r(3,4), of i] True room by simp_all
    ultimately have "m' (ring_pos lo hi (st + i)) = m (ring_pos lo hi (st + i))"
      using w by (simp add: written_def)
    with lhs True show ?thesis by (simp add: nth_append ring_data_def)
  next
    case False
    define j where "j = i - ?l"
    with False i have j: "i = ?l + j" "j < length ws" by simp_all
    then have "m' (ring_pos lo hi (n + j)) = ws ! j" using w by (simp add: written_def)
    moreover have "ring_pos lo hi (n + j) = ring_pos lo hi (st + i)" using at [of j] j room by simp
    ultimately have "m' (ring_pos lo hi (st + i)) = ws ! (i - ?l)" by (simp add: j_def)
    with lhs False show ?thesis by (simp add: nth_append ring_data_def)
  qed
qed

lemma written_step:
  assumes "lo \<le> n" "n < hi" "Suc (length ws) < hi - lo"
    and "written m' (m(n := w)) lo hi (ring_pos lo hi (n + 1)) ws"
  shows "written m' m lo hi n (w # ws)"
proof -
  have add: "ring_pos lo hi (ring_pos lo hi (n + 1) + k) = ring_pos lo hi (n + Suc k)" if "k < length ws" for k
    using ring_pos_add [OF assms(1,2), of 1 k] that assms(3) by simp
  have n: "ring_pos lo hi n = n" using assms(2) by (simp add: ring_pos_def)
  have fresh: "n \<noteq> ring_pos lo hi (n + Suc k)" if "k < length ws" for k
  proof
    assume "n = ring_pos lo hi (n + Suc k)"
    then have "ring_pos lo hi (n + 0) = ring_pos lo hi (n + Suc k)" using n by simp
    moreover have "0 < hi - lo" "Suc k < hi - lo" using that assms(3) by linarith+
    ultimately have "0 = Suc k" using ring_pos_inj [OF assms(1,2)] by blast
    then show False by simp
  qed
  have "m' n = w" using assms(1,2,4) add fresh by (simp add: written_def)
  moreover have "m' (ring_pos lo hi (n + Suc k)) = ws ! k" if "k < length ws" for k
  proof -
    have "m' (ring_pos lo hi (ring_pos lo hi (n + 1) + k)) = ws ! k"
      using assms(4) that unfolding written_def by blast
    then show ?thesis by (simp only: add [OF that])
  qed
  ultimately have "\<forall>k < length (w # ws). m' (ring_pos lo hi (n + k)) = (w # ws) ! k"
    using n by (auto simp: less_Suc_eq_0_disj)
  moreover have "m' i = m i"
    if i: "lo \<le> i" "i < hi" "\<forall>k < length (w # ws). i \<noteq> ring_pos lo hi (n + k)" for i
  proof -
    have "i \<noteq> n" using i(3) n by force
    moreover have "\<forall>k < length ws. i \<noteq> ring_pos lo hi (ring_pos lo hi (n + 1) + k)"
      using i(3) add by auto
    ultimately show ?thesis using assms(4) i(1,2) by (simp add: written_def)
  qed
  ultimately show ?thesis by (simp add: written_def)
qed

lemma written_put_words:
  assumes "lo \<le> n" "n + length ws \<le> hi"
  shows "written (put_words n ws m) m lo hi n ws"
proof -
  have pos: "ring_pos lo hi (n + k) = n + k" if "k < length ws" for k
    using that assms by (simp add: ring_pos_def)
  have out: "\<not> (n \<le> i \<and> i < n + length ws)" if "\<forall>k < length ws. i \<noteq> ring_pos lo hi (n + k)" for i
  proof
    assume "n \<le> i \<and> i < n + length ws"
    then have "i = n + (i - n)" "i - n < length ws" by linarith+
    with that pos show False by metis
  qed
  show ?thesis using pos out by (auto simp: written_def put_words_def)
qed

lemma written_cong:
  "(\<And>i. lo \<le> i \<Longrightarrow> i < hi \<Longrightarrow> m i = m2 i) \<Longrightarrow> written m' m lo hi n ws = written m' m2 lo hi n ws"
  by (auto simp: written_def)

lemma ring_data_cong:
  assumes "lo \<le> n" "n < hi" "lo \<le> st" "st < hi" "\<And>i. lo \<le> i \<Longrightarrow> i < hi \<Longrightarrow> m i = m2 i"
  shows "ring_data m lo hi st n = ring_data m2 lo hi st n"
proof -
  have "m (ring_pos lo hi (st + k)) = m2 (ring_pos lo hi (st + k))" if "k < ring_len lo hi st n" for k
    using ring_pos_range [OF assms(3,4), of k] ring_next(2) [OF assms(1-4)] that assms(5) by simp
  then show ?thesis by (simp add: ring_data_def)
qed

lemma ring_data_outside:
  assumes r: "lo \<le> n" "n < hi" "lo \<le> st" "st < hi"
    and room: "ring_len lo hi st n + length ws < hi - lo" and w: "written m' m lo hi n ws"
  shows "ring_data m' lo hi st n = ring_data m lo hi st n"
proof -
  have "m' (ring_pos lo hi (st + i)) = m (ring_pos lo hi (st + i))" if i: "i < ring_len lo hi st n" for i
  proof -
    have "ring_pos lo hi (st + i) \<noteq> ring_pos lo hi (n + k)" if "k < length ws" for k
    proof
      assume eq: "ring_pos lo hi (st + i) = ring_pos lo hi (n + k)"
      have lt: "ring_len lo hi st n + k < hi - lo" "i < hi - lo" using that room i by simp_all
      have "ring_pos lo hi (n + k) = ring_pos lo hi (st + (ring_len lo hi st n + k))"
        using ring_pos_add [OF r(3,4) lt(1)] ring_next(1) [OF r] by simp
      with eq have "i = ring_len lo hi st n + k" using ring_pos_inj [OF r(3,4) lt(2,1)] by simp
      with i show False by simp
    qed
    moreover have "lo \<le> ring_pos lo hi (st + i)" "ring_pos lo hi (st + i) < hi"
      using ring_pos_range [OF r(3,4), of i] i room by simp_all
    ultimately show ?thesis using w by (simp add: written_def)
  qed
  then show ?thesis by (simp add: ring_data_def)
qed

section \<open>The copies fill the ring\<close>

definition ring_ok :: "vmw_hw \<Rightarrow> nat \<Rightarrow> nat \<Rightarrow> nat \<Rightarrow> nat \<Rightarrow> bool" where
  "ring_ok h lo hi st n \<longleftrightarrow>
     unat (fifo_mem h SVGA_FIFO_MIN) = 4 * lo \<and> unat (fifo_mem h SVGA_FIFO_MAX) = 4 * hi \<and>
     unat (fifo_mem h SVGA_FIFO_STOP) = 4 * st \<and> unat (fifo_mem h SVGA_FIFO_NEXT_CMD) = 4 * n \<and>
     1024 \<le> lo \<and> hi < 2 ^ 29 \<and> lo \<le> n \<and> n < hi \<and> lo \<le> st \<and> st < hi"

lemma word_index: "unat (x :: u32) = 4 * n \<Longrightarrow> unat (x div 4) = n"
  by (simp add: unat_div)

lemma next_word:
  assumes "unat (next_cmd :: u32) = 4 * n" "unat (fmax :: u32) = 4 * hi" "unat (fmin :: u32) = 4 * lo"
    and "lo \<le> n" "n < hi" "hi < 2 ^ 29"
  shows "unat (if next_cmd + 4 = fmax then fmin else next_cmd + 4) = 4 * ring_pos lo hi (n + 1)"
proof -
  have u: "unat (next_cmd + 4) = 4 * (n + 1)"
    using assms by (subst unat_add_nowrap) simp_all
  have "next_cmd + 4 = fmax \<longleftrightarrow> n + 1 = hi"
    using u assms(2) by (auto simp: word_unat_eq_iff)
  with u assms show ?thesis by (auto simp: ring_pos_def)
qed

lemma slow_copy_written:
  assumes "unat bytes = 4 * length ws" "unat next_cmd = 4 * n" "unat fmax = 4 * hi" "unat fmin = 4 * lo"
    and "lo \<le> n" "n < hi" "hi < 2 ^ 29" "1024 \<le> lo" "length ws < hi - lo"
    and "\<And>k. k < length ws \<Longrightarrow> buffer (pos + k) = ws ! k"
    and "unat (fifo_mem h SVGA_FIFO_NEXT_CMD) = 4 * n"
  shows "\<exists>m. vmw_fifo_slow_copy buffer pos next_cmd fmax fmin bytes h = Some (h\<lparr>fifo_mem := m\<rparr>) \<and>
    written m (fifo_mem h) lo hi n ws \<and>
    (\<forall>i < lo. i \<noteq> SVGA_FIFO_NEXT_CMD \<longrightarrow> m i = fifo_mem h i)"
  using assms
proof (induction ws arbitrary: pos next_cmd n bytes h)
  case Nil
  then have "bytes = 0" by (simp add: unat_eq_zero)
  then have "vmw_fifo_slow_copy buffer pos next_cmd fmax fmin bytes h = Some h"
    by (simp add: vmw_fifo_slow_copy.simps)
  then show ?case by (intro exI [of _ "fifo_mem h"]) (simp add: written_def)
next
  case (Cons w ws)
  have nz: "bytes \<noteq> 0" using Cons.prems(1) by auto
  let ?n2 = "if next_cmd + 4 = fmax then fmin else next_cmd + 4"
  let ?n' = "ring_pos lo hi (n + 1)"
  let ?h = "iowrite32 ?n2 SVGA_FIFO_NEXT_CMD (iowrite32 w n h)"
  have n2: "unat ?n2 = 4 * ?n'" using next_word Cons.prems(2-7) by blast
  have b: "unat (bytes - 4) = 4 * length ws"
    using Cons.prems(1) by (subst unat_sub_le) simp_all
  have rng: "lo \<le> ?n'" "?n' < hi" using ring_pos_range [of lo n hi 1] Cons.prems(5,6,9) by auto
  have ix: "unat (next_cmd div 4) = n" by (rule word_index [OF Cons.prems(2)])
  have w: "buffer pos = w" using Cons.prems(10) [of 0] by simp
  have run: "vmw_fifo_slow_copy buffer pos next_cmd fmax fmin bytes h =
      vmw_fifo_slow_copy buffer (pos + 1) ?n2 fmax fmin (bytes - 4) ?h"
    using nz ix w by (subst vmw_fifo_slow_copy.simps) (simp add: Let_def)
  have buf: "buffer (pos + 1 + k) = ws ! k" if "k < length ws" for k
    using Cons.prems(10) [of "Suc k"] that by simp
  have len: "length ws < hi - lo" using Cons.prems(9) by simp
  have nx: "unat (fifo_mem ?h SVGA_FIFO_NEXT_CMD) = 4 * ?n'" using n2 by simp
  from Cons.IH [OF b n2 Cons.prems(3,4) rng Cons.prems(7,8) len buf nx]
  obtain m where m: "vmw_fifo_slow_copy buffer (pos + 1) ?n2 fmax fmin (bytes - 4) ?h = Some (?h\<lparr>fifo_mem := m\<rparr>)"
    "written m (fifo_mem ?h) lo hi ?n' ws" "\<forall>i < lo. i \<noteq> SVGA_FIFO_NEXT_CMD \<longrightarrow> m i = fifo_mem ?h i" by blast
  have "written m ((fifo_mem h)(n := w)) lo hi ?n' ws"
  proof -
    have "((fifo_mem h)(n := w)) i = fifo_mem ?h i" if "lo \<le> i" "i < hi" for i
      using that Cons.prems(8) by (simp add: fifo_regs)
    with m(2) show ?thesis by (subst written_cong)
  qed
  then have "written m (fifo_mem h) lo hi n (w # ws)"
    using written_step Cons.prems(5,6,9) by simp
  moreover have "\<forall>i < lo. i \<noteq> SVGA_FIFO_NEXT_CMD \<longrightarrow> m i = fifo_mem h i"
    using m(3) Cons.prems(5) by simp
  moreover have "?h\<lparr>fifo_mem := m\<rparr> = h\<lparr>fifo_mem := m\<rparr>" by (simp add: iowrite32_def)
  ultimately show ?case using run m(1) by auto
qed

lemma memcpy_words: "memcpy_toio dst src (4 * c) m = put_words dst (map src [0..<c]) m"
  by (auto simp: memcpy_toio_def put_words_def fun_eq_iff)

lemma written_chunks:
  assumes "lo \<le> n" "n < hi" "length ws < hi - lo"
  shows "written (put_words lo (drop (hi - n) ws) (put_words n (take (hi - n) ws) m)) m lo hi n ws"
proof (cases "length ws \<le> hi - n")
  case True
  then have "put_words lo (drop (hi - n) ws) (put_words n (take (hi - n) ws) m) = put_words n ws m"
    by (auto simp: put_words_def fun_eq_iff)
  with True assms written_put_words [of lo n ws hi m] show ?thesis by simp
next
  case False
  let ?m = "put_words lo (drop (hi - n) ws) (put_words n (take (hi - n) ws) m)"
  have a: "?m (ring_pos lo hi (n + k)) = ws ! k" if k: "k < length ws" for k
  proof (cases "n + k < hi")
    case True
    then have "k < hi - n" "\<not> n + k < lo + (length ws - (hi - n))" using k False assms by linarith+
    with True show ?thesis using k by (auto simp: ring_pos_def put_words_def)
  next
    case wrap: False
    then have "n + k - (hi - lo) - lo = k - (hi - n)" "hi - n + (k - (hi - n)) = k"
      "lo \<le> n + k - (hi - lo)" "n + k - (hi - lo) < lo + (length ws - (hi - n))"
      "hi - n \<le> length ws" using k assms False by linarith+
    with wrap show ?thesis by (simp add: ring_pos_def put_words_def)
  qed
  have b: "?m i = m i" if i: "lo \<le> i" "i < hi" "\<forall>k < length ws. i \<noteq> ring_pos lo hi (n + k)" for i
  proof -
    have "\<not> n \<le> i"
    proof
      assume "n \<le> i"
      then have "i - n < length ws" "n + (i - n) = i" using i(2) False by linarith+
      with i(2,3) show False by (metis ring_pos_def)
    qed
    moreover have "\<not> i < lo + (length ws - (hi - n))"
    proof
      assume "i < lo + (length ws - (hi - n))"
      then have "i + (hi - lo) - n < length ws" "\<not> n + (i + (hi - lo) - n) < hi"
        "n + (i + (hi - lo) - n) - (hi - lo) = i" using i(1) assms False by linarith+
      with i(3) show False by (metis ring_pos_def)
    qed
    ultimately show ?thesis by (simp add: put_words_def)
  qed
  from a b show ?thesis by (simp add: written_def)
qed

lemma res_copy_written:
  assumes b: "unat bytes = 4 * length ws" and regs: "unat next_cmd = 4 * n" "unat fmax = 4 * hi" "unat fmin = 4 * lo"
    and r: "lo \<le> n" "n < hi" "1024 \<le> lo" "length ws < hi - lo"
    and buf: "\<And>k. k < length ws \<Longrightarrow> buffer k = ws ! k"
  shows "\<exists>m. vmw_fifo_res_copy buffer next_cmd fmax fmin bytes h = h\<lparr>fifo_mem := m\<rparr> \<and>
    written m (fifo_mem h) lo hi n ws \<and> (\<forall>i < lo. i \<noteq> SVGA_FIFO_RESERVED \<longrightarrow> m i = fifo_mem h i)"
proof -
  let ?c = "if bytes < fmax - next_cmd then bytes else fmax - next_cmd"
  let ?m0 = "(fifo_mem h)(SVGA_FIFO_RESERVED := bytes)"
  have room: "unat (fmax - next_cmd) = 4 * (hi - n)"
    using regs r by (subst unat_sub_le) simp_all
  have c: "unat ?c = 4 * length (take (hi - n) ws)"
    using b room by (auto simp: word_less_nat_alt)
  have rest: "unat (bytes - ?c) = 4 * length (drop (hi - n) ws)"
    using b c by (subst unat_sub_le) auto
  have first: "memcpy_toio (unat (next_cmd div 4)) buffer (unat ?c) ?m0 = put_words n (take (hi - n) ws) ?m0"
  proof -
    have "map buffer [0..<length (take (hi - n) ws)] = take (hi - n) ws"
      using buf by (intro nth_equalityI) simp_all
    then show ?thesis by (simp only: c memcpy_words word_index [OF regs(1)])
  qed
  let ?m1 = "put_words n (take (hi - n) ws) ?m0"
  let ?m2 = "put_words lo (drop (hi - n) ws) ?m1"
  have second: "memcpy_toio (unat (fmin div 4)) (\<lambda>i. buffer (i + unat (?c div 4))) (unat (bytes - ?c)) ?m1 = ?m2"
    if "bytes - ?c \<noteq> 0"
  proof -
    have ne: "hi - n < length ws" using rest that by (auto simp: word_unat_eq_iff)
    then have cc: "unat (?c div 4) = hi - n" using word_index [OF c] by simp
    have "map (\<lambda>i. buffer (i + (hi - n))) [0..<length (drop (hi - n) ws)] = drop (hi - n) ws"
      using buf ne by (intro nth_equalityI) (simp_all add: add.commute)
    then show ?thesis by (simp only: rest memcpy_words word_index [OF regs(3)] cc)
  qed
  have none: "?m2 = ?m1" if "bytes - ?c = 0"
  proof -
    have "drop (hi - n) ws = []" using rest that by simp
    then show ?thesis by (auto simp: put_words_def fun_eq_iff)
  qed
  have "vmw_fifo_res_copy buffer next_cmd fmax fmin bytes h = h\<lparr>fifo_mem := ?m2\<rparr>"
  proof (cases "bytes - ?c = 0")
    case True
    show ?thesis unfolding vmw_fifo_res_copy_def Let_def mem_simps first none [OF True] using True
      by (simp add: iowrite32_def)
  next
    case False
    have "fifo_mem ((iowrite32 bytes SVGA_FIFO_RESERVED h)\<lparr>fifo_mem := ?m1\<rparr>) = ?m1" by simp
    then show ?thesis unfolding vmw_fifo_res_copy_def Let_def mem_simps first using False second [OF False]
      by (simp add: iowrite32_def)
  qed
  moreover have "written ?m2 (fifo_mem h) lo hi n ws"
  proof -
    have "?m0 i = fifo_mem h i" if "lo \<le> i" for i using that r(3) by (simp add: fifo_regs)
    with written_chunks [OF r(1,2,4), of ?m0] show ?thesis by (subst written_cong [where ?m2.0 = ?m0]) simp_all
  qed
  moreover have "\<forall>i < lo. i \<noteq> SVGA_FIFO_RESERVED \<longrightarrow> ?m2 i = fifo_mem h i"
    using r(1) by (simp add: put_words_def)
  ultimately show ?thesis by blast
qed

section \<open>Committing appends to the queue\<close>

definition fifo_data :: "vmw_hw \<Rightarrow> u32 list" where
  "fifo_data h =
     ring_data (fifo_mem h) (unat (fifo_mem h SVGA_FIFO_MIN) div 4) (unat (fifo_mem h SVGA_FIFO_MAX) div 4)
       (unat (fifo_mem h SVGA_FIFO_STOP) div 4) (unat (fifo_mem h SVGA_FIFO_NEXT_CMD) div 4)"

lemma fifo_data_ring: "ring_ok h lo hi st n \<Longrightarrow> fifo_data h = ring_data (fifo_mem h) lo hi st n"
  by (simp add: fifo_data_def ring_ok_def)

lemma low_bits_zero: "unat (x :: u32) = 4 * k \<Longrightarrow> x AND 3 = 0"
proof -
  assume "unat x = 4 * k"
  then have "unat (take_bit 2 x) = 0" by (simp add: take_bit_eq_mod unat_mod)
  then have "take_bit 2 x = 0" by (simp add: unat_eq_zero)
  moreover have "(3 :: u32) = mask 2" by (simp add: mask_eq_exp_minus_1)
  ultimately show ?thesis by (simp only: flip: take_bit_eq_mask)
qed

lemma commit_ring:
  assumes ok: "ring_ok (hw s) lo hi st n"
    and bytes: "unat bytes = 4 * length ws" "ucast bytes \<le> reserved_size (fifo s)"
    and room: "ring_len lo hi st n + length ws < hi - lo"
    and bounce: "using_bounce_buffer (fifo s) \<Longrightarrow> \<forall>k < length ws. bounce_buffer (fifo s) k = ws ! k"
    and direct: "\<not> using_bounce_buffer (fifo s) \<Longrightarrow> fifo_caps (fifo s) AND SVGA_FIFO_CAP_RESERVE \<noteq> 0 \<and>
      (\<forall>k < length ws. fifo_mem (hw s) (ring_pos lo hi (n + k)) = ws ! k)"
  shows "\<exists>s'. vmw_fifo_commit s bytes = Some s' \<and> ring_ok (hw s') lo hi st (ring_pos lo hi (n + length ws)) \<and>
    fifo_data (hw s') = fifo_data (hw s) @ ws \<and> \<not> fifo_locked (fifo s') \<and> reserved_size (fifo s') = 0 \<and>
    (using_bounce_buffer (fifo s) \<longrightarrow> dynamic_buffer (fifo s') = None) \<and>
    (\<not> using_bounce_buffer (fifo s) \<longrightarrow> dynamic_buffer (fifo s') = dynamic_buffer (fifo s)) \<and>
    static_buffer (fifo s') = static_buffer (fifo s) \<and> fifo_caps (fifo s') = fifo_caps (fifo s)"
proof -
  let ?h = "hw s" and ?f = "fifo s"
  let ?nx = "fifo_mem ?h SVGA_FIFO_NEXT_CMD" and ?mx = "fifo_mem ?h SVGA_FIFO_MAX" and ?mn = "fifo_mem ?h SVGA_FIFO_MIN"
  let ?res = "fifo_caps ?f AND SVGA_FIFO_CAP_RESERVE \<noteq> 0"
  have regs: "unat ?nx = 4 * n" "unat ?mx = 4 * hi" "unat ?mn = 4 * lo" "unat (fifo_mem ?h SVGA_FIFO_STOP) = 4 * st"
    and r: "lo \<le> n" "n < hi" "lo \<le> st" "st < hi" and lim: "hi < 2 ^ 29" "1024 \<le> lo"
    using ok by (simp_all add: ring_ok_def)
  have len: "length ws < hi - lo" using room by simp
  have copy: "\<exists>m. (if using_bounce_buffer ?f then
        if ?res then Some (vmw_fifo_res_copy (bounce_buffer ?f) ?nx ?mx ?mn bytes ?h)
        else vmw_fifo_slow_copy (bounce_buffer ?f) 0 ?nx ?mx ?mn bytes ?h
      else Some ?h) = Some (?h\<lparr>fifo_mem := m\<rparr>) \<and> written m (fifo_mem ?h) lo hi n ws \<and>
      (\<forall>i < lo. i \<noteq> SVGA_FIFO_NEXT_CMD \<longrightarrow> i \<noteq> SVGA_FIFO_RESERVED \<longrightarrow> m i = fifo_mem ?h i)"
  proof (cases "using_bounce_buffer ?f")
    case True
    show ?thesis
    proof (cases ?res)
      case res: True
      obtain m where "vmw_fifo_res_copy (bounce_buffer ?f) ?nx ?mx ?mn bytes ?h = ?h\<lparr>fifo_mem := m\<rparr>"
        "written m (fifo_mem ?h) lo hi n ws" "\<forall>i < lo. i \<noteq> SVGA_FIFO_RESERVED \<longrightarrow> m i = fifo_mem ?h i"
        using res_copy_written [OF bytes(1) regs(1-3) r(1,2) lim(2) len, of "bounce_buffer ?f" ?h]
          bounce [OF True] by blast
      with True res show ?thesis by auto
    next
      case False
      have "\<And>k. k < length ws \<Longrightarrow> bounce_buffer ?f (0 + k) = ws ! k" using bounce [OF True] by simp
      from slow_copy_written [OF bytes(1) regs(1-3) r(1,2) lim len this regs(1)]
      obtain m where "vmw_fifo_slow_copy (bounce_buffer ?f) 0 ?nx ?mx ?mn bytes ?h = Some (?h\<lparr>fifo_mem := m\<rparr>)"
        "written m (fifo_mem ?h) lo hi n ws" "\<forall>i < lo. i \<noteq> SVGA_FIFO_NEXT_CMD \<longrightarrow> m i = fifo_mem ?h i" by blast
      with True False show ?thesis by auto
    qed
  next
    case False
    then have "written (fifo_mem ?h) (fifo_mem ?h) lo hi n ws" using direct by (simp add: written_def)
    with False show ?thesis by (intro exI [of _ "fifo_mem ?h"]) simp
  qed
  then obtain m where m: "(if using_bounce_buffer ?f then
        if ?res then Some (vmw_fifo_res_copy (bounce_buffer ?f) ?nx ?mx ?mn bytes ?h)
        else vmw_fifo_slow_copy (bounce_buffer ?f) 0 ?nx ?mx ?mn bytes ?h
      else Some ?h) = Some (?h\<lparr>fifo_mem := m\<rparr>)" and wr: "written m (fifo_mem ?h) lo hi n ws"
    and keep: "\<forall>i < lo. i \<noteq> SVGA_FIFO_NEXT_CMD \<longrightarrow> i \<noteq> SVGA_FIFO_RESERVED \<longrightarrow> m i = fifo_mem ?h i" by blast
  define n1 where "n1 = ?nx + bytes"
  define n2 where "n2 = (if ?mx \<le> n1 then n1 - (?mx - ?mn) else n1)"
  have n1: "unat n1 = 4 * (n + length ws)"
    using regs bytes(1) r lim len unfolding n1_def by (subst unat_add_nowrap) simp_all
  have span: "unat (?mx - ?mn) = 4 * (hi - lo)" using regs r by (subst unat_sub_le) simp_all
  have n2: "unat n2 = 4 * ring_pos lo hi (n + length ws)"
  proof (cases "hi \<le> n + length ws")
    case True
    then have "?mx \<le> n1" using n1 regs(2) by (simp add: word_le_nat_alt)
    moreover have "unat (n1 - (?mx - ?mn)) = 4 * (n + length ws) - 4 * (hi - lo)"
      using True n1 span r by (subst unat_sub_le) simp_all
    ultimately show ?thesis using True by (simp add: n2_def ring_pos_def)
  next
    case False
    then have "\<not> ?mx \<le> n1" using n1 regs(2) by (simp add: word_le_nat_alt)
    with False n1 show ?thesis by (simp add: n2_def ring_pos_def)
  qed
  define h2 where "h2 = (if using_bounce_buffer ?f \<or> ?res then iowrite32 n2 SVGA_FIFO_NEXT_CMD (?h\<lparr>fifo_mem := m\<rparr>) else ?h\<lparr>fifo_mem := m\<rparr>)"
  define h3 where "h3 = vmw_fifo_ping_host SVGA_SYNC_GENERIC (if ?res then iowrite32 0 SVGA_FIFO_RESERVED h2 else h2)"
  have upd: "using_bounce_buffer ?f \<or> ?res" using direct by blast
  have h3_mem: "fifo_mem h3 i = (if i = SVGA_FIFO_NEXT_CMD then n2 else m i)"
    if "i \<noteq> SVGA_FIFO_RESERVED" "i \<noteq> SVGA_FIFO_BUSY" for i
    using that upd by (auto simp: h3_def h2_def ping_mem)
  have run: "vmw_fifo_commit s bytes = Some (s\<lparr>hw := h3, fifo := ?f\<lparr>reserved_size := 0,
      dynamic_buffer := (if using_bounce_buffer ?f then None else dynamic_buffer ?f), fifo_locked := False\<rparr>\<rparr>)"
    using low_bits_zero [OF bytes(1)] bytes(2) m
    by (simp add: vmw_fifo_commit_def Let_def ioread32_def not_less h3_def h2_def n2_def n1_def)
  have ok': "ring_ok h3 lo hi st (ring_pos lo hi (n + length ws))"
    using h3_mem keep regs lim r n2 ring_pos_range [OF r(1,2), of "length ws"] len
    by (simp add: ring_ok_def fifo_regs)
  have same: "fifo_mem h3 i = m i" if "lo \<le> i" for i
    using h3_mem [of i] that lim(2) by (simp add: fifo_regs)
  have rp: "lo \<le> ring_pos lo hi (n + length ws)" "ring_pos lo hi (n + length ws) < hi"
    using ring_pos_range [OF r(1,2), of "length ws"] len by simp_all
  have "fifo_data h3 = ring_data m lo hi st (ring_pos lo hi (n + length ws))"
    unfolding fifo_data_ring [OF ok'] by (rule ring_data_cong [OF rp r(3,4)]) (rule same)
  also have "\<dots> = fifo_data ?h @ ws"
    unfolding fifo_data_ring [OF ok] by (rule ring_append [OF r room wr])
  finally have "fifo_data h3 = fifo_data ?h @ ws" .
  with run ok' show ?thesis by simp
qed

section \<open>Reserving leaves room\<close>

definition stop_valid :: "nat \<Rightarrow> nat \<Rightarrow> u32 \<Rightarrow> bool" where
  "stop_valid lo hi s \<longleftrightarrow> (\<exists>st. unat s = 4 * st \<and> lo \<le> st \<and> st < hi)"

definition env_valid :: "nat \<Rightarrow> nat \<Rightarrow> fifo_round \<Rightarrow> bool" where
  "env_valid lo hi r \<longleftrightarrow> stop_valid lo hi (round_stop r) \<and>
     (\<forall>p \<in> set (wait_polls (round_env r)). stop_valid lo hi (poll_stop p))"

lemma ring_ok_mem:
  "ring_ok h lo hi st n \<Longrightarrow> (\<And>i. i \<in> {SVGA_FIFO_MIN, SVGA_FIFO_MAX, SVGA_FIFO_NEXT_CMD, SVGA_FIFO_STOP} \<Longrightarrow> fifo_mem h' i = fifo_mem h i) \<Longrightarrow> ring_ok h' lo hi st n"
  by (simp add: ring_ok_def)

lemma ring_ok_stop:
  assumes "ring_ok h lo hi st n" "stop_valid lo hi s"
  obtains st' where "ring_ok (device_stop s h) lo hi st' n" "unat s = 4 * st'"
  using assms by (fastforce simp: stop_valid_def ring_ok_def device_stop_def fifo_regs)

lemma ring_ok_ping: "ring_ok h lo hi st n \<Longrightarrow> ring_ok (vmw_fifo_ping_host r h) lo hi st n"
  by (erule ring_ok_mem) (auto simp: ping_mem fifo_regs)

lemma wait_noirq_ring:
  "vmw_fifo_wait_noirq h bytes intr e ps = Returns (h', r) \<Longrightarrow> ring_ok h lo hi st n \<Longrightarrow>
     \<forall>p \<in> set ps. stop_valid lo hi (poll_stop p) \<Longrightarrow> \<exists>st'. ring_ok h' lo hi st' n"
proof (induction h bytes intr e ps arbitrary: st rule: vmw_fifo_wait_noirq.induct)
  case (2 h bytes intr e p ps)
  obtain st' where ok: "ring_ok (device_stop (poll_stop p) h) lo hi st' n"
    using ring_ok_stop [OF 2(3), of "poll_stop p"] 2(4) by auto
  let ?h = "device_stop (poll_stop p) h"
  consider "h' = ?h" | "vmw_fifo_wait_noirq ?h bytes intr e ps = Returns (h', r)"
    "vmw_fifo_is_full ?h bytes" "\<not> time_after_eq (poll_jiffies p) e" "\<not> (intr \<and> poll_signal p)"
    using 2(2) by (auto simp: Let_def split: if_splits)
  then show ?case
  proof cases
    case 1
    with ok show ?thesis by blast
  next
    case 2
    with "2.IH" [OF refl] ok "2.prems"(3) show ?thesis by auto
  qed
qed simp

lemma wait_ring:
  assumes "vmw_fifo_wait h bytes intr tm env = Returns (h', r)" "ring_ok h lo hi st n"
    "\<forall>p \<in> set (wait_polls env). stop_valid lo hi (poll_stop p)"
  shows "\<exists>st'. ring_ok h' lo hi st' n"
proof (cases "vmw_fifo_is_full h bytes")
  case False
  with assms show ?thesis by (auto simp: vmw_fifo_wait_def)
next
  case full: True
  let ?h = "vmw_fifo_ping_host SVGA_SYNC_FIFOFULL h"
  have ok: "ring_ok ?h lo hi st n" by (rule ring_ok_ping [OF assms(2)])
  show ?thesis
  proof (cases "hw_caps ?h AND SVGA_CAP_IRQMASK = 0")
    case True
    with full assms(1) have "vmw_fifo_wait_noirq ?h bytes intr (wait_jiffies env + tm) (wait_polls env) = Returns (h', r)"
      by (simp add: vmw_fifo_wait_def)
    from wait_noirq_ring [OF this ok assms(3)] show ?thesis .
  next
    case False
    with full assms(1) have "fifo_mem h' = fifo_mem ?h"
      by (auto simp: vmw_fifo_wait_def Let_def irq_enable_def irq_disable_def)
    with ok have "ring_ok h' lo hi st n" by (simp add: ring_ok_def)
    then show ?thesis by blast
  qed
qed

lemma full_iff:
  assumes ok: "ring_ok h lo hi st n" and b: "unat bytes = 4 * len"
  shows "vmw_fifo_is_full h bytes \<longleftrightarrow> (hi - n) + (st - lo) \<le> len"
proof -
  have a: "unat (fifo_mem h SVGA_FIFO_MAX - fifo_mem h SVGA_FIFO_NEXT_CMD) = 4 * (hi - n)"
    "unat (fifo_mem h SVGA_FIFO_STOP - fifo_mem h SVGA_FIFO_MIN) = 4 * (st - lo)"
    using ok by (simp_all add: ring_ok_def unat_sub_le)
  have "hi - n \<le> hi" "st - lo \<le> st" "st < hi" "hi < 536870912" using ok by (simp_all add: ring_ok_def)
  then have "4 * (hi - n) + 4 * (st - lo) < 4294967296" by linarith
  then have "unat ((fifo_mem h SVGA_FIFO_MAX - fifo_mem h SVGA_FIFO_NEXT_CMD) +
      (fifo_mem h SVGA_FIFO_STOP - fifo_mem h SVGA_FIFO_MIN)) = 4 * (hi - n) + 4 * (st - lo)"
    using a by (subst unat_add_nowrap) simp_all
  moreover have "4 * (hi - n) + 4 * (st - lo) \<le> 4 * len \<longleftrightarrow> (hi - n) + (st - lo) \<le> len" by linarith
  ultimately show ?thesis using b by (simp add: vmw_fifo_is_full_def Let_def ioread32_def word_le_nat_alt)
qed

text \<open>What a successful reservation of \<open>len\<close> words promises.\<close>

definition reserved :: "nat \<Rightarrow> nat \<Rightarrow> nat \<Rightarrow> nat \<Rightarrow> vmw_fifo_state \<Rightarrow> fifo_sys \<Rightarrow> fifo_ptr \<Rightarrow> bool" where
  "reserved lo hi n len f s p \<longleftrightarrow>
     (\<exists>st. ring_ok (hw s) lo hi st n \<and> ring_len lo hi st n + len < hi - lo) \<and>
     (case p of
        Fifo_in_place i \<Rightarrow> i = n \<and> n + len \<le> hi \<and> fifo s = f\<lparr>using_bounce_buffer := False\<rparr> \<and>
          (fifo_caps f AND SVGA_FIFO_CAP_RESERVE \<noteq> 0 \<or> len \<le> 1)
      | Fifo_static \<Rightarrow> fifo s = f\<lparr>using_bounce_buffer := True\<rparr>
      | Fifo_dynamic \<Rightarrow> \<exists>b. fifo s = f\<lparr>using_bounce_buffer := True, dynamic_buffer := Some b\<rparr>)"

lemma bounce_reserved:
  assumes "fifo_bounce s bytes dyn = (s', Some p)" "ring_ok (hw s) lo hi st n"
    "ring_len lo hi st n + len < hi - lo"
  shows "reserved lo hi n len (fifo s) s' p"
  using assms by (auto simp: fifo_bounce_def reserved_def Let_def split: if_splits option.splits)

lemma reserve_loop_reserved:
  assumes "reserve_loop hz s bytes fmax fmin next_cmd dyn rs = Returns (s', Some p)"
    and "ring_ok (hw s) lo hi st0 n" and "unat bytes = 4 * len" "len < hi - lo"
    and "unat fmax = 4 * hi" "unat fmin = 4 * lo" "unat next_cmd = 4 * n"
    and "\<forall>r \<in> set rs. env_valid lo hi r"
  shows "reserved lo hi n len (fifo s) s' p"
  using assms
proof (induction rs arbitrary: s st0)
  case (Cons r rs)
  let ?stop = "round_stop r" and ?h = "device_stop (round_stop r) (hw s)"
  let ?s1 = "s\<lparr>hw := ?h\<rparr>"
  let ?res = "fifo_caps (fifo s) AND SVGA_FIFO_CAP_RESERVE \<noteq> 0"
  obtain st where ok: "ring_ok ?h lo hi st n" and st: "unat ?stop = 4 * st"
    using ring_ok_stop [OF Cons.prems(2), of ?stop] Cons.prems(8) by (auto simp: env_valid_def)
  have r: "lo \<le> n" "n < hi" "lo \<le> st" "st < hi" "hi < 2 ^ 29" using ok by (simp_all add: ring_ok_def)
  have nb: "unat (next_cmd + bytes) = 4 * (n + len)"
    using Cons.prems(3,4,7) r by (subst unat_add_nowrap) simp_all
  have cmp: "?stop \<le> next_cmd \<longleftrightarrow> st \<le> n" "next_cmd + bytes < fmax \<longleftrightarrow> n + len < hi"
    "next_cmd + bytes = fmax \<longleftrightarrow> n + len = hi" "fmin < ?stop \<longleftrightarrow> lo < st" "next_cmd + bytes < ?stop \<longleftrightarrow> n + len < st"
    using nb st Cons.prems(5,6,7) by (auto simp: word_le_nat_alt word_less_nat_alt word_unat_eq_iff)
  define ip where "ip = (if st \<le> n then n + len < hi \<or> n + len = hi \<and> lo < st else n + len < st)"
  have ip_room: "ip \<Longrightarrow> ring_len lo hi st n + len < hi - lo \<and> n + len \<le> hi"
    using r by (auto simp: ip_def ring_len_def split: if_splits)
  have full_room: "st \<le> n \<Longrightarrow> \<not> vmw_fifo_is_full ?h bytes \<Longrightarrow> ring_len lo hi st n + len < hi - lo"
    using full_iff [OF ok Cons.prems(3)] r by (auto simp: ring_len_def)
  have small: "bytes \<le> 4 \<Longrightarrow> len \<le> 1" using Cons.prems(3) by (simp add: word_le_nat_alt)
  have unfold: "reserve_loop hz s bytes fmax fmin next_cmd dyn (r # rs) =
      (if ip then
         (if ?res \<or> bytes \<le> 4 then
            Returns (?s1\<lparr>hw := (if ?res then iowrite32 bytes SVGA_FIFO_RESERVED ?h else ?h),
                          fifo := (fifo s)\<lparr>using_bounce_buffer := False\<rparr>\<rparr>, Some (Fifo_in_place (unat (next_cmd div 4))))
          else Returns (fifo_bounce ?s1 bytes dyn))
       else if st \<le> n \<and> \<not> vmw_fifo_is_full ?h bytes then Returns (fifo_bounce ?s1 bytes dyn)
       else
         (case vmw_fifo_wait ?h bytes False (HZ3 hz) (round_env r) of
            Returns (h2, Inr _) \<Rightarrow> reserve_loop hz (?s1\<lparr>hw := h2\<rparr>) bytes fmax fmin next_cmd dyn rs
          | Returns (h2, Inl _) \<Rightarrow> Returns (fifo_fail (?s1\<lparr>hw := h2\<rparr>))
          | Bugs \<Rightarrow> Bugs
          | Waits \<Rightarrow> Waits))"
    by (simp add: Let_def cmp ip_def)
  show ?case
  proof (cases ip)
    case True
    show ?thesis
    proof (cases "?res \<or> bytes \<le> 4")
      case direct: True
      let ?h2 = "if ?res then iowrite32 bytes SVGA_FIFO_RESERVED ?h else ?h"
      have "s' = ?s1\<lparr>hw := ?h2, fifo := (fifo s)\<lparr>using_bounce_buffer := False\<rparr>\<rparr>"
        "p = Fifo_in_place n"
        using Cons.prems(1) True direct word_index [OF Cons.prems(7)] by (simp_all add: unfold del: reserve_loop.simps)
      moreover have "ring_ok ?h2 lo hi st n" using ok by (auto simp: ring_ok_def fifo_regs)
      ultimately show ?thesis using ip_room [OF True] direct small by (auto simp: reserved_def)
    next
      case False
      then have "fifo_bounce ?s1 bytes dyn = (s', Some p)"
        using Cons.prems(1) True by (simp add: unfold del: reserve_loop.simps)
      from bounce_reserved [OF this] ok ip_room [OF True] show ?thesis by simp
    qed
  next
    case no_ip: False
    show ?thesis
    proof (cases "st \<le> n \<and> \<not> vmw_fifo_is_full ?h bytes")
      case True
      then have "fifo_bounce ?s1 bytes dyn = (s', Some p)"
        using Cons.prems(1) no_ip by (simp add: unfold del: reserve_loop.simps)
      from bounce_reserved [OF this] ok full_room True show ?thesis by simp
    next
      case False
      then obtain h2 u where w: "vmw_fifo_wait ?h bytes False (HZ3 hz) (round_env r) = Returns (h2, Inr u)"
        and rec: "reserve_loop hz (?s1\<lparr>hw := h2\<rparr>) bytes fmax fmin next_cmd dyn rs = Returns (s', Some p)"
        using Cons.prems(1) no_ip
        by (auto simp: unfold fifo_fail_def simp del: reserve_loop.simps split: run.splits prod.splits sum.splits)
      have "\<forall>q \<in> set (wait_polls (round_env r)). stop_valid lo hi (poll_stop q)"
        using Cons.prems(8) by (simp add: env_valid_def)
      from wait_ring [OF w ok this] obtain st' where "ring_ok h2 lo hi st' n" by blast
      then have "ring_ok (hw (?s1\<lparr>hw := h2\<rparr>)) lo hi st' n" by simp
      from Cons.IH [OF rec this Cons.prems(3-7)] Cons.prems(8) show ?thesis by simp
    qed
  qed
qed simp

lemma reserve_reserved:
  assumes run: "vmw_fifo_reserve hz s bytes dyn rs = Returns (s1, Some p)"
    and ok: "ring_ok (hw s) lo hi st n" and b: "unat bytes = 4 * len"
    and env: "\<forall>r \<in> set rs. env_valid lo hi r"
  shows "reserved lo hi n len ((fifo s)\<lparr>fifo_locked := True, reserved_size := ucast bytes\<rparr>) s1 p"
    "dynamic_buffer (fifo s) = None"
proof -
  let ?mx = "fifo_mem (hw s) SVGA_FIFO_MAX" and ?mn = "fifo_mem (hw s) SVGA_FIFO_MIN"
    and ?nx = "fifo_mem (hw s) SVGA_FIFO_NEXT_CMD"
  let ?s = "s\<lparr>fifo := (fifo s)\<lparr>fifo_locked := True, reserved_size := ucast bytes\<rparr>\<rparr>"
  have loop: "reserve_loop hz ?s bytes ?mx ?mn ?nx dyn rs = Returns (s1, Some p)"
    and big: "\<not> ?mx - ?mn \<le> bytes" and dyn: "dynamic_buffer (fifo s) = None"
    using run by (auto simp: vmw_fifo_reserve_def Let_def ioread32_def fifo_fail_def split: if_splits)
  have regs: "unat ?mx = 4 * hi" "unat ?mn = 4 * lo" "unat ?nx = 4 * n" "lo \<le> hi"
    using ok by (simp_all add: ring_ok_def)
  have "unat (?mx - ?mn) = 4 * (hi - lo)" using regs by (subst unat_sub_le) simp_all
  then have len: "len < hi - lo" using big b by (simp add: word_le_nat_alt)
  have "ring_ok (hw ?s) lo hi st n" using ok by simp
  from reserve_loop_reserved [OF loop this b len regs(1-3) env]
  show "reserved lo hi n len ((fifo s)\<lparr>fifo_locked := True, reserved_size := ucast bytes\<rparr>) s1 p" by simp
  show "dynamic_buffer (fifo s) = None" by (rule dyn)
qed

lemma vmw_fifo_submit_core:
  assumes run: "vmw_fifo_reserve hz s bytes dyn rs = Returns (s1, Some p)"
    and ok: "ring_ok (hw s) lo hi st n" and b: "unat bytes = 4 * length ws"
    and env: "\<forall>r \<in> set rs. env_valid lo hi r" and static: "static_buffer (fifo s) \<noteq> None"
    and cap: "fifo_caps (fifo s) AND SVGA_FIFO_CAP_RESERVE \<noteq> 0 \<or> 1 < length ws"
  shows "\<exists>s' st'. vmw_fifo_commit (fifo_write p ws s1) bytes = Some s' \<and>
    fifo_data (hw s') = fifo_data (hw s1) @ ws \<and>
    ring_ok (hw s') lo hi st' (ring_pos lo hi (n + length ws)) \<and>
    \<not> fifo_locked (fifo s') \<and> reserved_size (fifo s') = 0 \<and> dynamic_buffer (fifo s') = None"
proof -
  let ?f = "(fifo s)\<lparr>fifo_locked := True, reserved_size := ucast bytes\<rparr>"
  let ?s2 = "fifo_write p ws s1"
  have res: "reserved lo hi n (length ws) ?f s1 p" and dyn: "dynamic_buffer (fifo s) = None"
    using reserve_reserved [OF run ok b env] by simp_all
  then obtain st' where ok1: "ring_ok (hw s1) lo hi st' n" and room: "ring_len lo hi st' n + length ws < hi - lo"
    by (auto simp: reserved_def)
  have r: "lo \<le> n" "n < hi" "lo \<le> st'" "st' < hi" "1024 \<le> lo" using ok1 by (simp_all add: ring_ok_def)
  have f2: "reserved_size (fifo ?s2) = ucast bytes"
    using res by (auto simp: fifo_write_def reserved_def split: fifo_ptr.splits)
  have written_or: "(using_bounce_buffer (fifo ?s2) \<longrightarrow> (\<forall>k < length ws. bounce_buffer (fifo ?s2) k = ws ! k) \<and> hw ?s2 = hw s1) \<and>
      (\<not> using_bounce_buffer (fifo ?s2) \<longrightarrow> fifo_caps (fifo ?s2) AND SVGA_FIFO_CAP_RESERVE \<noteq> 0 \<and>
         n + length ws \<le> hi \<and> hw ?s2 = (hw s1)\<lparr>fifo_mem := put_words n ws (fifo_mem (hw s1))\<rparr> \<and>
         dynamic_buffer (fifo ?s2) = None)"
  proof (cases p)
    case (Fifo_in_place i)
    with res cap dyn show ?thesis by (auto simp: fifo_write_def reserved_def)
  next
    case Fifo_static
    with res static dyn show ?thesis
      by (auto simp: fifo_write_def reserved_def bounce_buffer_def put_words_def)
  next
    case Fifo_dynamic
    with res show ?thesis by (auto simp: fifo_write_def reserved_def bounce_buffer_def put_words_def)
  qed
  have data2: "fifo_data (hw ?s2) = fifo_data (hw s1)" and ok2: "ring_ok (hw ?s2) lo hi st' n"
    and direct: "\<not> using_bounce_buffer (fifo ?s2) \<Longrightarrow> \<forall>k < length ws. fifo_mem (hw ?s2) (ring_pos lo hi (n + k)) = ws ! k"
  proof -
    have "fifo_data (hw ?s2) = fifo_data (hw s1) \<and> ring_ok (hw ?s2) lo hi st' n \<and>
      (\<not> using_bounce_buffer (fifo ?s2) \<longrightarrow> (\<forall>k < length ws. fifo_mem (hw ?s2) (ring_pos lo hi (n + k)) = ws ! k))"
    proof (cases "using_bounce_buffer (fifo ?s2)")
      case True
      with written_or ok1 show ?thesis by simp
    next
      case False
      with written_or have h2: "hw ?s2 = (hw s1)\<lparr>fifo_mem := put_words n ws (fifo_mem (hw s1))\<rparr>"
        and fit: "n + length ws \<le> hi" by simp_all
      have w: "written (put_words n ws (fifo_mem (hw s1))) (fifo_mem (hw s1)) lo hi n ws"
        by (rule written_put_words [OF r(1) fit])
      have ok2: "ring_ok (hw ?s2) lo hi st' n"
        by (rule ring_ok_mem [OF ok1]) (use r h2 in \<open>auto simp: put_words_def fifo_regs\<close>)
      have "fifo_data (hw ?s2) = fifo_data (hw s1)"
        unfolding fifo_data_ring [OF ok1] fifo_data_ring [OF ok2]
        using ring_data_outside [OF r(1-4) room w] h2 by simp
      with ok2 w h2 show ?thesis by (simp add: written_def)
    qed
    then show "fifo_data (hw ?s2) = fifo_data (hw s1)" "ring_ok (hw ?s2) lo hi st' n"
      "\<not> using_bounce_buffer (fifo ?s2) \<Longrightarrow> \<forall>k < length ws. fifo_mem (hw ?s2) (ring_pos lo hi (n + k)) = ws ! k"
      by simp_all
  qed
  have le: "ucast bytes \<le> reserved_size (fifo ?s2)" using f2 by simp
  have bnc: "\<forall>k < length ws. bounce_buffer (fifo ?s2) k = ws ! k" if "using_bounce_buffer (fifo ?s2)"
    using written_or that by simp
  have dir: "fifo_caps (fifo ?s2) AND SVGA_FIFO_CAP_RESERVE \<noteq> 0 \<and>
      (\<forall>k < length ws. fifo_mem (hw ?s2) (ring_pos lo hi (n + k)) = ws ! k)"
    if "\<not> using_bounce_buffer (fifo ?s2)"
    using written_or direct that by simp
  have none: "\<not> using_bounce_buffer (fifo ?s2) \<Longrightarrow> dynamic_buffer (fifo ?s2) = None" using written_or by simp
  from commit_ring [OF ok2 b le room bnc dir] none data2 show ?thesis
    by (cases "using_bounce_buffer (fifo ?s2)") auto
qed

section \<open>Properties\<close>

text \<open>C14: submitting commands appends them to the ring.  A client that reserves room for its
  words, writes them through the pointer it gets and commits finds the contents of the ring
  extended by exactly its words, wherever the ring wraps and whichever of the three ways
  of writing is used; no \<open>BUG_ON\<close> is reached, the ring stays well formed and the FIFO is free
  for the next client.  The contents are those after the last reading of the device's
  position.  A single word without the reserve capability is excluded.\<close>

theorem vmw_fifo_submit_appends:
  assumes run: "vmw_fifo_reserve hz s bytes dyn rs = Returns (s1, Some p)"
    and ok: "ring_ok (hw s) lo hi st n" and b: "unat bytes = 4 * length ws"
    and env: "\<forall>r \<in> set rs. env_valid lo hi r" and static: "static_buffer (fifo s) \<noteq> None"
    and cap: "fifo_caps (fifo s) AND SVGA_FIFO_CAP_RESERVE \<noteq> 0 \<or> 1 < length ws"
  shows "\<exists>s' st'. vmw_fifo_commit (fifo_write p ws s1) bytes = Some s' \<and>
    fifo_data (hw s') = fifo_data (hw s1) @ ws \<and>
    ring_ok (hw s') lo hi st' (ring_pos lo hi (n + length ws)) \<and>
    \<not> fifo_locked (fifo s') \<and> reserved_size (fifo s') = 0 \<and> dynamic_buffer (fifo s') = None"
  using vmw_fifo_submit_core [OF assms] .

definition fifo_example :: fifo_sys where
  "fifo_example =
     \<lparr>hw = \<lparr>fifo_mem = (\<lambda>_. 0)(SVGA_FIFO_MIN := 4096, SVGA_FIFO_MAX := 8192, SVGA_FIFO_NEXT_CMD := 8188, SVGA_FIFO_STOP := 4200),
            hw_caps = 0, reg_writes = [], irq_acks = [], irq_mask = 0, fence_queue_waiters = 0, goal_queue_waiters = 0,
            fifo_queue_waiters = 0\<rparr>,
      fifo = \<lparr>reserved_size = 0, dynamic_buffer = None, static_buffer = Some (\<lambda>_. 0),
              static_buffer_size = VMWGFX_FIFO_STATIC_SIZE, using_bounce_buffer = False, fifo_caps = 0, fifo_locked = False\<rparr>\<rparr>"

definition quiet_round :: "u32 \<Rightarrow> fifo_round" where
  "quiet_round stop = \<lparr>round_stop = stop, round_env = \<lparr>wait_jiffies = 0, wait_polls = [], wait_long = 0\<rparr>\<rparr>"

lemma fifo_example_ok: "ring_ok (hw fifo_example) 1024 2048 1050 2047"
  by (simp add: ring_ok_def fifo_example_def fifo_regs)

lemma fifo_example_reserve:
  "\<exists>s1. vmw_fifo_reserve 100 fifo_example 8 None [quiet_round 4200] = Returns (s1, Some Fifo_static)"
  by (simp add: vmw_fifo_reserve_def fifo_example_def quiet_round_def ioread32_def fifo_regs device_stop_def
      vmw_fifo_is_full_def iowrite32_def fifo_bounce_def VMWGFX_FIFO_STATIC_SIZE_def Let_def)

theorem vmw_fifo_submit_appends_witness:
  "\<exists>s1 s'. vmw_fifo_reserve 100 fifo_example 8 None [quiet_round 4200] = Returns (s1, Some Fifo_static) \<and>
     vmw_fifo_commit (fifo_write Fifo_static [11, 12] s1) 8 = Some s' \<and>
     fifo_data (hw s') = fifo_data (hw s1) @ [11, 12]"
proof -
  obtain s1 where run: "vmw_fifo_reserve 100 fifo_example 8 None [quiet_round 4200] = Returns (s1, Some Fifo_static)"
    using fifo_example_reserve by blast
  have "\<forall>r \<in> set [quiet_round 4200]. env_valid 1024 2048 r"
    by (simp add: env_valid_def quiet_round_def stop_valid_def)
  from vmw_fifo_submit_appends [OF run fifo_example_ok _ this, of "[11, 12]"] run show ?thesis
    by (auto simp: fifo_example_def)
qed

lemma wait_noirq_mem:
  "vmw_fifo_wait_noirq h bytes intr e ps = Returns (h', r) \<Longrightarrow> i \<noteq> SVGA_FIFO_STOP \<Longrightarrow>
     fifo_mem h' i = fifo_mem h i"
proof (induction h bytes intr e ps rule: vmw_fifo_wait_noirq.induct)
  case (2 h bytes intr e p ps)
  let ?h = "device_stop (poll_stop p) h"
  have "h' = ?h \<or> (vmw_fifo_is_full ?h bytes \<and> \<not> time_after_eq (poll_jiffies p) e \<and> \<not> (intr \<and> poll_signal p) \<and>
      vmw_fifo_wait_noirq ?h bytes intr e ps = Returns (h', r))"
    using 2(2) by (auto simp: Let_def split: if_splits)
  then show ?case
  proof
    assume "h' = ?h"
    with 2(3) show ?thesis by (simp add: device_stop_def)
  next
    assume "vmw_fifo_is_full ?h bytes \<and> \<not> time_after_eq (poll_jiffies p) e \<and> \<not> (intr \<and> poll_signal p) \<and>
      vmw_fifo_wait_noirq ?h bytes intr e ps = Returns (h', r)"
    with 2(1) [OF refl] 2(3) have "fifo_mem h' i = fifo_mem ?h i" by simp
    with 2(3) show ?thesis by (simp add: device_stop_def)
  qed
qed simp

lemma wait_mem:
  assumes "vmw_fifo_wait h bytes intr tm env = Returns (h', r)" "i \<noteq> SVGA_FIFO_STOP" "i \<noteq> SVGA_FIFO_BUSY"
  shows "fifo_mem h' i = fifo_mem h i"
proof (cases "vmw_fifo_is_full h bytes")
  case False
  with assms(1) show ?thesis by (simp add: vmw_fifo_wait_def)
next
  case full: True
  let ?h = "vmw_fifo_ping_host SVGA_SYNC_FIFOFULL h"
  have "fifo_mem h' i = fifo_mem ?h i"
  proof (cases "hw_caps ?h AND SVGA_CAP_IRQMASK = 0")
    case True
    with full assms(1) have "vmw_fifo_wait_noirq ?h bytes intr (wait_jiffies env + tm) (wait_polls env) = Returns (h', r)"
      by (simp add: vmw_fifo_wait_def)
    from wait_noirq_mem [OF this assms(2)] show ?thesis .
  next
    case False
    with full assms(1) show ?thesis
      by (auto simp: vmw_fifo_wait_def Let_def irq_enable_def irq_disable_def)
  qed
  with assms(3) show ?thesis by (simp add: ping_mem)
qed

text \<open>The two ways in which a reservation returns \<open>NULL\<close>: through the error path of the function, or
  from inside the loop because \<open>vmalloc\<close> gave no bounce buffer.\<close>

definition reserve_gave_up :: "fifo_sys \<Rightarrow> fifo_sys \<Rightarrow> bool" where
  "reserve_gave_up s s' \<longleftrightarrow> fifo s' = (fifo s)\<lparr>reserved_size := 0, fifo_locked := False\<rparr>"

definition reserve_no_memory :: "fifo_sys \<Rightarrow> u32 \<Rightarrow> buf option \<Rightarrow> fifo_sys \<Rightarrow> bool" where
  "reserve_no_memory s bytes dyn s' \<longleftrightarrow> dyn = None \<and> static_buffer_size (fifo s) \<le> ucast bytes \<and>
     fifo s' = (fifo s)\<lparr>using_bounce_buffer := True, dynamic_buffer := None\<rparr>"

lemma bounce_failure: "fifo_bounce t bytes dyn = (s', None) \<Longrightarrow> reserve_no_memory t bytes dyn s' \<and> hw s' = hw t"
  by (auto simp: fifo_bounce_def reserve_no_memory_def Let_def not_less split: if_splits)

lemma reserve_loop_failure:
  assumes "reserve_loop hz s bytes fmax fmin next_cmd dyn rs = Returns (s', None)"
    and "i \<noteq> SVGA_FIFO_STOP" "i \<noteq> SVGA_FIFO_BUSY"
  shows "(reserve_gave_up s s' \<or> reserve_no_memory s bytes dyn s') \<and> fifo_mem (hw s') i = fifo_mem (hw s) i"
  using assms
proof (induction rs arbitrary: s)
  case (Cons r rs)
  let ?h = "device_stop (round_stop r) (hw s)"
  let ?w = "\<lambda>h2 x. vmw_fifo_wait ?h bytes False (HZ3 hz) (round_env r) = Returns (h2, x) \<and>
      (case x of Inl e \<Rightarrow> s' = fst (fifo_fail (s\<lparr>hw := h2\<rparr>))
       | Inr u \<Rightarrow> reserve_loop hz (s\<lparr>hw := h2\<rparr>) bytes fmax fmin next_cmd dyn rs = Returns (s', None))"
  have "fifo_bounce (s\<lparr>hw := ?h\<rparr>) bytes dyn = (s', None) \<or> (\<exists>h2 x. ?w h2 x)"
    using Cons.prems(1) by (auto simp: Let_def fifo_fail_def split: if_splits run.splits prod.splits sum.splits)
  then show ?case
  proof (elim disjE exE conjE)
    assume "fifo_bounce (s\<lparr>hw := ?h\<rparr>) bytes dyn = (s', None)"
    from bounce_failure [OF this] Cons.prems(2) show ?thesis by (simp add: reserve_no_memory_def device_stop_def)
  next
    fix h2 x assume w: "vmw_fifo_wait ?h bytes False (HZ3 hz) (round_env r) = Returns (h2, x)"
      and d: "case x of Inl e \<Rightarrow> s' = fst (fifo_fail (s\<lparr>hw := h2\<rparr>))
       | Inr u \<Rightarrow> reserve_loop hz (s\<lparr>hw := h2\<rparr>) bytes fmax fmin next_cmd dyn rs = Returns (s', None)"
    have m: "fifo_mem h2 i = fifo_mem (hw s) i"
      using wait_mem [OF w Cons.prems(2,3)] Cons.prems(2) by (simp add: device_stop_def)
    show ?thesis
    proof (cases x)
      case (Inl e)
      with d m show ?thesis by (simp add: fifo_fail_def reserve_gave_up_def)
    next
      case (Inr u)
      with d have "reserve_loop hz (s\<lparr>hw := h2\<rparr>) bytes fmax fmin next_cmd dyn rs = Returns (s', None)" by simp
      from Cons.IH [OF this Cons.prems(2,3)] m show ?thesis by (simp add: reserve_gave_up_def reserve_no_memory_def)
    qed
  qed
qed simp

text \<open>C15: what a reservation that returns \<open>NULL\<close> leaves behind.  What the driver wrote to the ring and
  where it writes next are unchanged.  When room for the command never becomes free, or the
  command is larger than the ring, the mutex is released and no reservation is on record.
  There is one other case, and it keeps both: the command needs a bounce buffer that does not
  fit the static one and \<open>vmalloc\<close> has no memory (\<open>vmw_fifo_bounce_leak\<close>: the next reservation
  then waits for ever).\<close>

theorem vmw_fifo_reserve_failure:
  assumes run: "vmw_fifo_reserve hz s bytes dyn rs = Returns (s', None)"
  shows "dynamic_buffer (fifo s') = dynamic_buffer (fifo s) \<and>
    (\<forall>i. i \<noteq> SVGA_FIFO_STOP \<longrightarrow> i \<noteq> SVGA_FIFO_BUSY \<longrightarrow> fifo_mem (hw s') i = fifo_mem (hw s) i) \<and>
    (if fifo_locked (fifo s')
     then dyn = None \<and> static_buffer_size (fifo s) \<le> ucast bytes \<and> reserved_size (fifo s') = ucast bytes
     else reserved_size (fifo s') = 0)"
proof (cases "fifo_mem (hw s) SVGA_FIFO_MAX - fifo_mem (hw s) SVGA_FIFO_MIN \<le> bytes")
  case True
  with run show ?thesis by (auto simp: vmw_fifo_reserve_def fifo_fail_def ioread32_def Let_def split: if_splits)
next
  case False
  let ?s = "s\<lparr>fifo := (fifo s)\<lparr>fifo_locked := True, reserved_size := ucast bytes\<rparr>\<rparr>"
  have loop: "reserve_loop hz ?s bytes (fifo_mem (hw s) SVGA_FIFO_MAX) (fifo_mem (hw s) SVGA_FIFO_MIN)
      (fifo_mem (hw s) SVGA_FIFO_NEXT_CMD) dyn rs = Returns (s', None)" and none: "dynamic_buffer (fifo s) = None"
    using run False by (auto simp: vmw_fifo_reserve_def ioread32_def Let_def split: if_splits)
  have "fifo_mem (hw s') i = fifo_mem (hw s) i" if "i \<noteq> SVGA_FIFO_STOP" "i \<noteq> SVGA_FIFO_BUSY" for i
    using reserve_loop_failure [OF loop that] by simp
  moreover have "reserve_gave_up ?s s' \<or> reserve_no_memory ?s bytes dyn s'"
    using reserve_loop_failure [OF loop, of 0] by (simp add: fifo_regs)
  ultimately show ?thesis using none by (auto simp: reserve_gave_up_def reserve_no_memory_def)
qed

definition stuck_round :: fifo_round where
  "stuck_round = \<lparr>round_stop = 4200, round_env =
     \<lparr>wait_jiffies = 0, wait_polls = [\<lparr>poll_stop = 4200, poll_jiffies = 300, poll_signal = False\<rparr>], wait_long = 0\<rparr>\<rparr>"

theorem vmw_fifo_reserve_failure_witness:
  "\<exists>s'. vmw_fifo_reserve 100 fifo_example 4092 None [stuck_round] = Returns (s', None) \<and>
     \<not> fifo_locked (fifo s') \<and> reserved_size (fifo s') = 0 \<and> fifo_mem (hw s') SVGA_FIFO_NEXT_CMD = 8188"
proof -
  have "\<exists>s'. vmw_fifo_reserve 100 fifo_example 4092 None [stuck_round] = Returns (s', None) \<and> \<not> fifo_locked (fifo s')"
    by (simp add: vmw_fifo_reserve_def stuck_round_def fifo_example_def ioread32_def fifo_regs device_stop_def
        vmw_fifo_is_full_def iowrite32_def fifo_fail_def vmw_fifo_wait_def vmw_fifo_ping_host_def vmw_write_def
        time_after_eq_def HZ3_def Let_def)
  then obtain s' where run: "vmw_fifo_reserve 100 fifo_example 4092 None [stuck_round] = Returns (s', None)"
    "\<not> fifo_locked (fifo s')" by blast
  have "fifo_mem (hw fifo_example) SVGA_FIFO_NEXT_CMD = 8188" by (simp add: fifo_example_def fifo_regs)
  with vmw_fifo_reserve_failure [OF run(1)] run show ?thesis by (simp add: fifo_regs)
qed

section \<open>Where the code does not do what it says\<close>

text \<open>When the device's position lies ahead of the driver's in the ring and the free space is
  too small, \<open>vmw_fifo_is_full\<close> still reports room, so the wait returns at once: the loop
  spins for as long as the device stands still and its timeout never comes.\<close>

lemma vmw_fifo_reserve_spins:
  assumes ok: "ring_ok (hw s) lo hi st n" and ahead: "n < st" and small: "st \<le> n + len" "len < hi - lo"
    and b: "unat bytes = 4 * len" and rs: "\<forall>r \<in> set rs. unat (round_stop r) = 4 * st"
  shows "reserve_loop hz s bytes (fifo_mem (hw s) SVGA_FIFO_MAX) (fifo_mem (hw s) SVGA_FIFO_MIN)
      (fifo_mem (hw s) SVGA_FIFO_NEXT_CMD) dyn rs = Waits"
  using ok rs
proof (induction rs arbitrary: s)
  case (Cons r rs)
  let ?h = "device_stop (round_stop r) (hw s)"
  have regs: "unat (fifo_mem (hw s) SVGA_FIFO_NEXT_CMD) = 4 * n" "n < hi" "hi < 2 ^ 29" "lo \<le> n" "st < hi"
    using Cons.prems(1) by (simp_all add: ring_ok_def)
  have stop: "unat (round_stop r) = 4 * st" using Cons.prems(2) by simp
  have ok': "ring_ok ?h lo hi st n"
    using Cons.prems(1) stop by (simp add: ring_ok_def device_stop_def fifo_regs)
  have "\<not> (hi - n) + (st - lo) \<le> len" using ahead small regs by linarith
  then have nf: "\<not> vmw_fifo_is_full ?h bytes" using full_iff [OF ok' b] by simp
  have "unat (fifo_mem (hw s) SVGA_FIFO_NEXT_CMD + bytes) = 4 * (n + len)"
    using regs b small by (subst unat_add_nowrap) simp_all
  then have np: "\<not> fifo_mem (hw s) SVGA_FIFO_NEXT_CMD + bytes < round_stop r"
    using stop small by (simp add: word_less_nat_alt)
  have nle: "\<not> round_stop r \<le> fifo_mem (hw s) SVGA_FIFO_NEXT_CMD"
    using stop regs(1) ahead by (simp add: word_le_nat_alt)
  have wt: "vmw_fifo_wait ?h bytes False (HZ3 hz) (round_env r) = Returns (?h, Inr ())"
    using nf by (simp add: vmw_fifo_wait_def)
  have same: "fifo_mem ?h SVGA_FIFO_MAX = fifo_mem (hw s) SVGA_FIFO_MAX" "fifo_mem ?h SVGA_FIFO_MIN = fifo_mem (hw s) SVGA_FIFO_MIN"
    "fifo_mem ?h SVGA_FIFO_NEXT_CMD = fifo_mem (hw s) SVGA_FIFO_NEXT_CMD" by (simp_all add: device_stop_def fifo_regs)
  have "ring_ok (hw (s\<lparr>hw := ?h\<rparr>)) lo hi st n" using ok' by simp
  from Cons.IH [OF this] Cons.prems(2) np nle wt same show ?case by (simp add: Let_def)
qed simp

text \<open>A single word submitted without the reserve capability is written in place, but the
  commit does not move \<open>NEXT_CMD\<close> past it, so it is never submitted.\<close>

lemma vmw_fifo_single_word_lost:
  assumes "fifo_caps (fifo s) AND SVGA_FIFO_CAP_RESERVE = 0" "\<not> using_bounce_buffer (fifo s)"
    and "bytes AND 3 = 0" "ucast bytes \<le> reserved_size (fifo s)"
  shows "\<exists>s'. vmw_fifo_commit s bytes = Some s' \<and>
    fifo_mem (hw s') SVGA_FIFO_NEXT_CMD = fifo_mem (hw s) SVGA_FIFO_NEXT_CMD"
  using assms by (simp add: vmw_fifo_commit_def Let_def not_less ping_mem fifo_regs)

text \<open>When the memory for a bounce buffer runs out, \<open>NULL\<close> is returned with the mutex held and
  the reservation on record: the next reservation waits for ever.\<close>

lemma vmw_fifo_bounce_leak:
  assumes "static_buffer_size (fifo s) \<le> ucast bytes" "fifo_locked (fifo s)"
  shows "\<exists>s'. fifo_bounce s bytes None = (s', None) \<and> fifo_locked (fifo s') \<and>
    reserved_size (fifo s') = reserved_size (fifo s) \<and> vmw_fifo_reserve hz s' b2 dyn rs = Waits"
  using assms by (simp add: fifo_bounce_def Let_def vmw_fifo_reserve_def not_less)

end
