(* ===== verification/Fence.thy ===== *)
theory Fence
  imports Device
begin

text \<open>
  Fence objects and their manager, \<open>src/vmwgfx_fence.c\<close>.  A fence carries the seqno of a
  command in the FIFO and signals once the device has passed it.  Clients attach event
  actions; while there are any the device is asked for an interrupt at a goal seqno.
  Fences, actions and events are named by addresses.  The heaps are total functions, an
  object with no references left is dead.  The values the device writes to its fence
  register while an operation runs are arguments.
\<close>

section \<open>State\<close>

definition VMW_FENCE_WRAP31 :: u32 where "VMW_FENCE_WRAP31 = push_bit 31 1"
definition DRM_VMW_FENCE_FLAG_EXEC :: u32 where "DRM_VMW_FENCE_FLAG_EXEC = push_bit 0 1"
definition DRM_VMW_FENCE_FLAG_QUERY :: u32 where "DRM_VMW_FENCE_FLAG_QUERY = push_bit 1 1"

record vmw_fence_obj =
  fence_kref :: nat
  fence_seqno :: u32
  signaled :: u32
  signal_mask :: u32
  seq_passed_actions :: "nat list"

record vmw_event_fence_action =
  eaction_event :: "nat option"
  eaction_fence :: nat

text \<open>\<open>event_queue\<close> is the client's list of events ready to be read; \<open>work_scheduled\<close> says
  that the clean-up work has been queued.\<close>

record vmw_fence_manager =
  fence_heap :: "nat \<Rightarrow> vmw_fence_obj"
  action_heap :: "nat \<Rightarrow> vmw_event_fence_action"
  num_fence_objects :: int
  fence_list :: "nat list"
  cleanup_list :: "nat list"
  pending_actions :: u32
  fence_events :: "nat list"
  event_queue :: "nat list"
  event_space :: int
  fifo_down :: bool
  goal_irq_on :: bool
  seqno_valid :: bool
  work_scheduled :: bool

definition upd_fence :: "nat \<Rightarrow> (vmw_fence_obj \<Rightarrow> vmw_fence_obj) \<Rightarrow> vmw_fence_manager \<Rightarrow> vmw_fence_manager" where
  "upd_fence f g fm = fm\<lparr>fence_heap := (fence_heap fm)(f := g (fence_heap fm f))\<rparr>"

text \<open>The order of seqnos, with wrap-around.\<close>

definition passed :: "u32 \<Rightarrow> u32 \<Rightarrow> bool" where
  "passed now s \<longleftrightarrow> now - s < VMW_FENCE_WRAP31"

section \<open>Life of a fence\<close>

definition vmw_fence_manager_init :: "bool \<Rightarrow> (nat \<Rightarrow> vmw_fence_obj) \<Rightarrow> (nat \<Rightarrow> vmw_event_fence_action) \<Rightarrow> int \<Rightarrow> vmw_fence_manager option" where
  "vmw_fence_manager_init alloc_ok heap actions space =
     (if alloc_ok then
        Some \<lparr>fence_heap = heap, action_heap = actions, num_fence_objects = 0, fence_list = [],
              cleanup_list = [], pending_actions = 0, fence_events = [], event_queue = [], event_space = space,
              fifo_down = True, goal_irq_on = False, seqno_valid = False, work_scheduled = False\<rparr>
      else None)"

definition vmw_fence_manager_takedown :: "vmw_fence_manager \<Rightarrow> unit option" where
  "vmw_fence_manager_takedown fm =
     (if fence_list fm = [] \<and> cleanup_list fm = [] then Some () else None)"

definition vmw_fence_obj_init :: "vmw_fence_manager \<Rightarrow> nat \<Rightarrow> u32 \<Rightarrow> u32 \<Rightarrow> vmw_fence_manager \<times> unit res" where
  "vmw_fence_obj_init fm f s m =
     (let fm1 = upd_fence f (\<lambda>_. \<lparr>fence_kref = 1, fence_seqno = s, signaled = 0, signal_mask = m,
                                 seq_passed_actions = []\<rparr>) fm
      in if fifo_down fm1 then (fm1, Inl EBUSY)
         else (fm1\<lparr>fence_list := fence_list fm1 @ [f], num_fence_objects := num_fence_objects fm1 + 1\<rparr>, Inr ()))"

definition vmw_fence_create :: "vmw_fence_manager \<Rightarrow> u32 \<Rightarrow> u32 \<Rightarrow> nat option \<Rightarrow> vmw_fence_manager \<times> nat res" where
  "vmw_fence_create fm s m k =
     (case k of
        None \<Rightarrow> (fm, Inl ENOMEM)
      | Some f \<Rightarrow>
          (case vmw_fence_obj_init fm f s m of
             (fm1, Inl e) \<Rightarrow> (upd_fence f (\<lambda>x. x\<lparr>fence_kref := 0\<rparr>) fm1, Inl e)
           | (fm1, Inr _) \<Rightarrow> (fm1, Inr f)))"

definition vmw_fence_obj_reference :: "nat \<Rightarrow> vmw_fence_manager \<Rightarrow> vmw_fence_manager" where
  "vmw_fence_obj_reference f fm = upd_fence f (\<lambda>x. x\<lparr>fence_kref := fence_kref x + 1\<rparr>) fm"

definition vmw_fence_obj_destroy_locked :: "nat \<Rightarrow> vmw_fence_manager \<Rightarrow> vmw_fence_manager" where
  "vmw_fence_obj_destroy_locked f fm =
     fm\<lparr>fence_list := remove1 f (fence_list fm), num_fence_objects := num_fence_objects fm - 1\<rparr>"

definition vmw_fence_obj_unreference :: "nat \<Rightarrow> vmw_fence_manager \<Rightarrow> vmw_fence_manager option" where
  "vmw_fence_obj_unreference f fm =
     (let n = fence_kref (fence_heap fm f) in
      if n = 0 then None
      else
        (let fm1 = upd_fence f (\<lambda>x. x\<lparr>fence_kref := n - 1\<rparr>) fm
         in Some (if n = 1 then vmw_fence_obj_destroy_locked f fm1 else fm1)))"

text \<open>The outcomes of the accounting, the allocation and the registration of a fence that user
  space holds are arguments.\<close>

definition vmw_user_fence_create ::
  "vmw_fence_manager \<Rightarrow> u32 \<Rightarrow> u32 \<Rightarrow> unit res \<Rightarrow> nat option \<Rightarrow> nat res \<Rightarrow> (vmw_fence_manager \<times> (nat \<times> nat) res) option"
where
  "vmw_user_fence_create fm s m mem k base =
     (case mem of
        Inl e \<Rightarrow> Some (fm, Inl e)
      | Inr _ \<Rightarrow>
          (case k of
             None \<Rightarrow> Some (fm, Inl ENOMEM)
           | Some f \<Rightarrow>
               (case vmw_fence_obj_init fm f s m of
                  (fm1, Inl e) \<Rightarrow> Some (upd_fence f (\<lambda>x. x\<lparr>fence_kref := 0\<rparr>) fm1, Inl e)
                | (fm1, Inr _) \<Rightarrow>
                    (let fm2 = vmw_fence_obj_reference f fm1 in
                     case base of
                       Inr handle \<Rightarrow> Some (fm2, Inr (f, handle))
                     | Inl e \<Rightarrow>
                         (case vmw_fence_obj_unreference f fm2 of
                            None \<Rightarrow> None
                          | Some fm3 \<Rightarrow>
                              map_option (\<lambda>fm4. (fm4, Inl e)) (vmw_fence_obj_unreference f fm3))))))"

section \<open>Signalling\<close>

definition vmw_event_fence_action_seq_passed :: "nat \<Rightarrow> vmw_fence_manager \<Rightarrow> vmw_fence_manager" where
  "vmw_event_fence_action_seq_passed a fm =
     (case eaction_event (action_heap fm a) of
        None \<Rightarrow> fm
      | Some e \<Rightarrow> fm\<lparr>fence_events := remove1 a (fence_events fm), event_queue := event_queue fm @ [e],
                     action_heap := (action_heap fm)(a := (action_heap fm a)\<lparr>eaction_event := None\<rparr>)\<rparr>)"

fun vmw_fences_perform_actions :: "nat list \<Rightarrow> vmw_fence_manager \<Rightarrow> vmw_fence_manager" where
  "vmw_fences_perform_actions [] fm = fm"
| "vmw_fences_perform_actions (a # as) fm =
     (let fm1 = fm\<lparr>pending_actions := pending_actions fm - 1\<rparr>;
          fm2 = vmw_event_fence_action_seq_passed a fm1
      in vmw_fences_perform_actions as (fm2\<lparr>cleanup_list := cleanup_list fm2 @ [a]\<rparr>))"

definition signal_fence :: "nat \<Rightarrow> vmw_fence_manager \<Rightarrow> vmw_fence_manager" where
  "signal_fence f fm =
     (let as = seq_passed_actions (fence_heap fm f);
          fm1 = fm\<lparr>fence_list := remove1 f (fence_list fm)\<rparr>;
          fm2 = upd_fence f (\<lambda>x. x\<lparr>signaled := signaled x OR DRM_VMW_FENCE_FLAG_EXEC, seq_passed_actions := []\<rparr>) fm1
      in vmw_fences_perform_actions as fm2)"

fun signal_loop :: "u32 \<Rightarrow> nat list \<Rightarrow> vmw_fence_manager \<Rightarrow> vmw_fence_manager" where
  "signal_loop now [] fm = fm"
| "signal_loop now (f # fs) fm =
     (if passed now (fence_seqno (fence_heap fm f)) then signal_loop now fs (signal_fence f fm) else fm)"

definition vmw_fence_goal_new_locked :: "vmw_hw \<Rightarrow> vmw_fence_manager \<Rightarrow> u32 \<Rightarrow> vmw_hw \<times> vmw_fence_manager \<times> bool" where
  "vmw_fence_goal_new_locked h fm passed_seqno =
     (if \<not> seqno_valid fm then (h, fm, False)
      else if VMW_FENCE_WRAP31 \<le> passed_seqno - ioread32 h SVGA_FIFO_FENCE_GOAL then (h, fm, False)
      else
        (case filter (\<lambda>f. seq_passed_actions (fence_heap fm f) \<noteq> []) (fence_list fm) of
           [] \<Rightarrow> (h, fm\<lparr>seqno_valid := False\<rparr>, True)
         | f # _ \<Rightarrow> (iowrite32 (fence_seqno (fence_heap fm f)) SVGA_FIFO_FENCE_GOAL h,
                     fm\<lparr>seqno_valid := True\<rparr>, True)))"

definition vmw_fence_goal_check_locked :: "vmw_hw \<Rightarrow> vmw_fence_manager \<Rightarrow> nat \<Rightarrow> vmw_hw \<times> vmw_fence_manager \<times> bool" where
  "vmw_fence_goal_check_locked h fm f =
     (let x = fence_heap fm f in
      if signaled x AND DRM_VMW_FENCE_FLAG_EXEC \<noteq> 0 then (h, fm, False)
      else if seqno_valid fm \<and> ioread32 h SVGA_FIFO_FENCE_GOAL - fence_seqno x < VMW_FENCE_WRAP31
      then (h, fm, False)
      else (iowrite32 (fence_seqno x) SVGA_FIFO_FENCE_GOAL h, fm\<lparr>seqno_valid := True\<rparr>, True))"

text \<open>\<open>vs\<close> are the values found in the fence register when it is read again after the goal was
  changed; with none left the register has not changed.\<close>

fun fences_update_from :: "vmw_hw \<Rightarrow> vmw_fence_manager \<Rightarrow> u32 \<Rightarrow> u32 list \<Rightarrow> vmw_hw \<times> vmw_fence_manager" where
  "fences_update_from h fm now vs =
     (let fm1 = signal_loop now (fence_list fm) fm;
          (h2, fm2, needs_rerun) = vmw_fence_goal_new_locked h fm1 now;
          fm3 = (if cleanup_list fm2 \<noteq> [] then fm2\<lparr>work_scheduled := True\<rparr> else fm2)
      in if needs_rerun then
           (case vs of
              [] \<Rightarrow> (h2, fm3)
            | v # vs' \<Rightarrow>
                (let h3 = iowrite32 v SVGA_FIFO_FENCE h2 in
                 if v \<noteq> now then fences_update_from h3 fm3 v vs' else (h3, fm3)))
         else (h2, fm3))"

definition vmw_fences_update :: "vmw_hw \<Rightarrow> vmw_fence_manager \<Rightarrow> u32 list \<Rightarrow> vmw_hw \<times> vmw_fence_manager" where
  "vmw_fences_update h fm vs = fences_update_from h fm (ioread32 h SVGA_FIFO_FENCE) vs"

definition vmw_fence_obj_signaled :: "vmw_hw \<Rightarrow> vmw_fence_manager \<Rightarrow> nat \<Rightarrow> u32 \<Rightarrow> u32 list \<Rightarrow> vmw_hw \<times> vmw_fence_manager \<times> bool" where
  "vmw_fence_obj_signaled h fm f flags vs =
     (let s = signaled (fence_heap fm f); fl = flags AND signal_mask (fence_heap fm f) in
      if s AND fl = fl then (h, fm, True)
      else
        (let (h1, fm1) = (if s AND DRM_VMW_FENCE_FLAG_EXEC = 0 then vmw_fences_update h fm vs else (h, fm))
         in (h1, fm1, signaled (fence_heap fm1 f) AND fl = fl)))"

text \<open>While waiting, the device moves its fence register on and the waiter looks again; when the
  polls are used up the wait ends with the given error.\<close>

fun fence_wait_loop :: "vmw_hw \<Rightarrow> vmw_fence_manager \<Rightarrow> nat \<Rightarrow> u32 \<Rightarrow> u32 list \<Rightarrow> errno \<Rightarrow> vmw_hw \<times> vmw_fence_manager \<times> unit res" where
  "fence_wait_loop h fm f flags [] e = (h, fm, Inl e)"
| "fence_wait_loop h fm f flags (v # vs) e =
     (let (h1, fm1, ok) = vmw_fence_obj_signaled (iowrite32 v SVGA_FIFO_FENCE h) fm f flags []
      in if ok then (h1, fm1, Inr ()) else fence_wait_loop h1 fm1 f flags vs e)"

definition vmw_fence_obj_wait :: "vmw_hw \<Rightarrow> vmw_fence_manager \<Rightarrow> nat \<Rightarrow> u32 \<Rightarrow> u32 list \<Rightarrow> errno \<Rightarrow> vmw_hw \<times> vmw_fence_manager \<times> unit res" where
  "vmw_fence_obj_wait h fm f flags vs e =
     (let (h1, fm1, ok) = vmw_fence_obj_signaled h fm f flags [] in
      if ok then (h1, fm1, Inr ())
      else
        (let h2 = vmw_seqno_waiter_add (vmw_fifo_ping_host SVGA_SYNC_GENERIC h1);
             (h3, fm3, r) = fence_wait_loop h2 fm1 f flags vs e
         in (vmw_seqno_waiter_remove h3, fm3, r)))"

definition vmw_fence_obj_flush :: "vmw_hw \<Rightarrow> vmw_hw" where
  "vmw_fence_obj_flush h = vmw_fifo_ping_host SVGA_SYNC_GENERIC h"

section \<open>Actions\<close>

text \<open>\<open>vs\<close> are the readings of the fence register for the update that follows a new goal.\<close>

definition vmw_fence_obj_add_action :: "vmw_hw \<Rightarrow> vmw_fence_manager \<Rightarrow> nat \<Rightarrow> nat \<Rightarrow> u32 list \<Rightarrow> vmw_hw \<times> vmw_fence_manager" where
  "vmw_fence_obj_add_action h fm f a vs =
     (let fm1 = fm\<lparr>pending_actions := pending_actions fm + 1\<rparr> in
      if signaled (fence_heap fm1 f) AND DRM_VMW_FENCE_FLAG_EXEC \<noteq> 0
      then (h, vmw_fences_perform_actions [a] fm1)
      else
        (let fm2 = upd_fence f (\<lambda>x. x\<lparr>seq_passed_actions := seq_passed_actions x @ [a]\<rparr>) fm1;
             (h3, fm3, run_update) = vmw_fence_goal_check_locked h fm2 f
         in if run_update then
              (let (h4, fm4) = (if \<not> goal_irq_on fm3 then (vmw_goal_waiter_add h3, fm3\<lparr>goal_irq_on := True\<rparr>)
                                else (h3, fm3))
               in vmw_fences_update h4 fm4 vs)
            else (h3, fm3)))"

definition vmw_event_fence_action_queue ::
  "vmw_hw \<Rightarrow> vmw_fence_manager \<Rightarrow> nat \<Rightarrow> nat \<Rightarrow> nat option \<Rightarrow> u32 list \<Rightarrow> vmw_hw \<times> vmw_fence_manager \<times> unit res"
where
  "vmw_event_fence_action_queue h fm f event k vs =
     (case k of
        None \<Rightarrow> (h, fm, Inl ENOMEM)
      | Some a \<Rightarrow>
          (let fm1 = fm\<lparr>action_heap := (action_heap fm)(a := \<lparr>eaction_event = Some event, eaction_fence = f\<rparr>)\<rparr>;
               fm2 = vmw_fence_obj_reference f fm1;
               fm3 = fm2\<lparr>fence_events := fence_events fm2 @ [a]\<rparr>;
               (h4, fm4) = vmw_fence_obj_add_action h fm3 f a vs
           in (h4, fm4, Inr ())))"

text \<open>The sizes of the event as the client reads it, and of the structure around it.\<close>

definition sizeof_event_fence :: int where "sizeof_event_fence = 24"
definition sizeof_event_fence_pending :: int where "sizeof_event_fence_pending = 72"

definition vmw_event_fence_action_create ::
  "vmw_hw \<Rightarrow> vmw_fence_manager \<Rightarrow> nat \<Rightarrow> nat option \<Rightarrow> nat option \<Rightarrow> u32 list \<Rightarrow> vmw_hw \<times> vmw_fence_manager \<times> unit res"
where
  "vmw_event_fence_action_create h fm f event_k action_k vs =
     (if event_space fm < sizeof_event_fence then (h, fm, Inl EBUSY)
      else
        (let fm1 = fm\<lparr>event_space := event_space fm - sizeof_event_fence\<rparr>;
             give_back = (\<lambda>m. m\<lparr>event_space := event_space m + sizeof_event_fence_pending\<rparr>)
         in case event_k of
              None \<Rightarrow> (h, give_back fm1, Inl ENOMEM)
            | Some e \<Rightarrow>
                (case vmw_event_fence_action_queue h fm1 f e action_k vs of
                   (h2, fm2, Inl x) \<Rightarrow> (h2, give_back fm2, Inl x)
                 | (h2, fm2, Inr _) \<Rightarrow> (h2, fm2, Inr ()))))"

text \<open>The client goes away: the events still attached are taken from the given list of actions
  one by one.  The result is the manager and the events destroyed.\<close>

fun vmw_event_fence_fpriv_gone :: "vmw_fence_manager \<Rightarrow> nat list \<Rightarrow> vmw_fence_manager \<times> nat option list" where
  "vmw_event_fence_fpriv_gone fm [] = (fm, [])"
| "vmw_event_fence_fpriv_gone fm (a # as) =
     (let e = eaction_event (action_heap fm a);
          fm1 = fm\<lparr>fence_events := remove1 a (fence_events fm),
                  action_heap := (action_heap fm)(a := (action_heap fm a)\<lparr>eaction_event := None\<rparr>)\<rparr>;
          (fm2, es) = vmw_event_fence_fpriv_gone fm1 as
      in (fm2, e # es))"

definition vmw_event_fence_action_cleanup :: "nat \<Rightarrow> vmw_fence_manager \<Rightarrow> vmw_fence_manager option" where
  "vmw_event_fence_action_cleanup a fm =
     vmw_fence_obj_unreference (eaction_fence (action_heap fm a))
       (fm\<lparr>fence_events := remove1 a (fence_events fm)\<rparr>)"

fun cleanup_actions :: "nat list \<Rightarrow> vmw_fence_manager \<Rightarrow> vmw_fence_manager option" where
  "cleanup_actions [] fm = Some fm"
| "cleanup_actions (a # as) fm =
     (case vmw_event_fence_action_cleanup a fm of None \<Rightarrow> None | Some fm1 \<Rightarrow> cleanup_actions as fm1)"

lemma cleanup_actions_list:
  "cleanup_actions as fm = Some fm' \<Longrightarrow> cleanup_list fm' = cleanup_list fm"
  by (induction as fm rule: cleanup_actions.induct)
     (auto simp: vmw_event_fence_action_cleanup_def vmw_fence_obj_unreference_def upd_fence_def
        vmw_fence_obj_destroy_locked_def Let_def split: option.splits if_splits)

text \<open>The worker empties the clean-up list until nothing is left on it.\<close>

function vmw_fence_work_func :: "vmw_hw \<Rightarrow> vmw_fence_manager \<Rightarrow> (vmw_hw \<times> vmw_fence_manager) option" where
  "vmw_fence_work_func h fm =
     (let todo = cleanup_list fm;
          fm1 = fm\<lparr>cleanup_list := [], work_scheduled := False\<rparr>;
          (h2, fm2) = (if \<not> seqno_valid fm1 \<and> goal_irq_on fm1
                       then (vmw_goal_waiter_remove h, fm1\<lparr>goal_irq_on := False\<rparr>) else (h, fm1))
      in if todo = [] then Some (h2, fm2)
         else (case cleanup_actions todo fm2 of None \<Rightarrow> None | Some fm3 \<Rightarrow> vmw_fence_work_func h2 fm3))"
  by auto
termination
  by (relation "measure (\<lambda>(h, fm). length (cleanup_list fm))")
     (auto dest!: cleanup_actions_list split: if_splits)

section \<open>Taking the FIFO down\<close>

text \<open>Every fence left on the list is waited for, the last one first, and signalled by force if
  the wait fails.  The argument lists, for each fence, the polls of its wait and its error.\<close>

fun fifo_down_loop :: "vmw_hw \<Rightarrow> vmw_fence_manager \<Rightarrow> (u32 list \<times> errno) list \<Rightarrow> (vmw_hw \<times> vmw_fence_manager) option" where
  "fifo_down_loop h fm [] = (if fence_list fm = [] then Some (h, fm) else None)"
| "fifo_down_loop h fm ((vs, e) # ws) =
     (if fence_list fm = [] then Some (h, fm)
      else
        (let f = last (fence_list fm);
             fm1 = vmw_fence_obj_reference f fm;
             (h2, fm2, r) = vmw_fence_obj_wait h fm1 f (signal_mask (fence_heap fm1 f)) vs e;
             fm3 = (case r of Inl _ \<Rightarrow> signal_fence f fm2 | Inr _ \<Rightarrow> fm2)
         in if f \<in> set (fence_list fm3) then None
            else (case vmw_fence_obj_unreference f fm3 of
                    None \<Rightarrow> None
                  | Some fm4 \<Rightarrow> fifo_down_loop h2 fm4 ws)))"

definition vmw_fence_fifo_down :: "vmw_hw \<Rightarrow> vmw_fence_manager \<Rightarrow> (u32 list \<times> errno) list \<Rightarrow> (vmw_hw \<times> vmw_fence_manager) option" where
  "vmw_fence_fifo_down h fm ws = fifo_down_loop h (fm\<lparr>fifo_down := True\<rparr>) ws"

definition vmw_fence_fifo_up :: "vmw_fence_manager \<Rightarrow> vmw_fence_manager" where
  "vmw_fence_fifo_up fm = fm\<lparr>fifo_down := False\<rparr>"

section \<open>What an update delivers\<close>

definition fence_actions :: "vmw_fence_manager \<Rightarrow> nat list \<Rightarrow> nat list" where
  "fence_actions fm fs = concat (map (\<lambda>f. seq_passed_actions (fence_heap fm f)) fs)"

definition events_of :: "vmw_fence_manager \<Rightarrow> nat list \<Rightarrow> nat list" where
  "events_of fm as = List.map_filter (\<lambda>a. eaction_event (action_heap fm a)) as"

lemma events_of_simps [simp]:
  "events_of fm [] = []"
  "events_of fm (a # as) = (case eaction_event (action_heap fm a) of None \<Rightarrow> [] | Some e \<Rightarrow> [e]) @ events_of fm as"
  "events_of fm (as @ bs) = events_of fm as @ events_of fm bs"
  by (auto simp: events_of_def List.map_filter_def split: option.splits)

lemma events_of_cong: "(\<And>a. a \<in> set as \<Longrightarrow> action_heap fm' a = action_heap fm a) \<Longrightarrow> events_of fm' as = events_of fm as"
  by (induction as) simp_all

text \<open>The goal is armed: while some fence on the list has an action, the device is asked for an
  interrupt at the seqno of such a fence, and then only.\<close>

definition goal_armed :: "vmw_hw \<Rightarrow> vmw_fence_manager \<Rightarrow> bool" where
  "goal_armed h fm \<longleftrightarrow>
     (if seqno_valid fm
      then \<exists>f \<in> set (fence_list fm). seq_passed_actions (fence_heap fm f) \<noteq> [] \<and>
             fifo_mem h SVGA_FIFO_FENCE_GOAL = fence_seqno (fence_heap fm f)
      else \<forall>f \<in> set (fence_list fm). seq_passed_actions (fence_heap fm f) = [])"

definition fence_inv :: "vmw_hw \<Rightarrow> vmw_fence_manager \<Rightarrow> bool" where
  "fence_inv h fm \<longleftrightarrow>
     distinct (fence_list fm) \<and> distinct (fence_actions fm (fence_list fm)) \<and>
     (\<forall>f \<in> set (fence_list fm). signaled (fence_heap fm f) AND DRM_VMW_FENCE_FLAG_EXEC = 0) \<and>
     goal_armed h fm \<and> (seqno_valid fm \<longrightarrow> goal_irq_on fm)"

lemma perform_actions_spec:
  assumes "distinct as"
  shows "event_queue (vmw_fences_perform_actions as fm) = event_queue fm @ events_of fm as \<and>
    cleanup_list (vmw_fences_perform_actions as fm) = cleanup_list fm @ as \<and>
    fence_heap (vmw_fences_perform_actions as fm) = fence_heap fm \<and>
    fence_list (vmw_fences_perform_actions as fm) = fence_list fm \<and>
    seqno_valid (vmw_fences_perform_actions as fm) = seqno_valid fm \<and>
    goal_irq_on (vmw_fences_perform_actions as fm) = goal_irq_on fm \<and>
    (\<forall>a. a \<notin> set as \<longrightarrow> action_heap (vmw_fences_perform_actions as fm) a = action_heap fm a)"
  using assms
proof (induction as arbitrary: fm)
  case (Cons a as)
  let ?fm1 = "fm\<lparr>pending_actions := pending_actions fm - 1\<rparr>"
  let ?fm2 = "vmw_event_fence_action_seq_passed a ?fm1"
  let ?fm3 = "?fm2\<lparr>cleanup_list := cleanup_list ?fm2 @ [a]\<rparr>"
  have f3: "fence_heap ?fm3 = fence_heap fm" "fence_list ?fm3 = fence_list fm" "seqno_valid ?fm3 = seqno_valid fm"
    "goal_irq_on ?fm3 = goal_irq_on fm" "cleanup_list ?fm3 = cleanup_list fm @ [a]"
    "event_queue ?fm3 = event_queue fm @ (case eaction_event (action_heap fm a) of None \<Rightarrow> [] | Some e \<Rightarrow> [e])"
    "\<And>b. b \<noteq> a \<Longrightarrow> action_heap ?fm3 b = action_heap fm b"
    by (auto simp: vmw_event_fence_action_seq_passed_def split: option.splits)
  have "events_of ?fm3 as = events_of fm as"
    using Cons.prems by (intro events_of_cong f3(7)) auto
  with Cons.IH [of ?fm3] Cons.prems f3 show ?case by (simp add: Let_def)
qed simp

lemma signal_fence_spec:
  assumes "distinct (seq_passed_actions (fence_heap fm f))"
  shows "fence_list (signal_fence f fm) = remove1 f (fence_list fm) \<and>
    fence_heap (signal_fence f fm) = (fence_heap fm)(f := (fence_heap fm f)\<lparr>signaled := signaled (fence_heap fm f) OR DRM_VMW_FENCE_FLAG_EXEC,
      seq_passed_actions := []\<rparr>) \<and>
    event_queue (signal_fence f fm) = event_queue fm @ events_of fm (seq_passed_actions (fence_heap fm f)) \<and>
    cleanup_list (signal_fence f fm) = cleanup_list fm @ seq_passed_actions (fence_heap fm f) \<and>
    seqno_valid (signal_fence f fm) = seqno_valid fm \<and> goal_irq_on (signal_fence f fm) = goal_irq_on fm \<and>
    (\<forall>a. a \<notin> set (seq_passed_actions (fence_heap fm f)) \<longrightarrow> action_heap (signal_fence f fm) a = action_heap fm a)"
proof -
  let ?fm2 = "upd_fence f (\<lambda>x. x\<lparr>signaled := signaled x OR DRM_VMW_FENCE_FLAG_EXEC, seq_passed_actions := []\<rparr>)
      (fm\<lparr>fence_list := remove1 f (fence_list fm)\<rparr>)"
  have "events_of ?fm2 as = events_of fm as" for as by (rule events_of_cong) (simp add: upd_fence_def)
  with perform_actions_spec [OF assms, of ?fm2] show ?thesis
    by (simp add: signal_fence_def Let_def upd_fence_def)
qed

lemma signal_loop_spec:
  fixes now :: u32
  defines "P \<equiv> \<lambda>fm f. passed now (fence_seqno (fence_heap fm f))"
  assumes "fence_list fm = fs" "distinct fs" "distinct (fence_actions fm fs)"
  shows "fence_list (signal_loop now fs fm) = dropWhile (P fm) fs \<and>
    event_queue (signal_loop now fs fm) = event_queue fm @ events_of fm (fence_actions fm (takeWhile (P fm) fs)) \<and>
    cleanup_list (signal_loop now fs fm) = cleanup_list fm @ fence_actions fm (takeWhile (P fm) fs) \<and>
    seqno_valid (signal_loop now fs fm) = seqno_valid fm \<and> goal_irq_on (signal_loop now fs fm) = goal_irq_on fm \<and>
    (\<forall>f. f \<notin> set (takeWhile (P fm) fs) \<longrightarrow> fence_heap (signal_loop now fs fm) f = fence_heap fm f) \<and>
    (\<forall>f \<in> set (takeWhile (P fm) fs). fence_heap (signal_loop now fs fm) f =
       (fence_heap fm f)\<lparr>signaled := signaled (fence_heap fm f) OR DRM_VMW_FENCE_FLAG_EXEC, seq_passed_actions := []\<rparr>)"
  using assms(2-4) unfolding P_def
proof (induction fs arbitrary: fm)
  case (Cons f fs)
  show ?case
  proof (cases "passed now (fence_seqno (fence_heap fm f))")
    case True
    let ?as = "seq_passed_actions (fence_heap fm f)"
    let ?fm = "signal_fence f fm"
    have d: "distinct ?as" "distinct (fence_actions fm fs)" "set ?as \<inter> set (fence_actions fm fs) = {}"
      using Cons.prems(3) by (simp_all add: fence_actions_def)
    note sf = signal_fence_spec [OF d(1)]
    have nf: "f \<notin> set fs" using Cons.prems(2) by simp
    have heap: "fence_heap ?fm g = fence_heap fm g" if "g \<in> set fs" for g using sf that nf by auto
    have acts: "fence_actions ?fm gs = fence_actions fm gs" if "set gs \<subseteq> set fs" for gs
    proof -
      have "map (\<lambda>g. seq_passed_actions (fence_heap ?fm g)) gs = map (\<lambda>g. seq_passed_actions (fence_heap fm g)) gs"
        by (rule map_cong [OF refl]) (simp only: heap subsetD [OF that])
      then show ?thesis by (simp only: fence_actions_def)
    qed
    have lst: "fence_list ?fm = fs" using sf Cons.prems(1) by simp
    have "distinct (fence_actions ?fm fs)" using acts d(2) by simp
    note IH = Cons.IH [OF lst _ this]
    let ?P = "\<lambda>g. passed now (fence_seqno (fence_heap fm g))"
    have tw: "takeWhile (\<lambda>g. passed now (fence_seqno (fence_heap ?fm g))) fs = takeWhile ?P fs"
      "dropWhile (\<lambda>g. passed now (fence_seqno (fence_heap ?fm g))) fs = dropWhile ?P fs"
      using heap by (auto intro: takeWhile_cong dropWhile_cong)
    have sub: "set (takeWhile ?P fs) \<subseteq> set fs" by (auto dest: set_takeWhileD)
    have ev: "events_of ?fm (fence_actions fm (takeWhile ?P fs)) = events_of fm (fence_actions fm (takeWhile ?P fs))"
    proof (rule events_of_cong)
      fix a assume "a \<in> set (fence_actions fm (takeWhile ?P fs))"
      then have "a \<in> set (fence_actions fm fs)" using sub by (auto simp: fence_actions_def)
      with d(3) have "a \<notin> set ?as" by blast
      with sf show "action_heap ?fm a = action_heap fm a" by blast
    qed
    have run: "signal_loop now (f # fs) fm = signal_loop now fs ?fm" using True by simp
    have nt: "f \<notin> set (takeWhile ?P fs)" using sub nf by blast
    show ?thesis unfolding run using IH sf tw acts [OF sub] ev Cons.prems(2) True nt heap sub
      by (auto simp: fence_actions_def)
  next
    case False
    with Cons.prems show ?thesis by (simp add: fence_actions_def)
  qed
qed (simp add: fence_actions_def)

lemma dropWhile_not_take:
  "distinct fs \<Longrightarrow> f \<in> set (dropWhile P fs) \<Longrightarrow> f \<notin> set (takeWhile P fs)"
proof -
  assume d: "distinct fs" and f: "f \<in> set (dropWhile P fs)"
  have "distinct (takeWhile P fs @ dropWhile P fs)" using d by simp
  with f show ?thesis by (auto simp only: distinct_append)
qed

lemma loop_inv:
  assumes inv: "fence_inv h fm"
  shows "distinct (fence_list (signal_loop now (fence_list fm) fm)) \<and>
    distinct (fence_actions (signal_loop now (fence_list fm) fm) (fence_list (signal_loop now (fence_list fm) fm))) \<and>
    (\<forall>f \<in> set (fence_list (signal_loop now (fence_list fm) fm)). f \<in> set (fence_list fm) \<and>
       fence_heap (signal_loop now (fence_list fm) fm) f = fence_heap fm f)"
proof -
  let ?fm = "signal_loop now (fence_list fm) fm" and ?P = "\<lambda>f. passed now (fence_seqno (fence_heap fm f))"
  have d: "distinct (fence_list fm)" "distinct (fence_actions fm (fence_list fm))"
    using inv by (simp_all add: fence_inv_def)
  note sp = signal_loop_spec [OF refl d, of now]
  have lst: "fence_list ?fm = dropWhile ?P (fence_list fm)" using sp by blast
  have heap: "fence_heap ?fm f = fence_heap fm f" if "f \<in> set (dropWhile ?P (fence_list fm))" for f
    using sp dropWhile_not_take [OF d(1) that] by blast
  have "fence_actions ?fm (dropWhile ?P (fence_list fm)) = fence_actions fm (dropWhile ?P (fence_list fm))"
    unfolding fence_actions_def by (rule arg_cong [where f = concat], rule map_cong [OF refl]) (simp only: heap)
  moreover have "fence_actions fm (fence_list fm) = fence_actions fm (takeWhile ?P (fence_list fm)) @ fence_actions fm (dropWhile ?P (fence_list fm))"
    by (simp add: fence_actions_def flip: concat_append map_append)
  then have "distinct (fence_actions fm (dropWhile ?P (fence_list fm)))" using d(2) by simp
  ultimately have "distinct (fence_actions ?fm (fence_list ?fm))" unfolding lst by simp
  with lst heap d(1) show ?thesis by (auto dest: set_dropWhileD)
qed

lemma update_once_inv:
  assumes inv: "fence_inv h fm"
    and g: "vmw_fence_goal_new_locked h (signal_loop now (fence_list fm) fm) now = (h2, fm2, b)"
  shows "fence_inv h2 fm2"
proof -
  let ?fm = "signal_loop now (fence_list fm) fm" and ?P = "\<lambda>f. passed now (fence_seqno (fence_heap fm f))"
  have d: "distinct (fence_list fm)" "distinct (fence_actions fm (fence_list fm))"
    using inv by (simp_all add: fence_inv_def)
  note sp = signal_loop_spec [OF refl d, of now]
  note li = loop_inv [OF inv, of now]
  have valid: "seqno_valid ?fm = seqno_valid fm" "goal_irq_on ?fm = goal_irq_on fm" using sp by simp_all
  have unsig: "\<forall>f \<in> set (fence_list ?fm). signaled (fence_heap ?fm f) AND DRM_VMW_FENCE_FLAG_EXEC = 0"
    using li inv by (simp add: fence_inv_def)
  have keep: "fence_list fm2 = fence_list ?fm \<and> fence_heap fm2 = fence_heap ?fm \<and> goal_irq_on fm2 = goal_irq_on ?fm"
    using g by (auto simp: vmw_fence_goal_new_locked_def split: if_splits list.splits)
  have acts: "fence_actions fm2 gs = fence_actions ?fm gs" for gs using keep by (simp add: fence_actions_def)
  have "goal_armed h2 fm2 \<and> (seqno_valid fm2 \<longrightarrow> goal_irq_on fm2)"
  proof (cases "seqno_valid fm")
    case False
    then have "h2 = h" "fm2 = ?fm" using g valid by (simp_all add: vmw_fence_goal_new_locked_def)
    moreover have "\<forall>f \<in> set (fence_list ?fm). seq_passed_actions (fence_heap ?fm f) = []"
      using li inv False by (simp add: fence_inv_def goal_armed_def)
    ultimately show ?thesis using False valid by (simp add: goal_armed_def)
  next
    case True
    then have on: "goal_irq_on fm" using inv by (simp add: fence_inv_def)
    show ?thesis
    proof (cases "VMW_FENCE_WRAP31 \<le> now - ioread32 h SVGA_FIFO_FENCE_GOAL")
      case late: True
      then have eq: "h2 = h" "fm2 = ?fm" using g valid True by (simp_all add: vmw_fence_goal_new_locked_def)
      obtain f where f: "f \<in> set (fence_list fm)" "seq_passed_actions (fence_heap fm f) \<noteq> []"
        "fifo_mem h SVGA_FIFO_FENCE_GOAL = fence_seqno (fence_heap fm f)"
        using inv True by (auto simp: fence_inv_def goal_armed_def)
      have "\<not> ?P f" using late f(3) by (simp add: passed_def ioread32_def not_less)
      then have "f \<notin> set (takeWhile ?P (fence_list fm))" by (auto dest: set_takeWhileD)
      moreover from this have "f \<in> set (fence_list ?fm)"
        using f(1) sp takeWhile_dropWhile_id [of ?P "fence_list fm"] by (metis Un_iff set_append)
      moreover have "fence_heap ?fm f = fence_heap fm f" using sp \<open>f \<notin> set (takeWhile ?P (fence_list fm))\<close> by blast
      ultimately have "\<exists>f \<in> set (fence_list ?fm). seq_passed_actions (fence_heap ?fm f) \<noteq> [] \<and>
          fifo_mem h SVGA_FIFO_FENCE_GOAL = fence_seqno (fence_heap ?fm f)"
        using f by (intro bexI [of _ f]) simp_all
      then show ?thesis using eq True on valid by (simp add: goal_armed_def)
    next
      case False
      show ?thesis
      proof (cases "filter (\<lambda>f. seq_passed_actions (fence_heap ?fm f) \<noteq> []) (fence_list ?fm)")
        case Nil
        with g valid True False have "fm2 = ?fm\<lparr>seqno_valid := False\<rparr>" by (simp add: vmw_fence_goal_new_locked_def)
        with Nil show ?thesis by (simp add: goal_armed_def filter_empty_conv)
      next
        case (Cons f fs)
        with g valid True False have "fm2 = ?fm\<lparr>seqno_valid := True\<rparr>"
          "h2 = iowrite32 (fence_seqno (fence_heap ?fm f)) SVGA_FIFO_FENCE_GOAL h"
          by (simp_all add: vmw_fence_goal_new_locked_def)
        moreover have "f \<in> set (filter (\<lambda>f. seq_passed_actions (fence_heap ?fm f) \<noteq> []) (fence_list ?fm))"
          using Cons by simp
        ultimately show ?thesis using on valid by (auto simp: goal_armed_def)
      qed
    qed
  qed
  with li keep acts unsig show ?thesis by (simp add: fence_inv_def)
qed

lemma fence_inv_cong:
  assumes "fence_inv h fm" "fifo_mem h' SVGA_FIFO_FENCE_GOAL = fifo_mem h SVGA_FIFO_FENCE_GOAL"
  shows "fence_inv h' fm" "fence_inv h' (fm\<lparr>work_scheduled := w\<rparr>)"
  using assms by (simp_all add: fence_inv_def goal_armed_def fence_actions_def)

lemma update_from_inv:
  "fence_inv h fm \<Longrightarrow> fence_inv (fst (fences_update_from h fm now vs)) (snd (fences_update_from h fm now vs))"
proof (induction vs arbitrary: h fm now)
  case Nil
  obtain h2 fm2 b where g: "vmw_fence_goal_new_locked h (signal_loop now (fence_list fm) fm) now = (h2, fm2, b)"
    by (metis prod_cases3)
  from update_once_inv [OF Nil g] g fence_inv_cong(2) [OF update_once_inv [OF Nil g] refl] show ?case
    by (simp add: Let_def)
next
  case (Cons v vs)
  obtain h2 fm2 b where g: "vmw_fence_goal_new_locked h (signal_loop now (fence_list fm) fm) now = (h2, fm2, b)"
    by (metis prod_cases3)
  let ?fm3 = "if cleanup_list fm2 \<noteq> [] then fm2\<lparr>work_scheduled := True\<rparr> else fm2"
  have i2: "fence_inv h2 ?fm3"
    using update_once_inv [OF Cons.prems g] fence_inv_cong(2) [OF update_once_inv [OF Cons.prems g] refl] by simp
  have i3: "fence_inv (iowrite32 v SVGA_FIFO_FENCE h2) ?fm3"
    by (rule fence_inv_cong(1) [OF i2]) (simp add: fifo_regs)
  have run: "fences_update_from h fm now (v # vs) =
      (if b then if v \<noteq> now then fences_update_from (iowrite32 v SVGA_FIFO_FENCE h2) ?fm3 v vs
                 else (iowrite32 v SVGA_FIFO_FENCE h2, ?fm3)
       else (h2, ?fm3))"
    by (subst fences_update_from.simps) (simp only: g Let_def split list.case)
  consider "\<not> b" | "b" "v \<noteq> now" | "b" "v = now" by blast
  then show ?case
  proof cases
    case 1
    then show ?thesis unfolding run using i2 by (simp only: if_False fst_conv snd_conv)
  next
    case 2
    then show ?thesis unfolding run using Cons.IH [OF i3, of v] by (simp only: if_True simp_thms)
  next
    case 3
    then show ?thesis unfolding run using i3 by (simp only: if_True if_False simp_thms fst_conv snd_conv)
  qed
qed

lemma update_inv: "fence_inv h fm \<Longrightarrow> vmw_fences_update h fm vs = (h', fm') \<Longrightarrow> fence_inv h' fm'"
  using update_from_inv [of h fm "ioread32 h SVGA_FIFO_FENCE" vs] by (simp add: vmw_fences_update_def)

lemma goal_new_keeps:
  "vmw_fence_goal_new_locked h fm now = (h2, fm2, b) \<Longrightarrow>
     fence_list fm2 = fence_list fm \<and> fence_heap fm2 = fence_heap fm \<and> event_queue fm2 = event_queue fm \<and>
     cleanup_list fm2 = cleanup_list fm \<and> action_heap fm2 = action_heap fm"
  by (auto simp: vmw_fence_goal_new_locked_def split: if_splits list.splits)

lemma update_quiet:
  assumes inv: "fence_inv h fm" and u: "vmw_fences_update h fm [] = (h', fm')"
  defines "P \<equiv> \<lambda>f. passed (ioread32 h SVGA_FIFO_FENCE) (fence_seqno (fence_heap fm f))"
  shows "fence_list fm' = dropWhile P (fence_list fm)"
    "event_queue fm' = event_queue fm @ events_of fm (fence_actions fm (takeWhile P (fence_list fm)))"
    "cleanup_list fm' = cleanup_list fm @ fence_actions fm (takeWhile P (fence_list fm))"
    "\<forall>f \<in> set (takeWhile P (fence_list fm)). signaled (fence_heap fm' f) AND DRM_VMW_FENCE_FLAG_EXEC \<noteq> 0"
    "\<forall>f. f \<notin> set (takeWhile P (fence_list fm)) \<longrightarrow> fence_heap fm' f = fence_heap fm f"
    "fence_inv h' fm'"
proof -
  let ?now = "ioread32 h SVGA_FIFO_FENCE"
  let ?fm = "signal_loop ?now (fence_list fm) fm"
  have d: "distinct (fence_list fm)" "distinct (fence_actions fm (fence_list fm))"
    using inv by (simp_all add: fence_inv_def)
  note sp = signal_loop_spec [OF refl d, of ?now, folded P_def]
  obtain h2 fm2 b where g: "vmw_fence_goal_new_locked h ?fm ?now = (h2, fm2, b)" by (metis prod_cases3)
  note k = goal_new_keeps [OF g]
  have "fm' = (if cleanup_list fm2 \<noteq> [] then fm2\<lparr>work_scheduled := True\<rparr> else fm2)"
    using u g by (simp add: vmw_fences_update_def Let_def split: if_splits)
  then have f: "fence_list fm' = fence_list ?fm" "event_queue fm' = event_queue ?fm"
    "cleanup_list fm' = cleanup_list ?fm" "fence_heap fm' = fence_heap ?fm" using k by simp_all
  show "fence_list fm' = dropWhile P (fence_list fm)"
    "event_queue fm' = event_queue fm @ events_of fm (fence_actions fm (takeWhile P (fence_list fm)))"
    "cleanup_list fm' = cleanup_list fm @ fence_actions fm (takeWhile P (fence_list fm))"
    "\<forall>f. f \<notin> set (takeWhile P (fence_list fm)) \<longrightarrow> fence_heap fm' f = fence_heap fm f"
    using f sp by simp_all
  have "(s OR DRM_VMW_FENCE_FLAG_EXEC) AND DRM_VMW_FENCE_FLAG_EXEC = DRM_VMW_FENCE_FLAG_EXEC" for s
    by (rule bit_eqI) (auto simp: bit_simps)
  moreover have "DRM_VMW_FENCE_FLAG_EXEC \<noteq> 0" by (simp add: DRM_VMW_FENCE_FLAG_EXEC_def)
  ultimately show "\<forall>f \<in> set (takeWhile P (fence_list fm)). signaled (fence_heap fm' f) AND DRM_VMW_FENCE_FLAG_EXEC \<noteq> 0"
    using f sp by simp
  show "fence_inv h' fm'" by (rule update_inv [OF inv u])
qed

section \<open>Properties\<close>

text \<open>C16: an update signals and delivers.  The fences at the head of the list whose seqno the
  device has passed leave the list and get the \<open>EXEC\<close> flag, the events of their actions are
  queued for the client, each once and in the order of the fences, and the actions are
  handed to the clean-up work; the others are untouched.  While a fence with an action is
  left, the device stays armed at the seqno of such a fence.\<close>

theorem vmw_fences_update_delivers:
  assumes "fence_inv h fm"
  shows "case vmw_fences_update h fm [] of (h', fm') \<Rightarrow>
    let old = takeWhile (\<lambda>f. passed (ioread32 h SVGA_FIFO_FENCE) (fence_seqno (fence_heap fm f))) (fence_list fm) in
    fence_list fm = old @ fence_list fm' \<and>
    (\<forall>f \<in> set old. signaled (fence_heap fm' f) AND DRM_VMW_FENCE_FLAG_EXEC \<noteq> 0) \<and>
    (\<forall>f \<in> set (fence_list fm'). fence_heap fm' f = fence_heap fm f) \<and>
    event_queue fm' = event_queue fm @ events_of fm (fence_actions fm old) \<and>
    cleanup_list fm' = cleanup_list fm @ fence_actions fm old \<and> fence_inv h' fm'"
proof -
  obtain h' fm' where u: "vmw_fences_update h fm [] = (h', fm')" by (metis surj_pair)
  note q = update_quiet [OF assms u]
  have "distinct (fence_list fm)" using assms by (simp add: fence_inv_def)
  with q(1,5) have "\<forall>f \<in> set (fence_list fm'). fence_heap fm' f = fence_heap fm f"
    using dropWhile_not_take by metis
  with q show ?thesis by (simp add: u Let_def)
qed

lemma action_appended_inv:
  assumes inv: "fence_inv h fm" and f: "f \<in> set (fence_list fm)" and a: "a \<notin> set (fence_actions fm (fence_list fm))"
  defines "fm2 \<equiv> upd_fence f (\<lambda>x. x\<lparr>seq_passed_actions := seq_passed_actions x @ [a]\<rparr>)
      (fm\<lparr>pending_actions := pending_actions fm + 1\<rparr>)"
  assumes g: "vmw_fence_goal_check_locked h fm2 f = (h3, fm3, run)"
  shows "fence_inv h3 (fm3\<lparr>goal_irq_on := True\<rparr>) \<and> (\<not> run \<longrightarrow> goal_irq_on fm3) \<and>
    fence_list fm3 = fence_list fm \<and> action_heap fm3 = action_heap fm \<and> event_queue fm3 = event_queue fm \<and>
    a \<in> set (seq_passed_actions (fence_heap fm3 f))"
proof -
  have d: "distinct (fence_list fm)" "distinct (fence_actions fm (fence_list fm))"
    and uns: "\<forall>f \<in> set (fence_list fm). signaled (fence_heap fm f) AND DRM_VMW_FENCE_FLAG_EXEC = 0"
    using inv by (simp_all add: fence_inv_def)
  obtain xs ys where ns: "fence_list fm = xs @ f # ys" using f by (metis split_list)
  have nin: "f \<notin> set xs" "f \<notin> set ys" using d(1) ns by auto
  have acts: "fence_actions fm2 xs = fence_actions fm xs" "fence_actions fm2 ys = fence_actions fm ys"
    "fence_actions fm2 [f] = fence_actions fm [f] @ [a]"
    using nin by (auto simp: fence_actions_def fm2_def upd_fence_def intro!: arg_cong [where f = concat])
  have split: "fence_actions m (xs @ f # ys) = fence_actions m xs @ fence_actions m [f] @ fence_actions m ys" for m
    by (simp add: fence_actions_def)
  have dist: "distinct (fence_actions fm2 (fence_list fm2))"
    using d(2) a acts by (auto simp: fm2_def upd_fence_def ns split)
  have sig: "signaled (fence_heap fm2 f) AND DRM_VMW_FENCE_FLAG_EXEC = 0"
    using uns f by (simp add: fm2_def upd_fence_def)
  have fm2: "fence_list fm2 = fence_list fm" "seqno_valid fm2 = seqno_valid fm" "goal_irq_on fm2 = goal_irq_on fm"
    "action_heap fm2 = action_heap fm" "event_queue fm2 = event_queue fm"
    "\<And>g. g \<noteq> f \<Longrightarrow> fence_heap fm2 g = fence_heap fm g"
    "seq_passed_actions (fence_heap fm2 f) = seq_passed_actions (fence_heap fm f) @ [a]"
    "fence_seqno (fence_heap fm2 f) = fence_seqno (fence_heap fm f)"
    "\<forall>g \<in> set (fence_list fm). signaled (fence_heap fm2 g) AND DRM_VMW_FENCE_FLAG_EXEC = 0"
    using uns by (simp_all add: fm2_def upd_fence_def)
  consider "h3 = h" "fm3 = fm2" "\<not> run" "seqno_valid fm"
    | "h3 = iowrite32 (fence_seqno (fence_heap fm2 f)) SVGA_FIFO_FENCE_GOAL h" "fm3 = fm2\<lparr>seqno_valid := True\<rparr>" "run"
  proof (cases "seqno_valid fm2 \<and> ioread32 h SVGA_FIFO_FENCE_GOAL - fence_seqno (fence_heap fm2 f) < VMW_FENCE_WRAP31")
    case True
    then have "h3 = h \<and> fm3 = fm2 \<and> \<not> run" using g sig by (simp add: vmw_fence_goal_check_locked_def Let_def)
    with True fm2(2) that(1) show ?thesis by simp
  next
    case False
    then have "h3 = iowrite32 (fence_seqno (fence_heap fm2 f)) SVGA_FIFO_FENCE_GOAL h \<and>
        fm3 = fm2\<lparr>seqno_valid := True\<rparr> \<and> run"
      using g sig unfolding vmw_fence_goal_check_locked_def Let_def by (simp only: simp_thms if_False prod.inject)
    with that(2) show ?thesis by simp
  qed
  then show ?thesis
  proof cases
    case 1
    obtain g where g: "g \<in> set (fence_list fm)" "seq_passed_actions (fence_heap fm g) \<noteq> []"
      "fifo_mem h SVGA_FIFO_FENCE_GOAL = fence_seqno (fence_heap fm g)" and on: "goal_irq_on fm"
      using inv 1(4) by (auto simp: fence_inv_def goal_armed_def)
    have "seq_passed_actions (fence_heap fm2 g) \<noteq> [] \<and> fence_seqno (fence_heap fm2 g) = fence_seqno (fence_heap fm g)"
      using g(2) fm2(6,7,8) by (cases "g = f") auto
    then have "goal_armed h fm2" using g fm2(1,2) 1(4) by (auto simp: goal_armed_def)
    then show ?thesis using 1 dist d(1) fm2 on by (simp add: fence_inv_def goal_armed_def fence_actions_def)
  next
    case 2
    have "\<exists>g \<in> set (fence_list fm). seq_passed_actions (fence_heap fm2 g) \<noteq> [] \<and>
        fence_seqno (fence_heap fm2 f) = fence_seqno (fence_heap fm2 g)"
      using f fm2(7) by (intro bexI [of _ f]) simp_all
    then have "goal_armed h3 fm3" using 2 fm2(1) by (simp add: goal_armed_def)
    then show ?thesis using 2 dist d(1) fm2 by (simp add: fence_inv_def goal_armed_def fence_actions_def)
  qed
qed

text \<open>As long as the device has not passed the goal an update leaves the device alone.\<close>

lemma update_goal_stays:
  assumes "\<not> passed (ioread32 h SVGA_FIFO_FENCE) (ioread32 h SVGA_FIFO_FENCE_GOAL)"
  shows "fst (vmw_fences_update h fm []) = h"
  using assms
  by (simp add: vmw_fences_update_def vmw_fence_goal_new_locked_def passed_def not_less Let_def split: prod.split)

text \<open>Which goal the device is left with: one that is in use and not before the fence, modulo wrap-around,
  stays; otherwise the fence becomes the goal, until the device passes it.\<close>

definition goal_kept :: "vmw_hw \<Rightarrow> vmw_fence_manager \<Rightarrow> nat \<Rightarrow> bool" where
  "goal_kept h fm f \<longleftrightarrow>
     seqno_valid fm \<and> ioread32 h SVGA_FIFO_FENCE_GOAL - fence_seqno (fence_heap fm f) < VMW_FENCE_WRAP31"

lemma add_action_goal:
  assumes uns: "signaled (fence_heap fm f) AND DRM_VMW_FENCE_FLAG_EXEC = 0"
    and add: "vmw_fence_obj_add_action h fm f a [] = (h', fm')"
  shows "if goal_kept h fm f then h' = h
    else passed (ioread32 h SVGA_FIFO_FENCE) (fence_seqno (fence_heap fm f)) \<or>
      ioread32 h' SVGA_FIFO_FENCE_GOAL = fence_seqno (fence_heap fm f)"
proof (cases "goal_kept h fm f")
  case True
  with uns add show ?thesis
    by (simp add: vmw_fence_obj_add_action_def vmw_fence_goal_check_locked_def goal_kept_def upd_fence_def Let_def)
next
  case False
  let ?x = "fence_seqno (fence_heap fm f)"
  let ?h3 = "iowrite32 ?x SVGA_FIFO_FENCE_GOAL h"
  let ?h4 = "if \<not> goal_irq_on fm then vmw_goal_waiter_add ?h3 else ?h3"
  have mem: "ioread32 ?h4 SVGA_FIFO_FENCE = ioread32 h SVGA_FIFO_FENCE" "ioread32 ?h4 SVGA_FIFO_FENCE_GOAL = ?x"
    by (simp_all add: vmw_goal_waiter_add_def irq_enable_def ioread32_def iowrite32_def fifo_regs Let_def)
  have "\<exists>fm4. vmw_fences_update ?h4 fm4 [] = (h', fm')"
    using False uns add
    by (auto simp: vmw_fence_obj_add_action_def vmw_fence_goal_check_locked_def goal_kept_def upd_fence_def Let_def
             split: if_splits)
  then obtain fm4 where "vmw_fences_update ?h4 fm4 [] = (h', fm')" by blast
  with update_goal_stays [of ?h4 fm4] mem False show ?thesis by (auto simp: split: if_splits)
qed

text \<open>C17: attaching an event never loses it.  To a fence that has signalled, the event is
  delivered at once.  To a fence that has not, the action is attached and the device is armed
  at the seqno of a fence with an action, with the goal interrupt on; if the device has
  passed the fence meanwhile, and the call updated the fences, the event is delivered before
  the call returns.  Which goal is armed: one that is in use and at or after the fence stays
  (\<open>goal_kept\<close>), and the call then touches nothing else of the device; otherwise the fence
  itself becomes the goal, unless the device has passed it.  That is what the code does; the
  comment above \<open>vmw_fence_goal_check_locked\<close> asks for the opposite (\<open>goal_not_lowered\<close>), so
  with a later goal in use the event comes only when the device reaches that goal or some
  other update of the fences happens.\<close>

theorem vmw_fence_obj_add_action_keeps:
  assumes inv: "fence_inv h fm"
    and f: "f \<in> set (fence_list fm) \<or> signaled (fence_heap fm f) AND DRM_VMW_FENCE_FLAG_EXEC \<noteq> 0"
    and a: "a \<notin> set (fence_actions fm (fence_list fm))" and e: "eaction_event (action_heap fm a) = Some e"
  shows "case vmw_fence_obj_add_action h fm f a [] of (h', fm') \<Rightarrow>
    fence_inv h' fm' \<and>
    (e \<in> set (event_queue fm') \<or>
     f \<in> set (fence_list fm') \<and> a \<in> set (seq_passed_actions (fence_heap fm' f)) \<and> seqno_valid fm' \<and> goal_irq_on fm') \<and>
    (signaled (fence_heap fm f) AND DRM_VMW_FENCE_FLAG_EXEC = 0 \<longrightarrow>
       (if goal_kept h fm f then h' = h
        else passed (ioread32 h SVGA_FIFO_FENCE) (fence_seqno (fence_heap fm f)) \<or>
          ioread32 h' SVGA_FIFO_FENCE_GOAL = fence_seqno (fence_heap fm f)))"
proof (cases "signaled (fence_heap fm f) AND DRM_VMW_FENCE_FLAG_EXEC = 0")
  case False
  let ?fm1 = "fm\<lparr>pending_actions := pending_actions fm + 1\<rparr>"
  have eq: "vmw_fence_obj_add_action h fm f a [] = (h, vmw_fences_perform_actions [a] ?fm1)"
    using False by (simp add: vmw_fence_obj_add_action_def Let_def del: vmw_fences_perform_actions.simps)
  have "distinct [a]" by simp
  note p = perform_actions_spec [OF this, of ?fm1]
  have "e \<in> set (event_queue (vmw_fences_perform_actions [a] ?fm1))"
    using p e by (simp del: vmw_fences_perform_actions.simps)
  moreover have "fence_inv h (vmw_fences_perform_actions [a] ?fm1)"
    using p inv by (simp add: fence_inv_def goal_armed_def fence_actions_def del: vmw_fences_perform_actions.simps)
  ultimately show ?thesis using False by (simp add: eq del: vmw_fences_perform_actions.simps)
next
  case True
  then have fl: "f \<in> set (fence_list fm)" using f by simp
  let ?fm2 = "upd_fence f (\<lambda>x. x\<lparr>seq_passed_actions := seq_passed_actions x @ [a]\<rparr>)
      (fm\<lparr>pending_actions := pending_actions fm + 1\<rparr>)"
  obtain h3 fm3 run where g: "vmw_fence_goal_check_locked h ?fm2 f = (h3, fm3, run)" by (rule prod_cases3)
  note ap = action_appended_inv [OF inv fl a g]
  show ?thesis
  proof (cases run)
    case False
    then have eq: "vmw_fence_obj_add_action h fm f a [] = (h3, fm3)"
      using True g by (simp add: vmw_fence_obj_add_action_def Let_def)
    have "goal_irq_on fm3" using ap False by simp
    then have "fm3\<lparr>goal_irq_on := True\<rparr> = fm3" by simp
    then have i3: "fence_inv h3 fm3" using ap by simp
    have "f \<in> set (fence_list fm3)" "seq_passed_actions (fence_heap fm3 f) \<noteq> []" using ap fl by auto
    then have "\<not> (\<forall>f \<in> set (fence_list fm3). seq_passed_actions (fence_heap fm3 f) = [])" by blast
    then have "seqno_valid fm3" using i3 by (auto simp: fence_inv_def goal_armed_def split: if_splits)
    with i3 ap fl \<open>goal_irq_on fm3\<close> add_action_goal [OF True eq] show ?thesis by (simp add: eq)
  next
    case run: True
    let ?h4 = "if \<not> goal_irq_on fm3 then vmw_goal_waiter_add h3 else h3" and ?fm4 = "fm3\<lparr>goal_irq_on := True\<rparr>"
    obtain h' fm' where u: "vmw_fences_update ?h4 ?fm4 [] = (h', fm')" by (metis surj_pair)
    have eq: "vmw_fence_obj_add_action h fm f a [] = (h', fm')"
    proof (cases "goal_irq_on fm3")
      case on: True
      then have "?fm4 = fm3" by simp
      with u on have "vmw_fences_update h3 fm3 [] = (h', fm')" by simp
      with True g run on show ?thesis by (simp add: vmw_fence_obj_add_action_def Let_def)
    next
      case False
      with True g run u show ?thesis by (simp add: vmw_fence_obj_add_action_def Let_def)
    qed
    have i4: "fence_inv ?h4 ?fm4" using ap by (auto intro: fence_inv_cong(1))
    let ?P = "\<lambda>f. passed (ioread32 ?h4 SVGA_FIFO_FENCE) (fence_seqno (fence_heap ?fm4 f))"
    note q = update_quiet [OF i4 u]
    have d: "distinct (fence_list ?fm4)" using i4 by (simp add: fence_inv_def)
    have f4: "f \<in> set (fence_list ?fm4)" using ap fl by simp
    have a4: "a \<in> set (seq_passed_actions (fence_heap ?fm4 f))" "eaction_event (action_heap ?fm4 a) = Some e"
      using ap e by simp_all
    show ?thesis
    proof (cases "f \<in> set (takeWhile ?P (fence_list ?fm4))")
      case True
      then have "a \<in> set (fence_actions ?fm4 (takeWhile ?P (fence_list ?fm4)))"
        using a4(1) by (auto simp: fence_actions_def)
      then have "e \<in> set (event_queue fm')"
        using q(2) a4(2) by (auto simp: events_of_def set_map_filter)
      with q(6) add_action_goal [OF \<open>signaled _ AND _ = 0\<close> eq] show ?thesis by (simp add: eq)
    next
      case False
      then have l': "f \<in> set (fence_list fm')"
        using f4 q(1) takeWhile_dropWhile_id [of ?P "fence_list ?fm4"] by (metis Un_iff set_append)
      have a': "a \<in> set (seq_passed_actions (fence_heap fm' f))" using q(5) False a4(1) by simp
      then have "seqno_valid fm'" using q(6) l' by (auto simp: fence_inv_def goal_armed_def split: if_splits)
      then have "goal_irq_on fm'" using q(6) by (simp add: fence_inv_def)
      with \<open>seqno_valid fm'\<close> q(6) l' a' add_action_goal [OF \<open>signaled _ AND _ = 0\<close> eq] show ?thesis by (simp add: eq)
    qed
  qed
qed

definition two_fences :: vmw_fence_manager where
  "two_fences =
     \<lparr>fence_heap = (\<lambda>f. \<lparr>fence_kref = 1, fence_seqno = of_nat f, signaled = 0, signal_mask = 1, seq_passed_actions = []\<rparr>),
      action_heap = (\<lambda>a. \<lparr>eaction_event = Some (a + 100), eaction_fence = 7\<rparr>), num_fence_objects = 2,
      fence_list = [5, 7], cleanup_list = [], pending_actions = 0, fence_events = [20, 21], event_queue = [],
      event_space = 4096, fifo_down = False, goal_irq_on = False, seqno_valid = False, work_scheduled = False\<rparr>"

definition fence_hw :: "u32 \<Rightarrow> vmw_hw" where
  "fence_hw now = \<lparr>fifo_mem = (\<lambda>_. 0)(SVGA_FIFO_FENCE := now), hw_caps = 0, reg_writes = [], irq_acks = [], irq_mask = 0,
     fence_queue_waiters = 0, goal_queue_waiters = 0, fifo_queue_waiters = 0\<rparr>"

lemma two_fences_inv: "fence_inv h two_fences"
  by (simp add: fence_inv_def goal_armed_def two_fences_def fence_actions_def)

theorem vmw_fence_obj_add_action_keeps_witness:
  "\<exists>h' fm'. vmw_fence_obj_add_action (fence_hw 3) two_fences 7 20 [] = (h', fm') \<and> fence_inv h' fm' \<and>
     ioread32 h' SVGA_FIFO_FENCE_GOAL = 7"
proof -
  have "7 \<in> set (fence_list two_fences) \<or> signaled (fence_heap two_fences 7) AND DRM_VMW_FENCE_FLAG_EXEC \<noteq> 0"
    "20 \<notin> set (fence_actions two_fences (fence_list two_fences))"
    "eaction_event (action_heap two_fences 20) = Some 120"
    by (simp_all add: two_fences_def fence_actions_def)
  note keeps = vmw_fence_obj_add_action_keeps [OF two_fences_inv this, of "fence_hw 3"]
  have "signaled (fence_heap two_fences 7) AND DRM_VMW_FENCE_FLAG_EXEC = 0" "\<not> goal_kept (fence_hw 3) two_fences 7"
    "\<not> passed (ioread32 (fence_hw 3) SVGA_FIFO_FENCE) (fence_seqno (fence_heap two_fences 7))"
    "fence_seqno (fence_heap two_fences 7) = 7"
    by (simp_all add: two_fences_def goal_kept_def fence_hw_def ioread32_def passed_def VMW_FENCE_WRAP31_def)
  with keeps show ?thesis by (auto split: prod.splits)
qed

theorem vmw_fences_update_delivers_witness:
  "\<exists>h' fm'. vmw_fences_update (fence_hw 6) two_fences [] = (h', fm') \<and> fence_list fm' = [7]"
proof -
  have "takeWhile (\<lambda>f. passed (ioread32 (fence_hw 6) SVGA_FIFO_FENCE) (fence_seqno (fence_heap two_fences f)))
      (fence_list two_fences) = [5]"
    by (simp add: two_fences_def fence_hw_def ioread32_def passed_def VMW_FENCE_WRAP31_def)
  moreover have "fence_list two_fences = [5, 7]" by (simp add: two_fences_def)
  ultimately show ?thesis using vmw_fences_update_delivers [OF two_fences_inv, of "fence_hw 6"]
    by (auto simp: Let_def)
qed

section \<open>Where the code differs from its comments\<close>

text \<open>The comment of \<open>vmw_fence_goal_check_locked\<close> asks for a new goal when the current one has
  a higher seqno than the fence.  The code keeps a goal that is higher and replaces one that
  is lower: with a goal of 7 in place, an action on the fence with seqno 5 leaves the goal,
  and the device passing 5 raises no interrupt for it.\<close>

lemma goal_not_lowered:
  "vmw_fence_goal_check_locked ((fence_hw 3)\<lparr>fifo_mem := (fifo_mem (fence_hw 3))(SVGA_FIFO_FENCE_GOAL := 7)\<rparr>)
     (two_fences\<lparr>seqno_valid := True\<rparr>) 5 =
   ((fence_hw 3)\<lparr>fifo_mem := (fifo_mem (fence_hw 3))(SVGA_FIFO_FENCE_GOAL := 7)\<rparr>, two_fences\<lparr>seqno_valid := True\<rparr>, False)"
  by (simp add: vmw_fence_goal_check_locked_def two_fences_def ioread32_def VMW_FENCE_WRAP31_def)

text \<open>A failed request for an event gives back more of the client's event space than it took.\<close>

lemma event_space_grows:
  assumes "sizeof_event_fence \<le> event_space fm"
  shows "\<exists>fm'. vmw_event_fence_action_create h fm f None k vs = (h, fm', Inl ENOMEM) \<and> event_space fm < event_space fm'"
  using assms by (simp add: vmw_event_fence_action_create_def sizeof_event_fence_def sizeof_event_fence_pending_def Let_def)

end
