(* ===== verification/Marker.thy ===== *)
theory Marker
  imports Prelude
begin

text \<open>
  The marker queue of \<open>src/vmwgfx_marker.c\<close>, which measures how far the device lags behind
  the command submission: every fence leaves a marker with its time of submission, and
  markers that have signalled are pulled off to update the lag.  Seqnos wrap at 32 bits.
  Readings of the clock and outcomes of \<open>vmw_wait_seqno\<close> are arguments.
\<close>

section \<open>Kernel time stamps\<close>

record timespec =
  tv_sec :: int
  tv_nsec :: int

definition NSEC_PER_SEC :: int where "NSEC_PER_SEC = 1000000000"

definition timespec_to_ns :: "timespec \<Rightarrow> int" where
  "timespec_to_ns t = tv_sec t * NSEC_PER_SEC + tv_nsec t"

definition ns_to_timespec :: "int \<Rightarrow> timespec" where
  "ns_to_timespec n = \<lparr>tv_sec = n div NSEC_PER_SEC, tv_nsec = n mod NSEC_PER_SEC\<rparr>"

definition timespec_sub :: "timespec \<Rightarrow> timespec \<Rightarrow> timespec" where
  "timespec_sub a b = ns_to_timespec (timespec_to_ns a - timespec_to_ns b)"

definition timespec_compare :: "timespec \<Rightarrow> timespec \<Rightarrow> int" where
  "timespec_compare a b =
     (if tv_sec a < tv_sec b then -1 else if tv_sec b < tv_sec a then 1 else tv_nsec a - tv_nsec b)"

definition normalised :: "timespec \<Rightarrow> bool" where
  "normalised t \<longleftrightarrow> 0 \<le> tv_nsec t \<and> tv_nsec t < NSEC_PER_SEC"

section \<open>The queue\<close>

record vmw_marker =
  seqno :: u32
  submitted :: timespec

record vmw_marker_queue =
  markers :: "vmw_marker list"
  lag :: timespec
  lag_time :: timespec

definition vmw_marker_queue_init :: "timespec \<Rightarrow> vmw_marker_queue" where
  "vmw_marker_queue_init now = \<lparr>markers = [], lag = ns_to_timespec 0, lag_time = now\<rparr>"

definition vmw_marker_push :: "vmw_marker_queue \<Rightarrow> u32 \<Rightarrow> timespec \<Rightarrow> bool \<Rightarrow> vmw_marker_queue \<times> unit res" where
  "vmw_marker_push q s now alloc_ok =
     (if \<not> alloc_ok then (q, Inl ENOMEM)
      else (q\<lparr>markers := markers q @ [\<lparr>seqno = s, submitted = now\<rparr>]\<rparr>, Inr ()))"

text \<open>The loop over the markers: those kept, and the lag, its time and whether any was
  removed.\<close>

fun pull_loop ::
  "u32 \<Rightarrow> timespec \<Rightarrow> vmw_marker list \<Rightarrow> timespec \<times> timespec \<times> bool \<Rightarrow> vmw_marker list \<times> timespec \<times> timespec \<times> bool"
where
  "pull_loop signaled now [] acc = ([], acc)"
| "pull_loop signaled now (m # ms) acc =
     (if push_bit 30 1 < signaled - seqno m
      then (let (kept, acc') = pull_loop signaled now ms acc in (m # kept, acc'))
      else pull_loop signaled now ms (timespec_sub now (submitted m), now, True))"

definition vmw_marker_pull :: "vmw_marker_queue \<Rightarrow> u32 \<Rightarrow> timespec \<Rightarrow> vmw_marker_queue \<times> unit res" where
  "vmw_marker_pull q signaled now =
     (if markers q = [] then (q\<lparr>lag := ns_to_timespec 0, lag_time := now\<rparr>, Inr ())
      else
        (let (kept, l, lt, updated) = pull_loop signaled now (markers q) (lag q, lag_time q, False)
         in (q\<lparr>markers := kept, lag := l, lag_time := lt\<rparr>, if updated then Inr () else Inl EBUSY)))"

definition vmw_timespec_add :: "timespec \<Rightarrow> timespec \<Rightarrow> timespec" where
  "vmw_timespec_add t1 t2 =
     (let s = tv_sec t1 + tv_sec t2; n = tv_nsec t1 + tv_nsec t2
      in if 1000000000 \<le> n then \<lparr>tv_sec = s + 1, tv_nsec = n - 1000000000\<rparr>
         else \<lparr>tv_sec = s, tv_nsec = n\<rparr>)"

definition vmw_fifo_lag :: "vmw_marker_queue \<Rightarrow> timespec \<Rightarrow> vmw_marker_queue \<times> timespec" where
  "vmw_fifo_lag q now =
     (let l = vmw_timespec_add (lag q) (timespec_sub now (lag_time q))
      in (q\<lparr>lag := l, lag_time := now\<rparr>, l))"

definition vmw_lag_lt :: "vmw_marker_queue \<Rightarrow> u32 \<Rightarrow> timespec \<Rightarrow> vmw_marker_queue \<times> bool" where
  "vmw_lag_lt q us now =
     (let bound = ns_to_timespec (uint us * 1000); (q', l) = vmw_fifo_lag q now
      in (q', timespec_compare l bound < 1))"

text \<open>One round of \<open>vmw_wait_lag\<close> reads the clock, may read the seqno of the last marker
  that was queued, waits for a seqno and reads the clock again.\<close>

record lag_round =
  round_now :: timespec
  round_marker_seq :: u32
  round_wait :: "unit res"
  round_pulled :: timespec

fun vmw_wait_lag :: "vmw_marker_queue \<Rightarrow> u32 \<Rightarrow> lag_round list \<Rightarrow> (vmw_marker_queue \<times> unit res) option" where
  "vmw_wait_lag q us [] = None"
| "vmw_wait_lag q us (r # rs) =
     (let (q1, low) = vmw_lag_lt q us (round_now r) in
      if low then Some (q1, Inr ())
      else
        (let s = (case markers q1 of [] \<Rightarrow> round_marker_seq r | m # _ \<Rightarrow> seqno m) in
         case round_wait r of
           Inl e \<Rightarrow> Some (q1, Inl e)
         | Inr _ \<Rightarrow> vmw_wait_lag (fst (vmw_marker_pull q1 s (round_pulled r))) us rs))"

section \<open>Time arithmetic\<close>

lemma ns_to_timespec_ns [simp]: "timespec_to_ns (ns_to_timespec n) = n"
  by (simp add: timespec_to_ns_def ns_to_timespec_def)

lemma ns_to_timespec_normalised [simp]: "normalised (ns_to_timespec n)"
  by (simp add: normalised_def ns_to_timespec_def NSEC_PER_SEC_def)

lemma timespec_sub_facts [simp]:
  "timespec_to_ns (timespec_sub a b) = timespec_to_ns a - timespec_to_ns b"
  "normalised (timespec_sub a b)"
  by (simp_all add: timespec_sub_def)

lemma timespec_add_ns [simp]:
  "timespec_to_ns (vmw_timespec_add a b) = timespec_to_ns a + timespec_to_ns b"
  by (simp add: vmw_timespec_add_def timespec_to_ns_def NSEC_PER_SEC_def Let_def algebra_simps)

lemma timespec_add_normalised:
  "normalised a \<Longrightarrow> normalised b \<Longrightarrow> normalised (vmw_timespec_add a b)"
  by (auto simp: vmw_timespec_add_def normalised_def NSEC_PER_SEC_def Let_def)

lemma timespec_compare_le:
  assumes "normalised a" "normalised b"
  shows "timespec_compare a b < 1 \<longleftrightarrow> timespec_to_ns a \<le> timespec_to_ns b"
  using assms by (auto simp: timespec_compare_def timespec_to_ns_def normalised_def NSEC_PER_SEC_def)

section \<open>Pulling\<close>

definition pulled :: "u32 \<Rightarrow> vmw_marker \<Rightarrow> bool" where
  "pulled signaled m \<longleftrightarrow> signaled - seqno m \<le> push_bit 30 1"

lemma pull_loop_filter:
  "pull_loop signaled now ms acc =
     (filter (\<lambda>m. \<not> pulled signaled m) ms,
      case rev (filter (pulled signaled) ms) of [] \<Rightarrow> acc
      | m # _ \<Rightarrow> (timespec_sub now (submitted m), now, True))"
proof (induction ms arbitrary: acc)
  case (Cons m ms)
  have c: "1073741824 < signaled - seqno m \<longleftrightarrow> \<not> pulled signaled m" by (simp add: pulled_def not_le)
  show ?case by (cases "rev (filter (pulled signaled) ms)") (simp_all add: c Cons)
qed simp

lemma pulled_window:
  fixes base signaled :: u32
  assumes s: "unat (signaled - base) < 2 ^ 30" and m: "unat (seqno m - base) < 2 ^ 30"
  shows "pulled signaled m \<longleftrightarrow> unat (seqno m - base) \<le> unat (signaled - base)"
proof -
  have eq: "signaled - seqno m = (signaled - base) - (seqno m - base)" by simp
  show ?thesis
  proof (cases "unat (seqno m - base) \<le> unat (signaled - base)")
    case True
    then have "unat (signaled - seqno m) = unat (signaled - base) - unat (seqno m - base)"
      unfolding eq by (rule unat_sub_le)
    with True s show ?thesis by (simp add: pulled_def word_le_nat_alt)
  next
    case False
    then have "unat (signaled - seqno m) = unat (signaled - base) + 4294967296 - unat (seqno m - base)"
      unfolding eq unat_sub_if_size [of "signaled - base" "seqno m - base"] by (simp add: word_size)
    with False m show ?thesis by (simp add: pulled_def word_le_nat_alt)
  qed
qed

lemma sorted_prefix:
  assumes "sorted (map f ms)"
  shows "filter (\<lambda>m. f m \<le> (b :: nat)) ms = takeWhile (\<lambda>m. f m \<le> b) ms"
    "filter (\<lambda>m. \<not> f m \<le> b) ms = dropWhile (\<lambda>m. f m \<le> b) ms"
proof -
  have "filter (\<lambda>m. f m \<le> b) ms = takeWhile (\<lambda>m. f m \<le> b) ms \<and>
    filter (\<lambda>m. \<not> f m \<le> b) ms = dropWhile (\<lambda>m. f m \<le> b) ms"
    using assms
  proof (induction ms)
    case (Cons m ms)
    then have "\<not> f m \<le> b \<Longrightarrow> \<forall>x \<in> set ms. \<not> f x \<le> b" by fastforce
    then have "\<not> f m \<le> b \<Longrightarrow> filter (\<lambda>m. f m \<le> b) ms = [] \<and> filter (\<lambda>m. \<not> f m \<le> b) ms = ms"
      by (simp add: filter_empty_conv filter_id_conv)
    with Cons show ?case by auto
  qed simp
  then show "filter (\<lambda>m. f m \<le> b) ms = takeWhile (\<lambda>m. f m \<le> b) ms"
    "filter (\<lambda>m. \<not> f m \<le> b) ms = dropWhile (\<lambda>m. f m \<le> b) ms" by simp_all
qed

section \<open>Waiting\<close>

text \<open>When \<open>vmw_wait_lag\<close> returns success, the lag it last measured is at most the given
  number of microseconds; when it fails, it is with the error of a wait for a seqno, and
  before that error the lag was too large.\<close>

lemma vmw_wait_lag_result:
  "case vmw_wait_lag q us rs of
     None \<Rightarrow> True
   | Some (q', Inr _) \<Rightarrow> normalised (lag q) \<longrightarrow> timespec_to_ns (lag q') \<le> uint us * 1000
   | Some (q', Inl e) \<Rightarrow> (\<exists>r \<in> set rs. round_wait r = Inl e) \<and>
       (normalised (lag q) \<longrightarrow> uint us * 1000 < timespec_to_ns (lag q'))"
proof (induction q us rs rule: vmw_wait_lag.induct)
  case (2 q us r rs)
  obtain q1 low where lt: "vmw_lag_lt q us (round_now r) = (q1, low)" by (metis surj_pair)
  have n1: "normalised (lag q) \<Longrightarrow> normalised (lag q1)"
    and low: "normalised (lag q) \<Longrightarrow> low \<longleftrightarrow> timespec_to_ns (lag q1) \<le> uint us * 1000"
    using lt by (auto simp: vmw_lag_lt_def vmw_fifo_lag_def Let_def timespec_compare_le timespec_add_normalised)
  have n2: "normalised (lag q1) \<Longrightarrow> normalised (lag (fst (vmw_marker_pull q1 s t)))" for s t
    by (auto simp: vmw_marker_pull_def pull_loop_filter split: list.splits)
  show ?case
  proof (cases low)
    case True
    with lt low show ?thesis by simp
  next
    case False
    show ?thesis
    proof (cases "round_wait r")
      case (Inl e)
      with False lt low show ?thesis by (auto simp: not_le)
    next
      case (Inr u)
      let ?s = "case markers q1 of [] \<Rightarrow> round_marker_seq r | m # _ \<Rightarrow> seqno m"
      let ?q2 = "fst (vmw_marker_pull q1 ?s (round_pulled r))"
      have eq: "vmw_wait_lag q us (r # rs) = vmw_wait_lag ?q2 us rs" using False Inr lt by simp
      have "case vmw_wait_lag ?q2 us rs of
          None \<Rightarrow> True
        | Some (q', Inr _) \<Rightarrow> normalised (lag ?q2) \<longrightarrow> timespec_to_ns (lag q') \<le> uint us * 1000
        | Some (q', Inl e) \<Rightarrow> (\<exists>r \<in> set rs. round_wait r = Inl e) \<and>
            (normalised (lag ?q2) \<longrightarrow> uint us * 1000 < timespec_to_ns (lag q'))"
        using 2 [OF lt [symmetric] refl False refl] Inr by simp
      with n1 n2 show ?thesis unfolding eq by (fastforce split: option.splits sum.splits)
    qed
  qed
qed simp

text \<open>From reading the clock in a pull to reading it again in the next round takes at most the
  lag that is waited for.\<close>

fun prompt :: "u32 \<Rightarrow> lag_round list \<Rightarrow> bool" where
  "prompt us (r # r' # rs) \<longleftrightarrow>
     timespec_to_ns (round_now r') - timespec_to_ns (round_pulled r) \<le> uint us * 1000 \<and> prompt us (r' # rs)"
| "prompt us _ \<longleftrightarrow> True"

lemma vmw_wait_lag_some:
  assumes "normalised (lag q)" "prompt us rs" "\<forall>r \<in> set rs. round_wait r = Inr ()"
    and "length (markers q) + 2 \<le> length rs"
  shows "\<exists>q'. vmw_wait_lag q us rs = Some (q', Inr ())"
  using assms
proof (induction q us rs rule: vmw_wait_lag.induct)
  case (2 q us r rs)
  obtain q1 low where lt: "vmw_lag_lt q us (round_now r) = (q1, low)" by (metis surj_pair)
  then have ms: "markers q1 = markers q" and n1: "normalised (lag q1)"
    using 2(2) by (auto simp: vmw_lag_lt_def vmw_fifo_lag_def Let_def timespec_add_normalised)
  show ?case
  proof (cases low)
    case True
    with lt show ?thesis by simp
  next
    case False
    define s where "s = (case markers q1 of [] \<Rightarrow> round_marker_seq r | m # _ \<Rightarrow> seqno m)"
    define q2 where "q2 = fst (vmw_marker_pull q1 s (round_pulled r))"
    have r: "round_wait r = Inr ()" using 2(4) by simp
    have eq: "vmw_wait_lag q us (r # rs) = vmw_wait_lag q2 us rs"
      using False lt r by (simp add: q2_def s_def)
    obtain r' rs' where rs: "rs = r' # rs'" using 2(5) by (cases rs) auto
    have pr: "prompt us rs" "timespec_to_ns (round_now r') - timespec_to_ns (round_pulled r) \<le> uint us * 1000"
      using 2(3) rs by auto
    show ?thesis
    proof (cases "markers q")
      case Nil
      then have "q2 = q1\<lparr>lag := ns_to_timespec 0, lag_time := round_pulled r\<rparr>"
        using ms by (simp add: q2_def vmw_marker_pull_def)
      then have "vmw_lag_lt q2 us (round_now r') = (fst (vmw_fifo_lag q2 (round_now r')), True)"
        using pr(2)
        by (simp add: vmw_lag_lt_def vmw_fifo_lag_def Let_def timespec_compare_le timespec_add_normalised)
      then have "\<exists>q'. vmw_wait_lag q2 us rs = Some (q', Inr ())" using rs by simp
      then show ?thesis by (simp only: eq)
    next
      case (Cons m mt)
      then have "s = seqno m" using ms by (simp add: s_def)
      then have "markers q2 = filter (\<lambda>x. \<not> pulled s x) mt" "normalised (lag q2)"
        using Cons ms n1
        by (auto simp: q2_def vmw_marker_pull_def pull_loop_filter pulled_def split: list.splits)
      moreover from this(1) have "length (markers q2) \<le> length mt" by simp
      then have "length (markers q2) + 2 \<le> length rs" using 2(5) Cons by simp
      ultimately have "\<exists>q'. vmw_wait_lag q2 us rs = Some (q', Inr ())"
        using 2(1) [OF lt [symmetric] refl False refl] r pr(1) 2(4) unfolding s_def [symmetric] q2_def [symmetric]
        by simp
      then show ?thesis using eq by simp
    qed
  qed
qed simp

section \<open>Properties\<close>

text \<open>C12: pulling a seqno removes the signalled prefix of the queue.  As long as the seqnos of
  the markers are within \<open>2 ^ 30\<close> of each other and in order, counted with wrap-around from
  some \<open>base\<close>, the markers up to the signalled seqno are removed, the later ones stay in
  order, and reading the lag at a later time \<open>t\<close> gives the time since the submission of the
  last marker removed.  If none is removed the result is \<open>-EBUSY\<close> and nothing changes.\<close>

theorem vmw_marker_pull_prefix:
  fixes base signaled :: u32
  assumes s: "unat (signaled - base) < 2 ^ 30"
    and win: "\<forall>m \<in> set (markers q). unat (seqno m - base) < 2 ^ 30"
    and ord: "sorted (map (\<lambda>m. unat (seqno m - base)) (markers q))"
    and ne: "markers q \<noteq> []"
  shows "case vmw_marker_pull q signaled now of (q', r) \<Rightarrow>
    let old = takeWhile (\<lambda>m. unat (seqno m - base) \<le> unat (signaled - base)) (markers q) in
    markers q = old @ markers q' \<and>
    (if old = [] then r = Inl EBUSY \<and> q' = q
     else r = Inr () \<and>
       (\<forall>t. timespec_to_ns (snd (vmw_fifo_lag q' t)) = timespec_to_ns t - timespec_to_ns (submitted (last old))))"
proof -
  let ?p = "\<lambda>m. unat (seqno m - base) \<le> unat (signaled - base)"
  let ?old = "takeWhile ?p (markers q)" and ?new = "dropWhile ?p (markers q)"
  have "\<forall>m \<in> set (markers q). pulled signaled m \<longleftrightarrow> ?p m" using pulled_window [OF s] win by blast
  then have "filter (pulled signaled) (markers q) = ?old" "filter (\<lambda>m. \<not> pulled signaled m) (markers q) = ?new"
    using sorted_prefix [OF ord, of "unat (signaled - base)"] by (simp_all cong: filter_cong)
  then have loop: "pull_loop signaled now (markers q) acc =
      (?new, if ?old = [] then acc else (timespec_sub now (submitted (last ?old)), now, True))" for acc
    by (cases ?old rule: rev_cases) (simp_all add: pull_loop_filter)
  show ?thesis
  proof (cases "?old = []")
    case True
    then have "markers q = ?new" using takeWhile_dropWhile_id [of ?p "markers q"] by simp
    with True ne loop show ?thesis by (simp add: vmw_marker_pull_def)
  next
    case False
    with ne loop show ?thesis
      by (simp add: vmw_marker_pull_def vmw_fifo_lag_def Let_def)
  qed
qed

theorem vmw_marker_pull_prefix_witness:
  "\<exists>q'. vmw_marker_pull
      \<lparr>markers = [\<lparr>seqno = - 1, submitted = \<lparr>tv_sec = 5, tv_nsec = 0\<rparr>\<rparr>,
                  \<lparr>seqno = 0, submitted = \<lparr>tv_sec = 6, tv_nsec = 0\<rparr>\<rparr>,
                  \<lparr>seqno = 3, submitted = \<lparr>tv_sec = 8, tv_nsec = 0\<rparr>\<rparr>],
       lag = ns_to_timespec 0, lag_time = ns_to_timespec 0\<rparr> 1 \<lparr>tv_sec = 9, tv_nsec = 0\<rparr> = (q', Inr ()) \<and>
     markers q' = [\<lparr>seqno = 3, submitted = \<lparr>tv_sec = 8, tv_nsec = 0\<rparr>\<rparr>] \<and>
     timespec_to_ns (snd (vmw_fifo_lag q' \<lparr>tv_sec = 9, tv_nsec = 0\<rparr>)) = 3000000000"
proof -
  let ?q = "\<lparr>markers = [\<lparr>seqno = - 1, submitted = \<lparr>tv_sec = 5, tv_nsec = 0\<rparr>\<rparr>,
                  \<lparr>seqno = 0, submitted = \<lparr>tv_sec = 6, tv_nsec = 0\<rparr>\<rparr>,
                  \<lparr>seqno = 3, submitted = \<lparr>tv_sec = 8, tv_nsec = 0\<rparr>\<rparr>],
       lag = ns_to_timespec 0, lag_time = ns_to_timespec 0\<rparr>"
  have "unat ((1 :: u32) - (- 1)) < 2 ^ 30" "\<forall>m \<in> set (markers ?q). unat (seqno m - (- 1)) < 2 ^ 30"
    "sorted (map (\<lambda>m. unat (seqno m - (- 1))) (markers ?q))" "markers ?q \<noteq> []"
    by simp_all
  from vmw_marker_pull_prefix [OF this, of "\<lparr>tv_sec = 9, tv_nsec = 0\<rparr>"] show ?thesis
    by (cases "vmw_marker_pull ?q 1 \<lparr>tv_sec = 9, tv_nsec = 0\<rparr>")
       (simp add: Let_def timespec_to_ns_def NSEC_PER_SEC_def)
qed

text \<open>C13: waiting for the lag to drop ends.  If the fences that are waited for all signal, and
  the clock does not advance by more than the given lag between a pull and the next
  measurement, \<open>vmw_wait_lag\<close> returns success after at most two rounds more than there are
  markers in the queue, and the lag it measured last is at most the given number of
  microseconds.\<close>

theorem vmw_wait_lag_returns:
  assumes "normalised (lag q)" "prompt us rs" "\<forall>r \<in> set rs. round_wait r = Inr ()"
    and "length (markers q) + 2 \<le> length rs"
  shows "\<exists>q'. vmw_wait_lag q us rs = Some (q', Inr ()) \<and> timespec_to_ns (lag q') \<le> uint us * 1000"
  using vmw_wait_lag_some [OF assms] vmw_wait_lag_result [where q = q and us = us and rs = rs] assms(1) by auto

theorem vmw_wait_lag_returns_witness:
  "\<exists>q'. vmw_wait_lag
      \<lparr>markers = [\<lparr>seqno = 7, submitted = ns_to_timespec 0\<rparr>], lag = ns_to_timespec 9000, lag_time = ns_to_timespec 9000\<rparr> 2
      [\<lparr>round_now = ns_to_timespec 9000, round_marker_seq = 7, round_wait = Inr (), round_pulled = ns_to_timespec 9000\<rparr>,
       \<lparr>round_now = ns_to_timespec 9000, round_marker_seq = 7, round_wait = Inr (), round_pulled = ns_to_timespec 9000\<rparr>,
       \<lparr>round_now = ns_to_timespec 10000, round_marker_seq = 7, round_wait = Inr (), round_pulled = ns_to_timespec 10000\<rparr>] =
      Some (q', Inr ()) \<and> timespec_to_ns (lag q') \<le> 2000"
  using vmw_wait_lag_returns
    [of "\<lparr>markers = [\<lparr>seqno = 7, submitted = ns_to_timespec 0\<rparr>], lag = ns_to_timespec 9000, lag_time = ns_to_timespec 9000\<rparr>" 2
     "[\<lparr>round_now = ns_to_timespec 9000, round_marker_seq = 7, round_wait = Inr (), round_pulled = ns_to_timespec 9000\<rparr>,
       \<lparr>round_now = ns_to_timespec 9000, round_marker_seq = 7, round_wait = Inr (), round_pulled = ns_to_timespec 9000\<rparr>,
       \<lparr>round_now = ns_to_timespec 10000, round_marker_seq = 7, round_wait = Inr (), round_pulled = ns_to_timespec 10000\<rparr>]"]
  by (simp del: vmw_wait_lag.simps)

end
