(* ===== verification/Irq.thy ===== *)
theory Irq
  imports Fifo Fence Marker
begin

text \<open>
  Seqnos end to end: what the device has passed (\<open>src/vmwgfx_irq.c\<close>), and the fences the
  driver sends (\<open>src/vmwgfx_fifo.c\<close>), on top of the FIFO, the fence manager and the marker
  queue.  Here \<open>VMW_FENCE_WRAP\<close> is \<open>2 ^ 24\<close>, smaller than the window of the fence manager.
\<close>

section \<open>State\<close>

record vmw_private =
  sys :: fifo_sys
  fman :: vmw_fence_manager
  marker_queue :: vmw_marker_queue
  last_read_seqno :: u32
  marker_seq :: u32
  enable_state :: u32
  config_done_state :: u32
  traces_state :: u32

definition upd_hw :: "(vmw_hw \<Rightarrow> vmw_hw) \<Rightarrow> vmw_private \<Rightarrow> vmw_private" where
  "upd_hw f p = p\<lparr>sys := (sys p)\<lparr>hw := f (hw (sys p))\<rparr>\<rparr>"

definition VMW_FENCE_WRAP :: u32 where "VMW_FENCE_WRAP = push_bit 24 1"

section \<open>Seqnos that have passed\<close>

text \<open>\<open>now\<close> is the clock, \<open>vs\<close> the readings of the fence register in the fence update.\<close>

definition vmw_update_seqno :: "vmw_private \<Rightarrow> timespec \<Rightarrow> u32 list \<Rightarrow> vmw_private" where
  "vmw_update_seqno p now vs =
     (let s = ioread32 (hw (sys p)) SVGA_FIFO_FENCE in
      if last_read_seqno p \<noteq> s then
        (let q = fst (vmw_marker_pull (marker_queue p) s now);
             (h, fm) = vmw_fences_update (hw (sys p)) (fman p) vs
         in upd_hw (\<lambda>_. h) (p\<lparr>last_read_seqno := s, marker_queue := q, fman := fm\<rparr>))
      else p)"

text \<open>\<open>busy\<close> is the value of \<open>SVGA_REG_BUSY\<close>.\<close>

definition vmw_fifo_idle :: "u32 \<Rightarrow> bool" where
  "vmw_fifo_idle busy \<longleftrightarrow> busy = 0"

definition vmw_seqno_passed :: "vmw_private \<Rightarrow> u32 \<Rightarrow> u32 \<Rightarrow> timespec \<Rightarrow> u32 list \<Rightarrow> vmw_private \<times> bool" where
  "vmw_seqno_passed p s busy now vs =
     (if last_read_seqno p - s < VMW_FENCE_WRAP then (p, True)
      else
        (let p1 = vmw_update_seqno p now vs in
         if last_read_seqno p1 - s < VMW_FENCE_WRAP then (p1, True)
         else if fifo_caps (fifo (sys p1)) AND SVGA_FIFO_CAP_FENCE = 0 \<and> vmw_fifo_idle busy then (p1, True)
         else (p1, VMW_FENCE_WRAP < marker_seq p1 - s)))"

text \<open>One look of a waiter: what the device shows in its registers, the clock, and whether a
  signal is pending.\<close>

record seqno_poll =
  poll_fence :: u32
  poll_busy :: u32
  poll_now :: timespec
  poll_time :: u64
  poll_signalled :: bool

fun fallback_loop :: "vmw_private \<Rightarrow> bool \<Rightarrow> u32 \<Rightarrow> bool \<Rightarrow> u64 \<Rightarrow> seqno_poll list \<Rightarrow> (vmw_private \<times> unit res) run" where
  "fallback_loop p fifo_idle s interruptible end_jiffies [] = Waits"
| "fallback_loop p fifo_idle s interruptible end_jiffies (l # ls) =
     (let p1 = upd_hw (iowrite32 (poll_fence l) SVGA_FIFO_FENCE) p;
          (p2, done) = (if fifo_idle then (p1, vmw_fifo_idle (poll_busy l))
                        else vmw_seqno_passed p1 s (poll_busy l) (poll_now l) [])
      in if done then Returns (p2, Inr ())
         else if time_after_eq (poll_time l) end_jiffies then Returns (p2, Inr ())
         else if interruptible \<and> poll_signalled l then Returns (p2, Inl ERESTARTSYS)
         else fallback_loop p2 fifo_idle s interruptible end_jiffies ls)"

definition vmw_fallback_wait ::
  "vmw_private \<Rightarrow> bool \<Rightarrow> u32 \<Rightarrow> bool \<Rightarrow> u64 \<Rightarrow> u64 \<Rightarrow> seqno_poll list \<Rightarrow> (vmw_private \<times> unit res) run"
where
  "vmw_fallback_wait p fifo_idle s interruptible jiffies timeout ls =
     (let signal_seq = marker_seq p in
      case fallback_loop p fifo_idle s interruptible (jiffies + timeout) ls of
        Returns (p1, Inr _) \<Rightarrow>
          Returns (if fifo_idle then upd_hw (iowrite32 signal_seq SVGA_FIFO_FENCE) p1 else p1, Inr ())
      | r \<Rightarrow> r)"

text \<open>With interrupts, the wait ends when the condition holds at one of the looks, and with the
  given error otherwise.\<close>

fun seqno_event_loop :: "vmw_private \<Rightarrow> u32 \<Rightarrow> seqno_poll list \<Rightarrow> errno \<Rightarrow> vmw_private \<times> unit res" where
  "seqno_event_loop p s [] e = (p, Inl e)"
| "seqno_event_loop p s (l # ls) e =
     (let (p1, done) = vmw_seqno_passed (upd_hw (iowrite32 (poll_fence l) SVGA_FIFO_FENCE) p) s (poll_busy l) (poll_now l) []
      in if done then (p1, Inr ()) else seqno_event_loop p1 s ls e)"

definition vmw_wait_seqno ::
  "vmw_private \<Rightarrow> u32 \<Rightarrow> bool \<Rightarrow> u64 \<Rightarrow> u64 \<Rightarrow> seqno_poll \<Rightarrow> seqno_poll list \<Rightarrow> errno \<Rightarrow> (vmw_private \<times> unit res) run"
where
  "vmw_wait_seqno p s interruptible jiffies timeout look ls e =
     (if last_read_seqno p - s < VMW_FENCE_WRAP then Returns (p, Inr ())
      else
        (let (p1, done) = vmw_seqno_passed p s (poll_busy look) (poll_now look) [] in
         if done then Returns (p1, Inr ())
         else
           (let p2 = upd_hw (vmw_fifo_ping_host SVGA_SYNC_GENERIC) p1 in
            if fifo_caps (fifo (sys p2)) AND SVGA_FIFO_CAP_FENCE = 0
            then vmw_fallback_wait p2 True s interruptible jiffies timeout ls
            else if hw_caps (hw (sys p2)) AND SVGA_CAP_IRQMASK = 0
            then vmw_fallback_wait p2 False s interruptible jiffies timeout ls
            else
              (let (p3, r) = seqno_event_loop (upd_hw vmw_seqno_waiter_add p2) s ls e
               in Returns (upd_hw vmw_seqno_waiter_remove p3, r)))))"

section \<open>Interrupts\<close>

text \<open>The result says whether the interrupt was ours, and which queues are woken.\<close>

definition vmw_irq_handler :: "vmw_private \<Rightarrow> u32 \<Rightarrow> u32 list \<Rightarrow> vmw_private \<times> bool \<times> bool \<times> bool" where
  "vmw_irq_handler p status vs =
     (let masked = status AND irq_mask (hw (sys p));
          p1 = (if status \<noteq> 0 then upd_hw (irq_ack status) p else p)
      in if masked = 0 then (p1, False, False, False)
         else
           (let fences = masked AND (SVGA_IRQFLAG_ANY_FENCE OR SVGA_IRQFLAG_FENCE_GOAL) \<noteq> 0;
                p2 = (if fences then
                        (let (h, fm) = vmw_fences_update (hw (sys p1)) (fman p1) vs
                         in upd_hw (\<lambda>_. h) (p1\<lparr>fman := fm\<rparr>))
                      else p1)
            in (p2, True, fences, masked AND SVGA_IRQFLAG_FIFO_PROGRESS \<noteq> 0)))"

definition vmw_irq_preinstall :: "vmw_hw \<Rightarrow> u32 \<Rightarrow> vmw_hw" where
  "vmw_irq_preinstall h status = (if hw_caps h AND SVGA_CAP_IRQMASK = 0 then h else irq_ack status h)"

definition vmw_irq_uninstall :: "vmw_hw \<Rightarrow> u32 \<Rightarrow> vmw_hw" where
  "vmw_irq_uninstall h status =
     (if hw_caps h AND SVGA_CAP_IRQMASK = 0 then h else irq_ack status (vmw_write SVGA_REG_IRQMASK 0 h))"

section \<open>Sending a fence\<close>

definition SVGA_CMD_FENCE :: u32 where "SVGA_CMD_FENCE = 30"

text \<open>The counter skips zero.\<close>

definition next_seqno :: "u32 \<Rightarrow> u32" where
  "next_seqno m = (if m + 1 = 0 then m + 2 else m + 1)"

text \<open>\<open>fw\<close> is the outcome of the fall-back wait when there is no room, its result is ignored.
  The result holds the seqno, also when the call fails.\<close>

definition vmw_fifo_send_fence ::
  "u64 \<Rightarrow> vmw_private \<Rightarrow> buf option \<Rightarrow> fifo_round list \<Rightarrow> (u64 \<times> seqno_poll list) \<Rightarrow> timespec \<Rightarrow> bool \<Rightarrow> timespec \<Rightarrow> u32 list
    \<Rightarrow> (vmw_private \<times> u32 \<times> unit res) run"
where
  "vmw_fifo_send_fence hz p dyn rs fw marker_time marker_ok now vs =
     (case vmw_fifo_reserve hz (sys p) 8 dyn rs of
        Waits \<Rightarrow> Waits
      | Bugs \<Rightarrow> Bugs
      | Returns (s1, None) \<Rightarrow>
          (let p1 = p\<lparr>sys := s1\<rparr>; s = marker_seq p1 in
           case vmw_fallback_wait p1 True s False (fst fw) (HZ3 hz) (snd fw) of
             Returns (p2, _) \<Rightarrow> Returns (p2, s, Inl ENOMEM)
           | Waits \<Rightarrow> Waits
           | Bugs \<Rightarrow> Bugs)
      | Returns (s1, Some fm) \<Rightarrow>
          (let s = next_seqno (marker_seq p); p1 = p\<lparr>sys := s1, marker_seq := s\<rparr> in
           if fifo_caps (fifo s1) AND SVGA_FIFO_CAP_FENCE = 0 then
             (case vmw_fifo_commit s1 0 of
                None \<Rightarrow> Bugs
              | Some s2 \<Rightarrow> Returns (p1\<lparr>sys := s2\<rparr>, s, Inr ()))
           else
             (case vmw_fifo_commit (fifo_write fm [SVGA_CMD_FENCE, s] s1) 8 of
                None \<Rightarrow> Bugs
              | Some s2 \<Rightarrow>
                  (let q = fst (vmw_marker_push (marker_queue p1) s marker_time marker_ok)
                   in Returns (vmw_update_seqno (p1\<lparr>sys := s2, marker_queue := q\<rparr>) now vs, s, Inr ())))))"

section \<open>Bringing the FIFO up and down\<close>

text \<open>\<open>rd\<close> gives what the I/O registers read as; \<open>caps\<close> is what the device shows in the
  capability register of the FIFO.\<close>

definition vmw_fifo_init ::
  "u64 \<Rightarrow> vmw_private \<Rightarrow> (u32 \<Rightarrow> u32) \<Rightarrow> u32 \<Rightarrow> buf option \<Rightarrow> timespec \<Rightarrow> fifo_round list \<Rightarrow> (u64 \<times> seqno_poll list) \<Rightarrow>
    timespec \<Rightarrow> bool \<Rightarrow> timespec \<Rightarrow> u32 list \<Rightarrow> (vmw_private \<times> unit res) run"
where
  "vmw_fifo_init hz p rd mmio_size stat init_time rs fw marker_time marker_ok now vs =
     (case stat of
        None \<Rightarrow> Returns (p\<lparr>sys := (sys p)\<lparr>fifo := (fifo (sys p))\<lparr>static_buffer_size := VMWGFX_FIFO_STATIC_SIZE,
                     static_buffer := None\<rparr>\<rparr>\<rparr>, Inl ENOMEM)
      | Some b \<Rightarrow>
          (let f = (fifo (sys p))\<lparr>static_buffer_size := VMWGFX_FIFO_STATIC_SIZE, static_buffer := Some b,
                     dynamic_buffer := None, reserved_size := 0, using_bounce_buffer := False, fifo_locked := False\<rparr>;
               h0 = vmw_write SVGA_REG_ENABLE 1 (hw (sys p));
               m0 = (if hw_caps h0 AND SVGA_CAP_EXTENDED_FIFO \<noteq> 0 then rd SVGA_REG_MEM_REGS else 4);
               m1 = push_bit 2 m0;
               m2 = (if m1 < of_nat PAGE_SIZE then of_nat PAGE_SIZE else m1);
               h1 = iowrite32 mmio_size SVGA_FIFO_MAX (iowrite32 m2 SVGA_FIFO_MIN h0);
               h2 = iowrite32 0 SVGA_FIFO_BUSY (iowrite32 m2 SVGA_FIFO_STOP (iowrite32 m2 SVGA_FIFO_NEXT_CMD h1));
               h3 = vmw_write SVGA_REG_CONFIG_DONE 1 h2;
               f1 = f\<lparr>fifo_caps := ioread32 h3 SVGA_FIFO_CAPABILITIES\<rparr>;
               h4 = iowrite32 (last_read_seqno p) SVGA_FIFO_FENCE h3;
               p1 = p\<lparr>sys := \<lparr>hw = h4, fifo = f1\<rparr>, marker_seq := last_read_seqno p,
                     marker_queue := vmw_marker_queue_init init_time, enable_state := rd SVGA_REG_ENABLE,
                     config_done_state := rd SVGA_REG_CONFIG_DONE, traces_state := rd SVGA_REG_TRACES\<rparr>
           in case vmw_fifo_send_fence hz p1 None rs fw marker_time marker_ok now vs of
                Returns (p2, _, r) \<Rightarrow> Returns (p2, r)
              | Waits \<Rightarrow> Waits
              | Bugs \<Rightarrow> Bugs))"

text \<open>\<open>busys\<close> are the readings of \<open>SVGA_REG_BUSY\<close> in the loop that waits for the device.\<close>

definition vmw_fifo_release :: "vmw_private \<Rightarrow> u32 list \<Rightarrow> vmw_private option" where
  "vmw_fifo_release p busys =
     (if 0 \<notin> set busys then None
      else
        (let h1 = vmw_write SVGA_REG_SYNC SVGA_SYNC_GENERIC (hw (sys p));
             s = ioread32 h1 SVGA_FIFO_FENCE;
             h2 = vmw_write SVGA_REG_TRACES (traces_state p)
                    (vmw_write SVGA_REG_ENABLE (enable_state p) (vmw_write SVGA_REG_CONFIG_DONE (config_done_state p) h1));
             f = (fifo (sys p))\<lparr>static_buffer := None, dynamic_buffer := None\<rparr>
         in Some (p\<lparr>sys := \<lparr>hw = h2, fifo = f\<rparr>, last_read_seqno := s,
                    marker_queue := (marker_queue p)\<lparr>markers := []\<rparr>\<rparr>)))"

section \<open>What the FIFO supports\<close>

definition vmw_fifo_have_3d :: "vmw_hw \<Rightarrow> u32 \<Rightarrow> bool \<Rightarrow> bool \<Rightarrow> u32 \<Rightarrow> bool \<Rightarrow> bool" where
  "vmw_fifo_have_3d h caps force_no_3d has_mob devcap_3d sou_priv =
     (if force_no_3d then False
      else if hw_caps h AND SVGA_CAP_3D = 0 then False
      else if hw_caps h AND SVGA_CAP_GBOBJECTS \<noteq> 0 then has_mob \<and> devcap_3d \<noteq> 0
      else if hw_caps h AND SVGA_CAP_EXTENDED_FIFO = 0 then False
      else if unat (ioread32 h SVGA_FIFO_MIN) \<le> SVGA_FIFO_3D_HWVERSION * 4 then False
      else
        (let v = ioread32 h (if caps AND SVGA_FIFO_CAP_3D_HWVERSION_REVISED \<noteq> 0
                             then SVGA_FIFO_3D_HWVERSION_REVISED else SVGA_FIFO_3D_HWVERSION)
         in v \<noteq> 0 \<and> \<not> v < push_bit 16 2 OR 1 \<and> sou_priv))"

definition vmw_fifo_have_pitchlock :: "vmw_hw \<Rightarrow> bool" where
  "vmw_fifo_have_pitchlock h =
     (hw_caps h AND SVGA_CAP_EXTENDED_FIFO \<noteq> 0 \<and> ioread32 h SVGA_FIFO_CAPABILITIES AND SVGA_FIFO_CAP_PITCHLOCK \<noteq> 0)"

section \<open>Query barriers\<close>

record dummy_bo =
  bo_in_vram :: bool
  bo_in_mob :: bool
  bo_start :: u32
  bo_offset :: u32

definition SVGA_3D_CMD_WAIT_FOR_QUERY :: u32 where "SVGA_3D_CMD_WAIT_FOR_QUERY = 1040 + 27"
definition SVGA_3D_CMD_WAIT_FOR_GB_QUERY :: u32 where "SVGA_3D_CMD_WAIT_FOR_GB_QUERY = 1118"
definition SVGA3D_QUERYTYPE_OCCLUSION :: u32 where "SVGA3D_QUERYTYPE_OCCLUSION = 0"
definition SVGA_GMR_FRAMEBUFFER :: u32 where "SVGA_GMR_FRAMEBUFFER = - 2"

definition fifo_submit :: "u64 \<Rightarrow> fifo_sys \<Rightarrow> buf option \<Rightarrow> fifo_round list \<Rightarrow> u32 list \<Rightarrow> (fifo_sys \<times> unit res) run" where
  "fifo_submit hz s dyn rs ws =
     (case vmw_fifo_reserve hz s (of_nat (4 * length ws)) dyn rs of
        Waits \<Rightarrow> Waits
      | Bugs \<Rightarrow> Bugs
      | Returns (s1, None) \<Rightarrow> Returns (s1, Inl ENOMEM)
      | Returns (s1, Some fm) \<Rightarrow>
          (case vmw_fifo_commit (fifo_write fm ws s1) (of_nat (4 * length ws)) of
             None \<Rightarrow> Bugs
           | Some s2 \<Rightarrow> Returns (s2, Inr ())))"

definition legacy_query_words :: "dummy_bo \<Rightarrow> u32 \<Rightarrow> u32 list" where
  "legacy_query_words bo cid =
     [SVGA_3D_CMD_WAIT_FOR_QUERY, 16, cid, SVGA3D_QUERYTYPE_OCCLUSION] @
     (if bo_in_vram bo then [SVGA_GMR_FRAMEBUFFER, bo_offset bo] else [bo_start bo, 0])"

definition vmw_fifo_emit_dummy_legacy_query ::
  "u64 \<Rightarrow> fifo_sys \<Rightarrow> buf option \<Rightarrow> fifo_round list \<Rightarrow> dummy_bo \<Rightarrow> u32 \<Rightarrow> (fifo_sys \<times> unit res) run"
where
  "vmw_fifo_emit_dummy_legacy_query hz s dyn rs bo cid = fifo_submit hz s dyn rs (legacy_query_words bo cid)"

definition gb_query_words :: "dummy_bo \<Rightarrow> u32 \<Rightarrow> u32 list" where
  "gb_query_words bo cid =
     [SVGA_3D_CMD_WAIT_FOR_GB_QUERY, 16, cid, SVGA3D_QUERYTYPE_OCCLUSION, bo_start bo, 0]"

definition vmw_fifo_emit_dummy_gb_query ::
  "u64 \<Rightarrow> fifo_sys \<Rightarrow> buf option \<Rightarrow> fifo_round list \<Rightarrow> dummy_bo \<Rightarrow> u32 \<Rightarrow> (fifo_sys \<times> unit res) run"
where
  "vmw_fifo_emit_dummy_gb_query hz s dyn rs bo cid =
     (case vmw_fifo_reserve hz s 24 dyn rs of
        Returns (_, Some _) \<Rightarrow> if \<not> bo_in_mob bo then Bugs else fifo_submit hz s dyn rs (gb_query_words bo cid)
      | _ \<Rightarrow> fifo_submit hz s dyn rs (gb_query_words bo cid))"

definition vmw_fifo_emit_dummy_query ::
  "u64 \<Rightarrow> fifo_sys \<Rightarrow> buf option \<Rightarrow> fifo_round list \<Rightarrow> bool \<Rightarrow> dummy_bo \<Rightarrow> u32 \<Rightarrow> (fifo_sys \<times> unit res) run"
where
  "vmw_fifo_emit_dummy_query hz s dyn rs has_mob bo cid =
     (if has_mob then vmw_fifo_emit_dummy_gb_query hz s dyn rs bo cid
      else vmw_fifo_emit_dummy_legacy_query hz s dyn rs bo cid)"

section \<open>Frame lemmas\<close>

lemma fences_update_mem:
  "i \<noteq> SVGA_FIFO_FENCE \<Longrightarrow> i \<noteq> SVGA_FIFO_FENCE_GOAL \<Longrightarrow>
     fifo_mem (fst (fences_update_from h fm now vs)) i = fifo_mem h i"
proof (induction vs arbitrary: h fm now)
  case Nil
  obtain h2 fm2 b where g: "vmw_fence_goal_new_locked h (signal_loop now (fence_list fm) fm) now = (h2, fm2, b)"
    by (rule prod_cases3)
  then have "fifo_mem h2 i = fifo_mem h i"
    using Nil by (auto simp: vmw_fence_goal_new_locked_def split: if_splits list.splits)
  with g show ?case by (simp add: Let_def)
next
  case (Cons v vs)
  obtain h2 fm2 b where g: "vmw_fence_goal_new_locked h (signal_loop now (fence_list fm) fm) now = (h2, fm2, b)"
    by (rule prod_cases3)
  let ?fm3 = "if cleanup_list fm2 \<noteq> [] then fm2\<lparr>work_scheduled := True\<rparr> else fm2"
  have h2: "fifo_mem h2 i = fifo_mem h i"
    using g Cons.prems by (auto simp: vmw_fence_goal_new_locked_def split: if_splits list.splits)
  have run: "fences_update_from h fm now (v # vs) =
      (if b then if v \<noteq> now then fences_update_from (iowrite32 v SVGA_FIFO_FENCE h2) ?fm3 v vs
                 else (iowrite32 v SVGA_FIFO_FENCE h2, ?fm3)
       else (h2, ?fm3))"
    by (subst fences_update_from.simps) (simp only: g Let_def split list.case)
  have rec: "fifo_mem (fst (fences_update_from (iowrite32 v SVGA_FIFO_FENCE h2) ?fm3 v vs)) i = fifo_mem h i"
    using Cons.IH [OF Cons.prems, of "iowrite32 v SVGA_FIFO_FENCE h2" ?fm3 v] Cons.prems h2 by simp
  have other: "fifo_mem (iowrite32 v SVGA_FIFO_FENCE h2) i = fifo_mem h i" using Cons.prems h2 by simp
  consider "\<not> b" | "b" "v \<noteq> now" | "b" "v = now" by blast
  then show ?case
  proof cases
    case 1
    then show ?thesis unfolding run using h2 by (simp only: if_False fst_conv)
  next
    case 2
    then show ?thesis unfolding run using rec by (simp only: if_True simp_thms)
  next
    case 3
    then show ?thesis unfolding run using other by (simp only: if_True if_False simp_thms fst_conv)
  qed
qed

lemma update_seqno_mem:
  "i \<noteq> SVGA_FIFO_FENCE \<Longrightarrow> i \<noteq> SVGA_FIFO_FENCE_GOAL \<Longrightarrow>
     fifo_mem (hw (sys (vmw_update_seqno p now vs))) i = fifo_mem (hw (sys p)) i"
  using fences_update_mem [of i "hw (sys p)" "fman p" "ioread32 (hw (sys p)) SVGA_FIFO_FENCE" vs]
  by (auto simp: vmw_update_seqno_def vmw_fences_update_def upd_hw_def Let_def simp del: fences_update_from.simps split: prod.splits)

lemma update_seqno_fields:
  "fifo (sys (vmw_update_seqno p now vs)) = fifo (sys p)"
  "marker_seq (vmw_update_seqno p now vs) = marker_seq p"
  "last_read_seqno (vmw_update_seqno p now vs) = ioread32 (hw (sys p)) SVGA_FIFO_FENCE"
  by (auto simp: vmw_update_seqno_def upd_hw_def Let_def split: prod.splits)

lemma update_seqno_ring:
  assumes "ring_ok (hw (sys p)) lo hi st n"
  shows "ring_ok (hw (sys (vmw_update_seqno p now vs))) lo hi st n"
    "fifo_data (hw (sys (vmw_update_seqno p now vs))) = fifo_data (hw (sys p))"
proof -
  let ?h = "hw (sys (vmw_update_seqno p now vs))"
  show ok: "ring_ok ?h lo hi st n"
    by (rule ring_ok_mem [OF assms]) (auto simp: update_seqno_mem fifo_regs)
  have r: "lo \<le> n" "n < hi" "lo \<le> st" "st < hi" "1024 \<le> lo" using assms by (simp_all add: ring_ok_def)
  have "fifo_mem ?h i = fifo_mem (hw (sys p)) i" if "lo \<le> i" for i
    using that r(5) by (intro update_seqno_mem) (simp_all add: fifo_regs)
  then show "fifo_data ?h = fifo_data (hw (sys p))"
    unfolding fifo_data_ring [OF ok] fifo_data_ring [OF assms] by (intro ring_data_cong r)
qed

section \<open>Properties\<close>

text \<open>C18: a fence that is sent is in the FIFO.  On a device that supports fences a successful
  \<open>vmw_fifo_send_fence\<close> leaves the fence command with the returned seqno as the last two
  words of the ring; the seqno is never zero, is the successor of the one sent before, and
  the FIFO is free and well formed.\<close>

theorem vmw_fifo_send_fence_in_ring:
  assumes run: "vmw_fifo_send_fence hz p dyn rs fw mt mok now vs = Returns (p', s, Inr ())"
    and ok: "ring_ok (hw (sys p)) lo hi st n" and env: "\<forall>r \<in> set rs. env_valid lo hi r"
    and static: "static_buffer (fifo (sys p)) \<noteq> None"
    and cap: "fifo_caps (fifo (sys p)) AND SVGA_FIFO_CAP_FENCE \<noteq> 0"
  shows "s \<noteq> 0 \<and> (s = marker_seq p + 1 \<or> marker_seq p = - 1 \<and> s = 1) \<and> marker_seq p' = s \<and>
    (\<exists>before. fifo_data (hw (sys p')) = before @ [SVGA_CMD_FENCE, s]) \<and>
    (\<exists>st'. ring_ok (hw (sys p')) lo hi st' (ring_pos lo hi (n + 2))) \<and> \<not> fifo_locked (fifo (sys p'))"
proof -
  obtain s1 fm where res: "vmw_fifo_reserve hz (sys p) 8 dyn rs = Returns (s1, Some fm)"
  proof (cases "vmw_fifo_reserve hz (sys p) 8 dyn rs")
    case (Returns x)
    show thesis
    proof (cases x)
      case (Pair s1 o1)
      show thesis
      proof (cases o1)
        case None
        with run Returns Pair show thesis
          by (auto simp: vmw_fifo_send_fence_def Let_def split: run.splits prod.splits)
      next
        case (Some fm)
        with Returns Pair that show thesis by simp
      qed
    qed
  qed (use run in \<open>simp_all add: vmw_fifo_send_fence_def\<close>)
  let ?s = "next_seqno (marker_seq p)"
  have b: "unat (8 :: u32) = 4 * length [SVGA_CMD_FENCE, ?s]" by simp
  have "fifo_caps (fifo s1) = fifo_caps (fifo (sys p))"
    using reserve_reserved(1) [OF res ok b env] by (auto simp: reserved_def split: fifo_ptr.splits)
  then have cap1: "fifo_caps (fifo s1) AND SVGA_FIFO_CAP_FENCE \<noteq> 0" using cap by simp
  have "1 < length [SVGA_CMD_FENCE, ?s]" by simp
  then obtain s2 st' where c: "vmw_fifo_commit (fifo_write fm [SVGA_CMD_FENCE, ?s] s1) 8 = Some s2"
    and d: "fifo_data (hw s2) = fifo_data (hw s1) @ [SVGA_CMD_FENCE, ?s]"
    and o2: "ring_ok (hw s2) lo hi st' (ring_pos lo hi (n + length [SVGA_CMD_FENCE, ?s]))"
    and u: "\<not> fifo_locked (fifo s2)"
    using vmw_fifo_submit_core [OF res ok b env static] by blast
  define p1 where "p1 = p\<lparr>marker_seq := ?s, sys := s2,
      marker_queue := fst (vmw_marker_push (marker_queue p) ?s mt mok)\<rparr>"
  have eq: "p' = vmw_update_seqno p1 now vs" "s = ?s"
    using run res cap1 c by (auto simp: vmw_fifo_send_fence_def Let_def p1_def)
  have o1: "ring_ok (hw (sys p1)) lo hi st' (ring_pos lo hi (n + 2))" using o2 by (simp add: p1_def)
  note u1 = update_seqno_ring [OF o1, of now vs]
  have "?s \<noteq> 0 \<and> (?s = marker_seq p + 1 \<or> marker_seq p = - 1 \<and> ?s = 1)"
  proof (cases "marker_seq p + 1 = 0")
    case True
    then have "marker_seq p = - 1" by (simp add: eq_neg_iff_add_eq_0)
    then show ?thesis by (simp add: next_seqno_def)
  next
    case False
    then show ?thesis by (simp add: next_seqno_def)
  qed
  then show ?thesis using eq u1 d u by (auto simp: update_seqno_fields p1_def)
qed

lemma window_order:
  fixes m a b :: u32
  assumes "unat (m - a) < 2 ^ 24" "unat (m - b) < 2 ^ 24"
  shows "a - b < VMW_FENCE_WRAP \<longleftrightarrow> unat (m - a) \<le> unat (m - b)"
proof -
  have eq: "a - b = (m - b) - (m - a)" by simp
  show ?thesis
  proof (cases "unat (m - a) \<le> unat (m - b)")
    case True
    then have "unat (a - b) = unat (m - b) - unat (m - a)" unfolding eq by (rule unat_sub_le)
    with True assms show ?thesis by (simp add: VMW_FENCE_WRAP_def word_less_nat_alt)
  next
    case False
    then have "unat (a - b) = unat (m - b) + 4294967296 - unat (m - a)"
      unfolding eq unat_sub_if_size [of "m - b" "m - a"] by (simp add: word_size)
    with False assms show ?thesis by (simp add: VMW_FENCE_WRAP_def word_less_nat_alt)
  qed
qed

text \<open>C19: a seqno has passed exactly when the device has reached it.  Let the last seqno sent be
  at most \<open>2 ^ 24\<close> ahead of the seqno asked for, of what the device shows and of what was
  read last, which is not ahead of the device.  Then \<open>vmw_seqno_passed\<close> answers yes if and
  only if the device has reached the seqno, in spite of wrap-around.\<close>

theorem vmw_seqno_passed_exact:
  assumes cap: "fifo_caps (fifo (sys p)) AND SVGA_FIFO_CAP_FENCE \<noteq> 0"
    and s: "unat (marker_seq p - s) < 2 ^ 24"
    and d: "unat (marker_seq p - fifo_mem (hw (sys p)) SVGA_FIFO_FENCE) < 2 ^ 24"
    and l: "unat (marker_seq p - last_read_seqno p) < 2 ^ 24"
    and order: "unat (marker_seq p - fifo_mem (hw (sys p)) SVGA_FIFO_FENCE) \<le> unat (marker_seq p - last_read_seqno p)"
  shows "snd (vmw_seqno_passed p s busy now vs) \<longleftrightarrow>
    unat (marker_seq p - fifo_mem (hw (sys p)) SVGA_FIFO_FENCE) \<le> unat (marker_seq p - s)"
proof -
  let ?d = "fifo_mem (hw (sys p)) SVGA_FIFO_FENCE"
  note wl = window_order [OF l s] and wd = window_order [OF d s]
  show ?thesis
  proof (cases "last_read_seqno p - s < VMW_FENCE_WRAP")
    case True
    with wl order show ?thesis by (simp add: vmw_seqno_passed_def)
  next
    case False
    have "\<not> VMW_FENCE_WRAP < marker_seq p - s"
      using s by (simp add: VMW_FENCE_WRAP_def word_less_nat_alt)
    with False wd cap show ?thesis
      by (simp add: vmw_seqno_passed_def Let_def update_seqno_fields ioread32_def)
  qed
qed

definition irq_example :: vmw_private where
  "irq_example = \<lparr>sys = fifo_example\<lparr>hw := (hw fifo_example)\<lparr>fifo_mem := (fifo_mem (hw fifo_example))(SVGA_FIFO_FENCE := 1)\<rparr>,
       fifo := (fifo fifo_example)\<lparr>fifo_caps := 1\<rparr>\<rparr>,
     fman = two_fences, marker_queue = vmw_marker_queue_init (ns_to_timespec 0), last_read_seqno = - 1, marker_seq = 3,
     enable_state = 0, config_done_state = 0, traces_state = 0\<rparr>"

theorem vmw_seqno_passed_exact_witness:
  "snd (vmw_seqno_passed irq_example 1 0 (ns_to_timespec 0) []) \<and>
   \<not> snd (vmw_seqno_passed irq_example 2 0 (ns_to_timespec 0) [])"
proof -
  have cap: "fifo_caps (fifo (sys irq_example)) AND SVGA_FIFO_CAP_FENCE \<noteq> 0"
    by (simp add: irq_example_def SVGA_FIFO_CAP_FENCE_def)
  have v: "marker_seq irq_example = 3" "last_read_seqno irq_example = - 1"
    "fifo_mem (hw (sys irq_example)) SVGA_FIFO_FENCE = 1"
    by (simp_all add: irq_example_def)
  from vmw_seqno_passed_exact [OF cap, of 1 0 "ns_to_timespec 0" "[]"]
    vmw_seqno_passed_exact [OF cap, of 2 0 "ns_to_timespec 0" "[]"]
  show ?thesis by (simp add: v)
qed

theorem vmw_fifo_send_fence_in_ring_witness:
  "\<exists>p'. vmw_fifo_send_fence 100 irq_example None [quiet_round 4200] (0, []) (ns_to_timespec 0) True (ns_to_timespec 0) [] =
       Returns (p', 4, Inr ()) \<and> (\<exists>before. fifo_data (hw (sys p')) = before @ [30, 4])"
proof -
  have ok: "ring_ok (hw (sys irq_example)) 1024 2048 1050 2047"
    by (simp add: ring_ok_def irq_example_def fifo_example_def fifo_regs)
  have env: "\<forall>r \<in> set [quiet_round 4200]. env_valid 1024 2048 r"
    by (simp add: env_valid_def quiet_round_def stop_valid_def)
  have st: "static_buffer (fifo (sys irq_example)) \<noteq> None" by (simp add: irq_example_def fifo_example_def)
  have cap: "fifo_caps (fifo (sys irq_example)) AND SVGA_FIFO_CAP_FENCE \<noteq> 0"
    by (simp add: irq_example_def SVGA_FIFO_CAP_FENCE_def)
  have "\<exists>s1. vmw_fifo_reserve 100 (sys irq_example) 8 None [quiet_round 4200] = Returns (s1, Some Fifo_static) \<and> fifo_caps (fifo s1) = 1"
    by (simp add: vmw_fifo_reserve_def irq_example_def fifo_example_def quiet_round_def ioread32_def fifo_regs device_stop_def
        vmw_fifo_is_full_def iowrite32_def fifo_bounce_def VMWGFX_FIFO_STATIC_SIZE_def SVGA_FIFO_CAP_RESERVE_def Let_def)
  then obtain s1 where res: "vmw_fifo_reserve 100 (sys irq_example) 8 None [quiet_round 4200] = Returns (s1, Some Fifo_static)"
    and c1: "fifo_caps (fifo s1) = 1" by blast
  obtain s2 where com: "vmw_fifo_commit (fifo_write Fifo_static [SVGA_CMD_FENCE, 4] s1) 8 = Some s2"
    using vmw_fifo_submit_core [OF res ok _ env st, of "[SVGA_CMD_FENCE, 4]"] by auto
  have "next_seqno (marker_seq irq_example) = 4" by (simp add: next_seqno_def irq_example_def)
  then obtain p' where run: "vmw_fifo_send_fence 100 irq_example None [quiet_round 4200] (0, []) (ns_to_timespec 0) True
      (ns_to_timespec 0) [] = Returns (p', 4, Inr ())"
    using res com c1 by (simp add: vmw_fifo_send_fence_def Let_def SVGA_FIFO_CAP_FENCE_def)
  from vmw_fifo_send_fence_in_ring [OF run ok env st cap] run show ?thesis
    by (auto simp: SVGA_CMD_FENCE_def)
qed

text \<open>A wait without fences or interrupts that runs into its timeout reports a lockup, but
  returns success.\<close>

lemma fallback_wait_lockup_succeeds:
  assumes "poll_busy l \<noteq> 0" "time_after_eq (poll_time l) (jiffies + timeout)"
  shows "\<exists>p'. vmw_fallback_wait p True s interruptible jiffies timeout [l] = Returns (p', Inr ())"
  using assms by (simp add: vmw_fallback_wait_def vmw_fifo_idle_def Let_def)

end
