(* ===== verification/Execbuf_State.thy ===== *)
theory Execbuf_State
  imports Resource Cmd_Buffer Cmdbuf_Res Irq
begin

text \<open>
  The software context of command submission, first part of \<open>src/vmwgfx_execbuf.c\<close>: the
  lists of resources and buffers to validate, the two kinds of relocations, and the
  translation of the handles that appear in a batch.

  Resources, buffer objects and validation nodes are named by numbers; \<open>refs\<close> counts the
  references to resources and buffers.  The hash table of the context is used through the
  interface \<open>item_table\<close> and is the list of its entries.  \<open>usage\<close> is the table of the
  objects the client's file has a usage reference on, by handle.  The n-th allocation succeeds
  when \<open>kmem n\<close>.  The value \<open>None\<close> of an operation is a BUG or the use of a null pointer.
\<close>

section \<open>State\<close>

datatype object_type = Ttm_buffer | Vmw_user_res vmw_res_type | Ttm_other

record user_object =
  uo_type :: object_type
  uo_target :: nat

datatype obj = Res nat | Bo nat

datatype ht_ref = Val_node nat | Val_buf nat

record vmw_resource_val_node =
  vn_res :: nat
  vn_new_backup :: "nat option"
  vn_staged :: bool \<comment> \<open>\<open>staged_bindings\<close> is not NULL; the tracker is \<open>Staged\<close> with the node's number\<close>
  vn_backup_offset :: u64
  vn_first_usage :: bool
  vn_no_buffer :: bool

record vmw_validate_buffer =
  vb_bo :: nat
  vb_sync_arg :: u32
  vb_mob :: bool

record vmw_relocation =
  rl_mob_loc :: "nat option"
  rl_location :: "nat option"
  rl_index :: nat

record vmw_res_cache_entry =
  rc_valid :: bool
  rc_handle :: u32
  rc_res :: nat
  rc_node :: "nat option"

text \<open>What the calls to TTM and to the shader allocator give when a shader is defined by the
  command stream.\<close>

record shader_outcome =
  so_dmabuf_init :: "unit res"
  so_reserve :: "unit res"
  so_kmap :: "unit res"
  so_validate :: "unit res"
  so_shader :: "nat res" \<comment> \<open>the new shader resource, or an error pointer\<close>

definition VMWGFX_MAX_RELOCATIONS :: nat where "VMWGFX_MAX_RELOCATIONS = 2048"
definition VMWGFX_MAX_VALIDATIONS :: nat where "VMWGFX_MAX_VALIDATIONS = 2048"

record vmw_sw_context =
  \<comment> \<open>the device and the client's file\<close>
  has_mob :: bool
  gb_objects :: bool
  capable_admin :: bool
  dummy_query_bo :: nat
  usage :: "u32 \<Rightarrow> user_object option"
  resource :: "nat \<Rightarrow> vmw_resource"
  buffer :: "nat \<Rightarrow> buffer_object"
  binds :: bindings
  res_man :: "nat \<Rightarrow> vmw_cmdbuf_res_manager"
  hash :: "u64 \<Rightarrow> nat \<Rightarrow> nat"
  shader_oc :: "nat \<Rightarrow> shader_outcome"
  refs :: "obj \<Rightarrow> int"
  kmem :: "nat \<Rightarrow> bool"
  allocs :: nat
  \<comment> \<open>the software context\<close>
  kernel :: bool
  cmds :: cmd_mem
  res_ht :: "(obj \<times> ht_ref) list"
  resource_list :: "nat list"
  val_node :: "nat \<Rightarrow> vmw_resource_val_node"
  next_node :: nat
  relocs :: "nat \<Rightarrow> vmw_relocation"
  cur_reloc :: nat
  val_bufs :: "nat \<Rightarrow> vmw_validate_buffer"
  cur_val_buf :: nat
  validate_nodes :: "nat list"
  sw_fence_flags :: u32
  cur_query_bo :: "nat option"
  res_relocations :: "(nat \<times> nat option) list" \<comment> \<open>offset in words and resource\<close>
  res_cache :: "vmw_res_type \<Rightarrow> vmw_res_cache_entry"
  last_query_ctx :: "nat option"
  needs_post_query_barrier :: bool
  error_resource :: "nat option"

type_synonym 'a cmd = "(vmw_sw_context, 'a) prog"

definition add_ref :: "obj \<Rightarrow> int \<Rightarrow> vmw_sw_context \<Rightarrow> vmw_sw_context" where
  "add_ref x d s = s\<lparr>refs := (refs s)(x := refs s x + d)\<rparr>"

definition upd_val :: "nat \<Rightarrow> (vmw_resource_val_node \<Rightarrow> vmw_resource_val_node) \<Rightarrow> vmw_sw_context \<Rightarrow> vmw_sw_context" where
  "upd_val n f s = s\<lparr>val_node := (val_node s)(n := f (val_node s n))\<rparr>"

definition alloc :: "unit cmd" where
  "alloc s = Some (s\<lparr>allocs := Suc (allocs s)\<rparr>, if kmem s (allocs s) then Inr () else Inl ENOMEM)"

section \<open>Validation lists and relocations\<close>

text \<open>The table has no entry under a resource's address but a validation node, and none under
  a buffer's address but a validation buffer: the other cases are \<open>crash\<close>.\<close>

definition new_val_node :: "nat \<Rightarrow> vmw_sw_context \<Rightarrow> vmw_sw_context" where
  "new_val_node r s =
     (let n = next_node s in
      add_ref (Res r) 1
        (s\<lparr>res_ht := (Res r, Val_node n) # res_ht s, resource_list := resource_list s @ [n],
           val_node := (val_node s)(n := \<lparr>vn_res = r, vn_new_backup = None, vn_staged = False,
              vn_backup_offset = 0, vn_first_usage = True, vn_no_buffer = False\<rparr>),
           next_node := Suc n\<rparr>))"

definition vmw_resource_val_add :: "nat \<Rightarrow> nat cmd" where
  "vmw_resource_val_add r =
     gets (\<lambda>s. case map_of (res_ht s) (Res r) of
        Some (Val_node n) \<Rightarrow> andthen (modify (upd_val n (\<lambda>v. v\<lparr>vn_first_usage := False\<rparr>))) (ok n)
      | Some (Val_buf _) \<Rightarrow> crash
      | None \<Rightarrow> andthen alloc (gets (\<lambda>s. andthen (modify (new_val_node r)) (ok (next_node s)))))"

fun context_res_add_loop :: "slot list \<Rightarrow> nat \<Rightarrow> unit cmd" where
  "context_res_add_loop [] ctx = ok ()"
| "context_res_add_loop (p # ps) ctx =
     gets (\<lambda>s. case bi_res (info (binds s) (Context ctx) p) of
        None \<Rightarrow> crash
      | Some r \<Rightarrow>
          if rs_doomed (resource s r) then context_res_add_loop ps ctx
          else andthen (modify (add_ref (Res r) 1))
                 (chain (cleanup (add_ref (Res r) (- 1)) (vmw_resource_val_add r))
                    (\<lambda>_. context_res_add_loop ps ctx)))"

definition vmw_resource_context_res_add :: "nat \<Rightarrow> unit cmd" where
  "vmw_resource_context_res_add ctx =
     gets (\<lambda>s. context_res_add_loop (vmw_context_binding_list ctx (binds s)) ctx)"

definition vmw_resource_relocation_add :: "nat option \<Rightarrow> nat \<Rightarrow> unit cmd" where
  "vmw_resource_relocation_add r off =
     andthen alloc (modify (\<lambda>s. s\<lparr>res_relocations := res_relocations s @ [(off, r)]\<rparr>))"

definition vmw_resource_relocations_free :: "vmw_sw_context \<Rightarrow> vmw_sw_context" where
  "vmw_resource_relocations_free s = s\<lparr>res_relocations := []\<rparr>"

text \<open>The position of a 32-bit word as a pointer difference: \<open>id_loc - sw_context->buf_start\<close>.\<close>

definition word_index :: "nat \<Rightarrow> nat" where
  "word_index a = a div 4"

definition SVGA_3D_CMD_NOP :: u32 where "SVGA_3D_CMD_NOP = 1119"

fun vmw_resource_relocations_apply :: "(nat \<Rightarrow> u32) \<Rightarrow> (nat \<times> nat option) list \<Rightarrow> cmd_mem \<Rightarrow> cmd_mem" where
  "vmw_resource_relocations_apply ids [] cb = cb"
| "vmw_resource_relocations_apply ids ((off, r) # rs) cb =
     vmw_resource_relocations_apply ids rs
       (wr32 (4 * off) (case r of Some x \<Rightarrow> ids x | None \<Rightarrow> SVGA_3D_CMD_NOP) cb)"

text \<open>For an administrator \<open>vmw_cmd_invalid\<close> returns 1, which the caller treats as an error
  too.\<close>

definition vmw_cmd_invalid :: "nat \<Rightarrow> unit cmd" where
  "vmw_cmd_invalid p = fail EINVAL"

definition vmw_cmd_ok :: "nat \<Rightarrow> unit cmd" where
  "vmw_cmd_ok p = ok ()"

definition new_val_buf :: "nat \<Rightarrow> bool \<Rightarrow> vmw_sw_context \<Rightarrow> vmw_sw_context" where
  "new_val_buf b as_mob s =
     (let i = cur_val_buf s in
      add_ref (Bo b) 1
        (s\<lparr>res_ht := (Bo b, Val_buf i) # res_ht s, cur_val_buf := Suc i,
           val_bufs := (val_bufs s)(i := \<lparr>vb_bo = b, vb_sync_arg = 0, vb_mob = as_mob\<rparr>),
           validate_nodes := validate_nodes s @ [i]\<rparr>))"

definition mark_val_buf :: "nat \<Rightarrow> u32 \<Rightarrow> nat cmd" where
  "mark_val_buf i flags =
     andthen (modify (\<lambda>s. s\<lparr>val_bufs := (val_bufs s)(i := (val_bufs s i)\<lparr>vb_sync_arg := vb_sync_arg (val_bufs s i) OR flags\<rparr>),
             sw_fence_flags := sw_fence_flags s OR flags\<rparr>)) (ok i)"

definition vmw_bo_to_validate_list :: "nat \<Rightarrow> u32 \<Rightarrow> bool \<Rightarrow> nat cmd" where
  "vmw_bo_to_validate_list b flags as_mob =
     gets (\<lambda>s. case map_of (res_ht s) (Bo b) of
        Some (Val_buf i) \<Rightarrow>
          if vb_mob (val_bufs s i) \<noteq> as_mob then fail EINVAL else mark_val_buf i flags
      | Some (Val_node _) \<Rightarrow> crash
      | None \<Rightarrow>
          if VMWGFX_MAX_VALIDATIONS \<le> cur_val_buf s then fail EINVAL
          else andthen (modify (new_val_buf b as_mob)) (mark_val_buf (cur_val_buf s) flags))"

section \<open>Translating handles\<close>

text \<open>\<open>src/vmwgfx_resource.c\<close>: a handle names a resource of a type when the file has a usage
  reference on an object of that type and the resource is set up.  The reference to the base
  object taken for the lookup is dropped again.\<close>

definition resolve :: "vmw_sw_context \<Rightarrow> vmw_res_type \<Rightarrow> u32 \<Rightarrow> nat option" where
  "resolve s t h =
     (case usage s h of
        None \<Rightarrow> None
      | Some b \<Rightarrow>
          if uo_type b \<noteq> Vmw_user_res t then None
          else if \<not> rs_avail (resource s (uo_target b)) \<or> rs_free (resource s (uo_target b)) \<noteq> t then None
          else Some (uo_target b))"

definition vmw_user_resource_lookup_handle :: "vmw_res_type \<Rightarrow> u32 \<Rightarrow> nat cmd" where
  "vmw_user_resource_lookup_handle t h =
     gets (\<lambda>s. case resolve s t h of
         None \<Rightarrow> fail EINVAL
       | Some r \<Rightarrow> andthen (modify (add_ref (Res r) 1)) (ok r))"

definition vmw_user_dmabuf_lookup :: "u32 \<Rightarrow> nat cmd" where
  "vmw_user_dmabuf_lookup h =
     gets (\<lambda>s. case usage s h of
        None \<Rightarrow> fail ESRCH
      | Some b \<Rightarrow> if uo_type b \<noteq> Ttm_buffer then fail EINVAL
                  else andthen (modify (add_ref (Bo (uo_target b)) 1)) (ok (uo_target b)))"

definition zero_tracker :: "cbs_ref \<Rightarrow> bindings \<Rightarrow> bindings" where
  "zero_tracker c w = w\<lparr>cbs := (cbs w)(c := \<lparr>cb_list = [], cb_at = (\<lambda>s. \<lparr>bi_ctx = None, bi_res = None,
     bi_bt = vmw_ctx_binding_shader, bi_scrubbed = False, bi_i1 = 0\<rparr>)\<rparr>)\<rparr>"

text \<open>A context that is met for the first time goes to the front of the list, brings in what is
  bound to it, and gets a tracker for what the batch binds.  When there is no memory for the
  tracker the function returns success and no node.\<close>

definition to_front :: "nat \<Rightarrow> vmw_sw_context \<Rightarrow> vmw_sw_context" where
  "to_front n s = s\<lparr>resource_list := n # remove1 n (resource_list s)\<rparr>"

definition new_tracker :: "nat \<Rightarrow> vmw_sw_context \<Rightarrow> vmw_sw_context" where
  "new_tracker n s = upd_val n (\<lambda>v. v\<lparr>vn_staged := True\<rparr>) (s\<lparr>binds := zero_tracker (Staged n) (binds s)\<rparr>)"

definition stage_context :: "nat \<Rightarrow> nat \<Rightarrow> nat option cmd" where
  "stage_context n r =
     andthen (modify (to_front n))
       (andthen (vmw_resource_context_res_add r)
         (on_error (\<lambda>_. ok None) (andthen alloc (andthen (modify (new_tracker n)) (ok (Some n))))))"

definition vmw_cmd_res_reloc_add :: "vmw_res_type \<Rightarrow> nat \<Rightarrow> nat \<Rightarrow> nat option cmd" where
  "vmw_cmd_res_reloc_add t id_loc r =
     andthen (vmw_resource_relocation_add (Some r) (word_index id_loc))
       (chain (vmw_resource_val_add r)
         (\<lambda>n. gets (\<lambda>s. if t = vmw_res_context \<and> has_mob s \<and> vn_first_usage (val_node s n)
               then stage_context n r else ok (Some n))))"

definition set_cache :: "vmw_res_type \<Rightarrow> (vmw_res_cache_entry \<Rightarrow> vmw_res_cache_entry) \<Rightarrow> vmw_sw_context \<Rightarrow> vmw_sw_context" where
  "set_cache t f s = s\<lparr>res_cache := (res_cache s)(t := f (res_cache s t))\<rparr>"

text \<open>When adding the resource fails its reference is kept for the end of the batch.\<close>

definition keep_error_resource :: "nat \<Rightarrow> errno \<Rightarrow> 'a cmd" where
  "keep_error_resource r e =
     gets (\<lambda>s. if error_resource s \<noteq> None then crash
               else andthen (modify (\<lambda>s. s\<lparr>error_resource := Some r\<rparr>)) (fail e))"

definition res_check_slow :: "vmw_res_type \<Rightarrow> nat \<Rightarrow> u32 \<Rightarrow> nat option cmd" where
  "res_check_slow t id_loc h =
     chain (vmw_user_resource_lookup_handle t h)
       (\<lambda>r. andthen (modify (set_cache t (\<lambda>c. c\<lparr>rc_valid := True, rc_res := r, rc_handle := h\<rparr>)))
         (chain (on_error (keep_error_resource r) (vmw_cmd_res_reloc_add t id_loc r))
           (\<lambda>n. andthen (modify (\<lambda>s. add_ref (Res r) (- 1) (set_cache t (\<lambda>c. c\<lparr>rc_node := n\<rparr>) s))) (ok n))))"

definition vmw_cmd_res_check :: "vmw_res_type \<Rightarrow> nat \<Rightarrow> nat option cmd" where
  "vmw_cmd_res_check t id_loc =
     gets (\<lambda>s. let h = rd32 (cmds s) id_loc; rc = res_cache s t in
      if h = SVGA3D_INVALID_ID then (if t = vmw_res_context then fail EINVAL else ok None)
      else if rc_valid rc \<and> h = rc_handle rc then
        (case rc_node rc of
           None \<Rightarrow> crash
         | Some n \<Rightarrow>
             andthen (modify (upd_val n (\<lambda>v. v\<lparr>vn_first_usage := False\<rparr>)))
               (andthen (vmw_resource_relocation_add (Some (rc_res rc)) (word_index id_loc)) (ok (Some n))))
      else res_check_slow t id_loc h)"

end
