(* ===== verification/Execbuf_Cmds.thy ===== *)
theory Execbuf_Cmds
  imports Execbuf_State
begin

text \<open>
  The command verifier, second part of \<open>src/vmwgfx_execbuf.c\<close>: one function per command of
  the device, the table that says which commands a client may send, and the loop over a
  batch.  A handler gets the position of the command header in the batch; the offsets of the
  fields follow from the structures of \<open>src/svga3d_reg.h\<close>, which consist of 32-bit words.
\<close>

section \<open>Parts of the handlers\<close>

definition check_only :: "vmw_res_type \<Rightarrow> nat \<Rightarrow> unit cmd" where
  "check_only t a = chain (vmw_cmd_res_check t a) (\<lambda>_. ok ())"

definition hdr_size :: "vmw_sw_context \<Rightarrow> nat \<Rightarrow> u32" where
  "hdr_size s p = rd32 (cmds s) (p + 4)"

definition word_at :: "vmw_sw_context \<Rightarrow> nat \<Rightarrow> u32" where
  "word_at s a = rd32 (cmds s) a"

definition put32 :: "nat \<Rightarrow> u32 \<Rightarrow> unit cmd" where
  "put32 a v = modify (\<lambda>s. s\<lparr>cmds := wr32 a v (cmds s)\<rparr>)"

definition unref :: "obj \<Rightarrow> unit cmd" where
  "unref x = modify (add_ref x (- 1))"

text \<open>Recording a binding in the tracker of the batch for the context of node \<open>cn\<close>.\<close>

definition add_binding :: "nat \<Rightarrow> vmw_ctx_bindinfo \<Rightarrow> unit cmd" where
  "add_binding n bi s =
     (case vmw_context_binding_add (Staged n) bi (binds s) of (w, r) \<Rightarrow> Some (s\<lparr>binds := w\<rparr>, r))"

definition stage_binding :: "nat option \<Rightarrow> nat option \<Rightarrow> vmw_ctx_binding_type \<Rightarrow> u32 \<Rightarrow> unit cmd" where
  "stage_binding cn rn bt i1 =
     (case cn of
        None \<Rightarrow> crash
      | Some n \<Rightarrow> gets (\<lambda>s.
          if \<not> vn_staged (val_node s n) \<and> unat i1 < slot_limit bt then crash
          else add_binding n \<lparr>bi_ctx = Some (vn_res (val_node s n)),
                 bi_res = map_option (\<lambda>m. vn_res (val_node s m)) rn,
                 bi_bt = bt, bi_scrubbed = False, bi_i1 = i1\<rparr>))"

section \<open>Commands with resource ids at fixed places\<close>

definition vmw_cmd_cid_check :: "nat \<Rightarrow> unit cmd" where
  "vmw_cmd_cid_check p = check_only vmw_res_context (p + 8)"

definition vmw_cmd_set_render_target_check :: "nat \<Rightarrow> unit cmd" where
  "vmw_cmd_set_render_target_check p =
     chain (vmw_cmd_res_check vmw_res_context (p + 8))
       (\<lambda>cn. chain (vmw_cmd_res_check vmw_res_surface (p + 16))
         (\<lambda>rn. gets (\<lambda>s. if has_mob s then stage_binding cn rn vmw_ctx_binding_rt (word_at s (p + 12)) else ok ())))"

definition vmw_cmd_surface_copy_check :: "nat \<Rightarrow> unit cmd" where
  "vmw_cmd_surface_copy_check p =
     andthen (check_only vmw_res_surface (p + 8)) (check_only vmw_res_surface (p + 20))"

definition vmw_cmd_stretch_blt_check :: "nat \<Rightarrow> unit cmd" where
  "vmw_cmd_stretch_blt_check p =
     andthen (check_only vmw_res_surface (p + 8)) (check_only vmw_res_surface (p + 20))"

definition vmw_cmd_blt_surf_screen_check :: "nat \<Rightarrow> unit cmd" where
  "vmw_cmd_blt_surf_screen_check p = check_only vmw_res_surface (p + 8)"

definition vmw_cmd_present_check :: "nat \<Rightarrow> unit cmd" where
  "vmw_cmd_present_check p = check_only vmw_res_surface (p + 8)"

definition vmw_cmd_update_gb_image :: "nat \<Rightarrow> unit cmd" where
  "vmw_cmd_update_gb_image p = check_only vmw_res_surface (p + 8)"

definition vmw_cmd_update_gb_surface :: "nat \<Rightarrow> unit cmd" where
  "vmw_cmd_update_gb_surface p = check_only vmw_res_surface (p + 8)"

definition vmw_cmd_readback_gb_image :: "nat \<Rightarrow> unit cmd" where
  "vmw_cmd_readback_gb_image p = check_only vmw_res_surface (p + 8)"

definition vmw_cmd_readback_gb_surface :: "nat \<Rightarrow> unit cmd" where
  "vmw_cmd_readback_gb_surface p = check_only vmw_res_surface (p + 8)"

definition vmw_cmd_invalidate_gb_image :: "nat \<Rightarrow> unit cmd" where
  "vmw_cmd_invalidate_gb_image p = check_only vmw_res_surface (p + 8)"

definition vmw_cmd_invalidate_gb_surface :: "nat \<Rightarrow> unit cmd" where
  "vmw_cmd_invalidate_gb_surface p = check_only vmw_res_surface (p + 8)"

section \<open>Buffers\<close>

text \<open>\<open>mob\<close> says which of the two translation functions it is: \<open>vmw_translate_mob_ptr\<close>
  sets \<open>mob_loc\<close> and clears \<open>location\<close>, \<open>vmw_translate_guest_ptr\<close> sets \<open>location\<close> only.\<close>

definition next_reloc :: "bool \<Rightarrow> nat \<Rightarrow> vmw_sw_context \<Rightarrow> vmw_sw_context" where
  "next_reloc mob a s =
     (let i = cur_reloc s;
          rl = (if mob then (relocs s i)\<lparr>rl_mob_loc := Some a, rl_location := None\<rparr>
                else (relocs s i)\<lparr>rl_location := Some a\<rparr>)
      in s\<lparr>relocs := (relocs s)(i := rl), cur_reloc := Suc i\<rparr>)"

definition set_index :: "nat \<Rightarrow> nat \<Rightarrow> vmw_sw_context \<Rightarrow> vmw_sw_context" where
  "set_index i v s = s\<lparr>relocs := (relocs s)(i := (relocs s i)\<lparr>rl_index := v\<rparr>)\<rparr>"

definition add_relocation :: "bool \<Rightarrow> nat \<Rightarrow> nat \<Rightarrow> unit cmd" where
  "add_relocation mob a b =
     gets (\<lambda>s. if VMWGFX_MAX_RELOCATIONS \<le> cur_reloc s then fail EINVAL
               else andthen (modify (next_reloc mob a))
                 (chain (vmw_bo_to_validate_list b DRM_VMW_FENCE_FLAG_EXEC mob)
                   (\<lambda>v. modify (set_index (cur_reloc s) v))))"

definition translate_ptr :: "bool \<Rightarrow> nat \<Rightarrow> nat cmd" where
  "translate_ptr mob a =
     gets (\<lambda>s. chain (on_error (\<lambda>_. fail EINVAL) (vmw_user_dmabuf_lookup (word_at s a)))
       (\<lambda>b. andthen (on_error (\<lambda>e. andthen (unref (Bo b)) (fail e)) (add_relocation mob a b)) (ok b)))"

definition vmw_translate_mob_ptr :: "nat \<Rightarrow> nat cmd" where
  "vmw_translate_mob_ptr a = translate_ptr True a"

definition vmw_translate_guest_ptr :: "nat \<Rightarrow> nat cmd" where
  "vmw_translate_guest_ptr a = translate_ptr False a"

definition add_old_query_bo :: "unit cmd" where
  "add_old_query_bo =
     gets (\<lambda>s. case cur_query_bo s of
         None \<Rightarrow> ok ()
       | Some q \<Rightarrow> andthen (modify (\<lambda>s. s\<lparr>needs_post_query_barrier := True\<rparr>))
           (chain (vmw_bo_to_validate_list q DRM_VMW_FENCE_FLAG_EXEC (has_mob s)) (\<lambda>_. ok ())))"

definition vmw_query_bo_switch_prepare :: "nat \<Rightarrow> unit cmd" where
  "vmw_query_bo_switch_prepare b =
     gets (\<lambda>s. let rc = res_cache s vmw_res_context in
       if \<not> rc_valid rc then crash
       else andthen (modify (\<lambda>s. s\<lparr>last_query_ctx := Some (rc_res rc)\<rparr>))
         (if Some b = cur_query_bo s then ok ()
          else if 4 < buf_num_pages (buffer s b) then fail EINVAL
          else andthen add_old_query_bo
            (andthen (modify (\<lambda>s. s\<lparr>cur_query_bo := Some b\<rparr>))
              (chain (vmw_bo_to_validate_list (dummy_query_bo s) DRM_VMW_FENCE_FLAG_EXEC (has_mob s)) (\<lambda>_. ok ())))))"

section \<open>Queries\<close>

definition SVGA_3D_CMD_BEGIN_GB_QUERY :: u32 where "SVGA_3D_CMD_BEGIN_GB_QUERY = 1116"
definition SVGA_3D_CMD_END_GB_QUERY :: u32 where "SVGA_3D_CMD_END_GB_QUERY = 1117"

definition vmw_cmd_begin_gb_query :: "nat \<Rightarrow> unit cmd" where
  "vmw_cmd_begin_gb_query p = check_only vmw_res_context (p + 8)"

text \<open>The guest-backed form of a query command has the same size and its fields are at the same
  places, so that copying the rewritten command over the old one changes its id only; the
  words are written out in the order of the structure.\<close>

definition rewrite_cmd :: "nat \<Rightarrow> u32 \<Rightarrow> nat \<Rightarrow> unit cmd" where
  "rewrite_cmd p cid n =
     modify (\<lambda>s. s\<lparr>cmds := wr_words p (cid # map (\<lambda>i. word_at s (p + 4 * i)) [1..<n]) (cmds s)\<rparr>)"

definition vmw_cmd_begin_query :: "nat \<Rightarrow> unit cmd" where
  "vmw_cmd_begin_query p =
     gets (\<lambda>s. if has_mob s then andthen (rewrite_cmd p SVGA_3D_CMD_BEGIN_GB_QUERY 4) (vmw_cmd_begin_gb_query p)
      else check_only vmw_res_context (p + 8))"

definition vmw_cmd_end_gb_query :: "nat \<Rightarrow> unit cmd" where
  "vmw_cmd_end_gb_query p =
     andthen (vmw_cmd_cid_check p)
       (chain (vmw_translate_mob_ptr (p + 16))
         (\<lambda>b. cleanup (add_ref (Bo b) (- 1)) (vmw_query_bo_switch_prepare b)))"

definition vmw_cmd_end_query :: "nat \<Rightarrow> unit cmd" where
  "vmw_cmd_end_query p =
     gets (\<lambda>s. if has_mob s then andthen (rewrite_cmd p SVGA_3D_CMD_END_GB_QUERY 6) (vmw_cmd_end_gb_query p)
      else andthen (vmw_cmd_cid_check p)
        (chain (vmw_translate_guest_ptr (p + 16))
          (\<lambda>b. cleanup (add_ref (Bo b) (- 1)) (vmw_query_bo_switch_prepare b))))"

definition vmw_cmd_wait_gb_query :: "nat \<Rightarrow> unit cmd" where
  "vmw_cmd_wait_gb_query p =
     andthen (vmw_cmd_cid_check p) (chain (vmw_translate_mob_ptr (p + 16)) (\<lambda>b. unref (Bo b)))"

definition vmw_cmd_wait_query :: "nat \<Rightarrow> unit cmd" where
  "vmw_cmd_wait_query p =
     gets (\<lambda>s. if has_mob s then andthen (rewrite_cmd p SVGA_3D_CMD_WAIT_FOR_GB_QUERY 6) (vmw_cmd_wait_gb_query p)
      else andthen (vmw_cmd_cid_check p) (chain (vmw_translate_guest_ptr (p + 16)) (\<lambda>b. unref (Bo b))))"

section \<open>Commands of variable size\<close>

text \<open>The DMA suffix is found from the size of the command; with a size below four at the
  start of the batch it would lie in front of the batch, which is \<open>crash\<close> here.  The cursor
  snooping at the end copies image data into the surface's cursor image and touches nothing of
  this state; it uses the surface of the cache entry, which is a null pointer when the batch has not
  named a surface yet.\<close>

definition dma_size :: "vmw_sw_context \<Rightarrow> nat \<Rightarrow> u32" where
  "dma_size s b = ucast (buf_num_pages (buffer s b) * of_nat PAGE_SIZE)"

definition snoop_surface :: "unit cmd" where
  "snoop_surface = gets (\<lambda>s. if rc_valid (res_cache s vmw_res_surface) then ok () else crash)"

definition dma_checked :: "nat \<Rightarrow> nat \<Rightarrow> nat \<Rightarrow> unit cmd" where
  "dma_checked p suffix b =
     gets (\<lambda>s. let offset = word_at s (p + 12) in
       if dma_size s b < offset then fail EINVAL
       else
         (let room = dma_size s b - offset in
          andthen (if room < word_at s (suffix + 4) then put32 (suffix + 4) room else ok ())
            (cleanup (add_ref (Bo b) (- 1))
               (andthen (check_only vmw_res_surface (p + 20)) snoop_surface))))"

definition vmw_cmd_dma :: "nat \<Rightarrow> unit cmd" where
  "vmw_cmd_dma p =
     gets (\<lambda>s. let sz = unat (hdr_size s p) in
      if p + 8 + sz < 12 then crash
      else
        (let suffix = p + 8 + sz - 12 in
         if word_at s suffix \<noteq> 12 then fail EINVAL
         else chain (vmw_translate_guest_ptr (p + 8)) (dma_checked p suffix)))"

text \<open>The sizes of the two kinds of array elements are 36 and 28 bytes.  The differences are
  computed as \<open>size_t\<close> and their quotients cut to 32 bits.\<close>

definition draw_maxnum :: "u32 \<Rightarrow> u64 \<Rightarrow> u64 \<Rightarrow> u32" where
  "draw_maxnum sz used elem = ucast ((ucast sz - used) div elem)"

definition vmw_cmd_draw :: "nat \<Rightarrow> unit cmd" where
  "vmw_cmd_draw p =
     andthen (vmw_cmd_cid_check p)
       (gets (\<lambda>s. let sz = hdr_size s p; nvd = word_at s (p + 12); nr = word_at s (p + 16) in
          if draw_maxnum sz 12 36 < nvd then fail EINVAL
          else andthen (for_each (\<lambda>i. check_only vmw_res_surface (p + 20 + 36 * i + 16)) [0..<unat nvd])
            (if draw_maxnum sz (12 + ucast nvd * 36) 28 < nr then fail EINVAL
             else for_each (\<lambda>i. check_only vmw_res_surface (p + 20 + 36 * unat nvd + 28 * i + 8))
                    [0..<unat nr])))"

text \<open>The end of the states is computed with the size of a pointer, eight bytes, which is also
  the size of the header.  The result of staging a binding is not looked at.\<close>

definition tex_state_size :: nat where "tex_state_size = 12"

definition tex_states :: "nat \<Rightarrow> nat \<Rightarrow> nat list" where
  "tex_states p sz =
     map (\<lambda>i. p + 12 + tex_state_size * i) [0..<(p + sz + 8 - (p + 12) + 11) div tex_state_size]"

definition tex_state_one :: "nat option \<Rightarrow> nat \<Rightarrow> unit cmd" where
  "tex_state_one cn c =
     gets (\<lambda>s. if word_at s (c + 4) \<noteq> SVGA3D_TS_BIND_TEXTURE then ok ()
      else chain (vmw_cmd_res_check vmw_res_surface (c + 8))
        (\<lambda>rn. if has_mob s
              then on_error (\<lambda>_. ok ()) (stage_binding cn rn vmw_ctx_binding_tex (word_at s c))
              else ok ()))"

definition vmw_cmd_tex_state :: "nat \<Rightarrow> unit cmd" where
  "vmw_cmd_tex_state p =
     chain (vmw_cmd_res_check vmw_res_context (p + 8))
       (\<lambda>cn. gets (\<lambda>s. for_each (tex_state_one cn) (tex_states p (unat (hdr_size s p)))))"

section \<open>Backup buffers and shaders\<close>

definition vmw_cmd_check_define_gmrfb :: "nat \<Rightarrow> unit cmd" where
  "vmw_cmd_check_define_gmrfb p = chain (vmw_translate_guest_ptr (p + 4)) (\<lambda>b. unref (Bo b))"

definition drop_backup :: "nat \<Rightarrow> vmw_sw_context \<Rightarrow> vmw_sw_context" where
  "drop_backup n s = (case vn_new_backup (val_node s n) of None \<Rightarrow> s | Some b \<Rightarrow> add_ref (Bo b) (- 1) s)"

definition set_backup :: "nat \<Rightarrow> nat \<Rightarrow> u64 \<Rightarrow> vmw_sw_context \<Rightarrow> vmw_sw_context" where
  "set_backup n b off s =
     upd_val n (\<lambda>v. v\<lparr>vn_no_buffer := vn_no_buffer v \<or> vn_first_usage v,
                      vn_new_backup := Some b, vn_backup_offset := off\<rparr>) (drop_backup n s)"

definition vmw_cmd_switch_backup :: "vmw_res_type \<Rightarrow> nat \<Rightarrow> nat \<Rightarrow> u64 \<Rightarrow> unit cmd" where
  "vmw_cmd_switch_backup t res_loc buf_loc off =
     chain (vmw_cmd_res_check t res_loc)
       (\<lambda>vn. chain (vmw_translate_mob_ptr buf_loc)
         (\<lambda>b. case vn of None \<Rightarrow> crash | Some n \<Rightarrow> modify (set_backup n b off)))"

definition vmw_cmd_bind_gb_surface :: "nat \<Rightarrow> unit cmd" where
  "vmw_cmd_bind_gb_surface p = vmw_cmd_switch_backup vmw_res_surface (p + 8) (p + 12) 0"

definition vmw_cmd_bind_gb_shader :: "nat \<Rightarrow> unit cmd" where
  "vmw_cmd_bind_gb_shader p =
     gets (\<lambda>s. vmw_cmd_switch_backup vmw_res_shader (p + 8) (p + 12) (ucast (word_at s (p + 16))))"

definition vmw_compat_shader_id_ok :: "u32 \<Rightarrow> u32 \<Rightarrow> bool" where
  "vmw_compat_shader_id_ok user_key shader_type \<longleftrightarrow> user_key \<le> push_bit 20 1 - 1 \<and> shader_type < 16"

definition vmw_compat_shader_key :: "u32 \<Rightarrow> u32 \<Rightarrow> u32" where
  "vmw_compat_shader_key user_key shader_type = user_key OR push_bit 20 shader_type"

definition put_man :: "nat \<Rightarrow> vmw_cmdbuf_res_manager \<Rightarrow> vmw_sw_context \<Rightarrow> vmw_sw_context" where
  "put_man c m s = s\<lparr>res_man := (res_man s)(c := m)\<rparr>"

text \<open>An operation on the resource manager of context \<open>c\<close>.\<close>

definition on_man :: "nat \<Rightarrow> (vmw_cmdbuf_res_manager \<Rightarrow> (vmw_cmdbuf_res_manager \<times> 'a res) option) \<Rightarrow> 'a cmd" where
  "on_man c f s = (case f (res_man s c) of None \<Rightarrow> None | Some (m, r) \<Rightarrow> Some (put_man c m s, r))"

definition vmw_compat_shader_remove :: "nat \<Rightarrow> u32 \<Rightarrow> u32 \<Rightarrow> unit cmd" where
  "vmw_compat_shader_remove c user_key ty =
     (if \<not> vmw_compat_shader_id_ok user_key ty then fail EINVAL
      else gets (\<lambda>s. on_man c (\<lambda>m. vmw_cmdbuf_res_remove (hash s) m 0 (vmw_compat_shader_key user_key ty))))"

text \<open>A shader object that was not allocated is an error pointer, which is not tested for: the
  result tested is that of the validation before it.\<close>

definition compat_shader_stage :: "nat \<Rightarrow> u32 \<Rightarrow> u32 \<Rightarrow> nat res \<Rightarrow> unit cmd" where
  "compat_shader_stage c user_key ty sh =
     (case sh of
        Inl _ \<Rightarrow> crash
      | Inr r \<Rightarrow> gets (\<lambda>s. let k = (if kmem s (allocs s) then Some (allocs s) else None) in
          andthen (modify (\<lambda>s. s\<lparr>allocs := Suc (allocs s)\<rparr>))
            (on_man c (\<lambda>m. Some (vmw_cmdbuf_res_add (hash s) m 0 (vmw_compat_shader_key user_key ty) r k)))))"

definition vmw_compat_shader_add :: "nat \<Rightarrow> u32 \<Rightarrow> u32 \<Rightarrow> unit cmd" where
  "vmw_compat_shader_add c user_key ty =
     (if \<not> vmw_compat_shader_id_ok user_key ty then fail EINVAL
      else andthen alloc (gets (\<lambda>s. let oc = shader_oc s (allocs s) in
        andthen (outcome (so_dmabuf_init oc))
          (andthen (outcome (so_reserve oc))
            (andthen (outcome (so_kmap oc))
              (andthen (outcome (so_validate oc)) (compat_shader_stage c user_key ty (so_shader oc))))))))"

definition vmw_compat_shader_lookup :: "nat \<Rightarrow> u32 \<Rightarrow> u32 \<Rightarrow> nat cmd" where
  "vmw_compat_shader_lookup c user_key ty =
     (if \<not> vmw_compat_shader_id_ok user_key ty then fail EINVAL
      else gets (\<lambda>s. on_man c (\<lambda>m. Some (vmw_cmdbuf_res_lookup (hash s) m 0 (vmw_compat_shader_key user_key ty)))))"

text \<open>The resource of a context node; without a node the code follows a null pointer.\<close>

definition with_node_res :: "nat option \<Rightarrow> (nat \<Rightarrow> 'a cmd) \<Rightarrow> 'a cmd" where
  "with_node_res vn k = (case vn of None \<Rightarrow> crash | Some n \<Rightarrow> gets (\<lambda>s. k (vn_res (val_node s n))))"

definition vmw_cmd_shader_define :: "nat \<Rightarrow> unit cmd" where
  "vmw_cmd_shader_define p =
     chain (vmw_cmd_res_check vmw_res_context (p + 8))
       (\<lambda>cn. gets (\<lambda>s. if \<not> has_mob s then ok ()
          else with_node_res cn (\<lambda>c. andthen (vmw_compat_shader_add c (word_at s (p + 12)) (word_at s (p + 16)))
                  (vmw_resource_relocation_add None (word_index p)))))"

definition vmw_cmd_shader_destroy :: "nat \<Rightarrow> unit cmd" where
  "vmw_cmd_shader_destroy p =
     chain (vmw_cmd_res_check vmw_res_context (p + 8))
       (\<lambda>cn. gets (\<lambda>s. if \<not> has_mob s then ok ()
          else with_node_res cn (\<lambda>c. andthen (vmw_compat_shader_remove c (word_at s (p + 12)) (word_at s (p + 16)))
                  (vmw_resource_relocation_add None (word_index p)))))"

text \<open>The reference the lookup gave is dropped again after the shader is on the list.\<close>

definition compat_shader_node :: "nat \<Rightarrow> u32 \<Rightarrow> u32 \<Rightarrow> nat \<Rightarrow> nat option cmd" where
  "compat_shader_node c shid ty a =
     chain (on_error (\<lambda>_. ok None) (chain (vmw_compat_shader_lookup c shid ty) (\<lambda>r. ok (Some r))))
       (\<lambda>r. case r of
           None \<Rightarrow> ok None
         | Some r \<Rightarrow> cleanup (\<lambda>s. put_man c (upd_refs r (- 1) (res_man s c)) s)
                       (vmw_cmd_res_reloc_add vmw_res_shader a r))"

definition vmw_cmd_set_shader :: "nat \<Rightarrow> unit cmd" where
  "vmw_cmd_set_shader p =
     chain (vmw_cmd_res_check vmw_res_context (p + 8))
       (\<lambda>cn. gets (\<lambda>s. if \<not> has_mob s then ok ()
          else
            (let shid = word_at s (p + 16); ty = word_at s (p + 12) in
             chain (if shid = SVGA3D_INVALID_ID then ok None
                    else with_node_res cn (\<lambda>c. compat_shader_node c shid ty (p + 16)))
               (\<lambda>rn. chain (if rn = None then vmw_cmd_res_check vmw_res_shader (p + 16) else ok rn)
                 (\<lambda>rn. stage_binding cn rn vmw_ctx_binding_shader ty)))))"

definition SVGA_3D_CMD_SET_GB_SHADERCONSTS_INLINE :: u32 where "SVGA_3D_CMD_SET_GB_SHADERCONSTS_INLINE = 1130"

definition vmw_cmd_set_shader_const :: "nat \<Rightarrow> unit cmd" where
  "vmw_cmd_set_shader_const p =
     andthen (check_only vmw_res_context (p + 8))
       (gets (\<lambda>s. if has_mob s then put32 p SVGA_3D_CMD_SET_GB_SHADERCONSTS_INLINE else ok ()))"

section \<open>The table of commands\<close>

text \<open>The handlers as values, and the call through the table.\<close>

datatype vmw_cmd_func =
    Fcmd_invalid
  | Fcmd_surface_copy_check
  | Fcmd_stretch_blt_check
  | Fcmd_dma
  | Fcmd_cid_check
  | Fcmd_set_render_target_check
  | Fcmd_tex_state
  | Fcmd_present_check
  | Fcmd_shader_define
  | Fcmd_shader_destroy
  | Fcmd_set_shader
  | Fcmd_set_shader_const
  | Fcmd_draw
  | Fcmd_begin_query
  | Fcmd_end_query
  | Fcmd_wait_query
  | Fcmd_ok
  | Fcmd_blt_surf_screen_check
  | Fcmd_bind_gb_surface
  | Fcmd_update_gb_image
  | Fcmd_update_gb_surface
  | Fcmd_readback_gb_image
  | Fcmd_readback_gb_surface
  | Fcmd_invalidate_gb_image
  | Fcmd_invalidate_gb_surface
  | Fcmd_bind_gb_shader
  | Fcmd_begin_gb_query
  | Fcmd_end_gb_query
  | Fcmd_wait_gb_query

fun run_func :: "vmw_cmd_func \<Rightarrow> nat \<Rightarrow> unit cmd" where
  "run_func Fcmd_invalid p = vmw_cmd_invalid p"
| "run_func Fcmd_surface_copy_check p = vmw_cmd_surface_copy_check p"
| "run_func Fcmd_stretch_blt_check p = vmw_cmd_stretch_blt_check p"
| "run_func Fcmd_dma p = vmw_cmd_dma p"
| "run_func Fcmd_cid_check p = vmw_cmd_cid_check p"
| "run_func Fcmd_set_render_target_check p = vmw_cmd_set_render_target_check p"
| "run_func Fcmd_tex_state p = vmw_cmd_tex_state p"
| "run_func Fcmd_present_check p = vmw_cmd_present_check p"
| "run_func Fcmd_shader_define p = vmw_cmd_shader_define p"
| "run_func Fcmd_shader_destroy p = vmw_cmd_shader_destroy p"
| "run_func Fcmd_set_shader p = vmw_cmd_set_shader p"
| "run_func Fcmd_set_shader_const p = vmw_cmd_set_shader_const p"
| "run_func Fcmd_draw p = vmw_cmd_draw p"
| "run_func Fcmd_begin_query p = vmw_cmd_begin_query p"
| "run_func Fcmd_end_query p = vmw_cmd_end_query p"
| "run_func Fcmd_wait_query p = vmw_cmd_wait_query p"
| "run_func Fcmd_ok p = vmw_cmd_ok p"
| "run_func Fcmd_blt_surf_screen_check p = vmw_cmd_blt_surf_screen_check p"
| "run_func Fcmd_bind_gb_surface p = vmw_cmd_bind_gb_surface p"
| "run_func Fcmd_update_gb_image p = vmw_cmd_update_gb_image p"
| "run_func Fcmd_update_gb_surface p = vmw_cmd_update_gb_surface p"
| "run_func Fcmd_readback_gb_image p = vmw_cmd_readback_gb_image p"
| "run_func Fcmd_readback_gb_surface p = vmw_cmd_readback_gb_surface p"
| "run_func Fcmd_invalidate_gb_image p = vmw_cmd_invalidate_gb_image p"
| "run_func Fcmd_invalidate_gb_surface p = vmw_cmd_invalidate_gb_surface p"
| "run_func Fcmd_bind_gb_shader p = vmw_cmd_bind_gb_shader p"
| "run_func Fcmd_begin_gb_query p = vmw_cmd_begin_gb_query p"
| "run_func Fcmd_end_gb_query p = vmw_cmd_end_gb_query p"
| "run_func Fcmd_wait_gb_query p = vmw_cmd_wait_gb_query p"

record vmw_cmd_entry =
  func :: vmw_cmd_func
  user_allow :: bool
  gb_disable :: bool
  gb_enable :: bool

definition SVGA_3D_CMD_BASE :: u32 where "SVGA_3D_CMD_BASE = 1040"
definition SVGA_3D_CMD_MAX :: u32 where "SVGA_3D_CMD_MAX = 1142"

definition VMW_CMD_DEF :: "u32 \<Rightarrow> vmw_cmd_func \<Rightarrow> bool \<Rightarrow> bool \<Rightarrow> bool \<Rightarrow> u32 \<times> vmw_cmd_entry" where
  "VMW_CMD_DEF c f u d e = (c - SVGA_3D_CMD_BASE, \<lparr>func = f, user_allow = u, gb_disable = d, gb_enable = e\<rparr>)"

text \<open>An index without an entry is zero in the C array: no handler, and nothing is allowed.\<close>

definition vmw_cmd_entries :: "(u32 \<times> vmw_cmd_entry) list" where
  "vmw_cmd_entries = [
    VMW_CMD_DEF 1040 Fcmd_invalid False False False,
    VMW_CMD_DEF 1041 Fcmd_invalid False False False,
    VMW_CMD_DEF 1042 Fcmd_surface_copy_check True False False,
    VMW_CMD_DEF 1043 Fcmd_stretch_blt_check True False False,
    VMW_CMD_DEF 1044 Fcmd_dma True False False,
    VMW_CMD_DEF 1045 Fcmd_invalid False False False,
    VMW_CMD_DEF 1046 Fcmd_invalid False False False,
    VMW_CMD_DEF 1047 Fcmd_cid_check True False False,
    VMW_CMD_DEF 1048 Fcmd_cid_check True False False,
    VMW_CMD_DEF 1049 Fcmd_cid_check True False False,
    VMW_CMD_DEF 1050 Fcmd_set_render_target_check True False False,
    VMW_CMD_DEF 1051 Fcmd_tex_state True False False,
    VMW_CMD_DEF 1052 Fcmd_cid_check True False False,
    VMW_CMD_DEF 1053 Fcmd_cid_check True False False,
    VMW_CMD_DEF 1054 Fcmd_cid_check True False False,
    VMW_CMD_DEF 1055 Fcmd_cid_check True False False,
    VMW_CMD_DEF 1056 Fcmd_cid_check True False False,
    VMW_CMD_DEF 1057 Fcmd_cid_check True False False,
    VMW_CMD_DEF 1058 Fcmd_present_check False False False,
    VMW_CMD_DEF 1059 Fcmd_shader_define True False False,
    VMW_CMD_DEF 1060 Fcmd_shader_destroy True False False,
    VMW_CMD_DEF 1061 Fcmd_set_shader True False False,
    VMW_CMD_DEF 1062 Fcmd_set_shader_const True False False,
    VMW_CMD_DEF 1063 Fcmd_draw True False False,
    VMW_CMD_DEF 1064 Fcmd_cid_check True False False,
    VMW_CMD_DEF 1065 Fcmd_begin_query True False False,
    VMW_CMD_DEF 1066 Fcmd_end_query True False False,
    VMW_CMD_DEF 1067 Fcmd_wait_query True False False,
    VMW_CMD_DEF 1068 Fcmd_ok True False False,
    VMW_CMD_DEF 1069 Fcmd_blt_surf_screen_check False False False,
    VMW_CMD_DEF 1070 Fcmd_invalid False False False,
    VMW_CMD_DEF 1071 Fcmd_invalid False False False,
    VMW_CMD_DEF 1080 Fcmd_invalid False False False,
    VMW_CMD_DEF 1081 Fcmd_invalid False False False,
    VMW_CMD_DEF 1082 Fcmd_invalid False False False,
    VMW_CMD_DEF 1083 Fcmd_invalid False False False,
    VMW_CMD_DEF 1084 Fcmd_invalid False False False,
    VMW_CMD_DEF 1085 Fcmd_invalid False False False,
    VMW_CMD_DEF 1086 Fcmd_invalid False False False,
    VMW_CMD_DEF 1087 Fcmd_invalid False False False,
    VMW_CMD_DEF 1088 Fcmd_invalid False False False,
    VMW_CMD_DEF 1089 Fcmd_invalid False False False,
    VMW_CMD_DEF 1090 Fcmd_invalid False False False,
    VMW_CMD_DEF 1091 Fcmd_invalid False False True,
    VMW_CMD_DEF 1092 Fcmd_invalid False False True,
    VMW_CMD_DEF 1093 Fcmd_invalid False False True,
    VMW_CMD_DEF 1094 Fcmd_invalid False False True,
    VMW_CMD_DEF 1095 Fcmd_invalid False False True,
    VMW_CMD_DEF 1096 Fcmd_invalid False False True,
    VMW_CMD_DEF 1097 Fcmd_invalid False False True,
    VMW_CMD_DEF 1098 Fcmd_invalid False False True,
    VMW_CMD_DEF 1099 Fcmd_bind_gb_surface True False True,
    VMW_CMD_DEF 1100 Fcmd_invalid False False True,
    VMW_CMD_DEF 1101 Fcmd_update_gb_image True False True,
    VMW_CMD_DEF 1102 Fcmd_update_gb_surface True False True,
    VMW_CMD_DEF 1103 Fcmd_readback_gb_image True False True,
    VMW_CMD_DEF 1104 Fcmd_readback_gb_surface True False True,
    VMW_CMD_DEF 1105 Fcmd_invalidate_gb_image True False True,
    VMW_CMD_DEF 1106 Fcmd_invalidate_gb_surface True False True,
    VMW_CMD_DEF 1107 Fcmd_invalid False False True,
    VMW_CMD_DEF 1108 Fcmd_invalid False False True,
    VMW_CMD_DEF 1109 Fcmd_invalid False False True,
    VMW_CMD_DEF 1110 Fcmd_invalid False False True,
    VMW_CMD_DEF 1111 Fcmd_invalid False False True,
    VMW_CMD_DEF 1112 Fcmd_invalid False False True,
    VMW_CMD_DEF 1114 Fcmd_bind_gb_shader True False True,
    VMW_CMD_DEF 1113 Fcmd_invalid False False True,
    VMW_CMD_DEF 1115 Fcmd_invalid False False False,
    VMW_CMD_DEF 1116 Fcmd_begin_gb_query True False True,
    VMW_CMD_DEF 1117 Fcmd_end_gb_query True False True,
    VMW_CMD_DEF 1118 Fcmd_wait_gb_query True False True,
    VMW_CMD_DEF 1119 Fcmd_ok True False True,
    VMW_CMD_DEF 1120 Fcmd_invalid False False True,
    VMW_CMD_DEF 1121 Fcmd_invalid False False True,
    VMW_CMD_DEF 1122 Fcmd_invalid False False True,
    VMW_CMD_DEF 1123 Fcmd_invalid False False True,
    VMW_CMD_DEF 1124 Fcmd_invalid False False True,
    VMW_CMD_DEF 1125 Fcmd_invalid False False True,
    VMW_CMD_DEF 1126 Fcmd_invalid False False True,
    VMW_CMD_DEF 1127 Fcmd_invalid False False True,
    VMW_CMD_DEF 1128 Fcmd_invalid False False True,
    VMW_CMD_DEF 1129 Fcmd_invalid False False True,
    VMW_CMD_DEF 1130 Fcmd_cid_check True False True]"

section \<open>Checking a command\<close>

definition SVGA_CMD_MAX :: u32 where "SVGA_CMD_MAX = 43"
definition SVGA_CMD_UPDATE :: u32 where "SVGA_CMD_UPDATE = 1"
definition SVGA_CMD_DEFINE_GMRFB :: u32 where "SVGA_CMD_DEFINE_GMRFB = 36"
definition SVGA_CMD_BLIT_GMRFB_TO_SCREEN :: u32 where "SVGA_CMD_BLIT_GMRFB_TO_SCREEN = 37"
definition SVGA_CMD_BLIT_SCREEN_TO_GMRFB :: u32 where "SVGA_CMD_BLIT_SCREEN_TO_GMRFB = 38"

definition not_3d_size :: "u32 \<Rightarrow> u32 option" where
  "not_3d_size c =
     (if c = SVGA_CMD_UPDATE then Some 20
      else if c = SVGA_CMD_DEFINE_GMRFB then Some 20
      else if c = SVGA_CMD_BLIT_GMRFB_TO_SCREEN then Some 32
      else if c = SVGA_CMD_BLIT_SCREEN_TO_GMRFB then Some 32
      else None)"

text \<open>Both functions return the size of the command.\<close>

definition vmw_cmd_check_not_3d :: "nat \<Rightarrow> u32 \<Rightarrow> u32 cmd" where
  "vmw_cmd_check_not_3d p size_remaining =
     gets (\<lambda>s. case not_3d_size (word_at s p) of
        None \<Rightarrow> fail EINVAL
      | Some sz \<Rightarrow>
          if size_remaining < sz then fail EINVAL
          else if \<not> kernel s then fail EPERM
          else if word_at s p = SVGA_CMD_DEFINE_GMRFB then andthen (vmw_cmd_check_define_gmrfb p) (ok sz)
          else ok sz)"

definition cmd_entry :: "u32 \<Rightarrow> vmw_cmd_entry option" where
  "cmd_entry cmd_id = map_of vmw_cmd_entries (cmd_id - SVGA_3D_CMD_BASE)"

definition run_entry :: "vmw_cmd_entry \<Rightarrow> nat \<Rightarrow> u32 \<Rightarrow> u32 cmd" where
  "run_entry en p sz =
     gets (\<lambda>s. if \<not> user_allow en \<and> \<not> kernel s then fail EPERM
      else if gb_disable en \<and> gb_objects s then fail EINVAL
      else if gb_enable en \<and> \<not> gb_objects s then fail EINVAL
      else andthen (on_error (\<lambda>_. fail EINVAL) (run_func (func en) p)) (ok sz))"

definition vmw_cmd_check :: "nat \<Rightarrow> u32 \<Rightarrow> u32 cmd" where
  "vmw_cmd_check p size_remaining =
     gets (\<lambda>s. let cmd_id = word_at s p in
      if cmd_id < SVGA_CMD_MAX then vmw_cmd_check_not_3d p size_remaining
      else
        (let sz = hdr_size s p + 8 in
         if size_remaining < sz then fail EINVAL
         else if SVGA_3D_CMD_MAX - SVGA_3D_CMD_BASE \<le> cmd_id - SVGA_3D_CMD_BASE then fail EINVAL
         else (case cmd_entry cmd_id of
             None \<Rightarrow> if \<not> kernel s then fail EPERM else crash
           | Some en \<Rightarrow> run_entry en p sz)))"

section \<open>Checking a batch\<close>

text \<open>The loop counts the bytes left in a signed 32-bit variable.  The outer option is the fuel,
  one unit per command; \<open>check_all_returns\<close> says how much is enough, and that no amount is when a
  command's size wraps to zero.\<close>

fun check_all_loop :: "nat \<Rightarrow> nat \<Rightarrow> u32 \<Rightarrow> vmw_sw_context \<Rightarrow> (vmw_sw_context \<times> unit res) option option" where
  "check_all_loop 0 p cur s = None"
| "check_all_loop (Suc n) p cur s =
     (if \<not> 0 < sint cur then Some (if cur \<noteq> 0 then fail EINVAL s else ok () s)
      else case vmw_cmd_check p cur s of
             None \<Rightarrow> Some None
           | Some (s1, Inl e) \<Rightarrow> Some (Some (s1, Inl e))
           | Some (s1, Inr sz) \<Rightarrow> check_all_loop n (p + unat sz) (cur - sz) s1)"

definition vmw_cmd_check_all :: "nat \<Rightarrow> u32 \<Rightarrow> vmw_sw_context \<Rightarrow> (vmw_sw_context \<times> unit res) option option" where
  "vmw_cmd_check_all fuel sz s = check_all_loop fuel 0 sz s"

end
