(* ===== verification/Execbuf_Rules.thy ===== *)
theory Execbuf_Rules
  imports Execbuf_Cmds
begin

text \<open>
  Reasoning about the verifier.  The locale \<open>handler_relation\<close> says what a relation between
  states must allow so that every command handler stays within it; its lemma about
  \<open>run_func\<close> is proved once, and interpreted for the invariant of the software context, for the
  bytes of a batch a command may touch, and for what a command leaves as it was.
\<close>

section \<open>The operations on resources\<close>

text \<open>\<open>rng a n\<close> says that an operation may refer to the \<open>n\<close> bytes at \<open>a\<close> of the batch.  A
  relocation names a resource that a handle of the client resolves to, directly or through the
  cache, except one that is \<open>free\<close>: where a command is replaced by a NOP, and where the id of
  a shader of the command stream is looked up in a context.\<close>

definition found :: "vmw_sw_context \<Rightarrow> nat \<Rightarrow> bool" where
  "found s r \<longleftrightarrow> (\<exists>t h. resolve s t h = Some r) \<or> (\<exists>t. rc_valid (res_cache s t) \<and> rc_res (res_cache s t) = r)"

definition may_relocate :: "(nat \<Rightarrow> nat option \<Rightarrow> bool) \<Rightarrow> nat \<Rightarrow> nat option \<Rightarrow> vmw_sw_context \<Rightarrow> bool" where
  "may_relocate free a z s \<longleftrightarrow> free a z \<or> (\<exists>r. z = Some r \<and> found s r)"

lemma resolve_cong: "usage s' = usage s \<Longrightarrow> resource s' = resource s \<Longrightarrow> resolve s' = resolve s"
  by (intro ext) (simp add: resolve_def split: option.split)

lemma found_cong: "usage s' = usage s \<Longrightarrow> resource s' = resource s \<Longrightarrow> res_cache s' = res_cache s \<Longrightarrow> found s' = found s"
  by (rule ext) (simp add: found_def resolve_cong [of s' s])

lemma val_add_ht:
  "vmw_resource_val_add r s = Some (s1, Inr n) \<Longrightarrow> map_of (res_ht s1) (Res r) = Some (Val_node n)"
  by (auto simp: vmw_resource_val_add_def exec_simps upd_val_def new_val_node_def add_ref_def Let_def
           split: option.splits ht_ref.splits)

definition relocate :: "nat \<Rightarrow> nat option \<Rightarrow> vmw_sw_context \<Rightarrow> vmw_sw_context" where
  "relocate a z s = s\<lparr>res_relocations := res_relocations s @ [(word_index a, z)]\<rparr>"

text \<open>First the operations that put a resource on the list of the batch.\<close>

locale node_relation = step_relation R for R :: "vmw_sw_context \<Rightarrow> vmw_sw_context \<Rightarrow> bool" +
  fixes rng :: "nat \<Rightarrow> nat \<Rightarrow> bool" and free :: "nat \<Rightarrow> nat option \<Rightarrow> bool"
  assumes r_alloc: "keeps R alloc s"
    and r_ref: "R s (add_ref x d s)"
    and r_flag: "R s (upd_val n (\<lambda>v. v\<lparr>vn_first_usage := False\<rparr>) s)"
    and r_reloc: "rng a 4 \<Longrightarrow> may_relocate free a z s \<Longrightarrow> R s (relocate a z s)"
    and r_new_node: "map_of (res_ht s) (Res r) = None \<Longrightarrow> R s (new_val_node r s)"
    and r_front: "map_of (res_ht s) (Res r) = Some (Val_node n) \<Longrightarrow> R s (to_front n s)"
    and r_tracker: "R s (new_tracker n s)"
begin

lemma k_val_add: "keeps R (vmw_resource_val_add r) s"
proof -
  have "keeps R (andthen alloc (gets (\<lambda>s. andthen (modify (new_val_node r)) (ok (next_node s))))) s"
    if "map_of (res_ht s) (Res r) = None"
  proof (rule k_andthen [OF r_alloc])
    fix s1 assume "alloc s = Some (s1, Inr ())"
    then have "map_of (res_ht s1) (Res r) = None"
      using that by (auto simp: alloc_def split: if_splits)
    then show "keeps R (gets (\<lambda>s. andthen (modify (new_val_node r)) (ok (next_node s)))) s1"
      by (intro k_gets k_andthen k_modify k_ok r_new_node)
  qed
  then show ?thesis
    unfolding vmw_resource_val_add_def
    by (intro k_gets) (auto split: option.split ht_ref.split intro!: k_andthen k_modify k_ok k_crash r_flag)
qed

lemma k_context_res: "keeps R (context_res_add_loop ps c) s"
proof (induction ps arbitrary: s)
  case Nil
  then show ?case by (simp add: k_ok)
next
  case (Cons p ps)
  show ?case unfolding context_res_add_loop.simps
    by (intro k_rules k_modify k_cleanup k_val_add r_ref Cons.IH)
qed

lemma r_stage: "map_of (res_ht s) (Res r) = Some (Val_node n) \<Longrightarrow> keeps R (stage_context n r) s"
  unfolding stage_context_def vmw_resource_context_res_add_def
  by (intro k_rules k_modify k_context_res r_alloc r_front r_tracker)

lemma k_relocation_add:
  assumes "rng a 4" "may_relocate free a z s"
  shows "keeps R (vmw_resource_relocation_add z (word_index a)) s"
  unfolding vmw_resource_relocation_add_def
proof (rule k_andthen [OF r_alloc])
  fix s1 assume "alloc s = Some (s1, Inr ())"
  then have "found s1 = found s" by (intro found_cong) (auto simp: alloc_def split: if_splits)
  then show "keeps R (modify (\<lambda>s. s\<lparr>res_relocations := res_relocations s @ [(word_index a, z)]\<rparr>)) s1"
    using r_reloc [OF assms(1), of z s1] assms(2) by (intro k_modify) (simp add: may_relocate_def relocate_def)
qed

lemma k_reloc_add:
  assumes "rng a 4" "may_relocate free a (Some r) s"
  shows "keeps R (vmw_cmd_res_reloc_add t a r) s"
  unfolding vmw_cmd_res_reloc_add_def
  by (intro k_andthen k_chain k_gets k_if k_ok k_relocation_add assms k_val_add r_stage) (rule val_add_ht)

end

text \<open>A resource that was put on the list stays there under its name.\<close>

definition keeps_names :: "vmw_sw_context \<Rightarrow> vmw_sw_context \<Rightarrow> bool" where
  "keeps_names s s' \<longleftrightarrow> usage s' = usage s \<and> resource s' = resource s \<and>
     (\<forall>r v. map_of (res_ht s) (Res r) = Some v \<longrightarrow> map_of (res_ht s') (Res r) = Some v)"

interpretation names: node_relation keeps_names "\<lambda>_ _. True" "\<lambda>_ _. True"
  by unfold_locales
    (auto simp: keeps_def alloc_def keeps_names_def add_ref_def upd_val_def relocate_def new_val_node_def to_front_def
      new_tracker_def zero_tracker_def Let_def)

lemma reloc_add_node:
  assumes "vmw_cmd_res_reloc_add t a r s = Some (s', Inr nd)"
  shows "usage s' = usage s" "resource s' = resource s" "nd = Some n \<Longrightarrow> map_of (res_ht s') (Res r) = Some (Val_node n)"
proof -
  have "keeps_names s s'"
    by (rule keepsD [OF names.k_reloc_add assms]) (simp_all add: may_relocate_def)
  then show "usage s' = usage s" "resource s' = resource s" by (simp_all add: keeps_names_def)
  obtain s1 s2 m where s2: "vmw_resource_val_add r s1 = Some (s2, Inr m)"
      "(if t = vmw_res_context \<and> has_mob s2 \<and> vn_first_usage (val_node s2 m) then stage_context m r else ok (Some m)) s2 = Some (s', Inr nd)"
    using assms by (auto simp: vmw_cmd_res_reloc_add_def exec_simps)
  have ht: "map_of (res_ht s2) (Res r) = Some (Val_node m)" by (rule val_add_ht [OF s2(1)])
  have st: "keeps keeps_names (stage_context m r) s2" by (rule names.r_stage [OF ht])
  have "nd = None \<or> nd = Some m"
    using s2(2) by (auto simp: stage_context_def exec_simps on_error_Some split: if_splits)
  moreover have "keeps_names s2 s'"
    using s2(2) keepsD [OF st] by (auto simp: run_simps split: if_splits)
  ultimately show "nd = Some n \<Longrightarrow> map_of (res_ht s') (Res r) = Some (Val_node n)"
    using ht by (auto simp: keeps_names_def)
qed

text \<open>Then those that look a resource up and keep it in the cache.\<close>

locale resource_relation = node_relation R rng free
  for R :: "vmw_sw_context \<Rightarrow> vmw_sw_context \<Rightarrow> bool" and rng :: "nat \<Rightarrow> nat \<Rightarrow> bool"
    and free :: "nat \<Rightarrow> nat option \<Rightarrow> bool" +
  assumes r_cache: "resolve s t h = Some r \<Longrightarrow>
      R s (set_cache t (\<lambda>c. c\<lparr>rc_valid := True, rc_res := r, rc_handle := h\<rparr>) s)"
    and r_cache_node: "resolve s t h = Some r \<Longrightarrow> (\<And>n. nd = Some n \<Longrightarrow> map_of (res_ht s) (Res r) = Some (Val_node n)) \<Longrightarrow>
      R s (set_cache t (\<lambda>c. c\<lparr>rc_node := nd\<rparr>) s)"
    and r_error: "R s (s\<lparr>error_resource := y\<rparr>)"
begin

lemma k_lookup: "keeps R (vmw_user_resource_lookup_handle t h) s"
  unfolding vmw_user_resource_lookup_handle_def by (intro k_rules k_modify r_ref)

lemma lookup_resolves:
  assumes "vmw_user_resource_lookup_handle t h s = Some (s', Inr r)"
  shows "resolve s' t h = Some r"
proof -
  have "resolve s t h = Some r \<and> s' = add_ref (Res r) 1 s"
    using assms by (auto simp: vmw_user_resource_lookup_handle_def exec_simps split: option.splits)
  then show ?thesis using resolve_cong [of "add_ref (Res r) 1 s" s] by (simp add: add_ref_def)
qed

lemma k_slow:
  assumes "rng a 4"
  shows "keeps R (res_check_slow t a h) s"
  unfolding res_check_slow_def
proof (rule k_chain [OF k_lookup])
  fix s1 r assume "vmw_user_resource_lookup_handle t h s = Some (s1, Inr r)"
  then have r: "resolve s1 t h = Some r" by (rule lookup_resolves)
  let ?f = "set_cache t (\<lambda>c. c\<lparr>rc_valid := True, rc_res := r, rc_handle := h\<rparr>)"
  have "found (?f s1) r" by (auto simp: found_def set_cache_def)
  then have reloc: "keeps R (vmw_cmd_res_reloc_add t a r) (?f s1)"
    by (intro k_reloc_add assms) (simp add: may_relocate_def)
  have rest: "keeps R (chain (on_error (keep_error_resource r) (vmw_cmd_res_reloc_add t a r))
      (\<lambda>n. andthen (modify (\<lambda>s. add_ref (Res r) (- 1) (set_cache t (\<lambda>c. c\<lparr>rc_node := n\<rparr>) s))) (ok n))) (?f s1)"
  proof (rule k_chain)
    show "keeps R (on_error (keep_error_resource r) (vmw_cmd_res_reloc_add t a r)) (?f s1)"
      unfolding keep_error_resource_def by (intro k_rules k_modify reloc r_error)
    fix s2 nd assume "on_error (keep_error_resource r) (vmw_cmd_res_reloc_add t a r) (?f s1) = Some (s2, Inr nd)"
    then have "vmw_cmd_res_reloc_add t a r (?f s1) = Some (s2, Inr nd)"
      by (auto simp: on_error_Some keep_error_resource_def exec_simps split: if_splits)
    note node = reloc_add_node [OF this]
    have "resolve s2 t h = Some r"
      using r resolve_cong [of s2 s1] node(1,2) by (simp add: set_cache_def)
    then have "R s2 (set_cache t (\<lambda>c. c\<lparr>rc_node := nd\<rparr>) s2)" by (rule r_cache_node) (rule node(3))
    then show "keeps R (andthen (modify (\<lambda>s. add_ref (Res r) (- 1) (set_cache t (\<lambda>c. c\<lparr>rc_node := nd\<rparr>) s))) (ok nd)) s2"
      by (intro k_rules k_modify trans [OF _ r_ref])
  qed
  show "keeps R (andthen (modify ?f) (chain (on_error (keep_error_resource r) (vmw_cmd_res_reloc_add t a r))
      (\<lambda>n. andthen (modify (\<lambda>s. add_ref (Res r) (- 1) (set_cache t (\<lambda>c. c\<lparr>rc_node := n\<rparr>) s))) (ok n)))) s1"
    by (rule k_andthen [OF k_modify [of s1 ?f]]) (use rest r_cache [of s1 t h r] r in \<open>auto simp: run_simps\<close>)
qed

lemma k_res_check:
  assumes "rng a 4"
  shows "keeps R (vmw_cmd_res_check t a) s"
proof -
  have rl: "keeps R (vmw_resource_relocation_add (Some (rc_res (res_cache s t))) (word_index a)) s1"
    if "rc_valid (res_cache s t)" "modify (upd_val n (\<lambda>v. v\<lparr>vn_first_usage := False\<rparr>)) s = Some (s1, Inr ())" for n s1
    using that by (intro k_relocation_add assms) (auto simp: may_relocate_def found_def upd_val_def run_simps)
  show ?thesis
    unfolding vmw_cmd_res_check_def Let_def
    by (intro k_gets k_if k_option k_andthen k_fail k_ok k_crash k_modify r_flag k_slow rl assms; (erule conjunct1 | assumption))
qed

lemma k_check_only: "rng a 4 \<Longrightarrow> keeps R (check_only t a) s"
  unfolding check_only_def by (intro k_rules k_res_check)

end

section \<open>What the operations on resources leave alone\<close>

text \<open>The device, the client and the batch do not change while a resource is looked up.\<close>

definition same_world :: "vmw_sw_context \<Rightarrow> vmw_sw_context \<Rightarrow> bool" where
  "same_world s s' \<longleftrightarrow> has_mob s' = has_mob s \<and> gb_objects s' = gb_objects s \<and> usage s' = usage s \<and>
     resource s' = resource s \<and> buffer s' = buffer s \<and> kernel s' = kernel s \<and> dummy_query_bo s' = dummy_query_bo s \<and>
     hash s' = hash s \<and> kmem s' = kmem s \<and> shader_oc s' = shader_oc s \<and>
     hw_id (binds s') = hw_id (binds s) \<and> sent (binds s') = sent (binds s) \<and>
     binding_head (binds s') = binding_head (binds s) \<and> (\<forall>c. cbs (binds s') (Context c) = cbs (binds s) (Context c))"

lemma same_world_refl [simp]: "same_world s s"
  by (simp add: same_world_def)

lemma same_world_trans: "same_world s s1 \<Longrightarrow> same_world s1 s2 \<Longrightarrow> same_world s s2"
  by (simp add: same_world_def)

definition same_batch :: "vmw_sw_context \<Rightarrow> vmw_sw_context \<Rightarrow> bool" where
  "same_batch s s' \<longleftrightarrow> same_world s s' \<and> cmds s' = cmds s \<and> res_man s' = res_man s"

lemmas state_defs = add_ref_def upd_val_def set_cache_def new_val_node_def to_front_def new_tracker_def zero_tracker_def

interpretation batch_res: resource_relation same_batch rng free for rng free
  by unfold_locales
    (auto simp: keeps_def alloc_def same_batch_def same_world_def state_defs relocate_def Let_def)

lemma res_check_same: "vmw_cmd_res_check t a s = Some (s', r) \<Longrightarrow> same_batch s s'"
  by (rule keepsD [OF batch_res.k_res_check [where rng = "\<lambda>_ _. True"]]) simp_all

lemma check_only_same: "check_only t a s = Some (s', r) \<Longrightarrow> same_batch s s'"
  by (rule keepsD [OF batch_res.k_check_only [where rng = "\<lambda>_ _. True"]]) simp_all

section \<open>The handlers\<close>

text \<open>How many bytes of a command, with its header, its handler looks at in any case.\<close>

definition touched :: "vmw_cmd_func \<Rightarrow> nat" where
  "touched f = (case f of
       Fcmd_invalid \<Rightarrow> 8 | Fcmd_ok \<Rightarrow> 8
     | Fcmd_surface_copy_check \<Rightarrow> 24 | Fcmd_stretch_blt_check \<Rightarrow> 24 | Fcmd_dma \<Rightarrow> 24
     | Fcmd_set_render_target_check \<Rightarrow> 20 | Fcmd_shader_define \<Rightarrow> 20 | Fcmd_shader_destroy \<Rightarrow> 20
     | Fcmd_set_shader \<Rightarrow> 20 | Fcmd_draw \<Rightarrow> 20 | Fcmd_begin_query \<Rightarrow> 16
     | Fcmd_end_query \<Rightarrow> 24 | Fcmd_wait_query \<Rightarrow> 24 | Fcmd_end_gb_query \<Rightarrow> 20 | Fcmd_wait_gb_query \<Rightarrow> 20
     | Fcmd_bind_gb_surface \<Rightarrow> 16 | Fcmd_bind_gb_shader \<Rightarrow> 20 | _ \<Rightarrow> 12)"

text \<open>The command at \<open>p\<close> lies before \<open>hi\<close> and is long enough for its handler; the texture states
  are whole.\<close>

definition fits :: "vmw_cmd_func \<Rightarrow> cmd_mem \<Rightarrow> nat \<Rightarrow> nat \<Rightarrow> bool" where
  "fits f m p hi \<longleftrightarrow> (let sz = unat (rd32 m (p + 4)) in
     p + 8 + sz \<le> hi \<and> 4 dvd sz \<and> touched f \<le> 8 + sz \<and> (f = Fcmd_tex_state \<longrightarrow> 12 dvd sz - 4))"

lemma fits_size:
  "fits f (cmds s) p hi \<Longrightarrow> p + 8 + unat (hdr_size s p) \<le> hi \<and> touched f \<le> 8 + unat (hdr_size s p) \<and> 4 dvd unat (hdr_size s p)"
  by (simp add: fits_def hdr_size_def Let_def)

lemma draw_room:
  assumes "unat used \<le> unat sz" "\<not> draw_maxnum sz used elem < n" "0 < unat elem"
  shows "unat n * unat elem + unat used \<le> unat sz"
proof -
  have u: "unat (ucast sz - used :: u64) = unat sz - unat used"
    using assms(1) by (simp add: unat_sub_le)
  have "unat ((ucast sz - used) div elem) = (unat sz - unat used) div unat elem"
    by (simp add: unat_div u)
  then have "unat (draw_maxnum sz used elem) \<le> (unat sz - unat used) div unat elem"
    by (simp add: draw_maxnum_def unat_ucast_down32)
  moreover have "unat n \<le> unat (draw_maxnum sz used elem)" using assms(2) by (simp add: unat_le_iff not_less)
  ultimately have "unat n \<le> (unat sz - unat used) div unat elem" by simp
  then have "unat n * unat elem \<le> unat sz - unat used"
    using assms(3) by (simp add: less_eq_div_iff_mult_less_eq)
  with assms(1) show ?thesis by simp
qed

lemma tex_states_bound:
  assumes "c \<in> set (tex_states p sz)" "4 \<le> sz" "12 dvd sz - 4"
  shows "p + 12 \<le> c \<and> c + 12 \<le> p + 8 + sz \<and> 4 dvd c + 8 - p"
proof -
  obtain k where "sz - 4 = 12 * k" using assms(3) by auto
  then have k: "sz = 4 + 12 * k" using assms(2) by simp
  have "(p + sz + 8 - (p + 12) + 11) div 12 = k" by (simp add: k)
  then have "c \<in> (\<lambda>i. p + 12 + 12 * i) ` {0..<k}"
    using assms(1) by (simp add: tex_states_def tex_state_size_def)
  then obtain i where i: "i < k" "c = p + 12 + 12 * i" by auto
  have "c + 8 - p = 4 * (3 * i + 5)" by (simp add: i(2))
  then have "4 dvd c + 8 - p" by (metis dvd_triv_left)
  with i show ?thesis by (simp add: k)
qed

text \<open>The resource of the context that the command at \<open>p\<close> names, as its handler finds it, and a shader
  of the command stream that the manager of context \<open>c\<close> has under the client's id and type.\<close>

definition ctx_of :: "vmw_sw_context \<Rightarrow> nat \<Rightarrow> nat \<Rightarrow> bool" where
  "ctx_of s p c \<longleftrightarrow> (\<exists>s1 n. vmw_cmd_res_check vmw_res_context (p + 8) s = Some (s1, Inr (Some n)) \<and> c = vn_res (val_node s1 n))"

definition compat_shader_at :: "vmw_sw_context \<Rightarrow> nat \<Rightarrow> u32 \<Rightarrow> u32 \<Rightarrow> nat \<Rightarrow> bool" where
  "compat_shader_at s c shid ty r \<longleftrightarrow> vmw_compat_shader_id_ok shid ty \<and>
     snd (vmw_cmdbuf_res_lookup (hash s) (res_man s c) 0 (vmw_compat_shader_key shid ty)) = Inr r"

text \<open>The bytes of the command may be referred to, its id may be replaced by that of a NOP, and the shader
  id of a command that sets a shader by that of the shader found.\<close>

definition covers ::
  "(nat \<Rightarrow> nat \<Rightarrow> bool) \<Rightarrow> (nat \<Rightarrow> nat option \<Rightarrow> bool) \<Rightarrow> vmw_cmd_func \<Rightarrow> vmw_sw_context \<Rightarrow> nat \<Rightarrow> bool" where
  "covers rng free f s p \<longleftrightarrow> (\<forall>a n. rng a n) \<and> (\<forall>a z. free a z) \<or>
     (\<exists>hi. fits f (cmds s) p hi \<and> (\<forall>a n. p \<le> a \<and> a + n \<le> hi \<and> 4 dvd a - p \<longrightarrow> rng a n)) \<and>
     free p None \<and> (f = Fcmd_set_shader \<longrightarrow>
       (\<forall>c r. ctx_of s p c \<and> compat_shader_at s c (word_at s (p + 16)) (word_at s (p + 12)) r \<longrightarrow> free (p + 16) (Some r)))"

locale handler_relation = resource_relation R rng free
  for R :: "vmw_sw_context \<Rightarrow> vmw_sw_context \<Rightarrow> bool" and rng :: "nat \<Rightarrow> nat \<Rightarrow> bool"
    and free :: "nat \<Rightarrow> nat option \<Rightarrow> bool" +
  assumes r_bo_add: "keeps R (vmw_bo_to_validate_list b fl mob) s"
    and r_add_relocation: "rng a (if mob then 4 else 8) \<Longrightarrow> keeps R (add_relocation mob a b) s"
    and r_query: "R s (s\<lparr>last_query_ctx := x1\<rparr>)" "R s (s\<lparr>needs_post_query_barrier := x2\<rparr>)" "R s (s\<lparr>cur_query_bo := x3\<rparr>)"
    and r_write: "rng a (4 * length vs) \<Longrightarrow> R s (s\<lparr>cmds := wr_words a vs (cmds s)\<rparr>)"
    and r_binding: "keeps R (add_binding n bi) s"
    and r_backup: "R s (set_backup n b off s)"
    and r_man: "R s (put_man c m s)"
    and r_allocs: "R s (s\<lparr>allocs := x4\<rparr>)"
begin

lemma k_put32: "rng a 4 \<Longrightarrow> keeps R (put32 a v) s"
  using r_write [of a "[v]" s] by (simp add: put32_def k_modify)

lemma k_rewrite: "rng p (4 * n) \<Longrightarrow> 0 < n \<Longrightarrow> keeps R (rewrite_cmd p c n) s"
  unfolding rewrite_cmd_def by (intro k_modify r_write) auto

lemma k_stage_binding: "keeps R (stage_binding cn rn bt i1) s"
  unfolding stage_binding_def by (intro k_rules r_binding)

lemma k_dmabuf_lookup: "keeps R (vmw_user_dmabuf_lookup h) s"
  unfolding vmw_user_dmabuf_lookup_def by (intro k_rules k_modify r_ref)

lemma k_unref: "keeps R (unref x) s"
  unfolding unref_def by (intro k_modify r_ref)

lemma k_translate:
  assumes "rng a (if mob then 4 else 8)"
  shows "keeps R (translate_ptr mob a) s"
  unfolding translate_ptr_def by (intro k_rules k_dmabuf_lookup k_unref r_add_relocation assms)

lemma k_translate_mob: "rng a 4 \<Longrightarrow> keeps R (vmw_translate_mob_ptr a) s"
  unfolding vmw_translate_mob_ptr_def by (rule k_translate) auto

lemma k_translate_guest: "rng a 8 \<Longrightarrow> keeps R (vmw_translate_guest_ptr a) s"
  unfolding vmw_translate_guest_ptr_def by (rule k_translate) auto

lemma k_switch_prepare: "keeps R (vmw_query_bo_switch_prepare b) s"
  unfolding vmw_query_bo_switch_prepare_def add_old_query_bo_def
  by (intro k_rules k_modify r_bo_add r_query)

lemma k_finish_query: "keeps R (cleanup (add_ref (Bo b) d) (vmw_query_bo_switch_prepare b)) s"
  by (intro k_cleanup k_switch_prepare r_ref)

lemma k_switch_backup:
  assumes "rng a 4" "rng b 4"
  shows "keeps R (vmw_cmd_switch_backup t a b off) s"
  unfolding vmw_cmd_switch_backup_def
  by (intro k_rules k_modify k_res_check k_translate_mob r_backup assms)

lemma k_on_man: "keeps R (on_man c f) s"
  using r_man by (auto simp: keeps_def on_man_def split: option.splits)

lemma k_shader_add: "keeps R (vmw_compat_shader_add c uk ty) s"
proof -
  have "keeps R (compat_shader_stage c uk ty sh) s" for sh s
    unfolding compat_shader_stage_def
    by (cases sh) (auto intro!: k_rules k_modify k_on_man r_allocs)
  then show ?thesis unfolding vmw_compat_shader_add_def by (intro k_rules r_alloc)
qed

lemma k_shader_remove: "keeps R (vmw_compat_shader_remove c uk ty) s"
  unfolding vmw_compat_shader_remove_def by (intro k_rules k_on_man)

lemma k_shader_lookup: "keeps R (vmw_compat_shader_lookup c shid ty) s"
  unfolding vmw_compat_shader_lookup_def by (intro k_rules k_on_man)

lemma k_shader_node:
  assumes "rng a 4" "\<And>r. compat_shader_at s c shid ty r \<Longrightarrow> free a (Some r)"
  shows "keeps R (compat_shader_node c shid ty a) s"
  unfolding compat_shader_node_def
proof (rule k_chain)
  let ?m = "on_error (\<lambda>_. ok None) (chain (vmw_compat_shader_lookup c shid ty) (\<lambda>r. ok (Some r)))"
  show "keeps R ?m s" by (intro k_rules k_shader_lookup)
  fix s1 x assume "?m s = Some (s1, Inr x)"
  then have "compat_shader_at s c shid ty r" if "x = Some r" for r
    using that by (auto simp: on_error_Some exec_simps vmw_compat_shader_lookup_def on_man_def compat_shader_at_def
        split: if_splits option.splits prod.splits)
  then show "keeps R (case x of None \<Rightarrow> ok None
       | Some r \<Rightarrow> cleanup (\<lambda>s. put_man c (upd_refs r (- 1) (res_man s c)) s) (vmw_cmd_res_reloc_add vmw_res_shader a r)) s1"
    using assms by (intro k_option k_ok k_cleanup k_reloc_add r_man) (simp_all add: may_relocate_def)
qed

lemma k_nop: "rng a 4 \<Longrightarrow> free a None \<Longrightarrow> keeps R (vmw_resource_relocation_add None (word_index a)) s"
  by (rule k_relocation_add) (auto simp: may_relocate_def)

lemma k_with_node: "(\<And>c. keeps R (k c) s) \<Longrightarrow> keeps R (with_node_res cn k) s"
  unfolding with_node_res_def by (intro k_rules)

lemmas h_rules = k_rules k_modify k_cleanup k_res_check k_check_only k_nop k_put32 k_stage_binding k_unref
  k_translate_mob k_translate_guest k_finish_query k_switch_backup k_shader_add k_shader_remove
  k_with_node k_for_each

lemma covers_at:
  assumes "covers rng free f s p"
    and "\<And>hi. fits f (cmds s) p hi \<Longrightarrow> p \<le> a \<and> a + n \<le> hi \<and> 4 dvd a - p"
  shows "rng a n"
  using assms unfolding covers_def by blast

lemma k_dma:
  assumes "covers rng free Fcmd_dma s p"
  shows "keeps R (vmw_cmd_dma p) s"
proof -
  let ?x = "p + 8 + unat (hdr_size s p) - 12"
  have fit: "p + 8 + unat (hdr_size s p) \<le> hi \<and> 16 \<le> unat (hdr_size s p) \<and> 4 dvd unat (hdr_size s p)"
    if "fits Fcmd_dma (cmds s) p hi" for hi
    using fits_size [OF that] by (simp add: touched_def)
  have at: "rng a n" if "p \<le> a" "a + n \<le> p + 24" "4 dvd a - p" for a n
    by (rule covers_at [OF assms]) (use that in \<open>auto dest!: fit\<close>)
  have x: "rng (?x + 4) 4"
  proof (rule covers_at [OF assms])
    fix hi assume "fits Fcmd_dma (cmds s) p hi"
    note f = fit [OF this]
    then obtain k where k: "unat (hdr_size s p) = 4 * k" by auto
    with f have "?x + 4 - p = 4 * k" by simp
    with f k show "p \<le> ?x + 4 \<and> ?x + 4 + 4 \<le> hi \<and> 4 dvd ?x + 4 - p" by simp
  qed
  have checked: "keeps R (dma_checked p ?x b) s1" for b s1
    unfolding dma_checked_def snoop_surface_def by (intro h_rules r_ref at x) auto
  show ?thesis unfolding vmw_cmd_dma_def
    by (intro k_gets k_let k_if k_chain k_crash k_fail k_translate_guest checked at) auto
qed

lemma k_draw:
  assumes "covers rng free Fcmd_draw s p"
  shows "keeps R (vmw_cmd_draw p) s"
  unfolding vmw_cmd_draw_def
proof (rule k_andthen)
  have at: "rng (p + 4 * k) 4" if "12 \<le> unat (hdr_size s p) \<Longrightarrow> p + 4 * k + 4 \<le> p + 8 + unat (hdr_size s p)" for k
    by (rule covers_at [OF assms]) (use that in \<open>auto dest!: fits_size simp: touched_def\<close>)
  show "keeps R (vmw_cmd_cid_check p) s"
    unfolding vmw_cmd_cid_check_def using at [of 2] by (intro k_check_only) simp
  fix s1 assume "vmw_cmd_cid_check p s = Some (s1, Inr ())"
  then have "same_batch s s1" unfolding vmw_cmd_cid_check_def by (rule check_only_same)
  then have hs: "hdr_size s1 p = hdr_size s p" by (simp add: hdr_size_def same_batch_def)
  define nvd nr where "nvd = word_at s1 (p + 12)" and "nr = word_at s1 (p + 16)"
  have elems: "keeps R (check_only vmw_res_surface (p + 20 + 36 * i + 16)) s2"
    if "\<not> draw_maxnum (hdr_size s p) 12 36 < nvd" "i \<in> set [0..<unat nvd]" for i s2
  proof -
    have "rng (p + 4 * (9 * i + 9)) 4"
    proof (rule at)
    assume sz: "12 \<le> unat (hdr_size s p)"
    then have "unat nvd * 36 + 12 \<le> unat (hdr_size s p)" using draw_room [OF _ that(1)] by simp
    moreover have "i + 1 \<le> unat nvd" using that(2) by simp
    then have "36 * i + 36 \<le> unat nvd * 36" by (metis add.commute distrib_left mult.commute mult.right_neutral mult_le_mono1)
    ultimately show "p + 4 * (9 * i + 9) + 4 \<le> p + 8 + unat (hdr_size s p)" by simp
    qed
    then show ?thesis by (intro k_check_only) (simp add: algebra_simps)
  qed
  have ranges: "keeps R (check_only vmw_res_surface (p + 20 + 36 * unat nvd + 28 * i + 8)) s2"
    if "\<not> draw_maxnum (hdr_size s p) 12 36 < nvd"
      "\<not> draw_maxnum (hdr_size s p) (12 + ucast nvd * 36) 28 < nr" "i \<in> set [0..<unat nr]" for i s2
  proof -
    have "rng (p + 4 * (7 + 9 * unat nvd + 7 * i)) 4"
    proof (rule at)
    assume sz: "12 \<le> unat (hdr_size s p)"
    then have r1: "unat nvd * 36 + 12 \<le> unat (hdr_size s p)" using draw_room [OF _ that(1)] by simp
    then have "unat nvd * 36 < 4294967288" using unat_lt32 [of "hdr_size s p"] by linarith
    then have u: "unat (12 + ucast nvd * 36 :: u64) = 12 + unat nvd * 36"
      by (simp add: unat_word_ariths)
    have "unat nr * 28 + (12 + unat nvd * 36) \<le> unat (hdr_size s p)"
      using draw_room [OF _ that(2)] r1 by (simp add: u)
    moreover have "i + 1 \<le> unat nr" using that(3) by simp
    then have "28 * i + 28 \<le> unat nr * 28" by simp
    ultimately show "p + 4 * (7 + 9 * unat nvd + 7 * i) + 4 \<le> p + 8 + unat (hdr_size s p)" by simp
    qed
    then show ?thesis by (intro k_check_only) (simp add: algebra_simps)
  qed
  show "keeps R (gets (\<lambda>s. let sz = hdr_size s p; nvd = word_at s (p + 12); nr = word_at s (p + 16) in
          if draw_maxnum sz 12 36 < nvd then fail EINVAL
          else andthen (for_each (\<lambda>i. check_only vmw_res_surface (p + 20 + 36 * i + 16)) [0..<unat nvd])
            (if draw_maxnum sz (12 + ucast nvd * 36) 28 < nr then fail EINVAL
             else for_each (\<lambda>i. check_only vmw_res_surface (p + 20 + 36 * unat nvd + 28 * i + 8))
                    [0..<unat nr]))) s1"
    by (rule k_gets, unfold Let_def hs nvd_def [symmetric] nr_def [symmetric])
      (intro k_fail k_andthen k_if k_for_each elems ranges; assumption)
qed

lemma k_tex_state:
  assumes "covers rng free Fcmd_tex_state s p"
  shows "keeps R (vmw_cmd_tex_state p) s"
  unfolding vmw_cmd_tex_state_def
proof (rule k_chain)
  let ?sz = "unat (hdr_size s p)"
  have fit: "p + 8 + ?sz \<le> hi \<and> 4 \<le> ?sz \<and> 12 dvd ?sz - 4" if "fits Fcmd_tex_state (cmds s) p hi" for hi
    using that by (auto simp: fits_def touched_def hdr_size_def Let_def)
  show "keeps R (vmw_cmd_res_check vmw_res_context (p + 8)) s"
    by (intro k_res_check covers_at [OF assms]) (auto dest: fit)
  fix s1 cn assume "vmw_cmd_res_check vmw_res_context (p + 8) s = Some (s1, Inr cn)"
  then have hs: "hdr_size s1 p = hdr_size s p"
    using res_check_same by (auto simp: hdr_size_def same_batch_def)
  have one: "keeps R (tex_state_one cn c) s2" if "c \<in> set (tex_states p (unat (hdr_size s p)))" for c s2
  proof -
    have "rng (c + 8) 4"
      by (rule covers_at [OF assms]) (use tex_states_bound [OF that] fit in fastforce)
    then show ?thesis unfolding tex_state_one_def by (intro h_rules)
  qed
  show "keeps R (gets (\<lambda>s. for_each (tex_state_one cn) (tex_states p (unat (hdr_size s p))))) s1"
    by (rule k_gets, unfold hs) (intro k_for_each one; assumption)
qed

lemma k_set_shader:
  assumes "covers rng free Fcmd_set_shader s p"
  shows "keeps R (vmw_cmd_set_shader p) s"
  unfolding vmw_cmd_set_shader_def
proof (rule k_chain)
  have at: "rng a n" if "p \<le> a" "a + n \<le> p + 20" "4 dvd a - p" for a n
    by (rule covers_at [OF assms]) (use that in \<open>auto dest!: fits_size simp: touched_def\<close>)
  show "keeps R (vmw_cmd_res_check vmw_res_context (p + 8)) s" by (intro k_res_check at) simp_all
  fix s1 cn assume c: "vmw_cmd_res_check vmw_res_context (p + 8) s = Some (s1, Inr cn)"
  have same: "word_at s1 a = word_at s a" "hash s1 = hash s" "res_man s1 = res_man s" for a
    using res_check_same [OF c] by (simp_all add: word_at_def same_batch_def same_world_def)
  let ?shid = "word_at s1 (p + 16)" and ?ty = "word_at s1 (p + 12)"
  have found: "free (p + 16) (Some r)" if "cn = Some n" "compat_shader_at s1 (vn_res (val_node s1 n)) ?shid ?ty r" for n r
  proof -
    have "ctx_of s p (vn_res (val_node s1 n))" using c that(1) by (auto simp: ctx_of_def)
    moreover have "compat_shader_at s (vn_res (val_node s1 n)) (word_at s (p + 16)) (word_at s (p + 12)) r"
      using that(2) by (simp add: compat_shader_at_def same)
    ultimately show ?thesis using assms by (auto simp: covers_def)
  qed
  have node: "keeps R (with_node_res cn (\<lambda>c. compat_shader_node c ?shid ?ty (p + 16))) s1"
    unfolding with_node_res_def by (intro k_option k_crash k_gets k_shader_node at found) simp_all
  show "keeps R (gets (\<lambda>s. if \<not> has_mob s then ok ()
          else
            (let shid = word_at s (p + 16); ty = word_at s (p + 12) in
             chain (if shid = SVGA3D_INVALID_ID then ok None
                    else with_node_res cn (\<lambda>c. compat_shader_node c shid ty (p + 16)))
               (\<lambda>rn. chain (if rn = None then vmw_cmd_res_check vmw_res_shader (p + 16) else ok rn)
                 (\<lambda>rn. stage_binding cn rn vmw_ctx_binding_shader ty))))) s1"
    unfolding Let_def by (intro k_gets k_if k_chain k_ok node k_res_check k_stage_binding at) simp_all
qed

text \<open>A handler whose command fits stays within the relation.\<close>

lemma run_func_keeps:
  assumes "covers rng free f s p"
  shows "keeps R (run_func f p) s"
proof -
  have at: "rng a n" if "p \<le> a" "a + n \<le> p + touched f" "4 dvd a - p" for a n
    by (rule covers_at [OF assms]) (use that in \<open>auto dest!: fits_size\<close>)
  have free: "free p None" using assms by (auto simp: covers_def)
  show ?thesis
proof (cases f)
  case Fcmd_dma
  with assms k_dma show ?thesis by simp
next
  case Fcmd_tex_state
  with assms k_tex_state show ?thesis by simp
next
  case Fcmd_draw
  with assms k_draw show ?thesis by simp
next
  case Fcmd_set_shader
  with assms k_set_shader show ?thesis by simp
qed (use at free in \<open>auto simp: touched_def Let_def vmw_cmd_invalid_def vmw_cmd_ok_def
      vmw_cmd_cid_check_def vmw_cmd_set_render_target_check_def vmw_cmd_surface_copy_check_def
      vmw_cmd_stretch_blt_check_def vmw_cmd_blt_surf_screen_check_def vmw_cmd_present_check_def
      vmw_cmd_update_gb_image_def vmw_cmd_update_gb_surface_def vmw_cmd_readback_gb_image_def
      vmw_cmd_readback_gb_surface_def vmw_cmd_invalidate_gb_image_def vmw_cmd_invalidate_gb_surface_def
      vmw_cmd_begin_gb_query_def vmw_cmd_begin_query_def vmw_cmd_end_gb_query_def vmw_cmd_end_query_def
      vmw_cmd_wait_gb_query_def vmw_cmd_wait_query_def vmw_cmd_bind_gb_surface_def vmw_cmd_bind_gb_shader_def
      vmw_cmd_shader_define_def vmw_cmd_shader_destroy_def vmw_cmd_set_shader_const_def
      intro!: h_rules k_rewrite\<close>)
qed

section \<open>A command of a batch\<close>

lemma k_run_entry: "covers rng free (func en) s p \<Longrightarrow> keeps R (run_entry en p sz) s"
  unfolding run_entry_def by (intro k_rules run_func_keeps)

lemma k_define_gmrfb: "rng (p + 4) 8 \<Longrightarrow> keeps R (vmw_cmd_check_define_gmrfb p) s"
  unfolding vmw_cmd_check_define_gmrfb_def by (intro h_rules)

lemma k_check:
  assumes "\<And>en. cmd_entry (word_at s p) = Some en \<Longrightarrow> covers rng free (func en) s p"
    and "word_at s p < SVGA_CMD_MAX \<Longrightarrow> rng (p + 4) 8"
  shows "keeps R (vmw_cmd_check p rem) s"
  unfolding vmw_cmd_check_def vmw_cmd_check_not_3d_def Let_def
  by (intro k_rules k_run_entry k_define_gmrfb assms)

end

section \<open>A state for examples\<close>

definition passes :: "(vmw_sw_context \<times> unit res) option option \<Rightarrow> bool" where
  "passes x = (case x of Some (Some (s, Inr ())) \<Rightarrow> True | _ \<Rightarrow> False)"

lemma passesD:
  assumes "passes x"
  shows "\<exists>s'. x = Some (Some (s', Inr ()))"
proof -
  obtain s' r where "x = Some (Some (s', r))"
    using assms by (cases x; cases "the x"; cases "the (the x)") (simp_all add: passes_def)
  with assms show ?thesis by (cases r) (simp_all add: passes_def)
qed

text \<open>A client with a context under handle 7, a surface under handle 8 and a buffer under
  handle 9, at the start of a batch.\<close>

definition example_sw :: "cmd_mem \<Rightarrow> vmw_sw_context" where
  "example_sw m = \<lparr>has_mob = False, gb_objects = False, capable_admin = False, dummy_query_bo = 9,
     usage = Map.empty(7 \<mapsto> \<lparr>uo_type = Vmw_user_res vmw_res_context, uo_target = 0\<rparr>,
       8 \<mapsto> \<lparr>uo_type = Vmw_user_res vmw_res_surface, uo_target = 1\<rparr>, 9 \<mapsto> \<lparr>uo_type = Ttm_buffer, uo_target = 2\<rparr>),
     resource = (\<lambda>r. \<lparr>rs_func = (if r = 0 then Legacy_context else Legacy_surface), rs_avail = True,
       rs_free = (if r = 0 then vmw_res_context else vmw_res_surface), rs_doomed = False, rs_hw_destroy = True,
       rs_backup_size = 0, rs_res_dirty = False, rs_backup_dirty = False, rs_backup = None, rs_backup_offset = 0,
       rs_pin_count = 0, rs_mob_head = None, rs_body = [], rs_images = []\<rparr>),
     buffer = (\<lambda>_. \<lparr>buf_num_pages = 4, buf_mem_type = VMW_PL_GMR, buf_offset = 0, buf_start = 3, buf_reserved = False,
       buf_pinned = False, buf_res_list = []\<rparr>),
     binds = \<lparr>cbs = (\<lambda>_. \<lparr>cb_list = [], cb_at = (\<lambda>x. \<lparr>bi_ctx = None, bi_res = None, bi_bt = fst x, bi_scrubbed = False, bi_i1 = 0\<rparr>)\<rparr>),
       binding_head = (\<lambda>_. []), hw_id = (\<lambda>r. of_nat r + 40), sent = [], room = (\<lambda>_. True), tries = 0\<rparr>,
     res_man = (\<lambda>_. \<lparr>resources = \<lparr>ht_size = 0, ht_order = 0, fill = 0, table = None, use_vmalloc = False\<rparr>,
       cres_heap = (\<lambda>_. \<lparr>cres_res = 0, cres_key = 0, cres_state = VMW_CMDBUF_RES_COMMITED\<rparr>), cres_list = [], staged = [], res_refs = (\<lambda>_. 0)\<rparr>),
     hash = (\<lambda>_ _. 0), shader_oc = (\<lambda>_. \<lparr>so_dmabuf_init = Inr (), so_reserve = Inr (), so_kmap = Inr (), so_validate = Inr (), so_shader = Inr 3\<rparr>),
     refs = (\<lambda>_. 1), kmem = (\<lambda>_. True), allocs = 0, kernel = False, cmds = m, res_ht = [], resource_list = [],
     val_node = (\<lambda>_. \<lparr>vn_res = 0, vn_new_backup = None, vn_staged = False, vn_backup_offset = 0, vn_first_usage = False, vn_no_buffer = False\<rparr>),
     next_node = 0, relocs = (\<lambda>_. \<lparr>rl_mob_loc = None, rl_location = None, rl_index = 0\<rparr>), cur_reloc = 0,
     val_bufs = (\<lambda>_. \<lparr>vb_bo = 0, vb_sync_arg = 0, vb_mob = False\<rparr>), cur_val_buf = 0, validate_nodes = [],
     sw_fence_flags = 0, cur_query_bo = None, res_relocations = [],
     res_cache = (\<lambda>_. \<lparr>rc_valid = False, rc_handle = 0, rc_res = 0, rc_node = None\<rparr>), last_query_ctx = None,
     needs_post_query_barrier = False, error_resource = None\<rparr>"

end
