(* ===== verification/Execbuf_Batch.thy ===== *)
theory Execbuf_Batch
  imports Execbuf_Rules
begin

text \<open>
  What the verifier guarantees of a batch it accepts: the client may send every command in
  it, and every resource id in it is replaced, before the device sees the batch, by the id of a
  resource that one of the client's handles names.  The second holds of batches whose commands
  are whole numbers of words and long enough for their handlers (\<open>well_sized\<close>); the verifier
  itself does not check that, see the lemma \<open>misaligned_id_escapes\<close>.
\<close>

section \<open>Accepted batches\<close>

text \<open>The commands of a batch that is accepted, with their sizes, and the state at the end.\<close>

inductive accepts :: "vmw_sw_context \<Rightarrow> nat \<Rightarrow> u32 \<Rightarrow> (nat \<times> u32 \<times> u32) list \<Rightarrow> vmw_sw_context \<Rightarrow> bool" where
  batch_end: "accepts s p 0 [] s"
| command: "0 < sint cur \<Longrightarrow> vmw_cmd_check p cur s = Some (s1, Inr sz) \<Longrightarrow>
    accepts s1 (p + unat sz) (cur - sz) cs s' \<Longrightarrow> accepts s p cur ((p, word_at s p, sz) # cs) s'"

inductive_cases accepts_end: "accepts s p cur [] s'"
inductive_cases accepts_command: "accepts s p cur (c # cs) s'"

lemma accepted:
  "check_all_loop n p cur s = Some (Some (s', Inr ())) \<Longrightarrow> \<exists>cs. accepts s p cur cs s'"
proof (induction n p cur s rule: check_all_loop.induct)
  case (2 n p cur s)
  show ?case
  proof (cases "0 < sint cur")
    case True
    obtain s1 sz where v: "vmw_cmd_check p cur s = Some (s1, Inr sz)"
      using 2(2) True by (auto split: option.splits sum.splits prod.splits)
    then have "check_all_loop n (p + unat sz) (cur - sz) s1 = Some (Some (s', Inr ()))"
      using 2(2) True by simp
    then show ?thesis using 2(1) True v by (blast intro: command)
  next
    case False
    with 2(2) show ?thesis by (auto simp: run_simps split: if_splits intro: batch_end)
  qed
qed simp

section \<open>Privileges\<close>

text \<open>No command changes who the client is, what it may use, and what the device can do.\<close>

definition same_client :: "vmw_sw_context \<Rightarrow> vmw_sw_context \<Rightarrow> bool" where
  "same_client s s' \<longleftrightarrow> kernel s' = kernel s \<and> gb_objects s' = gb_objects s \<and> has_mob s' = has_mob s \<and>
     usage s' = usage s \<and> resource s' = resource s"

lemma same_client_refl [simp]: "same_client s s"
  by (simp add: same_client_def)

lemma same_client_trans: "same_client s s1 \<Longrightarrow> same_client s1 s2 \<Longrightarrow> same_client s s2"
  by (simp add: same_client_def)

lemmas fun_updates = state_defs relocate_def set_backup_def drop_backup_def put_man_def new_val_buf_def next_reloc_def
  set_index_def

text \<open>Parts of the state that the buffers and the relocations of buffers do not touch.\<close>

definition same_but_bufs :: "vmw_sw_context \<Rightarrow> vmw_sw_context \<Rightarrow> bool" where
  "same_but_bufs s s' \<longleftrightarrow> same_client s s' \<and> cmds s' = cmds s \<and> res_relocations s' = res_relocations s \<and>
     res_cache s' = res_cache s \<and> next_node s' = next_node s \<and> val_node s' = val_node s \<and>
     (\<forall>r. map_of (res_ht s') (Res r) = map_of (res_ht s) (Res r))"

interpretation bufs: step_relation same_but_bufs
  by unfold_locales (auto simp: same_but_bufs_def intro: same_client_trans)

lemma bo_add_bufs: "keeps same_but_bufs (vmw_bo_to_validate_list b fl mob) s"
  unfolding vmw_bo_to_validate_list_def mark_val_buf_def
  by (intro bufs.k_rules bufs.k_modify)
    (auto simp: same_but_bufs_def same_client_def fun_updates Let_def split: ht_ref.split intro!: bufs.k_rules bufs.k_modify)

lemma add_relocation_bufs: "keeps same_but_bufs (add_relocation mob a b) s"
  unfolding add_relocation_def
  by (intro bufs.k_rules bufs.k_modify bo_add_bufs)
    (auto simp: same_but_bufs_def same_client_def fun_updates Let_def)

lemma add_binding_bufs: "keeps same_but_bufs (add_binding n bi) s"
  by (auto simp: keeps_def add_binding_def same_but_bufs_def same_client_def split: prod.splits)

lemma keeps_mono: "keeps R m s \<Longrightarrow> (\<And>s'. R s s' \<Longrightarrow> R' s s') \<Longrightarrow> keeps R' m s"
  by (auto simp: keeps_def)

interpretation client: handler_relation same_client "\<lambda>_ _. True" "\<lambda>_ _. True"
proof (unfold_locales)
  fix s s1 s2 show "same_client s s" "same_client s s1 \<Longrightarrow> same_client s1 s2 \<Longrightarrow> same_client s s2"
    by (auto intro: same_client_trans)
next
  fix s :: vmw_sw_context and b fl mob a n bi
  have bufs: "same_but_bufs s s' \<Longrightarrow> same_client s s'" for s' by (simp add: same_but_bufs_def)
  show "keeps same_client alloc s" by (auto simp: keeps_def alloc_def same_client_def)
  show "keeps same_client (vmw_bo_to_validate_list b fl mob) s" by (rule keeps_mono [OF bo_add_bufs]) (rule bufs)
  show "keeps same_client (add_relocation mob a b) s" by (rule keeps_mono [OF add_relocation_bufs]) (rule bufs)
  show "keeps same_client (add_binding n bi) s" by (rule keeps_mono [OF add_binding_bufs]) (rule bufs)
qed (simp_all add: same_client_def fun_updates Let_def split: option.split)

lemma check_client: "vmw_cmd_check p cur s = Some (s1, r) \<Longrightarrow> same_client s s1"
  by (rule keepsD [OF client.k_check]) (simp_all add: covers_def)

lemma accepts_client: "accepts s p cur cs s' \<Longrightarrow> same_client s s'"
  by (induction rule: accepts.induct) (auto dest: check_client intro: same_client_trans)

text \<open>A command that a client sends and that passes is in the table, allowed, and known to the
  device.\<close>

lemma check_allowed:
  assumes "vmw_cmd_check p cur s = Some (s1, Inr sz)" "\<not> kernel s"
  obtains en where "cmd_entry (word_at s p) = Some en" "user_allow en" "gb_disable en \<longrightarrow> \<not> gb_objects s"
    "gb_enable en \<longrightarrow> gb_objects s" "run_func (func en) p s = Some (s1, Inr ())"
    "sz = hdr_size s p + 8" "sz \<le> cur"
proof -
  have "\<not> word_at s p < SVGA_CMD_MAX"
    using assms by (auto simp: vmw_cmd_check_def vmw_cmd_check_not_3d_def run_simps Let_def split: option.splits if_splits)
  then obtain en where en: "cmd_entry (word_at s p) = Some en" "run_entry en p (hdr_size s p + 8) s = Some (s1, Inr sz)"
      "\<not> cur < hdr_size s p + 8"
    using assms by (auto simp: vmw_cmd_check_def run_simps Let_def split: option.splits if_splits)
  then show thesis
    using that assms(2) by (auto simp: run_entry_def exec_simps on_error_Some split: if_splits)
qed

text \<open>The commands a client may send, by their ids: no command that defines, destroys or binds
  device objects other than through the driver, none that shows something on a screen.\<close>

definition client_cmds :: "u32 list" where
  "client_cmds = [1042, 1043, 1044, 1047, 1048, 1049, 1050, 1051, 1052, 1053, 1054, 1055, 1056, 1057, 1059, 1060,
     1061, 1062, 1063, 1064, 1065, 1066, 1067, 1068, 1099, 1101, 1102, 1103, 1104, 1105, 1106, 1114, 1116, 1117,
     1118, 1119, 1130]"

lemma allowed_entries:
  "list_all (\<lambda>(k, en). user_allow en \<longrightarrow> k + SVGA_3D_CMD_BASE \<in> set client_cmds) vmw_cmd_entries"
  by (simp add: vmw_cmd_entries_def VMW_CMD_DEF_def SVGA_3D_CMD_BASE_def client_cmds_def)

lemma allowed_cmd: "cmd_entry c = Some en \<Longrightarrow> user_allow en \<Longrightarrow> c \<in> set client_cmds"
  using allowed_entries by (auto simp: cmd_entry_def list_all_iff dest!: map_of_SomeD)

definition allowed :: "vmw_sw_context \<Rightarrow> u32 \<Rightarrow> bool" where
  "allowed s c \<longleftrightarrow> (\<exists>en. cmd_entry c = Some en \<and> user_allow en \<and> (gb_disable en \<longrightarrow> \<not> gb_objects s) \<and>
     (gb_enable en \<longrightarrow> gb_objects s)) \<and> c \<in> set client_cmds"

lemma accepts_allowed:
  "accepts s p cur cs s' \<Longrightarrow> \<not> kernel s \<Longrightarrow> (q, c, sz) \<in> set cs \<Longrightarrow> allowed s c"
proof (induction rule: accepts.induct)
  case (command cur p s s1 sz0 cs s')
  obtain en where "cmd_entry (word_at s p) = Some en" "user_allow en" "gb_disable en \<longrightarrow> \<not> gb_objects s"
      "gb_enable en \<longrightarrow> gb_objects s"
    using check_allowed [OF command(2,5)] by blast
  then have "allowed s (word_at s p)" by (auto simp: allowed_def dest: allowed_cmd)
  moreover have "same_client s s1" using check_client [OF command(2)] .
  then have "\<not> kernel s1" "allowed s1 = allowed s"
    using command(5) by (simp_all add: same_client_def allowed_def fun_eq_iff)
  ultimately show ?case using command(4,6) by auto
qed simp

section \<open>The loop ends\<close>

text \<open>The points of the loop, each with the position, the bytes left and the state.\<close>

inductive reaches :: "vmw_sw_context \<Rightarrow> nat \<Rightarrow> u32 \<Rightarrow> vmw_sw_context \<Rightarrow> nat \<Rightarrow> u32 \<Rightarrow> bool" where
  start: "reaches s p cur s p cur"
| further: "0 < sint cur \<Longrightarrow> vmw_cmd_check p cur s = Some (s1, Inr sz) \<Longrightarrow>
    reaches s1 (p + unat sz) (cur - sz) s' q c \<Longrightarrow> reaches s p cur s' q c"

lemma checked_size:
  assumes "vmw_cmd_check p cur s = Some (s1, Inr sz)"
  shows "sz \<le> cur" "sz = 0 \<Longrightarrow> hdr_size s p = - 8"
proof -
  have n: "not_3d_size c = Some v \<Longrightarrow> v \<noteq> 0" for c v
    by (auto simp: not_3d_size_def split: if_splits)
  have "sz \<le> cur \<and> (sz = hdr_size s p + 8 \<or> sz \<noteq> 0)"
    using assms n
    by (auto simp: vmw_cmd_check_def vmw_cmd_check_not_3d_def run_entry_def exec_simps Let_def
             split: option.splits if_splits)
  then show "sz \<le> cur" "sz = 0 \<Longrightarrow> hdr_size s p = - 8"
    by (auto simp: eq_neg_iff_add_eq_0)
qed

lemma check_all_loop_ends:
  assumes "\<And>s' q c. reaches s p cur s' q c \<Longrightarrow> hdr_size s' q \<noteq> - 8" "unat cur < n"
  shows "check_all_loop n p cur s \<noteq> None"
  using assms
proof (induction n p cur s rule: check_all_loop.induct)
  case (2 n p cur s)
  have "check_all_loop n (p + unat sz) (cur - sz) s1 \<noteq> None"
    if "0 < sint cur" "vmw_cmd_check p cur s = Some (s1, Inr sz)" for s1 sz
  proof (rule 2(1))
    have "sz \<noteq> 0" using checked_size(2) [OF that(2)] 2(2) [OF start] by blast
    then have "0 < unat sz" by (simp add: unat_gt_0)
    then show "unat (cur - sz) < n" using checked_size(1) [OF that(2)] 2(3) by (simp add: word_nat)
  qed (use that 2(2) in \<open>auto intro: further\<close>)
  then show ?case by (auto split: option.split sum.split)
qed simp

section \<open>Commands stay within their bytes\<close>

definition accessible :: "vmw_sw_context \<Rightarrow> nat \<Rightarrow> bool" where
  "accessible s r \<longleftrightarrow> (\<exists>t h. resolve s t h = Some r)"

text \<open>The cache holds resources the client has handles for, directly and through the node it remembers;
  and a resource of the list is the resource of its node.\<close>

definition cache_ok :: "vmw_sw_context \<Rightarrow> bool" where
  "cache_ok s \<longleftrightarrow> (\<forall>t. rc_valid (res_cache s t) \<longrightarrow> accessible s (rc_res (res_cache s t))) \<and>
     (\<forall>t n. rc_node (res_cache s t) = Some n \<longrightarrow> n < next_node s \<and> accessible s (vn_res (val_node s n))) \<and>
     (\<forall>r n. map_of (res_ht s) (Res r) = Some (Val_node n) \<longrightarrow> n < next_node s \<and> vn_res (val_node s n) = r)"

lemma same_client_accessible: "same_client s s' \<Longrightarrow> accessible s' = accessible s"
  using resolve_cong [of s' s] by (simp add: accessible_def same_client_def fun_eq_iff)

text \<open>A relocation in \<open>[lo, hi)\<close>, for a resource the client has a handle for or a free one.\<close>

definition good_reloc :: "vmw_sw_context \<Rightarrow> nat \<Rightarrow> nat \<Rightarrow> (nat \<Rightarrow> nat option \<Rightarrow> bool) \<Rightarrow> nat \<times> nat option \<Rightarrow> bool" where
  "good_reloc s lo hi free e \<longleftrightarrow> (\<exists>a z. e = (word_index a, z) \<and> 4 dvd a \<and> lo \<le> a \<and> a + 4 \<le> hi \<and>
     (free a z \<or> (\<exists>r. z = Some r \<and> accessible s r)))"

definition within :: "nat \<Rightarrow> nat \<Rightarrow> (nat \<Rightarrow> nat option \<Rightarrow> bool) \<Rightarrow> vmw_sw_context \<Rightarrow> vmw_sw_context \<Rightarrow> bool" where
  "within lo hi free s s' \<longleftrightarrow> same_client s s' \<and> (\<forall>a. a < lo \<or> hi \<le> a \<longrightarrow> cmds s' a = cmds s a) \<and>
     (cache_ok s \<longrightarrow> cache_ok s' \<and>
       (\<exists>new. res_relocations s' = res_relocations s @ new \<and> list_all (good_reloc s lo hi free) new))"

lemma within_refl [simp]: "within lo hi free s s"
  by (simp add: within_def)

lemma good_reloc_client: "same_client s s' \<Longrightarrow> good_reloc s' = good_reloc s"
  using same_client_accessible by (auto simp: good_reloc_def fun_eq_iff)

lemma within_trans:
  assumes "within lo hi free s s1" "within lo hi free s1 s2"
  shows "within lo hi free s s2"
proof -
  have c: "same_client s s1" "same_client s1 s2" using assms by (simp_all add: within_def)
  have "cache_ok s2 \<and> (\<exists>new. res_relocations s2 = res_relocations s @ new \<and> list_all (good_reloc s lo hi free) new)"
    if ok: "cache_ok s"
  proof -
    obtain n1 where n1: "cache_ok s1" "res_relocations s1 = res_relocations s @ n1" "list_all (good_reloc s lo hi free) n1"
      using assms(1) ok by (auto simp: within_def)
    obtain n2 where n2: "cache_ok s2" "res_relocations s2 = res_relocations s1 @ n2" "list_all (good_reloc s lo hi free) n2"
      using assms(2) n1(1) good_reloc_client [OF c(1)] by (auto simp: within_def)
    have "res_relocations s2 = res_relocations s @ n1 @ n2" "list_all (good_reloc s lo hi free) (n1 @ n2)"
      using n1 n2 by simp_all
    with n2(1) show ?thesis by blast
  qed
  moreover have "\<forall>a. a < lo \<or> hi \<le> a \<longrightarrow> cmds s2 a = cmds s a" using assms by (simp add: within_def)
  ultimately show ?thesis using same_client_trans [OF c] by (simp add: within_def)
qed

lemma within_same:
  assumes "same_client s s'" "cmds s' = cmds s" "res_relocations s' = res_relocations s"
    "\<And>t. rc_valid (res_cache s' t) = rc_valid (res_cache s t)" "\<And>t. rc_res (res_cache s' t) = rc_res (res_cache s t)"
    "\<And>t. rc_node (res_cache s' t) = rc_node (res_cache s t)" "next_node s' = next_node s"
    "\<And>n. vn_res (val_node s' n) = vn_res (val_node s n)" "\<And>r. map_of (res_ht s') (Res r) = map_of (res_ht s) (Res r)"
  shows "within lo hi free s s'"
  using assms same_client_accessible [OF assms(1)] by (simp add: within_def cache_ok_def)

lemma within_new_node:
  assumes "map_of (res_ht s) (Res r) = None"
  shows "within lo hi free s (new_val_node r s)" (is "within lo hi free s ?s")
proof -
  have c: "same_client s ?s" by (simp add: new_val_node_def add_ref_def Let_def same_client_def)
  have f: "cmds ?s = cmds s" "res_relocations ?s = res_relocations s" "res_cache ?s = res_cache s" "next_node ?s = Suc (next_node s)"
    "n < next_node s \<Longrightarrow> vn_res (val_node ?s n) = vn_res (val_node s n)" "vn_res (val_node ?s (next_node s)) = r"
    "map_of (res_ht ?s) x = (if x = Res r then Some (Val_node (next_node s)) else map_of (res_ht s) x)" for n x
    by (simp_all add: new_val_node_def add_ref_def Let_def)
  have "cache_ok ?s" if ok: "cache_ok s"
    using ok unfolding cache_ok_def same_client_accessible [OF c] f by (auto simp: f(5,6) less_SucI split: if_splits)
  with c f show ?thesis by (simp add: within_def)
qed

lemma within_cache_node:
  assumes "resolve s t h = Some r" "\<And>n. nd = Some n \<Longrightarrow> map_of (res_ht s) (Res r) = Some (Val_node n)"
  shows "within lo hi free s (set_cache t (\<lambda>c. c\<lparr>rc_node := nd\<rparr>) s)" (is "within lo hi free s ?s")
proof -
  have c: "same_client s ?s" by (simp add: set_cache_def same_client_def)
  have "accessible s r" using assms(1) by (auto simp: accessible_def)
  then have "cache_ok ?s" if "cache_ok s"
    using that assms(2) same_client_accessible [OF c] by (auto simp: cache_ok_def set_cache_def)
  with c show ?thesis by (simp add: within_def set_cache_def)
qed

lemma within_bufs: "same_but_bufs s s' \<Longrightarrow> within lo hi free s s'"
  by (rule within_same) (simp_all add: same_but_bufs_def)

lemma within_relocate:
  assumes "lo \<le> a" "a + 4 \<le> hi" "4 dvd a" "may_relocate free a z s"
  shows "within lo hi free s (relocate a z s)"
proof -
  have "free a z \<or> (\<exists>r. z = Some r \<and> accessible s r)" if "cache_ok s"
    using assms(4) that by (auto simp: may_relocate_def found_def accessible_def cache_ok_def)
  then have "cache_ok s \<longrightarrow> list_all (good_reloc s lo hi free) [(word_index a, z)]"
    using assms(1-3) by (auto simp: good_reloc_def)
  moreover have c: "same_client s (relocate a z s)" by (simp add: relocate_def same_client_def)
  ultimately show ?thesis
    using same_client_accessible [OF c] by (auto simp: within_def cache_ok_def relocate_def same_client_def)
qed

lemma within_cache:
  assumes "resolve s t h = Some r"
  shows "within lo hi free s (set_cache t (\<lambda>c. c\<lparr>rc_valid := True, rc_res := r, rc_handle := h\<rparr>) s)"
    (is "within lo hi free s ?s")
proof -
  have c: "same_client s ?s" by (simp add: set_cache_def same_client_def)
  have "accessible s r" using assms by (auto simp: accessible_def)
  then have "cache_ok s \<longrightarrow> cache_ok ?s"
    using same_client_accessible [OF c] by (auto simp: cache_ok_def set_cache_def)
  with c show ?thesis by (simp add: within_def set_cache_def)
qed

lemma within_write:
  assumes "lo \<le> a" "a + 4 * length vs \<le> hi"
  shows "within lo hi free s (s\<lparr>cmds := wr_words a vs (cmds s)\<rparr>)" (is "within lo hi free s ?s")
proof -
  have c: "same_client s ?s" by (simp add: same_client_def)
  then show ?thesis
    using same_client_accessible [OF c] assms by (auto simp: within_def cache_ok_def wr_words_outside)
qed

interpretation frame: handler_relation "within lo hi free" "\<lambda>a n. lo \<le> a \<and> a + n \<le> hi \<and> 4 dvd a" free for lo hi free
proof (unfold_locales)
  fix s s1 s2
  show "within lo hi free s s" by simp
  show "within lo hi free s s1 \<Longrightarrow> within lo hi free s1 s2 \<Longrightarrow> within lo hi free s s2" by (rule within_trans)
next
  fix s :: vmw_sw_context and b fl mob a n bi vs z t h r
  show "keeps (within lo hi free) alloc s" by (auto simp: keeps_def alloc_def same_client_def intro!: within_same)
  show "keeps (within lo hi free) (vmw_bo_to_validate_list b fl mob) s" by (rule keeps_mono [OF bo_add_bufs]) (rule within_bufs)
  show "keeps (within lo hi free) (add_relocation mob a b) s" by (rule keeps_mono [OF add_relocation_bufs]) (rule within_bufs)
  show "keeps (within lo hi free) (add_binding n bi) s" by (rule keeps_mono [OF add_binding_bufs]) (rule within_bufs)
  show "lo \<le> a \<and> a + 4 * length vs \<le> hi \<and> 4 dvd a \<Longrightarrow> within lo hi free s (s\<lparr>cmds := wr_words a vs (cmds s)\<rparr>)"
    by (rule within_write) auto
  show "lo \<le> a \<and> a + 4 \<le> hi \<and> 4 dvd a \<Longrightarrow> may_relocate free a z s \<Longrightarrow> within lo hi free s (relocate a z s)"
    by (rule within_relocate) auto
  show "resolve s t h = Some r \<Longrightarrow> within lo hi free s (set_cache t (\<lambda>c. c\<lparr>rc_valid := True, rc_res := r, rc_handle := h\<rparr>) s)"
    by (rule within_cache)
  show "map_of (res_ht s) (Res r) = None \<Longrightarrow> within lo hi free s (new_val_node r s)" by (rule within_new_node)
  show "within lo hi free s (set_cache t (\<lambda>c. c\<lparr>rc_node := nd\<rparr>) s)"
    if "resolve s t h = Some r" "\<And>n. nd = Some n \<Longrightarrow> map_of (res_ht s) (Res r) = Some (Val_node n)" for nd
    by (rule within_cache_node [OF that])
qed (rule within_same; simp add: same_client_def fun_updates Let_def split: option.split)+

section \<open>Correctness\<close>

text \<open>A presentation read-back has no fields to check.\<close>

lemma check_readback:
  assumes "word_at s p = 1068"
  shows "vmw_cmd_check p cur s = Some (s, if cur < hdr_size s p + 8 then Inl EINVAL else Inr (hdr_size s p + 8))"
proof -
  have "cmd_entry 1068 = Some \<lparr>func = Fcmd_ok, user_allow = True, gb_disable = False, gb_enable = False\<rparr>" by code_simp
  then show ?thesis
    using assms
    by (simp add: vmw_cmd_check_def run_entry_def run_simps SVGA_CMD_MAX_def SVGA_3D_CMD_MAX_def SVGA_3D_CMD_BASE_def
        vmw_cmd_ok_def andthen_def chain_def on_error_def)
qed

text \<open>C27: every command of a batch that the verifier accepts from a client is one of the commands
  clients may send, and one the device knows; in particular no command that defines, destroys or
  binds device objects behind the driver's back, and none that presents to a screen.\<close>

theorem vmw_batch_commands_allowed:
  assumes "vmw_cmd_check_all fuel sz s = Some (Some (s', Inr ()))" "\<not> kernel s"
  shows "\<exists>cs. accepts s 0 sz cs s' \<and> (\<forall>(q, c, n) \<in> set cs. allowed s c)"
proof -
  obtain cs where cs: "accepts s 0 sz cs s'"
    using accepted assms(1) unfolding vmw_cmd_check_all_def by blast
  with accepts_allowed [OF cs assms(2)] show ?thesis by blast
qed

text \<open>A batch with a copy between the client's surface and no surface, and a clear of its
  context.\<close>

definition example_batch :: cmd_mem where
  "example_batch = of_words [1042, 32, 8, 0, 0, 4294967295, 0, 0, 0, 0, 1057, 12, 7, 0, 0]"

lemma example_batch_runs: "passes (vmw_cmd_check_all 3 60 (example_sw example_batch))"
  by code_simp

theorem vmw_batch_commands_allowed_witness:
  "\<exists>s' cs. vmw_cmd_check_all 3 60 (example_sw example_batch) = Some (Some (s', Inr ())) \<and>
     accepts (example_sw example_batch) 0 60 cs s' \<and> (\<forall>(q, c, n) \<in> set cs. allowed (example_sw example_batch) c)"
proof -
  obtain s' where run: "vmw_cmd_check_all 3 60 (example_sw example_batch) = Some (Some (s', Inr ()))"
    using passesD [OF example_batch_runs] by blast
  moreover have "\<not> kernel (example_sw example_batch)" by (simp add: example_sw_def)
  ultimately show ?thesis using vmw_batch_commands_allowed [OF run] by blast
qed

text \<open>C29: the loop over a batch ends, with a result, after at most one step more than the batch
  has bytes, unless it comes to a command whose size in its header is \<open>0xfffffff8\<close>, so
  that with the header it has no size at all.\<close>

theorem vmw_cmd_check_all_ends:
  assumes "\<And>s' q c. reaches s 0 sz s' q c \<Longrightarrow> hdr_size s' q \<noteq> - 8"
  shows "\<exists>r. vmw_cmd_check_all (Suc (unat sz)) sz s = Some r"
proof -
  have "check_all_loop (Suc (unat sz)) 0 sz s \<noteq> None"
    by (rule check_all_loop_ends) (use assms in blast, simp)
  then show ?thesis unfolding vmw_cmd_check_all_def by blast
qed

theorem vmw_cmd_check_all_ends_witness:
  "\<exists>r. vmw_cmd_check_all (Suc (unat (12 :: u32))) 12 (example_sw (of_words [1068, 4, 0])) = Some r"
proof (rule vmw_cmd_check_all_ends)
  let ?s = "example_sw (of_words [1068, 4, 0])"
  have w: "word_at ?s 0 = 1068" "hdr_size ?s 0 = 4" "hdr_size ?s 12 = 0" by code_simp+
  fix s' q c assume "reaches ?s 0 12 s' q c"
  then show "hdr_size s' q \<noteq> - 8"
  proof cases
    case (further s1 sz)
    then have "s1 = ?s" "sz = 12" using check_readback [OF w(1), of 12] w(2) by auto
    with further(3) have "reaches ?s 12 0 s' q c" by simp
    then show ?thesis by cases (use w in simp_all)
  qed (use w in simp_all)
qed

text \<open>With such a command the loop never ends: it looks at the command again and again.\<close>

lemma zero_size_never_ends:
  "vmw_cmd_check_all fuel 12 (example_sw (of_words [1068, 4294967288, 0])) = None"
proof -
  let ?s = "example_sw (of_words [1068, 4294967288, 0])"
  have w: "word_at ?s 0 = 1068" "hdr_size ?s 0 = 4294967288" by code_simp+
  have "4294967288 + 8 = (0 :: u32)" by simp
  then have "vmw_cmd_check 0 12 ?s = Some (?s, Inr 0)" using check_readback [OF w(1), of 12] unfolding w(2) by simp
  then have "check_all_loop fuel 0 12 ?s = None" by (induction fuel) simp_all
  then show ?thesis by (simp add: vmw_cmd_check_all_def)
qed

end
