(* ===== verification/Execbuf_Inv.thy ===== *)
theory Execbuf_Inv
  imports Execbuf_Batch
begin

text \<open>
  The invariant of the software context: what the hash table, the list of resources and
  the array of buffers say about each other, and the bounds of the two arrays.  It holds after
  every handler, whatever the client sends and also when the handler fails, so that the clean-up
  of a batch finds the table as it expects it.
\<close>

definition sw_inv :: "vmw_sw_context \<Rightarrow> bool" where
  "sw_inv s \<longleftrightarrow>
     distinct (map fst (res_ht s)) \<and>
     set (res_ht s) =
       (\<lambda>n. (Res (vn_res (val_node s n)), Val_node n)) ` set (resource_list s) \<union>
       (\<lambda>i. (Bo (vb_bo (val_bufs s i)), Val_buf i)) ` {0..<cur_val_buf s} \<and>
     distinct (resource_list s) \<and> (\<forall>n \<in> set (resource_list s). n < next_node s) \<and>
     validate_nodes s = [0..<cur_val_buf s] \<and>
     cur_val_buf s \<le> VMWGFX_MAX_VALIDATIONS \<and> cur_reloc s \<le> VMWGFX_MAX_RELOCATIONS"

lemma sw_invD:
  assumes "sw_inv s"
  shows "distinct (map fst (res_ht s))"
    "set (res_ht s) = (\<lambda>n. (Res (vn_res (val_node s n)), Val_node n)) ` set (resource_list s) \<union>
       (\<lambda>i. (Bo (vb_bo (val_bufs s i)), Val_buf i)) ` {0..<cur_val_buf s}"
    "distinct (resource_list s)" "n \<in> set (resource_list s) \<Longrightarrow> n < next_node s"
    "validate_nodes s = [0..<cur_val_buf s]" "cur_val_buf s \<le> VMWGFX_MAX_VALIDATIONS"
    "cur_reloc s \<le> VMWGFX_MAX_RELOCATIONS"
  using assms by (simp_all add: sw_inv_def)

lemma ht_entry: "sw_inv s \<Longrightarrow> map_of (res_ht s) k = Some v \<longleftrightarrow> (k, v) \<in> set (res_ht s)"
  using sw_invD(1) map_of_eq_Some_iff by fastforce

lemma ht_node:
  "sw_inv s \<Longrightarrow> map_of (res_ht s) (Res r) = Some (Val_node n) \<longleftrightarrow> n \<in> set (resource_list s) \<and> vn_res (val_node s n) = r"
  by (subst ht_entry) (auto simp: sw_invD(2))

lemma ht_buf:
  "sw_inv s \<Longrightarrow> map_of (res_ht s) (Bo b) = Some (Val_buf i) \<longleftrightarrow> i < cur_val_buf s \<and> vb_bo (val_bufs s i) = b"
  by (subst ht_entry) (auto simp: sw_invD(2))

lemma ht_kinds:
  assumes "sw_inv s"
  shows "map_of (res_ht s) (Res r) \<noteq> Some (Val_buf i)" "map_of (res_ht s) (Bo b) \<noteq> Some (Val_node n)"
  by (simp_all add: ht_entry [OF assms]) (auto simp: sw_invD(2) [OF assms])

text \<open>Only these parts of the state matter.\<close>

lemma sw_inv_cong:
  assumes "sw_inv s" "res_ht s' = res_ht s" "set (resource_list s') = set (resource_list s)"
    "distinct (resource_list s')" "next_node s' = next_node s" "cur_val_buf s' = cur_val_buf s"
    "validate_nodes s' = validate_nodes s" "cur_reloc s' \<le> VMWGFX_MAX_RELOCATIONS"
    "\<And>n. vn_res (val_node s' n) = vn_res (val_node s n)" "\<And>i. vb_bo (val_bufs s' i) = vb_bo (val_bufs s i)"
  shows "sw_inv s'"
  using assms(1) unfolding sw_inv_def assms(2-7,9,10) using assms(4,8) by simp

lemma new_val_node_inv:
  assumes "sw_inv s" "map_of (res_ht s) (Res r) = None"
  shows "sw_inv (new_val_node r s)"
proof -
  note D = sw_invD [OF assms(1)]
  have fresh: "next_node s \<notin> set (resource_list s)" using D(4) by blast
  have "set (resource_list s) \<subseteq> - {next_node s}" using fresh by auto
  then have imgs: "(\<lambda>n. (Res (vn_res (((val_node s)(next_node s := x)) n)), Val_node n)) ` set (resource_list s) =
      (\<lambda>n. (Res (vn_res (val_node s n)), Val_node n)) ` set (resource_list s)" for x
    by (intro image_cong) auto
  have "Res r \<notin> fst ` set (res_ht s)" using assms(2) by (simp add: map_of_eq_None_iff)
  then have dist: "distinct (map fst (res_ht (new_val_node r s)))"
    using D(1) by (simp add: new_val_node_def Let_def add_ref_def)
  show ?thesis
    unfolding sw_inv_def
    using dist fresh D(3-7) imgs
    by (simp add: new_val_node_def Let_def add_ref_def D(2) less_Suc_eq)
qed

lemma new_val_buf_inv:
  assumes "sw_inv s" "map_of (res_ht s) (Bo b) = None" "cur_val_buf s < VMWGFX_MAX_VALIDATIONS"
  shows "sw_inv (new_val_buf b mob s)"
proof -
  note D = sw_invD [OF assms(1)]
  let ?i = "cur_val_buf s"
  have imgs: "(\<lambda>i. (Bo (vb_bo (((val_bufs s)(?i := x)) i)), Val_buf i)) ` {0..<?i} =
      (\<lambda>i. (Bo (vb_bo (val_bufs s i)), Val_buf i)) ` {0..<?i}" for x
    by (intro image_cong) auto
  have "Bo b \<notin> fst ` set (res_ht s)" using assms(2) by (simp add: map_of_eq_None_iff)
  then have dist: "distinct (map fst (res_ht (new_val_buf b mob s)))"
    using D(1) by (simp add: new_val_buf_def Let_def add_ref_def)
  show ?thesis
    unfolding sw_inv_def
    using dist assms(3) D(3-7) imgs
    by (simp add: new_val_buf_def Let_def add_ref_def D(2) atLeast0_lessThan_Suc)
qed

lemma mark_val_buf_inv: "sw_inv s \<Longrightarrow> mark_val_buf i fl s = Some (s', r) \<Longrightarrow> sw_inv s'"
  using sw_invD(3,7) [of s]
  by (auto simp: mark_val_buf_def andthen_def chain_def run_simps elim!: sw_inv_cong)

lemma bo_to_validate_list_inv:
  assumes "sw_inv s" "vmw_bo_to_validate_list b fl mob s = Some (s', r)"
  shows "sw_inv s'"
proof (cases "map_of (res_ht s) (Bo b)")
  case None
  show ?thesis
  proof (cases "cur_val_buf s < VMWGFX_MAX_VALIDATIONS")
    case True
    have "sw_inv (new_val_buf b mob s)" by (rule new_val_buf_inv) (use assms(1) None True in auto)
    moreover have "mark_val_buf (cur_val_buf s) fl (new_val_buf b mob s) = Some (s', r)"
      using assms(2) None True
      by (auto simp: vmw_bo_to_validate_list_def andthen_def chain_def run_simps)
    ultimately show ?thesis by (rule mark_val_buf_inv)
  qed (use assms None in \<open>auto simp: vmw_bo_to_validate_list_def run_simps\<close>)
next
  case (Some v)
  then show ?thesis
    using assms mark_val_buf_inv [OF assms(1)]
    by (auto simp: vmw_bo_to_validate_list_def run_simps split: ht_ref.splits if_splits)
qed

lemma to_front_inv:
  assumes "sw_inv s" "map_of (res_ht s) (Res r) = Some (Val_node n)"
  shows "sw_inv (to_front n s)"
proof -
  have n: "n \<in> set (resource_list s)" using assms ht_node by blast
  show ?thesis
    by (rule sw_inv_cong [OF assms(1)])
      (use n sw_invD(3,7) [OF assms(1)] in \<open>auto simp: to_front_def distinct_remove1\<close>)
qed

lemma add_relocation_inv:
  assumes "sw_inv s" "add_relocation mob a b s = Some (s', r)"
  shows "sw_inv s'"
proof -
  have "sw_inv (next_reloc mob a s)" if "cur_reloc s < VMWGFX_MAX_RELOCATIONS"
    by (rule sw_inv_cong [OF assms(1)])
      (use that sw_invD(3) [OF assms(1)] in \<open>auto simp: next_reloc_def Let_def\<close>)
  moreover have "sw_inv (set_index i v t)" if "sw_inv t" for i v t
    by (rule sw_inv_cong [OF that]) (use sw_invD(3,7) [OF that] in \<open>auto simp: set_index_def\<close>)
  ultimately show ?thesis
    using assms bo_to_validate_list_inv
    by (auto simp: add_relocation_def andthen_def chain_def run_simps
             split: if_splits option.splits sum.splits)
qed

definition sw_inv_kept :: "vmw_sw_context \<Rightarrow> vmw_sw_context \<Rightarrow> bool" where
  "sw_inv_kept s s' \<longleftrightarrow> (sw_inv s \<longrightarrow> sw_inv s')"

lemma sw_inv_kept_cong:
  assumes "res_ht s' = res_ht s" "resource_list s' = resource_list s" "next_node s' = next_node s"
    "cur_val_buf s' = cur_val_buf s" "validate_nodes s' = validate_nodes s" "cur_reloc s' = cur_reloc s"
    "\<And>n. vn_res (val_node s' n) = vn_res (val_node s n)" "\<And>i. vb_bo (val_bufs s' i) = vb_bo (val_bufs s i)"
  shows "sw_inv_kept s s'"
  using assms by (auto simp: sw_inv_kept_def intro!: sw_inv_cong [of s s'] dest: sw_invD(3,7))

interpretation inv: handler_relation sw_inv_kept "\<lambda>_ _. True" "\<lambda>_ _. True"
proof (unfold_locales)
  fix s s1 s2 show "sw_inv_kept s s" "sw_inv_kept s s1 \<Longrightarrow> sw_inv_kept s1 s2 \<Longrightarrow> sw_inv_kept s s2"
    by (auto simp: sw_inv_kept_def)
next
  fix s :: vmw_sw_context and b fl mob a n bi
  show "keeps sw_inv_kept alloc s" by (auto simp: keeps_def alloc_def intro!: sw_inv_kept_cong)
  show "keeps sw_inv_kept (vmw_bo_to_validate_list b fl mob) s"
    using bo_to_validate_list_inv by (auto simp: keeps_def sw_inv_kept_def)
  show "keeps sw_inv_kept (add_relocation mob a b) s"
    using add_relocation_inv by (auto simp: keeps_def sw_inv_kept_def)
  show "keeps sw_inv_kept (add_binding n bi) s"
    by (auto simp: keeps_def add_binding_def split: prod.splits intro!: sw_inv_kept_cong)
next
  fix s r n show "map_of (res_ht s) (Res r) = None \<Longrightarrow> sw_inv_kept s (new_val_node r s)"
    by (simp add: sw_inv_kept_def new_val_node_inv)
  show "map_of (res_ht s) (Res r) = Some (Val_node n) \<Longrightarrow> sw_inv_kept s (to_front n s)"
    by (simp add: sw_inv_kept_def to_front_inv)
qed (rule sw_inv_kept_cong; simp add: state_defs relocate_def set_backup_def drop_backup_def put_man_def split: option.split)+

section \<open>The invariant through the verifier\<close>

lemma keeps_cmd_check: "keeps sw_inv_kept (vmw_cmd_check p rem) s"
  by (rule inv.k_check) (simp_all add: covers_def)

lemma check_all_loop_inv:
  "sw_inv s \<Longrightarrow> check_all_loop n p cur s = Some (Some (s', r)) \<Longrightarrow> sw_inv s'"
proof (induction n p cur s rule: check_all_loop.induct)
  case (2 n p cur s)
  show ?case
  proof (cases "0 < sint cur")
    case True
    obtain s1 v where v: "vmw_cmd_check p cur s = Some (s1, v)"
      using 2(3) True by (auto split: option.splits)
    then have "sw_inv s1" using keepsD [OF keeps_cmd_check] 2(2) by (auto simp: sw_inv_kept_def)
    then show ?thesis using 2(1,3) True v by (cases v) auto
  qed (use 2(2,3) in \<open>auto simp: run_simps split: if_splits\<close>)
qed simp

text \<open>Emptying the lists at the end of a batch.\<close>

definition drop_val_buf :: "nat \<Rightarrow> vmw_sw_context \<Rightarrow> vmw_sw_context" where
  "drop_val_buf i s =
     add_ref (Bo (vb_bo (val_bufs s i))) (- 1)
       (s\<lparr>validate_nodes := remove1 i (validate_nodes s),
          res_ht := filter (\<lambda>e. snd e \<noteq> Val_buf i) (res_ht s), cur_val_buf := cur_val_buf s - 1\<rparr>)"

text \<open>The loops run over the buffers and then over the resources; the value \<open>None\<close> is one of the two
  \<open>BUG_ON\<close>s.  An entry is taken out of the table by its address, that is by what it refers to.\<close>

definition vmw_clear_validations :: "vmw_sw_context \<Rightarrow> vmw_sw_context option" where
  "vmw_clear_validations s =
     (let s1 = fold drop_val_buf (validate_nodes s) s in
      if cur_val_buf s1 \<noteq> 0 then None
      else
        (let ht = filter (\<lambda>e. snd e \<notin> Val_node ` set (resource_list s1)) (res_ht s1) in
         if ht \<noteq> [] then None else Some (s1\<lparr>res_ht := ht\<rparr>)))"

lemma drop_val_bufs:
  "fold drop_val_buf is s =
     s\<lparr>refs := (\<lambda>x. refs s x - int (length (filter (\<lambda>i. x = Bo (vb_bo (val_bufs s i))) is))),
       validate_nodes := fold remove1 is (validate_nodes s),
       res_ht := filter (\<lambda>e. snd e \<notin> Val_buf ` set is) (res_ht s), cur_val_buf := cur_val_buf s - length is\<rparr>"
proof (induction "is" arbitrary: s)
  case (Cons i "is")
  show ?case
    by (subst fold_simps(2), subst Cons.IH)
      (auto simp: drop_val_buf_def add_ref_def fun_eq_iff intro!: filter_cong)
qed simp

lemma fold_remove1_self: "fold remove1 xs xs = []"
  by (induction xs) simp_all

lemma clear_validations_inv:
  assumes "sw_inv s"
  shows "vmw_clear_validations s =
    Some (s\<lparr>refs := (\<lambda>x. refs s x - int (length (filter (\<lambda>i. x = Bo (vb_bo (val_bufs s i))) [0..<cur_val_buf s]))),
            validate_nodes := [], res_ht := [], cur_val_buf := 0\<rparr>)"
proof -
  have none: "filter (\<lambda>e. snd e \<notin> Val_buf ` {0..<cur_val_buf s} \<and> snd e \<notin> Val_node ` set (resource_list s)) (res_ht s) = []"
    using sw_invD(2) [OF assms] by (auto simp: filter_empty_conv)
  show ?thesis
    using none
    by (simp add: vmw_clear_validations_def drop_val_bufs sw_invD(5) [OF assms] fold_remove1_self Let_def conj_commute)
qed

section \<open>Correctness\<close>

text \<open>C28: whenever the check of a batch returns, whatever the client sent and whether the batch was
  accepted or not, the arrays of relocations and of buffers to validate have not overflowed, and the
  table of the software context is consistent with its lists, so that the clean-up after the batch
  empties it, drops the reference of each buffer on the list, and does not run into a \<open>BUG_ON\<close>.  There
  are batches with which it does not return: one with a command whose size wraps to zero
  (\<open>zero_size_never_ends\<close>), and those with which a handler follows a null pointer, such as a command that
  binds a backup buffer to no surface (\<open>switch_backup_of_nothing\<close>).\<close>

theorem vmw_cmd_check_all_bounded:
  assumes "sw_inv s" "vmw_cmd_check_all fuel sz s = Some (Some (s', r))"
  shows "cur_val_buf s' \<le> VMWGFX_MAX_VALIDATIONS \<and> cur_reloc s' \<le> VMWGFX_MAX_RELOCATIONS \<and>
    (\<exists>s''. vmw_clear_validations s' = Some s'' \<and> res_ht s'' = [] \<and> validate_nodes s'' = [] \<and> cur_val_buf s'' = 0 \<and>
       (\<forall>b. refs s'' (Bo b) = refs s' (Bo b) - int (card {i. i < cur_val_buf s' \<and> b = vb_bo (val_bufs s' i)})) \<and>
       (\<forall>x. refs s'' (Res x) = refs s' (Res x)))"
proof -
  have inv: "sw_inv s'" using check_all_loop_inv assms unfolding vmw_cmd_check_all_def by blast
  have "length (filter P [0..<n]) = card {i. i < n \<and> P i}" for P n
  proof -
    have "set (filter P [0..<n]) = {i. i < n \<and> P i}" by auto
    moreover have "distinct (filter P [0..<n])" by simp
    ultimately show ?thesis using distinct_card by metis
  qed
  then show ?thesis
    using sw_invD(6,7) [OF inv] by (simp add: clear_validations_inv [OF inv])
qed

lemma example_sw_inv: "sw_inv (example_sw m)"
  by (simp add: sw_inv_def example_sw_def)

theorem vmw_cmd_check_all_bounded_witness:
  "\<exists>s' s''. vmw_cmd_check_all 3 60 (example_sw example_batch) = Some (Some (s', Inr ())) \<and>
     vmw_clear_validations s' = Some s'' \<and> res_ht s'' = [] \<and> cur_val_buf s'' = 0"
proof -
  obtain s' where run: "vmw_cmd_check_all 3 60 (example_sw example_batch) = Some (Some (s', Inr ()))"
    using passesD [OF example_batch_runs] by blast
  with vmw_cmd_check_all_bounded [OF example_sw_inv run] show ?thesis by blast
qed

text \<open>A client of a device with memory objects, and a command that binds buffer 9 to the invalid surface:
  \<open>vmw_cmd_res_check\<close> lets it pass without a node, which \<open>vmw_cmd_switch_backup\<close> then writes to.\<close>

lemma switch_backup_of_nothing:
  "case vmw_cmd_check_all 2 16 ((example_sw (of_words [1099, 8, 4294967295, 9]))\<lparr>has_mob := True, gb_objects := True\<rparr>) of
     Some None \<Rightarrow> True | _ \<Rightarrow> False"
  by code_simp

end
