(* ===== verification/Execbuf_Ids.thy ===== *)
theory Execbuf_Ids
  imports Execbuf_Batch
begin

text \<open>
  Where the resource ids of a command are, and that a command that passes has each of them
  translated.
\<close>

section \<open>Translated ids\<close>

text \<open>The id at \<open>a\<close> is the invalid id, or there is a relocation for it.\<close>

definition translated :: "nat \<Rightarrow> vmw_sw_context \<Rightarrow> bool" where
  "translated a s \<longleftrightarrow> rd32 (cmds s) a = SVGA3D_INVALID_ID \<or> (\<exists>z. (word_index a, z) \<in> set (res_relocations s))"

text \<open>It stays so while nothing is written there.\<close>

definition leaves :: "nat \<Rightarrow> vmw_sw_context \<Rightarrow> vmw_sw_context \<Rightarrow> bool" where
  "leaves a s s' \<longleftrightarrow> rd32 (cmds s') a = rd32 (cmds s) a \<and> set (res_relocations s) \<subseteq> set (res_relocations s')"

lemma leaves_translated: "leaves a s s' \<Longrightarrow> translated a s \<Longrightarrow> translated a s'"
  by (auto simp: leaves_def translated_def)

interpretation lv: handler_relation "leaves a" "\<lambda>b n. b + n \<le> a \<or> a + 4 \<le> b" "\<lambda>_ _. True" for a
proof (unfold_locales)
  fix s s1 s2 show "leaves a s s" "leaves a s s1 \<Longrightarrow> leaves a s1 s2 \<Longrightarrow> leaves a s s2"
    by (auto simp: leaves_def)
next
  fix s :: vmw_sw_context and b fl mob x n bi vs
  have bufs: "same_but_bufs s s' \<Longrightarrow> leaves a s s'" for s' by (simp add: same_but_bufs_def leaves_def)
  show "keeps (leaves a) alloc s" by (auto simp: keeps_def alloc_def leaves_def)
  show "keeps (leaves a) (vmw_bo_to_validate_list b fl mob) s" by (rule keeps_mono [OF bo_add_bufs]) (rule bufs)
  show "keeps (leaves a) (add_relocation mob x b) s" by (rule keeps_mono [OF add_relocation_bufs]) (rule bufs)
  show "keeps (leaves a) (add_binding n bi) s" by (rule keeps_mono [OF add_binding_bufs]) (rule bufs)
  show "x + 4 * length vs \<le> a \<or> a + 4 \<le> x \<Longrightarrow> leaves a s (s\<lparr>cmds := wr_words x vs (cmds s)\<rparr>)"
    by (auto simp: leaves_def wr_words_other)
qed (auto simp: leaves_def fun_updates Let_def split: option.split)

definition achieves :: "(vmw_sw_context \<Rightarrow> bool) \<Rightarrow> 'a cmd \<Rightarrow> vmw_sw_context \<Rightarrow> bool" where
  "achieves P m s \<longleftrightarrow> (\<forall>s' x. m s = Some (s', Inr x) \<longrightarrow> P s')"

lemma achievesD: "achieves P m s \<Longrightarrow> m s = Some (s', Inr x) \<Longrightarrow> P s'"
  by (auto simp: achieves_def)

lemma achieves_first:
  assumes "achieves (translated a) m s" "\<And>s1 x. m s = Some (s1, Inr x) \<Longrightarrow> keeps (leaves a) (k x) s1"
  shows "achieves (translated a) (chain m k) s"
  unfolding achieves_def
proof (intro allI impI)
  fix s' y assume "chain m k s = Some (s', Inr y)"
  then obtain s1 x where "m s = Some (s1, Inr x)" "k x s1 = Some (s', Inr y)" by (auto simp: chain_Some)
  then show "translated a s'"
    using assms by (blast intro: leaves_translated dest: achievesD keepsD)
qed

lemma achieves_rest:
  "(\<And>s1 x. m s = Some (s1, Inr x) \<Longrightarrow> achieves P (k x) s1) \<Longrightarrow> achieves P (chain m k) s"
  by (auto simp: achieves_def chain_Some)

lemma achieves_andthen1:
  "achieves (translated a) m s \<Longrightarrow> (\<And>s1. m s = Some (s1, Inr ()) \<Longrightarrow> keeps (leaves a) k s1) \<Longrightarrow>
   achieves (translated a) (andthen m k) s"
  unfolding andthen_def by (rule achieves_first) auto

lemma achieves_andthen2:
  "(\<And>s1. m s = Some (s1, Inr ()) \<Longrightarrow> achieves P k s1) \<Longrightarrow> achieves P (andthen m k) s"
  unfolding andthen_def by (rule achieves_rest) auto

lemma achieves_gets: "achieves P (k s) s \<Longrightarrow> achieves P (gets k) s"
  by (simp add: achieves_def run_simps)

lemma achieves_if: "(b \<Longrightarrow> achieves P m s) \<Longrightarrow> (\<not> b \<Longrightarrow> achieves P n s) \<Longrightarrow> achieves P (if b then m else n) s"
  by simp

lemma achieves_fail: "achieves P (fail e) s" "achieves P crash s"
  by (simp_all add: achieves_def run_simps)

text \<open>The check of a resource does it, on each of its paths.\<close>

lemma relocation_add_new:
  "vmw_resource_relocation_add z i s = Some (s', Inr ()) \<Longrightarrow> (i, z) \<in> set (res_relocations s')"
  by (auto simp: vmw_resource_relocation_add_def exec_simps)

lemma reloc_add_translates:
  assumes "vmw_cmd_res_reloc_add t a r s = Some (s', Inr n)"
  shows "translated a s'"
proof -
  have "achieves (translated a) (vmw_cmd_res_reloc_add t a r) s"
    unfolding vmw_cmd_res_reloc_add_def
  proof (rule achieves_andthen1)
    show "achieves (translated a) (vmw_resource_relocation_add (Some r) (word_index a)) s"
      by (auto simp: achieves_def translated_def dest!: relocation_add_new)
  next
    fix s1
    show "keeps (leaves a) (chain (vmw_resource_val_add r)
        (\<lambda>n. gets (\<lambda>s. if t = vmw_res_context \<and> has_mob s \<and> vn_first_usage (val_node s n)
             then stage_context n r else ok (Some n)))) s1"
      by (intro lv.k_rules lv.k_val_add lv.r_stage) (rule val_add_ht)
  qed
  with assms show ?thesis by (auto dest: achievesD)
qed

lemma res_check_translates: "achieves (translated a) (vmw_cmd_res_check t a) s"
proof -
  have slow: "achieves (translated a) (res_check_slow t a h) s" for h
    by (auto simp: achieves_def res_check_slow_def exec_simps on_error_Some keep_error_resource_def
             dest!: reloc_add_translates split: if_splits)
       (simp_all add: translated_def add_ref_def set_cache_def)
  show ?thesis
    unfolding vmw_cmd_res_check_def Let_def
    using slow
    by (auto simp: achieves_def run_simps exec_simps translated_def split: option.splits
             dest!: relocation_add_new)
qed

lemma check_only_translates: "achieves (translated a) (check_only t a) s"
  unfolding check_only_def by (rule achieves_first [OF res_check_translates]) (rule lv.k_ok)

section \<open>The ids of a command\<close>

text \<open>The id of the shader in a command that sets one is a resource id when the device has memory objects
  (\<open>mob\<close>); without them \<open>vmw_cmd_set_shader\<close> does not look at it, and it is a number that the
  client's own context gives meaning to.\<close>

definition id_slots :: "bool \<Rightarrow> vmw_cmd_func \<Rightarrow> cmd_mem \<Rightarrow> nat \<Rightarrow> nat list" where
  "id_slots mob f m p =
     (case f of
        Fcmd_invalid \<Rightarrow> [] | Fcmd_ok \<Rightarrow> []
      | Fcmd_surface_copy_check \<Rightarrow> [p + 8, p + 20]
      | Fcmd_stretch_blt_check \<Rightarrow> [p + 8, p + 20]
      | Fcmd_dma \<Rightarrow> [p + 20]
      | Fcmd_set_render_target_check \<Rightarrow> [p + 8, p + 16]
      | Fcmd_set_shader \<Rightarrow> (p + 8) # (if mob then [p + 16] else [])
      | Fcmd_tex_state \<Rightarrow> (p + 8) # map (\<lambda>c. c + 8)
          (filter (\<lambda>c. rd32 m (c + 4) = SVGA3D_TS_BIND_TEXTURE) (tex_states p (unat (rd32 m (p + 4)))))
      | Fcmd_draw \<Rightarrow> (p + 8) # map (\<lambda>i. p + 36 + 36 * i) [0..<unat (rd32 m (p + 12))] @
          map (\<lambda>i. p + 28 + 36 * unat (rd32 m (p + 12)) + 28 * i) [0..<unat (rd32 m (p + 16))]
      | _ \<Rightarrow> [p + 8])"

lemma for_each_achieves:
  assumes "distinct xs" "\<And>i s. i \<in> set xs \<Longrightarrow> achieves (P i) (f i) s"
    and "\<And>i j s s'. i \<in> set xs \<Longrightarrow> j \<in> set xs \<Longrightarrow> i \<noteq> j \<Longrightarrow> f j s = Some (s', Inr ()) \<Longrightarrow> P i s \<Longrightarrow> P i s'"
    and "i \<in> set xs"
  shows "achieves (P i) (for_each f xs) s"
proof -
  have keep: "P i s'" if "for_each f ys s = Some (s', Inr ())" "P i s" "i \<notin> set ys" "set ys \<subseteq> set xs" for ys s s'
    using that assms(3,4) by (induction ys arbitrary: s) (auto simp: exec_simps)
  have "for_each f ys s = Some (s', Inr ()) \<Longrightarrow> i \<in> set ys \<Longrightarrow> set ys \<subseteq> set xs \<Longrightarrow> distinct ys \<Longrightarrow> P i s'" for ys s'
  proof (induction ys arbitrary: s)
    case (Cons j ys)
    obtain s1 where s1: "f j s = Some (s1, Inr ())" "for_each f ys s1 = Some (s', Inr ())"
      using Cons.prems(1) by (auto simp: exec_simps)
    show ?case
    proof (cases "i = j")
      case True
      then have "P i s1" using achievesD [OF assms(2) s1(1)] Cons.prems by auto
      then show ?thesis using keep [OF s1(2)] Cons.prems True by simp
    qed (use Cons s1 in auto)
  qed simp
  then show ?thesis using assms(1,4) by (auto simp: achieves_def)
qed

lemma tex_one_translates:
  "achieves (\<lambda>s. rd32 (cmds s) (c + 4) = SVGA3D_TS_BIND_TEXTURE \<longrightarrow> translated (c + 8) s) (tex_state_one cn c) s"
proof -
  have "translated (c + 8) s'" if "word_at s (c + 4) = SVGA3D_TS_BIND_TEXTURE" "tex_state_one cn c s = Some (s', Inr x)" for s' x
  proof -
    have "achieves (translated (c + 8)) (tex_state_one cn c) s"
      unfolding tex_state_one_def using that(1)
      by (intro achieves_gets achieves_if achieves_first [OF res_check_translates]) (auto intro!: lv.h_rules)
    then show ?thesis using that(2) by (rule achievesD)
  qed
  moreover have "rd32 (cmds s') (c + 4) = rd32 (cmds s) (c + 4)" if "tex_state_one cn c s = Some (s', Inr x)" for s' x
  proof -
    have "keeps (leaves (c + 4)) (tex_state_one cn c) s" unfolding tex_state_one_def by (intro lv.h_rules) simp
    then show ?thesis using that by (auto dest!: keepsD simp: leaves_def)
  qed
  ultimately show ?thesis by (simp add: achieves_def word_at_def)
qed

lemma tex_state_one_leaves:
  "b = p + 12 + 12 * i \<Longrightarrow> c = p + 12 + 12 * j \<Longrightarrow> i \<noteq> j \<Longrightarrow> keeps (leaves (b + 8)) (tex_state_one cn c) s"
  "b = p + 12 + 12 * i \<Longrightarrow> c = p + 12 + 12 * j \<Longrightarrow> keeps (leaves (b + 4)) (tex_state_one cn c) s"
  "p + 12 \<le> c \<Longrightarrow> keeps (leaves (p + 8)) (tex_state_one cn c) s"
  unfolding tex_state_one_def by (intro lv.h_rules; presburger)+

lemma tex_states_at: "c \<in> set (tex_states p sz) \<Longrightarrow> \<exists>i. c = p + 12 + 12 * i"
  by (auto simp: tex_states_def tex_state_size_def)

lemma tex_states_distinct: "distinct (tex_states p sz)"
  by (auto simp: tex_states_def tex_state_size_def distinct_map inj_on_def)

lemma tex_state_translates:
  assumes "vmw_cmd_tex_state p s = Some (s', Inr ())" "a \<in> set (id_slots mob Fcmd_tex_state (cmds s) p)"
  shows "translated a s'"
proof -
  let ?cs = "tex_states p (unat (hdr_size s p))"
  obtain s1 cn where s1: "vmw_cmd_res_check vmw_res_context (p + 8) s = Some (s1, Inr cn)"
      "for_each (tex_state_one cn) ?cs s1 = Some (s', Inr ())"
    using assms(1) res_check_same
    by (fastforce simp: vmw_cmd_tex_state_def exec_simps hdr_size_def same_batch_def)
  have same: "cmds s1 = cmds s" using res_check_same [OF s1(1)] by (simp add: same_batch_def)
  show ?thesis
  proof (cases "a = p + 8")
    case True
    have "keeps (leaves (p + 8)) (for_each (tex_state_one cn) ?cs) s1"
      by (rule lv.k_for_each, rule tex_state_one_leaves(3)) (auto dest!: tex_states_at)
    then have "leaves (p + 8) s1 s'" using s1(2) by (rule keepsD)
    then show ?thesis using achievesD [OF res_check_translates s1(1)] True by (simp add: leaves_translated)
  next
    case False
    then obtain c where c: "c \<in> set ?cs" "a = c + 8" "rd32 (cmds s) (c + 4) = SVGA3D_TS_BIND_TEXTURE"
      using assms(2) by (auto simp: id_slots_def hdr_size_def)
    let ?P = "\<lambda>c s. rd32 (cmds s) (c + 4) = SVGA3D_TS_BIND_TEXTURE \<longrightarrow> translated (c + 8) s"
    have "achieves (?P c) (for_each (tex_state_one cn) ?cs) s1"
    proof (rule for_each_achieves [where P = ?P, OF tex_states_distinct tex_one_translates])
      fix i j t t' assume ij: "i \<in> set ?cs" "j \<in> set ?cs" "i \<noteq> j" "tex_state_one cn j t = Some (t', Inr ())" "?P i t"
      obtain k l where kl: "i = p + 12 + 12 * k" "j = p + 12 + 12 * l" using ij(1,2) tex_states_at by meson
      then have "leaves (i + 8) t t'" "leaves (i + 4) t t'"
        using keepsD [OF tex_state_one_leaves(1) [OF kl] ij(4)] keepsD [OF tex_state_one_leaves(2) [OF kl] ij(4)] ij(3)
        by auto
      then show "?P i t'" using ij(5) by (auto simp: leaves_def translated_def)
    qed (use c in auto)
    moreover have "rd32 (cmds s') (c + 4) = SVGA3D_TS_BIND_TEXTURE"
    proof -
      obtain k where k: "c = p + 12 + 12 * k" using c(1) tex_states_at by meson
      have "keeps (leaves (c + 4)) (for_each (tex_state_one cn) ?cs) s1"
        by (rule lv.k_for_each) (use tex_states_at in \<open>blast intro: tex_state_one_leaves(2) [OF k]\<close>)
      then show ?thesis using s1(2) c(3) same by (auto simp: leaves_def dest!: keepsD)
    qed
    ultimately show ?thesis using s1(2) c(2) by (auto dest: achievesD)
  qed
qed

lemma check_only_leaves: "b + 4 \<le> a \<or> a + 4 \<le> b \<Longrightarrow> keeps (leaves a) (check_only t b) s"
  by (rule lv.k_check_only)

lemma check_each_translates:
  assumes "distinct xs" "\<And>i j :: nat. i \<in> set xs \<Longrightarrow> j \<in> set xs \<Longrightarrow> i < j \<Longrightarrow> g i + 4 \<le> g j"
    and "i \<in> set xs"
  shows "achieves (translated (g i)) (for_each (\<lambda>i. check_only t (g i)) xs) s"
proof (rule for_each_achieves [where P = "\<lambda>i. translated (g i)", OF assms(1) check_only_translates])
  fix i j s s' assume *: "i \<in> set xs" "j \<in> set xs" "i \<noteq> j" "check_only t (g j) s = Some (s', Inr ())" "translated (g i) s"
  then have "g j + 4 \<le> g i \<or> g i + 4 \<le> g j" using assms(2) by (meson linorder_neqE_nat)
  then have "leaves (g i) s s'" using keepsD [OF check_only_leaves] *(4) by blast
  then show "translated (g i) s'" using *(5) by (rule leaves_translated)
qed (rule assms(3))

lemma check_each_leaves:
  "(\<And>i. i \<in> set xs \<Longrightarrow> a + 4 \<le> g i) \<Longrightarrow> keeps (leaves a) (for_each (\<lambda>i. check_only t (g i)) xs) s"
  by (rule lv.k_for_each) (auto intro!: check_only_leaves)

lemma draw_translates:
  assumes "vmw_cmd_draw p s = Some (s', Inr ())" "a \<in> set (id_slots mob Fcmd_draw (cmds s) p)"
  shows "translated a s'"
proof -
  define nvd nr where "nvd = unat (word_at s (p + 12))" and "nr = unat (word_at s (p + 16))"
  let ?elems = "for_each (\<lambda>i. check_only vmw_res_surface (p + 36 + 36 * i)) [0..<nvd]"
  let ?ranges = "for_each (\<lambda>i. check_only vmw_res_surface (p + 28 + 36 * nvd + 28 * i)) [0..<nr]"
  obtain s1 where s1: "check_only vmw_res_context (p + 8) s = Some (s1, Inr ())" "andthen ?elems ?ranges s1 = Some (s', Inr ())"
  proof -
    obtain s1 where s1: "check_only vmw_res_context (p + 8) s = Some (s1, Inr ())"
      using assms(1) by (auto simp: vmw_cmd_draw_def vmw_cmd_cid_check_def exec_simps)
    have same: "cmds s1 = cmds s" using check_only_same [OF s1] by (simp add: same_batch_def)
    have eq: "p + 20 + 36 * i + 16 = p + 36 + 36 * i" "p + 20 + 36 * n + 28 * i + 8 = p + 28 + 36 * n + 28 * i" for i n
      by simp_all
    show thesis
      by (rule that [OF s1]) (use assms(1) s1 in \<open>auto simp only: vmw_cmd_draw_def vmw_cmd_cid_check_def exec_simps
          Let_def word_at_def same eq nvd_def nr_def split: if_splits\<close>)
  qed
  have 1: "keeps (leaves (p + 8)) (andthen ?elems ?ranges) s1" by (intro lv.k_andthen check_each_leaves) auto
  have 2: "achieves (translated (p + 36 + 36 * i)) (andthen ?elems ?ranges) s1" if "i < nvd" for i
    by (intro achieves_andthen1 check_each_leaves check_each_translates) (use that in auto)
  have 3: "achieves (translated (p + 28 + 36 * nvd + 28 * i)) (andthen ?elems ?ranges) s1" if "i < nr" for i
    by (intro achieves_andthen2 check_each_translates) (use that in auto)
  have first: "translated (p + 8) s'"
    using achievesD [OF check_only_translates s1(1)] keepsD [OF 1 s1(2)] by (rule leaves_translated [rotated])
  show ?thesis
    using assms(2) first achievesD [OF 2 s1(2)] achievesD [OF 3 s1(2)]
    by (auto simp: id_slots_def nvd_def nr_def word_at_def)
qed

text \<open>Every handler translates all ids of its command.\<close>

lemma achieves_cleanup:
  "achieves (translated a) m s \<Longrightarrow> achieves (translated a) (cleanup (add_ref x d) m) s"
  by (auto simp: achieves_def cleanup_Some translated_def add_ref_def)

lemmas translate_rules = achieves_gets achieves_if achieves_fail achieves_first [OF res_check_translates]
  achieves_andthen1 [OF check_only_translates] check_only_translates

text \<open>The shader of a command that sets one: the one found in the context, or else the client's.\<close>

lemma shader_node_translates:
  assumes "compat_shader_node c shid ty a s = Some (s', Inr (Some n))"
  shows "translated a s'"
  using assms
  by (auto simp: compat_shader_node_def exec_simps translated_def put_man_def split: option.splits
           dest!: reloc_add_translates)

lemma set_shader_translates:
  assumes "vmw_cmd_set_shader p s = Some (s', Inr ())" "a \<in> set (id_slots (has_mob s) Fcmd_set_shader (cmds s) p)"
  shows "translated a s'"
proof (cases "a = p + 8")
  case True
  have "achieves (translated (p + 8)) (vmw_cmd_set_shader p) s"
    unfolding vmw_cmd_set_shader_def
  proof (rule achieves_first [OF res_check_translates])
    fix s1 cn
    have "keeps (leaves (p + 8)) (with_node_res cn (\<lambda>c. compat_shader_node c (word_at s1 (p + 16)) (word_at s1 (p + 12)) (p + 16))) s1"
      unfolding with_node_res_def by (intro lv.k_option lv.k_crash lv.k_gets lv.k_shader_node) simp_all
    then show "keeps (leaves (p + 8)) (gets (\<lambda>s. if \<not> has_mob s then ok ()
          else
            (let shid = word_at s (p + 16); ty = word_at s (p + 12) in
             chain (if shid = SVGA3D_INVALID_ID then ok None
                    else with_node_res cn (\<lambda>c. compat_shader_node c shid ty (p + 16)))
               (\<lambda>rn. chain (if rn = None then vmw_cmd_res_check vmw_res_shader (p + 16) else ok rn)
                 (\<lambda>rn. stage_binding cn rn vmw_ctx_binding_shader ty))))) s1"
      unfolding Let_def
      by (intro lv.k_gets lv.k_if lv.k_chain lv.k_ok lv.k_res_check lv.k_stage_binding) simp_all
  qed
  then show ?thesis using assms(1) True by (auto dest: achievesD)
next
  case False
  then have a: "a = p + 16" and mob: "has_mob s" using assms(2) by (auto simp: id_slots_def split: if_splits)
  obtain s1 cn where s1: "vmw_cmd_res_check vmw_res_context (p + 8) s = Some (s1, Inr cn)"
    using assms(1) by (auto simp: vmw_cmd_set_shader_def exec_simps)
  have mob1: "has_mob s1" using res_check_same [OF s1] mob by (simp add: same_batch_def same_world_def)
  let ?look = "if word_at s1 (p + 16) = SVGA3D_INVALID_ID then ok None
      else with_node_res cn (\<lambda>c. compat_shader_node c (word_at s1 (p + 16)) (word_at s1 (p + 12)) (p + 16))"
  obtain s2 rn s3 rn' where s2: "?look s1 = Some (s2, Inr rn)"
    and s3: "(if rn = None then vmw_cmd_res_check vmw_res_shader (p + 16) else ok rn) s2 = Some (s3, Inr rn')"
    and s4: "stage_binding cn rn' vmw_ctx_binding_shader (word_at s1 (p + 12)) s3 = Some (s', Inr ())"
    using assms(1) s1 mob1 by (auto simp only: vmw_cmd_set_shader_def exec_simps Let_def simp_thms if_False
        prod.inject option.inject sum.inject)
  have "translated a s3"
  proof (cases rn)
    case None
    with s3 show ?thesis using achievesD [OF res_check_translates] a by auto
  next
    case (Some n)
    then have "translated a s2"
      using s2 a shader_node_translates
      by (auto simp: with_node_res_def run_simps split: if_splits option.splits)
    with s3 Some show ?thesis by (simp add: run_simps)
  qed
  moreover have "leaves a s3 s'" using s4 keepsD [OF lv.k_stage_binding] by blast
  ultimately show ?thesis by (rule leaves_translated [rotated])
qed

lemma run_func_translates:
  assumes "run_func f p s = Some (s', Inr ())" "a \<in> set (id_slots (has_mob s) f (cmds s) p)"
  shows "translated a s'"
proof -
  have "achieves (translated a) (run_func f p) s" if "f \<notin> {Fcmd_tex_state, Fcmd_draw, Fcmd_set_shader}"
    by (insert that assms(2); cases f; simp add: id_slots_def;
      (unfold Let_def vmw_cmd_invalid_def vmw_cmd_ok_def
      vmw_cmd_cid_check_def vmw_cmd_set_render_target_check_def vmw_cmd_surface_copy_check_def
      vmw_cmd_stretch_blt_check_def vmw_cmd_blt_surf_screen_check_def vmw_cmd_present_check_def
      vmw_cmd_update_gb_image_def vmw_cmd_update_gb_surface_def vmw_cmd_readback_gb_image_def
      vmw_cmd_readback_gb_surface_def vmw_cmd_invalidate_gb_image_def vmw_cmd_invalidate_gb_surface_def
      vmw_cmd_begin_gb_query_def vmw_cmd_begin_query_def vmw_cmd_end_gb_query_def vmw_cmd_end_query_def
      vmw_cmd_wait_gb_query_def vmw_cmd_wait_query_def vmw_cmd_bind_gb_surface_def vmw_cmd_bind_gb_shader_def
      vmw_cmd_switch_backup_def vmw_cmd_shader_define_def vmw_cmd_shader_destroy_def
      vmw_cmd_set_shader_const_def vmw_cmd_dma_def dma_checked_def snoop_surface_def)?;
      (elim disjE)?; (simp only:)?;
      ((rule translate_rules | rule achieves_andthen2 achieves_rest achieves_cleanup)+)?;
      ((rule translate_rules | rule achieves_andthen2 achieves_rest achieves_cleanup)+)?;
      (intro lv.h_rules lv.r_backup lv.k_switch_prepare lv.r_ref)?; simp?)
  then show ?thesis
    using assms tex_state_translates draw_translates set_shader_translates
    by (cases "f \<in> {Fcmd_tex_state, Fcmd_draw, Fcmd_set_shader}") (auto dest: achievesD)
qed

text \<open>They lie in the command, behind its header.\<close>

lemma draw_sizes:
  assumes "12 \<le> unat sz" "\<not> draw_maxnum sz 12 36 < nvd" "\<not> draw_maxnum sz (12 + ucast nvd * 36) 28 < nr"
  shows "36 * unat nvd + 28 * unat nr + 12 \<le> unat sz"
proof -
  have r1: "unat nvd * 36 + 12 \<le> unat sz" using draw_room [OF _ assms(2)] assms(1) by simp
  then have "unat nvd * 36 < 4294967288" using unat_lt32 [of sz] by linarith
  then have u: "unat (12 + ucast nvd * 36 :: u64) = 12 + unat nvd * 36" by (simp add: unat_word_ariths)
  have "unat nr * 28 + (12 + unat nvd * 36) \<le> unat sz" using draw_room [OF _ assms(3)] r1 by (simp add: u)
  then show ?thesis by simp
qed

lemma draw_success:
  assumes "vmw_cmd_draw p s = Some (s', Inr ())"
  shows "\<not> draw_maxnum (hdr_size s p) 12 36 < word_at s (p + 12)"
    "\<not> draw_maxnum (hdr_size s p) (12 + ucast (word_at s (p + 12)) * 36) 28 < word_at s (p + 16)"
  using assms
  by (auto simp: vmw_cmd_draw_def vmw_cmd_cid_check_def exec_simps Let_def word_at_def hdr_size_def same_batch_def
           dest!: check_only_same split: if_splits)

lemma array_at:
  assumes "i < (n :: nat)"
  shows "k * i + k \<le> k * n"
proof -
  have "Suc i \<le> n" using assms by simp
  then have "k * Suc i \<le> k * n" by (rule mult_le_mono2)
  then show ?thesis by simp
qed

lemma slots_in_range:
  assumes "run_func f p s = Some (s', Inr ())" "fits f (cmds s) p hi" "a \<in> set (id_slots mob f (cmds s) p)"
  shows "p + 8 \<le> a \<and> a + 4 \<le> hi \<and> 4 dvd a - p \<and> (f = Fcmd_set_shader \<longrightarrow> a = p + 8 \<or> a = p + 16)"
proof (cases f)
  case Fcmd_draw
  let ?nvd = "unat (rd32 (cmds s) (p + 12))" and ?nr = "unat (rd32 (cmds s) (p + 16))"
  have f: "p + 8 + unat (hdr_size s p) \<le> hi" "12 \<le> unat (hdr_size s p)"
    using fits_size [OF assms(2)] Fcmd_draw by (auto simp: touched_def)
  have "36 * ?nvd + 28 * ?nr + 12 \<le> unat (hdr_size s p)"
    using draw_success [of p s s'] draw_sizes f(2) assms(1) Fcmd_draw by (simp add: word_at_def)
  then have room: "p + 20 + 36 * ?nvd + 28 * ?nr \<le> hi" using f(1) by simp
  consider "a = p + 8" | i where "a = p + 36 + 36 * i" "i < ?nvd" | i where "a = p + 28 + 36 * ?nvd + 28 * i" "i < ?nr"
    using assms(3) Fcmd_draw by (auto simp: id_slots_def)
  then show ?thesis
  proof cases
    case (2 i)
    have "a - p = 4 * (9 + 9 * i)" using 2(1) by simp
    then have "4 dvd a - p" by (metis dvd_triv_left)
    then show ?thesis using 2 array_at [OF 2(2), of 36] room Fcmd_draw by simp
  next
    case (3 i)
    have "a - p = 4 * (7 + 9 * ?nvd + 7 * i)" using 3(1) by simp
    then have "4 dvd a - p" by (metis dvd_triv_left)
    then show ?thesis using 3 array_at [OF 3(2), of 28] room Fcmd_draw by simp
  qed (use f Fcmd_draw in auto)
next
  case Fcmd_tex_state
  have f: "p + 8 + unat (hdr_size s p) \<le> hi" "4 \<le> unat (hdr_size s p)" "12 dvd unat (hdr_size s p) - 4"
    using assms(2) Fcmd_tex_state by (auto simp: fits_def touched_def hdr_size_def Let_def)
  consider "a = p + 8" | c where "c \<in> set (tex_states p (unat (hdr_size s p)))" "a = c + 8"
    using assms(3) Fcmd_tex_state by (auto simp: id_slots_def hdr_size_def)
  then show ?thesis
    by cases (use f tex_states_bound [OF _ f(2,3)] Fcmd_tex_state in fastforce)+
qed (use assms(3) fits_size [OF assms(2)] in \<open>auto simp: id_slots_def touched_def split: if_splits\<close>)

section \<open>Batches of whole commands\<close>

inductive well_sized :: "cmd_mem \<Rightarrow> nat \<Rightarrow> nat \<Rightarrow> nat list \<Rightarrow> bool" for m hi where
  no_command: "well_sized m hi hi []"
| one_command: "cmd_entry (rd32 m p) = Some en \<Longrightarrow> fits (func en) m p (p + 8 + unat (rd32 m (p + 4))) \<Longrightarrow>
    well_sized m hi (p + 8 + unat (rd32 m (p + 4))) ps \<Longrightarrow> well_sized m hi p (p # ps)"

definition slots_of :: "bool \<Rightarrow> cmd_mem \<Rightarrow> nat \<Rightarrow> nat list" where
  "slots_of mob m p = (case cmd_entry (rd32 m p) of Some en \<Rightarrow> id_slots mob (func en) m p | None \<Rightarrow> [])"

lemma well_sized_le: "well_sized m hi p ps \<Longrightarrow> p \<le> hi"
  by (induction rule: well_sized.induct) auto

lemma well_sized_from: "well_sized m hi p ps \<Longrightarrow> q \<in> set ps \<Longrightarrow> p \<le> q"
  by (induction rule: well_sized.induct) auto

text \<open>One command: what it does to the state, and that its ids are translated.\<close>

definition free_at :: "vmw_sw_context \<Rightarrow> vmw_cmd_func \<Rightarrow> nat \<Rightarrow> nat \<Rightarrow> nat option \<Rightarrow> bool" where
  "free_at s f p a z \<longleftrightarrow> a = p \<and> z = None \<or>
     f = Fcmd_set_shader \<and> a = p + 16 \<and> (\<exists>c r. z = Some r \<and> accessible s c \<and>
       compat_shader_at s c (word_at s (p + 16)) (word_at s (p + 12)) r)"

text \<open>The context of a command is one of the client's.\<close>

lemma res_check_node:
  assumes "vmw_cmd_res_check t a s = Some (s1, Inr (Some n))"
  shows "rc_node (res_cache s1 t) = Some n"
  using assms
  by (auto simp: vmw_cmd_res_check_def res_check_slow_def vmw_resource_relocation_add_def alloc_def exec_simps Let_def
        upd_val_def add_ref_def set_cache_def split: if_splits option.splits)

lemma ctx_accessible:
  assumes "cache_ok s" "ctx_of s p c" "4 dvd p"
  shows "accessible s c"
proof -
  obtain s1 n where s1: "vmw_cmd_res_check vmw_res_context (p + 8) s = Some (s1, Inr (Some n))" "c = vn_res (val_node s1 n)"
    using assms(2) by (auto simp: ctx_of_def)
  have "within 0 (p + 12) (\<lambda>_ _. True) s s1"
    by (rule keepsD [OF frame.k_res_check s1(1)]) (use assms(3) in simp)
  then have "cache_ok s1" "same_client s s1" using assms(1) by (simp_all add: within_def)
  with res_check_node [OF s1(1)] s1(2) show ?thesis by (auto simp: cache_ok_def same_client_accessible)
qed

lemma same_from: "(\<And>a. p \<le> a \<Longrightarrow> m a = m' a) \<Longrightarrow> p \<le> a \<Longrightarrow> rd32 m a = rd32 m' a"
  by (rule rd32_cong) auto

lemma fits_from: "(\<And>a. p \<le> a \<Longrightarrow> m a = m' a) \<Longrightarrow> fits f m p hi = fits f m' p hi"
  using same_from [of p m m' "p + 4"] by (simp add: fits_def)

lemma slots_from:
  assumes "\<And>a. p \<le> a \<Longrightarrow> m a = m' a"
  shows "id_slots mob f m p = id_slots mob f m' p"
proof -
  note rd = same_from [of p m m', OF assms]
  have "filter (\<lambda>c. rd32 m (c + 4) = v) (tex_states p sz) = filter (\<lambda>c. rd32 m' (c + 4) = v) (tex_states p sz)" for v sz
    by (rule filter_cong) (auto dest!: tex_states_at simp: rd)
  then show ?thesis by (simp add: id_slots_def rd split: vmw_cmd_func.split)
qed

lemma one_command_effect:
  assumes "vmw_cmd_check p cur s = Some (s1, Inr sz)" "\<not> kernel s" "cmd_entry (rd32 (cmds s) p) = Some en"
    and "fits (func en) (cmds s) p hi" "hi = p + 8 + unat (hdr_size s p)" "4 dvd p" "cache_ok s"
  shows "within p hi (free_at s (func en) p) s s1" "4 dvd hi"
    and "a \<in> set (id_slots (has_mob s) (func en) (cmds s) p) \<Longrightarrow>
      p + 8 \<le> a \<and> a + 4 \<le> hi \<and> 4 dvd a \<and> translated a s1"
proof -
  obtain en' where en': "cmd_entry (word_at s p) = Some en'" and "run_func (func en') p s = Some (s1, Inr ())"
    by (rule check_allowed [OF assms(1,2)])
  then have run: "run_func (func en) p s = Some (s1, Inr ())" using assms(3) by (simp add: word_at_def)
  have "4 dvd unat (hdr_size s p)" using fits_size [OF assms(4)] by simp
  then show "4 dvd hi" using assms(5,6) by simp
  have "4 dvd a" if "p \<le> a" "4 dvd a - p" for a using that assms(6) by (metis dvd_add le_add_diff_inverse)
  then have "covers (\<lambda>a n. p \<le> a \<and> a + n \<le> hi \<and> 4 dvd a) (free_at s (func en) p) (func en) s p"
    using assms(4) ctx_accessible [OF assms(7) _ assms(6)] unfolding covers_def free_at_def by blast
  from frame.run_func_keeps [OF this] show "within p hi (free_at s (func en) p) s s1" using run by (rule keepsD)
  show "p + 8 \<le> a \<and> a + 4 \<le> hi \<and> 4 dvd a \<and> translated a s1"
    if "a \<in> set (id_slots (has_mob s) (func en) (cmds s) p)"
  proof -
    note r = slots_in_range [OF run assms(4) that]
    then have "4 dvd a" using assms(6) by (metis add_leE dvd_add le_add_diff_inverse)
    with r run_func_translates [OF run that] show ?thesis by simp
  qed
qed

text \<open>A shader of the command stream: the command at \<open>q\<close> sets a shader, and when the verifier came to it the
  manager of a context of the client had \<open>r\<close> under the id and the type that the client wrote.\<close>

definition stream_shader :: "cmd_mem \<Rightarrow> vmw_sw_context \<Rightarrow> nat \<Rightarrow> u32 \<Rightarrow> nat \<Rightarrow> nat \<Rightarrow> nat \<Rightarrow> bool" where
  "stream_shader m s p cur q a r \<longleftrightarrow>
     (\<exists>en s1 cur1 c. cmd_entry (rd32 m q) = Some en \<and> func en = Fcmd_set_shader \<and> a = q + 16 \<and>
        reaches s p cur s1 q cur1 \<and> accessible s c \<and> compat_shader_at s1 c (rd32 m (q + 16)) (rd32 m (q + 12)) r)"

lemma stream_shader_later:
  assumes "stream_shader m s1 (p + unat sz) (cur - sz) q a r" "0 < sint cur" "vmw_cmd_check p cur s = Some (s1, Inr sz)"
    and "accessible s1 = accessible s"
  shows "stream_shader m s p cur q a r"
  using assms(1,4) further [OF assms(2,3)] unfolding stream_shader_def by metis

text \<open>The id at \<open>a\<close> is translated, and only to resources of the client and shaders of its contexts.\<close>

definition slot_ok :: "(nat \<Rightarrow> bool) \<Rightarrow> (nat \<times> nat option) list \<Rightarrow> nat \<Rightarrow> vmw_sw_context \<Rightarrow> bool" where
  "slot_ok good new a s' \<longleftrightarrow> 4 dvd a \<and> translated a s' \<and>
     (\<forall>z. (word_index a, z) \<in> set new \<longrightarrow> (\<exists>r. z = Some r \<and> good r))"

definition good_id :: "cmd_mem \<Rightarrow> vmw_sw_context \<Rightarrow> nat \<Rightarrow> u32 \<Rightarrow> nat \<Rightarrow> nat \<Rightarrow> nat \<Rightarrow> bool" where
  "good_id m s p cur q a r \<longleftrightarrow> accessible s r \<or> stream_shader m s p cur q a r"

lemma word_index_inj: "4 dvd a \<Longrightarrow> 4 dvd b \<Longrightarrow> word_index a = word_index b \<Longrightarrow> a = b"
  by (auto simp: word_index_def elim!: dvdE)

lemma good_reloc_at:
  assumes "good_reloc s lo hi free (word_index a, z)" "4 dvd a"
  shows "lo \<le> a \<and> a + 4 \<le> hi \<and> (free a z \<or> (\<exists>r. z = Some r \<and> accessible s r))"
proof -
  obtain b where b: "word_index a = word_index b" "4 dvd b" "lo \<le> b" "b + 4 \<le> hi"
      "free b z \<or> (\<exists>r. z = Some r \<and> accessible s r)"
    using assms(1) by (auto simp: good_reloc_def)
  with word_index_inj [OF assms(2) b(2,1)] show ?thesis by simp
qed

definition batch_ok :: "cmd_mem \<Rightarrow> nat \<Rightarrow> u32 \<Rightarrow> nat list \<Rightarrow> vmw_sw_context \<Rightarrow> vmw_sw_context \<Rightarrow> bool" where
  "batch_ok m p cur ps s s' \<longleftrightarrow> (\<forall>a < p. cmds s' a = cmds s a) \<and>
     (\<exists>new. res_relocations s' = res_relocations s @ new \<and>
        (\<forall>a z. 4 dvd a \<and> (word_index a, z) \<in> set new \<longrightarrow> p \<le> a) \<and>
        (\<forall>q \<in> set ps. \<forall>a \<in> set (slots_of (has_mob s) m q). p \<le> a \<and> slot_ok (good_id m s p cur q a) new a s'))"

lemma batch_ok_step:
  assumes w: "within p hi free s s1" and ok: "cache_ok s"
    and slots: "\<And>a. a \<in> set (slots_of (has_mob s) m p) \<Longrightarrow> p \<le> a \<and> a + 4 \<le> hi \<and> 4 dvd a \<and> translated a s1"
    and shader: "\<And>a z. a \<in> set (slots_of (has_mob s) m p) \<Longrightarrow> free a z \<Longrightarrow> \<exists>r. z = Some r \<and> stream_shader m s p cur p a r"
    and c: "0 < sint cur" "vmw_cmd_check p cur s = Some (s1, Inr sz)" "hi = p + unat sz"
    and rest: "batch_ok m hi (cur - sz) ps s1 s'"
  shows "batch_ok m p cur (p # ps) s s'"
proof -
  have le: "p \<le> hi" using c(3) by simp
  have client: "same_client s s1" using w by (simp add: within_def)
  have acc: "accessible s1 = accessible s" by (rule same_client_accessible [OF client])
  have mob: "has_mob s1 = has_mob s" using client by (simp add: same_client_def)
  obtain n1 where n1: "res_relocations s1 = res_relocations s @ n1" "list_all (good_reloc s p hi free) n1"
    using w ok by (auto simp: within_def)
  obtain n2 where n2: "res_relocations s' = res_relocations s1 @ n2"
      "\<forall>a z. 4 dvd a \<and> (word_index a, z) \<in> set n2 \<longrightarrow> hi \<le> a"
      "\<forall>q \<in> set ps. \<forall>a \<in> set (slots_of (has_mob s1) m q). hi \<le> a \<and> slot_ok (good_id m s1 hi (cur - sz) q a) n2 a s'"
    using rest unfolding batch_ok_def by (elim conjE exE)
  have g1: "p \<le> a \<and> a + 4 \<le> hi \<and> (free a z \<or> (\<exists>r. z = Some r \<and> accessible s r))"
    if "4 dvd a" "(word_index a, z) \<in> set n1" for a z
  proof (rule good_reloc_at [OF _ that(1)])
    show "good_reloc s p hi free (word_index a, z)" using n1(2) that(2) unfolding list_all_iff by blast
  qed
  have mine: "p \<le> a \<and> slot_ok (good_id m s p cur p a) (n1 @ n2) a s'" if "a \<in> set (slots_of (has_mob s) m p)" for a
  proof -
    note a = slots [OF that]
    have "rd32 (cmds s') a = rd32 (cmds s1) a"
      using rest a by (intro rd32_cong) (auto simp: batch_ok_def)
    then have "translated a s'" using a n2(1) by (auto simp: translated_def)
    moreover have "(word_index a, z) \<notin> set n2" for z using n2(2) [rule_format, of a z] a by auto
    moreover have "\<exists>r. z = Some r \<and> good_id m s p cur p a r" if z: "(word_index a, z) \<in> set n1" for z
      using g1 [OF _ z] a shader [OF \<open>a \<in> set (slots_of (has_mob s) m p)\<close>, of z] by (auto simp: good_id_def)
    ultimately show ?thesis using a by (auto simp: slot_ok_def)
  qed
  have others: "p \<le> a \<and> slot_ok (good_id m s p cur q a) (n1 @ n2) a s'"
    if "q \<in> set ps" "a \<in> set (slots_of (has_mob s) m q)" for q a
  proof -
    have a: "hi \<le> a" "slot_ok (good_id m s1 hi (cur - sz) q a) n2 a s'" using n2(3) that mob by auto
    then have "(word_index a, z) \<notin> set n1" for z using g1 [of a z] by (auto simp: slot_ok_def)
    moreover have "good_id m s1 hi (cur - sz) q a r \<Longrightarrow> good_id m s p cur q a r" for r
      using stream_shader_later [OF _ c(1,2) acc] c(3) acc by (auto simp: good_id_def)
    ultimately show ?thesis using a le by (auto simp: slot_ok_def)
  qed
  have "\<forall>a z. 4 dvd a \<and> (word_index a, z) \<in> set (n1 @ n2) \<longrightarrow> p \<le> a"
    using g1 n2(2) le by fastforce
  moreover have "\<forall>a < p. cmds s' a = cmds s a" using rest w le by (simp add: batch_ok_def within_def)
  moreover have "res_relocations s' = res_relocations s @ n1 @ n2" using n1(1) n2(1) by simp
  moreover have "p \<le> a \<and> slot_ok (good_id m s p cur q a) (n1 @ n2) a s'"
    if "q \<in> set (p # ps)" "a \<in> set (slots_of (has_mob s) m q)" for q a
    using that mine others by (cases "q = p") simp_all
  ultimately show ?thesis unfolding batch_ok_def by blast
qed

lemma batch_ids:
  assumes "well_sized m hi p ps" "\<And>a. p \<le> a \<Longrightarrow> cmds s a = m a" "4 dvd p" "unat cur = hi - p" "\<not> kernel s"
    "cache_ok s" "accepts s p cur cs s'"
  shows "batch_ok m p cur ps s s'"
  using assms
proof (induction arbitrary: s cur cs rule: well_sized.induct)
  case no_command
  then have "cur = 0" by (simp add: unat_eq_zero)
  with no_command(6) have "s' = s" by (auto elim: accepts.cases)
  then show ?case by (simp add: batch_ok_def)
next
  case (one_command p en ps)
  let ?hi = "p + 8 + unat (hdr_size s p)"
  note mem = one_command(5)
  have rd: "rd32 (cmds s) b = rd32 m b" if "p \<le> b" for b by (rule same_from [of p]) (use mem that in auto)
  have size: "unat (hdr_size s p) = unat (rd32 m (p + 4))" using rd by (simp add: hdr_size_def)
  have le: "?hi \<le> hi" using well_sized_le [OF one_command(3)] size by simp
  then have "cur \<noteq> 0" using one_command(7) by auto
  then obtain s1 sz cs1 where c: "vmw_cmd_check p cur s = Some (s1, Inr sz)" "accepts s1 (p + unat sz) (cur - sz) cs1 s'"
      "0 < sint cur"
    using one_command(10) by (auto elim: accepts.cases)
  have e: "cmd_entry (rd32 (cmds s) p) = Some en" "fits (func en) (cmds s) p ?hi"
    using one_command(1,2) rd fits_from [of p "cmds s" m] mem size by simp_all
  note eff = one_command_effect [OF c(1) one_command(8) e refl one_command(6,9)]
  have sz: "sz = hdr_size s p + 8" by (rule check_allowed [OF c(1) one_command(8)])
  have "unat (hdr_size s p) + 8 < 4294967296" using le one_command(7) unat_lt32 [of cur] by linarith
  then have usz: "unat sz = 8 + unat (hdr_size s p)" unfolding sz by (subst unat_add_nowrap) auto
  have w: "same_client s s1" "\<And>a. ?hi \<le> a \<Longrightarrow> cmds s1 a = cmds s a" "cache_ok s1"
    using eff(1) one_command(9) by (auto simp: within_def)
  have "batch_ok m ?hi (cur - sz) ps s1 s'"
  proof -
    have ih: "batch_ok m (p + 8 + unat (rd32 m (p + 4))) (cur - sz) ps s1 s'"
    proof (rule one_command(4))
      show "cmds s1 a = m a" if "p + 8 + unat (rd32 m (p + 4)) \<le> a" for a using w(2) mem that size by simp
      show "4 dvd p + 8 + unat (rd32 m (p + 4))" using eff(2) size by simp
      show "unat (cur - sz) = hi - (p + 8 + unat (rd32 m (p + 4)))"
        using usz size le one_command(7) by (simp add: word_nat)
      show "\<not> kernel s1" using w(1) one_command(8) by (simp add: same_client_def)
      show "accepts s1 (p + 8 + unat (rd32 m (p + 4))) (cur - sz) cs1 s'" using c(2) usz size by (simp add: add.assoc)
    qed (rule w(3))
    then show ?thesis using size by simp
  qed
  moreover have slots: "slots_of (has_mob s) m p = id_slots (has_mob s) (func en) (cmds s) p"
    using one_command(1) slots_from [of p "cmds s" m] mem by (simp add: slots_of_def)
  moreover have "\<exists>r. z = Some r \<and> stream_shader m s p cur p a r"
    if slot: "a \<in> set (id_slots (has_mob s) (func en) (cmds s) p)" and fr: "free_at s (func en) p a z" for a z
  proof -
    have "a \<noteq> p" using eff(3) [OF slot] by auto
    then obtain cx r where r: "func en = Fcmd_set_shader" "a = p + 16" "z = Some r" "accessible s cx"
        "compat_shader_at s cx (word_at s (p + 16)) (word_at s (p + 12)) r"
      using fr by (auto simp: free_at_def)
    then have "compat_shader_at s cx (rd32 m (p + 16)) (rd32 m (p + 12)) r" using rd by (simp add: word_at_def)
    then show ?thesis using r one_command(1) reaches.start unfolding stream_shader_def by blast
  qed
  moreover have "p \<le> a \<and> a + 4 \<le> ?hi \<and> 4 dvd a \<and> translated a s1"
    if "a \<in> set (id_slots (has_mob s) (func en) (cmds s) p)" for a
    using eff(3) [OF that] by simp
  ultimately show ?case using usz
    by (intro batch_ok_step [OF eff(1) one_command(9) _ _ c(3,1)]) simp_all
qed

section \<open>What reaches the device\<close>

lemma relocations_apply_at:
  assumes "4 dvd a"
  shows "(\<forall>z. (word_index a, z) \<notin> set rs) \<Longrightarrow> rd32 (vmw_resource_relocations_apply ids rs cb) a = rd32 cb a"
    and "(word_index a, z) \<in> set rs \<Longrightarrow> \<exists>z. (word_index a, z) \<in> set rs \<and>
      rd32 (vmw_resource_relocations_apply ids rs cb) a = (case z of Some r \<Rightarrow> ids r | None \<Rightarrow> SVGA_3D_CMD_NOP)"
proof -
  have other: "rd32 (wr32 (4 * off) v m) a = rd32 m a" if "off \<noteq> word_index a" for off v m
    using that assms by (intro rd32_wr32_other) (auto simp: word_index_def elim!: dvdE)
  have same: "4 * word_index a = a" using assms by (simp add: word_index_def)
  have none: "(\<forall>z. (word_index a, z) \<notin> set rs) \<Longrightarrow> rd32 (vmw_resource_relocations_apply ids rs cb) a = rd32 cb a"
    for rs cb
    by (induction ids rs cb rule: vmw_resource_relocations_apply.induct) (auto simp: other)
  then show "(\<forall>z. (word_index a, z) \<notin> set rs) \<Longrightarrow> rd32 (vmw_resource_relocations_apply ids rs cb) a = rd32 cb a" .
  show "(word_index a, z) \<in> set rs \<Longrightarrow> \<exists>z. (word_index a, z) \<in> set rs \<and>
      rd32 (vmw_resource_relocations_apply ids rs cb) a = (case z of Some r \<Rightarrow> ids r | None \<Rightarrow> SVGA_3D_CMD_NOP)"
  proof (induction rs arbitrary: cb z)
    case (Cons e rs)
    obtain off x where e: "e = (off, x)" by fastforce
    show ?case
    proof (cases "\<exists>z. (word_index a, z) \<in> set rs")
      case True
      then show ?thesis using Cons.IH e by fastforce
    next
      case False
      then have "off = word_index a" "x = z" using Cons.prems e by auto
      then show ?thesis using none [of rs] False e by (auto simp: same)
    qed
  qed simp
qed

text \<open>C26: in a batch that the verifier accepts from a client, if its commands are whole numbers of
  words and long enough for their handlers (\<open>well_sized\<close>, which the verifier does not check), every
  resource id (\<open>slots_of\<close>) is the invalid id or is replaced, before the device sees it, by the device's
  id of a resource that one of the client's handles names, or, for the shader in a command that sets one,
  of a shader that the client's command stream registered in the context: when the verifier came to the
  command, the manager of a context of the client had it under the id that the client wrote.  So no id of
  the client's choosing and no resource of another client reaches the device.  The software context is
  as at the start of a batch: no relocations, an empty table and an empty cache.  Without memory objects
  the shader id of such a command is not a resource id and is passed on as it is.\<close>

theorem vmw_batch_ids_accessible:
  assumes "vmw_cmd_check_all fuel sz s = Some (Some (s', Inr ()))" "\<not> kernel s"
    and "well_sized (cmds s) (unat sz) 0 ps"
    and "res_relocations s = []" "res_ht s = []" "\<forall>t. \<not> rc_valid (res_cache s t) \<and> rc_node (res_cache s t) = None"
    and "q \<in> set ps" "a \<in> set (slots_of (has_mob s) (cmds s) q)"
  shows "rd32 (vmw_resource_relocations_apply ids (res_relocations s') (cmds s')) a = SVGA3D_INVALID_ID \<or>
    (\<exists>r. ((\<exists>t h. resolve s t h = Some r) \<or> stream_shader (cmds s) s 0 sz q a r) \<and>
       rd32 (vmw_resource_relocations_apply ids (res_relocations s') (cmds s')) a = ids r)"
proof -
  obtain cs where "accepts s 0 sz cs s'"
    using accepted assms(1) unfolding vmw_cmd_check_all_def by blast
  then have "batch_ok (cmds s) 0 sz ps s s'"
    using assms(2,5,6) by (intro batch_ids [OF assms(3)]) (simp_all add: cache_ok_def)
  then have ok: "slot_ok (good_id (cmds s) s 0 sz q a) (res_relocations s') a s'"
    using assms(4,7,8) by (auto simp: batch_ok_def)
  then have a: "4 dvd a" by (simp add: slot_ok_def)
  show ?thesis
  proof (cases "\<exists>z. (word_index a, z) \<in> set (res_relocations s')")
    case True
    then show ?thesis
      using relocations_apply_at(2) [OF a] ok unfolding slot_ok_def good_id_def accessible_def by (metis option.case(2))
  next
    case False
    then show ?thesis
      using relocations_apply_at(1) [OF a] ok by (auto simp: slot_ok_def translated_def)
  qed
qed

lemma example_batch_sized: "well_sized example_batch 60 0 [0, 40]"
proof -
  have w: "rd32 example_batch 0 = 1042" "rd32 example_batch 4 = 32" "rd32 example_batch 40 = 1057"
      "rd32 example_batch 44 = 12" by code_simp+
  have e: "map_option func (cmd_entry 1042) = Some Fcmd_surface_copy_check" "map_option func (cmd_entry 1057) = Some Fcmd_cid_check"
    by code_simp+
  obtain e1 e2 where e12: "cmd_entry 1042 = Some e1" "func e1 = Fcmd_surface_copy_check"
      "cmd_entry 1057 = Some e2" "func e2 = Fcmd_cid_check"
    using e by auto
  have "well_sized example_batch 60 40 [40]"
    using one_command [of example_batch 40 e2 60 "[]"] w e12 no_command [of example_batch 60]
    by (simp add: fits_def touched_def)
  then show ?thesis
    using one_command [of example_batch 0 e1 60 "[40]"] w e12 by (simp add: fits_def touched_def)
qed

theorem vmw_batch_ids_accessible_witness:
  "\<exists>s'. vmw_cmd_check_all 3 60 (example_sw example_batch) = Some (Some (s', Inr ())) \<and>
     (let id = rd32 (vmw_resource_relocations_apply (\<lambda>r. of_nat r + 40) (res_relocations s') (cmds s')) 48 in
      id = SVGA3D_INVALID_ID \<or> (\<exists>t h r. resolve (example_sw example_batch) t h = Some r \<and> id = of_nat r + 40))"
proof -
  obtain s' where run: "vmw_cmd_check_all 3 60 (example_sw example_batch) = Some (Some (s', Inr ()))"
    using passesD [OF example_batch_runs] by blast
  let ?s = "example_sw example_batch" and ?ids = "\<lambda>r. of_nat r + 40 :: u32"
  have pre: "\<not> kernel ?s" "well_sized (cmds ?s) (unat (60 :: u32)) 0 [0, 40]" "res_relocations ?s = []" "res_ht ?s = []"
    "\<forall>t. \<not> rc_valid (res_cache ?s t) \<and> rc_node (res_cache ?s t) = None" "40 \<in> set [0, 40]"
    using example_batch_sized by (simp_all add: example_sw_def)
  have "has_mob ?s = False" "cmds ?s = example_batch" by (simp_all add: example_sw_def)
  moreover have "48 \<in> set (slots_of False example_batch 40)" by code_simp
  ultimately have slot: "48 \<in> set (slots_of (has_mob ?s) (cmds ?s) 40)" by simp
  have "\<not> stream_shader (cmds ?s) ?s 0 60 40 48 r" for r by (simp add: stream_shader_def)
  with vmw_batch_ids_accessible [OF run pre slot, of ?ids] run show ?thesis
    unfolding Let_def by metis
qed

text \<open>Without the condition on the sizes it fails: after a command of ten bytes the id of the next one does
  not lie at a word boundary, the relocation is applied two bytes before it, and the device gets an id
  made of half of the resource's id and half of the client's word.\<close>

definition crooked_batch :: cmd_mem where
  "crooked_batch = wr_words 10 [1057, 6, 7] (of_words [1068, 2])"

lemma misaligned_id_escapes:
  "case vmw_cmd_check_all 3 24 (example_sw crooked_batch) of
     Some (Some (s', Inr ())) \<Rightarrow>
       rd32 (vmw_resource_relocations_apply (\<lambda>r. of_nat r + 40) (res_relocations s') (cmds s')) 18 = 0
   | _ \<Rightarrow> False"
  by code_simp

end
