(* ===== verification/Resource_Inv.thy ===== *)
theory Resource_Inv
  imports Resource
begin

text \<open>
  Resources and the device agree: the objects the commands sent so far have defined and not
  destroyed are those of the resources that have an id, every command is about an object that
  exists, and ids are not shared.  The locale \<open>object_functions\<close> states what a table of
  functions promises; it is interpreted for contexts, surfaces and shaders, and validating and
  evicting are proved over it.
\<close>

section \<open>Objects of the device\<close>

fun obj_step :: "scrub_cmd \<Rightarrow> (object_kind \<times> u32) set \<Rightarrow> (object_kind \<times> u32) set" where
  "obj_step (CmdObject (CmdDefine k i ws)) L = insert (k, i) L"
| "obj_step (CmdObject (CmdDestroy k i)) L = L - {(k, i)}"
| "obj_step _ L = L"

fun obj_ok :: "scrub_cmd \<Rightarrow> (object_kind \<times> u32) set \<Rightarrow> bool" where
  "obj_ok (CmdObject c) L = (case c of
       CmdDefine k i ws \<Rightarrow> (k, i) \<notin> L
     | CmdDestroy k i \<Rightarrow> (k, i) \<in> L
     | CmdBind k i m ws \<Rightarrow> (k, i) \<in> L
     | CmdUpdate k i \<Rightarrow> (k, i) \<in> L
     | CmdReadback k i \<Rightarrow> (k, i) \<in> L
     | CmdInvalidate k i \<Rightarrow> (k, i) \<in> L
     | CmdSurfaceDma i g off w \<Rightarrow> (Surface_object, i) \<in> L)"
| "obj_ok _ L = True"

definition objects :: "scrub_cmd list \<Rightarrow> (object_kind \<times> u32) set" where
  "objects cs = fold obj_step cs {}"

fun stream_ok :: "scrub_cmd list \<Rightarrow> (object_kind \<times> u32) set \<Rightarrow> bool" where
  "stream_ok [] L = True"
| "stream_ok (c # cs) L = (obj_ok c L \<and> stream_ok cs (obj_step c L))"

lemma stream_ok_append: "stream_ok (xs @ ys) L \<longleftrightarrow> stream_ok xs L \<and> stream_ok ys (fold obj_step xs L)"
  by (induction xs arbitrary: L) auto

lemma objects_append: "objects (xs @ ys) = fold obj_step ys (objects xs)"
  by (simp add: objects_def)

definition kind_of :: "vmw_res_type \<Rightarrow> object_kind option" where
  "kind_of t = (case t of vmw_res_context \<Rightarrow> Some Context_object | vmw_res_surface \<Rightarrow> Some Surface_object
     | vmw_res_shader \<Rightarrow> Some Shader_object | vmw_res_stream \<Rightarrow> None)"

lemma kind_of_inj: "kind_of t = Some k \<Longrightarrow> kind_of t' = Some k \<Longrightarrow> t = t'"
  by (cases t; cases t') (auto simp: kind_of_def)

abbreviation alive :: "res_dev \<Rightarrow> nat \<Rightarrow> bool" where
  "alive s r \<equiv> res_id s r \<noteq> - 1"

text \<open>The objects of the resources.\<close>

definition owned :: "res_dev \<Rightarrow> (object_kind \<times> u32) set" where
  "owned s = {(k, i). \<exists>r. kind_of (rs_type s r) = Some k \<and> alive s r \<and> i = res_id s r}"

definition id_bound :: nat where "id_bound = 65536"

definition core_inv :: "res_dev \<Rightarrow> bool" where
  "core_inv s \<longleftrightarrow> objects (sent (bnd s)) = owned s \<and> stream_ok (sent (bnd s)) {} \<and>
     (\<forall>t. distinct (res_ids s t) \<and> set (res_ids s t) = {unat (res_id s r) |r. rs_type s r = t \<and> alive s r}) \<and>
     (\<forall>r r'. rs_type s r = rs_type s r' \<and> alive s r \<and> res_id s r = res_id s r' \<longrightarrow> r = r') \<and>
     (\<forall>t. \<forall>i \<in> set (res_ids s t). 1 \<le> i \<and> i < id_bound)"

lemma core_invD:
  assumes "core_inv s"
  shows "objects (sent (bnd s)) = owned s" "stream_ok (sent (bnd s)) {}"
    "distinct (res_ids s t)" "set (res_ids s t) = {unat (res_id s r) |r. rs_type s r = t \<and> alive s r}"
    "rs_type s r = rs_type s r' \<Longrightarrow> alive s r \<Longrightarrow> res_id s r = res_id s r' \<Longrightarrow> r = r'"
    "i \<in> set (res_ids s t) \<Longrightarrow> 1 \<le> i \<and> i < id_bound"
  using assms unfolding core_inv_def by blast+

lemma core_invI:
  assumes "objects (sent (bnd s)) = owned s" "stream_ok (sent (bnd s)) {}" "\<And>t. distinct (res_ids s t)"
    "\<And>t. set (res_ids s t) = {unat (res_id s r) |r. rs_type s r = t \<and> alive s r}"
    "\<And>r r'. rs_type s r = rs_type s r' \<Longrightarrow> alive s r \<Longrightarrow> res_id s r = res_id s r' \<Longrightarrow> r = r'"
    "\<And>t i. i \<in> set (res_ids s t) \<Longrightarrow> 1 \<le> i \<and> i < id_bound"
  shows "core_inv s"
  unfolding core_inv_def using assms by blast

lemma core_inv_cong:
  assumes "core_inv s" "\<And>r. res_id s' r = res_id s r" "\<And>r. rs_func (rsrc s' r) = rs_func (rsrc s r)"
    "sent (bnd s') = sent (bnd s)" "res_ids s' = res_ids s"
  shows "core_inv s'"
proof -
  have "core_inv s' = core_inv s" unfolding core_inv_def owned_def using assms(2-5) by simp
  with assms(1) show ?thesis by simp
qed

text \<open>Commands about objects that exist, and that keep them.\<close>

definition harmless :: "scrub_cmd list \<Rightarrow> (object_kind \<times> u32) set \<Rightarrow> bool" where
  "harmless cs L \<longleftrightarrow> (\<forall>c \<in> set cs. obj_ok c L \<and> obj_step c L = L)"

lemma harmless_run: "harmless cs L \<Longrightarrow> stream_ok cs L \<and> fold obj_step cs L = L"
  by (induction cs) (auto simp: harmless_def)

lemma core_inv_sent:
  assumes "core_inv s" "\<And>r. res_id s' r = res_id s r" "\<And>r. rs_func (rsrc s' r) = rs_func (rsrc s r)"
    "sent (bnd s') = sent (bnd s) @ cs" "res_ids s' = res_ids s" "harmless cs (owned s)"
  shows "core_inv s'"
proof -
  have "owned s' = owned s" using assms(2,3) by (simp add: owned_def)
  then show ?thesis
    using assms harmless_run [OF assms(6)]
    by (auto simp: core_inv_def objects_append stream_ok_append) (simp_all add: objects_def)
qed

lemma owned_self: "kind_of (rs_type s r) = Some k \<Longrightarrow> alive s r \<Longrightarrow> (k, res_id s r) \<in> owned s"
  by (auto simp: owned_def)

section \<open>New ids\<close>

lemma lowest_free: "distinct used \<Longrightarrow> lowest_free used \<notin> set used \<and> 1 \<le> lowest_free used \<and> lowest_free used \<le> length used + 1"
proof -
  assume d: "distinct used"
  let ?l = "filter (\<lambda>i. i \<notin> set used) [1..<length used + 2]"
  have "\<not> {1..<length used + 2} \<subseteq> set used"
    using card_mono [of "set used" "{1..<length used + 2}"] distinct_card [OF d] by auto
  then obtain x where "x \<in> {1..<length used + 2}" "x \<notin> set used" by blast
  then have "x \<in> set ?l" unfolding set_filter set_upt by blast
  then have "?l \<noteq> []" by (metis empty_iff list.set(1))
  then have "hd ?l \<in> set ?l" by (rule hd_in_set)
  then show ?thesis by (auto simp: lowest_free_def)
qed

definition same_but_dirty :: "vmw_resource \<Rightarrow> vmw_resource \<Rightarrow> bool" where
  "same_but_dirty v v' \<longleftrightarrow> v\<lparr>rs_backup_dirty := False\<rparr> = v'\<lparr>rs_backup_dirty := False\<rparr>"

lemma same_but_dirtyD:
  assumes "same_but_dirty v v'"
  shows "rs_backup v' = rs_backup v" "rs_mob_head v' = rs_mob_head v" "rs_func v' = rs_func v"
    "rs_res_dirty v' = rs_res_dirty v" "rs_pin_count v' = rs_pin_count v" "rs_backup_size v' = rs_backup_size v"
proof -
  have e: "f (v\<lparr>rs_backup_dirty := False\<rparr>) = f (v'\<lparr>rs_backup_dirty := False\<rparr>)" for f :: "vmw_resource \<Rightarrow> 'x"
    using assms by (simp add: same_but_dirty_def)
  show "rs_backup v' = rs_backup v" using e [of rs_backup] by simp
  show "rs_mob_head v' = rs_mob_head v" using e [of rs_mob_head] by simp
  show "rs_func v' = rs_func v" using e [of rs_func] by simp
  show "rs_res_dirty v' = rs_res_dirty v" using e [of rs_res_dirty] by simp
  show "rs_pin_count v' = rs_pin_count v" using e [of rs_pin_count] by simp
  show "rs_backup_size v' = rs_backup_size v" using e [of rs_backup_size] by simp
qed

text \<open>What the functions of a table leave alone.\<close>

definition hw_frame :: "nat \<Rightarrow> res_dev \<Rightarrow> res_dev \<Rightarrow> bool" where
  "hw_frame r s s' \<longleftrightarrow> only r s s' \<and> bos s' = bos s \<and> bo_refs s' = bo_refs s \<and> next_bo s' = next_bo s \<and>
     same_but_dirty (rsrc s r) (rsrc s' r)"

interpretation hwf: step_relation "hw_frame r" for r
  by unfold_locales (auto simp: hw_frame_def same_but_dirty_def intro: only.trans)

lemma hw_frame_quiet:
  "only r s s' \<Longrightarrow> bos s' = bos s \<Longrightarrow> bo_refs s' = bo_refs s \<Longrightarrow> next_bo s' = next_bo s \<Longrightarrow> rsrc s' r = rsrc s r \<Longrightarrow>
   hw_frame r s s'"
  by (simp add: hw_frame_def same_but_dirty_def)

lemma ids_short:
  assumes "core_inv s"
  shows "length (res_ids s t) < id_bound"
proof -
  have "set (res_ids s t) \<subseteq> {1..<id_bound}" using core_invD(6) [OF assms] by auto
  then have "card (set (res_ids s t)) \<le> id_bound - 1" using card_mono [of "{1..<id_bound}"] by simp
  then show ?thesis using distinct_card [OF core_invD(3) [OF assms]] by (simp add: id_bound_def)
qed

text \<open>The state when the new id is taken and nothing is defined yet.\<close>

definition with_id :: "nat \<Rightarrow> res_dev \<Rightarrow> res_dev" where
  "with_id r s = (let i = lowest_free (res_ids s (rs_type s r)) in
     set_id r (of_nat i) (s\<lparr>calls := Suc (calls s), res_ids := (res_ids s)(rs_type s r := i # res_ids s (rs_type s r))\<rparr>))"

lemma with_id_facts:
  assumes "core_inv s" "\<not> alive s r"
  shows "alive (with_id r s) r" "unat (res_id (with_id r s) r) = lowest_free (res_ids s (rs_type s r))"
    "kind_of (rs_type s r) = Some k \<Longrightarrow> (k, res_id (with_id r s) r) \<notin> owned s"
    "1 \<le> lowest_free (res_ids s (rs_type s r))" "lowest_free (res_ids s (rs_type s r)) \<notin> set (res_ids s (rs_type s r))"
proof -
  let ?i = "lowest_free (res_ids s (rs_type s r))"
  have l: "?i \<notin> set (res_ids s (rs_type s r))" "1 \<le> ?i" "?i \<le> length (res_ids s (rs_type s r)) + 1"
    using lowest_free [OF core_invD(3) [OF assms(1)]] by blast+
  then show "1 \<le> ?i" "?i \<notin> set (res_ids s (rs_type s r))" by auto
  have i: "?i < 4294967295" using l(3) ids_short [OF assms(1), of "rs_type s r"] by (simp add: id_bound_def)
  have id: "res_id (with_id r s) r = of_nat ?i" by (simp add: with_id_def res_updates Let_def)
  show u: "unat (res_id (with_id r s) r) = ?i" using i by (simp add: id unat_of_nat_lt)
  have "unat (- 1 :: u32) = 4294967295" by (simp add: unsigned_minus_1_eq_mask mask_eq_exp_minus_1)
  then show "alive (with_id r s) r" using u i by auto
  show "(k, res_id (with_id r s) r) \<notin> owned s" if k: "kind_of (rs_type s r) = Some k"
  proof
    assume "(k, res_id (with_id r s) r) \<in> owned s"
    then obtain q where q: "kind_of (rs_type s q) = Some k" "alive s q" "res_id (with_id r s) r = res_id s q"
      by (auto simp: owned_def)
    then have "unat (res_id s q) \<in> set (res_ids s (rs_type s r))"
      using core_invD(4) [OF assms(1), of "rs_type s r"] kind_of_inj [OF q(1) k] by auto
    then show False using u q(3) l(1) by simp
  qed
qed

lemma owned_with_id:
  assumes "\<not> alive s r" "alive s' r" "kind_of (rs_type s r) = Some k"
    "\<And>q. q \<noteq> r \<Longrightarrow> res_id s' q = res_id s q" "\<And>q. rs_func (rsrc s' q) = rs_func (rsrc s q)"
  shows "owned s' = insert (k, res_id s' r) (owned s)"
proof (intro set_eqI iffI)
  fix p assume "p \<in> owned s'"
  then obtain q where q: "kind_of (rs_type s q) = Some (fst p)" "alive s' q" "snd p = res_id s' q"
    using assms(5) by (auto simp: owned_def)
  show "p \<in> insert (k, res_id s' r) (owned s)"
  proof (cases "q = r")
    case True
    then show ?thesis using q assms(3) by (cases p) auto
  next
    case False
    then show ?thesis using q assms(4) [OF False] by (cases p) (auto simp: owned_def)
  qed
next
  fix p assume p: "p \<in> insert (k, res_id s' r) (owned s)"
  show "p \<in> owned s'"
  proof (cases "p = (k, res_id s' r)")
    case True
    then show ?thesis using assms(2,3,5) by (auto simp: owned_def)
  next
    case False
    then have "p \<in> owned s" using p by blast
    then obtain q where q: "kind_of (rs_type s q) = Some (fst p)" "alive s q" "snd p = res_id s q"
      by (auto simp: owned_def)
    then have "q \<noteq> r" using assms(1) by auto
    then have "kind_of (rs_type s' q) = Some (fst p) \<and> alive s' q \<and> snd p = res_id s' q"
      using q assms(4) [of q] assms(5) by simp
    then show ?thesis unfolding owned_def by (cases p) auto
  qed
qed

lemma set_id_simps [simp]:
  "res_id (set_id r i s) q = (if q = r then i else res_id s q)" "rsrc (set_id r i s) = rsrc s"
  "res_ids (set_id r i s) = res_ids s" "sent (bnd (set_id r i s)) = sent (bnd s)" "bos (set_id r i s) = bos s"
  "bo_refs (set_id r i s) = bo_refs s" "next_bo (set_id r i s) = next_bo s" "res_lru (set_id r i s) = res_lru s"
  by (simp_all add: res_updates)

lemma res_id_frame [simp]:
  "res_id (s\<lparr>res_ids := x\<rparr>) = res_id s" "res_id (s\<lparr>calls := n\<rparr>) = res_id s"
  by (simp_all add: res_id_def fun_eq_iff)

lemma ids_upd:
  assumes "g r = - 1" "i \<noteq> - 1"
  shows "{unat ((g(r := i)) q) |q. T q = t \<and> (g(r := i)) q \<noteq> (- 1 :: u32)} =
    (if T r = t then insert (unat i) else id) {unat (g q) |q. T q = t \<and> g q \<noteq> - 1}"
proof -
  let ?f = "g(r := i)" and ?D = "{q. T q = t \<and> g q \<noteq> - 1}"
  have img: "{unat (h q) |q. T q = t \<and> h q \<noteq> (- 1 :: u32)} = (\<lambda>q. unat (h q)) ` {q. T q = t \<and> h q \<noteq> - 1}" for h
    by auto
  have dom: "{q. T q = t \<and> ?f q \<noteq> - 1} = (if T r = t then insert r else id) ?D" using assms by auto
  have "(\<lambda>q. unat (?f q)) ` ?D = (\<lambda>q. unat (g q)) ` ?D" using assms(1) by (intro image_cong) auto
  then show ?thesis unfolding img dom by simp
qed

lemma with_id_simps [simp]:
  "rsrc (with_id r s) = rsrc s" "sent (bnd (with_id r s)) = sent (bnd s)" "bos (with_id r s) = bos s"
  "bo_refs (with_id r s) = bo_refs s" "next_bo (with_id r s) = next_bo s" "res_lru (with_id r s) = res_lru s"
  "q \<noteq> r \<Longrightarrow> res_id (with_id r s) q = res_id s q"
  "res_ids (with_id r s) = (res_ids s)(rs_type s r := lowest_free (res_ids s (rs_type s r)) # res_ids s (rs_type s r))"
  by (simp_all add: with_id_def Let_def)

lemma core_inv_define:
  assumes inv: "core_inv s" and dead: "\<not> alive s r" and k: "kind_of (rs_type s r) = Some k"
    and i: "unat (res_id (with_id r s) r) < id_bound"
    and ids: "res_id s' = res_id (with_id r s)" and f: "\<And>q. rs_func (rsrc s' q) = rs_func (rsrc s q)"
    and snt: "sent (bnd s') = sent (bnd s) @ [CmdObject (CmdDefine k (res_id (with_id r s) r) ws)]"
    and used: "res_ids s' = res_ids (with_id r s)"
  shows "core_inv s'"
proof -
  let ?i = "res_id (with_id r s) r" and ?t = "rs_type s r"
  note w = with_id_facts [OF inv dead] and d = core_invD [OF inv]
  have o: "owned s' = insert (k, ?i) (owned s)"
    using owned_with_id [OF dead, of s' k] w(1) k ids f by simp
  have fresh: "(k, ?i) \<notin> owned s" by (rule w(3) [OF k])
  have ty: "rs_type s' q = rs_type s q" for q by (simp add: f)
  have upd: "res_id s' = (res_id s)(r := ?i)" using ids by (simp add: fun_eq_iff)
  have "{unat (res_id s' q) |q. rs_type s q = t \<and> alive s' q} =
        (if ?t = t then insert (unat ?i) else id) {unat (res_id s q) |q. rs_type s q = t \<and> alive s q}" for t
    unfolding upd using w(1) dead by (intro ids_upd) auto
  then have set: "set (res_ids s' t) = {unat (res_id s' q) |q. rs_type s q = t \<and> alive s' q}" for t
    using d(4) [of t] w(2) used by auto
  have dist: "distinct (res_ids s' t)" for t using d(3) w(5) used by simp
  have inj: "q = q'" if "rs_type s q = rs_type s q'" "alive s' q" "res_id s' q = res_id s' q'" for q q'
  proof -
    have no: "p = r" if "rs_type s p = ?t" "res_id s' p = ?i" for p
    proof (rule ccontr)
      assume "p \<noteq> r"
      then have "alive s p" "res_id s p = ?i" using that w(1) ids by auto
      then have "(k, ?i) \<in> owned s" using that(1) k owned_self [of s p k] by simp
      then show False using fresh by simp
    qed
    consider "q = r" | "q' = r" | "q \<noteq> r" "q' \<noteq> r" by blast
    then show ?thesis
    proof cases
      case 1
      with that(1,3) ids show ?thesis by (metis no)
    next
      case 2
      with that(1,3) ids show ?thesis by (metis no)
    next
      case 3
      then have "res_id s' q = res_id s q" "res_id s' q' = res_id s q'" using ids by simp_all
      with that show ?thesis by (metis d(5))
    qed
  qed
  have bound: "1 \<le> j \<and> j < id_bound" if "j \<in> set (res_ids s' t)" for j t
    using that d(6) [of j t] w(2,4) i used by (auto split: if_splits)
  have "objects (sent (bnd s')) = owned s'" using d(1) o by (simp add: snt objects_append)
  moreover have "stream_ok (sent (bnd s')) {}"
    using d(1,2) fresh by (simp add: snt stream_ok_append objects_def)
  ultimately show ?thesis
    using dist set [folded ty] inj [folded ty] bound by (rule core_invI)
qed

lemma core_inv_cancel:
  assumes inv: "core_inv s" and dead: "\<not> alive s r"
    and "res_id s1 = res_id (with_id r s)" and "\<And>q. rs_func (rsrc s1 q) = rs_func (rsrc s q)"
    and "sent (bnd s1) = sent (bnd s)" and "res_ids s1 = res_ids (with_id r s)"
  shows "core_inv (vmw_resource_release_id r s1)"
proof (rule core_inv_cong [OF inv])
  note w = with_id_facts [OF inv dead]
  have rel: "vmw_resource_release_id r s1 = set_id r (- 1)
      (s1\<lparr>res_ids := (res_ids s1)(rs_type s1 r := removeAll (unat (res_id s1 r)) (res_ids s1 (rs_type s1 r)))\<rparr>)"
    using w(1) assms(3) by (simp add: vmw_resource_release_id_def)
  show "res_id (vmw_resource_release_id r s1) q = res_id s q" for q
    using dead assms(3) by (cases "q = r") (simp_all add: rel)
  show "res_ids (vmw_resource_release_id r s1) = res_ids s"
    using assms(3,4,6) w(2,5) by (simp add: rel fun_eq_iff)
qed (use assms in \<open>simp_all add: vmw_resource_release_id_def\<close>)

lemma core_inv_destroy:
  assumes inv: "core_inv s" and alive: "alive s r" and k: "kind_of (rs_type s r) = Some k"
    and ids: "res_id s1 = res_id s" and f: "\<And>q. rs_func (rsrc s1 q) = rs_func (rsrc s q)"
    and snt: "sent (bnd s1) = sent (bnd s) @ [CmdObject (CmdDestroy k (res_id s r))]" and used: "res_ids s1 = res_ids s"
  shows "core_inv (vmw_resource_release_id r s1)"
proof -
  let ?s = "vmw_resource_release_id r s1" and ?i = "res_id s r" and ?t = "rs_type s r"
  note d = core_invD [OF inv]
  have rel: "?s = set_id r (- 1) (s1\<lparr>res_ids := (res_ids s)(?t := removeAll (unat ?i) (res_ids s ?t))\<rparr>)"
    using alive ids f used by (simp add: vmw_resource_release_id_def)
  have id: "res_id ?s q = (if q = r then - 1 else res_id s q)" for q
    using ids by (simp add: rel)
  have ty: "rs_type ?s q = rs_type s q" for q by (simp add: rel f)
  have uids: "res_ids ?s = (res_ids s)(?t := removeAll (unat ?i) (res_ids s ?t))" by (simp add: rel)
  have snt': "sent (bnd ?s) = sent (bnd s) @ [CmdObject (CmdDestroy k ?i)]" using snt by (simp add: rel)
  have "insert (k, ?i) (owned ?s) = owned s"
  proof (rule owned_with_id [symmetric])
    show "rs_func (rsrc s q) = rs_func (rsrc ?s q)" for q by (simp add: rel f)
  qed (use alive k in \<open>simp_all add: id ty\<close>)
  moreover have "(k, ?i) \<notin> owned ?s"
  proof
    assume "(k, ?i) \<in> owned ?s"
    then obtain q where q: "kind_of (rs_type s q) = Some k" "q \<noteq> r" "alive s q" "?i = res_id s q"
      using id ty by (auto simp: owned_def split: if_splits)
    then show False using d(5) [of r q] kind_of_inj [OF q(1) k] alive by auto
  qed
  ultimately have o: "owned ?s = owned s - {(k, ?i)}" by auto
  have dist: "distinct (res_ids ?s t)" for t using d(3) by (simp add: uids distinct_removeAll)
  have uniq: "q = r" if "rs_type s q = ?t" "alive s q" "unat (res_id s q) = unat ?i" for q
    using d(5) [of q r] that by (metis word_unat_eq_iff)
  let ?D = "\<lambda>t. {q. rs_type s q = t \<and> alive s q}" and ?f = "\<lambda>q. unat (res_id s q)"
  have "{unat (res_id ?s q) |q. rs_type s q = t \<and> alive ?s q} = ?f ` (?D t - {r})" for t
    unfolding setcompr_eq_image by (rule image_cong) (auto simp: id)
  moreover have "?f ` (?D t - {r}) = (if t = ?t then ?f ` ?D t - {unat ?i} else ?f ` ?D t)" for t
    using uniq by auto
  moreover have "{unat (res_id s q) |q. rs_type s q = t \<and> alive s q} = ?f ` ?D t" for t
    by (simp add: setcompr_eq_image)
  ultimately have "{unat (res_id ?s q) |q. rs_type s q = t \<and> alive ?s q} =
        (if t = ?t then {unat (res_id s q) |q. rs_type s q = t \<and> alive s q} - {unat ?i}
         else {unat (res_id s q) |q. rs_type s q = t \<and> alive s q})" for t by simp
  then have set: "set (res_ids ?s t) = {unat (res_id ?s q) |q. rs_type s q = t \<and> alive ?s q}" for t
    by (simp add: uids d(4))
  moreover have "q = q'" if "rs_type ?s q = rs_type ?s q'" "alive ?s q" "res_id ?s q = res_id ?s q'" for q q'
    using that d(5) [of q q'] by (simp add: id ty split: if_splits)
  moreover have "1 \<le> j \<and> j < id_bound" if "j \<in> set (res_ids ?s t)" for j t
    using that d(6) [of j t] by (auto simp: uids split: if_splits)
  moreover have "objects (sent (bnd ?s)) = owned ?s" using d(1) o by (simp add: snt' objects_append)
  moreover have "stream_ok (sent (bnd ?s)) {}"
    using d(1,2) owned_self [OF k alive] by (simp add: snt' stream_ok_append objects_def)
  moreover note dist
  ultimately show ?thesis using set [folded ty] by (intro core_invI)
qed

section \<open>The functions of a table\<close>

text \<open>What the functions of a table promise: they do not hit a BUG, they keep the agreement, and
  creating and destroying say by their result whether the object is there.  A table that binds to
  memory objects wants the buffer in one.\<close>

definition in_place :: "vmw_res_func \<Rightarrow> nat \<Rightarrow> res_dev \<Rightarrow> bool" where
  "in_place t b s \<longleftrightarrow> (f_in_mob t \<longrightarrow> buf_mem_type (bos s b) = VMW_PL_MOB)"

definition law :: "nat \<Rightarrow> res_dev \<Rightarrow> unit rp \<Rightarrow> (res_dev \<Rightarrow> unit res \<Rightarrow> bool) \<Rightarrow> bool" where
  "law r s m P \<longleftrightarrow> returns m s (\<lambda>s' x. core_inv s' \<and> hw_frame r s s' \<and> P s' x)"

locale object_functions =
  fixes f :: vmw_func_id
    and bind :: "nat \<Rightarrow> nat \<Rightarrow> unit rp" and unbind :: "nat \<Rightarrow> bool \<Rightarrow> nat \<Rightarrow> unit rp"
  assumes has_bind: "f_bind (res_func f) = Some bind" and has_unbind: "f_unbind (res_func f) = Some unbind"
    and evictable: "f_may_evict (res_func f)"
    and create: "core_inv s \<Longrightarrow> rs_func (rsrc s r) = f \<Longrightarrow> \<not> alive s r \<Longrightarrow>
      law r s (f_create (res_func f) r) (\<lambda>s' x. alive s' r \<longleftrightarrow> x = Inr ())"
    and bind: "core_inv s \<Longrightarrow> rs_func (rsrc s r) = f \<Longrightarrow> alive s r \<Longrightarrow> in_place (res_func f) b s \<Longrightarrow>
      law r s (bind r b) (\<lambda>s' x. res_id s' r = res_id s r \<and> (x = Inr () \<longrightarrow> \<not> rs_backup_dirty (rsrc s' r) \<or> \<not> f_in_mob (res_func f)))"
    and unbind: "core_inv s \<Longrightarrow> rs_func (rsrc s r) = f \<Longrightarrow> alive s r \<Longrightarrow> in_place (res_func f) b s \<Longrightarrow>
      rs_backup (rsrc s r) = Some b \<Longrightarrow> law r s (unbind r rb b) (\<lambda>s' x. res_id s' r = res_id s r \<and> rsrc s' r = rsrc s r)"
    and destroy: "core_inv s \<Longrightarrow> rs_func (rsrc s r) = f \<Longrightarrow>
      law r s (f_destroy (res_func f) r) (\<lambda>s' x. if x = Inr () then \<not> alive s' r else res_id s' r = res_id s r)"

text \<open>The parts the functions are made of.\<close>

lemma returns_alloc [returns_simps]:
  "returns (vmw_resource_alloc_id r) s Q \<longleftrightarrow> \<not> alive s r \<and>
     (case oc s (calls s) of Inl e \<Rightarrow> Q (s\<lparr>calls := Suc (calls s)\<rparr>) (Inl e) | Inr _ \<Rightarrow> Q (with_id r s) (Inr ()))"
  unfolding vmw_resource_alloc_id_def returns_andthen returns_bug_on returns_ask returns_basic returns_modify with_id_def
  by (cases "oc s (calls s)") (simp_all add: Let_def res_updates)

lemma tried_simps [simp]:
  "rsrc (tried s) = rsrc s" "res_id (tried s) = res_id s" "sent (bnd (tried s)) = sent (bnd s)" "bos (tried s) = bos s"
  "bo_refs (tried s) = bo_refs s" "next_bo (tried s) = next_bo s" "res_lru (tried s) = res_lru s" "res_ids (tried s) = res_ids s"
  by (simp_all add: tried_def res_id_def fun_eq_iff)

lemma issued_simps [simp]:
  "rsrc (issued cs s) = rsrc s" "res_id (issued cs s) = res_id s" "sent (bnd (issued cs s)) = sent (bnd s) @ map CmdObject cs"
  "bos (issued cs s) = bos s" "bo_refs (issued cs s) = bo_refs s" "next_bo (issued cs s) = next_bo s"
  "res_lru (issued cs s) = res_lru s" "res_ids (issued cs s) = res_ids s"
  by (simp_all add: issued_def res_id_def fun_eq_iff)

lemma release_simps [simp]:
  "rsrc (vmw_resource_release_id r s) = rsrc s" "bos (vmw_resource_release_id r s) = bos s"
  "bo_refs (vmw_resource_release_id r s) = bo_refs s" "next_bo (vmw_resource_release_id r s) = next_bo s"
  "res_lru (vmw_resource_release_id r s) = res_lru s" "sent (bnd (vmw_resource_release_id r s)) = sent (bnd s)"
  "res_id (vmw_resource_release_id r s) q = (if q = r then - 1 else res_id s q)"
  by (simp_all add: vmw_resource_release_id_def)

lemma hw_frameI:
  assumes "res_lru s' = res_lru s" "\<And>q. q \<noteq> r \<Longrightarrow> res_id s' q = res_id s q" "rsrc s' = rsrc s" "bos s' = bos s"
    "bo_refs s' = bo_refs s" "next_bo s' = next_bo s"
  shows "hw_frame r s s'"
  using assms by (auto intro!: hw_frame_quiet simp: only_def)

lemma define_law:
  assumes inv: "core_inv s" and dead: "\<not> alive s r" and k: "kind_of (rs_type s r) = Some k"
    and lim: "unat limit \<le> id_bound"
  shows "law r s (define_object k limit r) (\<lambda>s' x. alive s' r \<longleftrightarrow> x = Inr ())"
proof -
  let ?s1 = "with_id r s" and ?s0 = "s\<lparr>calls := Suc (calls s)\<rparr>"
  note w = with_id_facts [OF inv dead]
  have cancel: "core_inv (vmw_resource_release_id r s')" if "s' = ?s1 \<or> s' = tried ?s1" for s'
    by (rule core_inv_cancel [OF inv dead]) (use that in auto)
  have "core_inv ?s0" by (rule core_inv_cong [OF inv]) simp_all
  moreover have "core_inv (issued [CmdDefine k (res_id ?s1 r) (rs_body (rsrc s r))] ?s1)" if "\<not> limit \<le> res_id ?s1 r"
    using that lim by (intro core_inv_define [OF inv dead k]) (simp_all add: word_le_nat_alt)
  moreover have "hw_frame r s s'" if "s' \<in> {?s0, vmw_resource_release_id r ?s1, vmw_resource_release_id r (tried ?s1), 
      issued [CmdDefine k (res_id ?s1 r) (rs_body (rsrc s r))] ?s1}" for s'
    by (rule hw_frameI) (use that in auto)
  ultimately show ?thesis
    unfolding law_def define_object_def
    using cancel w(1) dead by (auto simp: returns_simps simp del: word_le_nat_alt split: sum.split)
qed

lemma law_mono: "law r s m P \<Longrightarrow> (\<And>s' x. core_inv s' \<Longrightarrow> hw_frame r s s' \<Longrightarrow> P s' x \<Longrightarrow> Q s' x) \<Longrightarrow> law r s m Q"
  unfolding law_def by (erule returns_mono) blast

section \<open>Commands about objects that exist\<close>

lemma core_inv_issued:
  assumes "core_inv s" "harmless (map CmdObject cs) (owned s)"
  shows "core_inv (issued cs s)"
  by (rule core_inv_sent [OF assms(1) _ _ _ _ assms(2)]) simp_all

lemma core_inv_tried: "core_inv s \<Longrightarrow> core_inv (tried s)"
  by (rule core_inv_cong) simp_all

lemma scrub_place_sends: "\<exists>cs. sent (scrub_place p w) = sent w @ cs \<and> (\<forall>c \<in> set cs. obj_ok c L \<and> obj_step c L = L)"
proof -
  have c: "obj_ok (scrub_command v bi b) L \<and> obj_step (scrub_command v bi b) L = L" for v bi b
    by (simp add: scrub_command_def Let_def split: vmw_ctx_binding_type.split)
  show ?thesis
    by (cases p) (auto simp: scrub_place_def scrub_funcs_submit submit_def Let_def upd_info_def c intro: exI [of _ "[]"])
qed

lemma scrub_fold_sends: "\<exists>cs. sent (fold scrub_place ps w) = sent w @ cs \<and> harmless cs L"
proof (induction ps arbitrary: w)
  case Nil
  show ?case by (simp add: harmless_def)
next
  case (Cons p ps)
  obtain cs where "sent (scrub_place p w) = sent w @ cs" "harmless cs L"
    using scrub_place_sends [of p w L] by (auto simp: harmless_def)
  moreover obtain ds where "sent (fold scrub_place ps (scrub_place p w)) = sent (scrub_place p w) @ ds" "harmless ds L"
    using Cons by blast
  ultimately show ?case by (auto simp: harmless_def)
qed

definition scrubbed :: "res_dev \<Rightarrow> res_dev \<Rightarrow> bool" where
  "scrubbed s s' \<longleftrightarrow> (\<exists>ps. s' = s\<lparr>bnd := fold scrub_place ps (bnd s)\<rparr>)"

lemma scrubbedI:
  "scrubbed s (s\<lparr>bnd := vmw_context_binding_res_list_scrub r (bnd s)\<rparr>)"
  "scrubbed s (s\<lparr>bnd := vmw_context_binding_state_scrub c (bnd s)\<rparr>)"
  by (auto simp: scrubbed_def vmw_context_binding_res_list_scrub_def vmw_context_binding_state_scrub_def)

lemma scrubbed_facts:
  assumes "scrubbed s s'"
  shows "rsrc s' = rsrc s" "res_id s' = res_id s" "bos s' = bos s" "bo_refs s' = bo_refs s" "next_bo s' = next_bo s"
    "res_lru s' = res_lru s" "res_ids s' = res_ids s" "core_inv s \<Longrightarrow> core_inv s'"
proof -
  obtain ps where s': "s' = s\<lparr>bnd := fold scrub_place ps (bnd s)\<rparr>" using assms by (auto simp: scrubbed_def)
  obtain cs where cs: "sent (bnd s') = sent (bnd s) @ cs" "harmless cs (owned s)"
    using scrub_fold_sends [of ps "bnd s" "owned s"] by (auto simp: s')
  show r: "rsrc s' = rsrc s" "res_id s' = res_id s" "bos s' = bos s" "bo_refs s' = bo_refs s" "next_bo s' = next_bo s"
    "res_lru s' = res_lru s" "res_ids s' = res_ids s"
    by (simp_all add: s' res_id_def scrub_fold_ids fun_eq_iff)
  show "core_inv s'" if "core_inv s"
    by (rule core_inv_sent [OF that _ _ cs(1) _ cs(2)]) (simp_all add: r)
qed

lemma harmless_objects:
  "harmless (map CmdObject cs) L \<longleftrightarrow> (\<forall>c \<in> set cs. obj_ok (CmdObject c) L \<and> obj_step (CmdObject c) L = L)"
  by (auto simp: harmless_def)

text \<open>Changes of fields no law is about.\<close>

definition silent :: "res_dev \<Rightarrow> res_dev \<Rightarrow> bool" where
  "silent s s' \<longleftrightarrow> rsrc s' = rsrc s \<and> res_id s' = res_id s \<and> bos s' = bos s \<and> bo_refs s' = bo_refs s \<and>
     next_bo s' = next_bo s \<and> res_lru s' = res_lru s \<and> res_ids s' = res_ids s \<and> sent (bnd s') = sent (bnd s)"

lemma silentI [intro]:
  "silent s (vmw_3d_resource_inc s)" "silent s (vmw_3d_resource_dec s)" "silent s (end_query r s)"
  "silent s (s\<lparr>used_memory_size := u\<rparr>)" "silent s (s\<lparr>fenced := l\<rparr>)" "silent s (tried s)" "silent s (s\<lparr>calls := n\<rparr>)"
  by (simp_all add: silent_def vmw_3d_resource_inc_def vmw_3d_resource_dec_def end_query_def res_id_def fun_eq_iff)

lemma silent_law:
  assumes "silent s s'"
  shows "core_inv s \<Longrightarrow> core_inv s'" "hw_frame r s s'" "rsrc s' = rsrc s" "res_id s' = res_id s"
proof -
  show "core_inv s \<Longrightarrow> core_inv s'" by (rule core_inv_cong) (use assms in \<open>simp_all add: silent_def\<close>)
  show "hw_frame r s s'" by (rule hw_frameI) (use assms in \<open>simp_all add: silent_def\<close>)
qed (use assms in \<open>simp_all add: silent_def\<close>)

lemma silent_frame: "hw_frame r s s' \<Longrightarrow> silent s' s'' \<Longrightarrow> hw_frame r s s''"
  by (rule hwf.trans) (auto intro: silent_law)

lemma law_ok: "core_inv s \<Longrightarrow> P s (Inr ()) \<Longrightarrow> law r s (ok ()) P"
  by (simp add: law_def returns_simps)

lemma law_first:
  assumes "silent s (g s)" "law r (g s) m P"
  shows "law r s (andthen (modify g) m) P"
  using assms(2) unfolding law_def returns_andthen returns_basic returns_modify sum.case
  by (rule returns_mono) (use hwf.trans [OF silent_law(2) [OF assms(1)]] in blast)

lemma law_then_silent:
  assumes "law r s m P" "\<And>s'. silent s' (g s')" "\<And>s' s'' x. P s' x \<Longrightarrow> rsrc s'' = rsrc s' \<Longrightarrow> res_id s'' = res_id s' \<Longrightarrow> P s'' x"
  shows "law r s (andthen m (modify g)) P" "law r s (undo g m) P"
  using assms(1) unfolding law_def returns_andthen returns_undo returns_basic returns_modify
  by (rule returns_mono; auto split: sum.split intro: silent_law [OF assms(2)] silent_frame [OF _ assms(2)]
      assms(3) [OF _ silent_law(3,4) [OF assms(2)]])+

lemmas func_defs = res_func_def vmw_gb_context_func_def vmw_gb_surface_func_def vmw_gb_shader_func_def
  vmw_legacy_surface_func_def

lemma create_laws:
  assumes "core_inv s" "\<not> alive s r" "rs_func (rsrc s r) = f" "f \<in> {Gb_context, Gb_surface, Gb_shader, Legacy_surface}"
  shows "law r s (f_create (res_func f) r) (\<lambda>s' x. alive s' r \<longleftrightarrow> x = Inr ())"
proof -
  have d: "law r s' (define_object k l r) (\<lambda>s' x. alive s' r \<longleftrightarrow> x = Inr ())"
    if "silent s s'" "kind_of (func_type f) = Some k" "unat l \<le> id_bound" for s' k l
    by (rule define_law) (use that assms silent_law [OF that(1)] in auto)
  have dead: "law r s (fail e) (\<lambda>s' x. alive s' r \<longleftrightarrow> x = Inr ())" for e
    using assms(1,2) by (simp add: law_def returns_simps)
  have lim: "unat VMWGFX_NUM_GB_CONTEXT \<le> id_bound" "unat VMWGFX_NUM_GB_SURFACE \<le> id_bound"
    "unat VMWGFX_NUM_GB_SHADER \<le> id_bound" "unat SVGA3D_MAX_SURFACE_IDS \<le> id_bound"
    by (simp_all add: VMWGFX_NUM_GB_CONTEXT_def VMWGFX_NUM_GB_SURFACE_def VMWGFX_NUM_GB_SHADER_def
        SVGA3D_MAX_SURFACE_IDS_def id_bound_def)
  have self: "silent s s" by (simp add: silent_def)
  have k: "kind_of vmw_res_context = Some Context_object" "kind_of vmw_res_surface = Some Surface_object"
    "kind_of vmw_res_shader = Some Shader_object"
    by (simp_all add: kind_of_def)
  have gets: "law r s (gets m) P = law r s (m s) P" for m P by (simp add: law_def returns_simps)
  consider "f = Gb_context" | "f = Gb_surface" | "f = Gb_shader" | "f = Legacy_surface" using assms(4) by blast
  then show ?thesis
  proof cases
    case 1
    show ?thesis unfolding 1 using assms(2)
      by (simp add: func_defs vmw_gb_context_create_def gets)
        (rule law_then_silent(1), rule d, auto simp: 1 func_type_def k lim self)
  next
    case 2
    show ?thesis unfolding 2 using assms(2)
      by (simp add: func_defs vmw_gb_surface_create_def gets)
        (rule law_first, blast, rule law_then_silent(2), rule d, auto simp: 2 func_type_def k lim)
  next
    case 3
    show ?thesis unfolding 3 using assms(2)
      by (simp add: func_defs vmw_gb_shader_create_def gets)
        (rule law_then_silent(1), rule d, auto simp: 3 func_type_def k lim self)
  next
    case 4
    show ?thesis unfolding 4 using assms(2) dead
      by (simp add: func_defs vmw_legacy_srf_create_def gets)
        (intro impI, rule law_then_silent(1), rule d, auto simp: 4 func_type_def k lim self)
  qed
qed

lemma destroy_object_law:
  assumes inv: "core_inv s" and alive: "alive s r" and k: "kind_of (rs_type s r) = Some k"
    and g: "\<And>s'. silent s' (g1 s')" "\<And>s'. silent s' (g2 s')"
  shows "law r s (andthen (destroy_object k r) (modify (\<lambda>s. g2 (vmw_resource_release_id r (g1 s)))))
    (\<lambda>s' x. if x = Inr () then \<not> alive s' r else res_id s' r = res_id s r)"
proof -
  let ?s1 = "issued [CmdDestroy k (res_id s r)] s"
  have "core_inv (vmw_resource_release_id r (g1 ?s1))"
    by (rule core_inv_destroy [OF inv alive k]) (use g(1) [of ?s1] in \<open>simp_all add: silent_def\<close>)
  moreover have "hw_frame r s (vmw_resource_release_id r (g1 ?s1))"
    by (rule hw_frameI) (use g(1) [of ?s1] in \<open>simp_all add: silent_def\<close>)
  ultimately have "core_inv (g2 (vmw_resource_release_id r (g1 ?s1))) \<and> hw_frame r s (g2 (vmw_resource_release_id r (g1 ?s1)))
      \<and> \<not> alive (g2 (vmw_resource_release_id r (g1 ?s1))) r"
    using silent_law [OF g(2)] silent_frame [OF _ g(2)] by simp
  moreover have "core_inv (tried s)" "hw_frame r s (tried s)"
    using core_inv_tried [OF inv] silent_law(2) by auto
  ultimately show ?thesis
    by (simp add: law_def destroy_object_def returns_simps)
qed

lemma law_gets: "law r s (gets m) P = law r s (m s) P"
  by (simp add: law_def returns_simps)

lemma scrub_law:
  assumes "core_inv s" "\<And>s'. scrubbed s s' \<Longrightarrow> core_inv s' \<Longrightarrow> rsrc s' = rsrc s \<Longrightarrow> res_id s' = res_id s \<Longrightarrow> bos s' = bos s \<Longrightarrow> law r s' m P"
    "\<And>s. scrubbed s (g s)"
  shows "law r s (andthen (modify g) m) P"
proof -
  note f = scrubbed_facts [OF assms(3) [of s]]
  have "law r (g s) m P" by (rule assms(2) [OF assms(3) f(8) [OF assms(1)] f(1-3)])
  moreover have "hw_frame r s (g s)" by (rule hw_frameI) (simp_all add: f)
  ultimately show ?thesis
    unfolding law_def returns_andthen returns_basic returns_modify sum.case
    by (elim returns_mono) (blast intro: hwf.trans)
qed

lemma destroy_laws:
  assumes "core_inv s" "rs_func (rsrc s r) = f" "f \<in> {Gb_context, Gb_surface, Gb_shader, Legacy_surface}"
  shows "law r s (f_destroy (res_func f) r) (\<lambda>s' x. if x = Inr () then \<not> alive s' r else res_id s' r = res_id s r)"
    (is "law r s _ ?P")
proof -
  have dead: "law r s (ok ()) ?P" if "\<not> alive s r" using that assms(1) by (intro law_ok) simp_all
  have k: "kind_of vmw_res_context = Some Context_object" "kind_of vmw_res_surface = Some Surface_object"
    "kind_of vmw_res_shader = Some Shader_object"
    by (simp_all add: kind_of_def)
  have scrub: "law r s (andthen (scrub_resource r) (andthen (destroy_object k r)
      (modify (\<lambda>s. vmw_3d_resource_dec (vmw_resource_release_id r s))))) ?P"
    if "kind_of (func_type f) = Some k" "alive s r" for k
    unfolding scrub_resource_def
  proof (rule scrub_law [OF assms(1) _ scrubbedI(1)])
    fix s' assume s': "core_inv s'" "rsrc s' = rsrc s" "res_id s' = res_id s"
    have "law r s' (andthen (destroy_object k r) (modify (\<lambda>s. vmw_3d_resource_dec (vmw_resource_release_id r s))))
        (\<lambda>s'' x. if x = Inr () then \<not> alive s'' r else res_id s'' r = res_id s' r)"
      by (rule destroy_object_law [where ?g1.0 = "\<lambda>s. s" and ?g2.0 = vmw_3d_resource_dec])
        (use that s' assms(2) in \<open>auto simp: silent_def [where s' = s and s = s for s]\<close>)
    then show "law r s' (andthen (destroy_object k r) (modify (\<lambda>s. vmw_3d_resource_dec (vmw_resource_release_id r s)))) ?P"
      by (rule law_mono) (auto simp: s'(3) split: if_splits)
  qed
  consider "f = Gb_context" | "f = Gb_surface" | "f = Gb_shader" | "f = Legacy_surface" using assms(3) by blast
  then show ?thesis
  proof cases
    case 1
    have "alive s r \<Longrightarrow> law r s (andthen (destroy_object Context_object r)
        (modify (\<lambda>s. vmw_3d_resource_dec (vmw_resource_release_id r (end_query r s))))) ?P"
      by (rule destroy_object_law) (use assms in \<open>auto simp: 1 func_type_def k\<close>)
    then show ?thesis unfolding 1 using dead by (simp add: func_defs vmw_gb_context_destroy_def law_gets)
  next
    case 2
    show ?thesis unfolding 2 using dead scrub [of Surface_object]
      by (simp add: func_defs vmw_gb_surface_destroy_def law_gets 2 func_type_def k)
  next
    case 3
    show ?thesis unfolding 3 using dead scrub [of Shader_object]
      by (simp add: func_defs vmw_gb_shader_destroy_def law_gets 3 func_type_def k)
  next
    case 4
    have "alive s r \<Longrightarrow> law r s (andthen (destroy_object Surface_object r) (modify (\<lambda>s. vmw_resource_release_id r
        (s\<lparr>used_memory_size := used_memory_size s - ucast (rs_backup_size (rsrc s r))\<rparr>)))) ?P"
      by (rule destroy_object_law [where ?g2.0 = "\<lambda>s. s"]) (use assms in \<open>auto simp: 4 func_type_def k silent_def [where s' = s and s = s for s]\<close>)
    then show ?thesis unfolding 4 using dead by (simp add: func_defs vmw_legacy_srf_destroy_def law_gets)
  qed
qed

lemma core_inv_clean: "core_inv s \<Longrightarrow> core_inv (upd_res r (\<lambda>v. v\<lparr>rs_backup_dirty := d\<rparr>) s)"
  by (rule core_inv_cong) (simp_all add: upd_res_def res_id_def)

lemma send_law:
  assumes inv: "core_inv s" and cs: "harmless (map CmdObject cs) (owned s)"
  shows "law r s (andthen (send cs) (clean_backup r)) (\<lambda>s' x. res_id s' r = res_id s r \<and> (x = Inr () \<longrightarrow> \<not> rs_backup_dirty (rsrc s' r)))"
    "law r s (andthen (send cs) (fence_bo b)) (\<lambda>s' x. res_id s' r = res_id s r \<and> rsrc s' r = rsrc s r)"
proof -
  let ?i = "issued cs s"
  have i: "core_inv ?i" "core_inv (tried s)" "hw_frame r s (tried s)" "hw_frame r s ?i"
    using core_inv_issued [OF inv cs] core_inv_tried [OF inv] silent_law(2) by (auto intro: hw_frameI)
  have "hw_frame r s (upd_res r (\<lambda>v. v\<lparr>rs_backup_dirty := False\<rparr>) ?i)"
    by (simp add: hw_frame_def only_def same_but_dirty_def upd_res_def issued_def res_id_def)
  then show "law r s (andthen (send cs) (clean_backup r)) (\<lambda>s' x. res_id s' r = res_id s r \<and> (x = Inr () \<longrightarrow> \<not> rs_backup_dirty (rsrc s' r)))"
    using i core_inv_clean [OF i(1), of r False]
    by (simp add: law_def clean_backup_def returns_simps) (simp add: upd_res_def issued_def res_id_def)
  have s: "silent ?i (?i\<lparr>fenced := fenced ?i @ [b]\<rparr>)" by blast
  show "law r s (andthen (send cs) (fence_bo b)) (\<lambda>s' x. res_id s' r = res_id s r \<and> rsrc s' r = rsrc s r)"
    using i silent_law [OF s] silent_frame [OF i(4) s]
    by (simp add: law_def fence_bo_def returns_simps)
qed

lemma law_in_place: "in_place t b s \<Longrightarrow> f_in_mob t \<Longrightarrow> law r s (andthen (not_in_mob b) m) P = law r s m P"
  by (simp add: law_def not_in_mob_def returns_simps in_place_def)

lemma law_bug_on: "\<not> Q s \<Longrightarrow> law r s (andthen (bug_on Q) m) P = law r s m P"
  by (simp add: law_def returns_simps)

lemma dma_law:
  assumes "core_inv s" "(Surface_object, res_id s r) \<in> owned s"
  shows "law r s (vmw_legacy_srf_dma r b rb) (\<lambda>s' x. res_id s' r = res_id s r \<and> rsrc s' r = rsrc s r)"
  using assms send_law(2) [OF assms(1)]
  by (auto simp: vmw_legacy_srf_dma_def law_gets harmless_objects split: prod.split)

lemma bind_laws:
  assumes "core_inv s" "rs_func (rsrc s r) = f" "alive s r" "in_place (res_func f) b s" "f_bind (res_func f) = Some bind"
  shows "law r s (bind r b) (\<lambda>s' x. res_id s' r = res_id s r \<and> (x = Inr () \<longrightarrow> \<not> rs_backup_dirty (rsrc s' r) \<or> \<not> f_in_mob (res_func f)))"
proof -
  have o: "(k, res_id s r) \<in> owned s" if "kind_of (func_type f) = Some k" for k
    using owned_self [of s r k] that assms(2,3) by simp
  show ?thesis
    using assms(5,4) o
    by (cases f; simp add: func_defs no_functions_def func_type_def kind_of_def; clarify)
      (simp_all add: vmw_gb_context_bind_def vmw_gb_surface_bind_def vmw_gb_shader_bind_def vmw_legacy_srf_bind_def
        law_gets law_in_place Let_def send_law(1) [OF assms(1)] harmless_def law_mono [OF dma_law [OF assms(1)]] law_ok [OF assms(1)])
qed

lemma unbind_laws:
  assumes "core_inv s" "rs_func (rsrc s r) = f" "alive s r" "in_place (res_func f) b s" "rs_backup (rsrc s r) = Some b"
    "f_unbind (res_func f) = Some unbind"
  shows "law r s (unbind r rb b) (\<lambda>s' x. res_id s' r = res_id s r \<and> rsrc s' r = rsrc s r)"
proof -
  have o: "(k, res_id s r) \<in> owned s" if "kind_of (func_type f) = Some k" for k
    using owned_self [of s r k] that assms(2,3) by simp
  have ctxs: "law r s (vmw_gb_context_unbind r rb b) (\<lambda>s' x. res_id s' r = res_id s r \<and> rsrc s' r = rsrc s r)"
    if f: "f = Gb_context" "in_place vmw_gb_context_func b s"
  proof -
    have "f_in_mob vmw_gb_context_func" by (simp add: vmw_gb_context_func_def)
    note m = law_in_place [OF f(2) this]
    show ?thesis
      unfolding vmw_gb_context_unbind_def m law_gets Let_def
    proof (rule scrub_law [OF assms(1) _ scrubbedI(2)])
      fix s' assume s': "core_inv s'" "rsrc s' = rsrc s" "res_id s' = res_id s"
      have "(Context_object, res_id s r) \<in> owned s'"
        using owned_self [of s' r Context_object] assms(2,3) f(1) s'(2,3) by (simp add: func_type_def kind_of_def)
      then show "law r s' (gets (\<lambda>s. andthen
          (send ((if rb then [CmdReadback Context_object (res_id s r)] else []) @ [CmdBind Context_object (res_id s r) SVGA3D_INVALID_ID [0]]))
          (fence_bo b))) (\<lambda>s' x. res_id s' r = res_id s r \<and> rsrc s' r = rsrc s r)"
        using send_law(2) [OF s'(1), of _ r b] by (simp add: law_gets harmless_objects s'(2,3))
    qed
  qed
  show ?thesis
    using assms(6,4,5) o ctxs
    by (cases f; simp add: func_defs no_functions_def func_type_def kind_of_def; clarify)
      (simp_all add: vmw_gb_surface_unbind_def vmw_gb_shader_unbind_def vmw_legacy_srf_unbind_def law_gets not_in_mob_def Let_def
        send_law(2) [OF assms(1)] harmless_def dma_law [OF assms(1)] law_ok [OF assms(1)] law_bug_on in_place_def)
qed

section \<open>The tables\<close>

lemma table_laws:
  assumes "f \<in> {Gb_context, Gb_surface, Gb_shader, Legacy_surface}"
    "f_bind (res_func f) = Some bind" "f_unbind (res_func f) = Some unbind" "f_may_evict (res_func f)"
  shows "object_functions f bind unbind"
  by unfold_locales (use assms in \<open>blast intro: create_laws destroy_laws bind_laws unbind_laws\<close>)+

interpretation contexts: object_functions Gb_context vmw_gb_context_bind vmw_gb_context_unbind
  by (rule table_laws) (simp_all add: func_defs)

interpretation surfaces: object_functions Gb_surface vmw_gb_surface_bind vmw_gb_surface_unbind
  by (rule table_laws) (simp_all add: func_defs)

interpretation shaders: object_functions Gb_shader vmw_gb_shader_bind vmw_gb_shader_unbind
  by (rule table_laws) (simp_all add: func_defs)

interpretation legacy_surfaces: object_functions Legacy_surface vmw_legacy_srf_bind vmw_legacy_srf_unbind
  by (rule table_laws) (simp_all add: func_defs)

section \<open>Backup buffers and the lists of memory objects\<close>

abbreviation tab :: "res_dev \<Rightarrow> nat \<Rightarrow> vmw_res_func" where
  "tab s r \<equiv> res_func (rs_func (rsrc s r))"

text \<open>A resource on the list of a buffer is bound to it on the device: the buffer is its backup, and
  in a memory object, the resource has an id, and its content is on the device.\<close>

definition mob_ok :: "res_dev \<Rightarrow> nat \<Rightarrow> bool" where
  "mob_ok s r \<longleftrightarrow> (\<forall>b. rs_mob_head (rsrc s r) = Some b \<longrightarrow> rs_backup (rsrc s r) = Some b \<and> alive s r \<and>
     f_needs_backup (tab s r) \<and> \<not> rs_backup_dirty (rsrc s r) \<and> buf_mem_type (bos s b) = VMW_PL_MOB)"

definition backup_bound :: "res_dev \<Rightarrow> nat \<Rightarrow> bool" where
  "backup_bound s r \<longleftrightarrow> (\<forall>b. rs_backup (rsrc s r) = Some b \<longrightarrow> b < next_bo s)"

text \<open>\<open>m\<close>: the device keeps backup buffers in memory objects.  The last part leaves one resource out.\<close>

definition link_but :: "bool \<Rightarrow> nat \<Rightarrow> res_dev \<Rightarrow> bool" where
  "link_but m r s \<longleftrightarrow> core_inv s \<and> (\<forall>q. f_may_evict (tab s q) \<longrightarrow> f_in_mob (tab s q) = m) \<and>
     (\<forall>q. backup_bound s q) \<and> (\<forall>q. q \<noteq> r \<longrightarrow> mob_ok s q)"

definition link_inv :: "bool \<Rightarrow> res_dev \<Rightarrow> bool" where
  "link_inv m s \<longleftrightarrow> core_inv s \<and> (\<forall>q. f_may_evict (tab s q) \<longrightarrow> f_in_mob (tab s q) = m) \<and>
     (\<forall>q. backup_bound s q) \<and> (\<forall>q. mob_ok s q)"

lemma link_inv_but: "link_inv m s \<longleftrightarrow> link_but m r s \<and> mob_ok s r"
  by (auto simp: link_inv_def link_but_def)

definition mono_bo :: "bool \<Rightarrow> res_dev \<Rightarrow> res_dev \<Rightarrow> bool" where
  "mono_bo m s s' \<longleftrightarrow> next_bo s \<le> next_bo s' \<and>
     (m \<longrightarrow> (\<forall>c. c < next_bo s \<and> buf_mem_type (bos s c) = VMW_PL_MOB \<longrightarrow> buf_mem_type (bos s' c) = VMW_PL_MOB))"

definition evolves :: "bool \<Rightarrow> nat \<Rightarrow> res_dev \<Rightarrow> res_dev \<Rightarrow> bool" where
  "evolves m r s s' \<longleftrightarrow> only r s s' \<and> mono_bo m s s' \<and> (core_inv s \<longrightarrow> core_inv s') \<and> (backup_bound s r \<longrightarrow> backup_bound s' r)"

interpretation evolves: step_relation "evolves m r" for m r
  by unfold_locales (auto simp: evolves_def mono_bo_def intro: only.trans)

lemma table_facts:
  "f_needs_backup (res_func f) \<Longrightarrow> f_in_mob (res_func f) \<and> f_may_evict (res_func f)"
  "f_may_evict (res_func f) \<Longrightarrow> f_in_mob (res_func f) = f_needs_backup (res_func f)"
  by (cases f; simp add: func_defs no_functions_def)+

lemma link_but_step:
  assumes "link_but m r s" "evolves m r s s'"
  shows "link_but m r s'"
proof -
  have o: "rs_func (rsrc s' q) = rs_func (rsrc s q)" "q \<noteq> r \<Longrightarrow> rsrc s' q = rsrc s q" "q \<noteq> r \<Longrightarrow> res_id s' q = res_id s q" for q
    using assms(2) by (cases "q = r"; simp add: evolves_def only_def)+
  have "mob_ok s' q" if "q \<noteq> r" for q
    unfolding mob_ok_def
  proof (intro allI impI)
    fix b assume b: "rs_mob_head (rsrc s' q) = Some b"
    then have q: "rs_backup (rsrc s q) = Some b \<and> alive s q \<and> f_needs_backup (tab s q) \<and> \<not> rs_backup_dirty (rsrc s q) \<and>
        buf_mem_type (bos s b) = VMW_PL_MOB"
      using assms(1) that o(2) [OF that] by (simp add: link_but_def mob_ok_def)
    then have "m" "b < next_bo s"
      using assms(1) table_facts(1) by (auto simp: link_but_def backup_bound_def)
    then have "buf_mem_type (bos s' b) = VMW_PL_MOB" using assms(2) q by (simp add: evolves_def mono_bo_def)
    then show "rs_backup (rsrc s' q) = Some b \<and> alive s' q \<and> f_needs_backup (tab s' q) \<and> \<not> rs_backup_dirty (rsrc s' q) \<and>
        buf_mem_type (bos s' b) = VMW_PL_MOB"
      using q o [of q] that by simp
  qed
  moreover have "backup_bound s' q" for q
    using assms o(2) [of q] by (cases "q = r") (auto simp: link_but_def evolves_def backup_bound_def mono_bo_def intro: less_le_trans)
  ultimately show ?thesis using assms o(1) by (simp add: link_but_def evolves_def)
qed

lemma law_evolves: "core_inv s' \<Longrightarrow> hw_frame r s s' \<Longrightarrow> evolves m r s s'"
  by (auto simp: evolves_def hw_frame_def mono_bo_def backup_bound_def dest: same_but_dirtyD)

text \<open>Changes that send nothing.\<close>

lemma still_evolves:
  assumes "only r s s'" "mono_bo m s s'" "res_id s' r = res_id s r" "sent (bnd s') = sent (bnd s)" "res_ids s' = res_ids s"
    "rs_backup (rsrc s' r) \<in> {rs_backup (rsrc s r), None} \<or> backup_bound s' r"
  shows "evolves m r s s'"
proof -
  have "core_inv s \<Longrightarrow> core_inv s'"
  proof (rule core_inv_cong)
    show "rs_func (rsrc s' q) = rs_func (rsrc s q)" for q using assms(1) by (cases "q = r") (simp_all add: only_def)
    show "res_id s' q = res_id s q" for q using assms(1,3) by (cases "q = r") (simp_all add: only_def)
  qed (use assms in simp_all)
  then show ?thesis
    using assms by (auto simp: evolves_def backup_bound_def mono_bo_def)
qed

lemma evolves_calls: "evolves m r s (s\<lparr>calls := n\<rparr>)"
  by (rule still_evolves) (simp_all add: only_def mono_bo_def)

lemma evolves_res:
  assumes "\<And>v. rs_func (f v) = rs_func v" "\<And>v. rs_pin_count (f v) = rs_pin_count v" "\<And>v. rs_backup (f v) = rs_backup v"
  shows "evolves m r s (upd_res r f s)"
  by (rule still_evolves) (simp_all add: only_def mono_bo_def res_updates assms)

lemma evolves_bo:
  "(\<And>v. buf_mem_type (f v) = buf_mem_type v) \<Longrightarrow> evolves m r s (upd_bo b f s)" "evolves m r s (bo_ref b d s)"
  by (rule still_evolves; simp add: only_def mono_bo_def res_updates)+

lemma evolves_backoff: "evolves m r s (backoff_buffer b s)"
  unfolding backoff_buffer_def by (rule evolves.trans [OF evolves_bo(1) evolves_bo(2)]) simp

lemma evolves_mob: "evolves m r s (del_mob_head r s)" "evolves m r s (add_mob_head r b s)"
proof -
  show "evolves m r s (del_mob_head r s)"
    unfolding del_mob_head_def
    by (cases "rs_mob_head (rsrc s r)") (auto intro: evolves.trans [OF evolves_bo(1) evolves_res])
  show "evolves m r s (add_mob_head r b s)"
    unfolding add_mob_head_def by (rule evolves.trans [OF evolves_bo(1) evolves_res]) auto
qed

lemma evolves_drop: "evolves m r s (drop_backup_buf r s)"
  by (rule still_evolves [OF only_drop_backup])
    (simp_all add: drop_backup_buf_def mono_bo_def res_updates split: option.split)

lemma evolves_new: "evolves m r s (new_backup r s)"
  by (rule still_evolves)
    (simp_all add: new_backup_def only_def mono_bo_def backup_bound_def res_updates Let_def)

lemma evolves_placed: "(m \<Longrightarrow> f_in_mob f) \<Longrightarrow> evolves m r s (placed f b s)"
  by (rule still_evolves) (auto simp: placed_def only_def mono_bo_def res_updates)

lemmas evolves_steps = evolves_calls evolves_bo evolves_backoff evolves_mob evolves_drop evolves_new evolves_placed

section \<open>Validating one resource\<close>

lemma unlinked_ok: "link_but m r s \<Longrightarrow> rs_mob_head (rsrc s r) = None \<Longrightarrow> link_inv m s"
  by (simp add: link_inv_but [of m s r] mob_ok_def)

lemma frame_facts:
  assumes "hw_frame r s s'"
  shows "rs_func (rsrc s' r) = rs_func (rsrc s r)" "rs_mob_head (rsrc s' r) = rs_mob_head (rsrc s r)"
    "rs_backup (rsrc s' r) = rs_backup (rsrc s r)" "bos s' = bos s" "rs_res_dirty (rsrc s' r) = rs_res_dirty (rsrc s r)"
  using assms same_but_dirtyD [of "rsrc s r" "rsrc s' r"] by (simp_all add: hw_frame_def)

lemma unlinked_frame:
  assumes "link_inv m s" "core_inv s'" "hw_frame r s s'" "rs_mob_head (rsrc s r) = None"
  shows "link_inv m s'" "evolves m r s s'"
proof -
  show e: "evolves m r s s'" by (rule law_evolves [OF assms(2,3)])
  show "link_inv m s'"
    by (rule unlinked_ok) (use assms link_inv_but [of m s r] link_but_step [OF _ e] frame_facts [OF assms(3)] in auto)
qed

text \<open>What validating leaves: the invariant, the same backup and, when it succeeds, a resource that is
  on the device and bound to its backup.\<close>

definition validated :: "bool \<Rightarrow> nat \<Rightarrow> res_dev \<Rightarrow> res_dev \<Rightarrow> unit res \<Rightarrow> bool" where
  "validated m r s s' x \<longleftrightarrow> link_inv m s' \<and> evolves m r s s' \<and> rs_backup (rsrc s' r) = rs_backup (rsrc s r) \<and>
     (x = Inr () \<longrightarrow> alive s' r \<and> (f_needs_backup (tab s' r) \<longrightarrow> rs_mob_head (rsrc s' r) = rs_backup (rsrc s' r)))"

context object_functions
begin

lemma destroy_unlinked:
  assumes "link_inv m s" "rs_func (rsrc s r) = f" "rs_mob_head (rsrc s r) = None"
  shows "returns (f_destroy (res_func f) r) s (\<lambda>s' x. link_inv m s' \<and> evolves m r s s' \<and> hw_frame r s s' \<and>
    (if x = Inr () then \<not> alive s' r else res_id s' r = res_id s r))"
proof -
  have "core_inv s" using assms(1) by (simp add: link_inv_def)
  from destroy [OF this assms(2)] show ?thesis
    unfolding law_def by (rule returns_mono) (use unlinked_frame [OF assms(1) _ _ assms(3)] in auto)
qed

lemma bind_unlinked:
  assumes inv: "link_inv m s" and fn: "rs_func (rsrc s r) = f" and al: "alive s r" and b: "rs_backup (rsrc s r) = Some b"
    and place: "in_place (res_func f) b s" and un: "rs_mob_head (rsrc s r) = None"
  shows "returns (andthen (on_error (\<lambda>e. andthen (ignore_error (f_destroy (res_func f) r)) (fail e)) (bind r b))
      (if f_needs_backup (res_func f) then link_backup r else ok ())) s (validated m r s)"
proof -
  have core: "core_inv s" using inv by (simp add: link_inv_def)
  from bind [OF core fn al place] show ?thesis
    unfolding returns_andthen returns_on_error law_def
  proof (rule returns_mono, goal_cases)
    case (1 s1 x)
    note fr = frame_facts [of r s s1]
    have u: "link_inv m s1" "evolves m r s s1" using unlinked_frame [OF inv _ _ un] 1(2) by auto
    have s1: "rs_func (rsrc s1 r) = f" "rs_mob_head (rsrc s1 r) = None" "rs_backup (rsrc s1 r) = Some b" "alive s1 r" "bos s1 = bos s"
      using 1(2) fr fn un b al by auto
    show ?case
    proof (cases x)
      case (Inl e)
      show ?thesis
        using destroy_unlinked [OF u(1) s1(1,2)]
        by (simp add: Inl returns_simps)
          (erule returns_mono, auto simp: validated_def s1 b dest: frame_facts intro: evolves.trans [OF u(2)])
    next
      case (Inr v)
      show ?thesis
      proof (cases "f_needs_backup (res_func f)")
        case False
        then show ?thesis using u s1 b by (simp add: Inr returns_simps validated_def)
      next
        case True
        let ?s2 = "add_mob_head r b s1"
        have e: "evolves m r s ?s2" by (rule evolves.trans [OF u(2) evolves_mob(2)])
        have mob: "rs_mob_head (rsrc ?s2 r) = Some b" "rs_backup (rsrc ?s2 r) = Some b" "rs_func (rsrc ?s2 r) = f" "alive ?s2 r"
          "rs_backup_dirty (rsrc ?s2 r) = rs_backup_dirty (rsrc s1 r)" "buf_mem_type (bos ?s2 b) = buf_mem_type (bos s1 b)"
          using s1 by (simp_all add: add_mob_head_def res_updates)
        have "\<not> rs_backup_dirty (rsrc s1 r)" "buf_mem_type (bos s1 b) = VMW_PL_MOB"
          using 1(2) Inr table_facts(1) [OF True] place s1(5) by (auto simp: in_place_def)
        then have "mob_ok ?s2 r" using mob True by (simp add: mob_ok_def)
        moreover have "link_but m r ?s2" using link_but_step [OF _ e] inv link_inv_but by blast
        ultimately have "link_inv m ?s2" using link_inv_but by blast
        then show ?thesis
          using True s1 e mob b by (simp add: Inr returns_simps validated_def link_backup_def)
      qed
    qed
  qed
qed

lemma bind_backup:
  assumes inv: "link_inv m s" and fn: "rs_func (rsrc s r) = f" and al: "alive s r"
    and place: "\<And>b. rs_backup (rsrc s r) = Some b \<Longrightarrow> in_place (res_func f) b s"
  shows "returns (bind_backup r (rs_backup (rsrc s r))) s (validated m r s)"
proof (cases "rs_backup (rsrc s r)")
  case None
  then have "rs_mob_head (rsrc s r) = None" using inv by (auto simp: link_inv_def mob_ok_def intro: not_None_eq [THEN iffD1] ccontr)
  with None show ?thesis using inv al by (simp add: bind_backup_def returns_simps validated_def has_bind fn)
next
  case (Some b)
  show ?thesis
  proof (cases "rs_mob_head (rsrc s r)")
    case None
    from bind_unlinked [OF inv fn al Some place [OF Some] None] show ?thesis
      by (simp add: bind_backup_def returns_basic returns_modify Let_def has_bind fn None Some)
  next
    case (Some c)
    then have "f_needs_backup (res_func f)" "rs_backup (rsrc s r) = Some c"
      using inv fn by (auto simp: link_inv_def mob_ok_def)
    with Some show ?thesis using inv al by (simp add: bind_backup_def returns_simps validated_def has_bind fn Let_def)
  qed
qed

lemma do_validate:
  assumes inv: "link_inv m s" and fn: "rs_func (rsrc s r) = f"
    and place: "\<And>b. rs_backup (rsrc s r) = Some b \<Longrightarrow> in_place (res_func f) b s"
  shows "returns (vmw_resource_do_validate r (rs_backup (rsrc s r))) s (validated m r s)"
proof -
  let ?rest = "\<lambda>s1 x. case x of Inl e \<Rightarrow> validated m r s s1 (Inl e)
    | Inr y \<Rightarrow> returns (andthen (bind_backup r (rs_backup (rsrc s r))) (modify (upd_res r (\<lambda>v. v\<lparr>rs_res_dirty := True\<rparr>)))) s1 (validated m r s)"
  have core: "core_inv s" using inv by (simp add: link_inv_def)
  have dirty: "validated m r s (upd_res r (\<lambda>v. v\<lparr>rs_res_dirty := True\<rparr>) s2) (Inr ())" if v: "validated m r s s2 (Inr ())" for s2
  proof -
    let ?s = "upd_res r (\<lambda>v. v\<lparr>rs_res_dirty := True\<rparr>) s2"
    have e: "evolves m r s2 ?s" by (rule evolves_res) simp_all
    have l: "link_but m r s2" "mob_ok s2 r" using v link_inv_but [of m s2 r] by (simp_all add: validated_def)
    have "mob_ok ?s r" using l(2) by (simp add: mob_ok_def res_updates)
    then have "link_inv m ?s" using link_but_step [OF l(1) e] link_inv_but by blast
    then show ?thesis
      using v evolves.trans [OF _ e, of s] by (simp add: validated_def res_updates)
  qed
  have rest: "?rest s1 (Inr y)"
    if "link_inv m s1" "evolves m r s s1" "rs_func (rsrc s1 r) = f" "alive s1 r" "bos s1 = bos s" "rs_backup (rsrc s1 r) = rs_backup (rsrc s r)"
    for s1 and y :: unit
  proof -
    have "returns (bind_backup r (rs_backup (rsrc s r))) s1 (validated m r s1)"
      using bind_backup [OF that(1,3,4)] place that(5,6) by (simp add: in_place_def)
    then have "returns (bind_backup r (rs_backup (rsrc s r))) s1 (validated m r s)"
      by (rule returns_mono) (use that(2,6) in \<open>auto simp: validated_def intro: evolves.trans\<close>)
    then show ?thesis
      unfolding sum.case returns_andthen returns_basic returns_modify by (rule returns_mono) (auto split: sum.split intro: dirty)
  qed
  show ?thesis
  proof (cases "alive s r")
    case True
    then show ?thesis
      using rest [of s "()"] inv fn evolves.refl [of m r s] by (simp add: vmw_resource_do_validate_def returns_simps)
  next
    case False
    then have un: "rs_mob_head (rsrc s r) = None" using inv by (auto simp: link_inv_def mob_ok_def intro: ccontr)
    from create [OF core fn False] have "returns (f_create (res_func f) r) s ?rest"
      unfolding law_def
    proof (rule returns_mono, goal_cases)
      case (1 s1 x)
      have u: "link_inv m s1" "evolves m r s s1" using unlinked_frame [OF inv _ _ un] 1(2) by auto
      show ?case
      proof (cases x)
        case (Inl e)
        then show ?thesis using u frame_facts [of r s s1] 1(2) by (simp add: validated_def)
      next
        case (Inr y)
        then show ?thesis using rest [OF u] frame_facts [of r s s1] 1(2) fn by simp
      qed
    qed
    then show ?thesis
      unfolding vmw_resource_do_validate_def returns_andthen [of "gets _"] returns_basic returns_modify using False fn by simp
  qed
qed

end

section \<open>Evicting one resource\<close>

lemma link_inv_same:
  assumes "link_inv m s" "evolves m r s s'" "rsrc s' r = rsrc s r" "res_id s' r = res_id s r"
  shows "link_inv m s'"
proof -
  have l: "link_but m r s" "mob_ok s r" using assms(1) link_inv_but by blast+
  have "mob_ok s' r"
    unfolding mob_ok_def
  proof (intro allI impI)
    fix b assume "rs_mob_head (rsrc s' r) = Some b"
    then have b: "rs_backup (rsrc s r) = Some b \<and> alive s r \<and> f_needs_backup (tab s r) \<and> \<not> rs_backup_dirty (rsrc s r) \<and>
        buf_mem_type (bos s b) = VMW_PL_MOB"
      using l(2) assms(3) by (simp add: mob_ok_def)
    then have "m" "b < next_bo s" using l(1) assms(1) table_facts(1) by (auto simp: link_inv_def backup_bound_def)
    then show "rs_backup (rsrc s' r) = Some b \<and> alive s' r \<and> f_needs_backup (tab s' r) \<and> \<not> rs_backup_dirty (rsrc s' r) \<and>
        buf_mem_type (bos s' b) = VMW_PL_MOB"
      using b assms by (simp add: evolves_def mono_bo_def)
  qed
  then show ?thesis using link_but_step [OF l(1) assms(2)] link_inv_but by blast
qed

text \<open>What getting hold of the backup leaves.\<close>

definition held :: "bool \<Rightarrow> nat \<Rightarrow> res_dev \<Rightarrow> res_dev \<Rightarrow> nat res \<Rightarrow> bool" where
  "held m r s s' x \<longleftrightarrow> link_inv m s' \<and> evolves m r s s' \<and> res_id s' r = res_id s r \<and>
     rs_mob_head (rsrc s' r) = rs_mob_head (rsrc s r) \<and>
     (\<forall>b. x = Inr b \<longrightarrow> rs_backup (rsrc s' r) = Some b \<and>
        (f_needs_backup (tab s r) \<and> rs_mob_head (rsrc s r) = None \<or> in_place (tab s r) b s'))"

lemma held_trans:
  assumes "link_inv m s1 \<and> evolves m r s s1 \<and> res_id s1 r = res_id s r \<and> rs_mob_head (rsrc s1 r) = rs_mob_head (rsrc s r)"
    "held m r s1 s' x"
  shows "held m r s s' x"
  using assms evolves.trans [of m r s s1 s'] by (auto simp: held_def evolves_def only_def)

lemma place_same [simp]: "rsrc (placed f b s) = rsrc s" "res_id (placed f b s) = res_id s"
  "rsrc (backoff_buffer b s) = rsrc s" "res_id (backoff_buffer b s) = res_id s" "rsrc (bo_ref b d s) = rsrc s" 
  "res_id (bo_ref b d s) = res_id s" "rsrc (upd_bo b g s) = rsrc s" "res_id (upd_bo b g s) = res_id s"
  "res_id (drop_backup_buf r s) = res_id s" "res_id (new_backup r s) = res_id s"
  by (simp_all add: placed_def backoff_buffer_def res_updates fun_eq_iff drop_backup_buf_def new_backup_def Let_def split: option.split)

lemma linked_facts:
  "link_inv m s \<Longrightarrow> rs_mob_head (rsrc s r) = Some b \<Longrightarrow>
   rs_backup (rsrc s r) = Some b \<and> alive s r \<and> f_needs_backup (tab s r) \<and> \<not> rs_backup_dirty (rsrc s r) \<and> buf_mem_type (bos s b) = VMW_PL_MOB"
  by (auto simp: link_inv_def mob_ok_def)

lemma check_backup_law:
  assumes inv: "link_inv m s" and ev: "f_may_evict (tab s r)" and b: "rs_backup (rsrc s r) = Some b"
  shows "returns (check_backup r b) s (held m r s)"
proof (cases "f_needs_backup (tab s r) \<and> rs_mob_head (rsrc s r) = None")
  case True
  then show ?thesis using inv b evolves.refl [of m r s] by (simp add: check_backup_def returns_simps held_def Let_def)
next
  case False
  have m: "f_in_mob (tab s r) = m" using inv ev by (simp add: link_inv_def)
  let ?s0 = "s\<lparr>calls := Suc (calls s)\<rparr>"
  have e0: "evolves m r s ?s0" by (rule evolves_calls)
  have e1: "evolves m r s (placed (tab s r) b ?s0)" by (rule evolves.trans [OF e0 evolves_placed]) (simp add: m)
  have e2: "evolves m r s (backoff_buffer b ?s0)" by (rule evolves.trans [OF e0 evolves_backoff])
  have e3: "evolves m r s (drop_backup_buf r (backoff_buffer b ?s0))" by (rule evolves.trans [OF e2 evolves_drop])
  have good: "held m r s (placed (tab s r) b ?s0) (Inr b)"
    using link_inv_same [OF inv e1] e1 b
    by (simp add: held_def in_place_def) (simp add: placed_def upd_bo_def)
  have bad: "held m r s (backoff_buffer b ?s0) (Inl e)" for e
    using link_inv_same [OF inv e2] e2 by (simp add: held_def)
  have drop: "held m r s (drop_backup_buf r (backoff_buffer b ?s0)) (Inl e)" if "rs_backup_dirty (rsrc s r)" for e
  proof -
    have "rs_mob_head (rsrc s r) = None" using linked_facts [OF inv, of r] that by (cases "rs_mob_head (rsrc s r)") auto
    moreover have "rs_mob_head (rsrc (drop_backup_buf r (backoff_buffer b ?s0)) r) = rs_mob_head (rsrc s r)"
      by (simp add: drop_backup_buf_def upd_res_def split: option.split)
    moreover have "link_but m r (drop_backup_buf r (backoff_buffer b ?s0))"
      using link_but_step [OF _ e3] inv link_inv_but by blast
    ultimately show ?thesis using e3 unlinked_ok by (simp add: held_def)
  qed
  from False show ?thesis
    using good bad drop
    by (cases "oc s (calls s)") (auto simp: check_backup_def returns_simps bo_validate_def Let_def)
qed

lemma reserve_backup_law:
  assumes inv: "link_inv m s" and ev: "f_may_evict (tab s r)" and b: "rs_backup (rsrc s r) = Some b"
  shows "returns (andthen (modify (bo_ref b 1)) (andthen (undo (bo_ref b (- 1)) (andthen ask (modify (upd_bo b (\<lambda>v. v\<lparr>buf_reserved := True\<rparr>)))))
     (check_backup r b))) s (held m r s)"
proof -
  let ?s0 = "(bo_ref b 1 s)\<lparr>calls := Suc (calls (bo_ref b 1 s))\<rparr>" and ?f = "\<lambda>v. v\<lparr>buf_reserved := True\<rparr>"
  have e0: "evolves m r s ?s0" by (rule evolves.trans [OF evolves_bo(2) evolves_calls])
  have e1: "evolves m r s (upd_bo b ?f ?s0)" by (rule evolves.trans [OF e0 evolves_bo(1)]) simp
  have e2: "evolves m r s (bo_ref b (- 1) ?s0)" by (rule evolves.trans [OF e0 evolves_bo(2)])
  have i1: "link_inv m (upd_bo b ?f ?s0)" by (rule link_inv_same [OF inv e1]) simp_all
  have i2: "link_inv m (bo_ref b (- 1) ?s0)" by (rule link_inv_same [OF inv e2]) simp_all
  have "returns (check_backup r b) (upd_bo b ?f ?s0) (held m r (upd_bo b ?f ?s0))"
    by (rule check_backup_law [OF i1]) (use ev b in simp_all)
  then have good: "returns (check_backup r b) (upd_bo b ?f ?s0) (held m r s)"
    by (rule returns_mono) (rule held_trans, use i1 e1 in auto)
  have bad: "held m r s (bo_ref b (- 1) ?s0) (Inl e)" for e using i2 e2 by (simp add: held_def)
  show ?thesis
    using good bad by (cases "oc (bo_ref b 1 s) (calls (bo_ref b 1 s))") (simp_all add: returns_simps)
qed

lemma check_buffer_law:
  assumes inv: "link_inv m s" and ev: "f_may_evict (tab s r)"
  shows "returns (vmw_resource_check_buffer r) s (held m r s)"
proof (cases "rs_backup (rsrc s r)")
  case (Some b)
  then show ?thesis using reserve_backup_law [OF inv ev Some]
    by (simp add: vmw_resource_check_buffer_def returns_andthen [of "gets _"] returns_basic returns_modify)
next
  case None
  then have un: "rs_mob_head (rsrc s r) = None" using linked_facts [OF inv, of r] by (cases "rs_mob_head (rsrc s r)") auto
  let ?s1 = "s\<lparr>calls := Suc (calls s)\<rparr>" let ?s2 = "s\<lparr>calls := Suc (Suc (calls s))\<rparr>"
  let ?n = "new_backup r ?s2"
  have c: "held m r s (s\<lparr>calls := k\<rparr>) (Inl e)" for e k
    using link_inv_same [OF inv evolves_calls] evolves_calls by (simp add: held_def)
  have e: "evolves m r s ?n" by (rule evolves.trans [OF evolves_calls evolves_new])
  have n: "rs_backup (rsrc ?n r) = Some (next_bo s)" "rs_mob_head (rsrc ?n r) = None" "rs_func (rsrc ?n r) = rs_func (rsrc s r)"
    by (simp_all add: new_backup_def Let_def upd_res_def un)
  have i: "link_inv m ?n"
    by (rule unlinked_ok) (use n link_but_step [OF _ e] inv link_inv_but in blast)+
  have "returns (andthen (modify (bo_ref (next_bo s) 1)) (andthen (undo (bo_ref (next_bo s) (- 1)) (andthen ask (modify (upd_bo (next_bo s) (\<lambda>v. v\<lparr>buf_reserved := True\<rparr>)))))
     (check_backup r (next_bo s)))) ?n (held m r ?n)"
    by (rule reserve_backup_law [OF i]) (use n ev in simp_all)
  then have "returns (andthen (modify (bo_ref (next_bo s) 1)) (andthen (undo (bo_ref (next_bo s) (- 1)) (andthen ask (modify (upd_bo (next_bo s) (\<lambda>v. v\<lparr>buf_reserved := True\<rparr>)))))
     (check_backup r (next_bo s)))) ?n (held m r s)"
    by (rule returns_mono) (rule held_trans, use i e n un in auto)
  then show ?thesis
    using c None n(1)
    by (cases "oc s (calls s)"; cases "oc s (Suc (calls s))")
      (simp_all add: vmw_resource_check_buffer_def returns_andthen [of "gets _"] returns_basic returns_modify vmw_resource_buf_alloc_def
        returns_andthen [of ask] returns_ask)
qed

text \<open>What evicting leaves: when it succeeds the resource has no id; otherwise it keeps its id.\<close>

definition evicted :: "bool \<Rightarrow> nat \<Rightarrow> res_dev \<Rightarrow> res_dev \<Rightarrow> unit res \<Rightarrow> bool" where
  "evicted m r s s' x \<longleftrightarrow> link_inv m s' \<and> evolves m r s s' \<and>
     (if x = Inr () then \<not> alive s' r else res_id s' r = res_id s r)"

context object_functions
begin

lemma unbind_backup:
  assumes inv: "link_inv m s" and fn: "rs_func (rsrc s r) = f" and al: "alive s r" and b: "rs_backup (rsrc s r) = Some b"
    and place: "f_needs_backup (res_func f) \<and> rs_mob_head (rsrc s r) = None \<or> in_place (res_func f) b s"
  shows "returns (unbind_backup r b) s (\<lambda>s' x. link_inv m s' \<and> evolves m r s s' \<and> res_id s' r = res_id s r \<and>
    (x = Inr () \<longrightarrow> rs_mob_head (rsrc s' r) = None))"
proof (cases "f_needs_backup (res_func f) \<and> rs_mob_head (rsrc s r) = None")
  case True
  then show ?thesis using inv evolves.refl [of m r s] by (simp add: unbind_backup_def returns_simps has_unbind fn Let_def)
next
  case False
  have core: "core_inv s" using inv by (simp add: link_inv_def)
  have pl: "in_place (res_func f) b s" using place False by blast
  from unbind [OF core fn al pl b, of "rs_res_dirty (rsrc s r)"]
  have "returns (andthen (unbind r (rs_res_dirty (rsrc s r)) b) (modify (del_mob_head r))) s
    (\<lambda>s' x. link_inv m s' \<and> evolves m r s s' \<and> res_id s' r = res_id s r \<and> (x = Inr () \<longrightarrow> rs_mob_head (rsrc s' r) = None))"
    unfolding returns_andthen returns_modify law_def
  proof (rule returns_mono, goal_cases)
    case (1 s1 x)
    have e1: "evolves m r s s1" using 1(2) law_evolves by blast
    have e2: "evolves m r s (del_mob_head r s1)" by (rule evolves.trans [OF e1 evolves_mob(1)])
    have d: "rs_mob_head (rsrc (del_mob_head r s1) r) = None" "res_id (del_mob_head r s1) r = res_id s1 r"
      by (simp_all add: del_mob_head_def res_updates split: option.split)
    have but: "link_but m r s" using inv link_inv_but by blast
    have i2: "link_inv m (del_mob_head r s1)" by (rule unlinked_ok [OF link_but_step [OF but e2] d(1)])
    have i1: "link_inv m s1" by (rule link_inv_same [OF inv e1]) (use 1(2) in simp_all)
    show ?case using i1 i2 e1 e2 d 1(2) by (cases x) simp_all
  qed
  with False show ?thesis by (auto simp: unbind_backup_def returns_basic has_unbind fn Let_def)
qed

end

lemma evicted_backoff:
  assumes "link_inv m s1" "evolves m r s s1" "if x = Inr () then \<not> alive s1 r else res_id s1 r = res_id s r"
  shows "evicted m r s (backoff_buffer b s1) x"
  using link_inv_same [OF assms(1) evolves_backoff] evolves.trans [OF assms(2) evolves_backoff] assms(3)
  by (simp add: evicted_def)

context object_functions
begin

lemma destroy_evicted:
  assumes inv: "link_inv m s1" and fn: "rs_func (rsrc s1 r) = f" and un: "rs_mob_head (rsrc s1 r) = None"
    and e: "evolves m r s s1" and id: "res_id s1 r = res_id s r"
  shows "returns (f_destroy (res_func f) r) s1
    (\<lambda>s2 x. evicted m r s (backoff_buffer b (upd_res r (\<lambda>v. v\<lparr>rs_backup_dirty := True, rs_res_dirty := False\<rparr>) s2)) x)"
  using destroy_unlinked [OF inv fn un]
proof (rule returns_mono, goal_cases)
  case (1 s2 x)
  let ?s = "upd_res r (\<lambda>v. v\<lparr>rs_backup_dirty := True, rs_res_dirty := False\<rparr>) s2"
  have e2: "evolves m r s2 ?s" by (rule evolves_res) simp_all
  have "rs_mob_head (rsrc ?s r) = None" using 1(2) un frame_facts(2) [of r s1 s2] by (simp add: upd_res_def)
  moreover have "link_but m r ?s" using link_but_step [OF _ e2] 1(2) link_inv_but by blast
  ultimately have "link_inv m ?s" by (rule unlinked_ok [rotated])
  moreover have "evolves m r s ?s" using e 1(2) e2 evolves.trans by blast
  moreover have "res_id ?s = res_id s2" by (simp add: res_updates fun_eq_iff)
  ultimately show ?case using 1(2) id by (intro evicted_backoff) simp_all
qed

lemma do_evict:
  assumes inv: "link_inv m s" and fn: "rs_func (rsrc s r) = f" and al: "alive s r"
  shows "returns (vmw_resource_do_evict r) s (evicted m r s)"
proof -
  have ev: "f_may_evict (tab s r)" using evictable fn by simp
  have held: "evicted m r s s1 (Inl e)" if "held m r s s1 (Inl d)" for s1 d e
    using that by (simp add: held_def evicted_def)
  have rest: "returns (andthen (unbind_backup r b) (gets (\<lambda>s. cleanup (upd_res r (\<lambda>v. v\<lparr>rs_backup_dirty := True, rs_res_dirty := False\<rparr>))
      (f_destroy (tab s r) r)))) s1 (\<lambda>s2 x. evicted m r s (backoff_buffer b s2) x)"
    if h: "held m r s s1 (Inr b)" for s1 b
  proof -
    have s1: "link_inv m s1" "rs_func (rsrc s1 r) = f" "alive s1 r" "rs_backup (rsrc s1 r) = Some b" "evolves m r s s1"
      "f_needs_backup (res_func f) \<and> rs_mob_head (rsrc s1 r) = None \<or> in_place (res_func f) b s1" "res_id s1 r = res_id s r"
      using h fn al by (auto simp: held_def evolves_def only_def)
    from unbind_backup [OF s1(1-4,6)] show ?thesis
      unfolding returns_andthen returns_basic returns_cleanup
    proof (rule returns_mono, goal_cases)
      case (1 s2 x)
      have s2: "evolves m r s s2" "rs_func (rsrc s2 r) = f" "res_id s2 r = res_id s r"
        using 1(2) s1 evolves.trans [OF s1(5)] by (auto simp: evolves_def only_def)
      show ?case
      proof (cases x)
        case (Inl e)
        show ?thesis unfolding Inl sum.case by (rule evicted_backoff) (use 1(2) s2 in simp_all)
      next
        case (Inr v)
        show ?thesis
          unfolding Inr sum.case s2(2) by (rule destroy_evicted) (use 1(2) Inr s2 in simp_all)
      qed
    qed
  qed
  have "returns (vmw_resource_check_buffer r) s (\<lambda>s1 x. case x of Inl e \<Rightarrow> evicted m r s s1 (Inl e)
      | Inr b \<Rightarrow> returns (andthen (unbind_backup r b) (gets (\<lambda>s. cleanup (upd_res r (\<lambda>v. v\<lparr>rs_backup_dirty := True, rs_res_dirty := False\<rparr>))
      (f_destroy (tab s r) r)))) s1 (\<lambda>s2 x. evicted m r s (backoff_buffer b s2) x))"
    by (rule returns_mono [OF check_buffer_law [OF inv ev]]) (auto split: sum.split intro: held rest)
  then show ?thesis
    using ev by (simp add: vmw_resource_do_evict_def always_def returns_andthen [of "bug_on _"] returns_bug_on returns_chain returns_cleanup)
qed

end

text \<open>All the tables of resources that may be evicted.\<close>

lemma evictable_tables: "f_may_evict (res_func f) \<Longrightarrow> f \<in> {Gb_context, Gb_surface, Gb_shader, Legacy_surface}"
  by (cases f) (simp_all add: func_defs no_functions_def)

lemma do_validate_law:
  assumes "link_inv m s" "f_may_evict (tab s r)" "\<And>b. rs_backup (rsrc s r) = Some b \<Longrightarrow> in_place (tab s r) b s"
  shows "returns (vmw_resource_do_validate r (rs_backup (rsrc s r))) s (validated m r s)"
  using evictable_tables [OF assms(2)] assms(1,3) contexts.do_validate [of m s r] surfaces.do_validate [of m s r]
    shaders.do_validate [of m s r] legacy_surfaces.do_validate [of m s r] by auto

lemma do_evict_law:
  assumes "link_inv m s" "f_may_evict (tab s r)" "alive s r"
  shows "returns (vmw_resource_do_evict r) s (evicted m r s)"
  using evictable_tables [OF assms(2)] assms(1,3) contexts.do_evict [of m s r] surfaces.do_evict [of m s r]
    shaders.do_evict [of m s r] legacy_surfaces.do_evict [of m s r] by auto

section \<open>The lists of resources that may be evicted\<close>

definition lru_inv :: "res_dev \<Rightarrow> bool" where
  "lru_inv s \<longleftrightarrow> (\<forall>t. distinct (res_lru s t) \<and>
     (\<forall>q \<in> set (res_lru s t). rs_type s q = t \<and> f_may_evict (tab s q) \<and> alive s q \<and> rs_pin_count (rsrc s q) = 0))"

definition res_inv :: "bool \<Rightarrow> res_dev \<Rightarrow> bool" where
  "res_inv m s \<longleftrightarrow> link_inv m s \<and> lru_inv s"

text \<open>Only the resource itself and those that were on the list of its type change, and one that was on
  the list is still there or has no id any more.\<close>

definition among :: "bool \<Rightarrow> nat \<Rightarrow> vmw_res_type \<Rightarrow> res_dev \<Rightarrow> res_dev \<Rightarrow> bool" where
  "among m r t s s' \<longleftrightarrow> mono_bo m s s' \<and> (\<forall>q. rs_func (rsrc s' q) = rs_func (rsrc s q)) \<and>
     (\<forall>q. q \<noteq> r \<and> q \<notin> set (res_lru s t) \<longrightarrow> rsrc s' q = rsrc s q \<and> res_id s' q = res_id s q) \<and>
     (\<forall>u. set (res_lru s' u) \<subseteq> set (res_lru s u)) \<and> (\<forall>u. u \<noteq> t \<longrightarrow> res_lru s' u = res_lru s u) \<and>
     (\<forall>q \<in> set (res_lru s t). q \<noteq> r \<longrightarrow> q \<in> set (res_lru s' t) \<or> \<not> alive s' q)"

lemma mono_bo_trans: "mono_bo m s s1 \<Longrightarrow> mono_bo m s1 s2 \<Longrightarrow> mono_bo m s s2"
  by (auto simp: mono_bo_def)

interpretation among: step_relation "among m r t" for m r t
proof
  show "among m r t s s" for s by (simp add: among_def mono_bo_def)
  fix s s1 s2 assume a: "among m r t s s1" and b: "among m r t s1 s2"
  have out: "q \<notin> set (res_lru s1 t)" if "q \<notin> set (res_lru s t)" for q using a that by (auto simp: among_def)
  have "q \<in> set (res_lru s2 t) \<or> \<not> alive s2 q" if q: "q \<in> set (res_lru s t)" "q \<noteq> r" for q
    using a b q unfolding among_def by metis
  then show "among m r t s s2" using a b out mono_bo_trans [of m s s1 s2] unfolding among_def by (simp add: subset_iff)
qed

lemma evolves_among: "evolves m q s s' \<Longrightarrow> q = r \<or> q \<in> set (res_lru s t) \<Longrightarrow> among m r t s s'"
  unfolding evolves_def among_def only_def by (metis subset_refl)

lemma upd_lru_simps [simp]:
  "rsrc (upd_lru t f s) = rsrc s" "res_id (upd_lru t f s) = res_id s" "bos (upd_lru t f s) = bos s"
  "next_bo (upd_lru t f s) = next_bo s" "res_lru (upd_lru t f s) = (res_lru s)(t := f (res_lru s t))"
  by (simp_all add: upd_lru_def res_id_def fun_eq_iff)

lemma link_inv_lru: "link_inv m (upd_lru t f s) \<longleftrightarrow> link_inv m s"
proof -
  have "core_inv (upd_lru t f s) \<longleftrightarrow> core_inv s"
    by (auto elim!: core_inv_cong simp: upd_lru_def res_id_def)
  then show ?thesis by (simp add: link_inv_def backup_bound_def mob_ok_def)
qed

lemma lru_inv_evolves:
  assumes "lru_inv s" "evolves m r s s'" "r \<notin> set (res_lru s (rs_type s r))"
  shows "lru_inv s'"
  unfolding lru_inv_def
proof (intro allI conjI ballI)
  fix t
  have l: "res_lru s' = res_lru s" using assms(2) by (simp add: evolves_def only_def)
  show "distinct (res_lru s' t)" using assms(1) l by (simp add: lru_inv_def)
  fix q assume "q \<in> set (res_lru s' t)"
  then have q: "q \<in> set (res_lru s t)" "rs_type s q = t" using assms(1) l by (auto simp: lru_inv_def)
  then have "q \<noteq> r" using assms(3) by auto
  then have "rsrc s' q = rsrc s q" "res_id s' q = res_id s q" using assms(2) by (auto simp: evolves_def only_def)
  then show "rs_type s' q = t" "f_may_evict (tab s' q)" "alive s' q" "rs_pin_count (rsrc s' q) = 0"
    using q assms(1) by (auto simp: lru_inv_def)
qed

lemma lru_inv_tl:
  assumes "lru_inv s" "res_lru s t = e # es"
  shows "lru_inv (upd_lru t (\<lambda>_. es) s)" "e \<notin> set es" "rs_type s e = t" "f_may_evict (tab s e)" "alive s e" "rs_pin_count (rsrc s e) = 0"
proof -
  have e: "e \<in> set (res_lru s t)" "distinct (e # es)" using assms(2) assms(1) by (auto simp: lru_inv_def dest: spec [of _ t])
  then show "e \<notin> set es" by simp
  show "rs_type s e = t" "f_may_evict (tab s e)" "alive s e" "rs_pin_count (rsrc s e) = 0"
    using assms(1) e(1) by (auto simp: lru_inv_def)
  show "lru_inv (upd_lru t (\<lambda>_. es) s)"
    unfolding lru_inv_def
  proof
    fix u
    show "distinct (res_lru (upd_lru t (\<lambda>_. es) s) u) \<and> (\<forall>q \<in> set (res_lru (upd_lru t (\<lambda>_. es) s) u).
        rs_type (upd_lru t (\<lambda>_. es) s) q = u \<and> f_may_evict (tab (upd_lru t (\<lambda>_. es) s) q) \<and>
        alive (upd_lru t (\<lambda>_. es) s) q \<and> rs_pin_count (rsrc (upd_lru t (\<lambda>_. es) s) q) = 0)"
      using assms(1) [unfolded lru_inv_def, THEN spec, of u] e(2) assms(2) by (cases "u = t") simp_all
  qed
qed

lemma lru_inv_add:
  assumes "lru_inv s" "e \<notin> set (res_lru s t)" "rs_type s e = t" "f_may_evict (tab s e)" "alive s e" "rs_pin_count (rsrc s e) = 0"
  shows "lru_inv (upd_lru t (\<lambda>l. l @ [e]) s)"
  using assms by (auto simp: lru_inv_def)

text \<open>One round of eviction: the first of the list, taken off and put back when it stays.\<close>

lemma evict_first:
  assumes inv: "res_inv m s" and l: "res_lru s t = e # es"
  obtains (gone) s2 where "vmw_resource_do_evict e (upd_lru t (\<lambda>_. es) s) = Some (s2, Inr ())" "res_inv m s2"
      "\<And>r. among m r t s s2" "\<not> alive s2 e" "\<And>q. q \<noteq> e \<Longrightarrow> rsrc s2 q = rsrc s q \<and> res_id s2 q = res_id s q"
  | (stays) s2 er where "vmw_resource_do_evict e (upd_lru t (\<lambda>_. es) s) = Some (s2, Inl er)" "res_inv m (upd_lru t (\<lambda>l. l @ [e]) s2)"
      "\<And>r. among m r t s (upd_lru t (\<lambda>l. l @ [e]) s2)" "\<And>q. q \<noteq> e \<Longrightarrow> rsrc s2 q = rsrc s q \<and> res_id s2 q = res_id s q"
proof -
  let ?s1 = "upd_lru t (\<lambda>_. es) s"
  have i: "link_inv m s" "lru_inv s" using inv by (simp_all add: res_inv_def)
  note tl = lru_inv_tl [OF i(2) l]
  have "returns (vmw_resource_do_evict e) ?s1 (evicted m e ?s1)"
    by (rule do_evict_law) (use i(1) tl link_inv_lru in auto)
  then obtain s2 x where run: "vmw_resource_do_evict e ?s1 = Some (s2, x)" and p: "evicted m e ?s1 s2 x"
    by (auto elim: returnsE)
  have ev: "evolves m e ?s1 s2" and li: "link_inv m s2" using p by (simp_all add: evicted_def)
  have lru: "lru_inv s2" by (rule lru_inv_evolves [OF tl(1) ev]) (use tl in simp)
  have fr: "q \<noteq> e \<Longrightarrow> rsrc s2 q = rsrc s q \<and> res_id s2 q = res_id s q" for q using ev by (simp add: evolves_def only_def)
  have l2: "res_lru s2 = (res_lru s)(t := es)" "rs_func (rsrc s2 e) = rs_func (rsrc s e)" "rs_pin_count (rsrc s2 e) = rs_pin_count (rsrc s e)"
    "mono_bo m s s2"
    using ev by (simp_all add: evolves_def only_def mono_bo_def)
  have fn: "rs_func (rsrc s2 q) = rs_func (rsrc s q)" for q using fr l2(2) by (cases "q = e") simp_all
  have am: "among m r t s s2" if "\<not> alive s2 e" for r
    using that l2(4) l fr fn unfolding among_def l2(1) by auto
  have am': "among m r t s (upd_lru t (\<lambda>l. l @ [e]) s2)" for r
    using l2(4) l fr fn unfolding among_def upd_lru_simps l2(1) by (auto simp: mono_bo_def)
  show ?thesis
  proof (cases x)
    case (Inr u)
    then show ?thesis using gone run p am li lru fr by (simp add: evicted_def res_inv_def)
  next
    case (Inl er)
    have "lru_inv (upd_lru t (\<lambda>l. l @ [e]) s2)"
      by (rule lru_inv_add [OF lru]) (use tl l2 p Inl in \<open>simp_all add: evicted_def\<close>)
    then show ?thesis using stays run am' li link_inv_lru fr Inl by (simp add: res_inv_def)
  qed
qed

section \<open>Validating makes room\<close>

definition settled :: "bool \<Rightarrow> nat \<Rightarrow> res_dev \<Rightarrow> res_dev \<Rightarrow> unit res \<Rightarrow> bool" where
  "settled m r s s' x \<longleftrightarrow> res_inv m s' \<and> among m r (rs_type s r) s s' \<and> rs_backup (rsrc s' r) = rs_backup (rsrc s r) \<and>
     (x = Inr () \<longrightarrow> alive s' r \<and> (f_needs_backup (tab s r) \<longrightarrow> rs_mob_head (rsrc s' r) = rs_backup (rsrc s r)))"

lemma settled_later:
  assumes "among m r (rs_type s r) s s1" "rs_backup (rsrc s1 r) = rs_backup (rsrc s r)" "settled m r s1 s' x"
  shows "settled m r s s' x"
proof -
  have "rs_func (rsrc s1 r) = rs_func (rsrc s r)" using assms(1) by (simp add: among_def)
  then show ?thesis
    using assms among.trans [OF assms(1)] by (auto simp: settled_def)
qed

definition ready :: "bool \<Rightarrow> nat \<Rightarrow> res_dev \<Rightarrow> bool" where
  "ready m r s \<longleftrightarrow> res_inv m s \<and> f_may_evict (tab s r) \<and> r \<notin> set (res_lru s (rs_type s r)) \<and>
     (\<forall>b. rs_backup (rsrc s r) = Some b \<longrightarrow> in_place (tab s r) b s)"

lemma ready_among:
  assumes "ready m r s" "among m r (rs_type s r) s s'" "res_inv m s'" "rs_backup (rsrc s' r) = rs_backup (rsrc s r)"
  shows "ready m r s'"
proof -
  have f: "rs_func (rsrc s' r) = rs_func (rsrc s r)" and l: "set (res_lru s' (rs_type s r)) \<subseteq> set (res_lru s (rs_type s r))"
    using assms(2) by (simp_all add: among_def)
  have "in_place (tab s r) b s'" if "rs_backup (rsrc s r) = Some b" for b
    unfolding in_place_def
  proof
    assume i: "f_in_mob (tab s r)"
    have li: "link_inv m s" using assms(1) by (simp add: ready_def res_inv_def)
    then have "b < next_bo s" using that by (simp add: link_inv_def backup_bound_def)
    moreover have "m" using li assms(1) i by (auto simp: link_inv_def ready_def)
    moreover have "buf_mem_type (bos s b) = VMW_PL_MOB" using assms(1) that i by (simp add: ready_def in_place_def)
    ultimately show "buf_mem_type (bos s' b) = VMW_PL_MOB" using assms(2) by (simp add: among_def mono_bo_def)
  qed
  then show ?thesis using assms f l by (auto simp: ready_def)
qed

lemma validate_once:
  assumes r: "ready m r s" and t: "t = rs_type s r" and b: "b = rs_backup (rsrc s r)"
  obtains s1 x where "vmw_resource_do_validate r b s = Some (s1, x)" "settled m r s s1 x" "ready m r s1"
    "rs_type s1 r = t" "rs_backup (rsrc s1 r) = b" "among m r t s s1"
proof -
  have li: "link_inv m s" and lru: "lru_inv s" and out: "r \<notin> set (res_lru s t)"
    using r t by (simp_all add: ready_def res_inv_def)
  have "returns (vmw_resource_do_validate r b) s (validated m r s)"
    unfolding b by (rule do_validate_law [OF li]) (use r in \<open>simp_all add: ready_def\<close>)
  then obtain s1 x where run: "vmw_resource_do_validate r b s = Some (s1, x)" and v: "validated m r s s1 x"
    by (auto elim: returnsE)
  have ev: "evolves m r s s1" using v by (simp add: validated_def)
  have ri: "res_inv m s1"
    using v lru_inv_evolves [OF lru ev] out t by (simp add: res_inv_def validated_def)
  have fn: "rs_func (rsrc s1 r) = rs_func (rsrc s r)" "rs_backup (rsrc s1 r) = rs_backup (rsrc s r)"
    using ev v by (auto simp: evolves_def only_def validated_def)
  have am: "among m r t s s1" using evolves_among [OF ev] by blast
  have "settled m r s s1 x" using v ri am fn t by (simp add: settled_def validated_def)
  moreover have "ready m r s1" by (rule ready_among [OF r]) (use am ri fn t in simp_all)
  ultimately show ?thesis using that run fn am t b by simp
qed

text \<open>What the loop does after the device turned the resource down, by the state of the list.\<close>

lemma validate_loop_cases:
  assumes "vmw_resource_do_validate r b s = Some (s1, x)"
  shows "x \<noteq> Inl EBUSY \<Longrightarrow> validate_loop t r b err s = Some (s1, x)"
    "x = Inl EBUSY \<Longrightarrow> res_lru s1 t = [] \<Longrightarrow> validate_loop t r b err s = Some (s1, x)"
    "x = Inl EBUSY \<Longrightarrow> res_lru s1 t = e # es \<Longrightarrow> vmw_resource_do_evict e (upd_lru t (\<lambda>_. es) s1) = Some (s2, Inr ()) \<Longrightarrow>
      validate_loop t r b err s = validate_loop t r b err s2"
    "x = Inl EBUSY \<Longrightarrow> res_lru s1 t = e # es \<Longrightarrow> vmw_resource_do_evict e (upd_lru t (\<lambda>_. es) s1) = Some (s2, Inl er) \<Longrightarrow>
      validate_loop t r b err s =
        (if er = ERESTARTSYS \<or> VMW_RES_EVICT_ERR_COUNT < Suc err then Some (upd_lru t (\<lambda>l. l @ [e]) s2, Inl er)
         else validate_loop t r b (Suc err) (upd_lru t (\<lambda>l. l @ [e]) s2))"
  using assms by (simp_all add: validate_loop.simps [of t r b err s] Let_def)

lemma validate_loop_settled:
  assumes "ready m r s" "t = rs_type s r" "b = rs_backup (rsrc s r)"
  shows "returns (validate_loop t r b err) s (settled m r s)"
  using assms
proof (induction t r b err s rule: validate_loop.induct)
  case (1 t r b err s)
  obtain s1 x where run: "vmw_resource_do_validate r b s = Some (s1, x)" and here: "settled m r s s1 x" and rdy: "ready m r s1"
    and ty: "rs_type s1 r = t" and bk: "rs_backup (rsrc s1 r) = b" and am: "among m r t s s1"
    using validate_once [OF 1(3-5)] .
  note steps = validate_loop_cases [OF run]
  consider "x \<noteq> Inl EBUSY \<or> res_lru s1 t = []" | e es where "x = Inl EBUSY" "res_lru s1 t = e # es"
    by (cases "res_lru s1 t") auto
  then show ?case
  proof cases
    case 1
    then have "validate_loop t r b err s = Some (s1, x)" using steps(1,2) by (cases "x = Inl EBUSY") simp_all
    then show ?thesis using here by (simp add: returns_def)
  next
    case (2 e es)
    have ne: "e \<noteq> r" using rdy 2(2) ty by (auto simp: ready_def)
    have later: "settled m r s s' y"
      if "among m r t s1 s2" "rs_backup (rsrc s2 r) = b" "settled m r s2 s' y" for s2 s' y
      using settled_later [OF _ _ that(3), of s] among.trans [OF am that(1)] that(2) 1(4,5) by simp
    have ri: "res_inv m s1" using rdy by (simp add: ready_def)
    from ri 2(2) show ?thesis
    proof (cases rule: evict_first)
      case (gone s2)
      have r2: "ready m r s2" "rs_type s2 r = t" "rs_backup (rsrc s2 r) = b"
        using ready_among [OF rdy] gone(2,3,5) ne ty bk by auto
      have "returns (validate_loop t r b err) s2 (settled m r s2)"
        by (rule 1(2) [OF run _ _ 2(2)]) (use 2(1) gone r2 in auto)
      then have "returns (validate_loop t r b err) s2 (settled m r s)"
        by (rule returns_mono) (rule later [OF gone(3) r2(3)])
      then show ?thesis by (simp add: returns_def steps(3) [OF 2 gone(1)])
    next
      case (stays s2 er)
      let ?s3 = "upd_lru t (\<lambda>l. l @ [e]) s2"
      have r3: "ready m r ?s3" "rs_type ?s3 r = t" "rs_backup (rsrc ?s3 r) = b"
        using ready_among [OF rdy, of ?s3] stays(2,3,4) ne ty bk by auto
      have stop: "settled m r s ?s3 (Inl er)"
        by (rule later [OF stays(3)]) (use r3 stays(2) in \<open>simp_all add: settled_def\<close>)
      have "returns (validate_loop t r b (Suc err)) ?s3 (settled m r s)"
        if "\<not> (er = ERESTARTSYS \<or> VMW_RES_EVICT_ERR_COUNT < Suc err)"
        by (rule returns_mono [OF 1(1) [OF run _ _ 2(2) stays(1)]]) (use 2(1) that r3 later [OF stays(3)] in auto)
      then show ?thesis using stop by (simp add: returns_def steps(4) [OF 2 stays(1)])
    qed
  qed
qed

lemma legacy_unlinked: "link_inv m s \<Longrightarrow> \<not> f_needs_backup (tab s r) \<Longrightarrow> del_mob_head r s = s"
  using linked_facts [of m s r] by (cases "rs_mob_head (rsrc s r)") (auto simp: del_mob_head_def)

definition on_device :: "nat \<Rightarrow> res_dev \<Rightarrow> bool" where
  "on_device r s \<longleftrightarrow> alive s r \<and> (f_needs_backup (tab s r) \<longrightarrow> rs_mob_head (rsrc s r) = rs_backup (rsrc s r))"

lemma validate_correct:
  assumes "ready m r s"
  shows "\<exists>s' x. vmw_resource_validate r s = Some (s', x) \<and> res_inv m s' \<and> among m r (rs_type s r) s s' \<and>
    (x = Inr () \<longrightarrow> on_device r s')"
proof -
  have ev: "f_may_evict (tab s r)" using assms by (simp add: ready_def)
  obtain s1 x where run: "validate_loop (rs_type s r) r (rs_backup (rsrc s r)) 0 s = Some (s1, x)" and v: "settled m r s s1 x"
    using validate_loop_settled [OF assms refl refl, of 0] by (auto elim: returnsE)
  have f1: "rs_func (rsrc s1 r) = rs_func (rsrc s r)" and li: "link_inv m s1" "lru_inv s1"
    using v by (simp_all add: settled_def among_def res_inv_def)
  show ?thesis
  proof (cases "x = Inr () \<and> \<not> f_needs_backup (tab s r)")
    case False
    then have "vmw_resource_validate r s = Some (s1, x)"
      using run ev by (cases x) (auto simp: vmw_resource_validate_def run_simps Let_def andthen_def chain_def)
    then show ?thesis using v f1 by (auto simp: settled_def on_device_def)
  next
    case True
    let ?s2 = "drop_backup_buf r s1"
    have "vmw_resource_validate r s = Some (?s2, Inr ())"
      using run ev True legacy_unlinked [OF li(1), of r] f1
      by (auto simp: vmw_resource_validate_def run_simps Let_def andthen_def chain_def)
    moreover have e: "evolves m r s1 ?s2" by (rule evolves_drop)
    moreover have un: "rs_mob_head (rsrc ?s2 r) = None"
      using True f1 linked_facts [OF li(1), of r]
      by (cases "rs_mob_head (rsrc s1 r)") (auto simp: drop_backup_buf_def upd_res_def split: option.split)
    moreover have "link_inv m ?s2"
      by (rule unlinked_ok [OF link_but_step [OF _ e] un]) (use li link_inv_but in blast)
    moreover have "lru_inv ?s2"
      by (rule lru_inv_evolves [OF li(2) e]) (use assms v f1 in \<open>auto simp: settled_def among_def ready_def\<close>)
    moreover have "among m r (rs_type s r) s ?s2"
      using evolves_among [OF e, of r] v among.trans by (auto simp: settled_def)
    moreover have "rs_func (rsrc ?s2 r) = rs_func (rsrc s r)" using e f1 by (simp add: evolves_def only_def)
    moreover have "alive ?s2 r" using v True by (simp add: settled_def)
    ultimately show ?thesis using True by (auto simp: res_inv_def on_device_def)
  qed
qed

text \<open>C30: Validating a resource that may be evicted never hits a BUG and keeps the agreement between
  the driver and the device: the objects that exist are those of the resources with an id, no id is
  shared, every command is about an object that exists, and the resources on the lists of buffers are
  bound to them.  When it succeeds, the resource has an id and is bound to its backup; no resource
  changes but this one and those on the list of its type, and of those each is still on the list or
  has lost its id.\<close>
theorem vmw_resource_validate_correct:
  assumes "ready m r s"
  shows "\<exists>s' x. vmw_resource_validate r s = Some (s', x) \<and> res_inv m s' \<and> among m r (rs_type s r) s s' \<and>
    (x = Inr () \<longrightarrow> on_device r s')"
  using assms by (rule validate_correct)

section \<open>Emptying the lists\<close>

lemma evict_type_law:
  "res_inv m s \<Longrightarrow> \<exists>s'. vmw_resource_evict_type t err s = Some s' \<and> res_inv m s' \<and> (\<forall>r. among m r t s s')"
proof (induction t err s rule: vmw_resource_evict_type.induct)
  case (1 t err s)
  note step = vmw_resource_evict_type.simps [of t err s]
  show ?case
  proof (cases "res_lru s t")
    case Nil
    then show ?thesis using 1(3) by (simp add: step)
  next
    case (Cons e es)
    from 1(3) Cons show ?thesis
    proof (cases rule: evict_first)
      case (gone s2)
      show ?thesis
        using 1(2) [OF Cons gone(1) refl refl gone(2)] Cons gone(1) among.trans [OF gone(3)] by (auto simp: step)
    next
      case (stays s2 er)
      show ?thesis
      proof (cases "VMW_RES_EVICT_ERR_COUNT < Suc err")
        case True
        then show ?thesis using Cons stays(1-3) by (simp add: step Let_def)
      next
        case False
        then show ?thesis
          using 1(1) [OF Cons stays(1) refl refl refl False stays(2)] Cons stays(1) among.trans [OF stays(3)]
          by (auto simp: step Let_def)
      qed
    qed
  qed
qed

definition emptied :: "res_dev \<Rightarrow> res_dev \<Rightarrow> bool" where
  "emptied s s' \<longleftrightarrow> (\<forall>u. set (res_lru s' u) \<subseteq> set (res_lru s u)) \<and>
     (\<forall>q. (\<forall>u. q \<notin> set (res_lru s u)) \<longrightarrow> rsrc s' q = rsrc s q \<and> res_id s' q = res_id s q) \<and>
     (\<forall>u. \<forall>q \<in> set (res_lru s u). q \<in> set (res_lru s' u) \<or> \<not> alive s' q)"

lemma among_emptied:
  assumes "lru_inv s" "\<And>r. among m r t s s'"
  shows "emptied s s'"
proof -
  have l: "set (res_lru s' u) \<subseteq> set (res_lru s u)" "u \<noteq> t \<Longrightarrow> res_lru s' u = res_lru s u" for u
    using assms(2) [of 0] by (simp_all add: among_def)
  have k: "rsrc s' q = rsrc s q \<and> res_id s' q = res_id s q" if "q \<notin> set (res_lru s t)" for q
    using assms(2) [of "Suc q"] that by (simp add: among_def)
  have d: "q \<in> set (res_lru s' t) \<or> \<not> alive s' q" if "q \<in> set (res_lru s t)" for q
    using assms(2) [of "Suc q"] that by (simp add: among_def)
  have "q \<in> set (res_lru s' u) \<or> \<not> alive s' q" if "q \<in> set (res_lru s u)" for u q
    using d l(2) [of u] that by (cases "u = t") auto
  then show ?thesis using l(1) k by (simp add: emptied_def)
qed

lemma emptied_trans:
  assumes "emptied s s1" "emptied s1 s2" "lru_inv s1"
  shows "emptied s s2"
proof -
  have sub: "set (res_lru s1 u) \<subseteq> set (res_lru s u)" "set (res_lru s2 u) \<subseteq> set (res_lru s1 u)" for u
    using assms(1,2) by (simp_all add: emptied_def)
  have "rsrc s2 q = rsrc s q \<and> res_id s2 q = res_id s q" if "\<And>u. q \<notin> set (res_lru s u)" for q
  proof -
    have "q \<notin> set (res_lru s1 u)" for u using that sub(1) by blast
    then show ?thesis using assms(1,2) that by (simp add: emptied_def)
  qed
  moreover have "q \<in> set (res_lru s2 u) \<or> \<not> alive s2 q" if q: "q \<in> set (res_lru s u)" for u q
  proof (cases "alive s1 q")
    case True
    then have "q \<in> set (res_lru s1 u)" using assms(1) q by (auto simp: emptied_def)
    then show ?thesis using assms(2) by (simp add: emptied_def)
  next
    case False
    then have "q \<notin> set (res_lru s1 v)" for v using assms(3) by (auto simp: lru_inv_def)
    then show ?thesis using False assms(2) by (simp add: emptied_def)
  qed
  ultimately show ?thesis using sub unfolding emptied_def by (meson subset_trans)
qed

lemma evict_types_law:
  "res_inv m s \<Longrightarrow> \<exists>s'. evict_types ts s = Some s' \<and> res_inv m s' \<and> emptied s s'"
proof (induction ts arbitrary: s)
  case Nil
  then show ?case by (simp add: emptied_def)
next
  case (Cons t ts)
  obtain s1 where s1: "vmw_resource_evict_type t 0 s = Some s1" "res_inv m s1" "\<And>r. among m r t s s1"
    using evict_type_law [OF Cons(2), of t 0] by blast
  moreover obtain s2 where "evict_types ts s1 = Some s2" "res_inv m s2" "emptied s1 s2"
    using Cons(1) [OF s1(2)] by blast
  moreover have "emptied s s1" by (rule among_emptied [OF _ s1(3)]) (use Cons(2) in \<open>simp add: res_inv_def\<close>)
  ultimately show ?case using emptied_trans [of s s1 s2] by (simp add: res_inv_def)
qed

text \<open>C31: Evicting all resources never hits a BUG and keeps the agreement between the driver and the
  device; what was on no list is left as it was, and what was on a list has lost its id or, when its
  eviction failed, is still on it: no resource is on the device and out of the reach of a later
  eviction.\<close>
theorem vmw_resource_evict_all_correct:
  assumes "res_inv m s"
  shows "\<exists>s'. vmw_resource_evict_all s = Some s' \<and> res_inv m s' \<and> emptied s s'"
  unfolding vmw_resource_evict_all_def by (rule evict_types_law [OF assms])

section \<open>Witnesses\<close>

definition idle_resource :: vmw_resource where
  "idle_resource = \<lparr>rs_func = Gb_surface, rs_avail = True, rs_free = vmw_res_surface, rs_doomed = False, rs_hw_destroy = True,
     rs_backup_size = 4096, rs_res_dirty = False, rs_backup_dirty = False, rs_backup = None, rs_backup_offset = 0,
     rs_pin_count = 0, rs_mob_head = None, rs_body = [], rs_images = []\<rparr>"

definition idle_dev :: res_dev where
  "idle_dev = \<lparr>rsrc = (\<lambda>_. idle_resource),
     bos = (\<lambda>_. \<lparr>buf_num_pages = 1, buf_mem_type = TTM_PL_SYSTEM, buf_offset = 0, buf_start = 0, buf_reserved = False,
       buf_pinned = False, buf_res_list = []\<rparr>),
     bo_refs = (\<lambda>_. 0), next_bo = 0, fenced = [],
     bnd = \<lparr>cbs = (\<lambda>_. \<lparr>cb_list = [], cb_at = (\<lambda>_. \<lparr>bi_ctx = None, bi_res = None, bi_bt = vmw_ctx_binding_shader, bi_scrubbed = False, bi_i1 = 0\<rparr>)\<rparr>),
       binding_head = (\<lambda>_. []), hw_id = (\<lambda>_. - 1), sent = [], room = (\<lambda>_. True), tries = 0\<rparr>,
     res_ids = (\<lambda>_. []), res_lru = (\<lambda>_. []), num_3d_resources = 0, request_ok = True, used_memory_size = 0,
     memory_size = 1000000, query_cid = 0, query_cid_valid = False, oc = (\<lambda>_. Inr ()), calls = 0\<rparr>"

lemma idle_dev_inv: "res_inv True idle_dev"
  by (simp add: res_inv_def link_inv_def lru_inv_def core_inv_def objects_def owned_def backup_bound_def mob_ok_def
      idle_dev_def idle_resource_def res_id_def func_defs)

lemma idle_ready: "ready True 1 idle_dev"
  using idle_dev_inv by (simp add: ready_def) (simp add: idle_dev_def idle_resource_def func_defs)

lemma vmw_resource_validate_correct_witness:
  "(\<exists>s' x. vmw_resource_validate 1 idle_dev = Some (s', x) \<and> res_inv True s') \<and>
   map_option snd (vmw_resource_validate 1 idle_dev) = Some (Inr ())"
proof
  show "\<exists>s' x. vmw_resource_validate 1 idle_dev = Some (s', x) \<and> res_inv True s'"
    using vmw_resource_validate_correct [OF idle_ready] by blast
  show "map_option snd (vmw_resource_validate 1 idle_dev) = Some (Inr ())"
    by code_simp
qed

text \<open>The surface that was validated goes on the list, and evicting takes it off the device.\<close>

definition busy_dev :: res_dev where
  "busy_dev = upd_lru vmw_res_surface (\<lambda>l. l @ [1]) (fst (the (vmw_resource_validate 1 idle_dev)))"

lemma busy_inv: "res_inv True busy_dev"
proof -
  obtain s x where s: "vmw_resource_validate 1 idle_dev = Some (s, x)" "res_inv True s" "among True 1 (rs_type idle_dev 1) idle_dev s"
    "x = Inr () \<longrightarrow> on_device 1 s"
    using validate_correct [OF idle_ready] by blast
  have "map_option snd (vmw_resource_validate 1 idle_dev) = Some (Inr ())" by code_simp
  then have "alive s 1" using s by (simp add: on_device_def)
  moreover have "rs_func (rsrc s 1) = Gb_surface" "set (res_lru s vmw_res_surface) \<subseteq> {}"
    using s(3) by (simp_all add: among_def idle_dev_def idle_resource_def)
  moreover have "map_option (\<lambda>p. rs_pin_count (rsrc (fst p) 1)) (vmw_resource_validate 1 idle_dev) = Some 0" by code_simp
  ultimately show ?thesis
    using s(1,2) lru_inv_add [of s 1 vmw_res_surface]
    by (simp add: busy_dev_def res_inv_def link_inv_lru func_type_def func_defs)
qed

lemma vmw_resource_evict_all_correct_witness:
  "(\<exists>s'. vmw_resource_evict_all busy_dev = Some s' \<and> res_inv True s' \<and> emptied busy_dev s') \<and>
   res_lru busy_dev vmw_res_surface = [1] \<and>
   map_option (\<lambda>s. (res_lru s vmw_res_surface, res_id s 1)) (vmw_resource_evict_all busy_dev) = Some ([], - 1)"
proof (intro conjI)
  show "\<exists>s'. vmw_resource_evict_all busy_dev = Some s' \<and> res_inv True s' \<and> emptied busy_dev s'"
    by (rule vmw_resource_evict_all_correct [OF busy_inv])
qed code_simp+

end
