(* ===== verification/Execbuf_Submit.thy ===== *)
theory Execbuf_Submit
  imports Execbuf_Inv Execbuf_Ids Resource_Inv
begin

text \<open>
  The submission of a batch, last part of \<open>src/vmwgfx_execbuf.c\<close>: after the check the resources and
  buffers of the batch are reserved and validated, the addresses and ids are patched in, the batch and
  its fence go to the device, and everything is put back.

  The state joins the software context of the verifier with the resources of the device.  They share
  the resources, the buffers, the references to buffers and the bindings, which are kept in the software
  context; \<open>load\<close> and \<open>store\<close> move them for an operation of the theory \<open>Resource\<close>.  The outcomes of what the
  kernel and TTM do are those of \<open>oc\<close>.  The value \<open>None\<close> is a BUG, a null pointer, a lock that is waited for by
  its holder, or, for the check, a loop that is out of fuel.  A fence is its seqno.
\<close>

section \<open>State\<close>

record vmw_exec =
  sw :: vmw_sw_context
  dev_priv :: res_dev
  pinned_bo :: "nat option"
  dummy_query_bo_pinned :: bool
  res_ht_initialized :: bool
  cmd_bounce_size :: u32
  fence_caps :: bool \<comment> \<open>the FIFO can carry fences\<close>
  last_seqno :: u32 \<comment> \<open>the last seqno sent\<close>
  binding_locked :: bool
  eu_reserved :: bool \<comment> \<open>the entries of the validation list hold reservations\<close>
  sync_obj :: "nat \<Rightarrow> u32 option"
  ttm_puts :: "nat \<Rightarrow> mem_type \<times> u64 \<times> u64" \<comment> \<open>where the call to TTM of that number puts a buffer\<close>
  user_fences :: "u32 list" \<comment> \<open>fences the client has a handle of\<close>
  fence_reps :: "(unit res \<times> u32) list" \<comment> \<open>what was copied to clients\<close>

type_synonym 'a ex = "(vmw_exec, 'a) prog"

definition load :: "vmw_exec \<Rightarrow> res_dev" where
  "load s = (dev_priv s)\<lparr>rsrc := resource (sw s), bos := buffer (sw s), bo_refs := (\<lambda>b. refs (sw s) (Bo b)), bnd := binds (sw s)\<rparr>"

definition store :: "res_dev \<Rightarrow> vmw_exec \<Rightarrow> vmw_exec" where
  "store d s = s\<lparr>dev_priv := d, sw := (sw s)\<lparr>resource := rsrc d, buffer := bos d,
     refs := (\<lambda>x. case x of Bo b \<Rightarrow> bo_refs d b | Res r \<Rightarrow> refs (sw s) (Res r)), binds := bnd d\<rparr>\<rparr>"

definition on_dev :: "'a rp \<Rightarrow> 'a ex" where
  "on_dev m s = (case m (load s) of None \<Rightarrow> None | Some (d, x) \<Rightarrow> Some (store d s, x))"

definition on_sw :: "'a cmd \<Rightarrow> 'a ex" where
  "on_sw m s = (case m (sw s) of None \<Rightarrow> None | Some (t, x) \<Rightarrow> Some (s\<lparr>sw := t\<rparr>, x))"

definition ref_bo :: "nat \<Rightarrow> int \<Rightarrow> unit ex" where
  "ref_bo b d = on_sw (modify (add_ref (Bo b) d))"

text \<open>A command of its own in the FIFO, once there is room.\<close>

definition push_cmd :: "scrub_cmd \<Rightarrow> unit ex" where
  "push_cmd c = modify (\<lambda>s. s\<lparr>sw := (sw s)\<lparr>binds := (binds (sw s))\<lparr>sent := sent (binds (sw s)) @ [c]\<rparr>\<rparr>\<rparr>)"

definition fifo_room :: "unit ex" where
  "fifo_room = on_dev (send [])"

section \<open>The bounce buffer\<close>

definition VMWGFX_CMD_BOUNCE_INIT_SIZE :: u32 where "VMWGFX_CMD_BOUNCE_INIT_SIZE = 32768"

definition PAGE_ALIGN :: "u32 \<Rightarrow> u32" where
  "PAGE_ALIGN x = (x + 4095) AND NOT 4095"

text \<open>The sizes are unsigned 32-bit integers, and the loop may not end.\<close>

partial_function (option) grow_bounce :: "u32 \<Rightarrow> u32 \<Rightarrow> u32 option" where
  "grow_bounce sz cur = (if cur < sz then grow_bounce sz (PAGE_ALIGN (cur + drop_bit 1 cur)) else Some cur)"

definition vmw_resize_cmd_bounce :: "u32 \<Rightarrow> unit ex" where
  "vmw_resize_cmd_bounce sz = gets (\<lambda>s.
     if sz \<le> cmd_bounce_size s then ok ()
     else (case grow_bounce sz (if cmd_bounce_size s = 0 then VMWGFX_CMD_BOUNCE_INIT_SIZE else cmd_bounce_size s) of
         None \<Rightarrow> crash
       | Some n \<Rightarrow> on_error (\<lambda>_. andthen (modify (\<lambda>s. s\<lparr>cmd_bounce_size := 0\<rparr>)) (fail ENOMEM))
           (andthen (modify (\<lambda>s. s\<lparr>cmd_bounce_size := n\<rparr>)) (on_dev ask))))"

section \<open>Reserving and validating\<close>

definition list_nodes :: "(nat \<Rightarrow> unit ex) \<Rightarrow> unit ex" where
  "list_nodes f = gets (\<lambda>s. for_each f (resource_list (sw s)))"

definition node_res :: "vmw_exec \<Rightarrow> nat \<Rightarrow> nat" where
  "node_res s n = vn_res (val_node (sw s) n)"

definition end_staging :: "bool \<Rightarrow> nat \<Rightarrow> unit cmd" where
  "end_staging backoff n = gets (\<lambda>s. if vn_staged (val_node s n)
     then modify (\<lambda>s. upd_val n (\<lambda>v. v\<lparr>vn_staged := False\<rparr>)
            (if backoff then s
             else s\<lparr>binds := vmw_context_binding_state_transfer (vn_res (val_node s n)) (Staged n) (binds s)\<rparr>))
     else ok ())"

definition drop_new_backup :: "nat \<Rightarrow> unit cmd" where
  "drop_new_backup n = modify (\<lambda>s. upd_val n (\<lambda>v. v\<lparr>vn_new_backup := None\<rparr>) (drop_backup n s))"

definition unreserve_node :: "bool \<Rightarrow> nat \<Rightarrow> unit ex" where
  "unreserve_node backoff n =
     andthen (on_sw (end_staging backoff n))
       (andthen (gets (\<lambda>s. let v = val_node (sw s) n in
            on_dev (vmw_resource_unreserve (vn_res v) (if backoff then None else vn_new_backup v) (vn_backup_offset v))))
         (on_sw (drop_new_backup n)))"

definition vmw_resource_list_unreserve :: "bool \<Rightarrow> unit ex" where
  "vmw_resource_list_unreserve backoff = list_nodes (unreserve_node backoff)"

definition reserve_node :: "nat \<Rightarrow> unit ex" where
  "reserve_node n =
     andthen (gets (\<lambda>s. on_dev (vmw_resource_reserve (node_res s n) (vn_no_buffer (val_node (sw s) n)))))
       (gets (\<lambda>s. let v = resource (sw s) (node_res s n) in
          case rs_backup v of
            None \<Rightarrow> ok ()
          | Some b \<Rightarrow> chain (on_sw (vmw_bo_to_validate_list b DRM_VMW_FENCE_FLAG_EXEC (f_needs_backup (res_func (rs_func v)))))
              (\<lambda>_. ok ())))"

definition vmw_resources_reserve :: "unit ex" where
  "vmw_resources_reserve = list_nodes reserve_node"

definition vmw_resources_validate :: "unit ex" where
  "vmw_resources_validate = list_nodes (\<lambda>n. gets (\<lambda>s. on_dev (vmw_resource_validate (node_res s n))))"

text \<open>Contexts are at the front of the list: the loop stops at the first node without a tracker.\<close>

fun rebind_nodes :: "nat list \<Rightarrow> unit ex" where
  "rebind_nodes [] = ok ()"
| "rebind_nodes (n # ns) = gets (\<lambda>s. if \<not> vn_staged (val_node (sw s) n) then ok ()
     else andthen (on_sw (\<lambda>t. case vmw_context_rebind_all (vn_res (val_node t n)) (binds t) of (w, x) \<Rightarrow> Some (t\<lparr>binds := w\<rparr>, x)))
            (rebind_nodes ns))"

definition vmw_rebind_contexts :: "unit ex" where
  "vmw_rebind_contexts = gets (\<lambda>s. rebind_nodes (resource_list (sw s)))"

text \<open>The reservation of a list of buffers by TTM is all or nothing.\<close>

definition val_bos :: "vmw_exec \<Rightarrow> nat list" where
  "val_bos s = map (\<lambda>i. vb_bo (val_bufs (sw s) i)) (validate_nodes (sw s))"

definition mark_reserved :: "bool \<Rightarrow> nat list \<Rightarrow> vmw_exec \<Rightarrow> vmw_exec" where
  "mark_reserved r bs s = s\<lparr>sw := (sw s)\<lparr>buffer :=
     (\<lambda>b. if b \<in> set bs then (buffer (sw s) b)\<lparr>buf_reserved := r\<rparr> else buffer (sw s) b)\<rparr>\<rparr>"

definition eu_reserve :: "nat list \<Rightarrow> unit ex" where
  "eu_reserve bs = (if bs = [] then ok () else andthen (on_dev ask) (modify (mark_reserved True bs)))"

definition reserve_batch :: "unit ex" where
  "reserve_batch = gets (\<lambda>s. andthen (eu_reserve (val_bos s)) (modify (\<lambda>s. s\<lparr>eu_reserved := True\<rparr>)))"

definition backoff_batch :: "vmw_exec \<Rightarrow> vmw_exec" where
  "backoff_batch s = (if eu_reserved s then (mark_reserved False (val_bos s) s)\<lparr>eu_reserved := False\<rparr> else s)"

definition set_fence :: "u32 option \<Rightarrow> nat list \<Rightarrow> vmw_exec \<Rightarrow> vmw_exec" where
  "set_fence fence bs s = mark_reserved False bs (s\<lparr>sync_obj := (\<lambda>b. if b \<in> set bs then fence else sync_obj s b)\<rparr>)"

text \<open>A call to TTM that succeeds puts the buffer where the placement allows: it stays when it is there,
  and moves otherwise, after the driver was told.\<close>

definition put_bo :: "mem_type list \<Rightarrow> nat \<Rightarrow> unit ex" where
  "put_bo pls b = gets (\<lambda>s. let (m, off, st) = ttm_puts s (calls (dev_priv s)); m' = (if m \<in> set pls then m else hd pls) in
     andthen (on_dev ask)
       (if buf_mem_type (buffer (sw s) b) \<in> set pls then ok ()
        else andthen (on_dev (vmw_resource_move_notify b (Some m')))
          (on_dev (modify (upd_bo b (\<lambda>v. v\<lparr>buf_mem_type := m', buf_offset := off, buf_start := st\<rparr>))))))"

definition vmw_validate_single_buffer :: "nat \<Rightarrow> bool \<Rightarrow> unit ex" where
  "vmw_validate_single_buffer b as_mob = gets (\<lambda>s.
     if Some b = pinned_bo s \<or> (b = dummy_query_bo (sw s) \<and> dummy_query_bo_pinned s) then ok ()
     else if as_mob then put_bo [VMW_PL_MOB] b
     else on_error (\<lambda>e. if e = ERESTARTSYS then fail e else put_bo [TTM_PL_VRAM] b) (put_bo [TTM_PL_VRAM, VMW_PL_GMR] b))"

definition vmw_validate_buffers :: "unit ex" where
  "vmw_validate_buffers = gets (\<lambda>s. for_each
     (\<lambda>i. gets (\<lambda>s. vmw_validate_single_buffer (vb_bo (val_bufs (sw s) i)) (vb_mob (val_bufs (sw s) i)))) (validate_nodes (sw s)))"

section \<open>Patching the batch\<close>

definition at_loc :: "nat option \<Rightarrow> (nat \<Rightarrow> unit cmd) \<Rightarrow> unit cmd" where
  "at_loc l f = (case l of None \<Rightarrow> crash | Some a \<Rightarrow> f a)"

definition apply_reloc :: "nat \<Rightarrow> unit cmd" where
  "apply_reloc i = gets (\<lambda>s. let rl = relocs s i; b = buffer s (vb_bo (val_bufs s (rl_index rl))) in
     case buf_mem_type b of
       TTM_PL_VRAM \<Rightarrow> at_loc (rl_location rl) (\<lambda>a. andthen (put32 (a + 4) (word_at s (a + 4) + ucast (buf_offset b))) (put32 a SVGA_GMR_FRAMEBUFFER))
     | VMW_PL_GMR \<Rightarrow> at_loc (rl_location rl) (\<lambda>a. put32 a (ucast (buf_start b)))
     | VMW_PL_MOB \<Rightarrow> at_loc (rl_mob_loc rl) (\<lambda>a. put32 a (ucast (buf_start b)))
     | TTM_PL_SYSTEM \<Rightarrow> crash)"

definition vmw_free_relocations :: "vmw_sw_context \<Rightarrow> vmw_sw_context" where
  "vmw_free_relocations s = s\<lparr>cur_reloc := 0\<rparr>"

definition vmw_apply_relocations :: "unit cmd" where
  "vmw_apply_relocations = gets (\<lambda>s. andthen (for_each apply_reloc [0..<cur_reloc s]) (modify vmw_free_relocations))"

text \<open>The ids are patched into the copy in the FIFO.  The size is a number of bytes; the commit wants
  whole words.\<close>

definition fifo_copy :: "u32 \<Rightarrow> vmw_exec \<Rightarrow> u8 list" where
  "fifo_copy sz s = map (vmw_resource_relocations_apply (hw_id (binds (sw s))) (res_relocations (sw s)) (cmds (sw s))) [0..<unat sz]"

definition commit_batch :: "u32 \<Rightarrow> unit ex" where
  "commit_batch sz = andthen (on_sw vmw_apply_relocations)
     (gets (\<lambda>s. andthen (on_sw (modify vmw_resource_relocations_free))
        (if sz AND 3 \<noteq> 0 then crash else push_cmd (CmdBatch (fifo_copy sz s)))))"

section \<open>Fences\<close>

text \<open>When there is no room for the fence the FIFO is waited for, and the last seqno stands for it.  The
  result says whether it was waited for.\<close>

definition send_fence :: "(bool \<times> u32) ex" where
  "send_fence = chain (on_error (\<lambda>_. ok False) (andthen fifo_room (ok True)))
     (\<lambda>sent. if \<not> sent then gets (\<lambda>s. ok (True, last_seqno s))
       else gets (\<lambda>s. let q = next_seqno (last_seqno s) in
         andthen (modify (\<lambda>s. s\<lparr>last_seqno := q\<rparr>))
           (andthen (if fence_caps s then push_cmd (CmdFence q) else ok ()) (ok (False, q)))))"

text \<open>Whatever happens the function returns 0: without a fence object the FIFO has been waited for.\<close>

definition vmw_execbuf_fence_commands :: "bool \<Rightarrow> u32 option ex" where
  "vmw_execbuf_fence_commands handle = chain send_fence
     (\<lambda>(synced, q). on_error (\<lambda>_. ok None)
        (andthen (on_dev ask)
          (andthen (modify (\<lambda>s. if handle then s\<lparr>user_fences := q # user_fences s\<rparr> else s)) (ok (Some q)))))"

text \<open>What is copied are the error and the seqno.  When that fails the client loses its handle, and the
  fence is waited for.\<close>

definition vmw_execbuf_copy_fence_user :: "unit res \<Rightarrow> bool \<Rightarrow> u32 option \<Rightarrow> unit ex" where
  "vmw_execbuf_copy_fence_user ret rep fence =
     (if \<not> rep then ok ()
      else if ret = Inr () \<and> fence = None then crash
      else let q = (if ret = Inr () then the fence else 0) in
        on_error (\<lambda>_. if ret = Inr () then modify (\<lambda>s. s\<lparr>user_fences := remove1 q (user_fences s)\<rparr>) else ok ())
          (andthen (on_dev ask) (modify (\<lambda>s. s\<lparr>fence_reps := fence_reps s @ [(ret, q)]\<rparr>))))"

section \<open>The pinned query buffer\<close>

definition dummy_of :: "buffer_object \<Rightarrow> dummy_bo" where
  "dummy_of b = \<lparr>bo_in_vram = (buf_mem_type b = TTM_PL_VRAM), bo_in_mob = (buf_mem_type b = VMW_PL_MOB),
     bo_start = ucast (buf_start b), bo_offset = ucast (buf_offset b)\<rparr>"

definition emit_dummy_query :: "u32 \<Rightarrow> unit ex" where
  "emit_dummy_query cid = andthen fifo_room
     (gets (\<lambda>s. let b = dummy_of (buffer (sw s) (dummy_query_bo (sw s))) in
        if \<not> has_mob (sw s) then push_cmd (CmdDummyQuery (legacy_query_words b cid))
        else if \<not> bo_in_mob b then crash
        else push_cmd (CmdDummyQuery (gb_query_words b cid))))"

definition pin :: "nat \<Rightarrow> bool \<Rightarrow> unit ex" where
  "pin b p = on_dev (vmw_bo_pin b p)"

definition pin_dummy :: "bool \<Rightarrow> unit ex" where
  "pin_dummy p = gets (\<lambda>s. andthen (pin (dummy_query_bo (sw s)) p) (modify (\<lambda>s. s\<lparr>dummy_query_bo_pinned := p\<rparr>)))"

definition drop_pinned :: "unit ex" where
  "drop_pinned = gets (\<lambda>s. case pinned_bo s of
       None \<Rightarrow> ok ()
     | Some b \<Rightarrow> andthen (ref_bo b (- 1)) (modify (\<lambda>s. s\<lparr>pinned_bo := None\<rparr>)))"

definition query_barrier :: "unit ex" where
  "query_barrier = gets (\<lambda>s. if needs_post_query_barrier (sw s)
     then (let rc = res_cache (sw s) vmw_res_context in
           if \<not> rc_valid rc then crash
           else on_error (\<lambda>_. ok ()) (emit_dummy_query (hw_id (binds (sw s)) (rc_res rc))))
     else ok ())"

definition set_query_cid :: "unit ex" where
  "set_query_cid = gets (\<lambda>s. case last_query_ctx (sw s) of
       None \<Rightarrow> crash
     | Some r \<Rightarrow> on_dev (modify (\<lambda>d. d\<lparr>query_cid := res_id d r, query_cid_valid := True\<rparr>)))"

definition pin_query_bo :: "unit ex" where
  "pin_query_bo = gets (\<lambda>s. case cur_query_bo (sw s) of
       None \<Rightarrow> crash
     | Some b \<Rightarrow> andthen (pin b True) (andthen (pin_dummy True) (andthen set_query_cid
         (andthen (ref_bo b 1) (modify (\<lambda>s. s\<lparr>pinned_bo := Some b\<rparr>))))))"

definition unpin_query_bo :: "unit ex" where
  "unpin_query_bo = gets (\<lambda>s. case pinned_bo s of None \<Rightarrow> ok () | Some b \<Rightarrow> andthen (pin b False) drop_pinned)"

definition vmw_query_bo_switch_commit :: "unit ex" where
  "vmw_query_bo_switch_commit = andthen query_barrier
     (gets (\<lambda>s. if pinned_bo s \<noteq> cur_query_bo (sw s)
        then andthen unpin_query_bo (if needs_post_query_barrier (sw s) then ok () else pin_query_bo) else ok ()))"

text \<open>The recovery: after a failed reservation neither buffer is reserved, and unpinning it is a BUG.\<close>

definition vmw_execbuf_unpin_panic :: "unit ex" where
  "vmw_execbuf_unpin_panic = gets (\<lambda>s. case pinned_bo s of
       None \<Rightarrow> crash
     | Some b \<Rightarrow> andthen (pin b False) (pin_dummy False))"

text \<open>\<open>do ... while (ret == -ERESTARTSYS)\<close>; the value \<open>None\<close> is a loop that never ends.\<close>

partial_function (option) reserve_uninterrupted :: "nat list \<Rightarrow> vmw_exec \<Rightarrow> (vmw_exec \<times> unit res) option" where
  "reserve_uninterrupted bs s = (case eu_reserve bs s of
       None \<Rightarrow> None
     | Some (s1, x) \<Rightarrow> if x = Inl ERESTARTSYS then reserve_uninterrupted bs s1 else Some (s1, x))"

definition end_queries :: "u32 option \<Rightarrow> unit ex" where
  "end_queries fence = gets (\<lambda>s. if \<not> query_cid_valid (dev_priv s) then ok ()
     else if fence \<noteq> None then crash
     else andthen (emit_dummy_query (query_cid (dev_priv s))) (on_dev (modify (\<lambda>d. d\<lparr>query_cid_valid := False\<rparr>))))"

definition unpin_and_fence :: "nat \<Rightarrow> u32 option \<Rightarrow> unit ex" where
  "unpin_and_fence b fence = andthen (pin b False) (andthen (pin_dummy False)
     (chain (if fence = None then vmw_execbuf_fence_commands False else ok fence)
       (\<lambda>f. modify (\<lambda>s. set_fence f [b, dummy_query_bo (sw s)] s))))"

definition release_reserved :: "nat \<Rightarrow> u32 option \<Rightarrow> unit ex" where
  "release_reserved b fence =
     chain (on_error (\<lambda>_. andthen vmw_execbuf_unpin_panic
              (andthen (modify (\<lambda>s. mark_reserved False [b, dummy_query_bo (sw s)] s)) (ok False)))
            (andthen (end_queries fence) (ok True)))
       (\<lambda>emitted. if emitted then unpin_and_fence b fence else ok ())"

definition vmw_execbuf_release_pinned :: "u32 option \<Rightarrow> unit ex" where
  "vmw_execbuf_release_pinned fence = gets (\<lambda>s. case pinned_bo s of
       None \<Rightarrow> ok ()
     | Some b \<Rightarrow> let d = dummy_query_bo (sw s) in
         andthen (ref_bo b 1) (andthen (ref_bo d 1)
           (andthen (chain (on_error (\<lambda>_. andthen vmw_execbuf_unpin_panic (ok False)) (andthen (reserve_uninterrupted [b, d]) (ok True)))
              (\<lambda>got. if got then release_reserved b fence else ok ()))
             (andthen (ref_bo d (- 1)) (andthen (ref_bo b (- 1)) drop_pinned)))))"

definition vmw_execbuf_release_pinned_bo :: "unit ex" where
  "vmw_execbuf_release_pinned_bo = gets (\<lambda>s. if query_cid_valid (dev_priv s) then vmw_execbuf_release_pinned None else ok ())"

section \<open>A batch\<close>

definition restartsys :: "unit ex" where
  "restartsys = on_dev (on_error (\<lambda>_. fail ERESTARTSYS) ask)"

definition lock_bindings :: "unit ex" where
  "lock_bindings = gets (\<lambda>s. if binding_locked s then crash
     else andthen restartsys (modify (\<lambda>s. s\<lparr>binding_locked := True\<rparr>)))"

definition unlock_bindings :: "unit ex" where
  "unlock_bindings = modify (\<lambda>s. s\<lparr>binding_locked := False\<rparr>)"

text \<open>The commands of a client are copied into the bounce buffer, which has just been made large enough;
  those of the driver are used where they are.\<close>

definition take_commands :: "bool \<Rightarrow> cmd_mem \<Rightarrow> u32 \<Rightarrow> unit ex" where
  "take_commands from_kernel m sz =
     andthen (on_sw (modify (\<lambda>t. t\<lparr>kernel := from_kernel\<rparr>)))
       (andthen (if from_kernel then ok ()
           else andthen (vmw_resize_cmd_bounce sz) (on_dev (on_error (\<lambda>_. fail EFAULT) ask)))
         (on_sw (modify (\<lambda>t. t\<lparr>cmds := m\<rparr>))))"

definition no_cache :: vmw_res_cache_entry where
  "no_cache = \<lparr>rc_valid = False, rc_handle = 0, rc_res = 0, rc_node = None\<rparr>"

definition clear_context :: "nat option \<Rightarrow> vmw_sw_context \<Rightarrow> vmw_sw_context" where
  "clear_context pinned t = t\<lparr>cur_reloc := 0, cur_val_buf := 0, sw_fence_flags := 0, resource_list := [], cur_query_bo := pinned,
     last_query_ctx := None, needs_post_query_barrier := False, res_cache := (\<lambda>_. no_cache), validate_nodes := [], res_relocations := []\<rparr>"

definition no_staging :: "vmw_sw_context \<Rightarrow> vmw_sw_context" where
  "no_staging t = t\<lparr>res_man := (\<lambda>c. (res_man t c)\<lparr>staged := []\<rparr>)\<rparr>"

definition begin_batch :: "unit ex" where
  "begin_batch = andthen (modify (\<lambda>s. s\<lparr>eu_reserved := False, sw := clear_context (pinned_bo s) (sw s)\<rparr>))
     (andthen (gets (\<lambda>s. if res_ht_initialized s then ok ()
          else andthen (on_dev ask) (modify (\<lambda>s. s\<lparr>res_ht_initialized := True, sw := (sw s)\<lparr>res_ht := []\<rparr>\<rparr>))))
       (on_sw (modify no_staging)))"

definition check_batch :: "nat \<Rightarrow> u32 \<Rightarrow> unit ex" where
  "check_batch fuel sz = on_sw (\<lambda>t. case vmw_cmd_check_all fuel sz t of None \<Rightarrow> None | Some x \<Rightarrow> x)"

definition clear_validations :: "unit ex" where
  "clear_validations = on_sw (\<lambda>t. map_option (\<lambda>t'. (t', Inr ())) (vmw_clear_validations t))"

text \<open>The staged resources are those of the managers of the contexts of the batch, which are on its list.\<close>

definition each_man :: "(vmw_cmdbuf_res_manager \<Rightarrow> vmw_cmdbuf_res_manager option) \<Rightarrow> unit ex" where
  "each_man f = list_nodes (\<lambda>n. gets (\<lambda>s. on_sw (on_man (node_res s n) (\<lambda>m. map_option (\<lambda>m'. (m', Inr ())) (f m)))))"

definition commit_staged :: "unit ex" where
  "commit_staged = each_man vmw_cmdbuf_res_commit"

definition revert_staged :: "unit ex" where
  "revert_staged = gets (\<lambda>s. each_man (vmw_cmdbuf_res_revert (hash (sw s))))"

definition vmw_resource_list_unreference :: "unit ex" where
  "vmw_resource_list_unreference =
     andthen (list_nodes (\<lambda>n. on_sw (modify (\<lambda>t. add_ref (Res (vn_res (val_node t n))) (- 1) (upd_val n (\<lambda>v. v\<lparr>vn_staged := False\<rparr>) t)))))
       (on_sw (modify (\<lambda>t. t\<lparr>resource_list := []\<rparr>)))"

definition drop_error_resource :: "unit ex" where
  "drop_error_resource = on_sw (modify (\<lambda>t. case error_resource t of
       None \<Rightarrow> t | Some r \<Rightarrow> add_ref (Res r) (- 1) (t\<lparr>error_resource := None\<rparr>)))"

text \<open>\<open>out_unlock\<close> and \<open>out_err\<close>.  Before the first batch got as far as its table the lists are not set up.\<close>

definition out_unlock :: "errno \<Rightarrow> unit ex" where
  "out_unlock e = gets (\<lambda>s. if \<not> res_ht_initialized s then crash
     else andthen revert_staged (andthen vmw_resource_list_unreference (andthen drop_error_resource (fail e))))"

definition release_stale_pinned :: "u32 option \<Rightarrow> unit ex" where
  "release_stale_pinned fence = gets (\<lambda>s. if pinned_bo s \<noteq> None \<and> \<not> query_cid_valid (dev_priv s)
     then vmw_execbuf_release_pinned fence else ok ())"

definition out_err :: "errno \<Rightarrow> unit ex" where
  "out_err e =
     andthen (on_sw (modify (\<lambda>t. vmw_free_relocations (vmw_resource_relocations_free t))))
       (andthen (modify backoff_batch)
         (andthen (vmw_resource_list_unreserve True)
           (andthen clear_validations (andthen (release_stale_pinned None) (out_unlock e)))))"

definition validate_batch :: "nat \<Rightarrow> u32 \<Rightarrow> bool \<Rightarrow> unit ex" where
  "validate_batch fuel sz throttle =
     andthen (check_batch fuel sz)
       (andthen vmw_resources_reserve
         (andthen reserve_batch
           (andthen vmw_validate_buffers
             (andthen vmw_resources_validate
               (andthen (if throttle then on_dev ask else ok ()) lock_bindings)))))"

text \<open>When the bindings cannot be put back the code jumps past the unlocking of their mutex.\<close>

definition send_batch :: "u32 \<Rightarrow> unit ex" where
  "send_batch sz =
     andthen (gets (\<lambda>s. if has_mob (sw s) then vmw_rebind_contexts else ok ()))
       (andthen (on_error (\<lambda>_. andthen unlock_bindings (fail ENOMEM)) fifo_room) (commit_batch sz))"

definition finish_batch :: "bool \<Rightarrow> bool \<Rightarrow> u32 option ex" where
  "finish_batch user_rep out_fence =
     andthen vmw_query_bo_switch_commit
       (chain (vmw_execbuf_fence_commands user_rep)
         (\<lambda>fence. andthen (vmw_resource_list_unreserve False)
           (andthen unlock_bindings
             (andthen (modify (\<lambda>s. (set_fence fence (val_bos s) s)\<lparr>eu_reserved := False\<rparr>))
               (andthen (release_stale_pinned fence)
                 (andthen clear_validations
                   (andthen (vmw_execbuf_copy_fence_user (Inr ()) user_rep fence)
                     (andthen commit_staged
                       (andthen vmw_resource_list_unreference (ok (if out_fence then fence else None)))))))))))"

definition vmw_execbuf_process :: "nat \<Rightarrow> bool \<Rightarrow> cmd_mem \<Rightarrow> u32 \<Rightarrow> bool \<Rightarrow> bool \<Rightarrow> bool \<Rightarrow> u32 option ex" where
  "vmw_execbuf_process fuel from_kernel m sz throttle user_rep out_fence =
     andthen restartsys
       (andthen (on_error out_unlock (andthen (take_commands from_kernel m sz) begin_batch))
         (andthen (on_error out_err (andthen (validate_batch fuel sz throttle) (send_batch sz)))
           (finish_batch user_rep out_fence)))"

definition DRM_VMW_EXECBUF_VERSION :: u32 where "DRM_VMW_EXECBUF_VERSION = 1"

text \<open>The cursor update at the end sends cursor commands for the images that were snooped.\<close>

definition vmw_execbuf_ioctl :: "nat \<Rightarrow> u32 \<Rightarrow> cmd_mem \<Rightarrow> u32 \<Rightarrow> bool \<Rightarrow> bool \<Rightarrow> unit ex" where
  "vmw_execbuf_ioctl fuel version m sz throttle user_rep =
     (if version \<noteq> DRM_VMW_EXECBUF_VERSION then fail EINVAL
      else andthen (on_dev ask) (chain (vmw_execbuf_process fuel False m sz throttle user_rep False) (\<lambda>_. ok ())))"

end
