(* ===== verification/Submit_Sends.thy ===== *)
theory Submit_Sends
  imports Execbuf_Submit
begin

text \<open>
  What the submission of a batch sends to the device: commands the driver makes itself, then the batch,
  then barriers and fences; and when it fails, no batch at all.
\<close>

section \<open>Commands the operations add to the stream\<close>

definition driver_cmd :: "scrub_cmd \<Rightarrow> bool" where
  "driver_cmd c = (case c of CmdBatch _ \<Rightarrow> False | CmdDummyQuery _ \<Rightarrow> False | CmdFence _ \<Rightarrow> False | _ \<Rightarrow> True)"

definition no_batch :: "scrub_cmd \<Rightarrow> bool" where
  "no_batch c = (case c of CmdBatch _ \<Rightarrow> False | _ \<Rightarrow> True)"

text \<open>What ends a submission: queries into the dummy buffer and fences.\<close>

definition closing_cmd :: "scrub_cmd \<Rightarrow> bool" where
  "closing_cmd c = (case c of CmdDummyQuery _ \<Rightarrow> True | CmdFence _ \<Rightarrow> True | _ \<Rightarrow> False)"

lemma driver_cmd_simps [simp]:
  "driver_cmd (CmdSetShader a b c)" "driver_cmd (CmdSetRenderTarget a b c)" "driver_cmd (CmdSetTextureState a b c d)"
  "driver_cmd (CmdObject ob)" "driver_cmd cm \<Longrightarrow> no_batch cm" "closing_cmd cm \<Longrightarrow> no_batch cm"
  "closing_cmd (CmdDummyQuery ws)" "closing_cmd (CmdFence q)"
  by (simp_all add: driver_cmd_def closing_cmd_def no_batch_def split: scrub_cmd.splits)

definition extends :: "(scrub_cmd \<Rightarrow> bool) \<Rightarrow> bindings \<Rightarrow> bindings \<Rightarrow> bool" where
  "extends P w w' \<longleftrightarrow> (\<exists>cs. sent w' = sent w @ cs \<and> list_all P cs)"

lemma extends_same: "sent w' = sent w \<Longrightarrow> extends P w w'"
  by (simp add: extends_def)

lemma extends_one: "sent w' = sent w @ [c] \<Longrightarrow> P c \<Longrightarrow> extends P w w'"
  by (simp add: extends_def)

lemma extends_trans: "extends P w w1 \<Longrightarrow> extends P w1 w2 \<Longrightarrow> extends P w w2"
  by (auto simp: extends_def)

lemma extends_mono: "extends P w w' \<Longrightarrow> (\<And>c. P c \<Longrightarrow> Q c) \<Longrightarrow> extends Q w w'"
  by (auto simp: extends_def list_all_iff)

lemma extends_fold: "(\<And>p w. extends P w (f p w)) \<Longrightarrow> extends P w (fold f ps w)"
  by (induction ps arbitrary: w) (auto simp: extends_same intro: extends_trans)

lemma upd_sent [simp]: "sent (upd_info c s f w) = sent w" "sent (upd_list c g w) = sent w"
  by (simp_all add: upd_info_def upd_list_def)

lemma drop_sent [simp]: "sent (vmw_context_binding_drop c s w) = sent w" "sent (drop_used c s w) = sent w"
  by (simp_all add: vmw_context_binding_drop_def drop_used_def)

lemma scrub_funcs_extends: "extends driver_cmd w (fst (vmw_scrub_funcs bt bi rb w))"
  by (cases bt; cases "room w (tries w)")
    (simp_all add: vmw_scrub_funcs_def vmw_context_scrub_shader_def vmw_context_scrub_render_target_def
      vmw_context_scrub_texture_def submit_def Let_def extends_def)

lemma scrub_place_extends: "extends driver_cmd w (scrub_place p w)"
proof -
  obtain c s where "p = (c, s)" by (metis surj_pair)
  then show ?thesis
    using scrub_funcs_extends [of w "bi_bt (info w c s)" "info w c s" False]
    by (auto simp: scrub_place_def Let_def extends_def)
qed

lemma scrub_extends:
  "extends driver_cmd w (vmw_context_binding_state_scrub c w)"
  "extends driver_cmd w (vmw_context_binding_res_list_scrub r w)"
  unfolding vmw_context_binding_state_scrub_def vmw_context_binding_res_list_scrub_def
  by (rule extends_fold scrub_place_extends)+

lemma transfer_extends: "extends P w (vmw_context_binding_state_transfer c from w)"
proof -
  have t: "extends P w (vmw_context_binding_transfer c' bi w)" for c' bi w
    by (rule extends_same) (simp add: vmw_context_binding_transfer_def Let_def split: option.split)
  have "extends P w (f s w)" if "f = (\<lambda>s w. vmw_context_binding_transfer (Context c) (info w from s) w)" for f s w
    unfolding that by (rule t)
  then show ?thesis unfolding vmw_context_binding_state_transfer_def by (intro extends_fold) blast
qed

lemma rebind_loop_extends: "extends driver_cmd w (fst (rebind_loop c ss w))"
proof (induction c ss w rule: rebind_loop.induct)
  case (1 c w)
  show ?case by (simp add: extends_same)
next
  case (2 c s ss w)
  have "extends driver_cmd w w1 \<and> extends driver_cmd w (upd_info c s f w1)"
    if "vmw_scrub_funcs (bi_bt (info w c s)) (info w c s) True w = (w1, x)" for w1 x f
    using scrub_funcs_extends [of w "bi_bt (info w c s)" "info w c s" True] that
    by (auto simp: extends_def)
  then show ?case
    using 2 by (auto simp: Let_def split: prod.split sum.split) (metis extends_trans)
qed

section \<open>Operations on resources\<close>

definition adds :: "res_dev \<Rightarrow> res_dev \<Rightarrow> bool" where
  "adds d d' \<longleftrightarrow> extends driver_cmd (bnd d) (bnd d')"

interpretation adds: step_relation adds
  by unfold_locales (auto simp: adds_def extends_same intro: extends_trans)

lemma adds_same: "sent (bnd d') = sent (bnd d) \<Longrightarrow> adds d d'"
  by (simp add: adds_def extends_same)

lemma adds_send: "keeps adds (send cs) d"
  by (auto simp: keeps_def send_def adds_def extends_def Let_def list_all_iff split: if_splits)

lemma adds_ask: "keeps adds ask d"
  by (simp add: keeps_def ask_def adds_same)

lemma adds_bug_on: "keeps adds (bug_on P) d"
  unfolding bug_on_def by (intro adds.k_rules)

lemma adds_modify: "sent (bnd (f d)) = sent (bnd d) \<Longrightarrow> keeps adds (modify f) d"
  by (intro adds.k_modify adds_same)

lemma adds_undo: "keeps adds m d \<Longrightarrow> (\<And>d1. sent (bnd (f d1)) = sent (bnd d1)) \<Longrightarrow> keeps adds (undo f m) d"
  unfolding undo_def by (intro adds.k_rules adds_modify)

lemma adds_ignore: "keeps adds m d \<Longrightarrow> keeps adds (ignore_error m) d"
  unfolding ignore_error_def by (intro adds.k_rules)

lemma sent_same [simp]:
  "sent (bnd (upd_res r f d)) = sent (bnd d)" "sent (bnd (upd_bo b g d)) = sent (bnd d)"
  "sent (bnd (bo_ref b i d)) = sent (bnd d)" "sent (bnd (set_id r x d)) = sent (bnd d)"
  "sent (bnd (upd_lru t h d)) = sent (bnd d)" "sent (bnd (del_mob_head r d)) = sent (bnd d)"
  "sent (bnd (add_mob_head r b d)) = sent (bnd d)" "sent (bnd (drop_backup_buf r d)) = sent (bnd d)"
  "sent (bnd (backoff_buffer b d)) = sent (bnd d)" "sent (bnd (new_backup r d)) = sent (bnd d)"
  "sent (bnd (placed tf b d)) = sent (bnd d)" "sent (bnd (vmw_3d_resource_inc d)) = sent (bnd d)"
  "sent (bnd (vmw_3d_resource_dec d)) = sent (bnd d)" "sent (bnd (end_query r d)) = sent (bnd d)"
  by (simp_all add: res_updates upd_lru_def del_mob_head_def add_mob_head_def drop_backup_buf_def backoff_buffer_def
      new_backup_def placed_def vmw_3d_resource_inc_def vmw_3d_resource_dec_def end_query_def Let_def split: option.split)

lemma adds_scrub: "adds d (d\<lparr>bnd := vmw_context_binding_state_scrub c (bnd d)\<rparr>)"
  "adds d (d\<lparr>bnd := vmw_context_binding_res_list_scrub r (bnd d)\<rparr>)"
  by (simp_all add: adds_def scrub_extends)

lemma adds_define: "keeps adds (define_object k l r) d"
  unfolding define_object_def vmw_resource_alloc_id_def
  by (intro adds.k_rules adds_undo adds_send adds_bug_on adds_ask adds_modify) (simp_all add: Let_def)

lemma adds_parts: "keeps adds (fence_bo b) d" "keeps adds (clean_backup r) d" "keeps adds (scrub_resource r) d"
  "keeps adds (destroy_object k r) d"
  unfolding fence_bo_def clean_backup_def scrub_resource_def destroy_object_def
  by (intro adds_modify adds.k_modify adds_scrub adds.k_gets adds_send; simp)+

lemma adds_create: "keeps adds (f_create (res_func f) r) d"
  by (cases f; simp add: func_defs no_functions_def vmw_gb_surface_create_def vmw_gb_context_create_def
      vmw_gb_shader_create_def vmw_legacy_srf_create_def; intro adds.k_rules adds_define adds_undo adds_modify; simp)

lemma adds_destroy: "keeps adds (f_destroy (res_func f) r) d"
  by (cases f; simp add: func_defs no_functions_def vmw_gb_surface_destroy_def vmw_gb_context_destroy_def
      vmw_gb_shader_destroy_def vmw_legacy_srf_destroy_def; intro adds.k_rules adds_parts adds_modify; simp)

lemma adds_bind: "f_bind (res_func f) = Some g \<Longrightarrow> keeps adds (g r b) d"
  by (cases f; auto simp: func_defs no_functions_def vmw_gb_surface_bind_def vmw_gb_context_bind_def vmw_gb_shader_bind_def
      not_in_mob_def vmw_legacy_srf_bind_def vmw_legacy_srf_dma_def Let_def split: prod.split
      intro!: adds.k_rules adds_send adds_bug_on adds_parts)

lemma adds_unbind: "f_unbind (res_func f) = Some g \<Longrightarrow> keeps adds (g r rb b) d"
  by (cases f; auto simp: func_defs no_functions_def vmw_gb_surface_unbind_def vmw_gb_context_unbind_def
      vmw_gb_shader_unbind_def not_in_mob_def vmw_legacy_srf_unbind_def vmw_legacy_srf_dma_def Let_def split: prod.split
      intro!: adds.k_rules adds.k_modify adds_send adds_bug_on adds_parts adds_scrub)

lemma adds_do_validate: "keeps adds (vmw_resource_do_validate r b) d"
proof -
  have "keeps adds (bind_backup r b) d" for d
  proof (cases "f_bind (res_func (rs_func (rsrc d r)))"; cases b)
    fix g c assume "f_bind (res_func (rs_func (rsrc d r))) = Some g" "b = Some c"
    then show ?thesis
      unfolding bind_backup_def link_backup_def Let_def
      by (intro adds.k_gets, simp only: prod.case option.case)
        (intro adds.k_if adds.k_andthen adds.k_on_error adds.k_gets adds.k_option adds.k_ok adds.k_fail adds.k_crash
          adds_ignore adds_modify sent_same adds_destroy adds_bind; assumption)
  qed (simp_all add: bind_backup_def adds.k_gets adds.k_ok Let_def)
  then show ?thesis
    unfolding vmw_resource_do_validate_def by (intro adds.k_rules adds_modify adds_create sent_same)
qed

lemma adds_buf_alloc: "keeps adds (vmw_resource_buf_alloc r) d"
  unfolding vmw_resource_buf_alloc_def by (intro adds.k_rules adds_bug_on adds_ask adds_modify sent_same)

lemma adds_do_evict: "keeps adds (vmw_resource_do_evict r) d"
proof -
  have val: "keeps adds (bo_validate f b) d" for f b d
    unfolding bo_validate_def by (intro adds.k_rules adds_ask adds_modify sent_same)
  have drop: "sent (bnd ((if c then drop_backup_buf r else id) d1)) = sent (bnd d1)" for c d1 by simp
  have chk: "keeps adds (check_backup r b) d" for b d
    unfolding check_backup_def Let_def
    by (intro adds.k_gets adds.k_if adds.k_andthen adds.k_ok adds_undo val) (simp add: drop)
  have "keeps adds (vmw_resource_check_buffer r) d" for d
    unfolding vmw_resource_check_buffer_def
    by (intro adds.k_rules adds_undo adds_ask adds_modify sent_same adds_buf_alloc chk)
  moreover have "keeps adds (unbind_backup r b) d" for b d
    unfolding unbind_backup_def Let_def
    by (intro adds.k_rules adds_modify adds_unbind sent_same; assumption)
  ultimately show ?thesis
    unfolding vmw_resource_do_evict_def always_def
    by (intro adds.k_rules adds.k_cleanup adds_bug_on adds_destroy adds_same sent_same)
qed

lemma adds_validate_loop: "validate_loop t r b err d = Some (d', x) \<Longrightarrow> adds d d'"
proof (induction t r b err d arbitrary: d' x rule: validate_loop.induct)
  case (1 t r b err d)
  obtain d1 y where v: "vmw_resource_do_validate r b d = Some (d1, y)"
    using 1(3) by (auto simp: validate_loop.simps [of t r b err d] split: option.splits)
  then have d1: "adds d d1" using keepsD [OF adds_do_validate] by blast
  show ?case
  proof (cases "y = Inl EBUSY \<and> res_lru d1 t \<noteq> []")
    case False
    then show ?thesis using 1(3) v d1 by (auto simp: validate_loop.simps [of t r b err d] split: if_splits list.splits)
  next
    case True
    then obtain e es where l: "res_lru d1 t = e # es" by (cases "res_lru d1 t") auto
    obtain d2 z where e: "vmw_resource_do_evict e (upd_lru t (\<lambda>_. es) d1) = Some (d2, z)"
      using 1(3) v True l by (auto simp: validate_loop.simps [of t r b err d] split: option.splits)
    have a1: "adds d1 (upd_lru t (\<lambda>_. es) d1)" by (simp add: adds_same)
    have a2: "adds (upd_lru t (\<lambda>_. es) d1) d2" by (rule keepsD [OF adds_do_evict e])
    have d2: "adds d d2" by (rule adds.trans [OF d1 adds.trans [OF a1 a2]])
    have d3: "adds d (upd_lru t (\<lambda>l. l @ [e]) d2)" by (rule adds.trans [OF d2]) (simp add: adds_same)
    show ?thesis
      using 1(1,2) [OF v refl _ l e] 1(3) v True l e d2 d3
      by (auto simp: validate_loop.simps [of t r b err d] Let_def split: sum.splits if_splits intro: adds.trans)
  qed
qed

lemma adds_resource:
  "keeps adds (vmw_resource_validate r) d" "keeps adds (vmw_resource_reserve r nb) d"
  "keeps adds (vmw_resource_unreserve r new off) d" "keeps adds (vmw_resource_move_notify b to) d" "keeps adds (vmw_bo_pin b p) d"
proof -
  have loop: "keeps adds (validate_loop t r b 0) d" for t b d
    using adds_validate_loop by (auto simp: keeps_def)
  show "keeps adds (vmw_resource_validate r) d"
    unfolding vmw_resource_validate_def Let_def by (intro adds.k_rules adds_modify loop) simp
  show "keeps adds (vmw_resource_reserve r nb) d"
    unfolding vmw_resource_reserve_def by (intro adds.k_rules adds_modify adds_buf_alloc sent_same)
  show "keeps adds (vmw_resource_unreserve r new off) d"
    unfolding vmw_resource_unreserve_def switch_backup_def reserved_bug_def
    by (intro adds.k_rules adds_modify adds_bug_on) simp_all
  have moved: "keeps adds (moved_out b q) d" for q d
    unfolding moved_out_def by (intro adds.k_rules adds_modify adds_ignore adds_unbind) simp_all
  show "keeps adds (vmw_resource_move_notify b to) d"
    unfolding vmw_resource_move_notify_def by (intro adds.k_rules adds.k_for_each moved)
  show "keeps adds (vmw_bo_pin b p) d"
    unfolding vmw_bo_pin_def by (intro adds.k_rules adds_bug_on adds_ask adds_modify) simp
qed

section \<open>Operations that send nothing\<close>

definition quiet :: "res_dev \<Rightarrow> res_dev \<Rightarrow> bool" where
  "quiet d d' \<longleftrightarrow> sent (bnd d') = sent (bnd d)"

interpretation quiet: step_relation quiet
  by unfold_locales (simp_all add: quiet_def)

lemma quiet_modify: "sent (bnd (f d)) = sent (bnd d) \<Longrightarrow> keeps quiet (modify f) d"
  by (intro quiet.k_modify) (simp add: quiet_def)

lemma quiet_basic: "keeps quiet ask d" "keeps quiet (send []) d" "keeps quiet (bug_on B) d"
  by (auto simp: keeps_def ask_def send_def bug_on_def quiet_def Let_def run_simps split: if_splits)

lemma quiet_resource: "keeps quiet (vmw_resource_unreserve r new off) d" "keeps quiet (vmw_bo_pin b p) d"
  unfolding vmw_resource_unreserve_def switch_backup_def reserved_bug_def vmw_bo_pin_def
  by (intro quiet.k_rules quiet_modify quiet_basic; simp)+

section \<open>The check sends nothing\<close>

definition same_device :: "vmw_sw_context \<Rightarrow> vmw_sw_context \<Rightarrow> bool" where
  "same_device t t' \<longleftrightarrow> resource t' = resource t \<and> buffer t' = buffer t \<and> hw_id (binds t') = hw_id (binds t) \<and>
     sent (binds t') = sent (binds t) \<and> dummy_query_bo t' = dummy_query_bo t \<and> has_mob t' = has_mob t"

interpretation same_device: step_relation same_device
  by unfold_locales (simp_all add: same_device_def)

lemma binding_add_device:
  "vmw_context_binding_add c bi w = (w', x) \<Longrightarrow> sent w' = sent w \<and> hw_id w' = hw_id w"
  by (auto simp: vmw_context_binding_add_def Let_def drop_used_def vmw_context_binding_drop_def upd_info_def upd_list_def
      split: if_splits)

lemma bo_add_device: "keeps same_device (vmw_bo_to_validate_list b fl mob) t"
  unfolding vmw_bo_to_validate_list_def mark_val_buf_def
  by (intro same_device.k_rules same_device.k_modify)
    (auto simp: same_device_def fun_updates Let_def split: ht_ref.split intro!: same_device.k_rules same_device.k_modify)

interpretation device: handler_relation same_device "\<lambda>_ _. True" "\<lambda>_ _. True"
proof (unfold_locales)
  fix t :: vmw_sw_context and b fl mob a n bi
  show "keeps same_device alloc t" by (auto simp: keeps_def alloc_def same_device_def)
  show "keeps same_device (vmw_bo_to_validate_list b fl mob) t" by (rule bo_add_device)
  show "keeps same_device (add_relocation mob a b) t"
    unfolding add_relocation_def
    by (intro same_device.k_rules same_device.k_modify bo_add_device) (auto simp: same_device_def fun_updates Let_def)
  show "keeps same_device (add_binding n bi) t"
    by (auto simp: keeps_def add_binding_def same_device_def dest: binding_add_device split: prod.splits)
qed (simp_all add: same_device_def fun_updates Let_def split: option.split)

lemma check_all_device: "check_all_loop n p cur t = Some (Some (t', x)) \<Longrightarrow> same_device t t'"
proof (induction n p cur t rule: check_all_loop.induct)
  case (2 n p cur t)
  show ?case
  proof (cases "0 < sint cur")
    case True
    obtain t1 v where v: "vmw_cmd_check p cur t = Some (t1, v)" using 2(2) True by (auto split: option.splits)
    then have d: "same_device t t1" using keepsD [OF device.k_check] by (simp add: covers_def)
    show ?thesis
    proof (cases v)
      case (Inl e)
      then show ?thesis using 2(2) True v d by simp
    next
      case (Inr sz)
      then have "same_device t1 t'" using 2 True v by simp
      with d show ?thesis by (rule same_device.trans)
    qed
  qed (use 2(2) in \<open>auto simp: run_simps split: if_splits\<close>)
qed simp

section \<open>The steps of a submission\<close>

definition emits :: "(scrub_cmd \<Rightarrow> bool) \<Rightarrow> vmw_exec \<Rightarrow> vmw_exec \<Rightarrow> bool" where
  "emits P s s' \<longleftrightarrow> extends P (binds (sw s)) (binds (sw s'))"

interpretation emits: step_relation "emits P" for P
  by unfold_locales (auto simp: emits_def extends_same intro: extends_trans)

lemma emits_mono: "emits driver_cmd s s' \<Longrightarrow> emits no_batch s s'" "emits closing_cmd s s' \<Longrightarrow> emits no_batch s s'"
  unfolding emits_def by (erule extends_mono, simp)+

lemma load_store [simp]: "load (store d s) = d"
  by (simp add: load_def store_def)

lemma emits_dev: "(\<And>d. keeps adds m d) \<Longrightarrow> keeps (emits driver_cmd) (on_dev m) s"
  unfolding keeps_def
proof (intro allI impI)
  fix s' x assume m: "\<And>d. \<forall>d' x. m d = Some (d', x) \<longrightarrow> adds d d'" and run: "on_dev m s = Some (s', x)"
  obtain d where d: "m (load s) = Some (d, x)" "s' = store d s"
    using run by (auto simp: on_dev_def split: option.splits)
  then have "adds (load s) d" using m by blast
  then show "emits driver_cmd s s'" by (simp add: d(2) emits_def adds_def load_def store_def)
qed

lemma emits_quiet: "(\<And>d. keeps quiet m d) \<Longrightarrow> keeps (emits P) (on_dev m) s"
  unfolding keeps_def
proof (intro allI impI)
  fix s' x assume m: "\<And>d. \<forall>d' x. m d = Some (d', x) \<longrightarrow> quiet d d'" and run: "on_dev m s = Some (s', x)"
  obtain d where d: "m (load s) = Some (d, x)" "s' = store d s"
    using run by (auto simp: on_dev_def split: option.splits)
  then have "quiet (load s) d" using m by blast
  then show "emits P s s'" by (simp add: d(2) emits_def quiet_def load_def store_def extends_same)
qed

lemma emits_sw: "(\<And>t t' x. m t = Some (t', x) \<Longrightarrow> sent (binds t') = sent (binds t)) \<Longrightarrow> keeps (emits P) (on_sw m) s"
  by (auto simp: keeps_def on_sw_def emits_def extends_same split: option.splits)

lemma emits_sw_modify: "(\<And>t. sent (binds (f t)) = sent (binds t)) \<Longrightarrow> keeps (emits P) (on_sw (modify f)) s"
  by (rule emits_sw) (auto simp: run_simps)

lemma emits_modify: "sent (binds (sw (f s))) = sent (binds (sw s)) \<Longrightarrow> keeps (emits P) (modify f) s"
  by (rule emits.k_modify) (simp add: emits_def extends_same)

lemma emits_push: "P c \<Longrightarrow> keeps (emits P) (push_cmd c) s"
  unfolding push_cmd_def by (rule emits.k_modify) (simp add: emits_def extends_def)

lemma emits_nodes: "(\<And>n s. keeps (emits P) (f n) s) \<Longrightarrow> keeps (emits P) (list_nodes f) s"
  unfolding list_nodes_def by (intro emits.k_rules emits.k_for_each)

lemma emits_ask: "keeps (emits P) (on_dev ask) s"
  by (rule emits_quiet) (rule quiet_basic)

lemma emits_room: "keeps (emits P) fifo_room s"
  unfolding fifo_room_def by (rule emits_quiet) (rule quiet_basic)

lemma emits_restartsys: "keeps (emits driver_cmd) restartsys s"
  unfolding restartsys_def by (rule emits_dev) (intro adds.k_rules adds_ask)

lemma emits_resize: "keeps (emits driver_cmd) (vmw_resize_cmd_bounce sz) s"
  unfolding vmw_resize_cmd_bounce_def by (intro emits.k_rules emits_modify emits_ask) simp_all

lemma emits_take: "keeps (emits driver_cmd) (take_commands krn m sz) s"
  unfolding take_commands_def
  by (intro emits.k_rules emits_sw_modify emits_resize emits_dev adds.k_rules adds_ask) simp_all

lemma emits_begin: "keeps (emits driver_cmd) begin_batch s"
  unfolding begin_batch_def
  by (intro emits.k_rules emits_sw_modify emits_modify emits_ask) (simp_all add: clear_context_def no_staging_def)

lemma emits_check: "keeps (emits P) (check_batch fuel sz) s"
  unfolding check_batch_def
  by (rule emits_sw) (auto simp: vmw_cmd_check_all_def same_device_def dest: check_all_device split: option.splits)

lemma emits_bo_add: "keeps (emits P) (on_sw (vmw_bo_to_validate_list b fl mob)) s"
  by (rule emits_sw) (auto simp: same_device_def dest: keepsD [OF bo_add_device])

lemma emits_reserve_node: "keeps (emits driver_cmd) (reserve_node n) s"
  unfolding reserve_node_def Let_def by (intro emits.k_rules emits_dev adds_resource emits_bo_add)

lemma sent_mark [simp]: "sent (binds (sw (mark_reserved r bs s))) = sent (binds (sw s))"
  by (simp add: mark_reserved_def)

lemma emits_eu_reserve: "keeps (emits P) (eu_reserve bs) s"
  unfolding eu_reserve_def by (intro emits.k_rules emits_ask emits_modify) simp

lemma keeps_prod: "(\<And>a b. keeps R (k a b) s) \<Longrightarrow> keeps R (case p of (a, b) \<Rightarrow> k a b) s"
  by (cases p) simp

lemma emits_put: "keeps (emits driver_cmd) (put_bo pls b) s"
  unfolding put_bo_def Let_def
  by (intro emits.k_rules keeps_prod emits_ask emits_dev adds_resource adds_modify sent_same)

lemma emits_validate_buffer: "keeps (emits driver_cmd) (vmw_validate_single_buffer b mob) s"
  unfolding vmw_validate_single_buffer_def by (intro emits.k_rules emits_put)

lemma emits_rebind: "keeps (emits driver_cmd) (rebind_nodes ns) s"
proof (induction ns arbitrary: s)
  case (Cons n ns)
  have "keeps (emits driver_cmd) (on_sw (\<lambda>t. case vmw_context_rebind_all (vn_res (val_node t n)) (binds t) of (w, x) \<Rightarrow> Some (t\<lparr>binds := w\<rparr>, x))) s" for s
    using rebind_loop_extends [of "binds (sw s)" "Context (vn_res (val_node (sw s) n))"]
    by (auto simp: keeps_def on_sw_def emits_def vmw_context_rebind_all_def split: prod.splits)
      (metis fst_conv)
  then show ?case unfolding rebind_nodes.simps by (intro emits.k_rules Cons)
qed (simp add: emits.k_ok)

lemma emits_lock: "keeps (emits driver_cmd) lock_bindings s"
  unfolding lock_bindings_def by (intro emits.k_rules emits_restartsys emits_modify) simp

lemma emits_validate_batch: "keeps (emits driver_cmd) (validate_batch fuel sz thr) s"
  unfolding validate_batch_def vmw_resources_reserve_def reserve_batch_def vmw_validate_buffers_def vmw_resources_validate_def
  by (intro emits.k_rules emits_check emits_nodes emits_reserve_node emits_eu_reserve emits_modify emits.k_for_each
      emits_validate_buffer emits_dev adds_resource emits_ask emits_lock) simp_all

section \<open>Steps that may fence\<close>

lemma late: "keeps (emits driver_cmd) m s \<Longrightarrow> keeps (emits no_batch) m s"
  unfolding keeps_def by (auto intro: emits_mono)

lemma closing: "keeps (emits closing_cmd) m s \<Longrightarrow> keeps (emits no_batch) m s"
  unfolding keeps_def by (auto intro: emits_mono)

lemmas late_steps = emits_ask emits_room emits_eu_reserve emits_quiet emits.k_rules

lemma emits_fence: "keeps (emits closing_cmd) (vmw_execbuf_fence_commands h) s"
  unfolding vmw_execbuf_fence_commands_def send_fence_def Let_def
  by (intro late_steps keeps_prod emits_push emits_modify) simp_all

lemma emits_copy: "keeps (emits closing_cmd) (vmw_execbuf_copy_fence_user ret rep fence) s"
  unfolding vmw_execbuf_copy_fence_user_def Let_def by (intro late_steps emits_modify) simp_all

lemma emits_pin: "keeps (emits closing_cmd) (pin b p) s" "keeps (emits closing_cmd) (pin_dummy p) s"
  unfolding pin_def pin_dummy_def by (intro late_steps emits_modify quiet_resource; simp)+

lemma emits_ref: "keeps (emits P) (ref_bo b i) s"
  unfolding ref_bo_def by (rule emits_sw_modify) (simp add: add_ref_def)

lemma emits_dummy: "keeps (emits closing_cmd) (emit_dummy_query cid) s"
  unfolding emit_dummy_query_def Let_def by (intro late_steps emits_push) simp_all

lemma emits_drop_pinned: "keeps (emits P) drop_pinned s"
  unfolding drop_pinned_def by (intro emits.k_rules emits_ref emits_modify) simp

lemma emits_switch: "keeps (emits closing_cmd) vmw_query_bo_switch_commit s"
  unfolding vmw_query_bo_switch_commit_def query_barrier_def unpin_query_bo_def pin_query_bo_def set_query_cid_def Let_def
  by (intro late_steps emits_pin emits_ref emits_dummy emits_drop_pinned emits_modify quiet_modify) simp_all

lemma emits_panic: "keeps (emits closing_cmd) vmw_execbuf_unpin_panic s"
  unfolding vmw_execbuf_unpin_panic_def by (intro late_steps emits_pin)

lemma emits_uninterrupted: "keeps (emits closing_cmd) (reserve_uninterrupted bs) s"
proof -
  have "reserve_uninterrupted bs s = Some y \<Longrightarrow> emits closing_cmd s (fst y)" for s y
  proof (rule reserve_uninterrupted.raw_induct [where P = "\<lambda>bs s y. emits closing_cmd s (fst y)"], goal_cases)
    case (1 f bs s y)
    obtain s1 x where r: "eu_reserve bs s = Some (s1, x)" using 1(3) by (auto split: option.splits)
    then have e: "emits closing_cmd s s1" by (rule keepsD [OF emits_eu_reserve])
    show ?case
    proof (cases "x = Inl ERESTARTSYS")
      case True
      then have "f bs s1 = Some y" using 1(3) r by simp
      then show ?thesis by (rule emits.trans [OF e 1(2)])
    next
      case False
      then show ?thesis using 1(3) r e by auto
    qed
  qed simp
  then show ?thesis by (auto simp: keeps_def)
qed

lemma emits_release: "keeps (emits closing_cmd) (vmw_execbuf_release_pinned fence) s"
proof -
  have f: "keeps (emits closing_cmd) (modify (\<lambda>s. set_fence f [b, dummy_query_bo (sw s)] s)) s" for f b s
    by (rule emits_modify) (simp add: set_fence_def)
  have q: "keeps (emits closing_cmd) (end_queries fence) s" for s
    unfolding end_queries_def by (intro late_steps emits_dummy quiet_modify) simp
  have u: "keeps (emits closing_cmd) (unpin_and_fence b fence) s" for b s
    unfolding unpin_and_fence_def by (intro late_steps emits_pin emits_fence f)
  have r: "keeps (emits closing_cmd) (release_reserved b fence) s" for b s
    unfolding release_reserved_def by (intro late_steps emits_panic q u emits_modify) simp
  show ?thesis
    unfolding vmw_execbuf_release_pinned_def Let_def
    by (intro late_steps emits_ref emits_panic emits_uninterrupted r emits_drop_pinned)
qed

lemma emits_unreserve: "keeps (emits closing_cmd) (vmw_resource_list_unreserve backoff) s"
proof -
  have "sent (binds t') = sent (binds t)" if "end_staging backoff n t = Some (t', x)" for n t t' x
    using that transfer_extends [where P = "\<lambda>_. False"]
    by (auto simp: end_staging_def run_simps upd_val_def extends_def list_all_iff ex_in_conv split: if_splits)
  moreover have "sent (binds t') = sent (binds t)" if "drop_new_backup n t = Some (t', x)" for n t t' x
    using that by (auto simp: drop_new_backup_def drop_backup_def run_simps upd_val_def add_ref_def split: option.splits)
  ultimately have "keeps (emits closing_cmd) (unreserve_node backoff n) s" for n s
    unfolding unreserve_node_def Let_def by (intro late_steps emits_sw quiet_resource)
  then show ?thesis unfolding vmw_resource_list_unreserve_def by (rule emits_nodes)
qed

lemma emits_clear: "keeps (emits P) clear_validations s"
  unfolding clear_validations_def
  by (rule emits_sw) (auto simp: vmw_clear_validations_def Let_def drop_val_bufs split: if_splits)

lemma emits_man: "keeps (emits P) (each_man f) s"
  unfolding each_man_def
  by (intro emits_nodes emits.k_gets emits_sw) (auto simp: on_man_def put_man_def split: option.splits)

lemma emits_unreference: "keeps (emits P) vmw_resource_list_unreference s"
  unfolding vmw_resource_list_unreference_def
  by (intro emits.k_rules emits_nodes emits_sw_modify) (simp_all add: add_ref_def upd_val_def)

lemma emits_stale: "keeps (emits closing_cmd) (release_stale_pinned fence) s"
  unfolding release_stale_pinned_def by (intro late_steps emits_release)

lemma emits_out: "keeps (emits no_batch) (out_unlock e) s" "keeps (emits no_batch) (out_err e) s"
proof -
  show u: "keeps (emits no_batch) (out_unlock e) s" for s
    unfolding out_unlock_def revert_staged_def drop_error_resource_def
    by (intro emits.k_rules emits_man emits_unreference emits_sw_modify) (simp add: add_ref_def split: option.split)
  show "keeps (emits no_batch) (out_err e) s"
    unfolding out_err_def
    by (intro emits.k_rules emits_sw_modify emits_modify closing [OF emits_unreserve] emits_clear closing [OF emits_stale] u)
      (simp_all add: vmw_free_relocations_def vmw_resource_relocations_free_def backoff_batch_def)
qed

lemma emits_finish: "keeps (emits closing_cmd) (finish_batch user_rep out_fence) s"
  unfolding finish_batch_def unlock_bindings_def commit_staged_def
  by (intro emits.k_rules emits_switch emits_fence emits_unreserve emits_modify emits_stale emits_clear emits_copy emits_man
      emits_unreference) (simp_all add: set_fence_def)

end
