(* ===== verification/Submit_Inv.thy ===== *)
theory Submit_Inv
  imports Submit_Sends
begin

text \<open>
  The agreement between the driver and the device while a batch is prepared: reserving, moving buffers
  and validating keep it, and when the batch is sent every resource of the batch that can be evicted is on
  the device.
\<close>

section \<open>Moving a buffer out of a memory object\<close>

text \<open>The list of a buffer holds the resources that say they are on it.\<close>

definition heads_ok :: "res_dev \<Rightarrow> bool" where
  "heads_ok d \<longleftrightarrow> (\<forall>q b. rs_mob_head (rsrc d q) = Some b \<longleftrightarrow> q \<in> set (buf_res_list (bos d b))) \<and>
     (\<forall>b. distinct (buf_res_list (bos d b)))"

definition dev_inv :: "bool \<Rightarrow> res_dev \<Rightarrow> bool" where
  "dev_inv m d \<longleftrightarrow> res_inv m d \<and> heads_ok d"

lemma heads_iff: "heads_ok d \<Longrightarrow> q \<in> set (buf_res_list (bos d b)) \<longleftrightarrow> rs_mob_head (rsrc d q) = Some b"
  by (simp add: heads_ok_def)

lemma heads_del:
  assumes "heads_ok d" "rs_mob_head (rsrc d r) = Some b"
  shows "heads_ok (del_mob_head r d)"
proof -
  have "rs_mob_head (rsrc (del_mob_head r d) q) = (if q = r then None else rs_mob_head (rsrc d q))"
    "buf_res_list (bos (del_mob_head r d) c) = (if c = b then removeAll r (buf_res_list (bos d c)) else buf_res_list (bos d c))" for q c
    using assms(2) by (simp_all add: del_mob_head_def res_updates)
  moreover have "r \<notin> set (buf_res_list (bos d c))" if "c \<noteq> b" for c using assms(2) that heads_iff [OF assms(1)] by simp
  ultimately show ?thesis using assms unfolding heads_ok_def by (auto simp: distinct_removeAll)
qed

context object_functions
begin

lemma moved_out:
  assumes inv: "link_inv m s" and h: "heads_ok s" and fn: "rs_func (rsrc s r) = f" and b: "rs_mob_head (rsrc s r) = Some b"
  shows "returns (moved_out b r) s (\<lambda>s' x. x = Inr () \<and> link_inv m s' \<and> heads_ok s' \<and> evolves m r s s' \<and>
    res_id s' r = res_id s r \<and> rs_backup (rsrc s' r) = rs_backup (rsrc s r) \<and> rs_mob_head (rsrc s' r) = None \<and>
    next_bo s' = next_bo s \<and> (\<forall>c. buf_mem_type (bos s' c) = buf_mem_type (bos s c)))"
proof -
  have l: "rs_backup (rsrc s r) = Some b" "alive s r" "buf_mem_type (bos s b) = VMW_PL_MOB"
    using linked_facts [OF inv b] by simp_all
  have core: "core_inv s" using inv by (simp add: link_inv_def)
  let ?g = "\<lambda>s. del_mob_head r (upd_res r (\<lambda>v. v\<lparr>rs_backup_dirty := True, rs_res_dirty := False\<rparr>) s)"
  have "returns (andthen (ignore_error (unbind r True b)) (modify ?g)) s (\<lambda>s' x. x = Inr () \<and> link_inv m s' \<and> heads_ok s' \<and>
    evolves m r s s' \<and> res_id s' r = res_id s r \<and> rs_backup (rsrc s' r) = rs_backup (rsrc s r) \<and> rs_mob_head (rsrc s' r) = None \<and>
    next_bo s' = next_bo s \<and> (\<forall>c. buf_mem_type (bos s' c) = buf_mem_type (bos s c)))"
    unfolding returns_andthen returns_ignore returns_modify sum.case
  proof (rule returns_mono [OF unbind [OF core fn l(2) _ l(1), of True, unfolded law_def]], goal_cases)
    case 1
    show ?case using l(3) by (simp add: in_place_def)
  next
    case (2 s1 x)
    have s1: "rsrc s1 = rsrc s" "res_id s1 r = res_id s r" "bos s1 = bos s" "next_bo s1 = next_bo s"
      using 2(2) by (auto simp: hw_frame_def only_def fun_eq_iff)
    let ?s2 = "upd_res r (\<lambda>v. v\<lparr>rs_backup_dirty := True, rs_res_dirty := False\<rparr>) s1"
    have e1: "evolves m r s s1" using 2(2) law_evolves by blast
    have e2: "evolves m r s ?s2" by (rule evolves.trans [OF e1 evolves_res]) simp_all
    have e3: "evolves m r s (?g s1)" by (rule evolves.trans [OF e2 evolves_mob(1)])
    have h2: "rs_mob_head (rsrc ?s2 r) = Some b" using b s1(1) by (simp add: upd_res_def)
    have "heads_ok ?s2" using h s1 by (auto simp: heads_ok_def upd_res_def)
    then have "heads_ok (?g s1)" by (rule heads_del [OF _ h2])
    moreover have g: "rs_mob_head (rsrc (?g s1) r) = None" "rs_backup (rsrc (?g s1) r) = rs_backup (rsrc s r)"
      "res_id (?g s1) r = res_id s r" "next_bo (?g s1) = next_bo s" "buf_mem_type (bos (?g s1) c) = buf_mem_type (bos s c)" for c
      using s1 h2 by (simp_all add: del_mob_head_def res_updates)
    moreover have "link_inv m (?g s1)"
      by (rule unlinked_ok [OF link_but_step [OF _ e3] g(1)]) (use inv link_inv_but in blast)
    ultimately show ?case using e3 by simp
  qed
  then show ?thesis unfolding moved_out_def returns_basic by (simp add: has_unbind fn)
qed

end

lemma moved_out_law:
  assumes "link_inv m s" "heads_ok s" "rs_mob_head (rsrc s r) = Some b"
  shows "returns (moved_out b r) s (\<lambda>s' x. x = Inr () \<and> link_inv m s' \<and> heads_ok s' \<and> evolves m r s s' \<and>
    res_id s' r = res_id s r \<and> rs_backup (rsrc s' r) = rs_backup (rsrc s r) \<and> rs_mob_head (rsrc s' r) = None \<and>
    next_bo s' = next_bo s \<and> (\<forall>c. buf_mem_type (bos s' c) = buf_mem_type (bos s c)))"
  using evictable_tables [OF table_facts(1) [THEN conjunct2], of "rs_func (rsrc s r)"] linked_facts [OF assms(1,3)] assms
    contexts.moved_out [of m s r b] surfaces.moved_out [of m s r b] shaders.moved_out [of m s r b] legacy_surfaces.moved_out [of m s r b]
  by auto

text \<open>What stays the same while the resources and buffers of a batch are prepared, for every resource.\<close>

definition placed_as :: "res_dev \<Rightarrow> res_dev \<Rightarrow> bool" where
  "placed_as d d' \<longleftrightarrow> (\<forall>q. rs_func (rsrc d' q) = rs_func (rsrc d q)) \<and>
     (\<forall>q. rs_backup (rsrc d' q) = rs_backup (rsrc d q)) \<and>
     (\<forall>t. set (res_lru d' t) \<subseteq> set (res_lru d t)) \<and> next_bo d \<le> next_bo d'"

interpretation placed_as: step_relation placed_as
  by unfold_locales (auto simp: placed_as_def, meson subsetD)

lemma lru_inv_cong:
  assumes "lru_inv s" "\<And>t. distinct (res_lru s' t)" "\<And>t. set (res_lru s' t) \<subseteq> set (res_lru s t)"
    "\<And>q. rs_func (rsrc s' q) = rs_func (rsrc s q)" "\<And>q. res_id s' q = res_id s q"
    "\<And>q. rs_pin_count (rsrc s' q) = rs_pin_count (rsrc s q)"
  shows "lru_inv s'"
  using assms unfolding lru_inv_def by (metis subsetD)

lemma evolves_all:
  assumes "evolves m r s s'" "res_id s' r = res_id s r" "rs_backup (rsrc s' r) = rs_backup (rsrc s r)" "lru_inv s"
  shows "lru_inv s'" "placed_as s s'"
proof -
  have o: "only r s s'" using assms(1) by (simp add: evolves_def)
  have q: "rs_func (rsrc s' q) = rs_func (rsrc s q)" "res_id s' q = res_id s q" "rs_pin_count (rsrc s' q) = rs_pin_count (rsrc s q)"
    "rs_backup (rsrc s' q) = rs_backup (rsrc s q)" for q
    using o assms(2,3) by (cases "q = r"; simp add: only_def)+
  have l: "res_lru s' = res_lru s" using o by (simp add: only_def)
  show "lru_inv s'" by (rule lru_inv_cong [OF assms(4)]) (use assms(4) l q in \<open>simp_all add: lru_inv_def\<close>)
  show "placed_as s s'" using q l assms(1) by (simp add: placed_as_def evolves_def mono_bo_def)
qed

lemma moved_all:
  "dev_inv m d \<Longrightarrow> distinct ps \<Longrightarrow> (\<And>q. q \<in> set ps \<Longrightarrow> rs_mob_head (rsrc d q) = Some b) \<Longrightarrow>
   returns (for_each (moved_out b) ps) d (\<lambda>d' x. x = Inr () \<and> dev_inv m d' \<and> placed_as d d' \<and> next_bo d' = next_bo d \<and>
     (\<forall>c. buf_mem_type (bos d' c) = buf_mem_type (bos d c)) \<and>
     (\<forall>q. rs_mob_head (rsrc d' q) = (if q \<in> set ps then None else rs_mob_head (rsrc d q))))"
proof (induction ps arbitrary: d)
  case Nil
  then show ?case by (simp add: returns_simps)
next
  case (Cons p ps)
  have i: "link_inv m d" "lru_inv d" "heads_ok d" using Cons(2) by (simp_all add: dev_inv_def res_inv_def)
  show ?case
    unfolding for_each.simps returns_andthen
  proof (rule returns_mono [OF moved_out_law [OF i(1,3) Cons(4)]], simp, goal_cases)
    case (1 d1 x)
    have d1: "lru_inv d1" "placed_as d d1" using evolves_all [of m p d d1] 1(2) i(2) by simp_all
    have o: "q \<noteq> p \<Longrightarrow> rsrc d1 q = rsrc d q" for q using 1(2) by (simp add: evolves_def only_def)
    have "returns (for_each (moved_out b) ps) d1 (\<lambda>d' x. x = Inr () \<and> dev_inv m d' \<and> placed_as d1 d' \<and> next_bo d' = next_bo d1 \<and>
       (\<forall>c. buf_mem_type (bos d' c) = buf_mem_type (bos d1 c)) \<and>
       (\<forall>q. rs_mob_head (rsrc d' q) = (if q \<in> set ps then None else rs_mob_head (rsrc d1 q))))"
    proof (rule Cons.IH)
      show "dev_inv m d1" using 1(2) d1 by (simp add: dev_inv_def res_inv_def)
      show "distinct ps" using Cons(3) by simp
      show "rs_mob_head (rsrc d1 q) = Some b" if "q \<in> set ps" for q
        using that Cons(3) Cons(4) [of q] o [of q] by (cases "q = p") auto
    qed
    then show ?case
      using 1(2) d1(2) o by (auto elim!: returns_mono intro: placed_as.trans)
  qed
qed

lemma move_notify_law:
  assumes "dev_inv m d"
  shows "returns (vmw_resource_move_notify b to) d (\<lambda>d' x. x = Inr () \<and> dev_inv m d' \<and> placed_as d d' \<and> next_bo d' = next_bo d \<and>
     (\<forall>c. buf_mem_type (bos d' c) = buf_mem_type (bos d c)) \<and>
     (\<forall>t. to = Some t \<and> t \<noteq> VMW_PL_MOB \<longrightarrow> (\<forall>q. rs_mob_head (rsrc d' q) \<noteq> Some b)))"
proof (cases "\<exists>t. to = Some t \<and> t \<noteq> VMW_PL_MOB")
  case False
  then show ?thesis using assms by (auto simp: vmw_resource_move_notify_def returns_simps split: option.split)
next
  case True
  then obtain t where t: "to = Some t" "t \<noteq> VMW_PL_MOB" by blast
  have h: "heads_ok d" using assms by (simp add: dev_inv_def)
  have "returns (for_each (moved_out b) (buf_res_list (bos d b))) d (\<lambda>d' x. x = Inr () \<and> dev_inv m d' \<and> placed_as d d' \<and>
     next_bo d' = next_bo d \<and> (\<forall>c. buf_mem_type (bos d' c) = buf_mem_type (bos d c)) \<and>
     (\<forall>q. rs_mob_head (rsrc d' q) = (if q \<in> set (buf_res_list (bos d b)) then None else rs_mob_head (rsrc d q))))"
    by (rule moved_all [OF assms]) (use h in \<open>simp_all add: heads_ok_def\<close>)
  then show ?thesis
    unfolding heads_iff [OF h] using t
    by (auto simp: vmw_resource_move_notify_def returns_basic elim!: returns_mono split: if_splits) (metis option.distinct(1))
qed

section \<open>Changes of a buffer, the list and the calls\<close>

lemma dev_inv_cong:
  assumes "dev_inv m d" "rsrc d' = rsrc d" "res_id d' = res_id d" "sent (bnd d') = sent (bnd d)" "res_ids d' = res_ids d"
    "\<And>t. distinct (res_lru d' t)" "\<And>t. set (res_lru d' t) \<subseteq> set (res_lru d t)" "next_bo d' = next_bo d"
    "\<And>b. buf_res_list (bos d' b) = buf_res_list (bos d b)"
    "\<And>q b. rs_mob_head (rsrc d q) = Some b \<Longrightarrow> buf_mem_type (bos d' b) = VMW_PL_MOB"
  shows "dev_inv m d'"
proof -
  have i: "link_inv m d" "lru_inv d" "heads_ok d" using assms(1) by (simp_all add: dev_inv_def res_inv_def)
  have "core_inv d'" by (rule core_inv_cong [of d]) (use i(1) assms in \<open>simp_all add: link_inv_def\<close>)
  then have "link_inv m d'"
    using i(1) assms(2,3,8,10) by (auto simp: link_inv_def backup_bound_def mob_ok_def)
  moreover have "lru_inv d'" by (rule lru_inv_cong [OF i(2) assms(6,7)]) (simp_all add: assms)
  moreover have "heads_ok d'" using i(3) assms(2,9) by (simp add: heads_ok_def)
  ultimately show ?thesis by (simp add: dev_inv_def res_inv_def)
qed

lemma dev_inv_lru: "dev_inv m d \<Longrightarrow> distinct (res_lru d t)"
  by (simp add: dev_inv_def res_inv_def lru_inv_def)

lemma dev_inv_linked: "dev_inv m d \<Longrightarrow> rs_mob_head (rsrc d q) = Some b \<Longrightarrow> buf_mem_type (bos d b) = VMW_PL_MOB"
  using linked_facts by (auto simp: dev_inv_def res_inv_def)

lemma dev_inv_place:
  assumes "dev_inv m d" "t = VMW_PL_MOB \<or> (\<forall>q. rs_mob_head (rsrc d q) \<noteq> Some b)"
  shows "dev_inv m (upd_bo b (\<lambda>v. v\<lparr>buf_mem_type := t, buf_offset := off, buf_start := st\<rparr>) d)"
  by (rule dev_inv_cong [OF assms(1)])
    (use assms(2) dev_inv_lru [OF assms(1)] dev_inv_linked [OF assms(1)] in \<open>auto simp: upd_bo_def res_id_def fun_eq_iff\<close>)

lemma dev_inv_calls [simp]: "dev_inv m (d\<lparr>calls := n\<rparr>) \<longleftrightarrow> dev_inv m d"
proof
  show "dev_inv m d" if "dev_inv m (d\<lparr>calls := n\<rparr>)"
    by (rule dev_inv_cong [OF that]) (use dev_inv_lru [OF that] dev_inv_linked [OF that] in \<open>auto simp: res_id_def fun_eq_iff\<close>)
  show "dev_inv m (d\<lparr>calls := n\<rparr>)" if "dev_inv m d"
    by (rule dev_inv_cong [OF that]) (use dev_inv_lru [OF that] dev_inv_linked [OF that] in \<open>auto simp: res_id_def fun_eq_iff\<close>)
qed

lemma dev_inv_off_lru: "dev_inv m d \<Longrightarrow> dev_inv m (upd_lru t (removeAll r) d)"
  by (rule dev_inv_cong) (use dev_inv_lru dev_inv_linked in \<open>auto simp: upd_lru_def res_id_def fun_eq_iff distinct_removeAll\<close>)

lemma new_backup_simps:
  "rsrc (new_backup r d) = (rsrc d)(r := (rsrc d r)\<lparr>rs_backup := Some (next_bo d)\<rparr>)"
  "res_lru (new_backup r d) = res_lru d" "next_bo (new_backup r d) = Suc (next_bo d)"
  "b \<noteq> next_bo d \<Longrightarrow> bos (new_backup r d) b = bos d b" "buf_res_list (bos (new_backup r d) (next_bo d)) = []"
  "buf_mem_type (bos (new_backup r d) (next_bo d)) = (if f_in_mob (tab d r) then VMW_PL_MOB else VMW_PL_GMR)"
  by (simp_all add: new_backup_def Let_def upd_res_def)

lemma dev_inv_new:
  assumes "dev_inv m d" "rs_backup (rsrc d r) = None"
  shows "dev_inv m (new_backup r d)"
proof -
  let ?d = "new_backup r d"
  have i: "link_inv m d" "lru_inv d" "heads_ok d" using assms(1) by (simp_all add: dev_inv_def res_inv_def)
  have un: "rs_mob_head (rsrc d r) = None" using linked_facts [OF i(1), of r] assms(2) by (cases "rs_mob_head (rsrc d r)") auto
  have below: "rs_mob_head (rsrc d q) = Some b \<Longrightarrow> b < next_bo d" for q b
    using linked_facts [OF i(1), of q b] i(1) by (auto simp: link_inv_def backup_bound_def)
  have e: "evolves m r d ?d" by (rule evolves_new)
  have "link_inv m ?d"
    by (rule unlinked_ok [OF link_but_step [OF _ e]]) (use i(1) link_inv_but un in \<open>auto simp: new_backup_simps\<close>)
  moreover have "lru_inv ?d" by (rule lru_inv_cong [OF i(2)]) (use i(2) in \<open>simp_all add: lru_inv_def new_backup_simps\<close>)
  moreover have "heads_ok ?d"
    unfolding heads_ok_def
  proof (intro conjI allI)
    fix q b
    have "rs_mob_head (rsrc ?d q) = rs_mob_head (rsrc d q)" by (simp add: new_backup_simps)
    then show "rs_mob_head (rsrc ?d q) = Some b \<longleftrightarrow> q \<in> set (buf_res_list (bos ?d b))"
      using below [of q b] heads_iff [OF i(3), of q b] by (cases "b = next_bo d") (auto simp: new_backup_simps)
    show "distinct (buf_res_list (bos ?d b))"
      using i(3) by (cases "b = next_bo d") (simp_all add: new_backup_simps heads_ok_def)
  qed
  ultimately show ?thesis by (simp add: dev_inv_def res_inv_def)
qed

text \<open>Taking a resource off the list, with a new backup when it needs one.\<close>

definition taken :: "nat \<Rightarrow> res_dev \<Rightarrow> res_dev \<Rightarrow> bool" where
  "taken r d d' \<longleftrightarrow> (\<forall>q. rs_func (rsrc d' q) = rs_func (rsrc d q)) \<and> (\<forall>q. q \<noteq> r \<longrightarrow> rs_backup (rsrc d' q) = rs_backup (rsrc d q)) \<and>
     (\<forall>t. set (res_lru d' t) \<subseteq> set (res_lru d t)) \<and> next_bo d \<le> next_bo d' \<and> r \<notin> set (res_lru d' (rs_type d r)) \<and>
     (\<forall>b. buf_mem_type (bos d b) = VMW_PL_MOB \<longrightarrow> buf_mem_type (bos d' b) = VMW_PL_MOB)"

lemma reserve_law:
  assumes "dev_inv m d"
  shows "returns (vmw_resource_reserve r nb) d (\<lambda>d' x. dev_inv m d' \<and> taken r d d')"
proof -
  let ?d = "upd_lru (rs_type d r) (removeAll r) d"
  have i: "dev_inv m ?d" by (rule dev_inv_off_lru [OF assms])
  have t: "taken r d (?d\<lparr>calls := k\<rparr>)" "taken r d ?d" for k by (auto simp: taken_def upd_lru_def)
  have "dev_inv m (new_backup r (?d\<lparr>calls := k\<rparr>)) \<and> taken r d (new_backup r (?d\<lparr>calls := k\<rparr>))"
    if "rs_backup (rsrc d r) = None" "f_needs_backup (tab d r)" for k
  proof
    show "dev_inv m (new_backup r (?d\<lparr>calls := k\<rparr>))" using dev_inv_new [of m "?d\<lparr>calls := k\<rparr>" r] i that(1) by simp
    have "buf_mem_type (bos (new_backup r (?d\<lparr>calls := k\<rparr>)) b) = VMW_PL_MOB" if "buf_mem_type (bos d b) = VMW_PL_MOB" for b
      using that \<open>f_needs_backup (tab d r)\<close> table_facts(1) by (cases "b = next_bo d") (simp_all add: new_backup_simps [of _ "?d\<lparr>calls := k\<rparr>", simplified])
    then show "taken r d (new_backup r (?d\<lparr>calls := k\<rparr>))" by (auto simp: taken_def new_backup_simps)
  qed
  note new = this
  show ?thesis
  proof (cases "f_needs_backup (tab d r) \<and> rs_backup (rsrc d r) = None \<and> \<not> nb")
    case False
    then have "vmw_resource_reserve r nb d = Some (?d, Inr ())"
      by (auto simp: vmw_resource_reserve_def andthen_def chain_def run_simps)
    then show ?thesis using i t(2) by (simp add: returns_def)
  next
    case True
    define D where "D = ?d"
    have D: "rsrc D = rsrc d" by (simp add: D_def)
    have buf: "returns (vmw_resource_buf_alloc r) D Q"
      if "\<And>k e. Q (D\<lparr>calls := k\<rparr>) (Inl e)" "\<And>k. Q (new_backup r (D\<lparr>calls := k\<rparr>)) (Inr ())" for Q
      using that True
      by (cases "oc D (calls D)"; cases "oc D (Suc (calls D))")
        (simp_all add: vmw_resource_buf_alloc_def returns_andthen returns_basic returns_modify returns_ask D)
    have "returns (vmw_resource_buf_alloc r) D (\<lambda>d' x. dev_inv m d' \<and> taken r d d')"
    proof (rule buf)
      show "dev_inv m (D\<lparr>calls := k\<rparr>) \<and> taken r d (D\<lparr>calls := k\<rparr>)" for k using i t(1) by (simp add: D_def)
      show "dev_inv m (new_backup r (D\<lparr>calls := k\<rparr>)) \<and> taken r d (new_backup r (D\<lparr>calls := k\<rparr>))" for k
        unfolding D_def by (rule new) (use True in blast)+
    qed
    then show ?thesis
      using True by (simp add: vmw_resource_reserve_def returns_andthen returns_basic returns_modify D_def)
  qed
qed

section \<open>The lists of the software context\<close>

definition lists_kept :: "vmw_sw_context \<Rightarrow> vmw_sw_context \<Rightarrow> bool" where
  "lists_kept t t' \<longleftrightarrow> resource_list t' = resource_list t \<and> (\<forall>n. vn_res (val_node t' n) = vn_res (val_node t n)) \<and>
     cur_val_buf t \<le> cur_val_buf t' \<and>
     (\<forall>i < cur_val_buf t. vb_bo (val_bufs t' i) = vb_bo (val_bufs t i) \<and> vb_mob (val_bufs t' i) = vb_mob (val_bufs t i)) \<and>
     relocs t' = relocs t \<and> cur_reloc t' = cur_reloc t \<and> res_relocations t' = res_relocations t \<and> cmds t' = cmds t \<and>
     dummy_query_bo t' = dummy_query_bo t \<and> has_mob t' = has_mob t"

interpretation lists_kept: step_relation lists_kept
  by unfold_locales (auto simp: lists_kept_def)

lemma bo_add_lists: "keeps lists_kept (vmw_bo_to_validate_list b fl mob) t"
  unfolding vmw_bo_to_validate_list_def mark_val_buf_def
  by (intro lists_kept.k_rules lists_kept.k_modify)
    (auto simp: lists_kept_def fun_updates Let_def split: ht_ref.split intro!: lists_kept.k_rules lists_kept.k_modify)

lemma bo_add_entry:
  assumes "sw_inv t" "vmw_bo_to_validate_list b fl mob t = Some (t', Inr i)"
  shows "i < cur_val_buf t' \<and> vb_bo (val_bufs t' i) = b \<and> vb_mob (val_bufs t' i) = mob"
proof (cases "map_of (res_ht t) (Bo b)")
  case None
  then show ?thesis
    using assms(2)
    by (auto simp: vmw_bo_to_validate_list_def mark_val_buf_def new_val_buf_def add_ref_def exec_simps Let_def split: if_splits)
next
  case (Some v)
  then obtain j where j: "v = Val_buf j" using ht_kinds(2) [OF assms(1), of b] by (cases v) auto
  then have "j < cur_val_buf t" "vb_bo (val_bufs t j) = b" using Some ht_buf [OF assms(1), of b j] by simp_all
  then show ?thesis
    using assms(2) Some j by (auto simp: vmw_bo_to_validate_list_def mark_val_buf_def exec_simps split: if_splits)
qed

lemma store_sw:
  "lists_kept (sw s) (sw (store d s))" "sw_inv (sw (store d s)) \<longleftrightarrow> sw_inv (sw s)"
  "pinned_bo (store d s) = pinned_bo s" "dummy_query_bo_pinned (store d s) = dummy_query_bo_pinned s"
  by (simp_all add: store_def lists_kept_def sw_inv_def)

section \<open>Steps of the submission\<close>

text \<open>What all of them keep of the software context and the pinned buffer.\<close>

definition frame_ex :: "vmw_exec \<Rightarrow> vmw_exec \<Rightarrow> bool" where
  "frame_ex s s' \<longleftrightarrow> lists_kept (sw s) (sw s') \<and> (sw_inv (sw s) \<longrightarrow> sw_inv (sw s')) \<and> pinned_bo s' = pinned_bo s \<and>
     dummy_query_bo_pinned s' = dummy_query_bo_pinned s"

interpretation frame_ex: step_relation frame_ex
proof
  show "frame_ex s s" for s by (simp add: frame_ex_def)
  show "frame_ex s s2" if "frame_ex s s1" "frame_ex s1 s2" for s s1 s2
    using that lists_kept.trans [of "sw s" "sw s1" "sw s2"] by (simp add: frame_ex_def)
qed

lemma frame_dev: "on_dev m s = Some (s', x) \<Longrightarrow> frame_ex s s' \<and> m (load s) = Some (load s', x)"
  by (auto simp: on_dev_def frame_ex_def store_sw split: option.splits)

lemma on_dev_cases:
  assumes "on_dev m s = Some (s', x)"
  obtains d where "m (load s) = Some (d, x)" "s' = store d s"
  using assms by (auto simp: on_dev_def split: option.splits)

lemma load_sw:
  assumes "same_device (sw s) t"
  shows "rsrc (load (s\<lparr>sw := t\<rparr>)) = rsrc (load s)" "bos (load (s\<lparr>sw := t\<rparr>)) = bos (load s)"
    "res_id (load (s\<lparr>sw := t\<rparr>)) = res_id (load s)" "sent (bnd (load (s\<lparr>sw := t\<rparr>))) = sent (bnd (load s))"
    "res_ids (load (s\<lparr>sw := t\<rparr>)) = res_ids (load s)" "res_lru (load (s\<lparr>sw := t\<rparr>)) = res_lru (load s)"
    "next_bo (load (s\<lparr>sw := t\<rparr>)) = next_bo (load s)"
  using assms by (simp_all add: load_def same_device_def res_id_def fun_eq_iff)

lemma dev_inv_sw: "dev_inv m (load s) \<Longrightarrow> same_device (sw s) t \<Longrightarrow> dev_inv m (load (s\<lparr>sw := t\<rparr>))"
  by (rule dev_inv_cong) (auto simp: load_sw dest: dev_inv_lru dev_inv_linked)

lemma bo_add_step:
  assumes "vmw_bo_to_validate_list b fl mob (sw s) = Some (t, x)" "dev_inv m (load s)"
  shows "dev_inv m (load (s\<lparr>sw := t\<rparr>))" "frame_ex s (s\<lparr>sw := t\<rparr>)" "rsrc (load (s\<lparr>sw := t\<rparr>)) = rsrc (load s)"
    "bos (load (s\<lparr>sw := t\<rparr>)) = bos (load s)" "res_lru (load (s\<lparr>sw := t\<rparr>)) = res_lru (load s)"
proof -
  have d: "same_device (sw s) t" by (rule keepsD [OF bo_add_device assms(1)])
  show "dev_inv m (load (s\<lparr>sw := t\<rparr>))" by (rule dev_inv_sw [OF assms(2) d])
  show "frame_ex s (s\<lparr>sw := t\<rparr>)"
    using keepsD [OF bo_add_lists assms(1)] bo_to_validate_list_inv [OF _ assms(1)] by (simp add: frame_ex_def)
qed (use load_sw [OF keepsD [OF bo_add_device assms(1)]] in simp_all)

text \<open>A resource that is reserved for the batch, with its backup on the validation list.\<close>

definition resv :: "nat \<Rightarrow> vmw_exec \<Rightarrow> bool" where
  "resv n s \<longleftrightarrow> (let r = node_res s n; d = load s in r \<notin> set (res_lru d (rs_type d r)) \<and>
     (\<forall>b. rs_backup (rsrc d r) = Some b \<longrightarrow>
        (\<exists>i < cur_val_buf (sw s). vb_bo (val_bufs (sw s) i) = b \<and> vb_mob (val_bufs (sw s) i) = f_needs_backup (tab d r))))"

lemma resv_kept:
  assumes "resv n s" "frame_ex s s'" "rs_func (rsrc (load s') (node_res s n)) = rs_func (rsrc (load s) (node_res s n))"
    "rs_backup (rsrc (load s') (node_res s n)) = rs_backup (rsrc (load s) (node_res s n))"
    "\<And>t. set (res_lru (load s') t) \<subseteq> set (res_lru (load s) t)"
  shows "resv n s'"
proof -
  have l: "node_res s' n = node_res s n" "cur_val_buf (sw s) \<le> cur_val_buf (sw s')"
    "i < cur_val_buf (sw s) \<Longrightarrow> vb_bo (val_bufs (sw s') i) = vb_bo (val_bufs (sw s) i) \<and> vb_mob (val_bufs (sw s') i) = vb_mob (val_bufs (sw s) i)" for i
    using assms(2) by (simp_all add: frame_ex_def lists_kept_def node_res_def)
  show ?thesis
    unfolding resv_def Let_def l(1) assms(3,4)
  proof (intro conjI allI impI)
    show "node_res s n \<notin> set (res_lru (load s') (rs_type (load s) (node_res s n)))"
      using assms(1,5) by (auto simp: resv_def Let_def)
    fix b assume "rs_backup (rsrc (load s) (node_res s n)) = Some b"
    then obtain i where "i < cur_val_buf (sw s)" "vb_bo (val_bufs (sw s) i) = b" "vb_mob (val_bufs (sw s) i) = f_needs_backup (tab (load s) (node_res s n))"
      using assms(1) by (auto simp: resv_def Let_def)
    then show "\<exists>i < cur_val_buf (sw s'). vb_bo (val_bufs (sw s') i) = b \<and> vb_mob (val_bufs (sw s') i) = f_needs_backup (tab (load s) (node_res s n))"
      using l(2,3) by (intro exI [of _ i]) auto
  qed
qed

lemma reserve_node_ok:
  assumes "reserve_node n s = Some (s', Inr ())" "dev_inv m (load s)" "sw_inv (sw s)"
  shows "dev_inv m (load s') \<and> frame_ex s s' \<and> taken (node_res s n) (load s) (load s') \<and> resv n s'"
proof -
  let ?r = "node_res s n"
  have nr: "node_res (store d s) n = ?r" "resource (sw (store d s)) = rsrc d" for d by (simp_all add: node_res_def store_def)
  obtain s1 where s1: "on_dev (vmw_resource_reserve ?r (vn_no_buffer (val_node (sw s) n))) s = Some (s1, Inr ())"
    and rest1: "(let v = resource (sw s1) (node_res s1 n) in case rs_backup v of None \<Rightarrow> ok ()
      | Some b \<Rightarrow> chain (on_sw (vmw_bo_to_validate_list b DRM_VMW_FENCE_FLAG_EXEC (f_needs_backup (res_func (rs_func v))))) (\<lambda>_. ok ())) s1 = Some (s', Inr ())"
    using assms(1) unfolding reserve_node_def andthen_Some run_simps(4) by blast
  obtain d1 where d1: "vmw_resource_reserve ?r (vn_no_buffer (val_node (sw s) n)) (load s) = Some (d1, Inr ())" "s1 = store d1 s"
    using s1 by (rule on_dev_cases)
  have rest: "(case rs_backup (rsrc d1 ?r) of None \<Rightarrow> ok ()
      | Some b \<Rightarrow> chain (on_sw (vmw_bo_to_validate_list b DRM_VMW_FENCE_FLAG_EXEC (f_needs_backup (tab d1 ?r)))) (\<lambda>_. ok ())) (store d1 s) = Some (s', Inr ())"
    using rest1 unfolding d1(2) nr Let_def .
  have i: "dev_inv m d1" "taken ?r (load s) d1" using returnsD [OF reserve_law [OF assms(2)] d1(1)] by simp_all
  have f: "frame_ex s (store d1 s)" by (simp add: frame_ex_def store_sw)
  have inv: "sw_inv (sw (store d1 s))" using assms(3) store_sw(2) by blast
  have off: "?r \<notin> set (res_lru d1 (rs_type d1 ?r))" using i(2) by (auto simp: taken_def)
  show ?thesis
  proof (cases "rs_backup (rsrc d1 ?r)")
    case None
    then have "s' = store d1 s" using rest by (simp add: run_simps)
    then show ?thesis using i f off None nr by (simp add: resv_def Let_def)
  next
    case (Some b)
    then obtain t j where t: "vmw_bo_to_validate_list b DRM_VMW_FENCE_FLAG_EXEC (f_needs_backup (tab d1 ?r)) (sw (store d1 s)) = Some (t, Inr j)"
      "s' = (store d1 s)\<lparr>sw := t\<rparr>"
      using rest by (auto simp: exec_simps on_sw_def split: option.splits)
    note st = bo_add_step [OF t(1), of m, unfolded load_store, OF i(1), folded t(2)]
    have "j < cur_val_buf (sw s') \<and> vb_bo (val_bufs (sw s') j) = b \<and> vb_mob (val_bufs (sw s') j) = f_needs_backup (tab d1 ?r)"
      using bo_add_entry [OF inv t(1)] t(2) by simp
    moreover have "node_res s' n = ?r" using st(2) nr by (simp add: frame_ex_def lists_kept_def node_res_def)
    ultimately have "resv n s'" using off Some st(3,5) by (auto simp: resv_def Let_def)
    moreover have "taken ?r (load s) (load s')" using i(2) st(3-5) load_sw(7) [OF keepsD [OF bo_add_device t(1)]] t(2) by (simp add: taken_def)
    ultimately show ?thesis using st frame_ex.trans [OF f st(2)] by simp
  qed
qed

lemma for_each_Cons: "for_each f (a # as) s = Some (s', Inr ()) \<longleftrightarrow> (\<exists>s1. f a s = Some (s1, Inr ()) \<and> for_each f as s1 = Some (s', Inr ()))"
  by (simp add: andthen_Some)

text \<open>Buffers that are not validated because they are pinned.\<close>

definition is_pinned :: "vmw_exec \<Rightarrow> nat \<Rightarrow> bool" where
  "is_pinned s b \<longleftrightarrow> pinned_bo s = Some b \<or> (b = dummy_query_bo (sw s) \<and> dummy_query_bo_pinned s)"

lemma frame_pinned: "frame_ex s s' \<Longrightarrow> is_pinned s' = is_pinned s"
  by (simp add: frame_ex_def lists_kept_def is_pinned_def fun_eq_iff)

lemma frame_node: "frame_ex s s' \<Longrightarrow> node_res s' = node_res s"
  by (simp add: frame_ex_def lists_kept_def node_res_def fun_eq_iff)

lemma reserve_nodes_ok:
  "for_each reserve_node ns s = Some (s', Inr ()) \<Longrightarrow> dev_inv m (load s) \<Longrightarrow> sw_inv (sw s) \<Longrightarrow>
   distinct (map (node_res s) ns) \<Longrightarrow> (\<And>k. k \<in> K \<Longrightarrow> resv k s \<and> node_res s k \<notin> node_res s ` set ns) \<Longrightarrow>
   dev_inv m (load s') \<and> frame_ex s s' \<and> (\<forall>k \<in> K \<union> set ns. resv k s') \<and> (\<forall>q. rs_func (rsrc (load s') q) = rs_func (rsrc (load s) q)) \<and>
   (\<forall>b. buf_mem_type (bos (load s) b) = VMW_PL_MOB \<longrightarrow> buf_mem_type (bos (load s') b) = VMW_PL_MOB)"
proof (induction ns arbitrary: s K)
  case Nil
  then show ?case by (simp add: run_simps)
next
  case (Cons n ns)
  obtain s1 where s1: "reserve_node n s = Some (s1, Inr ())" "for_each reserve_node ns s1 = Some (s', Inr ())"
    using Cons(2) for_each_Cons by metis
  have p: "dev_inv m (load s1)" "frame_ex s s1" "taken (node_res s n) (load s) (load s1)" "resv n s1"
    using reserve_node_ok [OF s1(1) Cons(3,4)] by simp_all
  have nr: "node_res s1 = node_res s" using frame_node [OF p(2)] .
  have "resv k s1" if "k \<in> K" for k
    by (rule resv_kept [OF _ p(2)]) (use Cons(6) [OF that] p(3) in \<open>auto simp: taken_def\<close>)
  then have K: "resv k s1 \<and> node_res s1 k \<notin> node_res s1 ` set ns" if "k \<in> insert n K" for k
    using that p(4) Cons(5,6) nr by (cases "k = n") auto
  have "sw_inv (sw s1)" using p(2) Cons(4) by (simp add: frame_ex_def)
  moreover have "distinct (map (node_res s1) ns)" using Cons(5) nr by simp
  ultimately have "dev_inv m (load s') \<and> frame_ex s1 s' \<and> (\<forall>k \<in> insert n K \<union> set ns. resv k s') \<and>
      (\<forall>q. rs_func (rsrc (load s') q) = rs_func (rsrc (load s1) q)) \<and>
      (\<forall>b. buf_mem_type (bos (load s1) b) = VMW_PL_MOB \<longrightarrow> buf_mem_type (bos (load s') b) = VMW_PL_MOB)"
    by (rule Cons.IH [OF s1(2) p(1) _ _ K])
  then show ?case using p(3) frame_ex.trans [OF p(2), of s'] by (simp add: taken_def)
qed

lemma ask_step:
  assumes "on_dev ask s = Some (s', x)"
  shows "load s' = (load s)\<lparr>calls := Suc (calls (load s))\<rparr>" "frame_ex s s'"
  using assms frame_dev [OF assms] by (simp_all add: ask_def)

lemma put_bo_ok:
  assumes "put_bo pls b s = Some (s', x)" "dev_inv m (load s)" "pls \<noteq> []"
  shows "dev_inv m (load s') \<and> placed_as (load s) (load s') \<and> frame_ex s s' \<and>
    (\<forall>c. c \<noteq> b \<longrightarrow> buf_mem_type (bos (load s') c) = buf_mem_type (bos (load s) c)) \<and>
    (if x = Inr () then buf_mem_type (bos (load s') b) \<in> set pls else buf_mem_type (bos (load s') b) = buf_mem_type (bos (load s) b))"
proof -
  obtain t off st where put: "ttm_puts s (calls (dev_priv s)) = (t, off, st)" by (cases "ttm_puts s (calls (dev_priv s))")
  let ?t = "if t \<in> set pls then t else hd pls"
  let ?g = "upd_bo b (\<lambda>v. v\<lparr>buf_mem_type := ?t, buf_offset := off, buf_start := st\<rparr>)"
  have run: "andthen (on_dev ask) (if buf_mem_type (buffer (sw s) b) \<in> set pls then ok ()
      else andthen (on_dev (vmw_resource_move_notify b (Some ?t))) (on_dev (modify ?g))) s = Some (s', x)"
    using assms(1) by (simp add: put_bo_def run_simps put Let_def)
  obtain s1 y where a: "on_dev ask s = Some (s1, y)" using run by (auto simp: andthen_def chain_def split: option.splits)
  note s1 = ask_step [OF a]
  have l1: "dev_inv m (load s1)" "placed_as (load s) (load s1)" "bos (load s1) = bos (load s)"
    using assms(2) s1(1) by (simp_all add: placed_as_def)
  show ?thesis
  proof (cases y)
    case (Inl e)
    then have "s' = s1 \<and> x = Inl e" using run a by (simp add: andthen_def chain_def)
    then show ?thesis using l1 s1(2) by simp
  next
    case (Inr u)
    show ?thesis
    proof (cases "buf_mem_type (buffer (sw s) b) \<in> set pls")
      case True
      then have "s' = s1 \<and> x = Inr ()" using run a Inr by (simp add: andthen_def chain_def run_simps)
      moreover have "buf_mem_type (bos (load s) b) \<in> set pls" using True by (simp add: load_def)
      ultimately show ?thesis using l1 s1(2) by simp
    next
      case False
      obtain d2 z where d2': "vmw_resource_move_notify b (Some ?t) (load s1) = Some (d2, z)"
        and n': "z = Inr () \<and> dev_inv m d2 \<and> placed_as (load s1) d2 \<and> next_bo d2 = next_bo (load s1) \<and>
          (\<forall>c. buf_mem_type (bos d2 c) = buf_mem_type (bos (load s1) c)) \<and>
          (\<forall>t'. Some ?t = Some t' \<and> t' \<noteq> VMW_PL_MOB \<longrightarrow> (\<forall>q. rs_mob_head (rsrc d2 q) \<noteq> Some b))"
        using move_notify_law [OF l1(1), of b "Some ?t"] by (rule returnsE)
      have d2: "vmw_resource_move_notify b (Some ?t) (load s1) = Some (d2, Inr ())" using d2' n' by blast
      have n: "dev_inv m d2" "placed_as (load s1) d2" "buf_mem_type (bos d2 c) = buf_mem_type (bos (load s1) c)"
        "?t = VMW_PL_MOB \<or> (\<forall>q. rs_mob_head (rsrc d2 q) \<noteq> Some b)" for c
        using n' by blast+
      have s': "s' = store (?g d2) (store d2 s1)" "x = Inr ()"
        using run a Inr False d2 by (simp_all add: andthen_def chain_def on_dev_def run_simps)
      have "dev_inv m (?g d2)" by (rule dev_inv_place [OF n(1,4)])
      moreover have "?t \<in> set pls" using assms(3) by simp
      moreover have "placed_as (load s) (?g d2)" using placed_as.trans [OF l1(2) n(2)] by (simp add: placed_as_def upd_bo_def)
      moreover have "frame_ex s s'" using frame_ex.trans [OF s1(2), of s'] by (simp add: s' frame_ex_def store_sw lists_kept.trans [OF store_sw(1) store_sw(1)])
      ultimately show ?thesis using s' n(3) l1(3) by (simp add: upd_bo_def)
    qed
  qed
qed

lemma validate_buffer_ok:
  assumes "vmw_validate_single_buffer b mob s = Some (s', Inr ())" "dev_inv m (load s)"
  shows "dev_inv m (load s') \<and> placed_as (load s) (load s') \<and> frame_ex s s' \<and>
    (\<forall>c. c \<noteq> b \<longrightarrow> buf_mem_type (bos (load s') c) = buf_mem_type (bos (load s) c)) \<and>
    (if is_pinned s b then buf_mem_type (bos (load s') b) = buf_mem_type (bos (load s) b)
     else mob \<longrightarrow> buf_mem_type (bos (load s') b) = VMW_PL_MOB)"
proof -
  have run: "(if is_pinned s b then ok () else if mob then put_bo [VMW_PL_MOB] b
      else on_error (\<lambda>e. if e = ERESTARTSYS then fail e else put_bo [TTM_PL_VRAM] b) (put_bo [TTM_PL_VRAM, VMW_PL_GMR] b)) s = Some (s', Inr ())"
    using assms(1) unfolding vmw_validate_single_buffer_def is_pinned_def run_simps(4) by (simp only: eq_commute [of "pinned_bo s"])
  consider (pinned) "is_pinned s b" "s' = s" | (mob) "\<not> is_pinned s b" "mob" "put_bo [VMW_PL_MOB] b s = Some (s', Inr ())"
    | (first) "\<not> is_pinned s b" "\<not> mob" "put_bo [TTM_PL_VRAM, VMW_PL_GMR] b s = Some (s', Inr ())"
    | (second) s1 e where "\<not> is_pinned s b" "\<not> mob" "put_bo [TTM_PL_VRAM, VMW_PL_GMR] b s = Some (s1, Inl e)" "put_bo [TTM_PL_VRAM] b s1 = Some (s', Inr ())"
    using run by (cases "is_pinned s b"; cases mob; simp only: if_True if_False on_error_Some)
      (auto simp: run_simps split: if_splits)
  then show ?thesis
  proof cases
    case pinned
    then show ?thesis using assms(2) by simp
  next
    case mob
    then show ?thesis using put_bo_ok [OF mob(3) assms(2)] by simp
  next
    case first
    then show ?thesis using put_bo_ok [OF first(3) assms(2)] by simp
  next
    case second
    note p = put_bo_ok [OF second(3) assms(2), simplified]
    then have q: "dev_inv m (load s1)" by simp
    show ?thesis
      using p put_bo_ok [OF second(4) q] second(1,2) placed_as.trans [of "load s" "load s1" "load s'"] frame_ex.trans [of s s1 s'] by simp
  qed
qed

definition placed_entry :: "vmw_exec \<Rightarrow> nat \<Rightarrow> bool" where
  "placed_entry s i \<longleftrightarrow> (vb_mob (val_bufs (sw s) i) \<longrightarrow> is_pinned s (vb_bo (val_bufs (sw s) i)) \<or>
     buf_mem_type (bos (load s) (vb_bo (val_bufs (sw s) i))) = VMW_PL_MOB)"

lemma validate_entries_ok:
  "for_each (\<lambda>i. gets (\<lambda>s. vmw_validate_single_buffer (vb_bo (val_bufs (sw s) i)) (vb_mob (val_bufs (sw s) i)))) is s = Some (s', Inr ()) \<Longrightarrow>
   dev_inv m (load s) \<Longrightarrow> sw_inv (sw s) \<Longrightarrow> distinct is \<Longrightarrow> (\<And>i. i \<in> set is \<union> K \<Longrightarrow> i < cur_val_buf (sw s)) \<Longrightarrow>
   K \<inter> set is = {} \<Longrightarrow> (\<And>i. i \<in> K \<Longrightarrow> placed_entry s i) \<Longrightarrow>
   dev_inv m (load s') \<and> placed_as (load s) (load s') \<and> frame_ex s s' \<and> (\<forall>i \<in> K \<union> set is. placed_entry s' i) \<and>
   (\<forall>b. is_pinned s b \<longrightarrow> buf_mem_type (bos (load s') b) = buf_mem_type (bos (load s) b))"
proof (induction "is" arbitrary: s K)
  case Nil
  then show ?case by (simp add: run_simps)
next
  case (Cons i "is")
  let ?b = "vb_bo (val_bufs (sw s) i)"
  obtain s1 where s1: "vmw_validate_single_buffer ?b (vb_mob (val_bufs (sw s) i)) s = Some (s1, Inr ())"
    "for_each (\<lambda>i. gets (\<lambda>s. vmw_validate_single_buffer (vb_bo (val_bufs (sw s) i)) (vb_mob (val_bufs (sw s) i)))) is s1 = Some (s', Inr ())"
    using Cons(2) unfolding for_each_Cons run_simps(4) by blast
  note p = validate_buffer_ok [OF s1(1) Cons(3)]
  have f: "is_pinned s1 = is_pinned s" using p frame_pinned by blast
  have v: "cur_val_buf (sw s) \<le> cur_val_buf (sw s1)" "j < cur_val_buf (sw s) \<Longrightarrow> vb_bo (val_bufs (sw s1) j) = vb_bo (val_bufs (sw s) j) \<and>
      vb_mob (val_bufs (sw s1) j) = vb_mob (val_bufs (sw s) j)" for j
    using p by (simp_all add: frame_ex_def lists_kept_def)
  have i: "i < cur_val_buf (sw s)" using Cons(6) by simp
  have other: "vb_bo (val_bufs (sw s) j) \<noteq> ?b" if "j < cur_val_buf (sw s)" "j \<noteq> i" for j
    using ht_buf [OF Cons(4), of ?b j] ht_buf [OF Cons(4), of ?b i] i that by auto
  have K: "placed_entry s1 j" if "j \<in> insert i K" for j
  proof (cases "j = i")
    case True
    then show ?thesis using p v(2) [OF i] f by (auto simp: placed_entry_def split: if_splits)
  next
    case False
    then have "j < cur_val_buf (sw s)" "placed_entry s j" using that Cons(6,8) by auto
    then show ?thesis using p v(2) f other False by (simp add: placed_entry_def)
  qed
  have "dev_inv m (load s') \<and> placed_as (load s1) (load s') \<and> frame_ex s1 s' \<and> (\<forall>i \<in> insert i K \<union> set is. placed_entry s' i) \<and>
     (\<forall>b. is_pinned s1 b \<longrightarrow> buf_mem_type (bos (load s') b) = buf_mem_type (bos (load s1) b))"
  proof (rule Cons.IH [OF s1(2)])
    show "dev_inv m (load s1)" "sw_inv (sw s1)" "distinct is" using p Cons(4,5) by (simp_all add: frame_ex_def)
    show "j < cur_val_buf (sw s1)" if "j \<in> set is \<union> insert i K" for j
    proof -
      have "j < cur_val_buf (sw s)" using that Cons(6) by auto
      with v(1) show ?thesis by simp
    qed
    show "insert i K \<inter> set is = {}" using Cons(5,7) by auto
  qed (rule K)
  moreover have "buf_mem_type (bos (load s1) b) = buf_mem_type (bos (load s) b)" if "is_pinned s b" for b
    using p that by (cases "b = ?b") auto
  ultimately show ?case
    using p f placed_as.trans [of "load s" "load s1" "load s'"] frame_ex.trans [of s s1 s'] by simp
qed

section \<open>Validating the resources of a batch\<close>

lemma off_all_lists: "res_inv m d \<Longrightarrow> q \<notin> set (res_lru d (rs_type d q)) \<Longrightarrow> q \<notin> set (res_lru d t)"
  by (auto simp: res_inv_def lru_inv_def)

text \<open>Validating one resource leaves the others of the batch as they are.\<close>

lemma among_other:
  assumes "among m r t d d'" "q \<noteq> r" "res_inv m d" "q \<notin> set (res_lru d (rs_type d q))"
  shows "rsrc d' q = rsrc d q" "res_id d' q = res_id d q" "q \<notin> set (res_lru d' (rs_type d' q))"
    "on_device q d \<Longrightarrow> on_device q d'"
proof -
  have off: "q \<notin> set (res_lru d u)" for u by (rule off_all_lists [OF assms(3,4)])
  show same: "rsrc d' q = rsrc d q" "res_id d' q = res_id d q" using assms(1,2) off [of t] by (simp_all add: among_def)
  show "q \<notin> set (res_lru d' (rs_type d' q))"
    using assms(1) off [of "rs_type d' q"] by (auto simp: among_def dest!: spec [of _ "rs_type d' q"])
  show "on_device q d \<Longrightarrow> on_device q d'" using same by (simp add: on_device_def)
qed

lemma ready_other:
  assumes "ready m q d" "among m r t d d'" "q \<noteq> r" "res_inv m d'"
  shows "ready m q d'"
proof -
  have q: "res_inv m d" "f_may_evict (tab d q)" "q \<notin> set (res_lru d (rs_type d q))" using assms(1) by (simp_all add: ready_def)
  note o = among_other [OF assms(2,3) q(1,3)]
  have "in_place (tab d q) b d'" if b: "rs_backup (rsrc d q) = Some b" for b
    unfolding in_place_def
  proof
    assume "f_in_mob (tab d q)"
    moreover have "link_inv m d" using q(1) by (simp add: res_inv_def)
    ultimately have "m" "b < next_bo d" "buf_mem_type (bos d b) = VMW_PL_MOB"
      using b q(2) assms(1) by (auto simp: link_inv_def backup_bound_def ready_def in_place_def)
    then show "buf_mem_type (bos d' b) = VMW_PL_MOB" using assms(2) by (simp add: among_def mono_bo_def)
  qed
  then show ?thesis using assms(4) q(2) o(1,3) by (simp add: ready_def)
qed

text \<open>A resource that is prepared, or that cannot be evicted.\<close>

definition can_validate :: "bool \<Rightarrow> nat \<Rightarrow> res_dev \<Rightarrow> bool" where
  "can_validate m r d \<longleftrightarrow> r \<notin> set (res_lru d (rs_type d r)) \<and> (f_may_evict (tab d r) \<longrightarrow> ready m r d)"

definition in_use :: "nat \<Rightarrow> res_dev \<Rightarrow> bool" where
  "in_use r d \<longleftrightarrow> r \<notin> set (res_lru d (rs_type d r)) \<and> (f_may_evict (tab d r) \<longrightarrow> on_device r d)"

lemma validate_node_ok:
  assumes "on_dev (vmw_resource_validate r) s = Some (s', Inr ())" "res_inv m (load s)" "can_validate m r (load s)"
  shows "res_inv m (load s')" "frame_ex s s'" "in_use r (load s')"
    "\<And>q. q \<noteq> r \<Longrightarrow> can_validate m q (load s) \<Longrightarrow> can_validate m q (load s')"
    "\<And>q. q \<noteq> r \<Longrightarrow> in_use q (load s) \<Longrightarrow> in_use q (load s')"
proof -
  have run: "vmw_resource_validate r (load s) = Some (load s', Inr ())" and f: "frame_ex s s'"
    using frame_dev [OF assms(1)] by simp_all
  show "frame_ex s s'" by (rule f)
  have "res_inv m (load s') \<and> in_use r (load s') \<and> (\<forall>q. q \<noteq> r \<longrightarrow> (can_validate m q (load s) \<longrightarrow> can_validate m q (load s')) \<and>
      (in_use q (load s) \<longrightarrow> in_use q (load s')))"
  proof (cases "f_may_evict (tab (load s) r)")
    case False
    then have "load s' = load s" using run by (simp add: vmw_resource_validate_def run_simps Let_def)
    then show ?thesis using assms(2,3) False by (simp add: in_use_def can_validate_def)
  next
    case True
    then have rd: "ready m r (load s)" using assms(3) by (simp add: can_validate_def)
    have v: "res_inv m (load s')" "among m r (rs_type (load s) r) (load s) (load s')" "on_device r (load s')"
      using validate_correct [OF rd] run by auto
    have off: "r \<notin> set (res_lru (load s') (rs_type (load s') r))"
      using v(2) assms(3) by (auto simp: among_def can_validate_def)
    have "(can_validate m q (load s) \<longrightarrow> can_validate m q (load s')) \<and> (in_use q (load s) \<longrightarrow> in_use q (load s'))" if "q \<noteq> r" for q
      using among_other [OF v(2) that assms(2)] ready_other [OF _ v(2) that v(1)] by (auto simp: can_validate_def in_use_def)
    then show ?thesis using v off by (simp add: in_use_def)
  qed
  then show "res_inv m (load s')" "in_use r (load s')"
    "\<And>q. q \<noteq> r \<Longrightarrow> can_validate m q (load s) \<Longrightarrow> can_validate m q (load s')"
    "\<And>q. q \<noteq> r \<Longrightarrow> in_use q (load s) \<Longrightarrow> in_use q (load s')" by blast+
qed

lemma validate_nodes_ok:
  "for_each (\<lambda>n. gets (\<lambda>s. on_dev (vmw_resource_validate (node_res s n)))) ns s = Some (s', Inr ()) \<Longrightarrow> res_inv m (load s) \<Longrightarrow>
   distinct (map (node_res s) ns) \<Longrightarrow> (\<And>n. n \<in> set ns \<Longrightarrow> can_validate m (node_res s n) (load s)) \<Longrightarrow>
   (\<And>r. r \<in> R \<Longrightarrow> in_use r (load s) \<and> r \<notin> node_res s ` set ns) \<Longrightarrow>
   res_inv m (load s') \<and> frame_ex s s' \<and> (\<forall>r \<in> R \<union> node_res s ` set ns. in_use r (load s'))"
proof (induction ns arbitrary: s R)
  case Nil
  then show ?case by (simp add: run_simps)
next
  case (Cons n ns)
  let ?r = "node_res s n"
  obtain s1 where s1: "on_dev (vmw_resource_validate ?r) s = Some (s1, Inr ())"
    "for_each (\<lambda>n. gets (\<lambda>s. on_dev (vmw_resource_validate (node_res s n)))) ns s1 = Some (s', Inr ())"
    using Cons(2) unfolding for_each_Cons run_simps(4) by blast
  note v = validate_node_ok [OF s1(1) Cons(3) Cons(5), simplified]
  have nr: "node_res s1 = node_res s" by (rule frame_node [OF v(2)])
  have "res_inv m (load s') \<and> frame_ex s1 s' \<and> (\<forall>r \<in> insert ?r R \<union> node_res s1 ` set ns. in_use r (load s'))"
  proof (rule Cons.IH [OF s1(2) v(1)])
    show "distinct (map (node_res s1) ns)" using Cons(4) nr by simp
    show "can_validate m (node_res s1 k) (load s1)" if "k \<in> set ns" for k
    proof -
      have "node_res s k \<noteq> ?r" using Cons(4) imageI [OF that, of "node_res s"] by auto
      then show ?thesis using v(4) Cons(5) [of k] that nr by simp
    qed
    show "in_use r (load s1) \<and> r \<notin> node_res s1 ` set ns" if "r \<in> insert ?r R" for r
      using that v(3,5) Cons(4) Cons(6) [of r] nr by auto
  qed
  then show ?case using nr frame_ex.trans [OF v(2), of s'] by auto
qed

section \<open>Preparing a batch\<close>

lemma mark_reserved_load:
  assumes "dev_inv m (load s)"
  shows "dev_inv m (load (mark_reserved r bs s))" "placed_as (load s) (load (mark_reserved r bs s))" "frame_ex s (mark_reserved r bs s)"
    "buf_mem_type (bos (load (mark_reserved r bs s)) b) = buf_mem_type (bos (load s) b)"
proof -
  have l: "bos (load (mark_reserved r bs s)) c = (if c \<in> set bs then (bos (load s) c)\<lparr>buf_reserved := r\<rparr> else bos (load s) c)" for c
    by (simp add: load_def mark_reserved_def)
  have o: "rsrc (load (mark_reserved r bs s)) = rsrc (load s)" "res_id (load (mark_reserved r bs s)) = res_id (load s)"
    "bnd (load (mark_reserved r bs s)) = bnd (load s)" "res_ids (load (mark_reserved r bs s)) = res_ids (load s)"
    "res_lru (load (mark_reserved r bs s)) = res_lru (load s)" "next_bo (load (mark_reserved r bs s)) = next_bo (load s)"
    by (simp_all add: load_def mark_reserved_def res_id_def fun_eq_iff)
  show "dev_inv m (load (mark_reserved r bs s))"
    by (rule dev_inv_cong [OF assms]) (use dev_inv_lru [OF assms] dev_inv_linked [OF assms] in \<open>simp_all add: l o\<close>)
  show "placed_as (load s) (load (mark_reserved r bs s))" by (simp add: placed_as_def o)
  show "frame_ex s (mark_reserved r bs s)" by (simp add: frame_ex_def lists_kept_def mark_reserved_def sw_inv_def)
  show "buf_mem_type (bos (load (mark_reserved r bs s)) b) = buf_mem_type (bos (load s) b)" by (simp add: l)
qed

lemma reserve_batch_ok:
  assumes "reserve_batch s = Some (s', Inr ())" "dev_inv m (load s)"
  shows "dev_inv m (load s') \<and> placed_as (load s) (load s') \<and> frame_ex s s' \<and>
    (\<forall>b. buf_mem_type (bos (load s') b) = buf_mem_type (bos (load s) b))"
proof -
  obtain s1 where s1: "eu_reserve (val_bos s) s = Some (s1, Inr ())" "s' = s1\<lparr>eu_reserved := True\<rparr>"
    using assms(1) by (auto simp: reserve_batch_def exec_simps)
  have last: "load s' = load s1" "frame_ex s1 s'" by (simp_all add: s1(2) load_def frame_ex_def lists_kept_def)
  have "dev_inv m (load s1) \<and> placed_as (load s) (load s1) \<and> frame_ex s s1 \<and> (\<forall>b. buf_mem_type (bos (load s1) b) = buf_mem_type (bos (load s) b))"
  proof (cases "val_bos s = []")
    case True
    then show ?thesis using s1(1) assms(2) by (simp add: eu_reserve_def run_simps)
  next
    case False
    then obtain s0 where s0: "on_dev ask s = Some (s0, Inr ())" "s1 = mark_reserved True (val_bos s) s0"
      using s1(1) by (auto simp: eu_reserve_def exec_simps)
    note a = ask_step [OF s0(1)]
    have i: "dev_inv m (load s0)" "placed_as (load s) (load s0)" using a(1) assms(2) by (simp_all add: placed_as_def)
    show ?thesis
      using mark_reserved_load [OF i(1)] i(2) a placed_as.trans [of "load s" "load s0" "load s1"] frame_ex.trans [of s s0 s1] by (simp add: s0(2))
  qed
  then show ?thesis using last frame_ex.trans [of s s1 s'] by simp
qed

text \<open>The state a batch starts from: the driver and the device agree, the table of the software context is
  empty, and a pinned buffer is where the device expects it.\<close>

definition consistent :: "bool \<Rightarrow> vmw_exec \<Rightarrow> bool" where
  "consistent m s \<longleftrightarrow> dev_inv m (load s) \<and> (res_ht_initialized s \<longrightarrow> res_ht (sw s) = []) \<and>
     (\<forall>b. is_pinned s b \<and> m \<longrightarrow> buf_mem_type (buffer (sw s) b) = VMW_PL_MOB)"

text \<open>What the check starts from.\<close>

definition fresh_context :: "bool \<Rightarrow> cmd_mem \<Rightarrow> vmw_exec \<Rightarrow> vmw_sw_context \<Rightarrow> bool" where
  "fresh_context krn c s t \<longleftrightarrow> cmds t = c \<and> kernel t = krn \<and> usage t = usage (sw s) \<and> same_device (sw s) t \<and>
     res_relocations t = [] \<and> (\<forall>ty. \<not> rc_valid (res_cache t ty)) \<and> cur_reloc t = 0 \<and> sw_inv t"

text \<open>The bytes of the batch: the addresses of buffers are patched into the commands, then the ids.\<close>

definition patch_reloc :: "vmw_sw_context \<Rightarrow> nat \<Rightarrow> cmd_mem \<Rightarrow> cmd_mem" where
  "patch_reloc t i c = (let rl = relocs t i; b = buffer t (vb_bo (val_bufs t (rl_index rl))) in
     case buf_mem_type b of
       TTM_PL_VRAM \<Rightarrow> (let a = the (rl_location rl) in wr32 a SVGA_GMR_FRAMEBUFFER (wr32 (a + 4) (rd32 c (a + 4) + ucast (buf_offset b)) c))
     | VMW_PL_GMR \<Rightarrow> wr32 (the (rl_location rl)) (ucast (buf_start b)) c
     | VMW_PL_MOB \<Rightarrow> wr32 (the (rl_mob_loc rl)) (ucast (buf_start b)) c
     | TTM_PL_SYSTEM \<Rightarrow> c)"

definition batch_bytes :: "u32 \<Rightarrow> vmw_sw_context \<Rightarrow> u8 list" where
  "batch_bytes sz t = map (vmw_resource_relocations_apply (hw_id (binds t)) (res_relocations t)
     (fold (patch_reloc t) [0..<cur_reloc t] (cmds t))) [0..<unat sz]"

lemma apply_reloc_ok:
  assumes "apply_reloc i t = Some (t', x)"
  shows "x = Inr ()" "t' = t\<lparr>cmds := patch_reloc t i (cmds t)\<rparr>"
  using assms
  by (auto simp: apply_reloc_def patch_reloc_def at_loc_def put32_def word_at_def andthen_def chain_def run_simps Let_def
      split: mem_type.splits option.splits)

lemma apply_relocs_ok:
  "for_each apply_reloc is t = Some (t', x) \<Longrightarrow> x = Inr () \<and> t' = t\<lparr>cmds := fold (patch_reloc t) is (cmds t)\<rparr>"
proof (induction "is" arbitrary: t)
  case Nil
  then show ?case by (simp add: run_simps)
next
  case (Cons i "is")
  obtain t1 y where t1: "apply_reloc i t = Some (t1, y)" using Cons(2) by (auto simp: andthen_def chain_def split: option.splits)
  note e = apply_reloc_ok [OF t1]
  have "for_each apply_reloc is t1 = Some (t', x)" using Cons(2) t1 e(1) by (simp add: andthen_def chain_def)
  moreover have "patch_reloc t1 = patch_reloc t" by (simp add: e patch_reloc_def fun_eq_iff)
  ultimately show ?case using Cons.IH [of t1] by (simp add: e(2))
qed

lemma commit_batch_ok:
  assumes "commit_batch sz s = Some (s', x)"
  shows "x = Inr ()" "sent (binds (sw s')) = sent (binds (sw s)) @ [CmdBatch (batch_bytes sz (sw s))]"
proof -
  obtain t y where run: "for_each apply_reloc [0..<cur_reloc (sw s)] (sw s) = Some (t, y)"
    using assms by (auto simp: commit_batch_def vmw_apply_relocations_def andthen_def chain_def on_sw_def run_simps split: option.splits)
  then have t: "y = Inr ()" "t = (sw s)\<lparr>cmds := fold (patch_reloc (sw s)) [0..<cur_reloc (sw s)] (cmds (sw s))\<rparr>"
    using apply_relocs_ok by blast+
  show "x = Inr ()" "sent (binds (sw s')) = sent (binds (sw s)) @ [CmdBatch (batch_bytes sz (sw s))]"
    using assms run t
    by (auto simp: commit_batch_def vmw_apply_relocations_def andthen_def chain_def on_sw_def run_simps push_cmd_def fifo_copy_def
        batch_bytes_def vmw_resource_relocations_free_def vmw_free_relocations_def split: if_splits)
qed

lemma nodes_distinct:
  assumes "sw_inv t"
  shows "distinct (map (\<lambda>n. vn_res (val_node t n)) (resource_list t))"
  unfolding distinct_map
proof (intro conjI inj_onI)
  show "distinct (resource_list t)" by (rule sw_invD(3) [OF assms])
  fix n k assume "n \<in> set (resource_list t)" "k \<in> set (resource_list t)" "vn_res (val_node t n) = vn_res (val_node t k)"
  then have "map_of (res_ht t) (Res (vn_res (val_node t n))) = Some (Val_node n)"
      "map_of (res_ht t) (Res (vn_res (val_node t n))) = Some (Val_node k)"
    using ht_node [OF assms] by simp_all
  then show "n = k" by simp
qed

text \<open>The check: the device is left alone.\<close>

lemma check_batch_ok:
  assumes "check_batch fuel sz s = Some (s', Inr ())" "dev_inv m (load s)" "sw_inv (sw s)"
  shows "vmw_cmd_check_all fuel sz (sw s) = Some (Some (sw s', Inr ()))" "dev_inv m (load s')" "sw_inv (sw s')"
    "bos (load s') = bos (load s)" "is_pinned s' = is_pinned s"
proof -
  obtain t where t: "vmw_cmd_check_all fuel sz (sw s) = Some (Some (t, Inr ()))" "s' = s\<lparr>sw := t\<rparr>"
    using assms(1) by (auto simp: check_batch_def on_sw_def split: option.splits)
  have d: "same_device (sw s) t" using t(1) check_all_device by (simp add: vmw_cmd_check_all_def)
  show "vmw_cmd_check_all fuel sz (sw s) = Some (Some (sw s', Inr ()))" using t by simp
  show "dev_inv m (load s')" using dev_inv_sw [OF assms(2) d] t(2) by simp
  show "sw_inv (sw s')" using t check_all_loop_inv [OF assms(3)] by (simp add: vmw_cmd_check_all_def)
  show "bos (load s') = bos (load s)" using load_sw(2) [OF d] t(2) by simp
  show "is_pinned s' = is_pinned s" using d by (simp add: is_pinned_def t(2) same_device_def fun_eq_iff)
qed

lemma prepared_can_validate:
  assumes "dev_inv m (load s)" "resv n s" "\<And>i. i < cur_val_buf (sw s) \<Longrightarrow> placed_entry s i"
    "\<And>b. is_pinned s b \<Longrightarrow> m \<Longrightarrow> buf_mem_type (bos (load s) b) = VMW_PL_MOB"
  shows "can_validate m (node_res s n) (load s)"
proof -
  let ?r = "node_res s n" and ?d = "load s"
  have i: "res_inv m ?d" using assms(1) by (simp add: dev_inv_def)
  have off: "?r \<notin> set (res_lru ?d (rs_type ?d ?r))" using assms(2) by (simp add: resv_def Let_def)
  have "ready m ?r ?d" if ev: "f_may_evict (tab ?d ?r)"
  proof -
    have "in_place (tab ?d ?r) b ?d" if b: "rs_backup (rsrc ?d ?r) = Some b" for b
      unfolding in_place_def
    proof
      assume mob: "f_in_mob (tab ?d ?r)"
      then have "m" using i ev by (simp add: res_inv_def link_inv_def)
      obtain j where "j < cur_val_buf (sw s)" "vb_bo (val_bufs (sw s) j) = b" "vb_mob (val_bufs (sw s) j)"
        using assms(2) b mob table_facts(2) [OF ev] by (auto simp: resv_def Let_def)
      then show "buf_mem_type (bos ?d b) = VMW_PL_MOB" using assms(3) [of j] assms(4) \<open>m\<close> by (auto simp: placed_entry_def)
    qed
    then show ?thesis using i ev off by (simp add: ready_def)
  qed
  with off show ?thesis by (simp add: can_validate_def)
qed

end
