(* ===== verification/Submit_Correct.thy ===== *)
theory Submit_Correct
  imports Submit_Inv
begin

text \<open>
  What the submission of a batch guarantees: the steps between the check and the batch keep the
  invariant of the device, the resources of the batch are in use when it is sent, and the device sees
  the checked batch, patched, once.
\<close>

section \<open>Steps that leave the resources alone\<close>

definition calm :: "vmw_exec \<Rightarrow> vmw_exec \<Rightarrow> bool" where
  "calm s s' \<longleftrightarrow> rsrc (load s') = rsrc (load s) \<and> res_id (load s') = res_id (load s) \<and> res_ids (load s') = res_ids (load s) \<and>
     res_lru (load s') = res_lru (load s) \<and> bos (load s') = bos (load s) \<and> next_bo (load s') = next_bo (load s) \<and> frame_ex s s' \<and>
     (\<exists>cs. sent (bnd (load s')) = sent (bnd (load s)) @ cs \<and> (\<forall>L. harmless cs L))"

interpretation calm: step_relation calm
proof
  show "calm s s" for s by (auto simp: calm_def harmless_def)
  show "calm s s2" if a: "calm s s1" "calm s1 s2" for s s1 s2
  proof -
    obtain c1 c2 where c: "sent (bnd (load s1)) = sent (bnd (load s)) @ c1" "sent (bnd (load s2)) = sent (bnd (load s1)) @ c2"
      "\<And>L. harmless c1 L" "\<And>L. harmless c2 L" using a by (auto simp: calm_def)
    then have "sent (bnd (load s2)) = sent (bnd (load s)) @ (c1 @ c2) \<and> (\<forall>L. harmless (c1 @ c2) L)"
      by (auto simp: harmless_def)
    then show ?thesis using a frame_ex.trans [of s s1 s2] unfolding calm_def by metis
  qed
qed

lemma calm_inv:
  assumes "calm s s'" "res_inv m (load s)"
  shows "res_inv m (load s')" "in_use r (load s) \<Longrightarrow> in_use r (load s')"
proof -
  obtain cs where cs: "sent (bnd (load s')) = sent (bnd (load s)) @ cs" "\<And>L. harmless cs L" using assms(1) by (auto simp: calm_def)
  have c: "core_inv (load s')"
    by (rule core_inv_sent [OF _ _ _ cs(1) _ cs(2)]) (use assms in \<open>simp_all add: calm_def res_inv_def link_inv_def\<close>)
  show "res_inv m (load s')"
    using assms c by (simp add: calm_def res_inv_def link_inv_def lru_inv_def backup_bound_def mob_ok_def)
  show "in_use r (load s) \<Longrightarrow> in_use r (load s')" using assms(1) by (simp add: calm_def in_use_def on_device_def)
qed

lemma calm_dev:
  assumes "\<And>d d' x. m d = Some (d', x) \<Longrightarrow> silent d d'"
  shows "keeps calm (on_dev m) s"
  unfolding keeps_def
proof (intro allI impI)
  fix s' x assume run: "on_dev m s = Some (s', x)"
  have "silent (load s) (load s')" "frame_ex s s'" using frame_dev [OF run] assms by blast+
  then show "calm s s'" by (auto simp: calm_def silent_def harmless_def intro: exI [of _ "[]"])
qed

lemma calm_ask: "keeps calm (on_dev ask) s"
  by (rule calm_dev) (auto simp: ask_def)

lemma calm_restartsys: "keeps calm restartsys s"
  unfolding restartsys_def by (rule calm_dev) (auto simp: on_error_def ask_def run_simps split: sum.splits)

lemma calm_room: "keeps calm fifo_room s"
  unfolding fifo_room_def by (rule calm_dev) (auto simp: send_def Let_def silent_def res_id_def fun_eq_iff split: if_splits)

lemma calm_lock: "keeps calm lock_bindings s"
proof -
  have "calm s (s\<lparr>binding_locked := b\<rparr>)" for s b
    by (auto simp: calm_def frame_ex_def load_def harmless_def res_id_def lists_kept_def)
  then show ?thesis unfolding lock_bindings_def by (intro calm.k_rules calm.k_modify calm_restartsys)
qed

lemma scrub_funcs_harmless:
  "\<exists>cs. sent (fst (vmw_scrub_funcs bt bi rb w)) = sent w @ cs \<and> (\<forall>L. harmless cs L)"
  by (cases bt; cases "room w (tries w)")
    (simp_all add: vmw_scrub_funcs_def vmw_context_scrub_shader_def vmw_context_scrub_render_target_def
      vmw_context_scrub_texture_def submit_def Let_def harmless_def)

lemma rebind_loop_harmless:
  "hw_id (fst (rebind_loop c ss w)) = hw_id w \<and> (\<exists>cs. sent (fst (rebind_loop c ss w)) = sent w @ cs \<and> (\<forall>L. harmless cs L))"
proof (induction c ss w rule: rebind_loop.induct)
  case (1 c w)
  show ?case by (simp add: harmless_def)
next
  case (2 c s ss w)
  obtain w1 x where w1: "vmw_scrub_funcs (bi_bt (info w c s)) (info w c s) True w = (w1, x)" by fastforce
  obtain cs where cs: "sent w1 = sent w @ cs" "\<And>L. harmless cs L"
    using scrub_funcs_harmless [of "bi_bt (info w c s)" "info w c s" True w] by (auto simp: w1)
  have h: "hw_id w1 = hw_id w"
    using w1 by (cases "bi_bt (info w c s)")
      (auto simp: vmw_scrub_funcs_def vmw_context_scrub_shader_def vmw_context_scrub_render_target_def
        vmw_context_scrub_texture_def submit_def Let_def split: if_splits)
  have join: "\<exists>es. (sent w @ cs) @ ds = sent w @ es \<and> (\<forall>L. harmless es L)" if "\<And>L. harmless ds L" for ds
    using cs(2) that by (intro exI [of _ "cs @ ds"]) (auto simp: harmless_def)
  let ?bi = "info w c s"
  show ?case
  proof (cases "\<not> bi_scrubbed ?bi \<or> bi_res ?bi = None \<or> hw_id w (the (bi_res ?bi)) = SVGA3D_INVALID_ID")
    case True
    have "rebind_loop c (s # ss) w = rebind_loop c ss w" using True by (simp add: Let_def)
    then show ?thesis using 2(1) [OF refl] 2(2) [OF refl] True by (cases "bi_scrubbed ?bi") simp_all
  next
    case False
    show ?thesis
    proof (cases x)
      case (Inl e)
      have run: "rebind_loop c (s # ss) w = (w1, Inl e)" using False w1 by (auto simp: Let_def Inl)
      show ?thesis unfolding run using h cs by auto
    next
      case (Inr u)
      let ?w2 = "upd_info c s (\<lambda>bi. bi\<lparr>bi_scrubbed := False\<rparr>) w1"
      have run: "rebind_loop c (s # ss) w = rebind_loop c ss ?w2" using False w1 by (auto simp: Let_def Inr)
      have "hw_id (fst (rebind_loop c ss ?w2)) = hw_id ?w2 \<and>
          (\<exists>ds. sent (fst (rebind_loop c ss ?w2)) = sent ?w2 @ ds \<and> (\<forall>L. harmless ds L))"
        using 2(3) [OF refl _ _ w1 [symmetric]] False w1 Inr by simp
      then show ?thesis unfolding run using h cs(1) join by (auto simp: upd_info_def)
    qed
  qed
qed

lemma calm_rebind: "keeps calm (rebind_nodes ns) s"
proof (induction ns arbitrary: s)
  case (Cons n ns)
  have "keeps calm (on_sw (\<lambda>t. case vmw_context_rebind_all (vn_res (val_node t n)) (binds t) of (w, x) \<Rightarrow> Some (t\<lparr>binds := w\<rparr>, x))) s" for s
    unfolding keeps_def
  proof (intro allI impI)
    fix s' x assume run: "on_sw (\<lambda>t. case vmw_context_rebind_all (vn_res (val_node t n)) (binds t) of (w, x) \<Rightarrow> Some (t\<lparr>binds := w\<rparr>, x)) s = Some (s', x)"
    let ?w = "fst (vmw_context_rebind_all (vn_res (val_node (sw s) n)) (binds (sw s)))"
    have "s' = s\<lparr>sw := (sw s)\<lparr>binds := ?w\<rparr>\<rparr>" using run by (auto simp: on_sw_def split: prod.splits)
    moreover have "hw_id ?w = hw_id (binds (sw s))" "\<exists>cs. sent ?w = sent (binds (sw s)) @ cs \<and> (\<forall>L. harmless cs L)"
      using rebind_loop_harmless by (auto simp: vmw_context_rebind_all_def)
    ultimately show "calm s s'"
      by (simp add: calm_def load_def res_id_def fun_eq_iff frame_ex_def lists_kept_def sw_inv_def)
  qed
  then show ?case unfolding rebind_nodes.simps by (intro calm.k_rules Cons)
qed (simp add: calm.k_ok)

section \<open>From the check to the batch\<close>

text \<open>Validating the buffers does not lengthen their list.\<close>

definition same_entries :: "vmw_exec \<Rightarrow> vmw_exec \<Rightarrow> bool" where
  "same_entries s s' \<longleftrightarrow> cur_val_buf (sw s') = cur_val_buf (sw s)"

interpretation same_entries: step_relation same_entries
  by unfold_locales (simp_all add: same_entries_def)

lemma entries_dev: "keeps same_entries (on_dev m) s"
  by (auto simp: keeps_def same_entries_def store_def elim!: on_dev_cases)

lemma entries_put: "keeps same_entries (put_bo pls b) s"
  unfolding put_bo_def Let_def by (intro same_entries.k_rules entries_dev keeps_prod)

lemma entries_validate: "keeps same_entries vmw_validate_buffers s"
  unfolding vmw_validate_buffers_def vmw_validate_single_buffer_def
  by (intro same_entries.k_gets same_entries.k_for_each same_entries.k_if same_entries.k_on_error same_entries.k_ok
      same_entries.k_fail entries_put)

lemma validate_batch_ok:
  assumes run: "validate_batch fuel sz thr s = Some (s', Inr ())" and inv: "dev_inv m (load s)" "sw_inv (sw s)"
    and pinned: "\<And>b. is_pinned s b \<Longrightarrow> m \<Longrightarrow> buf_mem_type (bos (load s) b) = VMW_PL_MOB"
  shows "\<exists>t. vmw_cmd_check_all fuel sz (sw s) = Some (Some (t, Inr ())) \<and> lists_kept t (sw s')"
    "res_inv m (load s')" "\<forall>n \<in> set (resource_list (sw s')). in_use (node_res s' n) (load s')"
proof -
  obtain s1 s2 s3 s4 s5 s6 where
    s1: "check_batch fuel sz s = Some (s1, Inr ())" and s2: "vmw_resources_reserve s1 = Some (s2, Inr ())" and
    s3: "reserve_batch s2 = Some (s3, Inr ())" and s4: "vmw_validate_buffers s3 = Some (s4, Inr ())" and
    s5: "vmw_resources_validate s4 = Some (s5, Inr ())" and
    s6: "(if thr then on_dev ask else ok ()) s5 = Some (s6, Inr ())" and s7: "lock_bindings s6 = Some (s', Inr ())"
    using run unfolding validate_batch_def andthen_Some by blast
  note c = check_batch_ok [OF s1 inv]
  have d: "distinct (map (node_res s1) (resource_list (sw s1)))"
    using nodes_distinct [OF c(3)] by (simp add: node_res_def [abs_def])
  have r: "dev_inv m (load s2) \<and> frame_ex s1 s2 \<and> (\<forall>k \<in> {} \<union> set (resource_list (sw s1)). resv k s2) \<and>
      (\<forall>q. rs_func (rsrc (load s2) q) = rs_func (rsrc (load s1) q)) \<and>
      (\<forall>b. buf_mem_type (bos (load s1) b) = VMW_PL_MOB \<longrightarrow> buf_mem_type (bos (load s2) b) = VMW_PL_MOB)"
    by (rule reserve_nodes_ok [OF _ c(2,3) d])
      (use s2 in \<open>simp_all add: vmw_resources_reserve_def list_nodes_def run_simps\<close>)
  have b: "dev_inv m (load s3) \<and> placed_as (load s2) (load s3) \<and> frame_ex s2 s3 \<and>
      (\<forall>b. buf_mem_type (bos (load s3) b) = buf_mem_type (bos (load s2) b))"
    using reserve_batch_ok [OF s3] r by blast
  have i3: "sw_inv (sw s3)" using r b c(3) by (simp add: frame_ex_def)
  have v: "dev_inv m (load s4) \<and> placed_as (load s3) (load s4) \<and> frame_ex s3 s4 \<and>
      (\<forall>i \<in> {} \<union> set (validate_nodes (sw s3)). placed_entry s4 i) \<and>
      (\<forall>b. is_pinned s3 b \<longrightarrow> buf_mem_type (bos (load s4) b) = buf_mem_type (bos (load s3) b))"
    by (rule validate_entries_ok) (use s4 b i3 in \<open>simp_all add: vmw_validate_buffers_def run_simps sw_inv_def\<close>)
  have f: "frame_ex s1 s4" "frame_ex s2 s4" using r b v by (blast intro: frame_ex.trans)+
  have i4: "sw_inv (sw s4)" using f(1) c(3) by (simp add: frame_ex_def)
  have pin4: "buf_mem_type (bos (load s4) b) = VMW_PL_MOB" if "is_pinned s4 b" m for b
  proof -
    have "is_pinned s b" "is_pinned s3 b"
      using that(1) frame_pinned [OF f(1)] frame_pinned [of s3 s4] v c(5) by simp_all
    then show ?thesis using pinned [OF _ that(2)] c(4) r b v by simp
  qed
  have entries: "placed_entry s4 i" if "i < cur_val_buf (sw s4)" for i
  proof -
    have "validate_nodes (sw s3) = [0..<cur_val_buf (sw s3)]" using i3 by (simp add: sw_inv_def)
    moreover have "cur_val_buf (sw s4) = cur_val_buf (sw s3)" using keepsD [OF entries_validate s4] by (simp add: same_entries_def)
    ultimately show ?thesis using v that by simp
  qed
  let ?ns = "resource_list (sw s4)"
  have ns: "?ns = resource_list (sw s1)" "node_res s4 = node_res s1" using f(1) frame_node by (auto simp: frame_ex_def lists_kept_def)
  have can: "can_validate m (node_res s4 n) (load s4)" if "n \<in> set ?ns" for n
  proof (rule prepared_can_validate [OF _ _ entries pin4])
    have p: "placed_as (load s2) (load s4)" using b v by (blast intro: placed_as.trans)
    have n: "resv n s2" using r that ns(1) by simp
    show "resv n s4" by (rule resv_kept [OF n f(2)]) (use p in \<open>simp_all add: placed_as_def\<close>)
  qed (use v in auto)
  have t: "res_inv m (load s5) \<and> frame_ex s4 s5 \<and> (\<forall>q \<in> {} \<union> node_res s4 ` set ?ns. in_use q (load s5))"
    by (rule validate_nodes_ok)
      (use s5 v d ns can in \<open>simp_all add: vmw_resources_validate_def list_nodes_def run_simps dev_inv_def\<close>)
  have "keeps calm (if thr then on_dev ask else ok ()) s5" by (intro calm.k_if calm_ask calm.k_ok)
  from calm.trans [OF keepsD [OF this s6] keepsD [OF calm_lock s7]] have q: "calm s5 s'" .
  have f': "frame_ex s1 s'" using frame_ex.trans [OF f(1) frame_ex.trans [of s4 s5 s']] t q by (simp add: calm_def)
  show "\<exists>t. vmw_cmd_check_all fuel sz (sw s) = Some (Some (t, Inr ())) \<and> lists_kept t (sw s')"
    using c(1) f' by (auto simp: frame_ex_def)
  show "res_inv m (load s')" using calm_inv(1) [OF q] t by blast
  show "\<forall>n \<in> set (resource_list (sw s')). in_use (node_res s' n) (load s')"
  proof
    fix n assume n: "n \<in> set (resource_list (sw s'))"
    have "resource_list (sw s') = ?ns" "node_res s' = node_res s4"
      using f' ns frame_node [OF f'] by (simp_all add: frame_ex_def lists_kept_def)
    with n t have "in_use (node_res s' n) (load s5)" by simp
    then show "in_use (node_res s' n) (load s')" using calm_inv(2) [OF q] t by blast
  qed
qed

section \<open>The start of a submission\<close>

definition waits :: "vmw_exec \<Rightarrow> vmw_exec \<Rightarrow> bool" where
  "waits s s' \<longleftrightarrow> (load s')\<lparr>calls := 0\<rparr> = (load s)\<lparr>calls := 0\<rparr> \<and> sw s' = sw s \<and> pinned_bo s' = pinned_bo s \<and>
     dummy_query_bo_pinned s' = dummy_query_bo_pinned s \<and> res_ht_initialized s' = res_ht_initialized s"

interpretation waits: step_relation waits
  by unfold_locales (simp_all add: waits_def)

lemma store_ask [simp]: "sw (store ((load s)\<lparr>calls := n\<rparr>) s) = sw s"
  by (simp add: store_def load_def fun_eq_iff split: obj.split)

lemma waits_dev:
  assumes "\<And>d d' x. m d = Some (d', x) \<Longrightarrow> \<exists>n. d' = d\<lparr>calls := n\<rparr>"
  shows "keeps waits (on_dev m) s"
  unfolding keeps_def
proof (intro allI impI)
  fix s' x assume "on_dev m s = Some (s', x)"
  then obtain d where d: "m (load s) = Some (d, x)" "s' = store d s" by (rule on_dev_cases)
  obtain n where "d = (load s)\<lparr>calls := n\<rparr>" using assms d(1) by blast
  then show "waits s s'" by (simp add: waits_def d(2)) (simp add: store_def)
qed

lemma waits_ask: "keeps waits (on_dev ask) s" "keeps waits (on_dev (on_error (\<lambda>_. fail e) ask)) s"
  by (rule waits_dev; auto simp: ask_def on_error_def run_simps split: sum.splits)+

lemma waits_restartsys: "keeps waits restartsys s"
  unfolding restartsys_def by (rule waits_ask)

lemma waits_resize: "keeps waits (vmw_resize_cmd_bounce sz) s"
proof -
  have "waits s (s\<lparr>cmd_bounce_size := n\<rparr>)" for s n by (simp add: waits_def load_def)
  then show ?thesis
    unfolding vmw_resize_cmd_bounce_def by (intro waits.k_rules waits.k_modify waits_ask)
qed

lemma take_ok:
  assumes "take_commands krn c sz s = Some (s', Inr ())"
  shows "\<exists>s1. waits (s\<lparr>sw := (sw s)\<lparr>kernel := krn\<rparr>\<rparr>) s1 \<and> s' = s1\<lparr>sw := (sw s1)\<lparr>cmds := c\<rparr>\<rparr>"
proof -
  obtain s1 where s1: "(if krn then ok () else andthen (vmw_resize_cmd_bounce sz) (on_dev (on_error (\<lambda>_. fail EFAULT) ask)))
      (s\<lparr>sw := (sw s)\<lparr>kernel := krn\<rparr>\<rparr>) = Some (s1, Inr ())" "s' = s1\<lparr>sw := (sw s1)\<lparr>cmds := c\<rparr>\<rparr>"
    using assms by (auto simp: take_commands_def andthen_Some on_sw_def run_simps)
  have "keeps waits (if krn then ok () else andthen (vmw_resize_cmd_bounce sz) (on_dev (on_error (\<lambda>_. fail EFAULT) ask))) s" for s
    by (intro waits.k_rules waits_resize waits_ask)
  from keepsD [OF this s1(1)] s1(2) show ?thesis by blast
qed

lemma begin_batch_ok:
  assumes "begin_batch s = Some (s', Inr ())"
  shows "\<exists>s1. waits (s\<lparr>eu_reserved := False, sw := clear_context (pinned_bo s) (sw s)\<rparr>) s1 \<and>
    (res_ht_initialized s \<and> s' = s1\<lparr>sw := no_staging (sw s1)\<rparr> \<or>
     s' = s1\<lparr>res_ht_initialized := True, sw := no_staging ((sw s1)\<lparr>res_ht := []\<rparr>)\<rparr>)"
proof -
  let ?a = "s\<lparr>eu_reserved := False, sw := clear_context (pinned_bo s) (sw s)\<rparr>"
  obtain b where b: "(if res_ht_initialized ?a then ok ()
      else andthen (on_dev ask) (modify (\<lambda>s. s\<lparr>res_ht_initialized := True, sw := (sw s)\<lparr>res_ht := []\<rparr>\<rparr>))) ?a = Some (b, Inr ())"
    "s' = b\<lparr>sw := no_staging (sw b)\<rparr>"
    using assms by (auto simp: begin_batch_def andthen_Some run_simps on_sw_def)
  show ?thesis
  proof (cases "res_ht_initialized s")
    case True
    then show ?thesis using b by (auto simp: run_simps intro: exI [of _ ?a])
  next
    case False
    then obtain a where a: "on_dev ask ?a = Some (a, Inr ())" "b = a\<lparr>res_ht_initialized := True, sw := (sw a)\<lparr>res_ht := []\<rparr>\<rparr>"
      using b(1) by (auto simp: andthen_Some run_simps)
    then show ?thesis using keepsD [OF waits_ask(1) a(1)] b(2) by auto
  qed
qed

lemma dev_inv_waits: "(load s')\<lparr>calls := 0\<rparr> = (load s)\<lparr>calls := 0\<rparr> \<Longrightarrow> dev_inv m (load s') \<longleftrightarrow> dev_inv m (load s)"
  using dev_inv_calls by metis

lemma fresh_start:
  assumes "restartsys s = Some (s1, Inr ())" "take_commands krn c sz s1 = Some (s2, Inr ())" "begin_batch s2 = Some (s3, Inr ())"
    and con: "consistent m s"
  shows "fresh_context krn c s (sw s3)" "dev_inv m (load s3)" "is_pinned s3 = is_pinned s" "sent (binds (sw s3)) = sent (binds (sw s))"
proof -
  have w1: "waits s s1" using keepsD [OF waits_restartsys assms(1)] .
  obtain a where a: "waits (s1\<lparr>sw := (sw s1)\<lparr>kernel := krn\<rparr>\<rparr>) a" "s2 = a\<lparr>sw := (sw a)\<lparr>cmds := c\<rparr>\<rparr>"
    using take_ok [OF assms(2)] by blast
  obtain b where b: "waits (s2\<lparr>eu_reserved := False, sw := clear_context (pinned_bo s2) (sw s2)\<rparr>) b"
    "res_ht_initialized s2 \<and> s3 = b\<lparr>sw := no_staging (sw b)\<rparr> \<or>
     s3 = b\<lparr>res_ht_initialized := True, sw := no_staging ((sw b)\<lparr>res_ht := []\<rparr>)\<rparr>"
    using begin_batch_ok [OF assms(3)] by blast
  define t where "t = clear_context (pinned_bo s2) ((sw s)\<lparr>kernel := krn, cmds := c\<rparr>)"
  have sw_b: "sw b = t" using w1 a b(1) by (simp add: waits_def t_def)
  have ht: "res_ht t = []" if "res_ht_initialized s2"
    using that con w1 a by (simp add: t_def consistent_def waits_def clear_context_def)
  have sw3: "sw s3 = no_staging (t\<lparr>res_ht := []\<rparr>)" using b(2) sw_b ht by (auto simp: no_staging_def)
  show "fresh_context krn c s (sw s3)"
    by (simp add: sw3 fresh_context_def same_device_def no_staging_def t_def clear_context_def no_cache_def sw_inv_def)
  have ld: "(load s3)\<lparr>calls := 0\<rparr> = (load s)\<lparr>calls := 0\<rparr>"
  proof -
    have "(load s3)\<lparr>calls := 0\<rparr> = (load b)\<lparr>calls := 0\<rparr>" using b(2) by (auto simp: load_def no_staging_def)
    also have "\<dots> = (load s2)\<lparr>calls := 0\<rparr>" using b(1) by (simp add: waits_def) (simp add: load_def clear_context_def)
    also have "\<dots> = (load a)\<lparr>calls := 0\<rparr>" by (simp add: a(2) load_def)
    also have "\<dots> = (load s1)\<lparr>calls := 0\<rparr>" using a(1) by (simp add: waits_def) (simp add: load_def)
    also have "\<dots> = (load s)\<lparr>calls := 0\<rparr>" using w1 by (simp add: waits_def)
    finally show ?thesis .
  qed
  show "dev_inv m (load s3)" using con dev_inv_waits [OF ld] by (simp add: consistent_def)
  have "pinned_bo s3 = pinned_bo s" "dummy_query_bo_pinned s3 = dummy_query_bo_pinned s"
    using w1 a b by (auto simp: waits_def)
  then show "is_pinned s3 = is_pinned s"
    by (simp add: is_pinned_def fun_eq_iff sw3 no_staging_def t_def clear_context_def)
  show "sent (binds (sw s3)) = sent (binds (sw s))" by (simp add: sw3 no_staging_def t_def clear_context_def)
qed

section \<open>After the batch nothing fails\<close>

definition succeeds :: "('s, 'a) prog \<Rightarrow> bool" where
  "succeeds m \<longleftrightarrow> (\<forall>s s' e. m s \<noteq> Some (s', Inl e))"

lemma succeedsD: "succeeds m \<Longrightarrow> m s = Some (s', x) \<Longrightarrow> \<exists>y. x = Inr y"
  by (cases x) (auto simp: succeeds_def)

lemma succeeds_basic: "succeeds (ok x)" "succeeds crash" "succeeds (modify f)"
  by (simp_all add: succeeds_def run_simps)

lemma succeeds_gets: "(\<And>s. succeeds (k s)) \<Longrightarrow> succeeds (gets k)"
  by (simp add: succeeds_def run_simps)

lemma succeeds_chain: "succeeds m \<Longrightarrow> (\<And>x. succeeds (k x)) \<Longrightarrow> succeeds (chain m k)"
  unfolding succeeds_def by (auto elim!: chain_cases)

lemma succeeds_andthen: "succeeds m \<Longrightarrow> succeeds k \<Longrightarrow> succeeds (andthen m k)"
  unfolding andthen_def by (rule succeeds_chain)

lemma succeeds_on_error: "(\<And>e. succeeds (h e)) \<Longrightarrow> succeeds (on_error h m)"
  by (auto simp: succeeds_def on_error_def split: option.splits sum.splits)

lemma succeeds_cases:
  "succeeds m \<Longrightarrow> succeeds n \<Longrightarrow> succeeds (if b then m else n)"
  "succeeds m \<Longrightarrow> (\<And>y. succeeds (k y)) \<Longrightarrow> succeeds (case v of None \<Rightarrow> m | Some y \<Rightarrow> k y)"
  "succeeds (k w) \<Longrightarrow> succeeds (let z = w in k z)"
  "(\<And>a b. succeeds (j a b)) \<Longrightarrow> succeeds (case p of (a, b) \<Rightarrow> j a b)"
  by (simp_all split: option.split prod.split)

lemma succeeds_for_each: "(\<And>a. succeeds (f a)) \<Longrightarrow> succeeds (for_each f as)"
  by (induction as) (simp_all add: succeeds_basic succeeds_andthen)

lemma succeeds_lift: "succeeds m \<Longrightarrow> succeeds (on_dev m)" "succeeds n \<Longrightarrow> succeeds (on_sw n)"
  by (auto simp: succeeds_def on_dev_def on_sw_def split: option.splits)

lemmas succeeds_rules = succeeds_basic succeeds_gets succeeds_chain succeeds_andthen succeeds_on_error succeeds_cases
  succeeds_for_each succeeds_lift

lemma succeeds_push: "succeeds (push_cmd c)"
  unfolding push_cmd_def by (rule succeeds_rules)

lemma succeeds_ref: "succeeds (ref_bo b i)"
  unfolding ref_bo_def by (intro succeeds_rules)

lemma succeeds_pin: "succeeds (pin b p)" "succeeds (pin_dummy p)"
  unfolding pin_dummy_def pin_def vmw_bo_pin_def bug_on_def by (intro succeeds_rules)+

lemma succeeds_drop: "succeeds drop_pinned"
  unfolding drop_pinned_def by (intro succeeds_rules succeeds_ref)

lemma succeeds_switch: "succeeds vmw_query_bo_switch_commit"
  unfolding vmw_query_bo_switch_commit_def query_barrier_def unpin_query_bo_def pin_query_bo_def set_query_cid_def
  by (intro succeeds_rules succeeds_pin succeeds_drop succeeds_ref)

lemma succeeds_fence: "succeeds (vmw_execbuf_fence_commands h)"
  unfolding vmw_execbuf_fence_commands_def send_fence_def Let_def by (intro succeeds_rules succeeds_push)

lemma succeeds_panic: "succeeds vmw_execbuf_unpin_panic"
  unfolding vmw_execbuf_unpin_panic_def by (intro succeeds_rules succeeds_pin)

lemma succeeds_release: "succeeds (vmw_execbuf_release_pinned fence)"
  unfolding vmw_execbuf_release_pinned_def release_reserved_def unpin_and_fence_def
  by (intro succeeds_rules succeeds_pin succeeds_drop succeeds_ref succeeds_fence succeeds_panic)

lemma succeeds_unreserve: "succeeds (vmw_resource_list_unreserve backoff)"
  unfolding vmw_resource_list_unreserve_def list_nodes_def unreserve_node_def end_staging_def drop_new_backup_def
    vmw_resource_unreserve_def switch_backup_def reserved_bug_def bug_on_def
  by (intro succeeds_rules)

lemma succeeds_map: "succeeds (\<lambda>t. map_option (\<lambda>t'. (t', Inr ())) (f t))"
  by (auto simp: succeeds_def)

lemma succeeds_man: "succeeds (each_man f)"
proof -
  have "succeeds (on_man c (\<lambda>m. map_option (\<lambda>m'. (m', Inr ())) (f m)))" for c
    by (auto simp: succeeds_def on_man_def split: option.splits)
  then show ?thesis unfolding each_man_def list_nodes_def by (intro succeeds_rules)
qed

lemma succeeds_copy: "succeeds (vmw_execbuf_copy_fence_user ret rep fence)"
  unfolding vmw_execbuf_copy_fence_user_def by (intro succeeds_rules)

lemma succeeds_finish: "succeeds (finish_batch rep out)"
  unfolding finish_batch_def unlock_bindings_def release_stale_pinned_def clear_validations_def commit_staged_def
    vmw_resource_list_unreference_def list_nodes_def
  by (intro succeeds_rules succeeds_switch succeeds_fence succeeds_unreserve succeeds_release succeeds_map succeeds_man succeeds_copy)

lemma commit_emits:
  assumes "send_batch sz s = Some (s', x)"
  shows "case x of Inl e \<Rightarrow> emits driver_cmd s s'
    | Inr u \<Rightarrow> (\<exists>s1. calm s s1 \<and> emits driver_cmd s s1 \<and> commit_batch sz s1 = Some (s', Inr u))"
proof -
  let ?m = "gets (\<lambda>s. if has_mob (sw s) then vmw_rebind_contexts else ok ())"
  let ?r = "on_error (\<lambda>_. andthen unlock_bindings (fail ENOMEM)) fifo_room"
  have e: "keeps (emits driver_cmd) ?m s" "keeps (emits driver_cmd) ?r s" for s
    unfolding vmw_rebind_contexts_def unlock_bindings_def
    by (intro emits.k_rules emits_rebind emits_room emits_modify; simp)+
  have u: "calm s (s\<lparr>binding_locked := b\<rparr>)" for s b
    by (auto simp: calm_def frame_ex_def load_def harmless_def res_id_def lists_kept_def)
  have c: "keeps calm ?m s" "keeps calm ?r s" for s
    unfolding vmw_rebind_contexts_def unlock_bindings_def
    by (intro calm.k_rules calm_rebind calm_room calm.k_modify u)+
  from assms show ?thesis unfolding send_batch_def andthen_def [of ?m]
  proof (cases rule: chain_cases)
    case (err e')
    then show ?thesis using keepsD [OF e(1)] by auto
  next
    case (run s1 y)
    show ?thesis using run(2) unfolding andthen_def [of ?r]
    proof (cases rule: chain_cases)
      case (err e')
      then show ?thesis using keepsD [OF e(1) run(1)] keepsD [OF e(2) err(1)] by (auto intro: emits.trans)
    next
      case (run s2 z)
      have "x = Inr ()" using commit_batch_ok(1) [OF run(2)] .
      moreover have "calm s s2" using calm.trans [OF keepsD [OF c(1) \<open>?m s = Some (s1, Inr y)\<close>] keepsD [OF c(2) run(1)]] .
      moreover have "emits driver_cmd s s2"
        using emits.trans [OF keepsD [OF e(1) \<open>?m s = Some (s1, Inr y)\<close>] keepsD [OF e(2) run(1)]] .
      ultimately show ?thesis using run(2) by auto
    qed
  qed
qed

section \<open>Submission\<close>

text \<open>The resource is on the device: it has an id, which names an object of its kind that the commands so
  far have made, and its memory object, if it needs one, is bound.\<close>

definition present :: "res_dev \<Rightarrow> nat \<Rightarrow> bool" where
  "present d r \<longleftrightarrow> on_device r d \<and> (\<exists>k. kind_of (rs_type d r) = Some k \<and> (k, res_id d r) \<in> objects (sent (bnd d)))"

definition all_present :: "vmw_sw_context \<Rightarrow> res_dev \<Rightarrow> bool" where
  "all_present t d \<longleftrightarrow> (\<forall>n \<in> set (resource_list t). f_may_evict (tab d (vn_res (val_node t n))) \<longrightarrow> present d (vn_res (val_node t n)))"

lemma evictable_kind: "f_may_evict (tab d r) \<Longrightarrow> \<exists>k. kind_of (rs_type d r) = Some k"
  by (cases "rs_func (rsrc d r)") (simp_all add: res_func_def no_functions_def kind_of_def func_type_def vmw_gb_context_func_def vmw_legacy_surface_func_def vmw_gb_surface_func_def
      vmw_gb_shader_func_def)

lemma in_use_present:
  assumes "res_inv m d" "in_use r d" "f_may_evict (tab d r)"
  shows "present d r"
proof -
  obtain k where k: "kind_of (rs_type d r) = Some k" using evictable_kind [OF assms(3)] by blast
  have o: "on_device r d" using assms(2,3) by (simp add: in_use_def)
  moreover have "objects (sent (bnd d)) = owned d" using assms(1) by (simp add: res_inv_def link_inv_def core_inv_def)
  moreover have "(k, res_id d r) \<in> owned d" using k o by (auto simp: owned_def on_device_def)
  ultimately show ?thesis using k by (auto simp: present_def)
qed

lemma validated_batch_sent:
  assumes "validate_batch fuel sz thr s0 = Some (s1, Inr ())" "send_batch sz s1 = Some (s2, Inr ())"
    and fresh: "fresh_context krn c s (sw s0)" and inv: "dev_inv m (load s0)"
    and pinned: "\<And>b. is_pinned s0 b \<Longrightarrow> m \<Longrightarrow> buf_mem_type (bos (load s0) b) = VMW_PL_MOB"
  shows "\<exists>tc sb. vmw_cmd_check_all fuel sz (sw s0) = Some (Some (tc, Inr ())) \<and> lists_kept tc (sw sb) \<and> emits driver_cmd s0 sb \<and>
    sent (binds (sw s2)) = sent (binds (sw sb)) @ [CmdBatch (batch_bytes sz (sw sb))] \<and> res_inv m (load sb) \<and> all_present tc (load sb)"
proof -
  have sw: "sw_inv (sw s0)" using fresh by (simp add: fresh_context_def)
  note v = validate_batch_ok [OF assms(1) inv sw pinned]
  obtain tc where tc: "vmw_cmd_check_all fuel sz (sw s0) = Some (Some (tc, Inr ()))" "lists_kept tc (sw s1)" using v(1) by blast
  obtain sb where sb: "calm s1 sb" "emits driver_cmd s1 sb" "commit_batch sz sb = Some (s2, Inr ())"
    using commit_emits [OF assms(2)] by auto
  have "frame_ex s1 sb" using sb(1) by (simp add: calm_def)
  then have l: "lists_kept tc (sw sb)" using lists_kept.trans [OF tc(2)] by (simp add: frame_ex_def)
  have i: "res_inv m (load sb)" using calm_inv(1) [OF sb(1) v(2)] .
  have "all_present tc (load sb)" unfolding all_present_def
  proof (intro ballI impI)
    fix n assume n: "n \<in> set (resource_list tc)" and ev: "f_may_evict (tab (load sb) (vn_res (val_node tc n)))"
    have "n \<in> set (resource_list (sw s1))" "node_res s1 n = vn_res (val_node tc n)"
      using tc(2) n by (simp_all add: lists_kept_def node_res_def)
    then have "in_use (vn_res (val_node tc n)) (load s1)" using v(3) by force
    from in_use_present [OF i calm_inv(2) [OF sb(1) v(2) this] ev]
    show "present (load sb) (vn_res (val_node tc n))" .
  qed
  moreover have "emits driver_cmd s0 sb" using emits.trans [OF keepsD [OF emits_validate_batch assms(1)] sb(2)] .
  ultimately show ?thesis using tc(1) l i commit_batch_ok(2) [OF sb(3)] by blast
qed

lemma out_fails: "out_unlock e s \<noteq> Some (s', Inr x)" "out_err e s \<noteq> Some (s', Inr x)"
  by (auto simp: out_unlock_def out_err_def andthen_Some run_simps split: if_splits)

lemma batch_once:
  assumes con: "consistent m s" and run: "vmw_execbuf_process fuel krn c sz thr rep out s = Some (s', Inr f)"
  shows "\<exists>t tc sb pre post. fresh_context krn c s t \<and> vmw_cmd_check_all fuel sz t = Some (Some (tc, Inr ())) \<and> lists_kept tc (sw sb) \<and>
    sent (binds (sw sb)) = sent (binds (sw s)) @ pre \<and> list_all driver_cmd pre \<and> res_inv m (load sb) \<and> all_present tc (load sb) \<and>
    sent (binds (sw s')) = sent (binds (sw s)) @ pre @ CmdBatch (batch_bytes sz (sw sb)) # post \<and> list_all closing_cmd post"
proof -
  obtain s1 s3 s5 where s1: "restartsys s = Some (s1, Inr ())"
    and s3: "on_error out_unlock (andthen (take_commands krn c sz) begin_batch) s1 = Some (s3, Inr ())"
    and s5: "on_error out_err (andthen (validate_batch fuel sz thr) (send_batch sz)) s3 = Some (s5, Inr ())"
    and s6: "finish_batch rep out s5 = Some (s', Inr f)"
    using run unfolding vmw_execbuf_process_def andthen_Some by blast
  have "andthen (take_commands krn c sz) begin_batch s1 = Some (s3, Inr ())"
    using s3 out_fails(1) unfolding on_error_Some by blast
  then obtain s2 where s2: "take_commands krn c sz s1 = Some (s2, Inr ())" "begin_batch s2 = Some (s3, Inr ())"
    unfolding andthen_Some by blast
  have "andthen (validate_batch fuel sz thr) (send_batch sz) s3 = Some (s5, Inr ())"
    using s5 out_fails(2) unfolding on_error_Some by blast
  then obtain s4 where s4: "validate_batch fuel sz thr s3 = Some (s4, Inr ())" "send_batch sz s4 = Some (s5, Inr ())"
    unfolding andthen_Some by blast
  note st = fresh_start [OF s1 s2 con]
  have pin: "buf_mem_type (bos (load s3) b) = VMW_PL_MOB" if "is_pinned s3 b" m for b
  proof -
    have "bos (load s3) = buffer (sw s)" using st(1) by (simp add: fresh_context_def same_device_def load_def)
    then show ?thesis using con that st(3) by (simp add: consistent_def)
  qed
  obtain tc sb where sb: "vmw_cmd_check_all fuel sz (sw s3) = Some (Some (tc, Inr ()))" "lists_kept tc (sw sb)" "emits driver_cmd s3 sb"
    "sent (binds (sw s5)) = sent (binds (sw sb)) @ [CmdBatch (batch_bytes sz (sw sb))]" "res_inv m (load sb)" "all_present tc (load sb)"
    using validated_batch_sent [OF s4 st(1,2) pin] by blast
  obtain pre where pre: "sent (binds (sw sb)) = sent (binds (sw s)) @ pre" "list_all driver_cmd pre"
    using sb(3) st(4) by (auto simp: emits_def extends_def)
  obtain post where "sent (binds (sw s')) = sent (binds (sw s5)) @ post" "list_all closing_cmd post"
    using keepsD [OF emits_finish s6] by (auto simp: emits_def extends_def)
  then show ?thesis using st(1) sb pre by (intro exI [of _ "sw s3"] exI [of _ tc] exI [of _ sb] exI [of _ pre] exI [of _ post]) simp
qed

lemma no_batch_on_error:
  assumes "vmw_execbuf_process fuel krn c sz thr rep out s = Some (s', Inl e)"
  shows "emits no_batch s s'"
proof -
  let ?t = "andthen (take_commands krn c sz) begin_batch" and ?v = "andthen (validate_batch fuel sz thr) (send_batch sz)"
  have before: "keeps (emits no_batch) (on_error out_unlock ?t) s" for s
    by (intro emits.k_rules emits_out late [OF emits_take] late [OF emits_begin])
  have on_err: "emits no_batch s1 s2" if v: "on_error out_err ?v s1 = Some (s2, x)" "\<forall>u. x \<noteq> Inr u" for s1 s2 x
  proof -
    obtain s3 e' where e': "?v s1 = Some (s3, Inl e')" "out_err e' s3 = Some (s2, x)"
      using v by (auto simp: on_error_def split: option.splits sum.splits prod.splits)
    have "emits no_batch s1 s3" using e'(1) unfolding andthen_def
    proof (cases rule: chain_cases)
      case (err e'')
      then show ?thesis using keepsD [OF late [OF emits_validate_batch]] by blast
    next
      case (run s4 y)
      have "emits driver_cmd s4 s3" using commit_emits [OF run(2)] by simp
      then show ?thesis using keepsD [OF late [OF emits_validate_batch] run(1)] emits_mono by (blast intro: emits.trans)
    qed
    then show ?thesis using keepsD [OF emits_out(2) e'(2)] by (rule emits.trans)
  qed
  from assms show ?thesis unfolding vmw_execbuf_process_def andthen_def [of restartsys]
  proof (cases rule: chain_cases)
    case (err e')
    then show ?thesis using keepsD [OF late [OF emits_restartsys]] by blast
  next
    case (run s1 y)
    have a: "emits no_batch s s1" using keepsD [OF late [OF emits_restartsys] run(1)] .
    show ?thesis using run(2) unfolding andthen_def [of "on_error out_unlock ?t"]
    proof (cases rule: chain_cases)
      case (err e')
      then show ?thesis using a keepsD [OF before] emits.trans by blast
    next
      case (run s2 y)
      have b: "emits no_batch s s2" using a keepsD [OF before run(1)] by (rule emits.trans)
      show ?thesis using run(2) unfolding andthen_def [of "on_error out_err ?v"]
      proof (cases rule: chain_cases)
        case (err e')
        have "emits no_batch s2 s'" by (rule on_err [OF err(1)]) simp
        then show ?thesis using b by (blast intro: emits.trans)
      next
        case (run s3 y)
        then show ?thesis using succeedsD [OF succeeds_finish run(2)] by simp
      qed
    qed
  qed
qed

section \<open>What a submission sends\<close>

text \<open>C37: when a submission succeeds, the device has been sent, in this order, commands of the driver,
  the batch, once, and then nothing but dummy queries and fences.  The batch is the one that the verifier
  accepted in a fresh context of the client: its bytes are those of the client with the buffers' addresses
  and the resources' ids put in the places that the verifier noted, as the buffers and resources are when
  it is sent.  At that moment every evictable resource of the batch (all but contexts without guest
  backing and overlay streams, which are not created and destroyed on demand) is on the device
  under that id, and bound to its memory object.  When a submission fails, the device has been sent no
  batch.

  It starts in a state in which driver and device agree (\<open>consistent\<close>), and it returns: some of the bugs
  found make it end in a BUG or not at all.  The last two steps, \<open>vmw_cmdbuf_res_commit\<close> and
  \<open>vmw_resource_list_unreference\<close>, give up references and only count here: the commands that
  \<open>vmw_resource_release\<close> sends for a resource whose last reference that was, after the fence, are not
  modelled.\<close>
theorem vmw_execbuf_process_sends:
  assumes "consistent m s" "vmw_execbuf_process fuel krn c sz thr rep out s = Some (s', x)"
  shows "case x of
      Inl e \<Rightarrow> emits no_batch s s'
    | Inr f \<Rightarrow> \<exists>t tc sb pre post.
        fresh_context krn c s t \<and> vmw_cmd_check_all fuel sz t = Some (Some (tc, Inr ())) \<and> lists_kept tc (sw sb) \<and>
        sent (binds (sw sb)) = sent (binds (sw s)) @ pre \<and> list_all driver_cmd pre \<and> res_inv m (load sb) \<and> all_present tc (load sb) \<and>
        sent (binds (sw s')) = sent (binds (sw s)) @ pre @ CmdBatch (batch_bytes sz (sw sb)) # post \<and> list_all closing_cmd post"
proof (cases x)
  case (Inl e)
  then show ?thesis using no_batch_on_error assms(2) by simp
next
  case (Inr f)
  then show ?thesis using batch_once [OF assms(1)] assms(2) by simp
qed

section \<open>A submission\<close>

lemma fold_reserved:
  "fold (\<lambda>b f. f(b := (f b)\<lparr>buf_reserved := x\<rparr>)) bs g = (\<lambda>b. if b \<in> set bs then (g b)\<lparr>buf_reserved := x\<rparr> else (g b :: buffer_object))"
  by (induction bs arbitrary: g) (auto simp: fun_eq_iff)

lemma fold_fence: "fold (\<lambda>b f. f(b := x)) bs g = (\<lambda>b. if b \<in> set bs then x else g b)"
  by (induction bs arbitrary: g) (auto simp: fun_eq_iff)

text \<open>For running examples: an updated function is a value, and is not unfolded to a conditional.\<close>

lemma mark_reserved_code [code]:
  "mark_reserved x bs s = s\<lparr>sw := (sw s)\<lparr>buffer := fold (\<lambda>b f. f(b := (f b)\<lparr>buf_reserved := x\<rparr>)) bs (buffer (sw s))\<rparr>\<rparr>"
  by (simp add: mark_reserved_def fold_reserved)

lemma set_fence_code [code]:
  "set_fence fence bs s = mark_reserved False bs (s\<lparr>sync_obj := fold (\<lambda>b f. f(b := fence)) bs (sync_obj s)\<rparr>)"
  by (simp add: set_fence_def fold_fence)

declare fun_upd_def [code del]
declare fun_upd_apply [code]
declare grow_bounce.simps [code] reserve_uninterrupted.simps [code]

text \<open>A client with a context and a surface that have never been on the device.\<close>

definition submit_example :: vmw_exec where
  "submit_example = \<lparr>sw = (example_sw example_batch)\<lparr>has_mob := True, gb_objects := True,
       resource := (\<lambda>r. idle_resource\<lparr>rs_func := if r = 0 then Gb_context else Gb_surface,
         rs_free := if r = 0 then vmw_res_context else vmw_res_surface\<rparr>),
       buffer := bos idle_dev, binds := bnd idle_dev\<rparr>,
     dev_priv = idle_dev\<lparr>next_bo := 10\<rparr>, pinned_bo = None, dummy_query_bo_pinned = False, res_ht_initialized = False,
     cmd_bounce_size = 0, fence_caps = True, last_seqno = 4, binding_locked = False, eu_reserved = False, sync_obj = (\<lambda>_. None),
     ttm_puts = (\<lambda>_. (VMW_PL_MOB, 0, 3)), user_fences = [], fence_reps = []\<rparr>"

lemma submit_example_consistent: "consistent True submit_example"
  by (simp add: consistent_def dev_inv_def heads_ok_def res_inv_def link_inv_def lru_inv_def core_inv_def objects_def owned_def
      backup_bound_def mob_ok_def is_pinned_def load_def res_id_def submit_example_def idle_dev_def idle_resource_def func_defs
      example_sw_def)

text \<open>The context and the surface get id 1 and a memory object each; in the batch the handles 8 and 7 have
  become that id.\<close>

definition submit_example_sent :: "scrub_cmd list" where
  "submit_example_sent = [CmdObject (CmdDefine Context_object 1 []), CmdObject (CmdBind Context_object 1 10 [0]),
     CmdObject (CmdDefine Surface_object 1 []), CmdObject (CmdBind Surface_object 1 11 []),
     CmdBatch [18, 4, 0, 0, 32, 0, 0, 0, 1, 0, 0, 0, 0, 0, 0, 0, 0, 0, 0, 0, 255, 255, 255, 255, 0, 0, 0, 0, 0, 0, 0, 0, 0, 0, 0, 0,
       0, 0, 0, 0, 33, 4, 0, 0, 12, 0, 0, 0, 1, 0, 0, 0, 0, 0, 0, 0, 0, 0, 0, 0],
     CmdFence 5]"

lemma submit_example_runs:
  "map_option (\<lambda>(s, x). (sent (binds (sw s)), x)) (vmw_execbuf_process 3 False example_batch 60 False False False submit_example) =
   Some (submit_example_sent, Inr None)"
  by code_simp

theorem vmw_execbuf_process_sends_witness:
  "\<exists>s' sb pre post. vmw_execbuf_process 3 False example_batch 60 False False False submit_example = Some (s', Inr None) \<and>
     sent (binds (sw s')) = submit_example_sent \<and> submit_example_sent = pre @ CmdBatch (batch_bytes 60 (sw sb)) # post \<and>
     list_all driver_cmd pre \<and> list_all closing_cmd post \<and> res_inv True (load sb)"
proof -
  obtain s' where run: "vmw_execbuf_process 3 False example_batch 60 False False False submit_example = Some (s', Inr None)"
    and sent: "sent (binds (sw s')) = submit_example_sent" using submit_example_runs by auto
  have none: "sent (binds (sw submit_example)) = []" by (simp add: submit_example_def idle_dev_def)
  from vmw_execbuf_process_sends [OF submit_example_consistent run] obtain sb pre post where
    "sent (binds (sw s')) = pre @ CmdBatch (batch_bytes 60 (sw sb)) # post" "list_all driver_cmd pre" "list_all closing_cmd post"
    "res_inv True (load sb)" by (auto simp: none)
  with run sent show ?thesis by (intro exI [of _ s'] exI [of _ sb] exI [of _ pre] exI [of _ post]) simp
qed

end
