(* ===== verification/Page_Iter.thy ===== *)
theory Page_Iter
  imports Prelude
begin

text \<open>
  Pages as the device sees them, \<open>src/vmwgfx_buffer.c\<close> and \<open>src/vmwgfx_drv.h\<close>: the table of the
  DMA addresses of a buffer, the iterator over it, and the count of contiguous regions.  The
  scatter list of the kernel and the arrays of addresses give the same: the addresses of the
  pages in their order.  The address of a page outside the table is \<open>None\<close>.
\<close>

lemma unat_of_nat_eq: "unat x = y \<Longrightarrow> x = of_nat y"
  by auto

datatype vmw_dma_map_mode = vmw_dma_phys | vmw_dma_alloc_coherent | vmw_dma_map_populate | vmw_dma_map_bind

record vmw_sg_table =
  sg_addrs :: "u64 list"
  sg_num_regions :: u64
  sg_num_pages :: u64

record vmw_piter =
  pi_addrs :: "u64 list"
  pi_i :: u64
  pi_num_pages :: u64

definition vmw_piter_start :: "vmw_sg_table \<Rightarrow> u64 \<Rightarrow> vmw_piter" where
  "vmw_piter_start t off = \<lparr>pi_addrs = sg_addrs t, pi_i = off - 1, pi_num_pages = sg_num_pages t\<rparr>"

definition vmw_piter_next :: "vmw_piter \<Rightarrow> vmw_piter \<times> bool" where
  "vmw_piter_next it = (let i = pi_i it + 1 in (it\<lparr>pi_i := i\<rparr>, i < pi_num_pages it))"

definition vmw_piter_dma_addr :: "vmw_piter \<Rightarrow> u64 option" where
  "vmw_piter_dma_addr it = (if unat (pi_i it) < length (pi_addrs it) then Some (pi_addrs it ! unat (pi_i it)) else None)"

definition PAGE_SHIFT :: nat where "PAGE_SHIFT = 12"

definition frame :: "u64 \<Rightarrow> u64" where
  "frame a = drop_bit PAGE_SHIFT a"

text \<open>The table of a buffer: as many addresses as pages.\<close>

definition sg_ok :: "vmw_sg_table \<Rightarrow> bool" where
  "sg_ok t \<longleftrightarrow> length (sg_addrs t) = unat (sg_num_pages t)"

text \<open>The iterator stands at page \<open>k\<close> of the addresses \<open>ds\<close>.\<close>

definition at_page :: "u64 list \<Rightarrow> nat \<Rightarrow> vmw_piter \<Rightarrow> bool" where
  "at_page ds k it \<longleftrightarrow> pi_addrs it = ds \<and> pi_i it = of_nat k \<and> pi_num_pages it = of_nat (length ds) \<and>
     length ds < 2 ^ 63 \<and> k \<le> length ds"

lemma at_page_addr:
  assumes "at_page ds k it" "k < length ds"
  shows "vmw_piter_dma_addr it = Some (ds ! k)"
  using assms by (simp add: at_page_def vmw_piter_dma_addr_def unat_of_nat_lt)

lemma at_page_next:
  assumes "at_page ds k it" "k < length ds"
  shows "at_page ds (Suc k) (fst (vmw_piter_next it))" "snd (vmw_piter_next it) \<longleftrightarrow> Suc k < length ds"
proof -
  have s: "(of_nat k :: u64) + 1 = of_nat (Suc k)" by simp
  have u: "unat (of_nat (Suc k) :: u64) = Suc k" "unat (of_nat (length ds) :: u64) = length ds"
    using assms by (simp_all only: at_page_def) (auto simp: unat_of_nat_lt simp del: of_nat_Suc)
  show "at_page ds (Suc k) (fst (vmw_piter_next it))"
    using assms by (simp add: at_page_def vmw_piter_next_def Let_def)
  show "snd (vmw_piter_next it) \<longleftrightarrow> Suc k < length ds"
    using assms u unfolding vmw_piter_next_def Let_def snd_conv at_page_def word_less_nat_alt
    by (simp add: s [symmetric] add.commute)
qed

lemma start_next:
  assumes "sg_ok t" "length (sg_addrs t) < 2 ^ 63"
  shows "at_page (sg_addrs t) 0 (fst (vmw_piter_next (vmw_piter_start t 0)))"
    "snd (vmw_piter_next (vmw_piter_start t 0)) \<longleftrightarrow> sg_addrs t \<noteq> []"
proof -
  have n: "sg_num_pages t = of_nat (length (sg_addrs t))" using assms(1) by (simp add: sg_ok_def)
  show "at_page (sg_addrs t) 0 (fst (vmw_piter_next (vmw_piter_start t 0)))"
    using assms(2) n by (simp add: at_page_def vmw_piter_next_def vmw_piter_start_def Let_def)
  show "snd (vmw_piter_next (vmw_piter_start t 0)) \<longleftrightarrow> sg_addrs t \<noteq> []"
    using assms by (cases "sg_addrs t") (auto simp: sg_ok_def vmw_piter_next_def vmw_piter_start_def Let_def word_less_nat_alt)
qed

section \<open>Contiguous regions\<close>

text \<open>The loop of \<open>vmw_ttm_map_dma\<close> that counts the regions.\<close>

fun count_regions :: "u64 \<Rightarrow> u64 list \<Rightarrow> u64" where
  "count_regions old [] = 0"
| "count_regions old (cur # as) = (if cur \<noteq> old + of_nat PAGE_SIZE then 1 else 0) + count_regions cur as"

definition num_regions_of :: "u64 list \<Rightarrow> u64" where
  "num_regions_of as = count_regions (NOT 0) as"

definition sg_of :: "u64 list \<Rightarrow> vmw_sg_table" where
  "sg_of as = \<lparr>sg_addrs = as, sg_num_regions = num_regions_of as, sg_num_pages = of_nat (length as)\<rparr>"

definition page_aligned :: "u64 \<Rightarrow> bool" where
  "page_aligned a \<longleftrightarrow> take_bit PAGE_SHIFT a = 0"

lemma count_regions_nat: "length as < 2 ^ 63 \<Longrightarrow> unat (count_regions old as) \<le> length as"
proof (induction as arbitrary: old)
  case (Cons a as)
  have "unat (count_regions a as) \<le> length as" using Cons by simp
  then have "unat (1 + count_regions a as) = Suc (unat (count_regions a as))"
    using Cons(2) by (subst unat_add_nowrap) simp_all
  moreover have "unat (count_regions (old + of_nat PAGE_SIZE) as) \<le> length as" using Cons by simp
  ultimately show ?case using \<open>unat (count_regions a as) \<le> length as\<close> by simp
qed simp

lemma count_regions_zero:
  "length as < 2 ^ 63 \<Longrightarrow> count_regions old as = 0 \<Longrightarrow> k < length as \<Longrightarrow> as ! k = old + of_nat (Suc k * PAGE_SIZE)"
proof (induction as arbitrary: old k)
  case (Cons a as)
  have u: "unat (count_regions a as) \<le> length as" using Cons(2) by (intro count_regions_nat) simp
  have a: "a = old + of_nat PAGE_SIZE"
  proof (rule ccontr)
    assume "a \<noteq> old + of_nat PAGE_SIZE"
    then have "unat (1 + count_regions a as) = 0" using Cons(3) by simp
    then show False using u Cons(2) by (subst (asm) unat_add_nowrap) simp_all
  qed
  then have z: "count_regions a as = 0" using Cons(3) by simp
  show ?case
  proof (cases k)
    case (Suc j)
    then show ?thesis using Cons(1) [OF _ z, of j] Cons(2,4) a by (simp add: algebra_simps)
  qed (simp add: a)
qed simp

text \<open>One region: the pages follow one another.\<close>

lemma one_region:
  assumes "num_regions_of as = 1" "page_aligned (hd as)" "length as < 2 ^ 63" "k < length as"
  shows "as ! k = hd as + of_nat (k * PAGE_SIZE)"
proof -
  obtain a bs where as: "as = a # bs" using assms(4) by (cases as) auto
  have "a \<noteq> NOT 0 + of_nat PAGE_SIZE"
  proof
    assume "a = NOT 0 + of_nat PAGE_SIZE"
    then have "take_bit 12 (4095 :: u64) = 0" using assms(2) by (simp add: as page_aligned_def PAGE_SHIFT_def PAGE_SIZE_def)
    then show False by simp
  qed
  then have "count_regions a bs = 0" using assms(1) by (simp add: as num_regions_of_def)
  from count_regions_zero [OF _ this] show ?thesis
    using assms(3,4) by (cases k) (auto simp: as)
qed

end
