(* ===== verification/Mob.thy ===== *)
theory Mob
  imports Page_Iter Resource
begin

text \<open>
  Memory objects, \<open>src/vmwgfx_mob.c\<close>, in the build with page table entries of 64 bits: the page
  table of a buffer whose pages are scattered, binding a memory object to the device and taking
  it off, and the object tables.  Memory is a map from a frame number and an index to an entry of
  the page table in it; the pages of a page table are those the allocator returns.  The
  value \<open>None\<close> is a BUG, the use of a null pointer or of a page outside a table.
\<close>

section \<open>Size and construction of a page table\<close>

type_synonym pt_mem = "u64 \<Rightarrow> nat \<Rightarrow> u64"

definition VMW_PPN_SIZE :: u64 where "VMW_PPN_SIZE = 8"

text \<open>The number of pages of all levels of the page table.\<close>

definition div_round_up :: "u64 \<Rightarrow> u64 \<Rightarrow> u64" where
  "div_round_up n d = (n + d - 1) div d"

function pt_size_loop :: "u64 \<Rightarrow> u64 \<Rightarrow> u64" where
  "pt_size_loop data_size tot =
     (if 4096 < data_size
      then let d = div_round_up data_size 4096 * VMW_PPN_SIZE in
        pt_size_loop d (tot + ((d + 4096 - 1) AND NOT 4095))
      else tot)"
  by pat_completeness auto

lemma unat_round_up: "unat (n + 4095 :: u64) div 4096 \<le> unat n div 4096 + 1"
proof -
  have "unat (n + 4095) \<le> unat n + 4095" by (simp add: unat_word_ariths)
  then have "unat (n + 4095) div 4096 \<le> (unat n + 4095) div 4096" by (rule div_le_mono)
  then show ?thesis by linarith
qed

lemma div_round_up_nat: "unat (div_round_up n 4096 * VMW_PPN_SIZE) = (unat (n + 4095) div 4096) * 8"
proof -
  have "unat (div_round_up n 4096) = unat (n + 4095) div 4096"
  proof -
    have e: "n + 4096 - 1 = n + 4095" by simp
    have f: "unat (4096 :: u64) = 4096" by simp
    show ?thesis unfolding div_round_up_def e unat_div_distrib f ..
  qed
  moreover have "unat (n + 4095) div 4096 < 2 ^ 52"
    by (rule less_mult_imp_div_less) (use unat_lt64 [of "n + 4095"] in simp)
  ultimately show ?thesis by (simp add: unat_word_ariths VMW_PPN_SIZE_def)
qed

termination pt_size_loop
proof (relation "measure (\<lambda>(d, tot). unat d)", goal_cases)
  case (2 n tot d)
  have "4096 < unat n" using 2(1) by (simp add: word_less_nat_alt)
  moreover have "unat d = (unat (n + 4095) div 4096) * 8" unfolding 2(2) by (rule div_round_up_nat)
  ultimately show ?case using unat_round_up [of n] by simp
qed simp

declare pt_size_loop.simps [simp del]

definition vmw_mob_calculate_pt_pages :: "u64 \<Rightarrow> u64" where
  "vmw_mob_calculate_pt_pages data_pages = drop_bit PAGE_SHIFT (pt_size_loop (data_pages * 4096) 0)"

text \<open>Filling one page of a page table from index \<open>i\<close> on; \<open>c\<close> entries fit.  The iterator is not
  moved on after the last page of data.\<close>

definition vmw_mob_assign_ppn :: "u64 \<Rightarrow> nat \<Rightarrow> u64 \<Rightarrow> pt_mem \<Rightarrow> pt_mem" where
  "vmw_mob_assign_ppn p i a m = m(p := (m p)(i := frame a))"

fun fill_entries :: "nat \<Rightarrow> nat \<Rightarrow> u64 \<Rightarrow> vmw_piter \<Rightarrow> u64 \<Rightarrow> pt_mem \<Rightarrow> (vmw_piter \<times> u64 \<times> pt_mem) option" where
  "fill_entries 0 i p d n m = Some (d, n, m)"
| "fill_entries (Suc c) i p d n m =
     (case vmw_piter_dma_addr d of
        None \<Rightarrow> None
      | Some a \<Rightarrow>
          let m1 = vmw_mob_assign_ppn p i a m; n1 = n - 1 in
          if n1 = 0 then Some (d, n1, m1)
          else fill_entries c (Suc i) p (fst (vmw_piter_next d)) n1 m1)"

text \<open>The pages of one level.\<close>

fun build_pages :: "nat \<Rightarrow> vmw_piter \<Rightarrow> u64 \<Rightarrow> vmw_piter \<Rightarrow> pt_mem \<Rightarrow> (vmw_piter \<times> pt_mem) option" where
  "build_pages 0 d n pt m = Some (pt, m)"
| "build_pages (Suc c) d n pt m =
     (case vmw_piter_dma_addr pt of
        None \<Rightarrow> None
      | Some a \<Rightarrow>
          (case fill_entries (PAGE_SIZE div unat VMW_PPN_SIZE) 0 (frame a) d n m of
             None \<Rightarrow> None
           | Some (d1, n1, m1) \<Rightarrow> build_pages c d1 n1 (fst (vmw_piter_next pt)) m1))"

definition vmw_mob_build_pt :: "vmw_piter \<Rightarrow> u64 \<Rightarrow> vmw_piter \<Rightarrow> pt_mem \<Rightarrow> (u64 \<times> vmw_piter \<times> pt_mem) option" where
  "vmw_mob_build_pt d n pt m =
     (let num = div_round_up (n * VMW_PPN_SIZE) 4096 in
      case build_pages (unat num) d n pt m of
        None \<Rightarrow> None
      | Some (pt1, m1) \<Rightarrow> Some (num, pt1, m1))"

text \<open>Level by level, until one page is left; \<open>save\<close> is where the last level began.\<close>

function pt_setup_loop :: "nat \<Rightarrow> vmw_piter option \<Rightarrow> vmw_piter \<Rightarrow> u64 \<Rightarrow> vmw_piter \<Rightarrow> pt_mem \<Rightarrow> (nat \<times> vmw_piter option \<times> pt_mem) option" where
  "pt_setup_loop level save d n pt m =
     (if 1 < n
      then if 2 < Suc level then None
        else (case vmw_mob_build_pt d n pt m of
            None \<Rightarrow> None
          | Some (n1, pt1, m1) \<Rightarrow> pt_setup_loop (Suc level) (Some pt) pt n1 pt1 m1)
      else Some (level, save, m))"
  by pat_completeness auto

termination pt_setup_loop
  by (relation "measure (\<lambda>(level, save, d, n, pt, m). 3 - level)") auto

declare pt_setup_loop.simps [simp del]

record vmw_mob =
  mob_pt_bo :: "vmw_sg_table option"
  mob_num_pages :: u64
  mob_pt_level :: u32
  mob_pt_root :: u64
  mob_dev_id :: u32

definition vmw_mob_create :: "u64 \<Rightarrow> vmw_mob" where
  "vmw_mob_create data_pages = \<lparr>mob_pt_bo = None, mob_num_pages = vmw_mob_calculate_pt_pages data_pages,
     mob_pt_level = 0, mob_pt_root = 0, mob_dev_id = 0\<rparr>"

definition vmw_mob_pt_setup :: "vmw_mob \<Rightarrow> vmw_piter \<Rightarrow> u64 \<Rightarrow> pt_mem \<Rightarrow> (vmw_mob \<times> pt_mem) option" where
  "vmw_mob_pt_setup mob d n m =
     (case mob_pt_bo mob of
        None \<Rightarrow> None
      | Some t \<Rightarrow>
          let (pt, more) = vmw_piter_next (vmw_piter_start t 0) in
          if \<not> more then None
          else (case pt_setup_loop 0 None d n pt m of
              None \<Rightarrow> None
            | Some (level, None, m1) \<Rightarrow> None
            | Some (level, Some save, m1) \<Rightarrow>
                (case vmw_piter_dma_addr save of
                   None \<Rightarrow> None
                 | Some root \<Rightarrow> Some (mob\<lparr>mob_pt_level := of_nat level, mob_pt_root := root\<rparr>, m1))))"

section \<open>What the device reads\<close>

text \<open>The frame of page \<open>k\<close> below a page table of a number of levels.\<close>

fun walk :: "pt_mem \<Rightarrow> nat \<Rightarrow> u64 \<Rightarrow> nat \<Rightarrow> u64" where
  "walk m 0 p k = p"
| "walk m (Suc l) p k = walk m l (m p (k div 512 ^ l)) (k mod 512 ^ l)"

lemma fill_entries_spec:
  assumes "at_page ds k d" "k + unat n \<le> length ds" "0 < unat n" "0 < c"
  shows "\<exists>d' m'. fill_entries c i p d n m = Some (d', n - of_nat (min c (unat n)), m') \<and>
    (\<forall>j < min c (unat n). m' p (i + j) = frame (ds ! (k + j))) \<and>
    (\<forall>q x. q \<noteq> p \<or> x < i \<or> i + min c (unat n) \<le> x \<longrightarrow> m' q x = m q x) \<and>
    (c < unat n \<longrightarrow> at_page ds (k + c) d')"
  using assms
proof (induction c arbitrary: i k d n m)
  case (Suc c)
  have a: "vmw_piter_dma_addr d = Some (ds ! k)" using at_page_addr Suc.prems by simp
  let ?m = "vmw_mob_assign_ppn p i (ds ! k) m" and ?d = "fst (vmw_piter_next d)"
  have n1: "unat (n - 1) = unat n - 1" using Suc.prems(3) by (simp add: unat_sub_le)
  have w: "?m p i = frame (ds ! k)" "q \<noteq> p \<or> x \<noteq> i \<Longrightarrow> ?m q x = m q x" for q x
    by (auto simp: vmw_mob_assign_ppn_def)
  consider "unat n = 1" | "1 < unat n" "c = 0" | "1 < unat n" "0 < c" using Suc.prems(3) by linarith
  then show ?case
  proof cases
    case 1
    then have "n - 1 = 0" by (metis n1 diff_self_eq_0 unat_eq_zero)
    with 1 show ?thesis using a w by (simp add: Let_def) (auto simp: vmw_mob_assign_ppn_def)
  next
    case 2
    then have "n - 1 \<noteq> 0" using n1 by (metis unat_0 zero_less_diff not_less_iff_gr_or_eq)
    moreover have "at_page ds (Suc k) ?d" using at_page_next(1) Suc.prems by simp
    ultimately show ?thesis using 2 a w by (simp add: Let_def) (auto simp: vmw_mob_assign_ppn_def)
  next
    case 3
    then have ne: "n - 1 \<noteq> 0" using n1 by (metis unat_0 zero_less_diff not_less_iff_gr_or_eq)
    have d: "at_page ds (Suc k) ?d" using at_page_next(1) Suc.prems by simp
    obtain d' m' where r: "fill_entries c (Suc i) p ?d (n - 1) ?m = Some (d', n - 1 - of_nat (min c (unat (n - 1))), m')"
      and e: "\<And>j. j < min c (unat (n - 1)) \<Longrightarrow> m' p (Suc i + j) = frame (ds ! (Suc k + j))"
      and o: "\<And>q x. q \<noteq> p \<or> x < Suc i \<or> Suc i + min c (unat (n - 1)) \<le> x \<Longrightarrow> m' q x = ?m q x"
      and nx: "c < unat (n - 1) \<Longrightarrow> at_page ds (Suc k + c) d'"
      using Suc.IH [OF d, of "n - 1" "Suc i" ?m] Suc.prems(2) n1 3 by auto
    have min: "min (Suc c) (unat n) = Suc (min c (unat (n - 1)))" using n1 3 by simp
    have "m' p (i + j) = frame (ds ! (k + j))" if "j < min (Suc c) (unat n)" for j
      using that e [of "j - 1"] o [of p i] w(1) unfolding min by (cases j) simp_all
    moreover have "m' q x = m q x" if "q \<noteq> p \<or> x < i \<or> i + min (Suc c) (unat n) \<le> x" for q x
      using that o [of q x] w(2) [of q x] unfolding min by fastforce
    moreover have "c < unat (n - 1) \<longleftrightarrow> Suc c < unat n" using n1 by linarith
    moreover have "n - 1 - of_nat (min c (unat (n - 1))) = n - of_nat (min (Suc c) (unat n))" unfolding min by simp
    ultimately show ?thesis using a r ne nx by (auto simp: Let_def)
  qed
qed simp

lemma frames_apart:
  assumes "distinct (map frame ps)" "x < length ps" "y < length ps" "x \<noteq> y"
  shows "frame (ps ! x) \<noteq> frame (ps ! y)"
  using assms nth_eq_iff_index_eq [of "map frame ps" x y] by simp

lemma build_pages_spec:
  assumes "at_page ds k d" "at_page ps j pt" "k + unat n \<le> length ds" "j + c \<le> length ps"
    "unat n \<le> c * 512" "0 < c \<Longrightarrow> (c - 1) * 512 < unat n" "distinct (map frame ps)"
  shows "\<exists>pt' m'. build_pages c d n pt m = Some (pt', m') \<and> at_page ps (j + c) pt' \<and>
    (\<forall>q < unat n. m' (frame (ps ! (j + q div 512))) (q mod 512) = frame (ds ! (k + q))) \<and>
    (\<forall>p. p \<notin> (\<lambda>t. frame (ps ! t)) ` {j..<j + c} \<longrightarrow> m' p = m p)"
  using assms
proof (induction c arbitrary: k d n j pt m)
  case (Suc c)
  have j: "j < length ps" using Suc.prems(4) by simp
  have root: "vmw_piter_dma_addr pt = Some (ps ! j)" by (rule at_page_addr [OF Suc.prems(2) j])
  have pt: "at_page ps (Suc j) (fst (vmw_piter_next pt))" by (rule at_page_next(1) [OF Suc.prems(2) j])
  have c512: "PAGE_SIZE div unat VMW_PPN_SIZE = 512" by (simp add: PAGE_SIZE_def VMW_PPN_SIZE_def)
  have n0: "c * 512 < unat n" using Suc.prems(6) by simp
  let ?p = "frame (ps ! j)" and ?e = "min 512 (unat n)"
  obtain d' m1 where f: "fill_entries 512 0 ?p d n m = Some (d', n - of_nat ?e, m1)"
    and w: "\<And>x. x < ?e \<Longrightarrow> m1 ?p x = frame (ds ! (k + x))"
    and o: "\<And>q x. q \<noteq> ?p \<Longrightarrow> m1 q x = m q x"
    and nx: "512 < unat n \<Longrightarrow> at_page ds (k + 512) d'"
    using fill_entries_spec [OF Suc.prems(1,3), of 512 0 ?p m] n0 by fastforce
  show ?case
  proof (cases c)
    case 0
    then have "unat n \<le> 512" using Suc.prems(5) by simp
    then show ?thesis
      using 0 f w o pt root by (auto simp: c512 fun_eq_iff)
  next
    case (Suc b)
    have big: "512 < unat n" using n0 Suc by simp
    then have e: "?e = 512" by simp
    let ?n = "n - of_nat 512"
    have n': "unat ?n = unat n - 512" using big by (simp add: unat_sub_le)
    have "\<exists>pt' m'. build_pages c d' ?n (fst (vmw_piter_next pt)) m1 = Some (pt', m') \<and> at_page ps (Suc j + c) pt' \<and>
      (\<forall>q < unat ?n. m' (frame (ps ! (Suc j + q div 512))) (q mod 512) = frame (ds ! (k + 512 + q))) \<and>
      (\<forall>p. p \<notin> (\<lambda>t. frame (ps ! t)) ` {Suc j..<Suc j + c} \<longrightarrow> m' p = m1 p)"
      by (rule Suc.IH [OF nx [OF big] pt]) (use Suc.prems n' big n0 in auto)
    then obtain pt' m' where r: "build_pages c d' ?n (fst (vmw_piter_next pt)) m1 = Some (pt', m')" "at_page ps (Suc j + c) pt'"
      and w': "\<And>q. q < unat n - 512 \<Longrightarrow> m' (frame (ps ! (Suc j + q div 512))) (q mod 512) = frame (ds ! (k + 512 + q))"
      and o': "\<And>p. p \<notin> (\<lambda>t. frame (ps ! t)) ` {Suc j..<Suc j + c} \<Longrightarrow> m' p = m1 p"
      unfolding n' by blast
    have "frame (ps ! j) \<noteq> frame (ps ! t)" if "t \<in> {Suc j..<Suc j + c}" for t
      by (rule frames_apart [OF Suc.prems(7) j]) (use that Suc.prems(4) in auto)
    then have keep: "m' ?p = m1 ?p" by (intro o') blast
    have "m' (frame (ps ! (j + q div 512))) (q mod 512) = frame (ds ! (k + q))" if q: "q < unat n" for q
    proof (cases "q < 512")
      case True
      then show ?thesis using keep w [of q] e by simp
    next
      case False
      then have "q div 512 = Suc ((q - 512) div 512)" "(q - 512) mod 512 = q mod 512"
        by (auto simp: div_if mod_if)
      then show ?thesis using w' [of "q - 512"] q False by simp
    qed
    moreover have "m' p = m p" if "p \<notin> (\<lambda>t. frame (ps ! t)) ` {j..<j + Suc c}" for p
    proof -
      have "p \<noteq> ?p" using that by auto
      moreover have "m' p = m1 p" by (rule o') (use that in auto)
      ultimately show ?thesis using o by auto
    qed
    ultimately show ?thesis using r f root e by (auto simp: c512)
  qed
qed simp

section \<open>The page table of a buffer\<close>

definition pt_pages :: "nat \<Rightarrow> nat" where
  "pt_pages n = (if n \<le> 1 then 0 else if n \<le> 512 then 1 else (n + 511) div 512 + 1)"

lemma level_pages:
  assumes "unat n < 2 ^ 40"
  shows "unat (div_round_up (n * VMW_PPN_SIZE) 4096) = (unat n + 511) div 512"
proof -
  have s: "unat (n * VMW_PPN_SIZE) = unat n * 8" using assms by (simp add: unat_word_ariths VMW_PPN_SIZE_def)
  have f: "unat (4096 :: u64) = 4096" by simp
  have "unat (n * VMW_PPN_SIZE + 4096 - 1) = unat (n * VMW_PPN_SIZE + 4095)" by (simp add: algebra_simps)
  also have "\<dots> = unat n * 8 + 4095" using s assms by (subst unat_add_nowrap) simp_all
  finally have "unat (div_round_up (n * VMW_PPN_SIZE) 4096) = (unat n * 8 + 4095) div 4096"
    by (simp only: div_round_up_def unat_div_distrib f)
  also have "\<dots> = (unat n + 511) div 512" by linarith
  finally show ?thesis .
qed

lemma build_pt_spec:
  assumes "at_page ds k d" "at_page ps j pt" "k + unat n \<le> length ds" "0 < unat n" "unat n \<le> 262144"
    "j + (unat n + 511) div 512 \<le> length ps" "distinct (map frame ps)"
  shows "\<exists>pt' m'. vmw_mob_build_pt d n pt m = Some (of_nat ((unat n + 511) div 512), pt', m') \<and>
    at_page ps (j + (unat n + 511) div 512) pt' \<and>
    (\<forall>q < unat n. m' (frame (ps ! (j + q div 512))) (q mod 512) = frame (ds ! (k + q))) \<and>
    (\<forall>p. p \<notin> (\<lambda>t. frame (ps ! t)) ` {j..<j + (unat n + 511) div 512} \<longrightarrow> m' p = m p)"
proof -
  let ?c = "(unat n + 511) div 512"
  have num: "unat (div_round_up (n * VMW_PPN_SIZE) 4096) = ?c" by (rule level_pages) (use assms(5) in simp)
  then have "div_round_up (n * VMW_PPN_SIZE) 4096 = of_nat ?c" by (rule unat_of_nat_eq)
  moreover have "unat n \<le> ?c * 512" "(?c - 1) * 512 < unat n" using assms(4) by linarith+
  ultimately show ?thesis
    using build_pages_spec [OF assms(1,2,3,6) _ _ assms(7), of m] num
    by (auto simp: vmw_mob_build_pt_def Let_def)
qed

text \<open>The number of pages \<open>vmw_mob_create\<close> allows for is what the levels need.\<close>

lemma round_up_page:
  fixes d :: u64
  assumes "unat d < 2 ^ 62"
  shows "unat ((d + 4096 - 1) AND NOT 4095) = (unat d + 4095) div 4096 * 4096"
proof -
  have "unat (d + 4095) = unat d + 4095" using assms by (subst unat_add_nowrap) simp_all
  moreover have "d + 4096 - 1 = d + 4095" "4095 + d = d + 4095" by simp_all
  moreover have "x AND NOT 4095 = push_bit 12 (drop_bit 12 x)" for x :: u64
  proof -
    have "(4095 :: u64) = mask 12" by (simp add: mask_eq_exp_minus_1)
    then show ?thesis by (simp add: bit_eq_iff bit_simps) (auto simp: bit_simps)
  qed
  moreover have "unat (push_bit 12 (drop_bit 12 x)) = unat x div 4096 * 4096" for x :: u64
  proof -
    have d: "unat (drop_bit 12 x) = unat x div 4096" 
    proof -
      have f: "unat (4096 :: u64) = 4096" by simp
      have "drop_bit 12 x = x div 4096" by (simp add: drop_bit_eq_div)
      then show ?thesis by (simp only: unat_div_distrib f)
    qed
    have "unat x div 4096 * 4096 < 18446744073709551616" using unat_lt64 [of x] by linarith
    then show ?thesis by (simp add: push_bit_eq_mult unat_word_ariths d)
  qed
  ultimately show ?thesis by (simp only:)
qed

lemma calculate_pt_pages:
  assumes "unat n \<le> 262144"
  shows "unat (vmw_mob_calculate_pt_pages n) = pt_pages (unat n)"
proof -
  let ?k = "unat n"
  have small: "unat (of_nat x :: u64) = x" if "x < 2 ^ 62" for x using that by (simp add: unat_of_nat_lt)
  have size: "n * 4096 = of_nat (?k * 4096)" by simp
  have step: "pt_size_loop (of_nat x) tot = (if 4096 < x then pt_size_loop (of_nat ((x + 4095) div 4096 * 8))
       (tot + of_nat (((x + 4095) div 4096 * 8 + 4095) div 4096 * 4096)) else tot)" if "x < 2 ^ 40" for x tot
  proof (cases "4096 < x")
    case True
    let ?d = "div_round_up (of_nat x) 4096 * VMW_PPN_SIZE"
    have "unat ((of_nat x :: u64) + 4095) = x + 4095" using that by (subst unat_add_nowrap) (simp_all add: small)
    then have d: "unat ?d = (x + 4095) div 4096 * 8" by (simp add: div_round_up_nat)
    then have d': "?d = of_nat ((x + 4095) div 4096 * 8)" by (rule unat_of_nat_eq)
    have "(x + 4095) div 4096 < 2 ^ 30" using that by (intro less_mult_imp_div_less) simp
    then have r: "(?d + 4096 - 1) AND NOT 4095 = of_nat (((x + 4095) div 4096 * 8 + 4095) div 4096 * 4096)"
      using round_up_page [of ?d] d by (intro unat_of_nat_eq) simp
    have "(4096 :: u64) < of_nat x" using True that by (simp add: word_less_nat_alt small)
    then show ?thesis using True r d' by (subst pt_size_loop.simps) (simp add: Let_def)
  next
    case False
    then have "\<not> (4096 :: u64) < of_nat x" by (simp add: word_less_nat_alt small)
    with False show ?thesis by (subst pt_size_loop.simps) simp
  qed
  have c: "(?k * 4096 + 4095) div 4096 = ?k" "(?k * 8 + 4095) div 4096 = (?k + 511) div 512" by linarith+
  have res: "unat (drop_bit 12 (of_nat (x * 4096) :: u64)) = x" if "x < 2 ^ 40" for x
  proof -
    have f: "unat (4096 :: u64) = 4096" by simp
    have "drop_bit 12 (of_nat (x * 4096) :: u64) = of_nat (x * 4096) div 4096" by (simp add: drop_bit_eq_div)
    moreover have "unat (of_nat (x * 4096) :: u64) = x * 4096" by (rule small) (use that in simp)
    ultimately show ?thesis by (simp only: unat_div_distrib f)
  qed
  let ?c = "(?k + 511) div 512"
  have kb: "?k * 4096 < 2 ^ 40" "?k * 8 < 2 ^ 40" and cb: "?c \<le> 512" using assms by auto
  have one: "pt_size_loop (n * 4096) 0 = (if 1 < ?k then pt_size_loop (of_nat (?k * 8)) (of_nat (?c * 4096)) else 0)"
    using step [OF kb(1), of 0] unfolding size c by simp
  have two: "pt_size_loop (of_nat (?k * 8)) (of_nat (?c * 4096)) = (if 512 < ?k then of_nat ((?c + 1) * 4096) else of_nat (?c * 4096))"
  proof (cases "512 < ?k")
    case True
    then have "(?c * 8 + 4095) div 4096 = 1" using cb by linarith
    then have "pt_size_loop (of_nat (?k * 8)) (of_nat (?c * 4096)) = pt_size_loop (of_nat (?c * 8)) (of_nat (?c * 4096) + of_nat (1 * 4096))"
      using step [OF kb(2), of "of_nat (?c * 4096)"] True unfolding c by simp
    also have "\<dots> = of_nat (?c * 4096) + of_nat (1 * 4096)"
      using step [of "?c * 8" "of_nat (?c * 4096) + of_nat (1 * 4096)"] cb by simp
    finally show ?thesis using True by (simp add: algebra_simps)
  next
    case False
    then show ?thesis using step [OF kb(2), of "of_nat (?c * 4096)"] by simp
  qed
  have "?c = 1" if "1 < ?k" "?k \<le> 512" using that by linarith
  then have "pt_size_loop (n * 4096) 0 = of_nat (pt_pages ?k * 4096)"
    unfolding one two pt_pages_def by simp
  moreover have "pt_pages ?k < 2 ^ 40" using cb by (simp add: pt_pages_def)
  ultimately show ?thesis
    using res [of "pt_pages ?k"] by (simp only: vmw_mob_calculate_pt_pages_def PAGE_SHIFT_def)
qed

text \<open>The page table the driver builds leads the device to the pages of the buffer.\<close>

lemma pt_setup_walks:
  assumes n: "unat n = length ds" "1 < length ds" "length ds \<le> 262144" and d: "at_page ds 0 d"
    and t: "mob_pt_bo mob = Some t" "sg_ok t" "length (sg_addrs t) = pt_pages (length ds)"
    and apart: "distinct (map frame (sg_addrs t))"
  shows "\<exists>mob' m'. vmw_mob_pt_setup mob d n m = Some (mob', m') \<and>
    mob' = mob\<lparr>mob_pt_level := (if length ds \<le> 512 then 1 else 2), mob_pt_root := mob_pt_root mob'\<rparr> \<and>
    (\<forall>q < length ds. walk m' (unat (mob_pt_level mob')) (frame (mob_pt_root mob')) q = frame (ds ! q)) \<and>
    (\<forall>p. p \<notin> frame ` set (sg_addrs t) \<longrightarrow> m' p = m p)"
proof -
  let ?ps = "sg_addrs t" and ?n = "length ds" let ?c = "(?n + 511) div 512"
  let ?pt = "fst (vmw_piter_next (vmw_piter_start t 0))"
  have len: "length ?ps = (if ?n \<le> 512 then 1 else ?c + 1)" and c: "0 < ?c" "?c \<le> 512" "?n \<le> 512 \<longleftrightarrow> ?c = 1"
    using n(2,3) t(3) by (simp_all add: pt_pages_def) linarith+
  have pt: "at_page ?ps 0 ?pt" "snd (vmw_piter_next (vmw_piter_start t 0))"
  proof -
    have "?ps \<noteq> []" "length ?ps < 2 ^ 63" using len c(2) by (auto split: if_splits)
    then show "at_page ?ps 0 ?pt" "snd (vmw_piter_next (vmw_piter_start t 0))" using start_next [OF t(2)] by simp_all
  qed
  obtain pt1 m1 where b1: "vmw_mob_build_pt d n ?pt m = Some (of_nat ?c, pt1, m1)" and p1: "at_page ?ps ?c pt1"
    and w1: "\<And>q. q < ?n \<Longrightarrow> m1 (frame (?ps ! (q div 512))) (q mod 512) = frame (ds ! q)"
    and o1: "\<And>p. p \<notin> (\<lambda>t. frame (?ps ! t)) ` {0..<?c} \<Longrightarrow> m1 p = m p"
  proof -
    have "0 < ?n" "?c \<le> length ?ps" using n(2) len c(1,3) by (auto split: if_splits)
    with build_pt_spec [OF d pt(1), of n m, unfolded n(1) add_0, OF order_refl _ n(3) _ apart]
    show ?thesis using that by blast
  qed
  have uc: "unat (of_nat ?c :: u64) = ?c" using c(2) by (simp add: unat_of_nat_lt)
  have sub: "(\<lambda>t. frame (?ps ! t)) ` {0..<?c} \<subseteq> frame ` set ?ps" using len c(3) by (auto split: if_splits)
  have s1: "pt_setup_loop 0 None d n ?pt m = pt_setup_loop 1 (Some ?pt) ?pt (of_nat ?c) pt1 m1"
    using n(1,2) b1 by (simp add: pt_setup_loop.simps [of 0] word_less_nat_alt)
  show ?thesis
  proof (cases "?n \<le> 512")
    case True
    then have "of_nat ?c = (1 :: u64)" using c(3) by simp
    then have l: "pt_setup_loop 0 None d n ?pt m = Some (1, Some ?pt, m1)"
      using s1 by (simp add: pt_setup_loop.simps [of "Suc 0"])
    have "vmw_piter_dma_addr ?pt = Some (?ps ! 0)" by (rule at_page_addr [OF pt(1)]) (use True len in simp)
    then have "vmw_mob_pt_setup mob d n m = Some (mob\<lparr>mob_pt_level := 1, mob_pt_root := ?ps ! 0\<rparr>, m1)"
      using pt(2) l by (simp add: vmw_mob_pt_setup_def t(1) Let_def split_beta)
    moreover have "m1 (frame (?ps ! 0)) q = frame (ds ! q)" if "q < ?n" for q using w1 [OF that] True that by simp
    ultimately show ?thesis using True o1 sub by auto
  next
    case False
    then have big: "1 < ?c" using c(1,3) by linarith
    have c2: "(?c + 511) div 512 = 1" using c(1,2) by linarith
    have l: "length ?ps = ?c + 1" using len False by simp
    obtain pt2 m2 where b2: "vmw_mob_build_pt ?pt (of_nat ?c) pt1 m1 = Some (1, pt2, m2)"
      and w2: "\<And>q. q < ?c \<Longrightarrow> m2 (frame (?ps ! ?c)) (q mod 512) = frame (?ps ! q)"
      and o2: "\<And>p. p \<noteq> frame (?ps ! ?c) \<Longrightarrow> m2 p = m1 p"
      proof -
      have "?c \<le> length ?ps" "?c \<le> 262144" "?c + 1 \<le> length ?ps" using l c(2) by simp_all
      with build_pt_spec [OF pt(1) p1, of "of_nat ?c" m1, unfolded uc c2 add_0, OF _ c(1) _ _ apart]
      obtain pt2 m2 where r: "vmw_mob_build_pt ?pt (of_nat ?c) pt1 m1 = Some (of_nat 1, pt2, m2)"
        "\<forall>q < ?c. m2 (frame (?ps ! (?c + q div 512))) (q mod 512) = frame (?ps ! q)"
        "\<forall>p. p \<notin> (\<lambda>t. frame (?ps ! t)) ` {?c..<?c + 1} \<longrightarrow> m2 p = m1 p"
        by blast
      have "m2 (frame (?ps ! ?c)) (q mod 512) = frame (?ps ! q)" if "q < ?c" for q
      proof -
        have "q div 512 = 0" using that c(2) by simp
        then show ?thesis using r(2) that by (metis add_0_right)
      qed
      then show ?thesis using that [of pt2 m2] r(1,3) by auto
    qed
    have loop: "pt_setup_loop 0 None d n ?pt m = Some (2, Some pt1, m2)"
      using s1 b2 big uc by (simp add: pt_setup_loop.simps [of "Suc 0"] pt_setup_loop.simps [of "Suc (Suc 0)"] word_less_nat_alt)
    have "vmw_piter_dma_addr pt1 = Some (?ps ! ?c)" by (rule at_page_addr [OF p1]) (use l in simp)
    then have run: "vmw_mob_pt_setup mob d n m = Some (mob\<lparr>mob_pt_level := 2, mob_pt_root := ?ps ! ?c\<rparr>, m2)"
      using pt(2) loop by (simp add: vmw_mob_pt_setup_def t(1) Let_def split_beta)
    have "walk m2 2 (frame (?ps ! ?c)) q = frame (ds ! q)" if q: "q < ?n" for q
    proof -
      have qc: "q div 512 < ?c" using q by linarith
      then have "m2 (frame (?ps ! ?c)) (q div 512) = frame (?ps ! (q div 512))" using w2 [OF qc] c(2) by simp
      moreover have "frame (?ps ! (q div 512)) \<noteq> frame (?ps ! ?c)"
        by (rule frames_apart [OF apart]) (use qc l in auto)
      ultimately show ?thesis using w1 [OF q] o2 by (simp add: numeral_2_eq_2)
    qed
    moreover have "m2 p = m p" if "p \<notin> frame ` set ?ps" for p
    proof -
      have "p \<noteq> frame (?ps ! ?c)" using that l by auto
      then show ?thesis using o1 [of p] o2 [of p] sub that by auto
    qed
    ultimately show ?thesis using run False by auto
  qed
qed

section \<open>Binding a memory object\<close>

datatype mob_cmd =
    DefineGBMob u32 u32 u64 u32 \<comment> \<open>id, format, base, size in bytes\<close>
  | DestroyGBMob u32
  | SetOTableBase u32 u64 u32 u32 \<comment> \<open>type, base, size in bytes, format\<close>

definition SVGA3D_MOBFMT_INVALID :: u32 where "SVGA3D_MOBFMT_INVALID = SVGA3D_INVALID_ID"
definition SVGA3D_MOBFMT_PTDEPTH_1 :: u32 where "SVGA3D_MOBFMT_PTDEPTH_1 = 1"
definition SVGA3D_MOBFMT_RANGE :: u32 where "SVGA3D_MOBFMT_RANGE = 3"
definition VMW_MOBFMT_PTDEPTH_0 :: u32 where "VMW_MOBFMT_PTDEPTH_0 = 4"
definition VMW_MOBFMT_PTDEPTH_1 :: u32 where "VMW_MOBFMT_PTDEPTH_1 = 5"
definition VMW_MOBFMT_PTDEPTH_2 :: u32 where "VMW_MOBFMT_PTDEPTH_2 = 6"

text \<open>The device, the memory of page tables, the commands that were sent, and the pages the
  allocator gives to a page table: \<open>md_pages k n\<close> are those of \<open>n\<close> pages at its \<open>k\<close>-th call.\<close>

record mob_dev =
  md_res :: res_dev
  md_mem :: pt_mem
  md_cmds :: "mob_cmd list"
  md_pages :: "nat \<Rightarrow> nat \<Rightarrow> u64 list"

definition md_ask :: "mob_dev \<Rightarrow> mob_dev \<times> unit res" where
  "md_ask s = (let r = md_res s in (s\<lparr>md_res := r\<lparr>calls := Suc (calls r)\<rparr>\<rparr>, oc r (calls r)))"

definition md_send :: "mob_cmd \<Rightarrow> mob_dev \<Rightarrow> mob_dev \<times> bool" where
  "md_send c s = (let r = md_res s; w = bnd r; s1 = s\<lparr>md_res := r\<lparr>bnd := w\<lparr>tries := Suc (tries w)\<rparr>\<rparr>\<rparr> in
     if room w (tries w) then (s1\<lparr>md_cmds := md_cmds s @ [c]\<rparr>, True) else (s1, False))"

type_synonym mob_result = "(mob_dev \<times> vmw_mob \<times> unit res) option"

text \<open>The buffer of the page table is created, populated and mapped.\<close>

definition vmw_mob_pt_populate :: "vmw_mob \<Rightarrow> mob_dev \<Rightarrow> mob_result" where
  "vmw_mob_pt_populate mob s =
     (if mob_pt_bo mob \<noteq> None then None
      else case md_ask s of
        (s1, Inl e) \<Rightarrow> Some (s1, mob, Inl e)
      | (s1, Inr _) \<Rightarrow>
          (case md_ask s1 of
             (s2, Inl e) \<Rightarrow> Some (s2, mob, Inl e)
           | (s2, Inr _) \<Rightarrow>
               (case md_ask s2 of
                  (s3, Inl e) \<Rightarrow> Some (s3, mob, Inl e)
                | (s3, Inr _) \<Rightarrow> Some (s3, mob\<lparr>mob_pt_bo :=
                    Some (sg_of (md_pages s (calls (md_res s)) (unat (mob_num_pages mob))))\<rparr>, Inr ()))))"

text \<open>The root and the format: the page itself, the first of contiguous pages, or a page table.\<close>

definition populate_and_setup :: "vmw_mob \<Rightarrow> vmw_piter \<Rightarrow> u64 \<Rightarrow> mob_dev \<Rightarrow> mob_result" where
  "populate_and_setup mob it n s =
     (case vmw_mob_pt_populate mob s of
        None \<Rightarrow> None
      | Some (s1, mob1, Inl e) \<Rightarrow> Some (s1, mob1, Inl e)
      | Some (s1, mob1, Inr _) \<Rightarrow>
          (case vmw_mob_pt_setup mob1 it n (md_mem s1) of
             None \<Rightarrow> None
           | Some (mob2, m) \<Rightarrow>
               Some (s1\<lparr>md_mem := m\<rparr>,
                 mob2\<lparr>mob_pt_level := mob_pt_level mob2 + (VMW_MOBFMT_PTDEPTH_1 - SVGA3D_MOBFMT_PTDEPTH_1)\<rparr>, Inr ())))"

definition rooted :: "vmw_mob \<Rightarrow> u32 \<Rightarrow> vmw_piter \<Rightarrow> mob_dev \<Rightarrow> mob_result" where
  "rooted mob fmt it s = (case vmw_piter_dma_addr it of
     None \<Rightarrow> None
   | Some a \<Rightarrow> Some (s, mob\<lparr>mob_pt_level := fmt, mob_pt_root := a\<rparr>, Inr ()))"

definition on_res :: "(res_dev \<Rightarrow> res_dev) \<Rightarrow> mob_dev \<Rightarrow> mob_dev" where
  "on_res f s = s\<lparr>md_res := f (md_res s)\<rparr>"

definition define_mob :: "vmw_mob \<Rightarrow> u64 \<Rightarrow> mob_cmd" where
  "define_mob mob n = DefineGBMob (mob_dev_id mob) (mob_pt_level mob) (frame (mob_pt_root mob)) (ucast (n * of_nat PAGE_SIZE))"

definition send_define :: "vmw_mob \<Rightarrow> bool \<Rightarrow> u64 \<Rightarrow> mob_dev \<Rightarrow> mob_result" where
  "send_define mob set_up n s =
     (case md_send (define_mob mob n) (on_res vmw_3d_resource_inc s) of
        (s1, True) \<Rightarrow> Some (s1, mob, Inr ())
      | (s1, False) \<Rightarrow> Some (on_res vmw_3d_resource_dec s1, if set_up then mob\<lparr>mob_pt_bo := None\<rparr> else mob, Inl ENOMEM))"

definition vmw_mob_bind :: "vmw_mob \<Rightarrow> vmw_sg_table \<Rightarrow> u64 \<Rightarrow> u32 \<Rightarrow> mob_dev \<Rightarrow> mob_result" where
  "vmw_mob_bind mob0 t n i s =
     (let mob = mob0\<lparr>mob_dev_id := i\<rparr>; (it, more) = vmw_piter_next (vmw_piter_start t 0);
          contiguous = (n = 1 \<or> sg_num_regions t = 1) in
      if \<not> more then Some (s, mob, Inr ())
      else case (if n = 1 then rooted mob VMW_MOBFMT_PTDEPTH_0 it s
                 else if sg_num_regions t = 1 then rooted mob SVGA3D_MOBFMT_RANGE it s
                 else if mob_pt_bo mob = None then populate_and_setup mob it n s
                 else Some (s, mob, Inr ())) of
          None \<Rightarrow> None
        | Some (s1, mob1, Inl e) \<Rightarrow> Some (s1, mob1, Inl e)
        | Some (s1, mob1, Inr _) \<Rightarrow> send_define mob1 (\<not> contiguous \<and> mob_pt_bo mob = None) n s1)"

text \<open>When there is no room in the FIFO the command is written through a null pointer.\<close>

definition vmw_mob_unbind :: "vmw_mob \<Rightarrow> mob_dev \<Rightarrow> mob_dev option" where
  "vmw_mob_unbind mob s = (case md_send (DestroyGBMob (mob_dev_id mob)) s of
     (s1, True) \<Rightarrow> Some (on_res vmw_3d_resource_dec s1)
   | (s1, False) \<Rightarrow> None)"

text \<open>The frame the device finds for page \<open>k\<close> of a memory object.\<close>

definition mob_frame :: "pt_mem \<Rightarrow> u32 \<Rightarrow> u64 \<Rightarrow> nat \<Rightarrow> u64 option" where
  "mob_frame m fmt base k =
     (if fmt = VMW_MOBFMT_PTDEPTH_0 then if k = 0 then Some base else None
      else if fmt = SVGA3D_MOBFMT_RANGE then Some (base + of_nat k)
      else if fmt = VMW_MOBFMT_PTDEPTH_1 then Some (walk m 1 base k)
      else if fmt = VMW_MOBFMT_PTDEPTH_2 then Some (walk m 2 base k)
      else None)"

lemmas mob_formats = SVGA3D_MOBFMT_PTDEPTH_1_def SVGA3D_MOBFMT_RANGE_def VMW_MOBFMT_PTDEPTH_0_def
  VMW_MOBFMT_PTDEPTH_1_def VMW_MOBFMT_PTDEPTH_2_def

text \<open>What the allocator of pages promises: as many pages as asked for, no page twice.\<close>

definition pages_ok :: "(nat \<Rightarrow> nat \<Rightarrow> u64 list) \<Rightarrow> bool" where
  "pages_ok pg \<longleftrightarrow> (\<forall>k n. n \<le> 262144 \<longrightarrow> length (pg k n) = n \<and> distinct (map frame (pg k n)))"

lemma frame_range:
  assumes "page_aligned a" "unat a + k * 4096 < 2 ^ 64"
  shows "frame (a + of_nat (k * PAGE_SIZE)) = frame a + of_nat k"
proof -
  have f: "unat (4096 :: u64) = 4096" by simp
  have frm: "unat (frame x) = unat x div 4096" for x
  proof -
    have "frame x = x div 4096" by (simp add: frame_def PAGE_SHIFT_def drop_bit_eq_div)
    then show ?thesis by (simp only: unat_div_distrib f)
  qed
  have k: "unat (of_nat (k * PAGE_SIZE) :: u64) = k * 4096"
    unfolding PAGE_SIZE_def by (rule unat_of_nat_lt) (use assms(2) in simp)
  have "unat (a + of_nat (k * PAGE_SIZE)) = unat a + k * 4096" using assms(2) k by (subst unat_add_nowrap) simp_all
  then have l: "unat (frame (a + of_nat (k * PAGE_SIZE))) = unat a div 4096 + k" by (simp add: frm)
  have "unat a div 4096 + k < 2 ^ 64" using assms(2) by simp
  then have "unat (frame a + of_nat k) = unat a div 4096 + k"
    by (subst unat_add_nowrap) (simp_all add: frm unat_of_nat_lt)
  then show ?thesis using l by (simp add: word_unat_eq_iff)
qed

text \<open>Before the command is sent: the root and the format lead to the pages.\<close>

definition leads :: "u64 list \<Rightarrow> mob_dev \<Rightarrow> vmw_mob \<Rightarrow> bool" where
  "leads ds s mob \<longleftrightarrow> (\<forall>k < length ds. mob_frame (md_mem s) (mob_pt_level mob) (frame (mob_pt_root mob)) k = Some (frame (ds ! k)))"

definition dma_ok :: "u64 list \<Rightarrow> bool" where
  "dma_ok ds \<longleftrightarrow> ds \<noteq> [] \<and> length ds \<le> 262144 \<and> (\<forall>a \<in> set ds. page_aligned a \<and> unat a < 2 ^ 52)"

lemma sg_of_ok: "dma_ok ds \<Longrightarrow> sg_ok (sg_of ds)"
  by (simp add: dma_ok_def sg_ok_def sg_of_def unat_of_nat_lt)

lemma first_page:
  assumes "dma_ok ds"
  shows "at_page ds 0 (fst (vmw_piter_next (vmw_piter_start (sg_of ds) 0)))" "snd (vmw_piter_next (vmw_piter_start (sg_of ds) 0))"
    "vmw_piter_dma_addr (fst (vmw_piter_next (vmw_piter_start (sg_of ds) 0))) = Some (ds ! 0)"
proof -
  have "sg_addrs (sg_of ds) = ds" "length ds < 2 ^ 63" "ds \<noteq> []" using assms by (auto simp: sg_of_def dma_ok_def)
  then show p: "at_page ds 0 (fst (vmw_piter_next (vmw_piter_start (sg_of ds) 0)))" and
    "snd (vmw_piter_next (vmw_piter_start (sg_of ds) 0))"
    using start_next [OF sg_of_ok [OF assms]] by simp_all
  show "vmw_piter_dma_addr (fst (vmw_piter_next (vmw_piter_start (sg_of ds) 0))) = Some (ds ! 0)"
    using at_page_addr [OF p] assms by (simp add: dma_ok_def)
qed

lemma range_leads:
  assumes "dma_ok ds" "num_regions_of ds = 1" "mob_pt_level mob = SVGA3D_MOBFMT_RANGE" "mob_pt_root mob = ds ! 0"
  shows "leads ds s mob"
  unfolding leads_def
proof (intro allI impI)
  fix k assume k: "k < length ds"
  have hd: "hd ds = ds ! 0" "ds ! 0 \<in> set ds" using assms(1) by (auto simp: dma_ok_def hd_conv_nth)
  then have "page_aligned (ds ! 0)" "unat (ds ! 0) < 2 ^ 52" "k < 262144" "length ds < 2 ^ 63"
    using assms(1) k by (auto simp: dma_ok_def)
  then have "frame (ds ! k) = frame (ds ! 0) + of_nat k"
    using one_region [OF assms(2), of k] k frame_range [of "ds ! 0" k] hd by simp
  then show "mob_frame (md_mem s) (mob_pt_level mob) (frame (mob_pt_root mob)) k = Some (frame (ds ! k))"
    using assms(3,4) by (simp add: mob_frame_def mob_formats)
qed

lemma md_ask_simps [simp]:
  "md_mem (fst (md_ask s)) = md_mem s" "md_cmds (fst (md_ask s)) = md_cmds s" "md_pages (fst (md_ask s)) = md_pages s"
  by (simp_all add: md_ask_def Let_def)

lemma populate_spec:
  assumes "mob_pt_bo mob = None"
  shows "\<exists>s1 mob1 x. vmw_mob_pt_populate mob s = Some (s1, mob1, x) \<and> md_mem s1 = md_mem s \<and> md_cmds s1 = md_cmds s \<and>
    md_pages s1 = md_pages s \<and>
    mob1 = (if x = Inr () then mob\<lparr>mob_pt_bo := Some (sg_of (md_pages s (calls (md_res s)) (unat (mob_num_pages mob))))\<rparr> else mob)"
  using assms by (auto simp: vmw_mob_pt_populate_def md_ask_def Let_def split: sum.split)

lemma setup_leads:
  assumes ds: "dma_ok ds" "1 < length ds" and mob: "mob_num_pages mob = vmw_mob_calculate_pt_pages (of_nat (length ds))"
    and pg: "pages_ok (md_pages s)" and new: "mob_pt_bo mob = None"
    and it: "it = fst (vmw_piter_next (vmw_piter_start (sg_of ds) 0))"
  shows "\<exists>s1 mob1 x. populate_and_setup mob it (of_nat (length ds)) s = Some (s1, mob1, x) \<and> md_cmds s1 = md_cmds s \<and>
    mob_dev_id mob1 = mob_dev_id mob \<and> (x = Inr () \<longrightarrow> leads ds s1 mob1) \<and> (x \<noteq> Inr () \<longrightarrow> mob_pt_bo mob1 = None) \<and>
    (\<forall>p. p \<notin> frame ` set (md_pages s (calls (md_res s)) (pt_pages (length ds))) \<longrightarrow> md_mem s1 p = md_mem s p)"
proof -
  let ?n = "of_nat (length ds) :: u64" and ?ps = "md_pages s (calls (md_res s)) (pt_pages (length ds))"
  have un: "unat ?n = length ds" "length ds \<le> 262144" using ds(1) by (simp_all add: dma_ok_def unat_of_nat_lt)
  have num: "unat (mob_num_pages mob) = pt_pages (length ds)" using calculate_pt_pages [of ?n] un mob by simp
  obtain s1 mob1 x where p: "vmw_mob_pt_populate mob s = Some (s1, mob1, x)" "md_mem s1 = md_mem s" "md_cmds s1 = md_cmds s"
    and m1: "mob1 = (if x = Inr () then mob\<lparr>mob_pt_bo := Some (sg_of ?ps)\<rparr> else mob)"
    using populate_spec [OF new, of s] num by auto
  show ?thesis
  proof (cases x)
    case (Inl e)
    then show ?thesis using p m1 new by (simp add: populate_and_setup_def)
  next
    case (Inr v)
    then have bo: "mob_pt_bo mob1 = Some (sg_of ?ps)" "mob_dev_id mob1 = mob_dev_id mob" using m1 by simp_all
    have b: "pt_pages (length ds) \<le> 262144" using un(2) by (auto simp: pt_pages_def)
    then have ps: "length ?ps = pt_pages (length ds)" "distinct (map frame ?ps)" using pg by (simp_all add: pages_ok_def)
    from b have ok: "sg_ok (sg_of ?ps)" "sg_addrs (sg_of ?ps) = ?ps" using ps(1) by (simp_all add: sg_ok_def sg_of_def unat_of_nat_lt)
    obtain mob2 m where r: "vmw_mob_pt_setup mob1 it ?n (md_mem s1) = Some (mob2, m)"
      and m2: "mob2 = mob1\<lparr>mob_pt_level := (if length ds \<le> 512 then 1 else 2), mob_pt_root := mob_pt_root mob2\<rparr>"
      and w: "\<And>q. q < length ds \<Longrightarrow> walk m (unat (mob_pt_level mob2)) (frame (mob_pt_root mob2)) q = frame (ds ! q)"
      and o: "\<And>p. p \<notin> frame ` set ?ps \<Longrightarrow> m p = md_mem s1 p"
      using pt_setup_walks [OF un(1) ds(2) un(2) _ bo(1) ok(1), of it "md_mem s1"] first_page(1) [OF ds(1)] it ps ok(2) by auto
    let ?mob = "mob2\<lparr>mob_pt_level := mob_pt_level mob2 + (VMW_MOBFMT_PTDEPTH_1 - SVGA3D_MOBFMT_PTDEPTH_1)\<rparr>"
    have lv: "mob_pt_level mob2 = (if length ds \<le> 512 then 1 else 2)" "mob_dev_id mob2 = mob_dev_id mob1"
      by (subst m2, simp)+
    have "leads ds (s1\<lparr>md_mem := m\<rparr>) ?mob"
      using w lv by (simp add: leads_def mob_frame_def mob_formats split: if_splits)
    then show ?thesis using Inr p r o lv bo(2) by (simp add: populate_and_setup_def)
  qed
qed

lemma len64: "LENGTH(64) = 64"
  by simp

lemma send_define_cases:
  "\<exists>s' x. send_define mob b n s = Some (s', if x = Inr () then mob else if b then mob\<lparr>mob_pt_bo := None\<rparr> else mob, x) \<and>
     md_mem s' = md_mem s \<and> (x = Inr () \<longrightarrow> md_cmds s' = md_cmds s @ [define_mob mob n]) \<and> (x \<noteq> Inr () \<longrightarrow> md_cmds s' = md_cmds s)"
  by (auto simp: send_define_def md_send_def on_res_def Let_def)

lemma bind_prepares:
  assumes ds: "dma_ok ds" and mob: "mob_num_pages mob = vmw_mob_calculate_pt_pages (of_nat (length ds))"
    and pg: "pages_ok (md_pages s)" and new: "mob_pt_bo mob = None \<or> n = 1 \<or> sg_num_regions (sg_of ds) = 1 \<or> leads ds s mob"
    and it: "it = fst (vmw_piter_next (vmw_piter_start (sg_of ds) 0))" and n: "n = of_nat (length ds)"
  shows "\<exists>s1 mob1 x. (if n = 1 then rooted mob VMW_MOBFMT_PTDEPTH_0 it s
      else if sg_num_regions (sg_of ds) = 1 then rooted mob SVGA3D_MOBFMT_RANGE it s
      else if mob_pt_bo mob = None then populate_and_setup mob it n s else Some (s, mob, Inr ())) = Some (s1, mob1, x) \<and>
    md_cmds s1 = md_cmds s \<and> mob_dev_id mob1 = mob_dev_id mob \<and> (x = Inr () \<longrightarrow> leads ds s1 mob1) \<and>
    (x \<noteq> Inr () \<or> n = 1 \<or> sg_num_regions (sg_of ds) = 1 \<or> mob_pt_bo mob \<noteq> None \<longrightarrow> mob_pt_bo mob1 = mob_pt_bo mob) \<and>
    (\<forall>p. p \<notin> frame ` set (md_pages s (calls (md_res s)) (pt_pages (length ds))) \<longrightarrow> md_mem s1 p = md_mem s p)"
proof -
  have un: "unat n = length ds" "ds \<noteq> []" unfolding n using ds by (simp_all add: dma_ok_def unat_of_nat_lt)
  have a: "vmw_piter_dma_addr it = Some (ds ! 0)" using first_page(3) [OF ds] it by simp
  show ?thesis
  proof (cases "n = 1")
    case True
    then have "length ds = 1" using un by (metis unat_1)
    then show ?thesis using True a new by (simp add: rooted_def leads_def mob_frame_def)
  next
    case False
    then have "length ds \<noteq> 1" using un by (metis unat_1 word_unat_eq_iff)
    then have len: "1 < length ds" using un(2) by (cases ds) auto
    show ?thesis
    proof (cases "sg_num_regions (sg_of ds) = 1")
      case True
      then have "num_regions_of ds = 1" by (simp add: sg_of_def)
      then have "leads ds s (mob\<lparr>mob_pt_level := SVGA3D_MOBFMT_RANGE, mob_pt_root := ds ! 0\<rparr>)"
        by (rule range_leads [OF ds]) simp_all
      then show ?thesis using False True a new by (simp add: rooted_def)
    next
      case scattered: False
      show ?thesis
      proof (cases "mob_pt_bo mob")
        case None
        then show ?thesis using False scattered setup_leads [OF ds len mob pg None it] n by auto
      next
        case (Some t)
        then show ?thesis using False scattered new by auto
      qed
    qed
  qed
qed

text \<open>A memory object that needs no page table, has none yet, or has one that leads to the pages.\<close>

definition table_fits_pages :: "u64 list \<Rightarrow> mob_dev \<Rightarrow> vmw_mob \<Rightarrow> bool" where
  "table_fits_pages ds s mob \<longleftrightarrow>
     mob_pt_bo mob = None \<or> length ds = 1 \<or> num_regions_of ds = 1 \<or> leads ds s mob"

lemma mob_bind_reaches:
  assumes ds: "dma_ok ds" and pg: "pages_ok (md_pages s)" and np: "mob_num_pages mob = vmw_mob_calculate_pt_pages (of_nat (length ds))"
    and kept: "table_fits_pages ds s mob"
  shows "\<exists>s' mob' x. vmw_mob_bind mob (sg_of ds) (of_nat (length ds)) i s = Some (s', mob', x) \<and>
    (x = Inr () \<longrightarrow> (\<exists>fmt base. md_cmds s' = md_cmds s @ [DefineGBMob i fmt base (of_nat (length ds * PAGE_SIZE))] \<and>
       (\<forall>k < length ds. mob_frame (md_mem s') fmt base k = Some (frame (ds ! k))))) \<and>
    (x \<noteq> Inr () \<longrightarrow> md_cmds s' = md_cmds s \<and> mob_pt_bo mob' = mob_pt_bo mob) \<and>
    (\<forall>p. p \<notin> frame ` set (md_pages s (calls (md_res s)) (pt_pages (length ds))) \<longrightarrow> md_mem s' p = md_mem s p)"
proof -
  let ?n = "of_nat (length ds) :: u64" and ?it = "fst (vmw_piter_next (vmw_piter_start (sg_of ds) 0))"
  let ?mob = "mob\<lparr>mob_dev_id := i\<rparr>" and ?b = "\<not> (?n = 1 \<or> sg_num_regions (sg_of ds) = 1) \<and> mob_pt_bo mob = None"
  have mob: "mob_num_pages ?mob = vmw_mob_calculate_pt_pages ?n" "mob_pt_bo ?mob = mob_pt_bo mob" "mob_dev_id ?mob = i"
    using np by simp_all
  have "mob_pt_bo ?mob = None \<or> ?n = 1 \<or> sg_num_regions (sg_of ds) = 1 \<or> leads ds s ?mob"
    using kept by (auto simp: table_fits_pages_def leads_def sg_of_def)
  note prep = bind_prepares [OF ds mob(1) pg this refl refl]
  obtain s1 mob1 x where r: "(if ?n = 1 then rooted ?mob VMW_MOBFMT_PTDEPTH_0 ?it s
      else if sg_num_regions (sg_of ds) = 1 then rooted ?mob SVGA3D_MOBFMT_RANGE ?it s
      else if mob_pt_bo ?mob = None then populate_and_setup ?mob ?it ?n s else Some (s, ?mob, Inr ())) = Some (s1, mob1, x)"
    and c1: "md_cmds s1 = md_cmds s" and i1: "mob_dev_id mob1 = i" and l1: "x = Inr () \<longrightarrow> leads ds s1 mob1"
    and b1: "x \<noteq> Inr () \<or> \<not> ?b \<longrightarrow> mob_pt_bo mob1 = mob_pt_bo mob"
    and m1: "\<And>p. p \<notin> frame ` set (md_pages s (calls (md_res s)) (pt_pages (length ds))) \<Longrightarrow> md_mem s1 p = md_mem s p"
    using prep mob(2,3) by auto
  have bind: "vmw_mob_bind mob (sg_of ds) ?n i s =
      (case x of Inl e \<Rightarrow> Some (s1, mob1, Inl e) | Inr _ \<Rightarrow> send_define mob1 ?b ?n s1)"
    using first_page(2) [OF ds] r mob(2) by (auto simp: vmw_mob_bind_def Let_def split_beta split: sum.split)
  show ?thesis
  proof (cases x)
    case (Inl e)
    then show ?thesis using bind c1 b1 m1 by simp
  next
    case (Inr v)
    obtain s2 y where s2: "send_define mob1 ?b ?n s1 = Some (s2, if y = Inr () then mob1 else if ?b then mob1\<lparr>mob_pt_bo := None\<rparr> else mob1, y)"
      "md_mem s2 = md_mem s1" "y = Inr () \<longrightarrow> md_cmds s2 = md_cmds s1 @ [define_mob mob1 ?n]" "y \<noteq> Inr () \<longrightarrow> md_cmds s2 = md_cmds s1"
      using send_define_cases [of mob1 ?b ?n s1] by blast
    have "define_mob mob1 ?n = DefineGBMob i (mob_pt_level mob1) (frame (mob_pt_root mob1)) (of_nat (length ds * PAGE_SIZE))"
    proof -
      have "length ds * PAGE_SIZE < 2 ^ 64" using ds by (simp add: dma_ok_def PAGE_SIZE_def)
      then have "ucast (of_nat (length ds * PAGE_SIZE) :: u64) = (of_nat (length ds * PAGE_SIZE) :: u32)"
        by (simp only: unsigned_of_nat take_bit_nat_eq_self len64)
      then show ?thesis using i1 by (simp add: define_mob_def)
    qed
    then show ?thesis
      using bind Inr s2 c1 b1 m1 l1 by (auto simp: leads_def)
  qed
qed

text \<open>C32: Binding a memory object to the device makes the device reach exactly the pages of the buffer:
  whether it is one page, contiguous pages or scattered pages with a page table of one or two levels, the
  format and base of the one command that is sent lead, for each page, to the frame of that page.  The
  pages set aside for the page table suffice, no BUG is hit, and no memory but theirs is written; a
  failure sends nothing and leaves the object with the page table it had or none if it had none.

  The object is one that \<open>vmw_mob_create\<close> made for that number of pages, and it needs no page table, has
  none yet, or is bound again with a table that still leads to the pages (\<open>table_fits_pages\<close>): the code
  does not renew a table when the addresses have changed (\<open>rebind_keeps_table\<close>).  The addresses are
  page aligned and below \<open>2 ^ 52\<close>, and there are at most 262144 of them (\<open>dma_ok\<close>; a larger scattered
  buffer runs into the BUG, \<open>large_mob_bug\<close>).  The allocator of pages gives distinct pages, as many as
  asked for (\<open>pages_ok\<close>).\<close>
theorem vmw_mob_bind_reaches:
  assumes "dma_ok ds" "pages_ok (md_pages s)" "mob_num_pages mob = vmw_mob_calculate_pt_pages (of_nat (length ds))"
    and "table_fits_pages ds s mob"
  shows "\<exists>s' mob' x. vmw_mob_bind mob (sg_of ds) (of_nat (length ds)) i s = Some (s', mob', x) \<and>
    (x = Inr () \<longrightarrow> (\<exists>fmt base. md_cmds s' = md_cmds s @ [DefineGBMob i fmt base (of_nat (length ds * PAGE_SIZE))] \<and>
       (\<forall>k < length ds. mob_frame (md_mem s') fmt base k = Some (frame (ds ! k))))) \<and>
    (x \<noteq> Inr () \<longrightarrow> md_cmds s' = md_cmds s \<and> mob_pt_bo mob' = mob_pt_bo mob) \<and>
    (\<forall>p. p \<notin> frame ` set (md_pages s (calls (md_res s)) (pt_pages (length ds))) \<longrightarrow> md_mem s' p = md_mem s p)"
  by (rule mob_bind_reaches [OF assms])

definition plain_pages :: "nat \<Rightarrow> nat \<Rightarrow> u64 list" where
  "plain_pages k n = map (\<lambda>j. of_nat (j * 4096)) [0..<n]"

lemma plain_pages_ok: "pages_ok plain_pages"
proof -
  have f: "unat (frame (of_nat (j * 4096))) = j" if "j < 262144" for j
  proof -
    have f: "unat (4096 :: u64) = 4096" by simp
    have u: "unat (of_nat (j * 4096) :: u64) = j * 4096" by (rule unat_of_nat_lt) (use that in simp)
    have "frame (of_nat (j * 4096)) = of_nat (j * 4096) div 4096" by (simp add: frame_def PAGE_SHIFT_def drop_bit_eq_div)
    moreover have "unat (of_nat (j * 4096) div 4096 :: u64) = j" by (simp only: unat_div_distrib f u)
    ultimately show ?thesis by simp
  qed
  have "distinct (map frame (plain_pages k n))" if "n \<le> 262144" for k n
    unfolding plain_pages_def distinct_map map_map
  proof (intro conjI distinct_upt inj_onI)
    fix x y assume "x \<in> set [0..<n]" "y \<in> set [0..<n]" "(frame \<circ> (\<lambda>j. of_nat (j * 4096))) x = (frame \<circ> (\<lambda>j. of_nat (j * 4096))) y"
    then show "x = y" using f [of x] f [of y] that by simp
  qed
  then show ?thesis by (simp add: pages_ok_def plain_pages_def)
qed

text \<open>Two pages that do not follow one another.\<close>

definition plain_dev :: mob_dev where
  "plain_dev = \<lparr>md_res = \<lparr>rsrc = (\<lambda>_. undefined), bos = (\<lambda>_. undefined), bo_refs = (\<lambda>_. 0), next_bo = 0, fenced = [],
       bnd = \<lparr>cbs = (\<lambda>_. undefined), binding_head = (\<lambda>_. []), hw_id = (\<lambda>_. - 1), sent = [], room = (\<lambda>_. True), tries = 0\<rparr>,
       res_ids = (\<lambda>_. []), res_lru = (\<lambda>_. []), num_3d_resources = 0, request_ok = True, used_memory_size = 0,
       memory_size = 0, query_cid = 0, query_cid_valid = False, oc = (\<lambda>_. Inr ()), calls = 0\<rparr>,
     md_mem = (\<lambda>_ _. 0), md_cmds = [], md_pages = plain_pages\<rparr>"

definition two_pages :: "u64 list" where "two_pages = [0x5000, 0x9000]"

lemma two_pages_ok: "dma_ok two_pages"
  by (simp add: dma_ok_def two_pages_def page_aligned_def PAGE_SHIFT_def take_bit_eq_mod)

lemma vmw_mob_bind_reaches_witness:
  "\<exists>s' mob' x. vmw_mob_bind (vmw_mob_create (of_nat (length two_pages))) (sg_of two_pages) (of_nat (length two_pages)) 7 plain_dev
       = Some (s', mob', x) \<and>
     (x = Inr () \<longrightarrow> (\<exists>fmt base. md_cmds s' = md_cmds plain_dev @ [DefineGBMob 7 fmt base (of_nat (length two_pages * PAGE_SIZE))] \<and>
       (\<forall>k < length two_pages. mob_frame (md_mem s') fmt base k = Some (frame (two_pages ! k)))))"
proof -
  have "pages_ok (md_pages plain_dev)" by (simp add: plain_dev_def plain_pages_ok)
  from vmw_mob_bind_reaches [OF two_pages_ok this, of "vmw_mob_create (of_nat (length two_pages))" 7] show ?thesis
    by (simp only: vmw_mob_create_def table_fits_pages_def vmw_mob.simps) blast
qed

section \<open>Buffers that are too large, and tables that are not renewed\<close>

lemma build_pt_pages: "vmw_mob_build_pt d n pt m = Some (n1, pt1, m1) \<Longrightarrow> n1 = div_round_up (n * VMW_PPN_SIZE) 4096"
  by (auto simp: vmw_mob_build_pt_def Let_def split: option.splits)

text \<open>Two levels reach 262144 pages; the table of a larger buffer runs into the BUG.\<close>

lemma too_many_levels: "1 < n \<Longrightarrow> pt_setup_loop (Suc (Suc 0)) save d n pt m = None"
  by (simp add: pt_setup_loop.simps)

lemma level_above:
  assumes "512 ^ k * 512 < unat n" "unat n < 2 ^ 40" "vmw_mob_build_pt d n pt m = Some (n1, pt1, m1)"
  shows "512 ^ k < unat n1" "unat n1 < 2 ^ 40" "1 < n1"
proof -
  have u: "unat n1 = (unat n + 511) div 512" using build_pt_pages [OF assms(3)] level_pages [OF assms(2)] by simp
  have p: "(1 :: nat) \<le> 512 ^ k" by simp
  show 1: "512 ^ k < unat n1" unfolding u using assms(1) by linarith
  show "unat n1 < 2 ^ 40" unfolding u using assms(2) by linarith
  have "1 < unat n1" using 1 p by linarith
  then show "1 < n1" by (simp add: word_less_nat_alt)
qed

lemma large_mob_bug:
  assumes "262144 < unat n" "unat n < 2 ^ 40"
  shows "vmw_mob_pt_setup mob d n m = None"
proof -
  have n: "1 < n" using assms(1) by (simp add: word_less_nat_alt)
  have two: "pt_setup_loop (Suc 0) save d n pt m = None" if "512 < unat n" "unat n < 2 ^ 40" for save d n pt m
  proof -
    have "1 < n" using that by (simp add: word_less_nat_alt)
    then show ?thesis
      using level_above(3) [of 0 n d pt m] that
      by (auto simp: pt_setup_loop.simps [of "Suc 0"] too_many_levels split: option.split)
  qed
  have "pt_setup_loop 0 None d n pt m = None" for pt
    using level_above(1,2) [of 1 n d pt m] assms n by (auto simp: pt_setup_loop.simps [of 0] two split: option.split)
  then show ?thesis by (auto simp: vmw_mob_pt_setup_def Let_def split_beta split: option.split)
qed

text \<open>Binding a memory object again uses the page table it has, whatever the addresses of its pages are
  by then.\<close>

lemma rebind_keeps_table:
  assumes "mob_pt_bo mob = Some t" "n \<noteq> 1" "num_regions_of ds \<noteq> 1" "dma_ok ds" "vmw_mob_bind mob (sg_of ds) n i s = Some (s', mob', Inr ())"
  shows "md_mem s' = md_mem s" "md_cmds s' = md_cmds s @ [DefineGBMob i (mob_pt_level mob) (frame (mob_pt_root mob)) (ucast (n * of_nat PAGE_SIZE))]"
proof -
  have "sg_num_regions (sg_of ds) \<noteq> 1" using assms(3) by (simp add: sg_of_def)
  then have "send_define (mob\<lparr>mob_dev_id := i\<rparr>) False n s = Some (s', mob', Inr ())"
    using assms(1,2,5) first_page(2) [OF assms(4)] by (auto simp: vmw_mob_bind_def Let_def split_beta)
  then show "md_mem s' = md_mem s" "md_cmds s' = md_cmds s @ [DefineGBMob i (mob_pt_level mob) (frame (mob_pt_root mob)) (ucast (n * of_nat PAGE_SIZE))]"
    by (auto simp: send_define_def md_send_def on_res_def Let_def define_mob_def split: if_splits)
qed

section \<open>The object tables\<close>

record vmw_otable =
  ot_size :: u64
  ot_page_table :: "vmw_mob option"

definition SVGA_OTABLE_MOB :: nat where "SVGA_OTABLE_MOB = 0"
definition SVGA_OTABLE_SURFACE :: nat where "SVGA_OTABLE_SURFACE = 1"
definition SVGA_OTABLE_CONTEXT :: nat where "SVGA_OTABLE_CONTEXT = 2"
definition SVGA_OTABLE_SHADER :: nat where "SVGA_OTABLE_SHADER = 3"
definition SVGA_OTABLE_SCREEN_TARGET :: nat where "SVGA_OTABLE_SCREEN_TARGET = 4"
definition SVGA_OTABLE_DX9_MAX :: nat where "SVGA_OTABLE_DX9_MAX = 5"
definition VMW_OTABLE_SETUP_SUB :: nat where "VMW_OTABLE_SETUP_SUB = 1"

definition SVGA3D_OTABLE_MOB_ENTRY_SIZE :: u64 where "SVGA3D_OTABLE_MOB_ENTRY_SIZE = 16"
definition SVGA3D_OTABLE_CONTEXT_ENTRY_SIZE :: u64 where "SVGA3D_OTABLE_CONTEXT_ENTRY_SIZE = 8"
definition SVGA3D_OTABLE_SURFACE_ENTRY_SIZE :: u64 where "SVGA3D_OTABLE_SURFACE_ENTRY_SIZE = 64"
definition SVGA3D_OTABLE_SHADER_ENTRY_SIZE :: u64 where "SVGA3D_OTABLE_SHADER_ENTRY_SIZE = 16"
definition SVGA3D_OTABLE_SCREEN_TARGET_ENTRY_SIZE :: u64 where "SVGA3D_OTABLE_SCREEN_TARGET_ENTRY_SIZE = 64"
definition VMWGFX_NUM_GB_SCREEN_TARGET :: u64 where "VMWGFX_NUM_GB_SCREEN_TARGET = 16"

definition num_mob :: u64 where
  "num_mob = ucast VMWGFX_NUM_GB_CONTEXT + ucast VMWGFX_NUM_GB_SHADER + ucast VMWGFX_NUM_GB_SURFACE + VMWGFX_NUM_GB_SCREEN_TARGET"

text \<open>Setting up one table at \<open>off\<close> in the buffer \<open>bo\<close> of all the tables; \<open>junk\<close> is what is in the
  variable \<open>ret\<close> when nothing was stored in it.\<close>

definition otable_prepare :: "vmw_mob \<Rightarrow> vmw_sg_table \<Rightarrow> vmw_piter \<Rightarrow> u64 \<Rightarrow> mob_dev \<Rightarrow> mob_result" where
  "otable_prepare mob bo it sz s =
     (if sz \<le> of_nat PAGE_SIZE then rooted mob VMW_MOBFMT_PTDEPTH_0 it s
      else if sg_num_regions bo = 1 then rooted mob SVGA3D_MOBFMT_RANGE it s
      else populate_and_setup mob it (drop_bit PAGE_SHIFT sz) s)"

definition vmw_setup_otable_base ::
  "unit res \<Rightarrow> vmw_sg_table \<Rightarrow> nat \<Rightarrow> u64 \<Rightarrow> vmw_otable \<Rightarrow> mob_dev \<Rightarrow> (mob_dev \<times> vmw_otable \<times> unit res) option" where
  "vmw_setup_otable_base junk bo type off ot s =
     (if ot_page_table ot \<noteq> None then None
      else
        let it = fst (vmw_piter_next (vmw_piter_start bo (drop_bit PAGE_SHIFT off))) in
        case md_ask s of
          (s1, Inl _) \<Rightarrow> Some (s1, ot, Inl ENOMEM)
        | (s1, Inr _) \<Rightarrow>
            (case otable_prepare (vmw_mob_create (drop_bit PAGE_SHIFT (ot_size ot))) bo it (ot_size ot) s1 of
               None \<Rightarrow> None
             | Some (s2, mob, Inl e) \<Rightarrow> Some (s2, ot, Inl e)
             | Some (s2, mob, Inr _) \<Rightarrow>
                 (case md_send (SetOTableBase (of_nat type) (frame (mob_pt_root mob)) (ucast (ot_size ot)) (mob_pt_level mob)) s2 of
                    (s3, False) \<Rightarrow> Some (s3, ot, if mob_pt_bo mob = None then junk else Inr ())
                  | (s3, True) \<Rightarrow>
                      if mob_pt_level mob = VMW_MOBFMT_PTDEPTH_2 then None
                      else Some (s3, ot\<lparr>ot_page_table := Some mob\<rparr>, Inr ()))))"

text \<open>Taking it down; \<open>otable->page_table\<close> is used before it is compared with NULL.\<close>

definition vmw_takedown_otable_base :: "nat \<Rightarrow> vmw_otable \<Rightarrow> mob_dev \<Rightarrow> (mob_dev \<times> vmw_otable) option" where
  "vmw_takedown_otable_base type ot s =
     (case ot_page_table ot of
        None \<Rightarrow> None
      | Some mob \<Rightarrow>
          (case md_send (SetOTableBase (of_nat type) 0 0 SVGA3D_MOBFMT_INVALID) s of
             (s1, False) \<Rightarrow> None
           | (s1, True) \<Rightarrow> Some (s1, ot\<lparr>ot_page_table := None\<rparr>)))"

definition otable_sizes :: "u64 list" where
  "otable_sizes = map (\<lambda>x. (x + 4095) AND NOT 4095)
     [num_mob * SVGA3D_OTABLE_MOB_ENTRY_SIZE, ucast VMWGFX_NUM_GB_SURFACE * SVGA3D_OTABLE_SURFACE_ENTRY_SIZE,
      ucast VMWGFX_NUM_GB_CONTEXT * SVGA3D_OTABLE_CONTEXT_ENTRY_SIZE, ucast VMWGFX_NUM_GB_SHADER * SVGA3D_OTABLE_SHADER_ENTRY_SIZE,
      VMWGFX_NUM_GB_SCREEN_TARGET * SVGA3D_OTABLE_SCREEN_TARGET_ENTRY_SIZE]"

fun setup_tables :: "unit res \<Rightarrow> vmw_sg_table \<Rightarrow> nat list \<Rightarrow> u64 \<Rightarrow> (nat \<Rightarrow> vmw_otable) \<Rightarrow> mob_dev \<Rightarrow> (mob_dev \<times> (nat \<Rightarrow> vmw_otable) \<times> unit res) option" where
  "setup_tables junk bo [] off ots s = Some (s, ots, Inr ())"
| "setup_tables junk bo (i # is) off ots s =
     (case vmw_setup_otable_base junk bo i off (ots i) s of
        None \<Rightarrow> None
      | Some (s1, ot, Inl e) \<Rightarrow> Some (s1, ots(i := ot), Inl e)
      | Some (s1, ot, Inr _) \<Rightarrow> setup_tables junk bo is (off + ot_size ot) (ots(i := ot)) s1)"

fun takedown_tables :: "nat list \<Rightarrow> (nat \<Rightarrow> vmw_otable) \<Rightarrow> mob_dev \<Rightarrow> (mob_dev \<times> (nat \<Rightarrow> vmw_otable)) option" where
  "takedown_tables [] ots s = Some (s, ots)"
| "takedown_tables (i # is) ots s =
     (case vmw_takedown_otable_base i (ots i) s of
        None \<Rightarrow> None
      | Some (s1, ot) \<Rightarrow> takedown_tables is (ots(i := ot)) s1)"

definition used_otables :: "nat list" where
  "used_otables = [0..<SVGA_OTABLE_DX9_MAX - VMW_OTABLE_SETUP_SUB]"

definition new_otables :: "nat \<Rightarrow> vmw_otable" where
  "new_otables i = \<lparr>ot_size = (if i < length otable_sizes then otable_sizes ! i else 0), ot_page_table = None\<rparr>"

text \<open>The tables are in one buffer; on every failure after that buffer was created all of them are
  taken down.\<close>

definition vmw_otables_setup ::
  "unit res \<Rightarrow> mob_dev \<Rightarrow> (mob_dev \<times> ((nat \<Rightarrow> vmw_otable) \<times> vmw_sg_table) res) option" where
  "vmw_otables_setup junk s =
     (let failed = (\<lambda>e ots s. map_option (\<lambda>r. (fst r, Inl e)) (takedown_tables used_otables ots s));
          bo_size = sum_list otable_sizes in
      case md_ask s of
        (s1, Inl _) \<Rightarrow> Some (s1, Inl ENOMEM)
      | (s1, Inr _) \<Rightarrow>
          (case md_ask s1 of
             (s2, Inl e) \<Rightarrow> Some (s2, Inl e)
           | (s2, Inr _) \<Rightarrow>
               (case md_ask s2 of
                  (s3, Inl e) \<Rightarrow> failed e new_otables s3
                | (s3, Inr _) \<Rightarrow>
                    (case md_ask s3 of
                       (s4, Inl e) \<Rightarrow> failed e new_otables s4
                     | (s4, Inr _) \<Rightarrow>
                         let bo = sg_of (md_pages s1 (calls (md_res s1)) (unat (drop_bit PAGE_SHIFT bo_size))) in
                         (case setup_tables junk bo used_otables 0 new_otables s4 of
                            None \<Rightarrow> None
                          | Some (s5, ots, Inl e) \<Rightarrow> failed e ots s5
                          | Some (s5, ots, Inr _) \<Rightarrow> Some (s5, Inr (ots, bo)))))))"

definition vmw_otables_takedown :: "(nat \<Rightarrow> vmw_otable) \<Rightarrow> mob_dev \<Rightarrow> mob_dev option" where
  "vmw_otables_takedown ots s = map_option fst (takedown_tables used_otables ots s)"

text \<open>The failure path takes down tables that were never set up.\<close>

lemma takedown_new_crashes: "takedown_tables used_otables new_otables s = None"
proof -
  have u: "used_otables = 0 # [1..<4]"
    by (simp add: used_otables_def SVGA_OTABLE_DX9_MAX_def VMW_OTABLE_SETUP_SUB_def upt_conv_Cons)
  show ?thesis unfolding u by (simp add: vmw_takedown_otable_base_def new_otables_def)
qed

lemma otables_no_pages_crash:
  assumes "oc (md_res s) (calls (md_res s)) = Inr ()" "oc (md_res s) (Suc (calls (md_res s))) = Inr ()"
    "oc (md_res s) (Suc (Suc (calls (md_res s)))) = Inl e"
  shows "vmw_otables_setup junk s = None"
  using assms by (simp add: vmw_otables_setup_def md_ask_def Let_def takedown_new_crashes)

end
