(* ===== verification/Gmr.thy ===== *)
theory Gmr
  imports Mob
begin

text \<open>
  Guest memory regions, \<open>src/vmwgfx_gmr.c\<close>, in the 64-bit build: a region is described to the device
  by FIFO commands that list its pages, or, on older devices, by pages of descriptors whose first page
  is written to a register.  The lists are read the way \<open>src/svga_reg.h\<close> says the device reads them.
\<close>

section \<open>Constants\<close>

definition VMW_PPN_PER_REMAP :: u64 where "VMW_PPN_PER_REMAP = 31 * 1024 div 8"
definition DMA_ADDR_INVALID :: u64 where "DMA_ADDR_INVALID = 0"
definition DMA_PAGE_INVALID :: u32 where "DMA_PAGE_INVALID = 0"

definition SVGA_CMD_DEFINE_GMR2 :: u32 where "SVGA_CMD_DEFINE_GMR2 = 41"
definition SVGA_CMD_REMAP_GMR2 :: u32 where "SVGA_CMD_REMAP_GMR2 = 42"
definition SVGA_REMAP_GMR2_PPN64 :: u32 where "SVGA_REMAP_GMR2_PPN64 = push_bit 1 1"
definition SVGA_CAP_GMR :: u32 where "SVGA_CAP_GMR = 0x00100000"
definition SVGA_CAP_GMR2 :: u32 where "SVGA_CAP_GMR2 = 0x00400000"
definition SVGA_REG_GMR_ID :: u32 where "SVGA_REG_GMR_ID = 41"
definition SVGA_REG_GMR_DESCRIPTOR :: u32 where "SVGA_REG_GMR_DESCRIPTOR = 42"

text \<open>A descriptor: the first page number and the number of pages.  A page of descriptors is a
  function of the index; what it holds before it is written is not known.\<close>

type_synonym svga_guest_mem_descriptor = "u32 \<times> u32"
type_synonym dpage = "nat \<Rightarrow> svga_guest_mem_descriptor"

definition desc_per_page :: nat where "desc_per_page = PAGE_SIZE div 8 - 1"

text \<open>The device: the words committed by the commands of this file, the registers written (latest
  first), the pages of descriptors it can read, and for every write of a descriptor register what it
  could read then.  \<open>gd_alloc\<close>, \<open>gd_junk\<close> and \<open>gd_map\<close> are the outcomes of \<open>alloc_page\<close>, the content of
  the page, and the outcomes of \<open>dma_map_page\<close>.\<close>

record gmr_dev =
  gd_mob :: mob_dev
  gd_caps :: u32
  gd_max_gmr_descriptors :: u32
  gd_words :: "u32 list"
  gd_regs :: "(u32 \<times> u32) list"
  gd_ram :: "(u64 \<times> dpage) list"
  gd_fired :: "(u32 \<times> u32 \<times> (u64 \<times> dpage) list) list"
  gd_unmapped :: "u64 list"
  gd_allocs :: nat
  gd_maps :: nat
  gd_alloc :: "nat \<Rightarrow> bool"
  gd_junk :: "nat \<Rightarrow> dpage"
  gd_map :: "nat \<Rightarrow> u64 option"

definition gd_reserve :: "gmr_dev \<Rightarrow> gmr_dev \<times> bool" where
  "gd_reserve s = (let r = md_res (gd_mob s); w = bnd r in
     (s\<lparr>gd_mob := on_res (\<lambda>r. r\<lparr>bnd := w\<lparr>tries := Suc (tries w)\<rparr>\<rparr>) (gd_mob s)\<rparr>, room w (tries w)))"

definition vmw_write_reg :: "u32 \<Rightarrow> u32 \<Rightarrow> gmr_dev \<Rightarrow> gmr_dev" where
  "vmw_write_reg r v s = s\<lparr>gd_regs := (r, v) # gd_regs s\<rparr>"

section \<open>Regions described in the FIFO\<close>

fun ppn_words :: "nat \<Rightarrow> vmw_piter \<Rightarrow> (u32 list \<times> vmw_piter) option" where
  "ppn_words 0 it = Some ([], it)"
| "ppn_words (Suc c) it =
     (case vmw_piter_dma_addr it of
        None \<Rightarrow> None
      | Some a \<Rightarrow>
          (case ppn_words c (fst (vmw_piter_next it)) of
             None \<Rightarrow> None
           | Some (ws, it1) \<Rightarrow> Some (ucast (frame a) # ucast (drop_bit 32 (frame a)) # ws, it1)))"

text \<open>The loop that splits the pages over remap commands.\<close>

function remap_loop :: "u32 \<Rightarrow> u64 \<Rightarrow> u32 \<Rightarrow> vmw_piter \<Rightarrow> u32 list option" where
  "remap_loop i n pos it =
     (if 0 < n
      then let nr = (if n < VMW_PPN_PER_REMAP then n else VMW_PPN_PER_REMAP) in
        (case ppn_words (unat nr) it of
           None \<Rightarrow> None
         | Some (ws, it1) \<Rightarrow>
             (case remap_loop i (n - nr) (pos + ucast nr) it1 of
                None \<Rightarrow> None
              | Some rest \<Rightarrow> Some ([SVGA_CMD_REMAP_GMR2, i, SVGA_REMAP_GMR2_PPN64, pos, ucast nr] @ ws @ rest)))
      else Some [])"
  by pat_completeness auto

termination remap_loop
proof (relation "measure (\<lambda>(i, n, pos, it). unat n)", goal_cases)
  case (2 i n pos it nr)
  then have "0 < nr" "nr \<le> n" by (auto simp: VMW_PPN_PER_REMAP_def)
  then show ?case by (simp add: unat_sub word_less_nat_alt word_le_nat_alt)
qed simp

declare remap_loop.simps [simp del]

definition gmr2_cmd_size :: "u64 \<Rightarrow> u32" where
  "gmr2_cmd_size n =
     (let define_size = 12;
          remap_num = (ucast (n div VMW_PPN_PER_REMAP + (if 0 < n mod VMW_PPN_PER_REMAP then 1 else 0)) :: u32);
          remap_size = (ucast (VMW_PPN_SIZE * n + 20 * ucast remap_num) :: u32)
      in define_size + remap_size)"

text \<open>\<open>None\<close> is the assertion that the commands fill the space reserved.\<close>

definition vmw_gmr2_bind :: "vmw_piter \<Rightarrow> u64 \<Rightarrow> u32 \<Rightarrow> gmr_dev \<Rightarrow> (gmr_dev \<times> unit res) option" where
  "vmw_gmr2_bind it n i s =
     (case gd_reserve s of
        (s1, False) \<Rightarrow> Some (s1, Inl ENOMEM)
      | (s1, True) \<Rightarrow>
          (case remap_loop i n 0 it of
             None \<Rightarrow> None
           | Some remaps \<Rightarrow>
               let ws = [SVGA_CMD_DEFINE_GMR2, i, ucast n] @ remaps in
               if length ws \<noteq> unat (gmr2_cmd_size n div 4) then None
               else Some (s1\<lparr>gd_words := gd_words s1 @ ws\<rparr>, Inr ())))"

definition vmw_gmr2_unbind :: "u32 \<Rightarrow> gmr_dev \<Rightarrow> gmr_dev" where
  "vmw_gmr2_unbind i s =
     (case gd_reserve s of
        (s1, False) \<Rightarrow> s1
      | (s1, True) \<Rightarrow> s1\<lparr>gd_words := gd_words s1 @ [SVGA_CMD_DEFINE_GMR2, i, 0]\<rparr>)"

section \<open>Regions described by descriptors\<close>

text \<open>The addresses unmapped while the pages are freed; the link is shifted as a 32-bit number.\<close>

fun free_loop :: "u64 \<Rightarrow> dpage list \<Rightarrow> u64 list" where
  "free_loop d [] = []"
| "free_loop d (p # ps) =
     (if d \<noteq> DMA_ADDR_INVALID then [d] else []) @ free_loop (ucast (push_bit PAGE_SHIFT (fst (p desc_per_page)))) ps"

definition vmw_gmr_free_descriptors :: "u64 \<Rightarrow> dpage list \<Rightarrow> gmr_dev \<Rightarrow> gmr_dev" where
  "vmw_gmr_free_descriptors d pages s =
     s\<lparr>gd_unmapped := gd_unmapped s @ free_loop d pages,
       gd_ram := filter (\<lambda>(a, p). a \<notin> set (free_loop d pages)) (gd_ram s)\<rparr>"

text \<open>One page: \<open>di\<close> descriptors are in use; the result has the pages of the region that are left.\<close>

fun fill_desc :: "nat \<Rightarrow> vmw_piter \<Rightarrow> nat \<Rightarrow> u64 \<Rightarrow> dpage \<Rightarrow> (nat \<times> vmw_piter \<times> nat \<times> dpage) option" where
  "fill_desc 0 it di prev pg = Some (0, it, di, pg)"
| "fill_desc (Suc n) it di prev pg =
     (case vmw_piter_dma_addr it of
        None \<Rightarrow> None
      | Some a \<Rightarrow>
          let pfn = frame a; it1 = fst (vmw_piter_next it) in
          if pfn \<noteq> prev + 1
          then if di = desc_per_page then Some (Suc n, it, di, pg)
               else fill_desc n it1 (Suc di) pfn (pg(di := (ucast pfn, 1)))
          else (case di of
              0 \<Rightarrow> None
            | Suc d \<Rightarrow> fill_desc n it1 di pfn (pg(d := (fst (pg d), snd (pg d) + 1)))))"

lemma fill_desc_le: "fill_desc n it di prev pg = Some (m, it1, d1, pg1) \<Longrightarrow> m \<le> n"
  by (induction n it di prev pg rule: fill_desc.induct)
    (auto simp: Let_def le_SucI split: option.splits if_splits nat.splits)

lemma fill_desc_less: "fill_desc (Suc n) it 0 prev pg = Some (m, it1, d1, pg1) \<Longrightarrow> m \<le> n"
  by (auto simp: Let_def desc_per_page_def PAGE_SIZE_def dest: fill_desc_le split: option.splits if_splits)

text \<open>The pages of descriptors, with the outcome; a page is terminated by an empty descriptor.\<close>

function desc_pages_loop :: "nat \<Rightarrow> vmw_piter \<Rightarrow> gmr_dev \<Rightarrow> (gmr_dev \<times> dpage list \<times> unit res) option" where
  "desc_pages_loop 0 it s = Some (s, [], Inr ())"
| "desc_pages_loop (Suc n) it s =
     (let k = gd_allocs s; s1 = s\<lparr>gd_allocs := Suc k\<rparr> in
      if \<not> gd_alloc s k then Some (s1, [], Inl ENOMEM)
      else (case fill_desc (Suc n) it 0 (NOT 0) (gd_junk s k) of
          None \<Rightarrow> None
        | Some (m, it1, di, pg) \<Rightarrow>
            (case desc_pages_loop m it1 s1 of
               None \<Rightarrow> None
             | Some (s2, pgs, r) \<Rightarrow> Some (s2, pg(di := (DMA_PAGE_INVALID, 0)) # pgs, r))))"
  by pat_completeness auto

termination desc_pages_loop
  by (relation "measure fst") (auto simp: less_Suc_eq_le simp del: fill_desc.simps dest: fill_desc_less)

text \<open>Linking and mapping the pages, the last first; \<open>None\<close> is a failed mapping.\<close>

fun map_pages :: "dpage list \<Rightarrow> gmr_dev \<Rightarrow> gmr_dev \<times> dpage list \<times> u64 option" where
  "map_pages [] s = (s, [], Some 0)"
| "map_pages (p # ps) s =
     (case map_pages ps s of
        (s1, qs, None) \<Rightarrow> (s1, p # qs, None)
      | (s1, qs, Some d) \<Rightarrow>
          let q = p(desc_per_page := (ucast (frame d), snd (p desc_per_page)));
              k = gd_maps s1; s2 = s1\<lparr>gd_maps := Suc k\<rparr> in
          (case gd_map s1 k of
             None \<Rightarrow> (s2, q # qs, None)
           | Some a \<Rightarrow> (s2\<lparr>gd_ram := (a, q) # gd_ram s2\<rparr>, q # qs, Some a)))"

text \<open>\<open>junk\<close> is what is in \<open>ret\<close> when nothing was stored in it.\<close>

definition vmw_gmr_build_descriptors ::
  "unit res \<Rightarrow> vmw_piter \<Rightarrow> u64 \<Rightarrow> gmr_dev \<Rightarrow> (gmr_dev \<times> dpage list \<times> u64 \<times> unit res) option" where
  "vmw_gmr_build_descriptors junk it n s =
     (case desc_pages_loop (unat n) it s of
        None \<Rightarrow> None
      | Some (s1, pgs, Inl e) \<Rightarrow> Some (vmw_gmr_free_descriptors DMA_ADDR_INVALID pgs s1, [], 0, Inl e)
      | Some (s1, pgs, Inr _) \<Rightarrow>
          (case map_pages pgs s1 of
             (s2, qs, None) \<Rightarrow> Some (vmw_gmr_free_descriptors DMA_ADDR_INVALID qs s2, [], 0, junk)
           | (s2, qs, Some d) \<Rightarrow> Some (s2, qs, d, Inr ())))"

definition vmw_gmr_fire_descriptors :: "u32 \<Rightarrow> u64 \<Rightarrow> gmr_dev \<Rightarrow> gmr_dev" where
  "vmw_gmr_fire_descriptors i d s =
     (let s1 = vmw_write_reg SVGA_REG_GMR_DESCRIPTOR (ucast (frame d)) (vmw_write_reg SVGA_REG_GMR_ID i s)
      in s1\<lparr>gd_fired := (i, ucast (frame d), gd_ram s1) # gd_fired s1\<rparr>)"

section \<open>Binding\<close>

definition vmw_gmr_bind :: "unit res \<Rightarrow> vmw_sg_table \<Rightarrow> u64 \<Rightarrow> u32 \<Rightarrow> gmr_dev \<Rightarrow> (gmr_dev \<times> unit res) option" where
  "vmw_gmr_bind junk t n i s =
     (let (it, more) = vmw_piter_next (vmw_piter_start t 0) in
      if \<not> more then Some (s, Inr ())
      else if gd_caps s AND SVGA_CAP_GMR2 \<noteq> 0 then vmw_gmr2_bind it n i s
      else if gd_caps s AND SVGA_CAP_GMR = 0 then Some (s, Inl EINVAL)
      else if ucast (gd_max_gmr_descriptors s) < sg_num_regions t then Some (s, Inl EINVAL)
      else (case vmw_gmr_build_descriptors junk it n s of
          None \<Rightarrow> None
        | Some (s1, pgs, d, Inl e) \<Rightarrow> Some (s1, Inl e)
        | Some (s1, pgs, d, Inr _) \<Rightarrow>
            Some (vmw_gmr_free_descriptors d pgs (vmw_gmr_fire_descriptors i d s1), Inr ())))"

definition vmw_gmr_unbind :: "u32 \<Rightarrow> gmr_dev \<Rightarrow> gmr_dev" where
  "vmw_gmr_unbind i s =
     (if gd_caps s AND SVGA_CAP_GMR2 \<noteq> 0 then vmw_gmr2_unbind i s
      else let s1 = vmw_write_reg SVGA_REG_GMR_DESCRIPTOR 0 (vmw_write_reg SVGA_REG_GMR_ID i s)
        in s1\<lparr>gd_fired := (i, 0, gd_ram s1) # gd_fired s1\<rparr>)"

section \<open>What the device makes of the FIFO words\<close>

fun read_ppns :: "nat \<Rightarrow> u32 list \<Rightarrow> (u64 list \<times> u32 list) option" where
  "read_ppns 0 ws = Some ([], ws)"
| "read_ppns (Suc n) (lo # hi # ws) =
     (case read_ppns n ws of
        None \<Rightarrow> None
      | Some (ps, rest) \<Rightarrow> Some ((ucast lo OR push_bit 32 (ucast hi)) # ps, rest))"
| "read_ppns (Suc n) ws = None"

text \<open>The pages of each region, \<open>None\<close> where a page was not given yet.\<close>

type_synonym gmr_table = "u32 \<Rightarrow> u64 option list"

definition overlay :: "nat \<Rightarrow> u64 list \<Rightarrow> u64 option list \<Rightarrow> u64 option list" where
  "overlay off ps reg = take off reg @ map Some ps @ drop (off + length ps) reg"

inductive gmr2_run :: "u32 list \<Rightarrow> gmr_table \<Rightarrow> gmr_table \<Rightarrow> bool" where
  idle: "gmr2_run [] t t"
| define_gmr2: "gmr2_run ws (t(i := replicate (unat n) None)) t1 \<Longrightarrow> gmr2_run (SVGA_CMD_DEFINE_GMR2 # i # n # ws) t t1"
| remap_gmr2: "\<lbrakk>read_ppns (unat n) ws = Some (ps, rest); unat off + unat n \<le> length (t i);
    gmr2_run rest (t(i := overlay (unat off) ps (t i))) t1\<rbrakk>
    \<Longrightarrow> gmr2_run (SVGA_CMD_REMAP_GMR2 # i # SVGA_REMAP_GMR2_PPN64 # off # n # ws) t t1"

lemma split_word64: "(ucast (ucast (a :: u64) :: u32) :: u64) OR push_bit 32 (ucast (ucast (drop_bit 32 a) :: u32)) = a"
  by (rule bit_word_eqI) (auto simp: bit_simps)

lemma ppn_words_read:
  assumes "at_page ds k it" "k + c \<le> length ds"
  shows "\<exists>ws it1. ppn_words c it = Some (ws, it1) \<and> at_page ds (k + c) it1 \<and> length ws = 2 * c \<and>
     (\<forall>rest. read_ppns c (ws @ rest) = Some (map frame (take c (drop k ds)), rest))"
  using assms
proof (induction c arbitrary: k it)
  case (Suc c)
  then have k: "k < length ds" by simp
  obtain ws it1 where i: "ppn_words c (fst (vmw_piter_next it)) = Some (ws, it1)" "at_page ds (Suc k + c) it1"
    "length ws = 2 * c" "\<And>rest. read_ppns c (ws @ rest) = Some (map frame (take c (drop (Suc k) ds)), rest)"
    using Suc.IH [OF at_page_next(1) [OF Suc.prems(1) k]] Suc.prems(2) by auto
  have t: "take (Suc c) (drop k ds) = ds ! k # take c (drop (Suc k) ds)"
    using k by (metis Cons_nth_drop_Suc take_Suc_Cons)
  show ?case
    using i at_page_addr [OF Suc.prems(1) k] by (simp add: t split_word64)
qed simp

lemma gmr2_sizes:
  assumes "unat n < 2 ^ 28"
  shows "unat (gmr2_cmd_size n) = 12 + 8 * unat n + 20 * ((unat n + 3967) div 3968)"
proof -
  have m: "unat (n div VMW_PPN_PER_REMAP) = unat n div 3968" "unat (n mod VMW_PPN_PER_REMAP) = unat n mod 3968"
    by (simp_all add: VMW_PPN_PER_REMAP_def unat_div_distrib unat_mod_distrib)
  define r where "r = n div VMW_PPN_PER_REMAP + (if 0 < n mod VMW_PPN_PER_REMAP then 1 else 0)"
  define q l where ql: "q = unat n div 3968" "l = unat n mod 3968"
  have "unat n = 3968 * q + l" "l < 3968" by (simp_all add: ql)
  then have "(unat n + 3967) div 3968 = unat n div 3968 + (if 0 < unat n mod 3968 then 1 else 0)"
    unfolding ql [symmetric] by (intro div_nat_eqI) auto
  moreover have "unat r = unat n div 3968 + (if 0 < unat n mod 3968 then 1 else 0)"
    using m assms by (auto simp: r_def word_less_nat_alt unat_word_ariths)
  ultimately have r: "unat r = (unat n + 3967) div 3968" by simp
  then have "unat r < 2 ^ 18" using assms by simp
  then show ?thesis
    using assms r by (simp add: gmr2_cmd_size_def r_def [symmetric] Let_def unat_word_ariths unat_ucast_down32 VMW_PPN_SIZE_def)
qed

definition given :: "u64 list \<Rightarrow> u64 option list" where
  "given ds = map (\<lambda>d. Some (frame d)) ds"

lemma length_given [simp]: "length (given ds) = length ds"
  and given_Nil [simp]: "given [] = []"
  by (simp_all add: given_def)

lemma overlay_next:
  assumes "k \<le> length ds" "c \<le> length ds - k"
  shows "overlay k (map frame (take c (drop k ds))) (given (take k ds) @ replicate (length ds - k) None) =
    given (take (k + c) ds) @ replicate (length ds - (k + c)) None"
  using assms by (simp add: overlay_def take_add given_def)

text \<open>Everything from page \<open>k\<close> on is remapped, and the words take the room that was computed for them.\<close>

lemma remap_loop_runs:
  assumes "at_page ds k it" "unat n = length ds - k" "unat pos = k" "length ds < 2 ^ 28"
    and "t i = given (take k ds) @ replicate (length ds - k) None"
  shows "\<exists>ws. remap_loop i n pos it = Some ws \<and> length ws = 2 * unat n + 5 * ((unat n + 3967) div 3968) \<and>
     gmr2_run ws t (t(i := given ds))"
  using assms
proof (induction i n pos it arbitrary: k t rule: remap_loop.induct)
  case (1 i n pos it)
  show ?case
  proof (cases "0 < n")
    case False
    then have "unat n = 0" by (simp add: word_less_nat_alt)
    then have "k = length ds" using 1(3,2) by (simp add: at_page_def)
    then have "t(i := given ds) = t" using 1(6) by auto
    then have "gmr2_run [] t (t(i := given ds))" by (metis gmr2_run.idle)
    with False \<open>unat n = 0\<close> show ?thesis
      by (simp add: remap_loop.simps [of i n] fun_upd_def)
  next
    case True
    define nr where "nr = (if n < VMW_PPN_PER_REMAP then n else VMW_PPN_PER_REMAP)"
    have nr: "unat nr = min (unat n) 3968" by (simp add: nr_def VMW_PPN_PER_REMAP_def word_less_nat_alt)
    have kn: "k + unat nr \<le> length ds" using 1(3) nr True by (simp add: word_less_nat_alt)
    obtain ws it1 where w: "ppn_words (unat nr) it = Some (ws, it1)" "at_page ds (k + unat nr) it1" "length ws = 2 * unat nr"
      "\<And>rest. read_ppns (unat nr) (ws @ rest) = Some (map frame (take (unat nr) (drop k ds)), rest)"
      using ppn_words_read [OF 1(2) kn] by blast
    have u: "unat (n - nr) = length ds - (k + unat nr)" "unat (pos + ucast nr) = k + unat nr"
      "unat (ucast nr :: u32) = unat nr"
      using 1(3,4,5) nr kn by (simp_all add: unat_sub word_le_nat_alt unat_word_ariths unat_ucast_down32)
    define t1 where "t1 = t(i := overlay k (map frame (take (unat nr) (drop k ds))) (t i))"
    have ti: "t1 i = given (take (k + unat nr) ds) @ replicate (length ds - (k + unat nr)) None"
      using overlay_next [of k ds "unat nr"] kn 1(6) by (simp add: t1_def)
    obtain rest where r: "remap_loop i (n - nr) (pos + ucast nr) it1 = Some rest"
      "length rest = 2 * unat (n - nr) + 5 * ((unat (n - nr) + 3967) div 3968)"
      "gmr2_run rest t1 (t1(i := given ds))"
      using 1(1) [where t = t1, OF True nr_def w(1) refl w(2) u(1,2) 1(5) ti] by (auto simp: fun_upd_def)
    have len: "unat nr + unat (n - nr) = unat n"
      "(unat n + 3967) div 3968 = Suc ((unat (n - nr) + 3967) div 3968)"
      using nr True 1(3) u(1) by (auto simp: word_less_nat_alt min_def le_div_geq split: if_splits)
    have "gmr2_run ([SVGA_CMD_REMAP_GMR2, i, SVGA_REMAP_GMR2_PPN64, pos, ucast nr] @ ws @ rest) t (t(i := given ds))"
      using r(3) w(4) [of rest] 1(4,6) kn
      by (auto intro!: gmr2_run.remap_gmr2 simp: u(3) t1_def at_page_def)
    with r w True len show ?thesis
      by (auto simp: remap_loop.simps [of i n] nr_def [symmetric] Let_def fun_upd_def)
  qed
qed

definition fits :: "u64 list \<Rightarrow> bool" where
  "fits ds \<longleftrightarrow> length ds < 2 ^ 28 \<and> (\<forall>d \<in> set ds. 0 < frame d \<and> frame d < 2 ^ 32)"

lemma gd_reserve_frame [simp]:
  "gd_words (fst (gd_reserve s)) = gd_words s" "gd_caps (fst (gd_reserve s)) = gd_caps s"
  by (simp_all add: gd_reserve_def Let_def)

lemma gmr2_bind_runs:
  assumes "at_page ds 0 it" "unat n = length ds" "length ds < 2 ^ 28" and "gmr2_run (gd_words s) t0 t1"
  shows "\<exists>s1 r ws. vmw_gmr2_bind it n i s = Some (s1, r) \<and>
    (r = Inr () \<longrightarrow> gd_words s1 = gd_words s @ ws \<and> (\<forall>t. gmr2_run ws t (t(i := given ds))))"
proof -
  have n: "unat (ucast n :: u32) = length ds" using assms(2,3) by (simp add: unat_ucast_down32)
  have ex: "\<exists>ws. remap_loop i n 0 it = Some ws \<and> length ws = 2 * unat n + 5 * ((unat n + 3967) div 3968) \<and>
     gmr2_run ws (t(i := replicate (length ds) None)) (t(i := given ds))" for t
    using remap_loop_runs [of ds 0 it n 0 "t(i := replicate (length ds) None)" i] assms by simp
  then obtain ws where w: "remap_loop i n 0 it = Some ws" "length ws = 2 * unat n + 5 * ((unat n + 3967) div 3968)"
    by blast
  have r: "gmr2_run ws (t(i := replicate (length ds) None)) (t(i := given ds))" for t
    using ex [of t] w(1) by simp
  have "unat (gmr2_cmd_size n div 4) = length ([SVGA_CMD_DEFINE_GMR2, i, ucast n] @ ws)"
    using assms(2,3) w(2) by (simp add: unat_div_distrib gmr2_sizes)
  moreover have "gmr2_run ([SVGA_CMD_DEFINE_GMR2, i, ucast n] @ ws) t (t(i := given ds))" for t
    using r [of t] by (auto intro!: gmr2_run.define_gmr2 simp: n)
  ultimately show ?thesis
    using w(1) gd_reserve_frame(1) [of s] by (cases "gd_reserve s") (auto simp: vmw_gmr2_bind_def Let_def split: bool.split)
qed

section \<open>What the device makes of the descriptors\<close>

text \<open>From the page and the index on: runs of pages, a link to the next page of descriptors, the end.
  The device never crosses a page boundary.\<close>

definition run_of :: "svga_guest_mem_descriptor \<Rightarrow> u64 list" where
  "run_of d = map (\<lambda>k. ucast (fst d) + of_nat k) [0..<unat (snd d)]"

inductive reads :: "(u64 \<times> dpage) list \<Rightarrow> u64 \<Rightarrow> nat \<Rightarrow> u64 list \<Rightarrow> bool" for ram where
  finish: "\<lbrakk>map_of (map (\<lambda>(a, p). (frame a, p)) ram) x = Some pg; di \<le> desc_per_page; pg di = (0, 0)\<rbrakk> \<Longrightarrow> reads ram x di []"
| ranges: "\<lbrakk>map_of (map (\<lambda>(a, p). (frame a, p)) ram) x = Some pg; di \<le> desc_per_page; fst (pg di) \<noteq> 0; snd (pg di) \<noteq> 0;
    reads ram x (Suc di) fs\<rbrakk> \<Longrightarrow> reads ram x di (run_of (pg di) @ fs)"
| link: "\<lbrakk>map_of (map (\<lambda>(a, p). (frame a, p)) ram) x = Some pg; di \<le> desc_per_page; pg di = (y, 0); y \<noteq> 0;
    reads ram (ucast y) 0 fs\<rbrakk> \<Longrightarrow> reads ram x di fs"

text \<open>The first \<open>di\<close> descriptors of a page describe the frames \<open>fs\<close>.\<close>

definition describes :: "dpage \<Rightarrow> nat \<Rightarrow> u64 list \<Rightarrow> bool" where
  "describes pg di fs \<longleftrightarrow> di \<le> desc_per_page \<and> (\<forall>j < di. fst (pg j) \<noteq> 0 \<and> snd (pg j) \<noteq> 0) \<and>
     concat (map (\<lambda>j. run_of (pg j)) [0..<di]) = fs"

lemma ucast_down_up: "(x :: u64) < 2 ^ 32 \<Longrightarrow> ucast (ucast x :: u32) = x"
  by (rule word_unat_eq_iff [THEN iffD2]) (simp add: word_less_nat_alt unat_ucast_down32)

lemma run_of_single: "x < 2 ^ 32 \<Longrightarrow> run_of (ucast x, 1) = [x]"
  using ucast_down_up [of x] by (simp add: run_of_def)

lemma run_of_more:
  assumes "unat n + 1 < 2 ^ 32"
  shows "run_of (p, n + 1) = run_of (p, n) @ [ucast p + of_nat (unat n)]"
proof -
  have "unat (n + 1) = Suc (unat n)" using assms by (simp add: unat_word_ariths)
  then show ?thesis by (simp add: run_of_def)
qed

lemma describes_next:
  assumes "describes pg di fs" "di < desc_per_page" "x < 2 ^ 32" "0 < x"
  shows "describes (pg(di := (ucast x, 1))) (Suc di) (fs @ [x])"
proof -
  have "ucast x \<noteq> (0 :: u32)" using ucast_down_up [OF assms(3)] assms(4) by auto
  moreover have "concat (map (\<lambda>j. run_of ((pg(di := (ucast x, 1))) j)) [0..<di]) = fs"
    using assms(1) by (auto simp: describes_def intro: arg_cong [where f = concat])
  ultimately show ?thesis
    using assms by (auto simp: describes_def run_of_single less_Suc_eq)
qed

lemma describes_same:
  assumes d: "describes pg (Suc di) fs" and l: "length fs < 2 ^ 28" and x: "fs \<noteq> [] \<Longrightarrow> x = last fs + 1"
  shows "describes (pg(di := (fst (pg di), snd (pg di) + 1))) (Suc di) (fs @ [x])"
proof -
  obtain p n where pn: "pg di = (p, n)" by fastforce
  define gs where "gs = concat (map (\<lambda>j. run_of (pg j)) [0..<di])"
  have fs: "fs = gs @ run_of (p, n)" and n: "n \<noteq> 0" "p \<noteq> 0"
    using d by (auto simp: describes_def pn gs_def)
  have "length (run_of (p, n)) = unat n" by (simp add: run_of_def)
  then have small: "unat n + 1 < 2 ^ 32" using l fs by simp
  have "run_of (p, n) \<noteq> []" "last (run_of (p, n)) = ucast p + of_nat (unat n - 1)"
    using n by (simp_all add: run_of_def last_map last_upt unat_gt_0)
  then have "x = ucast p + of_nat (unat n - 1) + 1" using x fs by simp
  also have "\<dots> = ucast p + of_nat (unat n)"
    using n by (metis (no_types, lifting) Suc_pred' add.assoc add.commute of_nat_Suc unat_gt_0)
  finally have r: "run_of (p, n + 1) = run_of (p, n) @ [x]" using run_of_more [OF small] by simp
  have "unat (n + 1) = unat n + 1" using small by (simp add: unat_word_ariths)
  then have "n + 1 \<noteq> 0" by (metis Suc_eq_plus1 nat.distinct(1) unat_0)
  moreover have "concat (map (\<lambda>j. run_of ((pg(di := (p, n + 1))) j)) [0..<di]) = gs"
    unfolding gs_def by (auto intro!: arg_cong [where f = concat])
  ultimately show ?thesis
    using d n by (auto simp: describes_def pn r fs less_Suc_eq)
qed

text \<open>What the inner loop leaves: it stops when the region or the page is used up.\<close>

lemma fill_desc_describes:
  assumes "at_page ds k it" "k + n = length ds" "fits ds"
    and "describes pg di fs" "length fs \<le> k" "fs = [] \<Longrightarrow> di = 0 \<and> prev = NOT 0" "fs \<noteq> [] \<Longrightarrow> prev = last fs \<and> 0 < di"
  shows "\<exists>m it1 di1 pg1. fill_desc n it di prev pg = Some (m, it1, di1, pg1) \<and> m \<le> n \<and> at_page ds (length ds - m) it1 \<and>
    describes pg1 di1 (fs @ map frame (take (n - m) (drop k ds))) \<and> (m = 0 \<or> di1 = desc_per_page)"
  using assms
proof (induction n it di prev pg arbitrary: k fs rule: fill_desc.induct)
  case (1 it di prev pg)
  then show ?case by simp
next
  case (2 n it di prev pg)
  then have k: "k < length ds" by simp
  note it = at_page_addr [OF 2(3) k] at_page_next(1) [OF 2(3) k]
  define x where "x = frame (ds ! k)"
  have x: "0 < x" "x < 2 ^ 32" using 2(5) k by (auto simp: fits_def x_def)
  have l: "length fs < 2 ^ 28" using 2(5,7) k by (simp add: fits_def)
  have more: "take (Suc n - m) (drop k ds) = ds ! k # take (n - m) (drop (Suc k) ds)" if "m \<le> n" for m
    using k that by (simp add: Cons_nth_drop_Suc [symmetric] Suc_diff_le)
  show ?case
  proof (cases "x = prev + 1")
    case True
    have "fs \<noteq> []" using 2(8) True x(1) by auto
    then obtain d where d: "di = Suc d" "prev = last fs" using 2(9) by (cases di) auto
    have ds: "describes (pg(d := (fst (pg d), snd (pg d) + 1))) di (fs @ [x])"
      using describes_same [of pg d fs x] 2(6) l True d by simp
    have "\<exists>m it1 di1 pg1. fill_desc n (fst (vmw_piter_next it)) di x (pg(d := (fst (pg d), snd (pg d) + 1))) = Some (m, it1, di1, pg1) \<and> m \<le> n \<and>
      at_page ds (length ds - m) it1 \<and> describes pg1 di1 ((fs @ [x]) @ map frame (take (n - m) (drop (Suc k) ds))) \<and> (m = 0 \<or> di1 = desc_per_page)"
      using 2(2) [where fs = "fs @ [x]", OF it(1) refl refl _ d(1) it(2) _ 2(5)] True d ds 2(4,7) x_def by (simp add: fun_upd_def)
    then show ?thesis using it True d more more [of 0] by (auto simp: x_def [symmetric] Let_def intro: le_SucI)
  next
    case False
    show ?thesis
    proof (cases "di = desc_per_page")
      case True
      have "length ds - Suc n = k" using 2(4) by simp
      with True False it 2(3,4,6) k show ?thesis by (auto simp: x_def [symmetric] Let_def)
    next
      case dn: False
      have "di \<le> desc_per_page" using 2(6) by (simp add: describes_def)
      then have ds: "describes (pg(di := (ucast x, 1))) (Suc di) (fs @ [x])"
        using describes_next [OF 2(6) _ x(2,1)] dn by simp
      have "\<exists>m it1 di1 pg1. fill_desc n (fst (vmw_piter_next it)) (Suc di) x (pg(di := (ucast x, 1))) = Some (m, it1, di1, pg1) \<and> m \<le> n \<and>
        at_page ds (length ds - m) it1 \<and> describes pg1 di1 ((fs @ [x]) @ map frame (take (n - m) (drop (Suc k) ds))) \<and> (m = 0 \<or> di1 = desc_per_page)"
        unfolding x_def
      proof (rule 2(1) [OF it(1) refl refl _ dn it(2) _ 2(5)])
        show "frame (ds ! k) \<noteq> prev + 1" using False unfolding x_def .
        show "Suc k + n = length ds" using 2(4) by simp
        show "describes (pg(di := (ucast (frame (ds ! k)), 1))) (Suc di) (fs @ [frame (ds ! k)])" using ds by (simp only: x_def)
        show "length (fs @ [frame (ds ! k)]) \<le> Suc k" using 2(7) by simp
      qed simp_all
      then obtain m it1 di1 pg1 where r: "fill_desc n (fst (vmw_piter_next it)) (Suc di) x (pg(di := (ucast x, 1))) = Some (m, it1, di1, pg1)"
        "m \<le> n" "at_page ds (length ds - m) it1"
        "describes pg1 di1 ((fs @ [x]) @ map frame (take (n - m) (drop (Suc k) ds)))" "m = 0 \<or> di1 = desc_per_page"
        by blast
      have "fill_desc (Suc n) it di prev pg = Some (m, it1, di1, pg1)"
        using r(1) it(1) False dn by (simp add: x_def [symmetric] Let_def)
      moreover have "describes pg1 di1 (fs @ map frame (take (Suc n - m) (drop k ds)))"
        using r(4) more [OF r(2)] by (simp add: x_def)
      ultimately show ?thesis using r(2,3,5) by (blast intro: le_SucI)
    qed
  qed
qed

text \<open>The pages of descriptors before they are linked: each is terminated, and all but the last are full.\<close>

inductive chained :: "dpage list \<Rightarrow> u64 list \<Rightarrow> bool" where
  last_page: "\<lbrakk>describes p di fs; p di = (0, 0)\<rbrakk> \<Longrightarrow> chained [p] fs"
| more_pages: "\<lbrakk>describes p desc_per_page gs; p desc_per_page = (0, 0); chained ps hs\<rbrakk> \<Longrightarrow> chained (p # ps) (gs @ hs)"

lemma describes_cong:
  assumes "\<And>j. j < di \<Longrightarrow> q j = p j"
  shows "describes q di fs = describes p di fs"
proof -
  have "map (\<lambda>j. run_of (q j)) [0..<di] = map (\<lambda>j. run_of (p j)) [0..<di]" using assms by simp
  then show ?thesis unfolding describes_def by (simp add: assms del: map_eq_conv)
qed

lemma describes_upd [simp]: "di \<le> j \<Longrightarrow> describes (pg(j := v)) di fs = describes pg di fs"
  by (rule describes_cong) simp

lemma desc_pages_chained:
  assumes "at_page ds k it" "k + n = length ds" "fits ds" "0 < n"
  shows "\<exists>s1 pgs r. desc_pages_loop n it s = Some (s1, pgs, r) \<and> (\<exists>a. s1 = s\<lparr>gd_allocs := a\<rparr>) \<and>
    (r = Inr () \<longrightarrow> chained pgs (map frame (drop k ds)))"
  using assms
proof (induction n it s arbitrary: k rule: desc_pages_loop.induct)
  case (2 n it s)
  define s1 where "s1 = s\<lparr>gd_allocs := Suc (gd_allocs s)\<rparr>"
  show ?case
  proof (cases "gd_alloc s (gd_allocs s)")
    case True
    have "describes (gd_junk s (gd_allocs s)) 0 []" by (simp add: describes_def)
    then obtain m it1 di pg where f: "fill_desc (Suc n) it 0 (NOT 0) (gd_junk s (gd_allocs s)) = Some (m, it1, di, pg)"
      "m \<le> Suc n" "at_page ds (length ds - m) it1" "m = 0 \<or> di = desc_per_page"
      "describes pg di (map frame (take (Suc n - m) (drop k ds)))"
      using fill_desc_describes [OF 2(2,3,4), of "gd_junk s (gd_allocs s)" 0 "[]" "NOT 0"] by auto
    note l = f(1) True s1_def [symmetric]
    show ?thesis
    proof (cases "m = 0")
      case True
      then have "chained [pg(di := (DMA_PAGE_INVALID, 0))] (map frame (drop k ds))"
        using f(5) 2(3) by (intro chained.last_page [where di = di]) (simp_all add: DMA_PAGE_INVALID_def)
      then show ?thesis using l True by (auto simp: Let_def s1_def simp del: fill_desc.simps)
    next
      case False
      have m: "(length ds - m) + m = length ds" using f(2) 2(3) by simp
      obtain s2 pgs r where r: "desc_pages_loop m it1 s1 = Some (s2, pgs, r)" "\<exists>a. s2 = s1\<lparr>gd_allocs := a\<rparr>"
        "r = Inr () \<longrightarrow> chained pgs (map frame (drop (length ds - m) ds))"
        using 2(1) [OF refl s1_def _ f(1) refl refl refl f(3) m 2(4)] True False by auto
      have e: "length ds - m = (Suc n - m) + k" using f(2) 2(3) by simp
      have "map frame (drop k ds) = map frame (take (Suc n - m) (drop k ds)) @ map frame (drop (length ds - m) ds)"
        unfolding e drop_drop [symmetric] map_append [symmetric] append_take_drop_id ..
      moreover have "r = Inr () \<longrightarrow> chained (pg(di := (DMA_PAGE_INVALID, 0)) # pgs)
          (map frame (take (Suc n - m) (drop k ds)) @ map frame (drop (length ds - m) ds))"
        using f(4,5) r(3) False by (auto intro!: chained.more_pages simp: DMA_PAGE_INVALID_def)
      ultimately show ?thesis using l r by (auto simp: Let_def s1_def simp del: fill_desc.simps)
    qed
  qed (auto simp: Let_def)
qed simp

text \<open>Mappings have different addresses, whose page numbers fit a descriptor and are not 0.\<close>

definition map_ok :: "gmr_dev \<Rightarrow> bool" where
  "map_ok s \<longleftrightarrow> (\<forall>k a. gd_map s k = Some a \<longrightarrow> 0 < frame a \<and> frame a < 2 ^ 32) \<and>
     (\<forall>k l a b. gd_map s k = Some a \<longrightarrow> gd_map s l = Some b \<longrightarrow> frame a = frame b \<longrightarrow> k = l) \<and>
     (\<forall>(a, p) \<in> set (gd_ram s). \<exists>k < gd_maps s. gd_map s k = Some a)"

lemma reads_mono:
  assumes "reads ram x di fs" "frame a \<notin> (frame \<circ> fst) ` set ram"
  shows "reads ((a, q) # ram) x di fs"
proof -
  have "map_of (map (\<lambda>(a, p). (frame a, p)) ((a, q) # ram)) x = Some pg"
    if "map_of (map (\<lambda>(a, p). (frame a, p)) ram) x = Some pg" for x pg
    using that assms(2) by (force dest: map_of_SomeD)
  with assms(1) show ?thesis
    by (induction) (blast intro: reads.finish reads.ranges reads.link)+
qed

lemma reads_page:
  assumes "describes pg di gs" "map_of (map (\<lambda>(a, p). (frame a, p)) ram) x = Some pg" "reads ram x di hs"
  shows "reads ram x 0 (gs @ hs)"
proof -
  have "reads ram x j (concat (map (\<lambda>j. run_of (pg j)) [j..<di]) @ hs)" if "j \<le> di" for j
    using that
  proof (induction rule: inc_induct)
    case (step j)
    then show ?case
      using assms(1) reads.ranges [OF assms(2) _ _ _ step(3)] by (simp add: upt_conv_Cons describes_def)
  qed (simp add: assms(3))
  from this [of 0] show ?thesis using assms(1) by (simp add: describes_def)
qed

lemma map_ok_push:
  assumes "map_ok s" "gd_map s (gd_maps s) = Some a"
  shows "map_ok (s\<lparr>gd_ram := (a, q) # gd_ram s, gd_maps := Suc (gd_maps s)\<rparr>)"
    "frame a < 2 ^ 32" "0 < frame a" "frame a \<notin> (frame \<circ> fst) ` set (gd_ram s)"
proof -
  show "map_ok (s\<lparr>gd_ram := (a, q) # gd_ram s, gd_maps := Suc (gd_maps s)\<rparr>)"
    using assms by (simp add: map_ok_def less_Suc_eq) blast
  show "frame a < 2 ^ 32" "0 < frame a" using assms by (simp_all add: map_ok_def)
  show "frame a \<notin> (frame \<circ> fst) ` set (gd_ram s)"
  proof
    assume "frame a \<in> (frame \<circ> fst) ` set (gd_ram s)"
    then obtain b p where "(b, p) \<in> set (gd_ram s)" "frame a = frame b" by auto
    with assms obtain k where "k < gd_maps s" "gd_map s k = Some b" by (fastforce simp: map_ok_def)
    with assms \<open>frame a = frame b\<close> have "gd_maps s = k" unfolding map_ok_def by blast
    then show False using \<open>k < gd_maps s\<close> by simp
  qed
qed

lemma map_ok_miss: "map_ok s \<Longrightarrow> map_ok (s\<lparr>gd_maps := Suc (gd_maps s)\<rparr>)"
  by (simp add: map_ok_def less_Suc_eq) blast

definition at_first :: "gmr_dev \<Rightarrow> u64 \<Rightarrow> u64 list \<Rightarrow> bool" where
  "at_first s a fs \<longleftrightarrow> frame a < 2 ^ 32 \<and> 0 < frame a \<and> reads (gd_ram s) (frame a) 0 fs"

lemma map_pages_reads:
  assumes "chained pgs fs" and "map_ok s"
  shows "\<exists>m ram qs d. map_pages pgs s = (s\<lparr>gd_ram := ram, gd_maps := m\<rparr>, qs, d) \<and> map_ok (s\<lparr>gd_ram := ram, gd_maps := m\<rparr>) \<and>
    (\<forall>a. d = Some a \<longrightarrow> at_first (s\<lparr>gd_ram := ram, gd_maps := m\<rparr>) a fs)"
  using assms
proof (induction)
  case (last_page p di fs)
  define q where "q = p(desc_per_page := (0, snd (p desc_per_page)))"
  have q: "describes q di fs" "q di = (0, 0)" "di \<le> desc_per_page"
    using last_page(1,2) describes_upd [of di desc_per_page p "(0, snd (p desc_per_page))" fs]
    by (auto simp: q_def describes_def simp del: map_eq_conv)
  show ?case
  proof (cases "gd_map s (gd_maps s)")
    case None
    let ?s = "s\<lparr>gd_ram := gd_ram s, gd_maps := Suc (gd_maps s)\<rparr>"
    have "map_pages [p] s = (?s, [q], None)" using None by (simp add: Let_def q_def frame_def)
    then show ?thesis using map_ok_miss [OF last_page(3)] by fastforce
  next
    case (Some a)
    note push = map_ok_push [OF last_page(3) Some]
    have "reads ((a, q) # gd_ram s) (frame a) 0 (fs @ [])"
      using q by (intro reads_page [OF q(1)] reads.finish [where pg = q]) auto
    moreover have "map_pages [p] s = (s\<lparr>gd_ram := (a, q) # gd_ram s, gd_maps := Suc (gd_maps s)\<rparr>, [q], Some a)"
      using Some by (simp add: Let_def q_def frame_def)
    ultimately show ?thesis using push(1) [of q] push(2,3) by (fastforce simp: at_first_def)
  qed
next
  case (more_pages p gs ps hs)
  obtain m ram qs d where i: "map_pages ps s = (s\<lparr>gd_ram := ram, gd_maps := m\<rparr>, qs, d)" "map_ok (s\<lparr>gd_ram := ram, gd_maps := m\<rparr>)"
    "\<And>a. d = Some a \<Longrightarrow> at_first (s\<lparr>gd_ram := ram, gd_maps := m\<rparr>) a hs"
    using more_pages.IH [OF more_pages.prems] by blast
  show ?case
  proof (cases d)
    case None
    then have "map_pages (p # ps) s = (s\<lparr>gd_ram := ram, gd_maps := m\<rparr>, p # qs, None)" using i(1) by simp
    with i(2) show ?thesis by blast
  next
    case (Some x)
    define q where "q = p(desc_per_page := (ucast (frame x), snd (p desc_per_page)))"
    have x: "frame x < 2 ^ 32" "0 < frame x" "reads ram (frame x) 0 hs"
      using i(3) [OF Some] by (simp_all add: at_first_def)
    have q: "describes q desc_per_page gs" "q desc_per_page = (ucast (frame x), 0)"
      using more_pages(1,2) by (simp_all add: q_def)
    show ?thesis
    proof (cases "gd_map s m")
      case None
      have "map_pages (p # ps) s = (s\<lparr>gd_ram := ram, gd_maps := Suc m\<rparr>, q # qs, None)"
        using i(1) Some None by (simp add: Let_def q_def)
      then show ?thesis using map_ok_miss [OF i(2)] by fastforce
    next
      case a: (Some a)
      have "gd_map (s\<lparr>gd_ram := ram, gd_maps := m\<rparr>) (gd_maps (s\<lparr>gd_ram := ram, gd_maps := m\<rparr>)) = Some a" using a by simp
      note push = map_ok_push [OF i(2) this]
      have "ucast (frame x) \<noteq> (0 :: u32)" using ucast_down_up [OF x(1)] x(2) by auto
      moreover have "reads ((a, q) # ram) (ucast (ucast (frame x) :: u32)) 0 hs"
        using reads_mono [OF x(3), of a q] push(4) x(1) by (simp add: ucast_down_up)
      ultimately have "reads ((a, q) # ram) (frame a) desc_per_page hs"
        by (rule reads.link [where pg = q, rotated 3]) (simp_all add: q(2))
      then have "reads ((a, q) # ram) (frame a) 0 (gs @ hs)"
        by (rule reads_page [OF q(1), rotated]) simp
      then have "at_first (s\<lparr>gd_ram := (a, q) # ram, gd_maps := Suc m\<rparr>) a (gs @ hs)"
        using push(2,3) by (simp add: at_first_def)
      moreover have "map_pages (p # ps) s = (s\<lparr>gd_ram := (a, q) # ram, gd_maps := Suc m\<rparr>, q # qs, Some a)"
        using i(1) Some a by (simp add: Let_def q_def)
      moreover have "map_ok (s\<lparr>gd_ram := (a, q) # ram, gd_maps := Suc m\<rparr>)" using push(1) [of q] by simp
      ultimately show ?thesis
        by (intro exI [of _ "Suc m"] exI [of _ "(a, q) # ram"] exI [of _ "q # qs"] exI [of _ "Some a"]) simp
    qed
  qed
qed

section \<open>What a region holds after binding\<close>

lemma read_ppns_more: "read_ppns n ws = Some (ps, rest) \<Longrightarrow> read_ppns n (ws @ vs) = Some (ps, rest @ vs)"
  by (induction n ws arbitrary: ps rest rule: read_ppns.induct) (auto split: option.splits)

lemma gmr2_run_append: "gmr2_run ws t t1 \<Longrightarrow> gmr2_run vs t1 t2 \<Longrightarrow> gmr2_run (ws @ vs) t t2"
  by (induction rule: gmr2_run.induct) (auto intro: gmr2_run.define_gmr2 gmr2_run.remap_gmr2 read_ppns_more)

text \<open>The region \<open>i\<close> consists of the frames \<open>fs\<close>: in the table the device has after all words, or in what
  it read from the descriptors when they were last written.\<close>

definition gmr_holds :: "gmr_dev \<Rightarrow> u32 \<Rightarrow> u64 list \<Rightarrow> bool" where
  "gmr_holds s i fs \<longleftrightarrow>
     (if gd_caps s AND SVGA_CAP_GMR2 \<noteq> 0
      then \<exists>t. gmr2_run (gd_words s) (\<lambda>_. []) t \<and> t i = map Some fs
      else case gd_fired s of
          (j, x, ram) # _ \<Rightarrow> j = i \<and> x \<noteq> 0 \<and> reads ram (ucast x) 0 fs
        | [] \<Rightarrow> False)"

definition words_ok :: "gmr_dev \<Rightarrow> bool" where
  "words_ok s \<longleftrightarrow> (\<exists>t. gmr2_run (gd_words s) (\<lambda>_. []) t)"

lemma map_ok_allocs [simp]: "map_ok (s\<lparr>gd_allocs := a\<rparr>) = map_ok s"
  by (simp add: map_ok_def)

text \<open>A page of descriptors that is asked for in this state cannot be mapped.\<close>

definition mapping_fails :: "gmr_dev \<Rightarrow> bool" where
  "mapping_fails s \<longleftrightarrow> (\<exists>k \<ge> gd_maps s. gd_map s k = None)"

lemma map_pages_maps:
  "map_pages ps s = (s1, qs, d) \<Longrightarrow> gd_map s1 = gd_map s \<and> gd_maps s \<le> gd_maps s1 \<and> (d = None \<longrightarrow> mapping_fails s)"
proof (induction ps arbitrary: s1 qs d)
  case (Cons p ps)
  obtain s2 rs e where m: "map_pages ps s = (s2, rs, e)" by (metis surj_pair)
  from Cons.IH [OF m] Cons.prems m show ?case
    by (auto simp: mapping_fails_def Let_def split: option.splits)
qed simp

lemma build_first:
  assumes "at_page ds 0 it" "unat n = length ds" "fits ds" "ds \<noteq> []" "map_ok s"
  shows "\<exists>s1 qs d r. vmw_gmr_build_descriptors junk it n s = Some (s1, qs, d, r) \<and>
    gd_caps s1 = gd_caps s \<and> gd_fired s1 = gd_fired s \<and> gd_words s1 = gd_words s \<and>
    (r = Inr () \<longrightarrow> at_first s1 d (map frame ds) \<or> junk = Inr () \<and> mapping_fails s \<and> d = 0)"
proof -
  obtain s1 pgs r a where p: "desc_pages_loop (unat n) it s = Some (s1, pgs, r)" "s1 = s\<lparr>gd_allocs := a\<rparr>"
    "r = Inr () \<Longrightarrow> chained pgs (map frame ds)"
    using desc_pages_chained [OF assms(1) _ assms(3), of "unat n" s] assms(2,4) by auto
  show ?thesis
  proof (cases r)
    case (Inl e)
    with p(1,2) show ?thesis by (simp add: vmw_gmr_build_descriptors_def vmw_gmr_free_descriptors_def)
  next
    case (Inr u)
    obtain m ram qs d where q: "map_pages pgs s1 = (s1\<lparr>gd_ram := ram, gd_maps := m\<rparr>, qs, d)"
      "\<And>a. d = Some a \<Longrightarrow> at_first (s1\<lparr>gd_ram := ram, gd_maps := m\<rparr>) a (map frame ds)"
      using map_pages_reads [OF p(3), of s1] Inr p(2) assms(5) by auto
    have "d = None \<Longrightarrow> mapping_fails s" using map_pages_maps [OF q(1)] p(2) by (simp add: mapping_fails_def)
    with p(1,2) Inr q show ?thesis
      by (cases d) (simp_all add: vmw_gmr_build_descriptors_def vmw_gmr_free_descriptors_def)
  qed
qed

lemma gmr2_bind_fails: "vmw_gmr2_bind it n i s = Some (s1, Inl e) \<Longrightarrow> s1 = fst (gd_reserve s)"
  by (auto simp: vmw_gmr2_bind_def Let_def split: prod.splits bool.splits option.splits if_splits)

lemma gd_reserve_fired [simp]: "gd_fired (fst (gd_reserve s)) = gd_fired s"
  by (simp add: gd_reserve_def Let_def)

text \<open>What the device has after a bind that returned \<open>r\<close>; a failed mapping may pass for success, with the
  region deleted.\<close>

definition gmr_bound :: "unit res \<Rightarrow> u32 \<Rightarrow> u64 list \<Rightarrow> gmr_dev \<Rightarrow> gmr_dev \<Rightarrow> unit res \<Rightarrow> bool" where
  "gmr_bound junk i fs s s1 r \<longleftrightarrow>
     (case r of
        Inl _ \<Rightarrow> gd_words s1 = gd_words s \<and> gd_fired s1 = gd_fired s
      | Inr _ \<Rightarrow> gmr_holds s1 i fs \<or>
          junk = Inr () \<and> gd_caps s AND SVGA_CAP_GMR2 = 0 \<and> mapping_fails s \<and> (\<exists>ram. gd_fired s1 = (i, 0, ram) # gd_fired s))"

lemma gmr_bind_cases:
  assumes t: "t = sg_of ds" and n: "n = of_nat (length ds)" and ds: "fits ds" "ds \<noteq> []"
    and s: "map_ok s" "words_ok s"
  shows "\<exists>s1 r. vmw_gmr_bind junk t n i s = Some (s1, r) \<and> gmr_bound junk i (map frame ds) s s1 r"
proof -
  define it where "it = fst (vmw_piter_next (vmw_piter_start t 0))"
  have len: "length ds < 2 ^ 28" using ds(1) by (simp add: fits_def)
  have sg: "sg_ok t" "sg_addrs t = ds" using len by (simp_all add: t sg_ok_def sg_of_def unat_of_nat_lt)
  have un: "unat n = length ds" using len by (simp add: n unat_of_nat_lt)
  have it: "at_page ds 0 it" "snd (vmw_piter_next (vmw_piter_start t 0))"
    using start_next [of t] sg len ds(2) by (simp_all add: it_def)
  then have next1: "vmw_piter_next (vmw_piter_start t 0) = (it, True)" by (simp add: it_def prod_eq_iff)
  consider (gmr2) "gd_caps s AND SVGA_CAP_GMR2 \<noteq> 0"
    | (refused) "gd_caps s AND SVGA_CAP_GMR2 = 0" "gd_caps s AND SVGA_CAP_GMR = 0 \<or> ucast (gd_max_gmr_descriptors s) < sg_num_regions t"
    | (gmr) "gd_caps s AND SVGA_CAP_GMR2 = 0" "gd_caps s AND SVGA_CAP_GMR \<noteq> 0" "\<not> ucast (gd_max_gmr_descriptors s) < sg_num_regions t"
    by blast
  then show ?thesis
  proof cases
    case gmr2
    obtain t0 where t0: "gmr2_run (gd_words s) (\<lambda>_. []) t0" using s(2) by (auto simp: words_ok_def)
    obtain s1 r ws where b: "vmw_gmr2_bind it n i s = Some (s1, r)" and
      ws: "r = Inr () \<longrightarrow> gd_words s1 = gd_words s @ ws \<and> (\<forall>t. gmr2_run ws t (t(i := given ds)))"
      using gmr2_bind_runs [OF it(1) un len t0, of i] by blast
    have "gd_caps s1 = gd_caps s"
      using b gd_reserve_frame(2) [of s] by (cases "gd_reserve s") (auto simp: vmw_gmr2_bind_def Let_def split: bool.splits option.splits if_splits)
    moreover have "gmr2_run (gd_words s @ ws) (\<lambda>_. []) (t0(i := given ds))" if "r = Inr ()"
      using ws that gmr2_run_append [OF t0] by blast
    ultimately have "r = Inr () \<longrightarrow> gmr_holds s1 i (map frame ds)"
      using ws gmr2 unfolding gmr_holds_def by (auto simp: given_def intro!: exI [of _ "t0(i := given ds)"])
    moreover have "\<exists>e. r = Inl e \<Longrightarrow> s1 = fst (gd_reserve s)" using b gmr2_bind_fails by blast
    ultimately have "gmr_bound junk i (map frame ds) s s1 r" by (cases r) (simp_all add: gmr_bound_def)
    with b gmr2 next1 show ?thesis by (simp add: vmw_gmr_bind_def)
  next
    case refused
    then show ?thesis by (auto simp: vmw_gmr_bind_def next1 gmr_bound_def)
  next
    case gmr
    obtain s1 qs d r where b: "vmw_gmr_build_descriptors junk it n s = Some (s1, qs, d, r)" "gd_caps s1 = gd_caps s"
      "gd_fired s1 = gd_fired s" "gd_words s1 = gd_words s"
      "r = Inr () \<Longrightarrow> at_first s1 d (map frame ds) \<or> junk = Inr () \<and> mapping_fails s \<and> d = 0"
      using build_first [OF it(1) un ds s(1), of junk] by blast
    show ?thesis
    proof (cases r)
      case (Inl e)
      with b gmr next1 show ?thesis by (simp add: vmw_gmr_bind_def gmr_bound_def)
    next
      case (Inr u)
      define s2 where "s2 = vmw_gmr_free_descriptors d qs (vmw_gmr_fire_descriptors i d s1)"
      have "gmr_holds s2 i (map frame ds)" if "at_first s1 d (map frame ds)"
        using that gmr(1) b(2) ucast_down_up [of "frame d"]
        by (auto simp: s2_def gmr_holds_def vmw_gmr_free_descriptors_def vmw_gmr_fire_descriptors_def vmw_write_reg_def Let_def at_first_def)
      moreover have "\<exists>ram. gd_fired s2 = (i, 0, ram) # gd_fired s" if "d = 0"
        using that b(3) by (simp add: s2_def vmw_gmr_free_descriptors_def vmw_gmr_fire_descriptors_def vmw_write_reg_def Let_def frame_def)
      ultimately have "gmr_bound junk i (map frame ds) s s2 (Inr ())"
        using b(5) Inr gmr(1) by (auto simp: gmr_bound_def)
      with b(1) gmr next1 Inr show ?thesis by (simp add: vmw_gmr_bind_def s2_def)
    qed
  qed
qed

text \<open>C34: binding a region never runs into an assertion or outside a page of descriptors, and when it
  succeeds the device has under the identifier exactly the page frames of the buffer, in order, whether
  they were sent through the FIFO in several remap commands or laid out in linked pages of descriptors
  with runs of contiguous pages folded together; when it fails nothing was sent and no region changed.
  There is one exception, stated in the conclusion: a page of descriptors that cannot be mapped leaves
  the variable that is returned without a value, and when that happens to be 0 (\<open>junk\<close>) the bind
  \<open>succeeds\<close> with the region deleted (\<open>failed_mapping_may_succeed\<close>).

  The buffer has at least one and less than \<open>2 ^ 28\<close> pages, whose frames are not 0 and fit 32 bits
  (\<open>fits\<close>); the pages of descriptors are mapped at addresses of their own with such frames (\<open>map_ok\<close>);
  and the region commands sent before are well formed (\<open>words_ok\<close>).\<close>

theorem vmw_gmr_bind_round_trip:
  assumes "fits ds" "ds \<noteq> []" "map_ok s" "words_ok s"
  shows "case vmw_gmr_bind junk (sg_of ds) (of_nat (length ds)) i s of
      None \<Rightarrow> False
    | Some (s1, Inl e) \<Rightarrow> gd_words s1 = gd_words s \<and> gd_fired s1 = gd_fired s
    | Some (s1, Inr u) \<Rightarrow> gmr_holds s1 i (map frame ds) \<or>
        junk = Inr () \<and> gd_caps s AND SVGA_CAP_GMR2 = 0 \<and> mapping_fails s \<and> (\<exists>ram. gd_fired s1 = (i, 0, ram) # gd_fired s)"
proof -
  obtain s1 r where "vmw_gmr_bind junk (sg_of ds) (of_nat (length ds)) i s = Some (s1, r)" "gmr_bound junk i (map frame ds) s s1 r"
    using gmr_bind_cases [OF refl refl assms] by blast
  then show ?thesis by (cases r) (simp_all add: gmr_bound_def)
qed

definition old_dev :: gmr_dev where
  "old_dev = \<lparr>gd_mob = plain_dev, gd_caps = SVGA_CAP_GMR, gd_max_gmr_descriptors = 64, gd_words = [], gd_regs = [], gd_ram = [],
     gd_fired = [], gd_unmapped = [], gd_allocs = 0, gd_maps = 0, gd_alloc = (\<lambda>_. True), gd_junk = (\<lambda>_ _. (77, 88)),
     gd_map = (\<lambda>k. if k = 0 then Some 0x123000 else None)\<rparr>"

definition three_pages :: "u64 list" where "three_pages = [0x5000, 0x6000, 0x9000]"

lemma eval_pages:
  "vmw_piter_next (vmw_piter_start (sg_of three_pages) 0) = (\<lparr>pi_addrs = three_pages, pi_i = 0, pi_num_pages = 3\<rparr>, True)"
  "sg_num_regions (sg_of three_pages) = 2"
  by (simp_all add: vmw_piter_next_def vmw_piter_start_def sg_of_def three_pages_def num_regions_of_def PAGE_SIZE_def)

lemma eval_desc_per_page: "desc_per_page = 511"
  by (simp add: desc_per_page_def PAGE_SIZE_def)

lemma eval_fill:
  "fill_desc 3 \<lparr>pi_addrs = three_pages, pi_i = 0, pi_num_pages = 3\<rparr> 0 (- 1) pg =
     Some (0, \<lparr>pi_addrs = three_pages, pi_i = 3, pi_num_pages = 3\<rparr>, 2, pg(0 := (5, 2), 1 := (9, 1)))"
  by (simp add: numeral_3_eq_3 vmw_piter_dma_addr_def vmw_piter_next_def three_pages_def frame_def PAGE_SHIFT_def eval_desc_per_page)

lemma eval_desc_pages:
  "gd_alloc s (gd_allocs s) \<Longrightarrow> desc_pages_loop 3 \<lparr>pi_addrs = three_pages, pi_i = 0, pi_num_pages = 3\<rparr> s =
     Some (s\<lparr>gd_allocs := Suc (gd_allocs s)\<rparr>, [(gd_junk s (gd_allocs s))(0 := (5, 2), 1 := (9, 1), 2 := (0, 0))], Inr ())"
  by (subst numeral_3_eq_3, subst desc_pages_loop.simps, subst numeral_3_eq_3 [symmetric])
    (simp add: eval_fill DMA_PAGE_INVALID_def Let_def)

lemmas eval_gmr = vmw_gmr_bind_def eval_pages eval_desc_pages vmw_gmr_build_descriptors_def vmw_gmr_free_descriptors_def
  vmw_gmr_fire_descriptors_def vmw_write_reg_def old_dev_def SVGA_CAP_GMR_def SVGA_CAP_GMR2_def
  eval_desc_per_page Let_def

lemma old_dev_binds: "map_option snd (vmw_gmr_bind (Inl EINVAL) (sg_of three_pages) 3 7 old_dev) = Some (Inr ())"
  by (simp add: eval_gmr)

theorem vmw_gmr_bind_round_trip_witness:
  "\<exists>s1. vmw_gmr_bind (Inl EINVAL) (sg_of three_pages) 3 7 old_dev = Some (s1, Inr ()) \<and> gmr_holds s1 7 [5, 6, 9]"
proof -
  have "fits three_pages" by (simp add: fits_def three_pages_def frame_def PAGE_SHIFT_def)
  moreover have "map_ok old_dev" by (auto simp: map_ok_def old_dev_def frame_def PAGE_SHIFT_def split: if_splits)
  moreover have "words_ok old_dev" by (auto simp: words_ok_def old_dev_def intro: gmr2_run.idle)
  ultimately have "case vmw_gmr_bind (Inl EINVAL) (sg_of three_pages) (of_nat (length three_pages)) 7 old_dev of
      None \<Rightarrow> False
    | Some (s1, Inl e) \<Rightarrow> gd_words s1 = gd_words old_dev \<and> gd_fired s1 = gd_fired old_dev
    | Some (s1, Inr u) \<Rightarrow> gmr_holds s1 7 (map frame three_pages) \<or> Inl EINVAL = (Inr () :: unit res) \<and>
        gd_caps old_dev AND SVGA_CAP_GMR2 = 0 \<and> mapping_fails old_dev \<and> (\<exists>ram. gd_fired s1 = (7, 0, ram) # gd_fired old_dev)"
    by (intro vmw_gmr_bind_round_trip) (simp_all add: three_pages_def)
  moreover have "of_nat (length three_pages) = (3 :: u64)" "map frame three_pages = [5, 6, 9]"
    by (simp_all add: three_pages_def frame_def PAGE_SHIFT_def)
  ultimately show ?thesis using old_dev_binds by (auto split: option.splits sum.splits)
qed

section \<open>Unbinding, and what goes wrong\<close>

lemma gmr_unbind_clears:
  assumes "gmr2_run (gd_words s) (\<lambda>_. []) t" "gd_caps s AND SVGA_CAP_GMR2 \<noteq> 0" "snd (gd_reserve s)"
  shows "gmr2_run (gd_words (vmw_gmr_unbind i s)) (\<lambda>_. []) (t(i := []))"
proof -
  have "gmr2_run [SVGA_CMD_DEFINE_GMR2, i, 0] t (t(i := []))"
    using gmr2_run.define_gmr2 [OF gmr2_run.idle, where t = t and i = i and n = 0] by simp
  with assms gmr2_run_append [OF assms(1)] gd_reserve_frame(1) [of s] show ?thesis
    by (cases "gd_reserve s") (auto simp: vmw_gmr_unbind_def vmw_gmr2_unbind_def)
qed

text \<open>The link to a page of descriptors is turned into an address with a 32-bit shift: the address
  that is unmapped is the one that was mapped only below 4 GB.\<close>

lemma unmapped_address:
  assumes "take_bit PAGE_SHIFT a = 0" "frame a < 2 ^ 32"
  shows "(ucast (push_bit PAGE_SHIFT (ucast (frame a) :: u32)) :: u64) = a \<longleftrightarrow> a < 2 ^ 32"
proof -
  have a: "unat a = 4096 * (unat a div 4096)"
    using arg_cong [OF assms(1), of unat] mult_div_mod_eq [of 4096 "unat a"]
    by (simp only: unsigned_take_bit_eq) (simp add: take_bit_nat_def PAGE_SHIFT_def)
  have f: "unat (ucast (frame a) :: u32) = unat a div 4096"
    using assms(2) by (simp add: unat_ucast_down32 frame_def PAGE_SHIFT_def word_less_nat_alt unat_drop_bit_eq drop_bit_nat_def)
  have "unat (ucast (push_bit PAGE_SHIFT (ucast (frame a) :: u32)) :: u64) = unat (push_bit PAGE_SHIFT (ucast (frame a) :: u32))"
    by simp
  also have "\<dots> = (unat a div 4096 * 4096) mod 2 ^ 32"
    unfolding unsigned_push_bit_eq f by (simp add: take_bit_nat_def push_bit_nat_def PAGE_SHIFT_def)
  finally have "unat (ucast (push_bit PAGE_SHIFT (ucast (frame a) :: u32)) :: u64) = (unat a div 4096 * 4096) mod 2 ^ 32" .
  then have "unat (ucast (push_bit PAGE_SHIFT (ucast (frame a) :: u32)) :: u64) = unat a mod 2 ^ 32"
    using a by (metis mult.commute)
  then show ?thesis by (simp add: word_unat_eq_iff word_less_nat_alt mod_eq_self_iff_div_eq_0 div_eq_0_iff)
qed

text \<open>When a page of descriptors cannot be mapped, what is returned was never stored: it may be success,
  with the region deleted.\<close>

lemma failed_mapping_may_succeed:
  "map_option (\<lambda>(s, r). (r, gd_regs s)) (vmw_gmr_bind (Inr ()) (sg_of three_pages) 3 7 (old_dev\<lparr>gd_map := (\<lambda>_. None)\<rparr>)) =
     Some (Inr (), [(SVGA_REG_GMR_DESCRIPTOR, 0), (SVGA_REG_GMR_ID, 7)])"
  by (simp add: eval_gmr frame_def)

end
