(* ===== verification/Ttm_Memory.thy ===== *)
theory Ttm_Memory
  imports Prelude
begin

text \<open>
  Memory accounting, \<open>src/ttm/ttm_memory.c\<close>, in the build without high memory: zones with their
  limits, charging and giving back, shrinking when a limit is passed, and the limits written
  through sysfs.  The callback that swaps buffers out is an argument; whether the task is
  privileged is an argument.
\<close>

definition TTM_MEMORY_ALLOC_RETRIES :: nat where "TTM_MEMORY_ALLOC_RETRIES = 4"

record ttm_mem_zone =
  zone_mem :: u64
  emer_mem :: u64
  max_mem :: u64
  swap_limit :: u64
  used_mem :: u64

text \<open>The zones; the kernel zone is the first and the zone of 32-bit addresses, if any, the second.
  \<open>swap_work\<close> counts how often the swap work was queued.\<close>

record ttm_mem_global =
  zones :: "ttm_mem_zone list"
  has_shrink :: bool
  swap_work :: nat

abbreviation (input) zone_kernel :: nat where "zone_kernel \<equiv> 0"

definition has_dma32 :: "ttm_mem_global \<Rightarrow> bool" where
  "has_dma32 g \<longleftrightarrow> 1 < length (zones g)"

section \<open>Sysfs\<close>

datatype zone_attr = ttm_mem_sys | ttm_mem_emer | ttm_mem_max | ttm_mem_swap | ttm_mem_used

definition ttm_mem_zone_show :: "zone_attr \<Rightarrow> ttm_mem_zone \<Rightarrow> u64" where
  "ttm_mem_zone_show a z = drop_bit 10 (case a of
       ttm_mem_sys \<Rightarrow> zone_mem z | ttm_mem_emer \<Rightarrow> emer_mem z | ttm_mem_max \<Rightarrow> max_mem z
     | ttm_mem_swap \<Rightarrow> swap_limit z | ttm_mem_used \<Rightarrow> used_mem z)"

definition store_limit :: "zone_attr \<Rightarrow> u64 \<Rightarrow> ttm_mem_zone \<Rightarrow> ttm_mem_zone" where
  "store_limit a val z =
     (let v = push_bit 10 val; v = (if zone_mem z < v then zone_mem z else v) in
      case a of
        ttm_mem_emer \<Rightarrow> z\<lparr>emer_mem := v, max_mem := (if v < max_mem z then v else max_mem z)\<rparr>
      | ttm_mem_max \<Rightarrow> z\<lparr>max_mem := v, emer_mem := (if emer_mem z < v then v else emer_mem z)\<rparr>
      | ttm_mem_swap \<Rightarrow> z\<lparr>swap_limit := v\<rparr>
      | _ \<Rightarrow> z)"

definition upd_zone :: "nat \<Rightarrow> (ttm_mem_zone \<Rightarrow> ttm_mem_zone) \<Rightarrow> ttm_mem_global \<Rightarrow> ttm_mem_global" where
  "upd_zone i f g = g\<lparr>zones := (zones g)[i := f (zones g ! i)]\<rparr>"

definition ttm_check_swapping :: "ttm_mem_global \<Rightarrow> ttm_mem_global" where
  "ttm_check_swapping g =
     (if \<exists>z \<in> set (zones g). swap_limit z < used_mem z then g\<lparr>swap_work := Suc (swap_work g)\<rparr> else g)"

text \<open>\<open>None\<close> is input that holds no number.\<close>

definition ttm_mem_zone_store :: "nat \<Rightarrow> zone_attr \<Rightarrow> u64 option \<Rightarrow> ttm_mem_global \<Rightarrow> ttm_mem_global" where
  "ttm_mem_zone_store i a input g = (case input of
       None \<Rightarrow> g
     | Some val \<Rightarrow> ttm_check_swapping (upd_zone i (store_limit a val) g))"

section \<open>Shrinking\<close>

definition ttm_zones_above_swap_target :: "bool \<Rightarrow> bool \<Rightarrow> u64 \<Rightarrow> ttm_mem_global \<Rightarrow> bool" where
  "ttm_zones_above_swap_target from_wq admin extra g \<longleftrightarrow>
     (\<exists>z \<in> set (zones g).
        let target = (if from_wq then swap_limit z else if admin then emer_mem z else max_mem z);
            target = (if target < extra then 0 else target)
        in target < used_mem z)"

text \<open>The callback returns the new state and whether it failed.\<close>

type_synonym shrinker = "ttm_mem_global \<Rightarrow> ttm_mem_global \<times> bool"

partial_function (option) shrink_loop :: "shrinker \<Rightarrow> bool \<Rightarrow> bool \<Rightarrow> u64 \<Rightarrow> ttm_mem_global \<Rightarrow> ttm_mem_global option" where
  "shrink_loop sh from_wq admin extra g =
     (if ttm_zones_above_swap_target from_wq admin extra g
      then (case sh g of (g1, failed) \<Rightarrow> if failed then Some g1 else shrink_loop sh from_wq admin extra g1)
      else Some g)"

definition ttm_shrink :: "shrinker \<Rightarrow> bool \<Rightarrow> bool \<Rightarrow> u64 \<Rightarrow> ttm_mem_global \<Rightarrow> ttm_mem_global option" where
  "ttm_shrink sh from_wq admin extra g =
     (if has_shrink g then shrink_loop sh from_wq admin extra g else Some g)"

definition ttm_shrink_work :: "shrinker \<Rightarrow> bool \<Rightarrow> ttm_mem_global \<Rightarrow> ttm_mem_global option" where
  "ttm_shrink_work sh admin g = ttm_shrink sh True admin 0 g"

section \<open>Zones of the system\<close>

definition new_zone :: "u64 \<Rightarrow> ttm_mem_zone" where
  "new_zone mem = \<lparr>zone_mem = mem, emer_mem = drop_bit 1 mem + drop_bit 2 mem, max_mem = drop_bit 1 mem,
     swap_limit = drop_bit 1 mem - drop_bit 3 mem, used_mem = 0\<rparr>"

text \<open>The outcomes of the allocation and of the registration are arguments.\<close>

definition ttm_mem_init_kernel_zone :: "bool \<Rightarrow> unit res \<Rightarrow> u64 \<Rightarrow> u64 \<Rightarrow> u64 \<Rightarrow> ttm_mem_global \<Rightarrow> ttm_mem_global \<times> unit res" where
  "ttm_mem_init_kernel_zone mem_ok reg totalram totalhigh mem_unit g =
     (if \<not> mem_ok then (g, Inl ENOMEM)
      else case reg of
        Inl e \<Rightarrow> (g, Inl e)
      | Inr _ \<Rightarrow> (g\<lparr>zones := zones g @ [new_zone ((totalram - totalhigh) * mem_unit)]\<rparr>, Inr ()))"

definition ttm_mem_init_dma32_zone :: "bool \<Rightarrow> unit res \<Rightarrow> u64 \<Rightarrow> u64 \<Rightarrow> ttm_mem_global \<Rightarrow> ttm_mem_global \<times> unit res" where
  "ttm_mem_init_dma32_zone mem_ok reg totalram mem_unit g =
     (if \<not> mem_ok then (g, Inl ENOMEM)
      else if totalram * mem_unit \<le> push_bit 32 1 then (g, Inr ())
      else case reg of
        Inl e \<Rightarrow> (g, Inl e)
      | Inr _ \<Rightarrow> (g\<lparr>zones := zones g @ [new_zone (push_bit 32 1)]\<rparr>, Inr ()))"

text \<open>Initialisation, with the outcomes of the registration of the accounting itself and of both zones;
  a failure after the first releases everything.\<close>

definition ttm_mem_global_init ::
  "unit res \<Rightarrow> bool \<Rightarrow> unit res \<Rightarrow> bool \<Rightarrow> unit res \<Rightarrow> u64 \<Rightarrow> u64 \<Rightarrow> u64 \<Rightarrow> ttm_mem_global res" where
  "ttm_mem_global_init reg mem1 reg1 mem2 reg2 totalram totalhigh mem_unit =
     (case reg of
        Inl e \<Rightarrow> Inl e
      | Inr _ \<Rightarrow>
          (case ttm_mem_init_kernel_zone mem1 reg1 totalram totalhigh mem_unit \<lparr>zones = [], has_shrink = False, swap_work = 0\<rparr> of
             (g, Inl e) \<Rightarrow> Inl e
           | (g, Inr _) \<Rightarrow>
               (case ttm_mem_init_dma32_zone mem2 reg2 totalram mem_unit g of
                  (g1, Inl e) \<Rightarrow> Inl e
                | (g1, Inr _) \<Rightarrow> Inr g1)))"

section \<open>Charging and giving back\<close>

text \<open>\<open>single\<close> is the only zone to charge, or all zones are.\<close>

definition touched :: "nat option \<Rightarrow> nat \<Rightarrow> bool" where
  "touched single i \<longleftrightarrow> (case single of None \<Rightarrow> True | Some k \<Rightarrow> i = k)"

definition charge :: "nat option \<Rightarrow> (u64 \<Rightarrow> u64) \<Rightarrow> ttm_mem_global \<Rightarrow> ttm_mem_global" where
  "charge single f g = g\<lparr>zones := map (\<lambda>(i, z). if touched single i then z\<lparr>used_mem := f (used_mem z)\<rparr> else z) (enumerate 0 (zones g))\<rparr>"

definition ttm_mem_global_free_zone :: "nat option \<Rightarrow> u64 \<Rightarrow> ttm_mem_global \<Rightarrow> ttm_mem_global" where
  "ttm_mem_global_free_zone single amount g = charge single (\<lambda>u. u - amount) g"

definition ttm_mem_global_free :: "u64 \<Rightarrow> ttm_mem_global \<Rightarrow> ttm_mem_global" where
  "ttm_mem_global_free amount g = ttm_mem_global_free_zone None amount g"

definition zone_limit :: "bool \<Rightarrow> ttm_mem_zone \<Rightarrow> u64" where
  "zone_limit admin z = (if admin then emer_mem z else max_mem z)"

definition over_limit :: "nat option \<Rightarrow> bool \<Rightarrow> ttm_mem_global \<Rightarrow> bool" where
  "over_limit single admin g \<longleftrightarrow>
     (\<exists>(i, z) \<in> set (enumerate 0 (zones g)). touched single i \<and> zone_limit admin z < used_mem z)"

definition ttm_mem_global_reserve :: "nat option \<Rightarrow> bool \<Rightarrow> u64 \<Rightarrow> bool \<Rightarrow> ttm_mem_global \<Rightarrow> ttm_mem_global \<times> unit res" where
  "ttm_mem_global_reserve single admin amount reserve g =
     (if over_limit single admin g then (ttm_check_swapping g, Inl ENOMEM)
      else (ttm_check_swapping (if reserve then charge single (\<lambda>u. u + amount) g else g), Inr ()))"

fun alloc_loop :: "shrinker \<Rightarrow> nat \<Rightarrow> nat option \<Rightarrow> bool \<Rightarrow> u64 \<Rightarrow> bool \<Rightarrow> ttm_mem_global \<Rightarrow> (ttm_mem_global \<times> unit res) option" where
  "alloc_loop sh count single admin memory no_wait g =
     (case ttm_mem_global_reserve single admin memory True g of
        (g1, Inr _) \<Rightarrow> Some (g1, Inr ())
      | (g1, Inl _) \<Rightarrow>
          if no_wait then Some (g1, Inl ENOMEM)
          else (case count of
              0 \<Rightarrow> Some (g1, Inl ENOMEM)
            | Suc c \<Rightarrow>
                (case ttm_shrink sh False admin (memory + drop_bit 2 memory + 16) g1 of
                   None \<Rightarrow> None
                 | Some g2 \<Rightarrow> alloc_loop sh c single admin memory no_wait g2)))"

declare alloc_loop.simps [simp del]

definition ttm_mem_global_alloc_zone ::
  "shrinker \<Rightarrow> nat option \<Rightarrow> bool \<Rightarrow> u64 \<Rightarrow> bool \<Rightarrow> ttm_mem_global \<Rightarrow> (ttm_mem_global \<times> unit res) option" where
  "ttm_mem_global_alloc_zone sh single admin memory no_wait g =
     alloc_loop sh TTM_MEMORY_ALLOC_RETRIES single admin memory no_wait g"

definition ttm_mem_global_alloc :: "shrinker \<Rightarrow> bool \<Rightarrow> u64 \<Rightarrow> bool \<Rightarrow> ttm_mem_global \<Rightarrow> (ttm_mem_global \<times> unit res) option" where
  "ttm_mem_global_alloc sh admin memory no_wait g = ttm_mem_global_alloc_zone sh None admin memory no_wait g"

text \<open>A page above the 32-bit addresses is charged to the kernel zone only.\<close>

definition page_zone :: "u64 \<Rightarrow> ttm_mem_global \<Rightarrow> nat option" where
  "page_zone pfn g = (if has_dma32 g \<and> 0x00100000 < pfn then Some zone_kernel else None)"

definition ttm_mem_global_alloc_page :: "shrinker \<Rightarrow> bool \<Rightarrow> u64 \<Rightarrow> bool \<Rightarrow> ttm_mem_global \<Rightarrow> (ttm_mem_global \<times> unit res) option" where
  "ttm_mem_global_alloc_page sh admin pfn no_wait g =
     ttm_mem_global_alloc_zone sh (page_zone pfn g) admin (of_nat PAGE_SIZE) no_wait g"

definition ttm_mem_global_free_page :: "u64 \<Rightarrow> ttm_mem_global \<Rightarrow> ttm_mem_global" where
  "ttm_mem_global_free_page pfn g = ttm_mem_global_free_zone (page_zone pfn g) (of_nat PAGE_SIZE) g"

text \<open>The size the allocator really uses.  The loop runs only for sizes of at most a page, from 4; the
  two further conditions say so, and the shift then never wraps around.\<close>

function pot_loop :: "u64 \<Rightarrow> u64 \<Rightarrow> u64" where
  "pot_loop sz tmp = (if tmp < sz \<and> sz \<le> of_nat PAGE_SIZE \<and> 0 < tmp then pot_loop sz (push_bit 1 tmp) else tmp)"
  by pat_completeness auto

termination pot_loop
proof (relation "measure (\<lambda>(sz, tmp). 4096 - unat tmp)", goal_cases)
  case (2 sz tmp)
  then have "unat tmp < unat sz" "unat sz \<le> 4096" "0 < unat tmp" by (simp_all add: word_less_nat_alt word_le_nat_alt PAGE_SIZE_def)
  then show ?case by (simp add: push_bit_eq_mult unat_word_ariths)
qed simp

declare pot_loop.simps [simp del]

definition ttm_round_pot :: "u64 \<Rightarrow> u64" where
  "ttm_round_pot sz =
     (if sz AND (sz - 1) = 0 then sz
      else if of_nat PAGE_SIZE < sz then (sz + 4095) AND NOT 4095
      else pot_loop sz 4)"

section \<open>Well-formed zones\<close>

definition zone_ok :: "ttm_mem_zone \<Rightarrow> bool" where
  "zone_ok z \<longleftrightarrow> max_mem z \<le> emer_mem z \<and> emer_mem z \<le> zone_mem z \<and> swap_limit z \<le> zone_mem z"

lemma zone_ok_store [simp]: "zone_ok z \<Longrightarrow> zone_ok (store_limit a v z)"
  by (cases a) (auto simp: zone_ok_def store_limit_def Let_def)

lemma store_limit_frame [simp]:
  "used_mem (store_limit a v z) = used_mem z" "zone_mem (store_limit a v z) = zone_mem z"
  by (cases a; simp add: store_limit_def Let_def)+

lemma zone_limit_le: "zone_ok z \<Longrightarrow> zone_limit admin z \<le> zone_mem z"
  by (auto simp: zone_ok_def zone_limit_def)

lemma zone_ok_new [simp]: "zone_ok (new_zone mem)"
proof -
  have "unat mem < 2 ^ 64" using unsigned_less [of mem] by simp
  then have "unat mem div 2 + unat mem div 4 < 2 ^ 64" by linarith
  then have "unat (drop_bit 1 mem + drop_bit 2 mem) = unat mem div 2 + unat mem div 4"
    by (simp add: unat_word_ariths unat_drop_bit_eq drop_bit_eq_div mod_less)
  moreover have "unat (drop_bit 3 mem) \<le> unat (drop_bit 1 mem)"
    by (simp only: unat_drop_bit_eq) (simp only: drop_bit_eq_div, simp add: div_le_mono2)
  then have "drop_bit 3 mem \<le> drop_bit 1 mem" by (simp only: word_le_nat_alt)
  then have "unat (drop_bit 1 mem - drop_bit 3 mem) = unat mem div 2 - unat mem div 8"
    by (simp add: unat_sub unat_drop_bit_eq drop_bit_nat_def flip: One_nat_def)
  ultimately show ?thesis
    by (simp add: zone_ok_def new_zone_def word_le_nat_alt unat_drop_bit_eq drop_bit_nat_def flip: One_nat_def)
      linarith
qed

text \<open>What the live charges, each with the zone it went to, add up to in a zone.\<close>

type_synonym charges = "(nat option \<times> u64) list"

definition charged :: "nat \<Rightarrow> charges \<Rightarrow> nat" where
  "charged i cs = (\<Sum>(single, a)\<leftarrow>cs. if touched single i then unat a else 0)"

lemma charged_Nil [simp]: "charged i [] = 0" by (simp add: charged_def)

lemma charged_Cons [simp]:
  "charged i ((single, a) # cs) = (if touched single i then unat a else 0) + charged i cs"
  by (simp add: charged_def)

lemma charged_remove:
  "(single, a) \<in> set cs \<Longrightarrow>
   charged i cs = (if touched single i then unat a else 0) + charged i (remove1 (single, a) cs)"
proof (induction cs)
  case (Cons c cs)
  then show ?case by (cases c) auto
qed simp

definition mem_ok :: "nat \<Rightarrow> ttm_mem_global \<Rightarrow> charges \<Rightarrow> bool" where
  "mem_ok A g cs \<longleftrightarrow> (\<forall>i < length (zones g). zone_ok (zones g ! i) \<and>
     unat (used_mem (zones g ! i)) = charged i cs \<and> charged i cs \<le> unat (zone_mem (zones g ! i)) + A)"

lemma mem_okD:
  assumes "mem_ok A g cs" "i < length (zones g)"
  shows "zone_ok (zones g ! i)" "unat (used_mem (zones g ! i)) = charged i cs"
    "charged i cs \<le> unat (zone_mem (zones g ! i)) + A"
  using assms by (simp_all add: mem_ok_def)

lemma zones_check_swapping [simp]: "zones (ttm_check_swapping g) = zones g"
  by (simp add: ttm_check_swapping_def)

lemma mem_ok_check_swapping [simp]: "mem_ok A (ttm_check_swapping g) cs \<longleftrightarrow> mem_ok A g cs"
  by (simp add: mem_ok_def)

lemma length_charge [simp]: "length (zones (charge single f g)) = length (zones g)"
  by (simp add: charge_def)

lemma nth_charge [simp]:
  "i < length (zones g) \<Longrightarrow> zones (charge single f g) ! i =
     (if touched single i then (zones g ! i)\<lparr>used_mem := f (used_mem (zones g ! i))\<rparr> else zones g ! i)"
  by (simp add: charge_def nth_enumerate_eq)

lemma zone_ok_used [simp]: "zone_ok (z\<lparr>used_mem := u\<rparr>) \<longleftrightarrow> zone_ok z"
  by (simp add: zone_ok_def)

definition roomy :: "nat \<Rightarrow> ttm_mem_global \<Rightarrow> bool" where
  "roomy A g \<longleftrightarrow> (\<forall>z \<in> set (zones g). unat (zone_mem z) + A < 2 ^ 64)"

lemma over_limitD:
  assumes "\<not> over_limit single admin g" "i < length (zones g)" "touched single i"
  shows "used_mem (zones g ! i) \<le> zone_limit admin (zones g ! i)"
proof -
  have "(i, zones g ! i) \<in> set (enumerate 0 (zones g))"
    using assms(2) by (metis add.left_neutral length_enumerate nth_enumerate_eq nth_mem)
  with assms(1,3) show ?thesis by (fastforce simp: over_limit_def)
qed

lemma reserve_ok:
  assumes ok: "mem_ok A g cs" and room: "roomy A g" and A: "unat amount \<le> A"
    and res: "ttm_mem_global_reserve single admin amount True g = (g1, Inr ())"
  shows "mem_ok A g1 ((single, amount) # cs)"
proof -
  from res have lim: "\<not> over_limit single admin g" and g1: "zones g1 = zones (charge single (\<lambda>u. u + amount) g)"
    by (auto simp: ttm_mem_global_reserve_def split: if_splits)
  show ?thesis unfolding mem_ok_def
  proof (intro allI impI)
    fix i assume "i < length (zones g1)"
    then have i: "i < length (zones g)" by (simp add: g1)
    note k = mem_okD [OF ok i]
    have "unat (zone_mem (zones g ! i)) + A < 2 ^ 64" using room i by (simp add: roomy_def)
    moreover have "touched single i \<Longrightarrow> unat (used_mem (zones g ! i)) \<le> unat (zone_mem (zones g ! i))"
      using over_limitD [OF lim i] zone_limit_le [OF k(1), of admin] by (simp add: word_le_nat_alt)
    ultimately show "zone_ok (zones g1 ! i) \<and> unat (used_mem (zones g1 ! i)) = charged i ((single, amount) # cs) \<and>
        charged i ((single, amount) # cs) \<le> unat (zone_mem (zones g1 ! i)) + A"
      using k A by (cases "touched single i") (simp_all add: g1 i unat_word_ariths mod_less)
  qed
qed

lemma free_ok:
  assumes ok: "mem_ok A g cs" and live: "(single, amount) \<in> set cs"
  shows "mem_ok A (ttm_mem_global_free_zone single amount g) (remove1 (single, amount) cs)"
  unfolding mem_ok_def
proof (intro allI impI)
  fix i assume "i < length (zones (ttm_mem_global_free_zone single amount g))"
  then have i: "i < length (zones g)" by (simp add: ttm_mem_global_free_zone_def)
  note k = mem_okD [OF ok i] and c = charged_remove [OF live, of i]
  have "touched single i \<Longrightarrow> unat (used_mem (zones g ! i) - amount) = unat (used_mem (zones g ! i)) - unat amount"
    using k c by (intro unat_sub) (simp add: word_le_nat_alt)
  with k c show "zone_ok (zones (ttm_mem_global_free_zone single amount g) ! i) \<and>
      unat (used_mem (zones (ttm_mem_global_free_zone single amount g) ! i)) = charged i (remove1 (single, amount) cs) \<and>
      charged i (remove1 (single, amount) cs) \<le> unat (zone_mem (zones (ttm_mem_global_free_zone single amount g) ! i)) + A"
    by (simp add: ttm_mem_global_free_zone_def i split: if_splits)
qed

lemma store_ok:
  assumes "mem_ok A g cs"
  shows "mem_ok A (ttm_mem_zone_store i a input g) cs"
proof (cases input)
  case (Some v)
  have "mem_ok A (upd_zone i (store_limit a v) g) cs"
    unfolding mem_ok_def
  proof (intro allI impI)
    fix j assume "j < length (zones (upd_zone i (store_limit a v) g))"
    then have j: "j < length (zones g)" by (simp add: upd_zone_def)
    with mem_okD [OF assms j]
    show "zone_ok (zones (upd_zone i (store_limit a v) g) ! j) \<and>
        unat (used_mem (zones (upd_zone i (store_limit a v) g) ! j)) = charged j cs \<and>
        charged j cs \<le> unat (zone_mem (zones (upd_zone i (store_limit a v) g) ! j)) + A"
      by (cases "i = j") (simp_all add: upd_zone_def)
  qed
  with Some show ?thesis by (simp add: ttm_mem_zone_store_def)
qed (simp add: ttm_mem_zone_store_def assms)

section \<open>Reachable states\<close>

text \<open>The accounting starts out of \<open>ttm_mem_global_init\<close>; then limits are written, charges of at most \<open>A\<close>
  bytes are asked for, granted or refused, and live charges are given back, whole or in parts, in any
  order.\<close>

inductive mem_reach :: "nat \<Rightarrow> ttm_mem_global \<Rightarrow> charges \<Rightarrow> bool" for A where
  init: "ttm_mem_global_init reg mem1 reg1 mem2 reg2 totalram totalhigh mem_unit = Inr g \<Longrightarrow> mem_reach A g []"
| shrinkable: "mem_reach A g cs \<Longrightarrow> mem_reach A (g\<lparr>has_shrink := b\<rparr>) cs"
| store: "mem_reach A g cs \<Longrightarrow> mem_reach A (ttm_mem_zone_store i a input g) cs"
| grant: "\<lbrakk>mem_reach A g cs; unat amount \<le> A; ttm_mem_global_reserve single admin amount True g = (g1, Inr ())\<rbrakk>
    \<Longrightarrow> mem_reach A g1 ((single, amount) # cs)"
| refuse: "\<lbrakk>mem_reach A g cs; ttm_mem_global_reserve single admin amount reserve g = (g1, Inl e)\<rbrakk> \<Longrightarrow> mem_reach A g1 cs"
| free: "\<lbrakk>mem_reach A g cs; (single, amount) \<in> set cs\<rbrakk>
    \<Longrightarrow> mem_reach A (ttm_mem_global_free_zone single amount g) (remove1 (single, amount) cs)"
| split_charge: "\<lbrakk>mem_reach A g cs; (single, amount) \<in> set cs; unat amount = unat b + unat c\<rbrakk>
    \<Longrightarrow> mem_reach A g ((single, b) # (single, c) # remove1 (single, amount) cs)"

lemma reserve_zone_mem:
  "map zone_mem (zones (fst (ttm_mem_global_reserve single admin amount reserve g))) = map zone_mem (zones g)"
  by (auto simp: ttm_mem_global_reserve_def intro!: nth_equalityI)

lemma store_zone_mem: "map zone_mem (zones (ttm_mem_zone_store i a input g)) = map zone_mem (zones g)"
proof (cases "i < length (zones g)")
  case True
  then show ?thesis by (simp add: ttm_mem_zone_store_def upd_zone_def map_update split: option.split)
     (metis list_update_id length_map nth_map)
qed (simp add: ttm_mem_zone_store_def upd_zone_def list_update_beyond split: option.split)

lemma free_zone_mem: "map zone_mem (zones (ttm_mem_global_free_zone single amount g)) = map zone_mem (zones g)"
  by (auto simp: ttm_mem_global_free_zone_def intro!: nth_equalityI)

lemma roomy_alt: "roomy A g \<longleftrightarrow> (\<forall>m \<in> set (map zone_mem (zones g)). unat m + A < 2 ^ 64)"
  by (simp add: roomy_def)

lemma init_ok:
  assumes "ttm_mem_global_init reg mem1 reg1 mem2 reg2 totalram totalhigh mem_unit = Inr g"
  shows "\<exists>ms. zones g = map new_zone ms"
proof -
  consider "zones g = [new_zone ((totalram - totalhigh) * mem_unit)]"
    | "zones g = [new_zone ((totalram - totalhigh) * mem_unit), new_zone (push_bit 32 1)]"
    using assms by (auto simp: ttm_mem_global_init_def ttm_mem_init_kernel_zone_def ttm_mem_init_dma32_zone_def
        split: sum.splits if_splits prod.splits)
  then show ?thesis
    by cases (metis list.simps(8,9))+
qed

lemma reach_ok: "mem_reach A g cs \<Longrightarrow> roomy A g \<Longrightarrow> mem_ok A g cs"
proof (induction rule: mem_reach.induct)
  case (init reg mem1 reg1 mem2 reg2 totalram totalhigh mem_unit g)
  then obtain ms where "zones g = map new_zone ms" using init_ok by blast
  then show ?case by (auto simp: mem_ok_def) (simp add: new_zone_def)
next
  case (shrinkable g cs b)
  then show ?case by (simp add: mem_ok_def roomy_def)
next
  case (store g cs i a input)
  then show ?case by (intro store_ok store.IH) (simp_all only: roomy_alt store_zone_mem)
next
  case (grant g cs amount single admin g1)
  then have "roomy A g" by (metis roomy_alt reserve_zone_mem fst_conv)
  with grant show ?case by (blast intro: reserve_ok)
next
  case (refuse g cs single admin amount reserve g1 e)
  then have "roomy A g" by (metis roomy_alt reserve_zone_mem fst_conv)
  with refuse show ?case by (auto simp: ttm_mem_global_reserve_def split: if_splits)
next
  case (free g cs single amount)
  then have "roomy A g" by (simp only: roomy_alt free_zone_mem)
  with free show ?case by (blast intro: free_ok)
next
  case (split_charge g cs single amount b c)
  have "charged i ((single, b) # (single, c) # remove1 (single, amount) cs) = charged i cs" for i
    using charged_remove [OF split_charge(2)] split_charge(3) by simp
  with split_charge.IH [OF split_charge.prems] show ?case by (simp only: mem_ok_def)
qed

text \<open>C33: however memory is charged, given back and its limits rewritten, every zone keeps its limits in
  order (the normal limit below the emergency limit, both and the swap limit below the memory of the
  zone) and its counter is the sum of the live charges that went to it, with no wrap-around, provided
  the memory of the zone and one charge fit in 64 bits.\<close>

theorem ttm_mem_zone_sound:
  assumes "mem_reach A g cs" and "roomy A g" and "i < length (zones g)"
  shows "zone_ok (zones g ! i) \<and> unat (used_mem (zones g ! i)) = charged i cs"
  using mem_okD [OF reach_ok [OF assms(1,2)] assms(3)] by simp

definition start_mem :: ttm_mem_global where
  "start_mem = \<lparr>zones = [new_zone 0x10000000], has_shrink = False, swap_work = 0\<rparr>"

definition small_mem :: ttm_mem_global where
  "small_mem = fst (ttm_mem_global_reserve None False 4096 True (ttm_mem_zone_store 0 ttm_mem_max (Some 4) start_mem))"

lemma start_mem_reach: "mem_reach 65536 start_mem []"
proof (rule mem_reach.init)
  show "ttm_mem_global_init (Inr ()) True (Inr ()) True (Inr ()) 0x10000 0 4096 = Inr start_mem"
    by (simp add: ttm_mem_global_init_def ttm_mem_init_kernel_zone_def ttm_mem_init_dma32_zone_def start_mem_def)
qed

lemma small_mem_reach: "mem_reach 65536 small_mem [(None, 4096)]"
proof (rule mem_reach.grant [OF mem_reach.store [OF start_mem_reach]])
  have "snd (ttm_mem_global_reserve None False 4096 True (ttm_mem_zone_store 0 ttm_mem_max (Some 4) start_mem)) = Inr ()"
    by code_simp
  then show "ttm_mem_global_reserve None False 4096 True (ttm_mem_zone_store 0 ttm_mem_max (Some 4) start_mem) = (small_mem, Inr ())"
    by (simp add: small_mem_def prod_eq_iff)
qed simp

theorem ttm_mem_zone_sound_witness:
  "zone_ok (zones small_mem ! 0) \<and> unat (used_mem (zones small_mem ! 0)) = charged 0 [(None, 4096)]"
proof (rule ttm_mem_zone_sound [OF small_mem_reach])
  have m: "map zone_mem (zones small_mem) = [0x10000000]"
    unfolding small_mem_def reserve_zone_mem store_zone_mem by (simp add: start_mem_def new_zone_def)
  show "roomy 65536 small_mem" unfolding roomy_alt m by simp
  show "0 < length (zones small_mem)" using arg_cong [OF m, of length] by simp
qed

section \<open>Limits and allocation\<close>

text \<open>A granted charge leaves every zone at most that charge above the limit of the caller.\<close>

lemma reserve_bound:
  assumes "ttm_mem_global_reserve single admin amount True g = (g1, Inr ())"
    and "i < length (zones g)" "touched single i"
  shows "unat (used_mem (zones g1 ! i)) \<le> unat (zone_limit admin (zones g ! i)) + unat amount"
proof -
  from assms(1) have "\<not> over_limit single admin g" "zones g1 = zones (charge single (\<lambda>u. u + amount) g)"
    by (auto simp: ttm_mem_global_reserve_def split: if_splits)
  with over_limitD [of single admin g i] assms(2,3) show ?thesis
    by (auto simp: word_le_nat_alt unat_word_ariths intro: le_trans [OF mod_less_eq_dividend])
qed

text \<open>The shrinking loop ends when every successful call of the callback gives back some memory
  (\<open>size_of\<close> is any count it lowers).\<close>

lemma shrink_loop_ends:
  assumes "\<And>h h1. sh h = (h1, False) \<Longrightarrow> size_of h1 < (size_of h :: nat)"
  shows "\<exists>g1. shrink_loop sh from_wq admin extra g = Some g1"
proof (induction "size_of g" arbitrary: g rule: less_induct)
  case less
  show ?case
  proof (cases "sh g")
    case (Pair g1 failed)
    with less [of g1] assms [of g g1] show ?thesis
      by (cases failed) (simp_all add: shrink_loop.simps [of sh from_wq admin extra g])
  qed
qed

lemma alloc_loop_ends:
  assumes "\<And>h h1. sh h = (h1, False) \<Longrightarrow> size_of h1 < (size_of h :: nat)"
  shows "\<exists>r. alloc_loop sh count single admin memory no_wait g = Some r"
proof (induction count arbitrary: g)
  case 0
  then show ?case by (simp add: alloc_loop.simps [of sh 0] split: prod.split sum.split)
next
  case (Suc c)
  have "\<exists>g2. ttm_shrink sh False admin extra h = Some g2" for extra h
    using shrink_loop_ends [of sh size_of] assms by (simp add: ttm_shrink_def)
  then obtain shrunk where s: "ttm_shrink sh False admin extra h = Some (shrunk extra h)" for extra h
    by metis
  show ?case
    using Suc by (cases no_wait) (simp_all add: alloc_loop.simps [of sh "Suc c"] s split: prod.split sum.split)
qed

text \<open>An allocation whose callback only gives charges back ends in a reachable state, in which the new
  charge is live when the call succeeded.\<close>

definition gives_back :: "nat \<Rightarrow> shrinker \<Rightarrow> bool" where
  "gives_back A sh \<longleftrightarrow> (\<forall>g cs. mem_reach A g cs \<longrightarrow> (\<exists>ds. mem_reach A (fst (sh g)) ds))"

lemma shrink_loop_reach:
  assumes "gives_back A sh" and "\<And>h h1. sh h = (h1, False) \<Longrightarrow> size_of h1 < (size_of h :: nat)"
    and "shrink_loop sh from_wq admin extra g = Some g1" and "mem_reach A g cs"
  shows "\<exists>ds. mem_reach A g1 ds"
  using assms(3,4)
proof (induction "size_of g" arbitrary: g cs rule: less_induct)
  case less
  obtain g2 failed where sh: "sh g = (g2, failed)" by fastforce
  obtain ds where "mem_reach A g2 ds"
    using assms(1) less.prems(2) by (metis fst_conv gives_back_def sh)
  with less.prems less.hyps [of g2] assms(2) [of g g2] sh show ?case
    by (cases failed) (auto simp: shrink_loop.simps [of sh from_wq admin extra g] split: if_splits)
qed

lemma alloc_loop_reach:
  assumes gives: "gives_back A sh" and prog: "\<And>h h1. sh h = (h1, False) \<Longrightarrow> size_of h1 < (size_of h :: nat)"
    and A: "unat memory \<le> A"
    and "alloc_loop sh count single admin memory no_wait g = Some (g1, r)" and "mem_reach A g cs"
  shows "\<exists>ds. mem_reach A g1 ds \<and> (r = Inr () \<longrightarrow> (single, memory) \<in> set ds)"
  using assms(4,5)
proof (induction count arbitrary: g cs)
  case 0
  then show ?case
    using A by (auto simp: alloc_loop.simps [of sh 0] split: prod.splits sum.splits if_splits
        intro: mem_reach.grant mem_reach.refuse)
next
  case (Suc c)
  obtain h x where res: "ttm_mem_global_reserve single admin memory True g = (h, x)" by fastforce
  show ?case
  proof (cases x)
    case (Inl e)
    have h: "mem_reach A h cs" using Suc.prems(2) res Inl by (blast intro: mem_reach.refuse)
    show ?thesis
    proof (cases no_wait)
      case True
      with Suc.prems(1) res Inl h show ?thesis by (auto simp: alloc_loop.simps [of sh "Suc c"])
    next
      case False
      with Suc.prems(1) res Inl obtain h2 where
        s: "ttm_shrink sh False admin (memory + drop_bit 2 memory + 16) h = Some h2"
        and a: "alloc_loop sh c single admin memory no_wait h2 = Some (g1, r)"
        by (auto simp: alloc_loop.simps [of sh "Suc c"] split: option.splits)
      from s have "\<exists>ds. mem_reach A h2 ds"
        using shrink_loop_reach [of A sh size_of, OF gives prog _ h] h by (auto simp: ttm_shrink_def split: if_splits)
      with a Suc.IH show ?thesis by blast
    qed
  next
    case (Inr u)
    with Suc.prems(1) res have "g1 = h" "r = Inr ()" by (auto simp: alloc_loop.simps [of sh "Suc c"])
    moreover have "mem_reach A h ((single, memory) # cs)"
      using mem_reach.grant [OF Suc.prems(2) A] res Inr by simp
    ultimately show ?thesis by (metis list.set_intros(1))
  qed
qed

section \<open>Rounding\<close>

lemma pot_loop_ge:
  "sz \<le> of_nat PAGE_SIZE \<Longrightarrow> 0 < tmp \<Longrightarrow> tmp \<le> of_nat PAGE_SIZE \<Longrightarrow> sz \<le> pot_loop sz tmp"
proof (induction sz tmp rule: pot_loop.induct)
  case (1 sz tmp)
  show ?case
  proof (cases "tmp < sz")
    case True
    from 1(3,4) True 1(2) have t: "0 < unat tmp" "unat tmp < unat sz" "unat sz \<le> 4096"
      by (simp_all add: word_less_nat_alt word_le_nat_alt PAGE_SIZE_def)
    then have d: "unat (push_bit 1 tmp) = 2 * unat tmp" by (simp add: push_bit_eq_mult unat_word_ariths)
    show ?thesis
    proof (cases "push_bit 1 tmp < sz")
      case True
      then have "push_bit 1 tmp \<le> of_nat PAGE_SIZE" using 1(2) by simp
      moreover have "0 < push_bit 1 tmp" using d t by (simp add: word_less_nat_alt)
      ultimately show ?thesis using 1 \<open>tmp < sz\<close> by (subst pot_loop.simps) simp
    next
      case False
      then have "pot_loop sz (push_bit 1 tmp) = push_bit 1 tmp" by (subst pot_loop.simps) simp
      with 1(2,3) \<open>tmp < sz\<close> False show ?thesis
        by (simp add: pot_loop.simps [of sz tmp] linorder_not_less)
    qed
  qed (simp add: pot_loop.simps [of sz tmp] 1)
qed

lemma page_align_ge:
  fixes sz :: u64
  assumes "sz \<le> sz + 4095"
  shows "sz \<le> (sz + 4095) AND NOT 4095"
proof -
  define x where "x = sz + 4095"
  have m: "(4095 :: u64) = mask 12" by (simp add: mask_eq_exp_minus_1)
  have "x AND NOT 4095 = push_bit 12 (drop_bit 12 x)"
    unfolding m by (rule bit_eqI) (auto simp: bit_simps)
  moreover have "push_bit 12 (drop_bit 12 x) = x - take_bit 12 x"
    by (metis add_diff_cancel_right' bits_ident)
  moreover have "take_bit 12 x \<le> x" by (simp add: word_le_nat_alt unsigned_take_bit_eq take_bit_nat_less_eq_self)
  ultimately have "unat (x AND NOT 4095) = unat x - unat (take_bit 12 x)" by (simp add: unat_sub)
  moreover have "unat (take_bit 12 x) < 2 ^ 12" 
    using take_bit_nat_less_exp [of 12 "unat x"] by (simp add: unsigned_take_bit_eq)
  moreover have "unat x = unat sz + 4095" using assms unat_plus_simple [of sz 4095] by (simp add: x_def)
  ultimately show ?thesis unfolding x_def [symmetric] word_le_nat_alt by simp
qed

text \<open>The rounded size is no smaller than the size asked for, unless rounding to a page wraps around.\<close>

lemma ttm_round_pot_ge:
  assumes "sz \<le> sz + 4095"
  shows "sz \<le> ttm_round_pot sz"
proof -
  have "sz \<le> pot_loop sz 4" if "sz \<le> of_nat PAGE_SIZE"
    using that by (intro pot_loop_ge) (simp_all add: PAGE_SIZE_def)
  with page_align_ge [OF assms] show ?thesis
    by (simp add: ttm_round_pot_def linorder_not_less)
qed

end
