(* ===== verification/Ttm_Backend.thy ===== *)
theory Ttm_Backend
  imports Gmr Ttm_Memory
begin

text \<open>
  The TTM backend, \<open>src/vmwgfx_buffer.c\<close>: placements, mapping the pages of a buffer for the device with
  the accounting of the tables this takes, binding and unbinding, and the memory types.  The choice of
  the mapping mode is \<open>vmw_dma_select_mode\<close> of \<open>src/vmwgfx_drv.c\<close>.
\<close>

section \<open>Placements\<close>

definition TTM_PL_FLAG_SYSTEM :: u32 where "TTM_PL_FLAG_SYSTEM = push_bit 0 1"
definition TTM_PL_FLAG_VRAM :: u32 where "TTM_PL_FLAG_VRAM = push_bit 2 1"
definition VMW_PL_FLAG_GMR :: u32 where "VMW_PL_FLAG_GMR = push_bit 3 1"
definition VMW_PL_FLAG_MOB :: u32 where "VMW_PL_FLAG_MOB = push_bit 4 1"
definition TTM_PL_FLAG_CACHED :: u32 where "TTM_PL_FLAG_CACHED = push_bit 16 1"
definition TTM_PL_FLAG_NO_EVICT :: u32 where "TTM_PL_FLAG_NO_EVICT = push_bit 21 1"

text \<open>The lists as long as their counts say; no placement limits the page range.\<close>

record vmw_placement =
  pl_placement :: "u32 list"
  pl_busy_placement :: "u32 list"

definition vram_placement_flags :: u32 where "vram_placement_flags = TTM_PL_FLAG_VRAM OR TTM_PL_FLAG_CACHED"
definition vram_ne_placement_flags :: u32 where
  "vram_ne_placement_flags = TTM_PL_FLAG_VRAM OR TTM_PL_FLAG_CACHED OR TTM_PL_FLAG_NO_EVICT"
definition sys_placement_flags :: u32 where "sys_placement_flags = TTM_PL_FLAG_SYSTEM OR TTM_PL_FLAG_CACHED"
definition sys_ne_placement_flags :: u32 where
  "sys_ne_placement_flags = TTM_PL_FLAG_SYSTEM OR TTM_PL_FLAG_CACHED OR TTM_PL_FLAG_NO_EVICT"
definition gmr_placement_flags :: u32 where "gmr_placement_flags = VMW_PL_FLAG_GMR OR TTM_PL_FLAG_CACHED"
definition gmr_ne_placement_flags :: u32 where
  "gmr_ne_placement_flags = VMW_PL_FLAG_GMR OR TTM_PL_FLAG_CACHED OR TTM_PL_FLAG_NO_EVICT"
definition mob_placement_flags :: u32 where "mob_placement_flags = VMW_PL_FLAG_MOB OR TTM_PL_FLAG_CACHED"

definition vmw_vram_placement :: vmw_placement where
  "vmw_vram_placement = \<lparr>pl_placement = [vram_placement_flags], pl_busy_placement = [vram_placement_flags]\<rparr>"
definition vmw_vram_gmr_placement :: vmw_placement where
  "vmw_vram_gmr_placement = \<lparr>pl_placement = [TTM_PL_FLAG_VRAM OR TTM_PL_FLAG_CACHED, VMW_PL_FLAG_GMR OR TTM_PL_FLAG_CACHED],
     pl_busy_placement = [gmr_placement_flags]\<rparr>"
definition vmw_vram_gmr_ne_placement :: vmw_placement where
  "vmw_vram_gmr_ne_placement = \<lparr>pl_placement = [TTM_PL_FLAG_VRAM OR TTM_PL_FLAG_CACHED OR TTM_PL_FLAG_NO_EVICT,
     VMW_PL_FLAG_GMR OR TTM_PL_FLAG_CACHED OR TTM_PL_FLAG_NO_EVICT], pl_busy_placement = [gmr_ne_placement_flags]\<rparr>"
definition vmw_vram_sys_placement :: vmw_placement where
  "vmw_vram_sys_placement = \<lparr>pl_placement = [vram_placement_flags], pl_busy_placement = [sys_placement_flags]\<rparr>"
definition vmw_vram_ne_placement :: vmw_placement where
  "vmw_vram_ne_placement = \<lparr>pl_placement = [vram_ne_placement_flags], pl_busy_placement = [vram_ne_placement_flags]\<rparr>"
definition vmw_sys_placement :: vmw_placement where
  "vmw_sys_placement = \<lparr>pl_placement = [sys_placement_flags], pl_busy_placement = [sys_placement_flags]\<rparr>"
definition vmw_sys_ne_placement :: vmw_placement where
  "vmw_sys_ne_placement = \<lparr>pl_placement = [sys_ne_placement_flags], pl_busy_placement = [sys_ne_placement_flags]\<rparr>"
definition vmw_evictable_placement :: vmw_placement where
  "vmw_evictable_placement = \<lparr>pl_placement = [TTM_PL_FLAG_SYSTEM OR TTM_PL_FLAG_CACHED, TTM_PL_FLAG_VRAM OR TTM_PL_FLAG_CACHED,
     VMW_PL_FLAG_GMR OR TTM_PL_FLAG_CACHED, VMW_PL_FLAG_MOB OR TTM_PL_FLAG_CACHED], pl_busy_placement = [sys_placement_flags]\<rparr>"
definition vmw_srf_placement :: vmw_placement where
  "vmw_srf_placement = \<lparr>pl_placement = [gmr_placement_flags],
     pl_busy_placement = [VMW_PL_FLAG_GMR OR TTM_PL_FLAG_CACHED, TTM_PL_FLAG_VRAM OR TTM_PL_FLAG_CACHED]\<rparr>"
definition vmw_mob_placement :: vmw_placement where
  "vmw_mob_placement = \<lparr>pl_placement = [mob_placement_flags], pl_busy_placement = [mob_placement_flags]\<rparr>"

definition vmw_evict_flags :: vmw_placement where
  "vmw_evict_flags = vmw_sys_placement"

section \<open>Memory types\<close>

definition TTM_MEMTYPE_FLAG_FIXED :: u32 where "TTM_MEMTYPE_FLAG_FIXED = push_bit 0 1"
definition TTM_MEMTYPE_FLAG_MAPPABLE :: u32 where "TTM_MEMTYPE_FLAG_MAPPABLE = push_bit 1 1"
definition TTM_MEMTYPE_FLAG_CMA :: u32 where "TTM_MEMTYPE_FLAG_CMA = push_bit 3 1"

datatype man_func = ttm_bo_manager_func | vmw_gmrid_manager_func

record mem_type_manager =
  man_func :: "man_func option"
  man_flags :: u32
  man_available_caching :: u32
  man_default_caching :: u32

text \<open>\<open>None\<close> as the type stands for the types the driver does not use.\<close>

definition vmw_init_mem_type :: "mem_type option \<Rightarrow> mem_type_manager \<Rightarrow> mem_type_manager res" where
  "vmw_init_mem_type type man =
     (let cached = (\<lambda>m. m\<lparr>man_available_caching := TTM_PL_FLAG_CACHED, man_default_caching := TTM_PL_FLAG_CACHED\<rparr>) in
      case type of
        Some TTM_PL_SYSTEM \<Rightarrow> Inr (cached (man\<lparr>man_flags := TTM_MEMTYPE_FLAG_MAPPABLE\<rparr>))
      | Some TTM_PL_VRAM \<Rightarrow> Inr (cached (man\<lparr>man_func := Some ttm_bo_manager_func,
          man_flags := TTM_MEMTYPE_FLAG_FIXED OR TTM_MEMTYPE_FLAG_MAPPABLE\<rparr>))
      | Some _ \<Rightarrow> Inr (cached (man\<lparr>man_func := Some vmw_gmrid_manager_func,
          man_flags := TTM_MEMTYPE_FLAG_CMA OR TTM_MEMTYPE_FLAG_MAPPABLE\<rparr>))
      | None \<Rightarrow> Inl EINVAL)"

record bus_placement =
  bus_base :: u64
  bus_size :: u64
  bus_offset :: u64
  bus_is_iomem :: bool

definition vmw_ttm_io_mem_reserve :: "u64 \<Rightarrow> mem_type_manager \<Rightarrow> mem_type option \<Rightarrow> u64 \<Rightarrow> u64 \<Rightarrow> bus_placement \<times> unit res" where
  "vmw_ttm_io_mem_reserve vram_start man type num_pages start =
     (let bus = \<lparr>bus_base = 0, bus_size = push_bit PAGE_SHIFT num_pages, bus_offset = 0, bus_is_iomem = False\<rparr> in
      if man_flags man AND TTM_MEMTYPE_FLAG_MAPPABLE = 0 then (bus, Inl EINVAL)
      else case type of
          Some TTM_PL_VRAM \<Rightarrow> (bus\<lparr>bus_offset := push_bit PAGE_SHIFT start, bus_base := vram_start, bus_is_iomem := True\<rparr>, Inr ())
        | Some _ \<Rightarrow> (bus, Inr ())
        | None \<Rightarrow> (bus, Inl EINVAL))"

section \<open>The mapping mode\<close>

text \<open>The arguments are what the kernel was configured with and the parameters of the module.\<close>

record dma_setup =
  intel_iommu_enabled :: bool
  vmw_force_iommu :: bool
  vmw_force_coherent :: bool
  vmw_restrict_iommu :: bool
  sync_single_for_cpu :: bool
  swiotlb_nr_tbl_zero :: bool

definition vmw_dma_fixup :: "dma_setup \<Rightarrow> vmw_dma_map_mode \<Rightarrow> vmw_dma_map_mode \<times> unit res" where
  "vmw_dma_fixup c m =
     (let m1 = (if m = vmw_dma_map_populate \<and> vmw_restrict_iommu c then vmw_dma_map_bind else m);
          m2 = (if vmw_force_coherent c then vmw_dma_alloc_coherent else m1)
      in if m2 = vmw_dma_alloc_coherent then (m2, Inl EINVAL) else (m2, Inr ()))"

definition vmw_dma_select_mode :: "dma_setup \<Rightarrow> vmw_dma_map_mode \<times> unit res" where
  "vmw_dma_select_mode c =
     (if intel_iommu_enabled c then vmw_dma_fixup c vmw_dma_map_populate
      else if \<not> (vmw_force_iommu c \<or> vmw_force_coherent c) then (vmw_dma_phys, Inr ())
      else vmw_dma_fixup c
        (if swiotlb_nr_tbl_zero c then vmw_dma_map_populate
         else if sync_single_for_cpu c then vmw_dma_alloc_coherent
         else vmw_dma_map_populate))"

lemma select_mode_not_coherent: "vmw_dma_select_mode c = (m, Inr ()) \<Longrightarrow> m \<noteq> vmw_dma_alloc_coherent"
  by (auto simp: vmw_dma_select_mode_def vmw_dma_fixup_def Let_def split: if_splits)

section \<open>Mapping pages\<close>

text \<open>\<open>be_pages\<close> are the physical addresses of the pages.\<close>

record vmw_ttm_backend =
  be_pages :: "u64 list"
  be_num_pages :: u64
  be_gmr_id :: u32
  be_mob :: "vmw_mob option"
  be_mem_type :: mem_type
  be_vsgt :: vmw_sg_table
  be_sg_alloc_size :: u64
  be_mapped :: bool

text \<open>The device with the accounting of memory.  \<open>td_sgl\<close> and \<open>td_sgt\<close> are the sizes of a scatterlist entry
  and of its table, \<open>td_dma\<close> the device address of a page, \<open>td_alloc\<close> and \<open>td_map\<close> the outcomes of
  \<open>sg_alloc_table_from_pages\<close> (the number of entries) and of \<open>dma_map_sg\<close> (0 is failure).\<close>

record ttm_dev =
  td_gmr :: gmr_dev
  td_glob :: ttm_mem_global
  td_mode :: vmw_dma_map_mode
  td_admin :: bool
  td_shrink :: shrinker
  td_sgl :: u64
  td_sgt :: u64
  td_dma :: "u64 \<Rightarrow> u64"
  td_calls :: nat
  td_alloc :: "nat \<Rightarrow> u32 res"
  td_map :: "nat \<Rightarrow> nat"

type_synonym be_result = "(ttm_dev \<times> vmw_ttm_backend \<times> unit res) option"

definition through_sg :: "vmw_dma_map_mode \<Rightarrow> bool" where
  "through_sg m \<longleftrightarrow> m = vmw_dma_map_bind \<or> m = vmw_dma_map_populate"

definition device_addrs :: "ttm_dev \<Rightarrow> vmw_ttm_backend \<Rightarrow> u64 list" where
  "device_addrs s be = (if through_sg (td_mode s) then map (td_dma s) (be_pages be) else be_pages be)"

definition finish_map :: "vmw_ttm_backend \<Rightarrow> ttm_dev \<Rightarrow> be_result" where
  "finish_map be s = Some (s, be\<lparr>be_vsgt := sg_of (device_addrs s be), be_mapped := True\<rparr>, Inr ())"

definition give_back :: "u64 \<Rightarrow> ttm_dev \<Rightarrow> ttm_dev" where
  "give_back a s = s\<lparr>td_glob := ttm_mem_global_free a (td_glob s)\<rparr>"

text \<open>After the entries were charged: the table, giving back what it did not need, the mapping.\<close>

definition map_sg :: "vmw_ttm_backend \<Rightarrow> ttm_dev \<Rightarrow> be_result" where
  "map_sg be s =
     (let k = td_calls s; s1 = s\<lparr>td_calls := Suc k\<rparr> in
      case td_alloc s k of
        Inl e \<Rightarrow> Some (give_back (be_sg_alloc_size be) s1, be, Inl e)
      | Inr nents \<Rightarrow>
          let over = ttm_round_pot (td_sgl s) * (be_num_pages be - ucast nents);
              (s2, be1) = (if ucast nents < be_num_pages be
                 then (give_back over s1, be\<lparr>be_sg_alloc_size := be_sg_alloc_size be - over\<rparr>) else (s1, be)) in
          if td_map s k = 0 then Some (give_back (be_sg_alloc_size be1) s2, be1, Inl ENOMEM)
          else finish_map be1 s2)"

definition vmw_ttm_map_dma :: "vmw_ttm_backend \<Rightarrow> ttm_dev \<Rightarrow> be_result" where
  "vmw_ttm_map_dma be s =
     (if be_mapped be then Some (s, be, Inr ())
      else if td_mode s = vmw_dma_alloc_coherent then None
      else if through_sg (td_mode s)
      then let sz = ttm_round_pot (td_sgt s) + ttm_round_pot (td_sgl s) * be_num_pages be; be1 = be\<lparr>be_sg_alloc_size := sz\<rparr> in
        (case ttm_mem_global_alloc (td_shrink s) (td_admin s) sz False (td_glob s) of
           None \<Rightarrow> None
         | Some (g, Inl e) \<Rightarrow> Some (s\<lparr>td_glob := g\<rparr>, be1, Inl e)
         | Some (g, Inr _) \<Rightarrow> map_sg be1 (s\<lparr>td_glob := g\<rparr>))
      else finish_map be s)"

definition vmw_ttm_unmap_dma :: "vmw_ttm_backend \<Rightarrow> ttm_dev \<Rightarrow> ttm_dev \<times> vmw_ttm_backend" where
  "vmw_ttm_unmap_dma be s =
     (if \<not> be_mapped be then (s, be)
      else (if through_sg (td_mode s) then give_back (be_sg_alloc_size be) s else s, be\<lparr>be_mapped := False\<rparr>))"

section \<open>Binding\<close>

definition vmw_ttm_populate :: "u64 list \<Rightarrow> vmw_ttm_backend \<Rightarrow> vmw_ttm_backend" where
  "vmw_ttm_populate ps be = be\<lparr>be_pages := ps, be_num_pages := of_nat (length ps)\<rparr>"

definition on_gmr :: "(gmr_dev \<Rightarrow> gmr_dev) \<Rightarrow> ttm_dev \<Rightarrow> ttm_dev" where
  "on_gmr f s = s\<lparr>td_gmr := f (td_gmr s)\<rparr>"

definition on_mob :: "mob_dev \<Rightarrow> ttm_dev \<Rightarrow> ttm_dev" where
  "on_mob m s = on_gmr (\<lambda>g. g\<lparr>gd_mob := m\<rparr>) s"

definition bind_mob :: "vmw_mob \<Rightarrow> vmw_ttm_backend \<Rightarrow> mob_dev \<Rightarrow> ttm_dev \<Rightarrow> be_result" where
  "bind_mob mob be m s =
     (case vmw_mob_bind mob (be_vsgt be) (be_num_pages be) (be_gmr_id be) m of
        None \<Rightarrow> None
      | Some (m1, mob1, r) \<Rightarrow> Some (on_mob m1 s, be\<lparr>be_mob := Some mob1\<rparr>, r))"

definition vmw_ttm_bind :: "unit res \<Rightarrow> mem_type \<Rightarrow> u64 \<Rightarrow> vmw_ttm_backend \<Rightarrow> ttm_dev \<Rightarrow> be_result" where
  "vmw_ttm_bind junk type start be0 s0 =
     (case vmw_ttm_map_dma be0 s0 of
        None \<Rightarrow> None
      | Some (s, be1, Inl e) \<Rightarrow> Some (s, be1, Inl e)
      | Some (s, be1, Inr _) \<Rightarrow>
          let be = be1\<lparr>be_gmr_id := ucast start, be_mem_type := type\<rparr>; m = gd_mob (td_gmr s) in
          (case type of
             VMW_PL_GMR \<Rightarrow>
               (case vmw_gmr_bind junk (be_vsgt be) (be_num_pages be) (be_gmr_id be) (td_gmr s) of
                  None \<Rightarrow> None
                | Some (g, r) \<Rightarrow> Some (s\<lparr>td_gmr := g\<rparr>, be, r))
           | VMW_PL_MOB \<Rightarrow>
               (case be_mob be of
                  Some mob \<Rightarrow> bind_mob mob be m s
                | None \<Rightarrow>
                    (case md_ask m of
                       (m1, Inl _) \<Rightarrow> Some (on_mob m1 s, be, Inl ENOMEM)
                     | (m1, Inr _) \<Rightarrow> bind_mob (vmw_mob_create (be_num_pages be)) be m1 s))
           | _ \<Rightarrow> None))"

definition vmw_ttm_unbind :: "vmw_ttm_backend \<Rightarrow> ttm_dev \<Rightarrow> (ttm_dev \<times> vmw_ttm_backend) option" where
  "vmw_ttm_unbind be s =
     (case (case be_mem_type be of
         VMW_PL_GMR \<Rightarrow> Some (on_gmr (vmw_gmr_unbind (be_gmr_id be)) s)
       | VMW_PL_MOB \<Rightarrow>
           (case be_mob be of
              None \<Rightarrow> None
            | Some mob \<Rightarrow> map_option (\<lambda>m. on_mob m s) (vmw_mob_unbind mob (gd_mob (td_gmr s))))
       | _ \<Rightarrow> None) of
        None \<Rightarrow> None
      | Some s1 \<Rightarrow> Some (if td_mode s1 = vmw_dma_map_bind then vmw_ttm_unmap_dma be s1 else (s1, be)))"

definition vmw_ttm_clear :: "vmw_ttm_backend \<Rightarrow> ttm_dev \<Rightarrow> ttm_dev \<times> vmw_ttm_backend" where
  "vmw_ttm_clear be s =
     (case vmw_ttm_unmap_dma (be\<lparr>be_mob := None\<rparr>) s of
        (s1, be1) \<Rightarrow> (s1, be1\<lparr>be_pages := [], be_num_pages := 0\<rparr>))"

definition vmw_ttm_backend_init :: vmw_ttm_backend where
  "vmw_ttm_backend_init = \<lparr>be_pages = [], be_num_pages = 0, be_gmr_id = 0, be_mob = None, be_mem_type = TTM_PL_SYSTEM,
     be_vsgt = \<lparr>sg_addrs = [], sg_num_regions = 0, sg_num_pages = 0\<rparr>, be_sg_alloc_size = 0, be_mapped = False\<rparr>"

section \<open>The accounting of a backend\<close>

text \<open>What a mapped backend has charged is live.\<close>

definition held_charges :: "vmw_dma_map_mode \<Rightarrow> vmw_ttm_backend \<Rightarrow> charges" where
  "held_charges m be = (if be_mapped be \<and> through_sg m then [(None, be_sg_alloc_size be)] else [])"

definition accounted :: "nat \<Rightarrow> ttm_dev \<Rightarrow> vmw_ttm_backend \<Rightarrow> bool" where
  "accounted A s be \<longleftrightarrow> (\<exists>ds. mem_reach A (td_glob s) ds \<and> set (held_charges (td_mode s) be) \<subseteq> set ds)"

text \<open>What is relied on: the callback only gives charges back, and ends; the tables of the largest buffer
  fit in \<open>A\<close> bytes.\<close>

definition shrinks_well :: "nat \<Rightarrow> shrinker \<Rightarrow> bool" where
  "shrinks_well A sh \<longleftrightarrow> gives_back A sh \<and> (\<exists>m :: ttm_mem_global \<Rightarrow> nat. \<forall>h h1. sh h = (h1, False) \<longrightarrow> m h1 < m h)"

definition table_fits :: "nat \<Rightarrow> ttm_dev \<Rightarrow> vmw_ttm_backend \<Rightarrow> bool" where
  "table_fits A s be \<longleftrightarrow> A < 2 ^ 64 \<and>
     unat (ttm_round_pot (td_sgt s)) + unat (ttm_round_pot (td_sgl s)) * unat (be_num_pages be) \<le> A"

lemma give_back_frame [simp]:
  "td_mode (give_back a s) = td_mode s" "td_gmr (give_back a s) = td_gmr s"
  "device_addrs (give_back a s) be = device_addrs s be" "td_dma (give_back a s) = td_dma s"
  "td_glob (give_back a s) = ttm_mem_global_free a (td_glob s)"
  by (simp_all add: give_back_def device_addrs_def)

lemma device_addrs_frame [simp]:
  "device_addrs (s\<lparr>td_glob := g\<rparr>) be = device_addrs s be" "device_addrs (s\<lparr>td_calls := k\<rparr>) be = device_addrs s be"
  "device_addrs (s\<lparr>td_gmr := x\<rparr>) be = device_addrs s be"
  "device_addrs s (be\<lparr>be_sg_alloc_size := z\<rparr>) = device_addrs s be"
  "device_addrs s (be\<lparr>be_gmr_id := i, be_mem_type := t\<rparr>) = device_addrs s be"
  by (simp_all add: device_addrs_def)

lemma free_live:
  "mem_reach A g ds \<Longrightarrow> (None, a) \<in> set ds \<Longrightarrow> mem_reach A (ttm_mem_global_free a g) (remove1 (None, a) ds)"
  unfolding ttm_mem_global_free_def by (rule mem_reach.free)

text \<open>The table is split into what the entries need and what is given back.\<close>

lemma table_sizes:
  assumes "table_fits A s be" "ucast nents < be_num_pages be"
  defines "over \<equiv> ttm_round_pot (td_sgl s) * (be_num_pages be - ucast nents)"
    and "sz \<equiv> ttm_round_pot (td_sgt s) + ttm_round_pot (td_sgl s) * be_num_pages be"
  shows "unat sz = unat over + unat (sz - over)" "unat sz \<le> A"
proof -
  have p: "unat (ttm_round_pot (td_sgl s)) * unat (be_num_pages be) < 2 ^ 64"
    and t: "unat (ttm_round_pot (td_sgt s)) + unat (ttm_round_pot (td_sgl s)) * unat (be_num_pages be) < 2 ^ 64"
    using assms(1) by (simp_all add: table_fits_def)
  have m: "unat (ttm_round_pot (td_sgl s) * be_num_pages be) = unat (ttm_round_pot (td_sgl s)) * unat (be_num_pages be)"
    using p by (simp add: unat_word_ariths)
  then have sz: "unat sz = unat (ttm_round_pot (td_sgt s)) + unat (ttm_round_pot (td_sgl s)) * unat (be_num_pages be)"
    using t unfolding sz_def by (subst unat_add_nowrap) simp_all
  have d: "unat (be_num_pages be - ucast nents) \<le> unat (be_num_pages be)"
    using assms(2) by (simp add: unat_sub word_less_nat_alt word_le_nat_alt)
  have "unat (ttm_round_pot (td_sgl s)) * unat (be_num_pages be - ucast nents) \<le> unat (ttm_round_pot (td_sgl s)) * unat (be_num_pages be)"
    using d by (rule mult_le_mono2)
  moreover have "unat over \<le> unat (ttm_round_pot (td_sgl s)) * unat (be_num_pages be - ucast nents)"
    unfolding over_def by (simp add: unat_word_ariths)
  ultimately have "unat over \<le> unat sz" using sz by linarith
  then show "unat sz = unat over + unat (sz - over)" by (simp add: unat_sub word_le_nat_alt)
  show "unat sz \<le> A" using assms(1) sz by (simp add: table_fits_def)
qed

lemma map_sg_accounted:
  assumes r: "mem_reach A (td_glob s) ds" "(None, be_sg_alloc_size be) \<in> set ds" and f: "table_fits A s be"
    and sz: "be_sg_alloc_size be = ttm_round_pot (td_sgt s) + ttm_round_pot (td_sgl s) * be_num_pages be"
    and n: "\<not> be_mapped be" and m: "map_sg be s = Some (s1, be1, x)"
  shows "accounted A s1 be1"
proof -
  let ?sz = "be_sg_alloc_size be"
  have failed: "accounted A (give_back a (s\<lparr>td_glob := g, td_calls := k\<rparr>)) b"
    if "mem_reach A g es" "(None, a) \<in> set es" "\<not> be_mapped b" for g es a b k
    using free_live [OF that(1,2)] that(3) by (auto simp: accounted_def held_charges_def)
  show ?thesis
  proof (cases "td_alloc s (td_calls s)")
    case (Inl e)
    with m failed [OF r n, of "Suc (td_calls s)"] show ?thesis by (auto simp: map_sg_def Let_def)
  next
    case (Inr nents)
    define over where "over = ttm_round_pot (td_sgl s) * (be_num_pages be - ucast nents)"
    show ?thesis
    proof (cases "ucast nents < be_num_pages be")
      case False
      with m Inr failed [OF r n, of "Suc (td_calls s)"] r show ?thesis
        by (auto simp: map_sg_def Let_def finish_map_def accounted_def held_charges_def split: if_splits)
    next
      case True
      define es where "es = (None, ?sz - over) # remove1 (None, ?sz) ds"
      have split1: "unat ?sz = unat over + unat (?sz - over)"
        using table_sizes(1) [OF f True] unfolding sz over_def .
      have es: "mem_reach A (ttm_mem_global_free over (td_glob s)) es" "(None, ?sz - over) \<in> set es"
        using free_live [OF mem_reach.split_charge [OF r split1], of over] by (simp_all add: es_def)
      with m Inr True n failed [OF es, of "be\<lparr>be_sg_alloc_size := ?sz - over\<rparr>" "Suc (td_calls s)"] show ?thesis
        by (auto simp: map_sg_def Let_def finish_map_def accounted_def held_charges_def over_def [symmetric] give_back_def split: if_splits)
    qed
  qed
qed

lemma map_dma_accounted:
  assumes a: "accounted A s be" and sh: "shrinks_well A (td_shrink s)" and f: "table_fits A s be"
    and m: "vmw_ttm_map_dma be s = Some (s1, be1, x)"
  shows "accounted A s1 be1"
proof -
  let ?sz = "ttm_round_pot (td_sgt s) + ttm_round_pot (td_sgl s) * be_num_pages be"
  consider "be_mapped be" | "\<not> be_mapped be" "\<not> through_sg (td_mode s)" | "\<not> be_mapped be" "through_sg (td_mode s)" by blast
  then show ?thesis
  proof cases
    case 3
    obtain ds where ds: "mem_reach A (td_glob s) ds" using a by (auto simp: accounted_def)
    obtain g r where g: "ttm_mem_global_alloc (td_shrink s) (td_admin s) ?sz False (td_glob s) = Some (g, r)"
      using m 3 by (auto simp: vmw_ttm_map_dma_def through_sg_def Let_def split: option.splits if_splits)
    have "unat ?sz \<le> A"
      using f by (auto simp: table_fits_def unat_word_ariths intro: le_trans [OF mod_less_eq_dividend] le_trans [OF add_le_mono])
    then obtain es where es: "mem_reach A g es" "r = Inr () \<longrightarrow> (None, ?sz) \<in> set es"
      using alloc_loop_reach [of A "td_shrink s" _ ?sz TTM_MEMORY_ALLOC_RETRIES None "td_admin s" False "td_glob s" g r ds] sh g ds
      unfolding shrinks_well_def ttm_mem_global_alloc_def ttm_mem_global_alloc_zone_def by blast
    show ?thesis
    proof (cases r)
      case (Inl e)
      with m 3 g es(1) show ?thesis
        by (auto simp: vmw_ttm_map_dma_def through_sg_def Let_def accounted_def held_charges_def intro!: exI [of _ es])
    next
      case (Inr u)
      have "map_sg (be\<lparr>be_sg_alloc_size := ?sz\<rparr>) (s\<lparr>td_glob := g\<rparr>) = Some (s1, be1, x)"
        using m 3 g Inr by (auto simp: vmw_ttm_map_dma_def through_sg_def Let_def split: if_splits)
      then show ?thesis
        using map_sg_accounted [of A "s\<lparr>td_glob := g\<rparr>" es "be\<lparr>be_sg_alloc_size := ?sz\<rparr>" s1 be1 x] es Inr f 3
        by (simp add: table_fits_def)
    qed
  qed (use m a in \<open>auto simp: vmw_ttm_map_dma_def finish_map_def accounted_def held_charges_def split: if_splits\<close>)
qed

lemma unmap_accounted:
  assumes "accounted A s be" "vmw_ttm_unmap_dma be s = (s1, be1)"
  shows "accounted A s1 be1"
proof -
  obtain ds where ds: "mem_reach A (td_glob s) ds" "set (held_charges (td_mode s) be) \<subseteq> set ds"
    using assms(1) by (auto simp: accounted_def)
  consider "be_mapped be" "through_sg (td_mode s)" | "\<not> (be_mapped be \<and> through_sg (td_mode s))" by blast
  then show ?thesis
  proof cases
    case 1
    then have "mem_reach A (ttm_mem_global_free (be_sg_alloc_size be) (td_glob s)) (remove1 (None, be_sg_alloc_size be) ds)"
      using ds by (intro free_live) (auto simp: held_charges_def)
    with 1 assms(2) show ?thesis by (auto simp: vmw_ttm_unmap_dma_def accounted_def held_charges_def)
  next
    case 2
    with assms(2) ds show ?thesis
      by (auto simp: vmw_ttm_unmap_dma_def accounted_def held_charges_def intro!: exI [of _ ds] split: if_splits)
  qed
qed

lemma accounted_gmr [simp]: "accounted A (s\<lparr>td_gmr := g\<rparr>) be = accounted A s be"
  by (simp add: accounted_def)

lemma accounted_frame [simp]: "accounted A (on_gmr f s) be = accounted A s be" "accounted A (on_mob m s) be = accounted A s be"
  by (simp_all add: on_mob_def on_gmr_def)

lemma accounted_backend:
  "accounted A s be = accounted A s be1" if "be_mapped be1 = be_mapped be" "be_sg_alloc_size be1 = be_sg_alloc_size be"
  using that by (simp add: accounted_def held_charges_def)

lemma bind_mob_accounted: "accounted A s be \<Longrightarrow> bind_mob mob be m s = Some (s1, be1, x) \<Longrightarrow> accounted A s1 be1"
  using accounted_backend [of be1 be A s] by (auto simp: bind_mob_def accounted_def held_charges_def on_mob_def on_gmr_def split: option.splits)

lemma bind_accounted:
  assumes "accounted A s be" "shrinks_well A (td_shrink s)" "table_fits A s be"
    and b: "vmw_ttm_bind junk type start be s = Some (s1, be1, x)"
  shows "accounted A s1 be1"
proof -
  obtain s2 be2 y where m: "vmw_ttm_map_dma be s = Some (s2, be2, y)"
    using b by (cases "vmw_ttm_map_dma be s") (auto simp: vmw_ttm_bind_def)
  have a: "accounted A s2 be2" by (rule map_dma_accounted [OF assms(1-3) m])
  show ?thesis
  proof (cases y)
    case (Inl e)
    with b m a show ?thesis by (simp add: vmw_ttm_bind_def)
  next
    case (Inr u)
    define be3 where "be3 = be2\<lparr>be_gmr_id := ucast start, be_mem_type := type\<rparr>"
    have a3: "accounted A s2 be3" using a by (simp add: be3_def accounted_def held_charges_def)
    show ?thesis
    proof (cases type)
      case VMW_PL_GMR
      with b m a3 Inr show ?thesis by (auto simp: vmw_ttm_bind_def Let_def be3_def split: option.splits)
    next
      case VMW_PL_MOB
      with b m Inr have "(\<exists>mob m. bind_mob mob be3 m s2 = Some (s1, be1, x)) \<or> (be1 = be3 \<and> (\<exists>m. s1 = on_mob m s2))"
        by (auto simp: vmw_ttm_bind_def Let_def be3_def split: option.splits prod.splits sum.splits)
      with a3 bind_mob_accounted show ?thesis by auto
    qed (use b m Inr in \<open>simp_all add: vmw_ttm_bind_def Let_def\<close>)
  qed
qed

lemma unbind_accounted:
  assumes "accounted A s be" "vmw_ttm_unbind be s = Some (s1, be1)"
  shows "accounted A s1 be1"
proof -
  let ?r = "case be_mem_type be of
         VMW_PL_GMR \<Rightarrow> Some (on_gmr (vmw_gmr_unbind (be_gmr_id be)) s)
       | VMW_PL_MOB \<Rightarrow>
           (case be_mob be of
              None \<Rightarrow> None
            | Some mob \<Rightarrow> map_option (\<lambda>m. on_mob m s) (vmw_mob_unbind mob (gd_mob (td_gmr s))))
       | _ \<Rightarrow> None"
  obtain s2 where s2: "?r = Some s2"
    using assms(2) by (cases ?r) (simp_all add: vmw_ttm_unbind_def)
  then have "accounted A s2 be" using assms(1) by (auto split: mem_type.splits option.splits)
  moreover have "(s1, be1) = (if td_mode s2 = vmw_dma_map_bind then vmw_ttm_unmap_dma be s2 else (s2, be))"
    using assms(2) by (simp add: vmw_ttm_unbind_def s2)
  ultimately show ?thesis using unmap_accounted by (metis prod.inject)
qed

lemma clear_accounted:
  assumes "accounted A s be" "vmw_ttm_clear be s = (s1, be1)"
  shows "accounted A s1 be1"
proof -
  obtain s2 be2 where u: "vmw_ttm_unmap_dma (be\<lparr>be_mob := None\<rparr>) s = (s2, be2)" by fastforce
  have "accounted A s (be\<lparr>be_mob := None\<rparr>)" using assms(1) by (simp add: accounted_def held_charges_def)
  from unmap_accounted [OF this u] assms(2) u show ?thesis by (auto simp: vmw_ttm_clear_def accounted_def held_charges_def)
qed

text \<open>C36: whatever is done to a backend (binding, with its retries after swapping out, its partial charges
  and its failures; unbinding; clearing), the accounting of memory stays in a reachable state in which
  exactly the table of a mapped backend is charged and can be given back; a backend that was cleared
  holds no charge.\<close>

theorem vmw_ttm_backend_accounts:
  assumes "accounted A s be" "shrinks_well A (td_shrink s)" "table_fits A s be"
  shows "(\<forall>junk type start s1 be1 x. vmw_ttm_bind junk type start be s = Some (s1, be1, x) \<longrightarrow> accounted A s1 be1) \<and>
    (\<forall>s1 be1. vmw_ttm_unbind be s = Some (s1, be1) \<longrightarrow> accounted A s1 be1) \<and>
    (\<forall>s1 be1. vmw_ttm_clear be s = (s1, be1) \<longrightarrow> accounted A s1 be1 \<and> held_charges (td_mode s1) be1 = [])"
proof -
  have "held_charges (td_mode s1) be1 = []" if "vmw_ttm_clear be s = (s1, be1)" for s1 be1
    using that by (auto simp: vmw_ttm_clear_def vmw_ttm_unmap_dma_def held_charges_def give_back_def split: if_splits)
  with assms show ?thesis
    by (intro conjI allI impI) (rule bind_accounted unbind_accounted clear_accounted, assumption+)+
qed

section \<open>What the device sees after binding\<close>

definition be_ok :: "ttm_dev \<Rightarrow> vmw_ttm_backend \<Rightarrow> bool" where
  "be_ok s be \<longleftrightarrow> be_num_pages be = of_nat (length (be_pages be)) \<and>
     (be_mapped be \<longrightarrow> be_vsgt be = sg_of (device_addrs s be))"

lemma finish_map_shows:
  "finish_map be s = Some (s1, be1, x) \<Longrightarrow> s1 = s \<and> be1 = be\<lparr>be_vsgt := sg_of (device_addrs s be), be_mapped := True\<rparr> \<and> x = Inr ()"
  by (auto simp: finish_map_def)

lemma map_sg_shows:
  "\<exists>s1 be1 x. map_sg be s = Some (s1, be1, x) \<and> td_gmr s1 = td_gmr s \<and> td_dma s1 = td_dma s \<and> td_mode s1 = td_mode s \<and>
     (x = Inr () \<longrightarrow> be_vsgt be1 = sg_of (device_addrs s be) \<and> be_mapped be1 \<and> be_pages be1 = be_pages be \<and>
       be_num_pages be1 = be_num_pages be \<and> be_mob be1 = be_mob be)"
proof (cases "td_alloc s (td_calls s)")
  case (Inl e)
  then show ?thesis by (auto simp: map_sg_def Let_def)
next
  case (Inr nents)
  then show ?thesis
    by (auto simp: map_sg_def Let_def finish_map_def device_addrs_def)
qed

lemma map_dma_shows:
  assumes ok: "be_ok s be" and sh: "shrinks_well A (td_shrink s)" and m: "td_mode s \<noteq> vmw_dma_alloc_coherent"
  shows "\<exists>s1 be1 x. vmw_ttm_map_dma be s = Some (s1, be1, x) \<and> td_gmr s1 = td_gmr s \<and> td_dma s1 = td_dma s \<and> td_mode s1 = td_mode s \<and>
    (x = Inr () \<longrightarrow> be_vsgt be1 = sg_of (device_addrs s be) \<and> be_mapped be1 \<and> be_pages be1 = be_pages be \<and>
       be_num_pages be1 = be_num_pages be \<and> be_mob be1 = be_mob be)"
proof -
  let ?sz = "ttm_round_pot (td_sgt s) + ttm_round_pot (td_sgl s) * be_num_pages be"
  consider (mapped) "be_mapped be" | (direct) "\<not> be_mapped be" "\<not> through_sg (td_mode s)" | (sg) "\<not> be_mapped be" "through_sg (td_mode s)" by blast
  then show ?thesis
  proof cases
    case mapped
    with ok show ?thesis by (simp add: vmw_ttm_map_dma_def be_ok_def)
  next
    case direct
    with m show ?thesis by (simp add: vmw_ttm_map_dma_def finish_map_def)
  next
    case sg
    obtain g r where g: "ttm_mem_global_alloc (td_shrink s) (td_admin s) ?sz False (td_glob s) = Some (g, r)"
      using sh alloc_loop_ends unfolding shrinks_well_def ttm_mem_global_alloc_def ttm_mem_global_alloc_zone_def
      by (metis surj_pair)
    show ?thesis
    proof (cases r)
      case (Inl e)
      with sg m g show ?thesis by (auto simp: vmw_ttm_map_dma_def Let_def)
    next
      case (Inr u)
      with sg m g map_sg_shows [of "be\<lparr>be_sg_alloc_size := ?sz\<rparr>" "s\<lparr>td_glob := g\<rparr>"] show ?thesis
        by (auto simp: vmw_ttm_map_dma_def Let_def)
    qed
  qed
qed

definition shows_pages :: "ttm_dev \<Rightarrow> vmw_ttm_backend \<Rightarrow> bool" where
  "shows_pages s be \<longleftrightarrow>
     (let ds = device_addrs s be; m = gd_mob (td_gmr s) in
      case be_mem_type be of
        VMW_PL_GMR \<Rightarrow> gmr_holds (td_gmr s) (be_gmr_id be) (map frame ds)
      | VMW_PL_MOB \<Rightarrow> md_cmds m \<noteq> [] \<and>
          (case last (md_cmds m) of
             DefineGBMob i fmt base sz \<Rightarrow> i = be_gmr_id be \<and> sz = of_nat (length ds * PAGE_SIZE) \<and>
               (\<forall>k < length ds. mob_frame (md_mem m) fmt base k = Some (frame (ds ! k)))
           | _ \<Rightarrow> False)
      | _ \<Rightarrow> False)"

lemma bind_mob_shows:
  assumes "be_num_pages be = of_nat (length ds)" "be_vsgt be = sg_of ds" "dma_ok ds" "pages_ok (md_pages m)"
    and "mob_num_pages mob = vmw_mob_calculate_pt_pages (of_nat (length ds))" "table_fits_pages ds m mob"
  shows "\<exists>m1 mob1 x. bind_mob mob be m s = Some (on_mob m1 s, be\<lparr>be_mob := Some mob1\<rparr>, x) \<and>
    (x = Inr () \<longrightarrow> md_cmds m1 \<noteq> [] \<and>
       (case last (md_cmds m1) of
          DefineGBMob i fmt base sz \<Rightarrow> i = be_gmr_id be \<and> sz = of_nat (length ds * PAGE_SIZE) \<and>
            (\<forall>k < length ds. mob_frame (md_mem m1) fmt base k = Some (frame (ds ! k)))
        | _ \<Rightarrow> False))"
proof -
  obtain m1 mob1 x where b: "vmw_mob_bind mob (sg_of ds) (of_nat (length ds)) (be_gmr_id be) m = Some (m1, mob1, x)"
    and c: "x = Inr () \<longrightarrow> (\<exists>fmt base. md_cmds m1 = md_cmds m @ [DefineGBMob (be_gmr_id be) fmt base (of_nat (length ds * PAGE_SIZE))] \<and>
       (\<forall>k < length ds. mob_frame (md_mem m1) fmt base k = Some (frame (ds ! k))))"
    using mob_bind_reaches [OF assms(3-6), of "be_gmr_id be"] by blast
  have "bind_mob mob be m s = Some (on_mob m1 s, be\<lparr>be_mob := Some mob1\<rparr>, x)"
    using b by (simp add: bind_mob_def assms(1,2))
  moreover have "x = Inr () \<longrightarrow> md_cmds m1 \<noteq> [] \<and>
       (case last (md_cmds m1) of
          DefineGBMob i fmt base sz \<Rightarrow> i = be_gmr_id be \<and> sz = of_nat (length ds * PAGE_SIZE) \<and>
            (\<forall>k < length ds. mob_frame (md_mem m1) fmt base k = Some (frame (ds ! k)))
        | _ \<Rightarrow> False)"
    using c by (auto simp del: of_nat_mult)
  ultimately show ?thesis by blast
qed

lemma md_ask_frame: "md_pages (fst (md_ask m)) = md_pages m"
  by (simp add: md_ask_def Let_def)

text \<open>What a bind to a memory of a type relies on.\<close>

definition bindable :: "mem_type \<Rightarrow> ttm_dev \<Rightarrow> vmw_ttm_backend \<Rightarrow> bool" where
  "bindable type s be \<longleftrightarrow>
     (let ds = device_addrs s be; g = td_gmr s; m = gd_mob g in
      case type of
        VMW_PL_GMR \<Rightarrow> fits ds \<and> ds \<noteq> [] \<and> map_ok g \<and> words_ok g
      | VMW_PL_MOB \<Rightarrow> dma_ok ds \<and> pages_ok (md_pages m) \<and>
          (case be_mob be of
             None \<Rightarrow> True
           | Some mob \<Rightarrow> mob_num_pages mob = vmw_mob_calculate_pt_pages (be_num_pages be) \<and> table_fits_pages ds m mob)
      | _ \<Rightarrow> False)"

lemma create_fits: "mob_num_pages (vmw_mob_create n) = vmw_mob_calculate_pt_pages n" "table_fits_pages ds m (vmw_mob_create n)"
  by (simp_all add: vmw_mob_create_def table_fits_pages_def)

lemma bind_shows_gmr:
  assumes m: "vmw_ttm_map_dma be s = Some (s1, be1, Inr u)" "td_gmr s1 = td_gmr s" "td_dma s1 = td_dma s" "td_mode s1 = td_mode s"
    and b: "be_vsgt be1 = sg_of (device_addrs s be)" "be_mapped be1" "be_pages be1 = be_pages be" "be_num_pages be1 = of_nat (length (be_pages be))"
    and g: "bindable VMW_PL_GMR s be"
  shows "\<exists>s1 be1 x. vmw_ttm_bind junk VMW_PL_GMR start be s = Some (s1, be1, x) \<and>
    (x = Inr () \<longrightarrow> be_mapped be1 \<and> be_gmr_id be1 = ucast start \<and> (shows_pages s1 be1 \<or> junk = Inr () \<and> mapping_fails (td_gmr s)))"
proof -
  let ?ds = "device_addrs s be"
  define be2 where "be2 = be1\<lparr>be_gmr_id := ucast start, be_mem_type := VMW_PL_GMR\<rparr>"
  have len: "be_num_pages be2 = of_nat (length ?ds)" "be_vsgt be2 = sg_of ?ds" "be_mapped be2"
    using b by (simp_all add: be2_def device_addrs_def)
  have addrs: "device_addrs (s1\<lparr>td_gmr := y\<rparr>) be2 = ?ds" for y
    using b m(3,4) by (simp add: be2_def device_addrs_def)
  have ds: "fits ?ds" "?ds \<noteq> []" "map_ok (td_gmr s)" "words_ok (td_gmr s)" using g by (simp_all add: bindable_def Let_def)
  obtain g1 r where "vmw_gmr_bind junk (sg_of ?ds) (of_nat (length ?ds)) (ucast start) (td_gmr s) = Some (g1, r)"
    "gmr_bound junk (ucast start) (map frame ?ds) (td_gmr s) g1 r"
    using gmr_bind_cases [OF refl refl ds, of junk "ucast start"] by blast
  with m(1,2) len addrs [of g1] show ?thesis
    by (simp add: vmw_ttm_bind_def Let_def be2_def [symmetric] shows_pages_def gmr_bound_def)
      (auto simp add: be2_def split: sum.splits)
qed

lemma bind_shows_mob:
  assumes m: "vmw_ttm_map_dma be s = Some (s1, be1, Inr u)" "td_gmr s1 = td_gmr s" "td_dma s1 = td_dma s" "td_mode s1 = td_mode s"
    and b: "be_vsgt be1 = sg_of (device_addrs s be)" "be_mapped be1" "be_pages be1 = be_pages be" "be_num_pages be1 = of_nat (length (be_pages be))"
      "be_num_pages be = of_nat (length (be_pages be))" "be_mob be1 = be_mob be"
    and g: "bindable VMW_PL_MOB s be"
  shows "\<exists>s1 be1 x. vmw_ttm_bind junk VMW_PL_MOB start be s = Some (s1, be1, x) \<and>
    (x = Inr () \<longrightarrow> be_mapped be1 \<and> be_gmr_id be1 = ucast start \<and> shows_pages s1 be1)"
proof -
  let ?ds = "device_addrs s be"
  define be2 where "be2 = be1\<lparr>be_gmr_id := ucast start, be_mem_type := VMW_PL_MOB\<rparr>"
  have len: "be_num_pages be2 = of_nat (length ?ds)" "be_vsgt be2 = sg_of ?ds" "be_mapped be2" "be_mob be2 = be_mob be"
    using b by (simp_all add: be2_def device_addrs_def)
  have addrs: "device_addrs (s1\<lparr>td_gmr := y\<rparr>) (be2\<lparr>be_mob := z\<rparr>) = ?ds" for y z
    using b m(3,4) by (simp add: be2_def device_addrs_def)
  have e: "be1\<lparr>be_gmr_id := ucast start, be_mem_type := VMW_PL_MOB\<rparr> = be2" and ty: "be_mem_type be2 = VMW_PL_MOB"
    by (simp_all add: be2_def)
  have ds: "dma_ok ?ds" "pages_ok (md_pages (gd_mob (td_gmr s)))" using g by (simp_all add: bindable_def Let_def)
  have step: "\<exists>s3 be3 x. bind_mob mob be2 m2 s1 = Some (s3, be3, x) \<and>
      (x = Inr () \<longrightarrow> be_mapped be3 \<and> be_gmr_id be3 = ucast start \<and> shows_pages s3 be3)"
    if "mob_num_pages mob = vmw_mob_calculate_pt_pages (of_nat (length ?ds))" "table_fits_pages ?ds m2 mob"
      "pages_ok (md_pages m2)" for mob m2
  proof -
    note mob = that
    obtain m3 mob1 y where 1: "bind_mob mob be2 m2 s1 = Some (on_mob m3 s1, be2\<lparr>be_mob := Some mob1\<rparr>, y)"
      "y = Inr () \<longrightarrow> md_cmds m3 \<noteq> [] \<and>
        (case last (md_cmds m3) of
          DefineGBMob i fmt base sz \<Rightarrow> i = be_gmr_id be2 \<and> sz = of_nat (length ?ds * PAGE_SIZE) \<and>
            (\<forall>k < length ?ds. mob_frame (md_mem m3) fmt base k = Some (frame (?ds ! k)))
        | _ \<Rightarrow> False)"
      using bind_mob_shows [OF len(1,2) ds(1) mob(3,1,2)] by blast
    have "shows_pages (on_mob m3 s1) (be2\<lparr>be_mob := Some mob1\<rparr>)" if "y = Inr ()"
      using 1(2) that ty addrs by (simp add: shows_pages_def Let_def on_mob_def on_gmr_def split: mob_cmd.splits)
    then show ?thesis using 1(1) len(3) by (simp add: be2_def)
  qed
  show ?thesis
  proof (cases "be_mob be")
    case (Some mob)
    then have "mob_num_pages mob = vmw_mob_calculate_pt_pages (of_nat (length ?ds))" "table_fits_pages ?ds (gd_mob (td_gmr s)) mob"
      using g b(5) by (simp_all add: bindable_def Let_def device_addrs_def)
    from step [OF this ds(2)] show ?thesis
      using Some m(1,2) b(6) by (simp add: vmw_ttm_bind_def Let_def e)
  next
    case None
    obtain m2 r where ask: "md_ask (gd_mob (td_gmr s)) = (m2, r)" by fastforce
    have pg: "pages_ok (md_pages m2)" using ds(2) md_ask_frame [of "gd_mob (td_gmr s)"] ask by simp
    show ?thesis
    proof (cases r)
      case (Inl e)
      with None m(1,2) b(6) ask show ?thesis by (simp add: vmw_ttm_bind_def Let_def e)
    next
      case (Inr v)
      then have "vmw_ttm_bind junk VMW_PL_MOB start be s = bind_mob (vmw_mob_create (of_nat (length ?ds))) be2 m2 s1"
        using None m(1,2) b(6) len(1) ask by (simp add: vmw_ttm_bind_def Let_def e)
      then show ?thesis using step [OF create_fits pg] by simp
    qed
  qed
qed

lemma bind_shows:
  assumes ok: "be_ok s be" and sh: "shrinks_well A (td_shrink s)" and m: "td_mode s \<noteq> vmw_dma_alloc_coherent"
    and g: "bindable type s be"
  shows "\<exists>s1 be1 x. vmw_ttm_bind junk type start be s = Some (s1, be1, x) \<and>
    (x = Inr () \<longrightarrow> be_mapped be1 \<and> be_gmr_id be1 = ucast start \<and>
       (shows_pages s1 be1 \<or> type = VMW_PL_GMR \<and> junk = Inr () \<and> mapping_fails (td_gmr s)))"
proof -
  obtain s1 be1 x where m1: "vmw_ttm_map_dma be s = Some (s1, be1, x)" "td_gmr s1 = td_gmr s" "td_dma s1 = td_dma s" "td_mode s1 = td_mode s"
    and b1: "x = Inr () \<longrightarrow> be_vsgt be1 = sg_of (device_addrs s be) \<and> be_mapped be1 \<and> be_pages be1 = be_pages be \<and>
      be_num_pages be1 = be_num_pages be \<and> be_mob be1 = be_mob be"
    using map_dma_shows [OF ok sh m] by blast
  have np: "be_num_pages be = of_nat (length (be_pages be))" using ok by (simp add: be_ok_def)
  show ?thesis
  proof (cases x)
    case (Inl e)
    with m1(1) show ?thesis by (simp add: vmw_ttm_bind_def)
  next
    case (Inr u)
    consider "type = VMW_PL_GMR" | "type = VMW_PL_MOB" using g by (cases type) (simp_all add: bindable_def Let_def)
    then show ?thesis
    proof cases
      case 1
      with bind_shows_gmr [of be s s1 be1 u junk start] m1 b1 Inr np g show ?thesis by simp
    next
      case 2
      with bind_shows_mob [of be s s1 be1 u junk start] m1 b1 Inr np g show ?thesis by auto
    qed
  qed
qed

text \<open>C35: binding a backend runs into no BUG and always returns, and when it succeeds the device sees, under
  the identifier the buffer was given, exactly the pages of the buffer in order, at the addresses the
  mapping mode prescribes: in a guest memory region or, on newer devices, in a memory object, new or bound
  again.  The exception of a guest memory region whose descriptors cannot be mapped, with \<open>junk\<close> as in
  \<open>Gmr.vmw_gmr_bind\<close>, is stated in the conclusion.

  The backend is populated, and one that is mapped has the table of its pages (\<open>be_ok\<close>); the swapping
  callback only gives charges back, and ends (\<open>shrinks_well\<close>); the mode is not the coherent one, which
  \<open>vmw_dma_select_mode\<close> refuses (\<open>select_mode_not_coherent\<close>).  Then what the kind of memory needs
  (\<open>bindable\<close>).  A region: one to \<open>2 ^ 28\<close> pages with 32-bit frames, descriptors mapped apart, the region
  commands so far well formed.  A memory object: at most 262144 aligned pages, distinct pages from the
  allocator, and, when the backend has an object from an earlier bind, one of its size that needs no
  page table or has one that still leads to the pages; otherwise the code hits a BUG (\<open>large_mob_bug\<close>) or
  keeps the old table (\<open>rebind_keeps_table\<close>).\<close>

theorem vmw_ttm_bind_shows_pages:
  assumes "be_ok s be" "shrinks_well A (td_shrink s)" "td_mode s \<noteq> vmw_dma_alloc_coherent" "bindable type s be"
  shows "\<exists>s1 be1 x. vmw_ttm_bind junk type start be s = Some (s1, be1, x) \<and>
    (x = Inr () \<longrightarrow> be_mapped be1 \<and> be_gmr_id be1 = ucast start \<and>
       (shows_pages s1 be1 \<or> type = VMW_PL_GMR \<and> junk = Inr () \<and> mapping_fails (td_gmr s)))"
  by (rule bind_shows [OF assms])

text \<open>A device in use: five of the six pages of a buffer with a table, in a mode with DMA mappings.\<close>

definition small_be :: vmw_ttm_backend where
  "small_be = vmw_ttm_populate three_pages vmw_ttm_backend_init"

definition small_dev :: ttm_dev where
  "small_dev = \<lparr>td_gmr = old_dev, td_glob = start_mem, td_mode = vmw_dma_map_populate, td_admin = False,
     td_shrink = (\<lambda>g. (g, True)), td_sgl = 32, td_sgt = 16, td_dma = (\<lambda>a. a + 0x10000), td_calls = 0,
     td_alloc = (\<lambda>_. Inr 2), td_map = (\<lambda>_. 2)\<rparr>"

lemma small_shrinks: "shrinks_well 65536 (td_shrink small_dev)"
proof -
  have "gives_back 65536 (td_shrink small_dev)" by (auto simp: gives_back_def small_dev_def)
  then show ?thesis by (simp add: shrinks_well_def small_dev_def)
qed

lemma small_pots: "ttm_round_pot 16 = 16" "ttm_round_pot 32 = 32"
  by (simp_all add: ttm_round_pot_def)

lemma small_fits: "table_fits 65536 small_dev small_be"
  by (simp add: table_fits_def small_dev_def small_be_def vmw_ttm_populate_def three_pages_def small_pots)

lemma small_ok: "be_ok small_dev small_be"
  by (simp add: be_ok_def small_be_def vmw_ttm_populate_def vmw_ttm_backend_init_def)

lemma small_addrs: "device_addrs small_dev small_be = [0x15000, 0x16000, 0x19000]"
  by (simp add: device_addrs_def small_dev_def through_sg_def small_be_def vmw_ttm_populate_def three_pages_def)

lemma small_device: "td_mode small_dev \<noteq> vmw_dma_alloc_coherent" "bindable VMW_PL_GMR small_dev small_be" "bindable VMW_PL_MOB small_dev small_be"
proof -
  show "td_mode small_dev \<noteq> vmw_dma_alloc_coherent" by (simp add: small_dev_def)
  have "fits (device_addrs small_dev small_be)" by (simp add: small_addrs fits_def frame_def PAGE_SHIFT_def)
  moreover have "map_ok (td_gmr small_dev)" by (auto simp: map_ok_def small_dev_def old_dev_def frame_def PAGE_SHIFT_def split: if_splits)
  moreover have "words_ok (td_gmr small_dev)" by (auto simp: words_ok_def small_dev_def old_dev_def intro: gmr2_run.idle)
  ultimately show "bindable VMW_PL_GMR small_dev small_be" by (simp add: bindable_def small_addrs)
  have "dma_ok (device_addrs small_dev small_be)"
    by (simp add: small_addrs dma_ok_def page_aligned_def PAGE_SHIFT_def)
  moreover have "pages_ok (md_pages (gd_mob (td_gmr small_dev)))" by (simp add: small_dev_def old_dev_def plain_dev_def plain_pages_ok)
  moreover have "be_mob small_be = None" by (simp add: small_be_def vmw_ttm_populate_def vmw_ttm_backend_init_def)
  ultimately show "bindable VMW_PL_MOB small_dev small_be" by (simp add: bindable_def)
qed

theorem vmw_ttm_bind_shows_pages_witness:
  "(\<exists>s1 be1 x. vmw_ttm_bind (Inl EINVAL) VMW_PL_GMR 7 small_be small_dev = Some (s1, be1, x) \<and>
      (x = Inr () \<longrightarrow> be_mapped be1 \<and> be_gmr_id be1 = ucast (7 :: u64) \<and> shows_pages s1 be1)) \<and>
   (\<exists>s1 be1 x. vmw_ttm_bind (Inl EINVAL) VMW_PL_MOB 7 small_be small_dev = Some (s1, be1, x) \<and>
      (x = Inr () \<longrightarrow> be_mapped be1 \<and> be_gmr_id be1 = ucast (7 :: u64) \<and> shows_pages s1 be1))"
  using vmw_ttm_bind_shows_pages [OF small_ok small_shrinks small_device(1,2), of "Inl EINVAL" 7]
    vmw_ttm_bind_shows_pages [OF small_ok small_shrinks small_device(1,3), of "Inl EINVAL" 7]
  by simp

theorem vmw_ttm_backend_accounts_witness:
  "\<exists>s1 be1 x. vmw_ttm_bind (Inl EINVAL) VMW_PL_GMR 7 small_be small_dev = Some (s1, be1, x) \<and> accounted 65536 s1 be1"
proof -
  have "accounted 65536 small_dev small_be"
    using start_mem_reach by (auto simp: accounted_def small_dev_def held_charges_def small_be_def vmw_ttm_populate_def vmw_ttm_backend_init_def)
  note all = vmw_ttm_backend_accounts [OF this small_shrinks small_fits, THEN conjunct1, rule_format]
  obtain s1 be1 x where "vmw_ttm_bind (Inl EINVAL) VMW_PL_GMR 7 small_be small_dev = Some (s1, be1, x)"
    using bind_shows [OF small_ok small_shrinks small_device(1,2), of "Inl EINVAL" 7] by auto
  with all [OF this] show ?thesis by blast
qed

text \<open>A successful mapping with two entries for three pages charges the table and two entries.\<close>

lemma small_map_charges:
  "map_option (\<lambda>(s, be, r). (map used_mem (zones (td_glob s)), be_sg_alloc_size be, r)) (vmw_ttm_map_dma small_be small_dev)
     = Some ([80], 80, Inr ())"
  by (simp add: vmw_ttm_map_dma_def small_dev_def through_sg_def small_be_def vmw_ttm_populate_def vmw_ttm_backend_init_def
      three_pages_def small_pots ttm_mem_global_alloc_def ttm_mem_global_alloc_zone_def TTM_MEMORY_ALLOC_RETRIES_def
      alloc_loop.simps [of _ 4] ttm_mem_global_reserve_def start_mem_def over_limit_def zone_limit_def new_zone_def
      touched_def charge_def ttm_check_swapping_def map_sg_def give_back_def ttm_mem_global_free_def
      ttm_mem_global_free_zone_def finish_map_def Let_def)

end
