(* ===== verification/Ttm_Object.thy ===== *)
theory Ttm_Object
  imports Prog Drm_Hashtab
begin

text \<open>
  Base objects and the references that the files of clients hold to them, \<open>ttm_object.c\<close>, with the
  PRIME file descriptors that carry an object from one file to another.

  Objects, reference objects, files and DMA buffers are named by numbers; \<open>b_alive\<close>, \<open>r_alive\<close>,
  \<open>f_alive\<close> and \<open>db_alive\<close> say whether the memory of one is in use, and reading one that is not is a
  use after free, the value \<open>None\<close>, as is a BUG.  A reference count that is held by running code is
  not visible in the data: \<open>local_refs\<close> counts those.  Giving back a reference that nobody holds is
  \<open>None\<close> too.

  Each definition up to the section on whole functions is a critical section, or a step on a
  reference count; between two of them other tasks run.
\<close>

section \<open>State\<close>

datatype ttm_ref_type = TTM_REF_USAGE | TTM_REF_SYNCCPU_READ | TTM_REF_SYNCCPU_WRITE

datatype ttm_object_type = ttm_fence_type | ttm_buffer_type | ttm_lock_type | ttm_prime_type | ttm_driver_type nat

text \<open>With the fields of \<open>ttm_prime_object\<close>, which only objects of type \<open>ttm_prime_type\<close> have.\<close>

record ttm_base_object =
  b_alive :: bool
  b_key :: u64
  b_type :: ttm_object_type
  b_shareable :: bool
  b_tfile :: nat
  b_refcount :: int
  pr_real_type :: ttm_object_type
  pr_dma_buf :: "nat option"

record ttm_ref_object =
  r_alive :: bool
  r_key :: u64
  r_kref :: int
  r_type :: ttm_ref_type
  r_obj :: nat
  r_tfile :: nat

record ttm_object_file =
  f_alive :: bool
  f_open :: bool \<comment> \<open>not released by its owner\<close>
  f_list :: "nat list"
  f_hash :: "ttm_ref_type \<Rightarrow> drm_open_hash"
  f_refcount :: int

text \<open>\<open>db_prime\<close> is \<open>priv\<close>, for the DMA buffers that were exported by this device (their \<open>ops\<close> are its own).\<close>

record ttm_dma_buf =
  db_alive :: bool
  db_count :: int
  db_prime :: "nat option"

record ttm_object_device =
  objs :: "nat \<Rightarrow> ttm_base_object"
  robjs :: "nat \<Rightarrow> ttm_ref_object"
  tfiles :: "nat \<Rightarrow> ttm_object_file"
  dbufs :: "nat \<Rightarrow> ttm_dma_buf"
  object_hash :: drm_open_hash
  o_hash :: "u64 \<Rightarrow> nat \<Rightarrow> nat" \<comment> \<open>the hash function of the kernel\<close>
  local_refs :: "nat \<Rightarrow> nat"
  ref_mem :: int \<comment> \<open>reference objects charged to the memory accounting\<close>
  unlisted :: int \<comment> \<open>of them, those not on a list yet, or not any more\<close>
  ref_obj_released :: "(nat \<times> ttm_ref_type) list" \<comment> \<open>calls of \<open>ref_obj_release\<close>\<close>
  dma_mem :: int \<comment> \<open>DMA buffers charged\<close>

type_synonym 'a ob = "(ttm_object_device, 'a) prog"

definition upd_base :: "nat \<Rightarrow> (ttm_base_object \<Rightarrow> ttm_base_object) \<Rightarrow> ttm_object_device \<Rightarrow> ttm_object_device" where
  "upd_base b f s = s\<lparr>objs := (objs s)(b := f (objs s b))\<rparr>"

definition upd_ref :: "nat \<Rightarrow> (ttm_ref_object \<Rightarrow> ttm_ref_object) \<Rightarrow> ttm_object_device \<Rightarrow> ttm_object_device" where
  "upd_ref r f s = s\<lparr>robjs := (robjs s)(r := f (robjs s r))\<rparr>"

definition upd_tfile :: "nat \<Rightarrow> (ttm_object_file \<Rightarrow> ttm_object_file) \<Rightarrow> ttm_object_device \<Rightarrow> ttm_object_device" where
  "upd_tfile f g s = s\<lparr>tfiles := (tfiles s)(f := g (tfiles s f))\<rparr>"

definition upd_dbuf :: "nat \<Rightarrow> (ttm_dma_buf \<Rightarrow> ttm_dma_buf) \<Rightarrow> ttm_object_device \<Rightarrow> ttm_object_device" where
  "upd_dbuf d g s = s\<lparr>dbufs := (dbufs s)(d := g (dbufs s d))\<rparr>"

definition take_local :: "nat \<Rightarrow> ttm_object_device \<Rightarrow> ttm_object_device" where
  "take_local b s = s\<lparr>local_refs := (local_refs s)(b := Suc (local_refs s b))\<rparr>"

definition drop_local :: "nat \<Rightarrow> ttm_object_device \<Rightarrow> ttm_object_device" where
  "drop_local b s = s\<lparr>local_refs := (local_refs s)(b := local_refs s b - 1)\<rparr>"

section \<open>Files and objects\<close>

definition ttm_object_file_unref :: "nat \<Rightarrow> unit ob" where
  "ttm_object_file_unref f = gets (\<lambda>s. if \<not> f_alive (tfiles s f) then crash
     else modify (upd_tfile f (\<lambda>v. v\<lparr>f_refcount := f_refcount v - 1, f_alive := (f_refcount v - 1 \<noteq> 0)\<rparr>)))"

text \<open>The object gets a name of 31 bits in the table of the device; on failure the reference to the file
  is not given back.\<close>

definition new_base :: "nat \<Rightarrow> bool \<Rightarrow> ttm_object_type \<Rightarrow> ttm_object_type \<Rightarrow> u64 \<Rightarrow> ttm_base_object" where
  "new_base f sh ty real k = \<lparr>b_alive = True, b_key = k, b_type = ty, b_shareable = sh, b_tfile = f, b_refcount = 1,
     pr_real_type = real, pr_dma_buf = None\<rparr>"

definition publish_base :: "nat \<Rightarrow> nat \<Rightarrow> bool \<Rightarrow> ttm_object_type \<Rightarrow> ttm_object_type \<Rightarrow> unit ob" where
  "publish_base f b sh ty real =
     andthen (modify (upd_tfile f (\<lambda>v. v\<lparr>f_refcount := f_refcount v + 1\<rparr>)))
       (gets (\<lambda>s. case drm_ht_just_insert_please (o_hash s) (object_hash s) b (of_nat b) 31 0 0 of
            None \<Rightarrow> crash
          | Some (Inl e) \<Rightarrow> fail e
          | Some (Inr (ht, k)) \<Rightarrow> modify (\<lambda>s. take_local b (upd_base b (\<lambda>_. new_base f sh ty real k) (s\<lparr>object_hash := ht\<rparr>)))))"

text \<open>\<open>out_err1\<close>: the name goes away, and the caller frees the object, whoever has looked it up since.\<close>

definition withdraw_base :: "nat \<Rightarrow> unit ob" where
  "withdraw_base b = modify (\<lambda>s. drop_local b (upd_base b (\<lambda>v. v\<lparr>b_alive := False\<rparr>)
     (s\<lparr>object_hash := drm_ht_remove_item (object_hash s) b\<rparr>)))"

text \<open>For a PRIME object \<open>refcount_release\<close> is \<open>ttm_prime_refcount_release\<close>; in the end the owner frees the object.\<close>

definition ttm_prime_refcount_release :: "nat \<Rightarrow> unit ob" where
  "ttm_prime_refcount_release b = gets (\<lambda>s. if pr_dma_buf (objs s b) \<noteq> None then crash else ok ())"

definition ttm_release_base :: "nat \<Rightarrow> unit ob" where
  "ttm_release_base b = gets (\<lambda>s. if \<not> b_alive (objs s b) then crash
     else andthen (modify (\<lambda>s. s\<lparr>object_hash := drm_ht_remove_item (object_hash s) b\<rparr>))
       (andthen (ttm_object_file_unref (b_tfile (objs s b)))
         (andthen (if b_type (objs s b) = ttm_prime_type then ttm_prime_refcount_release b else ok ())
           (modify (upd_base b (\<lambda>v. v\<lparr>b_alive := False\<rparr>))))))"

definition drop_base :: "nat \<Rightarrow> unit ob" where
  "drop_base b = gets (\<lambda>s. if \<not> b_alive (objs s b) \<or> local_refs s b = 0 then crash
     else modify (\<lambda>s. drop_local b (upd_base b (\<lambda>v. v\<lparr>b_refcount := b_refcount v - 1\<rparr>) s)))"

text \<open>\<open>kref_get_unless_zero\<close>\<close>

definition get_base :: "nat \<Rightarrow> nat option ob" where
  "get_base b = gets (\<lambda>s. if \<not> b_alive (objs s b) then crash
     else if b_refcount (objs s b) = 0 then ok None
     else andthen (modify (\<lambda>s. take_local b (upd_base b (\<lambda>v. v\<lparr>b_refcount := b_refcount v + 1\<rparr>) s))) (ok (Some b)))"

definition ttm_base_object_lookup :: "nat \<Rightarrow> u32 \<Rightarrow> nat option ob" where
  "ttm_base_object_lookup f k = gets (\<lambda>s.
     case drm_ht_find_item (o_hash s) (f_hash (tfiles s f) TTM_REF_USAGE) (ucast k) of
       Inl e \<Rightarrow> ok None
     | Inr it \<Rightarrow> get_base (r_obj (robjs s (addr it))))"

definition ttm_base_object_lookup_for_ref :: "u32 \<Rightarrow> nat option ob" where
  "ttm_base_object_lookup_for_ref k = gets (\<lambda>s.
     case drm_ht_find_item (o_hash s) (object_hash s) (ucast k) of
       Inl e \<Rightarrow> ok None
     | Inr it \<Rightarrow> get_base (addr it))"

definition ttm_ref_object_exists :: "nat \<Rightarrow> nat \<Rightarrow> ttm_object_device \<Rightarrow> bool" where
  "ttm_ref_object_exists f b s =
     (case drm_ht_find_item (o_hash s) (f_hash (tfiles s f) TTM_REF_USAGE) (b_key (objs s b)) of
        Inl e \<Rightarrow> False
      | Inr it \<Rightarrow> r_obj (robjs s (addr it)) = b \<and> r_kref (robjs s (addr it)) \<noteq> 0)"

section \<open>References\<close>

definition ref_get :: "nat \<Rightarrow> nat \<Rightarrow> ttm_ref_type \<Rightarrow> bool ob" where
  "ref_get f b t = gets (\<lambda>s. case drm_ht_find_item (o_hash s) (f_hash (tfiles s f) t) (b_key (objs s b)) of
       Inl e \<Rightarrow> ok False
     | Inr it \<Rightarrow> if r_kref (robjs s (addr it)) = 0 then ok False
         else andthen (modify (upd_ref (addr it) (\<lambda>v. v\<lparr>r_kref := r_kref v + 1\<rparr>))) (ok True))"

definition ref_charge :: "int \<Rightarrow> ttm_object_device \<Rightarrow> ttm_object_device" where
  "ref_charge n s = s\<lparr>ref_mem := ref_mem s + n, unlisted := unlisted s + n\<rparr>"

definition ref_insert :: "nat \<Rightarrow> nat \<Rightarrow> ttm_ref_type \<Rightarrow> nat \<Rightarrow> bool ob" where
  "ref_insert f b t r = gets (\<lambda>s. case drm_ht_insert_item (o_hash s) (f_hash (tfiles s f) t) \<lparr>key = b_key (objs s b), addr = r\<rparr> of
       Inl e \<Rightarrow> if e = EINVAL then ok False else crash
     | Inr ht \<Rightarrow> andthen (modify (\<lambda>s.
           upd_tfile f (\<lambda>v. v\<lparr>f_hash := (f_hash v)(t := ht), f_list := f_list v @ [r]\<rparr>)
             (upd_base b (\<lambda>v. v\<lparr>b_refcount := b_refcount v + 1\<rparr>)
               (upd_ref r (\<lambda>_. \<lparr>r_alive = True, r_key = b_key (objs s b), r_kref = 1, r_type = t, r_obj = b, r_tfile = f\<rparr>)
                 (s\<lparr>unlisted := unlisted s - 1\<rparr>))))) (ok True))"

text \<open>The first part of \<open>ttm_ref_object_release\<close>: the reference leaves the table and the list, and its hold on
  the object is now that of the running code.\<close>

definition ref_unlink :: "nat \<Rightarrow> unit ob" where
  "ref_unlink r = gets (\<lambda>s. let v = robjs s r in
     modify (\<lambda>s. upd_tfile (r_tfile v) (\<lambda>w. w\<lparr>f_hash := (f_hash w)(r_type v := drm_ht_remove_item (f_hash w (r_type v)) r),
          f_list := remove1 r (f_list w)\<rparr>)
        (take_local (r_obj v) (upd_ref r (\<lambda>v. v\<lparr>r_alive := False\<rparr>) (s\<lparr>unlisted := unlisted s + 1\<rparr>)))))"

definition ref_callback :: "nat \<Rightarrow> ttm_ref_type \<Rightarrow> unit ob" where
  "ref_callback b t = (if t = TTM_REF_USAGE then ok ()
     else modify (\<lambda>s. s\<lparr>ref_obj_released := ref_obj_released s @ [(b, t)]\<rparr>))"

section \<open>DMA buffers\<close>

definition dma_buf_get :: "nat \<Rightarrow> unit ob" where
  "dma_buf_get d = gets (\<lambda>s. if \<not> db_alive (dbufs s d) \<or> db_count (dbufs s d) = 0 then crash
     else modify (upd_dbuf d (\<lambda>v. v\<lparr>db_count := db_count v + 1\<rparr>)))"

definition dma_drop :: "nat \<Rightarrow> unit ob" where
  "dma_drop d = gets (\<lambda>s. if \<not> db_alive (dbufs s d) \<or> db_count (dbufs s d) = 0 then crash
     else modify (upd_dbuf d (\<lambda>v. v\<lparr>db_count := db_count v - 1\<rparr>)))"

text \<open>The locked part of \<open>ttm_prime_handle_to_fd\<close>: the buffer that is there, unless it is going away, or a
  new one, which takes over the reference to the object.  \<open>mem\<close> and \<open>exp\<close> are what the accounting and
  \<open>dma_buf_export\<close> return.  The result says whether the reference was taken over.\<close>

definition get_dma_buf_unless_doomed :: "nat \<Rightarrow> bool ob" where
  "get_dma_buf_unless_doomed d = gets (\<lambda>s. if \<not> db_alive (dbufs s d) then crash
     else if db_count (dbufs s d) = 0 then ok False
     else andthen (modify (upd_dbuf d (\<lambda>v. v\<lparr>db_count := db_count v + 1\<rparr>))) (ok True))"

definition new_dma_buf :: "nat \<Rightarrow> nat \<Rightarrow> ttm_object_device \<Rightarrow> ttm_object_device" where
  "new_dma_buf b d s = drop_local b (upd_base b (\<lambda>v. v\<lparr>pr_dma_buf := Some d\<rparr>)
     (upd_dbuf d (\<lambda>_. \<lparr>db_alive = True, db_count = 1, db_prime = Some b\<rparr>) (s\<lparr>dma_mem := dma_mem s + 1\<rparr>)))"

definition prime_export :: "nat \<Rightarrow> unit res \<Rightarrow> nat res \<Rightarrow> (nat \<times> bool) ob" where
  "prime_export b mem exp =
     chain (gets (\<lambda>s. case pr_dma_buf (objs s b) of
          None \<Rightarrow> ok None
        | Some d \<Rightarrow> chain (get_dma_buf_unless_doomed d) (\<lambda>got. ok (if got then Some d else None))))
       (\<lambda>old. case old of
          Some d \<Rightarrow> ok (d, False)
        | None \<Rightarrow> chain (outcome mem) (\<lambda>_. chain (outcome exp) (\<lambda>d. andthen (modify (new_dma_buf b d)) (ok (d, True)))))"

text \<open>The first part of \<open>ttm_prime_dmabuf_release\<close>, when the last user of the buffer is gone; its reference to
  the object is now that of the running code.\<close>

definition dma_release :: "nat \<Rightarrow> nat \<Rightarrow> unit ob" where
  "dma_release d b = gets (\<lambda>s. if \<not> b_alive (objs s b) \<or> \<not> f_alive (tfiles s (b_tfile (objs s b))) then crash
     else modify (\<lambda>s. take_local b (upd_base b (\<lambda>v. if pr_dma_buf v = Some d then v\<lparr>pr_dma_buf := None\<rparr> else v)
       (upd_dbuf d (\<lambda>v. v\<lparr>db_alive := False\<rparr>) (s\<lparr>dma_mem := dma_mem s - 1\<rparr>)))))"

section \<open>Whole functions\<close>

definition ttm_base_object_unref :: "nat \<Rightarrow> unit ob" where
  "ttm_base_object_unref b = andthen (drop_base b)
     (gets (\<lambda>s. if b_refcount (objs s b) = 0 then ttm_release_base b else ok ()))"

text \<open>In round \<open>k\<close> of the loop \<open>pool k\<close> is what the memory accounting and \<open>kmalloc\<close> return, and \<open>env k\<close> what other
  tasks do before the reference is inserted.  The result is \<open>*existed\<close>.  Out of fuel is \<open>None\<close>.\<close>

type_synonym rounds = "(nat \<Rightarrow> unit res \<times> nat option) \<times> (nat \<Rightarrow> ttm_object_device \<Rightarrow> ttm_object_device)"

fun ref_add_loop :: "rounds \<Rightarrow> nat \<Rightarrow> nat \<Rightarrow> nat \<Rightarrow> nat \<Rightarrow> ttm_ref_type \<Rightarrow> bool ob" where
  "ref_add_loop rnd 0 k f b t = crash"
| "ref_add_loop rnd (Suc n) k f b t = chain (ref_get f b t) (\<lambda>got. if got then ok True
     else (case fst rnd k of
         (Inl e, _) \<Rightarrow> fail e
       | (Inr _, None) \<Rightarrow> fail ENOMEM
       | (Inr _, Some r) \<Rightarrow> andthen (modify (ref_charge 1)) (andthen (modify (snd rnd k))
           (chain (ref_insert f b t r) (\<lambda>done. if done then ok False
              else andthen (modify (ref_charge (- 1))) (ref_add_loop rnd n (Suc k) f b t))))))"

definition ttm_ref_object_add :: "rounds \<Rightarrow> nat \<Rightarrow> nat \<Rightarrow> nat \<Rightarrow> ttm_ref_type \<Rightarrow> bool ob" where
  "ttm_ref_object_add rnd fuel f b t = gets (\<lambda>s. if \<not> b_alive (objs s b) then crash
     else if b_tfile (objs s b) \<noteq> f \<and> \<not> b_shareable (objs s b) then fail EPERM
     else ref_add_loop rnd fuel 0 f b t)"

definition ttm_base_object_init :: "rounds \<Rightarrow> nat \<Rightarrow> nat \<Rightarrow> nat \<Rightarrow> bool \<Rightarrow> ttm_object_type \<Rightarrow> ttm_object_type \<Rightarrow> unit ob" where
  "ttm_base_object_init rnd fuel f b sh ty real =
     andthen (publish_base f b sh ty real)
       (chain (on_error (\<lambda>e. andthen (withdraw_base b) (fail e)) (ttm_ref_object_add rnd fuel f b TTM_REF_USAGE))
         (\<lambda>_. ttm_base_object_unref b))"

definition ttm_prime_object_init :: "rounds \<Rightarrow> nat \<Rightarrow> nat \<Rightarrow> nat \<Rightarrow> bool \<Rightarrow> ttm_object_type \<Rightarrow> unit ob" where
  "ttm_prime_object_init rnd fuel f b sh ty = ttm_base_object_init rnd fuel f b sh ttm_prime_type ty"

definition ttm_base_object_type :: "ttm_base_object \<Rightarrow> ttm_object_type" where
  "ttm_base_object_type v = (if b_type v = ttm_prime_type then pr_real_type v else b_type v)"

definition ttm_ref_object_release :: "nat \<Rightarrow> unit ob" where
  "ttm_ref_object_release r = gets (\<lambda>s. let v = robjs s r in
     andthen (ref_unlink r)
       (andthen (ref_callback (r_obj v) (r_type v))
         (andthen (ttm_base_object_unref (r_obj v)) (modify (ref_charge (- 1))))))"

definition ref_put :: "nat \<Rightarrow> unit ob" where
  "ref_put r = andthen (modify (upd_ref r (\<lambda>v. v\<lparr>r_kref := r_kref v - 1\<rparr>)))
     (gets (\<lambda>s. if r_kref (robjs s r) = 0 then ttm_ref_object_release r else ok ()))"

definition ttm_ref_object_base_unref :: "nat \<Rightarrow> u64 \<Rightarrow> ttm_ref_type \<Rightarrow> unit ob" where
  "ttm_ref_object_base_unref f k t = gets (\<lambda>s. case drm_ht_find_item (o_hash s) (f_hash (tfiles s f) t) k of
       Inl e \<Rightarrow> fail EINVAL
     | Inr it \<Rightarrow> ref_put (addr it))"

text \<open>The value \<open>None\<close> of the loop is also that it does not end.\<close>

partial_function (option) release_refs :: "nat \<Rightarrow> ttm_object_device \<Rightarrow> (ttm_object_device \<times> unit res) option" where
  "release_refs f s = (case f_list (tfiles s f) of
       [] \<Rightarrow> Some (s, Inr ())
     | r # rs \<Rightarrow> (case ttm_ref_object_release r s of None \<Rightarrow> None | Some (s1, x) \<Rightarrow> release_refs f s1))"

definition close_file :: "nat \<Rightarrow> unit ob" where
  "close_file f = andthen (modify (upd_tfile f (\<lambda>v. v\<lparr>f_hash := (\<lambda>t. drm_ht_remove (f_hash v t)), f_open := False\<rparr>)))
     (ttm_object_file_unref f)"

definition ttm_object_file_release :: "nat \<Rightarrow> unit ob" where
  "ttm_object_file_release f = andthen (release_refs f) (close_file f)"

text \<open>\<open>k\<close> is the memory for the file, and \<open>oc\<close> the allocations for its tables.\<close>

definition ttm_object_file_init :: "nat option \<Rightarrow> nat \<Rightarrow> (ttm_ref_type \<Rightarrow> bool \<times> bool) \<Rightarrow> nat option ob" where
  "ttm_object_file_init k order oc =
     (case k of
        None \<Rightarrow> ok None
      | Some f \<Rightarrow> let ht = (\<lambda>t. drm_ht_create order (fst (oc t)) (snd (oc t))) in
          (case (ht TTM_REF_USAGE, ht TTM_REF_SYNCCPU_READ, ht TTM_REF_SYNCCPU_WRITE) of
             (Inr u, Inr r, Inr w) \<Rightarrow> andthen (modify (upd_tfile f (\<lambda>_. \<lparr>f_alive = True, f_open = True, f_list = [],
                f_hash = (\<lambda>t. case t of TTM_REF_USAGE \<Rightarrow> u | TTM_REF_SYNCCPU_READ \<Rightarrow> r | TTM_REF_SYNCCPU_WRITE \<Rightarrow> w), f_refcount = 1\<rparr>)))
                (ok (Some f))
           | _ \<Rightarrow> ok None))"

definition no_base :: ttm_base_object where
  "no_base = \<lparr>b_alive = False, b_key = 0, b_type = ttm_buffer_type, b_shareable = False, b_tfile = 0, b_refcount = 0,
     pr_real_type = ttm_buffer_type, pr_dma_buf = None\<rparr>"

definition ttm_object_device_init :: "bool \<Rightarrow> (u64 \<Rightarrow> nat \<Rightarrow> nat) \<Rightarrow> nat \<Rightarrow> bool \<Rightarrow> bool \<Rightarrow> ttm_object_device option" where
  "ttm_object_device_init km hash order kc vm =
     (if \<not> km then None else case drm_ht_create order kc vm of
        Inl e \<Rightarrow> None
      | Inr ht \<Rightarrow> Some \<lparr>objs = (\<lambda>_. no_base),
          robjs = (\<lambda>_. \<lparr>r_alive = False, r_key = 0, r_kref = 0, r_type = TTM_REF_USAGE, r_obj = 0, r_tfile = 0\<rparr>),
          tfiles = (\<lambda>_. \<lparr>f_alive = False, f_open = False, f_list = [], f_hash = (\<lambda>_. ht), f_refcount = 0\<rparr>),
          dbufs = (\<lambda>_. \<lparr>db_alive = False, db_count = 0, db_prime = None\<rparr>), object_hash = ht, o_hash = hash,
          local_refs = (\<lambda>_. 0), ref_mem = 0, unlisted = 0, ref_obj_released = [], dma_mem = 0\<rparr>)"

definition ttm_object_device_release :: "ttm_object_device \<Rightarrow> ttm_object_device" where
  "ttm_object_device_release s = s\<lparr>object_hash := drm_ht_remove (object_hash s)\<rparr>"

definition ttm_prime_dmabuf_release :: "nat \<Rightarrow> nat \<Rightarrow> unit ob" where
  "ttm_prime_dmabuf_release d b = andthen (dma_release d b) (ttm_base_object_unref b)"

text \<open>The last \<open>dma_buf_put\<close> calls the release method of the device that exported the buffer.\<close>

definition dma_buf_put :: "nat \<Rightarrow> unit ob" where
  "dma_buf_put d = andthen (dma_drop d) (gets (\<lambda>s. if db_count (dbufs s d) \<noteq> 0 then ok ()
     else (case db_prime (dbufs s d) of
             None \<Rightarrow> modify (upd_dbuf d (\<lambda>v. v\<lparr>db_alive := False\<rparr>))
           | Some b \<Rightarrow> ttm_prime_dmabuf_release d b)))"

text \<open>\<open>fd\<close> is the DMA buffer behind the file descriptor.  One that is not ours is not put.\<close>

definition ttm_prime_fd_to_handle :: "rounds \<Rightarrow> nat \<Rightarrow> nat \<Rightarrow> nat res \<Rightarrow> u32 ob" where
  "ttm_prime_fd_to_handle rnd fuel f fd = chain (outcome fd) (\<lambda>d. andthen (dma_buf_get d)
     (gets (\<lambda>s. case db_prime (dbufs s d) of
         None \<Rightarrow> fail ENOSYS
       | Some b \<Rightarrow> chain (on_error (\<lambda>e. andthen (dma_buf_put d) (fail e)) (ttm_ref_object_add rnd fuel f b TTM_REF_USAGE))
           (\<lambda>_. andthen (dma_buf_put d) (ok (ucast (b_key (objs s b))))))))"

definition put_and_fail :: "nat \<Rightarrow> errno \<Rightarrow> 'a ob" where
  "put_and_fail b e = andthen (ttm_base_object_unref b) (fail e)"

text \<open>\<open>intr\<close>, \<open>mem\<close>, \<open>exp\<close> and \<open>fd\<close> are what the mutex, the accounting, \<open>dma_buf_export\<close> and \<open>dma_buf_fd\<close> return.\<close>

definition ttm_prime_handle_to_fd :: "nat \<Rightarrow> u32 \<Rightarrow> unit res \<Rightarrow> unit res \<Rightarrow> nat res \<Rightarrow> nat res \<Rightarrow> nat ob" where
  "ttm_prime_handle_to_fd f handle intr mem exp fd = chain (ttm_base_object_lookup f handle) (\<lambda>found. case found of
       None \<Rightarrow> fail ENOENT
     | Some b \<Rightarrow> gets (\<lambda>s.
         if b_type (objs s b) \<noteq> ttm_prime_type then put_and_fail b ENOENT
         else if \<not> b_shareable (objs s b) then put_and_fail b EPERM
         else chain (on_error (\<lambda>_. put_and_fail b ERESTARTSYS) (outcome intr))
           (\<lambda>_. chain (on_error (put_and_fail b) (prime_export b mem exp))
             (\<lambda>(d, moved). andthen (case fd of Inl e \<Rightarrow> dma_buf_put d | Inr n \<Rightarrow> ok ())
               (andthen (if moved then ok () else ttm_base_object_unref b) (outcome fd))))))"

end
