(* ===== verification/Ttm_Object_Inv.thy ===== *)
theory Ttm_Object_Inv
  imports Ttm_Object
begin

text \<open>
  What the sections of \<open>Ttm_Object\<close> keep, whatever their order: the count of an object is the number of
  those who hold it, the tables of files and of the device name exactly what is alive, and a file has
  references only to objects it made or that may be shared.
\<close>

section \<open>Invariant\<close>

definition refs_of :: "ttm_object_device \<Rightarrow> nat \<Rightarrow> nat set" where
  "refs_of s b = {r. r_alive (robjs s r) \<and> r_obj (robjs s r) = b}"

definition bufs_of :: "ttm_object_device \<Rightarrow> nat \<Rightarrow> nat set" where
  "bufs_of s b = {d. db_alive (dbufs s d) \<and> db_prime (dbufs s d) = Some b}"

definition bases_of :: "ttm_object_device \<Rightarrow> nat \<Rightarrow> nat set" where
  "bases_of s f = {b. b_alive (objs s b) \<and> b_tfile (objs s b) = f}"

definition finite_ok :: "ttm_object_device \<Rightarrow> bool" where
  "finite_ok s \<longleftrightarrow> finite {b. b_alive (objs s b)} \<and> finite {r. r_alive (robjs s r)} \<and> finite {d. db_alive (dbufs s d)}"

definition names_ok :: "ttm_object_device \<Rightarrow> bool" where
  "names_ok s \<longleftrightarrow> drm_ht_ok (o_hash s) (object_hash s) \<and>
     (\<forall>k b. ht_map (o_hash s) (object_hash s) k = Some b \<longleftrightarrow> b_alive (objs s b) \<and> b_key (objs s b) = k)"

definition table_ok :: "ttm_object_device \<Rightarrow> nat \<Rightarrow> ttm_ref_type \<Rightarrow> bool" where
  "table_ok s f t \<longleftrightarrow> f_open (tfiles s f) \<longrightarrow>
     drm_ht_ok (o_hash s) (f_hash (tfiles s f) t) \<and>
     (\<forall>k r. ht_map (o_hash s) (f_hash (tfiles s f) t) k = Some r \<longleftrightarrow>
        r_alive (robjs s r) \<and> r_tfile (robjs s r) = f \<and> r_type (robjs s r) = t \<and> r_key (robjs s r) = k)"

definition list_ok :: "ttm_object_device \<Rightarrow> nat \<Rightarrow> bool" where
  "list_ok s f \<longleftrightarrow> distinct (f_list (tfiles s f)) \<and> set (f_list (tfiles s f)) = {r. r_alive (robjs s r) \<and> r_tfile (robjs s r) = f}"

definition may_use :: "ttm_object_device \<Rightarrow> nat \<Rightarrow> nat \<Rightarrow> bool" where
  "may_use s f b \<longleftrightarrow> b_tfile (objs s b) = f \<or> b_shareable (objs s b)"

definition ref_ok :: "ttm_object_device \<Rightarrow> nat \<Rightarrow> bool" where
  "ref_ok s r \<longleftrightarrow> (let v = robjs s r in r_alive v \<longrightarrow> 0 < r_kref v \<and> b_alive (objs s (r_obj v)) \<and>
     r_key v = b_key (objs s (r_obj v)) \<and> may_use s (r_tfile v) (r_obj v) \<and> f_open (tfiles s (r_tfile v)))"

definition count_ok :: "ttm_object_device \<Rightarrow> nat \<Rightarrow> bool" where
  "count_ok s b \<longleftrightarrow> (if b_alive (objs s b)
     then b_refcount (objs s b) = int (local_refs s b + card (refs_of s b) + card (bufs_of s b)) \<and> f_alive (tfiles s (b_tfile (objs s b)))
     else local_refs s b = 0 \<and> bufs_of s b = {})"

definition prime_ok :: "ttm_object_device \<Rightarrow> nat \<Rightarrow> bool" where
  "prime_ok s b \<longleftrightarrow> (b_alive (objs s b) \<longrightarrow> (\<forall>d. pr_dma_buf (objs s b) = Some d \<longrightarrow> d \<in> bufs_of s b))"

definition file_ok :: "ttm_object_device \<Rightarrow> nat \<Rightarrow> bool" where
  "file_ok s f \<longleftrightarrow> (let v = tfiles s f in (f_open v \<longrightarrow> f_alive v) \<and>
     (f_alive v \<longrightarrow> (if f_open v then 1 else 0) + int (card (bases_of s f)) \<le> f_refcount v))"

definition charges_ok :: "ttm_object_device \<Rightarrow> bool" where
  "charges_ok s \<longleftrightarrow> ref_mem s = int (card {r. r_alive (robjs s r)}) + unlisted s \<and>
     dma_mem s = int (card {d. db_alive (dbufs s d) \<and> db_prime (dbufs s d) \<noteq> None}) \<and>
     (\<forall>d. db_alive (dbufs s d) \<longrightarrow> 0 \<le> db_count (dbufs s d))"

definition obj_inv :: "ttm_object_device \<Rightarrow> bool" where
  "obj_inv s \<longleftrightarrow> finite_ok s \<and> names_ok s \<and> (\<forall>f t. table_ok s f t) \<and> (\<forall>f. list_ok s f) \<and> (\<forall>r. ref_ok s r) \<and>
     (\<forall>b. count_ok s b) \<and> (\<forall>b. prime_ok s b) \<and> (\<forall>f. file_ok s f) \<and> charges_ok s"

lemma obj_invD:
  assumes "obj_inv s"
  shows "finite_ok s" "names_ok s" "table_ok s f t" "list_ok s f" "ref_ok s r" "count_ok s b" "prime_ok s b" "file_ok s f" "charges_ok s"
  using assms by (simp_all add: obj_inv_def)

named_theorems ob_simps \<comment> \<open>the fields of an updated device\<close>

lemma upd_fields [ob_simps]:
  "objs (upd_base b g s) = (objs s)(b := g (objs s b))" "robjs (upd_base b g s) = robjs s" "tfiles (upd_base b g s) = tfiles s"
  "dbufs (upd_base b g s) = dbufs s" "object_hash (upd_base b g s) = object_hash s" "o_hash (upd_base b g s) = o_hash s"
  "local_refs (upd_base b g s) = local_refs s" "ref_mem (upd_base b g s) = ref_mem s" "unlisted (upd_base b g s) = unlisted s" "dma_mem (upd_base b g s) = dma_mem s"
  by (simp_all add: upd_base_def)

lemma upd_ref_fields [ob_simps]:
  "objs (upd_ref r h s) = objs s" "robjs (upd_ref r h s) = (robjs s)(r := h (robjs s r))" "tfiles (upd_ref r h s) = tfiles s"
  "dbufs (upd_ref r h s) = dbufs s" "object_hash (upd_ref r h s) = object_hash s" "o_hash (upd_ref r h s) = o_hash s"
  "local_refs (upd_ref r h s) = local_refs s" "ref_mem (upd_ref r h s) = ref_mem s" "unlisted (upd_ref r h s) = unlisted s" "dma_mem (upd_ref r h s) = dma_mem s"
  by (simp_all add: upd_ref_def)

lemma upd_tfile_fields [ob_simps]:
  "objs (upd_tfile f i s) = objs s" "robjs (upd_tfile f i s) = robjs s" "tfiles (upd_tfile f i s) = (tfiles s)(f := i (tfiles s f))"
  "dbufs (upd_tfile f i s) = dbufs s" "object_hash (upd_tfile f i s) = object_hash s" "o_hash (upd_tfile f i s) = o_hash s"
  "local_refs (upd_tfile f i s) = local_refs s" "ref_mem (upd_tfile f i s) = ref_mem s" "unlisted (upd_tfile f i s) = unlisted s" "dma_mem (upd_tfile f i s) = dma_mem s"
  by (simp_all add: upd_tfile_def)

lemma upd_dbuf_fields [ob_simps]:
  "objs (upd_dbuf d j s) = objs s" "robjs (upd_dbuf d j s) = robjs s" "tfiles (upd_dbuf d j s) = tfiles s"
  "dbufs (upd_dbuf d j s) = (dbufs s)(d := j (dbufs s d))" "object_hash (upd_dbuf d j s) = object_hash s" "o_hash (upd_dbuf d j s) = o_hash s"
  "local_refs (upd_dbuf d j s) = local_refs s" "ref_mem (upd_dbuf d j s) = ref_mem s" "unlisted (upd_dbuf d j s) = unlisted s" "dma_mem (upd_dbuf d j s) = dma_mem s"
  by (simp_all add: upd_dbuf_def)

lemma local_fields [ob_simps]:
  "objs (take_local b s) = objs s" "robjs (take_local b s) = robjs s" "tfiles (take_local b s) = tfiles s" "dbufs (take_local b s) = dbufs s"
  "object_hash (take_local b s) = object_hash s" "o_hash (take_local b s) = o_hash s" "ref_mem (take_local b s) = ref_mem s"
  "unlisted (take_local b s) = unlisted s" "dma_mem (take_local b s) = dma_mem s" "local_refs (take_local b s) = (local_refs s)(b := Suc (local_refs s b))"
  "objs (drop_local b s) = objs s" "robjs (drop_local b s) = robjs s" "tfiles (drop_local b s) = tfiles s" "dbufs (drop_local b s) = dbufs s"
  "object_hash (drop_local b s) = object_hash s" "o_hash (drop_local b s) = o_hash s" "ref_mem (drop_local b s) = ref_mem s"
  "unlisted (drop_local b s) = unlisted s" "dma_mem (drop_local b s) = dma_mem s" "local_refs (drop_local b s) = (local_refs s)(b := local_refs s b - 1)"
  by (simp_all add: take_local_def drop_local_def)

text \<open>A step leaves the parts of the invariant alone that read none of the fields it changes.\<close>

lemma names_cong:
  assumes "names_ok s" "o_hash s' = o_hash s" "object_hash s' = object_hash s"
    "\<And>b. b_alive (objs s' b) = b_alive (objs s b)" "\<And>b. b_key (objs s' b) = b_key (objs s b)"
  shows "names_ok s'"
  using assms by (simp add: names_ok_def)

lemma table_cong:
  assumes "table_ok s f t" "o_hash s' = o_hash s" "f_hash (tfiles s' f) t = f_hash (tfiles s f) t" "f_open (tfiles s' f) = f_open (tfiles s f)"
    "\<And>r. r_alive (robjs s' r) = r_alive (robjs s r)" "\<And>r. r_tfile (robjs s' r) = r_tfile (robjs s r)"
    "\<And>r. r_type (robjs s' r) = r_type (robjs s r)" "\<And>r. r_key (robjs s' r) = r_key (robjs s r)"
  shows "table_ok s' f t"
  using assms by (simp add: table_ok_def)

lemma refs_of_cong: "robjs s' = robjs s \<Longrightarrow> refs_of s' b = refs_of s b"
  by (simp add: refs_of_def)

lemma bufs_of_cong: "(\<And>d. db_alive (dbufs s' d) = db_alive (dbufs s d) \<and> db_prime (dbufs s' d) = db_prime (dbufs s d)) \<Longrightarrow> bufs_of s' b = bufs_of s b"
  by (simp add: bufs_of_def)

lemma finite_refs: "finite_ok s \<Longrightarrow> finite (refs_of s b)" "finite_ok s \<Longrightarrow> finite (bufs_of s b)" "finite_ok s \<Longrightarrow> finite (bases_of s f)"
  by (auto simp: finite_ok_def refs_of_def bufs_of_def bases_of_def elim: rev_finite_subset)

lemma inv_count:
  assumes "obj_inv s" "b_alive (objs s b)"
    "objs s' = (objs s)(b := (objs s b)\<lparr>b_refcount := n\<rparr>)" "local_refs s' = (local_refs s)(b := k)"
    "n = int (k + card (refs_of s b) + card (bufs_of s b))"
    "robjs s' = robjs s" "tfiles s' = tfiles s" "dbufs s' = dbufs s" "object_hash s' = object_hash s" "o_hash s' = o_hash s"
    "ref_mem s' = ref_mem s" "unlisted s' = unlisted s" "dma_mem s' = dma_mem s"
  shows "obj_inv s'"
proof -
  have o: "b_alive (objs s' q) = b_alive (objs s q)" "b_key (objs s' q) = b_key (objs s q)" "b_tfile (objs s' q) = b_tfile (objs s q)"
    "b_shareable (objs s' q) = b_shareable (objs s q)" "pr_dma_buf (objs s' q) = pr_dma_buf (objs s q)" for q
    using assms(3) by simp_all
  have c: "refs_of s' q = refs_of s q" "bufs_of s' q = bufs_of s q" "bases_of s' q = bases_of s q" for q
    by (simp_all add: refs_of_def bufs_of_def bases_of_def o assms(6,8))
  show ?thesis
    unfolding obj_inv_def
  proof (intro conjI allI)
    show "finite_ok s'" using obj_invD(1) [OF assms(1)] by (simp add: finite_ok_def o assms(6,8))
    show "names_ok s'" by (rule names_cong [OF obj_invD(2) [OF assms(1)]]) (simp_all add: o assms(9,10))
    show "table_ok s' f t" for f t by (rule table_cong [OF obj_invD(3) [OF assms(1)]]) (simp_all add: assms(6,7,10))
    show "list_ok s' f" for f using obj_invD(4) [OF assms(1), of f] by (simp add: list_ok_def assms(6,7))
    show "ref_ok s' r" for r using obj_invD(5) [OF assms(1), of r] by (simp add: ref_ok_def may_use_def Let_def o assms(6,7))
    show "count_ok s' q" for q
      using obj_invD(6) [OF assms(1), of q] assms(2-5) by (cases "q = b") (simp_all add: count_ok_def o c assms(7))
    show "prime_ok s' q" for q using obj_invD(7) [OF assms(1), of q] by (simp add: prime_ok_def o c)
    show "file_ok s' f" for f using obj_invD(8) [OF assms(1), of f] by (simp add: file_ok_def o c assms(7))
    show "charges_ok s'" using obj_invD(9) [OF assms(1)] by (simp add: charges_ok_def assms(6,8,11-13))
  qed
qed

lemma count_alive:
  assumes "obj_inv s" "b_alive (objs s b)"
  shows "b_refcount (objs s b) = int (local_refs s b + card (refs_of s b) + card (bufs_of s b))" "f_alive (tfiles s (b_tfile (objs s b)))"
  using obj_invD(6) [OF assms(1), of b] assms(2) by (simp_all add: count_ok_def)

lemma count_zero:
  assumes "obj_inv s" "b_alive (objs s b)"
  shows "b_refcount (objs s b) = 0 \<longleftrightarrow> local_refs s b = 0 \<and> refs_of s b = {} \<and> bufs_of s b = {}"
proof -
  have "b_refcount (objs s b) = 0 \<longleftrightarrow> local_refs s b + card (refs_of s b) + card (bufs_of s b) = 0"
    unfolding count_alive(1) [OF assms] of_nat_eq_0_iff ..
  then show ?thesis using finite_refs(1,2) [OF obj_invD(1) [OF assms(1)], of b] by simp
qed

section \<open>Counts of objects\<close>

lemma returns_same: "m s = m' s \<Longrightarrow> returns m' s Q \<Longrightarrow> returns m s Q"
  by (simp add: returns_def)

text \<open>What is left alone by the steps on the counts of objects.\<close>

definition counted :: "ttm_object_device \<Rightarrow> ttm_object_device \<Rightarrow> bool" where
  "counted s s' \<longleftrightarrow> robjs s' = robjs s \<and> tfiles s' = tfiles s \<and> dbufs s' = dbufs s \<and> o_hash s' = o_hash s \<and>
     (\<forall>b. b_alive (objs s' b) = b_alive (objs s b) \<and> b_key (objs s' b) = b_key (objs s b) \<and> b_type (objs s' b) = b_type (objs s b) \<and>
        b_tfile (objs s' b) = b_tfile (objs s b) \<and> b_shareable (objs s' b) = b_shareable (objs s b) \<and> pr_dma_buf (objs s' b) = pr_dma_buf (objs s b))"

lemma drop_base_ok:
  assumes "obj_inv s" "b_alive (objs s b)" "0 < local_refs s b"
  shows "returns (drop_base b) s (\<lambda>s' x. x = Inr () \<and> obj_inv s' \<and> counted s s' \<and> local_refs s' = (local_refs s)(b := local_refs s b - 1))"
proof -
  let ?s = "drop_local b (upd_base b (\<lambda>v. v\<lparr>b_refcount := b_refcount v - 1\<rparr>) s)"
  have "obj_inv ?s"
    by (rule inv_count [OF assms(1,2), where n = "b_refcount (objs s b) - 1" and k = "local_refs s b - 1"])
      (use count_alive(1) [OF assms(1,2)] assms(3) in \<open>simp_all add: ob_simps of_nat_diff\<close>)
  then show ?thesis using assms by (simp add: drop_base_def returns_simps ob_simps counted_def)
qed

lemma get_base_ok:
  assumes "obj_inv s" "b_alive (objs s b)"
  shows "returns (get_base b) s (\<lambda>s' x. obj_inv s' \<and> counted s s' \<and>
    (if b_refcount (objs s b) = 0 then s' = s \<and> x = Inr None
     else x = Inr (Some b) \<and> local_refs s' = (local_refs s)(b := Suc (local_refs s b))))"
proof -
  let ?s = "take_local b (upd_base b (\<lambda>v. v\<lparr>b_refcount := b_refcount v + 1\<rparr>) s)"
  have "obj_inv ?s"
    by (rule inv_count [OF assms(1,2), where n = "b_refcount (objs s b) + 1" and k = "Suc (local_refs s b)"])
      (use count_alive(1) [OF assms(1,2)] in \<open>simp_all add: ob_simps\<close>)
  then show ?thesis using assms by (simp add: get_base_def returns_simps ob_simps counted_def)
qed

lemma lookup_ok:
  assumes "obj_inv s" "f_open (tfiles s f)"
  shows "returns (ttm_base_object_lookup f k) s (\<lambda>s' x. obj_inv s' \<and> counted s s' \<and> (case x of
      Inl e \<Rightarrow> False
    | Inr None \<Rightarrow> s' = s \<and> (\<forall>r. r_alive (robjs s r) \<and> r_tfile (robjs s r) = f \<and> r_type (robjs s r) = TTM_REF_USAGE \<longrightarrow> r_key (robjs s r) \<noteq> ucast k)
    | Inr (Some b) \<Rightarrow> local_refs s' = (local_refs s)(b := Suc (local_refs s b)) \<and> b_alive (objs s b) \<and> b_key (objs s b) = ucast k \<and>
        may_use s f b \<and> (\<exists>r. r \<in> refs_of s b \<and> r_tfile (robjs s r) = f \<and> r_type (robjs s r) = TTM_REF_USAGE)))"
proof -
  let ?h = "f_hash (tfiles s f) TTM_REF_USAGE"
  have h: "drm_ht_ok (o_hash s) ?h" "\<And>k r. ht_map (o_hash s) ?h k = Some r \<longleftrightarrow>
      r_alive (robjs s r) \<and> r_tfile (robjs s r) = f \<and> r_type (robjs s r) = TTM_REF_USAGE \<and> r_key (robjs s r) = k"
    using obj_invD(3) [OF assms(1), of f TTM_REF_USAGE] assms(2) by (simp_all add: table_ok_def)
  show ?thesis
  proof (cases "ht_map (o_hash s) ?h (ucast k)")
    case None
    then have "r_key (robjs s r) \<noteq> ucast k" if "r_alive (robjs s r)" "r_tfile (robjs s r) = f" "r_type (robjs s r) = TTM_REF_USAGE" for r
      using h(2) [of "ucast k" r] that by auto
    then show ?thesis using None assms(1)
      by (auto simp: ttm_base_object_lookup_def returns_simps drm_ht.find_law [OF h(1)] counted_def)
  next
    case (Some r)
    let ?b = "r_obj (robjs s r)"
    have r: "r_alive (robjs s r)" "r_tfile (robjs s r) = f" "r_type (robjs s r) = TTM_REF_USAGE" "r_key (robjs s r) = ucast k"
      using h(2) [of "ucast k" r] Some by simp_all
    have b: "b_alive (objs s ?b)" "b_key (objs s ?b) = ucast k" "may_use s f ?b"
      using obj_invD(5) [OF assms(1), of r] r by (simp_all add: ref_ok_def Let_def)
    have "r \<in> refs_of s ?b" using r by (simp add: refs_of_def)
    moreover from this have "b_refcount (objs s ?b) \<noteq> 0"
      using count_alive [OF assms(1) b(1)] finite_refs(1) [OF obj_invD(1) [OF assms(1)], of ?b] card_gt_0_iff [of "refs_of s ?b"] by auto
    ultimately have n: "b_refcount (objs s ?b) \<noteq> 0" "r \<in> refs_of s ?b" by simp_all
    have run: "ttm_base_object_lookup f k s = get_base ?b s"
      using Some by (simp add: ttm_base_object_lookup_def run_simps drm_ht.find_law [OF h(1)])
    show ?thesis
      by (rule returns_same [where m = "ttm_base_object_lookup f k" and m' = "get_base ?b" and s = s, OF run], rule returns_mono [OF get_base_ok [OF assms(1) b(1)]])
        (use n r b in auto)
  qed
qed

lemma lookup_for_ref_ok:
  assumes "obj_inv s"
  shows "returns (ttm_base_object_lookup_for_ref k) s (\<lambda>s' x. obj_inv s' \<and> counted s s' \<and> (case x of
      Inl e \<Rightarrow> False
    | Inr None \<Rightarrow> s' = s
    | Inr (Some b) \<Rightarrow> local_refs s' = (local_refs s)(b := Suc (local_refs s b)) \<and> b_alive (objs s b) \<and> b_key (objs s b) = ucast k))"
proof -
  have h: "drm_ht_ok (o_hash s) (object_hash s)" "\<And>k b. ht_map (o_hash s) (object_hash s) k = Some b \<longleftrightarrow> b_alive (objs s b) \<and> b_key (objs s b) = k"
    using obj_invD(2) [OF assms] by (simp_all add: names_ok_def)
  show ?thesis
  proof (cases "ht_map (o_hash s) (object_hash s) (ucast k)")
    case None
    then show ?thesis using assms by (simp add: ttm_base_object_lookup_for_ref_def returns_simps drm_ht.find_law [OF h(1)] counted_def)
  next
    case (Some b)
    then have b: "b_alive (objs s b)" "b_key (objs s b) = ucast k" using h(2) by auto
    have "returns (get_base b) s (\<lambda>s' x. obj_inv s' \<and> counted s s' \<and> (case x of Inl e \<Rightarrow> False | Inr None \<Rightarrow> s' = s
      | Inr (Some b) \<Rightarrow> local_refs s' = (local_refs s)(b := Suc (local_refs s b)) \<and> b_alive (objs s b) \<and> b_key (objs s b) = ucast k))"
      by (rule returns_mono [OF get_base_ok [OF assms b(1)]]) (use b in \<open>auto split: if_splits\<close>)
    then show ?thesis using Some by (simp add: ttm_base_object_lookup_for_ref_def returns_simps drm_ht.find_law [OF h(1)])
  qed
qed

section \<open>References of files\<close>

definition has_ref :: "ttm_object_device \<Rightarrow> nat \<Rightarrow> nat \<Rightarrow> ttm_ref_type \<Rightarrow> bool" where
  "has_ref s f b t \<longleftrightarrow> (\<exists>r \<in> refs_of s b. r_tfile (robjs s r) = f \<and> r_type (robjs s r) = t)"

lemma table_find:
  assumes "obj_inv s" "f_open (tfiles s f)"
  shows "drm_ht_ok (o_hash s) (f_hash (tfiles s f) t)"
    "ht_map (o_hash s) (f_hash (tfiles s f) t) k = Some r \<longleftrightarrow>
       r_alive (robjs s r) \<and> r_tfile (robjs s r) = f \<and> r_type (robjs s r) = t \<and> r_key (robjs s r) = k"
  using obj_invD(3) [OF assms(1), of f t] assms(2) by (simp_all add: table_ok_def)

lemma key_unique:
  assumes "obj_inv s" "b_alive (objs s b)" "b_alive (objs s c)" "b_key (objs s b) = b_key (objs s c)"
  shows "b = c"
proof -
  have "ht_map (o_hash s) (object_hash s) k = Some q \<longleftrightarrow> b_alive (objs s q) \<and> b_key (objs s q) = k" for k q
    using obj_invD(2) [OF assms(1)] by (simp add: names_ok_def)
  from this [of "b_key (objs s c)" b] this [of "b_key (objs s c)" c] assms(2-4) show ?thesis by simp
qed

lemma alive_ref:
  assumes "obj_inv s" "r_alive (robjs s r)"
  shows "0 < r_kref (robjs s r)" "b_alive (objs s (r_obj (robjs s r)))" "r_key (robjs s r) = b_key (objs s (r_obj (robjs s r)))"
    "may_use s (r_tfile (robjs s r)) (r_obj (robjs s r))" "f_open (tfiles s (r_tfile (robjs s r)))"
  using obj_invD(5) [OF assms(1), of r] assms(2) by (simp_all add: ref_ok_def Let_def)

lemma inv_kref:
  assumes "obj_inv s" "0 < k"
  shows "obj_inv (upd_ref r (\<lambda>v. v\<lparr>r_kref := k\<rparr>) s)"
proof -
  let ?s = "upd_ref r (\<lambda>v. v\<lparr>r_kref := k\<rparr>) s"
  have o: "r_alive (robjs ?s q) = r_alive (robjs s q)" "r_key (robjs ?s q) = r_key (robjs s q)" "r_tfile (robjs ?s q) = r_tfile (robjs s q)"
    "r_type (robjs ?s q) = r_type (robjs s q)" "r_obj (robjs ?s q) = r_obj (robjs s q)" for q by (simp_all add: ob_simps)
  have p: "objs ?s = objs s" "tfiles ?s = tfiles s" "dbufs ?s = dbufs s" "object_hash ?s = object_hash s" "o_hash ?s = o_hash s"
    "local_refs ?s = local_refs s" "ref_mem ?s = ref_mem s" "unlisted ?s = unlisted s" "dma_mem ?s = dma_mem s" by (simp_all add: ob_simps)
  have c: "refs_of ?s q = refs_of s q" "bufs_of ?s q = bufs_of s q" "bases_of ?s q = bases_of s q" for q
    by (simp_all add: refs_of_def bufs_of_def bases_of_def o p)
  show ?thesis
    unfolding obj_inv_def
  proof (intro conjI allI)
    show "finite_ok ?s" using obj_invD(1) [OF assms(1)] by (simp add: finite_ok_def o p)
    show "names_ok ?s" using obj_invD(2) [OF assms(1)] by (simp add: names_ok_def p)
    show "table_ok ?s f t" for f t using obj_invD(3) [OF assms(1), of f t] by (simp add: table_ok_def o p)
    show "list_ok ?s f" for f using obj_invD(4) [OF assms(1), of f] by (simp add: list_ok_def o p)
    show "ref_ok ?s q" for q using obj_invD(5) [OF assms(1), of q] assms(2)
      by (cases "q = r") (simp_all add: ref_ok_def may_use_def Let_def ob_simps)
    show "count_ok ?s q" for q using obj_invD(6) [OF assms(1), of q] by (simp add: count_ok_def c p)
    show "prime_ok ?s q" for q using obj_invD(7) [OF assms(1), of q] by (simp add: prime_ok_def c p)
    show "file_ok ?s f" for f using obj_invD(8) [OF assms(1), of f] by (simp add: file_ok_def c p)
    show "charges_ok ?s" using obj_invD(9) [OF assms(1)] by (simp add: charges_ok_def o p)
  qed
qed

lemma ref_get_ok:
  assumes "obj_inv s" "f_open (tfiles s f)" "b_alive (objs s b)"
  shows "returns (ref_get f b t) s (\<lambda>s' x. obj_inv s' \<and> objs s' = objs s \<and> tfiles s' = tfiles s \<and> dbufs s' = dbufs s \<and>
    local_refs s' = local_refs s \<and> (if has_ref s f b t then x = Inr True \<and> has_ref s' f b t else x = Inr False \<and> s' = s))"
proof (cases "ht_map (o_hash s) (f_hash (tfiles s f) t) (b_key (objs s b))")
  note h = table_find [OF assms(1,2)]
  case None
  have "\<not> has_ref s f b t"
  proof
    assume "has_ref s f b t"
    then obtain r where r: "r_alive (robjs s r)" "r_obj (robjs s r) = b" "r_tfile (robjs s r) = f" "r_type (robjs s r) = t"
      by (auto simp: has_ref_def refs_of_def)
    then have "ht_map (o_hash s) (f_hash (tfiles s f) t) (b_key (objs s b)) = Some r" using alive_ref(3) [OF assms(1) r(1)] by (simp add: h(2))
    then show False using None by simp
  qed
  then show ?thesis using None assms(1) by (simp add: ref_get_def returns_simps drm_ht.find_law [OF h(1)])
next
  note h = table_find [OF assms(1,2)]
  case (Some r)
  then have r: "r_alive (robjs s r)" "r_tfile (robjs s r) = f" "r_type (robjs s r) = t" "r_key (robjs s r) = b_key (objs s b)"
    by (simp_all add: h(2))
  note a = alive_ref [OF assms(1) r(1)]
  have b: "r_obj (robjs s r) = b" using key_unique [OF assms(1) a(2) assms(3)] a(3) r(4) by simp
  have "has_ref s f b t" "has_ref (upd_ref r (\<lambda>v. v\<lparr>r_kref := r_kref v + 1\<rparr>) s) f b t"
    using r b by (auto simp: has_ref_def refs_of_def ob_simps)
  moreover have "upd_ref r (\<lambda>v. v\<lparr>r_kref := r_kref v + 1\<rparr>) s = upd_ref r (\<lambda>v. v\<lparr>r_kref := r_kref (robjs s r) + 1\<rparr>) s"
    by (simp add: upd_ref_def)
  ultimately show ?thesis
    using Some a(1) inv_kref [OF assms(1), of "r_kref (robjs s r) + 1" r]
    by (simp add: ref_get_def returns_simps drm_ht.find_law [OF h(1)] ob_simps)
qed

lemma ref_charge_fields [ob_simps]:
  "objs (ref_charge n s) = objs s" "robjs (ref_charge n s) = robjs s" "tfiles (ref_charge n s) = tfiles s" "dbufs (ref_charge n s) = dbufs s"
  "object_hash (ref_charge n s) = object_hash s" "o_hash (ref_charge n s) = o_hash s" "local_refs (ref_charge n s) = local_refs s"
  "dma_mem (ref_charge n s) = dma_mem s" "ref_mem (ref_charge n s) = ref_mem s + n" "unlisted (ref_charge n s) = unlisted s + n"
  by (simp_all add: ref_charge_def)

lemma inv_charge:
  assumes "obj_inv s" "objs s' = objs s" "robjs s' = robjs s" "tfiles s' = tfiles s" "dbufs s' = dbufs s" "object_hash s' = object_hash s"
    "o_hash s' = o_hash s" "local_refs s' = local_refs s" "dma_mem s' = dma_mem s" "ref_mem s' - unlisted s' = ref_mem s - unlisted s"
  shows "obj_inv s'"
proof -
  have c: "refs_of s' q = refs_of s q" "bufs_of s' q = bufs_of s q" "bases_of s' q = bases_of s q" for q
    by (simp_all add: refs_of_def bufs_of_def bases_of_def assms(2-5))
  show ?thesis
    using assms(1,10)
    by (simp add: obj_inv_def finite_ok_def names_ok_def table_ok_def list_ok_def ref_ok_def may_use_def count_ok_def prime_ok_def file_ok_def
        charges_ok_def c assms(2-9))
qed

lemma ref_charge_ok: "obj_inv s \<Longrightarrow> obj_inv (ref_charge n s)"
  by (rule inv_charge) (simp_all add: ob_simps)

lemma ref_insert_ok:
  assumes inv: "obj_inv s" and f: "f_open (tfiles s f)" and b: "b_alive (objs s b)" "may_use s f b" and r: "\<not> r_alive (robjs s r)"
  shows "returns (ref_insert f b t r) s (\<lambda>s' x. obj_inv s' \<and> local_refs s' = local_refs s \<and> dbufs s' = dbufs s \<and>
    (\<forall>q. b_alive (objs s' q) = b_alive (objs s q) \<and> b_key (objs s' q) = b_key (objs s q) \<and> b_type (objs s' q) = b_type (objs s q) \<and>
       b_tfile (objs s' q) = b_tfile (objs s q) \<and> b_shareable (objs s' q) = b_shareable (objs s q)) \<and>
    (\<forall>g. f_open (tfiles s' g) = f_open (tfiles s g) \<and> f_alive (tfiles s' g) = f_alive (tfiles s g)) \<and>
    (if has_ref s f b t then x = Inr False \<and> s' = s else x = Inr True \<and> has_ref s' f b t))"
proof (cases "ht_map (o_hash s) (f_hash (tfiles s f) t) (b_key (objs s b))")
  case (Some q)
  note h = table_find [OF inv f]
  from Some have q: "r_alive (robjs s q)" "r_tfile (robjs s q) = f" "r_type (robjs s q) = t" "r_key (robjs s q) = b_key (objs s b)"
    by (simp_all add: h(2))
  have "r_obj (robjs s q) = b" using key_unique [OF inv alive_ref(2) [OF inv q(1)] b(1)] alive_ref(3) [OF inv q(1)] q(4) by simp
  then have "has_ref s f b t" using q by (auto simp: has_ref_def refs_of_def)
  then show ?thesis
    using Some inv drm_ht.insert_dup [OF h(1), where it = "\<lparr>key = b_key (objs s b), addr = r\<rparr>"]
    by (simp add: ref_insert_def returns_simps)
next
  case None
  note h = table_find [OF inv f]
  let ?h = "f_hash (tfiles s f) t" and ?it = "\<lparr>key = b_key (objs s b), addr = r\<rparr>"
  have fresh: "addr ?it \<notin> ran (ht_map (o_hash s) ?h)" using r by (auto simp: ran_def h(2))
  obtain ht where ht: "drm_ht_insert_item (o_hash s) ?h ?it = Inr ht" "drm_ht_ok (o_hash s) ht"
    "ht_map (o_hash s) ht = (ht_map (o_hash s) ?h)(b_key (objs s b) \<mapsto> r)"
    using drm_ht.insert_law [OF h(1) _ fresh] None by auto
  have no: "\<not> has_ref s f b t"
  proof
    assume "has_ref s f b t"
    then obtain q where "r_alive (robjs s q)" "r_obj (robjs s q) = b" "r_tfile (robjs s q) = f" "r_type (robjs s q) = t"
      by (auto simp: has_ref_def refs_of_def)
    then have "ht_map (o_hash s) ?h (b_key (objs s b)) = Some q" using alive_ref(3) [OF inv] by (simp add: h(2))
    then show False using None by simp
  qed
  let ?v = "\<lparr>r_alive = True, r_key = b_key (objs s b), r_kref = 1, r_type = t, r_obj = b, r_tfile = f\<rparr>"
  let ?s = "upd_tfile f (\<lambda>v. v\<lparr>f_hash := (f_hash v)(t := ht), f_list := f_list v @ [r]\<rparr>)
    (upd_base b (\<lambda>v. v\<lparr>b_refcount := b_refcount v + 1\<rparr>) (upd_ref r (\<lambda>_. ?v) (s\<lparr>unlisted := unlisted s - 1\<rparr>)))"
  have o: "b_alive (objs ?s q) = b_alive (objs s q)" "b_key (objs ?s q) = b_key (objs s q)" "b_tfile (objs ?s q) = b_tfile (objs s q)"
    "b_shareable (objs ?s q) = b_shareable (objs s q)" "b_type (objs ?s q) = b_type (objs s q)" "pr_dma_buf (objs ?s q) = pr_dma_buf (objs s q)"
    "b_refcount (objs ?s q) = (if q = b then b_refcount (objs s b) + 1 else b_refcount (objs s q))" for q by (simp_all add: ob_simps)
  have g: "f_open (tfiles ?s q) = f_open (tfiles s q)" "f_alive (tfiles ?s q) = f_alive (tfiles s q)" "f_refcount (tfiles ?s q) = f_refcount (tfiles s q)"
    "f_list (tfiles ?s q) = (if q = f then f_list (tfiles s f) @ [r] else f_list (tfiles s q))"
    "f_hash (tfiles ?s q) = (if q = f then (f_hash (tfiles s f))(t := ht) else f_hash (tfiles s q))" for q by (simp_all add: ob_simps)
  have p: "dbufs ?s = dbufs s" "object_hash ?s = object_hash s" "o_hash ?s = o_hash s" "local_refs ?s = local_refs s" "ref_mem ?s = ref_mem s"
    "unlisted ?s = unlisted s - 1" "dma_mem ?s = dma_mem s" "robjs ?s = (robjs s)(r := ?v)" by (simp_all add: ob_simps)
  have c: "refs_of ?s q = (if q = b then insert r (refs_of s b) else refs_of s q)" "bufs_of ?s q = bufs_of s q" "bases_of ?s q = bases_of s q" for q
    using r by (auto simp: refs_of_def bufs_of_def bases_of_def o p)
  have rs: "{q. r_alive (robjs ?s q)} = insert r {q. r_alive (robjs s q)}" by (auto simp: p)
  have fin: "finite {q. r_alive (robjs s q)}" "finite (refs_of s b)" "r \<notin> refs_of s b"
    using obj_invD(1) [OF inv] finite_refs(1) [of s b] r by (simp_all add: finite_ok_def refs_of_def)
  have "obj_inv ?s"
    unfolding obj_inv_def
  proof (intro conjI allI)
    show "finite_ok ?s" using obj_invD(1) [OF inv] rs by (simp add: finite_ok_def o p(1))
    show "names_ok ?s" using obj_invD(2) [OF inv] by (simp add: names_ok_def o p)
    show "table_ok ?s q u" for q u
    proof (cases "q = f \<and> u = t")
      case True
      have none: "\<not> (r_alive (robjs s q) \<and> r_tfile (robjs s q) = f \<and> r_type (robjs s q) = t \<and> r_key (robjs s q) = b_key (objs s b))" for q
        using h(2) [of t "b_key (objs s b)" q] None by simp
      have hash: "f_hash (tfiles ?s f) t = ht" by (simp add: g)
      have "ht_map (o_hash s) ht k = Some q \<longleftrightarrow> r_alive (robjs ?s q) \<and> r_tfile (robjs ?s q) = f \<and> r_type (robjs ?s q) = t \<and> r_key (robjs ?s q) = k" for k q
        using none [of q] r h(2) [of t k q] by (cases "q = r"; cases "k = b_key (objs s b)") (auto simp: ht(3) p(8))
      then show ?thesis using True ht(2) by (simp add: table_ok_def hash p(3))
    next
      case False
      then have "f_hash (tfiles ?s q) u = f_hash (tfiles s q) u" by (simp add: g)
      then show ?thesis using obj_invD(3) [OF inv, of q u] r False by (auto simp: table_ok_def g(1) p)
    qed
    show "list_ok ?s q" for q using obj_invD(4) [OF inv, of q] r by (auto simp: list_ok_def g(4) p)
    show "ref_ok ?s q" for q
      using obj_invD(5) [OF inv, of q] b f by (cases "q = r") (simp_all add: ref_ok_def may_use_def Let_def o(1-4) g(1) p(8))
    show "count_ok ?s q" for q
      using obj_invD(6) [OF inv, of q] b(1) fin by (cases "q = b") (simp_all add: count_ok_def c p(4) o g(2))
    show "prime_ok ?s q" for q using obj_invD(7) [OF inv, of q] by (simp add: prime_ok_def c o)
    show "file_ok ?s q" for q using obj_invD(8) [OF inv, of q] by (simp add: file_ok_def Let_def c g(1-3))
    show "charges_ok ?s" using obj_invD(9) [OF inv] fin r rs by (simp add: charges_ok_def p(1,5-7))
  qed
  moreover have "has_ref ?s f b t" unfolding has_ref_def c(1) by (rule bexI [of _ r]) (simp_all add: p(8))
  ultimately show ?thesis using ht(1) no by (simp add: ref_insert_def returns_simps o g(1,2) p(1,4))
qed

text \<open>Unlinking, after the count of the reference was set to anything.\<close>

lemma ref_unlink_ok:
  assumes inv: "obj_inv s" and r: "r_alive (robjs s r)"
  shows "returns (ref_unlink r) (upd_ref r (\<lambda>v. v\<lparr>r_kref := k\<rparr>) s) (\<lambda>s' x. x = Inr () \<and> obj_inv s' \<and> objs s' = objs s \<and> dbufs s' = dbufs s \<and>
    local_refs s' = (local_refs s)(r_obj (robjs s r) := Suc (local_refs s (r_obj (robjs s r)))) \<and>
    (\<forall>g. f_open (tfiles s' g) = f_open (tfiles s g) \<and> f_alive (tfiles s' g) = f_alive (tfiles s g) \<and>
       f_list (tfiles s' g) = (if g = r_tfile (robjs s r) then remove1 r (f_list (tfiles s g)) else f_list (tfiles s g))) \<and>
    (\<forall>q. q \<noteq> r \<longrightarrow> robjs s' q = robjs s q) \<and> \<not> r_alive (robjs s' r))"
proof -
  let ?r = "robjs s r"
  let ?b = "r_obj ?r" and ?f = "r_tfile ?r" and ?t = "r_type ?r"
  note a = alive_ref [OF inv r]
  note h = table_find [OF inv a(5)]
  let ?h = "f_hash (tfiles s ?f) ?t"
  have at: "ht_map (o_hash s) ?h (r_key ?r) = Some r" using r by (simp add: h(2))
  note rem = drm_ht.remove_law [OF h(1) at]
  let ?s = "upd_tfile ?f (\<lambda>w. w\<lparr>f_hash := (f_hash w)(?t := drm_ht_remove_item (f_hash w ?t) r), f_list := remove1 r (f_list w)\<rparr>)
    (take_local ?b (upd_ref r (\<lambda>v. v\<lparr>r_alive := False\<rparr>) ((upd_ref r (\<lambda>v. v\<lparr>r_kref := k\<rparr>) s)\<lparr>unlisted := unlisted s + 1\<rparr>)))"
  have g: "f_open (tfiles ?s q) = f_open (tfiles s q)" "f_alive (tfiles ?s q) = f_alive (tfiles s q)" "f_refcount (tfiles ?s q) = f_refcount (tfiles s q)"
    "f_list (tfiles ?s q) = (if q = ?f then remove1 r (f_list (tfiles s q)) else f_list (tfiles s q))"
    "f_hash (tfiles ?s q) = (if q = ?f then (f_hash (tfiles s q))(?t := drm_ht_remove_item ?h r) else f_hash (tfiles s q))" for q
    by (simp_all add: ob_simps)
  have p: "dbufs ?s = dbufs s" "object_hash ?s = object_hash s" "o_hash ?s = o_hash s" "objs ?s = objs s" "ref_mem ?s = ref_mem s"
    "unlisted ?s = unlisted s + 1" "dma_mem ?s = dma_mem s" "local_refs ?s = (local_refs s)(?b := Suc (local_refs s ?b))"
    "robjs ?s = (robjs s)(r := ?r\<lparr>r_kref := k, r_alive := False\<rparr>)" by (simp_all add: ob_simps)
  have al: "r_alive (robjs ?s q) \<longleftrightarrow> r_alive (robjs s q) \<and> q \<noteq> r" "q \<noteq> r \<Longrightarrow> robjs ?s q = robjs s q" for q by (simp_all add: p(9))
  have c: "refs_of ?s q = refs_of s q - {r}" "bufs_of ?s q = bufs_of s q" "bases_of ?s q = bases_of s q" for q
    by (auto simp: refs_of_def bufs_of_def bases_of_def p(1,4,9))
  have rs: "{q. r_alive (robjs ?s q)} = {q. r_alive (robjs s q)} - {r}" by (auto simp: al)
  have fin: "finite {q. r_alive (robjs s q)}" "finite (refs_of s ?b)" "r \<in> refs_of s ?b" "r \<in> {q. r_alive (robjs s q)}"
    using obj_invD(1) [OF inv] finite_refs(1) [of s ?b] r by (simp_all add: finite_ok_def refs_of_def)
  have "obj_inv ?s"
    unfolding obj_inv_def
  proof (intro conjI allI)
    show "finite_ok ?s" using obj_invD(1) [OF inv] rs by (simp add: finite_ok_def p(1,4))
    show "names_ok ?s" using obj_invD(2) [OF inv] by (simp add: names_ok_def p)
    show "table_ok ?s q u" for q u
    proof (cases "q = ?f \<and> u = ?t")
      case True
      have hash: "f_hash (tfiles ?s ?f) ?t = drm_ht_remove_item ?h r" by (simp add: g)
      have "ht_map (o_hash s) (drm_ht_remove_item ?h r) k' = Some q' \<longleftrightarrow>
          r_alive (robjs ?s q') \<and> r_tfile (robjs ?s q') = ?f \<and> r_type (robjs ?s q') = ?t \<and> r_key (robjs ?s q') = k'" for k' q'
        using r h(2) [of ?t k' q'] h(2) [of ?t k' r] drm_ht.amap_inj [OF h(1) [of ?t], of k' r "r_key ?r"] at rem
        by (cases "q' = r"; cases "k' = r_key ?r") (auto simp: al)
      then show ?thesis using True rem by (simp add: table_ok_def hash p(3))
    next
      case False
      then have f: "f_hash (tfiles ?s q) u = f_hash (tfiles s q) u" by (auto simp: g)
      have "r_tfile (robjs s r) = q \<and> r_type (robjs s r) = u \<longleftrightarrow> False" using False by auto
      then have "r_alive (robjs ?s q') \<and> r_tfile (robjs ?s q') = q \<and> r_type (robjs ?s q') = u \<and> r_key (robjs ?s q') = k' \<longleftrightarrow>
          r_alive (robjs s q') \<and> r_tfile (robjs s q') = q \<and> r_type (robjs s q') = u \<and> r_key (robjs s q') = k'" for q' k'
        by (cases "q' = r") (auto simp: al)
      then show ?thesis using obj_invD(3) [OF inv, of q u] by (simp add: table_ok_def f g(1) p(3))
    qed
    show "list_ok ?s q" for q
    proof -
      have l: "distinct (f_list (tfiles s q))" "set (f_list (tfiles s q)) = {r. r_alive (robjs s r) \<and> r_tfile (robjs s r) = q}"
        using obj_invD(4) [OF inv, of q] by (simp_all add: list_ok_def)
      have e: "{r'. r_alive (robjs ?s r') \<and> r_tfile (robjs ?s r') = q} = set (f_list (tfiles s q)) - {r}"
        unfolding l(2) by (auto simp: p(9))
      have m: "set (f_list (tfiles ?s q)) = set (f_list (tfiles s q)) - {r}" "distinct (f_list (tfiles ?s q))"
      proof -
        have "r \<notin> set (f_list (tfiles s q))" if "q \<noteq> ?f" using that l(2) by simp
        then show "set (f_list (tfiles ?s q)) = set (f_list (tfiles s q)) - {r}" "distinct (f_list (tfiles ?s q))"
          using l(1) by (cases "q = ?f"; simp add: g(4))+
      qed
      show ?thesis unfolding list_ok_def e using m by simp
    qed
    show "ref_ok ?s q" for q
      using obj_invD(5) [OF inv, of q] by (cases "q = r") (simp_all add: ref_ok_def may_use_def Let_def al g(1) p(4))
    show "count_ok ?s q" for q
    proof (cases "q = ?b")
      case True
      have "card (refs_of s ?b) = Suc (card (refs_of s ?b - {r}))" by (rule card.remove [OF fin(2,3)])
      then show ?thesis using obj_invD(6) [OF inv, of ?b] a(2) True by (simp add: count_ok_def c p(4,8) g(2))
    next
      case False
      then have "refs_of s q - {r} = refs_of s q" by (auto simp: refs_of_def)
      then show ?thesis using obj_invD(6) [OF inv, of q] False by (simp add: count_ok_def c p(4,8) g(2))
    qed
    show "prime_ok ?s q" for q using obj_invD(7) [OF inv, of q] by (simp add: prime_ok_def c p(4))
    show "file_ok ?s q" for q using obj_invD(8) [OF inv, of q] by (simp add: file_ok_def Let_def c g(1-3))
    have "card {q. r_alive (robjs s q)} = Suc (card ({q. r_alive (robjs s q)} - {r}))" by (rule card.remove [OF fin(1,4)])
    then show "charges_ok ?s" using obj_invD(9) [OF inv] by (simp add: charges_ok_def rs p(1,5-7))
  qed
  then show ?thesis by (simp add: ref_unlink_def returns_simps Let_def ob_simps)
qed

lemma ref_callback_ok: "obj_inv s \<Longrightarrow> returns (ref_callback b t) s (\<lambda>s' x. x = Inr () \<and> obj_inv s' \<and>
    objs s' = objs s \<and> robjs s' = robjs s \<and> tfiles s' = tfiles s \<and> dbufs s' = dbufs s \<and> local_refs s' = local_refs s)"
  by (auto simp: ref_callback_def returns_simps intro!: inv_charge [of s])

section \<open>Objects\<close>

definition sole_user :: "ttm_object_device \<Rightarrow> nat \<Rightarrow> bool" where
  "sole_user s b \<longleftrightarrow> b_alive (objs s b) \<and> local_refs s b = 1 \<and> refs_of s b = {} \<and> bufs_of s b = {}"

lemma just_insert_law:
  assumes "drm_ht_ok hash ht" "a \<notin> ran (ht_map hash ht)"
  shows "case drm_ht_just_insert_please hash ht a seed 31 0 0 of
      None \<Rightarrow> False
    | Some (Inl e) \<Rightarrow> True
    | Some (Inr (ht', k)) \<Rightarrow> drm_ht_ok hash ht' \<and> ht_map hash ht k = None \<and> ht_map hash ht' = (ht_map hash ht)(k \<mapsto> a)"
proof -
  have ok: "hash_ok hash" "ht_inv hash ht" using assms by (simp_all add: drm_ht_ok_def)
  have a: "a \<notin> ht_addrs ht" using assms by (simp add: addrs_eq_ran [OF ok])
  have f: "hash seed 31 < 2 ^ 31" using ok(1) unfolding hash_ok_def by blast
  have b: "(31 :: nat) < 64" and m: "key_mask 31 = 2 ^ 31 - 1" by (simp_all add: key_mask_eq)
  have "2 ^ 31 + 0 = (2 ^ 31 :: nat)" "0 < (2 ^ 31 :: nat)" by simp_all
  from just_insert_loop_inv [OF ok b f a this, of 0 0] f ok(1) show ?thesis
    by (auto simp: drm_ht_just_insert_please_def m Let_def drm_ht_ok_def split: option.splits sum.splits)
qed

lemma names_find:
  assumes "obj_inv s"
  shows "drm_ht_ok (o_hash s) (object_hash s)" "ht_map (o_hash s) (object_hash s) k = Some b \<longleftrightarrow> b_alive (objs s b) \<and> b_key (objs s b) = k"
  using obj_invD(2) [OF assms] by (simp_all add: names_ok_def)

lemma dead_base:
  assumes "obj_inv s" "\<not> b_alive (objs s b)"
  shows "local_refs s b = 0" "bufs_of s b = {}" "refs_of s b = {}"
  using obj_invD(6) [OF assms(1), of b] assms(2) alive_ref(2) [OF assms(1)] by (auto simp: count_ok_def refs_of_def)

text \<open>One object appears or disappears: what has to be shown besides.\<close>

lemma inv_base:
  assumes inv: "obj_inv s" and b: "refs_of s b = {}" "bufs_of s b = {}"
    and same: "\<And>q. q \<noteq> b \<Longrightarrow> objs s' q = objs s q" "robjs s' = robjs s" "dbufs s' = dbufs s" "o_hash s' = o_hash s"
      "ref_mem s' = ref_mem s" "unlisted s' = unlisted s" "dma_mem s' = dma_mem s" "\<And>q. q \<noteq> b \<Longrightarrow> local_refs s' q = local_refs s q"
    and files: "\<And>g. f_open (tfiles s' g) = f_open (tfiles s g)" "\<And>g. f_list (tfiles s' g) = f_list (tfiles s g)"
      "\<And>g. f_hash (tfiles s' g) = f_hash (tfiles s g)"
    and names: "names_ok s'" and count: "count_ok s' b" and prime: "b_alive (objs s' b) \<Longrightarrow> pr_dma_buf (objs s' b) = None"
    and keep: "\<And>g. file_ok s' g" "\<And>q. q \<noteq> b \<Longrightarrow> b_alive (objs s q) \<Longrightarrow> f_alive (tfiles s' (b_tfile (objs s q)))"
  shows "obj_inv s'"
proof -
  have c: "refs_of s' q = refs_of s q" "bufs_of s' q = bufs_of s q" for q by (simp_all add: refs_of_def bufs_of_def same)
  have ro: "r_obj (robjs s r) \<noteq> b" if "r_alive (robjs s r)" for r using that b(1) by (auto simp: refs_of_def)
  show ?thesis
    unfolding obj_inv_def
  proof (intro conjI allI)
    have "{q. b_alive (objs s' q)} \<subseteq> insert b {q. b_alive (objs s q)}" using same(1) by auto
    then show "finite_ok s'" using obj_invD(1) [OF inv] by (auto simp: finite_ok_def same(2,3) intro: finite_subset)
    show "table_ok s' f t" for f t using obj_invD(3) [OF inv, of f t] by (simp add: table_ok_def same files)
    show "list_ok s' f" for f using obj_invD(4) [OF inv, of f] by (simp add: list_ok_def same files)
    show "ref_ok s' r" for r
      using obj_invD(5) [OF inv, of r] ro [of r] same(1) by (simp add: ref_ok_def may_use_def Let_def same(2) files)
    show "count_ok s' q" for q
    proof (cases "q = b")
      case False
      then show ?thesis using obj_invD(6) [OF inv, of q] keep(2) by (simp add: count_ok_def c same)
    qed (use count in simp)
    show "prime_ok s' q" for q
      using obj_invD(7) [OF inv, of q] prime by (cases "q = b") (simp_all add: prime_ok_def c same)
    show "charges_ok s'" using obj_invD(9) [OF inv] by (simp add: charges_ok_def same)
  qed (use names keep in auto)
qed

lemma inv_file_up:
  assumes inv: "obj_inv s" and f: "f_alive (tfiles s f)"
  shows "obj_inv (upd_tfile f (\<lambda>v. v\<lparr>f_refcount := f_refcount v + 1\<rparr>) s)" (is "obj_inv ?s")
proof -
  have g: "f_open (tfiles ?s q) = f_open (tfiles s q)" "f_alive (tfiles ?s q) = f_alive (tfiles s q)" "f_list (tfiles ?s q) = f_list (tfiles s q)"
    "f_hash (tfiles ?s q) = f_hash (tfiles s q)" "f_refcount (tfiles s q) \<le> f_refcount (tfiles ?s q)" for q by (simp_all add: ob_simps)
  have p: "objs ?s = objs s" "robjs ?s = robjs s" "dbufs ?s = dbufs s" "object_hash ?s = object_hash s" "o_hash ?s = o_hash s"
    "local_refs ?s = local_refs s" "ref_mem ?s = ref_mem s" "unlisted ?s = unlisted s" "dma_mem ?s = dma_mem s" by (simp_all add: ob_simps)
  have c: "refs_of ?s q = refs_of s q" "bufs_of ?s q = bufs_of s q" "bases_of ?s q = bases_of s q" for q
    by (simp_all add: refs_of_def bufs_of_def bases_of_def p)
  show ?thesis
    unfolding obj_inv_def
  proof (intro conjI allI)
    show "file_ok ?s q" for q using obj_invD(8) [OF inv, of q] g(5) [of q]
      by (cases "f_open (tfiles s q)") (auto simp: file_ok_def Let_def c g(1,2))
  qed (use obj_invD [OF inv] in \<open>simp_all add: finite_ok_def names_ok_def table_ok_def list_ok_def ref_ok_def may_use_def count_ok_def prime_ok_def
      charges_ok_def c g(1-4) p\<close>)
qed

lemma publish_ok:
  assumes inv: "obj_inv s" and f: "f_open (tfiles s f)" and b: "\<not> b_alive (objs s b)"
  shows "returns (publish_base f b sh ty real) s (\<lambda>s' x. obj_inv s' \<and> robjs s' = robjs s \<and> dbufs s' = dbufs s \<and>
    (\<forall>g. f_open (tfiles s' g) = f_open (tfiles s g) \<and> f_list (tfiles s' g) = f_list (tfiles s g)) \<and> (\<forall>q. q \<noteq> b \<longrightarrow> objs s' q = objs s q) \<and>
    (case x of Inl e \<Rightarrow> objs s' = objs s \<and> local_refs s' = local_refs s
     | Inr u \<Rightarrow> sole_user s' b \<and> b_tfile (objs s' b) = f \<and> b_shareable (objs s' b) = sh \<and> b_type (objs s' b) = ty \<and>
         local_refs s' = (local_refs s)(b := 1)))"
proof -
  let ?s1 = "upd_tfile f (\<lambda>v. v\<lparr>f_refcount := f_refcount v + 1\<rparr>) s"
  note n = names_find [OF inv] and dead = dead_base [OF inv b]
  have fa: "f_alive (tfiles s f)" using obj_invD(8) [OF inv, of f] f by (simp add: file_ok_def Let_def)
  have fin: "finite (bases_of s f)" using finite_refs(3) obj_invD(1) [OF inv] by blast
  have "b \<notin> ran (ht_map (o_hash s) (object_hash s))" using b by (auto simp: ran_def n)
  note ins = just_insert_law [OF n(1) this, of "of_nat b"]
  have i1: "obj_inv ?s1" by (rule inv_file_up [OF inv fa])
  consider e where "drm_ht_just_insert_please (o_hash s) (object_hash s) b (of_nat b) 31 0 0 = Some (Inl e)"
    | ht k where "drm_ht_just_insert_please (o_hash s) (object_hash s) b (of_nat b) 31 0 0 = Some (Inr (ht, k))" "drm_ht_ok (o_hash s) ht"
      "ht_map (o_hash s) (object_hash s) k = None" "ht_map (o_hash s) ht = (ht_map (o_hash s) (object_hash s))(k \<mapsto> b)"
    using ins by (auto split: option.splits sum.splits)
  then show ?thesis
  proof cases
    case 1
    then show ?thesis using i1 by (simp add: publish_base_def returns_simps ob_simps)
  next
    case (2 ht k)
    let ?s = "take_local b (upd_base b (\<lambda>_. new_base f sh ty real k) (?s1\<lparr>object_hash := ht\<rparr>))"
    have al: "b_alive (objs ?s q) \<longleftrightarrow> b_alive (objs s q) \<or> q = b" "q \<noteq> b \<Longrightarrow> objs ?s q = objs s q" for q by (auto simp: ob_simps new_base_def)
    have bs: "bases_of ?s g = (if g = f then insert b (bases_of s f) else bases_of s g)" for g
      using b by (auto simp: bases_of_def ob_simps new_base_def)
    have c: "refs_of ?s q = refs_of s q" "bufs_of ?s q = bufs_of s q" for q by (simp_all add: refs_of_def bufs_of_def ob_simps)
    have nb: "b \<notin> bases_of s f" using b by (simp add: bases_of_def)
    have "obj_inv ?s"
    proof (rule inv_base [OF inv dead(3,2)])
      have "ht_map (o_hash s) ht k' = Some q \<longleftrightarrow> b_alive (objs ?s q) \<and> b_key (objs ?s q) = k'" for k' q
        using n(2) [of k' q] n(2) [of k q] 2(3) b by (cases "q = b"; cases "k' = k") (auto simp: 2(4) ob_simps new_base_def)
      then show "names_ok ?s" using 2(2) by (simp add: names_ok_def ob_simps)
      show "count_ok ?s b" using dead fa unfolding count_ok_def c by (simp add: ob_simps new_base_def)
      show "file_ok ?s g" for g
        using obj_invD(8) [OF inv, of g] fin nb fa by (cases "g = f") (auto simp: file_ok_def Let_def bs ob_simps split: if_splits)
      show "f_alive (tfiles ?s (b_tfile (objs s q)))" if "q \<noteq> b" "b_alive (objs s q)" for q
        using count_alive(2) [OF inv that(2)] fa by (simp add: ob_simps)
    qed (simp_all add: ob_simps new_base_def)
    then show ?thesis using 2(1) dead by (simp add: publish_base_def returns_simps ob_simps sole_user_def c, simp add: new_base_def)
  qed
qed

lemma names_remove:
  assumes "obj_inv s" "b_alive (objs s b)" "o_hash s' = o_hash s" "object_hash s' = drm_ht_remove_item (object_hash s) b"
    "\<And>q. b_alive (objs s' q) \<longleftrightarrow> b_alive (objs s q) \<and> q \<noteq> b" "\<And>q. q \<noteq> b \<Longrightarrow> b_key (objs s' q) = b_key (objs s q)"
  shows "names_ok s'"
proof -
  note n = names_find [OF assms(1)]
  have at: "ht_map (o_hash s) (object_hash s) (b_key (objs s b)) = Some b" using assms(2) by (simp add: n)
  note rem = drm_ht.remove_law [OF n(1) at]
  have "ht_map (o_hash s) (drm_ht_remove_item (object_hash s) b) k = Some q \<longleftrightarrow> b_alive (objs s' q) \<and> b_key (objs s' q) = k" for k q
    using n(2) [of k q] n(2) [of k b] drm_ht.amap_inj [OF n(1), of k b "b_key (objs s b)"] at rem assms(5,6)
    by (cases "q = b"; cases "k = b_key (objs s b)") auto
  then show ?thesis using rem by (simp add: names_ok_def assms(3,4))
qed

lemma withdraw_ok:
  assumes inv: "obj_inv s" and b: "sole_user s b"
  shows "returns (withdraw_base b) s (\<lambda>s' x. x = Inr () \<and> obj_inv s' \<and> robjs s' = robjs s \<and> dbufs s' = dbufs s \<and> tfiles s' = tfiles s \<and>
    local_refs s' = (local_refs s)(b := 0) \<and> (\<forall>q. q \<noteq> b \<longrightarrow> objs s' q = objs s q) \<and> \<not> b_alive (objs s' b))"
proof -
  let ?s = "drop_local b (upd_base b (\<lambda>v. v\<lparr>b_alive := False\<rparr>) (s\<lparr>object_hash := drm_ht_remove_item (object_hash s) b\<rparr>))"
  have b': "b_alive (objs s b)" "local_refs s b = 1" "refs_of s b = {}" "bufs_of s b = {}" using b by (simp_all add: sole_user_def)
  have c: "bufs_of ?s q = bufs_of s q" for q by (simp add: bufs_of_def ob_simps)
  have bs: "bases_of ?s g = bases_of s g - {b}" for g by (auto simp: bases_of_def ob_simps)
  have "obj_inv ?s"
  proof (rule inv_base [OF inv b'(3,4)])
    show "names_ok ?s" by (rule names_remove [OF inv b'(1)]) (simp_all add: ob_simps)
    show "count_ok ?s b" using b' by (simp add: count_ok_def c) (simp add: ob_simps)
    show "file_ok ?s g" for g
      using obj_invD(8) [OF inv, of g] card_mono [OF finite_refs(3) [OF obj_invD(1) [OF inv]], of "bases_of s g - {b}" g]
      by (auto simp: file_ok_def Let_def bs ob_simps)
    show "f_alive (tfiles ?s (b_tfile (objs s q)))" if "q \<noteq> b" "b_alive (objs s q)" for q
      using count_alive(2) [OF inv that(2)] by (simp add: ob_simps)
  qed (simp_all add: ob_simps)
  then show ?thesis using b'(2) by (simp add: withdraw_base_def returns_simps ob_simps)
qed

lemma file_unref_room:
  assumes "obj_inv s" "b_alive (objs s b)" "b_tfile (objs s b) = f"
  shows "f_alive (tfiles s f)" "(if f_open (tfiles s f) then 1 else 0) + int (card (bases_of s f - {b})) \<le> f_refcount (tfiles s f) - 1"
proof -
  show "f_alive (tfiles s f)" using count_alive(2) [OF assms(1,2)] assms(3) by simp
  moreover have "card (bases_of s f) = Suc (card (bases_of s f - {b}))"
    by (rule card.remove [OF finite_refs(3) [OF obj_invD(1) [OF assms(1)]]]) (use assms(2,3) in \<open>simp add: bases_of_def\<close>)
  ultimately show "(if f_open (tfiles s f) then 1 else 0) + int (card (bases_of s f - {b})) \<le> f_refcount (tfiles s f) - 1"
    using obj_invD(8) [OF assms(1), of f] by (auto simp: file_ok_def Let_def)
qed

lemma release_ok:
  assumes inv: "obj_inv s" and b: "b_alive (objs s b)" "b_refcount (objs s b) = 0"
  shows "returns (ttm_release_base b) s (\<lambda>s' x. x = Inr () \<and> obj_inv s' \<and> robjs s' = robjs s \<and> dbufs s' = dbufs s \<and>
    local_refs s' = local_refs s \<and> (\<forall>q. q \<noteq> b \<longrightarrow> objs s' q = objs s q) \<and> \<not> b_alive (objs s' b) \<and>
    (\<forall>g. f_open (tfiles s' g) = f_open (tfiles s g) \<and> f_list (tfiles s' g) = f_list (tfiles s g)))"
proof -
  let ?f = "b_tfile (objs s b)"
  let ?up = "\<lambda>v. v\<lparr>f_refcount := f_refcount v - 1, f_alive := (f_refcount v - 1 \<noteq> 0)\<rparr>"
  let ?s = "upd_base b (\<lambda>v. v\<lparr>b_alive := False\<rparr>) (upd_tfile ?f ?up (s\<lparr>object_hash := drm_ht_remove_item (object_hash s) b\<rparr>))"
  note fin = finite_refs [OF obj_invD(1) [OF inv]]
  have e: "local_refs s b = 0" "refs_of s b = {}" "bufs_of s b = {}"
    using count_zero [OF inv b(1)] b(2) by simp_all
  have prime: "pr_dma_buf (objs s b) = None" using obj_invD(7) [OF inv, of b] b(1) e(3) by (auto simp: prime_ok_def)
  note room = file_unref_room [OF inv b(1) refl]
  have c: "bufs_of ?s q = bufs_of s q" for q by (simp add: bufs_of_def ob_simps)
  have bs: "bases_of ?s g = bases_of s g - {b}" for g by (auto simp: bases_of_def ob_simps)
  have out: "bases_of s g - {b} = bases_of s g" if "g \<noteq> ?f" for g using that by (auto simp: bases_of_def)
  have "obj_inv ?s"
  proof (rule inv_base [OF inv e(2,3)])
    show "names_ok ?s" by (rule names_remove [OF inv b(1)]) (simp_all add: ob_simps)
    show "count_ok ?s b" using e unfolding count_ok_def c by (simp add: ob_simps)
    show "file_ok ?s g" for g
    proof (cases "g = ?f")
      case True
      then show ?thesis using room unfolding file_ok_def Let_def bs by (auto simp: ob_simps split: if_splits)
    next
      case False
      then show ?thesis using obj_invD(8) [OF inv, of g] unfolding file_ok_def Let_def bs out [OF False] by (simp add: ob_simps)
    qed
    show "f_alive (tfiles ?s (b_tfile (objs s q)))" if q: "q \<noteq> b" "b_alive (objs s q)" for q
    proof (cases "b_tfile (objs s q) = ?f")
      case True
      then have "q \<in> bases_of s ?f - {b}" using q by (simp add: bases_of_def)
      then have "0 < card (bases_of s ?f - {b})" using fin(3) [of ?f] by (auto simp: card_gt_0_iff)
      then show ?thesis using room(2) True by (auto simp: ob_simps split: if_splits)
    next
      case False
      then show ?thesis using count_alive(2) [OF inv q(2)] by (simp add: ob_simps)
    qed
  qed (simp_all add: ob_simps)
  then show ?thesis
    using b prime room(1)
    by (auto simp: ttm_release_base_def ttm_prime_refcount_release_def ttm_object_file_unref_def returns_simps ob_simps)
qed

lemma base_unref_ok:
  assumes inv: "obj_inv s" and b: "b_alive (objs s b)" "0 < local_refs s b"
  shows "returns (ttm_base_object_unref b) s (\<lambda>s' x. x = Inr () \<and> obj_inv s' \<and> robjs s' = robjs s \<and> dbufs s' = dbufs s \<and>
    local_refs s' = (local_refs s)(b := local_refs s b - 1) \<and>
    (\<forall>q. q \<noteq> b \<longrightarrow> b_alive (objs s' q) = b_alive (objs s q)) \<and>
    (b_alive (objs s' b) \<longleftrightarrow> local_refs s b \<noteq> 1 \<or> refs_of s b \<noteq> {} \<or> bufs_of s b \<noteq> {}) \<and>
    (\<forall>g. f_open (tfiles s' g) = f_open (tfiles s g) \<and> f_list (tfiles s' g) = f_list (tfiles s g)))"
proof -
  obtain s1 where s1: "drop_base b s = Some (s1, Inr ())" "obj_inv s1" "counted s s1" "local_refs s1 = (local_refs s)(b := local_refs s b - 1)"
    using drop_base_ok [OF inv b] by (auto simp: returns_iff)
  have a: "b_alive (objs s1 b)" using s1(3) b by (simp add: counted_def)
  have r: "refs_of s1 b = refs_of s b" "bufs_of s1 b = bufs_of s b" using s1(3) by (simp_all add: counted_def refs_of_def bufs_of_def)
  have zero: "b_refcount (objs s1 b) = 0 \<longleftrightarrow> local_refs s b = 1 \<and> refs_of s b = {} \<and> bufs_of s b = {}"
    using count_zero [OF s1(2) a] b(2) unfolding r s1(4) by auto
  show ?thesis
  proof (cases "b_refcount (objs s1 b) = 0")
    case True
    then obtain s2 where "ttm_release_base b s1 = Some (s2, Inr ())" "obj_inv s2" "robjs s2 = robjs s1" "dbufs s2 = dbufs s1"
      "local_refs s2 = local_refs s1" "\<forall>q. q \<noteq> b \<longrightarrow> objs s2 q = objs s1 q" "\<not> b_alive (objs s2 b)"
      "\<forall>g. f_open (tfiles s2 g) = f_open (tfiles s1 g) \<and> f_list (tfiles s2 g) = f_list (tfiles s1 g)"
      using release_ok [OF s1(2) a] by (auto simp: returns_iff)
    then show ?thesis
      using s1 True zero by (simp add: ttm_base_object_unref_def returns_iff andthen_def chain_def run_simps counted_def)
  next
    case False
    then show ?thesis
      using s1 zero a by (auto simp: ttm_base_object_unref_def returns_iff andthen_def chain_def run_simps counted_def)
  qed
qed

section \<open>Giving up references\<close>

definition only_by :: "ttm_object_device \<Rightarrow> nat set \<Rightarrow> nat \<Rightarrow> bool" where
  "only_by s R b \<longleftrightarrow> local_refs s b = 0 \<and> bufs_of s b = {} \<and> refs_of s b \<noteq> {} \<and> refs_of s b \<subseteq> R"

text \<open>The references \<open>R\<close> are gone, and with them the objects that nobody else holds.\<close>

definition gone :: "nat set \<Rightarrow> ttm_object_device \<Rightarrow> ttm_object_device \<Rightarrow> bool" where
  "gone R s s' \<longleftrightarrow> local_refs s' = local_refs s \<and> dbufs s' = dbufs s \<and> (\<forall>r. r \<notin> R \<longrightarrow> robjs s' r = robjs s r) \<and>
     (\<forall>r \<in> R. \<not> r_alive (robjs s' r)) \<and> (\<forall>b. b_alive (objs s' b) \<longleftrightarrow> b_alive (objs s b) \<and> \<not> only_by s R b) \<and>
     (\<forall>g. f_open (tfiles s' g) = f_open (tfiles s g))"

lemma gone_refs:
  assumes "gone R s s'"
  shows "refs_of s' b = refs_of s b - R" "bufs_of s' b = bufs_of s b"
proof -
  have "r \<in> refs_of s' b \<longleftrightarrow> r \<in> refs_of s b - R" for r
    using assms by (cases "r \<in> R") (simp_all add: gone_def refs_of_def)
  then show "refs_of s' b = refs_of s b - R" by blast
  show "bufs_of s' b = bufs_of s b" using assms by (simp add: gone_def bufs_of_def)
qed

lemma gone_trans:
  assumes "gone R s s1" "gone T s1 s2"
  shows "gone (R \<union> T) s s2"
proof -
  have "only_by s (R \<union> T) b \<longleftrightarrow> only_by s R b \<or> only_by s1 T b" if "b_alive (objs s b)" for b
  proof -
    have "local_refs s1 b = local_refs s b" using assms(1) by (simp add: gone_def)
    then show ?thesis using gone_refs [OF assms(1), of b] by (auto simp: only_by_def)
  qed
  then have "b_alive (objs s2 b) \<longleftrightarrow> b_alive (objs s b) \<and> \<not> only_by s (R \<union> T) b" for b
    using assms by (auto simp: gone_def)
  moreover have "\<not> r_alive (robjs s2 r)" if "r \<in> R \<union> T" for r
  proof (cases "r \<in> T")
    case True
    then show ?thesis using assms(2) by (simp add: gone_def)
  next
    case False
    then have "robjs s2 r = robjs s1 r" using assms(2) by (simp add: gone_def)
    then show ?thesis using assms(1) that False by (simp add: gone_def)
  qed
  moreover have "robjs s2 r = robjs s r" if "r \<notin> R \<union> T" for r using assms that by (simp add: gone_def)
  ultimately show ?thesis using assms unfolding gone_def by simp
qed

lemma ref_release_ok:
  assumes inv: "obj_inv s" and r: "r_alive (robjs s r)"
  shows "returns (ttm_ref_object_release r) (upd_ref r (\<lambda>v. v\<lparr>r_kref := k\<rparr>) s) (\<lambda>s' x. x = Inr () \<and> obj_inv s' \<and> gone {r} s s' \<and>
    (\<forall>g. f_list (tfiles s' g) = (if g = r_tfile (robjs s r) then remove1 r (f_list (tfiles s g)) else f_list (tfiles s g))))"
proof -
  let ?s = "upd_ref r (\<lambda>v. v\<lparr>r_kref := k\<rparr>) s"
  let ?b = "r_obj (robjs s r)"
  have v: "r_obj (robjs ?s r) = ?b" "r_type (robjs ?s r) = r_type (robjs s r)" by (simp_all add: ob_simps)
  obtain s1 where s1: "ref_unlink r ?s = Some (s1, Inr ())" "obj_inv s1" "objs s1 = objs s" "dbufs s1 = dbufs s"
    "local_refs s1 = (local_refs s)(?b := Suc (local_refs s ?b))"
    "\<forall>g. f_open (tfiles s1 g) = f_open (tfiles s g) \<and> f_alive (tfiles s1 g) = f_alive (tfiles s g) \<and>
       f_list (tfiles s1 g) = (if g = r_tfile (robjs s r) then remove1 r (f_list (tfiles s g)) else f_list (tfiles s g))"
    "\<forall>q. q \<noteq> r \<longrightarrow> robjs s1 q = robjs s q" "\<not> r_alive (robjs s1 r)"
    using ref_unlink_ok [OF inv r, of k] by (auto simp: returns_iff)
  obtain s2 where s2: "ref_callback ?b (r_type (robjs s r)) s1 = Some (s2, Inr ())" "obj_inv s2" "objs s2 = objs s1" "robjs s2 = robjs s1"
    "tfiles s2 = tfiles s1" "dbufs s2 = dbufs s1" "local_refs s2 = local_refs s1"
    using ref_callback_ok [OF s1(2), of ?b "r_type (robjs s r)"] by (auto simp: returns_iff)
  have b: "b_alive (objs s2 ?b)" "0 < local_refs s2 ?b" using alive_ref(2) [OF inv r] s1 s2 by simp_all
  have c: "refs_of s2 q = refs_of s q - {r}" "bufs_of s2 q = bufs_of s q" for q
  proof -
    have "x \<in> refs_of s2 q \<longleftrightarrow> x \<in> refs_of s q - {r}" for x using s1(7,8) s2(4) by (cases "x = r") (simp_all add: refs_of_def)
    then show "refs_of s2 q = refs_of s q - {r}" by blast
    show "bufs_of s2 q = bufs_of s q" using s1(4) s2(6) by (simp add: bufs_of_def)
  qed
  obtain s3 where s3: "ttm_base_object_unref ?b s2 = Some (s3, Inr ())" "obj_inv s3" "robjs s3 = robjs s2" "dbufs s3 = dbufs s2"
    "local_refs s3 = (local_refs s2)(?b := local_refs s2 ?b - 1)" "\<forall>q. q \<noteq> ?b \<longrightarrow> b_alive (objs s3 q) = b_alive (objs s2 q)"
    "b_alive (objs s3 ?b) \<longleftrightarrow> local_refs s2 ?b \<noteq> 1 \<or> refs_of s2 ?b \<noteq> {} \<or> bufs_of s2 ?b \<noteq> {}"
    "\<forall>g. f_open (tfiles s3 g) = f_open (tfiles s2 g) \<and> f_list (tfiles s3 g) = f_list (tfiles s2 g)"
    using base_unref_ok [OF s2(2) b] by (auto simp: returns_iff)
  let ?s' = "ref_charge (- 1) s3"
  have rin: "r \<in> refs_of s ?b" using r by (simp add: refs_of_def)
  have alive: "b_alive (objs s3 q) \<longleftrightarrow> b_alive (objs s q) \<and> \<not> only_by s {r} q" for q
  proof (cases "q = ?b")
    case True
    have "b_alive (objs s ?b)" using alive_ref(2) [OF inv r] .
    then show ?thesis using True s3(7) rin unfolding c s2(7) s1(5) by (auto simp: only_by_def)
  next
    case False
    then have "r \<notin> refs_of s q" by (simp add: refs_of_def)
    then have "\<not> only_by s {r} q" by (auto simp: only_by_def)
    then show ?thesis using False s3(6) s2(3) s1(3) by simp
  qed
  have "gone {r} s ?s'"
    using s1(4-8) s2(4-7) s3(3-5,8) alive by (simp add: gone_def ob_simps)
  moreover have "obj_inv ?s'" by (rule ref_charge_ok [OF s3(2)])
  ultimately show ?thesis
    using s1(1,6) s2(1,5) s3(1,8) by (simp add: ttm_ref_object_release_def returns_iff run_simps v Let_def andthen_def chain_def ob_simps)
qed

lemma same_kref: "upd_ref r (\<lambda>v. v\<lparr>r_kref := r_kref (robjs s r)\<rparr>) s = s"
  by (simp add: upd_ref_def)

lemma release_refs_ok:
  "obj_inv s \<Longrightarrow> f_list (tfiles s f) = rs \<Longrightarrow>
   \<exists>s'. release_refs f s = Some (s', Inr ()) \<and> obj_inv s' \<and> gone (set rs) s s' \<and> f_list (tfiles s' f) = []"
proof (induction rs arbitrary: s)
  case Nil
  have "\<not> only_by s {} b" for b by (simp add: only_by_def)
  then show ?case using Nil by (simp add: release_refs.simps [of f s] gone_def)
next
  case (Cons r rs)
  have r: "r_alive (robjs s r)" "r_tfile (robjs s r) = f"
    using obj_invD(4) [OF Cons(2), of f] Cons(3) by (auto simp: list_ok_def)
  obtain s1 where s1: "ttm_ref_object_release r s = Some (s1, Inr ())" "obj_inv s1" "gone {r} s s1" "f_list (tfiles s1 f) = rs"
    using ref_release_ok [OF Cons(2) r(1), of "r_kref (robjs s r)"] Cons(3) r(2) unfolding same_kref by (auto simp: returns_iff)
  obtain s2 where s2: "release_refs f s1 = Some (s2, Inr ())" "obj_inv s2" "gone (set rs) s1 s2" "f_list (tfiles s2 f) = []"
    using Cons(1) [OF s1(2,4)] by blast
  have "gone (set (r # rs)) s s2" using gone_trans [OF s1(3) s2(3)] by simp
  then show ?case using s1(1) s2 Cons(3) by (simp add: release_refs.simps [of f s])
qed

lemma close_file_ok:
  assumes inv: "obj_inv s" and f: "f_open (tfiles s f)" "f_list (tfiles s f) = []"
  shows "returns (close_file f) s (\<lambda>s' x. x = Inr () \<and> obj_inv s' \<and> objs s' = objs s \<and> robjs s' = robjs s \<and> dbufs s' = dbufs s \<and>
    local_refs s' = local_refs s \<and> \<not> f_open (tfiles s' f) \<and> (\<forall>g. g \<noteq> f \<longrightarrow> tfiles s' g = tfiles s g))"
proof -
  let ?up = "\<lambda>v. v\<lparr>f_hash := (\<lambda>t. drm_ht_remove (f_hash v t)), f_open := False\<rparr>"
  define u where "u = upd_tfile f (\<lambda>v. v\<lparr>f_refcount := f_refcount v - 1, f_alive := (f_refcount v - 1 \<noteq> 0)\<rparr>) (upd_tfile f ?up s)"
  have fo: "f_alive (tfiles s f)" "1 + int (card (bases_of s f)) \<le> f_refcount (tfiles s f)"
    using obj_invD(8) [OF inv, of f] f by (simp_all add: file_ok_def Let_def)
  have p: "objs u = objs s" "robjs u = robjs s" "dbufs u = dbufs s" "object_hash u = object_hash s" "o_hash u = o_hash s"
    "local_refs u = local_refs s" "ref_mem u = ref_mem s" "unlisted u = unlisted s" "dma_mem u = dma_mem s" by (simp_all add: u_def ob_simps)
  have g: "\<not> f_open (tfiles u f)" "f_list (tfiles u f) = []" "f_refcount (tfiles u f) = f_refcount (tfiles s f) - 1"
    "f_alive (tfiles u f) \<longleftrightarrow> f_refcount (tfiles s f) - 1 \<noteq> 0" "q \<noteq> f \<Longrightarrow> tfiles u q = tfiles s q" for q
    using f by (simp_all add: u_def ob_simps)
  have c: "refs_of u q = refs_of s q" "bufs_of u q = bufs_of s q" "bases_of u q = bases_of s q" for q
    by (simp_all only: refs_of_def bufs_of_def bases_of_def p)
  have no: "r_tfile (robjs s r) \<noteq> f" if "r_alive (robjs s r)" for r
    using obj_invD(4) [OF inv, of f] f(2) that by (auto simp: list_ok_def)
  have "obj_inv u"
    unfolding obj_inv_def
  proof (intro conjI allI)
    show "finite_ok u" using obj_invD(1) [OF inv] unfolding finite_ok_def p .
    show "names_ok u" using obj_invD(2) [OF inv] unfolding names_ok_def p .
    show "table_ok u q t" for q t using obj_invD(3) [OF inv, of q t] g(1,5) by (cases "q = f") (simp_all add: table_ok_def p)
    show "list_ok u q" for q using obj_invD(4) [OF inv, of q] g(2,5) f(2) by (cases "q = f") (simp_all add: list_ok_def p)
    show "ref_ok u r" for r
      using obj_invD(5) [OF inv, of r] no [of r] g(5) by (auto simp: ref_ok_def may_use_def Let_def p)
    show "count_ok u q" for q
    proof (cases "b_alive (objs s q) \<and> b_tfile (objs s q) = f")
      case True
      then have "bases_of s f \<noteq> {}" by (auto simp: bases_of_def)
      then have "0 < card (bases_of s f)" using finite_refs(3) [OF obj_invD(1) [OF inv]] by (simp add: card_gt_0_iff)
      then have "f_alive (tfiles u f)" using g(4) fo(2) by simp
      then show ?thesis using obj_invD(6) [OF inv, of q] True unfolding count_ok_def c p by simp
    next
      case False
      then show ?thesis using obj_invD(6) [OF inv, of q] g(5) unfolding count_ok_def c p by auto
    qed
    show "prime_ok u q" for q using obj_invD(7) [OF inv, of q] unfolding prime_ok_def c p .
    show "file_ok u q" for q
      using obj_invD(8) [OF inv, of q] g(1,3,4,5) fo unfolding file_ok_def c Let_def by (cases "q = f") auto
    show "charges_ok u" using obj_invD(9) [OF inv] unfolding charges_ok_def p .
  qed
  then show ?thesis
    using fo(1) g(5) p by (simp add: close_file_def ttm_object_file_unref_def returns_simps u_def, simp add: ob_simps)
qed

lemma ref_put_ok:
  assumes inv: "obj_inv s" and r: "r_alive (robjs s r)"
  shows "returns (ref_put r) s (\<lambda>s' x. x = Inr () \<and> obj_inv s' \<and>
    (if r_kref (robjs s r) = 1 then gone {r} s s' else s' = upd_ref r (\<lambda>v. v\<lparr>r_kref := r_kref v - 1\<rparr>) s))"
proof -
  let ?k = "r_kref (robjs s r) - 1"
  let ?s = "upd_ref r (\<lambda>v. v\<lparr>r_kref := ?k\<rparr>) s"
  have e: "upd_ref r (\<lambda>v. v\<lparr>r_kref := r_kref v - 1\<rparr>) s = ?s" by (simp add: upd_ref_def)
  have k: "r_kref (robjs ?s r) = ?k" by (simp add: ob_simps)
  have run: "returns (ref_put r) s Q = returns (if ?k = 0 then ttm_ref_object_release r else ok ()) ?s Q" for Q
    by (simp only: ref_put_def returns_andthen returns_modify returns_basic(4) e k sum.case)
  show ?thesis
  proof (cases "?k = 0")
    case True
    have "returns (ttm_ref_object_release r) ?s (\<lambda>s' x. x = Inr () \<and> obj_inv s' \<and> gone {r} s s')"
      by (rule returns_mono [OF ref_release_ok [OF inv r, of ?k]]) blast
    then show ?thesis unfolding run if_P [OF True] using True by simp
  next
    case False
    then have "obj_inv ?s" using inv_kref [OF inv, of ?k r] alive_ref(1) [OF inv r] by simp
    then show ?thesis unfolding run if_not_P [OF False] using False by (simp add: returns_simps e)
  qed
qed

lemma ref_base_unref_ok:
  assumes inv: "obj_inv s" and f: "f_open (tfiles s f)"
  shows "returns (ttm_ref_object_base_unref f k t) s (\<lambda>s' x. obj_inv s' \<and>
    (if \<exists>r. r_alive (robjs s r) \<and> r_tfile (robjs s r) = f \<and> r_type (robjs s r) = t \<and> r_key (robjs s r) = k
     then x = Inr () else x = Inl EINVAL \<and> s' = s))"
proof -
  note h = table_find [OF inv f]
  show ?thesis
  proof (cases "ht_map (o_hash s) (f_hash (tfiles s f) t) k")
    case None
    then have "\<not> (r_alive (robjs s r) \<and> r_tfile (robjs s r) = f \<and> r_type (robjs s r) = t \<and> r_key (robjs s r) = k)" for r
      using h(2) [of t k r] by auto
    then show ?thesis using None inv by (simp add: ttm_ref_object_base_unref_def returns_simps drm_ht.find_law [OF h(1)])
  next
    case (Some r)
    then have r: "r_alive (robjs s r) \<and> r_tfile (robjs s r) = f \<and> r_type (robjs s r) = t \<and> r_key (robjs s r) = k" by (simp add: h(2))
    have ex: "\<exists>r. r_alive (robjs s r) \<and> r_tfile (robjs s r) = f \<and> r_type (robjs s r) = t \<and> r_key (robjs s r) = k" using r by blast
    have "returns (ref_put r) s (\<lambda>s' x. obj_inv s' \<and> x = Inr ())" by (rule returns_mono [OF ref_put_ok [OF inv]]) (use r in auto)
    then show ?thesis using Some by (simp add: ttm_ref_object_base_unref_def returns_simps drm_ht.find_law [OF h(1)] if_P [OF ex])
  qed
qed

lemma new_table:
  assumes "hash_ok hash" "order < 32" "drm_ht_create order kc vm = Inr h"
  shows "drm_ht_ok hash h" "ht_map hash h k = None"
proof -
  have h: "ht_inv hash h" "ht_items h = {}" using create_inv [OF assms(3,2)] by simp_all
  then show "drm_ht_ok hash h" using assms(1) by (simp add: drm_ht_ok_def)
  show "ht_map hash h k = None" using find_key_None [OF assms(1) h(1), of k] h(2) by (simp add: ht_map_def)
qed

lemma open_file_ok:
  assumes inv: "obj_inv s" and f: "\<not> f_alive (tfiles s f)" and h: "\<And>t. drm_ht_ok (o_hash s) (h t)" "\<And>t k. ht_map (o_hash s) (h t) k = None"
  shows "obj_inv (upd_tfile f (\<lambda>_. \<lparr>f_alive = True, f_open = True, f_list = [], f_hash = h, f_refcount = 1\<rparr>) s)" (is "obj_inv ?s")
proof -
  have p: "objs ?s = objs s" "robjs ?s = robjs s" "dbufs ?s = dbufs s" "object_hash ?s = object_hash s" "o_hash ?s = o_hash s"
    "local_refs ?s = local_refs s" "ref_mem ?s = ref_mem s" "unlisted ?s = unlisted s" "dma_mem ?s = dma_mem s" by (simp_all add: ob_simps)
  have g: "tfiles ?s f = \<lparr>f_alive = True, f_open = True, f_list = [], f_hash = h, f_refcount = 1\<rparr>" "q \<noteq> f \<Longrightarrow> tfiles ?s q = tfiles s q" for q
    by (simp_all add: ob_simps)
  have c: "refs_of ?s q = refs_of s q" "bufs_of ?s q = bufs_of s q" "bases_of ?s q = bases_of s q" for q
    by (simp_all only: refs_of_def bufs_of_def bases_of_def p)
  have fo: "\<not> f_open (tfiles s f)" using obj_invD(8) [OF inv, of f] f by (simp add: file_ok_def Let_def)
  have no: "r_tfile (robjs s r) \<noteq> f" if "r_alive (robjs s r)" for r using alive_ref(5) [OF inv that] fo by auto
  have nb: "b_tfile (objs s b) \<noteq> f" if "b_alive (objs s b)" for b using count_alive(2) [OF inv that] f by auto
  then have b: "bases_of s f = {}" by (auto simp: bases_of_def)
  show ?thesis
    unfolding obj_inv_def
  proof (intro conjI allI)
    show "finite_ok ?s" using obj_invD(1) [OF inv] unfolding finite_ok_def p .
    show "names_ok ?s" using obj_invD(2) [OF inv] unfolding names_ok_def p .
    show "table_ok ?s q t" for q t using obj_invD(3) [OF inv, of q t] h no g by (cases "q = f") (auto simp: table_ok_def p)
    show "list_ok ?s q" for q using obj_invD(4) [OF inv, of q] no g by (cases "q = f") (auto simp: list_ok_def p)
    show "ref_ok ?s r" for r using obj_invD(5) [OF inv, of r] no [of r] g(2) by (auto simp: ref_ok_def may_use_def Let_def p)
    show "count_ok ?s q" for q
      using obj_invD(6) [OF inv, of q] nb [of q] g(2) unfolding count_ok_def c p by (cases "b_alive (objs s q)") auto
    show "prime_ok ?s q" for q using obj_invD(7) [OF inv, of q] unfolding prime_ok_def c p .
    show "file_ok ?s q" for q using obj_invD(8) [OF inv, of q] g b unfolding file_ok_def c Let_def by (cases "q = f") auto
    show "charges_ok ?s" using obj_invD(9) [OF inv] unfolding charges_ok_def p .
  qed
qed

lemma file_init_ok:
  assumes inv: "obj_inv s" and o: "order < 32" and k: "\<And>f. km = Some f \<Longrightarrow> \<not> f_alive (tfiles s f)"
  shows "returns (ttm_object_file_init km order al) s (\<lambda>s' x. obj_inv s' \<and> (case x of
      Inl e \<Rightarrow> False | Inr None \<Rightarrow> s' = s | Inr (Some f) \<Rightarrow> km = Some f \<and> f_open (tfiles s' f) \<and> f_list (tfiles s' f) = []))"
proof (cases km)
  case None
  then show ?thesis using inv by (simp add: ttm_object_file_init_def returns_simps)
next
  case (Some f)
  have ok: "hash_ok (o_hash s)" using names_find(1) [OF inv] by (simp add: drm_ht_ok_def)
  let ?t = "\<lambda>t. drm_ht_create order (fst (al t)) (snd (al t))"
  show ?thesis
  proof (cases "\<exists>u r w. ?t TTM_REF_USAGE = Inr u \<and> ?t TTM_REF_SYNCCPU_READ = Inr r \<and> ?t TTM_REF_SYNCCPU_WRITE = Inr w")
    case True
    then obtain u r w where t: "?t TTM_REF_USAGE = Inr u" "?t TTM_REF_SYNCCPU_READ = Inr r" "?t TTM_REF_SYNCCPU_WRITE = Inr w" by blast
    let ?h = "\<lambda>t. case t of TTM_REF_USAGE \<Rightarrow> u | TTM_REF_SYNCCPU_READ \<Rightarrow> r | TTM_REF_SYNCCPU_WRITE \<Rightarrow> w"
    have h: "drm_ht_ok (o_hash s) (?h t)" "ht_map (o_hash s) (?h t) k' = None" for t k'
      using new_table [OF ok o t(1)] new_table [OF ok o t(2)] new_table [OF ok o t(3)] by (cases t; simp)+
    show ?thesis
      using open_file_ok [OF inv k [OF Some], of ?h] h Some t by (simp add: ttm_object_file_init_def returns_simps ob_simps)
  next
    case False
    then have "ttm_object_file_init km order al s = ok None s"
      using Some by (auto simp: ttm_object_file_init_def Let_def split: sum.splits)
    then show ?thesis using inv by (simp add: returns_def run_simps)
  qed
qed

section \<open>DMA buffers\<close>

lemma buf_alive:
  assumes "obj_inv s" "db_alive (dbufs s d)" "db_prime (dbufs s d) = Some b"
  shows "b_alive (objs s b)" "d \<in> bufs_of s b" "f_alive (tfiles s (b_tfile (objs s b)))"
proof -
  show d: "d \<in> bufs_of s b" using assms by (simp add: bufs_of_def)
  then show b: "b_alive (objs s b)" using obj_invD(6) [OF assms(1), of b] by (auto simp: count_ok_def split: if_splits)
  show "f_alive (tfiles s (b_tfile (objs s b)))" using count_alive(2) [OF assms(1) b] .
qed

lemma inv_db_count:
  assumes inv: "obj_inv s" and n: "0 \<le> n"
  shows "obj_inv (upd_dbuf d (\<lambda>v. v\<lparr>db_count := n\<rparr>) s)" (is "obj_inv ?u")
proof -
  have p: "objs ?u = objs s" "robjs ?u = robjs s" "tfiles ?u = tfiles s" "object_hash ?u = object_hash s" "o_hash ?u = o_hash s"
    "local_refs ?u = local_refs s" "ref_mem ?u = ref_mem s" "unlisted ?u = unlisted s" "dma_mem ?u = dma_mem s" by (simp_all add: ob_simps)
  have d: "db_alive (dbufs ?u q) = db_alive (dbufs s q)" "db_prime (dbufs ?u q) = db_prime (dbufs s q)"
    "db_count (dbufs ?u q) = (if q = d then n else db_count (dbufs s q))" for q by (simp_all add: ob_simps)
  have c: "refs_of ?u q = refs_of s q" "bufs_of ?u q = bufs_of s q" "bases_of ?u q = bases_of s q" for q
    by (simp_all only: refs_of_def bufs_of_def bases_of_def p d)
  show ?thesis
    using inv n unfolding obj_inv_def finite_ok_def names_ok_def table_ok_def list_ok_def ref_ok_def may_use_def count_ok_def prime_ok_def
      file_ok_def charges_ok_def c p d by auto
qed

lemma dma_get_ok:
  assumes inv: "obj_inv s" and d: "db_alive (dbufs s d)" "db_count (dbufs s d) \<noteq> 0"
  shows "returns (dma_buf_get d) s (\<lambda>s' x. x = Inr () \<and> obj_inv s' \<and> s' = upd_dbuf d (\<lambda>v. v\<lparr>db_count := db_count v + 1\<rparr>) s)"
    "returns (dma_drop d) s (\<lambda>s' x. x = Inr () \<and> obj_inv s' \<and> s' = upd_dbuf d (\<lambda>v. v\<lparr>db_count := db_count v - 1\<rparr>) s)"
proof -
  have e: "upd_dbuf d (\<lambda>v. v\<lparr>db_count := db_count v + 1\<rparr>) s = upd_dbuf d (\<lambda>v. v\<lparr>db_count := db_count (dbufs s d) + 1\<rparr>) s"
    "upd_dbuf d (\<lambda>v. v\<lparr>db_count := db_count v - 1\<rparr>) s = upd_dbuf d (\<lambda>v. v\<lparr>db_count := db_count (dbufs s d) - 1\<rparr>) s"
    by (simp_all add: upd_dbuf_def)
  have n: "0 < db_count (dbufs s d)" using obj_invD(9) [OF inv] d by (auto simp: charges_ok_def order_less_le)
  have "obj_inv (upd_dbuf d (\<lambda>v. v\<lparr>db_count := db_count v + 1\<rparr>) s)" "obj_inv (upd_dbuf d (\<lambda>v. v\<lparr>db_count := db_count v - 1\<rparr>) s)"
    unfolding e by (rule inv_db_count [OF inv]; use n in simp)+
  then show "returns (dma_buf_get d) s (\<lambda>s' x. x = Inr () \<and> obj_inv s' \<and> s' = upd_dbuf d (\<lambda>v. v\<lparr>db_count := db_count v + 1\<rparr>) s)"
    "returns (dma_drop d) s (\<lambda>s' x. x = Inr () \<and> obj_inv s' \<and> s' = upd_dbuf d (\<lambda>v. v\<lparr>db_count := db_count v - 1\<rparr>) s)"
    using d by (simp_all add: dma_buf_get_def dma_drop_def returns_simps)
qed

lemma new_dma_buf_ok:
  assumes inv: "obj_inv s" and b: "b_alive (objs s b)" "0 < local_refs s b" and d: "\<not> db_alive (dbufs s d)"
  shows "obj_inv (new_dma_buf b d s)"
proof -
  define u where "u = new_dma_buf b d s"
  have p: "robjs u = robjs s" "tfiles u = tfiles s" "object_hash u = object_hash s" "o_hash u = o_hash s" "ref_mem u = ref_mem s"
    "unlisted u = unlisted s" "dma_mem u = dma_mem s + 1" "local_refs u = (local_refs s)(b := local_refs s b - 1)"
    "dbufs u = (dbufs s)(d := \<lparr>db_alive = True, db_count = 1, db_prime = Some b\<rparr>)" by (simp_all add: u_def new_dma_buf_def ob_simps)
  have o: "b_alive (objs u q) = b_alive (objs s q)" "b_key (objs u q) = b_key (objs s q)" "b_tfile (objs u q) = b_tfile (objs s q)"
    "b_shareable (objs u q) = b_shareable (objs s q)" "b_refcount (objs u q) = b_refcount (objs s q)"
    "pr_dma_buf (objs u q) = (if q = b then Some d else pr_dma_buf (objs s q))" for q by (simp_all add: u_def new_dma_buf_def ob_simps)
  have c: "refs_of u q = refs_of s q" "bases_of u q = bases_of s q" "bufs_of u q = (if q = b then insert d (bufs_of s b) else bufs_of s q)" for q
    using d by (auto simp: refs_of_def bases_of_def bufs_of_def p o)
  have fin: "finite (bufs_of s b)" "d \<notin> bufs_of s b" "finite {d. db_alive (dbufs s d)}"
    using finite_refs(2) [OF obj_invD(1) [OF inv]] obj_invD(1) [OF inv] d by (simp_all add: bufs_of_def finite_ok_def)
  have "obj_inv u"
    unfolding obj_inv_def
  proof (intro conjI allI)
    have "{q. db_alive (dbufs u q)} = insert d {q. db_alive (dbufs s q)}" by (auto simp: p(9))
    then show "finite_ok u" using obj_invD(1) [OF inv] by (simp add: finite_ok_def p(1) o)
    show "names_ok u" using obj_invD(2) [OF inv] unfolding names_ok_def p o .
    show "table_ok u q t" for q t using obj_invD(3) [OF inv, of q t] unfolding table_ok_def p .
    show "list_ok u q" for q using obj_invD(4) [OF inv, of q] unfolding list_ok_def p .
    show "ref_ok u r" for r using obj_invD(5) [OF inv, of r] unfolding ref_ok_def may_use_def p o .
    show "count_ok u q" for q
      using obj_invD(6) [OF inv, of q] fin b by (cases "q = b") (simp_all add: count_ok_def c p(2,8) o of_nat_diff)
    show "prime_ok u q" for q using obj_invD(7) [OF inv, of q] by (auto simp: prime_ok_def c o)
    show "file_ok u q" for q using obj_invD(8) [OF inv, of q] unfolding file_ok_def c p .
    have "{q. db_alive (dbufs u q) \<and> db_prime (dbufs u q) \<noteq> None} = insert d {q. db_alive (dbufs s q) \<and> db_prime (dbufs s q) \<noteq> None}"
      by (auto simp: p(9))
    moreover have "finite {q. db_alive (dbufs s q) \<and> db_prime (dbufs s q) \<noteq> None}" using fin(3) by (rule rev_finite_subset) auto
    ultimately show "charges_ok u" using obj_invD(9) [OF inv] d by (simp add: charges_ok_def p)
  qed
  then show ?thesis by (simp add: u_def)
qed

lemma dma_release_ok:
  assumes inv: "obj_inv s" and d: "db_alive (dbufs s d)" "db_prime (dbufs s d) = Some b"
  shows "returns (dma_release d b) s (\<lambda>s' x. x = Inr () \<and> obj_inv s' \<and> b_alive (objs s' b) \<and> local_refs s' = (local_refs s)(b := Suc (local_refs s b)) \<and>
    robjs s' = robjs s \<and> tfiles s' = tfiles s \<and> \<not> db_alive (dbufs s' d))"
proof -
  note a = buf_alive [OF inv d]
  define u where "u = take_local b (upd_base b (\<lambda>v. if pr_dma_buf v = Some d then v\<lparr>pr_dma_buf := None\<rparr> else v)
       (upd_dbuf d (\<lambda>v. v\<lparr>db_alive := False\<rparr>) (s\<lparr>dma_mem := dma_mem s - 1\<rparr>)))"
  have p: "robjs u = robjs s" "tfiles u = tfiles s" "object_hash u = object_hash s" "o_hash u = o_hash s" "ref_mem u = ref_mem s"
    "unlisted u = unlisted s" "dma_mem u = dma_mem s - 1" "local_refs u = (local_refs s)(b := Suc (local_refs s b))" by (simp_all add: u_def ob_simps)
  have o: "b_alive (objs u q) = b_alive (objs s q)" "b_key (objs u q) = b_key (objs s q)" "b_tfile (objs u q) = b_tfile (objs s q)"
    "b_shareable (objs u q) = b_shareable (objs s q)" "b_refcount (objs u q) = b_refcount (objs s q)"
    "pr_dma_buf (objs u q) = Some d' \<longleftrightarrow> pr_dma_buf (objs s q) = Some d' \<and> \<not> (q = b \<and> d' = d)" for q d' by (auto simp: u_def ob_simps)
  have db: "db_alive (dbufs u q) \<longleftrightarrow> db_alive (dbufs s q) \<and> q \<noteq> d" "db_prime (dbufs u q) = db_prime (dbufs s q)" "db_count (dbufs u q) = db_count (dbufs s q)" for q
    by (simp_all add: u_def ob_simps)
  have c: "refs_of u q = refs_of s q" "bases_of u q = bases_of s q" "bufs_of u q = bufs_of s q - {d}" for q
    by (auto simp: refs_of_def bases_of_def bufs_of_def p o db)
  have other: "bufs_of s q - {d} = bufs_of s q" if "q \<noteq> b" for q using that d(2) by (auto simp: bufs_of_def)
  have "obj_inv u"
    unfolding obj_inv_def
  proof (intro conjI allI)
    have "{q. db_alive (dbufs u q)} \<subseteq> {q. db_alive (dbufs s q)}" by (auto simp: db)
    then show "finite_ok u" using obj_invD(1) [OF inv] by (auto simp: finite_ok_def p(1) o intro: finite_subset)
    show "names_ok u" using obj_invD(2) [OF inv] unfolding names_ok_def p o .
    show "table_ok u q t" for q t using obj_invD(3) [OF inv, of q t] unfolding table_ok_def p .
    show "list_ok u q" for q using obj_invD(4) [OF inv, of q] unfolding list_ok_def p .
    show "ref_ok u r" for r using obj_invD(5) [OF inv, of r] unfolding ref_ok_def may_use_def p o .
    show "count_ok u q" for q
    proof (cases "q = b")
      case True
      have "card (bufs_of s b) = Suc (card (bufs_of s b - {d}))" by (rule card.remove [OF finite_refs(2) [OF obj_invD(1) [OF inv]] a(2)])
      then show ?thesis using obj_invD(6) [OF inv, of b] a(1) True by (simp add: count_ok_def c p(2,8) o)
    next
      case False
      then show ?thesis using obj_invD(6) [OF inv, of q] other by (simp add: count_ok_def c p(2,8) o)
    qed
    show "prime_ok u q" for q using obj_invD(7) [OF inv, of q] other [of q] by (auto simp: prime_ok_def c o)
    show "file_ok u q" for q using obj_invD(8) [OF inv, of q] unfolding file_ok_def c p .
    let ?D = "{q. db_alive (dbufs s q) \<and> db_prime (dbufs s q) \<noteq> None}"
    have "finite ?D" using obj_invD(1) [OF inv] unfolding finite_ok_def by (auto elim: rev_finite_subset)
    moreover have "d \<in> ?D" using d by simp
    ultimately have "card ?D = Suc (card (?D - {d}))" by (rule card.remove)
    moreover have "{q. db_alive (dbufs u q) \<and> db_prime (dbufs u q) \<noteq> None} = ?D - {d}" by (auto simp: db)
    ultimately show "charges_ok u" using obj_invD(9) [OF inv] by (simp add: charges_ok_def p db)
  qed
  then show ?thesis using a by (simp add: dma_release_def returns_simps u_def [symmetric], simp add: p o db)
qed

lemma export_ok:
  assumes inv: "obj_inv s" and b: "b_alive (objs s b)" "0 < local_refs s b" and d: "\<And>d. exp = Inr d \<Longrightarrow> \<not> db_alive (dbufs s d)"
  shows "returns (prime_export b mem exp) s (\<lambda>s' x. obj_inv s' \<and> (case x of Inl e \<Rightarrow> s' = s | Inr (d, moved) \<Rightarrow>
    db_alive (dbufs s' d) \<and> db_prime (dbufs s' d) = Some b \<and> 0 < db_count (dbufs s' d) \<and>
    local_refs s' b = (if moved then local_refs s b - 1 else local_refs s b)))"
proof -
  let ?new = "chain (outcome mem) (\<lambda>_. chain (outcome exp) (\<lambda>d. andthen (modify (new_dma_buf b d)) (ok (d, True))))"
  have new: "returns ?new s (\<lambda>s' x. obj_inv s' \<and> (case x of Inl e \<Rightarrow> s' = s | Inr (d, moved) \<Rightarrow>
    db_alive (dbufs s' d) \<and> db_prime (dbufs s' d) = Some b \<and> 0 < db_count (dbufs s' d) \<and>
    local_refs s' b = (if moved then local_refs s b - 1 else local_refs s b)))"
    using inv new_dma_buf_ok [OF inv b] d by (cases mem; cases exp) (simp_all add: returns_simps, simp add: new_dma_buf_def ob_simps)
  show ?thesis
  proof (cases "pr_dma_buf (objs s b)")
    case None
    then show ?thesis using new by (simp add: prime_export_def returns_chain returns_basic)
  next
    case (Some d)
    then have db: "db_alive (dbufs s d)" "db_prime (dbufs s d) = Some b"
      using obj_invD(7) [OF inv, of b] b(1) by (auto simp: prime_ok_def bufs_of_def)
    have n: "0 \<le> db_count (dbufs s d)" using obj_invD(9) [OF inv] db by (simp add: charges_ok_def)
    show ?thesis
    proof (cases "db_count (dbufs s d) = 0")
      case True
      then show ?thesis using Some db new by (simp add: prime_export_def get_dma_buf_unless_doomed_def returns_chain returns_basic)
    next
      case False
      have e: "upd_dbuf d (\<lambda>v. v\<lparr>db_count := db_count v + 1\<rparr>) s = upd_dbuf d (\<lambda>v. v\<lparr>db_count := db_count (dbufs s d) + 1\<rparr>) s"
        by (simp add: upd_dbuf_def)
      have "obj_inv (upd_dbuf d (\<lambda>v. v\<lparr>db_count := db_count v + 1\<rparr>) s)" unfolding e by (rule inv_db_count [OF inv]) (use n in simp)
      then show ?thesis using Some db n False
        by (simp add: prime_export_def get_dma_buf_unless_doomed_def returns_simps, simp add: ob_simps)
    qed
  qed
qed

section \<open>Actions and reachable states\<close>

text \<open>What tasks do, section by section.  \<open>permitted\<close> is what the callers see to: a file is used while it is
  open, a new object is put into memory that is not in use, only who holds a reference gives one back,
  hands it on or withdraws the object, and hash tables have an order below 32.  Lookups need nothing.
  \<open>clean_withdraw\<close> is no rule that anybody keeps but a property of the moment: when a failing
  \<open>ttm_base_object_init\<close> withdraws its object, nobody else has found it in the meantime.  The code does
  not see to it (\<open>withdrawn_object_in_use\<close>).\<close>

datatype obj_action =
    Open_file "nat option" nat "ttm_ref_type \<Rightarrow> bool \<times> bool"
  | Close_file nat
  | Publish nat nat bool ttm_object_type ttm_object_type
  | Withdraw nat
  | Lookup nat u32
  | Lookup_for_ref u32
  | Ref_get nat nat ttm_ref_type
  | Ref_charge int
  | Ref_insert nat nat ttm_ref_type nat
  | Ref_dec nat
  | Ref_unlink nat
  | Ref_callback nat ttm_ref_type
  | Drop nat
  | Release nat
  | Export nat "unit res" "nat res"
  | Dma_get nat
  | Dma_drop nat
  | Dma_release nat

definition in_hands :: "ttm_object_device \<Rightarrow> nat \<Rightarrow> bool" where
  "in_hands s b \<longleftrightarrow> b_alive (objs s b) \<and> b_refcount (objs s b) \<noteq> 0"

fun permitted :: "obj_action \<Rightarrow> ttm_object_device \<Rightarrow> bool" where
  "permitted (Open_file km order al) s = (order < 32 \<and> (case km of None \<Rightarrow> True | Some f \<Rightarrow> \<not> f_alive (tfiles s f)))"
| "permitted (Close_file f) s = (f_open (tfiles s f) \<and> f_list (tfiles s f) = [])"
| "permitted (Publish f b sh ty real) s = (f_open (tfiles s f) \<and> \<not> b_alive (objs s b))"
| "permitted (Withdraw b) s = (0 < local_refs s b)"
| "permitted (Lookup f k) s = f_open (tfiles s f)"
| "permitted (Lookup_for_ref k) s = True"
| "permitted (Ref_get f b t) s = (f_open (tfiles s f) \<and> in_hands s b)"
| "permitted (Ref_charge n) s = True"
| "permitted (Ref_insert f b t r) s = (f_open (tfiles s f) \<and> in_hands s b \<and> may_use s f b \<and> \<not> r_alive (robjs s r))"
| "permitted (Ref_dec r) s = (r_alive (robjs s r) \<and> 1 < r_kref (robjs s r))"
| "permitted (Ref_unlink r) s = r_alive (robjs s r)"
| "permitted (Ref_callback b t) s = True"
| "permitted (Drop b) s = (0 < local_refs s b)"
| "permitted (Release b) s = (b_alive (objs s b) \<and> b_refcount (objs s b) = 0)"
| "permitted (Export b mem exp) s = (0 < local_refs s b \<and> (case exp of Inl e \<Rightarrow> True | Inr d \<Rightarrow> \<not> db_alive (dbufs s d)))"
| "permitted (Dma_get d) s = (db_alive (dbufs s d) \<and> db_count (dbufs s d) \<noteq> 0)"
| "permitted (Dma_drop d) s = (db_alive (dbufs s d) \<and> db_count (dbufs s d) \<noteq> 0)"
| "permitted (Dma_release d) s = (db_alive (dbufs s d) \<and> db_count (dbufs s d) = 0 \<and> db_prime (dbufs s d) \<noteq> None)"

definition clean_withdraw :: "obj_action \<Rightarrow> ttm_object_device \<Rightarrow> bool" where
  "clean_withdraw a s \<longleftrightarrow> (case a of Withdraw b \<Rightarrow> sole_user s b | _ \<Rightarrow> True)"

definition after :: "'a ob \<Rightarrow> ttm_object_device \<Rightarrow> ttm_object_device option" where
  "after m s = map_option fst (m s)"

fun perform :: "obj_action \<Rightarrow> ttm_object_device \<Rightarrow> ttm_object_device option" where
  "perform (Open_file km order al) = after (ttm_object_file_init km order al)"
| "perform (Close_file f) = after (close_file f)"
| "perform (Publish f b sh ty real) = after (publish_base f b sh ty real)"
| "perform (Withdraw b) = after (withdraw_base b)"
| "perform (Lookup f k) = after (ttm_base_object_lookup f k)"
| "perform (Lookup_for_ref k) = after (ttm_base_object_lookup_for_ref k)"
| "perform (Ref_get f b t) = after (ref_get f b t)"
| "perform (Ref_charge n) = after (modify (ref_charge n))"
| "perform (Ref_insert f b t r) = after (ref_insert f b t r)"
| "perform (Ref_dec r) = after (modify (upd_ref r (\<lambda>v. v\<lparr>r_kref := r_kref v - 1\<rparr>)))"
| "perform (Ref_unlink r) = after (ref_unlink r)"
| "perform (Ref_callback b t) = after (ref_callback b t)"
| "perform (Drop b) = after (drop_base b)"
| "perform (Release b) = after (ttm_release_base b)"
| "perform (Export b mem exp) = after (prime_export b mem exp)"
| "perform (Dma_get d) = after (dma_buf_get d)"
| "perform (Dma_drop d) = after (dma_drop d)"
| "perform (Dma_release d) = (\<lambda>s. after (dma_release d (the (db_prime (dbufs s d)))) s)"

inductive obj_reachable :: "ttm_object_device \<Rightarrow> bool" where
  start: "hash_ok hash \<Longrightarrow> order < 32 \<Longrightarrow> ttm_object_device_init km hash order kc vm = Some s \<Longrightarrow> obj_reachable s"
| step: "obj_reachable s \<Longrightarrow> permitted a s \<Longrightarrow> clean_withdraw a s \<Longrightarrow> perform a s = Some s' \<Longrightarrow> obj_reachable s'"

lemma afterI: "returns m s (\<lambda>s' x. obj_inv s' \<and> Q s' x) \<Longrightarrow> \<exists>s'. after m s = Some s' \<and> obj_inv s'"
  by (auto simp: returns_iff after_def)

lemma afterI2: "returns m s (\<lambda>s' x. x = Inr () \<and> obj_inv s' \<and> Q s' x) \<Longrightarrow> \<exists>s'. after m s = Some s' \<and> obj_inv s'"
  by (auto simp: returns_iff after_def)

lemma local_alive: "obj_inv s \<Longrightarrow> 0 < local_refs s b \<Longrightarrow> b_alive (objs s b)"
  using obj_invD(6) [of s b] by (simp add: count_ok_def split: if_splits)

lemma perform_ok:
  assumes inv: "obj_inv s" and p: "permitted a s" and w: "clean_withdraw a s"
  shows "\<exists>s'. perform a s = Some s' \<and> obj_inv s'"
proof (cases a)
  case (Open_file km order al)
  have "order < 32" "\<And>f. km = Some f \<Longrightarrow> \<not> f_alive (tfiles s f)" using p by (simp_all add: Open_file)
  then show ?thesis unfolding Open_file perform.simps by (rule afterI [OF file_init_ok [OF inv]])
next
  case (Close_file f)
  then show ?thesis using p afterI2 [OF close_file_ok [OF inv, of f]] by simp
next
  case (Publish f b sh ty real)
  then show ?thesis using p afterI [OF publish_ok [OF inv, of f b sh ty real]] by simp
next
  case (Withdraw b)
  then show ?thesis using w afterI2 [OF withdraw_ok [OF inv, of b]] by (simp add: clean_withdraw_def)
next
  case (Lookup f k)
  then show ?thesis using p afterI [OF lookup_ok [OF inv, of f k]] by simp
next
  case (Lookup_for_ref k)
  then show ?thesis using afterI [OF lookup_for_ref_ok [OF inv, of k]] by simp
next
  case (Ref_get f b t)
  then show ?thesis using p afterI [OF ref_get_ok [OF inv, of f b t]] by (simp add: in_hands_def)
next
  case (Ref_charge n)
  then show ?thesis using ref_charge_ok [OF inv] by (simp add: after_def run_simps)
next
  case (Ref_insert f b t r)
  then show ?thesis using p afterI [OF ref_insert_ok [OF inv, of f b r t]] by (simp add: in_hands_def)
next
  case (Ref_dec r)
  have "upd_ref r (\<lambda>v. v\<lparr>r_kref := r_kref v - 1\<rparr>) s = upd_ref r (\<lambda>v. v\<lparr>r_kref := r_kref (robjs s r) - 1\<rparr>) s" by (simp add: upd_ref_def)
  then show ?thesis using p Ref_dec inv_kref [OF inv, of "r_kref (robjs s r) - 1" r] by (simp add: after_def run_simps)
next
  case (Ref_unlink r)
  then show ?thesis using p afterI2 [OF ref_unlink_ok [OF inv, of r "r_kref (robjs s r)"]] unfolding same_kref by simp
next
  case (Ref_callback b t)
  then show ?thesis using afterI2 [OF ref_callback_ok [OF inv, of b t]] by simp
next
  case (Drop b)
  then show ?thesis using p local_alive [OF inv] afterI2 [OF drop_base_ok [OF inv, of b]] by simp
next
  case (Release b)
  then show ?thesis using p afterI2 [OF release_ok [OF inv, of b]] by simp
next
  case (Export b mem exp)
  have d: "\<not> db_alive (dbufs s d)" if "exp = Inr d" for d using p Export that by simp
  have l: "0 < local_refs s b" using p Export by simp
  show ?thesis unfolding Export perform.simps by (rule afterI [OF export_ok [OF inv local_alive [OF inv l] l d]])
next
  case (Dma_get d)
  then show ?thesis using p afterI2 [OF dma_get_ok(1) [OF inv, of d]] by simp
next
  case (Dma_drop d)
  then show ?thesis using p afterI2 [OF dma_get_ok(2) [OF inv, of d]] by simp
next
  case (Dma_release d)
  then show ?thesis using p afterI2 [OF dma_release_ok [OF inv, of d "the (db_prime (dbufs s d))"]] by auto
qed

lemma object_device_init_inv:
  assumes "hash_ok hash" "order < 32" "ttm_object_device_init km hash order kc vm = Some s"
  shows "obj_inv s"
proof -
  obtain h where h: "drm_ht_create order kc vm = Inr h" using assms(3) by (auto simp: ttm_object_device_init_def split: if_splits sum.splits)
  note n = new_table [OF assms(1,2) h]
  have "objs s b = no_base" "\<not> r_alive (robjs s r)" "tfiles s f = \<lparr>f_alive = False, f_open = False, f_list = [], f_hash = (\<lambda>_. h), f_refcount = 0\<rparr>"
    "\<not> db_alive (dbufs s d)" "object_hash s = h" "o_hash s = hash" "local_refs s b = 0" "ref_mem s = 0" "unlisted s = 0" "dma_mem s = 0" for b r f d
    using assms(3) h by (auto simp: ttm_object_device_init_def split: if_splits)
  then show ?thesis
    using n by (simp add: obj_inv_def finite_ok_def names_ok_def table_ok_def list_ok_def ref_ok_def count_ok_def prime_ok_def file_ok_def
        charges_ok_def refs_of_def bufs_of_def bases_of_def no_base_def Let_def)
qed

lemma obj_reachable_inv: "obj_reachable s \<Longrightarrow> obj_inv s"
proof (induction rule: obj_reachable.induct)
  case start
  then show ?case by (rule object_device_init_inv)
next
  case (step s a s')
  then show ?case using perform_ok [of s a] by auto
qed

section \<open>Who may end the life of an object\<close>

text \<open>Only a release, and the failure path of the task that is making the object, free one; and once its
  count is zero it stays so.\<close>

definition stays :: "nat \<Rightarrow> ttm_object_device \<Rightarrow> ttm_object_device \<Rightarrow> bool" where
  "stays b s s' \<longleftrightarrow> (b_alive (objs s b) \<longrightarrow> b_alive (objs s' b) \<and> (b_refcount (objs s b) = 0 \<longrightarrow> b_refcount (objs s' b) = 0))"

lemma after_stays:
  "after m s = Some s' \<Longrightarrow> (\<And>s1 x. m s = Some (s1, x) \<Longrightarrow> stays b s s1) \<Longrightarrow> stays b s s'"
  by (auto simp: after_def)

lemma same_objs: "objs s' = objs s \<Longrightarrow> stays b s s'"
  by (simp add: stays_def)

lemma perform_stays:
  assumes inv: "obj_inv s" and p: "permitted a s" and run: "perform a s = Some s'" and a: "a \<noteq> Release b" "a \<noteq> Withdraw b"
  shows "stays b s s'"
proof -
  note d = after_def exec_simps andthen_def chain_def stays_def
  have held: "b_refcount (objs s q) \<noteq> 0" if "0 < local_refs s q" for q
    using that count_zero [OF inv local_alive [OF inv that]] by simp
  have get: "stays b s s1" if "get_base q s = Some (s1, x)" for q s1 x
    using that by (auto simp: get_base_def d ob_simps split: if_splits)
  show ?thesis
  proof (cases a)
    case (Open_file km order al)
    then show ?thesis using run by (auto simp: ttm_object_file_init_def Let_def d ob_simps split: option.splits sum.splits)
  next
    case (Close_file f)
    then show ?thesis using run by (auto simp: close_file_def ttm_object_file_unref_def d ob_simps split: if_splits)
  next
    case (Publish f q sh ty real)
    then show ?thesis using run p by (auto simp: publish_base_def d ob_simps split: option.splits sum.splits)
  next
    case (Withdraw q)
    then show ?thesis using run a by (auto simp: withdraw_base_def d ob_simps)
  next
    case (Lookup f k)
    then show ?thesis using run get by (auto simp: ttm_base_object_lookup_def after_def exec_simps split: sum.splits intro: same_objs)
  next
    case (Lookup_for_ref k)
    then show ?thesis using run get by (auto simp: ttm_base_object_lookup_for_ref_def after_def exec_simps split: sum.splits intro: same_objs)
  next
    case (Ref_get f q t)
    then show ?thesis using run by (auto simp: ref_get_def d ob_simps split: sum.splits if_splits)
  next
    case (Ref_charge n)
    then show ?thesis using run by (auto simp: d ob_simps)
  next
    case (Ref_insert f q t r)
    then show ?thesis using run p by (auto simp: ref_insert_def in_hands_def d ob_simps split: sum.splits if_splits)
  next
    case (Ref_dec r)
    then show ?thesis using run by (auto simp: d ob_simps)
  next
    case (Ref_unlink r)
    then show ?thesis using run by (auto simp: ref_unlink_def Let_def d ob_simps)
  next
    case (Ref_callback q t)
    then show ?thesis using run by (auto simp: ref_callback_def d split: if_splits)
  next
    case (Drop q)
    then show ?thesis using run p held [of q] by (auto simp: drop_base_def d ob_simps split: if_splits)
  next
    case (Release q)
    then show ?thesis using run a
      by (auto simp: ttm_release_base_def ttm_object_file_unref_def ttm_prime_refcount_release_def d ob_simps split: if_splits)
  next
    case (Export q mem exp)
    then show ?thesis using run
      by (auto simp: prime_export_def get_dma_buf_unless_doomed_def new_dma_buf_def d ob_simps split: option.splits sum.splits if_splits)
  next
    case (Dma_get d)
    then show ?thesis using run by (auto simp: dma_buf_get_def after_def exec_simps ob_simps split: if_splits intro!: same_objs)
  next
    case (Dma_drop d)
    then show ?thesis using run by (auto simp: dma_drop_def after_def exec_simps ob_simps split: if_splits intro!: same_objs)
  next
    case (Dma_release e)
    then show ?thesis using run by (auto simp: dma_release_def d ob_simps split: if_splits)
  qed
qed

section \<open>Properties\<close>

lemma obj_reachable_perform: "obj_reachable s \<Longrightarrow> permitted a s \<Longrightarrow> clean_withdraw a s \<Longrightarrow> obj_reachable (the (perform a s))"
  using perform_ok [OF obj_reachable_inv, of s a] by (auto intro: obj_reachable.step)

text \<open>C38: in every run in which a failing \<open>ttm_base_object_init\<close> withdraws its object only while nobody
  else has found it (\<open>clean_withdraw\<close>, at every step so far and at this one), and which the callers
  keep \<open>permitted\<close>: whatever tasks do, in whatever order, with files, base objects, references and DMA buffers, no
  step reads memory that is not in use, gives back what nobody holds or hits a BUG.  A reference of a file
  is to a live object which that file made or which may be shared; whoever holds an object, running code
  or a DMA buffer, holds a live one; the count of a live object is exactly the number of its holders and
  its file structure is there.  An object is freed only by a release, when its count is zero, or by a
  withdrawal; and a count that is zero stays zero until the release.  What happens after a withdrawal
  that comes too late is the subject of \<open>withdrawn_object_in_use\<close> below.\<close>

theorem ttm_objects_safe:
  assumes "obj_reachable s" "permitted a s" "clean_withdraw a s"
  shows "\<exists>s'. perform a s = Some s' \<and> obj_reachable s' \<and>
    (\<forall>r. r_alive (robjs s' r) \<longrightarrow> b_alive (objs s' (r_obj (robjs s' r))) \<and> may_use s' (r_tfile (robjs s' r)) (r_obj (robjs s' r)) \<and>
       f_open (tfiles s' (r_tfile (robjs s' r)))) \<and>
    (\<forall>b. 0 < local_refs s' b \<or> bufs_of s' b \<noteq> {} \<longrightarrow> b_alive (objs s' b)) \<and>
    (\<forall>b. b_alive (objs s' b) \<longrightarrow> f_alive (tfiles s' (b_tfile (objs s' b))) \<and>
       b_refcount (objs s' b) = int (local_refs s' b + card (refs_of s' b) + card (bufs_of s' b))) \<and>
    (\<forall>b. a = Release b \<and> b_refcount (objs s b) = 0 \<or> a = Withdraw b \<or> stays b s s')"
proof -
  note inv = obj_reachable_inv [OF assms(1)]
  obtain s' where s': "perform a s = Some s'" "obj_inv s'" using perform_ok [OF inv assms(2,3)] by blast
  have "b_alive (objs s' b)" if "0 < local_refs s' b \<or> bufs_of s' b \<noteq> {}" for b
    using that local_alive [OF s'(2)] dead_base(2) [OF s'(2)] by blast
  moreover have "a = Release b \<and> b_refcount (objs s b) = 0 \<or> a = Withdraw b \<or> stays b s s'" for b
    using perform_stays [OF inv assms(2) s'(1), of b] assms(2) by (cases "a = Release b"; cases "a = Withdraw b") simp_all
  ultimately show ?thesis
    using s'(1) obj_reachable.step [OF assms s'(1)] alive_ref(2,4,5) [OF s'(2)] count_alive [OF s'(2)] by blast
qed

text \<open>C39: closing a file ends and gives up all its references and only those, of every type: the references of other files stay,
  and an object is freed exactly if nobody else held it.\<close>

theorem ttm_object_file_release_correct:
  assumes "obj_reachable s" "f_open (tfiles s f)"
  shows "\<exists>s'. ttm_object_file_release f s = Some (s', Inr ()) \<and> obj_inv s' \<and> \<not> f_open (tfiles s' f) \<and>
    (\<forall>g. g \<noteq> f \<longrightarrow> f_open (tfiles s' g) = f_open (tfiles s g)) \<and>
    (\<forall>r. r_alive (robjs s' r) \<longleftrightarrow> r_alive (robjs s r) \<and> r_tfile (robjs s r) \<noteq> f) \<and>
    (\<forall>b. b_alive (objs s' b) \<longleftrightarrow> b_alive (objs s b) \<and> \<not> only_by s {r. r_alive (robjs s r) \<and> r_tfile (robjs s r) = f} b)"
proof -
  let ?R = "{r. r_alive (robjs s r) \<and> r_tfile (robjs s r) = f}"
  note inv = obj_reachable_inv [OF assms(1)]
  have R: "set (f_list (tfiles s f)) = ?R" using obj_invD(4) [OF inv, of f] by (simp add: list_ok_def)
  obtain s1 where s1: "release_refs f s = Some (s1, Inr ())" "obj_inv s1" "gone ?R s s1" "f_list (tfiles s1 f) = []"
    using release_refs_ok [OF inv refl, of f] unfolding R by blast
  have "f_open (tfiles s1 f)" using s1(3) assms(2) by (simp add: gone_def)
  from close_file_ok [OF s1(2) this s1(4)] obtain s2 where s2: "close_file f s1 = Some (s2, Inr ())" "obj_inv s2" "objs s2 = objs s1"
    "robjs s2 = robjs s1" "\<not> f_open (tfiles s2 f)" "\<forall>g. g \<noteq> f \<longrightarrow> tfiles s2 g = tfiles s1 g" by (auto simp: returns_iff)
  have "r_alive (robjs s1 r) \<longleftrightarrow> r_alive (robjs s r) \<and> r_tfile (robjs s r) \<noteq> f" for r
    using s1(3) by (cases "r \<in> ?R") (auto simp: gone_def)
  then show ?thesis
    using s1(1,3) s2 by (simp add: ttm_object_file_release_def andthen_def chain_def gone_def)
qed

section \<open>A client's view\<close>

lemma lookup_exact:
  assumes "obj_inv s" "f_open (tfiles s f)" "b_alive (objs s b)" "b_key (objs s b) = ucast k"
  shows "returns (ttm_base_object_lookup f k) s (\<lambda>s' x. x = Inr (if has_ref s f b TTM_REF_USAGE then Some b else None))"
proof (rule returns_mono [OF lookup_ok [OF assms(1,2), of k]])
  fix s' and x :: "nat option res"
  assume L: "obj_inv s' \<and> counted s s' \<and> (case x of
      Inl e \<Rightarrow> False
    | Inr None \<Rightarrow> s' = s \<and> (\<forall>r. r_alive (robjs s r) \<and> r_tfile (robjs s r) = f \<and> r_type (robjs s r) = TTM_REF_USAGE \<longrightarrow> r_key (robjs s r) \<noteq> ucast k)
    | Inr (Some b) \<Rightarrow> local_refs s' = (local_refs s)(b := Suc (local_refs s b)) \<and> b_alive (objs s b) \<and> b_key (objs s b) = ucast k \<and>
        may_use s f b \<and> (\<exists>r. r \<in> refs_of s b \<and> r_tfile (robjs s r) = f \<and> r_type (robjs s r) = TTM_REF_USAGE))"
  consider "x = Inr None" | c where "x = Inr (Some c)" using L by (cases x) (auto split: option.splits)
  then show "x = Inr (if has_ref s f b TTM_REF_USAGE then Some b else None)"
  proof cases
    case 1
    have "\<not> has_ref s f b TTM_REF_USAGE" using L 1 alive_ref(3) [OF assms(1)] assms(4) by (auto simp: has_ref_def refs_of_def)
    then show ?thesis using 1 by simp
  next
    case (2 c)
    then have "c = b" using L key_unique [OF assms(1) _ assms(3), of c] assms(4) by auto
    then show ?thesis using 2 L by (auto simp: has_ref_def)
  qed
qed

text \<open>C40: an open file finds an object by its name exactly if it has a reference to it.  It gets one, in one round of the
  loop when no other task interferes, exactly if it made the object or the object may be shared, and the
  result says whether it had one already; else the answer is \<open>EPERM\<close> and nothing changes.\<close>

theorem ttm_ref_object_add_gives_access:
  assumes "obj_reachable s" "f_open (tfiles s f)" "in_hands s b" "b_key (objs s b) = ucast k"
    "fst rnd 0 = (Inr (), Some r)" "\<not> r_alive (robjs s r)" "snd rnd 0 = (\<lambda>s. s)"
  shows "returns (ttm_base_object_lookup f k) s (\<lambda>s' x. x = Inr (if has_ref s f b TTM_REF_USAGE then Some b else None)) \<and>
    (if may_use s f b
     then returns (ttm_ref_object_add rnd (Suc n) f b TTM_REF_USAGE) s (\<lambda>s' x. x = Inr (has_ref s f b TTM_REF_USAGE) \<and>
       returns (ttm_base_object_lookup f k) s' (\<lambda>s'' y. y = Inr (Some b)))
     else ttm_ref_object_add rnd (Suc n) f b TTM_REF_USAGE s = Some (s, Inl EPERM))"
proof -
  note inv = obj_reachable_inv [OF assms(1)]
  have b: "b_alive (objs s b)" using assms(3) by (simp add: in_hands_def)
  have run: "ttm_ref_object_add rnd (Suc n) f b TTM_REF_USAGE s =
      (if may_use s f b then ref_add_loop rnd (Suc n) 0 f b TTM_REF_USAGE s else Some (s, Inl EPERM))"
    using b by (simp add: ttm_ref_object_add_def run_simps may_use_def)
  obtain s1 where s1: "ref_get f b TTM_REF_USAGE s = Some (s1, Inr (has_ref s f b TTM_REF_USAGE))" "obj_inv s1" "objs s1 = objs s"
    "tfiles s1 = tfiles s" "if has_ref s f b TTM_REF_USAGE then has_ref s1 f b TTM_REF_USAGE else s1 = s"
    using ref_get_ok [OF inv assms(2) b, of TTM_REF_USAGE] by (auto simp: returns_iff split: if_splits)
  have may: "returns (ref_add_loop rnd (Suc n) 0 f b TTM_REF_USAGE) s (\<lambda>s' x. x = Inr (has_ref s f b TTM_REF_USAGE) \<and>
       returns (ttm_base_object_lookup f k) s' (\<lambda>s'' y. y = Inr (Some b)))" if m: "may_use s f b"
  proof (cases "has_ref s f b TTM_REF_USAGE")
    case True
    have "returns (ttm_base_object_lookup f k) s1 (\<lambda>s'' y. y = Inr (Some b))"
      using lookup_exact [OF s1(2), of f b k] s1(3-5) assms(2,4) b True by simp
    then show ?thesis using s1(1) True by (simp add: returns_iff chain_def run_simps)
  next
    case False
    let ?c = "ref_charge 1 s"
    have c: "f_open (tfiles ?c f)" "b_alive (objs ?c b)" "may_use ?c f b" "\<not> r_alive (robjs ?c r)" "\<not> has_ref ?c f b TTM_REF_USAGE"
      using assms(2,6) b m False by (simp_all add: ob_simps may_use_def has_ref_def refs_of_def)
    obtain s2 where s2: "ref_insert f b TTM_REF_USAGE r ?c = Some (s2, Inr True)" "obj_inv s2" "has_ref s2 f b TTM_REF_USAGE"
      "b_alive (objs s2 b)" "b_key (objs s2 b) = b_key (objs s b)" "f_open (tfiles s2 f)"
      using ref_insert_ok [OF ref_charge_ok [OF inv] c(1-4), of TTM_REF_USAGE] c(1,2,5) by (auto simp: returns_iff ob_simps)
    have "returns (ttm_base_object_lookup f k) s2 (\<lambda>s'' y. y = Inr (Some b))"
      using lookup_exact [OF s2(2,6,4), of k] s2(3,5) assms(4) by simp
    then show ?thesis
      using s1(1,5) s2(1) False assms(5,7) by (simp add: returns_iff chain_def andthen_def run_simps)
  qed
  show ?thesis using lookup_exact [OF inv assms(2) b assms(4)] may run by (simp add: returns_iff)
qed

section \<open>Witnesses\<close>

text \<open>File 0 makes object 0, which may be shared, takes a reference to it, and the task gives back its own.\<close>

definition demo_dev :: ttm_object_device where
  "demo_dev = the (ttm_object_device_init True mod_hash 1 True True)"

definition demo_open :: ttm_object_device where
  "demo_open = the (perform (Open_file (Some 0) 1 (\<lambda>_. (True, True))) demo_dev)"

definition demo_made :: ttm_object_device where
  "demo_made = the (perform (Publish 0 0 True ttm_buffer_type ttm_buffer_type) demo_open)"

definition demo_ref :: ttm_object_device where
  "demo_ref = the (perform (Ref_insert 0 0 TTM_REF_USAGE 0) demo_made)"

definition demo_table :: drm_open_hash where
  "demo_table = \<lparr>ht_size = 2, ht_order = 1, fill = 0, table = Some [[], []], use_vmalloc = False\<rparr>"

lemma demo_create: "drm_ht_create (Suc 0) True True = Inr demo_table"
proof -
  have "unat (push_bit (Suc 0) (1 :: u32)) = Suc (Suc 0)" using table_size [of 1] by simp
  then show ?thesis by (simp add: drm_ht_create_def demo_table_def PAGE_SIZE_def Let_def numeral_2_eq_2)
qed

lemma demo_insert: "drm_ht_insert_item mod_hash demo_table \<lparr>key = 0, addr = 0\<rparr> = Inr (demo_table\<lparr>fill := 1, table := Some [[\<lparr>key = 0, addr = 0\<rparr>], []]\<rparr>)"
  by (simp add: drm_ht_insert_item_def demo_table_def buckets_def mod_hash_def)

lemma demo_please: "drm_ht_just_insert_please mod_hash demo_table 0 0 31 0 0 = Some (Inr (demo_table\<lparr>fill := 1, table := Some [[\<lparr>key = 0, addr = 0\<rparr>], []]\<rparr>, 0))"
proof -
  obtain m where m: "(2 :: nat) ^ 31 = Suc m" by (metis not0_implies_Suc power_not_zero zero_neq_numeral)
  have z: "mod_hash 0 31 = 0" by (simp add: mod_hash_def)
  show ?thesis
    unfolding drm_ht_just_insert_please_def Let_def m just_insert_loop.simps z by (simp add: demo_insert)
qed

lemma demo_dev_fields: "tfiles demo_dev = (\<lambda>_. \<lparr>f_alive = False, f_open = False, f_list = [], f_hash = (\<lambda>_. demo_table), f_refcount = 0\<rparr>)"
  "objs demo_dev = (\<lambda>_. no_base)" "object_hash demo_dev = demo_table" "o_hash demo_dev = mod_hash" "local_refs demo_dev = (\<lambda>_. 0)"
  "\<not> r_alive (robjs demo_dev r)" "\<not> db_alive (dbufs demo_dev d)"
  by (simp_all add: demo_dev_def ttm_object_device_init_def demo_create)

lemma demo_open_eq: "demo_open = upd_tfile 0 (\<lambda>_. \<lparr>f_alive = True, f_open = True, f_list = [],
    f_hash = (\<lambda>t. case t of TTM_REF_USAGE \<Rightarrow> demo_table | TTM_REF_SYNCCPU_READ \<Rightarrow> demo_table | TTM_REF_SYNCCPU_WRITE \<Rightarrow> demo_table), f_refcount = 1\<rparr>) demo_dev"
  by (simp add: demo_open_def ttm_object_file_init_def after_def andthen_def chain_def run_simps Let_def demo_create)

lemma demo_open_fields: "f_open (tfiles demo_open 0)" "\<not> b_alive (objs demo_open 0)" "f_hash (tfiles demo_open 0) TTM_REF_USAGE = demo_table"
  "object_hash demo_open = demo_table" "o_hash demo_open = mod_hash" "local_refs demo_open = (\<lambda>_. 0)" "\<not> r_alive (robjs demo_open r)"
  "\<not> db_alive (dbufs demo_open d)" "f_list (tfiles demo_open 0) = []"
  by (simp_all add: demo_open_eq ob_simps demo_dev_fields no_base_def)

lemma object_hash_update_fields [ob_simps]:
  "objs (object_hash_update h s) = objs s" "robjs (object_hash_update h s) = robjs s" "tfiles (object_hash_update h s) = tfiles s"
  "dbufs (object_hash_update h s) = dbufs s" "local_refs (object_hash_update h s) = local_refs s" "o_hash (object_hash_update h s) = o_hash s"
  by simp_all

lemma demo_made_fields: "f_open (tfiles demo_made 0)" "b_alive (objs demo_made 0)" "b_key (objs demo_made 0) = 0" "b_refcount (objs demo_made 0) = 1"
  "b_shareable (objs demo_made 0)" "f_hash (tfiles demo_made 0) TTM_REF_USAGE = demo_table" "o_hash demo_made = mod_hash"
  "local_refs demo_made 0 = 1" "\<not> r_alive (robjs demo_made r)" "f_list (tfiles demo_made 0) = []" "\<not> db_alive (dbufs demo_made d)" "b_tfile (objs demo_made 0) = 0"
  by (simp_all add: demo_made_def publish_base_def after_def andthen_def chain_def run_simps ob_simps demo_open_fields demo_please new_base_def)

lemma demo_ref_fields: "f_open (tfiles demo_ref 0)" "b_alive (objs demo_ref 0)" "local_refs demo_ref 0 = 1"
  "r_alive (robjs demo_ref r) \<longleftrightarrow> r = 0" "r_obj (robjs demo_ref 0) = 0" "r_tfile (robjs demo_ref 0) = 0" "\<not> db_alive (dbufs demo_ref d)"
  by (auto simp: demo_ref_def ref_insert_def after_def andthen_def chain_def run_simps ob_simps demo_made_fields demo_insert)

lemma demo_reachable: "obj_reachable demo_dev" "obj_reachable demo_open" "obj_reachable demo_made" "obj_reachable demo_ref"
proof -
  have "\<exists>s. ttm_object_device_init True mod_hash 1 True True = Some s" by (simp add: ttm_object_device_init_def demo_create)
  then show r1: "obj_reachable demo_dev" unfolding demo_dev_def by (auto intro: obj_reachable.start [OF mod_hash_ok, where order = 1])
  show r2: "obj_reachable demo_open" unfolding demo_open_def by (rule obj_reachable_perform [OF r1]) (simp_all add: demo_dev_fields clean_withdraw_def)
  show r3: "obj_reachable demo_made" unfolding demo_made_def by (rule obj_reachable_perform [OF r2]) (simp_all add: demo_open_fields clean_withdraw_def)
  show "obj_reachable demo_ref" unfolding demo_ref_def
    by (rule obj_reachable_perform [OF r3]) (simp_all add: demo_made_fields in_hands_def may_use_def clean_withdraw_def)
qed

text \<open>The object of file 0 is found in the table of the device while its maker still holds it; the maker's
  initialisation then fails and withdraws it.  Each step is permitted, and the task that found the
  object gives back a reference to freed memory.\<close>

lemma withdrawn_object_in_use:
  "\<exists>s1 s2. perform (Lookup_for_ref 0) demo_made = Some s1 \<and> obj_reachable s1 \<and>
     permitted (Withdraw 0) s1 \<and> perform (Withdraw 0) s1 = Some s2 \<and>
     permitted (Drop 0) s2 \<and> \<not> b_alive (objs s2 0) \<and> perform (Drop 0) s2 = None"
proof -
  note inv = obj_reachable_inv [OF demo_reachable(3)]
  have "ht_map (o_hash demo_made) (object_hash demo_made) 0 = Some 0"
    using names_find(2) [OF inv, of 0 0] by (simp add: demo_made_fields)
  then obtain it where it: "drm_ht_find_item (o_hash demo_made) (object_hash demo_made) 0 = Inr it" "addr it = 0"
    using drm_ht.find_law [OF names_find(1) [OF inv], of 0] by (auto split: option.splits)
  let ?s1 = "take_local 0 (upd_base 0 (\<lambda>v. v\<lparr>b_refcount := b_refcount v + 1\<rparr>) demo_made)"
  have s1: "perform (Lookup_for_ref 0) demo_made = Some ?s1"
    using it by (simp add: ttm_base_object_lookup_for_ref_def get_base_def after_def andthen_def chain_def run_simps demo_made_fields)
  have r: "obj_reachable ?s1"
    by (rule obj_reachable.step [OF demo_reachable(3) _ _ s1]) (simp_all add: clean_withdraw_def)
  have n: "local_refs ?s1 0 = 2" by (simp add: ob_simps demo_made_fields)
  let ?s2 = "drop_local 0 (upd_base 0 (\<lambda>v. v\<lparr>b_alive := False\<rparr>) (?s1\<lparr>object_hash := drm_ht_remove_item (object_hash ?s1) 0\<rparr>))"
  have s2: "perform (Withdraw 0) ?s1 = Some ?s2" by (simp add: withdraw_base_def after_def run_simps)
  have d: "\<not> b_alive (objs ?s2 0)" "local_refs ?s2 0 = 1" using n by (simp_all add: ob_simps)
  have "perform (Drop 0) ?s2 = None" using d(1) by (simp add: drop_base_def after_def run_simps)
  with s1 r s2 d n show ?thesis by auto
qed

theorem ttm_objects_safe_witness:
  "\<exists>s'. perform (Drop 0) demo_ref = Some s' \<and> obj_reachable s' \<and> b_alive (objs s' 0) \<and> stays 0 demo_ref s'"
proof -
  have "permitted (Drop 0) demo_ref" by (simp add: demo_ref_fields)
  from ttm_objects_safe [OF demo_reachable(4) this] have
    "\<exists>s'. perform (Drop 0) demo_ref = Some s' \<and> obj_reachable s' \<and> (\<forall>b. stays b demo_ref s')"
    by (auto simp: clean_withdraw_def)
  then obtain s' where s': "perform (Drop 0) demo_ref = Some s'" "obj_reachable s'" "stays 0 demo_ref s'"
    by blast
  moreover from this have "b_alive (objs s' 0)" using demo_ref_fields(2) by (simp add: stays_def)
  ultimately show ?thesis by blast
qed

theorem ttm_object_file_release_correct_witness:
  "\<exists>s' s2. perform (Drop 0) demo_ref = Some s' \<and> b_alive (objs s' 0) \<and> ttm_object_file_release 0 s' = Some (s2, Inr ()) \<and>
     \<not> b_alive (objs s2 0) \<and> \<not> r_alive (robjs s2 0)"
proof -
  define s where "s = the (perform (Drop 0) demo_ref)"
  have s: "perform (Drop 0) demo_ref = Some s" "b_alive (objs s 0)" "local_refs s 0 = 0" "robjs s = robjs demo_ref" "dbufs s = dbufs demo_ref"
    "tfiles s = tfiles demo_ref"
    by (simp_all add: s_def drop_base_def after_def run_simps demo_ref_fields ob_simps)
  have "obj_reachable s" by (rule obj_reachable.step [OF demo_reachable(4) _ _ s(1)]) (simp_all add: demo_ref_fields clean_withdraw_def)
  moreover have "f_open (tfiles s 0)" by (simp add: s(6) demo_ref_fields)
  moreover have "only_by s {r. r_alive (robjs s r) \<and> r_tfile (robjs s r) = 0} 0"
    by (auto simp: only_by_def refs_of_def bufs_of_def s demo_ref_fields)
  ultimately show ?thesis using ttm_object_file_release_correct [of s 0] s by (auto simp: demo_ref_fields)
qed

theorem ttm_ref_object_add_gives_access_witness:
  "returns (ttm_base_object_lookup 0 0) demo_made (\<lambda>s' x. x = Inr None) \<and>
   returns (ttm_ref_object_add (\<lambda>_. (Inr (), Some 0), \<lambda>_ s. s) (Suc 0) 0 0 TTM_REF_USAGE) demo_made (\<lambda>s' x. x = Inr False \<and>
     returns (ttm_base_object_lookup 0 0) s' (\<lambda>s'' y. y = Inr (Some 0)))"
proof -
  have no: "\<not> has_ref demo_made 0 0 TTM_REF_USAGE" by (simp add: has_ref_def refs_of_def demo_made_fields)
  have may: "may_use demo_made 0 0" by (simp add: may_use_def demo_made_fields)
  have hold: "in_hands demo_made 0" by (simp add: in_hands_def demo_made_fields)
  show ?thesis
    using ttm_ref_object_add_gives_access [OF demo_reachable(3) demo_made_fields(1) hold, of 0 "(\<lambda>_. (Inr (), Some 0), \<lambda>_ s. s)" 0 0] no may
    by (simp add: demo_made_fields)
qed

end
