(* ===== verification/Drm_Mm.thy ===== *)
theory Drm_Mm
  imports Prelude "HOL-Library.Sublist"
begin

text \<open>
  The range allocator of \<open>drm_mm.c\<close>.  A manager keeps all its nodes, free and allocated,
  on \<open>node_list\<close> in address order; the free ones are also on \<open>free_stack\<close>, most recently
  freed first; \<open>unused_nodes\<close> holds node structures kept for allocations that must not
  fail.  A node is a record with its address \<open>nid\<close>; \<open>free_stack\<close> holds addresses.
  A node that scanning takes off \<open>node_list\<close> stays in memory: it is kept in \<open>hidden\<close>.
  \<open>unsigned long\<close> is 64 bits wide and \<open>unsigned\<close> 32.

  The result \<open>None\<close> of an operation is a \<open>BUG_ON\<close> that fires, or a node pointer that is no
  node of the manager.
\<close>

record drm_mm_node =
  nid :: nat
  nfree :: bool
  scanned_block :: bool
  scanned_prev_free :: bool
  scanned_next_free :: bool
  nstart :: u64
  nsize :: u64
  scan_prev :: "nat option"
  scan_next :: "nat option"

record drm_mm =
  free_stack :: "nat list"
  node_list :: "drm_mm_node list"
  unused_nodes :: "drm_mm_node list"
  num_unused :: int
  scan_alignment :: u32
  scan_size :: u64
  scan_hit_start :: u64
  scan_hit_size :: u32
  scanned_blocks :: u32
  hidden :: "drm_mm_node list"

definition MM_UNUSED_TARGET :: int where
  "MM_UNUSED_TARGET = 4"

section \<open>The node list\<close>

fun node_at :: "nat \<Rightarrow> drm_mm_node list \<Rightarrow> drm_mm_node option" where
  "node_at p [] = None"
| "node_at p (n # ns) = (if nid n = p then Some n else node_at p ns)"

fun prev_of :: "nat \<Rightarrow> drm_mm_node list \<Rightarrow> drm_mm_node option" where
  "prev_of p (a # b # ns) = (if nid b = p then Some a else prev_of p (b # ns))"
| "prev_of p _ = None"

fun next_of :: "nat \<Rightarrow> drm_mm_node list \<Rightarrow> drm_mm_node option" where
  "next_of p (a # b # ns) = (if nid a = p then Some b else next_of p (b # ns))"
| "next_of p _ = None"

definition replace_node :: "nat \<Rightarrow> (drm_mm_node \<Rightarrow> drm_mm_node list) \<Rightarrow> drm_mm_node list \<Rightarrow> drm_mm_node list" where
  "replace_node p f ns = concat (map (\<lambda>n. if nid n = p then f n else [n]) ns)"

definition upd_node :: "nat \<Rightarrow> (drm_mm_node \<Rightarrow> drm_mm_node) \<Rightarrow> drm_mm_node list \<Rightarrow> drm_mm_node list" where
  "upd_node p f = replace_node p (\<lambda>n. [f n])"

definition del_node :: "nat \<Rightarrow> drm_mm_node list \<Rightarrow> drm_mm_node list" where
  "del_node p = replace_node p (\<lambda>n. [])"

section \<open>Node structures\<close>

definition zeroed_node :: "nat \<Rightarrow> drm_mm_node" where
  "zeroed_node i = \<lparr>nid = i, nfree = False, scanned_block = False, scanned_prev_free = False,
     scanned_next_free = False, nstart = 0, nsize = 0, scan_prev = None, scan_next = None\<rparr>"

text \<open>\<open>k\<close> is what \<open>kzalloc\<close> returns: the address of zeroed memory, or \<open>None\<close>.  A node taken
  from the unused list is as it was left there.\<close>

definition drm_mm_kmalloc :: "drm_mm \<Rightarrow> nat option \<Rightarrow> drm_mm \<times> drm_mm_node option" where
  "drm_mm_kmalloc mm k =
     (case k of
        Some i \<Rightarrow> (mm, Some (zeroed_node i))
      | None \<Rightarrow>
          (case unused_nodes mm of
             [] \<Rightarrow> (mm, None)
           | c # us \<Rightarrow> (mm\<lparr>unused_nodes := us, num_unused := num_unused mm - 1\<rparr>, Some c)))"

text \<open>The loop of \<open>drm_mm_pre_get\<close>; the argument lists the results of the successive
  allocations.\<close>

fun drm_mm_pre_get :: "drm_mm \<Rightarrow> nat option list \<Rightarrow> drm_mm \<times> unit res" where
  "drm_mm_pre_get mm ks =
     (if num_unused mm < MM_UNUSED_TARGET then
        (case ks of
           Some i # ks' \<Rightarrow>
             drm_mm_pre_get (mm\<lparr>num_unused := num_unused mm + 1,
                               unused_nodes := unused_nodes mm @ [zeroed_node i]\<rparr>) ks'
         | _ \<Rightarrow> (mm, if num_unused mm < 2 then Inl ENOMEM else Inr ()))
      else (mm, Inr ()))"

definition release_node :: "drm_mm_node \<Rightarrow> drm_mm \<Rightarrow> drm_mm" where
  "release_node n mm =
     (if num_unused mm < MM_UNUSED_TARGET
      then mm\<lparr>unused_nodes := n # unused_nodes mm, num_unused := num_unused mm + 1\<rparr>
      else mm)"

definition drm_mm_create_tail_node :: "drm_mm \<Rightarrow> u64 \<Rightarrow> u64 \<Rightarrow> nat option \<Rightarrow> drm_mm \<times> unit res" where
  "drm_mm_create_tail_node mm start sz k =
     (case drm_mm_kmalloc mm k of
        (mm', None) \<Rightarrow> (mm', Inl ENOMEM)
      | (mm', Some c) \<Rightarrow>
          (mm'\<lparr>node_list := node_list mm' @ [c\<lparr>nfree := True, nsize := sz, nstart := start\<rparr>],
               free_stack := free_stack mm' @ [nid c]\<rparr>, Inr ()))"

definition drm_mm_init :: "u64 \<Rightarrow> u64 \<Rightarrow> nat option \<Rightarrow> drm_mm \<times> unit res" where
  "drm_mm_init start sz k =
     drm_mm_create_tail_node
       \<lparr>free_stack = [], node_list = [], unused_nodes = [], num_unused = 0, scan_alignment = 0,
        scan_size = 0, scan_hit_start = 0, scan_hit_size = 0, scanned_blocks = 0, hidden = []\<rparr>
       start sz k"

section \<open>Allocation\<close>

definition drm_mm_split_at_start :: "drm_mm \<Rightarrow> nat \<Rightarrow> u64 \<Rightarrow> nat option \<Rightarrow> drm_mm \<times> nat option" where
  "drm_mm_split_at_start mm p sz k =
     (case drm_mm_kmalloc mm k of
        (mm', None) \<Rightarrow> (mm', None)
      | (mm', Some c) \<Rightarrow>
          (mm'\<lparr>node_list := replace_node p
                 (\<lambda>n. [c\<lparr>nsize := sz, nstart := nstart n\<rparr>,
                       n\<lparr>nsize := nsize n - sz, nstart := nstart n + sz\<rparr>]) (node_list mm')\<rparr>,
           Some (nid c)))"

definition drm_mm_put_block :: "drm_mm \<Rightarrow> nat \<Rightarrow> drm_mm option" where
  "drm_mm_put_block mm c =
     (case node_at c (node_list mm) of
        None \<Rightarrow> None
      | Some cur \<Rightarrow>
          if scanned_block cur \<or> scanned_prev_free cur \<or> scanned_next_free cur then None
          else
            (let prev = (case prev_of c (node_list mm) of
                           Some a \<Rightarrow> if nfree a then Some a else None | None \<Rightarrow> None);
                 nxt = (case next_of c (node_list mm) of
                          Some b \<Rightarrow> if nfree b then Some b else None | None \<Rightarrow> None);
                 grow = (\<lambda>by n. n\<lparr>nsize := nsize n + by\<rparr>);
                 ns = node_list mm
             in case (prev, nxt) of
                  (None, None) \<Rightarrow>
                    Some (mm\<lparr>node_list := upd_node c (\<lambda>n. n\<lparr>nfree := True\<rparr>) ns,
                             free_stack := c # free_stack mm\<rparr>)
                | (Some a, None) \<Rightarrow>
                    Some (release_node cur
                      (mm\<lparr>node_list := del_node c (upd_node (nid a) (grow (nsize cur)) ns)\<rparr>))
                | (None, Some b) \<Rightarrow>
                    Some (release_node cur
                      (mm\<lparr>node_list := del_node c
                            (upd_node (nid b) (\<lambda>n. (grow (nsize cur) n)\<lparr>nstart := nstart cur\<rparr>) ns)\<rparr>))
                | (Some a, Some b) \<Rightarrow>
                    Some (release_node cur (release_node b
                      (mm\<lparr>node_list := del_node c (del_node (nid b)
                            (upd_node (nid a) (grow (nsize b)) (upd_node (nid a) (grow (nsize cur)) ns))),
                          free_stack := remove1 (nid b) (free_stack mm)\<rparr>)))))"

text \<open>The part shared by the two allocation functions: the node, already split so that it
  starts where the block is to start, is taken whole or split; the piece cut off in front
  is given back.\<close>

definition take_block :: "drm_mm \<Rightarrow> nat \<Rightarrow> u64 \<Rightarrow> nat option \<Rightarrow> nat option \<Rightarrow> (drm_mm \<times> nat option) option" where
  "take_block mm p sz splitoff k =
     (case node_at p (node_list mm) of
        None \<Rightarrow> None
      | Some node \<Rightarrow>
          (let (mm', r) =
             (if nsize node = sz
              then (mm\<lparr>free_stack := remove1 p (free_stack mm),
                       node_list := upd_node p (\<lambda>n. n\<lparr>nfree := False\<rparr>) (node_list mm)\<rparr>, Some p)
              else drm_mm_split_at_start mm p sz k)
           in case splitoff of
                None \<Rightarrow> Some (mm', r)
              | Some s \<Rightarrow> map_option (\<lambda>mm''. (mm'', r)) (drm_mm_put_block mm' s)))"

text \<open>\<open>w\<close> units are cut off in front of the block, if any.\<close>

definition cut_and_take ::
    "drm_mm \<Rightarrow> nat \<Rightarrow> u64 \<Rightarrow> u64 \<Rightarrow> nat option \<Rightarrow> nat option \<Rightarrow> (drm_mm \<times> nat option) option" where
  "cut_and_take mm p w sz k1 k2 =
     (if w \<noteq> 0 then
        (case drm_mm_split_at_start mm p w k1 of
           (mm', None) \<Rightarrow> Some (mm', None)
         | (mm', Some s) \<Rightarrow> take_block mm' p sz (Some s) k2)
      else take_block mm p sz None k2)"

definition drm_mm_get_block_generic ::
    "drm_mm \<Rightarrow> nat \<Rightarrow> u64 \<Rightarrow> u32 \<Rightarrow> nat option \<Rightarrow> nat option \<Rightarrow> (drm_mm \<times> nat option) option" where
  "drm_mm_get_block_generic mm p sz alignment k1 k2 =
     (case node_at p (node_list mm) of
        None \<Rightarrow> None
      | Some node \<Rightarrow>
          (let tmp = (if alignment \<noteq> 0 then ucast (nstart node mod ucast alignment) else 0 :: u32)
           in cut_and_take mm p (if tmp \<noteq> 0 then ucast (alignment - tmp) else 0) sz k1 k2))"

text \<open>The range variant keeps the number of wasted units in an \<open>unsigned\<close>.\<close>

definition drm_mm_get_block_range_generic ::
    "drm_mm \<Rightarrow> nat \<Rightarrow> u64 \<Rightarrow> u32 \<Rightarrow> u64 \<Rightarrow> u64 \<Rightarrow> nat option \<Rightarrow> nat option
      \<Rightarrow> (drm_mm \<times> nat option) option" where
  "drm_mm_get_block_range_generic mm p sz alignment start fin k1 k2 =
     (case node_at p (node_list mm) of
        None \<Rightarrow> None
      | Some node \<Rightarrow>
          (let wasted0 = (if nstart node < start then ucast (start - nstart node) else 0 :: u32);
               tmp = (if alignment \<noteq> 0 then ucast ((nstart node + ucast wasted0) mod ucast alignment) else 0 :: u32);
               wasted = (if tmp \<noteq> 0 then wasted0 + (alignment - tmp) else wasted0)
           in cut_and_take mm p (ucast wasted) sz k1 k2))"

section \<open>Searching a hole\<close>

definition check_free_hole :: "u64 \<Rightarrow> u64 \<Rightarrow> u64 \<Rightarrow> u32 \<Rightarrow> bool" where
  "check_free_hole start fin sz alignment =
     (if fin - start < sz then False
      else
        (let tmp = (if alignment \<noteq> 0 then ucast (start mod ucast alignment) else 0 :: u32);
             wasted = (if tmp \<noteq> 0 then alignment - tmp else 0)
         in fin \<ge> start + sz + ucast wasted))"

text \<open>The loop of both search functions.  \<open>hole\<close> gives the part of an entry that may be used.\<close>

fun search_loop ::
    "(drm_mm_node \<Rightarrow> u64 \<times> u64) \<Rightarrow> u64 \<Rightarrow> u32 \<Rightarrow> bool \<Rightarrow> drm_mm_node option \<Rightarrow> u64
      \<Rightarrow> drm_mm_node list \<Rightarrow> drm_mm_node option" where
  "search_loop hole sz alignment best_match best best_size [] = best"
| "search_loop hole sz alignment best_match best best_size (e # es) =
     (if \<not> (case hole e of (s, t) \<Rightarrow> check_free_hole s t sz alignment)
      then search_loop hole sz alignment best_match best best_size es
      else if \<not> best_match then Some e
      else if nsize e < best_size
      then search_loop hole sz alignment best_match (Some e) (nsize e) es
      else search_loop hole sz alignment best_match best best_size es)"

definition free_entries :: "drm_mm \<Rightarrow> drm_mm_node list" where
  "free_entries mm = List.map_filter (\<lambda>i. node_at i (node_list mm @ hidden mm)) (free_stack mm)"

definition drm_mm_search_free :: "drm_mm \<Rightarrow> u64 \<Rightarrow> u32 \<Rightarrow> bool \<Rightarrow> nat option option" where
  "drm_mm_search_free mm sz alignment best_match =
     (if scanned_blocks mm \<noteq> 0 then None
      else Some (map_option nid
        (search_loop (\<lambda>e. (nstart e, nstart e + nsize e)) sz alignment best_match None (- 1)
          (free_entries mm))))"

definition drm_mm_search_free_in_range ::
    "drm_mm \<Rightarrow> u64 \<Rightarrow> u32 \<Rightarrow> u64 \<Rightarrow> u64 \<Rightarrow> bool \<Rightarrow> nat option option" where
  "drm_mm_search_free_in_range mm sz alignment start fin best_match =
     (if scanned_blocks mm \<noteq> 0 then None
      else Some (map_option nid
        (search_loop
          (\<lambda>e. (if nstart e < start then start else nstart e,
                if nstart e + nsize e > fin then fin else nstart e + nsize e))
          sz alignment best_match None (- 1) (free_entries mm))))"


section \<open>Eviction scanning\<close>

definition drm_mm_init_scan :: "drm_mm \<Rightarrow> u64 \<Rightarrow> u32 \<Rightarrow> drm_mm" where
  "drm_mm_init_scan mm sz alignment =
     mm\<lparr>scan_alignment := alignment, scan_size := sz, scanned_blocks := 0, scan_hit_start := 0,
        scan_hit_size := 0\<rparr>"

text \<open>A free neighbour is unlinked and swallowed; the swallowed nodes are remembered in the
  \<open>free_stack\<close> pointers of the scanned node.  \<open>scan_hit_size\<close> is an \<open>unsigned\<close>.\<close>

definition drm_mm_scan_add_block :: "drm_mm \<Rightarrow> nat \<Rightarrow> (drm_mm \<times> bool) option" where
  "drm_mm_scan_add_block mm c =
     (case node_at c (node_list mm) of
        None \<Rightarrow> None
      | Some node \<Rightarrow>
          if nfree node then None
          else
            (let prev = (case prev_of c (node_list mm) of
                           Some a \<Rightarrow> if nfree a then Some a else None | None \<Rightarrow> None);
                 nxt = (case next_of c (node_list mm) of
                          Some b \<Rightarrow> if nfree b then Some b else None | None \<Rightarrow> None);
                 n1 = (case prev of None \<Rightarrow> node
                       | Some a \<Rightarrow> node\<lparr>nstart := nstart a, nsize := nsize node + nsize a\<rparr>);
                 n2 = (case nxt of None \<Rightarrow> n1 | Some b \<Rightarrow> n1\<lparr>nsize := nsize n1 + nsize b\<rparr>);
                 n3 = n2\<lparr>scanned_block := True, nfree := True,
                         scan_prev := map_option nid prev, scan_next := map_option nid nxt\<rparr>;
                 unlink = (\<lambda>x ns. case x of None \<Rightarrow> ns | Some a \<Rightarrow> del_node (nid a) ns);
                 swallowed =
                   (case prev of None \<Rightarrow> [] | Some a \<Rightarrow> [a\<lparr>scanned_prev_free := True\<rparr>]) @
                   (case nxt of None \<Rightarrow> [] | Some b \<Rightarrow> [b\<lparr>scanned_next_free := True\<rparr>]);
                 mm1 = mm\<lparr>node_list := upd_node c (\<lambda>_. n3) (unlink nxt (unlink prev (node_list mm))),
                          hidden := swallowed @ hidden mm, scanned_blocks := scanned_blocks mm + 1\<rparr>
             in if check_free_hole (nstart n3) (nstart n3 + nsize n3) (scan_size mm) (scan_alignment mm)
                then Some (mm1\<lparr>scan_hit_start := nstart n3, scan_hit_size := ucast (nsize n3)\<rparr>, True)
                else Some (mm1, False)))"

text \<open>Linking a swallowed node back in needs the scanned node itself to be on the list.\<close>

definition drm_mm_scan_remove_block :: "drm_mm \<Rightarrow> nat \<Rightarrow> (drm_mm \<times> bool) option" where
  "drm_mm_scan_remove_block mm c =
     (case node_at c (node_list mm @ hidden mm) of
        None \<Rightarrow> None
      | Some node \<Rightarrow>
          if \<not> scanned_block node then None
          else if node_at c (node_list mm) = None \<and> (scan_prev node \<noteq> None \<or> scan_next node \<noteq> None) then None
          else
            (let fetch = (\<lambda>x. case x of None \<Rightarrow> None | Some i \<Rightarrow> node_at i (node_list mm @ hidden mm));
                 prev = fetch (scan_prev node);
                 nxt = fetch (scan_next node)
             in if (\<exists>a. prev = Some a \<and> \<not> scanned_prev_free a) \<or> (\<exists>b. nxt = Some b \<and> \<not> scanned_next_free b)
                then None
                else
                  (let n1 = (case prev of None \<Rightarrow> node
                             | Some a \<Rightarrow> node\<lparr>nstart := nstart a + nsize a, nsize := nsize node - nsize a\<rparr>);
                       n2 = (case nxt of None \<Rightarrow> n1 | Some b \<Rightarrow> n1\<lparr>nsize := nsize n1 - nsize b\<rparr>);
                       n3 = n2\<lparr>scanned_block := False, nfree := False, scan_prev := None, scan_next := None\<rparr>;
                       before = (case prev of None \<Rightarrow> [] | Some a \<Rightarrow> [a\<lparr>scanned_prev_free := False\<rparr>]);
                       after = (case nxt of None \<Rightarrow> [] | Some b \<Rightarrow> [b\<lparr>scanned_next_free := False\<rparr>]);
                       unhide = (\<lambda>x ns. case x of None \<Rightarrow> ns | Some a \<Rightarrow> del_node (nid a) ns);
                       mm1 = mm\<lparr>node_list := replace_node c (\<lambda>_. before @ [n3] @ after) (node_list mm),
                                hidden := upd_node c (\<lambda>_. n3) (unhide nxt (unhide prev (hidden mm))),
                                scanned_blocks := scanned_blocks mm - 1\<rparr>
                   in Some (mm1, nstart n3 \<ge> scan_hit_start mm \<and>
                        nstart n3 + nsize n3 \<le> scan_hit_start mm + ucast (scan_hit_size mm)))))"

section \<open>Tear down\<close>

definition drm_mm_clean :: "drm_mm \<Rightarrow> bool" where
  "drm_mm_clean mm \<longleftrightarrow> length (node_list mm) \<le> 1"

text \<open>The result is the manager and whether the tear down was carried out.  With an empty
  free stack the entry examined is the manager itself, whose list heads mirror a node's.\<close>

definition drm_mm_takedown :: "drm_mm \<Rightarrow> (drm_mm \<times> bool) option" where
  "drm_mm_takedown mm =
     (case free_stack mm of
        [] \<Rightarrow> if node_list mm = [] then None else Some (mm, False)
      | i # rest \<Rightarrow>
          if node_list mm = [] \<or> nid (last (node_list mm)) \<noteq> i \<or> rest \<noteq> [] then Some (mm, False)
          else
            (let mm' = mm\<lparr>free_stack := [], node_list := del_node i (node_list mm), unused_nodes := [],
                          num_unused := num_unused mm - int (length (unused_nodes mm))\<rparr>
             in if num_unused mm' \<noteq> 0 then None else Some (mm', True)))"

section \<open>Facts about the node list\<close>

lemma replace_node_simps [simp]:
  "replace_node p f [] = []"
  "replace_node p f (n # ns) = (if nid n = p then f n else [n]) @ replace_node p f ns"
  "replace_node p f (xs @ ys) = replace_node p f xs @ replace_node p f ys"
  by (simp_all add: replace_node_def)

lemma replace_node_other [simp]: "p \<notin> nid ` set ns \<Longrightarrow> replace_node p f ns = ns"
  by (induction ns) auto

lemma node_at_append [simp]:
  "node_at p (xs @ ys) = (case node_at p xs of None \<Rightarrow> node_at p ys | Some n \<Rightarrow> Some n)"
  by (induction xs) auto

lemma node_at_None [simp]: "node_at p ns = None \<longleftrightarrow> p \<notin> nid ` set ns"
  by (induction ns) auto

lemma node_at_none [simp]: "p \<notin> nid ` set ns \<Longrightarrow> node_at p ns = None"
  by simp

lemma node_at_Some: "node_at p ns = Some n \<Longrightarrow> n \<in> set ns \<and> nid n = p"
  by (induction ns) (auto split: if_splits)

lemma node_at_split:
  assumes "node_at p ns = Some n" "distinct (map nid ns)"
  obtains xs ys where "ns = xs @ n # ys" "nid n = p" "p \<notin> nid ` set xs" "p \<notin> nid ` set ys"
proof -
  from node_at_Some [OF assms(1)] obtain xs ys where "ns = xs @ n # ys" "nid n = p"
    by (metis split_list)
  with assms(2) that show thesis by force
qed

lemma prev_of_mid [simp]:
  "nid n = p \<Longrightarrow> p \<notin> nid ` set xs \<Longrightarrow>
     prev_of p (xs @ n # ys) = (if xs = [] then prev_of p (n # ys) else Some (last xs))"
proof (induction xs)
  case (Cons x xs)
  then show ?case by (cases xs) auto
qed simp

lemma prev_of_none: "p \<notin> nid ` set (tl ns) \<Longrightarrow> prev_of p ns = None"
  by (induction p ns rule: prev_of.induct) auto

lemma next_of_mid [simp]:
  "nid n = p \<Longrightarrow> p \<notin> nid ` set xs \<Longrightarrow>
     next_of p (xs @ n # ys) = (case ys of [] \<Rightarrow> None | y # _ \<Rightarrow> Some y)"
proof (induction xs)
  case Nil
  then show ?case by (cases ys) auto
next
  case (Cons x xs)
  then show ?case by (cases xs) auto
qed

text \<open>The nodes tile the managed range: each starts where the one before it ends.\<close>

fun tiled :: "nat \<Rightarrow> drm_mm_node list \<Rightarrow> nat \<Rightarrow> bool" where
  "tiled s [] e = (s = e)"
| "tiled s (n # ns) e = (unat (nstart n) = s \<and> tiled (s + unat (nsize n)) ns e)"

lemma tiled_append [simp]: "tiled s (xs @ ys) e \<longleftrightarrow> (\<exists>m. tiled s xs m \<and> tiled m ys e)"
  by (induction xs arbitrary: s) auto

lemma tiled_le: "tiled s ns e \<Longrightarrow> s \<le> e"
  by (induction ns arbitrary: s) (auto dest: add_leD1)

lemma tiled_bounds:
  "tiled s ns e \<Longrightarrow> n \<in> set ns \<Longrightarrow> s \<le> unat (nstart n) \<and> unat (nstart n) + unat (nsize n) \<le> e"
  by (induction ns arbitrary: s) (auto dest: tiled_le add_leD1)

fun no_adjacent_free :: "drm_mm_node list \<Rightarrow> bool" where
  "no_adjacent_free (a # b # ns) = (\<not> (nfree a \<and> nfree b) \<and> no_adjacent_free (b # ns))"
| "no_adjacent_free _ = True"

lemma no_adjacent_free_append:
  "no_adjacent_free (xs @ ys) \<longleftrightarrow> no_adjacent_free xs \<and> no_adjacent_free ys \<and>
     (xs \<noteq> [] \<longrightarrow> ys \<noteq> [] \<longrightarrow> \<not> (nfree (last xs) \<and> nfree (hd ys)))"
proof (induction xs)
  case (Cons x xs)
  then show ?case by (cases xs; cases ys) auto
qed simp

definition free_ids :: "drm_mm_node list \<Rightarrow> nat list" where
  "free_ids ns = map nid (filter nfree ns)"

definition unscanned :: "drm_mm_node \<Rightarrow> bool" where
  "unscanned n \<longleftrightarrow> \<not> scanned_block n \<and> \<not> scanned_prev_free n \<and> \<not> scanned_next_free n"

text \<open>The invariant of a manager of the range from \<open>s\<close> up to \<open>e\<close> that is not being scanned:
  \<open>mm_core\<close>, which also holds in the middle of an operation, and no two free neighbours.\<close>

definition mm_core :: "nat \<Rightarrow> nat \<Rightarrow> drm_mm \<Rightarrow> bool" where
  "mm_core s e mm \<longleftrightarrow>
     e < 2 ^ 64 \<and> tiled s (node_list mm) e \<and>
     distinct (map nid (node_list mm)) \<and> distinct (map nid (unused_nodes mm)) \<and>
     (\<forall>n \<in> set (node_list mm). nid n \<notin> nid ` set (unused_nodes mm)) \<and>
     distinct (free_stack mm) \<and> set (free_stack mm) = set (free_ids (node_list mm)) \<and>
     (\<forall>n \<in> set (node_list mm). unscanned n) \<and>
     num_unused mm = int (length (unused_nodes mm)) \<and> hidden mm = [] \<and> scanned_blocks mm = 0"

definition mm_inv :: "nat \<Rightarrow> nat \<Rightarrow> drm_mm \<Rightarrow> bool" where
  "mm_inv s e mm \<longleftrightarrow> mm_core s e mm \<and> no_adjacent_free (node_list mm)"

text \<open>What a client sees: the allocated blocks, and how much is free.\<close>

definition alloc_map :: "drm_mm \<Rightarrow> nat \<Rightarrow> (u64 \<times> u64) option" where
  "alloc_map mm i =
     (case node_at i (node_list mm) of
        None \<Rightarrow> None
      | Some n \<Rightarrow> if nfree n then None else Some (nstart n, nsize n))"

definition mm_ids :: "drm_mm \<Rightarrow> nat set" where
  "mm_ids mm = nid ` set (node_list mm) \<union> nid ` set (unused_nodes mm)"

text \<open>What the results of the allocations of an operation may be: memory that is not in use,
  and, where a reserve node may be taken, reserve nodes whose flags are clear.\<close>

definition clean_unused :: "drm_mm \<Rightarrow> bool" where
  "clean_unused mm \<longleftrightarrow> (\<forall>c \<in> set (unused_nodes mm). \<not> nfree c \<and> unscanned c)"

definition k_ok :: "drm_mm \<Rightarrow> nat option \<Rightarrow> bool" where
  "k_ok mm k \<longleftrightarrow> (case k of None \<Rightarrow> clean_unused mm | Some i \<Rightarrow> i \<notin> mm_ids mm)"

lemma kmalloc_fields:
  assumes "drm_mm_kmalloc mm k = (mm', c)"
  shows "node_list mm' = node_list mm" "free_stack mm' = free_stack mm" "hidden mm' = hidden mm"
    "scanned_blocks mm' = scanned_blocks mm"
    "set (unused_nodes mm') \<subseteq> set (unused_nodes mm)"
  using assms by (auto simp: drm_mm_kmalloc_def split: option.splits list.splits)

lemma kmalloc_core:
  assumes "mm_core s e mm" "drm_mm_kmalloc mm k = (mm', c)"
  shows "mm_core s e mm'"
  using assms by (auto simp: drm_mm_kmalloc_def mm_core_def image_iff split: option.splits list.splits)

lemma kmalloc_node:
  assumes "mm_core s e mm" "k_ok mm k" "drm_mm_kmalloc mm k = (mm', Some c)"
  shows "\<not> nfree c" "unscanned c" "nid c \<notin> mm_ids mm'"
  using assms
  by (auto simp: drm_mm_kmalloc_def mm_core_def k_ok_def clean_unused_def mm_ids_def zeroed_node_def
                 unscanned_def split: option.splits list.splits)

lemma free_ids_simps [simp]:
  "free_ids [] = []" "free_ids (n # ns) = (if nfree n then [nid n] else []) @ free_ids ns"
  "free_ids (xs @ ys) = free_ids xs @ free_ids ys"
  by (simp_all add: free_ids_def)

lemma free_ids_subset: "set (free_ids ns) \<subseteq> nid ` set ns"
  by (auto simp: free_ids_def)

text \<open>Splitting a node in two.\<close>

lemma split_list_core:
  assumes core: "mm_core s e mm" and ns: "node_list mm = xs @ n # ys"
    and c: "\<not> nfree c" "unscanned c" "nid c \<notin> mm_ids mm" and le: "unat sz \<le> unat (nsize n)"
  shows "mm_core s e (mm\<lparr>node_list := xs @ c\<lparr>nsize := sz, nstart := nstart n\<rparr>
      # n\<lparr>nsize := nsize n - sz, nstart := nstart n + sz\<rparr> # ys\<rparr>)"
proof -
  have "tiled s (xs @ n # ys) e" "e < 2 ^ 64" using core ns by (simp_all add: mm_core_def)
  moreover from this have "unat (nstart n) + unat (nsize n) \<le> e"
    using tiled_bounds [of s "xs @ n # ys" e n] by simp
  ultimately have "unat (nstart n + sz) = unat (nstart n) + unat sz"
    using le by (intro unat_add_nowrap) simp
  moreover have "unat (nsize n - sz) = unat (nsize n) - unat sz" using le by (rule unat_sub_le)
  ultimately show ?thesis
    using core c le ns by (auto simp: mm_core_def unscanned_def mm_ids_def)
qed

lemma split_at_start_cases:
  assumes core: "mm_core s e mm" and ns: "node_list mm = xs @ n # ys" and k: "k_ok mm k"
    and le: "unat sz \<le> unat (nsize n)"
  shows "(\<exists>mm'. drm_mm_split_at_start mm (nid n) sz k = (mm', None) \<and> mm_core s e mm' \<and>
        node_list mm' = node_list mm \<and> k = None \<and> unused_nodes mm = []) \<or>
    (\<exists>mm' c. drm_mm_split_at_start mm (nid n) sz k = (mm', Some (nid c)) \<and> mm_core s e mm' \<and>
        node_list mm' = xs @ c # n\<lparr>nsize := nsize n - sz, nstart := nstart n + sz\<rparr> # ys \<and>
        set (unused_nodes mm') \<subseteq> set (unused_nodes mm) \<and>
        \<not> nfree c \<and> nsize c = sz \<and> nstart c = nstart n \<and> nid c \<notin> nid ` set (node_list mm) \<and>
        (\<forall>i. k = Some i \<longrightarrow> nid c = i) \<and> (k = None \<longrightarrow> nid c \<in> mm_ids mm))"
proof -
  obtain mm1 o1 where km: "drm_mm_kmalloc mm k = (mm1, o1)" by fastforce
  note f = kmalloc_fields [OF km] kmalloc_core [OF core km]
  show ?thesis
  proof (cases o1)
    case None
    then have "k = None \<and> unused_nodes mm = []"
      using km by (auto simp: drm_mm_kmalloc_def split: option.splits list.splits)
    with None km f show ?thesis by (auto simp: drm_mm_split_at_start_def)
  next
    case (Some c)
    note c = kmalloc_node [OF core k km [unfolded Some]]
    have ns1: "node_list mm1 = xs @ n # ys" using f ns by simp
    have nm: "nid n \<notin> nid ` set xs" "nid n \<notin> nid ` set ys" using core ns by (auto simp: mm_core_def)
    let ?c = "c\<lparr>nsize := sz, nstart := nstart n\<rparr>"
    let ?mm = "mm1\<lparr>node_list := xs @ ?c # n\<lparr>nsize := nsize n - sz, nstart := nstart n + sz\<rparr> # ys\<rparr>"
    have "drm_mm_split_at_start mm (nid n) sz k = (?mm, Some (nid ?c))"
      using km Some nm by (simp add: drm_mm_split_at_start_def ns1)
    moreover have "\<forall>i. k = Some i \<longrightarrow> nid ?c = i" "k = None \<longrightarrow> nid ?c \<in> mm_ids mm"
      using km Some by (auto simp: drm_mm_kmalloc_def zeroed_node_def mm_ids_def split: list.splits)
    moreover have "nid ?c \<notin> nid ` set (node_list mm)" using c(3) f(1) by (simp add: mm_ids_def)
    moreover have "mm_core s e ?mm" by (rule split_list_core [OF f(6) ns1 c le])
    moreover have "set (unused_nodes ?mm) \<subseteq> set (unused_nodes mm)" using f(5) by simp
    moreover have "\<not> nfree ?c" "nsize ?c = sz" "nstart ?c = nstart n" using c(1) by simp_all
    moreover have "node_list ?mm = xs @ ?c # n\<lparr>nsize := nsize n - sz, nstart := nstart n + sz\<rparr> # ys"
      by simp
    ultimately show ?thesis by blast
  qed
qed


text \<open>What giving back a node does to the list.\<close>

definition merge_free :: "drm_mm_node list \<Rightarrow> drm_mm_node \<Rightarrow> drm_mm_node list \<Rightarrow> drm_mm_node list" where
  "merge_free xs cur ys =
     (let pf = (xs \<noteq> [] \<and> nfree (last xs)); nf = (ys \<noteq> [] \<and> nfree (hd ys))
      in if pf \<and> nf
         then butlast xs @ (last xs)\<lparr>nsize := nsize (last xs) + nsize cur + nsize (hd ys)\<rparr> # tl ys
         else if pf then butlast xs @ (last xs)\<lparr>nsize := nsize (last xs) + nsize cur\<rparr> # ys
         else if nf
         then xs @ (hd ys)\<lparr>nsize := nsize (hd ys) + nsize cur, nstart := nstart cur\<rparr> # tl ys
         else xs @ cur\<lparr>nfree := True\<rparr> # ys)"

lemma release_node_fields [simp]:
  "node_list (release_node n mm) = node_list mm" "free_stack (release_node n mm) = free_stack mm"
  "hidden (release_node n mm) = hidden mm" "scanned_blocks (release_node n mm) = scanned_blocks mm"
  by (simp_all add: release_node_def)

lemma release_node_unused:
  "set (unused_nodes (release_node n mm)) \<subseteq> insert n (set (unused_nodes mm))"
  by (auto simp: release_node_def)

lemma release_node_core:
  assumes "mm_core s e mm" "nid n \<notin> mm_ids mm"
  shows "mm_core s e (release_node n mm)"
  using assms by (auto simp: release_node_def mm_core_def mm_ids_def image_iff)

definition freed_nodes :: "drm_mm_node list \<Rightarrow> drm_mm_node \<Rightarrow> drm_mm_node list \<Rightarrow> drm_mm_node list" where
  "freed_nodes xs cur ys =
     (let pf = (xs \<noteq> [] \<and> nfree (last xs)); nf = (ys \<noteq> [] \<and> nfree (hd ys))
      in if pf \<and> nf then [cur, hd ys] else if pf \<or> nf then [cur] else [])"

definition merge_stack :: "drm_mm_node list \<Rightarrow> drm_mm_node \<Rightarrow> drm_mm_node list \<Rightarrow> nat list \<Rightarrow> nat list" where
  "merge_stack xs cur ys fs =
     (let pf = (xs \<noteq> [] \<and> nfree (last xs)); nf = (ys \<noteq> [] \<and> nfree (hd ys))
      in if pf \<and> nf then remove1 (nid (hd ys)) fs else if pf \<or> nf then fs else nid cur # fs)"

lemma put_block_eq:
  assumes ns: "node_list mm = xs @ cur # ys" and un: "unscanned cur"
    and d: "distinct (map nid (node_list mm))"
  shows "drm_mm_put_block mm (nid cur) = Some (foldr release_node (freed_nodes xs cur ys)
    (mm\<lparr>node_list := merge_free xs cur ys, free_stack := merge_stack xs cur ys (free_stack mm)\<rparr>))"
proof -
  have nm: "nid cur \<notin> nid ` set xs" "nid cur \<notin> nid ` set ys" using d ns by auto
  have at: "node_at (nid cur) (node_list mm) = Some cur" using nm by (simp add: ns)
  have prev: "prev_of (nid cur) (node_list mm) = (if xs = [] then None else Some (last xs))"
    using nm by (simp add: ns prev_of_none)
  have nxt: "next_of (nid cur) (node_list mm) = (case ys of [] \<Rightarrow> None | y # _ \<Rightarrow> Some y)"
    using nm by (simp add: ns)
  have scan: "(scanned_block cur \<or> scanned_prev_free cur \<or> scanned_next_free cur) = False"
    using un by (simp add: unscanned_def)
  have P: "(case prev_of (nid cur) (node_list mm) of None \<Rightarrow> None | Some a \<Rightarrow> if nfree a then Some a else None) =
      (if xs \<noteq> [] \<and> nfree (last xs) then Some (last xs) else None)"
    by (simp add: prev)
  have N: "(case next_of (nid cur) (node_list mm) of None \<Rightarrow> None | Some b \<Rightarrow> if nfree b then Some b else None) =
      (if ys \<noteq> [] \<and> nfree (hd ys) then Some (hd ys) else None)"
    by (cases ys) (simp_all add: nxt)
  let ?pf = "xs \<noteq> [] \<and> nfree (last xs)" and ?nf = "ys \<noteq> [] \<and> nfree (hd ys)"
  note defs = drm_mm_put_block_def at P N scan Let_def
  note nodes = upd_node_def del_node_def merge_free_def freed_nodes_def merge_stack_def Let_def
  note step = option.case prod.case if_True if_False
  consider "?pf" "?nf" | "?pf" "\<not> ?nf" | "\<not> ?pf" "?nf" | "\<not> ?pf" "\<not> ?nf" by blast
  then show ?thesis
  proof cases
    case 1
    then obtain b ys' where ys: "ys = b # ys'" by (cases ys) auto
    obtain a xs' where xs: "xs = xs' @ [a]" using 1(1) by (cases xs rule: rev_cases) auto
    have "nid a \<noteq> nid b" "nid a \<noteq> nid cur" "nid b \<noteq> nid cur" "nid a \<notin> nid ` set xs'" "nid a \<notin> nid ` set ys'"
      "nid b \<notin> nid ` set xs'" "nid b \<notin> nid ` set ys'" "nid cur \<notin> nid ` set xs'" "nid cur \<notin> nid ` set ys'"
      using d by (auto simp: ns xs ys)
    moreover have "?pf = True" "?nf = True" "last xs = a" "hd ys = b" using 1 xs ys by simp_all
    ultimately show ?thesis
      by (simp only: defs step option.inject simp_thms) (simp add: nodes ns xs ys)
  next
    case 2
    obtain a xs' where xs: "xs = xs' @ [a]" using 2(1) by (cases xs rule: rev_cases) auto
    have "nid a \<noteq> nid cur" "nid a \<notin> nid ` set xs'" "nid a \<notin> nid ` set ys"
      "nid cur \<notin> nid ` set xs'" "nid cur \<notin> nid ` set ys"
      using d by (auto simp: ns xs)
    moreover have "?pf = True" "?nf = False" "last xs = a" using 2 xs by blast+ (simp add: xs)
    ultimately show ?thesis
      by (simp only: defs nodes step option.inject simp_thms) (simp add: ns xs)
  next
    case 3
    then obtain b ys' where ys: "ys = b # ys'" by (cases ys) auto
    have "nid b \<noteq> nid cur" "nid b \<notin> nid ` set xs" "nid b \<notin> nid ` set ys'"
      "nid cur \<notin> nid ` set xs" "nid cur \<notin> nid ` set ys'"
      using d by (auto simp: ns ys)
    moreover have "?pf = False" "?nf = True" "hd ys = b" using 3 by blast+ (simp add: ys)
    ultimately show ?thesis
      by (simp only: defs nodes step option.inject simp_thms) (simp add: ns ys)
  next
    case 4
    then have "?nf = False" "?pf = False" by blast+
    with nm show ?thesis
      by (simp only: defs nodes step option.inject simp_thms) (simp add: ns)
  qed
qed

definition alloc_list :: "drm_mm_node list \<Rightarrow> (nat \<times> (u64 \<times> u64)) list" where
  "alloc_list ns = map (\<lambda>n. (nid n, (nstart n, nsize n))) (filter (\<lambda>n. \<not> nfree n) ns)"

lemma alloc_list_simps [simp]:
  "alloc_list [] = []"
  "alloc_list (n # ns) = (if nfree n then [] else [(nid n, (nstart n, nsize n))]) @ alloc_list ns"
  "alloc_list (xs @ ys) = alloc_list xs @ alloc_list ys"
  by (simp_all add: alloc_list_def)

lemma alloc_list_fst: "fst ` set (alloc_list ns) \<subseteq> nid ` set ns"
  by (auto simp: alloc_list_def)

lemma map_of_alloc_None: "i \<notin> nid ` set ns \<Longrightarrow> map_of (alloc_list ns) i = None"
  using alloc_list_fst [of ns] by (auto simp: map_of_eq_None_iff)

lemma map_of_alloc_list:
  "distinct (map nid ns) \<Longrightarrow> map_of (alloc_list ns) i =
     (case node_at i ns of None \<Rightarrow> None | Some n \<Rightarrow> if nfree n then None else Some (nstart n, nsize n))"
  by (induction ns) (auto simp: map_of_alloc_None)

lemma alloc_map_conv: "distinct (map nid (node_list mm)) \<Longrightarrow> alloc_map mm = map_of (alloc_list (node_list mm))"
  by (rule ext) (simp add: alloc_map_def map_of_alloc_list)

lemma map_of_insert_mid:
  assumes "i \<notin> fst ` set A"
  shows "map_of (A @ (i, x) # B) = (map_of (A @ B))(i \<mapsto> x)"
proof -
  have "map_of A i = None" using assms by (simp add: map_of_eq_None_iff)
  then show ?thesis by (intro ext) (auto simp: map_add_def split: option.splits)
qed

lemma map_of_delete_mid:
  assumes "i \<notin> fst ` set A" "i \<notin> fst ` set B"
  shows "map_of (A @ B) = (map_of (A @ (i, x) # B))(i := None)"
proof -
  have "map_of (A @ B) i = None" using assms by (auto simp: map_of_eq_None_iff)
  then show ?thesis using map_of_insert_mid [OF assms(1), of x B] by (simp add: fun_upd_idem)
qed

lemma alloc_list_merge: "\<not> nfree cur \<Longrightarrow> alloc_list (merge_free xs cur ys) = alloc_list xs @ alloc_list ys"
  by (cases xs rule: rev_cases; cases ys) (auto simp: merge_free_def Let_def)

lemma merge_ids: "nid ` set (merge_free xs cur ys) \<subseteq> nid ` set (xs @ cur # ys)"
  by (cases xs rule: rev_cases; cases ys) (auto simp: merge_free_def Let_def)

lemma merge_distinct: "distinct (map nid (xs @ cur # ys)) \<Longrightarrow> distinct (map nid (merge_free xs cur ys))"
  by (cases xs rule: rev_cases; cases ys) (auto simp: merge_free_def Let_def)

lemma merge_unscanned:
  "\<forall>n \<in> set (xs @ cur # ys). unscanned n \<Longrightarrow> n \<in> set (merge_free xs cur ys) \<Longrightarrow> unscanned n"
  by (cases xs rule: rev_cases; cases ys)
     (auto simp: merge_free_def Let_def unscanned_def split: if_splits)

lemma tiled_merge2:
  assumes "tiled s (a # b # ns) e" "e < 2 ^ 64"
  shows "tiled s (a\<lparr>nsize := nsize a + nsize b\<rparr> # ns) e"
    and "tiled s (b\<lparr>nsize := nsize b + nsize a, nstart := nstart a\<rparr> # ns) e"
proof -
  have "unat (nsize a) + unat (nsize b) < 2 ^ 64"
    using assms tiled_le [of "s + unat (nsize a) + unat (nsize b)" ns e] by simp
  then have "unat (nsize a + nsize b) = unat (nsize a) + unat (nsize b)"
    by (intro unat_add_nowrap) simp
  moreover from this have "unat (nsize b + nsize a) = unat (nsize a) + unat (nsize b)"
    by (simp only: add.commute [of "nsize b"])
  ultimately show "tiled s (a\<lparr>nsize := nsize a + nsize b\<rparr> # ns) e"
    and "tiled s (b\<lparr>nsize := nsize b + nsize a, nstart := nstart a\<rparr> # ns) e"
    using assms(1) by (simp_all add: add.assoc)
qed

lemma merge_tiled:
  assumes "tiled s (xs @ cur # ys) e" "e < 2 ^ 64"
  shows "tiled s (merge_free xs cur ys) e"
proof -
  consider (prev) xs' a where "xs = xs' @ [a]" "nfree a" | (none) "xs = [] \<or> \<not> nfree (last xs)"
    by (cases xs rule: rev_cases) auto
  then show ?thesis
  proof cases
    case prev
    then obtain m where m: "tiled s xs' m" "tiled m (a # cur # ys) e" using assms by auto
    note one = tiled_merge2(1) [OF m(2) assms(2)]
    show ?thesis
    proof (cases "ys \<noteq> [] \<and> nfree (hd ys)")
      case True
      then obtain b ys' where ys: "ys = b # ys'" by (cases ys) auto
      from tiled_merge2(1) [OF one [unfolded ys] assms(2)] m(1) True prev ys show ?thesis
        by (auto simp: merge_free_def Let_def simp del: tiled.simps)
    next
      case False
      with one m(1) prev show ?thesis
        by (auto simp: merge_free_def Let_def simp del: tiled.simps)
    qed
  next
    case none
    from assms obtain m where m: "tiled s xs m" "tiled m (cur # ys) e" by auto
    show ?thesis
    proof (cases "ys \<noteq> [] \<and> nfree (hd ys)")
      case True
      then obtain b ys' where ys: "ys = b # ys'" by (cases ys) auto
      from tiled_merge2(2) [OF m(2) [unfolded ys] assms(2)] m(1) True none ys show ?thesis
        by (auto simp: merge_free_def Let_def simp del: tiled.simps)
    next
      case False
      with m none show ?thesis by (auto simp: merge_free_def Let_def)
    qed
  qed
qed

lemma merge_no_adjacent:
  assumes "no_adjacent_free xs" "no_adjacent_free ys"
  shows "no_adjacent_free (merge_free xs cur ys)"
proof -
  have tl: "no_adjacent_free (tl ys) \<and> (nfree (hd ys) \<longrightarrow> ys \<noteq> [] \<longrightarrow> tl ys \<noteq> [] \<longrightarrow> \<not> nfree (hd (tl ys)))"
    using assms(2) by (cases ys rule: no_adjacent_free.cases) auto
  have bl: "no_adjacent_free (butlast xs) \<and>
      (xs \<noteq> [] \<longrightarrow> nfree (last xs) \<longrightarrow> butlast xs \<noteq> [] \<longrightarrow> \<not> nfree (last (butlast xs)))"
    using assms(1) by (cases xs rule: rev_cases) (auto simp: no_adjacent_free_append)
  have cons: "no_adjacent_free (n # ns) \<longleftrightarrow> no_adjacent_free ns \<and> (ns \<noteq> [] \<longrightarrow> \<not> (nfree n \<and> nfree (hd ns)))" for n ns
    by (cases ns) auto
  show ?thesis
    using assms tl bl by (auto simp: merge_free_def Let_def no_adjacent_free_append cons)
qed


section \<open>Giving back a block\<close>

lemma merge_cases:
  obtains
    (both) xs' a b ys' where "xs = xs' @ [a]" "ys = b # ys'" "nfree a" "nfree b"
      "merge_free xs cur ys = xs' @ a\<lparr>nsize := nsize a + nsize cur + nsize b\<rparr> # ys'"
      "freed_nodes xs cur ys = [cur, b]" "merge_stack xs cur ys fs = remove1 (nid b) fs"
  | (prev) xs' a where "xs = xs' @ [a]" "nfree a"
      "merge_free xs cur ys = xs' @ a\<lparr>nsize := nsize a + nsize cur\<rparr> # ys"
      "freed_nodes xs cur ys = [cur]" "merge_stack xs cur ys fs = fs"
  | (nxt) b ys' where "ys = b # ys'" "nfree b"
      "merge_free xs cur ys = xs @ b\<lparr>nsize := nsize b + nsize cur, nstart := nstart cur\<rparr> # ys'"
      "freed_nodes xs cur ys = [cur]" "merge_stack xs cur ys fs = fs"
  | (none) "merge_free xs cur ys = xs @ cur\<lparr>nfree := True\<rparr> # ys"
      "freed_nodes xs cur ys = []" "merge_stack xs cur ys fs = nid cur # fs"
proof -
  let ?pf = "xs \<noteq> [] \<and> nfree (last xs)" and ?nf = "ys \<noteq> [] \<and> nfree (hd ys)"
  note defs = merge_free_def freed_nodes_def merge_stack_def Let_def
  consider (1) "?pf" "?nf" | (2) "?pf" "\<not> ?nf" | (3) "\<not> ?pf" "?nf" | (4) "\<not> ?pf" "\<not> ?nf" by blast
  then show thesis
  proof cases
    case 1
    then obtain xs' a b ys' where "xs = xs' @ [a]" "ys = b # ys'"
      by (metis append_butlast_last_id list.exhaust)
    with 1 show thesis by (intro both) (simp_all add: defs)
  next
    case 2
    then obtain xs' a where "xs = xs' @ [a]" by (metis append_butlast_last_id)
    with 2 show thesis by (intro prev) (auto simp: defs)
  next
    case 3
    then obtain b ys' where "ys = b # ys'" by (metis list.exhaust)
    with 3 show thesis by (intro nxt) (auto simp: defs)
  next
    case 4
    then show thesis by (intro none) (auto simp: defs)
  qed
qed

lemma merge_stack_free:
  assumes "distinct (map nid (xs @ cur # ys))" "distinct fs" "set fs = set (free_ids (xs @ cur # ys))" "\<not> nfree cur"
  shows "distinct (merge_stack xs cur ys fs) \<and>
    set (merge_stack xs cur ys fs) = set (free_ids (merge_free xs cur ys))"
proof (cases xs cur ys fs rule: merge_cases)
  case (both xs' a b ys')
  have "nid b \<notin> set (free_ids xs')" "nid b \<notin> set (free_ids ys')" "nid a \<noteq> nid b"
    using assms(1) free_ids_subset [of xs'] free_ids_subset [of ys'] by (auto simp: both(1,2))
  moreover have "insert x (insert y (A \<union> B)) - {y} = insert x (A \<union> B)"
    if "x \<noteq> y" "y \<notin> A" "y \<notin> B" for x y :: nat and A B using that by blast
  ultimately show ?thesis using assms(2-4) both by (simp add: set_remove1_eq)
next
  case none
  have "nid cur \<notin> set (free_ids xs)" "nid cur \<notin> set (free_ids ys)"
    using assms(1) free_ids_subset [of xs] free_ids_subset [of ys] by auto
  with assms(2-4) none show ?thesis by simp
qed (use assms in simp_all)

lemma core_node_change:
  assumes "mm_core s e mm" "tiled s ns e" "distinct (map nid ns)" "nid ` set ns \<subseteq> nid ` set (node_list mm)"
    "distinct fs" "set fs = set (free_ids ns)" "\<forall>n \<in> set ns. unscanned n"
  shows "mm_core s e (mm\<lparr>node_list := ns, free_stack := fs\<rparr>)"
proof -
  have "\<forall>n \<in> set ns. nid n \<notin> nid ` set (unused_nodes mm)"
  proof
    fix n
    assume "n \<in> set ns"
    with assms(4) obtain m where "m \<in> set (node_list mm)" "nid n = nid m" by blast
    with assms(1) show "nid n \<notin> nid ` set (unused_nodes mm)" by (simp add: mm_core_def)
  qed
  with assms show ?thesis by (simp add: mm_core_def)
qed

lemma put_block_core:
  assumes core: "mm_core s e mm" and ns: "node_list mm = xs @ cur # ys" and cur: "\<not> nfree cur"
  shows "\<exists>mm'. drm_mm_put_block mm (nid cur) = Some mm' \<and> mm_core s e mm' \<and>
    node_list mm' = merge_free xs cur ys \<and>
    alloc_map mm' = (alloc_map mm)(nid cur := None)"
proof -
  have d: "distinct (map nid (node_list mm))" "distinct (map nid (xs @ cur # ys))"
    and un: "\<forall>n \<in> set (xs @ cur # ys). unscanned n"
    and t: "tiled s (xs @ cur # ys) e" "e < 2 ^ 64"
    and fs: "distinct (free_stack mm)" "set (free_stack mm) = set (free_ids (xs @ cur # ys))"
    using core ns by (simp_all add: mm_core_def)
  let ?mm = "mm\<lparr>node_list := merge_free xs cur ys, free_stack := merge_stack xs cur ys (free_stack mm)\<rparr>"
  have base: "mm_core s e ?mm"
    using core_node_change [OF core merge_tiled [OF t] merge_distinct [OF d(2)]]
      merge_ids [of xs cur ys] ns merge_stack_free [OF d(2) fs cur] merge_unscanned [OF un] by auto
  have notin: "\<forall>n \<in> set (freed_nodes xs cur ys). nid n \<notin> nid ` set (merge_free xs cur ys)"
    by (cases xs cur ys "free_stack mm" rule: merge_cases) (use d(2) in auto)
  have old: "\<forall>n \<in> set (freed_nodes xs cur ys). nid n \<notin> nid ` set (unused_nodes mm)"
    by (cases xs cur ys "free_stack mm" rule: merge_cases) (use core ns in \<open>auto simp: mm_core_def\<close>)
  have two: "freed_nodes xs cur ys = [] \<or> freed_nodes xs cur ys = [cur] \<or>
      freed_nodes xs cur ys = [cur, hd ys] \<and> nid cur \<noteq> nid (hd ys)"
    by (cases xs cur ys "free_stack mm" rule: merge_cases) (use d(2) in auto)
  let ?mm' = "foldr release_node (freed_nodes xs cur ys) ?mm"
  have res: "mm_core s e ?mm' \<and> node_list ?mm' = merge_free xs cur ys"
    using two
  proof (elim disjE)
    assume fn: "freed_nodes xs cur ys = [cur]"
    then have "nid cur \<notin> mm_ids ?mm" using notin old by (simp add: mm_ids_def)
    with fn base show ?thesis by (simp add: release_node_core)
  next
    assume fn: "freed_nodes xs cur ys = [cur, hd ys] \<and> nid cur \<noteq> nid (hd ys)"
    then have h: "nid (hd ys) \<notin> mm_ids ?mm" and c: "nid cur \<notin> mm_ids ?mm"
      using notin old by (simp_all add: mm_ids_def)
    note one = release_node_core [OF base h]
    have "nid cur \<notin> mm_ids (release_node (hd ys) ?mm)"
      using c fn release_node_unused [of "hd ys" ?mm] by (auto simp: mm_ids_def)
    with fn release_node_core [OF one] show ?thesis by simp
  qed (use base in simp)
  have nx: "nid cur \<notin> fst ` set (alloc_list xs)" and ny: "nid cur \<notin> fst ` set (alloc_list ys)"
    using d(2) alloc_list_fst [of xs] alloc_list_fst [of ys] by auto
  have "alloc_map ?mm' = map_of (alloc_list xs @ alloc_list ys)"
    using res merge_distinct [OF d(2)] by (subst alloc_map_conv) (simp_all add: alloc_list_merge [OF cur])
  also have "\<dots> = (alloc_map mm)(nid cur := None)"
    unfolding map_of_delete_mid [OF nx ny, of "(nstart cur, nsize cur)"] alloc_map_conv [OF d(1)]
    by (simp add: ns cur)
  finally have al: "alloc_map ?mm' = (alloc_map mm)(nid cur := None)" .
  have "unscanned cur" using un by simp
  from put_block_eq [OF ns this d(1)] res al show ?thesis by blast
qed


section \<open>Taking a block\<close>

lemma map_of_mid:
  assumes "fst ` set M \<inter> fst ` set A = {}"
  shows "map_of (A @ M @ B) = map_of (A @ B) ++ map_of M"
proof
  fix i
  show "map_of (A @ M @ B) i = (map_of (A @ B) ++ map_of M) i"
  proof (cases "map_of M i")
    case None
    then show ?thesis by (simp add: map_add_def split: option.splits)
  next
    case (Some x)
    then have "i \<in> fst ` set M" by (metis map_of_eq_None_iff option.distinct(1))
    with assms have "map_of A i = None" by (auto simp: map_of_eq_None_iff)
    with Some show ?thesis by (simp add: map_add_def)
  qed
qed

lemma alloc_map_change:
  assumes "node_list mm = xs @ n # ys" "nfree n" "node_list mm' = xs @ ns @ ys"
    and "distinct (map nid (node_list mm))" "distinct (map nid (node_list mm'))"
  shows "alloc_map mm' = alloc_map mm ++ map_of (alloc_list ns)"
proof -
  have "nid ` set ns \<inter> nid ` set xs = {}" using assms(3,5) by auto
  then have "fst ` set (alloc_list ns) \<inter> fst ` set (alloc_list xs) = {}"
    using alloc_list_fst [of ns] alloc_list_fst [of xs] by blast
  from map_of_mid [OF this, of "alloc_list ys"] show ?thesis
    unfolding alloc_map_conv [OF assms(4)] alloc_map_conv [OF assms(5)] assms(1,3)
    by (simp only: alloc_list_simps assms(2) if_True append_Nil)
qed

lemma core_distinct: "mm_core s e mm \<Longrightarrow> distinct (map nid (node_list mm))"
  by (simp add: mm_core_def)

lemma no_adjacent_Cons:
  "no_adjacent_free (n # ns) \<longleftrightarrow> no_adjacent_free ns \<and> (ns \<noteq> [] \<longrightarrow> \<not> (nfree n \<and> nfree (hd ns)))"
  by (cases ns) auto

lemma whole_block_core:
  assumes core: "mm_core s e mm" and ns: "node_list mm = xs @ n # ys"
  shows "mm_core s e (mm\<lparr>free_stack := remove1 (nid n) (free_stack mm),
      node_list := xs @ n\<lparr>nfree := False\<rparr> # ys\<rparr>)"
proof -
  have nm: "nid n \<notin> nid ` set xs" "nid n \<notin> nid ` set ys" using core ns by (auto simp: mm_core_def)
  then have "nid n \<notin> set (free_ids xs)" "nid n \<notin> set (free_ids ys)"
    using free_ids_subset [of xs] free_ids_subset [of ys] by auto
  with core ns nm show ?thesis
    by (auto simp: mm_core_def unscanned_def)
qed

text \<open>The state in which the piece in front is given back, when there is one: the block is
  at node \<open>r\<close>, or was not obtained.\<close>

lemma take_step:
  assumes core: "mm_core s e mm" and ns: "node_list mm = xs @ n # ys" and free: "nfree n"
    and k: "k_ok mm k" and le: "unat sz \<le> unat (nsize n)"
  obtains mm' r ms where
    "(if nsize n = sz
      then (mm\<lparr>free_stack := remove1 (nid n) (free_stack mm),
               node_list := upd_node (nid n) (\<lambda>n. n\<lparr>nfree := False\<rparr>) (node_list mm)\<rparr>, Some (nid n))
      else drm_mm_split_at_start mm (nid n) sz k) = (mm', r)"
    "mm_core s e mm'" "node_list mm' = xs @ ms @ ys" "ms \<noteq> []"
    "case r of None \<Rightarrow> ms = [n] \<and> k = None
     | Some i \<Rightarrow> \<not> nfree (hd ms) \<and> alloc_list ms = [(i, (nstart n, sz))] \<and> alloc_map mm i = None \<and>
         no_adjacent_free ms \<and> (nfree (last ms) \<or> ms = [hd ms])"
proof (cases "nsize n = sz")
  case True
  have nm: "nid n \<notin> nid ` set xs" "nid n \<notin> nid ` set ys" using core ns by (auto simp: mm_core_def)
  moreover from this have "alloc_map mm (nid n) = None" using ns free by (simp add: alloc_map_def)
  ultimately show thesis
    using that [of _ "Some (nid n)" "[n\<lparr>nfree := False\<rparr>]", OF _ whole_block_core [OF core ns]] True
    by (simp add: upd_node_def ns)
next
  case False
  from split_at_start_cases [OF core ns k le] show thesis
  proof (elim disjE exE conjE)
    fix mm' assume "drm_mm_split_at_start mm (nid n) sz k = (mm', None)" "mm_core s e mm'"
      "node_list mm' = node_list mm" "k = None"
    with False ns show thesis using that [of mm' None "[n]"] by simp
  next
    fix mm' c
    assume sp: "drm_mm_split_at_start mm (nid n) sz k = (mm', Some (nid c))" "mm_core s e mm'"
      "node_list mm' = xs @ c # n\<lparr>nsize := nsize n - sz, nstart := nstart n + sz\<rparr> # ys"
      "\<not> nfree c" "nsize c = sz" "nstart c = nstart n" "nid c \<notin> nid ` set (node_list mm)"
    then have "alloc_map mm (nid c) = None" by (simp add: alloc_map_def)
    with sp False free show thesis
      using that [of mm' "Some (nid c)" "[c, n\<lparr>nsize := nsize n - sz, nstart := nstart n + sz\<rparr>]"] by simp
  qed
qed


lemma no_adjacent_replace:
  "no_adjacent_free (xs @ n # ys) \<Longrightarrow> nfree n \<Longrightarrow> no_adjacent_free ms \<Longrightarrow> ms \<noteq> [] \<Longrightarrow>
     no_adjacent_free (xs @ ms @ ys) \<and> no_adjacent_free (ms @ ys) \<and> no_adjacent_free xs"
  by (auto simp: no_adjacent_free_append no_adjacent_Cons)

lemma take_block_front:
  assumes core: "mm_core s e mm" and ns: "node_list mm = xs @ n # ys" and free: "nfree n"
    and k: "k_ok mm k" and le: "unat sz \<le> unat (nsize n)" and adj: "no_adjacent_free (xs @ n # ys)"
  shows "\<exists>mm' r. take_block mm (nid n) sz None k = Some (mm', r) \<and> mm_inv s e mm' \<and>
    (case r of None \<Rightarrow> k = None \<and> alloc_map mm' = alloc_map mm
     | Some i \<Rightarrow> alloc_map mm i = None \<and> alloc_map mm' = (alloc_map mm)(i \<mapsto> (nstart n, sz)))"
proof -
  obtain mm' r ms where st: "(if nsize n = sz
      then (mm\<lparr>free_stack := remove1 (nid n) (free_stack mm),
               node_list := upd_node (nid n) (\<lambda>n. n\<lparr>nfree := False\<rparr>) (node_list mm)\<rparr>, Some (nid n))
      else drm_mm_split_at_start mm (nid n) sz k) = (mm', r)"
    and core': "mm_core s e mm'" and nl: "node_list mm' = xs @ ms @ ys" and ne: "ms \<noteq> []"
    and r: "case r of None \<Rightarrow> ms = [n] \<and> k = None
     | Some i \<Rightarrow> \<not> nfree (hd ms) \<and> alloc_list ms = [(i, (nstart n, sz))] \<and> alloc_map mm i = None \<and>
         no_adjacent_free ms \<and> (nfree (last ms) \<or> ms = [hd ms])"
    using take_step [OF core ns free k le] .
  have at: "node_at (nid n) (node_list mm) = Some n" using core ns by (auto simp: mm_core_def)
  have tb: "take_block mm (nid n) sz None k = Some (mm', r)"
    by (simp add: take_block_def at st del: split_paired_All)
  have al: "alloc_map mm' = alloc_map mm ++ map_of (alloc_list ms)"
    by (rule alloc_map_change [OF ns free nl core_distinct [OF core] core_distinct [OF core']])
  have "no_adjacent_free ms" using r by (cases r) auto
  with no_adjacent_replace [OF adj free this ne] have inv: "mm_inv s e mm'"
    using core' nl by (simp add: mm_inv_def)
  have "case r of None \<Rightarrow> k = None \<and> alloc_map mm' = alloc_map mm
     | Some i \<Rightarrow> alloc_map mm i = None \<and> alloc_map mm' = (alloc_map mm)(i \<mapsto> (nstart n, sz))"
    using r al free by (cases r) auto
  with tb inv show ?thesis by blast
qed

lemma take_block_after_cut:
  assumes core: "mm_core s e mm" and ns: "node_list mm = xs @ c # n # ys" and free: "nfree n"
    and c: "\<not> nfree c" and k: "k_ok mm k" and le: "unat sz \<le> unat (nsize n)"
    and adj: "no_adjacent_free xs" "no_adjacent_free (n # ys)"
  shows "\<exists>mm' r. take_block mm (nid n) sz (Some (nid c)) k = Some (mm', r) \<and> mm_inv s e mm' \<and>
    (case r of None \<Rightarrow> k = None \<and> alloc_map mm' = (alloc_map mm)(nid c := None)
     | Some i \<Rightarrow> alloc_map mm i = None \<and> i \<noteq> nid c \<and>
         alloc_map mm' = (alloc_map mm)(nid c := None, i \<mapsto> (nstart n, sz)))"
proof -
  have ns': "node_list mm = (xs @ [c]) @ n # ys" using ns by simp
  obtain mm' r ms where st: "(if nsize n = sz
      then (mm\<lparr>free_stack := remove1 (nid n) (free_stack mm),
               node_list := upd_node (nid n) (\<lambda>n. n\<lparr>nfree := False\<rparr>) (node_list mm)\<rparr>, Some (nid n))
      else drm_mm_split_at_start mm (nid n) sz k) = (mm', r)"
    and core': "mm_core s e mm'" and nl: "node_list mm' = (xs @ [c]) @ ms @ ys" and ne: "ms \<noteq> []"
    and r: "case r of None \<Rightarrow> ms = [n] \<and> k = None
     | Some i \<Rightarrow> \<not> nfree (hd ms) \<and> alloc_list ms = [(i, (nstart n, sz))] \<and> alloc_map mm i = None \<and>
         no_adjacent_free ms \<and> (nfree (last ms) \<or> ms = [hd ms])"
    using take_step [OF core ns' free k le] .
  have at: "node_at (nid n) (node_list mm) = Some n" using core ns by (auto simp: mm_core_def)
  have al: "alloc_map mm' = alloc_map mm ++ map_of (alloc_list ms)"
    by (rule alloc_map_change [OF ns' free nl core_distinct [OF core] core_distinct [OF core']])
  have "node_list mm' = xs @ c # (ms @ ys)" using nl by simp
  from put_block_core [OF core' this c] obtain mm'' where
    pb: "drm_mm_put_block mm' (nid c) = Some mm''" "mm_core s e mm''"
      "node_list mm'' = merge_free xs c (ms @ ys)" "alloc_map mm'' = (alloc_map mm')(nid c := None)"
    by blast
  have tb: "take_block mm (nid n) sz (Some (nid c)) k = Some (mm'', r)"
    by (simp add: take_block_def at st pb(1) del: split_paired_All)
  have "no_adjacent_free ms" using r by (cases r) auto
  then have "no_adjacent_free (ms @ ys)"
    using no_adjacent_replace [of "[]" n ys ms] adj(2) free ne by simp
  with pb(2,3) adj(1) have inv: "mm_inv s e mm''" by (simp add: mm_inv_def merge_no_adjacent)
  have "nid c \<notin> nid ` set xs" using core ns by (auto simp: mm_core_def)
  then have "alloc_map mm (nid c) \<noteq> None" using c by (simp add: alloc_map_def ns)
  then have "case r of None \<Rightarrow> k = None \<and> alloc_map mm'' = (alloc_map mm)(nid c := None)
     | Some i \<Rightarrow> alloc_map mm i = None \<and> i \<noteq> nid c \<and>
         alloc_map mm'' = (alloc_map mm)(nid c := None, i \<mapsto> (nstart n, sz))"
  proof (cases r)
    case (Some i)
    with r \<open>alloc_map mm (nid c) \<noteq> None\<close> have "i \<noteq> nid c" by auto
    with Some r al pb(4) show ?thesis by (simp add: fun_upd_twist)
  qed (use r al free pb(4) in simp)
  with tb inv show ?thesis by blast
qed

lemma cut_and_take_spec:
  assumes inv: "mm_inv s e mm" and ns: "node_list mm = xs @ n # ys" and free: "nfree n"
    and k: "k_ok mm k1" "k_ok mm k2" "k1 = k2 \<longrightarrow> k1 = None"
    and le: "unat w + unat sz \<le> unat (nsize n)"
  shows "\<exists>mm' r. cut_and_take mm (nid n) w sz k1 k2 = Some (mm', r) \<and> mm_inv s e mm' \<and>
    (case r of None \<Rightarrow> (k1 = None \<or> k2 = None) \<and> alloc_map mm' = alloc_map mm
     | Some i \<Rightarrow> alloc_map mm i = None \<and> alloc_map mm' = (alloc_map mm)(i \<mapsto> (nstart n + w, sz)))"
proof (cases "w = 0")
  case True
  have core: "mm_core s e mm" and adj: "no_adjacent_free (xs @ n # ys)"
    using inv ns by (simp_all add: mm_inv_def)
  have "unat sz \<le> unat (nsize n)" using le by simp
  from take_block_front [OF core ns free k(2) this adj] obtain mm' r where
    tb: "take_block mm (nid n) sz None k2 = Some (mm', r)" "mm_inv s e mm'"
    and r: "case r of None \<Rightarrow> k2 = None \<and> alloc_map mm' = alloc_map mm
      | Some i \<Rightarrow> alloc_map mm i = None \<and> alloc_map mm' = (alloc_map mm)(i \<mapsto> (nstart n, sz))"
    by blast
  from r have "case r of None \<Rightarrow> (k1 = None \<or> k2 = None) \<and> alloc_map mm' = alloc_map mm
      | Some i \<Rightarrow> alloc_map mm i = None \<and> alloc_map mm' = (alloc_map mm)(i \<mapsto> (nstart n + w, sz))"
    using True by (cases r) simp_all
  with tb True show ?thesis by (simp add: cut_and_take_def)
next
  case False
  have core: "mm_core s e mm" and adj: "no_adjacent_free (xs @ n # ys)"
    using inv ns by (simp_all add: mm_inv_def)
  have "unat w \<le> unat (nsize n)" using le by simp
  from split_at_start_cases [OF core ns k(1) this] show ?thesis
  proof (elim disjE exE conjE)
    fix mm1
    assume "drm_mm_split_at_start mm (nid n) w k1 = (mm1, None)" "mm_core s e mm1"
      "node_list mm1 = node_list mm" "k1 = None"
    moreover from this have "alloc_map mm1 = alloc_map mm" by (intro ext) (simp add: alloc_map_def)
    ultimately show ?thesis using False adj ns by (simp add: cut_and_take_def mm_inv_def)
  next
    fix mm1 c
    let ?n1 = "n\<lparr>nsize := nsize n - w, nstart := nstart n + w\<rparr>"
    assume sp: "drm_mm_split_at_start mm (nid n) w k1 = (mm1, Some (nid c))"
      and core1: "mm_core s e mm1" and nl1: "node_list mm1 = xs @ c # ?n1 # ys"
      and un: "set (unused_nodes mm1) \<subseteq> set (unused_nodes mm)"
      and c: "\<not> nfree c" "nid c \<notin> nid ` set (node_list mm)"
      and cid: "\<forall>i. k1 = Some i \<longrightarrow> nid c = i" "k1 = None \<longrightarrow> nid c \<in> mm_ids mm"
    have ids: "mm_ids mm1 \<subseteq> insert (nid c) (mm_ids mm)" using un by (auto simp: mm_ids_def nl1 ns)
    have "k_ok mm1 k2"
      using k un ids cid by (cases k2; cases k1) (auto simp: k_ok_def clean_unused_def)
    moreover have "unat sz \<le> unat (nsize ?n1)" using le by (simp add: unat_sub_le)
    moreover have "no_adjacent_free xs" "no_adjacent_free (?n1 # ys)"
      using adj by (auto simp: no_adjacent_free_append no_adjacent_Cons)
    moreover have "nfree ?n1" using free by simp
    ultimately obtain mm' r where tb: "take_block mm1 (nid ?n1) sz (Some (nid c)) k2 = Some (mm', r)"
      "mm_inv s e mm'" "case r of None \<Rightarrow> k2 = None \<and> alloc_map mm' = (alloc_map mm1)(nid c := None)
     | Some i \<Rightarrow> alloc_map mm1 i = None \<and> i \<noteq> nid c \<and>
         alloc_map mm' = (alloc_map mm1)(nid c := None, i \<mapsto> (nstart ?n1, sz))"
      using take_block_after_cut [OF core1 nl1 _ c(1)] by blast
    have "node_list mm1 = xs @ [c, ?n1] @ ys" using nl1 by simp
    then have "alloc_map mm1 = alloc_map mm ++ map_of (alloc_list [c, ?n1])"
      by (rule alloc_map_change [OF ns free _ core_distinct [OF core] core_distinct [OF core1]])
    then have al1: "alloc_map mm1 = (alloc_map mm)(nid c \<mapsto> (nstart c, nsize c))" using c(1) free by simp
    have none: "alloc_map mm (nid c) = None" using c(2) by (simp add: alloc_map_def)
    have "case r of None \<Rightarrow> (k1 = None \<or> k2 = None) \<and> alloc_map mm' = alloc_map mm
     | Some i \<Rightarrow> alloc_map mm i = None \<and> alloc_map mm' = (alloc_map mm)(i \<mapsto> (nstart n + w, sz))"
      using tb(3) none by (cases r) (auto simp: al1 fun_upd_idem)
    with tb sp False show ?thesis by (simp add: cut_and_take_def)
  qed
qed


section \<open>Holes\<close>

definition waste :: "u64 \<Rightarrow> u32 \<Rightarrow> u32" where
  "waste start alignment =
     (let tmp = (if alignment \<noteq> 0 then ucast (start mod ucast alignment) else 0 :: u32)
      in if tmp \<noteq> 0 then alignment - tmp else 0)"

lemma waste_tmp:
  assumes "alignment \<noteq> 0"
  shows "unat (ucast (start mod ucast alignment :: u64) :: u32) = unat start mod unat (alignment :: u32)"
proof -
  have pos: "0 < unat alignment" using assms by (simp add: unat_gt_0)
  have "unat (start mod ucast alignment) = unat start mod unat alignment" by (simp add: unat_mod)
  moreover have "unat start mod unat alignment < 4294967296"
    using mod_less_divisor [OF pos, of "unat start"] unat_lt32 [of alignment] by linarith
  ultimately show ?thesis by (simp add: unat_ucast_down32)
qed

lemma waste_aligned:
  assumes "unat start + unat (waste start alignment) < 2 ^ 64"
  shows "alignment = 0 \<or> unat (start + ucast (waste start alignment)) mod unat alignment = 0"
proof (cases "alignment = 0")
  case False
  let ?t = "unat start mod unat alignment"
  have pos: "0 < unat alignment" using False by (simp add: unat_gt_0)
  have tmp: "unat (ucast (start mod ucast alignment :: u64) :: u32) = ?t" by (rule waste_tmp [OF False])
  have lt: "?t < unat alignment" using pos by simp
  have "(unat start + unat (waste start alignment)) mod unat alignment = 0"
  proof (cases "?t = 0")
    case True
    then have "waste start alignment = 0"
      using tmp by (simp add: waste_def False unat_eq_zero)
    with True show ?thesis by simp
  next
    case nz: False
    let ?w = "ucast (start mod ucast alignment :: u64) :: u32"
    have "?w \<noteq> 0" using tmp nz by (metis unat_0)
    then have "waste start alignment = alignment - ?w" by (simp add: waste_def False)
    moreover have "unat (alignment - ?w) = unat alignment - ?t"
      using tmp lt by (simp only: unat_sub_le less_imp_le)
    ultimately have "unat (waste start alignment) = unat alignment - ?t" by simp
    then have "(unat start + unat (waste start alignment)) mod unat alignment =
        (?t + (unat alignment - ?t)) mod unat alignment" by (simp add: mod_add_left_eq)
    with lt show ?thesis by simp
  qed
  with assms show ?thesis by (simp add: unat_add_nowrap)
qed simp

text \<open>The check is exact as long as the range ends \<open>2 ^ 32\<close> below the top of the address
  space, so that adding the waste does not wrap.\<close>

lemma check_free_hole_exact:
  assumes "unat t + 2 ^ 32 \<le> 2 ^ 64" "unat start \<le> unat t"
  shows "check_free_hole start t sz alignment \<longleftrightarrow>
    unat start + unat sz + unat (waste start alignment) \<le> unat t"
proof -
  have d: "unat (t - start) = unat t - unat start" using assms(2) by (rule unat_sub_le)
  show ?thesis
  proof (cases "unat t - unat start < unat sz")
    case True
    then show ?thesis using d by (simp add: check_free_hole_def unat_less_iff)
  next
    case False
    have "unat (start + sz) = unat start + unat sz"
      using False assms by (intro unat_add_nowrap) simp
    moreover have "unat t \<le> 18446744069414584320" using assms(1) by simp
    then have "unat start + unat sz + unat (waste start alignment) < 18446744073709551616"
      using False assms(2) unat_lt32 [of "waste start alignment"] by linarith
    ultimately have "unat (start + sz + ucast (waste start alignment)) =
        unat start + unat sz + unat (waste start alignment)"
      by (subst unat_add_nowrap) simp_all
    with False d show ?thesis
      by (simp add: check_free_hole_def unat_less_iff unat_le_iff waste_def Let_def)
  qed
qed

lemma search_loop_mem:
  "search_loop hole sz al bm best bs es = Some e \<Longrightarrow>
     best = Some e \<or> e \<in> set es \<and> (case hole e of (x, y) \<Rightarrow> check_free_hole x y sz al)"
  by (induction hole sz al bm best bs es rule: search_loop.induct) (auto split: if_splits)

lemma search_loop_Some_best: "search_loop hole sz al bm (Some b) bs es \<noteq> None"
  by (induction es arbitrary: b bs) auto

lemma search_loop_None:
  "search_loop hole sz al bm best bs es = None \<Longrightarrow> \<forall>e \<in> set es. nsize e < bs \<Longrightarrow>
     (\<forall>e \<in> set es. \<not> (case hole e of (x, y) \<Rightarrow> check_free_hole x y sz al))"
proof (induction es arbitrary: best bs)
  case Nil
  then show ?case by simp
next
  case (Cons e es)
  show ?case
  proof (cases "case hole e of (x, y) \<Rightarrow> check_free_hole x y sz al")
    case False
    with Cons show ?thesis by auto
  next
    case True
    with Cons.prems have bm: "bm" by (auto split: if_splits)
    have "nsize e < bs" using Cons.prems(2) by simp
    with True bm Cons.prems(1)
    have "search_loop hole sz al bm (Some e) (nsize e) es = None" by simp
    then show ?thesis using search_loop_Some_best by blast
  qed
qed


lemma free_entries_set:
  "mm_core s e mm \<Longrightarrow> set (free_entries mm) = {n \<in> set (node_list mm). nfree n}"
proof -
  assume core: "mm_core s e mm"
  have mem: "n \<in> set (node_list mm) \<Longrightarrow> node_at (nid n) (node_list mm) = Some n" for n
  proof -
    assume "n \<in> set (node_list mm)"
    then obtain xs ys where "node_list mm = xs @ n # ys" by (metis split_list)
    with core_distinct [OF core] show ?thesis by auto
  qed
  have "set (free_entries mm) = {n. \<exists>i \<in> set (free_ids (node_list mm)). node_at i (node_list mm) = Some n}"
    using core by (simp add: free_entries_def mm_core_def set_map_filter)
  also have "\<dots> = {n \<in> set (node_list mm). nfree n}"
    using mem by (auto simp: free_ids_def image_iff dest: node_at_Some)
  finally show ?thesis .
qed

lemma node_in_range:
  "mm_core s e mm \<Longrightarrow> n \<in> set (node_list mm) \<Longrightarrow>
     s \<le> unat (nstart n) \<and> unat (nstart n + nsize n) = unat (nstart n) + unat (nsize n) \<and>
     unat (nstart n) + unat (nsize n) \<le> e"
  using tiled_bounds [of s "node_list mm" e n] by (auto simp: mm_core_def unat_add_nowrap)

text \<open>What the search finds: a free node with room for the block behind the waste.\<close>

lemma search_free_Some:
  assumes core: "mm_core s e mm" and e: "e + 2 ^ 32 \<le> 2 ^ 64"
    and found: "drm_mm_search_free mm sz al bm = Some (Some p)"
  obtains n where "n \<in> set (node_list mm)" "nid n = p" "nfree n"
    "unat (ucast (waste (nstart n) al) :: u64) + unat sz \<le> unat (nsize n)"
proof -
  from found obtain n where n: "search_loop (\<lambda>e. (nstart e, nstart e + nsize e)) sz al bm None (- 1)
      (free_entries mm) = Some n" "nid n = p"
    by (auto simp: drm_mm_search_free_def split: if_splits)
  from search_loop_mem [OF n(1)] free_entries_set [OF core]
  have mem: "n \<in> set (node_list mm)" "nfree n" and hole: "check_free_hole (nstart n) (nstart n + nsize n) sz al"
    by auto
  note rng = node_in_range [OF core mem(1)]
  have "unat (nstart n + nsize n) + 2 ^ 32 \<le> 2 ^ 64" using rng e by linarith
  then have "unat (nstart n) + unat sz + unat (waste (nstart n) al) \<le> unat (nstart n + nsize n)"
    using hole rng by (subst (asm) check_free_hole_exact) simp_all
  with rng mem n(2) that show thesis by simp
qed

lemma search_free_None:
  assumes core: "mm_core s e mm" and e: "e + 2 ^ 32 \<le> 2 ^ 64"
    and none: "drm_mm_search_free mm sz al bm = Some None"
    and n: "n \<in> set (node_list mm)" "nfree n"
  shows "unat (nsize n) < unat (waste (nstart n) al) + unat sz"
proof -
  from none have srch: "search_loop (\<lambda>e. (nstart e, nstart e + nsize e)) sz al bm None (- 1) (free_entries mm) = None"
    by (auto simp: drm_mm_search_free_def split: if_splits)
  have small: "\<forall>x \<in> set (free_entries mm). nsize x < - 1"
  proof
    fix x assume "x \<in> set (free_entries mm)"
    then have "unat (nsize x) \<le> e" using node_in_range [OF core, of x] free_entries_set [OF core] by simp
    with e have "unat (nsize x) < unat (- 1 :: u64)" by (simp add: unat_minus_one64)
    then show "nsize x < - 1" by (simp only: unat_less_iff)
  qed
  from search_loop_None [OF srch small] n free_entries_set [OF core]
  have "\<not> check_free_hole (nstart n) (nstart n + nsize n) sz al" by auto
  moreover note rng = node_in_range [OF core n(1)]
  moreover have "unat (nstart n + nsize n) + 2 ^ 32 \<le> 2 ^ 64" using rng e by linarith
  ultimately show ?thesis
    by (subst (asm) check_free_hole_exact) simp_all
qed

lemma get_block_generic_cut:
  "node_at p (node_list mm) = Some n \<Longrightarrow>
     drm_mm_get_block_generic mm p sz al k1 k2 = cut_and_take mm p (ucast (waste (nstart n) al)) sz k1 k2"
  by (simp add: drm_mm_get_block_generic_def waste_def Let_def)

text \<open>The search in a range: \<open>adj\<close> is where the usable part of a node begins and ends.\<close>

definition adj_start :: "u64 \<Rightarrow> drm_mm_node \<Rightarrow> u64" where
  "adj_start start n = (if nstart n < start then start else nstart n)"

definition adj_end :: "u64 \<Rightarrow> drm_mm_node \<Rightarrow> u64" where
  "adj_end fin n = (if nstart n + nsize n > fin then fin else nstart n + nsize n)"

definition fits_range :: "u64 \<Rightarrow> u64 \<Rightarrow> u64 \<Rightarrow> u32 \<Rightarrow> drm_mm_node \<Rightarrow> bool" where
  "fits_range start fin sz al n \<longleftrightarrow>
     unat (adj_start start n) + unat sz + unat (waste (adj_start start n) al) \<le> unat (adj_end fin n)"

lemma check_free_hole_range:
  assumes "unat t < 2 ^ 63" "unat start < 2 ^ 63" "unat sz < 2 ^ 62"
  shows "check_free_hole start t sz al \<longleftrightarrow> unat start + unat sz + unat (waste start al) \<le> unat t"
proof (cases "unat start \<le> unat t")
  case True
  with assms show ?thesis by (intro check_free_hole_exact) simp_all
next
  case False
  have w: "unat (waste start al) < 4294967296" by simp
  have "unat (start + sz) = unat start + unat sz" using assms by (intro unat_add_nowrap) simp
  moreover have "unat start + unat sz + unat (waste start al) < 18446744073709551616"
  proof -
    have "unat start < 9223372036854775808" "unat sz < 4611686018427387904" using assms by simp_all
    with w show ?thesis by linarith
  qed
  ultimately have "unat (start + sz + ucast (waste start al)) = unat start + unat sz + unat (waste start al)"
    by (subst unat_add_nowrap) simp_all
  with False show ?thesis by (simp add: check_free_hole_def unat_le_iff waste_def Let_def)
qed

lemma search_in_range:
  assumes core: "mm_core s e mm" and e: "e < 2 ^ 62"
    and small: "unat start < 2 ^ 62" "unat fin < 2 ^ 62" "unat sz < 2 ^ 62"
  shows "case drm_mm_search_free_in_range mm sz al start fin bm of
      None \<Rightarrow> False
    | Some None \<Rightarrow> \<forall>n \<in> set (node_list mm). nfree n \<longrightarrow> \<not> fits_range start fin sz al n
    | Some (Some p) \<Rightarrow> \<exists>n \<in> set (node_list mm). nid n = p \<and> nfree n \<and> fits_range start fin sz al n"
proof -
  let ?h = "\<lambda>n. (adj_start start n, adj_end fin n)"
  have fe: "set (free_entries mm) = {n \<in> set (node_list mm). nfree n}" by (rule free_entries_set [OF core])
  have hole: "check_free_hole (adj_start start n) (adj_end fin n) sz al = fits_range start fin sz al n"
    if "n \<in> set (node_list mm)" for n
  proof -
    note rng = node_in_range [OF core that]
    have "unat (adj_end fin n) < 2 ^ 63" "unat (adj_start start n) < 2 ^ 63"
      using rng e small by (simp_all add: adj_end_def adj_start_def)
    with small(3) show ?thesis by (simp add: check_free_hole_range fits_range_def)
  qed
  have srch: "drm_mm_search_free_in_range mm sz al start fin bm =
      Some (map_option nid (search_loop ?h sz al bm None (- 1) (free_entries mm)))"
    using core by (simp add: drm_mm_search_free_in_range_def mm_core_def adj_start_def [abs_def] adj_end_def [abs_def])
  show ?thesis
  proof (cases "search_loop ?h sz al bm None (- 1) (free_entries mm)")
    case None
    have "\<forall>x \<in> set (free_entries mm). nsize x < - 1"
    proof
      fix x assume "x \<in> set (free_entries mm)"
      then have "unat (nsize x) \<le> e" using node_in_range [OF core, of x] fe by simp
      with e have "unat (nsize x) < unat (- 1 :: u64)" by (simp add: unat_minus_one64)
      then show "nsize x < - 1" by (simp only: unat_less_iff)
    qed
    from search_loop_None [OF None this] hole fe
    have "\<forall>n \<in> set (node_list mm). nfree n \<longrightarrow> \<not> fits_range start fin sz al n" by fastforce
    with None srch show ?thesis by simp
  next
    case (Some n)
    from search_loop_mem [OF this] hole fe
    have "n \<in> set (node_list mm)" "nfree n" "fits_range start fin sz al n" by auto
    with Some srch show ?thesis by auto
  qed
qed

lemma node_in_list: "mm_core s e mm \<Longrightarrow> n \<in> set (node_list mm) \<Longrightarrow> node_at (nid n) (node_list mm) = Some n"
proof -
  assume core: "mm_core s e mm" and "n \<in> set (node_list mm)"
  then obtain xs ys where "node_list mm = xs @ n # ys" by (metis split_list)
  with core_distinct [OF core] show ?thesis by auto
qed

text \<open>With a range below \<open>2 ^ 32\<close> the 32-bit count of wasted units is exact.\<close>

lemma get_block_range_cut:
  assumes core: "mm_core s e mm" and e: "e < 2 ^ 32" and n: "n \<in> set (node_list mm)"
    and fits: "fits_range start fin sz al n"
  obtains w where "drm_mm_get_block_range_generic mm (nid n) sz al start fin k1 k2 =
      cut_and_take mm (nid n) w sz k1 k2"
    "nstart n + w = adj_start start n + ucast (waste (adj_start start n) al)"
    "unat (nstart n + w) = unat (adj_start start n) + unat (waste (adj_start start n) al)"
    "unat w + unat sz \<le> unat (nsize n)"
proof -
  note rng = node_in_range [OF core n]
  let ?a = "adj_start start n"
  define w0 :: u32 where "w0 = (if nstart n < start then ucast (start - nstart n) else 0)"
  have at: "node_at (nid n) (node_list mm) = Some n"
    using node_in_list [OF core n] .
  have fin_le: "unat (adj_end fin n) \<le> unat (nstart n) + unat (nsize n)"
    using rng by (auto simp: adj_end_def word_less_nat_alt)
  have a: "unat ?a + unat sz + unat (waste ?a al) \<le> unat (nstart n) + unat (nsize n)"
    using fits fin_le by (simp add: fits_range_def)
  then have lim: "unat ?a + unat (waste ?a al) < 2 ^ 32" using rng e by linarith
  have na: "unat (nstart n) \<le> unat ?a" by (auto simp: adj_start_def word_less_nat_alt)
  have w0: "unat w0 = unat ?a - unat (nstart n)"
  proof (cases "nstart n < start")
    case True
    then have "unat (start - nstart n) = unat start - unat (nstart n)"
      by (intro unat_sub_le) (simp add: word_less_nat_alt)
    moreover have "unat start < 2 ^ 32" using True lim by (simp add: adj_start_def)
    ultimately show ?thesis using True by (simp add: w0_def adj_start_def unat_ucast_down32)
  qed (simp add: w0_def adj_start_def)
  have s0: "nstart n + ucast w0 = ?a"
  proof (rule iffD2 [OF word_unat_eq_iff])
    have "unat (nstart n) + unat w0 < 2 ^ 64" using w0 na lim by simp
    then show "unat (nstart n + ucast w0) = unat ?a" using w0 na by (simp add: unat_add_nowrap)
  qed
  let ?w = "w0 + waste ?a al"
  have w: "unat ?w = unat w0 + unat (waste ?a al)" 
  proof (rule unat_add_nowrap)
    show "unat w0 + unat (waste ?a al) < 2 ^ LENGTH(32)" using w0 lim by simp
  qed
  have uw: "(ucast ?w :: u64) = ucast w0 + ucast (waste ?a al)"
    by (rule iffD2 [OF word_unat_eq_iff]) (subst unat_add_nowrap, use w w0 lim in simp_all)
  have "drm_mm_get_block_range_generic mm (nid n) sz al start fin k1 k2 = cut_and_take mm (nid n) (ucast ?w) sz k1 k2"
    using s0 by (simp add: drm_mm_get_block_range_generic_def at Let_def waste_def flip: w0_def)
  moreover have st: "nstart n + ucast ?w = ?a + ucast (waste ?a al)"
    unfolding uw using s0 by (simp add: add.assoc [symmetric])
  moreover have "unat (?a + ucast (waste ?a al)) = unat ?a + unat (waste ?a al)"
    using lim by (simp add: unat_add_nowrap)
  moreover have "unat (ucast ?w :: u64) + unat sz \<le> unat (nsize n)" using w w0 a na by simp
  ultimately show thesis using that by metis
qed

text \<open>With two reserve nodes taking a block cannot fail for lack of memory.\<close>

lemma cut_and_take_reserved:
  assumes "cut_and_take mm p w sz k1 k2 = Some (mm', r)" "2 \<le> length (unused_nodes mm)"
  shows "r \<noteq> None"
  using assms
  by (auto simp: cut_and_take_def take_block_def drm_mm_split_at_start_def drm_mm_kmalloc_def Let_def
           split: if_splits option.splits list.splits)

lemma node_split:
  assumes "mm_core s e mm" "n \<in> set (node_list mm)"
  obtains xs ys where "node_list mm = xs @ n # ys" "node_at (nid n) (node_list mm) = Some n"
proof -
  from assms(2) obtain xs ys where ns: "node_list mm = xs @ n # ys" by (metis split_list)
  with core_distinct [OF assms(1)] have "node_at (nid n) (node_list mm) = Some n" by auto
  with ns that show thesis by blast
qed

text \<open>Two allocated blocks are the same block or do not overlap, and all lie in the range.\<close>

lemma tiled_disjoint:
  "tiled s ns e \<Longrightarrow> a \<in> set ns \<Longrightarrow> b \<in> set ns \<Longrightarrow> nid a \<noteq> nid b \<Longrightarrow>
     unat (nstart a) + unat (nsize a) \<le> unat (nstart b) \<or> unat (nstart b) + unat (nsize b) \<le> unat (nstart a)"
  by (induction ns arbitrary: s) (auto dest: tiled_bounds)

lemma alloc_map_node:
  "mm_core s e mm \<Longrightarrow> alloc_map mm i = Some (st, z) \<longleftrightarrow>
     (\<exists>n \<in> set (node_list mm). nid n = i \<and> \<not> nfree n \<and> nstart n = st \<and> nsize n = z)"
  by (auto simp: alloc_map_def dest: node_at_Some split: option.splits elim: node_split)


lemma init_inv:
  assumes "unat start + unat sz < 2 ^ 64"
  shows "mm_inv (unat start) (unat start + unat sz) (fst (drm_mm_init start sz (Some i)))"
    and "snd (drm_mm_init start sz (Some i)) = Inr ()"
  using assms
  by (simp_all add: drm_mm_init_def drm_mm_create_tail_node_def drm_mm_kmalloc_def mm_inv_def mm_core_def
                    zeroed_node_def unscanned_def)

section \<open>Reserving nodes\<close>

lemma pre_get_facts:
  assumes "drm_mm_pre_get mm ks = (mm', r)" "num_unused mm = int (length (unused_nodes mm))"
  shows "node_list mm' = node_list mm \<and> free_stack mm' = free_stack mm \<and> hidden mm' = hidden mm \<and>
    scanned_blocks mm' = scanned_blocks mm \<and> num_unused mm' = int (length (unused_nodes mm')) \<and>
    (\<exists>ns. unused_nodes mm' = unused_nodes mm @ ns \<and> ns = map zeroed_node (map nid ns) \<and>
       prefix (map (\<lambda>n. Some (nid n)) ns) ks) \<and>
    (r = Inl ENOMEM \<or> r = Inr () \<and> 2 \<le> length (unused_nodes mm'))"
  using assms
proof (induction mm ks arbitrary: mm' r rule: drm_mm_pre_get.induct)
  case (1 mm ks)
  show ?case
  proof (cases "num_unused mm < MM_UNUSED_TARGET \<and> (\<exists>i ks'. ks = Some i # ks')")
    case True
    then obtain i ks' where ks: "ks = Some i # ks'" and lt: "num_unused mm < MM_UNUSED_TARGET" by blast
    let ?m = "mm\<lparr>num_unused := num_unused mm + 1, unused_nodes := unused_nodes mm @ [zeroed_node i]\<rparr>"
    have eq: "drm_mm_pre_get ?m ks' = (mm', r)" using 1(2) lt ks by simp
    have "num_unused ?m = int (length (unused_nodes ?m))" using 1(3) by simp
    from 1(1) [OF lt ks refl eq this] obtain ns where
      un: "unused_nodes mm' = unused_nodes ?m @ ns" and zs: "ns = map zeroed_node (map nid ns)"
      and pf: "prefix (map (\<lambda>n. Some (nid n)) ns) ks'" and rest: "node_list mm' = node_list mm"
      "free_stack mm' = free_stack mm" "hidden mm' = hidden mm" "scanned_blocks mm' = scanned_blocks mm"
      "num_unused mm' = int (length (unused_nodes mm'))"
      "r = Inl ENOMEM \<or> r = Inr () \<and> 2 \<le> length (unused_nodes mm')" by auto
    have "nid (zeroed_node i) = i" by (simp add: zeroed_node_def)
    then have all: "unused_nodes mm' = unused_nodes mm @ (zeroed_node i # ns)"
      "zeroed_node i # ns = map zeroed_node (map nid (zeroed_node i # ns))"
      "prefix (map (\<lambda>n. Some (nid n)) (zeroed_node i # ns)) ks"
      using ks pf zs un by simp_all
    have "\<exists>ns. unused_nodes mm' = unused_nodes mm @ ns \<and> ns = map zeroed_node (map nid ns) \<and>
       prefix (map (\<lambda>n. Some (nid n)) ns) ks"
      by (rule exI [of _ "zeroed_node i # ns"]) (intro conjI all)
    with rest show ?thesis by simp
  next
    case False
    with 1(2,3) have "mm' = mm \<and> (r = Inl ENOMEM \<or> r = Inr () \<and> 2 \<le> length (unused_nodes mm'))"
      by (auto simp: MM_UNUSED_TARGET_def split: if_splits list.splits option.splits)
    then show ?thesis using 1(3) by auto
  qed
qed

definition some_ids :: "nat option list \<Rightarrow> nat list" where
  "some_ids ks = List.map_filter id ks"

lemma some_ids_simps [simp]:
  "some_ids [] = []" "some_ids (Some i # ks) = i # some_ids ks" "some_ids (None # ks) = some_ids ks"
  "some_ids (ks @ ls) = some_ids ks @ some_ids ls" "some_ids (map (\<lambda>n. Some (f n)) ns) = map f ns"
  by (simp_all add: some_ids_def List.map_filter_def comp_def)

lemma pre_get_inv:
  assumes get: "drm_mm_pre_get mm ks = (mm', r)" and inv: "mm_inv s e mm"
    and ks: "distinct (some_ids ks)" "set (some_ids ks) \<inter> mm_ids mm = {}"
  shows "mm_inv s e mm'" "mm_ids mm' \<subseteq> mm_ids mm \<union> set (some_ids ks)"
    "clean_unused mm \<Longrightarrow> clean_unused mm'" "alloc_map mm' = alloc_map mm" "node_list mm' = node_list mm"
    "r = Inl ENOMEM \<or> r = Inr () \<and> 2 \<le> length (unused_nodes mm')"
proof -
  have core: "mm_core s e mm" using inv by (simp add: mm_inv_def)
  then have "num_unused mm = int (length (unused_nodes mm))" by (simp add: mm_core_def)
  note f = pre_get_facts [OF get this]
  then obtain ns where un: "unused_nodes mm' = unused_nodes mm @ ns" and zs: "ns = map zeroed_node (map nid ns)"
    and pf: "prefix (map (\<lambda>n. Some (nid n)) ns) ks" by blast
  from pf obtain rest where rest: "ks = map (\<lambda>n. Some (nid n)) ns @ rest" by (auto simp: prefix_def)
  have d: "distinct (map nid ns)" "set (map nid ns) \<subseteq> set (some_ids ks)" using ks(1) rest by simp_all
  then have new: "nid ` set ns \<inter> mm_ids mm = {}" using ks(2) by auto
  show "node_list mm' = node_list mm" "alloc_map mm' = alloc_map mm"
    using f by (simp_all add: alloc_map_def [abs_def])
  show "mm_inv s e mm'"
    using inv f un d new by (auto simp: mm_inv_def mm_core_def mm_ids_def)
  show "mm_ids mm' \<subseteq> mm_ids mm \<union> set (some_ids ks)" using f un d(2) by (auto simp: mm_ids_def)
  show "r = Inl ENOMEM \<or> r = Inr () \<and> 2 \<le> length (unused_nodes mm')" using f by blast
  have "\<forall>c \<in> set ns. \<not> nfree c \<and> unscanned c"
  proof
    fix c assume "c \<in> set ns"
    then obtain i where "c = zeroed_node i" using zs by (metis (no_types) imageE set_map)
    then show "\<not> nfree c \<and> unscanned c" by (simp add: zeroed_node_def unscanned_def)
  qed
  then show "clean_unused mm \<Longrightarrow> clean_unused mm'" using un by (auto simp: clean_unused_def)
qed

section \<open>The interface of a range allocator\<close>

text \<open>The laws a user of the allocator relies on: what the live blocks are after a block is
  taken or given back, and that live blocks never overlap.\<close>

locale range_allocator =
  fixes inv :: "'m \<Rightarrow> bool"
    and blocks :: "'m \<Rightarrow> nat \<Rightarrow> (u64 \<times> u64) option"
    and gets :: "'m \<Rightarrow> 'm \<Rightarrow> nat \<Rightarrow> u64 \<Rightarrow> u64 \<Rightarrow> bool" \<comment> \<open>a successful allocation\<close>
    and put :: "'m \<Rightarrow> nat \<Rightarrow> 'm option"
  assumes gets_law: "inv m \<Longrightarrow> gets m m' i st z \<Longrightarrow>
      inv m' \<and> blocks m i = None \<and> blocks m' = (blocks m)(i \<mapsto> (st, z))"
    and put_law: "inv m \<Longrightarrow> blocks m i \<noteq> None \<Longrightarrow>
      \<exists>m'. put m i = Some m' \<and> inv m' \<and> blocks m' = (blocks m)(i := None)"
    and disjoint_law: "inv m \<Longrightarrow> blocks m i = Some (a, y) \<Longrightarrow> blocks m j = Some (b, z) \<Longrightarrow> i \<noteq> j \<Longrightarrow>
      unat a + unat y \<le> unat b \<or> unat b + unat z \<le> unat a"
begin

lemma gets_put:
  assumes "inv m" "gets m m' i st z"
  shows "\<exists>m''. put m' i = Some m'' \<and> inv m'' \<and> blocks m'' = blocks m"
  using gets_law [OF assms] put_law [of m' i] by (auto simp: fun_upd_idem)

lemma gets_fresh_space:
  assumes "inv m" "gets m m' i st z" "blocks m j = Some (b, k)"
  shows "unat st + unat z \<le> unat b \<or> unat b + unat k \<le> unat st"
proof -
  note new = gets_law [OF assms(1,2)]
  with assms(3) have "i \<noteq> j" by auto
  with new assms(3) disjoint_law [of m' i st z j b k] show ?thesis by auto
qed

lemma gets_keeps: "inv m \<Longrightarrow> gets m m' i st z \<Longrightarrow> blocks m j = Some x \<Longrightarrow> blocks m' j = Some x"
  using gets_law by fastforce

end

text \<open>For the code's model: a block is taken from a free node with room for it, from either
  of the two allocation functions, with memory for the node structures that is not in use.\<close>

definition mm_gets :: "nat \<Rightarrow> nat \<Rightarrow> drm_mm \<Rightarrow> drm_mm \<Rightarrow> nat \<Rightarrow> u64 \<Rightarrow> u64 \<Rightarrow> bool" where
  "mm_gets s e mm mm' i st z \<longleftrightarrow>
     (\<exists>n w k1 k2. n \<in> set (node_list mm) \<and> nfree n \<and> unat w + unat z \<le> unat (nsize n) \<and>
        k_ok mm k1 \<and> k_ok mm k2 \<and> (k1 = k2 \<longrightarrow> k1 = None) \<and> st = nstart n + w \<and>
        cut_and_take mm (nid n) w z k1 k2 = Some (mm', Some i))"

interpretation mm: range_allocator "mm_inv s e" alloc_map "mm_gets s e" drm_mm_put_block for s e
proof
  fix m m' i st z
  assume inv: "mm_inv s e m" and gets: "mm_gets s e m m' i st z"
  from gets obtain n w k1 k2 where g: "n \<in> set (node_list m)" "nfree n"
    "unat w + unat z \<le> unat (nsize n)" "k_ok m k1" "k_ok m k2" "k1 = k2 \<longrightarrow> k1 = None"
    "st = nstart n + w" "cut_and_take m (nid n) w z k1 k2 = Some (m', Some i)"
    unfolding mm_gets_def by blast
  obtain xs ys where "node_list m = xs @ n # ys" using g(1) by (metis split_list)
  from cut_and_take_spec [OF inv this g(2,4,5,6,3)] g(7,8)
  show "mm_inv s e m' \<and> alloc_map m i = None \<and> alloc_map m' = (alloc_map m)(i \<mapsto> (st, z))"
    by auto
next
  fix m i
  assume inv: "mm_inv s e m" and "alloc_map m i \<noteq> None"
  then obtain n where n: "n \<in> set (node_list m)" "nid n = i" "\<not> nfree n"
    using alloc_map_node [of s e m i] by (fastforce simp: mm_inv_def)
  obtain xs ys where ns: "node_list m = xs @ n # ys" using n(1) by (metis split_list)
  have core: "mm_core s e m" and "no_adjacent_free (xs @ n # ys)" using inv ns by (simp_all add: mm_inv_def)
  then have "no_adjacent_free xs" "no_adjacent_free ys"
    by (simp_all add: no_adjacent_free_append no_adjacent_Cons)
  with put_block_core [OF core ns n(3)] n(2)
  show "\<exists>m'. drm_mm_put_block m i = Some m' \<and> mm_inv s e m' \<and> alloc_map m' = (alloc_map m)(i := None)"
    by (auto simp: mm_inv_def merge_no_adjacent)
next
  fix m i a y j b z
  assume inv: "mm_inv s e m" and ij: "alloc_map m i = Some (a, y)" "alloc_map m j = Some (b, z)" "i \<noteq> j"
  have core: "mm_core s e m" using inv by (simp add: mm_inv_def)
  from ij obtain n k where n: "n \<in> set (node_list m)" "nid n = i" "nstart n = a" "nsize n = y"
    and k: "k \<in> set (node_list m)" "nid k = j" "nstart k = b" "nsize k = z"
    unfolding alloc_map_node [OF core] by blast
  from core have "tiled s (node_list m) e" by (simp add: mm_core_def)
  from tiled_disjoint [OF this n(1) k(1)] n k ij(3)
  show "unat a + unat y \<le> unat b \<or> unat b + unat z \<le> unat a" by simp
qed

section \<open>Properties\<close>

text \<open>C1: searching a hole and taking a block from it.  When the search finds nothing, no free
  node has room for the block behind the units wasted for its alignment.  When it finds a
  node, taking the block either fails for lack of memory and leaves the blocks as they
  were, or adds one block that has the requested size, is aligned, and lies in a node that
  was free; the manager stays well formed.  The manager is not being scanned, its range ends
  \<open>2 ^ 32\<close> below the top of the address space, and every node structure is either fresh memory
  from \<open>kzalloc\<close> or, when \<open>kzalloc\<close> has none, a reserve node whose flags are clear
  (\<open>k_ok\<close>).  The code does not ensure the last: \<open>drm_mm_put_block\<close> puts a merged free node
  on the reserve as it is, and \<open>stale_reserve_node_marked_free\<close> shows what an allocation
  then returns.\<close>

theorem drm_mm_alloc_correct:
  assumes inv: "mm_inv s e mm" and e: "e + 2 ^ 32 \<le> 2 ^ 64"
    and k: "k_ok mm k1" "k_ok mm k2" "k1 = k2 \<longrightarrow> k1 = None"
  shows "case drm_mm_search_free mm sz al best_match of
      None \<Rightarrow> False
    | Some None \<Rightarrow> (\<forall>n \<in> set (node_list mm). nfree n \<longrightarrow>
        unat (nsize n) < unat (waste (nstart n) al) + unat sz)
    | Some (Some p) \<Rightarrow>
        \<exists>mm' r. drm_mm_get_block_generic mm p sz al k1 k2 = Some (mm', r) \<and> mm_inv s e mm' \<and>
          (case r of
             None \<Rightarrow> (k1 = None \<or> k2 = None) \<and> alloc_map mm' = alloc_map mm
           | Some i \<Rightarrow> \<exists>st. alloc_map mm i = None \<and> alloc_map mm' = (alloc_map mm)(i \<mapsto> (st, sz)) \<and>
               (al = 0 \<or> unat st mod unat al = 0) \<and>
               (\<exists>n \<in> set (node_list mm). nfree n \<and> unat (nstart n) \<le> unat st \<and>
                  unat st + unat sz \<le> unat (nstart n) + unat (nsize n)))"
proof -
  have core: "mm_core s e mm" using inv by (simp add: mm_inv_def)
  show ?thesis
  proof (cases "drm_mm_search_free mm sz al best_match")
    case None
    with core show ?thesis by (simp add: drm_mm_search_free_def mm_core_def)
  next
    case (Some o1)
    show ?thesis
    proof (cases o1)
      case None
      with Some search_free_None [OF core e] show ?thesis by simp
    next
      case (Some p)
      obtain n where n: "n \<in> set (node_list mm)" "nid n = p" "nfree n"
        and fits: "unat (ucast (waste (nstart n) al) :: u64) + unat sz \<le> unat (nsize n)"
        using search_free_Some [OF core e] \<open>drm_mm_search_free mm sz al best_match = Some o1\<close> Some by blast
      obtain xs ys where ns: "node_list mm = xs @ n # ys" and at: "node_at (nid n) (node_list mm) = Some n"
        using node_split [OF core n(1)] .
      let ?w = "ucast (waste (nstart n) al) :: u64" and ?st = "nstart n + ucast (waste (nstart n) al)"
      obtain mm' r where res: "cut_and_take mm (nid n) ?w sz k1 k2 = Some (mm', r)" "mm_inv s e mm'"
        and r: "case r of None \<Rightarrow> (k1 = None \<or> k2 = None) \<and> alloc_map mm' = alloc_map mm
          | Some i \<Rightarrow> alloc_map mm i = None \<and> alloc_map mm' = (alloc_map mm)(i \<mapsto> (?st, sz))"
        using cut_and_take_spec [OF inv ns n(3) k fits] by blast
      have rng: "unat (nstart n) + unat (nsize n) \<le> e" using node_in_range [OF core n(1)] by simp
      then have "unat (nstart n) + unat (waste (nstart n) al) < 2 ^ 64" using fits e by simp
      note al = waste_aligned [OF this]
      have st: "unat ?st = unat (nstart n) + unat (waste (nstart n) al)"
        using \<open>unat (nstart n) + unat (waste (nstart n) al) < 2 ^ 64\<close> by (simp add: unat_add_nowrap)
      have inside: "unat (nstart n) \<le> unat ?st" "unat ?st + unat sz \<le> unat (nstart n) + unat (nsize n)"
        using st fits by simp_all
      have "case r of None \<Rightarrow> (k1 = None \<or> k2 = None) \<and> alloc_map mm' = alloc_map mm
           | Some i \<Rightarrow> \<exists>st. alloc_map mm i = None \<and> alloc_map mm' = (alloc_map mm)(i \<mapsto> (st, sz)) \<and>
               (al = 0 \<or> unat st mod unat al = 0) \<and>
               (\<exists>n \<in> set (node_list mm). nfree n \<and> unat (nstart n) \<le> unat st \<and>
                  unat st + unat sz \<le> unat (nstart n) + unat (nsize n))"
      proof (cases r)
        case None
        with r show ?thesis by simp
      next
        case (Some i)
        with r have a: "alloc_map mm i = None" "alloc_map mm' = (alloc_map mm)(i \<mapsto> (?st, sz))" by simp_all
        have host: "\<exists>n \<in> set (node_list mm). nfree n \<and> unat (nstart n) \<le> unat ?st \<and>
                  unat ?st + unat sz \<le> unat (nstart n) + unat (nsize n)"
          using n(1,3) inside by blast
        show ?thesis unfolding Some option.case
          by (rule exI [of _ ?st], intro conjI) (rule a(1), rule a(2), rule al, rule host)
      qed
      moreover have "drm_mm_get_block_generic mm p sz al k1 k2 = Some (mm', r)"
        using get_block_generic_cut [OF at] res(1) n(2) by simp
      ultimately show ?thesis using Some \<open>drm_mm_search_free mm sz al best_match = Some o1\<close> res(2) by simp
    qed
  qed
qed


definition mm100 :: drm_mm where
  "mm100 = fst (drm_mm_init 0 100 (Some 1))"

lemma mm100_inv: "mm_inv 0 100 mm100"
  using init_inv(1) [of 0 100 1] by (simp add: mm100_def)

lemma mm100_eval:
  "free_stack mm100 = [1]" "unused_nodes mm100 = []"
  "node_list mm100 = [(zeroed_node 1)\<lparr>nfree := True, nsize := 100, nstart := 0\<rparr>]"
  by (simp_all add: mm100_def drm_mm_init_def drm_mm_create_tail_node_def drm_mm_kmalloc_def zeroed_node_def)

theorem drm_mm_alloc_correct_witness:
  "\<exists>mm' r. drm_mm_get_block_generic mm100 1 10 8 (Some 2) (Some 3) = Some (mm', r) \<and> mm_inv 0 100 mm' \<and>
     (\<exists>i st. r = Some i \<and> alloc_map mm' = (alloc_map mm100)(i \<mapsto> (st, 10)))"
proof -
  have k: "k_ok mm100 (Some 2)" "k_ok mm100 (Some 3)" "Some (2::nat) = Some 3 \<longrightarrow> Some (2::nat) = None"
    by (simp_all add: k_ok_def mm_ids_def mm100_eval zeroed_node_def)
  have e: "100 + 2 ^ 32 \<le> (2 ^ 64 :: nat)" by simp
  have found: "drm_mm_search_free mm100 10 8 True = Some (Some 1)"
    by (simp add: drm_mm_search_free_def free_entries_def mm100_eval zeroed_node_def check_free_hole_def)
       (simp add: mm100_def drm_mm_init_def drm_mm_create_tail_node_def drm_mm_kmalloc_def)
  from drm_mm_alloc_correct [OF mm100_inv e k, where sz = 10 and al = 8 and best_match = True,
    unfolded found option.case]
  show ?thesis by (auto split: option.splits)
qed

text \<open>C2: giving back a live block never runs into a \<open>BUG_ON\<close>, removes exactly that block,
  and keeps the manager well formed, in particular free neighbours are merged; taking a
  block and giving it back restores the set of live blocks.\<close>

theorem drm_mm_put_block_correct:
  assumes "mm_inv s e mm" "alloc_map mm c \<noteq> None"
  shows "\<exists>mm'. drm_mm_put_block mm c = Some mm' \<and> mm_inv s e mm' \<and>
    alloc_map mm' = (alloc_map mm)(c := None) \<and> no_adjacent_free (node_list mm')"
  using mm.put_law [OF assms] by (auto simp: mm_inv_def)

definition mm_one_block :: drm_mm where
  "mm_one_block = fst (the (drm_mm_get_block_generic mm100 1 10 0 None (Some 2)))"

lemma mm_one_block_eval:
  "node_list mm_one_block =
     [(zeroed_node 2)\<lparr>nsize := 10, nstart := 0\<rparr>,
      (zeroed_node 1)\<lparr>nfree := True, nsize := 90, nstart := 10\<rparr>]"
  by (simp add: mm_one_block_def drm_mm_get_block_generic_def cut_and_take_def take_block_def
                drm_mm_split_at_start_def drm_mm_kmalloc_def mm100_eval zeroed_node_def Let_def)

lemma mm_one_block_inv: "mm_inv 0 100 mm_one_block"
proof -
  have ns: "node_list mm100 = [] @ (zeroed_node 1)\<lparr>nfree := True, nsize := 100, nstart := 0\<rparr> # []"
    by (simp add: mm100_eval)
  have k: "k_ok mm100 None" "k_ok mm100 (Some 2)" "None = Some (2::nat) \<longrightarrow> (None :: nat option) = None"
    by (simp_all add: k_ok_def mm_ids_def clean_unused_def mm100_eval zeroed_node_def)
  have "drm_mm_get_block_generic mm100 1 10 0 None (Some 2) = cut_and_take mm100 1 0 10 None (Some 2)"
    by (simp add: drm_mm_get_block_generic_def mm100_eval zeroed_node_def)
  with cut_and_take_spec [OF mm100_inv ns _ k, of 0 10] show ?thesis
    by (auto simp: mm_one_block_def zeroed_node_def)
qed

theorem drm_mm_put_block_correct_witness:
  "alloc_map mm_one_block 2 = Some (0, 10) \<and>
   (\<exists>mm'. drm_mm_put_block mm_one_block 2 = Some mm' \<and> mm_inv 0 100 mm' \<and> alloc_map mm' 2 = None)"
proof -
  have "alloc_map mm_one_block 2 = Some (0, 10)"
    by (simp add: alloc_map_def mm_one_block_eval zeroed_node_def)
  with drm_mm_put_block_correct [OF mm_one_block_inv, of 2] show ?thesis by auto
qed

section \<open>Runs of a client\<close>

text \<open>A block found by either search and taken.\<close>

lemma search_get:
  assumes inv: "mm_inv s e mm" and e: "e + 2 ^ 32 \<le> 2 ^ 64"
    and k: "k_ok mm k1" "k_ok mm k2" "k1 = k2 \<longrightarrow> k1 = None"
    and found: "drm_mm_search_free mm sz al bm = Some (Some p)"
    and get: "drm_mm_get_block_generic mm p sz al k1 k2 = Some (mm', r)"
  shows "mm_inv s e mm' \<and> (case r of None \<Rightarrow> alloc_map mm' = alloc_map mm
    | Some i \<Rightarrow> \<exists>st. alloc_map mm' = (alloc_map mm)(i \<mapsto> (st, sz)))"
proof -
  have core: "mm_core s e mm" using inv by (simp add: mm_inv_def)
  obtain n where n: "n \<in> set (node_list mm)" "nid n = p" "nfree n"
    and fits: "unat (ucast (waste (nstart n) al) :: u64) + unat sz \<le> unat (nsize n)"
    using search_free_Some [OF core e found] by blast
  obtain xs ys where ns: "node_list mm = xs @ n # ys" and at: "node_at (nid n) (node_list mm) = Some n"
    using node_split [OF core n(1)] .
  from cut_and_take_spec [OF inv ns n(3) k fits] get show ?thesis
    by (auto simp: get_block_generic_cut [OF at, unfolded n(2)] n(2) split: option.splits)
qed

lemma search_get_range:
  assumes inv: "mm_inv s e mm" and e: "e < 2 ^ 32"
    and small: "unat start < 2 ^ 32" "unat fin < 2 ^ 32" "unat sz < 2 ^ 32"
    and k: "k_ok mm k1" "k_ok mm k2" "k1 = k2 \<longrightarrow> k1 = None"
    and found: "drm_mm_search_free_in_range mm sz al start fin bm = Some (Some p)"
    and get: "drm_mm_get_block_range_generic mm p sz al start fin k1 k2 = Some (mm', r)"
  shows "mm_inv s e mm' \<and> (case r of None \<Rightarrow> alloc_map mm' = alloc_map mm
    | Some i \<Rightarrow> \<exists>st. alloc_map mm' = (alloc_map mm)(i \<mapsto> (st, sz)))"
proof -
  have core: "mm_core s e mm" using inv by (simp add: mm_inv_def)
  have "e < 2 ^ 62" "unat start < 2 ^ 62" "unat fin < 2 ^ 62" "unat sz < 2 ^ 62" using e small by simp_all
  from search_in_range [OF core this, of al bm] found obtain n where n: "n \<in> set (node_list mm)" "nid n = p" "nfree n"
    and fits: "fits_range start fin sz al n" by auto
  obtain w where blk: "drm_mm_get_block_range_generic mm (nid n) sz al start fin k1 k2 = cut_and_take mm (nid n) w sz k1 k2"
    and w: "unat w + unat sz \<le> unat (nsize n)"
    using get_block_range_cut [OF core e n(1) fits] by metis
  obtain xs ys where ns: "node_list mm = xs @ n # ys" using n(1) by (metis split_list)
  from cut_and_take_spec [OF inv ns n(3) k w] get blk n(2) show ?thesis by (auto split: option.splits)
qed

text \<open>What the clients of a manager of the range from \<open>s\<close> up to \<open>e\<close> do, one after the other:
  they reserve node structures, take blocks that a search found, and give back blocks they
  hold.  \<open>held\<close> is what they know: for every node they were handed and have not given back,
  where it began when they got it and the size they had asked for.\<close>

definition memory_ok :: "drm_mm \<Rightarrow> nat option \<Rightarrow> nat option \<Rightarrow> bool" where
  "memory_ok mm k1 k2 \<longleftrightarrow> k_ok mm k1 \<and> k_ok mm k2 \<and> (k1 = k2 \<longrightarrow> k1 = None)"

inductive mm_run :: "nat \<Rightarrow> nat \<Rightarrow> drm_mm \<Rightarrow> (nat \<Rightarrow> (u64 \<times> u64) option) \<Rightarrow> bool" for s e where
  start: "drm_mm_init st sz (Some i) = (mm, Inr ()) \<Longrightarrow> unat st = s \<Longrightarrow> unat st + unat sz = e \<Longrightarrow>
    sz \<noteq> 0 \<Longrightarrow> mm_run s e mm (\<lambda>_. None)"
| reserve: "mm_run s e mm held \<Longrightarrow> distinct (some_ids ks) \<Longrightarrow> set (some_ids ks) \<inter> mm_ids mm = {} \<Longrightarrow>
    drm_mm_pre_get mm ks = (mm', r) \<Longrightarrow> mm_run s e mm' held"
| get: "mm_run s e mm held \<Longrightarrow> memory_ok mm k1 k2 \<Longrightarrow>
    drm_mm_search_free mm sz al best_match = Some (Some p) \<Longrightarrow>
    drm_mm_get_block_generic mm p sz al k1 k2 = Some (mm', Some i) \<Longrightarrow>
    node_at i (node_list mm') = Some n \<Longrightarrow> mm_run s e mm' (held(i \<mapsto> (nstart n, sz)))"
| get_fails: "mm_run s e mm held \<Longrightarrow> memory_ok mm k1 k2 \<Longrightarrow>
    drm_mm_search_free mm sz al best_match = Some (Some p) \<Longrightarrow>
    drm_mm_get_block_generic mm p sz al k1 k2 = Some (mm', None) \<Longrightarrow> mm_run s e mm' held"
| get_range: "mm_run s e mm held \<Longrightarrow> memory_ok mm k1 k2 \<Longrightarrow>
    e < 2 ^ 32 \<Longrightarrow> unat lo < 2 ^ 32 \<Longrightarrow> unat hi < 2 ^ 32 \<Longrightarrow> unat sz < 2 ^ 32 \<Longrightarrow>
    drm_mm_search_free_in_range mm sz al lo hi best_match = Some (Some p) \<Longrightarrow>
    drm_mm_get_block_range_generic mm p sz al lo hi k1 k2 = Some (mm', Some i) \<Longrightarrow>
    node_at i (node_list mm') = Some n \<Longrightarrow> mm_run s e mm' (held(i \<mapsto> (nstart n, sz)))"
| put: "mm_run s e mm held \<Longrightarrow> held i \<noteq> None \<Longrightarrow> drm_mm_put_block mm i = Some mm' \<Longrightarrow>
    mm_run s e mm' (held(i := None))"

lemma alloc_map_start:
  assumes "alloc_map mm' = (alloc_map mm)(i \<mapsto> (st, sz))" "node_at i (node_list mm') = Some n"
  shows "nstart n = st"
proof -
  have "alloc_map mm' i = Some (st, sz)" using assms(1) by simp
  with assms(2) show ?thesis by (simp add: alloc_map_def split: if_splits)
qed

text \<open>The clients' knowledge stays true.\<close>

lemma mm_run_inv:
  assumes e: "e + 2 ^ 32 \<le> 2 ^ 64"
  shows "mm_run s e mm held \<Longrightarrow> mm_inv s e mm \<and> alloc_map mm = held \<and> s < e"
proof (induction rule: mm_run.induct)
  case (start st sz i mm)
  have "unat st + unat sz < 2 ^ 64" using start(3) e by simp
  note new = init_inv [OF this, of i]
  have "mm_inv s e mm" using new(1) start(1,2,3) by simp
  moreover have "alloc_map mm = (\<lambda>_. None)"
    using start(1) by (auto simp: drm_mm_init_def drm_mm_create_tail_node_def drm_mm_kmalloc_def alloc_map_def)
  moreover have "0 < unat sz" using start(4) by (simp add: unat_gt_0)
  ultimately show ?case using start(2,3) by simp
next
  case (reserve mm held ks mm' r)
  then have "mm_inv s e mm" by simp
  with reserve show ?case using pre_get_inv(1,4) [OF reserve(4) _ reserve(2,3)] by metis
next
  case (get mm held k1 k2 sz al best_match p mm' i n)
  then have "mm_inv s e mm' \<and> (\<exists>st. alloc_map mm' = (alloc_map mm)(i \<mapsto> (st, sz)))"
    using search_get [OF _ e, of s mm k1 k2 sz al best_match p mm' "Some i"] by (simp add: memory_ok_def)
  with get show ?case using alloc_map_start by blast
next
  case (get_fails mm held k1 k2 sz al best_match p mm')
  then show ?case
    using search_get [OF _ e, of s mm k1 k2 sz al best_match p mm' None] by (simp add: memory_ok_def)
next
  case (get_range mm held k1 k2 lo hi sz al best_match p mm' i n)
  then have "mm_inv s e mm' \<and> (\<exists>st. alloc_map mm' = (alloc_map mm)(i \<mapsto> (st, sz)))"
    using search_get_range [of s e mm lo hi sz k1 k2 al best_match p mm' "Some i"] by (simp add: memory_ok_def)
  with get_range show ?case using alloc_map_start by blast
next
  case (put mm held i mm')
  then show ?case using mm.put_law [of s e mm i] by auto
qed

lemma no_two_free: "no_adjacent_free ns \<Longrightarrow> \<forall>n \<in> set ns. nfree n \<Longrightarrow> length ns \<le> 1"
  by (cases ns rule: no_adjacent_free.cases) auto

lemma nothing_allocated:
  assumes inv: "mm_inv s e mm" and none: "alloc_map mm = (\<lambda>_. None)" and ne: "s < e"
  obtains n where "node_list mm = [n]" "nfree n" "unat (nstart n) = s" "s + unat (nsize n) = e" "free_stack mm = [nid n]"
proof -
  have core: "mm_core s e mm" using inv by (simp add: mm_inv_def)
  have free: "\<forall>n \<in> set (node_list mm). nfree n"
  proof
    fix n assume n: "n \<in> set (node_list mm)"
    show "nfree n"
    proof (rule ccontr)
      assume "\<not> nfree n"
      then have "alloc_map mm (nid n) = Some (nstart n, nsize n)" unfolding alloc_map_node [OF core] using n by blast
      with none show False by simp
    qed
  qed
  have t: "tiled s (node_list mm) e" using core by (simp add: mm_core_def)
  have "length (node_list mm) \<le> 1" using inv free no_two_free by (simp add: mm_inv_def)
  moreover have "node_list mm \<noteq> []" using t ne by (cases "node_list mm") auto
  ultimately obtain n where n: "node_list mm = [n]" by (cases "node_list mm") auto
  have "nfree n" using free n by simp
  moreover have "set (free_stack mm) = {nid n}" "distinct (free_stack mm)"
    using core n \<open>nfree n\<close> by (simp_all add: mm_core_def)
  then have "free_stack mm = [nid n]"
    by (metis (no_types, lifting) card.insert card.empty distinct_card empty_iff finite.emptyI length_0_conv
        length_Suc_conv list.set_intros(1) singletonD)
  ultimately show thesis using that n t by simp
qed

section \<open>A reserve node whose flags are not clear\<close>

text \<open>A node merged away when a block is given back goes to the reserve with its \<open>free\<close> flag
  set, and \<open>drm_mm_kmalloc\<close> hands it out unchanged.\<close>

definition take_front :: "drm_mm \<Rightarrow> u64 \<Rightarrow> nat option \<Rightarrow> drm_mm \<times> nat option" where
  "take_front mm sz k =
     (case drm_mm_search_free mm sz 0 False of
        Some (Some p) \<Rightarrow> the (drm_mm_get_block_generic mm p sz 0 None k)
      | _ \<Rightarrow> (mm, None))"

definition stale_reserve :: drm_mm where
  "stale_reserve =
     (let mm = fst (drm_mm_init 0 100 (Some 1));
          mm = fst (take_front mm 10 (Some 2)); mm = fst (take_front mm 10 (Some 3)); mm = fst (take_front mm 10 (Some 4));
          mm = the (drm_mm_put_block mm 2); mm = the (drm_mm_put_block mm 4); mm = the (drm_mm_put_block mm 3)
      in fst (take_front mm 10 None))"

text \<open>In this state, reached with three blocks taken and given back and one taken without
  memory for a node structure, a second such allocation returns a block that is marked free:
  it is no live block, and giving back the block in front of it makes the node its holder
  was given begin somewhere else.\<close>

lemma stale_reserve_node_marked_free:
  "case take_front stale_reserve 10 None of
     (mm, Some i) \<Rightarrow> map_option nstart (node_at i (node_list mm)) = Some 10 \<and> alloc_map mm i = None \<and>
       (case drm_mm_put_block mm 3 of
          Some mm' \<Rightarrow> map_option nstart (node_at i (node_list mm')) = Some 0
        | None \<Rightarrow> False)
   | _ \<Rightarrow> False"
  by code_simp

section \<open>Properties of runs\<close>

text \<open>C3: in every state that clients reach from a freshly initialised manager of a non-empty
  range by reserving nodes, taking blocks with either allocation function and giving held
  blocks back, the blocks they hold lie inside the range and never overlap, at the place
  and with the size they were handed out with; giving any of them back reaches no
  \<open>BUG_ON\<close>, no search finds a scan in progress, and once nothing is held the manager is
  clean and is torn down.  Node structures come from \<open>kzalloc\<close> or, when it has no memory,
  from reserve nodes with clear flags, as for C1; nobody scans for eviction; the range variant
  is used in a range, and with arguments, below \<open>2 ^ 32\<close>.\<close>

theorem drm_mm_run_sound:
  assumes run: "mm_run s e mm held" and e: "e + 2 ^ 32 \<le> 2 ^ 64"
  shows "(\<forall>i a y. held i = Some (a, y) \<longrightarrow>
      s \<le> unat a \<and> unat a + unat y \<le> e \<and> drm_mm_put_block mm i \<noteq> None \<and>
      (\<forall>j b z. held j = Some (b, z) \<longrightarrow> i \<noteq> j \<longrightarrow>
         unat a + unat y \<le> unat b \<or> unat b + unat z \<le> unat a)) \<and>
    drm_mm_search_free mm sz al best_match \<noteq> None \<and>
    (held = (\<lambda>_. None) \<longrightarrow>
       drm_mm_clean mm \<and> (\<exists>mm'. drm_mm_takedown mm = Some (mm', True) \<and> node_list mm' = []))"
proof (intro conjI allI impI)
  note now = mm_run_inv [OF e run]
  then have inv: "mm_inv s e mm" and core: "mm_core s e mm" by (simp_all add: mm_inv_def)
  show "drm_mm_search_free mm sz al best_match \<noteq> None"
    using core by (simp add: drm_mm_search_free_def mm_core_def)
  {
    fix i a y assume i: "held i = Some (a, y)"
    then have live: "alloc_map mm i = Some (a, y)" using now by simp
    then show "drm_mm_put_block mm i \<noteq> None" using mm.put_law [OF inv, of i] by auto
    from live obtain n where "n \<in> set (node_list mm)" "nstart n = a" "nsize n = y"
      unfolding alloc_map_node [OF core] by blast
    with node_in_range [OF core] show "s \<le> unat a" "unat a + unat y \<le> e" by auto
    show "unat a + unat y \<le> unat b \<or> unat b + unat z \<le> unat a" if "held j = Some (b, z)" "i \<noteq> j" for j b z
      using mm.disjoint_law [OF inv live] that now by simp
  }
  assume none: "held = (\<lambda>_. None)"
  from now none have "alloc_map mm = (\<lambda>_. None)" "s < e" by simp_all
  then obtain n where n: "node_list mm = [n]" "free_stack mm = [nid n]"
    using nothing_allocated [OF inv] by metis
  then show "drm_mm_clean mm" "\<exists>mm'. drm_mm_takedown mm = Some (mm', True) \<and> node_list mm' = []"
    using core by (simp_all add: drm_mm_clean_def drm_mm_takedown_def mm_core_def del_node_def)
qed

definition mm_two_blocks :: drm_mm where
  "mm_two_blocks = fst (the (drm_mm_get_block_generic mm_one_block 1 20 0 None (Some 3)))"

lemma two_gets:
  "drm_mm_init 0 100 (Some 1) = (mm100, Inr ())"
  "drm_mm_search_free mm100 10 0 True = Some (Some 1)"
  "drm_mm_get_block_generic mm100 1 10 0 None (Some 2) = Some (mm_one_block, Some 2)"
  "map_option nstart (node_at 2 (node_list mm_one_block)) = Some 0"
  "drm_mm_search_free mm_one_block 20 0 True = Some (Some 1)"
  "drm_mm_get_block_generic mm_one_block 1 20 0 None (Some 3) = Some (mm_two_blocks, Some 3)"
  "map_option nstart (node_at 3 (node_list mm_two_blocks)) = Some 10"
  by code_simp+

theorem drm_mm_run_sound_witness:
  "mm_run 0 100 mm_two_blocks [2 \<mapsto> (0, 10), 3 \<mapsto> (10, 20)] \<and>
   drm_mm_put_block mm_two_blocks 2 \<noteq> None \<and>
   unat (0 :: u64) + unat (10 :: u64) \<le> unat (10 :: u64) \<and> unat (10 :: u64) + unat (20 :: u64) \<le> 100"
proof -
  have r0: "mm_run 0 100 mm100 (\<lambda>_. None)" by (rule mm_run.start [OF two_gets(1)]) simp_all
  have "memory_ok mm100 None (Some 2)"
    by (simp add: memory_ok_def k_ok_def mm_ids_def clean_unused_def mm100_eval zeroed_node_def)
  moreover obtain n where n: "node_at 2 (node_list mm_one_block) = Some n" "nstart n = 0"
    using two_gets(4) by auto
  ultimately have r1: "mm_run 0 100 mm_one_block ((\<lambda>_. None)(2 \<mapsto> (0, 10)))"
    using mm_run.get [OF r0 _ two_gets(2,3) n(1)] by simp
  have "unused_nodes mm_one_block = []" by code_simp
  then have "memory_ok mm_one_block None (Some 3)"
    by (simp add: memory_ok_def k_ok_def mm_ids_def clean_unused_def mm_one_block_eval zeroed_node_def)
  moreover obtain n' where n': "node_at 3 (node_list mm_two_blocks) = Some n'" "nstart n' = 10"
    using two_gets(7) by auto
  ultimately have r2: "mm_run 0 100 mm_two_blocks [2 \<mapsto> (0, 10), 3 \<mapsto> (10, 20)]"
    using mm_run.get [OF r1 _ two_gets(5,6) n'(1)] by simp
  have e: "100 + 2 ^ 32 \<le> (2 ^ 64 :: nat)" by simp
  note all = drm_mm_run_sound [OF r2 e, THEN conjunct1, rule_format]
  from all [of 2 0 10] all [of 3 10 20] r2 show ?thesis by simp
qed

end
