(* ===== verification/Ttm_Bo_Manager.thy ===== *)
theory Ttm_Bo_Manager
  imports Drm_Mm
begin

text \<open>
  The range memory manager of \<open>src/ttm/ttm_bo_manager.c\<close>, the client of the range allocator
  that places buffer objects in VRAM and other aperture memory.  A request for which there
  is no room returns success with \<open>mm_node\<close> left \<open>NULL\<close>.
\<close>

section \<open>State and operations\<close>

record ttm_placement =
  fpfn :: u32
  lpfn :: u32

record ttm_range_reg =
  reg_node :: "nat option"
  reg_start :: u64
  reg_pages :: u64
  reg_alignment :: u32

text \<open>What one round of the allocation loop meets: the results of the allocations of
  \<open>drm_mm_pre_get\<close>, what other users of the manager do before the lock is taken, and the
  results of the two atomic allocations.\<close>

record get_round =
  pre_allocs :: "nat option list"
  meanwhile :: "drm_mm \<Rightarrow> drm_mm"
  alloc1 :: "nat option"
  alloc2 :: "nat option"

fun ttm_bo_man_get_node ::
  "drm_mm \<Rightarrow> u64 \<Rightarrow> ttm_placement \<Rightarrow> ttm_range_reg \<Rightarrow> get_round list \<Rightarrow> (drm_mm \<times> ttm_range_reg \<times> unit res) option"
where
  "ttm_bo_man_get_node mm man_size place mem [] = None"
| "ttm_bo_man_get_node mm man_size place mem (r # rs) =
     (let limit = (if lpfn place = 0 then man_size else ucast (lpfn place)) in
      case drm_mm_pre_get mm (pre_allocs r) of
        (mm1, Inl e) \<Rightarrow> Some (mm1, mem, Inl e)
      | (mm1, Inr _) \<Rightarrow>
          (let mm2 = meanwhile r mm1 in
           case drm_mm_search_free_in_range mm2 (reg_pages mem) (reg_alignment mem) (ucast (fpfn place)) limit True of
             None \<Rightarrow> None
           | Some None \<Rightarrow> Some (mm2, mem, Inr ())
           | Some (Some p) \<Rightarrow>
               (case drm_mm_get_block_range_generic mm2 p (reg_pages mem) (reg_alignment mem) (ucast (fpfn place)) limit
                       (alloc1 r) (alloc2 r) of
                  None \<Rightarrow> None
                | Some (mm3, None) \<Rightarrow> ttm_bo_man_get_node mm3 man_size place mem rs
                | Some (mm3, Some i) \<Rightarrow>
                    (case node_at i (node_list mm3) of
                       None \<Rightarrow> None
                     | Some n \<Rightarrow> Some (mm3, mem\<lparr>reg_node := Some i, reg_start := nstart n\<rparr>, Inr ())))))"

definition ttm_bo_man_put_node :: "drm_mm \<Rightarrow> ttm_range_reg \<Rightarrow> (drm_mm \<times> ttm_range_reg) option" where
  "ttm_bo_man_put_node mm mem =
     (case reg_node mem of
        None \<Rightarrow> Some (mm, mem)
      | Some i \<Rightarrow> map_option (\<lambda>mm'. (mm', mem\<lparr>reg_node := None\<rparr>)) (drm_mm_put_block mm i))"

definition ttm_bo_man_init :: "bool \<Rightarrow> u64 \<Rightarrow> nat option \<Rightarrow> drm_mm res" where
  "ttm_bo_man_init alloc_ok p_size k =
     (if \<not> alloc_ok then Inl ENOMEM
      else case drm_mm_init 0 p_size k of
        (_, Inl e) \<Rightarrow> Inl e
      | (mm, Inr _) \<Rightarrow> Inr mm)"

definition ttm_bo_man_takedown :: "drm_mm \<Rightarrow> (drm_mm \<times> unit res) option" where
  "ttm_bo_man_takedown mm =
     (if drm_mm_clean mm then map_option (\<lambda>(mm', _). (mm', Inr ())) (drm_mm_takedown mm)
      else Some (mm, Inl EBUSY))"

section \<open>Fresh memory\<close>

text \<open>The allocations of a round return memory that is not in use.\<close>

definition round_fresh :: "drm_mm \<Rightarrow> get_round \<Rightarrow> bool" where
  "round_fresh mm r \<longleftrightarrow>
     distinct (some_ids (pre_allocs r @ [alloc1 r, alloc2 r])) \<and>
     set (some_ids (pre_allocs r @ [alloc1 r, alloc2 r])) \<inter> mm_ids mm = {}"

section \<open>Properties\<close>

text \<open>C9: placing a buffer object, when no other user of the manager comes between
  \<open>drm_mm_pre_get\<close> and the lock, the managed range and the request are below \<open>2 ^ 32\<close> pages,
  the allocations return memory not in use, and either the two atomic allocations succeed or
  the reserve nodes have clear flags, which \<open>drm_mm_put_block\<close> does not ensure
  (\<open>stale_reserve_node_marked_free\<close>).  Then one round of the loop is enough: the reserve
  filled by \<open>drm_mm_pre_get\<close> holds the nodes that splitting needs.  The call fails with
  \<open>-ENOMEM\<close> and changes no block, or it succeeds with \<open>mm_node\<close> unset and then no free node
  has room within the placement, or it records a new block of the requested size that is
  aligned and inside the placement.  No \<open>BUG_ON\<close> is reached and the manager stays well
  formed.\<close>

theorem ttm_bo_man_get_node_spec:
  assumes inv: "mm_inv 0 e mm" and e: "e < 2 ^ 32"
    and nodes: "alloc1 r \<noteq> None \<and> alloc2 r \<noteq> None \<or> clean_unused mm"
    and man: "unat man_size < 2 ^ 32" and pages: "unat (reg_pages mem) < 2 ^ 32"
    and alone: "meanwhile r = id" and fresh: "round_fresh mm r" and unset: "reg_node mem = None"
  shows "case ttm_bo_man_get_node mm man_size place mem (r # rs) of
      None \<Rightarrow> False
    | Some (mm', mem', Inl x) \<Rightarrow> x = ENOMEM \<and> mem' = mem \<and> mm_inv 0 e mm' \<and> alloc_map mm' = alloc_map mm
    | Some (mm', mem', Inr _) \<Rightarrow> mm_inv 0 e mm' \<and>
        (let limit = (if lpfn place = 0 then man_size else ucast (lpfn place)) in
         case reg_node mem' of
           None \<Rightarrow> alloc_map mm' = alloc_map mm \<and>
             (\<forall>n \<in> set (node_list mm). nfree n \<longrightarrow>
                \<not> fits_range (ucast (fpfn place)) limit (reg_pages mem) (reg_alignment mem) n)
         | Some i \<Rightarrow> alloc_map mm i = None \<and>
             alloc_map mm' = (alloc_map mm)(i \<mapsto> (reg_start mem', reg_pages mem)) \<and>
             unat (fpfn place) \<le> unat (reg_start mem') \<and>
             unat (reg_start mem') + unat (reg_pages mem) \<le> unat limit \<and>
             (reg_alignment mem = 0 \<or> unat (reg_start mem') mod unat (reg_alignment mem) = 0))"
proof -
  let ?limit = "if lpfn place = 0 then man_size else ucast (lpfn place)"
  let ?st = "ucast (fpfn place) :: u64"
  let ?z = "reg_pages mem" and ?al = "reg_alignment mem"
  have ks: "distinct (some_ids (pre_allocs r))" "set (some_ids (pre_allocs r)) \<inter> mm_ids mm = {}"
    using fresh by (auto simp: round_fresh_def)
  obtain mm1 p where pre: "drm_mm_pre_get mm (pre_allocs r) = (mm1, p)" by (metis surj_pair)
  note p = pre_get_inv [OF pre inv ks]
  have core: "mm_core 0 e mm1" using p(1) by (simp add: mm_inv_def)
  have kok: "k_ok mm1 (alloc1 r)" "k_ok mm1 (alloc2 r)" "alloc1 r = alloc2 r \<longrightarrow> alloc1 r = None"
    using p(2,3) nodes fresh by (cases "alloc1 r"; cases "alloc2 r"; auto simp: k_ok_def round_fresh_def)+
  show ?thesis
  proof (cases p)
    case (Inl x)
    with p pre show ?thesis by simp
  next
    case (Inr u)
    have small: "unat ?st < 2 ^ 62" "unat ?limit < 2 ^ 62" "unat ?z < 2 ^ 62" "e < 2 ^ 62"
      using man pages e less_trans [OF unat_lt32] by (auto intro: less_trans [OF unat_lt32])
    note srch = search_in_range [OF core small(4,1,2,3), where bm = True and al = ?al]
    show ?thesis
    proof (cases "drm_mm_search_free_in_range mm1 ?z ?al ?st ?limit True")
      case None
      with srch show ?thesis by simp
    next
      case (Some o1)
      note found = this
      show ?thesis
      proof (cases o1)
        case None
        with found srch Inr pre p unset alone show ?thesis by (simp add: Let_def)
      next
        case (Some i)
        with srch found obtain n where n: "n \<in> set (node_list mm1)" "nid n = i" "nfree n"
          and fits: "fits_range ?st ?limit ?z ?al n" by auto
        let ?a = "adj_start ?st n"
        obtain w where blk: "drm_mm_get_block_range_generic mm1 (nid n) ?z ?al ?st ?limit (alloc1 r) (alloc2 r) =
            cut_and_take mm1 (nid n) w ?z (alloc1 r) (alloc2 r)"
          and w: "nstart n + w = ?a + ucast (waste ?a ?al)" "unat (nstart n + w) = unat ?a + unat (waste ?a ?al)"
            "unat w + unat ?z \<le> unat (nsize n)"
          using get_block_range_cut [OF core e n(1) fits] by metis
        obtain xs ys where ns: "node_list mm1 = xs @ n # ys" using n(1) by (metis split_list)
        obtain mm' res where cut: "cut_and_take mm1 (nid n) w ?z (alloc1 r) (alloc2 r) = Some (mm', res)"
          "mm_inv 0 e mm'"
          and res: "case res of None \<Rightarrow> (alloc1 r = None \<or> alloc2 r = None) \<and> alloc_map mm' = alloc_map mm1
            | Some j \<Rightarrow> alloc_map mm1 j = None \<and> alloc_map mm' = (alloc_map mm1)(j \<mapsto> (nstart n + w, ?z))"
          using cut_and_take_spec [OF p(1) ns n(3) kok w(3)] by blast
        have "2 \<le> length (unused_nodes mm1)" using p(6) Inr by auto
        from cut_and_take_reserved [OF cut(1) this] obtain j where j: "res = Some j" by auto
        with res have map: "alloc_map mm j = None" "alloc_map mm' = (alloc_map mm)(j \<mapsto> (nstart n + w, ?z))"
          by (simp_all add: p(4))
        have core': "mm_core 0 e mm'" using cut(2) by (simp add: mm_inv_def)
        have "alloc_map mm' j = Some (nstart n + w, ?z)" by (simp add: map(2))
        then obtain n' where n': "n' \<in> set (node_list mm')" "nid n' = j" "nstart n' = nstart n + w"
          unfolding alloc_map_node [OF core'] by blast
        have at: "node_at j (node_list mm') = Some n'" using node_in_list [OF core' n'(1)] n'(2) by simp
        have run: "ttm_bo_man_get_node mm man_size place mem (r # rs) =
            Some (mm', mem\<lparr>reg_node := Some j, reg_start := nstart n + w\<rparr>, Inr ())"
          using pre Inr alone found Some blk cut(1) j at n'(3) n(2) by (simp add: Let_def)
        have "unat (adj_end ?limit n) \<le> unat ?limit" by (auto simp: adj_end_def not_less word_le_nat_alt)
        then have hi: "unat (nstart n + w) + unat ?z \<le> unat ?limit"
          using fits w(2) by (simp add: fits_range_def)
        have lo: "unat ?st \<le> unat (nstart n + w)"
          using w(2) by (auto simp: adj_start_def not_less word_le_nat_alt)
        have al: "?al = 0 \<or> unat (nstart n + w) mod unat ?al = 0"
        proof -
          have "unat ?a + unat (waste ?a ?al) < 2 ^ 64" using hi w(2) small(2) by simp
          from waste_aligned [OF this] show ?thesis by (simp only: w(1))
        qed
        show ?thesis unfolding run using map cut(2) hi lo al by (simp add: Let_def)
      qed
    qed
  qed
qed

definition place_round :: get_round where
  "place_round = \<lparr>pre_allocs = [Some 5, Some 6, Some 7, Some 8], meanwhile = id, alloc1 = None, alloc2 = None\<rparr>"

definition place_request :: ttm_range_reg where
  "place_request = \<lparr>reg_node = None, reg_start = 0, reg_pages = 20, reg_alignment = 8\<rparr>"

lemma place_runs:
  "case ttm_bo_man_get_node mm100 100 \<lparr>fpfn = 10, lpfn = 0\<rparr> place_request [place_round] of
     Some (_, mem', Inr _) \<Rightarrow> reg_node mem' = Some 6 \<and> reg_start mem' = 16
   | _ \<Rightarrow> False"
  by code_simp

theorem ttm_bo_man_get_node_spec_witness:
  "\<exists>mm' mem'. ttm_bo_man_get_node mm100 100 \<lparr>fpfn = 10, lpfn = 0\<rparr> place_request [place_round] = Some (mm', mem', Inr ()) \<and>
     mm_inv 0 100 mm' \<and> alloc_map mm' 6 = Some (16, 20)"
proof -
  have clean: "clean_unused mm100" by (simp add: clean_unused_def mm100_eval)
  have pre: "(100 :: nat) < 2 ^ 32" "unat (100 :: u64) < 2 ^ 32" "unat (reg_pages place_request) < 2 ^ 32"
    "meanwhile place_round = id" "reg_node place_request = None"
    by (simp_all add: place_request_def place_round_def)
  have fresh: "round_fresh mm100 place_round"
    by (simp add: round_fresh_def place_round_def mm_ids_def mm100_eval zeroed_node_def)
  note spec = ttm_bo_man_get_node_spec [OF mm100_inv pre(1) disjI2 [OF clean] pre(2,3,4) fresh pre(5),
    of "\<lparr>fpfn = 10, lpfn = 0\<rparr>" "[]"]
  have "reg_pages place_request = 20" by (simp add: place_request_def)
  with spec place_runs show ?thesis
    by (cases "ttm_bo_man_get_node mm100 100 \<lparr>fpfn = 10, lpfn = 0\<rparr> place_request [place_round]")
       (auto simp del: ttm_bo_man_get_node.simps simp: Let_def split: sum.splits prod.splits)
qed

text \<open>A placed object can be released: \<open>put_node\<close> reaches no \<open>BUG_ON\<close>, removes the block
  that \<open>mm_node\<close> names and no other, and unsets \<open>mm_node\<close>; releasing it again changes
  nothing.\<close>

lemma ttm_bo_man_put_node_spec:
  assumes "mm_inv 0 e mm" "reg_node mem = Some i" "alloc_map mm i \<noteq> None"
  shows "\<exists>mm' mem'. ttm_bo_man_put_node mm mem = Some (mm', mem') \<and> mm_inv 0 e mm' \<and>
    alloc_map mm' = (alloc_map mm)(i := None) \<and> reg_node mem' = None \<and>
    ttm_bo_man_put_node mm' mem' = Some (mm', mem')"
  using mm.put_law [OF assms(1,3)] assms(2) by (auto simp: ttm_bo_man_put_node_def)

end
