(* ===== verification/Ttm_Lock.thy ===== *)
theory Ttm_Lock
  imports Prelude
begin

text \<open>
  The TTM lock of \<open>src/ttm/ttm_lock.c\<close>: a read-write lock whose write side, VT switch and
  suspend each announce themselves with a pending flag.  \<open>rw\<close> is the signed 32-bit counter of
  readers, with \<open>-1\<close> for the writer.  Every function below holds the spinlock for its whole
  body, so it is one atomic step; \<open>wait_event\<close> is modelled by a list of what happens between
  two evaluations of its condition.  The second half is a transition system of any number
  of tasks that use the lock, with its invariant.
\<close>

section \<open>The lock\<close>

record ttm_lock =
  rw :: u32
  flags :: u32
  kill_takers :: bool
  signal :: nat
  vt_holder :: "nat option"

definition TTM_WRITE_LOCK_PENDING :: u32 where "TTM_WRITE_LOCK_PENDING = push_bit 0 1"
definition TTM_VT_LOCK_PENDING :: u32 where "TTM_VT_LOCK_PENDING = push_bit 1 1"
definition TTM_SUSPEND_LOCK_PENDING :: u32 where "TTM_SUSPEND_LOCK_PENDING = push_bit 2 1"
definition TTM_VT_LOCK :: u32 where "TTM_VT_LOCK = push_bit 3 1"
definition TTM_SUSPEND_LOCK :: u32 where "TTM_SUSPEND_LOCK = push_bit 4 1"

lemmas ttm_flag_defs = TTM_WRITE_LOCK_PENDING_def TTM_VT_LOCK_PENDING_def TTM_SUSPEND_LOCK_PENDING_def
  TTM_VT_LOCK_def TTM_SUSPEND_LOCK_def

definition SIGKILL :: nat where "SIGKILL = 9"

definition ttm_lock_init :: ttm_lock where
  "ttm_lock_init = \<lparr>rw = 0, flags = 0, kill_takers = False, signal = SIGKILL, vt_holder = None\<rparr>"

definition ttm_lock_set_kill :: "ttm_lock \<Rightarrow> bool \<Rightarrow> nat \<Rightarrow> ttm_lock" where
  "ttm_lock_set_kill l val sig =
     (if val then l\<lparr>kill_takers := val, signal := sig\<rparr> else l\<lparr>kill_takers := val\<rparr>)"

text \<open>The attempts.  The result is the lock, whether it was taken, and the signal sent to the
  caller, if any.\<close>

definition ttm_read_lock_try :: "ttm_lock \<Rightarrow> ttm_lock \<times> bool \<times> nat option" where
  "ttm_read_lock_try l =
     (if kill_takers l then (l, False, Some (signal l))
      else if 0 \<le> sint (rw l) \<and> flags l = 0 then (l\<lparr>rw := rw l + 1\<rparr>, True, None)
      else (l, False, None))"

definition ttm_write_lock_try :: "ttm_lock \<Rightarrow> ttm_lock \<times> bool \<times> nat option" where
  "ttm_write_lock_try l =
     (if kill_takers l then (l, False, Some (signal l))
      else if rw l = 0 \<and> flags l AND NOT TTM_WRITE_LOCK_PENDING = 0
      then (l\<lparr>rw := -1, flags := flags l AND NOT TTM_WRITE_LOCK_PENDING\<rparr>, True, None)
      else (l\<lparr>flags := flags l OR TTM_WRITE_LOCK_PENDING\<rparr>, False, None))"

definition ttm_vt_lock_try :: "ttm_lock \<Rightarrow> ttm_lock \<times> bool \<times> nat option" where
  "ttm_vt_lock_try l =
     (if rw l = 0 then (l\<lparr>flags := (flags l AND NOT TTM_VT_LOCK_PENDING) OR TTM_VT_LOCK\<rparr>, True, None)
      else (l\<lparr>flags := flags l OR TTM_VT_LOCK_PENDING\<rparr>, False, None))"

definition ttm_suspend_lock_try :: "ttm_lock \<Rightarrow> ttm_lock \<times> bool \<times> nat option" where
  "ttm_suspend_lock_try l =
     (if rw l = 0
      then (l\<lparr>flags := (flags l AND NOT TTM_SUSPEND_LOCK_PENDING) OR TTM_SUSPEND_LOCK\<rparr>, True, None)
      else (l\<lparr>flags := flags l OR TTM_SUSPEND_LOCK_PENDING\<rparr>, False, None))"

definition ttm_read_unlock :: "ttm_lock \<Rightarrow> ttm_lock" where
  "ttm_read_unlock l = l\<lparr>rw := rw l - 1\<rparr>"

definition ttm_write_unlock :: "ttm_lock \<Rightarrow> ttm_lock" where
  "ttm_write_unlock l = l\<lparr>rw := 0\<rparr>"

definition ttm_write_lock_downgrade :: "ttm_lock \<Rightarrow> ttm_lock" where
  "ttm_write_lock_downgrade l = l\<lparr>rw := 1\<rparr>"

definition ttm_vt_unlock_flags :: "ttm_lock \<Rightarrow> ttm_lock \<times> unit res" where
  "ttm_vt_unlock_flags l =
     (l\<lparr>flags := flags l AND NOT TTM_VT_LOCK\<rparr>,
      if flags l AND TTM_VT_LOCK = 0 then Inl EINVAL else Inr ())"

text \<open>The destructor of the lock's base object: a failed unlock is a \<open>BUG_ON\<close>.\<close>

definition ttm_vt_lock_remove :: "ttm_lock \<Rightarrow> ttm_lock option" where
  "ttm_vt_lock_remove l =
     (case ttm_vt_unlock_flags l of (l', Inr _) \<Rightarrow> Some l' | (_, Inl _) \<Rightarrow> None)"

definition ttm_suspend_unlock :: "ttm_lock \<Rightarrow> ttm_lock" where
  "ttm_suspend_unlock l = l\<lparr>flags := flags l AND NOT TTM_SUSPEND_LOCK\<rparr>"

section \<open>Waiting\<close>

text \<open>Between two evaluations of the condition other tasks change the lock, or a signal
  arrives.  When the list is used up the task is still waiting, \<open>None\<close>.  A wait that cannot
  be interrupted sleeps through signals.\<close>

datatype wake = Woken "ttm_lock \<Rightarrow> ttm_lock" | Signalled

fun wait_event ::
  "bool \<Rightarrow> (ttm_lock \<Rightarrow> ttm_lock \<times> bool \<times> nat option) \<Rightarrow> wake list \<Rightarrow> ttm_lock \<Rightarrow> (ttm_lock \<times> unit res) option"
where
  "wait_event interruptible condition ws l =
     (case condition l of
        (l', True, _) \<Rightarrow> Some (l', Inr ())
      | (l', False, _) \<Rightarrow>
          (case ws of
             [] \<Rightarrow> None
           | Woken f # ws' \<Rightarrow> wait_event interruptible condition ws' (f l')
           | Signalled # ws' \<Rightarrow>
               if interruptible then Some (l', Inl ERESTARTSYS)
               else wait_event interruptible condition ws' l'))"

definition ttm_read_lock :: "bool \<Rightarrow> wake list \<Rightarrow> ttm_lock \<Rightarrow> (ttm_lock \<times> unit res) option" where
  "ttm_read_lock interruptible ws l = wait_event interruptible ttm_read_lock_try ws l"

definition clear_pending :: "u32 \<Rightarrow> ttm_lock \<Rightarrow> ttm_lock" where
  "clear_pending m l = l\<lparr>flags := flags l AND NOT m\<rparr>"

definition ttm_write_lock :: "bool \<Rightarrow> wake list \<Rightarrow> ttm_lock \<Rightarrow> (ttm_lock \<times> unit res) option" where
  "ttm_write_lock interruptible ws l =
     (case wait_event interruptible ttm_write_lock_try ws l of
        Some (l', Inl e) \<Rightarrow> Some (clear_pending TTM_WRITE_LOCK_PENDING l', Inl e)
      | r \<Rightarrow> r)"

text \<open>\<open>base_init\<close> is the outcome of \<open>ttm_base_object_init\<close>, which registers the lock with
  the client \<open>tfile\<close>.\<close>

definition ttm_vt_lock ::
  "bool \<Rightarrow> wake list \<Rightarrow> nat \<Rightarrow> unit res \<Rightarrow> ttm_lock \<Rightarrow> (ttm_lock \<times> unit res) option" where
  "ttm_vt_lock interruptible ws tfile base_init l =
     (case wait_event interruptible ttm_vt_lock_try ws l of
        None \<Rightarrow> None
      | Some (l', Inl e) \<Rightarrow> Some (clear_pending TTM_VT_LOCK_PENDING l', Inl e)
      | Some (l', Inr _) \<Rightarrow>
          (case base_init of
             Inl e \<Rightarrow> Some (fst (ttm_vt_unlock_flags l'), Inl e)
           | Inr _ \<Rightarrow> Some (l'\<lparr>vt_holder := Some tfile\<rparr>, Inr ())))"

definition ttm_suspend_lock :: "wake list \<Rightarrow> ttm_lock \<Rightarrow> (ttm_lock \<times> unit res) option" where
  "ttm_suspend_lock ws l = wait_event False ttm_suspend_lock_try ws l"

section \<open>Any number of tasks using the lock\<close>

text \<open>Who holds the lock: the numbers of tasks that read, write, and hold the VT and the suspend
  lock.  Nothing in the code keeps a second task from taking the VT or the suspend lock while
  it is held; \<open>vt_twice\<close> and \<open>suspend_twice\<close> record that this has happened.  Releasing is
  only done by a holder, and readers are fewer than the counter can hold.\<close>

record lock_sys =
  lk :: ttm_lock
  readers :: nat
  writers :: nat
  vts :: nat
  suspends :: nat
  vt_twice :: bool
  suspend_twice :: bool

definition sys_init :: lock_sys where
  "sys_init = \<lparr>lk = ttm_lock_init, readers = 0, writers = 0, vts = 0, suspends = 0,
               vt_twice = False, suspend_twice = False\<rparr>"

inductive lock_step :: "lock_sys \<Rightarrow> lock_sys \<Rightarrow> bool" where
  read_got: "ttm_read_lock_try (lk s) = (l, True, sg) \<Longrightarrow> readers s + 1 < 2 ^ 31 \<Longrightarrow>
    lock_step s (s\<lparr>lk := l, readers := readers s + 1\<rparr>)"
| read_missed: "ttm_read_lock_try (lk s) = (l, False, sg) \<Longrightarrow> lock_step s (s\<lparr>lk := l\<rparr>)"
| read_release: "0 < readers s \<Longrightarrow>
    lock_step s (s\<lparr>lk := ttm_read_unlock (lk s), readers := readers s - 1\<rparr>)"
| write_got: "ttm_write_lock_try (lk s) = (l, True, sg) \<Longrightarrow> lock_step s (s\<lparr>lk := l, writers := writers s + 1\<rparr>)"
| write_missed: "ttm_write_lock_try (lk s) = (l, False, sg) \<Longrightarrow> lock_step s (s\<lparr>lk := l\<rparr>)"
| write_interrupted: "lock_step s (s\<lparr>lk := clear_pending TTM_WRITE_LOCK_PENDING (lk s)\<rparr>)"
| write_release: "0 < writers s \<Longrightarrow>
    lock_step s (s\<lparr>lk := ttm_write_unlock (lk s), writers := writers s - 1\<rparr>)"
| downgrade: "0 < writers s \<Longrightarrow>
    lock_step s (s\<lparr>lk := ttm_write_lock_downgrade (lk s), writers := writers s - 1, readers := readers s + 1\<rparr>)"
| vt_got: "ttm_vt_lock_try (lk s) = (l, True, sg) \<Longrightarrow>
    lock_step s (s\<lparr>lk := l, vts := vts s + 1, vt_twice := vt_twice s \<or> 0 < vts s\<rparr>)"
| vt_missed: "ttm_vt_lock_try (lk s) = (l, False, sg) \<Longrightarrow> lock_step s (s\<lparr>lk := l\<rparr>)"
| vt_interrupted: "lock_step s (s\<lparr>lk := clear_pending TTM_VT_LOCK_PENDING (lk s)\<rparr>)"
| vt_not_registered: "0 < vts s \<Longrightarrow>
    lock_step s (s\<lparr>lk := fst (ttm_vt_unlock_flags (lk s)), vts := vts s - 1\<rparr>)"
| vt_release: "0 < vts s \<Longrightarrow> ttm_vt_lock_remove (lk s) = Some l \<Longrightarrow> lock_step s (s\<lparr>lk := l, vts := vts s - 1\<rparr>)"
| suspend_got: "ttm_suspend_lock_try (lk s) = (l, True, sg) \<Longrightarrow>
    lock_step s (s\<lparr>lk := l, suspends := suspends s + 1, suspend_twice := suspend_twice s \<or> 0 < suspends s\<rparr>)"
| suspend_missed: "ttm_suspend_lock_try (lk s) = (l, False, sg) \<Longrightarrow> lock_step s (s\<lparr>lk := l\<rparr>)"
| suspend_release: "0 < suspends s \<Longrightarrow>
    lock_step s (s\<lparr>lk := ttm_suspend_unlock (lk s), suspends := suspends s - 1\<rparr>)"
| set_kill: "lock_step s (s\<lparr>lk := ttm_lock_set_kill (lk s) val sig\<rparr>)"

inductive_cases lock_stepE: "lock_step s s'"

inductive reachable :: "lock_sys \<Rightarrow> bool" where
  start: "reachable sys_init"
| step: "reachable s \<Longrightarrow> lock_step s s' \<Longrightarrow> reachable s'"

text \<open>The counter; who may be in while a flag is set; and what the flags say as long as nobody
  took the VT or the suspend lock a second time.\<close>

definition count_inv :: "lock_sys \<Rightarrow> bool" where
  "count_inv s \<longleftrightarrow>
     (if writers s = 0 then rw (lk s) = of_nat (readers s) \<and> readers s < 2 ^ 31
      else writers s = 1 \<and> readers s = 0 \<and> rw (lk s) = -1)"

definition held_inv :: "lock_sys \<Rightarrow> bool" where
  "held_inv s \<longleftrightarrow>
     (\<not> vt_twice s \<longrightarrow> vts s = (if bit (flags (lk s)) 3 then 1 else 0)) \<and>
     (\<not> suspend_twice s \<longrightarrow> suspends s = (if bit (flags (lk s)) 4 then 1 else 0))"

definition lock_inv :: "lock_sys \<Rightarrow> bool" where
  "lock_inv s \<longleftrightarrow> count_inv s \<and> held_inv s \<and>
     (bit (flags (lk s)) 3 \<or> bit (flags (lk s)) 4 \<longrightarrow> readers s = 0 \<and> writers s = 0)"

lemmas lock_inv_defs = lock_inv_def count_inv_def held_inv_def

lemma flag_clear_bit: "(w :: u32) AND push_bit n 1 = 0 \<longleftrightarrow> \<not> bit w n"
  by (simp add: and_exp_eq_0_iff_not_bit)

lemma no_other_flags: "(w :: u32) AND NOT 1 = 0 \<Longrightarrow> 0 < n \<Longrightarrow> \<not> bit w n"
proof
  assume z: "w AND NOT 1 = 0" and n: "0 < n" and b: "bit w n"
  then have "n < 32" using bit_imp_le_length [OF b] by simp
  then have "bit (w AND NOT 1) n" using b n by (simp add: bit_and_iff bit_not_iff bit_1_iff)
  with z show False by simp
qed

lemma reader_count_word: "n < 2 ^ 31 \<Longrightarrow> 0 \<le> sint (of_nat n :: u32) \<and> ((of_nat n :: u32) = 0 \<longleftrightarrow> n = 0)"
proof -
  assume n: "n < 2 ^ 31"
  then have u: "unat (of_nat n :: u32) = n" by (intro unat_of_nat_lt) simp
  then have "\<not> bit (unat (of_nat n :: u32)) 31" using n by (simp add: bit_iff_odd)
  then have "\<not> bit (of_nat n :: u32) 31" by (simp add: bit_unsigned_iff)
  then have "0 \<le> sint (of_nat n :: u32)" using bit_last_iff [of "of_nat n :: u32"] by simp
  moreover have "(of_nat n :: u32) = 0 \<longleftrightarrow> n = 0" using unat_eq_zero [of "of_nat n :: u32"] u by simp
  ultimately show ?thesis by simp
qed

lemma writer_count_word: "sint (- 1 :: u32) < 0" "(- 1 :: u32) \<noteq> 0"
  by simp_all

lemmas flag_bits = bit_and_iff bit_or_iff bit_not_iff bit_push_bit_iff bit_1_iff

lemma lock_init_inv: "lock_inv sys_init"
  by (simp add: lock_inv_defs sys_init_def ttm_lock_init_def)

text \<open>Each attempt tells what the counter and the flags were.\<close>

lemma read_try_got: "ttm_read_lock_try l = (l', True, sg) \<Longrightarrow>
    l' = l\<lparr>rw := rw l + 1\<rparr> \<and> 0 \<le> sint (rw l) \<and> flags l = 0"
  by (auto simp: ttm_read_lock_try_def split: if_splits)

lemma write_try_got: "ttm_write_lock_try l = (l', True, sg) \<Longrightarrow>
    l' = l\<lparr>rw := - 1, flags := flags l AND NOT 1\<rparr> \<and> rw l = 0 \<and> flags l AND NOT 1 = 0"
  by (auto simp: ttm_write_lock_try_def ttm_flag_defs split: if_splits)

lemma nobody_in: "count_inv s \<Longrightarrow> rw (lk s) = 0 \<longleftrightarrow> readers s = 0 \<and> writers s = 0"
  using reader_count_word [of "readers s"] by (auto simp: count_inv_def split: if_splits)

text \<open>The steps that change neither the counter nor the two flags that say who holds the lock.\<close>

definition same_holders :: "ttm_lock \<Rightarrow> ttm_lock \<Rightarrow> bool" where
  "same_holders l l' \<longleftrightarrow> rw l' = rw l \<and> bit (flags l') 3 = bit (flags l) 3 \<and> bit (flags l') 4 = bit (flags l) 4"

lemma lock_inv_frame:
  assumes "lock_inv s" "same_holders (lk s) l"
  shows "lock_inv (s\<lparr>lk := l\<rparr>)"
  using assms by (cases "writers s = 0") (auto simp: lock_inv_defs same_holders_def)

lemma missed_frame:
  "ttm_read_lock_try l = (l', False, sg) \<Longrightarrow> same_holders l l'"
  "ttm_write_lock_try l = (l', False, sg) \<Longrightarrow> same_holders l l'"
  "ttm_vt_lock_try l = (l', False, sg) \<Longrightarrow> same_holders l l'"
  "ttm_suspend_lock_try l = (l', False, sg) \<Longrightarrow> same_holders l l'"
  "same_holders l (clear_pending TTM_WRITE_LOCK_PENDING l)"
  "same_holders l (clear_pending TTM_VT_LOCK_PENDING l)"
  "same_holders l (ttm_lock_set_kill l val sig)"
  by (auto simp: same_holders_def ttm_read_lock_try_def ttm_write_lock_try_def ttm_vt_lock_try_def
        ttm_suspend_lock_try_def clear_pending_def ttm_lock_set_kill_def ttm_flag_defs flag_bits split: if_splits)

lemma lock_inv_step:
  assumes "lock_step s s'" "lock_inv s"
  shows "lock_inv s'"
  using assms
proof (cases rule: lock_step.cases)
  case (read_got l sg)
  with assms(2) read_try_got [OF read_got(2)] show ?thesis
    by (cases "writers s = 0") (auto simp: lock_inv_defs add.commute)
next
  case (write_got l sg)
  note t = write_try_got [OF write_got(2)]
  with assms(2) have "readers s = 0 \<and> writers s = 0" using nobody_in [of s] by (simp add: lock_inv_def)
  moreover have "\<not> bit (flags (lk s)) 3" "\<not> bit (flags (lk s)) 4" using t no_other_flags by simp_all
  ultimately show ?thesis using assms(2) t write_got by (simp add: lock_inv_defs flag_bits)
next
  case (read_release)
  then obtain k where k: "readers s = Suc k" by (cases "readers s") auto
  with assms(2) read_release show ?thesis
    by (auto simp: lock_inv_defs ttm_read_unlock_def split: if_splits)
next
  case (vt_got l sg)
  with assms(2) nobody_in [of s] show ?thesis
    by (auto simp: lock_inv_defs ttm_vt_lock_try_def ttm_flag_defs flag_bits split: if_splits)
next
  case (suspend_got l sg)
  with assms(2) nobody_in [of s] show ?thesis
    by (auto simp: lock_inv_defs ttm_suspend_lock_try_def ttm_flag_defs flag_bits split: if_splits)
next
  case (vt_release l)
  with assms(2) show ?thesis
    by (auto simp: lock_inv_defs ttm_vt_lock_remove_def ttm_vt_unlock_flags_def ttm_flag_defs flag_bits split: if_splits)
next
  case (vt_not_registered)
  with assms(2) show ?thesis
    by (auto simp: lock_inv_defs ttm_vt_unlock_flags_def ttm_flag_defs flag_bits split: if_splits)
next
  case (suspend_release)
  with assms(2) show ?thesis
    by (auto simp: lock_inv_defs ttm_suspend_unlock_def ttm_flag_defs flag_bits split: if_splits)
next
  case (write_release)
  with assms(2) show ?thesis by (auto simp: lock_inv_defs ttm_write_unlock_def split: if_splits)
next
  case (downgrade)
  with assms(2) show ?thesis by (auto simp: lock_inv_defs ttm_write_lock_downgrade_def split: if_splits)
qed (use lock_inv_frame [OF assms(2)] missed_frame in auto)

lemma reachable_inv: "reachable s \<Longrightarrow> lock_inv s"
  by (induction rule: reachable.induct) (auto intro: lock_init_inv lock_inv_step)

section \<open>Properties\<close>

text \<open>C7: mutual exclusion, for any number of tasks (fewer than \<open>2 ^ 31\<close> of them reading).  In
  every reachable state there is at most one writer, and then nobody reads and the VT and
  suspend flags are clear; while either flag is set nobody reads or writes.  As long as the
  VT lock was never taken by a task while another held it, which the code does not prevent
  (\<open>vt_taken_twice\<close>), it has at most one holder, the holder keeps readers and writers out,
  and the destructor that releases it does not hit its \<open>BUG_ON\<close>; likewise for the suspend
  lock.\<close>

theorem ttm_lock_exclusion:
  assumes "reachable s"
  shows "writers s \<le> 1 \<and>
    (0 < writers s \<longrightarrow> readers s = 0 \<and> \<not> bit (flags (lk s)) 3 \<and> \<not> bit (flags (lk s)) 4) \<and>
    (bit (flags (lk s)) 3 \<or> bit (flags (lk s)) 4 \<longrightarrow> readers s = 0 \<and> writers s = 0) \<and>
    (\<not> vt_twice s \<longrightarrow> vts s \<le> 1 \<and>
      (0 < vts s \<longrightarrow> readers s = 0 \<and> writers s = 0 \<and> ttm_vt_lock_remove (lk s) \<noteq> None)) \<and>
    (\<not> suspend_twice s \<longrightarrow> suspends s \<le> 1 \<and> (0 < suspends s \<longrightarrow> readers s = 0 \<and> writers s = 0))"
proof -
  note inv = reachable_inv [OF assms, unfolded lock_inv_defs]
  have "bit (flags (lk s)) 3 \<Longrightarrow> flags (lk s) AND TTM_VT_LOCK \<noteq> 0"
    by (simp only: TTM_VT_LOCK_def flag_clear_bit) simp
  with inv show ?thesis
    by (auto simp: ttm_vt_lock_remove_def ttm_vt_unlock_flags_def split: if_splits)
qed

lemma write_run: "reachable (sys_init\<lparr>lk := ttm_lock_init\<lparr>rw := - 1\<rparr>, writers := 1\<rparr>)"
  using reachable.step [OF reachable.start lock_step.write_got [of sys_init]]
  by (simp add: sys_init_def ttm_lock_init_def ttm_write_lock_try_def)

lemma vt_run: "reachable (sys_init\<lparr>lk := ttm_lock_init\<lparr>flags := TTM_VT_LOCK\<rparr>, vts := 1\<rparr>)"
  using reachable.step [OF reachable.start lock_step.vt_got [of sys_init]]
  by (simp add: sys_init_def ttm_lock_init_def ttm_vt_lock_try_def)

theorem ttm_lock_exclusion_witness:
  "(\<exists>s. reachable s \<and> writers s = 1 \<and> readers s = 0 \<and> \<not> bit (flags (lk s)) 4) \<and>
   (\<exists>s. reachable s \<and> vts s = 1 \<and> readers s = 0 \<and> ttm_vt_lock_remove (lk s) \<noteq> None)"
proof (intro conjI exI)
  let ?w = "sys_init\<lparr>lk := ttm_lock_init\<lparr>rw := - 1\<rparr>, writers := 1\<rparr>"
  let ?v = "sys_init\<lparr>lk := ttm_lock_init\<lparr>flags := TTM_VT_LOCK\<rparr>, vts := 1\<rparr>"
  show "reachable ?w" by (rule write_run)
  show "reachable ?v" by (rule vt_run)
  show w: "writers ?w = 1" and v: "vts ?v = 1" by simp_all
  show "readers ?w = 0" "\<not> bit (flags (lk ?w)) 4"
    using ttm_lock_exclusion [OF write_run, THEN conjunct2, THEN conjunct1] w by simp_all
  have "\<not> vt_twice ?v" by (simp add: sys_init_def)
  with ttm_lock_exclusion [OF vt_run, THEN conjunct2, THEN conjunct2, THEN conjunct2, THEN conjunct1] v
  show "readers ?v = 0" "ttm_vt_lock_remove (lk ?v) \<noteq> None" by simp_all
qed

text \<open>What happens when a second task takes the VT lock: when one of the two has released it a
  reader gets in beside the other, whose own release hits the \<open>BUG_ON\<close>.\<close>

lemma vt_taken_twice:
  "\<exists>s. reachable s \<and> vts s = 1 \<and> readers s = 1 \<and> ttm_vt_lock_remove (lk s) = None"
proof -
  have "reachable (sys_init\<lparr>lk := ttm_lock_init\<lparr>flags := TTM_VT_LOCK\<rparr>, vts := 2, vt_twice := True\<rparr>)"
    using reachable.step [OF vt_run lock_step.vt_got]
    by (simp add: sys_init_def ttm_lock_init_def ttm_vt_lock_try_def ttm_flag_defs numeral_2_eq_2)
  from reachable.step [OF this lock_step.vt_release]
  have "reachable (sys_init\<lparr>vts := 1, vt_twice := True\<rparr>)"
    by (simp add: sys_init_def ttm_lock_init_def ttm_vt_lock_remove_def ttm_vt_unlock_flags_def ttm_flag_defs)
  from reachable.step [OF this lock_step.read_got]
  have "reachable (sys_init\<lparr>lk := ttm_lock_init\<lparr>rw := 1\<rparr>, readers := 1, vts := 1, vt_twice := True\<rparr>)"
    by (simp add: sys_init_def ttm_lock_init_def ttm_read_lock_try_def)
  then show ?thesis
    by (intro exI conjI)
       (assumption, simp_all add: sys_init_def ttm_lock_init_def ttm_vt_lock_remove_def ttm_vt_unlock_flags_def)
qed

text \<open>The readers and writers, whom suspending waits for.\<close>

definition holders :: "lock_sys \<Rightarrow> nat" where
  "holders s = readers s + writers s"

lemma pending_bars:
  assumes "bit (flags (lk s)) 2" "lock_step s s'"
  shows "holders s' \<le> holders s \<and> (bit (flags (lk s')) 2 \<or> suspends s' = suspends s + 1)"
  using assms(2)
proof (cases rule: lock_step.cases)
  case (read_got l sg)
  with assms(1) read_try_got [OF read_got(2)] show ?thesis by simp
next
  case (write_got l sg)
  with no_other_flags [of "flags (lk s)" 2] write_try_got [OF write_got(2)] assms(1) show ?thesis by simp
qed (use assms(1) in \<open>auto simp: holders_def ttm_read_lock_try_def ttm_write_lock_try_def
      ttm_vt_lock_try_def ttm_suspend_lock_try_def clear_pending_def ttm_write_unlock_def
      ttm_read_unlock_def ttm_write_lock_downgrade_def ttm_suspend_unlock_def ttm_lock_set_kill_def
      ttm_vt_lock_remove_def ttm_vt_unlock_flags_def ttm_flag_defs flag_bits split: if_splits\<close>)

lemma holder_releases:
  assumes "0 < holders s"
  shows "\<exists>s'. lock_step s s' \<and> holders s' < holders s"
proof (cases "0 < writers s")
  case True
  with lock_step.write_release [OF True] show ?thesis by (force simp: holders_def)
next
  case False
  with assms have "0 < readers s" by (simp add: holders_def)
  from lock_step.read_release [OF this] False this show ?thesis by (force simp: holders_def)
qed

text \<open>C8: readers and writers cannot starve a task that suspends.  Once it has announced itself
  no step lets another reader or writer in: their number never grows until the suspend lock
  is taken.  While there are some one of them can leave, and when the last one has left the
  next attempt to take the suspend lock succeeds.  A task that takes the VT lock is let in
  meanwhile, since the code only looks at the counter, but it does not keep the suspend lock
  from being taken either: the last clause does not depend on it.\<close>

theorem ttm_suspend_not_starved:
  assumes "reachable s" "bit (flags (lk s)) 2"
  shows "(\<forall>s'. lock_step s s' \<longrightarrow>
      holders s' \<le> holders s \<and> (bit (flags (lk s')) 2 \<or> suspends s' = suspends s + 1)) \<and>
    (0 < holders s \<longrightarrow> (\<exists>s'. lock_step s s' \<and> holders s' < holders s)) \<and>
    (holders s = 0 \<longrightarrow> (\<exists>l. ttm_suspend_lock_try (lk s) = (l, True, None) \<and> bit (flags l) 4 \<and> \<not> bit (flags l) 2))"
proof -
  have "holders s = 0 \<Longrightarrow> rw (lk s) = 0"
    using reachable_inv [OF assms(1)] nobody_in [of s] by (simp add: lock_inv_def holders_def)
  then have "holders s = 0 \<Longrightarrow>
      \<exists>l. ttm_suspend_lock_try (lk s) = (l, True, None) \<and> bit (flags l) 4 \<and> \<not> bit (flags l) 2"
    by (simp add: ttm_suspend_lock_try_def ttm_flag_defs flag_bits)
  with pending_bars [OF assms(2)] holder_releases show ?thesis by blast
qed

definition suspend_waits :: lock_sys where
  "suspend_waits = sys_init\<lparr>lk := ttm_lock_init\<lparr>rw := 1, flags := 4\<rparr>, readers := 1\<rparr>"

lemma suspend_waits_reachable: "reachable suspend_waits"
proof -
  have "reachable (sys_init\<lparr>lk := ttm_lock_init\<lparr>rw := 1\<rparr>, readers := 1\<rparr>)"
    using reachable.step [OF reachable.start lock_step.read_got [of sys_init]]
    by (simp add: sys_init_def ttm_lock_init_def ttm_read_lock_try_def)
  from reachable.step [OF this lock_step.suspend_missed] show ?thesis
    by (simp add: suspend_waits_def sys_init_def ttm_lock_init_def ttm_suspend_lock_try_def ttm_flag_defs)
qed

theorem ttm_suspend_not_starved_witness:
  "holders suspend_waits = 1 \<and> (\<exists>s'. lock_step suspend_waits s' \<and> holders s' = 0)"
proof -
  have w: "bit (flags (lk suspend_waits)) 2" "holders suspend_waits = 1"
    by (simp_all add: suspend_waits_def sys_init_def holders_def bit_iff_odd drop_bit_eq_div)
  from ttm_suspend_not_starved [OF suspend_waits_reachable w(1)] w(2) show ?thesis by auto
qed

end
