(* ===== verification/Gmrid_Manager.thy ===== *)
theory Gmrid_Manager
  imports Prelude
begin

text \<open>
  The GMR id manager of \<open>src/vmwgfx_gmrid_manager.c\<close>: the TTM memory manager that hands out
  guest memory region ids and accounts for the pages bound to them.  The id allocator
  (\<open>ida\<close>) belongs to the kernel: its state is the set of ids in use and the outcome of each
  of its calls is an argument.  A request that finds no room is not an error; it returns
  success with \<open>mm_node\<close> left \<open>NULL\<close>.
\<close>

section \<open>State and operations\<close>

record vmwgfx_gmrid_man =
  gmr_ida :: "nat set"
  max_gmr_ids :: u32
  max_gmr_pages :: u32
  used_gmr_pages :: u32

text \<open>The part of \<open>struct ttm_mem_reg\<close> a manager fills in: whether \<open>mm_node\<close> is set, the start
  and the number of pages.\<close>

record ttm_mem_reg =
  mm_node :: bool
  mem_start :: nat
  num_pages :: u64

datatype gmr_pool = VMW_PL_GMR | VMW_PL_MOB | VMW_PL_other

definition VMWGFX_NUM_MOB :: u32 where
  "VMWGFX_NUM_MOB = 256 + 20000 + 32768 + 16"

text \<open>One round of the allocation loop: \<open>ida_pre_get\<close> runs out of memory, \<open>ida_get_new\<close> asks
  for another round or fails otherwise, or it returns an id.\<close>

datatype ida_round = Ida_nomem | Ida_again | Ida_error errno | Ida_id nat

definition vmw_gmrid_man_init :: "gmr_pool \<Rightarrow> u32 \<Rightarrow> u32 \<Rightarrow> u32 \<Rightarrow> bool \<Rightarrow> vmwgfx_gmrid_man res option" where
  "vmw_gmrid_man_init pool dev_gmr_ids dev_gmr_pages dev_mob_pages alloc_ok =
     (if \<not> alloc_ok then Some (Inl ENOMEM)
      else case pool of
        VMW_PL_GMR \<Rightarrow> Some (Inr \<lparr>gmr_ida = {}, max_gmr_ids = dev_gmr_ids,
                              max_gmr_pages = dev_gmr_pages, used_gmr_pages = 0\<rparr>)
      | VMW_PL_MOB \<Rightarrow> Some (Inr \<lparr>gmr_ida = {}, max_gmr_ids = VMWGFX_NUM_MOB,
                              max_gmr_pages = dev_mob_pages, used_gmr_pages = 0\<rparr>)
      | VMW_PL_other \<Rightarrow> None)"

definition gmrid_give_back :: "vmwgfx_gmrid_man \<Rightarrow> u64 \<Rightarrow> vmwgfx_gmrid_man" where
  "gmrid_give_back g bo_pages = g\<lparr>used_gmr_pages := used_gmr_pages g - ucast bo_pages\<rparr>"

fun gmrid_loop ::
  "vmwgfx_gmrid_man \<Rightarrow> u64 \<Rightarrow> ttm_mem_reg \<Rightarrow> ida_round list \<Rightarrow> (vmwgfx_gmrid_man \<times> ttm_mem_reg \<times> unit res) option"
where
  "gmrid_loop g bo_pages mem [] = None"
| "gmrid_loop g bo_pages mem (Ida_nomem # rs) = Some (gmrid_give_back g bo_pages, mem, Inl ENOMEM)"
| "gmrid_loop g bo_pages mem (Ida_again # rs) = gmrid_loop g bo_pages mem rs"
| "gmrid_loop g bo_pages mem (Ida_error e # rs) = Some (gmrid_give_back g bo_pages, mem, Inl e)"
| "gmrid_loop g bo_pages mem (Ida_id i # rs) =
     (if unat (max_gmr_ids g) \<le> i then Some (gmrid_give_back g bo_pages, mem, Inr ())
      else Some (g\<lparr>gmr_ida := insert i (gmr_ida g)\<rparr>,
                 mem\<lparr>mm_node := True, mem_start := i, num_pages := bo_pages\<rparr>, Inr ()))"

definition vmw_gmrid_man_get_node ::
  "vmwgfx_gmrid_man \<Rightarrow> u64 \<Rightarrow> ttm_mem_reg \<Rightarrow> ida_round list \<Rightarrow> (vmwgfx_gmrid_man \<times> ttm_mem_reg \<times> unit res) option"
where
  "vmw_gmrid_man_get_node g bo_pages mem rs =
     (let mem' = mem\<lparr>mm_node := False\<rparr>;
          g' = (if 0 < max_gmr_pages g
                then g\<lparr>used_gmr_pages := used_gmr_pages g + ucast bo_pages\<rparr> else g)
      in if 0 < max_gmr_pages g \<and> max_gmr_pages g < used_gmr_pages g'
         then Some (gmrid_give_back g' bo_pages, mem', Inr ())
         else gmrid_loop g' bo_pages mem' rs)"


section \<open>The account of ids and pages\<close>

text \<open>\<open>live\<close> lists the ids handed out, each with its pages.\<close>

definition gman_inv :: "vmwgfx_gmrid_man \<Rightarrow> (nat \<times> nat) list \<Rightarrow> bool" where
  "gman_inv g live \<longleftrightarrow>
     gmr_ida g = set (map fst live) \<and> distinct (map fst live) \<and>
     (\<forall>i \<in> gmr_ida g. i < unat (max_gmr_ids g)) \<and>
     (0 < max_gmr_pages g \<longrightarrow>
        unat (used_gmr_pages g) = sum_list (map snd live) \<and>
        sum_list (map snd live) \<le> unat (max_gmr_pages g))"

lemma gmrid_loop_cases:
  assumes "gmrid_loop g p mem rs = Some (g', mem', r)"
  shows "(g' = gmrid_give_back g p \<and> mem' = mem) \<or>
    (\<exists>i. Ida_id i \<in> set rs \<and> i < unat (max_gmr_ids g) \<and> r = Inr () \<and>
       g' = g\<lparr>gmr_ida := insert i (gmr_ida g)\<rparr> \<and>
       mem' = mem\<lparr>mm_node := True, mem_start := i, num_pages := p\<rparr>)"
  using assms by (induction g p mem rs rule: gmrid_loop.induct) (auto split: if_splits)


section \<open>Properties\<close>

lemma get_node_limited:
  assumes inv: "gman_inv g live" and lim: "0 < max_gmr_pages g"
    and small: "unat (max_gmr_pages g) + unat bo_pages < 2 ^ 32"
    and fresh: "\<forall>i. Ida_id i \<in> set rs \<longrightarrow> i \<notin> gmr_ida g"
    and run: "vmw_gmrid_man_get_node g bo_pages mem rs = Some (g', mem', r)"
  shows "if mm_node mem'
    then r = Inr () \<and> gman_inv g' ((mem_start mem', unat bo_pages) # live) \<and> mem_start mem' \<notin> gmr_ida g
    else g' = g"
proof -
  have u: "unat (used_gmr_pages g) \<le> unat (max_gmr_pages g)" using inv lim by (simp add: gman_inv_def)
  have c: "unat (ucast bo_pages :: u32) = unat bo_pages" using small by (simp add: unat_ucast_down32)
  with u small have add: "unat (used_gmr_pages g + ucast bo_pages) = unat (used_gmr_pages g) + unat bo_pages"
    by (simp add: unat_add_nowrap)
  let ?g = "g\<lparr>used_gmr_pages := used_gmr_pages g + ucast bo_pages\<rparr>"
  have gb: "gmrid_give_back ?g bo_pages = g" by (simp add: gmrid_give_back_def)
  show ?thesis
  proof (cases "max_gmr_pages g < used_gmr_pages ?g")
    case True
    with run lim gb have "g' = g" "mem' = mem\<lparr>mm_node := False\<rparr>" by (simp_all add: vmw_gmrid_man_get_node_def)
    then show ?thesis by simp
  next
    case False
    with run lim have "gmrid_loop ?g bo_pages (mem\<lparr>mm_node := False\<rparr>) rs = Some (g', mem', r)"
      by (simp add: vmw_gmrid_man_get_node_def)
    from gmrid_loop_cases [OF this] show ?thesis
    proof (elim disjE exE conjE)
      fix i assume i: "Ida_id i \<in> set rs" "i < unat (max_gmr_ids ?g)" "r = Inr ()"
        "g' = ?g\<lparr>gmr_ida := insert i (gmr_ida ?g)\<rparr>"
        "mem' = mem\<lparr>mm_node := False, mm_node := True, mem_start := i, num_pages := bo_pages\<rparr>"
      have "i \<notin> gmr_ida g" using fresh i(1) by blast
      moreover have "unat (used_gmr_pages g) + unat bo_pages \<le> unat (max_gmr_pages g)"
        using False add by (simp add: word_le_nat_alt not_less)
      ultimately show ?thesis using i inv lim add by (auto simp: gman_inv_def)
    qed (simp add: gb)
  qed
qed

lemma get_node_unlimited:
  assumes inv: "gman_inv g live" and lim: "max_gmr_pages g = 0"
    and fresh: "\<forall>i. Ida_id i \<in> set rs \<longrightarrow> i \<notin> gmr_ida g"
    and run: "vmw_gmrid_man_get_node g bo_pages mem rs = Some (g', mem', r)"
  shows "if mm_node mem'
    then r = Inr () \<and> gman_inv g' ((mem_start mem', unat bo_pages) # live) \<and> mem_start mem' \<notin> gmr_ida g \<and>
      used_gmr_pages g' = used_gmr_pages g
    else g' = g\<lparr>used_gmr_pages := used_gmr_pages g - ucast bo_pages\<rparr>"
proof -
  have "gmrid_loop g bo_pages (mem\<lparr>mm_node := False\<rparr>) rs = Some (g', mem', r)"
    using run lim by (simp add: vmw_gmrid_man_get_node_def)
  from gmrid_loop_cases [OF this] show ?thesis
  proof (elim disjE exE conjE)
    fix i assume i: "Ida_id i \<in> set rs" "i < unat (max_gmr_ids g)" "r = Inr ()"
      "g' = g\<lparr>gmr_ida := insert i (gmr_ida g)\<rparr>"
      "mem' = mem\<lparr>mm_node := False, mm_node := True, mem_start := i, num_pages := bo_pages\<rparr>"
    have "i \<notin> gmr_ida g" using fresh i(1) by blast
    then show ?thesis using i inv lim by (simp add: gman_inv_def)
  qed (simp add: gmrid_give_back_def)
qed

text \<open>C10: what a request for pages accounts for.  It either succeeds with an id that was free
  and below the limit of ids, and \<open>mm_node\<close> set, or it hands out no id and leaves \<open>mm_node\<close>
  unset, both when there is no room and when it fails with an error.  With a page limit
  (which, with the request, is below \<open>2 ^ 32\<close>) the pages of a successful request are charged
  and a failing one leaves ids and pages as they were.  Without a limit no request is
  charged, but a failing one still takes its pages off the count, as the code does
  (\<open>unlimited_failure_uncharges\<close>).  The ids that the id allocator returns are not in use.\<close>

theorem vmw_gmrid_man_get_node_accounts:
  assumes inv: "gman_inv g live"
    and small: "0 < max_gmr_pages g \<longrightarrow> unat (max_gmr_pages g) + unat bo_pages < 2 ^ 32"
    and fresh: "\<forall>i. Ida_id i \<in> set rs \<longrightarrow> i \<notin> gmr_ida g"
    and run: "vmw_gmrid_man_get_node g bo_pages mem rs = Some (g', mem', r)"
  shows "if mm_node mem'
    then r = Inr () \<and> gman_inv g' ((mem_start mem', unat bo_pages) # live) \<and> mem_start mem' \<notin> gmr_ida g \<and>
      (max_gmr_pages g = 0 \<longrightarrow> used_gmr_pages g' = used_gmr_pages g)
    else g' = (if 0 < max_gmr_pages g then g
               else g\<lparr>used_gmr_pages := used_gmr_pages g - ucast bo_pages\<rparr>)"
proof (cases "0 < max_gmr_pages g")
  case True
  with get_node_limited [OF inv True _ fresh run] small show ?thesis by auto
next
  case False
  then have "max_gmr_pages g = 0" by (simp add: word_gt_0)
  with get_node_unlimited [OF inv this fresh run] show ?thesis by simp
qed

definition gman_example :: vmwgfx_gmrid_man where
  "gman_example = \<lparr>gmr_ida = {0}, max_gmr_ids = 4, max_gmr_pages = 10, used_gmr_pages = 3\<rparr>"

theorem vmw_gmrid_man_get_node_accounts_witness:
  "\<exists>g'. vmw_gmrid_man_get_node gman_example 7 \<lparr>mm_node = False, mem_start = 0, num_pages = 7\<rparr> [Ida_again, Ida_id 1] =
       Some (g', \<lparr>mm_node = True, mem_start = 1, num_pages = 7\<rparr>, Inr ()) \<and>
     gman_inv g' [(1, 7), (0, 3)]"
proof -
  let ?m = "\<lparr>mm_node = False, mem_start = 0, num_pages = 7\<rparr>"
  have inv: "gman_inv gman_example [(0, 3)]" by (simp add: gman_inv_def gman_example_def)
  have run: "vmw_gmrid_man_get_node gman_example 7 ?m [Ida_again, Ida_id 1] =
      Some (gman_example\<lparr>gmr_ida := {1, 0}, used_gmr_pages := 10\<rparr>,
            \<lparr>mm_node = True, mem_start = 1, num_pages = 7\<rparr>, Inr ())"
    by (simp add: vmw_gmrid_man_get_node_def gman_example_def)
  have pre: "0 < max_gmr_pages gman_example \<longrightarrow> unat (max_gmr_pages gman_example) + unat (7 :: u64) < 2 ^ 32"
    "\<forall>i. Ida_id i \<in> set [Ida_again, Ida_id 1] \<longrightarrow> i \<notin> gmr_ida gman_example"
    by (simp_all add: gman_example_def)
  from vmw_gmrid_man_get_node_accounts [OF inv pre run] run show ?thesis by simp
qed



text \<open>Without a page limit the failure path still gives back pages that were never charged.\<close>

lemma unlimited_failure_uncharges:
  "vmw_gmrid_man_get_node \<lparr>gmr_ida = {}, max_gmr_ids = 4, max_gmr_pages = 0, used_gmr_pages = 0\<rparr> 1 mem [Ida_nomem] =
     Some (\<lparr>gmr_ida = {}, max_gmr_ids = 4, max_gmr_pages = 0, used_gmr_pages = 0 - 1\<rparr>, mem\<lparr>mm_node := False\<rparr>, Inl ENOMEM)"
  by (simp add: vmw_gmrid_man_get_node_def gmrid_give_back_def)

end
