(* ===== verification/Spec2Isabelle.thy ===== *)
theory Spec2Isabelle
  imports Submit_Correct Resource_Inv Ttm_Backend Ttm_Object_Inv Drm_Hashtab Ttm_Bo_Manager Ttm_Lock Gmrid_Manager Irq Cmdbuf_Res Ctx_Binding Execbuf_Inv Execbuf_Ids
begin

text \<open>
  Verification library for vmwgfx, the kernel graphics driver for the VMware SVGA device, with the
  parts of TTM and DRM it is built on.

  \<^bold>\<open>The program.\<close>  A client submits batches of commands.  The command verifier
  (\<open>vmwgfx_execbuf.c\<close>) checks each command, translates the client's handles and lists the resources
  and buffers the batch touches.  Resources (contexts, surfaces, shaders; \<open>vmwgfx_resource.c\<close>) are
  created on the device on demand, live in backup buffers and are evicted when the device is full;
  what is bound to a context is tracked (\<open>vmwgfx_context.c\<close>) so that it can be scrubbed and put back.
  Buffers get their ranges, region ids and page tables from the memory managers
  (\<open>ttm_bo_manager.c\<close> over \<open>drm_mm.c\<close>, \<open>vmwgfx_gmrid_manager.c\<close>, \<open>vmwgfx_mob.c\<close>, \<open>vmwgfx_gmr.c\<close>) through the TTM
  backend (\<open>vmwgfx_buffer.c\<close>), which charges its tables to the memory accounting (\<open>ttm_memory.c\<close>).
  Everything reaches the device through the command FIFO (\<open>vmwgfx_fifo.c\<close>) and is waited for with
  seqnos and fences (\<open>vmwgfx_irq.c\<close>, \<open>vmwgfx_fence.c\<close>, \<open>vmwgfx_marker.c\<close>).

  \<^bold>\<open>Conventions.\<close>  Theories name the functions, fields and constants of the C code as it does.  An
  errno is \<open>Inl\<close> of a result, success \<open>Inr\<close>; \<open>None\<close> of the outermost option is a BUG, a write through
  a null pointer, or a loop that is out of fuel where the text says so.  Programs that pass a state
  along are written with the combinators of \<open>Prog\<close>.  Machine integers are words of their width where
  they can wrap.  What the kernel does (allocation, reservation of buffers, interrupted waits) is an
  argument of the operation that asks for it.  A critical section is one step; locks are modelled
  where they are the subject.
\<close>

text \<open>
  \<^bold>\<open>Theories and the code they model.\<close>

  \<^item> \<open>Prelude\<close>, \<open>Prog\<close>: integers, errors and programs; the locale \<open>step_relation\<close> for what programs keep.
  \<^item> \<open>Device\<close>, \<open>Fifo\<close>: registers, interrupt masks (\<open>svga_reg.h\<close>, \<open>vmwgfx_drv.c\<close>) and the FIFO as a ring of
    words with its reserve, write and commit paths (\<open>vmwgfx_fifo.c\<close>).  C14, C15: the words written are
    appended to the ring, whichever way they are copied, and a failure leaves what was written alone.
  \<^item> \<open>Marker\<close>, \<open>Irq\<close>, \<open>Fence\<close>: markers and the lag (C12, C13), seqnos with their wrap-around and waiting
    (C18, C19), fences with their actions (C16, C17).
  \<^item> \<open>Drm_Hashtab\<close>: the chained hash table as a map from keys to items (C4--C6), through the locale
    \<open>item_table\<close> that its clients rely on.
  \<^item> \<open>Drm_Mm\<close>, \<open>Ttm_Bo_Manager\<close>, \<open>Gmrid_Manager\<close>: ranges and the scan for eviction (allocating C1, freeing C2, and C3:
    every run of allocations and frees), placing a buffer (C9) through the locale \<open>range_allocator\<close>, ids with their pages (C10, C11).
  \<^item> \<open>Ttm_Lock\<close>, \<open>Ttm_Memory\<close>: the TTM lock as a step relation between any number of tasks, of which the
    state counts those that hold each of its locks (C7, C8), and the accounting of memory zones (C33).
  \<^item> \<open>Page_Iter\<close>, \<open>Mob\<close>, \<open>Gmr\<close>, \<open>Ttm_Backend\<close>: how the device finds the pages of a buffer: page tables (C32),
    region descriptors (C34), and the backend that chooses between them (C35, C36).
  \<^item> \<open>Ttm_Object\<close>, \<open>Ttm_Object_Inv\<close>: the objects that clients name by handles, the references their files hold
    and the PRIME descriptors that carry objects between files (\<open>ttm_object.c\<close>).  The sections and steps on
    counts are the actions of a step relation, whose invariant rests on the locale \<open>item_table\<close>: nothing is
    used after it is freed as long as no object is withdrawn after another task found it (C38), closing a file gives up all it held and no more (C39), and a file reaches
    an object exactly if it has a reference to it (C40).
  \<^item> \<open>Cmdbuf_Res\<close>: resources defined by commands: staged additions and removals as updates of a map
    (C20--C22).
  \<^item> \<open>Ctx_Binding\<close>, \<open>Resource\<close>, \<open>Resource_Inv\<close>: bindings (C23--C25); ids, backup buffers, validation and
    eviction, and the agreement between what the driver holds and what the device was told (C30, C31),
    proved for every table of functions through the locale \<open>object_functions\<close>.
  \<^item> \<open>Cmd_Buffer\<close>, \<open>Execbuf_State\<close>, \<open>Execbuf_Cmds\<close>: a batch as bytes, the software context, and one function per
    command with the table that leads to it.  \<open>Execbuf_Rules\<close> has the locales \<open>node_relation\<close>,
    \<open>resource_relation\<close> and \<open>handler_relation\<close>, each extending the one before: a relation
    kept by the few primitives of the verifier is kept by every handler.  They are interpreted in
    \<open>Execbuf_Inv\<close> (the arrays and the table, C28), \<open>Execbuf_Batch\<close> (allowed commands C27, the loop C29) and
    \<open>Execbuf_Ids\<close> (every id is translated, the shader ids of set-shader commands with the others, C26).
  \<^item> \<open>Execbuf_Submit\<close>: the submission, which joins the verifier's software context with the resources of the
    device: reserving, validating, patching, sending and fencing a batch, the pinned query buffer, and the
    error paths.  \<open>Submit_Sends\<close> has what each step can send, \<open>Submit_Inv\<close> that each step before the batch
    keeps the agreement with the device, and \<open>Submit_Correct\<close> what a submission guarantees (C37).  The references that the end of a submission
    gives up are only counted: the release of a resource (\<open>Resource.vmw_resource_release\<close>) is not run there.

  \<^bold>\<open>Fuel and bounds.\<close>  The loops over a batch, over the markers, over the memory zones and over evictions
  take fuel; C29, C13, the lemmas of \<open>Ttm_Memory\<close> on its loops and C30 say how much is enough, or when no amount is:
  a command whose size wraps to zero keeps the verifier busy for ever (\<open>zero_size_never_ends\<close>).
  The loop of \<open>ttm_ref_object_add\<close> needs one round when no other task interferes (C40); that the loop of
  \<open>ttm_object_file_release\<close> ends is part of C39.

  \<^bold>\<open>Side conditions.\<close>  Where the code is wrong outside a condition, the property states the condition or
  the exception, and a lemma shows what happens there: nodes from the reserve of the range manager whose
  flags are not clear (C1, C3, C9; \<open>stale_reserve_node_marked_free\<close>), a VT lock that is taken twice (C7;
  \<open>vt_taken_twice\<close>), a request without a page limit that fails (C10; \<open>unlimited_failure_uncharges\<close>), a bounce
  buffer that cannot be allocated (C15; \<open>vmw_fifo_bounce_leak\<close>), a fence behind the goal that is armed (C17;
  \<open>goal_not_lowered\<close>), a key that a batch stages twice (C22; \<open>revert_loses_replaced\<close>), commands of broken size
  (C26, C29; \<open>misaligned_id_escapes\<close>, \<open>zero_size_never_ends\<close>), a backup buffer for no surface (C28;
  \<open>switch_backup_of_nothing\<close>), memory objects that are too large or whose pages have moved (C32, C35;
  \<open>large_mob_bug\<close>, \<open>rebind_keeps_table\<close>), descriptors that cannot be mapped (C34, C35;
  \<open>failed_mapping_may_succeed\<close>), and an object withdrawn in use (C38; \<open>withdrawn_object_in_use\<close>).

  \<^bold>\<open>Not modelled.\<close>  Ioctls that only copy arguments, the
  set-up and tear-down of the driver (calls in a fixed order into PCI, DRM and the parts above), mode
  setting, frame buffer console, overlays and PRIME, the concurrent core of TTM (\<open>ttm_bo.c\<close>,
  \<open>ttm_page_alloc.c\<close>), whose outcomes are arguments here, and the copy of the DRM core.
\<close>

end
